(* ===== verification/Prelude.thy ===== *)
theory Prelude
  imports Main "HOL-Library.Word"
begin

text \<open>
  Shared vocabulary of the development: the machine types of the C sources
  (\<^verbatim>\<open>src/types.h\<close>), the outcome type of a kernel operation, the
  little-endian byte layout of the SH-4A target, typed accesses into byte arrays
  and into byte-addressed memory, and the generic lemmas the components use.
\<close>

unbundle bit_operations_syntax

section \<open>Machine types\<close>

text \<open>
  \<^verbatim>\<open>uchar\<close>, \<^verbatim>\<open>ushort\<close>/\<^verbatim>\<open>short\<close> and \<^verbatim>\<open>uint\<close>/\<^verbatim>\<open>int\<close>/pointers of the
  32-bit target. A signed reading of a word is \<^const>\<open>sint\<close>.
\<close>

type_synonym u8 = "8 word"
type_synonym u16 = "16 word"
type_synonym u32 = "32 word"
type_synonym memory = "u32 \<Rightarrow> u8"

section \<open>Outcomes\<close>

text \<open>
  A sleep channel is the address of the object slept on; distinct objects have
  distinct addresses, so a channel is named by its object.
\<close>

datatype chan =
    ChanBuf nat | ChanInode nat | ChanPipeRead u32 | ChanPipeWrite u32
  | ChanProc nat | ChanTicks | ChanInput

text \<open>
  An operation returns a value, or stops: \<^verbatim>\<open>panic\<close> with its message, a
  \<^verbatim>\<open>sleep\<close> on a channel that nobody in the same sequential run can end, a
  loop that never ends (\<open>Spin\<close>), or an access through a null pointer (\<open>Fault\<close>).
\<close>

datatype stop = Panic string | Sleep chan | Spin | Fault

type_synonym 'a res = "stop + 'a"

definition bindR :: "'a res \<Rightarrow> ('a \<Rightarrow> 'b res) \<Rightarrow> 'b res" where
  "bindR m f = (case m of Inl e \<Rightarrow> Inl e | Inr x \<Rightarrow> f x)"

section \<open>Little-endian layout\<close>

definition le16 :: "u8 \<Rightarrow> u8 \<Rightarrow> u16" where
  "le16 a b = ucast a OR push_bit 8 (ucast b)"

definition le32 :: "u8 \<Rightarrow> u8 \<Rightarrow> u8 \<Rightarrow> u8 \<Rightarrow> u32" where
  "le32 a b c d =
     ucast a OR push_bit 8 (ucast b) OR push_bit 16 (ucast c) OR push_bit 24 (ucast d)"

definition byte16 :: "nat \<Rightarrow> u16 \<Rightarrow> u8" where
  "byte16 i w = ucast (drop_bit (8 * i) w)"

definition byte32 :: "nat \<Rightarrow> u32 \<Rightarrow> u8" where
  "byte32 i w = ucast (drop_bit (8 * i) w)"

text \<open>Typed accesses into a byte array (a buffer's data, a directory entry).\<close>

definition get16 :: "u8 list \<Rightarrow> nat \<Rightarrow> u16" where
  "get16 xs i = le16 (xs ! i) (xs ! (i + 1))"

definition put16 :: "nat \<Rightarrow> u16 \<Rightarrow> u8 list \<Rightarrow> u8 list" where
  "put16 i w xs = xs[i := byte16 0 w, i + 1 := byte16 1 w]"

definition get32 :: "u8 list \<Rightarrow> nat \<Rightarrow> u32" where
  "get32 xs i = le32 (xs ! i) (xs ! (i + 1)) (xs ! (i + 2)) (xs ! (i + 3))"

definition put32 :: "nat \<Rightarrow> u32 \<Rightarrow> u8 list \<Rightarrow> u8 list" where
  "put32 i w xs =
     xs[i := byte32 0 w, i + 1 := byte32 1 w, i + 2 := byte32 2 w, i + 3 := byte32 3 w]"

text \<open>A run of consecutive 32-bit words, and the copy of one into an array.\<close>

definition get32s :: "u8 list \<Rightarrow> nat \<Rightarrow> nat \<Rightarrow> u32 list" where
  "get32s xs i n = map (\<lambda>k. get32 xs (i + 4 * k)) [0..<n]"

fun put32s :: "nat \<Rightarrow> u32 list \<Rightarrow> u8 list \<Rightarrow> u8 list" where
  "put32s i [] xs = xs"
| "put32s i (w # ws) xs = put32s (i + 4) ws (put32 i w xs)"

text \<open>Copying bytes over part of an array (\<^verbatim>\<open>memmove\<close> into an array at an index).\<close>

definition splice :: "nat \<Rightarrow> 'a list \<Rightarrow> 'a list \<Rightarrow> 'a list" where
  "splice i ys xs = take i xs @ ys @ drop (i + length ys) xs"

text \<open>Word accesses to byte-addressed memory.\<close>

definition load32 :: "memory \<Rightarrow> u32 \<Rightarrow> u32" where
  "load32 m a = le32 (m a) (m (a + 1)) (m (a + 2)) (m (a + 3))"

definition store32 :: "u32 \<Rightarrow> u32 \<Rightarrow> memory \<Rightarrow> memory" where
  "store32 a w m = m(a := byte32 0 w, a + 1 := byte32 1 w, a + 2 := byte32 2 w, a + 3 := byte32 3 w)"

text \<open>The least index of an array that satisfies a test: the shape of every table scan.\<close>

fun find_index :: "('a \<Rightarrow> bool) \<Rightarrow> 'a list \<Rightarrow> nat option" where
  "find_index P [] = None"
| "find_index P (x # xs) = (if P x then Some 0 else map_option Suc (find_index P xs))"

section \<open>Lemma collections\<close>

named_theorems layout \<open>reading back what was written to a byte array\<close>
named_theorems run \<open>equations that run an operation on a state that satisfies its contract\<close>

section \<open>Lemmas on outcomes\<close>

lemma bindR_Inr [simp]: "bindR (Inr x) f = f x"
  by (simp add: bindR_def)

lemma bindR_Inl [simp]: "bindR (Inl e) f = Inl e"
  by (simp add: bindR_def)

lemma bindR_assoc: "bindR (bindR m f) g = bindR m (\<lambda>x. bindR (f x) g)"
  by (simp add: bindR_def split: sum.splits)

lemma bindR_eq_Inr: "bindR m f = Inr y \<longleftrightarrow> (\<exists>x. m = Inr x \<and> f x = Inr y)"
  by (simp add: bindR_def split: sum.splits)

lemma bindR_eq_Inl:
  "bindR m f = Inl e \<longleftrightarrow> m = Inl e \<or> (\<exists>x. m = Inr x \<and> f x = Inl e)"
  by (auto simp: bindR_def split: sum.splits)

lemma bindR_cong [fundef_cong]:
  "m = m' \<Longrightarrow> (\<And>x. m' = Inr x \<Longrightarrow> f x = f' x) \<Longrightarrow> bindR m f = bindR m' f'"
  by (simp add: bindR_def split: sum.splits)

lemma bindR_InrE:
  assumes "bindR m f = Inr y"
  obtains x where "m = Inr x" and "f x = Inr y"
  using assms by (auto simp: bindR_eq_Inr)

section \<open>Lemmas on the layout\<close>

lemma le16_byte16 [simp]: "le16 (byte16 0 w) (byte16 (Suc 0) w) = w"
  by (rule bit_word_eqI) (auto simp: le16_def byte16_def bit_simps)

lemma le32_byte32 [simp]:
  "le32 (byte32 0 w) (byte32 (Suc 0) w) (byte32 2 w) (byte32 3 w) = w"
proof (rule bit_word_eqI)
  fix n
  assume "n < LENGTH(32)"
  then consider "n < 8" | "8 \<le> n" "n < 16" | "16 \<le> n" "n < 24" | "24 \<le> n" "n < 32"
    by (simp; linarith)
  then show "bit (le32 (byte32 0 w) (byte32 (Suc 0) w) (byte32 2 w) (byte32 3 w)) n = bit w n"
    by cases (auto simp: le32_def byte32_def bit_simps)
qed

lemma byte16_le16 [simp]:
  "byte16 0 (le16 a b) = a" "byte16 (Suc 0) (le16 a b) = b"
  by (rule bit_word_eqI, auto simp: le16_def byte16_def bit_simps dest: bit_imp_le_length)+

lemma byte32_le32 [simp]:
  "byte32 0 (le32 a b c d) = a" "byte32 (Suc 0) (le32 a b c d) = b"
  "byte32 2 (le32 a b c d) = c" "byte32 3 (le32 a b c d) = d"
  by (rule bit_word_eqI, auto simp: le32_def byte32_def bit_simps dest: bit_imp_le_length)+

lemma byte_zero [simp]: "byte16 i 0 = 0" "byte32 i 0 = 0"
  by (simp_all add: byte16_def byte32_def)

lemma le_zero [simp]: "le16 0 0 = 0" "le32 0 0 0 0 = 0"
  by (simp_all add: le16_def le32_def)

text \<open>
  The contract of a fixed-width field access. The layouts of \<^verbatim>\<open>struct dinode\<close>,
  \<^verbatim>\<open>struct dirent\<close> and of indirect blocks rest on these four laws only.
\<close>

locale field_access =
  fixes width :: nat
    and get :: "u8 list \<Rightarrow> nat \<Rightarrow> 'w"
    and put :: "nat \<Rightarrow> 'w \<Rightarrow> u8 list \<Rightarrow> u8 list"
  assumes length_put: "length (put i w xs) = length xs"
    and get_put: "i + width \<le> length xs \<Longrightarrow> get (put i w xs) i = w"
    and nth_put: "j < i \<or> i + width \<le> j \<Longrightarrow> put i w xs ! j = xs ! j"
    and get_local: "(\<And>j. i \<le> j \<Longrightarrow> j < i + width \<Longrightarrow> xs ! j = ys ! j) \<Longrightarrow> get xs i = get ys i"
begin

lemma get_put_apart:
  assumes "j + width \<le> i \<or> i + width \<le> j"
  shows "get (put i w xs) j = get xs j"
proof (rule get_local)
  fix k
  assume "j \<le> k" "k < j + width"
  with assms have "k < i \<or> i + width \<le> k" by linarith
  then show "put i w xs ! k = xs ! k" by (rule nth_put)
qed

lemma get_frame:
  assumes "\<And>k. i \<le> k \<Longrightarrow> k < i + width \<Longrightarrow> f xs ! k = xs ! k"
  shows "get (f xs) i = get xs i"
  by (rule get_local) (rule assms)

end

interpretation f16: field_access 2 get16 put16
proof unfold_locales
  fix xs ys :: "u8 list" and i
  assume same: "\<And>j. i \<le> j \<Longrightarrow> j < i + 2 \<Longrightarrow> xs ! j = ys ! j"
  show "get16 xs i = get16 ys i"
    using same [of i] same [of "i + 1"] by (simp add: get16_def)
qed (auto simp: get16_def put16_def nth_list_update)

interpretation f32: field_access 4 get32 put32
proof unfold_locales
  fix xs ys :: "u8 list" and i
  assume same: "\<And>j. i \<le> j \<Longrightarrow> j < i + 4 \<Longrightarrow> xs ! j = ys ! j"
  show "get32 xs i = get32 ys i"
    using same [of i] same [of "i + 1"] same [of "i + 2"] same [of "i + 3"]
    by (simp add: get32_def)
qed (auto simp: get32_def put32_def nth_list_update)

declare f16.length_put [simp] f32.length_put [simp]
declare f16.get_put [layout] f32.get_put [layout]
declare f16.get_put_apart [layout] f32.get_put_apart [layout]
declare f16.nth_put [layout] f32.nth_put [layout]

lemma get16_put32_apart [layout]:
  "j + 2 \<le> i \<or> i + 4 \<le> j \<Longrightarrow> get16 (put32 i w xs) j = get16 xs j"
  by (rule f16.get_frame) (auto intro!: f32.nth_put)

lemma get32_put16_apart [layout]:
  "j + 4 \<le> i \<or> i + 2 \<le> j \<Longrightarrow> get32 (put16 i w xs) j = get32 xs j"
  by (rule f32.get_frame) (auto intro!: f16.nth_put)

lemma length_put32s [simp]: "length (put32s i ws xs) = length xs"
  by (induction ws arbitrary: i xs) auto

lemma nth_put32s [layout]:
  "j < i \<or> i + 4 * length ws \<le> j \<Longrightarrow> put32s i ws xs ! j = xs ! j"
  by (induction ws arbitrary: i xs) (auto simp: f32.nth_put)

lemma get16_put32s_apart [layout]:
  "j + 2 \<le> i \<or> i + 4 * length ws \<le> j \<Longrightarrow> get16 (put32s i ws xs) j = get16 xs j"
  by (rule f16.get_frame) (auto intro!: nth_put32s)

lemma get32_put32s_apart [layout]:
  "j + 4 \<le> i \<or> i + 4 * length ws \<le> j \<Longrightarrow> get32 (put32s i ws xs) j = get32 xs j"
  by (rule f32.get_frame) (auto intro!: nth_put32s)

lemma get32_put32s:
  "k < length ws \<Longrightarrow> i + 4 * length ws \<le> length xs \<Longrightarrow>
   get32 (put32s i ws xs) (i + 4 * k) = ws ! k"
proof (induction ws arbitrary: i xs k)
  case Nil
  then show ?case by simp
next
  case (Cons w ws)
  show ?case
  proof (cases k)
    case 0
    with Cons.prems show ?thesis by (simp add: layout)
  next
    case (Suc k')
    with Cons.prems Cons.IH [of k' "i + 4" "put32 i w xs"] show ?thesis
      by (simp add: add.assoc)
  qed
qed

lemma length_get32s [simp]: "length (get32s xs i n) = n"
  by (simp add: get32s_def)

lemma get32s_put32s [layout]:
  "length ws = n \<Longrightarrow> i + 4 * n \<le> length xs \<Longrightarrow> get32s (put32s i ws xs) i n = ws"
  by (rule nth_equalityI) (auto simp: get32s_def get32_put32s)

lemma get32s_nth [simp]: "k < n \<Longrightarrow> get32s xs i n ! k = get32 xs (i + 4 * k)"
  by (simp add: get32s_def)

lemma get32s_local:
  assumes "\<And>j. i \<le> j \<Longrightarrow> j < i + 4 * n \<Longrightarrow> xs ! j = ys ! j"
  shows "get32s xs i n = get32s ys i n"
proof (rule nth_equalityI)
  fix k
  assume "k < length (get32s xs i n)"
  then show "get32s xs i n ! k = get32s ys i n ! k"
    using assms by (auto intro!: f32.get_local)
qed simp

lemma get_replicate_zero [simp]:
  "i + 2 \<le> n \<Longrightarrow> get16 (replicate n 0) i = 0"
  "i + 4 \<le> n \<Longrightarrow> get32 (replicate n 0) i = 0"
  by (simp_all add: get16_def get32_def)

lemma load32_store32 [simp]: "load32 (store32 a w m) a = w"
  by (simp add: load32_def store32_def)

lemma store32_apart:
  assumes "x \<notin> {a, a + 1, a + 2, a + 3}"
  shows "store32 a w m x = m x"
  using assms by (simp add: store32_def)

section \<open>Lemmas on words\<close>

lemma unat_lt32: "unat (x :: u32) < 2 ^ 32"
  using unsigned_less [of x] by simp

lemma unat_of_nat32: "n < 2 ^ 32 \<Longrightarrow> unat (of_nat n :: u32) = n"
  by (simp add: unat_of_nat take_bit_nat_eq_self)

lemma unat_inj32: "unat (a :: u32) = unat b \<Longrightarrow> a = b"
  by (simp add: word_unat_eq_iff)

lemma block_div_iff: "0 < n \<Longrightarrow> n * k \<le> x \<and> x < n * k + n \<longleftrightarrow> x div n = (k :: nat)"
proof
  assume "0 < n" "n * k \<le> x \<and> x < n * k + n"
  then show "x div n = k" by (intro div_nat_eqI) (auto simp: mult.commute)
next
  assume n: "0 < n" "x div n = k"
  have "x = n * (x div n) + x mod n" by simp
  moreover have "x mod n < n" using n(1) by simp
  ultimately show "n * k \<le> x \<and> x < n * k + n" using n(2) by (metis le_add1 nat_add_left_cancel_less)
qed

lemma div_within: "j mod n + k < n \<Longrightarrow> (j + k) div n = j div (n :: nat)"
  and mod_within: "j mod n + k < n \<Longrightarrow> (j + k) mod n = j mod n + k"
proof -
  assume a: "j mod n + k < n"
  have eq: "j + k = (j mod n + k) + n * (j div n)" by simp
  show "(j + k) div n = j div n" unfolding eq div_mult_self2 [OF order.strict_implies_not_eq [OF le_less_trans [OF le0 a], symmetric]] using a by simp
  show "(j + k) mod n = j mod n + k" unfolding eq mod_mult_self2 using a by simp
qed

section \<open>Lemmas on lists\<close>

lemma length_splice [simp]: "i + length ys \<le> length xs \<Longrightarrow> length (splice i ys xs) = length xs"
  by (simp add: splice_def)

lemma nth_splice:
  "i + length ys \<le> length xs \<Longrightarrow> j < length xs \<Longrightarrow>
   splice i ys xs ! j = (if i \<le> j \<and> j < i + length ys then ys ! (j - i) else xs ! j)"
  by (auto simp: splice_def nth_append)

lemma splice_Nil [simp]: "splice i [] xs = xs"
  by (simp add: splice_def)

lemma find_append:
  "find P (xs @ ys) = (case find P xs of Some x \<Rightarrow> Some x | None \<Rightarrow> find P ys)"
  by (induction xs) auto

lemma upt_split: "i \<le> j \<Longrightarrow> j \<le> k \<Longrightarrow> [i..<k] = [i..<j] @ [j..<k]"
  using upt_add_eq_append [of i j "k - j"] by simp

lemma find_index_SomeD:
  "find_index P xs = Some i \<Longrightarrow> i < length xs \<and> P (xs ! i) \<and> (\<forall>j<i. \<not> P (xs ! j))"
proof (induction xs arbitrary: i)
  case Nil
  then show ?case by simp
next
  case (Cons x xs)
  then show ?case
    by (cases i) (auto simp: less_Suc_eq_0_disj nth_Cons split: if_splits nat.splits)
qed

lemma find_index_eqI:
  "i < length xs \<Longrightarrow> P (xs ! i) \<Longrightarrow> (\<And>j. j < i \<Longrightarrow> \<not> P (xs ! j)) \<Longrightarrow> find_index P xs = Some i"
proof (induction xs arbitrary: i)
  case (Cons x xs)
  show ?case
  proof (cases i)
    case (Suc k)
    have "\<not> P x" using Cons.prems(3) [of 0] Suc by simp
    moreover have "find_index P xs = Some k" using Cons.IH [of k] Cons.prems(1,2) Cons.prems(3) [of "Suc j" for j] Suc by simp
    ultimately show ?thesis using Suc by simp
  qed (use Cons.prems in simp)
qed simp

lemma find_index_None: "find_index P xs = None \<longleftrightarrow> (\<forall>x\<in>set xs. \<not> P x)"
  by (induction xs) auto

lemma find_index_NoneD: "find_index P xs = None \<Longrightarrow> i < length xs \<Longrightarrow> \<not> P (xs ! i)"
  by (simp add: find_index_None)

text \<open>Signed readings of 32-bit words.\<close>

lemma sint_small: "unat (n :: u32) < 2 ^ 31 \<Longrightarrow> sint n = int (unat n)"
proof -
  assume "unat n < 2 ^ 31"
  then have "int (unat n) < int (2 ^ 31)" by (rule of_nat_less_iff [THEN iffD2])
  then have "uint n < 2 ^ 31" by simp
  then have "sint n = uint n" unfolding sint_uint signed_take_bit_int_eq_self_iff by (simp add: order_trans [OF _ uint_ge_0])
  then show ?thesis by simp
qed

lemma unat_sint: "0 \<le> sint (a :: u32) \<Longrightarrow> int (unat a) = sint a"
proof -
  assume "0 \<le> sint a"
  moreover have "sint a < 2 ^ 31" using sint_less [of a] by simp
  ultimately have "take_bit 32 (sint a) = sint a" by (simp add: take_bit_int_eq_self_iff)
  then show ?thesis using uint_sint [of a] by simp
qed

end
