(* ===== verification/CString.thy ===== *)
theory CString
  imports Prelude
begin

text \<open>
  The string and memory routines of \<^verbatim>\<open>src/string.c\<close>. Routines that write work on
  byte-addressed memory and pointers, with the loops of the source; routines that
  only read take the bytes a pointer reads, one after the other, as a view
  \<^typ>\<open>nat \<Rightarrow> u8\<close>. A loop that counts an unsigned \<^verbatim>\<open>n\<close> down to 0 is a recursion on
  \<^typ>\<open>nat\<close>. The lemmas give each routine's effect in closed form: what
  \<^verbatim>\<open>memmove\<close> copies when the regions overlap, which strings \<^verbatim>\<open>strncmp\<close> identifies, what
  \<^verbatim>\<open>strncpy\<close> and \<^verbatim>\<open>safestrcpy\<close> leave in the destination.
\<close>

section \<open>Operations\<close>

type_synonym view = "nat \<Rightarrow> u8"

text \<open>What a pointer into memory reads, and what a pointer to an array object reads.\<close>

definition at :: "memory \<Rightarrow> u32 \<Rightarrow> view" where
  "at m p = (\<lambda>i. m (p + of_nat i))"

definition array :: "u8 list \<Rightarrow> view" where
  "array xs = (\<lambda>i. if i < length xs then xs ! i else 0)"

definition next_view :: "view \<Rightarrow> view" where
  "next_view v = (\<lambda>i. v (Suc i))"

fun memset :: "memory \<Rightarrow> u32 \<Rightarrow> u8 \<Rightarrow> nat \<Rightarrow> memory" where
  "memset m s1 c 0 = m"
| "memset m s1 c (Suc n) = memset (m(s1 := c)) (s1 + 1) c n"

fun memcmp :: "view \<Rightarrow> view \<Rightarrow> nat \<Rightarrow> int" where
  "memcmp s1 s2 0 = 0"
| "memcmp s1 s2 (Suc n) =
     (if s1 0 \<noteq> s2 0 then int (unat (s1 0)) - int (unat (s2 0))
      else memcmp (next_view s1) (next_view s2) n)"

fun copy_up :: "memory \<Rightarrow> u32 \<Rightarrow> u32 \<Rightarrow> nat \<Rightarrow> memory" where
  "copy_up m d s 0 = m"
| "copy_up m d s (Suc n) = copy_up (m(d := m s)) (d + 1) (s + 1) n"

fun copy_down :: "memory \<Rightarrow> u32 \<Rightarrow> u32 \<Rightarrow> nat \<Rightarrow> memory" where
  "copy_down m d s 0 = m"
| "copy_down m d s (Suc n) = copy_down (m(d - 1 := m (s - 1))) (d - 1) (s - 1) n"

definition memmove :: "memory \<Rightarrow> u32 \<Rightarrow> u32 \<Rightarrow> u32 \<Rightarrow> memory" where
  "memmove m dst src n =
     (if src < dst \<and> src + n > dst then copy_down m (dst + n) (src + n) (unat n)
      else copy_up m dst src (unat n))"

definition memcpy :: "memory \<Rightarrow> u32 \<Rightarrow> u32 \<Rightarrow> u32 \<Rightarrow> memory" where
  "memcpy m dst src n = memmove m dst src n"

fun strncmp :: "view \<Rightarrow> view \<Rightarrow> nat \<Rightarrow> int" where
  "strncmp p q 0 = 0"
| "strncmp p q (Suc n) =
     (if p 0 \<noteq> 0 \<and> p 0 = q 0 then strncmp (next_view p) (next_view q) n
      else int (unat (p 0)) - int (unat (q 0)))"

fun strncpy_pad :: "memory \<Rightarrow> u32 \<Rightarrow> nat \<Rightarrow> memory" where
  "strncpy_pad m s 0 = m"
| "strncpy_pad m s (Suc n) = strncpy_pad (m(s := 0)) (s + 1) n"

fun strncpy :: "memory \<Rightarrow> u32 \<Rightarrow> u32 \<Rightarrow> nat \<Rightarrow> memory" where
  "strncpy m s t 0 = m"
| "strncpy m s t (Suc n) =
     (let c = m t; m' = m(s := c) in
      if c \<noteq> 0 then strncpy m' (s + 1) (t + 1) n else strncpy_pad m' (s + 1) n)"

fun safestrcpy :: "memory \<Rightarrow> u32 \<Rightarrow> u32 \<Rightarrow> nat \<Rightarrow> memory" where
  "safestrcpy m s t 0 = m"
| "safestrcpy m s t (Suc 0) = m(s := 0)"
| "safestrcpy m s t (Suc (Suc n)) =
     (let c = m t; m' = m(s := c) in
      if c \<noteq> 0 then safestrcpy m' (s + 1) (t + 1) (Suc n) else m'(s + 1 := 0))"

partial_function (option) strlen_from :: "view \<Rightarrow> nat \<Rightarrow> nat option" where
  "strlen_from s n = (if s n \<noteq> 0 then strlen_from s (Suc n) else Some n)"

definition strlen :: "view \<Rightarrow> nat option" where
  "strlen s = strlen_from s 0"

text \<open>\<^verbatim>\<open>safestrcpy\<close> into an array object \<open>s\<close>, with the size of the array as its bound.\<close>

fun safestrcpy_array :: "u8 list \<Rightarrow> view \<Rightarrow> u8 list" where
  "safestrcpy_array [] t = []"
| "safestrcpy_array [x] t = [0]"
| "safestrcpy_array (x # y # s) t =
     (if t 0 \<noteq> 0 then t 0 # safestrcpy_array (y # s) (next_view t) else 0 # 0 # s)"

text \<open>
  Specification notions: the string a pointer denotes, cut at \<open>n\<close> bytes, and the
  \<open>n\<close> bytes that \<^verbatim>\<open>strncpy\<close> is meant to leave.
\<close>

definition cstr :: "view \<Rightarrow> nat \<Rightarrow> u8 list" where
  "cstr v n = takeWhile (\<lambda>c. c \<noteq> 0) (map v [0..<n])"

definition padded :: "nat \<Rightarrow> u8 list \<Rightarrow> u8 list" where
  "padded n xs = xs @ replicate (n - length xs) 0"

definition strncpy_bytes :: "view \<Rightarrow> nat \<Rightarrow> u8 list" where
  "strncpy_bytes t n = padded n (cstr t n)"

section \<open>Pointer arithmetic\<close>

lemma of_nat_less_iff32: "n < 2 ^ 32 \<Longrightarrow> m < 2 ^ 32 \<Longrightarrow> (of_nat n :: u32) < of_nat m \<longleftrightarrow> n < m"
  by (simp add: word_less_nat_alt unat_of_nat)

lemma unat_ptr_add:
  "unat (p :: u32) + n < 2 ^ 32 \<Longrightarrow> unat (p + of_nat n) = unat p + n"
  by (simp add: unat_word_ariths unat_of_nat)

lemma ptr_diff_Suc: "(x - (p + 1) :: u32) = x - p - 1"
  by simp

lemma offset_Suc_iff:
  fixes x p :: u32
  assumes "Suc n \<le> 2 ^ 32"
  shows "unat (x - p) < Suc n \<longleftrightarrow> x = p \<or> (x \<noteq> p \<and> unat (x - (p + 1)) < n)"
proof (cases "x = p")
  case True
  then show ?thesis by simp
next
  case False
  then have "0 < x - p" by (simp add: word_gt_0)
  then have "unat (x - p - 1) = unat (x - p) - 1"
    by (simp add: unat_minus_one word_gt_0)
  then have "unat (x - (p + 1)) = unat (x - p) - 1"
    by (simp add: diff_diff_add)
  moreover from False have "unat (x - p) \<noteq> 0" by (simp add: unat_eq_0)
  ultimately show ?thesis using False by auto
qed

lemma wrap: "unat (- 1 :: u32) < n \<longleftrightarrow> 2 ^ 32 \<le> n"
  by (auto simp: unsigned_minus_1_eq_mask mask_eq_exp_minus_1)

lemma at_Suc [simp]: "next_view (at m p) = at m (p + 1)"
  by (simp add: next_view_def at_def fun_eq_iff algebra_simps)

section \<open>Filling and copying\<close>

lemma memset_apply:
  "n \<le> 2 ^ 32 \<Longrightarrow> memset m p c n x = (if unat (x - p) < n then c else m x)"
proof (induction n arbitrary: m p)
  case 0
  then show ?case by simp
next
  case (Suc n)
  then have IH: "memset (m(p := c)) (p + 1) c n x = (if unat (x - (p + 1)) < n then c else (m(p := c)) x)"
    by simp
  have "unat (x - p) < Suc n \<longleftrightarrow> x = p \<or> (x \<noteq> p \<and> unat (x - (p + 1)) < n)"
    using Suc.prems by (rule offset_Suc_iff)
  with IH show ?case by (cases "x = p") simp_all
qed

lemma strncpy_pad_memset: "strncpy_pad m s n = memset m s 0 n"
  by (induction n arbitrary: m s) auto

definition copied :: "memory \<Rightarrow> u32 \<Rightarrow> u32 \<Rightarrow> nat \<Rightarrow> memory" where
  "copied m d s n = (\<lambda>x. if unat (x - d) < n then m (s + (x - d)) else m x)"

lemma copy_up_copied:
  "n \<le> 2 ^ 32 \<Longrightarrow> d = s \<or> n \<le> unat (d - s) \<Longrightarrow> copy_up m d s n = copied m d s n"
proof (induction n arbitrary: m d s)
  case 0
  then show ?case by (simp add: copied_def)
next
  case (Suc n)
  have IH: "copy_up (m(d := m s)) (d + 1) (s + 1) n = copied (m(d := m s)) (d + 1) (s + 1) n"
    using Suc.prems by (intro Suc.IH) auto
  show ?case
  proof
    fix x
    have split: "unat (x - d) < Suc n \<longleftrightarrow> x = d \<or> (x \<noteq> d \<and> unat (x - (d + 1)) < n)"
      using Suc.prems(1) by (rule offset_Suc_iff)
    have own: "(m(d := m s)) s = m s" by simp
    have "(m(d := m s)) (s + (x - d)) = m (s + (x - d))" if "x \<noteq> d" "unat (x - d) < Suc n"
    proof (cases "s + (x - d) = d")
      case True
      then have "d - s = x - d" by (auto simp: algebra_simps)
      with that Suc.prems(2) have "d = s" by auto
      then show ?thesis by simp
    qed simp
    moreover have "copy_up m d s (Suc n) x = copied (m(d := m s)) (d + 1) (s + 1) n x"
      using IH by simp
    moreover have "s + 1 + (x - (d + 1)) = s + (x - d)" by simp
    ultimately show "copy_up m d s (Suc n) x = copied m d s (Suc n) x"
      using split by (cases "x = d") (auto simp: copied_def fun_upd_same fun_upd_other own simp del: fun_upd_apply)
  qed
qed

lemma copy_down_copied:
  "n \<le> 2 ^ 32 \<Longrightarrow> d = s \<or> n \<le> unat (s - d) \<Longrightarrow>
   copy_down m (d + of_nat n) (s + of_nat n) n = copied m d s n"
proof (induction n arbitrary: m)
  case 0
  then show ?case by (simp add: copied_def)
next
  case (Suc n)
  define m' where "m' = m(d + of_nat n := m (s + of_nat n))"
  have IH: "copy_down m' (d + of_nat n) (s + of_nat n) n = copied m' d s n"
    using Suc.prems by (intro Suc.IH) auto
  have n32: "unat (of_nat n :: u32) = n" using Suc.prems(1) by (simp add: unat_of_nat)
  show ?case
  proof
    fix x
    have far: "s + (x - d) \<noteq> d + of_nat n \<or> s = d" if lt: "unat (x - d) < n"
    proof (rule ccontr)
      assume "\<not> (s + (x - d) \<noteq> d + of_nat n \<or> s = d)"
      then have eq: "s - d = of_nat n - (x - d)" and ne: "s \<noteq> d" by (auto simp: algebra_simps)
      have "x - d \<le> of_nat n" using lt n32 by (simp add: word_le_nat_alt)
      then have "unat (of_nat n - (x - d)) \<le> n" using n32 by (simp only: unat_sub)
      then have "unat (s - d) \<le> n" by (simp only: eq)
      with Suc.prems(2) ne show False by auto
    qed
    have last: "unat (x - d) < Suc n \<longleftrightarrow> unat (x - d) < n \<or> x = d + of_nat n"
    proof -
      have "x = d + of_nat n \<longleftrightarrow> x - d = of_nat n" by (auto simp: algebra_simps)
      also have "\<dots> \<longleftrightarrow> unat (x - d) = n" using n32 by (metis word_unat_eq_iff)
      finally show ?thesis by auto
    qed
    have "copy_down m (d + of_nat (Suc n)) (s + of_nat (Suc n)) (Suc n) x = copied m' d s n x"
      using IH by (simp add: m'_def algebra_simps)
    also have "\<dots> = copied m d s (Suc n) x"
      using far last n32 by (auto simp: copied_def m'_def)
    finally show "copy_down m (d + of_nat (Suc n)) (s + of_nat (Suc n)) (Suc n) x
      = copied m d s (Suc n) x" .
  qed
qed

lemma memmove_eq:
  assumes "unat src + unat n < 2 ^ 32" and "unat dst + unat n \<le> 2 ^ 32"
  shows "memmove m dst src n = (\<lambda>x. if x - dst < n then m (src + (x - dst)) else m x)"
proof -
  have n: "unat n \<le> 2 ^ 32" using assms(1) by simp
  have sum: "unat (src + n) = unat src + unat n"
    using assms(1) by (simp add: unat_word_ariths)
  have "memmove m dst src n = copied m dst src (unat n)"
  proof (cases "src < dst \<and> src + n > dst")
    case True
    then have "unat src < unat dst" by (simp add: word_less_nat_alt)
    then have "unat (src - dst) = 2 ^ 32 + unat src - unat dst"
      using unat_lt32 [of dst] by (simp add: unat_sub_if')
    then have "unat n \<le> unat (src - dst)" using assms(2) by simp
    with True n copy_down_copied [of "unat n" dst src m] show ?thesis
      by (simp add: memmove_def)
  next
    case False
    then have "unat dst \<le> unat src \<or> unat src + unat n \<le> unat dst"
      using sum by (auto simp: word_less_nat_alt)
    then have "dst = src \<or> unat n \<le> unat (dst - src)"
      using assms unat_lt32 [of src] by (auto simp: unat_sub_if' word_unat_eq_iff)
    with n have "copy_up m dst src (unat n) = copied m dst src (unat n)"
      by (rule copy_up_copied)
    with False show ?thesis by (simp only: memmove_def if_False)
  qed
  then show ?thesis by (simp add: copied_def word_less_nat_alt)
qed

text \<open>
  \<^verbatim>\<open>memmove\<close> copies the source region as it was before the call, whether or not the
  two regions overlap, and writes nothing else, provided neither region runs past the
  end of the address space.
\<close>

theorem memmove_correct:
  assumes "unat src + unat n < 2 ^ 32" and "unat dst + unat n \<le> 2 ^ 32"
  shows "memmove m dst src n = (\<lambda>x. if x - dst < n then m (src + (x - dst)) else m x)"
  by (rule memmove_eq [OF assms])

theorem memmove_correct_witness:
  "map (memmove (\<lambda>x. ucast x) 2 0 3) [0, 1, 2, 3, 4, 5] = [0, 1, 0, 1, 2, 5]"
  using memmove_correct [of 0 3 2 "\<lambda>x. ucast x"] by simp

section \<open>Comparing strings\<close>

lemma cstr_0 [simp]: "cstr v 0 = []"
  by (simp add: cstr_def)

lemma cstr_Suc: "cstr v (Suc n) = (if v 0 = 0 then [] else v 0 # cstr (next_view v) n)"
proof -
  have "map v [0..<Suc n] = v 0 # map (next_view v) [0..<n]"
    by (simp add: upt_conv_Cons map_Suc_upt [symmetric] next_view_def del: upt_Suc)
  then show ?thesis by (simp add: cstr_def)
qed

lemma length_cstr: "length (cstr v n) \<le> n"
  by (induction n arbitrary: v) (auto simp: cstr_Suc)

lemma cstr_cong: "(\<And>i. i < n \<Longrightarrow> v i = w i) \<Longrightarrow> cstr v n = cstr w n"
  by (auto simp: cstr_def intro!: arg_cong [where f = "takeWhile _"])

lemma strncmp_eq_0: "strncmp p q n = 0 \<longleftrightarrow> cstr p n = cstr q n"
proof (induction n arbitrary: p q)
  case 0
  then show ?case by simp
next
  case (Suc n)
  show ?case
  proof (cases "p 0 \<noteq> 0 \<and> p 0 = q 0")
    case True
    with Suc show ?thesis by (simp add: cstr_Suc)
  next
    case False
    have "int (unat (p 0)) - int (unat (q 0)) = 0 \<longleftrightarrow> p 0 = q 0"
      by (metis eq_iff_diff_eq_0 of_nat_eq_iff word_unat_eq_iff)
    with False show ?thesis by (auto simp: cstr_Suc)
  qed
qed

section \<open>Copying strings\<close>

lemma length_strncpy_bytes [simp]: "length (strncpy_bytes t n) = n"
  using length_cstr [of t n] by (simp add: strncpy_bytes_def padded_def)

lemma strncpy_bytes_Suc:
  "strncpy_bytes t (Suc n) =
     t 0 # (if t 0 = 0 then replicate n 0 else strncpy_bytes (next_view t) n)"
  by (simp add: strncpy_bytes_def padded_def cstr_Suc)

lemma strncpy_bytes_cong:
  "(\<And>i. i < n \<Longrightarrow> v i = w i) \<Longrightarrow> strncpy_bytes v n = strncpy_bytes w n"
  using cstr_cong [of n v w] by (simp add: strncpy_bytes_def)

lemma cstr_strncpy_bytes: "cstr (array (strncpy_bytes t n)) n = cstr t n"
proof (induction n arbitrary: t)
  case 0
  then show ?case by simp
next
  case (Suc n)
  have "next_view (array (c # xs)) = array xs" for c xs
    by (auto simp: next_view_def array_def fun_eq_iff)
  moreover have "array (c # xs) 0 = c" for c xs by (simp add: array_def)
  ultimately show ?case using Suc by (simp add: cstr_Suc strncpy_bytes_Suc)
qed

text \<open>
  What \<^verbatim>\<open>strncpy\<close> writes when the destination does not overlap the source: the string,
  cut at \<open>n\<close> bytes and padded with zeros to exactly \<open>n\<close>.
\<close>

lemma strncpy_apply:
  "n \<le> 2 ^ 32 \<Longrightarrow> (\<And>i. i < n \<Longrightarrow> n \<le> unat (t + of_nat i - s)) \<Longrightarrow>
   strncpy m s t n x = (if unat (x - s) < n then strncpy_bytes (at m t) n ! unat (x - s) else m x)"
proof (induction n arbitrary: m s t)
  case 0
  then show ?case by simp
next
  case (Suc n)
  define m' where "m' = m(s := m t)"
  have m': "m' s = m t" "y \<noteq> s \<Longrightarrow> m' y = m y" for y by (simp_all add: m'_def)
  have split: "unat (x - s) < Suc n \<longleftrightarrow> x = s \<or> (x \<noteq> s \<and> unat (x - (s + 1)) < n)"
    using Suc.prems(1) by (rule offset_Suc_iff)
  have shift: "unat (x - s) = Suc (unat (x - (s + 1)))" if "x \<noteq> s"
    using that by (simp add: unat_minus_one word_gt_0 diff_diff_add [symmetric] unat_gt_0)
  have apart: "n \<le> unat (t + 1 + of_nat i - (s + 1))" if "i < n" for i
    using Suc.prems(2) [of i] that by (simp add: add_diff_eq)
  have keep: "at m' (t + 1) i = at m (t + 1) i" if "i < n" for i
  proof -
    from that have "t + of_nat (Suc i) \<noteq> s"
      using Suc.prems(2) [of "Suc i"] by auto
    then show ?thesis by (simp add: at_def m'_def add.assoc)
  qed
  have IH: "strncpy m' (s + 1) (t + 1) n x =
      (if unat (x - (s + 1)) < n then strncpy_bytes (at m (t + 1)) n ! unat (x - (s + 1)) else m' x)"
    using Suc.IH [of "t + 1" "s + 1" m'] Suc.prems(1) apart strncpy_bytes_cong [OF keep] by simp
  have pad: "strncpy_pad m' (s + 1) n x = (if unat (x - (s + 1)) < n then 0 else m' x)"
    using Suc.prems(1) by (simp add: strncpy_pad_memset memset_apply)
  have "at m t 0 = m t" by (simp add: at_def)
  moreover have "strncpy m s t (Suc n) x =
      (if m t \<noteq> 0 then strncpy m' (s + 1) (t + 1) n x else strncpy_pad m' (s + 1) n x)"
    by (simp add: m'_def)
  ultimately show ?case
    using split shift wrap [of n] Suc.prems(1) IH pad
    by (cases "x = s"; cases "m t = 0") (auto simp: strncpy_bytes_Suc m')
qed

text \<open>The array form leaves the source string, cut at one byte less than the array has.\<close>

lemma safestrcpy_array_cstr:
  "length s = Suc n \<Longrightarrow> takeWhile (\<lambda>c. c \<noteq> 0) (safestrcpy_array s t) = cstr t n"
proof (induction s t arbitrary: n rule: safestrcpy_array.induct)
  case (3 x y s t)
  then obtain m where m: "n = Suc m" "length (y # s) = Suc m" by auto
  have "cstr t n = (if t 0 \<noteq> 0 then t 0 # cstr (next_view t) m else [])"
    by (simp add: m(1) cstr_def upt_conv_Cons map_Suc_upt [symmetric] comp_def next_view_def del: upt_Suc)
  then show ?case using 3(1) [OF _ m(2)] by simp
qed (auto simp: cstr_def)

text \<open>
  \<^verbatim>\<open>safestrcpy\<close> always terminates the copy: it leaves the source string cut at
  \<open>n - 1\<close> bytes, then a NUL, and a second NUL behind it when the source ended early.
\<close>

lemma safestrcpy_apply:
  "Suc n \<le> 2 ^ 32 \<Longrightarrow> (\<And>i. i < n \<Longrightarrow> Suc n \<le> unat (t + of_nat i - s)) \<Longrightarrow>
   safestrcpy m s t (Suc n) x =
     (let c = cstr (at m t) n; k = unat (x - s) in
      if k < length c then c ! k
      else if k = length c \<or> k = Suc (length c) \<and> length c < n then 0 else m x)"
proof (induction n arbitrary: m s t)
  case 0
  have "unat (x - s) = 0 \<longleftrightarrow> x = s" by (simp add: unat_eq_0)
  then show ?case by (simp add: cstr_def)
next
  case (Suc n)
  define m' where "m' = m(s := m t)"
  have shift: "unat (x - s) = Suc (unat (x - (s + 1)))" if "x \<noteq> s"
    using that by (simp add: unat_minus_one word_gt_0 diff_diff_add [symmetric] unat_gt_0)
  have apart: "Suc n \<le> unat (t + 1 + of_nat i - (s + 1))" if "i < n" for i
    using Suc.prems(2) [of i] that by (simp add: add_diff_eq)
  have keep: "at m' (t + 1) i = at m (t + 1) i" if "i < n" for i
  proof -
    from that have "t + of_nat (Suc i) \<noteq> s"
      using Suc.prems(2) [of "Suc i"] by auto
    then show ?thesis by (simp add: at_def m'_def add.assoc)
  qed
  have last: "unat (x - (s + 1)) < Suc n \<Longrightarrow> x \<noteq> s"
    using Suc.prems(1) by (auto simp: wrap)
  let ?k = "unat (x - (s + 1))" and ?c = "cstr (at m (t + 1)) n"
  have IH: "safestrcpy m' (s + 1) (t + 1) (Suc n) x =
      (if ?k < length ?c then ?c ! ?k
       else if ?k = length ?c \<or> ?k = Suc (length ?c) \<and> length ?c < n then 0 else m' x)"
    using Suc.IH [of "t + 1" "s + 1" m'] Suc.prems(1) apart cstr_cong [OF keep]
    by (simp add: Let_def)
  have hd: "at m t 0 = m t" by (simp add: at_def)
  have len: "length ?c \<le> n" by (rule length_cstr)
  show ?case
  proof (cases "m t = 0")
    case True
    have "unat (x - s) = 0 \<longleftrightarrow> x = s" by (simp add: unat_eq_0)
    moreover have "unat (x - s) = 1 \<longleftrightarrow> x - s = 1" by (metis unat_1 word_unat_eq_iff)
    then have "unat (x - s) = 1 \<longleftrightarrow> x = s + 1" by (auto simp: algebra_simps)
    ultimately show ?thesis using True hd by (auto simp: cstr_Suc Let_def)
  next
    case False
    have "safestrcpy m s t (Suc (Suc n)) x = safestrcpy m' (s + 1) (t + 1) (Suc n) x"
      using False by (simp add: m'_def)
    also have "\<dots> = (if ?k < length ?c then ?c ! ?k
       else if ?k = length ?c \<or> ?k = Suc (length ?c) \<and> length ?c < n then 0 else m' x)"
      by (rule IH)
    also have "\<dots> = (let c = cstr (at m t) (Suc n); k = unat (x - s) in
        if k < length c then c ! k
        else if k = length c \<or> k = Suc (length c) \<and> length c < Suc n then 0 else m x)"
      using False hd shift last len [unfolded le_eq_less_or_eq] by (cases "x = s") (auto simp: cstr_Suc Let_def m'_def)
    finally show ?thesis .
  qed
qed

text \<open>\<^verbatim>\<open>strlen\<close> returns on every string that has a terminator, with the index of the first one.\<close>

lemma strlen_from_Some:
  "n \<le> k \<Longrightarrow> (\<And>i. n \<le> i \<Longrightarrow> i < k \<Longrightarrow> s i \<noteq> 0) \<Longrightarrow> s k = 0 \<Longrightarrow> strlen_from s n = Some k"
proof (induction "k - n" arbitrary: n)
  case 0
  then show ?case by (simp add: strlen_from.simps)
next
  case (Suc d)
  then show ?case by (subst strlen_from.simps) simp
qed

lemma strlen_Some: "(\<And>i. i < k \<Longrightarrow> s i \<noteq> 0) \<Longrightarrow> s k = 0 \<Longrightarrow> strlen s = Some k"
  by (simp add: strlen_def strlen_from_Some)

end
