(* ===== verification/Spinlock.thy ===== *)
theory Spinlock
  imports Prelude
begin

text \<open>
  Spin locks and interrupt masking (\<^verbatim>\<open>src/spinlock.c\<close>, the status register access of
  \<^verbatim>\<open>src/sh4.h\<close>). The state is the status register, the per-CPU nesting counter and
  saved flag, and every lock of the kernel. The kernel runs on one CPU
  (\<^verbatim>\<open>cpus[1]\<close>), so a lock's \<^verbatim>\<open>cpu\<close> pointer is null or points at that CPU.
  The lemmas show that holding a lock keeps interrupts blocked, that the nesting counter
  counts the locks held, and what an \<^verbatim>\<open>acquire\<close>/\<^verbatim>\<open>release\<close> pair leaves behind; the last
  is the form in which every other component uses locks.
\<close>

section \<open>State\<close>

datatype lockid =
    LKmem | LPtable | LBcache | LIde | LIcache | LFtable | LTicks | LCons | LInput | LPipe u32

record spinlock =
  locked :: u32
  lock_name :: string
  lock_cpu :: "nat option"
  pcs :: "u32 list"

record lockst =
  sr :: u32
  ncli :: int
  intena :: u32
  locks :: "lockid \<Rightarrow> spinlock"

record klock =
  lk :: lockst

definition SR_BL_DISABLE :: u32 where "SR_BL_DISABLE = 0x10000000"
definition SR_BL_ENABLE :: u32 where "SR_BL_ENABLE = 0xefffffff"
definition SR_BL_MASK :: u32 where "SR_BL_MASK = 0x10000000"

section \<open>Operations\<close>

definition cli :: "lockst \<Rightarrow> lockst" where
  "cli k = k\<lparr>sr := sr k OR SR_BL_DISABLE\<rparr>"

definition sti :: "lockst \<Rightarrow> lockst" where
  "sti k = k\<lparr>sr := sr k AND SR_BL_ENABLE\<rparr>"

definition initlock :: "lockid \<Rightarrow> string \<Rightarrow> 'a klock_scheme \<Rightarrow> 'a klock_scheme" where
  "initlock l nm s =
     s\<lparr>lk := (lk s)\<lparr>locks := (locks (lk s))
        (l := (locks (lk s) l)\<lparr>lock_name := nm, locked := 0, lock_cpu := None\<rparr>)\<rparr>\<rparr>"

text \<open>The frame walk is cut off by a \<^verbatim>\<open>break\<close> in its first round: ten zeros are stored.\<close>

definition getcallerpcs :: "u32 list" where
  "getcallerpcs = replicate 10 0"

definition holding :: "lockid \<Rightarrow> lockst \<Rightarrow> bool" where
  "holding l k \<longleftrightarrow> locked (locks k l) \<noteq> 0 \<and> lock_cpu (locks k l) = Some 0"

definition pushcli :: "lockst \<Rightarrow> lockst" where
  "pushcli k =
     (let old = sr k; k = cli k; depth = ncli k; k = k\<lparr>ncli := depth + 1\<rparr> in
      if depth = 0 then k\<lparr>intena := old OR SR_BL_MASK\<rparr> else k)"

definition popcli :: "lockst \<Rightarrow> lockst res" where
  "popcli k =
     (if sr k AND SR_BL_MASK = 0 then Inl (Panic ''popcli - interruptible'')
      else let k = k\<lparr>ncli := ncli k - 1\<rparr> in
        if ncli k < 0 then Inl (Panic ''popcli'')
        else if ncli k = 0 \<and> intena k \<noteq> 0 then Inr (sti k) else Inr k)"

definition acquire :: "lockid \<Rightarrow> 'a klock_scheme \<Rightarrow> 'a klock_scheme res" where
  "acquire l s =
     (let k = pushcli (lk s) in
      if holding l k then Inl (Panic ''acquire'')
      else if locked (locks k l) \<noteq> 0 then Inl Spin
      else Inr (s\<lparr>lk := k\<lparr>locks := (locks k)
        (l := (locks k l)\<lparr>locked := 1, lock_cpu := Some 0, pcs := getcallerpcs\<rparr>)\<rparr>\<rparr>))"

definition release :: "lockid \<Rightarrow> 'a klock_scheme \<Rightarrow> 'a klock_scheme res" where
  "release l s =
     (let k = lk s in
      if \<not> holding l k then Inl (Panic ''release'')
      else bindR (popcli (k\<lparr>locks := (locks k)
          (l := (locks k l)\<lparr>pcs := (pcs (locks k l))[0 := 0], lock_cpu := None, locked := 0\<rparr>)\<rparr>))
        (\<lambda>k. Inr (s\<lparr>lk := k\<rparr>)))"

section \<open>The lock state machine\<close>

text \<open>The locks right after boot: all free, interrupts as the boot code left them.\<close>

definition free_lock :: "string \<Rightarrow> spinlock" where
  "free_lock nm = \<lparr>locked = 0, lock_name = nm, lock_cpu = None, pcs = replicate 10 0\<rparr>"

definition boot_locks :: "u32 \<Rightarrow> lockst" where
  "boot_locks r = \<lparr>sr = r, ncli = 0, intena = 0, locks = (\<lambda>_. free_lock [])\<rparr>"

inductive lock_step :: "lockst \<Rightarrow> lockst \<Rightarrow> bool" where
  step_acquire: "acquire l s = Inr t \<Longrightarrow> lock_step (lk (s :: klock)) (lk t)"
| step_release: "release l s = Inr t \<Longrightarrow> lock_step (lk (s :: klock)) (lk t)"

inductive lock_reachable :: "u32 \<Rightarrow> lockst \<Rightarrow> bool" for r where
  lock_boot: "lock_reachable r (boot_locks r)"
| lock_run: "lock_reachable r k \<Longrightarrow> lock_step k k' \<Longrightarrow> lock_reachable r k'"

definition held :: "lockst \<Rightarrow> lockid set" where
  "held k = {l. locked (locks k l) \<noteq> 0}"

definition lock_inv :: "lockst \<Rightarrow> bool" where
  "lock_inv k \<longleftrightarrow>
     finite (held k) \<and> ncli k = int (card (held k)) \<and>
     (\<forall>l. if l \<in> held k then lock_cpu (locks k l) = Some 0 else lock_cpu (locks k l) = None) \<and>
     (\<forall>l. pcs (locks k l) = replicate 10 0) \<and>
     (0 < ncli k \<longrightarrow> sr k AND SR_BL_MASK \<noteq> 0 \<and> intena k \<noteq> 0)"

lemma bl_masked [simp]: "(r OR SR_BL_DISABLE) AND SR_BL_MASK \<noteq> 0"
proof
  assume "(r OR SR_BL_DISABLE) AND SR_BL_MASK = 0"
  then have "bit ((r OR SR_BL_DISABLE) AND SR_BL_MASK) 28 = bit (0 :: u32) 28" by simp
  then show False by (simp add: bit_simps SR_BL_DISABLE_def SR_BL_MASK_def)
qed

lemma intena_nonzero [simp]: "r OR SR_BL_MASK \<noteq> 0"
proof
  assume "r OR SR_BL_MASK = 0"
  then have "r OR SR_BL_DISABLE = 0" by (simp add: SR_BL_DISABLE_def SR_BL_MASK_def)
  then show False using bl_masked [of r] by simp
qed

lemma sr_sti [simp]: "(r AND SR_BL_ENABLE) AND SR_BL_MASK = 0"
proof -
  have "SR_BL_ENABLE AND SR_BL_MASK = 0" by (simp add: SR_BL_ENABLE_def SR_BL_MASK_def)
  then show ?thesis by (simp add: and.assoc)
qed

lemma clear_first_pc [simp]: "(replicate 10 (0 :: u32))[0 := 0] = replicate 10 0"
  by (simp add: list_eq_iff_nth_eq nth_list_update)

lemma acquire_keeps_inv:
  assumes "lock_inv (lk s)" and "acquire l s = Inr t"
  shows "lock_inv (lk t)"
proof -
  let ?k = "lk s"
  from assms(2) have free: "l \<notin> held ?k"
    by (auto simp: acquire_def Let_def held_def pushcli_def cli_def split: if_splits)
  have "held (lk t) = insert l (held ?k)"
    using assms(2)
    by (auto simp: acquire_def Let_def held_def pushcli_def cli_def split: if_splits)
  moreover have "ncli (lk t) = ncli ?k + 1" "sr (lk t) = sr ?k OR SR_BL_DISABLE"
    "intena (lk t) = (if ncli ?k = 0 then sr ?k OR SR_BL_MASK else intena ?k)"
    "locks (lk t) = (locks ?k)(l := (locks ?k l)\<lparr>locked := 1, lock_cpu := Some 0, pcs := getcallerpcs\<rparr>)"
    using assms(2) by (auto simp: acquire_def Let_def pushcli_def cli_def split: if_splits)
  ultimately show ?thesis
    using assms(1) free by (auto simp: lock_inv_def getcallerpcs_def)
qed

lemma popcli_Inr:
  assumes "popcli k = Inr k'"
  shows "1 \<le> ncli k"
    and "k' = (if ncli k = 1 \<and> intena k \<noteq> 0 then sti (k\<lparr>ncli := 0\<rparr>) else k\<lparr>ncli := ncli k - 1\<rparr>)"
  using assms by (auto simp: popcli_def Let_def split: if_splits)

lemma release_Inr:
  assumes "release l s = Inr t"
  obtains "holding l (lk s)" and
    "popcli ((lk s)\<lparr>locks := (locks (lk s))(l := (locks (lk s) l)
       \<lparr>pcs := (pcs (locks (lk s) l))[0 := 0], lock_cpu := None, locked := 0\<rparr>)\<rparr>) = Inr (lk t)"
    and "t = s\<lparr>lk := lk t\<rparr>"
  using assms by (auto simp: release_def Let_def bindR_eq_Inr split: if_splits)

lemma release_keeps_inv:
  assumes "lock_inv (lk s)" and "release l s = Inr t"
  shows "lock_inv (lk t)"
proof -
  let ?k = "lk s"
  let ?free = "(locks ?k l)\<lparr>pcs := (pcs (locks ?k l))[0 := 0], lock_cpu := None, locked := 0\<rparr>"
  from assms(2) have l: "l \<in> held ?k"
    and pop: "popcli (?k\<lparr>locks := (locks ?k)(l := ?free)\<rparr>) = Inr (lk t)"
    by (auto elim: release_Inr simp: holding_def held_def)
  note t = popcli_Inr(2) [OF pop]
  have h: "locks (lk t) = (locks ?k)(l := ?free)" "ncli (lk t) = ncli ?k - 1"
    "intena (lk t) = intena ?k"
    "sr (lk t) = (if ncli ?k = 1 \<and> intena ?k \<noteq> 0 then sr ?k AND SR_BL_ENABLE else sr ?k)"
    by (simp_all add: t sti_def)
  have held: "held (lk t) = held ?k - {l}"
    by (auto simp: held_def h(1))
  have "card (held ?k) = Suc (card (held ?k - {l}))"
    using l assms(1) by (intro card.remove) (auto simp: lock_inv_def)
  then show ?thesis
    using assms(1) l unfolding lock_inv_def held h by auto
qed

lemma boot_locks_inv: "lock_inv (boot_locks r)"
  by (simp add: lock_inv_def boot_locks_def held_def free_lock_def)

lemma lock_reachable_inv: "lock_reachable r k \<Longrightarrow> lock_inv k"
proof (induction rule: lock_reachable.induct)
  case lock_boot
  show ?case by (rule boot_locks_inv)
next
  case (lock_run k k')
  from lock_run.hyps(2) lock_run.IH show ?case
    by cases (auto intro: acquire_keeps_inv release_keeps_inv)
qed

text \<open>
  C27. In every state the kernel can reach by acquiring and releasing locks, interrupts are
  blocked (the BL bit is set) as long as any lock is held, and \<^verbatim>\<open>ncli\<close> is exactly the number of
  locks held.
\<close>

theorem locks_block_interrupts:
  assumes "lock_reachable r k"
  shows "(held k \<noteq> {} \<longrightarrow> sr k AND SR_BL_MASK \<noteq> 0) \<and> ncli k = int (card (held k))"
proof -
  have "lock_inv k" using assms by (rule lock_reachable_inv)
  moreover from this have "held k \<noteq> {} \<Longrightarrow> 0 < ncli k"
    by (auto simp: lock_inv_def card_gt_0_iff)
  ultimately show ?thesis by (auto simp: lock_inv_def)
qed

theorem locks_block_interrupts_witness:
  "lock_reachable 0 (lk (\<lparr>lk = (pushcli (boot_locks 0))\<lparr>locks := (\<lambda>_. free_lock [])
       (LKmem := (free_lock [])\<lparr>locked := 1, lock_cpu := Some 0\<rparr>)\<rparr>\<rparr>)) \<and>
   sr (pushcli (boot_locks 0)) AND SR_BL_MASK \<noteq> 0"
proof -
  let ?s = "\<lparr>lk = boot_locks 0\<rparr>"
  let ?t = "\<lparr>lk = (pushcli (boot_locks 0))\<lparr>locks := (\<lambda>_. free_lock [])
       (LKmem := (free_lock [])\<lparr>locked := 1, lock_cpu := Some 0\<rparr>)\<rparr>\<rparr>"
  have "acquire LKmem ?s = Inr ?t"
    by (simp add: acquire_def Let_def pushcli_def cli_def boot_locks_def holding_def
        free_lock_def getcallerpcs_def)
  then have "lock_step (lk ?s) (lk ?t)" by (rule step_acquire)
  then have r: "lock_reachable 0 (lk ?t)"
    using lock_run [OF lock_boot] by simp
  have "LKmem \<in> held (lk ?t)" by (simp add: held_def)
  with locks_block_interrupts [OF r] have "sr (lk ?t) AND SR_BL_MASK \<noteq> 0" by blast
  with r show ?thesis by simp
qed

section \<open>Critical sections\<close>

text \<open>
  The form in which the other components use locks: \<open>hold l k\<close> is the lock state inside a
  section, \<open>cycle k\<close> the one after it. Only the status register and the saved flag can
  differ from before, and a second section changes nothing more.
\<close>

definition idle :: "lockid \<Rightarrow> lockst \<Rightarrow> bool" where
  "idle l k \<longleftrightarrow> locked (locks k l) = 0 \<and> lock_cpu (locks k l) = None \<and>
     pcs (locks k l) = replicate 10 0"

definition cpu_ok :: "lockst \<Rightarrow> bool" where
  "cpu_ok k \<longleftrightarrow> 0 \<le> ncli k \<and> (0 < ncli k \<longrightarrow> sr k AND SR_BL_MASK \<noteq> 0)"

definition hold :: "lockid \<Rightarrow> lockst \<Rightarrow> lockst" where
  "hold l k = (pushcli k)\<lparr>locks := (locks k)(l := (locks k l)\<lparr>locked := 1, lock_cpu := Some 0, pcs := replicate 10 0\<rparr>)\<rparr>"

definition cycle :: "lockst \<Rightarrow> lockst" where
  "cycle k = (if ncli k = 0 then k\<lparr>sr := sr k AND SR_BL_ENABLE, intena := sr k OR SR_BL_MASK\<rparr> else k)"

lemma pushcli_locks [simp]: "locks (pushcli k) = locks k"
  by (simp add: pushcli_def cli_def Let_def)

lemma bl_set_absorb: "r AND SR_BL_MASK \<noteq> 0 \<Longrightarrow> r OR SR_BL_DISABLE = r"
proof (rule bit_word_eqI)
  fix n
  assume r: "r AND SR_BL_MASK \<noteq> 0" and n: "n < LENGTH(32)"
  have e: "SR_BL_MASK = 2 ^ 28" "SR_BL_DISABLE = 2 ^ 28"
    by (simp_all add: SR_BL_MASK_def SR_BL_DISABLE_def)
  have m: "bit SR_BL_MASK i \<longleftrightarrow> i = 28" "bit SR_BL_DISABLE i \<longleftrightarrow> i = 28" for i
    unfolding e bit_exp_iff by (auto simp: possible_bit_word)
  from r obtain i where "bit (r AND SR_BL_MASK) i" by (metis bit_0_eq bot_apply bit_eqI bot_bool_def)
  then have "bit r 28" by (auto simp: bit_simps m)
  then show "bit (r OR SR_BL_DISABLE) n = bit r n" by (auto simp: bit_simps m)
qed

lemma idle_hold [simp]: "l' \<noteq> l \<Longrightarrow> idle l' (hold l k) \<longleftrightarrow> idle l' k"
  by (simp add: idle_def hold_def)

lemma idle_cycle [simp]: "idle l (cycle k) \<longleftrightarrow> idle l k"
  by (simp add: idle_def cycle_def)

lemma ncli_hold [simp]: "ncli (hold l k) = ncli k + 1"
  by (simp add: hold_def pushcli_def cli_def Let_def)

lemma ncli_cycle [simp]: "ncli (cycle k) = ncli k"
  by (simp add: cycle_def)

lemma cpu_ok_hold [simp]: "cpu_ok k \<Longrightarrow> cpu_ok (hold l k)"
  by (auto simp: cpu_ok_def hold_def pushcli_def cli_def Let_def)

lemma cpu_ok_cycle [simp]: "cpu_ok k \<Longrightarrow> cpu_ok (cycle k)"
  by (auto simp: cpu_ok_def cycle_def)

lemma cycle_hold [simp]: "cpu_ok k \<Longrightarrow> cycle (hold l k) = hold l k"
  by (simp add: cycle_def cpu_ok_def)

lemma cycle_cycle [simp]: "cycle (cycle k) = cycle k"
proof -
  have "(r AND SR_BL_ENABLE) OR SR_BL_MASK = r OR SR_BL_MASK" for r :: u32
  proof -
    have "SR_BL_ENABLE OR SR_BL_MASK = - 1" by (simp add: SR_BL_ENABLE_def SR_BL_MASK_def)
    then show ?thesis by (simp add: or.commute bit.disj_conj_distrib)
  qed
  then show ?thesis by (simp add: cycle_def and.assoc)
qed

lemma sti_after_cli: "(r OR SR_BL_DISABLE) AND SR_BL_ENABLE = r AND SR_BL_ENABLE"
proof -
  have "SR_BL_DISABLE AND SR_BL_ENABLE = 0" by (simp add: SR_BL_DISABLE_def SR_BL_ENABLE_def)
  then show ?thesis by (simp add: bit.conj_disj_distrib2)
qed

lemma acquire_run [run]: "idle l (lk s) \<Longrightarrow> acquire l s = Inr (s\<lparr>lk := hold l (lk s)\<rparr>)"
  by (simp add: acquire_def holding_def idle_def hold_def getcallerpcs_def Let_def)

lemma release_run [run]:
  assumes "lk s = hold l k" and "idle l k" and "cpu_ok k"
  shows "release l s = Inr (s\<lparr>lk := cycle k\<rparr>)"
proof -
  have free: "(locks k)(l := (locks k l)\<lparr>pcs := replicate 10 0, lock_cpu := None, locked := 0\<rparr>) = locks k"
    using assms(2) by (auto simp: idle_def fun_eq_iff)
  have "popcli ((hold l k)\<lparr>locks := locks k\<rparr>) = Inr (cycle k)"
  proof (cases "ncli k = 0")
    case True
    then show ?thesis
      by (simp add: popcli_def hold_def pushcli_def cli_def sti_def cycle_def Let_def sti_after_cli)
  next
    case False
    with assms(3) show ?thesis
      by (auto simp: popcli_def hold_def pushcli_def cli_def cycle_def Let_def cpu_ok_def bl_set_absorb)
  qed
  moreover have "holding l (hold l k)" by (simp add: holding_def hold_def)
  moreover have "(hold l k)\<lparr>locks := (locks (hold l k))(l := (locks (hold l k) l)
      \<lparr>pcs := (pcs (locks (hold l k) l))[0 := 0], lock_cpu := None, locked := 0\<rparr>)\<rparr>
      = (hold l k)\<lparr>locks := locks k\<rparr>"
    using assms(2) free by (simp add: hold_def idle_def)
  ultimately show ?thesis by (simp add: release_def assms(1) Let_def)
qed

text \<open>
  A calm lock state: no lock held, and interrupts as a finished critical section leaves them. A
  critical section entered from a calm state gives the same state back.
\<close>

definition calm :: "lockst \<Rightarrow> bool" where
  "calm k \<longleftrightarrow> cpu_ok k \<and> cycle k = k \<and> (\<forall>l. idle l k)"

lemma calm_idle [simp]: "calm k \<Longrightarrow> idle l k"
  unfolding calm_def by blast

lemma calm_cpu_ok [simp]: "calm k \<Longrightarrow> cpu_ok k"
  unfolding calm_def by blast

lemma calm_cycle [simp]: "calm k \<Longrightarrow> cycle k = k"
  unfolding calm_def by blast

lemma calm_release [run]: "lk s = hold l k \<Longrightarrow> calm k \<Longrightarrow> release l s = Inr (s\<lparr>lk := k\<rparr>)"
  by (simp add: release_run)

text \<open>Initialising a lock in a calm state: only the lock's name changes.\<close>

lemma calm_initlock [simp]: "calm (lk s) \<Longrightarrow> calm (lk (initlock l nm s))"
proof -
  assume c: "calm (lk s)"
  have "cycle (k\<lparr>locks := f\<rparr>) = (cycle k)\<lparr>locks := f\<rparr>" "cpu_ok (k\<lparr>locks := f\<rparr>) = cpu_ok k" for k f
    by (simp_all add: cycle_def cpu_ok_def)
  with c show ?thesis
    using calm_idle [OF c] unfolding calm_def by (simp add: initlock_def idle_def)
qed

lemma calm_after_cycle: "cpu_ok k \<Longrightarrow> (\<And>l. idle l k) \<Longrightarrow> calm (cycle k)"
  unfolding calm_def by simp

lemma calm_boot: "calm (cycle (boot_locks r))"
  by (rule calm_after_cycle) (simp_all add: cpu_ok_def idle_def boot_locks_def free_lock_def)

text \<open>
  A balanced \<^verbatim>\<open>pushcli\<close>/\<^verbatim>\<open>popcli\<close> pair entered at depth 0 always leaves interrupts
  enabled, also when they were disabled before the pair. The comment in the source says it leaves
  them off: the saved flag is computed as \<^verbatim>\<open>sr | SR_BL_MASK\<close>, which is never 0.
\<close>

theorem pushcli_popcli_enables:
  assumes "ncli k = 0"
  shows "\<exists>k'. popcli (pushcli k) = Inr k' \<and> sr k' AND SR_BL_MASK = 0 \<and> ncli k' = 0"
  using assms by (auto simp: popcli_def pushcli_def cli_def sti_def Let_def)

theorem pushcli_popcli_enables_witness:
  "ncli (boot_locks SR_BL_DISABLE) = 0 \<and> sr (boot_locks SR_BL_DISABLE) AND SR_BL_MASK \<noteq> 0 \<and>
   (\<exists>k'. popcli (pushcli (boot_locks SR_BL_DISABLE)) = Inr k' \<and> sr k' AND SR_BL_MASK = 0)"
proof -
  have h: "ncli (boot_locks SR_BL_DISABLE) = 0" by (simp add: boot_locks_def)
  have "sr (boot_locks SR_BL_DISABLE) AND SR_BL_MASK \<noteq> 0"
    by (simp add: boot_locks_def SR_BL_DISABLE_def SR_BL_MASK_def)
  with h pushcli_popcli_enables [OF h] show ?thesis by blast
qed

end
