(* ===== verification/Kalloc.thy ===== *)
theory Kalloc
  imports CString Spinlock
begin

text \<open>
  The physical page allocator (\<^verbatim>\<open>src/kalloc.c\<close>, the page constants of \<^verbatim>\<open>src/mmu.h\<close> and
  \<^verbatim>\<open>src/param.h\<close>). The free list is threaded through the free pages themselves: the first word
  of a free page is the address of the next one. The lemmas relate this linked structure in
  memory to the list of the free pages and show that \<^verbatim>\<open>kalloc\<close> and \<^verbatim>\<open>kfree\<close> take from and
  add to its front, that \<^verbatim>\<open>kinit\<close> puts every page between the kernel's end and
  \<^verbatim>\<open>PHYSTOP\<close> on it, and that pages handed out are never handed out twice.
\<close>

section \<open>State and operations\<close>

definition PGSIZE :: u32 where "PGSIZE = 4096"
definition PHYSTOP :: u32 where "PHYSTOP = 0x8d000000"

definition PGROUNDUP :: "u32 \<Rightarrow> u32" where
  "PGROUNDUP sz = (sz + PGSIZE - 1) AND NOT (PGSIZE - 1)"

definition PGROUNDDOWN :: "u32 \<Rightarrow> u32" where
  "PGROUNDDOWN a = a AND NOT (PGSIZE - 1)"

record kmem = klock +
  mem :: memory
  freelist :: u32

definition kfree :: "u32 \<Rightarrow> 'a kmem_scheme \<Rightarrow> 'a kmem_scheme res" where
  "kfree v s =
     (if v mod PGSIZE \<noteq> 0 \<or> v < 1024 * 1024 \<or> v \<ge> PHYSTOP then Inl (Panic ''kfree'')
      else let s = s\<lparr>mem := memset (mem s) v 1 (unat PGSIZE)\<rparr> in
        bindR (acquire LKmem s) (\<lambda>s.
        let s = s\<lparr>mem := store32 v (freelist s) (mem s)\<rparr>; s = s\<lparr>freelist := v\<rparr> in
        release LKmem s))"

definition kalloc :: "'a kmem_scheme \<Rightarrow> (u32 \<times> 'a kmem_scheme) res" where
  "kalloc s =
     bindR (acquire LKmem s) (\<lambda>s.
     let r = freelist s;
         s = (if r \<noteq> 0 then s\<lparr>freelist := load32 (mem s) r\<rparr> else s) in
     bindR (release LKmem s) (\<lambda>s. Inr (r, s)))"

function kinit_loop :: "u32 \<Rightarrow> 'a kmem_scheme \<Rightarrow> 'a kmem_scheme res" where
  "kinit_loop p s =
     (if p + PGSIZE - 1 < PHYSTOP
      then bindR (kfree p s) (\<lambda>s. kinit_loop (p + PGSIZE) s)
      else Inr s)"
  by pat_completeness auto
termination
proof (relation "measure (\<lambda>(p, s). unat PHYSTOP - unat p)")
  fix p and s s' :: "'a kmem_scheme"
  assume "kfree p s = Inr s'"
  then have p: "p < PHYSTOP" by (auto simp: kfree_def split: if_splits)
  then have "unat p < unat PHYSTOP" by (simp add: word_less_nat_alt)
  then have "unat (p + PGSIZE) = unat p + 4096"
    by (simp add: unat_word_ariths PGSIZE_def PHYSTOP_def)
  then show "((p + PGSIZE, s'), p, s) \<in> measure (\<lambda>(p, s). unat PHYSTOP - unat p)"
    using \<open>unat p < unat PHYSTOP\<close> by simp
qed simp

text \<open>The linker symbol \<^verbatim>\<open>end\<close>, the first address after the kernel image, is a parameter.\<close>

definition kinit :: "u32 \<Rightarrow> 'a kmem_scheme \<Rightarrow> 'a kmem_scheme res" where
  "kinit kend s =
     (let s = initlock LKmem ''kmem'' s; p = PGROUNDUP kend in kinit_loop p s)"

section \<open>The free list in memory\<close>

definition page_addr :: "u32 \<Rightarrow> bool" where
  "page_addr v \<longleftrightarrow> v mod PGSIZE = 0 \<and> 1024 * 1024 \<le> v \<and> v < PHYSTOP"

definition in_page :: "u32 \<Rightarrow> u32 \<Rightarrow> bool" where
  "in_page v x \<longleftrightarrow> unat (x - v) < 4096"

fun free_chain :: "memory \<Rightarrow> u32 \<Rightarrow> u32 list \<Rightarrow> bool" where
  "free_chain m p [] \<longleftrightarrow> p = 0"
| "free_chain m p (q # qs) \<longleftrightarrow> p = q \<and> page_addr q \<and> free_chain m (load32 m q) qs"

definition free_pages :: "'a kmem_scheme \<Rightarrow> u32 list \<Rightarrow> bool" where
  "free_pages s ps \<longleftrightarrow> free_chain (mem s) (freelist s) ps \<and> distinct ps"

definition kmem_idle :: "'a kmem_scheme \<Rightarrow> bool" where
  "kmem_idle s \<longleftrightarrow> idle LKmem (lk s) \<and> cpu_ok (lk s)"

lemma page_addr_not_0 [simp]: "page_addr v \<Longrightarrow> v \<noteq> 0"
  by (auto simp: page_addr_def)

lemma page_addr_nat:
  "page_addr v \<longleftrightarrow> unat v mod 4096 = 0 \<and> 1048576 \<le> unat v \<and> unat v < 0x8d000000"
proof -
  have "v mod PGSIZE = 0 \<longleftrightarrow> unat v mod 4096 = 0"
    by (simp add: PGSIZE_def word_unat_eq_iff unat_mod)
  then show ?thesis by (simp add: page_addr_def PHYSTOP_def word_le_nat_alt word_less_nat_alt)
qed

text \<open>Two different pages share no address.\<close>

lemma in_page_nat: "page_addr v \<Longrightarrow> in_page v x \<longleftrightarrow> unat x div 4096 = unat v div 4096"
proof -
  assume "page_addr v"
  then have v: "unat v mod 4096 = 0" "unat v < 0x8d000000" by (auto simp: page_addr_nat)
  have "unat (x - v) = (if unat v \<le> unat x then unat x - unat v else 2 ^ 32 + unat x - unat v)"
    by (auto simp: unat_sub_if')
  then have "unat (x - v) < 4096 \<longleftrightarrow> unat v \<le> unat x \<and> unat x < unat v + 4096"
    using v(2) by auto
  also have "\<dots> \<longleftrightarrow> unat x div 4096 = unat v div 4096"
    using block_div_iff [of 4096 "unat v div 4096" "unat x"] v(1) by (simp add: mult_div_mod_eq minus_mod_eq_mult_div [symmetric])
  finally show ?thesis by (simp add: in_page_def)
qed

lemma pages_disjoint:
  "page_addr v \<Longrightarrow> page_addr w \<Longrightarrow> in_page v x \<Longrightarrow> in_page w x \<Longrightarrow> v = w"
proof -
  assume "page_addr v" "page_addr w" "in_page v x" "in_page w x"
  then have "unat v div 4096 = unat w div 4096" "unat v mod 4096 = 0" "unat w mod 4096 = 0"
    by (auto simp: in_page_nat page_addr_nat)
  then have "unat v = unat w" by (metis mult_div_mod_eq)
  then show ?thesis by (simp add: word_unat_eq_iff)
qed

lemma in_page_self [simp]: "in_page v v"
  by (simp add: in_page_def)

lemma in_page_word: "page_addr v \<Longrightarrow> x \<in> {v, v + 1, v + 2, v + 3} \<Longrightarrow> in_page v x"
  by (auto simp: in_page_def)

lemma load32_cong:
  "(\<And>x. x \<in> {a, a + 1, a + 2, a + 3} \<Longrightarrow> m x = m' x) \<Longrightarrow> load32 m a = load32 m' a"
  by (simp add: load32_def)

lemma load32_other_page:
  assumes "page_addr v" "page_addr q" "q \<noteq> v" "\<And>x. \<not> in_page v x \<Longrightarrow> m' x = m x"
  shows "load32 m' q = load32 m q"
proof (rule load32_cong)
  fix x
  assume "x \<in> {q, q + 1, q + 2, q + 3}"
  then have "in_page q x" using assms(2) by (rule in_page_word [rotated])
  then have "\<not> in_page v x" using assms pages_disjoint by blast
  then show "m' x = m x" by (rule assms(4))
qed

lemma free_chain_pages: "free_chain m p ps \<Longrightarrow> \<forall>q\<in>set ps. page_addr q"
  by (induction ps arbitrary: p) auto

lemma free_chain_frame:
  assumes "page_addr v" "\<And>x. \<not> in_page v x \<Longrightarrow> m' x = m x"
  shows "v \<notin> set ps \<Longrightarrow> free_chain m p ps \<Longrightarrow> free_chain m' p ps"
proof (induction ps arbitrary: p)
  case Nil
  then show ?case by simp
next
  case (Cons q qs)
  then have "load32 m' q = load32 m q"
    using assms by (intro load32_other_page) auto
  with Cons show ?case by simp
qed

section \<open>Allocation and release\<close>

lemma kalloc_run [run]:
  assumes "kmem_idle s"
  shows "kalloc s = Inr (freelist s,
     s\<lparr>freelist := if freelist s \<noteq> 0 then load32 (mem s) (freelist s) else 0,
       lk := cycle (lk s)\<rparr>)"
  using assms by (simp add: kalloc_def kmem_idle_def acquire_run release_run Let_def)

lemma kfree_run [run]:
  assumes "kmem_idle s" "page_addr v"
  shows "kfree v s = Inr (s\<lparr>mem := store32 v (freelist s) (memset (mem s) v 1 4096),
       freelist := v, lk := cycle (lk s)\<rparr>)"
  using assms
  by (auto simp: kfree_def kmem_idle_def page_addr_def acquire_run release_run Let_def PGSIZE_def)

text \<open>
  The allocator's contract, as its clients (page tables, kernel stacks, pipes) rely on it.
  \<open>pages s ps\<close> says that \<open>ps\<close> are the free pages of \<open>s\<close>, in the order they will be
  handed out.
\<close>

locale page_allocator =
  fixes alloc :: "'s \<Rightarrow> (u32 \<times> 's) res"
    and free :: "u32 \<Rightarrow> 's \<Rightarrow> 's res"
    and pages :: "'s \<Rightarrow> u32 list \<Rightarrow> bool"
    and ready :: "'s \<Rightarrow> bool"
  assumes alloc_some: "ready s \<Longrightarrow> pages s (p # ps) \<Longrightarrow> \<exists>s'. alloc s = Inr (p, s') \<and> ready s' \<and> pages s' ps"
    and alloc_none: "ready s \<Longrightarrow> pages s [] \<Longrightarrow> \<exists>s'. alloc s = Inr (0, s') \<and> ready s' \<and> pages s' []"
    and free_page: "ready s \<Longrightarrow> pages s ps \<Longrightarrow> page_addr p \<Longrightarrow> p \<notin> set ps \<Longrightarrow>
      \<exists>s'. free p s = Inr s' \<and> ready s' \<and> pages s' (p # ps)"
    and pages_distinct: "pages s ps \<Longrightarrow> distinct ps"
    and pages_valid: "pages s ps \<Longrightarrow> q \<in> set ps \<Longrightarrow> page_addr q"
begin

lemma alloc_total:
  assumes "ready s" "pages s ps"
  obtains p s' where "alloc s = Inr (p, s')" "ready s'" "pages s' (tl ps)"
    "p = (case ps of [] \<Rightarrow> 0 | q # _ \<Rightarrow> q)"
  using assms alloc_some [of s] alloc_none [of s] that by (cases ps) fastforce+

lemma alloc_twice_distinct:
  assumes "ready s" "pages s (p # q # ps)"
  shows "\<exists>s' s''. alloc s = Inr (p, s') \<and> alloc s' = Inr (q, s'') \<and> p \<noteq> q"
proof -
  from assms obtain s' where s': "alloc s = Inr (p, s')" "ready s'" "pages s' (q # ps)"
    using alloc_some by blast
  then obtain s'' where "alloc s' = Inr (q, s'')" using alloc_some by blast
  moreover have "p \<noteq> q" using pages_distinct [OF assms(2)] by auto
  ultimately show ?thesis using s'(1) by blast
qed

lemma free_then_alloc:
  assumes "ready s" "pages s ps" "page_addr p" "p \<notin> set ps"
  shows "\<exists>s' s''. free p s = Inr s' \<and> alloc s' = Inr (p, s'') \<and> pages s'' ps"
proof -
  from assms obtain s' where s': "free p s = Inr s'" "ready s'" "pages s' (p # ps)"
    using free_page by blast
  then obtain s'' where "alloc s' = Inr (p, s'')" "pages s'' ps" using alloc_some by blast
  with s'(1) show ?thesis by blast
qed

end

lemma kmem_idle_run [simp]:
  "kmem_idle (s\<lparr>freelist := f, lk := cycle (lk s)\<rparr>) = kmem_idle (s\<lparr>lk := cycle (lk s)\<rparr>)"
  "kmem_idle s \<Longrightarrow> kmem_idle (s\<lparr>lk := cycle (lk s)\<rparr>)"
  "kmem_idle (s\<lparr>mem := m\<rparr>) = kmem_idle s"
  by (auto simp: kmem_idle_def)

lemma kfree_pages:
  assumes "kmem_idle s" "free_pages s ps" "page_addr v" "v \<notin> set ps"
  shows "\<exists>s'. kfree v s = Inr s' \<and> kmem_idle s' \<and> free_pages s' (v # ps) \<and>
    (\<forall>x. \<not> in_page v x \<longrightarrow> mem s' x = mem s x)"
proof -
  let ?m = "store32 v (freelist s) (memset (mem s) v 1 4096)"
  have frame: "?m x = mem s x" if "\<not> in_page v x" for x
  proof -
    have "x \<notin> {v, v + 1, v + 2, v + 3}" using that assms(3) in_page_word by blast
    with that show ?thesis by (simp add: store32_apart memset_apply in_page_def)
  qed
  have "free_chain ?m (freelist s) ps"
    using assms(2,4) frame assms(3) by (intro free_chain_frame [of v ?m "mem s"]) (auto simp: free_pages_def)
  then have "free_pages (s\<lparr>mem := ?m, freelist := v, lk := cycle (lk s)\<rparr>) (v # ps)"
    using assms by (simp add: free_pages_def)
  moreover have "kmem_idle (s\<lparr>mem := ?m, freelist := v, lk := cycle (lk s)\<rparr>)"
    using assms(1) by (simp add: kmem_idle_def)
  ultimately show ?thesis
    using frame by (simp add: kfree_run [OF assms(1,3)])
qed

interpretation kpages: page_allocator kalloc kfree free_pages kmem_idle
proof unfold_locales
  fix s :: "'a kmem_scheme" and p ps
  assume "kmem_idle s" "free_pages s (p # ps)"
  then show "\<exists>s'. kalloc s = Inr (p, s') \<and> kmem_idle s' \<and> free_pages s' ps"
    by (auto simp: kalloc_run free_pages_def)
next
  fix s :: "'a kmem_scheme"
  assume "kmem_idle s" "free_pages s []"
  then show "\<exists>s'. kalloc s = Inr (0, s') \<and> kmem_idle s' \<and> free_pages s' []"
    by (auto simp: kalloc_run free_pages_def)
next
  fix s :: "'a kmem_scheme" and p ps
  assume "kmem_idle s" "free_pages s ps" "page_addr p" "p \<notin> set ps"
  then show "\<exists>s'. kfree p s = Inr s' \<and> kmem_idle s' \<and> free_pages s' (p # ps)"
    using kfree_pages by blast
qed (auto simp: free_pages_def dest: free_chain_pages)

section \<open>Initialisation\<close>

definition pages_between :: "u32 \<Rightarrow> nat \<Rightarrow> u32 list" where
  "pages_between p n = map (\<lambda>i. p + of_nat (4096 * i)) [0..<n]"

lemma pages_between_Suc: "pages_between p (Suc n) = p # pages_between (p + 4096) n"
proof -
  have "pages_between p (Suc n) = p # map (\<lambda>i. p + of_nat (4096 * Suc i)) [0..<n]"
    by (simp add: pages_between_def upt_conv_Cons map_Suc_upt [symmetric] comp_def del: upt_Suc)
  then show ?thesis by (simp add: pages_between_def algebra_simps)
qed

lemma kinit_loop_pages:
  "kmem_idle s \<Longrightarrow> free_pages s ps \<Longrightarrow> page_addr p \<or> p = PHYSTOP \<Longrightarrow>
   unat p + 4096 * n = unat PHYSTOP \<Longrightarrow> set ps \<inter> set (pages_between p n) = {} \<Longrightarrow>
   \<exists>s'. kinit_loop p s = Inr s' \<and> kmem_idle s' \<and> free_pages s' (rev (pages_between p n) @ ps)"
proof (induction n arbitrary: p s ps)
  case 0
  then have "p = PHYSTOP" by (simp add: word_unat_eq_iff)
  then show ?case
    using "0.prems" by (subst kinit_loop.simps) (simp add: pages_between_def PHYSTOP_def PGSIZE_def)
next
  case (Suc n)
  from Suc.prems(3,4) have p: "page_addr p" by auto
  have p_nat: "unat p + 4096 * Suc n = 0x8d000000" using Suc.prems(4) by (simp add: PHYSTOP_def)
  then have nx: "unat (p + 4096) = unat p + 4096" "unat (p + 4095) = unat p + 4095"
    by (simp_all add: unat_word_ariths)
  have "p \<notin> set ps" using Suc.prems(5) by (auto simp: pages_between_Suc)
  then obtain s1 where s1: "kfree p s = Inr s1" "kmem_idle s1" "free_pages s1 (p # ps)"
    using Suc.prems p kpages.free_page by blast
  have page': "page_addr (p + 4096) \<or> p + 4096 = PHYSTOP"
  proof (cases n)
    case 0
    with p_nat nx have "unat (p + 4096) = unat PHYSTOP" by (simp add: PHYSTOP_def)
    then show ?thesis by (simp add: word_unat_eq_iff)
  next
    case (Suc k)
    with p p_nat nx show ?thesis by (auto simp: page_addr_nat)
  qed
  have "p \<notin> set (pages_between (p + 4096) n)"
  proof
    assume "p \<in> set (pages_between (p + 4096) n)"
    then obtain i where i: "i < n" "p = p + 4096 + of_nat (4096 * i)"
      by (auto simp: pages_between_def)
    then have "unat (p + 4096 + of_nat (4096 * i)) = unat p + 4096 + 4096 * i"
      using nx p_nat by (intro trans [OF unat_ptr_add]) auto
    with i(2) have "unat p = unat p + 4096 + 4096 * i" by metis
    then show False by simp
  qed
  then have "set (p # ps) \<inter> set (pages_between (p + 4096) n) = {}"
    using Suc.prems(5) by (auto simp: pages_between_Suc)
  then obtain s' where "kinit_loop (p + 4096) s1 = Inr s'" "kmem_idle s'"
    "free_pages s' (rev (pages_between (p + 4096) n) @ p # ps)"
    using Suc.IH [OF s1(2,3) page'] p_nat nx by (auto simp: PHYSTOP_def)
  moreover have "p + PGSIZE - 1 < PHYSTOP"
    using nx p_nat by (simp add: PGSIZE_def PHYSTOP_def word_less_nat_alt add.commute [of p])
  ultimately show ?case
    using s1(1) by (subst kinit_loop.simps) (simp add: pages_between_Suc PGSIZE_def)
qed

text \<open>
  From an empty free list, \<^verbatim>\<open>kinit\<close> returns (no panic, no endless loop) with exactly the
  pages between the rounded-up end of the kernel and \<^verbatim>\<open>PHYSTOP\<close> on the free list, each once.
\<close>

theorem kinit_frees_all_pages:
  assumes "cpu_ok (lk s)" and "pcs (locks (lk s) LKmem) = replicate 10 0" and "freelist s = 0"
    and "page_addr (PGROUNDUP kend)"
    and "unat (PGROUNDUP kend) + 4096 * n = unat PHYSTOP"
  shows "\<exists>s'. kinit kend s = Inr s' \<and> free_pages s' (rev (pages_between (PGROUNDUP kend) n))"
proof -
  let ?s = "initlock LKmem ''kmem'' s"
  have "kmem_idle ?s" using assms(1,2)
    by (simp add: kmem_idle_def initlock_def idle_def cpu_ok_def)
  moreover have "free_pages ?s []" using assms(3) by (simp add: free_pages_def initlock_def)
  ultimately show ?thesis
    using kinit_loop_pages [of ?s "[]" "PGROUNDUP kend" n] assms(4,5) by (auto simp: kinit_def)
qed

theorem kinit_frees_all_pages_witness:
  "\<exists>s'. kinit 0x8cffe123 \<lparr>lk = boot_locks 0, mem = (\<lambda>_. 0), freelist = 0\<rparr> = Inr s' \<and>
     free_pages s' [0x8cfff000]"
proof -
  let ?s = "\<lparr>lk = boot_locks 0, mem = (\<lambda>_. 0), freelist = 0\<rparr>"
  have up: "PGROUNDUP 0x8cffe123 = 0x8cfff000" by (simp add: PGROUNDUP_def PGSIZE_def)
  have "cpu_ok (lk ?s)" "pcs (locks (lk ?s) LKmem) = replicate 10 0" "freelist ?s = 0"
    by (simp_all add: cpu_ok_def boot_locks_def free_lock_def)
  moreover have "page_addr (PGROUNDUP 0x8cffe123)" by (simp add: up page_addr_nat)
  moreover have "unat (PGROUNDUP 0x8cffe123) + 4096 * 1 = unat PHYSTOP"
    by (simp add: up PHYSTOP_def)
  ultimately have "\<exists>s'. kinit 0x8cffe123 ?s = Inr s' \<and>
      free_pages s' (rev (pages_between (PGROUNDUP 0x8cffe123) 1))"
    by (rule kinit_frees_all_pages)
  then show ?thesis by (simp add: up pages_between_def)
qed

text \<open>
  The free list threaded through memory behaves as a stack of pages: \<^verbatim>\<open>kfree\<close> of a valid page
  that is not free pushes it and changes no byte outside that page, the next \<^verbatim>\<open>kalloc\<close> returns
  exactly that page, and the other free pages stay free.
\<close>

theorem kfree_kalloc_stack:
  assumes "kmem_idle s" "free_pages s ps" "page_addr v" "v \<notin> set ps"
  shows "\<exists>s' s''. kfree v s = Inr s' \<and> kalloc s' = Inr (v, s'') \<and> free_pages s'' ps \<and>
    (\<forall>x. \<not> in_page v x \<longrightarrow> mem s' x = mem s x)"
proof -
  obtain s' where s': "kfree v s = Inr s'" "kmem_idle s'" "free_pages s' (v # ps)"
    "\<forall>x. \<not> in_page v x \<longrightarrow> mem s' x = mem s x"
    using kfree_pages [OF assms] by blast
  then obtain s'' where "kalloc s' = Inr (v, s'')" "free_pages s'' ps"
    using kpages.alloc_some by blast
  with s' show ?thesis by blast
qed

theorem kfree_kalloc_stack_witness:
  "\<exists>s' s''. kfree 0x8c900000 \<lparr>lk = boot_locks 0, mem = (\<lambda>_. 0), freelist = 0\<rparr> = Inr s' \<and>
     kalloc s' = Inr (0x8c900000, s'') \<and> free_pages s'' []"
proof -
  let ?s = "\<lparr>lk = boot_locks 0, mem = (\<lambda>_. 0), freelist = 0\<rparr>"
  have "kmem_idle ?s" by (simp add: kmem_idle_def idle_def cpu_ok_def boot_locks_def free_lock_def)
  moreover have "free_pages ?s []" by (simp add: free_pages_def)
  moreover have "page_addr 0x8c900000" by (simp add: page_addr_nat)
  ultimately show ?thesis using kfree_kalloc_stack [of ?s "[]" "0x8c900000"] by auto
qed

end
