(* ===== verification/Vm.thy ===== *)
theory Vm
  imports Kalloc
begin

text \<open>
  Page tables (\<^verbatim>\<open>src/vm.c\<close>, the address macros and TLB registers of \<^verbatim>\<open>src/mmu.h\<close>). Page
  directories and page tables are pages of byte-addressed memory, read and written word by
  word, exactly as the source does. The TLB is a map from its 64 slots to the pair of words
  loaded there. \<^verbatim>\<open>loaduvm\<close>, which reads a file, is with the file system.
\<close>

section \<open>Address macros\<close>

definition NPDENTRIES :: nat where "NPDENTRIES = 1024"
definition USERTOP :: u32 where "USERTOP = 0x80000000"

definition PDX :: "u32 \<Rightarrow> u32" where
  "PDX la = drop_bit 22 la AND 0x3FF"

definition PTX :: "u32 \<Rightarrow> u32" where
  "PTX la = drop_bit 12 la AND 0x3FF"

definition PADDR :: "u32 \<Rightarrow> u32" where
  "PADDR a = a"

definition PTEL_WT :: u32 where "PTEL_WT = 0x001"
definition PTEL_DIRTY :: u32 where "PTEL_DIRTY = 0x004"
definition PTEL_SZ0 :: u32 where "PTEL_SZ0 = 0x010"
definition PTEL_RW :: u32 where "PTEL_RW = 0x020"
definition PTEL_USER :: u32 where "PTEL_USER = 0x040"
definition PTEL_V :: u32 where "PTEL_V = 0x100"

definition PTEL_DEFAULT :: u32 where
  "PTEL_DEFAULT = PTEL_WT OR PTEL_SZ0 OR PTEL_RW OR PTEL_USER OR PTEL_V OR PTEL_DIRTY"

definition PTE_ADDR :: "u32 \<Rightarrow> u32" where
  "PTE_ADDR pte = pte AND NOT 0xFFF"

definition PTE_PERM :: "u32 \<Rightarrow> u32" where
  "PTE_PERM pte = pte AND 0x1FF"

section \<open>State and operations\<close>

record kvm = kmem +
  tlb :: "nat \<Rightarrow> (u32 \<times> u32) option"

definition walkpgdir :: "u32 \<Rightarrow> u32 \<Rightarrow> bool \<Rightarrow> 'a kmem_scheme \<Rightarrow> (u32 \<times> 'a kmem_scheme) res" where
  "walkpgdir pgdir va create s =
     (let pde = pgdir + 4 * PDX va in
      if load32 (mem s) pde AND PTEL_V \<noteq> 0
      then Inr (PTE_ADDR (load32 (mem s) pde) + 4 * PTX va, s)
      else if \<not> create then Inr (0, s)
      else bindR (kalloc s) (\<lambda>(r, s).
        if r = 0 then Inr (0, s)
        else let s = s\<lparr>mem := memset (mem s) r 0 (unat PGSIZE)\<rparr>;
                 s = s\<lparr>mem := store32 pde (PADDR r OR PTEL_DEFAULT) (mem s)\<rparr> in
          Inr (r + 4 * PTX va, s)))"

text \<open>One round of the loop of \<^verbatim>\<open>mappages\<close>: enter one page; \<^const>\<open>False\<close> when no page table page is left.\<close>

definition map_page ::
  "u32 \<Rightarrow> u32 \<Rightarrow> u32 \<Rightarrow> u32 \<Rightarrow> 'a kmem_scheme \<Rightarrow> (bool \<times> 'a kmem_scheme) res" where
  "map_page pgdir a pa perm s =
     bindR (walkpgdir pgdir a True s) (\<lambda>(pte, s).
     if pte = 0 then Inr (False, s)
     else if load32 (mem s) pte AND PTEL_V \<noteq> 0 then Inl (Panic ''remap'')
     else Inr (True, s\<lparr>mem := store32 pte (pa OR perm OR PTEL_V) (mem s)\<rparr>))"

text \<open>
  The loop runs from \<open>a\<close> to \<open>lastp\<close>, both page-aligned, and always maps the last page before it
  stops: the counter is the number of pages after the current one.
\<close>

fun mappages_loop ::
  "nat \<Rightarrow> u32 \<Rightarrow> u32 \<Rightarrow> u32 \<Rightarrow> u32 \<Rightarrow> 'a kmem_scheme \<Rightarrow> (bool \<times> 'a kmem_scheme) res" where
  "mappages_loop 0 pgdir a pa perm s = map_page pgdir a pa perm s"
| "mappages_loop (Suc n) pgdir a pa perm s =
     bindR (map_page pgdir a pa perm s) (\<lambda>(ok, s).
     if ok then mappages_loop n pgdir (a + PGSIZE) (pa + PGSIZE) perm s else Inr (False, s))"

definition mappages ::
  "u32 \<Rightarrow> u32 \<Rightarrow> u32 \<Rightarrow> u32 \<Rightarrow> u32 \<Rightarrow> 'a kmem_scheme \<Rightarrow> (bool \<times> 'a kmem_scheme) res" where
  "mappages pgdir la sz pa perm s =
     (let a = PGROUNDDOWN la; lastp = PGROUNDDOWN (la + sz - 1) in
      mappages_loop (unat (lastp - a) div 4096) pgdir a pa perm s)"

definition setupkvm :: "'a kmem_scheme \<Rightarrow> (u32 \<times> 'a kmem_scheme) res" where
  "setupkvm s =
     bindR (kalloc s) (\<lambda>(pgdir, s).
     if pgdir = 0 then Inr (0, s)
     else Inr (pgdir, s\<lparr>mem := memset (mem s) pgdir 0 (unat PGSIZE)\<rparr>))"

definition clear_tlb :: "'a kvm_scheme \<Rightarrow> 'a kvm_scheme" where
  "clear_tlb s = s\<lparr>tlb := (\<lambda>_. None)\<rparr>"

text \<open>\<open>urc\<close> is the slot selected by \<^verbatim>\<open>set_urc\<close> before the call.\<close>

definition tlb_register :: "u32 \<Rightarrow> nat \<Rightarrow> u32 \<Rightarrow> 'a kvm_scheme \<Rightarrow> 'a kvm_scheme res" where
  "tlb_register pgdir urc va s =
     bindR (walkpgdir pgdir va False s) (\<lambda>(pte, s).
     let pa = PTE_ADDR (load32 (mem s) pte); perm = PTE_PERM (load32 (mem s) pte) in
     Inr (s\<lparr>tlb := (tlb s)(urc \<mapsto> (PTE_ADDR va, pa OR perm))\<rparr>))"

text \<open>
  The loop visits pages 0, 1, 2, ... until the first one without an entry. Were all \<open>2 ^ 20\<close>
  pages mapped it would start over for ever; \<open>Spin\<close> stands for that.
\<close>

fun switchuvm_loop :: "nat \<Rightarrow> u32 \<Rightarrow> u32 \<Rightarrow> nat \<Rightarrow> 'a kvm_scheme \<Rightarrow> 'a kvm_scheme res" where
  "switchuvm_loop 0 pgdir va i s = Inl Spin"
| "switchuvm_loop (Suc fuel) pgdir va i s =
     bindR (walkpgdir pgdir va False s) (\<lambda>(pte, s).
     if pte \<noteq> 0 \<and> load32 (mem s) pte \<noteq> 0
     then bindR (tlb_register pgdir i va s) (\<lambda>s.
       switchuvm_loop fuel pgdir (va + PGSIZE) ((i + 1) mod 64) s)
     else Inr s)"

text \<open>\<open>p_pgdir\<close> is the page directory of the process passed, \<open>pgdir\<close> that of the current process.\<close>

definition switchuvm :: "u32 \<Rightarrow> u32 \<Rightarrow> 'a kvm_scheme \<Rightarrow> 'a kvm_scheme res" where
  "switchuvm p_pgdir pgdir s =
     (let s = s\<lparr>lk := pushcli (lk s)\<rparr> in
      if p_pgdir = 0 then Inl (Panic (''switchuvm: no pgdir'' @ [CHR 0x0A]))
      else bindR (switchuvm_loop (2 ^ 20 + 1) pgdir 0 0 (clear_tlb s)) (\<lambda>s.
        bindR (popcli (lk s)) (\<lambda>k. Inr (s\<lparr>lk := k\<rparr>))))"

definition uva2ka :: "u32 \<Rightarrow> u32 \<Rightarrow> 'a kmem_scheme \<Rightarrow> (u32 \<times> 'a kmem_scheme) res" where
  "uva2ka pgdir uva s =
     bindR (walkpgdir pgdir uva False s) (\<lambda>(pte, s).
     if pte = 0 then Inr (0, s) else Inr (PTE_ADDR (load32 (mem s) pte), s))"

definition inituvm :: "u32 \<Rightarrow> u32 \<Rightarrow> u32 \<Rightarrow> 'a kmem_scheme \<Rightarrow> 'a kmem_scheme res" where
  "inituvm pgdir init sz s =
     bindR (kalloc s) (\<lambda>(m, s).
     if sz \<ge> PGSIZE then Inl (Panic ''inituvm: more than a page'')
     else let s = s\<lparr>mem := memset (mem s) m 0 (unat PGSIZE)\<rparr> in
       bindR (mappages pgdir 0 PGSIZE (PADDR m) PTEL_DEFAULT s) (\<lambda>(_, s).
       Inr (s\<lparr>mem := memmove (mem s) m init sz\<rparr>)))"

text \<open>
  Both loops advance \<open>a\<close> by a page while \<open>a \<le> lastp\<close>. The fuel of \<open>2 ^ 20 + 1\<close> rounds is more
  than there are page addresses: when it runs out, \<open>lastp\<close> is the last page of the address space and
  the condition can never fail (\<open>Spin\<close>).
\<close>

fun deallocuvm_loop :: "nat \<Rightarrow> u32 \<Rightarrow> u32 \<Rightarrow> u32 \<Rightarrow> 'a kmem_scheme \<Rightarrow> 'a kmem_scheme res" where
  "deallocuvm_loop 0 pgdir a lastp s = Inl Spin"
| "deallocuvm_loop (Suc fuel) pgdir a lastp s =
     (if a \<le> lastp
      then bindR (walkpgdir pgdir a False s) (\<lambda>(pte, s).
        if pte \<noteq> 0 \<and> load32 (mem s) pte AND PTEL_V \<noteq> 0
        then let pa = PTE_ADDR (load32 (mem s) pte) in
          if pa = 0 then Inl (Panic ''kfree'')
          else bindR (kfree pa s) (\<lambda>s.
            deallocuvm_loop fuel pgdir (a + PGSIZE) lastp (s\<lparr>mem := store32 pte 0 (mem s)\<rparr>))
        else deallocuvm_loop fuel pgdir (a + PGSIZE) lastp s)
      else Inr s)"

definition deallocuvm :: "u32 \<Rightarrow> u32 \<Rightarrow> u32 \<Rightarrow> 'a kmem_scheme \<Rightarrow> (u32 \<times> 'a kmem_scheme) res" where
  "deallocuvm pgdir oldsz newsz s =
     (let a = PGROUNDUP newsz; lastp = PGROUNDDOWN (oldsz - 1) in
      bindR (deallocuvm_loop (2 ^ 20 + 1) pgdir a lastp s) (\<lambda>s.
      Inr (if newsz < oldsz then newsz else oldsz, s)))"

fun allocuvm_loop ::
  "nat \<Rightarrow> u32 \<Rightarrow> u32 \<Rightarrow> u32 \<Rightarrow> u32 \<Rightarrow> u32 \<Rightarrow> 'a kmem_scheme \<Rightarrow> (u32 \<times> 'a kmem_scheme) res" where
  "allocuvm_loop 0 pgdir oldsz newsz a lastp s = Inl Spin"
| "allocuvm_loop (Suc fuel) pgdir oldsz newsz a lastp s =
     (if a \<le> lastp
      then bindR (kalloc s) (\<lambda>(m, s).
        if m = 0 then bindR (deallocuvm pgdir newsz oldsz s) (\<lambda>(_, s). Inr (0, s))
        else let s = s\<lparr>mem := memset (mem s) m 0 (unat PGSIZE)\<rparr> in
          bindR (mappages pgdir a PGSIZE (PADDR m) PTEL_DEFAULT s) (\<lambda>(_, s).
          allocuvm_loop fuel pgdir oldsz newsz (a + PGSIZE) lastp s))
      else Inr (if newsz > oldsz then newsz else oldsz, s))"

definition allocuvm :: "u32 \<Rightarrow> u32 \<Rightarrow> u32 \<Rightarrow> 'a kmem_scheme \<Rightarrow> (u32 \<times> 'a kmem_scheme) res" where
  "allocuvm pgdir oldsz newsz s =
     (if newsz > USERTOP then Inr (0, s)
      else let a = PGROUNDUP oldsz; lastp = PGROUNDDOWN (newsz - 1) in
        allocuvm_loop (2 ^ 20 + 1) pgdir oldsz newsz a lastp s)"

fun freevm_tables :: "nat \<Rightarrow> nat \<Rightarrow> u32 \<Rightarrow> 'a kmem_scheme \<Rightarrow> 'a kmem_scheme res" where
  "freevm_tables i 0 pgdir s = Inr s"
| "freevm_tables i (Suc n) pgdir s =
     (let pde = load32 (mem s) (pgdir + 4 * of_nat i) in
      if pde AND PTEL_V \<noteq> 0
      then bindR (kfree (PTE_ADDR pde) s) (\<lambda>s. freevm_tables (Suc i) n pgdir s)
      else freevm_tables (Suc i) n pgdir s)"

definition freevm :: "u32 \<Rightarrow> 'a kmem_scheme \<Rightarrow> 'a kmem_scheme res" where
  "freevm pgdir s =
     (if pgdir = 0 then Inl (Panic ''freevm: no pgdir'')
      else bindR (deallocuvm pgdir USERTOP 0 s) (\<lambda>(_, s).
        bindR (freevm_tables 0 NPDENTRIES pgdir s) (\<lambda>s.
        kfree pgdir s)))"

text \<open>
  The copy loop runs over the page addresses below \<open>sz\<close>; \<open>fuel\<close> is their number, rounded up.
\<close>

fun copyuvm_loop ::
  "nat \<Rightarrow> u32 \<Rightarrow> u32 \<Rightarrow> u32 \<Rightarrow> u32 \<Rightarrow> 'a kmem_scheme \<Rightarrow> (u32 \<times> 'a kmem_scheme) res" where
  "copyuvm_loop 0 pgdir sz d i s = (if i < sz then Inl Spin else Inr (d, s))"
| "copyuvm_loop (Suc fuel) pgdir sz d i s =
     (if i < sz
      then bindR (walkpgdir pgdir i False s) (\<lambda>(pte, s).
        if pte = 0 then Inl (Panic (''copyuvm: pte should exist'' @ [CHR 0x0A]))
        else if load32 (mem s) pte AND PTEL_V = 0 then Inl (Panic (''copyuvm: page not present'' @ [CHR 0x0A]))
        else let pa = PTE_ADDR (load32 (mem s) pte) in
          bindR (kalloc s) (\<lambda>(m, s).
          if m = 0 then bindR (freevm d s) (\<lambda>s. Inr (0, s))
          else let s = s\<lparr>mem := memmove (mem s) m pa PGSIZE\<rparr> in
            bindR (mappages d i PGSIZE (PADDR m) PTEL_DEFAULT s) (\<lambda>(ok, s).
            if \<not> ok then bindR (freevm d s) (\<lambda>s. Inr (0, s))
            else copyuvm_loop fuel pgdir sz d (i + PGSIZE) s)))
      else Inr (d, s))"

definition copyuvm :: "u32 \<Rightarrow> u32 \<Rightarrow> 'a kmem_scheme \<Rightarrow> (u32 \<times> 'a kmem_scheme) res" where
  "copyuvm pgdir sz s =
     bindR (setupkvm s) (\<lambda>(d, s).
     if d = 0 then Inr (0, s)
     else copyuvm_loop (2 ^ 20 + 1) pgdir sz d 0 s)"

end
