(* ===== verification/Proc_Table.thy ===== *)
theory Proc_Table
  imports Vm
begin

text \<open>
  The process table and the scheduler (\<^verbatim>\<open>src/proc.c\<close>, \<^verbatim>\<open>src/proc.h\<close>): allocation of process
  slots, sleeping and waking, yielding, killing, and the context switch between a process and
  the scheduler. Creation and exit of processes, which need files and inodes, are in a later
  theory. A pointer to a process is its index in \<^verbatim>\<open>ptable.proc\<close>, a pointer to an open file or an
  in-core inode its index in \<^verbatim>\<open>ftable.file\<close> or \<^verbatim>\<open>icache.inode\<close>; a null pointer is \<^const>\<open>None\<close>.

  \<^verbatim>\<open>swtch\<close> saves one kernel stack and resumes another, so a function that calls \<^verbatim>\<open>sched\<close> is two
  definitions: what it does up to the switch, and what it does when it is resumed.
\<close>

section \<open>State\<close>

datatype procstate = UNUSED | EMBRYO | SLEEPING | RUNNABLE | RUNNING | ZOMBIE

text \<open>The registers saved in \<^verbatim>\<open>struct trapframe\<close> and in \<^verbatim>\<open>struct context\<close>.\<close>

datatype tfreg = TR nat | T_SPC | T_SSR | T_SGR | T_GBR | T_MACH | T_MACL | T_PR
datatype cxreg = CR nat | C_SSR | C_SPC | C_RBANK nat | C_GBR | C_MACH | C_MACL | C_PR | C_SR

type_synonym trapframe = "tfreg \<Rightarrow> u32"
type_synonym "context" = "cxreg \<Rightarrow> u32"

definition NPROC :: nat where "NPROC = 64"
definition NOFILE :: nat where "NOFILE = 16"
definition KSTACKSIZE :: u32 where "KSTACKSIZE = 4096"

text \<open>\<^verbatim>\<open>sizeof(struct trapframe)\<close>: 22 words.\<close>

definition TF_SIZE :: u32 where "TF_SIZE = 88"

text \<open>
  \<open>tf_addr\<close> is the pointer \<^verbatim>\<open>tf\<close> and \<open>tf\<close> the frame it points at; \<open>sched_intena\<close> is the local
  variable that \<^verbatim>\<open>sched\<close> keeps on the process's kernel stack while it is switched out.
\<close>

record proc =
  sz :: u32
  pgdir :: u32
  kstack :: u32
  state :: procstate
  pid :: u32
  parent :: "nat option"
  tf_addr :: u32
  tf :: trapframe
  "context" :: "context"
  chan :: "chan option"
  killed :: bool
  ofile :: "nat option list"
  cwd :: "nat option"
  pname :: "u8 list"
  sched_intena :: u32

record kproc = kvm +
  ptable :: "proc list"
  nextpid :: u32
  curproc :: "nat option"
  initproc :: "nat option"

text \<open>\<^verbatim>\<open>ptable\<close> is zero-initialised static storage.\<close>

definition zero_proc :: proc where
  "zero_proc = \<lparr>sz = 0, pgdir = 0, kstack = 0, state = UNUSED, pid = 0, parent = None, tf_addr = 0,
     tf = (\<lambda>_. 0), context = (\<lambda>_. 0), chan = None, killed = False, ofile = replicate NOFILE None,
     cwd = None, pname = replicate 16 0, sched_intena = 0\<rparr>"

definition upd_proc :: "nat \<Rightarrow> (proc \<Rightarrow> proc) \<Rightarrow> 'a kproc_scheme \<Rightarrow> 'a kproc_scheme" where
  "upd_proc i f s = s\<lparr>ptable := (ptable s)[i := f (ptable s ! i)]\<rparr>"

section \<open>Operations\<close>

text \<open>\<open>forkret\<close> is the address of the assembly entry a new process starts at.\<close>

definition allocproc :: "u32 \<Rightarrow> 'a kproc_scheme \<Rightarrow> (nat option \<times> 'a kproc_scheme) res" where
  "allocproc forkret s =
     bindR (acquire LPtable s) (\<lambda>s.
     case find_index (\<lambda>p. state p = UNUSED) (ptable s) of
       None \<Rightarrow> bindR (release LPtable s) (\<lambda>s. Inr (None, s))
     | Some i \<Rightarrow>
         let s = upd_proc i (\<lambda>p. p\<lparr>state := EMBRYO, pid := nextpid s\<rparr>) s;
             s = s\<lparr>nextpid := nextpid s + 1\<rparr> in
         bindR (release LPtable s) (\<lambda>s.
         bindR (kalloc s) (\<lambda>(r, s).
         let s = upd_proc i (\<lambda>p. p\<lparr>kstack := r\<rparr>) s in
         if r = 0 then Inr (None, upd_proc i (\<lambda>p. p\<lparr>state := UNUSED\<rparr>) s)
         else let tfp = r + KSTACKSIZE - TF_SIZE in
           Inr (Some i, upd_proc i (\<lambda>p. p\<lparr>tf_addr := tfp, tf := (tf p)(T_SSR := 0),
             context := (\<lambda>_. 0)(C_SR := 0x70000000, C_PR := forkret, CR 15 := tfp,
               CR 14 := r + KSTACKSIZE)\<rparr>) s))))"

definition wakeup1 :: "chan \<Rightarrow> 'a kproc_scheme \<Rightarrow> 'a kproc_scheme" where
  "wakeup1 c s = s\<lparr>ptable := map (\<lambda>p. if state p = SLEEPING \<and> chan p = Some c
     then p\<lparr>state := RUNNABLE\<rparr> else p) (ptable s)\<rparr>"

definition wakeup :: "chan \<Rightarrow> 'a kproc_scheme \<Rightarrow> 'a kproc_scheme res" where
  "wakeup c s = bindR (acquire LPtable s) (\<lambda>s. release LPtable (wakeup1 c s))"

definition kill :: "u32 \<Rightarrow> 'a kproc_scheme \<Rightarrow> (int \<times> 'a kproc_scheme) res" where
  "kill target s =
     bindR (acquire LPtable s) (\<lambda>s.
     case find_index (\<lambda>p. pid p = target) (ptable s) of
       Some i \<Rightarrow>
         let s = upd_proc i (\<lambda>p. p\<lparr>killed := True,
               state := if state p = SLEEPING then RUNNABLE else state p\<rparr>) s in
         bindR (release LPtable s) (\<lambda>s. Inr (0, s))
     | None \<Rightarrow> bindR (release LPtable s) (\<lambda>s. Inr (- 1, s)))"

text \<open>
  \<^verbatim>\<open>sched\<close>: the checks and the save of \<^verbatim>\<open>intena\<close> before the switch, and the restore after it.
\<close>

definition sched_enter :: "'a kproc_scheme \<Rightarrow> 'a kproc_scheme res" where
  "sched_enter s =
     (if \<not> holding LPtable (lk s) then Inl (Panic ''sched ptable.lock'')
      else if ncli (lk s) \<noteq> 1 then Inl (Panic ''sched locks'')
      else case curproc s of
        None \<Rightarrow> Inl Fault
      | Some i \<Rightarrow>
          if state (ptable s ! i) = RUNNING then Inl (Panic ''sched running'')
          else if sr (lk s) AND SR_BL_MASK = 0 then Inl (Panic ''sched interruptible'')
          else Inr (upd_proc i (\<lambda>p. p\<lparr>sched_intena := intena (lk s)\<rparr>) s))"

definition sched_resume :: "nat \<Rightarrow> 'a kproc_scheme \<Rightarrow> 'a kproc_scheme" where
  "sched_resume i s = s\<lparr>lk := (lk s)\<lparr>intena := sched_intena (ptable s ! i)\<rparr>\<rparr>"

definition yield_enter :: "'a kproc_scheme \<Rightarrow> 'a kproc_scheme res" where
  "yield_enter s =
     bindR (acquire LPtable s) (\<lambda>s.
     case curproc s of
       None \<Rightarrow> Inl Fault
     | Some i \<Rightarrow> sched_enter (upd_proc i (\<lambda>p. p\<lparr>state := RUNNABLE\<rparr>) s))"

definition yield_resume :: "nat \<Rightarrow> 'a kproc_scheme \<Rightarrow> 'a kproc_scheme res" where
  "yield_resume i s = release LPtable (sched_resume i s)"

text \<open>\<open>l\<close> is the lock passed to \<^verbatim>\<open>sleep\<close>; callers never pass a null lock.\<close>

definition sleep_enter :: "chan \<Rightarrow> lockid \<Rightarrow> 'a kproc_scheme \<Rightarrow> 'a kproc_scheme res" where
  "sleep_enter c l s =
     (case curproc s of
       None \<Rightarrow> Inl (Panic ''sleep'')
     | Some i \<Rightarrow>
         bindR (if l \<noteq> LPtable then bindR (acquire LPtable s) (\<lambda>s. release l s) else Inr s) (\<lambda>s.
         sched_enter (upd_proc i (\<lambda>p. p\<lparr>chan := Some c, state := SLEEPING\<rparr>) s)))"

definition sleep_resume :: "nat \<Rightarrow> lockid \<Rightarrow> 'a kproc_scheme \<Rightarrow> 'a kproc_scheme res" where
  "sleep_resume i l s =
     (let s = upd_proc i (\<lambda>p. p\<lparr>chan := None\<rparr>) (sched_resume i s) in
      if l \<noteq> LPtable then bindR (release LPtable s) (\<lambda>s. acquire l s) else Inr s)"

text \<open>\<^verbatim>\<open>forkret\<close>: the first time a process runs it only gives up the table lock.\<close>

definition forkret_enter :: "'a kproc_scheme \<Rightarrow> 'a kproc_scheme res" where
  "forkret_enter s = release LPtable s"

text \<open>
  One pass of \<^verbatim>\<open>scheduler\<close> over the table, cut at the switches: \<open>scheduler_begin\<close> starts a pass,
  \<open>scheduler_scan j\<close> continues it at slot \<open>j\<close> up to the next switch (\<open>Some i\<close>: process \<open>i\<close> now
  runs) or to the end of the pass (\<^const>\<open>None\<close>), \<open>scheduler_back\<close> is what follows a switch back.
\<close>

definition scheduler_begin :: "'a kproc_scheme \<Rightarrow> 'a kproc_scheme res" where
  "scheduler_begin s = acquire LPtable (s\<lparr>lk := sti (lk s)\<rparr>)"

definition scheduler_scan :: "nat \<Rightarrow> 'a kproc_scheme \<Rightarrow> (nat option \<times> 'a kproc_scheme) res" where
  "scheduler_scan j s =
     (case find_index (\<lambda>p. state p = RUNNABLE) (drop j (ptable s)) of
       None \<Rightarrow> bindR (release LPtable s) (\<lambda>s. Inr (None, s))
     | Some d \<Rightarrow>
         let i = j + d; s = s\<lparr>curproc := Some i\<rparr>; pd = pgdir (ptable s ! i) in
         bindR (switchuvm pd pd s) (\<lambda>s.
         Inr (Some i, upd_proc i (\<lambda>p. p\<lparr>state := RUNNING\<rparr>) s)))"

definition scheduler_back :: "'a kproc_scheme \<Rightarrow> 'a kproc_scheme" where
  "scheduler_back s = s\<lparr>curproc := None\<rparr>"

section \<open>Running the operations\<close>

lemma wakeup1_fields [simp]: "lk (wakeup1 c s) = lk s" "mem (wakeup1 c s) = mem s"
  "curproc (wakeup1 c s) = curproc s"
  by (simp_all add: wakeup1_def)

lemma wakeup_run [run]:
  assumes "idle LPtable (lk s)" "cpu_ok (lk s)" "cycle (lk s) = lk s"
  shows "wakeup c s = Inr (wakeup1 c s)"
  using assms by (simp add: wakeup_def acquire_run release_run [where k = "lk s"] wakeup1_def)

text \<open>A wakeup changes nothing but process states, and never \<open>killed\<close>.\<close>

lemma wakeup1_killed [simp]:
  "i < length (ptable s) \<Longrightarrow> killed (ptable (wakeup1 c s) ! i) = killed (ptable s ! i)"
  by (simp add: wakeup1_def)

end
