(* ===== verification/Bio.thy ===== *)
theory Bio
  imports Proc_Table
begin

text \<open>
  The disk driver and the buffer cache (\<^verbatim>\<open>src/ide.c\<close>, \<^verbatim>\<open>src/bio.c\<close>, \<^verbatim>\<open>src/buf.h\<close>). The disk is
  the file-system image linked into the kernel, as 512-byte sectors. The cache is the array of
  buffers with its doubly linked recency list; the list head is the buffer with index \<open>NBUF\<close>.
  The list walks of \<^verbatim>\<open>bget\<close> follow the links one by one. The lemmas show that the links always
  form the recency list, that a buffer handed out holds the sector's contents, that writes reach
  the disk, and that two buffers never cache the same sector; the locale states this as the
  contract the file system relies on.
\<close>

section \<open>State\<close>

definition NBUF :: nat where "NBUF = 10"
definition ROOTDEV :: u32 where "ROOTDEV = 1"
definition HEAD :: nat where "HEAD = NBUF"

definition B_BUSY :: u32 where "B_BUSY = 1"
definition B_VALID :: u32 where "B_VALID = 2"
definition B_DIRTY :: u32 where "B_DIRTY = 4"

record buf =
  bflags :: u32
  bdev :: u32
  bsector :: u32
  bprev :: nat
  bnext :: nat
  bdata :: "u8 list"

record kbio = kproc +
  disk :: "u32 \<Rightarrow> u8 list"
  bufs :: "buf list"

definition upd_buf :: "nat \<Rightarrow> (buf \<Rightarrow> buf) \<Rightarrow> 'a kbio_scheme \<Rightarrow> 'a kbio_scheme" where
  "upd_buf b f s = s\<lparr>bufs := (bufs s)[b := f (bufs s ! b)]\<rparr>"

section \<open>Operations\<close>

definition idestart :: "nat \<Rightarrow> 'a kbio_scheme \<Rightarrow> 'a kbio_scheme" where
  "idestart b s =
     (let sec = bsector (bufs s ! b) in
      if bflags (bufs s ! b) AND B_DIRTY \<noteq> 0 then s\<lparr>disk := (disk s)(sec := bdata (bufs s ! b))\<rparr>
      else upd_buf b (\<lambda>x. x\<lparr>bdata := disk s sec\<rparr>) s)"

definition iderw :: "nat \<Rightarrow> 'a kbio_scheme \<Rightarrow> 'a kbio_scheme res" where
  "iderw b s =
     (if bflags (bufs s ! b) AND B_BUSY = 0 then Inl (Panic ''iderw: buf not busy'')
      else if bflags (bufs s ! b) AND (B_VALID OR B_DIRTY) = B_VALID
      then Inl (Panic ''iderw: nothing to do'')
      else bindR (acquire LIde s) (\<lambda>s.
        let s = idestart b s;
            s = upd_buf b (\<lambda>x. x\<lparr>bflags := bflags x OR B_VALID\<rparr>) s;
            s = upd_buf b (\<lambda>x. x\<lparr>bflags := bflags x AND NOT B_DIRTY\<rparr>) s in
        if bflags (bufs s ! b) AND (B_VALID OR B_DIRTY) \<noteq> B_VALID then Inl Spin
        else release LIde s))"

fun binit_loop :: "nat \<Rightarrow> nat \<Rightarrow> 'a kbio_scheme \<Rightarrow> 'a kbio_scheme" where
  "binit_loop b 0 s = s"
| "binit_loop b (Suc n) s =
     (let s = upd_buf b (\<lambda>x. x\<lparr>bnext := bnext (bufs s ! HEAD)\<rparr>) s;
          s = upd_buf b (\<lambda>x. x\<lparr>bprev := HEAD\<rparr>) s;
          s = upd_buf b (\<lambda>x. x\<lparr>bdev := - 1\<rparr>) s;
          s = upd_buf (bnext (bufs s ! HEAD)) (\<lambda>x. x\<lparr>bprev := b\<rparr>) s;
          s = upd_buf HEAD (\<lambda>x. x\<lparr>bnext := b\<rparr>) s in
      binit_loop (Suc b) n s)"

definition binit :: "'a kbio_scheme \<Rightarrow> 'a kbio_scheme" where
  "binit s =
     (let s = initlock LBcache ''bcache'' s;
          s = upd_buf HEAD (\<lambda>x. x\<lparr>bprev := HEAD\<rparr>) s;
          s = upd_buf HEAD (\<lambda>x. x\<lparr>bnext := HEAD\<rparr>) s in
      binit_loop 0 NBUF s)"

text \<open>
  A walk along links from \<open>i\<close> until the head or the first buffer that passes the test. There are
  \<open>NBUF + 1\<close> nodes: a walk that visits more never ends.
\<close>

fun walk :: "nat \<Rightarrow> (nat \<Rightarrow> nat) \<Rightarrow> (nat \<Rightarrow> bool) \<Rightarrow> nat \<Rightarrow> nat option res" where
  "walk 0 f P i = Inl Spin"
| "walk (Suc n) f P i =
     (if i = HEAD then Inr None else if P i then Inr (Some i) else walk n f P (f i))"

definition bget :: "u32 \<Rightarrow> u32 \<Rightarrow> 'a kbio_scheme \<Rightarrow> (nat \<times> 'a kbio_scheme) res" where
  "bget dev sector s =
     bindR (acquire LBcache s) (\<lambda>s.
     bindR (walk (NBUF + 1) (\<lambda>i. bnext (bufs s ! i))
         (\<lambda>i. bdev (bufs s ! i) = dev \<and> bsector (bufs s ! i) = sector) (bnext (bufs s ! HEAD)))
       (\<lambda>hit. case hit of
         Some b \<Rightarrow>
           if bflags (bufs s ! b) AND B_BUSY = 0
           then bindR (release LBcache (upd_buf b (\<lambda>x. x\<lparr>bflags := bflags x OR B_BUSY\<rparr>) s))
             (\<lambda>s. Inr (b, s))
           else Inl (Sleep (ChanBuf b))
       | None \<Rightarrow>
           bindR (walk (NBUF + 1) (\<lambda>i. bprev (bufs s ! i))
               (\<lambda>i. bflags (bufs s ! i) AND B_BUSY = 0) (bprev (bufs s ! HEAD)))
             (\<lambda>fresh. case fresh of
               Some b \<Rightarrow>
                 bindR (release LBcache (upd_buf b
                     (\<lambda>x. x\<lparr>bdev := dev, bsector := sector, bflags := B_BUSY\<rparr>) s))
                   (\<lambda>s. Inr (b, s))
             | None \<Rightarrow> Inl (Panic ''bget: no buffers''))))"

definition bread :: "u32 \<Rightarrow> u32 \<Rightarrow> 'a kbio_scheme \<Rightarrow> (nat \<times> 'a kbio_scheme) res" where
  "bread dev sector s =
     bindR (bget dev sector s) (\<lambda>(b, s).
     if bflags (bufs s ! b) AND B_VALID = 0
     then bindR (iderw b s) (\<lambda>s. Inr (b, s))
     else Inr (b, s))"

definition bwrite :: "nat \<Rightarrow> 'a kbio_scheme \<Rightarrow> 'a kbio_scheme res" where
  "bwrite b s =
     (if bflags (bufs s ! b) AND B_BUSY = 0 then Inl (Panic ''bwrite'')
      else iderw b (upd_buf b (\<lambda>x. x\<lparr>bflags := bflags x OR B_DIRTY\<rparr>) s))"

definition brelse :: "nat \<Rightarrow> 'a kbio_scheme \<Rightarrow> 'a kbio_scheme res" where
  "brelse b s =
     (if bflags (bufs s ! b) AND B_BUSY = 0 then Inl (Panic ''brelse'')
      else bindR (acquire LBcache s) (\<lambda>s.
        let s = upd_buf (bnext (bufs s ! b)) (\<lambda>x. x\<lparr>bprev := bprev (bufs s ! b)\<rparr>) s;
            s = upd_buf (bprev (bufs s ! b)) (\<lambda>x. x\<lparr>bnext := bnext (bufs s ! b)\<rparr>) s;
            s = upd_buf b (\<lambda>x. x\<lparr>bnext := bnext (bufs s ! HEAD)\<rparr>) s;
            s = upd_buf b (\<lambda>x. x\<lparr>bprev := HEAD\<rparr>) s;
            s = upd_buf (bnext (bufs s ! HEAD)) (\<lambda>x. x\<lparr>bprev := b\<rparr>) s;
            s = upd_buf HEAD (\<lambda>x. x\<lparr>bnext := b\<rparr>) s;
            s = upd_buf b (\<lambda>x. x\<lparr>bflags := bflags x AND NOT B_BUSY\<rparr>) s in
        release LBcache s))"

section \<open>Doubly linked lists\<close>

text \<open>\<open>links f a xs b\<close>: following \<open>f\<close> from \<open>a\<close> passes exactly the nodes \<open>xs\<close> and arrives at \<open>b\<close>.\<close>

fun links :: "(nat \<Rightarrow> nat) \<Rightarrow> nat \<Rightarrow> nat list \<Rightarrow> nat \<Rightarrow> bool" where
  "links f a [] b \<longleftrightarrow> f a = b"
| "links f a (x # xs) b \<longleftrightarrow> f a = x \<and> links f x xs b"

definition ring :: "(nat \<Rightarrow> nat) \<Rightarrow> (nat \<Rightarrow> nat) \<Rightarrow> nat \<Rightarrow> nat list \<Rightarrow> bool" where
  "ring nx pv h xs \<longleftrightarrow> links nx h xs h \<and> links pv h (rev xs) h \<and> distinct (h # xs)"

lemma links_append:
  "links f a (xs @ y # ys) b \<longleftrightarrow> links f a xs y \<and> links f y ys b"
  by (induction xs arbitrary: a) auto

lemma links_frame:
  "u \<notin> set (a # xs) \<Longrightarrow> links (f(u := v)) a xs b \<longleftrightarrow> links f a xs b"
  by (induction xs arbitrary: a) auto

text \<open>Redirecting the last node of a path.\<close>

lemma links_redirect:
  "links f a xs b \<Longrightarrow> distinct (a # xs) \<Longrightarrow> links (f(last (a # xs) := c)) a xs c"
proof (induction xs arbitrary: a)
  case Nil
  then show ?case by simp
next
  case (Cons x xs)
  then have "last (a # x # xs) \<noteq> a" by (metis distinct.simps(2) last.simps last_in_set list.distinct(1))
  with Cons show ?case by auto
qed

lemma links_last: "links f a xs b \<Longrightarrow> f (last (a # xs)) = b"
  by (induction xs arbitrary: a) auto

lemma links_first: "links f a xs b \<Longrightarrow> f a = hd (xs @ [b])"
  by (cases xs) auto

text \<open>Taking node \<open>b\<close> out of a ring: the two assignments that bypass it.\<close>

lemma ring_unlink:
  assumes "ring nx pv h (ys @ b # zs)"
  shows "ring (nx(pv b := nx b)) (pv(nx b := pv b)) h (ys @ zs)"
proof -
  from assms have d: "distinct (h # ys @ b # zs)"
    and n: "links nx h ys b" "links nx b zs h"
    and p: "links pv h (rev zs) b" "links pv b (rev ys) h"
    by (auto simp: ring_def links_append)
  have pb: "pv b = last (h # ys)" using links_first [OF p(2)] by (cases ys rule: rev_cases) auto
  have nb: "nx b = last (h # rev zs)" using links_first [OF n(2)] by (cases zs) auto
  have n_new: "links (nx(pv b := nx b)) h (ys @ zs) h"
  proof (cases zs)
    case Nil
    with n d links_redirect [OF n(1), of h] show ?thesis by (simp add: pb)
  next
    case (Cons z zs')
    have "links (nx(last (h # ys) := z)) h ys z" using n(1) d by (intro links_redirect) auto
    moreover have "last (h # ys) \<notin> set (z # zs')"
      using d Cons last_in_set [of "h # ys"] by (auto simp del: last.simps)
    ultimately show ?thesis using n(2) Cons by (simp add: pb links_append links_frame)
  qed
  have p_new: "links (pv(nx b := pv b)) h (rev (ys @ zs)) h"
  proof (cases ys rule: rev_cases)
    case Nil
    with p d links_redirect [OF p(1), of h] show ?thesis by (simp add: nb)
  next
    case (snoc ys' y)
    have "links (pv(last (h # rev zs) := y)) h (rev zs) y" using p(1) d by (intro links_redirect) auto
    moreover have "last (h # rev zs) \<notin> set (y # rev ys')"
      using d snoc last_in_set [of "h # rev zs"] by (auto simp del: last.simps)
    ultimately show ?thesis using p(2) snoc by (simp add: nb links_append links_frame)
  qed
  from n_new p_new d show ?thesis by (auto simp: ring_def)
qed

text \<open>Inserting node \<open>b\<close> right behind the head.\<close>

lemma ring_insert:
  assumes "ring nx pv h xs" and "b \<notin> set (h # xs)"
  shows "ring (nx(b := nx h, h := b)) (pv(b := h, nx h := b)) h (b # xs)"
proof -
  from assms(1) have n: "links nx h xs h" and p: "links pv h (rev xs) h" and d: "distinct (h # xs)"
    by (auto simp: ring_def)
  have nh: "nx h = last (h # rev xs)" using links_first [OF n] by (cases xs) auto
  have "links (nx(b := nx h, h := b)) h (b # xs) h"
  proof (cases xs)
    case Nil
    with n assms(2) show ?thesis by auto
  next
    case (Cons x xs')
    with n assms(2) d show ?thesis by (auto simp: links_frame)
  qed
  moreover have "links (pv(b := h, nx h := b)) h (rev (b # xs)) h"
  proof -
    have "links ((pv(b := h))(last (h # rev xs) := b)) h (rev xs) b"
      using p assms(2) d by (intro links_redirect [of _ _ _ h]) (auto simp: links_frame)
    moreover have "last (h # rev xs) \<noteq> b"
      using assms(2) last_in_set [of "h # rev xs"] by (auto simp del: last.simps)
    ultimately show ?thesis by (simp add: nh links_append)
  qed
  ultimately show ?thesis using d assms(2) by (auto simp: ring_def)
qed

lemma walk_links:
  assumes "links f a xs HEAD" and "HEAD \<notin> set xs" and "length xs < n"
  shows "walk n f P (f a) = Inr (find P xs)"
  using assms
proof (induction xs arbitrary: a n)
  case Nil
  then show ?case by (cases n) auto
next
  case (Cons x xs)
  then obtain m where "n = Suc m" by (cases n) auto
  with Cons show ?case by auto
qed

declare walk.simps [simp del]

section \<open>Flags\<close>

definition busy :: "buf \<Rightarrow> bool" where "busy x \<longleftrightarrow> bit (bflags x) 0"
definition valid :: "buf \<Rightarrow> bool" where "valid x \<longleftrightarrow> bit (bflags x) 1"
definition dirty :: "buf \<Rightarrow> bool" where "dirty x \<longleftrightarrow> bit (bflags x) 2"

lemma flag_bits: "B_BUSY = 2 ^ 0" "B_VALID = 2 ^ 1" "B_DIRTY = 2 ^ 2"
  by (simp_all add: B_BUSY_def B_VALID_def B_DIRTY_def)

lemma flag_tests [simp]:
  "f AND B_BUSY = 0 \<longleftrightarrow> \<not> bit f 0" "f AND B_VALID = 0 \<longleftrightarrow> \<not> bit f 1" "f AND B_DIRTY = 0 \<longleftrightarrow> \<not> bit f 2"
  unfolding flag_bits and_exp_eq_0_iff_not_bit by simp_all

lemma flag_sets [simp]:
  "bit B_BUSY n \<longleftrightarrow> n = 0" "bit B_VALID n \<longleftrightarrow> n = 1" "bit B_DIRTY n \<longleftrightarrow> n = 2"
  unfolding flag_bits bit_exp_iff by (auto simp: possible_bit_word)

lemma flag_valid_only [simp]:
  "f AND (B_VALID OR B_DIRTY) = B_VALID \<longleftrightarrow> bit f 1 \<and> \<not> bit f 2"
proof
  assume eq: "f AND (B_VALID OR B_DIRTY) = B_VALID"
  have "bit (f AND (B_VALID OR B_DIRTY)) 1" "\<not> bit (f AND (B_VALID OR B_DIRTY)) 2"
    unfolding eq by simp_all
  then show "bit f 1 \<and> \<not> bit f 2" by (simp add: bit_and_iff bit_or_iff)
next
  assume "bit f 1 \<and> \<not> bit f 2"
  then show "f AND (B_VALID OR B_DIRTY) = B_VALID"
    by (intro bit_eqI) (auto simp: bit_and_iff bit_or_iff)
qed

lemma flag_updates [simp]:
  "bit (f OR B_BUSY) n \<longleftrightarrow> bit f n \<or> n = 0" "bit (f OR B_VALID) n \<longleftrightarrow> bit f n \<or> n = 1"
  "bit (f OR B_DIRTY) n \<longleftrightarrow> bit f n \<or> n = 2"
  "n < 32 \<Longrightarrow> bit (f AND NOT B_BUSY) n \<longleftrightarrow> bit f n \<and> n \<noteq> 0"
  "n < 32 \<Longrightarrow> bit (f AND NOT B_DIRTY) n \<longleftrightarrow> bit f n \<and> n \<noteq> 2"
  by (auto simp: bit_or_iff bit_and_iff bit_not_iff possible_bit_word)

section \<open>The cache invariant\<close>

definition nx :: "buf list \<Rightarrow> nat \<Rightarrow> nat" where "nx bs = (\<lambda>i. bnext (bs ! i))"
definition pv :: "buf list \<Rightarrow> nat \<Rightarrow> nat" where "pv bs = (\<lambda>i. bprev (bs ! i))"

text \<open>The recency order: a permutation of the buffers that the links realise in both directions.\<close>

definition lru :: "buf list \<Rightarrow> nat list \<Rightarrow> bool" where
  "lru bs xs \<longleftrightarrow> length bs = NBUF + 1 \<and> ring (nx bs) (pv bs) HEAD xs \<and> set xs = {..<NBUF}"

definition cache_inv :: "buf list \<Rightarrow> (u32 \<Rightarrow> u8 list) \<Rightarrow> bool" where
  "cache_inv bs dk \<longleftrightarrow>
     (\<exists>xs. lru bs xs) \<and> (\<forall>sec. length (dk sec) = 512) \<and>
     (\<forall>i<NBUF. \<not> dirty (bs ! i) \<and> (valid (bs ! i) \<longleftrightarrow> bdev (bs ! i) = ROOTDEV) \<and>
        (busy (bs ! i) \<longrightarrow> valid (bs ! i) \<and> length (bdata (bs ! i)) = 512) \<and>
        (valid (bs ! i) \<and> \<not> busy (bs ! i) \<longrightarrow> bdata (bs ! i) = dk (bsector (bs ! i)))) \<and>
     (\<forall>i<NBUF. \<forall>j<NBUF. valid (bs ! i) \<and> valid (bs ! j) \<and> bsector (bs ! i) = bsector (bs ! j) \<longrightarrow> i = j)"

definition bio_inv :: "'a kbio_scheme \<Rightarrow> bool" where
  "bio_inv s \<longleftrightarrow> cache_inv (bufs s) (disk s) \<and> calm (lk s)"

text \<open>The buffers in use, with the sector and the contents of each.\<close>

definition inuse :: "'a kbio_scheme \<Rightarrow> nat \<rightharpoonup> u32 \<times> u8 list" where
  "inuse s b = (if b < NBUF \<and> busy (bufs s ! b)
     then Some (bsector (bufs s ! b), bdata (bufs s ! b)) else None)"

text \<open>Everything but the cache and the disk.\<close>

definition rest :: "'a kbio_scheme \<Rightarrow> 'a kbio_scheme" where
  "rest s = s\<lparr>disk := (\<lambda>_. []), bufs := []\<rparr>"

definition set_data :: "nat \<Rightarrow> u8 list \<Rightarrow> 'a kbio_scheme \<Rightarrow> 'a kbio_scheme" where
  "set_data b d s = upd_buf b (\<lambda>x. x\<lparr>bdata := d\<rparr>) s"

lemma lru_upd:
  assumes "lru bs xs" "bnext x = bnext (bs ! b)" "bprev x = bprev (bs ! b)"
  shows "lru (bs[b := x]) xs"
proof -
  have "nx (bs[b := x]) = nx bs" "pv (bs[b := x]) = pv bs"
    using assms(2,3) by (auto simp: nx_def pv_def nth_list_update fun_eq_iff split: if_splits)
      (metis list_update_beyond not_le nth_list_update_eq nth_list_update_neq)+
  with assms(1) show ?thesis by (simp add: lru_def)
qed

lemma lru_length: "lru bs xs \<Longrightarrow> length bs = 11"
  by (simp add: lru_def NBUF_def)

lemma cache_length: "cache_inv bs dk \<Longrightarrow> length bs = 11"
  by (auto simp: cache_inv_def lru_def NBUF_def)

text \<open>Replacing one buffer keeps the invariant when the new contents are coherent.\<close>

lemma cache_inv_upd:
  assumes inv: "cache_inv bs dk" and b: "b < NBUF"
    and links: "bnext x = bnext (bs ! b)" "bprev x = bprev (bs ! b)"
    and clean: "\<not> dirty x" "valid x \<longleftrightarrow> bdev x = ROOTDEV"
      "busy x \<Longrightarrow> valid x \<and> length (bdata x) = 512"
      "valid x \<Longrightarrow> \<not> busy x \<Longrightarrow> bdata x = dk (bsector x)"
    and uniq: "\<And>j. valid x \<Longrightarrow> j < NBUF \<Longrightarrow> j \<noteq> b \<Longrightarrow> valid (bs ! j) \<Longrightarrow> bsector (bs ! j) \<noteq> bsector x"
  shows "cache_inv (bs[b := x]) dk"
proof -
  have len: "b < length bs" using inv b by (auto simp: cache_inv_def lru_def)
  from inv obtain xs where "lru bs xs" by (auto simp: cache_inv_def)
  then have "lru (bs[b := x]) xs" using links by (rule lru_upd)
  then show ?thesis
    using inv clean uniq len unfolding cache_inv_def
    by (auto simp: nth_list_update) metis
qed

lemma lruE:
  assumes "lru bs xs"
  shows "links (nx bs) HEAD xs HEAD" "links (pv bs) HEAD (rev xs) HEAD" "HEAD \<notin> set xs"
    "length xs = NBUF" "distinct xs" "set xs = {..<NBUF}"
proof -
  show "length xs = NBUF" using assms distinct_card [of xs] by (auto simp: lru_def ring_def)
qed (use assms in \<open>auto simp: lru_def ring_def\<close>)

lemma find_in_set: "find P xs = Some x \<Longrightarrow> x \<in> set xs \<and> P x"
  by (auto simp: find_Some_iff)

lemma walk_lru:
  assumes "lru bs xs"
  shows "walk (Suc NBUF) (\<lambda>i. bnext (bs ! i)) P (bnext (bs ! HEAD)) = Inr (find P xs)"
    and "walk (Suc NBUF) (\<lambda>i. bprev (bs ! i)) P (bprev (bs ! HEAD)) = Inr (find P (rev xs))"
  using walk_links [of "nx bs" HEAD xs "Suc NBUF" P] walk_links [of "pv bs" HEAD "rev xs" "Suc NBUF" P]
    lruE [OF assms] by (simp_all add: nx_def pv_def)

text \<open>What \<^verbatim>\<open>bget\<close> finds when some buffer is free and the sector's buffer is not in use.\<close>

lemma bget_run:
  assumes inv: "bio_inv s" and free: "card (dom (inuse s)) < NBUF"
    and apart: "\<forall>x\<in>ran (inuse s). fst x \<noteq> sec"
  shows "\<exists>b x. b < NBUF \<and> \<not> busy (bufs s ! b) \<and>
    bget ROOTDEV sec s = Inr (b, s\<lparr>bufs := (bufs s)[b := x]\<rparr>) \<and>
    (valid (bufs s ! b) \<and> bsector (bufs s ! b) = sec \<and> x = (bufs s ! b)\<lparr>bflags := bflags (bufs s ! b) OR B_BUSY\<rparr>
     \<or> (\<forall>j<NBUF. valid (bufs s ! j) \<longrightarrow> bsector (bufs s ! j) \<noteq> sec) \<and>
       x = (bufs s ! b)\<lparr>bdev := ROOTDEV, bsector := sec, bflags := B_BUSY\<rparr>)"
proof -
  let ?bs = "bufs s" and ?P = "\<lambda>i. bdev (bufs s ! i) = ROOTDEV \<and> bsector (bufs s ! i) = sec"
  let ?Q = "\<lambda>i. \<not> bit (bflags (bufs s ! i)) 0"
  from inv have c: "cache_inv ?bs (disk s)" and calm: "calm (lk s)" by (auto simp: bio_inv_def)
  from c obtain xs where xs: "lru ?bs xs" by (auto simp: cache_inv_def)
  have lk: "s\<lparr>bufs := y, lk := lk s\<rparr> = s\<lparr>bufs := y\<rparr>" for y by simp
  show ?thesis
  proof (cases "find ?P xs")
    case (Some b)
    then have b: "b < NBUF" "?P b" using find_in_set lruE(6) [OF xs] by fastforce+
    then have v: "valid (?bs ! b)" using c by (auto simp: cache_inv_def)
    have nb: "\<not> busy (?bs ! b)"
    proof
      assume "busy (?bs ! b)"
      then have "inuse s b = Some (sec, bdata (?bs ! b))" using b by (simp add: inuse_def)
      then have "(sec, bdata (?bs ! b)) \<in> ran (inuse s)" by (auto simp: ran_def)
      with apart show False by auto
    qed
    let ?x = "(?bs ! b)\<lparr>bflags := bflags (?bs ! b) OR B_BUSY\<rparr>"
    have "bget ROOTDEV sec s = Inr (b, s\<lparr>bufs := ?bs[b := ?x]\<rparr>)"
      using nb Some calm
      by (simp add: bget_def acquire_run walk_lru [OF xs] busy_def upd_buf_def
          release_run [where k = "lk s"])
    with b nb v show ?thesis by blast
  next
    case None
    then have miss: "\<forall>j<NBUF. valid (?bs ! j) \<longrightarrow> bsector (?bs ! j) \<noteq> sec"
      using c lruE(6) [OF xs] by (auto simp: find_None_iff cache_inv_def)
    have "find ?Q (rev xs) \<noteq> None"
    proof
      assume "find ?Q (rev xs) = None"
      then have "{..<NBUF} \<subseteq> dom (inuse s)"
        using lruE(6) [OF xs] by (auto simp: find_None_iff inuse_def busy_def)
      moreover have "dom (inuse s) \<subseteq> {..<NBUF}" by (auto simp: inuse_def split: if_splits)
      ultimately have "dom (inuse s) = {..<NBUF}" by simp
      with free show False by simp
    qed
    then obtain b where f: "find ?Q (rev xs) = Some b" by auto
    then have b: "b < NBUF" "?Q b" using find_in_set lruE(6) [OF xs] by fastforce+
    let ?x = "(?bs ! b)\<lparr>bdev := ROOTDEV, bsector := sec, bflags := B_BUSY\<rparr>"
    have "bget ROOTDEV sec s = Inr (b, s\<lparr>bufs := ?bs[b := ?x]\<rparr>)"
      using None f calm
      by (simp add: bget_def acquire_run walk_lru [OF xs] upd_buf_def release_run [where k = "lk s"])
    with b miss show ?thesis by (auto simp: busy_def)
  qed
qed

lemma iderw_read:
  assumes "calm (lk s)" "b < length (bufs s)" "busy (bufs s ! b)" "\<not> valid (bufs s ! b)" "\<not> dirty (bufs s ! b)"
  shows "iderw b s = Inr (s\<lparr>bufs := (bufs s)[b := (bufs s ! b)
    \<lparr>bdata := disk s (bsector (bufs s ! b)), bflags := (bflags (bufs s ! b) OR B_VALID) AND NOT B_DIRTY\<rparr>]\<rparr>)"
  using assms
  by (simp add: iderw_def acquire_run idestart_def upd_buf_def Let_def busy_def valid_def dirty_def
      release_run [where k = "lk s"])

lemma iderw_write:
  assumes "calm (lk s)" "b < length (bufs s)" "busy (bufs s ! b)" "dirty (bufs s ! b)"
  shows "iderw b s = Inr (s\<lparr>disk := (disk s)(bsector (bufs s ! b) := bdata (bufs s ! b)),
    bufs := (bufs s)[b := (bufs s ! b)\<lparr>bflags := (bflags (bufs s ! b) OR B_VALID) AND NOT B_DIRTY\<rparr>]\<rparr>)"
  using assms
  by (simp add: iderw_def acquire_run idestart_def upd_buf_def Let_def busy_def valid_def dirty_def
      release_run [where k = "lk s"])

lemma inuse_upd:
  assumes "length (bufs s) = 11" "b < NBUF"
  shows "inuse (s\<lparr>bufs := (bufs s)[b := x]\<rparr>) =
    (inuse s)(b := if busy x then Some (bsector x, bdata x) else None)"
  using assms by (auto simp: inuse_def fun_eq_iff NBUF_def nth_list_update)

lemma inuse_disk [simp]:
  "inuse (s\<lparr>disk := d\<rparr>) = inuse s" "inuse (s\<lparr>disk := d, bufs := x\<rparr>) = inuse (s\<lparr>bufs := x\<rparr>)"
  by (simp_all add: inuse_def fun_eq_iff)

lemma rest_bufs [simp]: "rest (s\<lparr>bufs := x\<rparr>) = rest s" "rest (s\<lparr>disk := d\<rparr>) = rest s"
  by (simp_all add: rest_def)

lemma bio_inv_length: "bio_inv s \<Longrightarrow> length (bufs s) = 11"
  by (auto simp: bio_inv_def dest: cache_length)

lemma bread_law:
  assumes inv: "bio_inv s" and free: "card (dom (inuse s)) < NBUF"
    and apart: "\<forall>x\<in>ran (inuse s). fst x \<noteq> sec"
  shows "\<exists>b s'. bread ROOTDEV sec s = Inr (b, s') \<and> bio_inv s' \<and> inuse s b = None \<and>
    inuse s' = (inuse s)(b \<mapsto> (sec, disk s sec)) \<and> disk s' = disk s \<and> rest s' = rest s"
proof -
  from inv have c: "cache_inv (bufs s) (disk s)" and calm: "calm (lk s)" by (auto simp: bio_inv_def)
  note len = bio_inv_length [OF inv]
  from bget_run [OF assms] obtain b x where b: "b < NBUF" "\<not> busy (bufs s ! b)"
    and get: "bget ROOTDEV sec s = Inr (b, s\<lparr>bufs := (bufs s)[b := x]\<rparr>)"
    and x: "valid (bufs s ! b) \<and> bsector (bufs s ! b) = sec \<and>
        x = (bufs s ! b)\<lparr>bflags := bflags (bufs s ! b) OR B_BUSY\<rparr>
      \<or> (\<forall>j<NBUF. valid (bufs s ! j) \<longrightarrow> bsector (bufs s ! j) \<noteq> sec) \<and>
        x = (bufs s ! b)\<lparr>bdev := ROOTDEV, bsector := sec, bflags := B_BUSY\<rparr>"
    by blast
  have b11: "b < 11" using b by (simp add: NBUF_def)
  have old: "\<not> dirty (bufs s ! b)" "valid (bufs s ! b) \<longleftrightarrow> bdev (bufs s ! b) = ROOTDEV"
    "valid (bufs s ! b) \<Longrightarrow> bdata (bufs s ! b) = disk s (bsector (bufs s ! b))"
    "length (disk s sec) = 512"
    "\<And>j. j < NBUF \<Longrightarrow> valid (bufs s ! j) \<Longrightarrow> valid (bufs s ! b) \<Longrightarrow>
       bsector (bufs s ! j) = bsector (bufs s ! b) \<Longrightarrow> j = b"
    using c b by (auto simp: cache_inv_def)
  have "\<exists>y. bread ROOTDEV sec s = Inr (b, s\<lparr>bufs := (bufs s)[b := y]\<rparr>) \<and>
      busy y \<and> valid y \<and> \<not> dirty y \<and> bdev y = ROOTDEV \<and> bsector y = sec \<and> bdata y = disk s sec \<and>
      bnext y = bnext (bufs s ! b) \<and> bprev y = bprev (bufs s ! b) \<and>
      (\<forall>j<NBUF. j \<noteq> b \<longrightarrow> valid (bufs s ! j) \<longrightarrow> bsector (bufs s ! j) \<noteq> sec)"
    using x
  proof
    assume hit: "valid (bufs s ! b) \<and> bsector (bufs s ! b) = sec \<and>
        x = (bufs s ! b)\<lparr>bflags := bflags (bufs s ! b) OR B_BUSY\<rparr>"
    then have "bread ROOTDEV sec s = Inr (b, s\<lparr>bufs := (bufs s)[b := x]\<rparr>)"
      using b11 len by (simp add: bread_def get valid_def)
    with hit old show ?thesis by (intro exI [of _ x]) (auto simp: busy_def valid_def dirty_def)
  next
    assume miss: "(\<forall>j<NBUF. valid (bufs s ! j) \<longrightarrow> bsector (bufs s ! j) \<noteq> sec) \<and>
        x = (bufs s ! b)\<lparr>bdev := ROOTDEV, bsector := sec, bflags := B_BUSY\<rparr>"
    let ?y = "x\<lparr>bdata := disk s sec, bflags := (B_BUSY OR B_VALID) AND NOT B_DIRTY\<rparr>"
    have "iderw b (s\<lparr>bufs := (bufs s)[b := x]\<rparr>) = Inr (s\<lparr>bufs := (bufs s)[b := ?y]\<rparr>)"
      using miss b11 len calm
      by (subst iderw_read) (simp_all add: busy_def valid_def dirty_def)
    then have "bread ROOTDEV sec s = Inr (b, s\<lparr>bufs := (bufs s)[b := ?y]\<rparr>)"
      using miss b11 len by (simp add: bread_def get)
    with miss show ?thesis
      by (intro exI [of _ ?y]) (auto simp: busy_def valid_def dirty_def)
  qed
  then obtain y where y: "bread ROOTDEV sec s = Inr (b, s\<lparr>bufs := (bufs s)[b := y]\<rparr>)"
    and f: "busy y" "valid y" "\<not> dirty y" "bdev y = ROOTDEV" "bsector y = sec" "bdata y = disk s sec"
      "bnext y = bnext (bufs s ! b)" "bprev y = bprev (bufs s ! b)"
    and u: "\<And>j. j < NBUF \<Longrightarrow> j \<noteq> b \<Longrightarrow> valid (bufs s ! j) \<Longrightarrow> bsector (bufs s ! j) \<noteq> sec"
    by blast
  have "cache_inv ((bufs s)[b := y]) (disk s)"
    by (rule cache_inv_upd [OF c b(1)]) (use f u old in auto)
  with calm have "bio_inv (s\<lparr>bufs := (bufs s)[b := y]\<rparr>)" by (simp add: bio_inv_def)
  moreover have "inuse (s\<lparr>bufs := (bufs s)[b := y]\<rparr>) = (inuse s)(b \<mapsto> (sec, disk s sec))"
    using inuse_upd [OF len b(1), of y] f by simp
  moreover have "inuse s b = None" using b by (simp add: inuse_def)
  ultimately show ?thesis using y by auto
qed

lemma inuse_SomeD:
  assumes "bio_inv s" "inuse s b = Some (sec, d)"
  shows "b < NBUF" "busy (bufs s ! b)" "valid (bufs s ! b)" "bsector (bufs s ! b) = sec"
    "bdata (bufs s ! b) = d" "length d = 512" "\<not> dirty (bufs s ! b)" "bdev (bufs s ! b) = ROOTDEV"
    "\<And>j. j < NBUF \<Longrightarrow> j \<noteq> b \<Longrightarrow> valid (bufs s ! j) \<Longrightarrow> bsector (bufs s ! j) \<noteq> sec"
  using assms by (auto simp: inuse_def bio_inv_def cache_inv_def split: if_splits)

lemma set_data_law:
  assumes inv: "bio_inv s" and u: "inuse s b = Some (sec, d)" and "length d' = 512"
  shows "bio_inv (set_data b d' s)" "inuse (set_data b d' s) = (inuse s)(b \<mapsto> (sec, d'))"
    "disk (set_data b d' s) = disk s" "rest (set_data b d' s) = rest s"
proof -
  note b = inuse_SomeD [OF inv u]
  have "cache_inv ((bufs s)[b := (bufs s ! b)\<lparr>bdata := d'\<rparr>]) (disk s)"
    by (rule cache_inv_upd) (use inv b assms(3) in \<open>auto simp: bio_inv_def busy_def valid_def dirty_def\<close>)
  with inv show "bio_inv (set_data b d' s)" by (simp add: bio_inv_def set_data_def upd_buf_def)
  show "inuse (set_data b d' s) = (inuse s)(b \<mapsto> (sec, d'))"
    using inuse_upd [OF bio_inv_length [OF inv] b(1)] b by (simp add: set_data_def upd_buf_def busy_def)
qed (simp_all add: set_data_def upd_buf_def)

text \<open>Writing a sector to the disk keeps the invariant when no idle buffer caches it.\<close>

lemma cache_inv_disk:
  assumes "cache_inv bs dk" "length d = 512"
    and "\<And>i. i < NBUF \<Longrightarrow> valid (bs ! i) \<Longrightarrow> \<not> busy (bs ! i) \<Longrightarrow> bsector (bs ! i) \<noteq> sec"
  shows "cache_inv bs (dk(sec := d))"
  using assms unfolding cache_inv_def by (auto simp del: fun_upd_apply) (auto split: if_splits)

lemma bwrite_law:
  assumes inv: "bio_inv s" and u: "inuse s b = Some (sec, d)"
  shows "\<exists>s'. bwrite b s = Inr s' \<and> bio_inv s' \<and> inuse s' = inuse s \<and>
    disk s' = (disk s)(sec := d) \<and> rest s' = rest s"
proof -
  note b = inuse_SomeD [OF inv u]
  note len = bio_inv_length [OF inv]
  have b11: "b < 11" using b(1) by (simp add: NBUF_def)
  have calm: "calm (lk s)" using inv by (simp add: bio_inv_def)
  let ?y = "(bufs s ! b)\<lparr>bflags := bflags (bufs s ! b) OR B_DIRTY\<rparr>"
  let ?x = "?y\<lparr>bflags := (bflags ?y OR B_VALID) AND NOT B_DIRTY\<rparr>"
  let ?s = "s\<lparr>disk := (disk s)(sec := d), bufs := (bufs s)[b := ?x]\<rparr>"
  have x: "busy ?x" "valid ?x" "\<not> dirty ?x" "bdev ?x = ROOTDEV" "bsector ?x = sec" "bdata ?x = d"
    using b by (simp_all add: busy_def valid_def dirty_def)
  have "iderw b (s\<lparr>bufs := (bufs s)[b := ?y]\<rparr>) = Inr ?s"
    using b b11 len calm by (subst iderw_write) (simp_all add: busy_def dirty_def)
  then have run: "bwrite b s = Inr ?s"
    using b(2) by (simp add: bwrite_def upd_buf_def busy_def)
  have "cache_inv ((bufs s)[b := ?x]) (disk s)"
    by (rule cache_inv_upd) (use inv b x in \<open>simp_all add: bio_inv_def del: buf.update_convs\<close>)
  then have "cache_inv ((bufs s)[b := ?x]) ((disk s)(sec := d))"
  proof (rule cache_inv_disk)
    fix i assume "i < NBUF" "valid ((bufs s)[b := ?x] ! i)" "\<not> busy ((bufs s)[b := ?x] ! i)"
    then show "bsector ((bufs s)[b := ?x] ! i) \<noteq> sec"
      using b(9) [of i] x(1) b11 len by (cases "i = b") (simp_all add: nth_list_update)
  qed (rule b(6))
  with calm have "bio_inv ?s" by (simp add: bio_inv_def)
  moreover have "inuse (s\<lparr>bufs := (bufs s)[b := ?x]\<rparr>) = inuse s"
    using inuse_upd [OF len b(1), of ?x] u x by (simp add: fun_upd_idem)
  then have "inuse ?s = inuse s" by (simp only: inuse_disk)
  moreover have "disk ?s = (disk s)(sec := d)" "rest ?s = rest s" by (simp_all add: rest_def)
  ultimately show ?thesis using run by blast
qed

section \<open>Releasing a buffer\<close>

definition set_next :: "nat \<Rightarrow> nat \<Rightarrow> buf list \<Rightarrow> buf list" where
  "set_next i v bs = bs[i := (bs ! i)\<lparr>bnext := v\<rparr>]"

definition set_prev :: "nat \<Rightarrow> nat \<Rightarrow> buf list \<Rightarrow> buf list" where
  "set_prev i v bs = bs[i := (bs ! i)\<lparr>bprev := v\<rparr>]"

definition set_flags :: "nat \<Rightarrow> u32 \<Rightarrow> buf list \<Rightarrow> buf list" where
  "set_flags i v bs = bs[i := (bs ! i)\<lparr>bflags := v\<rparr>]"

lemma set_link_links [simp]:
  "i < length bs \<Longrightarrow> nx (set_next i v bs) = (nx bs)(i := v)" "pv (set_next i v bs) = pv bs"
  "i < length bs \<Longrightarrow> pv (set_prev i v bs) = (pv bs)(i := v)" "nx (set_prev i v bs) = nx bs"
  "nx (set_flags i f bs) = nx bs" "pv (set_flags i f bs) = pv bs"
  by (rule ext; cases "i < length bs"; simp add: nx_def pv_def set_next_def set_prev_def set_flags_def nth_list_update list_update_beyond)+

lemma set_link_nth:
  "bnext (set_prev i v bs ! j) = bnext (bs ! j)" "bprev (set_next i v bs ! j) = bprev (bs ! j)"
  using set_link_links(2,4) by (simp_all add: nx_def pv_def fun_eq_iff)

lemma set_link_length [simp]:
  "length (set_next i v bs) = length bs" "length (set_prev i v bs) = length bs"
  "length (set_flags i f bs) = length bs"
  by (simp_all add: set_next_def set_prev_def set_flags_def)

text \<open>The fields of a buffer the links do not touch.\<close>

definition core :: "buf list \<Rightarrow> nat \<Rightarrow> u32 \<times> u32 \<times> u32 \<times> u8 list" where
  "core bs i = (bflags (bs ! i), bdev (bs ! i), bsector (bs ! i), bdata (bs ! i))"

lemma set_link_core [simp]:
  "core (set_next i v bs) = core bs" "core (set_prev i v bs) = core bs"
  by (rule ext; cases "i < length bs"; simp add: core_def set_next_def set_prev_def nth_list_update list_update_beyond)+

lemma set_flags_core:
  "i < length bs \<Longrightarrow> core (set_flags i f bs) = (core bs)(i := (f, snd (core bs i)))"
  by (rule ext) (simp add: core_def set_flags_def nth_list_update)

lemma core_fields:
  "core bs i = core bs' j \<Longrightarrow> busy (bs ! i) = busy (bs' ! j) \<and> valid (bs ! i) = valid (bs' ! j) \<and>
     dirty (bs ! i) = dirty (bs' ! j) \<and> bdev (bs ! i) = bdev (bs' ! j) \<and>
     bsector (bs ! i) = bsector (bs' ! j) \<and> bdata (bs ! i) = bdata (bs' ! j)"
  by (simp add: core_def busy_def valid_def dirty_def)

lemma links_range: "links f a xs b \<Longrightarrow> u \<in> set (a # xs) \<Longrightarrow> f u \<in> set (xs @ [b])"
  by (induction xs arbitrary: a) auto

lemma ring_range:
  assumes "ring f g h xs" "b \<in> set (h # xs)"
  shows "f b \<in> set (h # xs)" "g b \<in> set (h # xs)"
  using assms links_range [of f h xs h b] links_range [of g h "rev xs" h b] by (auto simp: ring_def)

lemma ring_neq:
  assumes "ring f g h (ys @ b # zs)"
  shows "f b \<noteq> b"
proof -
  from assms have "links f b zs h" "b \<noteq> h" "b \<notin> set zs" by (auto simp: ring_def links_append)
  with links_first [of f b zs h] show ?thesis by (cases zs) auto
qed

text \<open>The two list surgeries of \<^verbatim>\<open>brelse\<close>: unlink, then put behind the head.\<close>

definition unlinked :: "nat \<Rightarrow> buf list \<Rightarrow> buf list" where
  "unlinked b bs = set_next (pv (set_prev (nx bs b) (pv bs b) bs) b) (nx bs b)
     (set_prev (nx bs b) (pv bs b) bs)"

definition fronted :: "nat \<Rightarrow> buf list \<Rightarrow> buf list" where
  "fronted b bs = set_next HEAD b (set_prev (nx (set_next b (nx bs HEAD) bs) HEAD) b
     (set_prev b HEAD (set_next b (nx bs HEAD) bs)))"

lemma lru_unlinked:
  assumes l: "length bs = NBUF + 1" and r: "ring (nx bs) (pv bs) HEAD (ys @ b # zs)"
    and range: "set (ys @ b # zs) \<subseteq> {..<NBUF}"
  shows "ring (nx (unlinked b bs)) (pv (unlinked b bs)) HEAD (ys @ zs)"
proof -
  have "nx bs b < length bs" "pv bs b < length bs"
    using ring_range [OF r, of b] range l by (auto simp: HEAD_def)
  then have "nx (unlinked b bs) = (nx bs)(pv bs b := nx bs b)"
    "pv (unlinked b bs) = (pv bs)(nx bs b := pv bs b)"
    using ring_neq [OF r] by (simp_all add: unlinked_def)
  with ring_unlink [OF r] show ?thesis by simp
qed

lemma lru_fronted:
  assumes l: "length bs = NBUF + 1" and r: "ring (nx bs) (pv bs) HEAD xs"
    and range: "set xs \<subseteq> {..<NBUF}" and b: "b < NBUF" "b \<notin> set xs"
  shows "ring (nx (fronted b bs)) (pv (fronted b bs)) HEAD (b # xs)"
proof -
  have "nx bs HEAD < length bs" "b \<noteq> HEAD" using ring_range [OF r, of HEAD] range l b by (auto simp: HEAD_def)
  then have "nx (fronted b bs) = (nx bs)(b := nx bs HEAD, HEAD := b)"
    "pv (fronted b bs) = (pv bs)(b := HEAD, nx bs HEAD := b)"
    using b l by (simp_all add: fronted_def HEAD_def)
  with ring_insert [OF r] b show ?thesis by (simp add: HEAD_def)
qed

definition released :: "nat \<Rightarrow> buf list \<Rightarrow> buf list" where
  "released b bs = (let bs' = fronted b (unlinked b bs) in
     set_flags b (bflags (bs' ! b) AND NOT B_BUSY) bs')"

lemma upd_buf_links:
  "upd_buf i (\<lambda>x. x\<lparr>bnext := v\<rparr>) s = s\<lparr>bufs := set_next i v (bufs s)\<rparr>"
  "upd_buf i (\<lambda>x. x\<lparr>bprev := v\<rparr>) s = s\<lparr>bufs := set_prev i v (bufs s)\<rparr>"
  "upd_buf i (\<lambda>x. x\<lparr>bflags := bflags x AND m\<rparr>) s = s\<lparr>bufs := set_flags i (bflags (bufs s ! i) AND m) (bufs s)\<rparr>"
  by (simp_all add: upd_buf_def set_next_def set_prev_def set_flags_def)

lemma brelse_run:
  assumes "calm (lk s)" "busy (bufs s ! b)"
  shows "brelse b s = Inr (s\<lparr>bufs := released b (bufs s)\<rparr>)"
  using assms
  by (simp add: brelse_def busy_def acquire_run upd_buf_links Let_def released_def fronted_def unlinked_def
      nx_def pv_def set_link_nth release_run [where k = "lk s"])

lemma core_released:
  "length bs = NBUF + 1 \<Longrightarrow> b < NBUF \<Longrightarrow>
   core (released b bs) = (core bs)(b := (bflags (bs ! b) AND NOT B_BUSY, snd (core bs b)))"
proof -
  assume a: "length bs = NBUF + 1" "b < NBUF"
  have c: "core (fronted b (unlinked b bs)) = core bs" by (simp add: fronted_def unlinked_def)
  have "bflags (fronted b (unlinked b bs) ! b) = bflags (bs ! b)"
    using fun_cong [OF c, of b] by (simp add: core_def)
  moreover have "length (fronted b (unlinked b bs)) = length bs" by (simp add: fronted_def unlinked_def)
  ultimately show ?thesis using a c by (simp add: released_def Let_def set_flags_core)
qed

lemma lru_released:
  assumes "lru bs (ys @ b # zs)"
  shows "lru (released b bs) (b # ys @ zs)"
proof -
  from assms have l: "length bs = NBUF + 1" and r: "ring (nx bs) (pv bs) HEAD (ys @ b # zs)"
    and st: "set (ys @ b # zs) = {..<NBUF}" by (auto simp: lru_def)
  have "b \<notin> set (ys @ zs)" using r by (auto simp: ring_def)
  moreover have "b < NBUF" "set (ys @ zs) \<subseteq> {..<NBUF}" using st by auto
  moreover have "length (unlinked b bs) = NBUF + 1" using l by (simp add: unlinked_def)
  ultimately have "ring (nx (fronted b (unlinked b bs))) (pv (fronted b (unlinked b bs))) HEAD (b # ys @ zs)"
    using lru_unlinked [OF l r] st by (intro lru_fronted) auto
  then show ?thesis
    using l st by (auto simp: lru_def released_def Let_def fronted_def unlinked_def)
qed

lemma brelse_law:
  assumes inv: "bio_inv s" and u: "inuse s b = Some (sec, disk s sec)"
  shows "\<exists>s'. brelse b s = Inr s' \<and> bio_inv s' \<and> inuse s' = (inuse s)(b := None) \<and>
    disk s' = disk s \<and> rest s' = rest s"
proof -
  note b = inuse_SomeD [OF inv u]
  let ?bs = "bufs s" and ?r = "released b (bufs s)"
  from inv have c: "cache_inv ?bs (disk s)" and calm: "calm (lk s)" by (auto simp: bio_inv_def)
  have l: "length ?bs = NBUF + 1" using c by (auto simp: cache_inv_def lru_def)
  note core = core_released [OF l b(1)]
  have other: "busy (?r ! i) = busy (?bs ! i) \<and> valid (?r ! i) = valid (?bs ! i) \<and>
     dirty (?r ! i) = dirty (?bs ! i) \<and> bdev (?r ! i) = bdev (?bs ! i) \<and>
     bsector (?r ! i) = bsector (?bs ! i) \<and> bdata (?r ! i) = bdata (?bs ! i)" if "i \<noteq> b" for i
    using core_fields [of ?r i ?bs i] that by (simp add: core)
  have self: "\<not> busy (?r ! b)" "valid (?r ! b)" "\<not> dirty (?r ! b)" "bdev (?r ! b) = ROOTDEV"
    "bsector (?r ! b) = sec" "bdata (?r ! b) = disk s sec"
    using fun_cong [OF core, of b] b by (auto simp: core_def busy_def valid_def dirty_def)
  from c obtain xs where xs: "lru ?bs xs" by (auto simp: cache_inv_def)
  then obtain ys zs where "xs = ys @ b # zs"
    using b(1) lruE(6) [OF xs] by (metis lessThan_iff split_list)
  with xs have lru: "lru ?r (b # ys @ zs)" using lru_released by blast
  have "(\<not> dirty (?r ! i) \<and> (valid (?r ! i) \<longleftrightarrow> bdev (?r ! i) = ROOTDEV) \<and>
        (busy (?r ! i) \<longrightarrow> valid (?r ! i) \<and> length (bdata (?r ! i)) = 512) \<and>
        (valid (?r ! i) \<and> \<not> busy (?r ! i) \<longrightarrow> bdata (?r ! i) = disk s (bsector (?r ! i))))"
    if "i < NBUF" for i
    using c that self other by (cases "i = b") (auto simp: cache_inv_def)
  moreover have "i = j" if "i < NBUF" "j < NBUF" "valid (?r ! i)" "valid (?r ! j)"
    "bsector (?r ! i) = bsector (?r ! j)" for i j
    using b(9) [of i] b(9) [of j] c that self other
    by (cases "i = b"; cases "j = b") (auto simp: cache_inv_def)
  ultimately have "cache_inv ?r (disk s)"
    using lru c unfolding cache_inv_def by blast
  with calm have inv': "bio_inv (s\<lparr>bufs := ?r\<rparr>)" by (simp add: bio_inv_def)
  have "inuse (s\<lparr>bufs := ?r\<rparr>) i = ((inuse s)(b := None)) i" for i
    using self other [of i] by (cases "i = b") (simp_all add: inuse_def)
  with inv' show ?thesis by (auto simp: brelse_run [OF calm b(2)])
qed

section \<open>Initialisation\<close>

lemma initlock_fields [simp]:
  "bufs (initlock l nm s) = bufs s" "disk (initlock l nm s) = disk s"
  by (simp_all add: initlock_def)

lemma dev_commute:
  "i \<noteq> b \<Longrightarrow> (set_next i v bs)[b := (set_next i v bs ! b)\<lparr>bdev := d\<rparr>] = set_next i v (bs[b := (bs ! b)\<lparr>bdev := d\<rparr>])"
  "i \<noteq> b \<Longrightarrow> (set_prev i v bs)[b := (set_prev i v bs ! b)\<lparr>bdev := d\<rparr>] = set_prev i v (bs[b := (bs ! b)\<lparr>bdev := d\<rparr>])"
  by (simp_all add: set_next_def set_prev_def list_update_swap)

text \<open>Buffers that were never used, as the zeroed memory of the cache holds them.\<close>

definition unused_buf :: "buf \<Rightarrow> bool" where
  "unused_buf x \<longleftrightarrow> bflags x = 0 \<and> bdev x \<noteq> ROOTDEV"

definition listed :: "nat \<Rightarrow> nat list \<Rightarrow> buf list \<Rightarrow> bool" where
  "listed b xs bs \<longleftrightarrow> length bs = NBUF + 1 \<and> ring (nx bs) (pv bs) HEAD xs \<and> set xs = {..<b} \<and>
     (\<forall>i<b. unused_buf (bs ! i)) \<and> (\<forall>i<NBUF. bflags (bs ! i) = 0)"

lemma binit_body:
  assumes "listed b xs bs" "b < NBUF"
  shows "listed (Suc b) (b # xs) ((fronted b bs)[b := (fronted b bs ! b)\<lparr>bdev := - 1\<rparr>])"
proof -
  let ?f = "fronted b bs" and ?g = "(fronted b bs)[b := (fronted b bs ! b)\<lparr>bdev := - 1\<rparr>]"
  from assms have l: "length bs = NBUF + 1" and r: "ring (nx bs) (pv bs) HEAD xs"
    and st: "set xs = {..<b}" by (auto simp: listed_def)
  have lf: "length ?f = length bs" by (simp add: fronted_def)
  have c: "core ?f = core bs" by (simp add: fronted_def)
  have fl: "bflags (?f ! i) = bflags (bs ! i)" "bdev (?f ! i) = bdev (bs ! i)" for i
    using fun_cong [OF c, of i] by (simp_all add: core_def)
  have "nx ?g = nx ?f" "pv ?g = pv ?f"
    using l lf assms(2) by (auto simp: nx_def pv_def nth_list_update fun_eq_iff)
  then have "ring (nx ?g) (pv ?g) HEAD (b # xs)"
    using lru_fronted [OF l r] st assms(2) by auto
  moreover have "unused_buf (?g ! i)" if "i < Suc b" for i
    using assms that l lf fl by (cases "i = b") (auto simp: unused_buf_def ROOTDEV_def listed_def nth_list_update)
  moreover have "bflags (?g ! i) = 0" if "i < NBUF" for i
    using assms that l lf fl by (auto simp: listed_def nth_list_update)
  ultimately show ?thesis using l lf st assms(2) by (auto simp: listed_def)
qed

lemma binit_loop_listed:
  "listed b xs (bufs s) \<Longrightarrow> b + n = NBUF \<Longrightarrow>
   \<exists>bs ys. binit_loop b n s = s\<lparr>bufs := bs\<rparr> \<and> listed NBUF ys bs"
proof (induction n arbitrary: b xs s)
  case 0
  then show ?case by (intro exI [of _ "bufs s"] exI [of _ xs]) simp
next
  case (Suc n)
  let ?bs = "bufs s"
  let ?g = "(fronted b ?bs)[b := (fronted b ?bs ! b)\<lparr>bdev := - 1\<rparr>]"
  have len: "length ?bs = NBUF + 1" and b: "b < NBUF" using Suc.prems by (auto simp: listed_def)
  have r: "ring (nx ?bs) (pv ?bs) HEAD xs" "set xs = {..<b}" using Suc.prems(1) by (auto simp: listed_def)
  have "nx ?bs HEAD \<in> insert HEAD {..<b}" using ring_range(1) [OF r(1), of HEAD] r(2) by simp
  then have h: "nx ?bs HEAD \<noteq> b" "b \<noteq> HEAD" using b by (auto simp: HEAD_def)
  let ?a = "set_prev b HEAD (set_next b (nx ?bs HEAD) ?bs)"
  have "?g = set_next HEAD b (set_prev (nx ?bs HEAD) b (?a[b := (?a ! b)\<lparr>bdev := - 1\<rparr>]))"
    using h len b by (simp add: fronted_def dev_commute)
  then have "binit_loop b (Suc n) s = binit_loop (Suc b) n (s\<lparr>bufs := ?g\<rparr>)"
    using h len b
    by (simp add: upd_buf_def set_next_def set_prev_def Let_def nx_def)
  moreover have "\<exists>bs ys. binit_loop (Suc b) n (s\<lparr>bufs := ?g\<rparr>) = (s\<lparr>bufs := ?g\<rparr>)\<lparr>bufs := bs\<rparr> \<and> listed NBUF ys bs"
    using Suc.prems binit_body [OF Suc.prems(1) b] by (intro Suc.IH) auto
  ultimately show ?case by auto
qed

lemma binit_law:
  assumes len: "length (bufs s) = NBUF + 1" and z: "\<forall>i<NBUF. bflags (bufs s ! i) = 0"
    and dk: "\<forall>sec. length (disk s sec) = 512" and calm: "calm (lk s)"
  shows "bio_inv (binit s) \<and> inuse (binit s) = Map.empty \<and> disk (binit s) = disk s \<and>
    (\<forall>i<NBUF. bdev (bufs (binit s) ! i) \<noteq> ROOTDEV)"
proof -
  let ?h = "(bufs s ! HEAD)\<lparr>bprev := HEAD, bnext := HEAD\<rparr>"
  let ?t = "(initlock LBcache ''bcache'' s)\<lparr>bufs := (bufs s)[HEAD := ?h]\<rparr>"
  have "listed 0 [] (bufs ?t)"
    using len z by (auto simp: listed_def ring_def nx_def pv_def HEAD_def)
  then obtain bs ys where t: "binit_loop 0 NBUF ?t = ?t\<lparr>bufs := bs\<rparr>" and l: "listed NBUF ys bs"
    using binit_loop_listed [of 0 "[]" ?t NBUF] by auto
  have run: "binit s = (initlock LBcache ''bcache'' s)\<lparr>bufs := bs\<rparr>"
    using t len by (simp add: binit_def upd_buf_def HEAD_def)
  have u: "\<not> busy (bs ! i) \<and> \<not> valid (bs ! i) \<and> \<not> dirty (bs ! i) \<and> bdev (bs ! i) \<noteq> ROOTDEV" if "i < NBUF" for i
    using l that by (simp add: listed_def unused_buf_def busy_def valid_def dirty_def)
  have "lru bs ys" using l by (simp add: listed_def lru_def)
  with u dk have "cache_inv bs (disk s)" unfolding cache_inv_def by blast
  then show ?thesis using calm u by (auto simp: run bio_inv_def inuse_def fun_eq_iff)
qed

section \<open>The contract of the cache\<close>

text \<open>
  What the file system relies on. \<open>used\<close> gives the buffers handed out, \<open>sectors\<close> the disk,
  \<open>other\<close> the part of the state the cache never touches.
\<close>

locale block_cache =
  fixes inv :: "'s \<Rightarrow> bool" and used :: "'s \<Rightarrow> nat \<rightharpoonup> u32 \<times> u8 list"
    and sectors :: "'s \<Rightarrow> u32 \<Rightarrow> u8 list" and other :: "'s \<Rightarrow> 's"
    and contents :: "'s \<Rightarrow> nat \<Rightarrow> u8 list"
    and rd :: "u32 \<Rightarrow> 's \<Rightarrow> (nat \<times> 's) res" and put :: "nat \<Rightarrow> u8 list \<Rightarrow> 's \<Rightarrow> 's"
    and wr :: "nat \<Rightarrow> 's \<Rightarrow> 's res" and rel :: "nat \<Rightarrow> 's \<Rightarrow> 's res"
  assumes rd_law: "\<lbrakk>inv s; card (dom (used s)) < NBUF; \<forall>x\<in>ran (used s). fst x \<noteq> sec\<rbrakk> \<Longrightarrow>
      \<exists>b s'. rd sec s = Inr (b, s') \<and> inv s' \<and> used s b = None \<and>
        used s' = (used s)(b \<mapsto> (sec, sectors s sec)) \<and> sectors s' = sectors s \<and> other s' = other s"
    and contents_law: "used s b = Some (sec, d) \<Longrightarrow> contents s b = d"
    and put_law: "\<lbrakk>inv s; used s b = Some (sec, d); length d' = 512\<rbrakk> \<Longrightarrow>
      inv (put b d' s) \<and> used (put b d' s) = (used s)(b \<mapsto> (sec, d')) \<and>
      sectors (put b d' s) = sectors s \<and> other (put b d' s) = other s"
    and wr_law: "\<lbrakk>inv s; used s b = Some (sec, d)\<rbrakk> \<Longrightarrow>
      \<exists>s'. wr b s = Inr s' \<and> inv s' \<and> used s' = used s \<and>
        sectors s' = (sectors s)(sec := d) \<and> other s' = other s"
    and rel_law: "\<lbrakk>inv s; used s b = Some (sec, sectors s sec)\<rbrakk> \<Longrightarrow>
      \<exists>s'. rel b s = Inr s' \<and> inv s' \<and> used s' = (used s)(b := None) \<and>
        sectors s' = sectors s \<and> other s' = other s"
begin

text \<open>A sector can be fetched: a buffer is left for it, and nobody holds it.\<close>

definition avail :: "u32 \<Rightarrow> 's \<Rightarrow> bool" where
  "avail sec s \<longleftrightarrow> inv s \<and> card (dom (used s)) < NBUF \<and> (\<forall>x\<in>ran (used s). fst x \<noteq> sec)"

lemma read_cycle:
  assumes "avail sec s"
  shows "\<exists>b s1 s2. rd sec s = Inr (b, s1) \<and> contents s1 b = sectors s sec \<and>
    other s1 = other s \<and> rel b s1 = Inr s2 \<and> inv s2 \<and> used s2 = used s \<and>
    sectors s2 = sectors s \<and> other s2 = other s"
proof -
  from rd_law assms obtain b s1 where 1: "rd sec s = Inr (b, s1)" "inv s1" "used s b = None"
    "used s1 = (used s)(b \<mapsto> (sec, sectors s sec))" "sectors s1 = sectors s" "other s1 = other s"
    unfolding avail_def by blast
  then have u: "used s1 b = Some (sec, sectors s1 sec)" by simp
  from rel_law [OF 1(2) u] obtain s2 where 2: "rel b s1 = Inr s2" "inv s2"
    "used s2 = (used s1)(b := None)" "sectors s2 = sectors s1" "other s2 = other s1" by blast
  from 1 2 have "used s2 = used s" by (simp add: fun_upd_idem)
  with 1 2 contents_law [OF u] show ?thesis by auto
qed

lemma update_cycle:
  assumes "avail sec s" and "length d = 512"
  shows "\<exists>b s1 s2 s3. rd sec s = Inr (b, s1) \<and> contents s1 b = sectors s sec \<and> other s1 = other s \<and>
    wr b (put b d s1) = Inr s2 \<and> rel b s2 = Inr s3 \<and> inv s3 \<and> used s3 = used s \<and>
    sectors s3 = (sectors s)(sec := d) \<and> other s3 = other s"
proof -
  from rd_law assms obtain b s1 where 1: "rd sec s = Inr (b, s1)" "inv s1" "used s b = None"
    "used s1 = (used s)(b \<mapsto> (sec, sectors s sec))" "sectors s1 = sectors s" "other s1 = other s"
    unfolding avail_def by blast
  then have u: "used s1 b = Some (sec, sectors s1 sec)" by simp
  let ?p = "put b d s1"
  from put_law [OF 1(2) u assms(2)] have p: "inv ?p" "used ?p = (used s1)(b \<mapsto> (sec, d))"
    "sectors ?p = sectors s1" "other ?p = other s1" by simp_all
  then have "used ?p b = Some (sec, d)" by simp
  from wr_law [OF p(1) this] obtain s2 where 2: "wr b ?p = Inr s2" "inv s2" "used s2 = used ?p"
    "sectors s2 = (sectors ?p)(sec := d)" "other s2 = other ?p" by blast
  with p have "used s2 b = Some (sec, sectors s2 sec)" by simp
  from rel_law [OF 2(2) this] obtain s3 where 3: "rel b s2 = Inr s3" "inv s3"
    "used s3 = (used s2)(b := None)" "sectors s3 = sectors s2" "other s3 = other s2" by blast
  from 1 2 3 p have "used s3 = used s" by (simp add: fun_upd_idem)
  with 1 2 3 p contents_law [OF u] show ?thesis by auto
qed

end

interpretation bc: block_cache bio_inv inuse disk rest "\<lambda>s b. bdata (bufs s ! b)" "bread ROOTDEV"
  set_data bwrite brelse
proof (unfold_locales, goal_cases)
  case (1 s sec)
  then show ?case by (rule bread_law)
next
  case (2 s b sec d)
  then show ?case by (auto simp: inuse_def split: if_splits)
next
  case (3 s b sec d d')
  then show ?case using set_data_law by blast
next
  case (4 s b sec d)
  then show ?case by (rule bwrite_law)
next
  case (5 s b sec)
  then show ?case by (rule brelse_law)
qed

section \<open>Properties\<close>

text \<open>
  C12. The buffer cache is coherent: after \<^verbatim>\<open>bread\<close> of a sector, an update of the buffer,
  \<^verbatim>\<open>bwrite\<close> and \<^verbatim>\<open>brelse\<close>, the disk holds the new data in that sector and is
  otherwise unchanged, the invariant of the cache holds, and a second \<^verbatim>\<open>bread\<close> of the sector
  returns a buffer with the new data. No step panics or blocks while a buffer is free and the
  sector is not held.
\<close>

theorem bwrite_bread_coherent:
  assumes "bio_inv s" "card (dom (inuse s)) < NBUF" "\<forall>x\<in>ran (inuse s). fst x \<noteq> sec" "length d = 512"
  shows "\<exists>b s1 s2 s3 b' s4. bread ROOTDEV sec s = Inr (b, s1) \<and> bdata (bufs s1 ! b) = disk s sec \<and>
    bwrite b (set_data b d s1) = Inr s2 \<and> brelse b s2 = Inr s3 \<and> bio_inv s3 \<and>
    disk s3 = (disk s)(sec := d) \<and> bread ROOTDEV sec s3 = Inr (b', s4) \<and> bdata (bufs s4 ! b') = d"
proof -
  from bc.update_cycle [of sec s d] assms obtain b s1 s2 s3 where w: "bread ROOTDEV sec s = Inr (b, s1)"
    "bdata (bufs s1 ! b) = disk s sec" "bwrite b (set_data b d s1) = Inr s2" "brelse b s2 = Inr s3"
    "bio_inv s3" "inuse s3 = inuse s" "disk s3 = (disk s)(sec := d)"
    by (auto simp: bc.avail_def)
  moreover have "bc.avail sec s3" using w assms by (simp add: bc.avail_def)
  then obtain b' s4 where "bread ROOTDEV sec s3 = Inr (b', s4)" "bdata (bufs s4 ! b') = disk s3 sec"
    using bc.read_cycle by blast
  ultimately show ?thesis by auto
qed

text \<open>A kernel whose memory is zero, before \<^verbatim>\<open>binit\<close> runs.\<close>

definition zero_kbio :: kbio where
  "zero_kbio = \<lparr>lk = cycle (boot_locks 0), mem = (\<lambda>_. 0), freelist = 0, tlb = (\<lambda>_. None), ptable = replicate NPROC zero_proc,
     nextpid = 1, curproc = None, initproc = None, disk = (\<lambda>_. replicate 512 0),
     bufs = replicate (NBUF + 1) \<lparr>bflags = 0, bdev = 0, bsector = 0, bprev = 0, bnext = 0,
       bdata = replicate 512 0\<rparr>\<rparr>"

lemma zero_kbio_cold: "length (bufs zero_kbio) = NBUF + 1" "\<forall>i<NBUF. bflags (bufs zero_kbio ! i) = 0"
  "\<forall>sec. length (disk zero_kbio sec) = 512" "calm (lk zero_kbio)"
  using calm_boot by (simp_all add: zero_kbio_def del: replicate_Suc)

lemma zero_kbio_inv: "bio_inv (binit zero_kbio)" "inuse (binit zero_kbio) = Map.empty"
  "disk (binit zero_kbio) = disk zero_kbio" "\<forall>i<NBUF. bdev (bufs (binit zero_kbio) ! i) \<noteq> ROOTDEV"
  using binit_law [OF zero_kbio_cold] by blast+

theorem bwrite_bread_coherent_witness:
  "\<exists>b s1 s2 s3 b' s4. bread ROOTDEV 7 (binit zero_kbio) = Inr (b, s1) \<and>
    bwrite b (set_data b (replicate 512 9) s1) = Inr s2 \<and> brelse b s2 = Inr s3 \<and>
    disk s3 7 = replicate 512 9 \<and> bread ROOTDEV 7 s3 = Inr (b', s4) \<and> bdata (bufs s4 ! b') = replicate 512 9"
  using bwrite_bread_coherent [of "binit zero_kbio" 7 "replicate 512 9"]
  by (fastforce simp: zero_kbio_inv NBUF_def)

text \<open>
  The recency list: \<^verbatim>\<open>binit\<close> establishes the invariant with no buffer in use, whatever the
  links in the zeroed cache were.
\<close>

theorem binit_establishes_cache:
  assumes "length (bufs s) = NBUF + 1" "\<forall>i<NBUF. bflags (bufs s ! i) = 0"
    "\<forall>sec. length (disk s sec) = 512" "calm (lk s)"
  shows "bio_inv (binit s) \<and> inuse (binit s) = Map.empty \<and> disk (binit s) = disk s"
  using binit_law [OF assms] by blast

theorem binit_establishes_cache_witness: "bio_inv (binit zero_kbio)"
  using binit_establishes_cache [OF zero_kbio_cold] by blast

text \<open>
  \<^verbatim>\<open>brelse\<close> moves the buffer to the front of the recency list and keeps the order of the
  others.
\<close>

theorem brelse_most_recent:
  assumes "bio_inv s" "lru (bufs s) xs" "inuse s b = Some (sec, disk s sec)"
  shows "\<exists>s'. brelse b s = Inr s' \<and> lru (bufs s') (b # remove1 b xs) \<and> inuse s' b = None"
proof -
  note b = inuse_SomeD [OF assms(1,3)]
  obtain ys zs where xs: "xs = ys @ b # zs"
    using b(1) lruE(6) [OF assms(2)] by (metis lessThan_iff split_list)
  then have "remove1 b xs = ys @ zs" using lruE(5) [OF assms(2)] by (simp add: remove1_append)
  moreover have "calm (lk s)" using assms(1) by (simp add: bio_inv_def)
  ultimately show ?thesis
    using lru_released assms(2) xs brelse_law [OF assms(1,3)] by (auto simp: brelse_run [OF _ b(2)])
qed

text \<open>The state after reading sector 7 on a fresh cache.\<close>

lemma zero_kbio_read:
  "\<exists>b s. bread ROOTDEV 7 (binit zero_kbio) = Inr (b, s) \<and> bio_inv s \<and>
     inuse s b = Some (7, disk s 7) \<and> (\<exists>xs. lru (bufs s) xs)"
proof -
  have "card (dom (inuse (binit zero_kbio))) < NBUF" "\<forall>x\<in>ran (inuse (binit zero_kbio)). fst x \<noteq> 7"
    by (simp_all add: zero_kbio_inv NBUF_def)
  from bread_law [OF zero_kbio_inv(1) this] obtain b s where
    "bread ROOTDEV 7 (binit zero_kbio) = Inr (b, s)" "bio_inv s" "inuse s b = Some (7, disk s 7)" by auto
  moreover from this have "\<exists>xs. lru (bufs s) xs" by (auto simp: bio_inv_def cache_inv_def)
  ultimately show ?thesis by blast
qed

theorem brelse_most_recent_witness:
  "\<exists>b s xs s'. bread ROOTDEV 7 (binit zero_kbio) = Inr (b, s) \<and> brelse b s = Inr s' \<and>
     lru (bufs s') (b # remove1 b xs)"
  using zero_kbio_read brelse_most_recent by meson

text \<open>
  \<^verbatim>\<open>bget\<close> of a sector that no buffer caches recycles the least recently used buffer: the
  last one of the recency list that is not in use.
\<close>

theorem bget_least_recent:
  assumes "bio_inv s" "lru (bufs s) xs"
    and "\<forall>i<NBUF. bdev (bufs s ! i) = ROOTDEV \<longrightarrow> bsector (bufs s ! i) \<noteq> sec"
    and "find (\<lambda>i. \<not> busy (bufs s ! i)) (rev xs) = Some v"
  shows "\<exists>s'. bget ROOTDEV sec s = Inr (v, s') \<and> bsector (bufs s' ! v) = sec \<and>
    busy (bufs s' ! v) \<and> lru (bufs s') xs"
proof -
  let ?x = "(bufs s ! v)\<lparr>bdev := ROOTDEV, bsector := sec, bflags := B_BUSY\<rparr>"
  have "find (\<lambda>i. bdev (bufs s ! i) = ROOTDEV \<and> bsector (bufs s ! i) = sec) xs = None"
    using assms(3) lruE(6) [OF assms(2)] by (auto simp: find_None_iff)
  then have "bget ROOTDEV sec s = Inr (v, s\<lparr>bufs := (bufs s)[v := ?x]\<rparr>)"
    using assms(1,4)
    by (simp add: bget_def acquire_run walk_lru [OF assms(2)] upd_buf_def busy_def bio_inv_def
        release_run [where k = "lk s"])
  moreover have "v < NBUF" using find_in_set [OF assms(4)] lruE(6) [OF assms(2)] by auto
  then have "v < length (bufs s)" using lru_length [OF assms(2)] by (simp add: NBUF_def)
  moreover have "lru ((bufs s)[v := ?x]) xs" using assms(2) by (rule lru_upd) simp_all
  ultimately show ?thesis by (auto simp: busy_def)
qed

theorem bget_least_recent_witness:
  "\<exists>xs v s'. lru (bufs (binit zero_kbio)) xs \<and> bget ROOTDEV 7 (binit zero_kbio) = Inr (v, s') \<and>
     v = last xs"
proof -
  let ?s = "binit zero_kbio"
  note i = zero_kbio_inv(1)
  then obtain xs where xs: "lru (bufs ?s) xs" by (auto simp: bio_inv_def cache_inv_def)
  have nb: "\<not> busy (bufs ?s ! i)" if "i < NBUF" for i
    using fun_cong [OF zero_kbio_inv(2), of i] that by (simp add: inuse_def split: if_splits)
  have ne: "xs \<noteq> []" using lruE(4) [OF xs] by (auto simp: NBUF_def)
  then have l: "last xs < NBUF" using lruE(6) [OF xs] last_in_set by blast
  have f: "find (\<lambda>i. \<not> busy (bufs ?s ! i)) (rev xs) = Some (last xs)"
    using ne nb [OF l] by (cases xs rule: rev_cases) auto
  have "\<forall>i<NBUF. bdev (bufs ?s ! i) = ROOTDEV \<longrightarrow> bsector (bufs ?s ! i) \<noteq> 7"
    using zero_kbio_inv(4) by blast
  from bget_least_recent [OF i xs this f] xs show ?thesis by blast
qed

end
