(* ===== verification/Fs_Block.thy ===== *)
theory Fs_Block
  imports Bio
begin

text \<open>
  The block layer of the file system (\<^verbatim>\<open>src/fs.c\<close>, \<^verbatim>\<open>src/fs.h\<close>): the superblock, the free
  bitmap, and the allocation and freeing of disk blocks. The lemmas describe every operation by
  its effect on the disk; the buffers in use and the rest of the kernel state stay as they are.
\<close>

section \<open>Operations\<close>

definition BSIZE :: nat where "BSIZE = 512"
definition BPB :: nat where "BPB = BSIZE * 8"
definition IPB :: nat where "IPB = BSIZE div 64"

record superblock =
  sbsize :: u32
  nblocks :: u32
  ninodes :: u32

definition IBLOCK :: "u32 \<Rightarrow> u32" where
  "IBLOCK i = i div of_nat IPB + 2"

definition BBLOCK :: "u32 \<Rightarrow> u32 \<Rightarrow> u32" where
  "BBLOCK b ni = b div of_nat BPB + ni div of_nat IPB + 3"

definition readsb :: "u32 \<Rightarrow> 'a kbio_scheme \<Rightarrow> (superblock \<times> 'a kbio_scheme) res" where
  "readsb dev s =
     bindR (bread dev 1 s) (\<lambda>(bp, s).
     let d = bdata (bufs s ! bp);
         sb = \<lparr>sbsize = get32 d 0, nblocks = get32 d 4, ninodes = get32 d 8\<rparr> in
     bindR (brelse bp s) (\<lambda>s. Inr (sb, s)))"

definition bzero :: "u32 \<Rightarrow> u32 \<Rightarrow> 'a kbio_scheme \<Rightarrow> 'a kbio_scheme res" where
  "bzero dev bno s =
     bindR (bread dev bno s) (\<lambda>(bp, s).
     bindR (bwrite bp (set_data bp (replicate BSIZE 0) s)) (\<lambda>s.
     brelse bp s))"

text \<open>The bit of the bitmap for the \<open>bi\<close>-th block of a bitmap block.\<close>

definition mask :: "nat \<Rightarrow> u8" where
  "mask bi = push_bit (bi mod 8) 1"

text \<open>
  The group number \<open>b\<close> grows by \<open>BPB\<close>; it takes \<open>2^20\<close> values, so a scan that needs more rounds
  never ends.
\<close>

fun balloc_loop :: "nat \<Rightarrow> u32 \<Rightarrow> superblock \<Rightarrow> u32 \<Rightarrow> 'a kbio_scheme \<Rightarrow> (u32 \<times> 'a kbio_scheme) res" where
  "balloc_loop 0 dev sb b s = Inl Spin"
| "balloc_loop (Suc n) dev sb b s =
     (if b < sbsize sb
      then bindR (bread dev (BBLOCK b (ninodes sb)) s) (\<lambda>(bp, s).
        let d = bdata (bufs s ! bp) in
        case find (\<lambda>bi. d ! (bi div 8) AND mask bi = 0) [0..<BPB] of
          Some bi \<Rightarrow>
            bindR (bwrite bp (set_data bp (d[bi div 8 := d ! (bi div 8) OR mask bi]) s)) (\<lambda>s.
            bindR (brelse bp s) (\<lambda>s.
            Inr (b + of_nat bi, s)))
        | None \<Rightarrow>
            bindR (brelse bp s) (\<lambda>s.
            balloc_loop n dev sb (b + of_nat BPB) s))
      else Inl (Panic ''balloc: out of blocks''))"

definition balloc :: "u32 \<Rightarrow> 'a kbio_scheme \<Rightarrow> (u32 \<times> 'a kbio_scheme) res" where
  "balloc dev s = bindR (readsb dev s) (\<lambda>(sb, s). balloc_loop (2 ^ 20) dev sb 0 s)"

definition bfree :: "u32 \<Rightarrow> u32 \<Rightarrow> 'a kbio_scheme \<Rightarrow> 'a kbio_scheme res" where
  "bfree dev b s =
     bindR (bzero dev b s) (\<lambda>s.
     bindR (readsb dev s) (\<lambda>(sb, s).
     bindR (bread dev (BBLOCK b (ninodes sb)) s) (\<lambda>(bp, s).
     let d = bdata (bufs s ! bp); bi = unat b mod BPB in
     if d ! (bi div 8) AND mask bi = 0 then Inl (Panic ''freeing free block'')
     else bindR (bwrite bp (set_data bp (d[bi div 8 := d ! (bi div 8) AND NOT (mask bi)]) s)) (\<lambda>s.
       brelse bp s))))"

section \<open>Effects on the disk\<close>

text \<open>\<open>effect D s s'\<close>: the disk is now \<open>D\<close>, no buffer was kept, nothing else changed.\<close>

definition effect :: "(u32 \<Rightarrow> u8 list) \<Rightarrow> 'a kbio_scheme \<Rightarrow> 'a kbio_scheme \<Rightarrow> bool" where
  "effect D s s' \<longleftrightarrow> bio_inv s' \<and> inuse s' = inuse s \<and> disk s' = D \<and> rest s' = rest s"

text \<open>A buffer is left, and no sector of \<open>X\<close> is held.\<close>

definition can :: "u32 set \<Rightarrow> 'a kbio_scheme \<Rightarrow> bool" where
  "can X s \<longleftrightarrow> bio_inv s \<and> card (dom (inuse s)) < NBUF \<and> (\<forall>x\<in>ran (inuse s). fst x \<notin> X)"

lemma can_avail: "can X s \<Longrightarrow> sec \<in> X \<Longrightarrow> bc.avail sec s"
  by (auto simp: can_def bc.avail_def)

lemma can_effect: "effect D s s' \<Longrightarrow> can X s \<Longrightarrow> can X s'"
  by (simp add: can_def effect_def)

lemma can_mono: "can X s \<Longrightarrow> Y \<subseteq> X \<Longrightarrow> can Y s"
  by (auto simp: can_def)

lemma effect_trans: "effect D s s' \<Longrightarrow> effect D' s' s'' \<Longrightarrow> effect D' s s''"
  by (simp add: effect_def)

lemma effect_disk: "effect D s s' \<Longrightarrow> disk s' = D"
  by (simp add: effect_def)

text \<open>Reading a block, and replacing a block: the two forms of every access.\<close>

lemma read_block:
  assumes "can X s" "sec \<in> X"
  shows "\<exists>bp s1 s2. bread ROOTDEV sec s = Inr (bp, s1) \<and> bdata (bufs s1 ! bp) = disk s sec \<and>
    rest s1 = rest s \<and> brelse bp s1 = Inr s2 \<and> effect (disk s) s s2"
  using bc.read_cycle [OF can_avail [OF assms]] unfolding effect_def by blast

lemma update_block:
  assumes "can X s" "sec \<in> X" "length d = 512"
  shows "\<exists>bp s1 s2 s3. bread ROOTDEV sec s = Inr (bp, s1) \<and> bdata (bufs s1 ! bp) = disk s sec \<and>
    rest s1 = rest s \<and> bwrite bp (set_data bp d s1) = Inr s2 \<and> brelse bp s2 = Inr s3 \<and>
    effect ((disk s)(sec := d)) s s3"
  using bc.update_cycle [OF can_avail [OF assms(1,2)] assms(3)] unfolding effect_def by blast

text \<open>Taking a block and keeping it.\<close>

lemma hold_block:
  assumes "can X s" "sec \<in> X"
  shows "\<exists>bp s1. bread ROOTDEV sec s = Inr (bp, s1) \<and> bdata (bufs s1 ! bp) = disk s sec \<and> bio_inv s1 \<and>
    inuse s bp = None \<and> inuse s1 = (inuse s)(bp \<mapsto> (sec, disk s sec)) \<and> disk s1 = disk s \<and> rest s1 = rest s"
proof -
  have "bio_inv s" "card (dom (inuse s)) < NBUF" "\<forall>x\<in>ran (inuse s). fst x \<noteq> sec"
    using assms by (auto simp: can_def)
  from bc.rd_law [OF this] obtain bp s1 where 1: "bread ROOTDEV sec s = Inr (bp, s1)" "bio_inv s1" "inuse s bp = None"
    "inuse s1 = (inuse s)(bp \<mapsto> (sec, disk s sec))" "disk s1 = disk s" "rest s1 = rest s" by blast
  moreover have "bdata (bufs s1 ! bp) = disk s sec"
    using bc.contents_law [of s1 bp sec "disk s sec"] 1(4) by simp
  ultimately show ?thesis by blast
qed

lemma can_length: "can X s \<Longrightarrow> length (disk s sec) = 512"
  by (simp add: can_def bio_inv_def cache_inv_def)

definition sb_of :: "(u32 \<Rightarrow> u8 list) \<Rightarrow> superblock" where
  "sb_of D = \<lparr>sbsize = get32 (D 1) 0, nblocks = get32 (D 1) 4, ninodes = get32 (D 1) 8\<rparr>"

lemma readsb_run:
  assumes "can X s" "1 \<in> X"
  shows "\<exists>s'. readsb ROOTDEV s = Inr (sb_of (disk s), s') \<and> effect (disk s) s s'"
proof -
  from read_block [OF assms] obtain bp s1 s2 where "bread ROOTDEV 1 s = Inr (bp, s1)"
    "bdata (bufs s1 ! bp) = disk s 1" "brelse bp s1 = Inr s2" "effect (disk s) s s2" by blast
  then show ?thesis by (auto simp: readsb_def sb_of_def Let_def)
qed

lemma bzero_run:
  assumes "can X s" "b \<in> X"
  shows "\<exists>s'. bzero ROOTDEV b s = Inr s' \<and> effect ((disk s)(b := replicate BSIZE 0)) s s'"
proof -
  from update_block [OF assms, of "replicate BSIZE 0"] obtain bp s1 s2 s3 where
    "bread ROOTDEV b s = Inr (bp, s1)" "bwrite bp (set_data bp (replicate BSIZE 0) s1) = Inr s2"
    "brelse bp s2 = Inr s3" "effect ((disk s)(b := replicate BSIZE 0)) s s3"
    by (auto simp: BSIZE_def)
  then show ?thesis by (auto simp: bzero_def)
qed

section \<open>The bitmap\<close>

text \<open>Is block \<open>b\<close> marked in the bitmap? And the disk with the mark set or cleared.\<close>

definition marked :: "(u32 \<Rightarrow> u8 list) \<Rightarrow> u32 \<Rightarrow> bool" where
  "marked D b \<longleftrightarrow>
     bit (D (BBLOCK b (ninodes (sb_of D))) ! (unat b mod BPB div 8)) (unat b mod 8)"

definition mark :: "u32 \<Rightarrow> bool \<Rightarrow> (u32 \<Rightarrow> u8 list) \<Rightarrow> (u32 \<Rightarrow> u8 list)" where
  "mark b v D =
     (let sec = BBLOCK b (ninodes (sb_of D)); i = unat b mod BPB div 8; d = D sec in
      D(sec := d[i := if v then d ! i OR mask (unat b) else d ! i AND NOT (mask (unat b))]))"

lemma mask_test: "x AND mask i = 0 \<longleftrightarrow> \<not> bit x (i mod 8)"
  by (simp add: mask_def push_bit_eq_mult and_exp_eq_0_iff_not_bit)

lemma bit_mask [simp]: "bit (mask i) n \<longleftrightarrow> n = i mod 8"
  by (auto simp: mask_def bit_simps)

lemma mask_mod: "mask (i mod BPB) = mask i"
  by (simp add: mask_def BPB_def BSIZE_def mod_mod_cancel)

lemma unat_BBLOCK: "unat (BBLOCK b ni) = unat b div 4096 + unat ni div 8 + 3"
proof -
  have "unat b div 4096 < 2 ^ 20" "unat ni div 8 < 2 ^ 29" using unat_lt32 [of b] unat_lt32 [of ni] by simp_all
  then show ?thesis
    by (simp add: BBLOCK_def BPB_def IPB_def BSIZE_def unat_word_ariths unat_div)
qed

lemma BBLOCK_neq_1 [simp]: "BBLOCK b ni \<noteq> 1"
proof
  assume "BBLOCK b ni = 1"
  then show False using unat_BBLOCK [of b ni] by simp
qed

lemma sb_of_upd [simp]: "sec \<noteq> 1 \<Longrightarrow> sb_of (D(sec := d)) = sb_of D"
  by (simp add: sb_of_def)

lemma sb_of_mark [simp]: "sb_of (mark b v D) = sb_of D"
  by (simp add: mark_def Let_def)

lemma bitmap_position:
  assumes "BBLOCK b ni = BBLOCK c ni" "unat b mod BPB div 8 = unat c mod BPB div 8" "unat b mod 8 = unat c mod 8"
  shows "b = c"
proof -
  from assms(1) have "unat b div 4096 = unat c div 4096"
    using unat_BBLOCK [of b ni] unat_BBLOCK [of c ni] by simp
  moreover have "unat b mod 4096 = unat c mod 4096"
  proof -
    have "x mod 4096 = 8 * (x mod 4096 div 8) + x mod 8" for x :: nat
      using mult_div_mod_eq [of 8 "x mod 4096"] by (simp add: mod_mod_cancel)
    moreover have "unat b mod 4096 div 8 = unat c mod 4096 div 8" using assms(2) by (simp add: BPB_def BSIZE_def)
    ultimately show ?thesis using assms(3) by metis
  qed
  ultimately have "unat b = unat c" by (metis mult_div_mod_eq)
  then show ?thesis by (rule unat_inj32)
qed

text \<open>Marking one block changes the mark of that block only.\<close>

lemma marked_mark:
  assumes "\<forall>sec. length (D sec) = 512"
  shows "marked (mark b v D) c = (if c = b then v else marked D c)"
proof -
  let ?ni = "ninodes (sb_of D)"
  let ?i = "unat b mod BPB div 8"
  let ?x = "D (BBLOCK b ?ni) ! ?i"
  let ?y = "if v then ?x OR mask (unat b) else ?x AND NOT (mask (unat b))"
  have i: "?i < length (D (BBLOCK b ?ni))" using assms by (simp add: BPB_def BSIZE_def less_mult_imp_div_less)
  have y: "bit ?y n \<longleftrightarrow> (if n = unat b mod 8 then v else bit ?x n)" if "n < 8" for n
    using that by (auto simp: bit_or_iff bit_and_iff bit_not_iff possible_bit_word)
  have m: "mark b v D = D(BBLOCK b ?ni := (D (BBLOCK b ?ni))[?i := ?y])" by (simp add: mark_def Let_def)
  show ?thesis
  proof (cases "BBLOCK c ?ni = BBLOCK b ?ni \<and> unat c mod BPB div 8 = ?i")
    case True
    have "marked (mark b v D) c \<longleftrightarrow> bit ?y (unat c mod 8)"
      unfolding marked_def sb_of_mark using True i by (simp add: m)
    moreover have "unat c mod 8 = unat b mod 8 \<longleftrightarrow> c = b" using True bitmap_position [of c ?ni b] by auto
    ultimately show ?thesis using y [of "unat c mod 8"] True by (auto simp: marked_def)
  next
    case False
    then have "c \<noteq> b" by auto
    moreover have "marked (mark b v D) c \<longleftrightarrow> marked D c"
      unfolding marked_def sb_of_mark using False by (auto simp: m)
    ultimately show ?thesis by simp
  qed
qed

text \<open>The bitmap blocks, and the number of blocks they have a bit for.\<close>

definition bitmap_blocks :: "superblock \<Rightarrow> u32 set" where
  "bitmap_blocks sb = {BBLOCK b (ninodes sb) |b. b < sbsize sb}"

definition groups :: "superblock \<Rightarrow> nat" where
  "groups sb = (unat (sbsize sb) + 4095) div 4096"

lemma find_map_shift: "find P (map f xs) = map_option f (find (\<lambda>x. P (f x)) xs)"
  by (induction xs) auto

lemma group_bits:
  assumes "4096 * Suc k \<le> 2 ^ 32"
  shows "find (\<lambda>c. \<not> marked D (of_nat c)) [4096 * k..<4096 * Suc k] =
    map_option (\<lambda>bi. 4096 * k + bi)
      (find (\<lambda>bi. D (BBLOCK (of_nat (4096 * k)) (ninodes (sb_of D))) ! (bi div 8) AND mask bi = 0) [0..<BPB])"
proof -
  have "[4096 * k..<4096 * Suc k] = map (\<lambda>bi. 4096 * k + bi) [0..<BPB]"
    by (simp add: BPB_def BSIZE_def map_add_upt add.commute)
  moreover have "\<not> marked D (of_nat (4096 * k + bi)) \<longleftrightarrow>
      D (BBLOCK (of_nat (4096 * k)) (ninodes (sb_of D))) ! (bi div 8) AND mask bi = 0" if "bi < BPB" for bi
  proof -
    have bi: "bi < 4096" using that by (simp add: BPB_def BSIZE_def)
    have u: "unat (of_nat (4096 * k + bi) :: u32) = 4096 * k + bi"
      "unat (of_nat (4096 * k) :: u32) = 4096 * k"
      using assms bi by (intro unat_of_nat32; simp)+
    have "BBLOCK (of_nat (4096 * k + bi)) ni = BBLOCK (of_nat (4096 * k)) ni" for ni
      by (rule unat_inj32) (simp only: unat_BBLOCK u, use bi in simp)
    moreover have "(4096 * k + bi) mod 8 = bi mod 8" "(4096 * k + bi) mod 4096 = bi"
      using bi mod_mult_self4 [of 8 "512 * k" bi] by (simp_all add: mult.assoc [symmetric])
    ultimately show ?thesis unfolding marked_def u by (simp add: BPB_def BSIZE_def mask_test)
  qed
  then have "find (\<lambda>bi. \<not> marked D (of_nat (4096 * k + bi))) [0..<BPB] =
      find (\<lambda>bi. D (BBLOCK (of_nat (4096 * k)) (ninodes (sb_of D))) ! (bi div 8) AND mask bi = 0) [0..<BPB]"
    by (intro find_cong) auto
  ultimately show ?thesis by (simp only: find_map_shift)
qed

lemma groups_iff: "k < groups sb \<longleftrightarrow> 4096 * k < unat (sbsize sb)"
  using less_eq_div_iff_mult_less_eq [of 4096 "Suc k" "unat (sbsize sb) + 4095"]
  by (auto simp: groups_def Suc_le_eq)

lemma balloc_loop_run:
  assumes "can X s" "bitmap_blocks sb \<subseteq> X" "sb = sb_of (disk s)" "groups sb < 2 ^ 20"
    "k \<le> groups sb" "groups sb - k < n"
  shows "case find (\<lambda>c. \<not> marked (disk s) (of_nat c)) [4096 * k..<4096 * groups sb] of
      Some c \<Rightarrow> \<exists>s'. balloc_loop n ROOTDEV sb (of_nat (4096 * k)) s = Inr (of_nat c, s') \<and>
        effect (mark (of_nat c) True (disk s)) s s'
    | None \<Rightarrow> balloc_loop n ROOTDEV sb (of_nat (4096 * k)) s = Inl (Panic ''balloc: out of blocks'')"
  using assms
proof (induction n arbitrary: k s)
  case 0
  then show ?case by simp
next
  case (Suc n)
  let ?b = "of_nat (4096 * k) :: u32" and ?D = "disk s"
  let ?sec = "BBLOCK ?b (ninodes sb)"
  let ?free = "\<lambda>bi. ?D ?sec ! (bi div 8) AND mask bi = 0"
  have k: "4096 * Suc k \<le> 2 ^ 32" using Suc.prems(4,5) by simp
  have ub: "unat ?b = 4096 * k" using k by (intro unat_of_nat32) simp
  have lt: "?b < sbsize sb \<longleftrightarrow> k < groups sb" by (simp only: word_less_nat_alt ub groups_iff)
  show ?case
  proof (cases "k < groups sb")
    case False
    then show ?thesis using Suc.prems(5) lt by simp
  next
    case True
    then have sec: "?sec \<in> X" using lt Suc.prems(2) by (auto simp: bitmap_blocks_def)
    have split: "[4096 * k..<4096 * groups sb] = [4096 * k..<4096 * Suc k] @ [4096 * Suc k..<4096 * groups sb]"
      using True by (intro upt_split) simp_all
    note bits = group_bits [OF k, of ?D, folded Suc.prems(3)]
    show ?thesis
    proof (cases "find ?free [0..<BPB]")
      case (Some bi)
      then have bi: "bi < 4096" using find_in_set [OF Some] by (simp add: BPB_def BSIZE_def)
      let ?d = "(?D ?sec)[bi div 8 := ?D ?sec ! (bi div 8) OR mask bi]"
      obtain bp s1 s2 s3 where 1: "bread ROOTDEV ?sec s = Inr (bp, s1)" "bdata (bufs s1 ! bp) = ?D ?sec"
        "bwrite bp (set_data bp ?d s1) = Inr s2" "brelse bp s2 = Inr s3" "effect (?D(?sec := ?d)) s s3"
        using update_block [OF Suc.prems(1) sec, of ?d] can_length [OF Suc.prems(1)] by auto
      let ?c = "4096 * k + bi"
      have c: "unat (of_nat ?c :: u32) = ?c" using k bi by (intro unat_of_nat32) simp
      have "BBLOCK (of_nat ?c) (ninodes sb) = ?sec"
        by (rule unat_inj32) (use bi in \<open>simp only: unat_BBLOCK c ub, simp\<close>)
      moreover have "?c mod BPB = bi" using bi by (simp add: BPB_def BSIZE_def)
      moreover from this have "mask ?c = mask bi" using mask_mod [of ?c] by simp
      ultimately have "mark (of_nat ?c) True ?D = ?D(?sec := ?d)"
        using Suc.prems(3) by (simp add: mark_def c Let_def del: of_nat_add of_nat_mult)
      with 1 True lt Some bits show ?thesis by (simp add: split find_append)
    next
      case None
      obtain bp s1 s2 where 1: "bread ROOTDEV ?sec s = Inr (bp, s1)" "bdata (bufs s1 ! bp) = ?D ?sec"
        "brelse bp s1 = Inr s2" "effect ?D s s2"
        using read_block [OF Suc.prems(1) sec] by auto
      have step: "balloc_loop (Suc n) ROOTDEV sb ?b s = balloc_loop n ROOTDEV sb (of_nat (4096 * Suc k)) s2"
        using 1 True lt None by (simp add: BPB_def BSIZE_def add.commute)
      have d2: "disk s2 = ?D" using 1 by (simp add: effect_def)
      have "case find (\<lambda>c. \<not> marked (disk s2) (of_nat c)) [4096 * Suc k..<4096 * groups sb] of
          Some c \<Rightarrow> \<exists>s'. balloc_loop n ROOTDEV sb (of_nat (4096 * Suc k)) s2 = Inr (of_nat c, s') \<and>
            effect (mark (of_nat c) True (disk s2)) s2 s'
        | None \<Rightarrow> balloc_loop n ROOTDEV sb (of_nat (4096 * Suc k)) s2 = Inl (Panic ''balloc: out of blocks'')"
        using Suc.prems d2 True can_effect [OF 1(4) Suc.prems(1)] by (intro Suc.IH) auto
      then show ?thesis
        using None bits step effect_trans [OF 1(4)]
        by (auto simp del: balloc_loop.simps simp: split find_append d2 split: option.splits)
    qed
  qed
qed

declare balloc_loop.simps [simp del]

section \<open>Allocating and freeing\<close>

text \<open>The block \<^verbatim>\<open>balloc\<close> will choose: the least one without a mark among all bits of the bitmap.\<close>

definition free_block :: "(u32 \<Rightarrow> u8 list) \<Rightarrow> u32 option" where
  "free_block D = map_option of_nat (find (\<lambda>c. \<not> marked D (of_nat c)) [0..<4096 * groups (sb_of D)])"

definition alloc_sectors :: "(u32 \<Rightarrow> u8 list) \<Rightarrow> u32 set" where
  "alloc_sectors D = insert 1 (bitmap_blocks (sb_of D))"

lemma balloc_run:
  assumes "can X s" "alloc_sectors (disk s) \<subseteq> X" "groups (sb_of (disk s)) < 2 ^ 20"
  shows "case free_block (disk s) of
      Some b \<Rightarrow> \<exists>s'. balloc ROOTDEV s = Inr (b, s') \<and> effect (mark b True (disk s)) s s'
    | None \<Rightarrow> balloc ROOTDEV s = Inl (Panic ''balloc: out of blocks'')"
proof -
  let ?sb = "sb_of (disk s)"
  obtain s1 where 1: "readsb ROOTDEV s = Inr (?sb, s1)" "effect (disk s) s s1"
    using readsb_run [OF assms(1)] assms(2) by (auto simp: alloc_sectors_def)
  have d1: "disk s1 = disk s" using 1 by (simp add: effect_def)
  have "can X s1" using 1(2) assms(1) by (rule can_effect)
  then have "case find (\<lambda>c. \<not> marked (disk s1) (of_nat c)) [4096 * 0..<4096 * groups ?sb] of
      Some c \<Rightarrow> \<exists>s'. balloc_loop (2 ^ 20) ROOTDEV ?sb (of_nat (4096 * 0)) s1 = Inr (of_nat c, s') \<and>
        effect (mark (of_nat c) True (disk s1)) s1 s'
    | None \<Rightarrow> balloc_loop (2 ^ 20) ROOTDEV ?sb (of_nat (4096 * 0)) s1 = Inl (Panic ''balloc: out of blocks'')"
    using assms d1 by (intro balloc_loop_run [of X]) (auto simp: alloc_sectors_def)
  then show ?thesis
    using 1 effect_trans [OF 1(2)]
    by (auto simp: balloc_def free_block_def d1 split: option.splits)
qed

text \<open>What the chosen block is, and when there is one.\<close>

lemma free_block_SomeD:
  assumes "free_block D = Some b" "groups (sb_of D) < 2 ^ 20"
  shows "\<not> marked D b" "\<forall>c. unat c < unat b \<longrightarrow> marked D c" "unat b < 4096 * groups (sb_of D)"
proof -
  let ?n = "4096 * groups (sb_of D)"
  from assms(1) obtain c where c: "find (\<lambda>c. \<not> marked D (of_nat c)) [0..<?n] = Some c" "b = of_nat c"
    by (auto simp: free_block_def)
  then have i: "c < ?n" "\<not> marked D (of_nat c)" "\<forall>j<c. marked D (of_nat j)"
    by (auto simp: find_Some_iff)
  have "unat b = c" unfolding c(2) using i(1) assms(2) by (intro unat_of_nat32) simp
  then show "\<not> marked D b" "unat b < ?n" using c i by simp_all
  show "\<forall>x. unat x < unat b \<longrightarrow> marked D x"
  proof (intro allI impI)
    fix x :: u32 assume "unat x < unat b"
    then show "marked D x" using i(3) [rule_format, of "unat x"] \<open>unat b = c\<close> by simp
  qed
qed

lemma free_block_Some:
  assumes "\<not> marked D c" "unat c < 4096 * groups (sb_of D)"
  shows "\<exists>b. free_block D = Some b"
proof (rule ccontr)
  assume "\<nexists>b. free_block D = Some b"
  then have "\<forall>x\<in>set [0..<4096 * groups (sb_of D)]. marked D (of_nat x)"
    by (auto simp: free_block_def find_None_iff simp flip: not_None_eq)
  with assms show False by (auto dest: bspec [of _ _ "unat c"])
qed

lemma bfree_run:
  assumes "can X s" "1 \<in> X" "b \<in> X" "BBLOCK b (ninodes (sb_of (disk s))) \<in> X"
    "b \<noteq> 1" "b \<noteq> BBLOCK b (ninodes (sb_of (disk s)))"
  shows "if marked (disk s) b
    then \<exists>s'. bfree ROOTDEV b s = Inr s' \<and> effect (mark b False ((disk s)(b := replicate BSIZE 0))) s s'
    else bfree ROOTDEV b s = Inl (Panic ''freeing free block'')"
proof -
  let ?D = "(disk s)(b := replicate BSIZE 0)"
  let ?sb = "sb_of (disk s)"
  let ?sec = "BBLOCK b (ninodes ?sb)" and ?bi = "unat b mod BPB"
  obtain s1 where 1: "bzero ROOTDEV b s = Inr s1" "effect ?D s s1" using bzero_run [OF assms(1,3)] by blast
  have c1: "can X s1" using 1(2) assms(1) by (rule can_effect)
  have sb: "sb_of ?D = ?sb" using assms(5) by simp
  obtain s2 where 2: "readsb ROOTDEV s1 = Inr (?sb, s2)" "effect ?D s1 s2"
    using readsb_run [OF c1 assms(2)] effect_disk [OF 1(2)] sb by auto
  have c2: "can X s2" using 2(2) c1 by (rule can_effect)
  have d2: "disk s2 = ?D" using 2 by (simp add: effect_def)
  have same: "?D ?sec = disk s ?sec" using assms(6) by simp
  have test: "?D ?sec ! (?bi div 8) AND mask ?bi = 0 \<longleftrightarrow> \<not> marked (disk s) b"
    unfolding marked_def same mask_mod mask_test by simp
  let ?d = "(?D ?sec)[?bi div 8 := ?D ?sec ! (?bi div 8) AND NOT (mask ?bi)]"
  obtain bp s3 s4 s5 where 3: "bread ROOTDEV ?sec s2 = Inr (bp, s3)" "bdata (bufs s3 ! bp) = ?D ?sec"
    "bwrite bp (set_data bp ?d s3) = Inr s4" "brelse bp s4 = Inr s5" "effect (?D(?sec := ?d)) s2 s5"
    using update_block [OF c2 assms(4), of ?d] can_length [OF c2, of ?sec] unfolding d2 by auto
  have "mark b False ?D = ?D(?sec := ?d)" by (simp add: mark_def sb Let_def mask_mod)
  moreover have "effect (?D(?sec := ?d)) s s5" using effect_trans effect_trans 1(2) 2(2) 3(5) by blast
  ultimately show ?thesis
    using 1(1) 2(1) 3(1-4) test by (simp add: bfree_def Let_def)
qed

section \<open>Properties\<close>

text \<open>
  C25. \<^verbatim>\<open>balloc\<close> finds a free block whenever the bitmap has one: it returns the least block without
  a mark, marks exactly this block on the disk, and changes no other sector, no buffer in use and no
  other kernel state.
\<close>

theorem balloc_least_free:
  assumes "can X s" "alloc_sectors (disk s) \<subseteq> X" "groups (sb_of (disk s)) < 2 ^ 20"
    "\<not> marked (disk s) c" "unat c < 4096 * groups (sb_of (disk s))"
  shows "\<exists>b s'. balloc ROOTDEV s = Inr (b, s') \<and> \<not> marked (disk s) b \<and>
    (\<forall>x. unat x < unat b \<longrightarrow> marked (disk s) x) \<and>
    (\<forall>x. marked (disk s') x \<longleftrightarrow> x = b \<or> marked (disk s) x) \<and>
    (\<forall>sec. sec \<noteq> BBLOCK b (ninodes (sb_of (disk s))) \<longrightarrow> disk s' sec = disk s sec) \<and>
    bio_inv s' \<and> inuse s' = inuse s \<and> rest s' = rest s"
proof -
  obtain b where b: "free_block (disk s) = Some b" using free_block_Some [OF assms(4,5)] by blast
  obtain s' where s': "balloc ROOTDEV s = Inr (b, s')" "effect (mark b True (disk s)) s s'"
    using balloc_run [OF assms(1-3)] b by auto
  have "\<forall>sec. length (disk s sec) = 512" using can_length [OF assms(1)] by blast
  then have "\<forall>x. marked (disk s') x \<longleftrightarrow> x = b \<or> marked (disk s) x"
    using s' by (auto simp: effect_def marked_mark)
  moreover have "disk s' sec = disk s sec" if "sec \<noteq> BBLOCK b (ninodes (sb_of (disk s)))" for sec
    using s' that by (simp add: effect_def mark_def Let_def)
  ultimately show ?thesis
    using s' free_block_SomeD [OF b assms(3)] by (auto simp: effect_def)
qed

text \<open>A small file system: 16 blocks, 8 inodes, so that block 4 is the only bitmap block.\<close>

definition small_fs :: "u8 list \<Rightarrow> kbio" where
  "small_fs bits = zero_kbio\<lparr>disk := (\<lambda>_. replicate 512 0)
     (1 := put32 8 8 (put32 0 16 (replicate 512 0)), 4 := splice 0 bits (replicate 512 0))\<rparr>"

lemma small_fs_inv:
  assumes "length bits \<le> 512"
  shows "bio_inv (binit (small_fs bits))" "inuse (binit (small_fs bits)) = Map.empty"
    "disk (binit (small_fs bits)) = disk (small_fs bits)"
proof -
  have "length (bufs (small_fs bits)) = NBUF + 1" "\<forall>i<NBUF. bflags (bufs (small_fs bits) ! i) = 0"
    "\<forall>sec. length (disk (small_fs bits) sec) = 512" "calm (lk (small_fs bits))"
    using zero_kbio_cold assms by (simp_all add: small_fs_def)
  from binit_law [OF this] show "bio_inv (binit (small_fs bits))"
    "inuse (binit (small_fs bits)) = Map.empty" "disk (binit (small_fs bits)) = disk (small_fs bits)"
    by blast+
qed

lemma small_fs_can: "length bits \<le> 512 \<Longrightarrow> can X (binit (small_fs bits))"
  by (simp add: can_def small_fs_inv NBUF_def)

lemma small_fs_sb: "sb_of (disk (small_fs bits)) = \<lparr>sbsize = 16, nblocks = 0, ninodes = 8\<rparr>"
  by (simp add: sb_of_def small_fs_def layout)

lemma small_fs_groups: "groups \<lparr>sbsize = 16, nblocks = 0, ninodes = 8\<rparr> = 1"
  by (simp add: groups_def)

lemma small_fs_marked:
  assumes "unat b < 4096" "length bits \<le> 512"
  shows "marked (disk (small_fs bits)) b \<longleftrightarrow>
    unat b div 8 < length bits \<and> bit (bits ! (unat b div 8)) (unat b mod 8)"
proof -
  have "BBLOCK b 8 = 4" by (rule unat_inj32) (use assms(1) in \<open>simp add: unat_BBLOCK\<close>)
  moreover have "unat b div 8 < 512" using assms(1) by (simp add: less_mult_imp_div_less)
  ultimately show ?thesis
    using assms by (simp add: marked_def small_fs_sb BPB_def BSIZE_def) (auto simp: small_fs_def nth_splice)
qed

lemmas small_fs = small_fs_can small_fs_inv small_fs_sb small_fs_groups small_fs_marked

theorem balloc_least_free_witness:
  "\<exists>b s'. balloc ROOTDEV (binit (small_fs [])) = Inr (b, s') \<and> marked (disk s') b"
  using balloc_least_free [of UNIV "binit (small_fs [])" 0]
  by (auto simp: small_fs)

text \<open>
  \<^verbatim>\<open>bfree\<close> of a block in use zeroes the block and clears its mark and no other; freeing it a second
  time panics. (The block is neither the superblock nor its own bitmap block.)
\<close>

theorem bfree_once:
  assumes "can X s" "{1, b, BBLOCK b (ninodes (sb_of (disk s)))} \<subseteq> X"
    "b \<notin> {1, BBLOCK b (ninodes (sb_of (disk s)))}" "marked (disk s) b"
  shows "\<exists>s'. bfree ROOTDEV b s = Inr s' \<and> disk s' b = replicate BSIZE 0 \<and>
    (\<forall>x. b \<noteq> BBLOCK x (ninodes (sb_of (disk s))) \<longrightarrow>
       (marked (disk s') x \<longleftrightarrow> x \<noteq> b \<and> marked (disk s) x)) \<and>
    bio_inv s' \<and> inuse s' = inuse s \<and> rest s' = rest s \<and>
    bfree ROOTDEV b s' = Inl (Panic ''freeing free block'')"
proof -
  let ?D = "(disk s)(b := replicate BSIZE 0)"
  obtain s' where s': "bfree ROOTDEV b s = Inr s'" "effect (mark b False ?D) s s'"
    using bfree_run [of X s b] assms by auto
  have len: "\<forall>sec. length (?D sec) = 512" using can_length [OF assms(1)] by (simp add: BSIZE_def)
  have sb: "sb_of ?D = sb_of (disk s)" "sb_of (disk s') = sb_of (disk s)"
    using s' assms(3) by (simp_all add: effect_def)
  have m: "marked (disk s') x \<longleftrightarrow> x \<noteq> b \<and> marked ?D x" for x
    using s'(2) marked_mark [OF len, of b False x] by (simp add: effect_def fun_upd_def)
  have "disk s' b = replicate BSIZE 0"
    using s'(2) assms(3) sb by (simp add: effect_def mark_def Let_def)
  moreover have "marked ?D x = marked (disk s) x" if "b \<noteq> BBLOCK x (ninodes (sb_of (disk s)))" for x
    unfolding marked_def sb using that by (simp add: eq_commute)
  moreover have "bfree ROOTDEV b s' = Inl (Panic ''freeing free block'')"
    using bfree_run [of X s' b] assms can_effect [OF s'(2) assms(1)] sb m by auto
  ultimately show ?thesis using s' m by (auto simp: effect_def)
qed

theorem bfree_once_witness:
  "\<exists>s'. bfree ROOTDEV 9 (binit (small_fs [255, 255])) = Inr s' \<and> \<not> marked (disk s') 9 \<and>
     bfree ROOTDEV 9 s' = Inl (Panic ''freeing free block'')"
proof -
  let ?s = "binit (small_fs [255, 255])"
  have n: "BBLOCK 9 (ninodes (sb_of (disk ?s))) = 4"
    by (rule unat_inj32) (simp add: unat_BBLOCK small_fs)
  have "marked (disk ?s) 9" by (simp add: small_fs)
  with bfree_once [of UNIV ?s 9] n show ?thesis by (auto simp: small_fs_can)
qed

text \<open>
  The scan does not stop at the size of the disk: when every block of the disk is in use and the
  bitmap block has a clear bit right behind them, \<^verbatim>\<open>balloc\<close> returns the number of a block past the
  end of the disk and does not panic.
\<close>

theorem balloc_past_end:
  assumes "can X s" "alloc_sectors (disk s) \<subseteq> X" "groups (sb_of (disk s)) < 2 ^ 20"
    and "sbsize (sb_of (disk s)) = n" "unat n mod 4096 \<noteq> 0"
    and "\<forall>x. unat x < unat n \<longrightarrow> marked (disk s) x" "\<not> marked (disk s) n"
  shows "\<exists>s'. balloc ROOTDEV s = Inr (n, s')"
proof -
  have "unat n < 4096 * groups (sb_of (disk s))"
  proof -
    have "unat n div 4096 < groups (sb_of (disk s))"
      unfolding groups_iff assms(4) using assms(5) mult_div_mod_eq [of 4096 "unat n"] by linarith
    then show ?thesis using div_less_iff_less_mult [of 4096 "unat n"] by (simp add: mult.commute)
  qed
  with assms(7) obtain b where b: "free_block (disk s) = Some b" using free_block_Some by blast
  note f = free_block_SomeD [OF b assms(3)]
  have "b = n" using f(1,2) assms(6,7) by (metis linorder_neqE_nat unat_inj32)
  with b show ?thesis using balloc_run [OF assms(1-3)] by auto
qed

theorem balloc_past_end_witness: "\<exists>s'. balloc ROOTDEV (binit (small_fs [255, 255])) = Inr (16, s')"
proof -
  let ?s = "binit (small_fs [255, 255])"
  have "\<forall>x. unat x < unat (16 :: u32) \<longrightarrow> marked (disk ?s) x"
  proof (intro allI impI)
    fix x :: u32
    assume x: "unat x < unat (16 :: u32)"
    have "bit (255 :: u8) n" if "n < 8" for n
      using that by (auto simp: less_Suc_eq numeral_eq_Suc)
    moreover have "unat x div 8 < 2" using x by (simp add: less_mult_imp_div_less)
    then have "[255, 255] ! (unat x div 8) = (255 :: u8)" by (auto simp: less_2_cases_iff)
    ultimately show "marked (disk ?s) x" using x \<open>unat x div 8 < 2\<close> by (simp add: small_fs)
  qed
  then show ?thesis
    using balloc_past_end [of UNIV ?s 16] by (simp add: small_fs)
qed

end
