(* ===== verification/Fs_Inode.thy ===== *)
theory Fs_Inode
  imports Fs_Block
begin

text \<open>
  The inode layer of the file system (\<^verbatim>\<open>src/fs.c\<close>, \<^verbatim>\<open>src/fs.h\<close>, \<^verbatim>\<open>src/file.h\<close>): the inode cache, the
  layout of inodes in their disk blocks, the block map of a file, and reading and writing its
  contents.

  An inode pointer is an index into the cache. \<^verbatim>\<open>readi\<close> returns the bytes it stores at its
  destination and \<^verbatim>\<open>writei\<close> takes the bytes that are accessible at its source (an access past them
  is a \<open>Fault\<close>); C results of type \<^verbatim>\<open>int\<close> are the 32-bit
  words that hold them. The device table \<^verbatim>\<open>devsw\<close>, filled at run time, is an argument.
\<close>

section \<open>State\<close>

definition NINODE :: nat where "NINODE = 50"
definition NDEV :: int where "NDEV = 10"
definition NDIRECT :: nat where "NDIRECT = 12"
definition NINDIRECT :: nat where "NINDIRECT = BSIZE div 4"
definition MAXFILE :: nat where "MAXFILE = NDIRECT + NINDIRECT"
definition ROOTINO :: u32 where "ROOTINO = 1"

definition T_DIR :: u16 where "T_DIR = 1"
definition T_FILE :: u16 where "T_FILE = 2"
definition T_DEV :: u16 where "T_DEV = 3"

definition I_BUSY :: u32 where "I_BUSY = 1"
definition I_VALID :: u32 where "I_VALID = 2"

record dinode =
  dtype :: u16
  dmajor :: u16
  dminor :: u16
  dnlink :: u16
  dsize :: u32
  daddrs :: "u32 list"

record inode =
  idev :: u32
  inum :: u32
  iref :: int
  iflags :: u32
  itype :: u16
  imajor :: u16
  iminor :: u16
  inlink :: u16
  isize :: u32
  addrs :: "u32 list"

record stat =
  st_type :: u16
  st_dev :: u32
  st_ino :: u32
  st_nlink :: u16
  st_size :: u32

record kfs = kbio +
  icache :: "inode list"

record 's devsw =
  dread :: "(nat \<Rightarrow> u32 \<Rightarrow> 's \<Rightarrow> (u32 \<times> u8 list \<times> 's) res) option"
  dwrite :: "(nat \<Rightarrow> u8 list \<Rightarrow> u32 \<Rightarrow> 's \<Rightarrow> (u32 \<times> 's) res) option"

definition upd_inode :: "nat \<Rightarrow> (inode \<Rightarrow> inode) \<Rightarrow> 'a kfs_scheme \<Rightarrow> 'a kfs_scheme" where
  "upd_inode i f s = s\<lparr>icache := (icache s)[i := f (icache s ! i)]\<rparr>"

text \<open>\<^verbatim>\<open>struct dinode\<close> at byte offset \<open>p\<close> of a block.\<close>

definition get_dinode :: "u8 list \<Rightarrow> nat \<Rightarrow> dinode" where
  "get_dinode d p =
     \<lparr>dtype = get16 d p, dmajor = get16 d (p + 2), dminor = get16 d (p + 4), dnlink = get16 d (p + 6),
      dsize = get32 d (p + 8), daddrs = get32s d (p + 12) (NDIRECT + 1)\<rparr>"

definition put_dinode :: "nat \<Rightarrow> dinode \<Rightarrow> u8 list \<Rightarrow> u8 list" where
  "put_dinode p x d =
     (let d = put16 p (dtype x) d; d = put16 (p + 2) (dmajor x) d; d = put16 (p + 4) (dminor x) d;
          d = put16 (p + 6) (dnlink x) d; d = put32 (p + 8) (dsize x) d in
      put32s (p + 12) (daddrs x) d)"

definition dinode_off :: "u32 \<Rightarrow> nat" where
  "dinode_off n = 64 * (unat n mod IPB)"

section \<open>The inode cache\<close>

definition iinit :: "'a kfs_scheme \<Rightarrow> 'a kfs_scheme" where
  "iinit s = initlock LIcache ''icache'' s"

definition iget :: "u32 \<Rightarrow> u32 \<Rightarrow> 'a kfs_scheme \<Rightarrow> (nat \<times> 'a kfs_scheme) res" where
  "iget dev n s =
     bindR (acquire LIcache s) (\<lambda>s.
     case find_index (\<lambda>ip. iref ip > 0 \<and> idev ip = dev \<and> inum ip = n) (icache s) of
       Some i \<Rightarrow>
         bindR (release LIcache (upd_inode i (\<lambda>ip. ip\<lparr>iref := iref ip + 1\<rparr>) s)) (\<lambda>s. Inr (i, s))
     | None \<Rightarrow>
         (case find_index (\<lambda>ip. iref ip = 0) (icache s) of
            None \<Rightarrow> Inl (Panic ''iget: no inodes'')
          | Some i \<Rightarrow>
              bindR (release LIcache
                  (upd_inode i (\<lambda>ip. ip\<lparr>idev := dev, inum := n, iref := 1, iflags := 0\<rparr>) s))
                (\<lambda>s. Inr (i, s))))"

function ialloc_loop ::
  "u32 \<Rightarrow> u16 \<Rightarrow> superblock \<Rightarrow> u32 \<Rightarrow> 'a kfs_scheme \<Rightarrow> (nat \<times> 'a kfs_scheme) res" where
  "ialloc_loop dev type sb n s =
     (if n < ninodes sb
      then bindR (bread dev (IBLOCK n) s) (\<lambda>(bp, s).
        let d = bdata (bufs s ! bp); p = dinode_off n in
        if get16 d p = 0
        then let d = splice p (replicate 64 0) d; d = put16 p type d in
          bindR (bwrite bp (set_data bp d s)) (\<lambda>s.
          bindR (brelse bp s) (\<lambda>s.
          iget dev n s))
        else bindR (brelse bp s) (\<lambda>s. ialloc_loop dev type sb (n + 1) s))
      else Inl (Panic ''ialloc: no inodes''))"
  by pat_completeness auto
termination
proof (relation "measure (\<lambda>(dev, type, sb, n, s). unat (ninodes sb) - unat n)", goal_cases)
  case (2 dev type sb n s)
  then have "unat n < unat (ninodes sb)" by (simp add: word_less_nat_alt)
  moreover from this have "unat (n + 1) = unat n + 1"
    using unat_lt32 [of "ninodes sb"] by (simp add: unat_word_ariths)
  ultimately show ?case by simp
qed simp

declare ialloc_loop.simps [simp del]

definition ialloc :: "u32 \<Rightarrow> u16 \<Rightarrow> 'a kfs_scheme \<Rightarrow> (nat \<times> 'a kfs_scheme) res" where
  "ialloc dev type s = bindR (readsb dev s) (\<lambda>(sb, s). ialloc_loop dev type sb 1 s)"

definition dinode_of :: "inode \<Rightarrow> dinode" where
  "dinode_of ip = \<lparr>dtype = itype ip, dmajor = imajor ip, dminor = iminor ip, dnlink = inlink ip,
     dsize = isize ip, daddrs = addrs ip\<rparr>"

definition iupdate :: "nat \<Rightarrow> 'a kfs_scheme \<Rightarrow> 'a kfs_scheme res" where
  "iupdate i s =
     (let ip = icache s ! i in
      bindR (bread (idev ip) (IBLOCK (inum ip)) s) (\<lambda>(bp, s).
      let d = bdata (bufs s ! bp) in
      bindR (bwrite bp (set_data bp (put_dinode (dinode_off (inum ip)) (dinode_of ip) d) s)) (\<lambda>s.
      brelse bp s)))"

definition idup :: "nat \<Rightarrow> 'a kfs_scheme \<Rightarrow> (nat \<times> 'a kfs_scheme) res" where
  "idup i s =
     bindR (acquire LIcache s) (\<lambda>s.
     bindR (release LIcache (upd_inode i (\<lambda>ip. ip\<lparr>iref := iref ip + 1\<rparr>) s)) (\<lambda>s. Inr (i, s)))"

definition load_dinode :: "dinode \<Rightarrow> inode \<Rightarrow> inode" where
  "load_dinode x ip = ip\<lparr>itype := dtype x, imajor := dmajor x, iminor := dminor x,
     inlink := dnlink x, isize := dsize x, addrs := daddrs x\<rparr>"

definition ilock :: "nat option \<Rightarrow> 'a kfs_scheme \<Rightarrow> 'a kfs_scheme res" where
  "ilock p s =
     (case p of
       None \<Rightarrow> Inl (Panic ''ilock'')
     | Some i \<Rightarrow>
         if iref (icache s ! i) < 1 then Inl (Panic ''ilock'')
         else bindR (acquire LIcache s) (\<lambda>s.
           if iflags (icache s ! i) AND I_BUSY \<noteq> 0 then Inl (Sleep (ChanInode i))
           else bindR (release LIcache (upd_inode i (\<lambda>ip. ip\<lparr>iflags := iflags ip OR I_BUSY\<rparr>) s)) (\<lambda>s.
             if iflags (icache s ! i) AND I_VALID = 0
             then bindR (bread (idev (icache s ! i)) (IBLOCK (inum (icache s ! i))) s) (\<lambda>(bp, s).
               let x = get_dinode (bdata (bufs s ! bp)) (dinode_off (inum (icache s ! i)));
                   s = upd_inode i (load_dinode x) s in
               bindR (brelse bp s) (\<lambda>s.
               let s = upd_inode i (\<lambda>ip. ip\<lparr>iflags := iflags ip OR I_VALID\<rparr>) s in
               if itype (icache s ! i) = 0 then Inl (Panic ''ilock: no type'') else Inr s))
             else Inr s)))"

definition iunlock :: "nat option \<Rightarrow> 'a kfs_scheme \<Rightarrow> 'a kfs_scheme res" where
  "iunlock p s =
     (case p of
       None \<Rightarrow> Inl (Panic ''iunlock'')
     | Some i \<Rightarrow>
         if iflags (icache s ! i) AND I_BUSY = 0 \<or> iref (icache s ! i) < 1 then Inl (Panic ''iunlock'')
         else bindR (acquire LIcache s) (\<lambda>s.
           let s = upd_inode i (\<lambda>ip. ip\<lparr>iflags := iflags ip AND NOT I_BUSY\<rparr>) s in
           bindR (wakeup (ChanInode i) s) (\<lambda>s.
           release LIcache s)))"

section \<open>Inode contents\<close>

text \<open>The second half of \<^verbatim>\<open>bmap\<close>: entry \<open>bn\<close> of the indirect block \<open>addr\<close>.\<close>

definition bmap_indirect :: "nat \<Rightarrow> u32 \<Rightarrow> u32 \<Rightarrow> 'a kfs_scheme \<Rightarrow> (u32 \<times> 'a kfs_scheme) res" where
  "bmap_indirect i bn addr s =
     bindR (bread (idev (icache s ! i)) addr s) (\<lambda>(bp, s).
     let addr = get32 (bdata (bufs s ! bp)) (4 * unat bn) in
     bindR (if addr = 0
       then bindR (balloc (idev (icache s ! i)) s) (\<lambda>(addr, s).
         let s = set_data bp (put32 (4 * unat bn) addr (bdata (bufs s ! bp))) s in
         bindR (bwrite bp s) (\<lambda>s. Inr (addr, s)))
       else Inr (addr, s)) (\<lambda>(addr, s).
     bindR (brelse bp s) (\<lambda>s. Inr (addr, s))))"

definition bmap :: "nat \<Rightarrow> u32 \<Rightarrow> 'a kfs_scheme \<Rightarrow> (u32 \<times> 'a kfs_scheme) res" where
  "bmap i bn s =
     (if unat bn < NDIRECT
      then let addr = addrs (icache s ! i) ! unat bn in
        if addr = 0
        then bindR (balloc (idev (icache s ! i)) s) (\<lambda>(addr, s).
          Inr (addr, upd_inode i (\<lambda>ip. ip\<lparr>addrs := (addrs ip)[unat bn := addr]\<rparr>) s))
        else Inr (addr, s)
      else let bn = bn - of_nat NDIRECT in
        if unat bn < NINDIRECT
        then bindR (let addr = addrs (icache s ! i) ! NDIRECT in
            if addr = 0
            then bindR (balloc (idev (icache s ! i)) s) (\<lambda>(addr, s).
              Inr (addr, upd_inode i (\<lambda>ip. ip\<lparr>addrs := (addrs ip)[NDIRECT := addr]\<rparr>) s))
            else Inr (addr, s)) (\<lambda>(addr, s).
          bmap_indirect i bn addr s)
        else Inl (Panic ''bmap: out of range''))"

fun itrunc_direct :: "nat \<Rightarrow> nat \<Rightarrow> nat \<Rightarrow> 'a kfs_scheme \<Rightarrow> 'a kfs_scheme res" where
  "itrunc_direct i k 0 s = Inr s"
| "itrunc_direct i k (Suc n) s =
     bindR (let addr = addrs (icache s ! i) ! k in
       if addr \<noteq> 0
       then bindR (bfree (idev (icache s ! i)) addr s) (\<lambda>s.
         Inr (upd_inode i (\<lambda>ip. ip\<lparr>addrs := (addrs ip)[k := 0]\<rparr>) s))
       else Inr s)
     (itrunc_direct i (Suc k) n)"

fun itrunc_indirect :: "nat \<Rightarrow> nat \<Rightarrow> nat \<Rightarrow> nat \<Rightarrow> 'a kfs_scheme \<Rightarrow> 'a kfs_scheme res" where
  "itrunc_indirect i bp j 0 s = Inr s"
| "itrunc_indirect i bp j (Suc n) s =
     bindR (let a = get32 (bdata (bufs s ! bp)) (4 * j) in
       if a \<noteq> 0 then bfree (idev (icache s ! i)) a s else Inr s)
     (itrunc_indirect i bp (Suc j) n)"

definition itrunc :: "nat \<Rightarrow> 'a kfs_scheme \<Rightarrow> 'a kfs_scheme res" where
  "itrunc i s =
     bindR (itrunc_direct i 0 NDIRECT s) (\<lambda>s.
     bindR (let addr = addrs (icache s ! i) ! NDIRECT in
       if addr \<noteq> 0
       then bindR (bread (idev (icache s ! i)) addr s) (\<lambda>(bp, s).
         bindR (itrunc_indirect i bp 0 NINDIRECT s) (\<lambda>s.
         bindR (brelse bp s) (\<lambda>s.
         bindR (bfree (idev (icache s ! i)) addr s) (\<lambda>s.
         Inr (upd_inode i (\<lambda>ip. ip\<lparr>addrs := (addrs ip)[NDIRECT := 0]\<rparr>) s)))))
       else Inr s) (\<lambda>s.
     iupdate i (upd_inode i (\<lambda>ip. ip\<lparr>isize := 0\<rparr>) s)))"

definition iput :: "nat \<Rightarrow> 'a kfs_scheme \<Rightarrow> 'a kfs_scheme res" where
  "iput i s =
     bindR (acquire LIcache s) (\<lambda>s.
     bindR (let ip = icache s ! i in
       if iref ip = 1 \<and> iflags ip AND I_VALID \<noteq> 0 \<and> inlink ip = 0
       then if iflags ip AND I_BUSY \<noteq> 0 then Inl (Panic ''iput busy'')
         else let s = upd_inode i (\<lambda>ip. ip\<lparr>iflags := iflags ip OR I_BUSY\<rparr>) s in
           bindR (release LIcache s) (\<lambda>s.
           bindR (itrunc i s) (\<lambda>s.
           bindR (iupdate i (upd_inode i (\<lambda>ip. ip\<lparr>itype := 0\<rparr>) s)) (\<lambda>s.
           bindR (acquire LIcache s) (\<lambda>s.
           wakeup (ChanInode i) (upd_inode i (\<lambda>ip. ip\<lparr>iflags := 0\<rparr>) s)))))
       else Inr s) (\<lambda>s.
     release LIcache (upd_inode i (\<lambda>ip. ip\<lparr>iref := iref ip - 1\<rparr>) s)))"

definition iunlockput :: "nat \<Rightarrow> 'a kfs_scheme \<Rightarrow> 'a kfs_scheme res" where
  "iunlockput i s = bindR (iunlock (Some i) s) (iput i)"

definition stati :: "nat \<Rightarrow> 'a kfs_scheme \<Rightarrow> stat" where
  "stati i s = (let ip = icache s ! i in
     \<lparr>st_type = itype ip, st_dev = idev ip, st_ino = inum ip, st_nlink = inlink ip, st_size = isize ip\<rparr>)"

text \<open>\<open>min(n - tot, BSIZE - off%BSIZE)\<close>, the bytes of one round of a transfer.\<close>

definition chunk :: "u32 \<Rightarrow> u32 \<Rightarrow> u32 \<Rightarrow> u32" where
  "chunk n tot off = min (n - tot) (of_nat BSIZE - off mod of_nat BSIZE)"

lemma chunk_shrinks:
  assumes "tot < n"
  shows "unat (n - (tot + chunk n tot off)) < unat (n - tot)"
proof -
  have m: "unat (off mod 512) < 512" by (simp add: unat_mod)
  then have "off mod 512 \<le> 512" by (simp add: word_le_nat_alt)
  then have p: "unat (512 - off mod 512) = 512 - unat (off mod 512)" by (simp add: unat_sub)
  have c0: "chunk n tot off \<noteq> 0"
    using assms m p by (auto simp: chunk_def BSIZE_def min_def)
  have le: "chunk n tot off \<le> n - tot" by (simp add: chunk_def)
  then have "unat (n - tot - chunk n tot off) = unat (n - tot) - unat (chunk n tot off)" by (rule unat_sub)
  moreover have "0 < unat (chunk n tot off)" using c0 by (simp add: unat_gt_0)
  moreover have "unat (chunk n tot off) \<le> unat (n - tot)" using le by (simp add: word_le_nat_alt)
  ultimately show ?thesis by (simp add: diff_diff_eq)
qed

text \<open>The transfer loops. \<^verbatim>\<open>readi\<close> collects the bytes, \<^verbatim>\<open>writei\<close> takes them from \<open>src\<close>.\<close>

function readi_loop ::
  "nat \<Rightarrow> u32 \<Rightarrow> u32 \<Rightarrow> u32 \<Rightarrow> u8 list \<Rightarrow> 'a kfs_scheme \<Rightarrow> (u8 list \<times> 'a kfs_scheme) res" where
  "readi_loop i n tot off dst s =
     (if tot < n
      then bindR (bmap i (off div of_nat BSIZE) s) (\<lambda>(addr, s).
        bindR (bread (idev (icache s ! i)) addr s) (\<lambda>(bp, s).
        let m = chunk n tot off;
            dst = dst @ take (unat m) (drop (unat (off mod of_nat BSIZE)) (bdata (bufs s ! bp))) in
        bindR (brelse bp s) (\<lambda>s.
        readi_loop i n (tot + m) (off + m) dst s)))
      else Inr (dst, s))"
  by pat_completeness auto
termination
  by (relation "measure (\<lambda>(i, n, tot, off, dst, s). unat (n - tot))") (simp_all add: chunk_shrinks)

function writei_loop ::
  "nat \<Rightarrow> u32 \<Rightarrow> u32 \<Rightarrow> u32 \<Rightarrow> u8 list \<Rightarrow> 'a kfs_scheme \<Rightarrow> (u32 \<times> 'a kfs_scheme) res" where
  "writei_loop i n tot off src s =
     (if tot < n
      then bindR (bmap i (off div of_nat BSIZE) s) (\<lambda>(addr, s).
        bindR (bread (idev (icache s ! i)) addr s) (\<lambda>(bp, s).
        let m = chunk n tot off;
            d = splice (unat (off mod of_nat BSIZE)) (take (unat m) src) (bdata (bufs s ! bp)) in
        if length src < unat m then Inl Fault
        else bindR (bwrite bp (set_data bp d s)) (\<lambda>s.
          bindR (brelse bp s) (\<lambda>s.
          writei_loop i n (tot + m) (off + m) (drop (unat m) src) s))))
      else Inr (off, s))"
  by pat_completeness auto
termination
  by (relation "measure (\<lambda>(i, n, tot, off, src, s). unat (n - tot))") (simp_all add: chunk_shrinks)

declare readi_loop.simps [simp del] writei_loop.simps [simp del]

definition readi :: "(nat \<Rightarrow> 'a kfs_scheme devsw) \<Rightarrow> nat \<Rightarrow> u32 \<Rightarrow> u32 \<Rightarrow> 'a kfs_scheme \<Rightarrow>
    (u32 \<times> u8 list \<times> 'a kfs_scheme) res" where
  "readi dv i off n s =
     (let ip = icache s ! i in
      if itype ip = T_DEV
      then if sint (imajor ip) < 0 \<or> sint (imajor ip) \<ge> NDEV then Inr (- 1, [], s)
        else case dread (dv (unat (imajor ip))) of
          None \<Rightarrow> Inr (- 1, [], s)
        | Some f \<Rightarrow> f i n s
      else if off > isize ip \<or> off + n < off then Inr (- 1, [], s)
      else let n = if off + n > isize ip then isize ip - off else n in
        bindR (readi_loop i n 0 off [] s) (\<lambda>(dst, s). Inr (n, dst, s)))"

definition writei :: "(nat \<Rightarrow> 'a kfs_scheme devsw) \<Rightarrow> nat \<Rightarrow> u8 list \<Rightarrow> u32 \<Rightarrow> u32 \<Rightarrow> 'a kfs_scheme \<Rightarrow>
    (u32 \<times> 'a kfs_scheme) res" where
  "writei dv i src off n s =
     (let ip = icache s ! i in
      if itype ip = T_DEV
      then if sint (imajor ip) < 0 \<or> sint (imajor ip) \<ge> NDEV then Inr (- 1, s)
        else case dwrite (dv (unat (imajor ip))) of
          None \<Rightarrow> Inr (- 1, s)
        | Some f \<Rightarrow> f i src n s
      else if off > isize ip \<or> off + n < off then Inr (- 1, s)
      else let n = if off + n > of_nat (MAXFILE * BSIZE) then of_nat (MAXFILE * BSIZE) - off else n in
        bindR (writei_loop i n 0 off src s) (\<lambda>(off, s).
        if n > 0 \<and> off > isize (icache s ! i)
        then bindR (iupdate i (upd_inode i (\<lambda>ip. ip\<lparr>isize := off\<rparr>) s)) (\<lambda>s. Inr (n, s))
        else Inr (n, s)))"

section \<open>The layout of inodes\<close>

lemma length_put_dinode [simp]: "length (put_dinode p x d) = length d"
  by (simp add: put_dinode_def Let_def)

lemma get_put_dinode [layout]:
  assumes "p + 64 \<le> length d" "length (daddrs x) = 13"
  shows "get_dinode (put_dinode p x d) p = x"
  using assms by (simp add: get_dinode_def put_dinode_def Let_def layout NDIRECT_def)

lemma get_dinode_local:
  assumes "\<And>j. p \<le> j \<Longrightarrow> j < p + 64 \<Longrightarrow> d ! j = d' ! j"
  shows "get_dinode d p = get_dinode d' p"
proof -
  have "get16 d (p + k) = get16 d' (p + k)" if "k + 2 \<le> 64" for k
    using assms that by (intro f16.get_local) auto
  from this [of 0] this [of 2] this [of 4] this [of 6]
  have "get16 d p = get16 d' p" "get16 d (p + 2) = get16 d' (p + 2)" "get16 d (p + 4) = get16 d' (p + 4)"
    "get16 d (p + 6) = get16 d' (p + 6)" by simp_all
  moreover have "get32 d (p + 8) = get32 d' (p + 8)" using assms by (intro f32.get_local) auto
  moreover have "get32s d (p + 12) 13 = get32s d' (p + 12) 13" using assms by (intro get32s_local) auto
  ultimately show ?thesis by (simp add: get_dinode_def NDIRECT_def)
qed

lemma nth_put_dinode:
  assumes "j < p \<or> p + 64 \<le> j" "length (daddrs x) = 13"
  shows "put_dinode p x d ! j = d ! j"
  using assms by (auto simp: put_dinode_def Let_def layout)

lemma get_put_dinode_apart [layout]:
  assumes "q + 64 \<le> p \<or> p + 64 \<le> q" "length (daddrs x) = 13"
  shows "get_dinode (put_dinode p x d) q = get_dinode d q"
  using assms by (intro get_dinode_local nth_put_dinode) auto

lemma dinode_off_le: "dinode_off n + 64 \<le> 512"
proof -
  have "unat n mod 8 < 8" by simp
  then show ?thesis by (simp add: dinode_off_def IPB_def BSIZE_def)
qed

text \<open>Two inodes with different numbers lie in different blocks or at different offsets.\<close>

lemma dinode_apart:
  assumes "m \<noteq> n" "IBLOCK m = IBLOCK n"
  shows "dinode_off m + 64 \<le> dinode_off n \<or> dinode_off n + 64 \<le> dinode_off m"
proof -
  have d: "unat m div 8 = unat n div 8"
  proof -
    have "m div 8 = n div 8" using assms(2) by (simp add: IBLOCK_def IPB_def BSIZE_def)
    then have "unat (m div 8) = unat (n div 8)" by simp
    then show ?thesis by (simp add: unat_div)
  qed
  have "unat m mod 8 \<noteq> unat n mod 8"
  proof
    assume "unat m mod 8 = unat n mod 8"
    with d have "unat m = unat n" by (metis mult_div_mod_eq)
    with assms(1) show False using unat_inj32 by blast
  qed
  then show ?thesis by (auto simp: dinode_off_def IPB_def BSIZE_def)
qed

text \<open>The on-disk inode with a given number.\<close>

definition disk_inode :: "(u32 \<Rightarrow> u8 list) \<Rightarrow> u32 \<Rightarrow> dinode" where
  "disk_inode D n = get_dinode (D (IBLOCK n)) (dinode_off n)"

definition put_inode :: "u32 \<Rightarrow> dinode \<Rightarrow> (u32 \<Rightarrow> u8 list) \<Rightarrow> u32 \<Rightarrow> u8 list" where
  "put_inode n x D = D(IBLOCK n := put_dinode (dinode_off n) x (D (IBLOCK n)))"

lemma disk_inode_put:
  assumes "length (D (IBLOCK n)) = 512" "length (daddrs x) = 13"
  shows "disk_inode (put_inode n x D) m = (if m = n then x else disk_inode D m)"
proof (cases "m = n")
  case True
  then show ?thesis using assms dinode_off_le [of n] by (simp add: disk_inode_def put_inode_def layout)
next
  case False
  then show ?thesis
    using assms dinode_apart [OF False] by (auto simp: disk_inode_def put_inode_def layout)
qed

section \<open>Running the inode operations\<close>

lemma icache_rest: "icache (rest s) = icache s"
  by (simp add: rest_def)

lemma rest_icache: "rest s' = rest s \<Longrightarrow> icache s' = icache s"
  using icache_rest by metis

lemma effect_icache: "effect D s s' \<Longrightarrow> icache s' = icache s"
  unfolding effect_def using rest_icache by blast

lemma bio_icache [simp]:
  "inuse (s\<lparr>icache := ic\<rparr>) = inuse s" "bio_inv (s\<lparr>icache := ic\<rparr>) = bio_inv s"
  "rest (s\<lparr>icache := ic\<rparr>) = (rest s)\<lparr>icache := ic\<rparr>"
  by (simp_all add: inuse_def bio_inv_def rest_def fun_eq_iff)

lemma can_icache [simp]: "can X (s\<lparr>icache := ic\<rparr>) = can X s"
  by (simp add: can_def)

lemma upd_inode_bio [simp]:
  "bufs (upd_inode i f s) = bufs s" "disk (upd_inode i f s) = disk s" "lk (upd_inode i f s) = lk s"
  "inuse (upd_inode i f s) = inuse s" "bio_inv (upd_inode i f s) = bio_inv s" "can X (upd_inode i f s) = can X s"
  "ptable (upd_inode i f s) = ptable s" "curproc (upd_inode i f s) = curproc s"
  by (simp_all add: upd_inode_def)

lemma iupdate_run:
  assumes "can X s" "IBLOCK (inum (icache s ! i)) \<in> X" "idev (icache s ! i) = ROOTDEV"
  shows "\<exists>s'. iupdate i s = Inr s' \<and>
    effect (put_inode (inum (icache s ! i)) (dinode_of (icache s ! i)) (disk s)) s s'"
proof -
  let ?ip = "icache s ! i"
  let ?d = "put_dinode (dinode_off (inum ?ip)) (dinode_of ?ip) (disk s (IBLOCK (inum ?ip)))"
  obtain bp s1 s2 s3 where "bread ROOTDEV (IBLOCK (inum ?ip)) s = Inr (bp, s1)"
    "bdata (bufs s1 ! bp) = disk s (IBLOCK (inum ?ip))" "bwrite bp (set_data bp ?d s1) = Inr s2"
    "brelse bp s2 = Inr s3" "effect ((disk s)(IBLOCK (inum ?ip) := ?d)) s s3"
    using update_block [OF assms(1,2), of ?d] can_length [OF assms(1)] by auto
  then show ?thesis using assms(3) by (auto simp: iupdate_def put_inode_def Let_def)
qed

lemma inode_flags [simp]:
  "bit I_BUSY n \<longleftrightarrow> n = 0" "bit I_VALID n \<longleftrightarrow> n = 1"
  "f AND I_BUSY = 0 \<longleftrightarrow> \<not> bit f 0" "f AND I_VALID = 0 \<longleftrightarrow> \<not> bit f 1"
  "bit (f OR I_BUSY) n \<longleftrightarrow> bit f n \<or> n = 0" "bit (f OR I_VALID) n \<longleftrightarrow> bit f n \<or> n = 1"
proof -
  have e: "I_BUSY = B_BUSY" "I_VALID = B_VALID"
    by (simp_all add: I_BUSY_def I_VALID_def B_BUSY_def B_VALID_def)
  show "bit I_BUSY n \<longleftrightarrow> n = 0" "bit I_VALID n \<longleftrightarrow> n = 1"
    "f AND I_BUSY = 0 \<longleftrightarrow> \<not> bit f 0" "f AND I_VALID = 0 \<longleftrightarrow> \<not> bit f 1"
    "bit (f OR I_BUSY) n \<longleftrightarrow> bit f n \<or> n = 0" "bit (f OR I_VALID) n \<longleftrightarrow> bit f n \<or> n = 1"
    by (simp_all add: e)
qed

text \<open>\<^verbatim>\<open>ilock\<close> of an inode that nobody holds and that is not yet in memory.\<close>

lemma ilock_run:
  assumes can: "can X s" and sec: "IBLOCK (inum (icache s ! i)) \<in> X" and dev: "idev (icache s ! i) = ROOTDEV"
    and i: "i < length (icache s)" "1 \<le> iref (icache s ! i)"
    and fl: "\<not> bit (iflags (icache s ! i)) 0" "\<not> bit (iflags (icache s ! i)) 1"
    and ty: "dtype (disk_inode (disk s) (inum (icache s ! i))) \<noteq> 0"
  shows "\<exists>s'. ilock (Some i) s = Inr s' \<and> disk s' = disk s \<and> bio_inv s' \<and> inuse s' = inuse s \<and>
    icache s' = (icache s)[i := (load_dinode (disk_inode (disk s) (inum (icache s ! i))) (icache s ! i))
      \<lparr>iflags := (iflags (icache s ! i) OR I_BUSY) OR I_VALID\<rparr>] \<and> rest s' = rest (s\<lparr>icache := icache s'\<rparr>)"
proof -
  let ?ip = "icache s ! i" and ?n = "inum (icache s ! i)"
  let ?sec = "IBLOCK ?n"
  let ?x = "disk_inode (disk s) ?n"
  let ?b = "s\<lparr>icache := (icache s)[i := ?ip\<lparr>iflags := iflags ?ip OR I_BUSY\<rparr>]\<rparr>"
  have calm: "calm (lk s)" using can by (simp add: can_def bio_inv_def)
  obtain bp s1 where 1: "bread ROOTDEV ?sec ?b = Inr (bp, s1)" "bio_inv s1" "inuse s bp = None"
    "inuse s1 = (inuse s)(bp \<mapsto> (?sec, disk s ?sec))" "disk s1 = disk s" "rest s1 = rest ?b"
    and d1: "bdata (bufs s1 ! bp) = disk s ?sec"
    using hold_block [of X ?b ?sec] can sec by auto
  have ic1: "icache s1 = icache ?b" using 1(6) by (rule rest_icache)
  let ?l = "upd_inode i (load_dinode ?x) s1"
  obtain s2 where 2: "brelse bp ?l = Inr s2" "bio_inv s2" "inuse s2 = inuse s" "disk s2 = disk s" "rest s2 = rest ?l"
    using brelse_law [of ?l bp ?sec] 1 by (auto simp: fun_upd_idem)
  have ic2: "icache s2 = icache ?l" using 2(5) by (rule rest_icache)
  have "ilock (Some i) s = Inr (upd_inode i (\<lambda>ip. ip\<lparr>iflags := iflags ip OR I_VALID\<rparr>) s2)"
    using i fl dev calm 1(1) 2(1) ty d1 ic1 ic2
    by (simp add: ilock_def acquire_run release_run [where k = "lk s"] upd_inode_def disk_inode_def load_dinode_def Let_def)
  then show ?thesis using 2 i ic1 ic2 1(6) by (auto simp: upd_inode_def load_dinode_def)
qed

section \<open>Reading a file\<close>

text \<open>
  The address of the \<open>k\<close>-th block of a file (0: none), the blocks an access may touch, and the
  byte at an offset.
\<close>

definition block_addr :: "(u32 \<Rightarrow> u8 list) \<Rightarrow> inode \<Rightarrow> nat \<Rightarrow> u32" where
  "block_addr D ip k =
     (if k < NDIRECT then addrs ip ! k
      else if k < MAXFILE \<and> addrs ip ! NDIRECT \<noteq> 0 then get32 (D (addrs ip ! NDIRECT)) (4 * (k - NDIRECT))
      else 0)"

definition file_sectors :: "(u32 \<Rightarrow> u8 list) \<Rightarrow> inode \<Rightarrow> u32 set" where
  "file_sectors D ip = insert (addrs ip ! NDIRECT) (block_addr D ip ` {..<MAXFILE})"

definition file_byte :: "(u32 \<Rightarrow> u8 list) \<Rightarrow> inode \<Rightarrow> nat \<Rightarrow> u8" where
  "file_byte D ip j = D (block_addr D ip (j div BSIZE)) ! (j mod BSIZE)"

lemma file_sizes: "NDIRECT = 12" "NINDIRECT = 128" "MAXFILE = 140" "BSIZE = 512"
  by (simp_all add: NDIRECT_def NINDIRECT_def MAXFILE_def BSIZE_def)

lemma bmap_mapped:
  assumes "can X s" "file_sectors (disk s) (icache s ! i) \<subseteq> X" "idev (icache s ! i) = ROOTDEV"
    "unat bn = k" "block_addr (disk s) (icache s ! i) k \<noteq> 0"
  shows "\<exists>s'. bmap i bn s = Inr (block_addr (disk s) (icache s ! i) k, s') \<and> effect (disk s) s s'"
proof (cases "k < 12")
  case True
  have "effect (disk s) s s" using assms(1) by (simp add: effect_def can_def)
  then show ?thesis using True assms by (auto simp: bmap_def block_addr_def file_sizes)
next
  case False
  let ?ip = "icache s ! i"
  let ?ind = "addrs ?ip ! NDIRECT"
  have k: "k < 140" "?ind \<noteq> 0" "block_addr (disk s) ?ip k = get32 (disk s ?ind) (4 * (k - 12))"
    using assms(5) False by (auto simp: block_addr_def file_sizes split: if_splits)
  have "12 \<le> bn" using False assms(4) by (simp add: word_le_nat_alt)
  then have bn: "unat (bn - 12) = k - 12" using assms(4) by (simp add: unat_sub)
  obtain bp s1 s2 where 1: "bread ROOTDEV ?ind s = Inr (bp, s1)" "bdata (bufs s1 ! bp) = disk s ?ind"
    "rest s1 = rest s" "brelse bp s1 = Inr s2" "effect (disk s) s s2"
    using read_block [OF assms(1), of ?ind] assms(2) by (auto simp: file_sectors_def)
  have "bmap i bn s = Inr (get32 (disk s ?ind) (4 * (k - 12)), s2)"
    using False k(1,2) bn 1 assms(3,4,5) k(3) by (simp add: bmap_def bmap_indirect_def file_sizes Let_def)
  with 1(5) k(3) show ?thesis by simp
qed

lemma unat_chunk:
  "unat (chunk n tot off) = min (unat (n - tot)) (512 - unat off mod 512)"
proof -
  have "unat (off mod 512) = unat off mod 512" by (simp add: unat_mod)
  moreover have "off mod 512 \<le> 512" using calculation by (simp add: word_le_nat_alt)
  then have "unat (512 - off mod 512) = 512 - unat (off mod 512)" by (simp add: unat_sub)
  ultimately show ?thesis by (simp add: chunk_def BSIZE_def min_def word_le_nat_alt)
qed

text \<open>One round of a transfer stays within one block.\<close>

lemma block_slice:
  assumes "length (D (block_addr D ip (j div 512))) = 512" "j mod 512 + m \<le> 512"
  shows "take m (drop (j mod 512) (D (block_addr D ip (j div 512)))) = map (file_byte D ip) [j..<j + m]"
proof (rule nth_equalityI)
  fix k
  assume "k < length (take m (drop (j mod 512) (D (block_addr D ip (j div 512)))))"
  then have k: "k < m" by simp
  then have "(j + k) div 512 = j div 512" "(j + k) mod 512 = j mod 512 + k"
    using assms(2) by (auto intro!: div_within mod_within)
  then show "take m (drop (j mod 512) (D (block_addr D ip (j div 512)))) ! k = map (file_byte D ip) [j..<j + m] ! k"
    using k assms by (simp add: file_byte_def BSIZE_def)
qed (use assms in simp)

text \<open>All blocks of the byte range \<open>[a, b)\<close> of the file are allocated.\<close>

definition allocated :: "(u32 \<Rightarrow> u8 list) \<Rightarrow> inode \<Rightarrow> nat \<Rightarrow> nat \<Rightarrow> bool" where
  "allocated D ip a b \<longleftrightarrow> (\<forall>j. a \<le> j \<and> j < b \<longrightarrow> block_addr D ip (j div 512) \<noteq> 0)"

lemma block_addr_bound: "block_addr D ip k \<noteq> 0 \<Longrightarrow> k < MAXFILE"
  by (auto simp: block_addr_def file_sizes split: if_splits)

text \<open>The offsets after one round of a transfer.\<close>

lemma chunk_step:
  assumes "tot < n" "unat off + unat (n - tot) < 2 ^ 32"
  shows "unat (n - (tot + chunk n tot off)) = unat (n - tot) - unat (chunk n tot off)"
    and "unat (off + chunk n tot off) = unat off + unat (chunk n tot off)"
    and "0 < unat (chunk n tot off)" "unat (chunk n tot off) \<le> unat (n - tot)"
    and "unat off mod 512 + unat (chunk n tot off) \<le> 512"
proof -
  have le: "chunk n tot off \<le> n - tot" by (simp add: chunk_def)
  have "unat (n - tot - chunk n tot off) = unat (n - tot) - unat (chunk n tot off)" using le by (rule unat_sub)
  then show "unat (n - (tot + chunk n tot off)) = unat (n - tot) - unat (chunk n tot off)" by (simp add: diff_diff_eq)
  show c: "unat (chunk n tot off) \<le> unat (n - tot)" using le by (simp add: word_le_nat_alt)
  with assms(2) show "unat (off + chunk n tot off) = unat off + unat (chunk n tot off)"
    by (simp add: unat_word_ariths)
  have "n - tot \<noteq> 0" using assms(1) by auto
  then have "0 < unat (n - tot)" by (simp add: unat_gt_0)
  then show "0 < unat (chunk n tot off)" by (simp add: unat_chunk)
  show "unat off mod 512 + unat (chunk n tot off) \<le> 512" by (simp add: unat_chunk)
qed

lemma readi_loop_run:
  assumes "can X s" "D = disk s" "ip = icache s ! i" "file_sectors D ip \<subseteq> X" "idev ip = ROOTDEV" "tot \<le> n"
    "unat off + unat (n - tot) < 2 ^ 32" "allocated D ip (unat off) (unat off + unat (n - tot))"
  shows "\<exists>s'. readi_loop i n tot off dst s =
      Inr (dst @ map (file_byte D ip) [unat off..<unat off + unat (n - tot)], s') \<and> effect D s s'"
  using assms
proof (induction "unat (n - tot)" arbitrary: tot off dst s rule: less_induct)
  case less
  show ?case
  proof (cases "tot < n")
    case False
    then have "tot = n" using less.prems(6) by simp
    then show ?thesis using less.prems(1,2) by (subst readi_loop.simps) (simp add: effect_def can_def)
  next
    case True
    let ?m = "chunk n tot off" and ?o = "unat off"
    note st = chunk_step [OF True less.prems(7)]
    let ?a = "block_addr D ip (?o div 512)"
    have a0: "?a \<noteq> 0" using less.prems(8) st(3,4) by (auto simp: allocated_def)
    have aX: "?a \<in> X" using block_addr_bound [OF a0] less.prems(4) by (auto simp: file_sectors_def)
    obtain s1 where 1: "bmap i (off div 512) s = Inr (?a, s1)" "effect D s s1"
      using bmap_mapped [OF less.prems(1), of i "off div 512" "?o div 512"] less.prems a0 by (auto simp: unat_div)
    have s1: "can X s1" "disk s1 = D" "icache s1 = icache s"
      using can_effect [OF 1(2) less.prems(1)] effect_disk [OF 1(2)] effect_icache [OF 1(2)] .
    obtain bp s2 s3 where 2: "bread ROOTDEV ?a s1 = Inr (bp, s2)" "bdata (bufs s2 ! bp) = D ?a"
      "brelse bp s2 = Inr s3" "effect D s1 s3"
      using read_block [OF s1(1) aX] s1(2) by auto
    have e3: "effect D s s3" using effect_trans [OF 1(2) 2(4)] .
    have s3: "can X s3" "disk s3 = D" "icache s3 = icache s"
      using can_effect [OF e3 less.prems(1)] effect_disk [OF e3] effect_icache [OF e3] .
    let ?dst = "dst @ take (unat ?m) (drop (?o mod 512) (D ?a))"
    have run: "readi_loop i n tot off dst s = readi_loop i n (tot + ?m) (off + ?m) ?dst s3"
      using True 1 2 s1 less.prems(3,5)
      by (subst readi_loop.simps) (simp add: BSIZE_def unat_mod Let_def)
    have le: "tot + ?m \<le> n"
    proof -
      have "unat tot + unat ?m \<le> unat n" using st(4) True unat_sub [of tot n] by (simp add: word_less_nat_alt word_le_nat_alt)
      moreover from this have "unat (tot + ?m) = unat tot + unat ?m"
        using unat_lt32 [of n] by (simp add: unat_word_ariths)
      ultimately show ?thesis by (simp add: word_le_nat_alt)
    qed
    have "unat (n - (tot + ?m)) < unat (n - tot)" using st(1,3,4) by linarith
    then have "\<exists>s'. readi_loop i n (tot + ?m) (off + ?m) ?dst s3 =
        Inr (?dst @ map (file_byte D ip) [unat (off + ?m)..<unat (off + ?m) + unat (n - (tot + ?m))], s') \<and> effect D s3 s'"
    proof (rule less.hyps)
      show "allocated D ip (unat (off + ?m)) (unat (off + ?m) + unat (n - (tot + ?m)))"
        using less.prems(8) st(1,2,4) by (auto simp: allocated_def)
      show "unat (off + ?m) + unat (n - (tot + ?m)) < 2 ^ 32" using st less.prems(7) by linarith
    qed (use s3 less.prems(3,4,5) le in auto)
    then obtain s' where r: "readi_loop i n (tot + ?m) (off + ?m) ?dst s3 =
        Inr (?dst @ map (file_byte D ip) [unat (off + ?m)..<unat (off + ?m) + unat (n - (tot + ?m))], s')" "effect D s3 s'" by blast
    have "take (unat ?m) (drop (?o mod 512) (D ?a)) = map (file_byte D ip) [?o..<?o + unat ?m]"
      using can_length [OF less.prems(1)] less.prems(2) st(5) by (intro block_slice) auto
    moreover have "[?o..<?o + unat (n - tot)] =
        [?o..<?o + unat ?m] @ [?o + unat ?m..<?o + unat (n - tot)]" using st(4) by (intro upt_split) auto
    ultimately have "?dst @ map (file_byte D ip) [unat (off + ?m)..<unat (off + ?m) + unat (n - (tot + ?m))] =
        dst @ map (file_byte D ip) [?o..<?o + unat (n - tot)]"
      using st(1,2,4) by simp
    with r run effect_trans [OF e3 r(2)] show ?thesis by auto
  qed
qed

lemma readi_run:
  assumes "can X s" "file_sectors (disk s) (icache s ! i) \<subseteq> X" "idev (icache s ! i) = ROOTDEV"
    "itype (icache s ! i) \<noteq> T_DEV" "off \<le> isize (icache s ! i)" "off \<le> off + n"
    "allocated (disk s) (icache s ! i) 0 (unat (isize (icache s ! i)))"
  shows "\<exists>s'. readi dv i off n s = Inr (min n (isize (icache s ! i) - off),
      map (file_byte (disk s) (icache s ! i)) [unat off..<min (unat off + unat n) (unat (isize (icache s ! i)))], s') \<and>
    effect (disk s) s s'"
proof -
  let ?ip = "icache s ! i" and ?D = "disk s"
  let ?n = "min n (isize ?ip - off)"
  have o: "unat (isize ?ip - off) = unat (isize ?ip) - unat off" "unat off \<le> unat (isize ?ip)"
    using assms(5) by (simp_all add: unat_sub word_le_nat_alt)
  have on: "unat (off + n) = unat off + unat n" using assms(6) unat_lt32 [of n] unat_lt32 [of off]
    by (auto simp: unat_plus_if' word_le_nat_alt split: if_splits)
  have n: "(if off + n > isize ?ip then isize ?ip - off else n) = ?n"
    using o on by (auto simp: min_def word_less_nat_alt word_le_nat_alt)
  have un: "unat ?n = min (unat n) (unat (isize ?ip) - unat off)"
    using o(1) by (auto simp: min_def word_le_nat_alt)
  have e: "unat off + unat ?n = min (unat off + unat n) (unat (isize ?ip))" using o un by auto
  have lt: "unat off + unat ?n < 2 ^ 32" using e unat_lt32 [of "isize ?ip"] by linarith
  obtain s' where "readi_loop i ?n 0 off [] s = Inr (map (file_byte ?D ?ip) [unat off..<unat off + unat ?n], s')" "effect ?D s s'"
    using readi_loop_run [OF assms(1) refl refl assms(2,3), of 0 ?n off "[]"] assms(7) lt e
    by (auto simp: allocated_def)
  then show ?thesis using assms(4,5,6) n e by (auto simp: readi_def Let_def)
qed

end
