(* ===== verification/Fs_Dir.thy ===== *)
theory Fs_Dir
  imports Fs_Inode CString
begin

text \<open>
  The directory and path layers of the file system (\<^verbatim>\<open>src/fs.c\<close>): directory entries of 16 bytes in
  the blocks of a directory, lookup and insertion of names, and the walk along a path. A path is the
  byte string before its terminating zero; a name is the contents of a buffer of \<open>DIRSIZ\<close> bytes.
\<close>

section \<open>Operations\<close>

definition DIRSIZ :: nat where "DIRSIZ = 14"

text \<open>\<^verbatim>\<open>struct dirent\<close> at byte offset \<open>p\<close>: a 16-bit inode number and the name.\<close>

definition de_inum :: "u8 list \<Rightarrow> nat \<Rightarrow> u16" where
  "de_inum d p = get16 d p"

definition de_name :: "u8 list \<Rightarrow> nat \<Rightarrow> u8 list" where
  "de_name d p = take DIRSIZ (drop (p + 2) d)"

definition dirent_bytes :: "u16 \<Rightarrow> u8 list \<Rightarrow> u8 list" where
  "dirent_bytes n nm = [byte16 0 n, byte16 1 n] @ strncpy_bytes (array nm) DIRSIZ"

definition namecmp :: "u8 list \<Rightarrow> u8 list \<Rightarrow> int" where
  "namecmp s t = strncmp (array s) (array t) DIRSIZ"

lemma bmap_in_range: "bmap i bn s = Inr r \<Longrightarrow> unat bn < MAXFILE"
proof (rule ccontr)
  assume r: "bmap i bn s = Inr r" and "\<not> unat bn < MAXFILE"
  then have "140 \<le> unat bn" by (simp add: MAXFILE_def NDIRECT_def NINDIRECT_def BSIZE_def)
  moreover from this have "unat (bn - 12) = unat bn - 12" by (simp add: unat_sub word_le_nat_alt)
  ultimately have "\<not> unat bn < NDIRECT" "\<not> unat (bn - of_nat NDIRECT) < NINDIRECT"
    by (simp_all add: NDIRECT_def NINDIRECT_def BSIZE_def)
  then have "bmap i bn s = Inl (Panic ''bmap: out of range'')" by (simp add: bmap_def Let_def)
  with r show False by simp
qed

text \<open>
  The scan over the blocks of a directory. It ends for every size of the directory, because
  \<^verbatim>\<open>bmap\<close> panics past the largest file.
\<close>

function dirlookup_loop ::
  "nat \<Rightarrow> u8 list \<Rightarrow> u32 \<Rightarrow> 'a kfs_scheme \<Rightarrow> ((nat \<times> u32) option \<times> 'a kfs_scheme) res" where
  "dirlookup_loop i nm off s =
     (if off < isize (icache s ! i)
      then bindR (bmap i (off div of_nat BSIZE) s) (\<lambda>(addr, s).
        bindR (bread (idev (icache s ! i)) addr s) (\<lambda>(bp, s).
        let d = bdata (bufs s ! bp) in
        case find (\<lambda>p. de_inum d p \<noteq> 0 \<and> namecmp nm (de_name d p) = 0) (map ((*) 16) [0..<BSIZE div 16]) of
          Some p \<Rightarrow>
            bindR (brelse bp s) (\<lambda>s.
            bindR (iget (idev (icache s ! i)) (ucast (de_inum d p)) s) (\<lambda>(j, s).
            Inr (Some (j, off + of_nat p), s)))
        | None \<Rightarrow>
            bindR (brelse bp s) (\<lambda>s.
            dirlookup_loop i nm (off + of_nat BSIZE) s)))
      else Inr (None, s))"
  by pat_completeness auto
termination
proof (relation "measure (\<lambda>(i, nm, off, s). MAXFILE * BSIZE - unat off)", goal_cases)
  case (2 i nm off s x addr s1 y bp s2 d s3)
  then have "unat (off div 512) < MAXFILE" using bmap_in_range by (auto simp: BSIZE_def)
  then have "unat off div 512 < 140"
    by (simp add: MAXFILE_def NDIRECT_def NINDIRECT_def BSIZE_def unat_div)
  then have "unat off < 71680" by (simp add: div_less_iff_less_mult)
  moreover from this have "unat (off + 512) = unat off + 512" by (simp add: unat_word_ariths)
  ultimately show ?case by (simp add: MAXFILE_def NDIRECT_def NINDIRECT_def BSIZE_def)
qed simp

declare dirlookup_loop.simps [simp del]

definition dirlookup ::
  "nat \<Rightarrow> u8 list \<Rightarrow> 'a kfs_scheme \<Rightarrow> ((nat \<times> u32) option \<times> 'a kfs_scheme) res" where
  "dirlookup i nm s =
     (if itype (icache s ! i) \<noteq> T_DIR then Inl (Panic ''dirlookup not DIR'')
      else dirlookup_loop i nm 0 s)"

text \<open>
  The search for an empty entry. The offset takes \<open>2^28\<close> values; \<^verbatim>\<open>readi\<close> fails at the last ones.
\<close>

fun dirlink_loop :: "nat \<Rightarrow> (nat \<Rightarrow> 'a kfs_scheme devsw) \<Rightarrow> nat \<Rightarrow> u32 \<Rightarrow> 'a kfs_scheme \<Rightarrow>
    (u32 \<times> 'a kfs_scheme) res" where
  "dirlink_loop 0 dv i off s = Inl Spin"
| "dirlink_loop (Suc n) dv i off s =
     (if off < isize (icache s ! i)
      then bindR (readi dv i off 16 s) (\<lambda>(r, de, s).
        if r \<noteq> 16 then Inl (Panic ''dirlink read'')
        else if de_inum de 0 = 0 then Inr (off, s)
        else dirlink_loop n dv i (off + 16) s)
      else Inr (off, s))"

declare dirlink_loop.simps [simp del]

definition dirlink :: "(nat \<Rightarrow> 'a kfs_scheme devsw) \<Rightarrow> nat \<Rightarrow> u8 list \<Rightarrow> u32 \<Rightarrow> 'a kfs_scheme \<Rightarrow>
    (u32 \<times> 'a kfs_scheme) res" where
  "dirlink dv i nm n s =
     bindR (dirlookup i nm s) (\<lambda>(hit, s).
     case hit of
       Some (j, _) \<Rightarrow> bindR (iput j s) (\<lambda>s. Inr (- 1, s))
     | None \<Rightarrow>
         bindR (dirlink_loop (2 ^ 28) dv i 0 s) (\<lambda>(off, s).
         bindR (writei dv i (dirent_bytes (ucast n) nm) off 16 s) (\<lambda>(r, s).
         if r \<noteq> 16 then Inl (Panic ''dirlink'') else Inr (0, s))))"

section \<open>Paths\<close>

text \<open>The character \<^verbatim>\<open>'/'\<close>.\<close>

definition SLASH :: u8 where "SLASH = 0x2f"

definition skipelem :: "u8 list \<Rightarrow> u8 list \<Rightarrow> (u8 list \<times> u8 list) option" where
  "skipelem path nm =
     (let path = dropWhile (\<lambda>c. c = SLASH) path in
      if path = [] then None
      else let e = takeWhile (\<lambda>c. c \<noteq> SLASH) path;
               path = dropWhile (\<lambda>c. c \<noteq> SLASH) path;
               nm = (if length e \<ge> DIRSIZ then splice 0 (take DIRSIZ e) nm else splice 0 (e @ [0]) nm) in
        Some (dropWhile (\<lambda>c. c = SLASH) path, nm))"

lemma skipelem_shorter: "skipelem path nm = Some (path', nm') \<Longrightarrow> length path' < length path"
proof -
  assume s: "skipelem path nm = Some (path', nm')"
  let ?p = "dropWhile (\<lambda>c. c = SLASH) path"
  from s have p: "?p \<noteq> []" and path': "path' = dropWhile (\<lambda>c. c = SLASH) (dropWhile (\<lambda>c. c \<noteq> SLASH) ?p)"
    by (auto simp: skipelem_def Let_def split: if_splits)
  from p have "hd ?p \<noteq> SLASH" using hd_dropWhile by blast
  with p have "length (dropWhile (\<lambda>c. c \<noteq> SLASH) ?p) < length ?p"
    by (cases ?p) (auto simp: le_imp_less_Suc length_dropWhile_le)
  then show ?thesis unfolding path' using length_dropWhile_le le_less_trans by (metis (no_types, lifting) less_le_trans)
qed

function namex_loop :: "u8 list \<Rightarrow> bool \<Rightarrow> u8 list \<Rightarrow> nat \<Rightarrow> 'a kfs_scheme \<Rightarrow>
    (nat option \<times> u8 list \<times> 'a kfs_scheme) res" where
  "namex_loop path np nm ip s =
     (case skipelem path nm of
       None \<Rightarrow>
         if np then bindR (iput ip s) (\<lambda>s. Inr (None, nm, s))
         else Inr (Some ip, nm, s)
     | Some (path, nm) \<Rightarrow>
         bindR (ilock (Some ip) s) (\<lambda>s.
         if itype (icache s ! ip) \<noteq> T_DIR
         then bindR (iunlockput ip s) (\<lambda>s. Inr (None, nm, s))
         else if np \<and> path = []
         then bindR (iunlock (Some ip) s) (\<lambda>s. Inr (Some ip, nm, s))
         else bindR (dirlookup ip nm s) (\<lambda>(hit, s).
           case hit of
             None \<Rightarrow> bindR (iunlockput ip s) (\<lambda>s. Inr (None, nm, s))
           | Some (nxt, _) \<Rightarrow>
               bindR (iunlockput ip s) (\<lambda>s. namex_loop path np nm nxt s))))"
  by pat_completeness auto
termination
  by (relation "measure (\<lambda>(path, np, nm, ip, s). length path)") (auto dest: skipelem_shorter)

declare namex_loop.simps [simp del]

definition namex :: "u8 list \<Rightarrow> bool \<Rightarrow> u8 list \<Rightarrow> 'a kfs_scheme \<Rightarrow>
    (nat option \<times> u8 list \<times> 'a kfs_scheme) res" where
  "namex path np nm s =
     bindR (if path \<noteq> [] \<and> hd path = SLASH then iget ROOTDEV ROOTINO s
       else case curproc s of
         None \<Rightarrow> Inl Fault
       | Some p \<Rightarrow> (case cwd (ptable s ! p) of None \<Rightarrow> Inl Fault | Some i \<Rightarrow> idup i s)) (\<lambda>(ip, s).
     namex_loop path np nm ip s)"

definition namei :: "u8 list \<Rightarrow> 'a kfs_scheme \<Rightarrow> (nat option \<times> 'a kfs_scheme) res" where
  "namei path s =
     bindR (namex path False (replicate DIRSIZ 0) s) (\<lambda>(ip, nm, s). Inr (ip, s))"

definition nameiparent :: "u8 list \<Rightarrow> u8 list \<Rightarrow> 'a kfs_scheme \<Rightarrow>
    (nat option \<times> u8 list \<times> 'a kfs_scheme) res" where
  "nameiparent path nm s = namex path True nm s"

end
