(* ===== verification/Pipe.thy ===== *)
theory Pipe
  imports Fs_Dir
begin

text \<open>
  Pipes (\<^verbatim>\<open>src/pipe.c\<close>). A pipe lives in a page of its own and is named by the page's address. The
  transfer loops are cut at \<^verbatim>\<open>sleep\<close>: \<open>pipewrite_from\<close> and \<open>piperead_from\<close> run with the pipe's lock
  held, from the start of the call or from where the process woke up, until the call returns or
  has to sleep. The bytes between the two counters form a queue; the counters are 32-bit words
  that wrap around.
\<close>

section \<open>Ring buffers\<close>

text \<open>
  A buffer of \<open>cap\<close> bytes addressed by free-running 32-bit counters taken modulo \<open>cap\<close>: the pipe's
  buffer and the console's input buffer.
\<close>

locale ring_buffer =
  fixes cap :: nat
  assumes cap_pos: "0 < cap" and cap_dvd: "cap dvd 2 ^ 32" and cap_lt: "cap < 2 ^ 32"
begin

definition slot :: "u32 \<Rightarrow> nat" where
  "slot c = unat c mod cap"

definition contents :: "u8 list \<Rightarrow> u32 \<Rightarrow> u32 \<Rightarrow> u8 list" where
  "contents d r w = map (\<lambda>k. d ! slot (r + of_nat k)) [0..<unat (w - r)]"

lemma slot_less: "slot c < cap"
  using cap_pos by (simp add: slot_def)

lemma slot_add: "slot (r + of_nat k) = (unat r + k) mod cap"
proof -
  have "unat (r + of_nat k) = (unat r + k) mod 2 ^ 32"
    by (simp add: unat_word_ariths unat_of_nat take_bit_eq_mod mod_add_right_eq)
  then show ?thesis unfolding slot_def by (simp only: mod_mod_cancel [OF cap_dvd])
qed

lemma slot_inj:
  assumes "j < cap" "k < cap" "slot (r + of_nat j) = slot (r + of_nat k)"
  shows "j = k"
proof -
  have eq: "(unat r + j) mod cap = (unat r + k) mod cap" using assms(3) by (simp only: slot_add)
  show ?thesis
  proof (cases "j \<le> k")
    case True
    then have "cap dvd k - j" using eq mod_eq_dvd_iff_nat [of "unat r + j" "unat r + k" cap] by simp
    with assms(2) True show ?thesis using nat_dvd_not_less [of "k - j" cap] by fastforce
  next
    case False
    then have "cap dvd j - k" using eq mod_eq_dvd_iff_nat [of "unat r + k" "unat r + j" cap] by simp
    with assms(1) False show ?thesis using nat_dvd_not_less [of "j - k" cap] by fastforce
  qed
qed

lemma length_contents [simp]: "length (contents d r w) = unat (w - r)"
  by (simp add: contents_def)

lemma contents_empty [simp]: "contents d r r = []"
  by (simp add: contents_def)

lemma contents_push:
  assumes "length d = cap" "unat (w - r) < cap"
  shows "contents (d[slot w := x]) r (w + 1) = contents d r w @ [x]"
proof -
  let ?n = "unat (w - r)"
  have n: "unat (w + 1 - r) = Suc ?n"
  proof -
    have "unat ((w - r) + 1) = Suc (unat (w - r))"
      using assms(2) cap_lt unat_word_ariths(1) [of "w - r" 1] by simp
    moreover have "w + 1 - r = (w - r) + 1" by simp
    ultimately show ?thesis by (simp only:)
  qed
  have w: "w = r + of_nat ?n" by simp
  have "d[slot w := x] ! slot (r + of_nat k) = d ! slot (r + of_nat k)" if "k < ?n" for k
  proof -
    have "slot w \<noteq> slot (r + of_nat k)"
      using slot_inj [of ?n k r] that assms(2) by (subst w) auto
    then show ?thesis by simp
  qed
  moreover have "d[slot w := x] ! slot (r + of_nat ?n) = x" using slot_less [of w] assms(1) by simp
  ultimately show ?thesis by (simp add: contents_def n)
qed

lemma contents_pop:
  assumes "r \<noteq> w"
  shows "contents d r w = d ! slot r # contents d (r + 1) w"
proof -
  have n: "unat (w - r) = Suc (unat (w - (r + 1)))"
  proof -
    have "w - r \<noteq> 0" using assms by simp
    then have "unat (w - r - 1) = unat (w - r) - 1" "0 < unat (w - r)"
      by (simp_all add: unat_minus_one unat_gt_0)
    then show ?thesis by (simp add: diff_diff_eq)
  qed
  show ?thesis unfolding contents_def n map_upt_Suc by (simp add: ac_simps)
qed

end

section \<open>State and operations\<close>

definition PIPESIZE :: nat where "PIPESIZE = 512"

interpretation prb: ring_buffer PIPESIZE
  by unfold_locales (simp_all add: PIPESIZE_def)

record pipe =
  pdata :: "u8 list"
  nread :: u32
  nwrite :: u32
  readopen :: bool
  writeopen :: bool

record kpipe = kfs +
  pipes :: "u32 \<Rightarrow> pipe"

definition upd_pipe :: "u32 \<Rightarrow> (pipe \<Rightarrow> pipe) \<Rightarrow> 'a kpipe_scheme \<Rightarrow> 'a kpipe_scheme" where
  "upd_pipe p f s = s\<lparr>pipes := (pipes s)(p := f (pipes s p))\<rparr>"

text \<open>What a transfer ends with: a return value, or the need to sleep (and the index reached).\<close>

datatype 'a outcome = Return 'a | Block nat

definition proc_killed :: "'a kproc_scheme \<Rightarrow> bool res" where
  "proc_killed s = (case curproc s of None \<Rightarrow> Inl Fault | Some q \<Rightarrow> Inr (killed (ptable s ! q)))"

lemma proc_killed_pipes [simp]: "proc_killed (s\<lparr>pipes := x\<rparr>) = proc_killed s"
  "proc_killed (s\<lparr>lk := k\<rparr>) = proc_killed s"
  by (simp_all add: proc_killed_def split: option.split)

definition pipeclose :: "u32 \<Rightarrow> bool \<Rightarrow> 'a kpipe_scheme \<Rightarrow> 'a kpipe_scheme res" where
  "pipeclose p w s =
     bindR (acquire (LPipe p) s) (\<lambda>s.
     bindR (if w then wakeup (ChanPipeRead p) (upd_pipe p (\<lambda>x. x\<lparr>writeopen := False\<rparr>) s)
       else wakeup (ChanPipeWrite p) (upd_pipe p (\<lambda>x. x\<lparr>readopen := False\<rparr>) s)) (\<lambda>s.
     if \<not> readopen (pipes s p) \<and> \<not> writeopen (pipes s p)
     then bindR (release (LPipe p) s) (\<lambda>s. kfree p s)
     else release (LPipe p) s))"

text \<open>The loop of \<^verbatim>\<open>pipewrite\<close> from index \<open>i\<close>; the call's \<^verbatim>\<open>n\<close> is a signed count.\<close>

function pipewrite_from ::
  "u32 \<Rightarrow> u8 list \<Rightarrow> u32 \<Rightarrow> nat \<Rightarrow> 'a kpipe_scheme \<Rightarrow> (u32 outcome \<times> 'a kpipe_scheme) res" where
  "pipewrite_from p addr n i s =
     (if int i < sint n
      then if nwrite (pipes s p) = nread (pipes s p) + of_nat PIPESIZE
        then bindR (if \<not> readopen (pipes s p) then Inr True else proc_killed s) (\<lambda>stop.
          if stop then bindR (release (LPipe p) s) (\<lambda>s. Inr (Return (- 1), s))
          else bindR (wakeup (ChanPipeRead p) s) (\<lambda>s. Inr (Block i, s)))
        else if length addr \<le> i then Inl Fault
        else pipewrite_from p addr n (Suc i) (upd_pipe p (\<lambda>x. x\<lparr>
            pdata := (pdata x)[unat (nwrite x) mod PIPESIZE := addr ! i], nwrite := nwrite x + 1\<rparr>) s)
      else bindR (wakeup (ChanPipeRead p) s) (\<lambda>s.
        bindR (release (LPipe p) s) (\<lambda>s. Inr (Return n, s))))"
  by pat_completeness auto
termination
  by (relation "measure (\<lambda>(p, addr, n, i, s). nat (sint n) - i)") auto

declare pipewrite_from.simps [simp del]

definition pipewrite :: "u32 \<Rightarrow> u8 list \<Rightarrow> u32 \<Rightarrow> 'a kpipe_scheme \<Rightarrow> (u32 \<times> 'a kpipe_scheme) res" where
  "pipewrite p addr n s =
     bindR (acquire (LPipe p) s) (\<lambda>s.
     bindR (pipewrite_from p addr n 0 s) (\<lambda>(out, s).
     case out of Return r \<Rightarrow> Inr (r, s) | Block _ \<Rightarrow> Inl (Sleep (ChanPipeWrite p))))"

fun piperead_copy :: "u32 \<Rightarrow> nat \<Rightarrow> u8 list \<Rightarrow> 'a kpipe_scheme \<Rightarrow> u8 list \<times> 'a kpipe_scheme" where
  "piperead_copy p 0 acc s = (acc, s)"
| "piperead_copy p (Suc n) acc s =
     (if nread (pipes s p) = nwrite (pipes s p) then (acc, s)
      else piperead_copy p n (acc @ [pdata (pipes s p) ! (unat (nread (pipes s p)) mod PIPESIZE)])
        (upd_pipe p (\<lambda>x. x\<lparr>nread := nread x + 1\<rparr>) s))"

definition piperead_from ::
  "u32 \<Rightarrow> u32 \<Rightarrow> 'a kpipe_scheme \<Rightarrow> ((u32 \<times> u8 list) outcome \<times> 'a kpipe_scheme) res" where
  "piperead_from p n s =
     (if nread (pipes s p) = nwrite (pipes s p) \<and> writeopen (pipes s p)
      then bindR (proc_killed s) (\<lambda>k.
        if k then bindR (release (LPipe p) s) (\<lambda>s. Inr (Return (- 1, []), s))
        else Inr (Block 0, s))
      else let (dst, s) = piperead_copy p (nat (sint n)) [] s in
        bindR (wakeup (ChanPipeWrite p) s) (\<lambda>s.
        bindR (release (LPipe p) s) (\<lambda>s.
        Inr (Return (of_nat (length dst), dst), s))))"

definition piperead :: "u32 \<Rightarrow> u32 \<Rightarrow> 'a kpipe_scheme \<Rightarrow> (u32 \<times> u8 list \<times> 'a kpipe_scheme) res" where
  "piperead p n s =
     bindR (acquire (LPipe p) s) (\<lambda>s.
     bindR (piperead_from p n s) (\<lambda>(out, s).
     case out of Return (r, dst) \<Rightarrow> Inr (r, dst, s) | Block _ \<Rightarrow> Inl (Sleep (ChanPipeRead p))))"

section \<open>The queue in a pipe\<close>

definition pipe_ok :: "pipe \<Rightarrow> bool" where
  "pipe_ok x \<longleftrightarrow> length (pdata x) = PIPESIZE \<and> unat (nwrite x - nread x) \<le> PIPESIZE"

definition queue :: "pipe \<Rightarrow> u8 list" where
  "queue x = prb.contents (pdata x) (nread x) (nwrite x)"

lemma length_queue: "length (queue x) = unat (nwrite x - nread x)"
  by (simp add: queue_def)

lemma pipe_full_iff: "nwrite x = nread x + of_nat PIPESIZE \<longleftrightarrow> length (queue x) = PIPESIZE"
proof -
  have "nwrite x = nread x + of_nat PIPESIZE \<longleftrightarrow> nwrite x - nread x = of_nat PIPESIZE" by (auto simp: algebra_simps)
  also have "\<dots> \<longleftrightarrow> unat (nwrite x - nread x) = unat (of_nat PIPESIZE :: u32)" using unat_inj32 by metis
  finally show ?thesis by (simp add: length_queue PIPESIZE_def)
qed

lemma pipe_push:
  assumes "pipe_ok x" "length (queue x) \<noteq> PIPESIZE"
  shows "queue (x\<lparr>pdata := (pdata x)[unat (nwrite x) mod PIPESIZE := c], nwrite := nwrite x + 1\<rparr>) = queue x @ [c]"
    and "pipe_ok (x\<lparr>pdata := (pdata x)[unat (nwrite x) mod PIPESIZE := c], nwrite := nwrite x + 1\<rparr>)"
proof -
  have "unat (nwrite x - nread x) < PIPESIZE" using assms by (simp add: pipe_ok_def length_queue)
  with assms(1) show q: "queue (x\<lparr>pdata := (pdata x)[unat (nwrite x) mod PIPESIZE := c], nwrite := nwrite x + 1\<rparr>) = queue x @ [c]"
    using prb.contents_push [of "pdata x" "nwrite x" "nread x" c] by (simp add: queue_def prb.slot_def pipe_ok_def)
  show "pipe_ok (x\<lparr>pdata := (pdata x)[unat (nwrite x) mod PIPESIZE := c], nwrite := nwrite x + 1\<rparr>)"
    using arg_cong [OF q, of length] assms by (simp add: length_queue pipe_ok_def)
qed

lemma pipe_pop:
  assumes "pipe_ok x" "nread x \<noteq> nwrite x"
  shows "queue x = pdata x ! (unat (nread x) mod PIPESIZE) # queue (x\<lparr>nread := nread x + 1\<rparr>)"
    and "pipe_ok (x\<lparr>nread := nread x + 1\<rparr>)"
proof -
  show q: "queue x = pdata x ! (unat (nread x) mod PIPESIZE) # queue (x\<lparr>nread := nread x + 1\<rparr>)"
    using prb.contents_pop [OF assms(2), of "pdata x"] by (simp add: queue_def prb.slot_def)
  show "pipe_ok (x\<lparr>nread := nread x + 1\<rparr>)"
    using arg_cong [OF q, of length] assms by (simp add: length_queue pipe_ok_def)
qed

lemma queue_empty_iff: "queue x = [] \<longleftrightarrow> nread x = nwrite x"
proof -
  have "queue x = [] \<longleftrightarrow> unat (nwrite x - nread x) = 0" by (metis length_0_conv length_queue)
  then show ?thesis by (auto simp: unat_eq_0)
qed

section \<open>Transfers as queue operations\<close>

lemma hold_ready:
  assumes "lk s = hold (LPipe p) k" "calm k"
  shows "wakeup c s = Inr (wakeup1 c s)" "release (LPipe p) s = Inr (s\<lparr>lk := k\<rparr>)"
  using assms by (simp_all add: wakeup_run calm_release)

text \<open>How a segment of a write ends: the conditions under which it returns or has to sleep.\<close>

definition write_end ::
  "u32 \<Rightarrow> nat \<Rightarrow> bool \<Rightarrow> lockst \<Rightarrow> u32 \<Rightarrow> nat \<Rightarrow> u32 outcome \<Rightarrow> pipe \<Rightarrow> lockst \<Rightarrow> bool" where
  "write_end p i kd k n m out x k' \<longleftrightarrow>
     (case out of
        Return r \<Rightarrow> k' = k \<and> (r = n \<and> int (i + m) = max (int i) (sint n) \<or>
          r = - 1 \<and> int (i + m) < sint n \<and> length (queue x) = PIPESIZE \<and> (\<not> readopen x \<or> kd))
      | Block j \<Rightarrow> k' = hold (LPipe p) k \<and> j = i + m \<and> int j < sint n \<and>
          length (queue x) = PIPESIZE \<and> readopen x \<and> \<not> kd)"

lemma pipewrite_from_spec:
  assumes "lk s = hold (LPipe p) k" "calm k" "pipe_ok (pipes s p)" "sint n \<le> int (length addr)"
    "proc_killed s = Inr kd"
  shows "\<exists>m out s'. pipewrite_from p addr n i s = Inr (out, s') \<and> i + m \<le> max i (length addr) \<and>
    pipe_ok (pipes s' p) \<and> queue (pipes s' p) = queue (pipes s p) @ take m (drop i addr) \<and>
    write_end p i kd k n m out (pipes s' p) (lk s')"
  using assms
proof (induction p addr n i s rule: pipewrite_from.induct)
  case (1 p addr n i s)
  note ready = hold_ready [OF 1(2,3)]
  let ?x = "pipes s p"
  consider (fin) "\<not> int i < sint n" | (full) "int i < sint n" "length (queue ?x) = PIPESIZE"
    | (more) "int i < sint n" "length (queue ?x) \<noteq> PIPESIZE" by blast
  then show ?case
  proof cases
    case fin
    then have "pipewrite_from p addr n i s = Inr (Return n, (wakeup1 (ChanPipeRead p) s)\<lparr>lk := k\<rparr>)"
      using ready(1) hold_ready(2) [of "wakeup1 (ChanPipeRead p) s", OF _ 1(3)] 1(2)
      by (subst pipewrite_from.simps) simp
    with fin 1(4) show ?thesis by (intro exI [of _ 0]) (auto simp: write_end_def wakeup1_def)
  next
    case full
    show ?thesis
    proof (cases "readopen ?x \<and> \<not> kd")
      case True
      then have "pipewrite_from p addr n i s = Inr (Block i, wakeup1 (ChanPipeRead p) s)"
        using full ready 1(6) by (subst pipewrite_from.simps) (simp add: pipe_full_iff)
      with True full 1(2,4) show ?thesis by (intro exI [of _ 0]) (auto simp: write_end_def wakeup1_def)
    next
      case False
      then have "pipewrite_from p addr n i s = Inr (Return (- 1), s\<lparr>lk := k\<rparr>)"
        using full ready 1(6) by (subst pipewrite_from.simps) (auto simp: pipe_full_iff)
      with False full 1(4) show ?thesis by (intro exI [of _ 0]) (auto simp: write_end_def)
    qed
  next
    case more
    then have i: "i < length addr" using 1(5) by linarith
    let ?s = "upd_pipe p (\<lambda>x. x\<lparr>pdata := (pdata x)[unat (nwrite x) mod PIPESIZE := addr ! i],
        nwrite := nwrite x + 1\<rparr>) s"
    note push = pipe_push [OF 1(4) more(2), of "addr ! i"]
    have step: "pipewrite_from p addr n i s = pipewrite_from p addr n (Suc i) ?s"
      using more i by (subst pipewrite_from.simps) (simp add: pipe_full_iff)
    have "\<exists>m out s'. pipewrite_from p addr n (Suc i) ?s = Inr (out, s') \<and> Suc i + m \<le> max (Suc i) (length addr) \<and>
      pipe_ok (pipes s' p) \<and> queue (pipes s' p) = queue (pipes ?s p) @ take m (drop (Suc i) addr) \<and>
      write_end p (Suc i) kd k n m out (pipes s' p) (lk s')"
      using more i 1(2-6) push by (intro 1(1)) (auto simp: upd_pipe_def pipe_full_iff)
    then obtain m out s' where m: "pipewrite_from p addr n (Suc i) ?s = Inr (out, s')"
      "Suc i + m \<le> max (Suc i) (length addr)" "pipe_ok (pipes s' p)"
      "queue (pipes s' p) = queue (pipes ?s p) @ take m (drop (Suc i) addr)"
      "write_end p (Suc i) kd k n m out (pipes s' p) (lk s')" by blast
    have "queue (pipes s' p) = queue ?x @ take (Suc m) (drop i addr)"
      using m(4) push(1) i by (simp add: upd_pipe_def Cons_nth_drop_Suc [symmetric])
    moreover have "write_end p i kd k n (Suc m) out (pipes s' p) (lk s')"
      using m(5) more(1) by (auto simp: write_end_def split: outcome.splits)
    ultimately show ?thesis using m step i by (intro exI [of _ "Suc m"]) auto
  qed
qed

lemma piperead_copy_spec:
  assumes "pipe_ok (pipes s p)"
  shows "\<exists>x. piperead_copy p n acc s = (acc @ take n (queue (pipes s p)), s\<lparr>pipes := (pipes s)(p := x)\<rparr>) \<and>
    pipe_ok x \<and> queue x = drop n (queue (pipes s p)) \<and> readopen x = readopen (pipes s p) \<and>
    writeopen x = writeopen (pipes s p)"
  using assms
proof (induction n arbitrary: acc s)
  case 0
  then show ?case by (intro exI [of _ "pipes s p"]) simp
next
  case (Suc n)
  let ?x = "pipes s p"
  show ?case
  proof (cases "nread ?x = nwrite ?x")
    case True
    then show ?thesis using Suc.prems queue_empty_iff [of ?x] by (intro exI [of _ ?x]) simp
  next
    case False
    note pop = pipe_pop [OF Suc.prems False]
    let ?s = "upd_pipe p (\<lambda>x. x\<lparr>nread := nread x + 1\<rparr>) s"
    have "pipe_ok (pipes ?s p)" using pop(2) by (simp add: upd_pipe_def)
    from Suc.IH [OF this, of "acc @ [pdata ?x ! (unat (nread ?x) mod PIPESIZE)]"] obtain y where "piperead_copy p n (acc @ [pdata ?x ! (unat (nread ?x) mod PIPESIZE)]) ?s =
        ((acc @ [pdata ?x ! (unat (nread ?x) mod PIPESIZE)]) @ take n (queue (pipes ?s p)),
         ?s\<lparr>pipes := (pipes ?s)(p := y)\<rparr>)"
      "pipe_ok y" "queue y = drop n (queue (pipes ?s p))" "readopen y = readopen (pipes ?s p)"
      "writeopen y = writeopen (pipes ?s p)" by blast
    moreover have "?s\<lparr>pipes := (pipes ?s)(p := y)\<rparr> = s\<lparr>pipes := (pipes s)(p := y)\<rparr>"
      "pipes ?s p = ?x\<lparr>nread := nread ?x + 1\<rparr>"
      by (simp_all add: upd_pipe_def)
    ultimately show ?thesis using False pop(1) by (intro exI [of _ y]) (simp, simp only: fun_upd_def)
  qed
qed

text \<open>Without any assumption on the rest of the kernel: a segment that returns has only queued bytes.\<close>

lemma lock_pipes [simp]:
  "acquire l s = Inr s' \<Longrightarrow> pipes s' = pipes s" "release l s = Inr s' \<Longrightarrow> pipes s' = pipes s"
  by (auto simp: acquire_def release_def Let_def bindR_eq_Inr split: if_splits)

lemma wakeup_pipes: "wakeup c s = Inr s' \<Longrightarrow> pipes s' = pipes s"
  unfolding wakeup_def by (elim bindR_InrE) (drule lock_pipes, drule lock_pipes, simp add: wakeup1_def)

lemma sleep_enter_pipes: "sleep_enter c l s = Inr s' \<Longrightarrow> pipes s' = pipes s"
  unfolding sleep_enter_def sched_enter_def
  by (auto elim!: bindR_InrE simp: upd_proc_def dest!: lock_pipes split: option.splits if_splits)

lemma pipewrite_from_pushes:
  assumes "pipewrite_from p addr n i s = Inr (out, s')" "pipe_ok (pipes s p)"
  shows "\<exists>m. pipe_ok (pipes s' p) \<and> queue (pipes s' p) = queue (pipes s p) @ take m (drop i addr) \<and>
    (m = 0 \<or> i + m \<le> length addr) \<and> nread (pipes s' p) = nread (pipes s p)"
  using assms
proof (induction p addr n i s rule: pipewrite_from.induct)
  case (1 p addr n i s)
  show ?case
  proof (cases "int i < sint n \<and> length (queue (pipes s p)) \<noteq> PIPESIZE")
    case False
    then have "pipes s' = pipes s"
      using 1(2) by (subst (asm) pipewrite_from.simps)
        (auto simp: pipe_full_iff elim!: bindR_InrE dest!: lock_pipes wakeup_pipes split: if_splits)
    with 1(3) show ?thesis by (intro exI [of _ 0]) simp
  next
    case True
    note push = pipe_push [OF 1(3), of "addr ! i"]
    let ?s = "upd_pipe p (\<lambda>x. x\<lparr>pdata := (pdata x)[unat (nwrite x) mod PIPESIZE := addr ! i],
        nwrite := nwrite x + 1\<rparr>) s"
    from True 1(2) have i: "i < length addr" and step: "pipewrite_from p addr n (Suc i) ?s = Inr (out, s')"
      by (subst (asm) pipewrite_from.simps; simp add: pipe_full_iff split: if_splits)+
    obtain m where m: "pipe_ok (pipes s' p)" "m = 0 \<or> Suc i + m \<le> length addr"
      "queue (pipes s' p) = queue (pipes ?s p) @ take m (drop (Suc i) addr)"
      "nread (pipes s' p) = nread (pipes ?s p)"
      using 1(1) True i push step by (auto simp: upd_pipe_def pipe_full_iff)
    have "queue (pipes s' p) = queue (pipes s p) @ take (Suc m) (drop i addr)"
      using m(3) push(1) True i by (simp add: upd_pipe_def Cons_nth_drop_Suc [symmetric])
    with m i show ?thesis by (intro exI [of _ "Suc m"]) (auto simp: upd_pipe_def)
  qed
qed

lemma piperead_from_pops:
  assumes "piperead_from p n s = Inr (out, s')" "pipe_ok (pipes s p)"
  shows "pipe_ok (pipes s' p) \<and>
    queue (pipes s p) = (case out of Return (r, dst) \<Rightarrow> dst | Block _ \<Rightarrow> []) @ queue (pipes s' p)"
proof (cases "nread (pipes s p) = nwrite (pipes s p) \<and> writeopen (pipes s p)")
  case True
  then have "pipes s' = pipes s \<and> (out = Return (- 1, []) \<or> out = Block 0)"
    using assms(1) by (auto simp: piperead_from_def elim!: bindR_InrE dest!: lock_pipes split: if_splits)
  with assms(2) show ?thesis by auto
next
  case False
  obtain x where x: "piperead_copy p (nat (sint n)) [] s = (take (nat (sint n)) (queue (pipes s p)), s\<lparr>pipes := (pipes s)(p := x)\<rparr>)"
    "pipe_ok x" "queue x = drop (nat (sint n)) (queue (pipes s p))"
    using piperead_copy_spec [OF assms(2), of "nat (sint n)" "[]"] by auto
  with False assms(1) have "pipes s' = (pipes s)(p := x) \<and>
      out = Return (of_nat (length (take (nat (sint n)) (queue (pipes s p)))), take (nat (sint n)) (queue (pipes s p)))"
    by (auto simp: piperead_from_def elim!: bindR_InrE dest!: lock_pipes wakeup_pipes)
  with x show ?thesis by auto
qed

section \<open>Interleaved use of a pipe\<close>

text \<open>
  Any interleaving of writers, readers and the rest of the kernel. A segment takes the pipe's lock
  and runs until the call returns or the process is asleep. \<open>W\<close> collects the bytes the pipe accepted,
  \<open>R\<close> the bytes it delivered. The rest of the kernel may do anything but touch this pipe.
\<close>

inductive pipe_reach :: "u32 \<Rightarrow> 'a kpipe_scheme \<Rightarrow> u8 list \<Rightarrow> u8 list \<Rightarrow> bool" for p where
  pipe_new: "length (pdata (pipes s p)) = PIPESIZE \<Longrightarrow> nread (pipes s p) = nwrite (pipes s p) \<Longrightarrow>
    pipe_reach p s [] []"
| pipe_write: "pipe_reach p s W R \<Longrightarrow> acquire (LPipe p) s = Inr s1 \<Longrightarrow>
    pipewrite_from p addr n i s1 = Inr (out, s2) \<Longrightarrow>
    (case out of Return _ \<Rightarrow> s3 = s2 | Block _ \<Rightarrow> sleep_enter (ChanPipeWrite p) (LPipe p) s2 = Inr s3) \<Longrightarrow>
    pipe_reach p s3 (W @ take (unat (nwrite (pipes s2 p) - nwrite (pipes s p))) (drop i addr)) R"
| pipe_read: "pipe_reach p s W R \<Longrightarrow> acquire (LPipe p) s = Inr s1 \<Longrightarrow>
    piperead_from p n s1 = Inr (out, s2) \<Longrightarrow>
    (case out of Return _ \<Rightarrow> s3 = s2 | Block _ \<Rightarrow> sleep_enter (ChanPipeRead p) (LPipe p) s2 = Inr s3) \<Longrightarrow>
    pipe_reach p s3 W (R @ (case out of Return (r, dst) \<Rightarrow> dst | Block _ \<Rightarrow> []))"
| pipe_other: "pipe_reach p s W R \<Longrightarrow> pipes t p = pipes s p \<Longrightarrow> pipe_reach p t W R"

lemma pipe_reach_inv:
  assumes "pipe_reach p s W R"
  shows "pipe_ok (pipes s p) \<and> W = R @ queue (pipes s p)"
  using assms
proof induction
  case (pipe_new s)
  then show ?case using queue_empty_iff [of "pipes s p"] by (auto simp: pipe_ok_def)
next
  case (pipe_write s W R s1 addr n i out s2 s3)
  have s1: "pipes s1 = pipes s" using pipe_write(2) by simp
  have s3: "pipes s3 = pipes s2" using pipe_write(4) by (auto dest: sleep_enter_pipes split: outcome.splits)
  obtain m where m: "pipe_ok (pipes s2 p)" "queue (pipes s2 p) = queue (pipes s p) @ take m (drop i addr)"
    "m = 0 \<or> i + m \<le> length addr" "nread (pipes s2 p) = nread (pipes s p)"
    using pipewrite_from_pushes [OF pipe_write(3)] pipe_write.IH s1 by auto
  have "unat (nwrite (pipes s2 p) - nwrite (pipes s p)) = m"
  proof -
    have l: "length (take m (drop i addr)) = m" using m(3) by auto
    let ?a = "nwrite (pipes s2 p) - nread (pipes s p)" and ?b = "nwrite (pipes s p) - nread (pipes s p)"
    have ab: "unat ?a = unat ?b + m" using arg_cong [OF m(2), of length] m(4) l by (simp add: length_queue)
    then have "unat (?a - ?b) = unat ?a - unat ?b" by (intro unat_sub) (simp only: word_le_nat_alt)
    moreover have "?a - ?b = nwrite (pipes s2 p) - nwrite (pipes s p)" by simp
    ultimately show ?thesis using ab by (simp only: add_diff_cancel_left')
  qed
  with m pipe_write.IH s3 show ?case by simp
next
  case (pipe_read s W R s1 n out s2 s3)
  have "pipes s1 = pipes s" using pipe_read(2) by simp
  moreover have "pipes s3 = pipes s2"
    using pipe_read(4) by (auto dest: sleep_enter_pipes split: outcome.splits)
  ultimately show ?case using piperead_from_pops [OF pipe_read(3)] pipe_read.IH by auto
next
  case (pipe_other s W R t)
  then show ?case by simp
qed

section \<open>Properties\<close>

text \<open>
  C14. A pipe is a first-in first-out queue under every interleaving of its users, also when the 32-bit
  counters wrap around: the bytes accepted are the bytes delivered followed by the bytes in the ring buffer from
  position \<^verbatim>\<open>nread\<close> up to \<^verbatim>\<open>nwrite\<close>, in order. So nothing is lost, duplicated or reordered, and at most \<^verbatim>\<open>PIPESIZE\<close> bytes are in
  transit.
\<close>

theorem pipe_fifo:
  assumes "pipe_reach p s W R"
  shows "W = R @ map (\<lambda>k. pdata (pipes s p) ! (unat (nread (pipes s p) + of_nat k) mod PIPESIZE)) [0..<unat (nwrite (pipes s p) - nread (pipes s p))] \<and>
    length (pdata (pipes s p)) = PIPESIZE \<and> unat (nwrite (pipes s p) - nread (pipes s p)) \<le> PIPESIZE"
  using pipe_reach_inv [OF assms] by (simp add: pipe_ok_def queue_def prb.contents_def prb.slot_def)

text \<open>A kernel with one process running and empty pipes whose counters are about to wrap around.\<close>

definition zero_inode :: inode where
  "zero_inode = \<lparr>idev = 0, inum = 0, iref = 0, iflags = 0, itype = 0, imajor = 0, iminor = 0, inlink = 0,
     isize = 0, addrs = replicate 13 0\<rparr>"

definition pipe_demo :: kpipe where
  "pipe_demo = \<lparr>lk = lk zero_kbio, mem = mem zero_kbio, freelist = 0, tlb = tlb zero_kbio,
     ptable = ptable zero_kbio, nextpid = 1, curproc = Some 0, initproc = None, disk = disk zero_kbio,
     bufs = bufs zero_kbio, icache = replicate NINODE zero_inode,
     pipes = (\<lambda>_. \<lparr>pdata = replicate PIPESIZE 0, nread = - 1, nwrite = - 1, readopen = True, writeopen = True\<rparr>)\<rparr>"

lemma pipe_demo_calm: "calm (lk pipe_demo)"
  using zero_kbio_cold by (simp add: pipe_demo_def)

lemma pipe_demo_pipe: "length (pdata (pipes pipe_demo p)) = PIPESIZE"
  "nread (pipes pipe_demo p) = nwrite (pipes pipe_demo p)" "proc_killed pipe_demo = Inr False"
  by (simp_all add: pipe_demo_def proc_killed_def zero_kbio_def NPROC_def zero_proc_def)

theorem pipe_fifo_witness:
  "\<exists>s :: kpipe. pipe_reach 8 s [1, 2, 3] [] \<and>
     [1, 2, 3] = map (\<lambda>k. pdata (pipes s 8) ! (unat (nread (pipes s 8) + of_nat k) mod PIPESIZE)) [0..<unat (nwrite (pipes s 8) - nread (pipes s 8))]"
proof -
  let ?s = "pipe_demo\<lparr>lk := hold (LPipe 8) (lk pipe_demo)\<rparr>"
  have new: "pipe_reach 8 pipe_demo [] []" using pipe_demo_pipe by (intro pipe_new)
  then have ok: "pipe_ok (pipes pipe_demo 8)" "queue (pipes pipe_demo 8) = []" using pipe_reach_inv by auto
  have acq: "acquire (LPipe 8) pipe_demo = Inr ?s" using pipe_demo_calm by (simp add: acquire_run)
  obtain m out s' where r: "pipewrite_from 8 [1, 2, 3] 3 0 ?s = Inr (out, s')" "m \<le> Suc (Suc (Suc 0))"
    "queue (pipes s' 8) = take m [1, 2, 3]" "write_end 8 0 False (lk pipe_demo) 3 m out (pipes s' 8) (lk s')"
    using pipewrite_from_spec [of ?s 8 "lk pipe_demo" 3 "[1, 2, 3]" False 0] ok pipe_demo_calm
      pipe_demo_pipe(3) by auto
  have "length (queue (pipes s' 8)) \<noteq> PIPESIZE" using r(3) by (simp add: PIPESIZE_def)
  then have "out = Return 3" "m = 3" using r(4) by (auto simp: write_end_def split: outcome.splits)
  with pipe_write [OF new acq r(1), of s'] obtain W where W: "pipe_reach 8 s' W []" by auto
  then have "W = [1, 2, 3]" using pipe_reach_inv [OF W] r(3) \<open>m = 3\<close> by simp
  with W pipe_fifo [OF W] show ?thesis by (intro exI [of _ s']) simp
qed

text \<open>
  Writing to a pipe and reading from it: in an empty pipe with both ends open, \<^verbatim>\<open>pipewrite\<close> of at most
  \<^verbatim>\<open>PIPESIZE\<close> bytes returns their number without sleeping, and a \<^verbatim>\<open>piperead\<close> for as many bytes then
  returns exactly them and leaves the pipe empty.
\<close>

theorem pipe_write_read:
  assumes "calm (lk s)" "pipe_ok (pipes s p)" "queue (pipes s p) = []" "proc_killed s = Inr kd"
    and "sint n = int (length xs)" "0 < length xs" "length xs \<le> PIPESIZE"
  shows "\<exists>s1 s2. pipewrite p xs n s = Inr (n, s1) \<and> piperead p n s1 = Inr (of_nat (length xs), xs, s2) \<and>
    queue (pipes s2 p) = [] \<and> lk s2 = lk s"
proof -
  let ?s = "s\<lparr>lk := hold (LPipe p) (lk s)\<rparr>"
  have acq: "acquire (LPipe p) s = Inr ?s" using assms(1) by (simp add: acquire_run)
  have kd: "proc_killed ?s = Inr kd" using assms(4) by simp
  obtain m out s1 where r: "pipewrite_from p xs n 0 ?s = Inr (out, s1)" "m \<le> length xs"
    "pipe_ok (pipes s1 p)" "queue (pipes s1 p) = take m xs"
    "write_end p 0 kd (lk s) n m out (pipes s1 p) (lk s1)"
    using pipewrite_from_spec [of ?s p "lk s" n xs kd 0] assms kd by auto
  have fin: "out = Return n \<and> m = length xs \<and> lk s1 = lk s"
  proof (cases "length (queue (pipes s1 p)) = PIPESIZE")
    case True
    then have "m = length xs" using r(2,4) assms(7) by simp
    with r(5) assms(5) True show ?thesis by (auto simp: write_end_def split: outcome.splits)
  next
    case False
    with r(5) assms(5) show ?thesis by (auto simp: write_end_def split: outcome.splits)
  qed
  then have w: "pipewrite p xs n s = Inr (n, s1)" using acq r(1) by (simp add: pipewrite_def)
  let ?t = "s1\<lparr>lk := hold (LPipe p) (lk s)\<rparr>"
  have acq1: "acquire (LPipe p) s1 = Inr ?t" using fin assms(1) by (simp add: acquire_run)
  have ne: "nread (pipes s1 p) \<noteq> nwrite (pipes s1 p)"
    using queue_empty_iff [of "pipes s1 p"] r(4) fin assms(6) by auto
  obtain x where x: "piperead_copy p (nat (sint n)) [] ?t = (xs, ?t\<lparr>pipes := (pipes s1)(p := x)\<rparr>)" "queue x = []"
    using piperead_copy_spec [of ?t p "nat (sint n)" "[]"] r(3,4) fin assms(5) by auto
  have "piperead p n s1 = Inr (of_nat (length xs), xs, (wakeup1 (ChanPipeWrite p) (?t\<lparr>pipes := (pipes s1)(p := x)\<rparr>))\<lparr>lk := lk s\<rparr>)"
    using acq1 ne x hold_ready [of "?t\<lparr>pipes := (pipes s1)(p := x)\<rparr>" p "lk s"]
      hold_ready(2) [of "wakeup1 (ChanPipeWrite p) (?t\<lparr>pipes := (pipes s1)(p := x)\<rparr>)" p "lk s"] assms(1)
    by (simp add: piperead_def piperead_from_def)
  with w x show ?thesis by (auto simp: wakeup1_def)
qed

theorem pipe_write_read_witness:
  "\<exists>s1 s2. pipewrite 8 [7, 8, 9] 3 pipe_demo = Inr (3, s1) \<and> piperead 8 3 s1 = Inr (3, [7, 8, 9], s2)"
proof -
  have "pipe_reach 8 pipe_demo [] []" using pipe_demo_pipe by (intro pipe_new)
  then have "pipe_ok (pipes pipe_demo 8)" "queue (pipes pipe_demo 8) = []" using pipe_reach_inv by auto
  then show ?thesis
    using pipe_write_read [of pipe_demo 8 False 3 "[7, 8, 9]"] pipe_demo_calm pipe_demo_pipe
    by (auto simp: PIPESIZE_def)
qed

end
