(* ===== verification/File.thy ===== *)
theory File
  imports Pipe
begin

text \<open>
  Open files (\<^verbatim>\<open>src/file.c\<close>, \<^verbatim>\<open>src/file.h\<close>) and the creation of pipes (\<^verbatim>\<open>pipealloc\<close> of \<^verbatim>\<open>src/pipe.c\<close>). A file
  pointer is an index into the file table. Reads return the bytes for the caller's buffer; writes
  take the accessible bytes at the caller's address and the signed count of the call.
\<close>

section \<open>State and operations\<close>

definition NFILE :: nat where "NFILE = 100"

datatype ftype = FD_NONE | FD_PIPE | FD_INODE

record filestruct =
  ftyp :: ftype
  fref :: int
  readable :: bool
  writable :: bool
  fpipe :: u32
  fip :: "nat option"
  foff :: u32

record kfile = kpipe +
  ftable :: "filestruct list"

definition upd_file :: "nat \<Rightarrow> (filestruct \<Rightarrow> filestruct) \<Rightarrow> 'a kfile_scheme \<Rightarrow> 'a kfile_scheme" where
  "upd_file f g s = s\<lparr>ftable := (ftable s)[f := g (ftable s ! f)]\<rparr>"

definition fileinit :: "'a kfile_scheme \<Rightarrow> 'a kfile_scheme" where
  "fileinit s = initlock LFtable ''ftable'' s"

definition filealloc :: "'a kfile_scheme \<Rightarrow> (nat option \<times> 'a kfile_scheme) res" where
  "filealloc s =
     bindR (acquire LFtable s) (\<lambda>s.
     case find_index (\<lambda>f. fref f = 0) (ftable s) of
       Some f \<Rightarrow> bindR (release LFtable (upd_file f (\<lambda>x. x\<lparr>fref := 1\<rparr>) s)) (\<lambda>s. Inr (Some f, s))
     | None \<Rightarrow> bindR (release LFtable s) (\<lambda>s. Inr (None, s)))"

definition filedup :: "nat \<Rightarrow> 'a kfile_scheme \<Rightarrow> (nat \<times> 'a kfile_scheme) res" where
  "filedup f s =
     bindR (acquire LFtable s) (\<lambda>s.
     if fref (ftable s ! f) < 1 then Inl (Panic ''filedup'')
     else bindR (release LFtable (upd_file f (\<lambda>x. x\<lparr>fref := fref x + 1\<rparr>) s)) (\<lambda>s. Inr (f, s)))"

definition fileclose :: "nat \<Rightarrow> 'a kfile_scheme \<Rightarrow> 'a kfile_scheme res" where
  "fileclose f s =
     bindR (acquire LFtable s) (\<lambda>s.
     if fref (ftable s ! f) < 1 then Inl (Panic ''fileclose'')
     else let s = upd_file f (\<lambda>x. x\<lparr>fref := fref x - 1\<rparr>) s in
       if fref (ftable s ! f) > 0 then release LFtable s
       else let ff = ftable s ! f; s = upd_file f (\<lambda>x. x\<lparr>fref := 0, ftyp := FD_NONE\<rparr>) s in
         bindR (release LFtable s) (\<lambda>s.
         case ftyp ff of
           FD_PIPE \<Rightarrow> pipeclose (fpipe ff) (writable ff) s
         | FD_INODE \<Rightarrow> (case fip ff of None \<Rightarrow> Inl Fault | Some i \<Rightarrow> iput i s)
         | FD_NONE \<Rightarrow> Inr s))"

text \<open>\<^verbatim>\<open>filestat\<close>: the result and, on success, the contents of the \<^verbatim>\<open>struct stat\<close> it fills.\<close>

definition filestat :: "nat \<Rightarrow> 'a kfile_scheme \<Rightarrow> (u32 \<times> stat option \<times> 'a kfile_scheme) res" where
  "filestat f s =
     (let x = ftable s ! f in
      if ftyp x = FD_INODE
      then bindR (ilock (fip x) s) (\<lambda>s.
        let st = stati (the (fip x)) s in
        bindR (iunlock (fip x) s) (\<lambda>s. Inr (0, Some st, s)))
      else Inr (- 1, None, s))"

definition fileread ::
  "(nat \<Rightarrow> 'a kfile_scheme devsw) \<Rightarrow> nat \<Rightarrow> u32 \<Rightarrow> 'a kfile_scheme \<Rightarrow> (u32 \<times> u8 list \<times> 'a kfile_scheme) res" where
  "fileread dv f n s =
     (let x = ftable s ! f in
      if \<not> readable x then Inr (- 1, [], s)
      else case ftyp x of
        FD_PIPE \<Rightarrow> piperead (fpipe x) n s
      | FD_INODE \<Rightarrow>
          bindR (ilock (fip x) s) (\<lambda>s.
          bindR (readi (dv :: nat \<Rightarrow> 'a kfile_scheme devsw) (the (fip x)) (foff (ftable s ! f)) n s) (\<lambda>(r, dst, s).
          let s = (if sint r > 0 then upd_file f (\<lambda>x. x\<lparr>foff := foff x + r\<rparr>) s else s) in
          bindR (iunlock (fip x) s) (\<lambda>s. Inr (r, dst, s))))
      | FD_NONE \<Rightarrow> Inl (Panic ''fileread''))"

definition filewrite ::
  "(nat \<Rightarrow> 'a kfile_scheme devsw) \<Rightarrow> nat \<Rightarrow> u8 list \<Rightarrow> u32 \<Rightarrow> 'a kfile_scheme \<Rightarrow> (u32 \<times> 'a kfile_scheme) res" where
  "filewrite dv f src n s =
     (let x = ftable s ! f in
      if \<not> writable x then Inr (- 1, s)
      else case ftyp x of
        FD_PIPE \<Rightarrow> pipewrite (fpipe x) src n s
      | FD_INODE \<Rightarrow>
          bindR (ilock (fip x) s) (\<lambda>s.
          bindR (writei (dv :: nat \<Rightarrow> 'a kfile_scheme devsw) (the (fip x)) src (foff (ftable s ! f)) n s) (\<lambda>(r, s).
          let s = (if sint r > 0 then upd_file f (\<lambda>x. x\<lparr>foff := foff x + r\<rparr>) s else s) in
          bindR (iunlock (fip x) s) (\<lambda>s. Inr (r, s))))
      | FD_NONE \<Rightarrow> Inl (Panic ''filewrite''))"

text \<open>The cleanup at the label \<^verbatim>\<open>bad\<close> of \<^verbatim>\<open>pipealloc\<close>; no page was allocated when it is reached.\<close>

definition pipealloc_bad :: "nat option \<Rightarrow> nat option \<Rightarrow> 'a kfile_scheme \<Rightarrow> 'a kfile_scheme res" where
  "pipealloc_bad f0 f1 s =
     bindR (case f0 of Some f \<Rightarrow> fileclose f s | None \<Rightarrow> Inr s) (\<lambda>s.
     case f1 of Some f \<Rightarrow> fileclose f s | None \<Rightarrow> Inr s)"

definition pipealloc :: "'a kfile_scheme \<Rightarrow> ((nat \<times> nat) option \<times> 'a kfile_scheme) res" where
  "pipealloc s =
     bindR (filealloc s) (\<lambda>(f0, s).
     bindR (if f0 = None then Inr (None, s) else filealloc s) (\<lambda>(f1, s).
     case (f0, f1) of
       (Some f0', Some f1') \<Rightarrow>
         bindR (kalloc s) (\<lambda>(p, s).
         if p = 0 then bindR (pipealloc_bad f0 f1 s) (\<lambda>s. Inr (None, s))
         else let s = upd_pipe p (\<lambda>x. x\<lparr>readopen := True, writeopen := True, nwrite := 0, nread := 0\<rparr>) s;
                  s = initlock (LPipe p) ''pipe'' s;
                  s = upd_file f0' (\<lambda>x. x\<lparr>ftyp := FD_PIPE, readable := True, writable := False, fpipe := p\<rparr>) s;
                  s = upd_file f1' (\<lambda>x. x\<lparr>ftyp := FD_PIPE, readable := False, writable := True, fpipe := p\<rparr>) s in
           Inr (Some (f0', f1'), s))
     | _ \<Rightarrow> bindR (pipealloc_bad f0 f1 s) (\<lambda>s. Inr (None, s))))"

end
