(* ===== verification/Proc_Life.thy ===== *)
theory Proc_Life
  imports File
begin

text \<open>
  The life of a process (\<^verbatim>\<open>src/proc.c\<close>): the first process, \<^verbatim>\<open>growproc\<close>, \<^verbatim>\<open>fork\<close>, \<^verbatim>\<open>exit\<close> and \<^verbatim>\<open>wait\<close>. As in
  the process table, an operation that gives up the processor is cut at the switch: \<open>exit\<close> ends in
  the state in which the scheduler takes over, \<open>wait_scan\<close> is the part of \<^verbatim>\<open>wait\<close> between two sleeps.
  A null \<^verbatim>\<open>proc\<close> is a \<open>Fault\<close>.
\<close>

section \<open>Operations\<close>

text \<open>\<open>start\<close> and \<open>len\<close>: where the linker placed \<^verbatim>\<open>initcode\<close>. The bytes of its name.\<close>

definition initcode_name :: "u8 list" where
  "initcode_name = [0x69, 0x6e, 0x69, 0x74, 0x63, 0x6f, 0x64, 0x65]"

definition userinit :: "u32 \<Rightarrow> u32 \<Rightarrow> u32 \<Rightarrow> 'a kfs_scheme \<Rightarrow> 'a kfs_scheme res" where
  "userinit forkret start len s =
     bindR (allocproc forkret s) (\<lambda>(p, s).
     let s = s\<lparr>initproc := p\<rparr> in
     case p of
       None \<Rightarrow> Inl Fault
     | Some i \<Rightarrow>
         bindR (setupkvm s) (\<lambda>(pd, s).
         let s = upd_proc i (\<lambda>x. x\<lparr>pgdir := pd\<rparr>) s in
         if pd = 0 then Inl (Panic ''userinit: out of memory?'')
         else bindR (inituvm pd start len s) (\<lambda>s.
           let s = upd_proc i (\<lambda>x. x\<lparr>sz := PGSIZE, tf := (\<lambda>_. 0)(T_SGR := PGSIZE, T_SPC := 0),
                 pname := safestrcpy_array (pname x) (array initcode_name)\<rparr>) s in
           bindR (namei [SLASH] s) (\<lambda>(ip, s).
           Inr (upd_proc i (\<lambda>x. x\<lparr>cwd := ip, state := RUNNABLE\<rparr>) s)))))"

definition growproc :: "u32 \<Rightarrow> 'a kproc_scheme \<Rightarrow> (u32 \<times> 'a kproc_scheme) res" where
  "growproc n s =
     (case curproc s of
       None \<Rightarrow> Inl Fault
     | Some me \<Rightarrow>
         let pd = pgdir (ptable s ! me); size = sz (ptable s ! me) in
         bindR (if sint n > 0 then allocuvm pd size (size + n) s
           else if sint n < 0 then deallocuvm pd size (size + n) s
           else Inr (size, s)) (\<lambda>(size, s).
         if sint n \<noteq> 0 \<and> size = 0 then Inr (- 1, s)
         else let s = upd_proc me (\<lambda>x. x\<lparr>sz := size\<rparr>) s in
           bindR (switchuvm pd pd s) (\<lambda>s. Inr (0, s))))"

fun fork_files :: "nat \<Rightarrow> nat \<Rightarrow> nat \<Rightarrow> nat \<Rightarrow> 'a kfile_scheme \<Rightarrow> 'a kfile_scheme res" where
  "fork_files me c i 0 s = Inr s"
| "fork_files me c i (Suc n) s =
     (case ofile (ptable s ! me) ! i of
       None \<Rightarrow> fork_files me c (Suc i) n s
     | Some f \<Rightarrow>
         bindR (filedup f s) (\<lambda>(f, s).
         fork_files me c (Suc i) n (upd_proc c (\<lambda>x. x\<lparr>ofile := (ofile x)[i := Some f]\<rparr>) s)))"

definition fork :: "u32 \<Rightarrow> 'a kfile_scheme \<Rightarrow> (u32 \<times> 'a kfile_scheme) res" where
  "fork forkret s =
     bindR (allocproc forkret s) (\<lambda>(np, s).
     case np of
       None \<Rightarrow> Inr (- 1, s)
     | Some c \<Rightarrow>
         (case curproc s of
           None \<Rightarrow> Inl Fault
         | Some me \<Rightarrow>
             bindR (copyuvm (pgdir (ptable s ! me)) (sz (ptable s ! me)) s) (\<lambda>(pd, s).
             let s = upd_proc c (\<lambda>x. x\<lparr>pgdir := pd\<rparr>) s in
             if pd = 0
             then bindR (kfree (kstack (ptable s ! c)) s) (\<lambda>s.
               Inr (- 1, upd_proc c (\<lambda>x. x\<lparr>kstack := 0, state := UNUSED\<rparr>) s))
             else let p = ptable s ! me;
                      s = upd_proc c (\<lambda>x. x\<lparr>sz := sz p, parent := Some me, tf := tf p\<rparr>) s in
               bindR (fork_files me c 0 NOFILE s) (\<lambda>s.
               case cwd (ptable s ! me) of
                 None \<Rightarrow> Inl Fault
               | Some i \<Rightarrow>
                   bindR (idup i s) (\<lambda>(i, s).
                   let s = upd_proc c (\<lambda>x. x\<lparr>cwd := Some i\<rparr>) s; id = pid (ptable s ! c);
                       s = upd_proc c (\<lambda>x. x\<lparr>state := RUNNABLE\<rparr>) s;
                       s = upd_proc c (\<lambda>x. x\<lparr>pname :=
                         safestrcpy_array (pname x) (array (pname (ptable s ! me)))\<rparr>) s in
                   Inr (id, s))))))"

fun exit_files :: "nat \<Rightarrow> nat \<Rightarrow> nat \<Rightarrow> 'a kfile_scheme \<Rightarrow> 'a kfile_scheme res" where
  "exit_files me fd 0 s = Inr s"
| "exit_files me fd (Suc n) s =
     (case ofile (ptable s ! me) ! fd of
       None \<Rightarrow> exit_files me (Suc fd) n s
     | Some f \<Rightarrow>
         bindR (fileclose f s) (\<lambda>s.
         exit_files me (Suc fd) n (upd_proc me (\<lambda>x. x\<lparr>ofile := (ofile x)[fd := None]\<rparr>) s)))"

text \<open>A null channel wakes nobody.\<close>

definition wakeup_proc :: "nat option \<Rightarrow> 'a kproc_scheme \<Rightarrow> 'a kproc_scheme" where
  "wakeup_proc p s = (case p of None \<Rightarrow> s | Some i \<Rightarrow> wakeup1 (ChanProc i) s)"

fun exit_children :: "nat \<Rightarrow> nat \<Rightarrow> nat \<Rightarrow> 'a kproc_scheme \<Rightarrow> 'a kproc_scheme" where
  "exit_children me j 0 s = s"
| "exit_children me j (Suc n) s =
     (if parent (ptable s ! j) = Some me
      then let s = upd_proc j (\<lambda>x. x\<lparr>parent := initproc s\<rparr>) s in
        exit_children me (Suc j) n (if state (ptable s ! j) = ZOMBIE then wakeup_proc (initproc s) s else s)
      else exit_children me (Suc j) n s)"

definition exit :: "'a kfile_scheme \<Rightarrow> 'a kfile_scheme res" where
  "exit s =
     (if curproc s = initproc s then Inl (Panic ''init exiting'')
      else case curproc s of
        None \<Rightarrow> Inl Fault
      | Some me \<Rightarrow>
          bindR (exit_files me 0 NOFILE s) (\<lambda>s.
          case cwd (ptable s ! me) of
            None \<Rightarrow> Inl Fault
          | Some i \<Rightarrow>
              bindR (iput i s) (\<lambda>s.
              let s = upd_proc me (\<lambda>x. x\<lparr>cwd := None\<rparr>) s in
              bindR (acquire LPtable s) (\<lambda>s.
              let s = wakeup_proc (parent (ptable s ! me)) s;
                  s = exit_children me 0 NPROC s;
                  s = upd_proc me (\<lambda>x. x\<lparr>state := ZOMBIE\<rparr>) s in
              sched_enter s))))"

text \<open>The body of the endless loop of \<^verbatim>\<open>wait\<close>, with the lock of the table held.\<close>

definition wait_scan :: "nat \<Rightarrow> 'a kproc_scheme \<Rightarrow> (u32 outcome \<times> 'a kproc_scheme) res" where
  "wait_scan me s =
     (case find_index (\<lambda>p. parent p = Some me \<and> state p = ZOMBIE) (ptable s) of
       Some c \<Rightarrow>
         let id = pid (ptable s ! c) in
         bindR (kfree (kstack (ptable s ! c)) s) (\<lambda>s.
         let s = upd_proc c (\<lambda>x. x\<lparr>kstack := 0\<rparr>) s in
         bindR (freevm (pgdir (ptable s ! c)) s) (\<lambda>s.
         let s = upd_proc c (\<lambda>x. x\<lparr>state := UNUSED, pid := 0, parent := None,
               pname := (pname x)[0 := 0], killed := False\<rparr>) s in
         bindR (release LPtable s) (\<lambda>s. Inr (Return id, s))))
     | None \<Rightarrow>
         if \<not> (\<exists>p\<in>set (ptable s). parent p = Some me) \<or> killed (ptable s ! me)
         then bindR (release LPtable s) (\<lambda>s. Inr (Return (- 1), s))
         else Inr (Block 0, s))"

definition wait :: "'a kproc_scheme \<Rightarrow> (u32 \<times> 'a kproc_scheme) res" where
  "wait s =
     (case curproc s of
       None \<Rightarrow> Inl Fault
     | Some me \<Rightarrow>
         bindR (acquire LPtable s) (\<lambda>s.
         bindR (wait_scan me s) (\<lambda>(out, s).
         case out of Return r \<Rightarrow> Inr (r, s) | Block _ \<Rightarrow> Inl (Sleep (ChanProc me)))))"

end
