(* ===== verification/Console.thy ===== *)
theory Console
  imports Proc_Life
begin

text \<open>
  The console (\<^verbatim>\<open>src/console.c\<close>, the byte output of \<^verbatim>\<open>src/scif.c\<close> and \<^verbatim>\<open>procdump\<close> of \<^verbatim>\<open>src/proc.c\<close>): formatted
  output, the line-edited input buffer filled by the serial interrupt, and the console's entry in
  the device table. Output is the list of bytes sent to the serial line. The variable arguments of
  \<^verbatim>\<open>cprintf\<close> are a list; an argument that is missing or of the wrong kind is a \<open>Fault\<close>.
\<close>

section \<open>State\<close>

definition INPUT_BUF :: nat where "INPUT_BUF = 128"
definition BACKSPACE :: u32 where "BACKSPACE = 0x100"

record kcons = kfile +
  ibuf :: "u8 list"
  in_r :: u32
  in_w :: u32
  in_e :: u32
  cons_locking :: bool
  panicked :: bool
  serial :: "u8 list"

datatype arg = AInt u32 | AStr "u8 list option"

section \<open>Output\<close>

definition putc :: "u32 \<Rightarrow> 'a kcons_scheme \<Rightarrow> 'a kcons_scheme" where
  "putc c s = s\<lparr>serial := serial s @ (if c = 0x0a then [ucast c, 0x0d] else [ucast c])\<rparr>"

definition consputc :: "u32 \<Rightarrow> 'a kcons_scheme \<Rightarrow> 'a kcons_scheme res" where
  "consputc c s =
     (if panicked s then Inl Spin
      else if c = BACKSPACE then Inr (putc 0x08 (putc 0x20 (putc 0x08 s)))
      else Inr (putc c s))"

fun consputs :: "u8 list \<Rightarrow> 'a kcons_scheme \<Rightarrow> 'a kcons_scheme res" where
  "consputs [] s = Inr s"
| "consputs (c # cs) s = bindR (consputc (ucast c) s) (consputs cs)"

definition digits :: "u8 list" where
  "digits = [0x30, 0x31, 0x32, 0x33, 0x34, 0x35, 0x36, 0x37, 0x38, 0x39, 0x61, 0x62, 0x63, 0x64, 0x65, 0x66]"

text \<open>
  The digits of a number, least significant first, as the loop stores them in \<^verbatim>\<open>buf\<close>. A 32-bit number
  has at most 32 digits in a base from 2 on: the fuel of 32 rounds is enough.
\<close>

fun digit_loop :: "nat \<Rightarrow> u32 \<Rightarrow> u32 \<Rightarrow> u8 list" where
  "digit_loop 0 base x = []"
| "digit_loop (Suc n) base x =
     digits ! unat (x mod base) # (if x div base \<noteq> 0 then digit_loop n base (x div base) else [])"

definition int_digits :: "u32 \<Rightarrow> u32 \<Rightarrow> bool \<Rightarrow> u8 list" where
  "int_digits xx base sg =
     (let neg = sg \<and> sint xx < 0; x = if neg then - xx else xx in
      rev (digit_loop 32 base x @ (if neg then [0x2d] else [])))"

definition printint :: "u32 \<Rightarrow> u32 \<Rightarrow> bool \<Rightarrow> 'a kcons_scheme \<Rightarrow> 'a kcons_scheme res" where
  "printint xx base sg s = consputs (int_digits xx base sg) s"

text \<open>The characters \<^verbatim>\<open>%\<close>, \<^verbatim>\<open>d\<close>, \<^verbatim>\<open>x\<close>, \<^verbatim>\<open>p\<close>, \<^verbatim>\<open>s\<close> of a format.\<close>

fun cprintf_loop :: "u8 list \<Rightarrow> arg list \<Rightarrow> 'a kcons_scheme \<Rightarrow> 'a kcons_scheme res" where
  "cprintf_loop [] args s = Inr s"
| "cprintf_loop (c # fmt) args s =
     (if c \<noteq> 0x25 then bindR (consputc (ucast c) s) (cprintf_loop fmt args)
      else case fmt of
        [] \<Rightarrow> Inr s
      | d # fmt' \<Rightarrow>
          if d = 0x64 then
            (case args of AInt x # args' \<Rightarrow> bindR (printint x 10 True s) (cprintf_loop fmt' args') | _ \<Rightarrow> Inl Fault)
          else if d = 0x78 \<or> d = 0x70 then
            (case args of AInt x # args' \<Rightarrow> bindR (printint x 16 False s) (cprintf_loop fmt' args') | _ \<Rightarrow> Inl Fault)
          else if d = 0x73 then
            (case args of AStr t # args' \<Rightarrow>
               bindR (consputs (case t of None \<Rightarrow> [0x28, 0x6e, 0x75, 0x6c, 0x6c, 0x29] | Some t \<Rightarrow> t) s)
                 (cprintf_loop fmt' args')
             | _ \<Rightarrow> Inl Fault)
          else if d = 0x25 then bindR (consputc 0x25 s) (cprintf_loop fmt' args)
          else bindR (consputc 0x25 s) (\<lambda>s. bindR (consputc (ucast d) s) (cprintf_loop fmt' args)))"

definition cprintf :: "u8 list \<Rightarrow> arg list \<Rightarrow> 'a kcons_scheme \<Rightarrow> 'a kcons_scheme res" where
  "cprintf fmt args s =
     (let locking = cons_locking s in
      bindR (if locking then acquire LCons s else Inr s) (\<lambda>s.
      bindR (cprintf_loop fmt args s) (\<lambda>s.
      if locking then release LCons s else Inr s)))"

text \<open>The ASCII bytes of a string literal.\<close>

definition lit :: "string \<Rightarrow> u8 list" where
  "lit cs = map (\<lambda>c. of_nat (of_char c)) cs"

definition state_name :: "procstate \<Rightarrow> string" where
  "state_name st = (case st of UNUSED \<Rightarrow> ''unused'' | EMBRYO \<Rightarrow> ''embryo'' | SLEEPING \<Rightarrow> ''sleep ''
     | RUNNABLE \<Rightarrow> ''runble'' | RUNNING \<Rightarrow> ''run   '' | ZOMBIE \<Rightarrow> ''zombie'')"

text \<open>
  One line per process. The return addresses of a sleeping process are ten zeros
  (\<^const>\<open>getcallerpcs\<close>), so none is printed.
\<close>

fun procdump_loop :: "proc list \<Rightarrow> 'a kcons_scheme \<Rightarrow> 'a kcons_scheme res" where
  "procdump_loop [] s = Inr s"
| "procdump_loop (p # ps) s =
     (if state p = UNUSED then procdump_loop ps s
      else bindR (cprintf (lit ''%d %s %s'')
          [AInt (pid p), AStr (Some (lit (state_name (state p)))), AStr (Some (cstr (array (pname p)) 16))] s) (\<lambda>s.
        bindR (cprintf [0x0a] [] s) (procdump_loop ps)))"

definition procdump :: "'a kcons_scheme \<Rightarrow> 'a kcons_scheme res" where
  "procdump s = procdump_loop (ptable s) s"

section \<open>Input\<close>

text \<open>\<^verbatim>\<open>C('U')\<close>: erase back to the start of the line that is being edited.\<close>

function kill_line :: "'a kcons_scheme \<Rightarrow> 'a kcons_scheme res" where
  "kill_line s =
     (if in_e s \<noteq> in_w s \<and> ibuf s ! (unat (in_e s - 1) mod INPUT_BUF) \<noteq> 0x0a
      then bindR (consputc BACKSPACE (s\<lparr>in_e := in_e s - 1\<rparr>)) kill_line
      else Inr s)"
  by pat_completeness auto
termination
proof (relation "measure (\<lambda>s. unat (in_e s - in_w s))", goal_cases)
  case (2 s t)
  then have "in_e t = in_e s - 1" "in_w t = in_w s" by (auto simp: consputc_def putc_def split: if_splits)
  moreover from 2 have "in_e s - in_w s \<noteq> 0" by simp
  then have "unat (in_e s - in_w s - 1) < unat (in_e s - in_w s)"
    by (simp add: unat_minus_one unat_gt_0)
  moreover have "in_e s - 1 - in_w s = in_e s - in_w s - 1" by simp
  ultimately show ?case by (simp only: in_measure)
qed simp

declare kill_line.simps [simp del]

text \<open>One character of input. \<open>c\<close> is the result of \<^verbatim>\<open>getc\<close>, a byte.\<close>

definition consoleintr_char :: "u8 \<Rightarrow> 'a kcons_scheme \<Rightarrow> 'a kcons_scheme res" where
  "consoleintr_char c s =
     (if c = 0x10 then procdump s
      else if c = 0x15 then kill_line s
      else if c = 0x08 \<or> c = 0x7f then
        (if in_e s \<noteq> in_w s then consputc BACKSPACE (s\<lparr>in_e := in_e s - 1\<rparr>) else Inr s)
      else if c \<noteq> 0 \<and> in_e s - in_r s < of_nat INPUT_BUF then
        (let c = (if c = 0x0d then 0x0a else c);
             s = s\<lparr>ibuf := (ibuf s)[unat (in_e s) mod INPUT_BUF := c], in_e := in_e s + 1\<rparr> in
         bindR (consputc (ucast c) s) (\<lambda>s.
         if c = 0x0a \<or> c = 0x04 \<or> in_e s = in_r s + of_nat INPUT_BUF
         then wakeup ChanInput (s\<lparr>in_w := in_e s\<rparr>) else Inr s))
      else Inr s)"

fun consoleintr_loop :: "u8 list \<Rightarrow> 'a kcons_scheme \<Rightarrow> 'a kcons_scheme res" where
  "consoleintr_loop [] s = Inr s"
| "consoleintr_loop (c # cs) s = bindR (consoleintr_char c s) (consoleintr_loop cs)"

text \<open>The serial interrupt; \<open>cs\<close> are the bytes \<^verbatim>\<open>getc\<close> returns before it reports an empty queue.\<close>

definition consoleintr :: "u8 list \<Rightarrow> 'a kcons_scheme \<Rightarrow> 'a kcons_scheme res" where
  "consoleintr cs s =
     bindR (acquire LInput s) (\<lambda>s.
     bindR (consoleintr_loop cs s) (\<lambda>s.
     release LInput s))"

text \<open>
  The loop of \<^verbatim>\<open>consoleread\<close> with the input lock held; \<open>target\<close> is the count of the call, \<open>n\<close> what is
  left of it.
\<close>

function consoleread_loop :: "u32 \<Rightarrow> u32 \<Rightarrow> u8 list \<Rightarrow> 'a kcons_scheme \<Rightarrow>
    ((bool \<times> u32 \<times> u8 list) outcome \<times> 'a kcons_scheme) res" where
  "consoleread_loop target n dst s =
     (if sint n > 0
      then if in_r s = in_w s
        then bindR (proc_killed s) (\<lambda>k. if k then Inr (Return (True, n, dst), s) else Inr (Block (length dst), s))
        else let c = ibuf s ! (unat (in_r s) mod INPUT_BUF); s = s\<lparr>in_r := in_r s + 1\<rparr> in
          if c = 0x04 then Inr (Return (False, n, dst), if n < target then s\<lparr>in_r := in_r s - 1\<rparr> else s)
          else let dst = dst @ [c]; n = n - 1 in
            if c = 0x0a then Inr (Return (False, n, dst), s)
            else consoleread_loop target n dst s
      else Inr (Return (False, n, dst), s))"
  by pat_completeness auto
termination
proof (relation "measure (\<lambda>(target, n, dst, s). nat (sint n))", goal_cases)
  case (2 target n dst s c s' dst' m)
  then have "0 < sint n" "m = n - 1" by simp_all
  then have "sint m = sint n - 1"
    using sint_range_size [of n] by (simp add: sint_sbintrunc' word_size signed_take_bit_int_eq_self_iff sint_word_ariths)
  with \<open>0 < sint n\<close> show ?case by simp
qed simp

declare consoleread_loop.simps [simp del]

definition consoleread :: "nat \<Rightarrow> u32 \<Rightarrow> 'a kcons_scheme \<Rightarrow> (u32 \<times> u8 list \<times> 'a kcons_scheme) res" where
  "consoleread i n s =
     bindR (iunlock (Some i) s) (\<lambda>s.
     bindR (acquire LInput s) (\<lambda>s.
     bindR (consoleread_loop n n [] s) (\<lambda>(out, s).
     case out of
       Block _ \<Rightarrow> Inl (Sleep ChanInput)
     | Return (k, left, dst) \<Rightarrow>
         bindR (release LInput s) (\<lambda>s.
         bindR (ilock (Some i) s) (\<lambda>s.
         Inr (if k then - 1 else n - left, dst, s))))))"

definition consolewrite :: "nat \<Rightarrow> u8 list \<Rightarrow> u32 \<Rightarrow> 'a kcons_scheme \<Rightarrow> (u32 \<times> 'a kcons_scheme) res" where
  "consolewrite i src n s =
     bindR (iunlock (Some i) s) (\<lambda>s.
     bindR (acquire LCons s) (\<lambda>s.
     if int (length src) < sint n then Inl Fault
     else bindR (consputs (take (nat (sint n)) src) s) (\<lambda>s.
       bindR (release LCons s) (\<lambda>s.
       bindR (ilock (Some i) s) (\<lambda>s. Inr (n, s))))))"

text \<open>The device table after \<^verbatim>\<open>consoleinit\<close>.\<close>

definition CONSOLE :: nat where "CONSOLE = 1"

definition console_devsw :: "nat \<Rightarrow> 'a kcons_scheme devsw" where
  "console_devsw m = (if m = CONSOLE then \<lparr>dread = Some consoleread, dwrite = Some consolewrite\<rparr>
     else \<lparr>dread = None, dwrite = None\<rparr>)"

definition consoleinit :: "'a kcons_scheme \<Rightarrow> 'a kcons_scheme" where
  "consoleinit s = (initlock LInput ''input'' (initlock LCons ''console'' s))\<lparr>cons_locking := True\<rparr>"

end
