(* ===== verification/Syscall.thy ===== *)
theory Syscall
  imports Console
begin

text \<open>
  System call arguments (\<^verbatim>\<open>src/syscall.c\<close>), the system calls of \<^verbatim>\<open>src/sysproc.c\<close> and the clock interrupt
  (\<^verbatim>\<open>src/timer.c\<close>).

  The kernel reads and writes user memory at user addresses, through the entries that
  \<^verbatim>\<open>switchuvm\<close> loaded into the TLB: \<^verbatim>\<open>do_tlb_miss\<close> loads none, so that an access to a page without
  an entry never completes (\<open>Fault\<close>). Addresses from \<^verbatim>\<open>USERTOP\<close> on are not translated. The
  arguments of a call are in the second register bank.
\<close>

section \<open>State and user memory\<close>

record ksys = kcons +
  bank :: "nat \<Rightarrow> u32"
  pr_reg :: u32
  ticks :: u32

definition tlb_lookup :: "u32 \<Rightarrow> 'a kvm_scheme \<Rightarrow> u32 option" where
  "tlb_lookup va s =
     (if USERTOP \<le> va then Some va
      else case find (\<lambda>i. case tlb s i of None \<Rightarrow> False
          | Some (hi, lo) \<Rightarrow> hi = PTE_ADDR va \<and> lo AND PTEL_V \<noteq> 0) [0..<64] of
        None \<Rightarrow> None
      | Some i \<Rightarrow> map_option (\<lambda>(hi, lo). PTE_ADDR lo OR (va AND 0xFFF)) (tlb s i))"

definition uload :: "u32 \<Rightarrow> 'a kvm_scheme \<Rightarrow> u8 res" where
  "uload va s = (case tlb_lookup va s of None \<Rightarrow> Inl Fault | Some a \<Rightarrow> Inr (mem s a))"

definition uload32 :: "u32 \<Rightarrow> 'a kvm_scheme \<Rightarrow> u32 res" where
  "uload32 va s =
     bindR (uload va s) (\<lambda>a. bindR (uload (va + 1) s) (\<lambda>b.
     bindR (uload (va + 2) s) (\<lambda>c. bindR (uload (va + 3) s) (\<lambda>d. Inr (le32 a b c d)))))"

fun ustore :: "u32 \<Rightarrow> u8 list \<Rightarrow> 'a kvm_scheme \<Rightarrow> 'a kvm_scheme res" where
  "ustore va [] s = Inr s"
| "ustore va (x # xs) s =
     (case tlb_lookup va s of
       None \<Rightarrow> Inl Fault
     | Some a \<Rightarrow> ustore (va + 1) xs (s\<lparr>mem := (mem s)(a := x)\<rparr>))"

text \<open>The accessible bytes from \<open>va\<close> on, at most \<open>n\<close>.\<close>

fun ubytes :: "nat \<Rightarrow> u32 \<Rightarrow> 'a kvm_scheme \<Rightarrow> u8 list" where
  "ubytes 0 va s = []"
| "ubytes (Suc n) va s = (case uload va s of Inl _ \<Rightarrow> [] | Inr x \<Rightarrow> x # ubytes n (va + 1) s)"

section \<open>Arguments\<close>

definition myproc :: "'a kproc_scheme \<Rightarrow> proc res" where
  "myproc s = (case curproc s of None \<Rightarrow> Inl Fault | Some me \<Rightarrow> Inr (ptable s ! me))"

text \<open>\<^const>\<open>None\<close> is the result \<open>-1\<close>.\<close>

definition fetchint :: "proc \<Rightarrow> u32 \<Rightarrow> 'a kvm_scheme \<Rightarrow> u32 option res" where
  "fetchint p addr s =
     (if addr \<ge> sz p \<or> addr + 4 > sz p then Inr None
      else bindR (uload32 addr s) (\<lambda>x. Inr (Some x)))"

text \<open>The scan of \<^verbatim>\<open>fetchstr\<close>: the string before the first zero, if there is one below the process size.\<close>

fun fetchstr_loop :: "nat \<Rightarrow> u32 \<Rightarrow> u8 list \<Rightarrow> 'a kvm_scheme \<Rightarrow> u8 list option res" where
  "fetchstr_loop 0 a acc s = Inr None"
| "fetchstr_loop (Suc n) a acc s =
     bindR (uload a s) (\<lambda>c. if c = 0 then Inr (Some acc) else fetchstr_loop n (a + 1) (acc @ [c]) s)"

definition fetchstr :: "proc \<Rightarrow> u32 \<Rightarrow> 'a kvm_scheme \<Rightarrow> u8 list option res" where
  "fetchstr p addr s =
     (if addr \<ge> sz p then Inr None else fetchstr_loop (unat (sz p - addr)) addr [] s)"

definition argint :: "nat \<Rightarrow> 'a ksys_scheme \<Rightarrow> u32 option res" where
  "argint n s =
     (if n < 4 then Inr (Some (bank s (4 + n)))
      else bindR (myproc s) (\<lambda>p. fetchint p (tf p T_SGR + 4 * of_nat n) s))"

definition argptr :: "nat \<Rightarrow> u32 \<Rightarrow> 'a ksys_scheme \<Rightarrow> u32 option res" where
  "argptr n len s =
     bindR (argint n s) (\<lambda>i. case i of
       None \<Rightarrow> Inr None
     | Some i \<Rightarrow> bindR (myproc s) (\<lambda>p.
         Inr (if i \<ge> sz p \<or> i + len \<ge> sz p then None else Some i)))"

definition argstr :: "nat \<Rightarrow> 'a ksys_scheme \<Rightarrow> u8 list option res" where
  "argstr n s =
     bindR (argint n s) (\<lambda>a. case a of
       None \<Rightarrow> Inr None
     | Some a \<Rightarrow> bindR (myproc s) (\<lambda>p. fetchstr p a s))"

section \<open>Process system calls\<close>

definition sys_fork :: "u32 \<Rightarrow> 'a ksys_scheme \<Rightarrow> (u32 \<times> 'a ksys_scheme) res" where
  "sys_fork forkret s = fork forkret s"

text \<open>\<^verbatim>\<open>sys_exit\<close> does not return: the state is the one the scheduler takes over.\<close>

definition sys_exit :: "'a ksys_scheme \<Rightarrow> 'a ksys_scheme res" where
  "sys_exit s = exit s"

definition sys_wait :: "'a ksys_scheme \<Rightarrow> (u32 \<times> 'a ksys_scheme) res" where
  "sys_wait s = wait s"

definition sys_kill :: "'a ksys_scheme \<Rightarrow> (u32 \<times> 'a ksys_scheme) res" where
  "sys_kill s =
     bindR (argint 0 s) (\<lambda>a. case a of
       None \<Rightarrow> Inr (- 1, s)
     | Some target \<Rightarrow> bindR (kill target s) (\<lambda>(r, s). Inr (word_of_int r, s)))"

definition sys_getpid :: "'a ksys_scheme \<Rightarrow> (u32 \<times> 'a ksys_scheme) res" where
  "sys_getpid s = bindR (myproc s) (\<lambda>p. Inr (pid p, s))"

definition sys_sbrk :: "'a ksys_scheme \<Rightarrow> (u32 \<times> 'a ksys_scheme) res" where
  "sys_sbrk s =
     bindR (argint 0 s) (\<lambda>a. case a of
       None \<Rightarrow> Inr (- 1, s)
     | Some n \<Rightarrow> bindR (myproc s) (\<lambda>p.
         bindR (growproc n s) (\<lambda>(r, s).
         Inr (if sint r < 0 then - 1 else sz p, s))))"

text \<open>The loop of \<^verbatim>\<open>sys_sleep\<close> between two sleeps, with the lock of the clock held.\<close>

definition sys_sleep_check :: "u32 \<Rightarrow> u32 \<Rightarrow> 'a ksys_scheme \<Rightarrow> (u32 outcome \<times> 'a ksys_scheme) res" where
  "sys_sleep_check ticks0 n s =
     (if ticks s - ticks0 < n
      then bindR (proc_killed s) (\<lambda>k.
        if k then bindR (release LTicks s) (\<lambda>s. Inr (Return (- 1), s)) else Inr (Block 0, s))
      else bindR (release LTicks s) (\<lambda>s. Inr (Return 0, s)))"

definition sys_sleep :: "'a ksys_scheme \<Rightarrow> (u32 \<times> 'a ksys_scheme) res" where
  "sys_sleep s =
     bindR (argint 0 s) (\<lambda>a. case a of
       None \<Rightarrow> Inr (- 1, s)
     | Some n \<Rightarrow>
         bindR (acquire LTicks s) (\<lambda>s.
         bindR (sys_sleep_check (ticks s) n s) (\<lambda>(out, s).
         case out of Return r \<Rightarrow> Inr (r, s) | Block _ \<Rightarrow> Inl (Sleep ChanTicks))))"

definition sys_uptime :: "'a ksys_scheme \<Rightarrow> (u32 \<times> 'a ksys_scheme) res" where
  "sys_uptime s =
     bindR (acquire LTicks s) (\<lambda>s.
     let x = ticks s in
     bindR (release LTicks s) (\<lambda>s. Inr (x, s)))"

section \<open>The clock\<close>

definition clock_tick :: "'a ksys_scheme \<Rightarrow> 'a ksys_scheme res" where
  "clock_tick s =
     bindR (acquire LTicks s) (\<lambda>s.
     bindR (wakeup ChanTicks (s\<lparr>ticks := ticks s + 1\<rparr>)) (\<lambda>s.
     release LTicks s))"

text \<open>
  The clock interrupt up to the first point where another process may run: a killed process
  leaves, a running one gives up the processor.
\<close>

definition do_timer :: "'a ksys_scheme \<Rightarrow> 'a ksys_scheme res" where
  "do_timer s =
     bindR (clock_tick s) (\<lambda>s.
     case curproc s of
       None \<Rightarrow> Inr s
     | Some me \<Rightarrow>
         if killed (ptable s ! me) then exit s
         else if state (ptable s ! me) = RUNNING then yield_enter s
         else Inr s)"

definition do_timer_resume :: "nat \<Rightarrow> 'a ksys_scheme \<Rightarrow> 'a ksys_scheme res" where
  "do_timer_resume me s =
     bindR (yield_resume me s) (\<lambda>s. if killed (ptable s ! me) then exit s else Inr s)"

end
