(* ===== verification/Sysfile.thy ===== *)
theory Sysfile
  imports Syscall
begin

text \<open>
  The file system calls (\<^verbatim>\<open>src/sysfile.c\<close>) but \<^verbatim>\<open>exec\<close>. Every call fetches its arguments first and
  returns \<open>-1\<close> when one is bad. The device table is an argument, as in the inode layer.
\<close>

section \<open>Descriptors\<close>

definition O_WRONLY :: u32 where "O_WRONLY = 0x001"
definition O_RDWR :: u32 where "O_RDWR = 0x002"
definition O_CREATE :: u32 where "O_CREATE = 0x200"

definition argfd :: "nat \<Rightarrow> 'a ksys_scheme \<Rightarrow> (nat \<times> nat) option res" where
  "argfd n s =
     bindR (argint n s) (\<lambda>a. case a of
       None \<Rightarrow> Inr None
     | Some fd \<Rightarrow>
         if sint fd < 0 \<or> sint fd \<ge> int NOFILE then Inr None
         else bindR (myproc s) (\<lambda>p.
           Inr (map_option (\<lambda>f. (unat fd, f)) (ofile p ! unat fd))))"

definition fdalloc :: "nat \<Rightarrow> 'a kproc_scheme \<Rightarrow> (nat option \<times> 'a kproc_scheme) res" where
  "fdalloc f s =
     (case curproc s of
       None \<Rightarrow> Inl Fault
     | Some me \<Rightarrow>
         (case find_index (\<lambda>x. x = None) (take NOFILE (ofile (ptable s ! me))) of
           Some fd \<Rightarrow> Inr (Some fd, upd_proc me (\<lambda>p. p\<lparr>ofile := (ofile p)[fd := Some f]\<rparr>) s)
         | None \<Rightarrow> Inr (None, s)))"

definition set_ofile :: "nat \<Rightarrow> nat option \<Rightarrow> 'a kproc_scheme \<Rightarrow> 'a kproc_scheme res" where
  "set_ofile fd x s =
     (case curproc s of
       None \<Rightarrow> Inl Fault
     | Some me \<Rightarrow> Inr (upd_proc me (\<lambda>p. p\<lparr>ofile := (ofile p)[fd := x]\<rparr>) s))"

definition sys_dup :: "'a ksys_scheme \<Rightarrow> (u32 \<times> 'a ksys_scheme) res" where
  "sys_dup s =
     bindR (argfd 0 s) (\<lambda>a. case a of
       None \<Rightarrow> Inr (- 1, s)
     | Some (_, f) \<Rightarrow>
         bindR (fdalloc f s) (\<lambda>(fd, s). case fd of
           None \<Rightarrow> Inr (- 1, s)
         | Some fd \<Rightarrow> bindR (filedup f s) (\<lambda>(_, s). Inr (of_nat fd, s))))"

definition sys_read :: "(nat \<Rightarrow> 'a ksys_scheme devsw) \<Rightarrow> 'a ksys_scheme \<Rightarrow> (u32 \<times> 'a ksys_scheme) res" where
  "sys_read dv s =
     bindR (argfd 0 s) (\<lambda>a. case a of None \<Rightarrow> Inr (- 1, s) | Some (_, f) \<Rightarrow>
     bindR (argint 2 s) (\<lambda>n. case n of None \<Rightarrow> Inr (- 1, s) | Some n \<Rightarrow>
     bindR (argptr 1 n s) (\<lambda>p. case p of None \<Rightarrow> Inr (- 1, s) | Some p \<Rightarrow>
     bindR (fileread dv f n s) (\<lambda>(r, dst, s).
     bindR (ustore p dst s) (\<lambda>s. Inr (r, s))))))"

definition sys_write :: "(nat \<Rightarrow> 'a ksys_scheme devsw) \<Rightarrow> 'a ksys_scheme \<Rightarrow> (u32 \<times> 'a ksys_scheme) res" where
  "sys_write dv s =
     bindR (argfd 0 s) (\<lambda>a. case a of None \<Rightarrow> Inr (- 1, s) | Some (_, f) \<Rightarrow>
     bindR (argint 2 s) (\<lambda>n. case n of None \<Rightarrow> Inr (- 1, s) | Some n \<Rightarrow>
     bindR (argptr 1 n s) (\<lambda>p. case p of None \<Rightarrow> Inr (- 1, s) | Some p \<Rightarrow>
     filewrite dv f (ubytes (unat n) p s) n s)))"

definition sys_close :: "'a ksys_scheme \<Rightarrow> (u32 \<times> 'a ksys_scheme) res" where
  "sys_close s =
     bindR (argfd 0 s) (\<lambda>a. case a of None \<Rightarrow> Inr (- 1, s) | Some (fd, f) \<Rightarrow>
     bindR (set_ofile fd None s) (\<lambda>s.
     bindR (fileclose f s) (\<lambda>s. Inr (0, s))))"

text \<open>\<^verbatim>\<open>struct stat\<close> as it lies in memory: 20 bytes, the fields at offsets 0, 4, 8, 12 and 16.\<close>

definition stat_bytes :: "stat \<Rightarrow> u8 list \<Rightarrow> u8 list" where
  "stat_bytes st d =
     put32 16 (st_size st) (put16 12 (st_nlink st) (put32 8 (st_ino st) (put32 4 (st_dev st) (put16 0 (st_type st) d))))"

definition sys_fstat :: "'a ksys_scheme \<Rightarrow> (u32 \<times> 'a ksys_scheme) res" where
  "sys_fstat s =
     bindR (argfd 0 s) (\<lambda>a. case a of None \<Rightarrow> Inr (- 1, s) | Some (_, f) \<Rightarrow>
     bindR (argptr 1 20 s) (\<lambda>p. case p of None \<Rightarrow> Inr (- 1, s) | Some p \<Rightarrow>
     bindR (filestat f s) (\<lambda>(r, st, s). case st of
       None \<Rightarrow> Inr (r, s)
     | Some st \<Rightarrow>
         let old = ubytes 20 p s in
         if length old < 20 then Inl Fault
         else bindR (ustore p (stat_bytes st old) s) (\<lambda>s. Inr (r, s)))))"

section \<open>Links\<close>

definition link_bad :: "nat \<Rightarrow> 'a ksys_scheme \<Rightarrow> (u32 \<times> 'a ksys_scheme) res" where
  "link_bad ip s =
     bindR (ilock (Some ip) s) (\<lambda>s.
     bindR (iupdate ip (upd_inode ip (\<lambda>x. x\<lparr>inlink := inlink x - 1\<rparr>) s)) (\<lambda>s.
     bindR (iunlockput ip s) (\<lambda>s. Inr (- 1, s))))"

definition sys_link :: "(nat \<Rightarrow> 'a ksys_scheme devsw) \<Rightarrow> 'a ksys_scheme \<Rightarrow> (u32 \<times> 'a ksys_scheme) res" where
  "sys_link dv s =
     bindR (argstr 0 s) (\<lambda>old. case old of None \<Rightarrow> Inr (- 1, s) | Some old \<Rightarrow>
     bindR (argstr 1 s) (\<lambda>new. case new of None \<Rightarrow> Inr (- 1, s) | Some new \<Rightarrow>
     bindR (namei old s) (\<lambda>(ip, s). case ip of None \<Rightarrow> Inr (- 1, s) | Some ip \<Rightarrow>
     bindR (ilock (Some ip) s) (\<lambda>s.
     if itype (icache s ! ip) = T_DIR then bindR (iunlockput ip s) (\<lambda>s. Inr (- 1, s))
     else bindR (iupdate ip (upd_inode ip (\<lambda>x. x\<lparr>inlink := inlink x + 1\<rparr>) s)) (\<lambda>s.
       bindR (iunlock (Some ip) s) (\<lambda>s.
       bindR (nameiparent new (replicate DIRSIZ 0) s) (\<lambda>(dp, nm, s). case dp of
         None \<Rightarrow> link_bad ip s
       | Some dp \<Rightarrow>
           bindR (ilock (Some dp) s) (\<lambda>s.
           bindR (if idev (icache s ! dp) \<noteq> idev (icache s ! ip) then Inr (- 1, s)
             else dirlink dv dp nm (inum (icache s ! ip)) s) (\<lambda>(r, s).
           if sint r < 0 then bindR (iunlockput dp s) (\<lambda>s. link_bad ip s)
           else bindR (iunlockput dp s) (\<lambda>s.
             bindR (iput ip s) (\<lambda>s. Inr (0, s)))))))))))) "

text \<open>The scan of a directory behind its first two entries; the offset takes \<open>2^28\<close> values.\<close>

fun isdirempty_loop :: "nat \<Rightarrow> (nat \<Rightarrow> 'a kfs_scheme devsw) \<Rightarrow> nat \<Rightarrow> u32 \<Rightarrow> 'a kfs_scheme \<Rightarrow>
    (bool \<times> 'a kfs_scheme) res" where
  "isdirempty_loop 0 dv i off s = Inl Spin"
| "isdirempty_loop (Suc n) dv i off s =
     (if off < isize (icache s ! i)
      then bindR (readi dv i off 16 s) (\<lambda>(r, de, s).
        if r \<noteq> 16 then Inl (Panic ''isdirempty: readi'')
        else if de_inum de 0 \<noteq> 0 then Inr (False, s)
        else isdirempty_loop n dv i (off + 16) s)
      else Inr (True, s))"

declare isdirempty_loop.simps [simp del]

definition isdirempty :: "(nat \<Rightarrow> 'a kfs_scheme devsw) \<Rightarrow> nat \<Rightarrow> 'a kfs_scheme \<Rightarrow> (bool \<times> 'a kfs_scheme) res" where
  "isdirempty dv i s = isdirempty_loop (2 ^ 28) dv i 32 s"

definition DOT :: "u8 list" where "DOT = [0x2e]"
definition DOTDOT :: "u8 list" where "DOTDOT = [0x2e, 0x2e]"

definition sys_unlink :: "(nat \<Rightarrow> 'a ksys_scheme devsw) \<Rightarrow> 'a ksys_scheme \<Rightarrow> (u32 \<times> 'a ksys_scheme) res" where
  "sys_unlink dv s =
     bindR (argstr 0 s) (\<lambda>path. case path of None \<Rightarrow> Inr (- 1, s) | Some path \<Rightarrow>
     bindR (nameiparent path (replicate DIRSIZ 0) s) (\<lambda>(dp, nm, s). case dp of None \<Rightarrow> Inr (- 1, s) | Some dp \<Rightarrow>
     bindR (ilock (Some dp) s) (\<lambda>s.
     if namecmp nm DOT = 0 \<or> namecmp nm DOTDOT = 0 then bindR (iunlockput dp s) (\<lambda>s. Inr (- 1, s))
     else bindR (dirlookup dp nm s) (\<lambda>(hit, s). case hit of
       None \<Rightarrow> bindR (iunlockput dp s) (\<lambda>s. Inr (- 1, s))
     | Some (ip, off) \<Rightarrow>
         bindR (ilock (Some ip) s) (\<lambda>s.
         if sint (inlink (icache s ! ip)) < 1 then Inl (Panic ''unlink: nlink < 1'')
         else bindR (if itype (icache s ! ip) = T_DIR then isdirempty dv ip s else Inr (True, s)) (\<lambda>(empty, s).
           if \<not> empty
           then bindR (iunlockput ip s) (\<lambda>s. bindR (iunlockput dp s) (\<lambda>s. Inr (- 1, s)))
           else bindR (writei dv dp (replicate 16 0) off 16 s) (\<lambda>(r, s).
             if r \<noteq> 16 then Inl (Panic ''unlink: writei'')
             else bindR (if itype (icache s ! ip) = T_DIR
                 then iupdate dp (upd_inode dp (\<lambda>x. x\<lparr>inlink := inlink x - 1\<rparr>) s) else Inr s) (\<lambda>s.
               bindR (iunlockput dp s) (\<lambda>s.
               bindR (iupdate ip (upd_inode ip (\<lambda>x. x\<lparr>inlink := inlink x - 1\<rparr>) s)) (\<lambda>s.
               bindR (iunlockput ip s) (\<lambda>s. Inr (0, s)))))))))))) "

section \<open>Creating and opening\<close>

definition create :: "(nat \<Rightarrow> 'a kfs_scheme devsw) \<Rightarrow> u8 list \<Rightarrow> u16 \<Rightarrow> u16 \<Rightarrow> u16 \<Rightarrow> 'a kfs_scheme \<Rightarrow>
    (nat option \<times> 'a kfs_scheme) res" where
  "create dv path type maj mnr s =
     bindR (nameiparent path (replicate DIRSIZ 0) s) (\<lambda>(dp, nm, s). case dp of None \<Rightarrow> Inr (None, s) | Some dp \<Rightarrow>
     bindR (ilock (Some dp) s) (\<lambda>s.
     bindR (dirlookup dp nm s) (\<lambda>(hit, s). case hit of
       Some (ip, _) \<Rightarrow>
         bindR (iunlockput dp s) (\<lambda>s.
         bindR (ilock (Some ip) s) (\<lambda>s.
         if type = T_FILE \<and> itype (icache s ! ip) = T_FILE then Inr (Some ip, s)
         else bindR (iunlockput ip s) (\<lambda>s. Inr (None, s))))
     | None \<Rightarrow>
         bindR (ialloc (idev (icache s ! dp)) type s) (\<lambda>(ip, s).
         bindR (ilock (Some ip) s) (\<lambda>s.
         bindR (iupdate ip (upd_inode ip (\<lambda>x. x\<lparr>imajor := maj, iminor := mnr, inlink := 1\<rparr>) s)) (\<lambda>s.
         bindR (if type = T_DIR
           then bindR (iupdate dp (upd_inode dp (\<lambda>x. x\<lparr>inlink := inlink x + 1\<rparr>) s)) (\<lambda>s.
             bindR (dirlink dv ip DOT (inum (icache s ! ip)) s) (\<lambda>(r, s).
             bindR (if sint r < 0 then Inr (r, s) else dirlink dv ip DOTDOT (inum (icache s ! dp)) s) (\<lambda>(r, s).
             if sint r < 0 then Inl (Panic ''create dots'') else Inr s)))
           else Inr s) (\<lambda>s.
         bindR (dirlink dv dp nm (inum (icache s ! ip)) s) (\<lambda>(r, s).
         if sint r < 0 then Inl (Panic ''create: dirlink'')
         else bindR (iunlockput dp s) (\<lambda>s. Inr (Some ip, s))))))))))"

definition open_fail :: "nat option \<Rightarrow> nat \<Rightarrow> 'a ksys_scheme \<Rightarrow> (u32 \<times> 'a ksys_scheme) res" where
  "open_fail f ip s =
     bindR (case f of None \<Rightarrow> Inr s | Some f \<Rightarrow> fileclose f s) (\<lambda>s.
     bindR (iunlockput ip s) (\<lambda>s. Inr (- 1, s)))"

text \<open>The second half of \<^verbatim>\<open>sys_open\<close>, with the inode \<open>ip\<close> locked.\<close>

definition open_file :: "u32 \<Rightarrow> nat \<Rightarrow> 'a ksys_scheme \<Rightarrow> (u32 \<times> 'a ksys_scheme) res" where
  "open_file omode ip s =
     bindR (filealloc s) (\<lambda>(f, s). case f of
       None \<Rightarrow> open_fail None ip s
     | Some f \<Rightarrow>
         bindR (fdalloc f s) (\<lambda>(fd, s). case fd of
           None \<Rightarrow> open_fail (Some f) ip s
         | Some fd \<Rightarrow>
             bindR (iunlock (Some ip) s) (\<lambda>s.
             Inr (of_nat fd, upd_file f (\<lambda>x. x\<lparr>ftyp := FD_INODE, fip := Some ip, foff := 0,
               readable := (omode AND O_WRONLY = 0),
               writable := (omode AND O_WRONLY \<noteq> 0 \<or> omode AND O_RDWR \<noteq> 0)\<rparr>) s))))"

definition sys_open :: "(nat \<Rightarrow> 'a ksys_scheme devsw) \<Rightarrow> 'a ksys_scheme \<Rightarrow> (u32 \<times> 'a ksys_scheme) res" where
  "sys_open dv s =
     bindR (argstr 0 s) (\<lambda>path. case path of None \<Rightarrow> Inr (- 1, s) | Some path \<Rightarrow>
     bindR (argint 1 s) (\<lambda>omode. case omode of None \<Rightarrow> Inr (- 1, s) | Some omode \<Rightarrow>
     if omode AND O_CREATE \<noteq> 0
     then bindR (create dv path T_FILE 0 0 s) (\<lambda>(ip, s). case ip of
       None \<Rightarrow> Inr (- 1, s) | Some ip \<Rightarrow> open_file omode ip s)
     else bindR (namei path s) (\<lambda>(ip, s). case ip of
       None \<Rightarrow> Inr (- 1, s)
     | Some ip \<Rightarrow>
         bindR (ilock (Some ip) s) (\<lambda>s.
         if itype (icache s ! ip) = T_DIR \<and> omode \<noteq> 0
         then bindR (iunlockput ip s) (\<lambda>s. Inr (- 1, s))
         else open_file omode ip s))))"

definition sys_mkdir :: "(nat \<Rightarrow> 'a ksys_scheme devsw) \<Rightarrow> 'a ksys_scheme \<Rightarrow> (u32 \<times> 'a ksys_scheme) res" where
  "sys_mkdir dv s =
     bindR (argstr 0 s) (\<lambda>path. case path of None \<Rightarrow> Inr (- 1, s) | Some path \<Rightarrow>
     bindR (create dv path T_DIR 0 0 s) (\<lambda>(ip, s). case ip of None \<Rightarrow> Inr (- 1, s) | Some ip \<Rightarrow>
     bindR (iunlockput ip s) (\<lambda>s. Inr (0, s))))"

definition sys_mknod :: "(nat \<Rightarrow> 'a ksys_scheme devsw) \<Rightarrow> 'a ksys_scheme \<Rightarrow> (u32 \<times> 'a ksys_scheme) res" where
  "sys_mknod dv s =
     bindR (argstr 0 s) (\<lambda>path. case path of None \<Rightarrow> Inr (- 1, s) | Some path \<Rightarrow>
     bindR (argint 1 s) (\<lambda>maj. case maj of None \<Rightarrow> Inr (- 1, s) | Some maj \<Rightarrow>
     bindR (argint 2 s) (\<lambda>mnr. case mnr of None \<Rightarrow> Inr (- 1, s) | Some mnr \<Rightarrow>
     bindR (create dv path T_DEV (ucast maj) (ucast mnr) s) (\<lambda>(ip, s). case ip of None \<Rightarrow> Inr (- 1, s) | Some ip \<Rightarrow>
     bindR (iunlockput ip s) (\<lambda>s. Inr (0, s))))))"

definition sys_chdir :: "'a ksys_scheme \<Rightarrow> (u32 \<times> 'a ksys_scheme) res" where
  "sys_chdir s =
     bindR (argstr 0 s) (\<lambda>path. case path of None \<Rightarrow> Inr (- 1, s) | Some path \<Rightarrow>
     bindR (namei path s) (\<lambda>(ip, s). case ip of None \<Rightarrow> Inr (- 1, s) | Some ip \<Rightarrow>
     bindR (ilock (Some ip) s) (\<lambda>s.
     if itype (icache s ! ip) \<noteq> T_DIR then bindR (iunlockput ip s) (\<lambda>s. Inr (- 1, s))
     else bindR (iunlock (Some ip) s) (\<lambda>s.
       bindR (myproc s) (\<lambda>p. case cwd p of
         None \<Rightarrow> Inl Fault
       | Some old \<Rightarrow>
           bindR (iput old s) (\<lambda>s. case curproc s of
             None \<Rightarrow> Inl Fault
           | Some me \<Rightarrow> Inr (0, upd_proc me (\<lambda>x. x\<lparr>cwd := Some ip\<rparr>) s)))))))"

section \<open>Pipes\<close>

definition sys_pipe :: "'a ksys_scheme \<Rightarrow> (u32 \<times> 'a ksys_scheme) res" where
  "sys_pipe s =
     bindR (argptr 0 8 s) (\<lambda>p. case p of None \<Rightarrow> Inr (- 1, s) | Some p \<Rightarrow>
     bindR (pipealloc s) (\<lambda>(fs, s). case fs of None \<Rightarrow> Inr (- 1, s) | Some (rfile, wfile) \<Rightarrow>
     bindR (fdalloc rfile s) (\<lambda>(fd0, s).
     bindR (if fd0 = None then Inr (None, s) else fdalloc wfile s) (\<lambda>(fd1, s).
     case (fd0, fd1) of
       (Some fd0, Some fd1) \<Rightarrow>
         bindR (ustore p (map (\<lambda>k. byte32 k (of_nat fd0)) [0..<4]) s) (\<lambda>s.
         bindR (ustore (p + 4) (map (\<lambda>k. byte32 k (of_nat fd1)) [0..<4]) s) (\<lambda>s. Inr (0, s)))
     | _ \<Rightarrow>
         bindR (case fd0 of None \<Rightarrow> Inr s | Some fd \<Rightarrow> set_ofile fd None s) (\<lambda>s.
         bindR (fileclose rfile s) (\<lambda>s.
         bindR (fileclose wfile s) (\<lambda>s. Inr (- 1, s))))))))"

end
