(* ===== verification/Exec.thy ===== *)
theory Exec
  imports Sysfile
begin

text \<open>
  Program loading (\<^verbatim>\<open>src/exec.c\<close>, \<^verbatim>\<open>src/elf.h\<close>, \<^verbatim>\<open>loaduvm\<close> of \<^verbatim>\<open>src/vm.c\<close>, \<^verbatim>\<open>sys_exec\<close>) and the dispatch of system
  calls (\<^verbatim>\<open>do_syscall\<close> of \<^verbatim>\<open>src/syscall.c\<close>). The argument strings are given by their bytes; \<open>junk\<close> is
  what the uninitialised header on the kernel stack holds.
\<close>

section \<open>Loading a segment\<close>

fun store_bytes :: "u32 \<Rightarrow> u8 list \<Rightarrow> memory \<Rightarrow> memory" where
  "store_bytes a [] m = m"
| "store_bytes a (x # xs) m = store_bytes (a + 1) xs (m(a := x))"

text \<open>The loop advances by a page while \<open>i < sz\<close>; there are \<open>2^20\<close> page offsets.\<close>

fun loaduvm_loop :: "nat \<Rightarrow> (nat \<Rightarrow> 'a kfs_scheme devsw) \<Rightarrow> u32 \<Rightarrow> u32 \<Rightarrow> nat \<Rightarrow> u32 \<Rightarrow> u32 \<Rightarrow> u32 \<Rightarrow>
    'a kfs_scheme \<Rightarrow> (bool \<times> 'a kfs_scheme) res" where
  "loaduvm_loop 0 dv pd addr ip offset len i s = Inl Spin"
| "loaduvm_loop (Suc fuel) dv pd addr ip offset len i s =
     (if i < len
      then bindR (walkpgdir pd (addr + i) False s) (\<lambda>(pte, s).
        if pte = 0 then Inl (Panic (''loaduvm: address should exist'' @ [CHR 0x0A]))
        else let pa = PTE_ADDR (load32 (mem s) pte); n = (if len - i < PGSIZE then len - i else PGSIZE) in
          bindR (readi dv ip (offset + i) n s) (\<lambda>(r, dst, s).
          let s = s\<lparr>mem := store_bytes pa dst (mem s)\<rparr> in
          if r \<noteq> n then Inr (False, s)
          else loaduvm_loop fuel dv pd addr ip offset len (i + PGSIZE) s))
      else Inr (True, s))"

declare loaduvm_loop.simps [simp del]

definition loaduvm :: "(nat \<Rightarrow> 'a kfs_scheme devsw) \<Rightarrow> u32 \<Rightarrow> u32 \<Rightarrow> nat \<Rightarrow> u32 \<Rightarrow> u32 \<Rightarrow>
    'a kfs_scheme \<Rightarrow> (bool \<times> 'a kfs_scheme) res" where
  "loaduvm dv pd addr ip offset len s =
     (if addr mod PGSIZE \<noteq> 0 then Inl (Panic (''loaduvm: addr must be page aligned'' @ [CHR 0x0A]))
      else loaduvm_loop (2 ^ 20 + 1) dv pd addr ip offset len 0 s)"

section \<open>The program headers\<close>

definition ELF_MAGIC :: u32 where "ELF_MAGIC = 0x464C457F"
definition ELF_PROG_LOAD :: u32 where "ELF_PROG_LOAD = 1"

record proghdr =
  ph_type :: u32
  ph_offset :: u32
  ph_va :: u32
  ph_filesz :: u32
  ph_memsz :: u32

definition get_proghdr :: "u8 list \<Rightarrow> proghdr" where
  "get_proghdr d = \<lparr>ph_type = get32 d 0, ph_offset = get32 d 4, ph_va = get32 d 8, ph_filesz = get32 d 16,
     ph_memsz = get32 d 20\<rparr>"

text \<open>The loop over the program headers; \<^const>\<open>None\<close> is the jump to \<^verbatim>\<open>bad\<close>.\<close>

fun exec_load :: "nat \<Rightarrow> (nat \<Rightarrow> 'a kfs_scheme devsw) \<Rightarrow> u32 \<Rightarrow> nat \<Rightarrow> u32 \<Rightarrow> u32 \<Rightarrow> 'a kfs_scheme \<Rightarrow>
    (u32 option \<times> 'a kfs_scheme) res" where
  "exec_load 0 dv pd ip off newsz s = Inr (Some newsz, s)"
| "exec_load (Suc n) dv pd ip off newsz s =
     bindR (readi dv ip off 32 s) (\<lambda>(r, d, s).
     if r \<noteq> 32 then Inr (None, s)
     else let ph = get_proghdr d in
       if ph_type ph \<noteq> ELF_PROG_LOAD then exec_load n dv pd ip (off + 32) newsz s
       else if ph_memsz ph < ph_filesz ph then Inr (None, s)
       else bindR (allocuvm pd newsz (ph_va ph + ph_memsz ph) s) (\<lambda>(newsz, s).
         if newsz = 0 then Inr (None, s)
         else bindR (loaduvm dv pd (ph_va ph) ip (ph_offset ph) (ph_filesz ph) s) (\<lambda>(ok, s).
           if \<not> ok then Inr (None, s) else exec_load n dv pd ip (off + 32) newsz s)))"

section \<open>The argument block\<close>

text \<open>
  The strings go below the top of the stack page, the last one first; the pointers lie below
  them at \<open>argp\<close>. \<open>m\<close> is the kernel address of the page, \<open>spbottom\<close> its user address.
\<close>

fun push_args :: "u32 \<Rightarrow> u32 \<Rightarrow> u32 \<Rightarrow> (nat \<times> u8 list) list \<Rightarrow> u32 \<Rightarrow> memory \<Rightarrow> memory" where
  "push_args m spbottom argp [] sp mm = mm"
| "push_args m spbottom argp ((i, str) # args) sp mm =
     (let len = of_nat (length str) + 1; sp = sp - len;
          mm = store_bytes (m + sp - spbottom) (str @ [0]) mm;
          mm = store32 (m + argp - spbottom + 4 * of_nat i) sp mm in
      push_args m spbottom argp args sp mm)"

definition arg_len :: "u8 list list \<Rightarrow> u32" where
  "arg_len argv = (of_nat (sum_list (map (\<lambda>a. length a + 1) argv)) + 3) AND NOT 3"

definition basename :: "u8 list \<Rightarrow> u8 list" where
  "basename path = rev (takeWhile (\<lambda>c. c \<noteq> SLASH) (rev path))"

section \<open>exec\<close>

definition exec_bad :: "u32 \<Rightarrow> nat \<Rightarrow> 'a kfs_scheme \<Rightarrow> (u32 \<times> 'a kfs_scheme) res" where
  "exec_bad pd ip s =
     bindR (if pd \<noteq> 0 then freevm pd s else Inr s) (\<lambda>s.
     bindR (iunlockput ip s) (\<lambda>s. Inr (- 1, s)))"

text \<open>From the end of loading on: the inode was already unlocked and given back.\<close>

definition exec_commit ::
  "u8 list \<Rightarrow> u8 list list \<Rightarrow> u32 \<Rightarrow> nat \<Rightarrow> u32 \<Rightarrow> u32 \<Rightarrow> 'a ksys_scheme \<Rightarrow> (u32 \<times> 'a ksys_scheme) res" where
  "exec_commit path argv pd ip entry newsz s =
     (let spbottom = PGROUNDUP newsz in
      bindR (allocuvm pd spbottom (spbottom + PGSIZE) s) (\<lambda>(newsz, s).
      if newsz = 0 then exec_bad pd ip s
      else bindR (uva2ka pd spbottom s) (\<lambda>(m, s).
        let argc = length argv; argp = newsz - arg_len argv - 4 * (of_nat argc + 1);
            s = s\<lparr>mem := store32 (m + argp - spbottom + 4 * of_nat argc) 0 (mem s)\<rparr>;
            s = s\<lparr>mem := push_args m spbottom argp (rev (zip [0..<argc] argv)) newsz (mem s)\<rparr>;
            s = s\<lparr>bank := (bank s)(4 := of_nat argc, 5 := argp), pr_reg := - 1\<rparr> in
        case curproc s of
          None \<Rightarrow> Inl Fault
        | Some me \<Rightarrow>
            let oldpgdir = pgdir (ptable s ! me);
                s = upd_proc me (\<lambda>x. x\<lparr>pname := safestrcpy_array (pname x) (array (basename path)),
                  pgdir := pd, sz := newsz, tf := (tf x)(T_SPC := entry, T_SGR := argp)\<rparr>) s in
            bindR (switchuvm pd pd s) (\<lambda>s.
            bindR (freevm oldpgdir s) (\<lambda>s. Inr (0, s))))))"

definition exec :: "(nat \<Rightarrow> 'a ksys_scheme devsw) \<Rightarrow> u8 list \<Rightarrow> u8 list \<Rightarrow> u8 list list \<Rightarrow> 'a ksys_scheme \<Rightarrow>
    (u32 \<times> 'a ksys_scheme) res" where
  "exec dv junk path argv s =
     bindR (namei path s) (\<lambda>(ip, s). case ip of None \<Rightarrow> Inr (- 1, s) | Some ip \<Rightarrow>
     bindR (ilock (Some ip) s) (\<lambda>s.
     bindR (readi dv ip 0 52 s) (\<lambda>(r, d, s).
     let elf = splice 0 d junk in
     if r < 52 then exec_bad 0 ip s
     else if get32 elf 0 \<noteq> ELF_MAGIC then exec_bad 0 ip s
     else bindR (setupkvm s) (\<lambda>(pd, s).
       if pd = 0 then exec_bad 0 ip s
       else bindR (exec_load (unat (get16 elf 44)) dv pd ip (get32 elf 28) 0 s) (\<lambda>(newsz, s). case newsz of
         None \<Rightarrow> exec_bad pd ip s
       | Some newsz \<Rightarrow>
           bindR (iunlockput ip s) (\<lambda>s.
           exec_commit path argv pd ip (get32 elf 24) newsz s))))))"

text \<open>\<^verbatim>\<open>sys_exec\<close>: at most 19 argument strings and the null pointer behind them fit \<^verbatim>\<open>argv[20]\<close>.\<close>

fun fetch_argv :: "nat \<Rightarrow> proc \<Rightarrow> u32 \<Rightarrow> u8 list list \<Rightarrow> 'a kvm_scheme \<Rightarrow> u8 list list option res" where
  "fetch_argv 0 p uargv acc s = Inr None"
| "fetch_argv (Suc n) p uargv acc s =
     bindR (fetchint p uargv s) (\<lambda>a. case a of
       None \<Rightarrow> Inr None
     | Some uarg \<Rightarrow>
         if uarg = 0 then Inr (Some acc)
         else bindR (fetchstr p uarg s) (\<lambda>str. case str of
           None \<Rightarrow> Inr None
         | Some str \<Rightarrow> fetch_argv n p (uargv + 4) (acc @ [str]) s))"

definition sys_exec :: "(nat \<Rightarrow> 'a ksys_scheme devsw) \<Rightarrow> u8 list \<Rightarrow> 'a ksys_scheme \<Rightarrow> (u32 \<times> 'a ksys_scheme) res" where
  "sys_exec dv junk s =
     bindR (argstr 0 s) (\<lambda>path. case path of None \<Rightarrow> Inr (- 1, s) | Some path \<Rightarrow>
     bindR (argint 1 s) (\<lambda>uargv. case uargv of None \<Rightarrow> Inr (- 1, s) | Some uargv \<Rightarrow>
     bindR (myproc s) (\<lambda>p.
     bindR (fetch_argv 20 p uargv [] s) (\<lambda>argv. case argv of
       None \<Rightarrow> Inr (- 1, s)
     | Some argv \<Rightarrow> exec dv junk path argv s))))"

section \<open>Dispatch\<close>

text \<open>
  \<open>tra\<close> is the value of the trap register; \<open>forkret\<close> the entry of a new process. \<^const>\<open>None\<close> is the
  process leaving through \<^verbatim>\<open>exit\<close>.
\<close>

definition syscalls :: "(nat \<Rightarrow> 'a ksys_scheme devsw) \<Rightarrow> u8 list \<Rightarrow> u32 \<Rightarrow> int \<Rightarrow>
    ('a ksys_scheme \<Rightarrow> (u32 option \<times> 'a ksys_scheme) res) option" where
  "syscalls dv junk forkret num =
     (let ret = (\<lambda>f s. bindR (f s) (\<lambda>(r, s). Inr (Some r, s))) in
      if num = 1 then Some (ret (sys_fork forkret))
      else if num = 2 then Some (\<lambda>s. bindR (sys_exit s) (\<lambda>s. Inr (None, s)))
      else if num = 3 then Some (ret sys_wait)
      else if num = 4 then Some (ret sys_pipe)
      else if num = 5 then Some (ret (sys_write dv))
      else if num = 6 then Some (ret (sys_read dv))
      else if num = 7 then Some (ret sys_close)
      else if num = 8 then Some (ret sys_kill)
      else if num = 9 then Some (ret (sys_exec dv junk))
      else if num = 10 then Some (ret (sys_open dv))
      else if num = 11 then Some (ret (sys_mknod dv))
      else if num = 12 then Some (ret (sys_unlink dv))
      else if num = 13 then Some (ret sys_fstat)
      else if num = 14 then Some (ret (sys_link dv))
      else if num = 15 then Some (ret (sys_mkdir dv))
      else if num = 16 then Some (ret sys_chdir)
      else if num = 17 then Some (ret sys_dup)
      else if num = 18 then Some (ret sys_getpid)
      else if num = 19 then Some (ret sys_sbrk)
      else if num = 20 then Some (ret sys_sleep)
      else if num = 21 then Some (ret sys_uptime)
      else None)"

definition do_syscall :: "(nat \<Rightarrow> 'a ksys_scheme devsw) \<Rightarrow> u8 list \<Rightarrow> u32 \<Rightarrow> u32 \<Rightarrow> 'a ksys_scheme \<Rightarrow> 'a ksys_scheme res" where
  "do_syscall dv junk forkret tra s =
     (let num = sint tra div 4 in
      bindR (case syscalls dv junk forkret num of
          Some f \<Rightarrow> f s
        | None \<Rightarrow>
            bindR (myproc s) (\<lambda>p.
            bindR (cprintf (lit ''%d %s: unknown sys call %d'' @ [0x0a])
              [AInt (pid p), AStr (Some (cstr (array (pname p)) 16)), AInt (word_of_int num)] s) (\<lambda>s.
            Inr (Some (- 1), s)))) (\<lambda>(ret, s).
      Inr (case ret of None \<Rightarrow> s | Some r \<Rightarrow> s\<lparr>bank := (bank s)(0 := r)\<rparr>)))"

end
