(* ===== verification/Kernel_Frame.thy ===== *)
theory Kernel_Frame
  imports Exec
begin

text \<open>
  What the operations below the file table leave alone: the reference counts of the file table, the descriptors of every process and
  which processes are dead. The rules are weakest preconditions: \<open>wp Q m\<close> says that \<open>m\<close> does not panic over a reference
  count and that \<open>Q\<close> holds of its result, if it has one. One rule per operation, from the spinlocks up to \<^verbatim>\<open>exec\<close>.
\<close>

section \<open>Outcomes\<close>

definition benign :: "stop \<Rightarrow> bool" where
  "benign e \<longleftrightarrow> e \<noteq> Panic ''filedup'' \<and> e \<noteq> Panic ''fileclose''"

definition wp :: "('x \<Rightarrow> bool) \<Rightarrow> 'x res \<Rightarrow> bool" where
  "wp Q m \<longleftrightarrow> (case m of Inl e \<Rightarrow> benign e | Inr x \<Rightarrow> Q x)"

lemma wp_simps [simp]: "wp Q (Inr x) = Q x" "wp Q (Inl e) = benign e" "wp Q (bindR m f) = wp (\<lambda>x. wp Q (f x)) m"
  by (simp_all add: wp_def bindR_def split: sum.split)

lemma benign_simps [simp]: "benign Fault" "benign Spin" "benign (Sleep c)" "benign (Panic m) \<longleftrightarrow> m \<noteq> ''filedup'' \<and> m \<noteq> ''fileclose''"
  by (simp_all add: benign_def)

named_theorems wp_rules "weakest preconditions of the kernel operations"

section \<open>The view\<close>

definition dead :: "proc \<Rightarrow> bool" where
  "dead p \<longleftrightarrow> state p = UNUSED \<or> state p = ZOMBIE"

definition fds :: "proc \<Rightarrow> nat option list \<times> bool" where
  "fds p = (ofile p, dead p)"

definition view :: "'a kfile_scheme \<Rightarrow> int list \<times> nat option \<times> (nat option list \<times> bool) list" where
  "view s = (map fref (ftable s), curproc s, map fds (ptable s))"

lemma view_update [simp]:
  "view (s\<lparr>lk := k\<rparr>) = view s" "view (s\<lparr>mem := m\<rparr>) = view s" "view (s\<lparr>freelist := a\<rparr>) = view s" "view (s\<lparr>tlb := t\<rparr>) = view s"
  "view (s\<lparr>nextpid := n\<rparr>) = view s" "view (s\<lparr>initproc := x\<rparr>) = view s" "view (s\<lparr>disk := d\<rparr>) = view s" "view (s\<lparr>bufs := bs\<rparr>) = view s"
  "view (s\<lparr>icache := ic\<rparr>) = view s" "view (s\<lparr>pipes := ps\<rparr>) = view s"
  by (simp_all add: view_def)

lemma view_outer [simp]:
  "view (s\<lparr>ibuf := a\<rparr>) = view s" "view (s\<lparr>in_r := b\<rparr>) = view s" "view (s\<lparr>in_w := b\<rparr>) = view s" "view (s\<lparr>in_e := b\<rparr>) = view s"
  "view (s\<lparr>cons_locking := x\<rparr>) = view s" "view (s\<lparr>panicked := x\<rparr>) = view s" "view (s\<lparr>serial := a\<rparr>) = view s"
  "view (t\<lparr>bank := g\<rparr>) = view t" "view (t\<lparr>pr_reg := c\<rparr>) = view t" "view (t\<lparr>ticks := c\<rparr>) = view t"
  by (simp_all add: view_def)

lemma view_local [simp]: "view (upd_buf b f s) = view s" "view (upd_inode i g s) = view s" "view (set_data b d s) = view s" "view (upd_pipe p h s) = view s"
  by (simp_all add: upd_buf_def upd_inode_def set_data_def upd_pipe_def)

lemma view_initlock [simp]: "view (initlock l nm s) = view s"
  by (simp add: initlock_def)

lemma view_upd_proc [simp]: "fds (f (ptable s ! i)) = fds (ptable s ! i) \<Longrightarrow> view (upd_proc i f s) = view s"
proof -
  assume f: "fds (f (ptable s ! i)) = fds (ptable s ! i)"
  have "fds ((ptable s)[i := f (ptable s ! i)] ! j) = fds (ptable s ! j)" if "j < length (ptable s)" for j
    using f that by (cases "j = i") simp_all
  then show ?thesis by (simp add: view_def upd_proc_def list_eq_iff_nth_eq)
qed

lemma view_upd_file [simp]: "fref (f (ftable s ! i)) = fref (ftable s ! i) \<Longrightarrow> view (upd_file i f s) = view s"
proof -
  assume f: "fref (f (ftable s ! i)) = fref (ftable s ! i)"
  have "fref ((ftable s)[i := f (ftable s ! i)] ! j) = fref (ftable s ! j)" if "j < length (ftable s)" for j
    using f that by (cases "j = i") simp_all
  then show ?thesis by (simp add: view_def upd_file_def list_eq_iff_nth_eq)
qed

lemma fds_fields [simp]:
  "fds (p\<lparr>pgdir := a\<rparr>) = fds p" "fds (p\<lparr>sz := a\<rparr>) = fds p" "fds (p\<lparr>kstack := a\<rparr>) = fds p" "fds (p\<lparr>tf := t\<rparr>) = fds p" "fds (p\<lparr>tf_addr := a\<rparr>) = fds p"
  "fds (p\<lparr>parent := x\<rparr>) = fds p" "fds (p\<lparr>chan := c\<rparr>) = fds p" "fds (p\<lparr>killed := k\<rparr>) = fds p" "fds (p\<lparr>pid := a\<rparr>) = fds p" "fds (p\<lparr>cwd := x\<rparr>) = fds p"
  "fds (p\<lparr>pname := n\<rparr>) = fds p" "fds (p\<lparr>sched_intena := a\<rparr>) = fds p" "fds (p\<lparr>context := cx\<rparr>) = fds p"
  by (simp_all add: fds_def dead_def)

lemma view_wakeup1 [simp]: "view (wakeup1 c s) = view s"
  by (simp add: view_def wakeup1_def fds_def dead_def)

section \<open>Locks, pages and page tables\<close>

lemma wp_release [wp_rules]: "(\<And>s'. view s' = view s \<Longrightarrow> Q s') \<Longrightarrow> wp Q (release l s)"
  by (auto simp: release_def Let_def popcli_def split: sum.split)

lemma wp_acquire [wp_rules]: "(\<And>s'. view s' = view s \<Longrightarrow> Q s') \<Longrightarrow> wp Q (acquire l s)"
  by (auto simp: acquire_def Let_def)

lemma wp_kalloc [wp_rules]: "(\<And>r s'. view s' = view s \<Longrightarrow> Q (r, s')) \<Longrightarrow> wp Q (kalloc s)"
  by (auto simp: kalloc_def Let_def intro!: wp_rules)

lemma wp_kfree [wp_rules]: "(\<And>s'. view s' = view s \<Longrightarrow> Q s') \<Longrightarrow> wp Q (kfree v s)"
  by (auto simp: kfree_def Let_def intro!: wp_rules)

lemma wp_walkpgdir [wp_rules]: "(\<And>r s'. view s' = view s \<Longrightarrow> Q (r, s')) \<Longrightarrow> wp Q (walkpgdir pd va c s)"
  by (auto simp: walkpgdir_def Let_def intro!: wp_rules)

lemma wp_map_page [wp_rules]: "(\<And>r s'. view s' = view s \<Longrightarrow> Q (r, s')) \<Longrightarrow> wp Q (map_page pd a pa perm s)"
  by (auto simp: map_page_def Let_def intro!: wp_rules split: option.split prod.split)

lemma wp_mappages_loop [wp_rules]: "(\<And>r s'. view s' = view s \<Longrightarrow> Q (r, s')) \<Longrightarrow> wp Q (mappages_loop n pd a pa perm s)"
proof (induction n arbitrary: a pa s)
  case 0
  then show ?case by (auto intro!: wp_rules)
next
  case (Suc n)
  then show ?case by (auto intro!: wp_rules Suc)
qed

lemma wp_mappages [wp_rules]: "(\<And>r s'. view s' = view s \<Longrightarrow> Q (r, s')) \<Longrightarrow> wp Q (mappages pd la n pa perm s)"
  by (auto simp: mappages_def Let_def intro!: wp_rules split: option.split prod.split)

lemma wp_setupkvm [wp_rules]: "(\<And>r s'. view s' = view s \<Longrightarrow> Q (r, s')) \<Longrightarrow> wp Q (setupkvm s)"
  by (auto simp: setupkvm_def Let_def intro!: wp_rules split: option.split prod.split)

lemma wp_tlb_register [wp_rules]: "(\<And>s'. view s' = view s \<Longrightarrow> Q s') \<Longrightarrow> wp Q (tlb_register pd i va s)"
  by (auto simp: tlb_register_def Let_def intro!: wp_rules split: option.split prod.split)

lemma wp_switchuvm_loop [wp_rules]: "(\<And>s'. view s' = view s \<Longrightarrow> Q s') \<Longrightarrow> wp Q (switchuvm_loop n pd va i s)"
proof (induction n arbitrary: va i s)
  case 0
  then show ?case by simp
next
  case (Suc n)
  then show ?case by (auto intro!: wp_rules Suc)
qed

lemma wp_switchuvm [wp_rules]: "(\<And>s'. view s' = view s \<Longrightarrow> Q s') \<Longrightarrow> wp Q (switchuvm pd pd' s)"
  by (auto simp: switchuvm_def Let_def clear_tlb_def popcli_def intro!: wp_rules)

lemma wp_uva2ka [wp_rules]: "(\<And>r s'. view s' = view s \<Longrightarrow> Q (r, s')) \<Longrightarrow> wp Q (uva2ka pd va s)"
  by (auto simp: uva2ka_def Let_def intro!: wp_rules split: option.split prod.split)

lemma wp_deallocuvm_loop [wp_rules]: "(\<And>s'. view s' = view s \<Longrightarrow> Q s') \<Longrightarrow> wp Q (deallocuvm_loop n pd a lastp s)"
proof (induction n arbitrary: a s)
  case 0
  then show ?case by simp
next
  case (Suc n)
  then show ?case by (auto simp: Let_def intro!: wp_rules Suc)
qed

lemma wp_deallocuvm [wp_rules]: "(\<And>r s'. view s' = view s \<Longrightarrow> Q (r, s')) \<Longrightarrow> wp Q (deallocuvm pd a b s)"
  by (auto simp: deallocuvm_def Let_def intro!: wp_rules split: option.split prod.split)

lemma wp_allocuvm_loop [wp_rules]: "(\<And>r s'. view s' = view s \<Longrightarrow> Q (r, s')) \<Longrightarrow> wp Q (allocuvm_loop n pd old new a lastp s)"
proof (induction n arbitrary: a s)
  case 0
  then show ?case by simp
next
  case (Suc n)
  then show ?case by (auto simp: Let_def intro!: wp_rules Suc)
qed

lemma wp_allocuvm [wp_rules]: "(\<And>r s'. view s' = view s \<Longrightarrow> Q (r, s')) \<Longrightarrow> wp Q (allocuvm pd a b s)"
  by (auto simp: allocuvm_def Let_def intro!: wp_rules split: option.split prod.split)

lemma wp_freevm_tables [wp_rules]: "(\<And>s'. view s' = view s \<Longrightarrow> Q s') \<Longrightarrow> wp Q (freevm_tables i n pd s)"
proof (induction n arbitrary: i s)
  case 0
  then show ?case by simp
next
  case (Suc n)
  then show ?case by (auto simp: Let_def intro!: wp_rules Suc)
qed

lemma wp_freevm [wp_rules]: "(\<And>s'. view s' = view s \<Longrightarrow> Q s') \<Longrightarrow> wp Q (freevm pd s)"
  by (auto simp: freevm_def Let_def intro!: wp_rules split: option.split prod.split)

lemma wp_copyuvm_loop [wp_rules]: "(\<And>r s'. view s' = view s \<Longrightarrow> Q (r, s')) \<Longrightarrow> wp Q (copyuvm_loop n pd len d i s)"
proof (induction n arbitrary: i s)
  case 0
  then show ?case by simp
next
  case (Suc n)
  then show ?case by (auto simp: Let_def intro!: wp_rules Suc)
qed

lemma wp_copyuvm [wp_rules]: "(\<And>r s'. view s' = view s \<Longrightarrow> Q (r, s')) \<Longrightarrow> wp Q (copyuvm pd len s)"
  by (auto simp: copyuvm_def Let_def intro!: wp_rules split: option.split prod.split)

section \<open>The buffer cache and the file system\<close>

lemma wp_wakeup [wp_rules]: "(\<And>s'. view s' = view s \<Longrightarrow> Q s') \<Longrightarrow> wp Q (wakeup c s)"
  by (auto simp: wakeup_def Let_def intro!: wp_rules split: option.split prod.split)

lemma wp_iderw [wp_rules]: "(\<And>s'. view s' = view s \<Longrightarrow> Q s') \<Longrightarrow> wp Q (iderw b s)"
  by (auto simp: iderw_def Let_def idestart_def intro!: wp_rules split: option.split prod.split)

lemma wp_walk [wp_rules]: "(\<And>x. Q x) \<Longrightarrow> wp Q (walk n f P i)"
  by (induction n arbitrary: i) (auto simp: walk.simps)

lemma wp_bget [wp_rules]: "(\<And>r s'. view s' = view s \<Longrightarrow> Q (r, s')) \<Longrightarrow> wp Q (bget dev sec s)"
  by (auto simp: bget_def Let_def intro!: wp_rules split: option.split prod.split)

lemma wp_bread [wp_rules]: "(\<And>r s'. view s' = view s \<Longrightarrow> Q (r, s')) \<Longrightarrow> wp Q (bread dev sec s)"
  by (auto simp: bread_def Let_def intro!: wp_rules split: option.split prod.split)

lemma wp_bwrite [wp_rules]: "(\<And>s'. view s' = view s \<Longrightarrow> Q s') \<Longrightarrow> wp Q (bwrite b s)"
  by (auto simp: bwrite_def Let_def intro!: wp_rules split: option.split prod.split)

lemma wp_brelse [wp_rules]: "(\<And>s'. view s' = view s \<Longrightarrow> Q s') \<Longrightarrow> wp Q (brelse b s)"
  by (auto simp: brelse_def Let_def intro!: wp_rules split: option.split prod.split)

lemma wp_readsb [wp_rules]: "(\<And>r s'. view s' = view s \<Longrightarrow> Q (r, s')) \<Longrightarrow> wp Q (readsb dev s)"
  by (auto simp: readsb_def Let_def intro!: wp_rules split: option.split prod.split)

lemma wp_bzero [wp_rules]: "(\<And>s'. view s' = view s \<Longrightarrow> Q s') \<Longrightarrow> wp Q (bzero dev b s)"
  by (auto simp: bzero_def Let_def intro!: wp_rules split: option.split prod.split)

lemma wp_balloc_loop [wp_rules]: "(\<And>r s'. view s' = view s \<Longrightarrow> Q (r, s')) \<Longrightarrow> wp Q (balloc_loop n dev sb b s)"
proof (induction n arbitrary: b s)
  case 0
  then show ?case by (simp add: balloc_loop.simps)
next
  case (Suc n)
  then show ?case by (auto simp: balloc_loop.simps Let_def intro!: wp_rules Suc split: option.split)
qed

lemma wp_balloc [wp_rules]: "(\<And>r s'. view s' = view s \<Longrightarrow> Q (r, s')) \<Longrightarrow> wp Q (balloc dev s)"
  by (auto simp: balloc_def Let_def intro!: wp_rules split: option.split prod.split)

lemma wp_bfree [wp_rules]: "(\<And>s'. view s' = view s \<Longrightarrow> Q s') \<Longrightarrow> wp Q (bfree dev b s)"
  by (auto simp: bfree_def Let_def intro!: wp_rules split: option.split prod.split)

lemma wp_iget [wp_rules]: "(\<And>r s'. view s' = view s \<Longrightarrow> Q (r, s')) \<Longrightarrow> wp Q (iget dev n s)"
  by (auto simp: iget_def Let_def intro!: wp_rules split: option.split prod.split)

lemma wp_ialloc_loop [wp_rules]: "(\<And>r s'. view s' = view s \<Longrightarrow> Q (r, s')) \<Longrightarrow> wp Q (ialloc_loop dev ty sb n s)"
proof (induction "unat (ninodes sb) - unat n" arbitrary: n s rule: less_induct)
  case less
  have "unat (ninodes sb) - unat (n + 1) < unat (ninodes sb) - unat n" if "n < ninodes sb"
    using that unat_lt32 [of "ninodes sb"] by (simp add: word_less_nat_alt unat_word_ariths)
  then show ?case by (subst ialloc_loop.simps) (auto simp: Let_def less.prems intro!: wp_rules less.hyps)
qed

lemma wp_ialloc [wp_rules]: "(\<And>r s'. view s' = view s \<Longrightarrow> Q (r, s')) \<Longrightarrow> wp Q (ialloc dev ty s)"
  by (auto simp: ialloc_def Let_def intro!: wp_rules split: option.split prod.split)

lemma wp_iupdate [wp_rules]: "(\<And>s'. view s' = view s \<Longrightarrow> Q s') \<Longrightarrow> wp Q (iupdate i s)"
  by (auto simp: iupdate_def Let_def intro!: wp_rules split: option.split prod.split)

lemma wp_idup [wp_rules]: "(\<And>r s'. view s' = view s \<Longrightarrow> Q (r, s')) \<Longrightarrow> wp Q (idup i s)"
  by (auto simp: idup_def Let_def intro!: wp_rules split: option.split prod.split)

lemma wp_ilock [wp_rules]: "(\<And>s'. view s' = view s \<Longrightarrow> Q s') \<Longrightarrow> wp Q (ilock p s)"
  by (auto simp: ilock_def Let_def intro!: wp_rules split: option.split prod.split)

lemma wp_iunlock [wp_rules]: "(\<And>s'. view s' = view s \<Longrightarrow> Q s') \<Longrightarrow> wp Q (iunlock p s)"
  by (auto simp: iunlock_def Let_def intro!: wp_rules split: option.split prod.split)

lemma wp_bmap_indirect [wp_rules]: "(\<And>r s'. view s' = view s \<Longrightarrow> Q (r, s')) \<Longrightarrow> wp Q (bmap_indirect i bn a s)"
  by (auto simp: bmap_indirect_def Let_def intro!: wp_rules split: option.split prod.split)

lemma wp_bmap [wp_rules]: "(\<And>r s'. view s' = view s \<Longrightarrow> Q (r, s')) \<Longrightarrow> wp Q (bmap i bn s)"
  by (auto simp: bmap_def Let_def intro!: wp_rules split: option.split prod.split)

lemma wp_itrunc_direct [wp_rules]: "(\<And>s'. view s' = view s \<Longrightarrow> Q s') \<Longrightarrow> wp Q (itrunc_direct i k n s)"
proof (induction n arbitrary: k s)
  case 0
  then show ?case by (simp add: itrunc_direct.simps)
next
  case (Suc n)
  then show ?case by (auto simp: itrunc_direct.simps Let_def intro!: wp_rules Suc split: option.split prod.split)
qed

lemma wp_itrunc_indirect [wp_rules]: "(\<And>s'. view s' = view s \<Longrightarrow> Q s') \<Longrightarrow> wp Q (itrunc_indirect i bp j n s)"
proof (induction n arbitrary: j s)
  case 0
  then show ?case by (simp add: itrunc_indirect.simps)
next
  case (Suc n)
  then show ?case by (auto simp: itrunc_indirect.simps Let_def intro!: wp_rules Suc split: option.split prod.split)
qed

lemma wp_itrunc [wp_rules]: "(\<And>s'. view s' = view s \<Longrightarrow> Q s') \<Longrightarrow> wp Q (itrunc i s)"
  by (auto simp: itrunc_def Let_def intro!: wp_rules split: option.split prod.split)

lemma wp_iput [wp_rules]: "(\<And>s'. view s' = view s \<Longrightarrow> Q s') \<Longrightarrow> wp Q (iput i s)"
  by (auto simp: iput_def Let_def intro!: wp_rules split: option.split prod.split)

lemma wp_iunlockput [wp_rules]: "(\<And>s'. view s' = view s \<Longrightarrow> Q s') \<Longrightarrow> wp Q (iunlockput i s)"
  by (auto simp: iunlockput_def Let_def intro!: wp_rules split: option.split prod.split)

lemma wp_readi_loop [wp_rules]: "(\<And>r s'. view s' = view s \<Longrightarrow> Q (r, s')) \<Longrightarrow> wp Q (readi_loop i n tot off dst s)"
proof (induction "unat (n - tot)" arbitrary: tot off dst s rule: less_induct)
  case less
  show ?case by (subst readi_loop.simps) (auto simp: Let_def chunk_shrinks less.prems intro!: wp_rules less.hyps)
qed

lemma wp_writei_loop [wp_rules]: "(\<And>r s'. view s' = view s \<Longrightarrow> Q (r, s')) \<Longrightarrow> wp Q (writei_loop i n tot off src s)"
proof (induction "unat (n - tot)" arbitrary: tot off src s rule: less_induct)
  case less
  show ?case by (subst writei_loop.simps) (auto simp: Let_def chunk_shrinks less.prems intro!: wp_rules less.hyps)
qed

text \<open>The device drivers are a parameter; the rules for them are stated for drivers that keep the view.\<close>

definition keeps_view :: "(nat \<Rightarrow> 'a kfile_scheme devsw) \<Rightarrow> bool" where
  "keeps_view dv \<longleftrightarrow> (\<forall>d f i n s. dread (dv d) = Some f \<longrightarrow> wp (\<lambda>(r, dst, s'). view s' = view s) (f i n s)) \<and>
     (\<forall>d f i src n s. dwrite (dv d) = Some f \<longrightarrow> wp (\<lambda>(r, s'). view s' = view s) (f i src n s))"

lemma wp_mono: "wp P m \<Longrightarrow> (\<And>x. P x \<Longrightarrow> Q x) \<Longrightarrow> wp Q m"
  by (auto simp: wp_def split: sum.splits)

lemma wp_dread:
  assumes "keeps_view dv" "dread (dv d) = Some f" "\<And>r dst s'. view s' = view s \<Longrightarrow> Q (r, dst, s')"
  shows "wp Q (f i n s)"
proof -
  have "wp (\<lambda>(r, dst, s'). view s' = view s) (f i n s)" using assms(1,2) unfolding keeps_view_def by blast
  then show ?thesis by (rule wp_mono) (use assms(3) in auto)
qed

lemma wp_dwrite:
  assumes "keeps_view dv" "dwrite (dv d) = Some f" "\<And>r s'. view s' = view s \<Longrightarrow> Q (r, s')"
  shows "wp Q (f i src n s)"
proof -
  have "wp (\<lambda>(r, s'). view s' = view s) (f i src n s)" using assms(1,2) unfolding keeps_view_def by blast
  then show ?thesis by (rule wp_mono) (use assms(3) in auto)
qed

lemma wp_readi [wp_rules]: "keeps_view dv \<Longrightarrow> (\<And>r d s'. view s' = view s \<Longrightarrow> Q (r, d, s')) \<Longrightarrow> wp Q (readi dv i off n s)"
  by (auto simp: readi_def Let_def intro!: wp_rules intro: wp_dread split: option.split)

lemma wp_writei [wp_rules]: "keeps_view dv \<Longrightarrow> (\<And>r s'. view s' = view s \<Longrightarrow> Q (r, s')) \<Longrightarrow> wp Q (writei dv i src off n s)"
  by (auto simp: writei_def Let_def intro!: wp_rules intro: wp_dwrite split: option.split)

lemma wp_bindI: "wp P m \<Longrightarrow> (\<And>x. m = Inr x \<Longrightarrow> P x \<Longrightarrow> wp Q (f x)) \<Longrightarrow> wp Q (bindR m f)"
  by (auto simp: wp_def bindR_def split: sum.splits)

lemma wp_dirlookup_loop [wp_rules]: "(\<And>r s'. view s' = view s \<Longrightarrow> Q (r, s')) \<Longrightarrow> wp Q (dirlookup_loop i nm off s)"
proof (induction "MAXFILE * BSIZE - unat off" arbitrary: off s rule: less_induct)
  case less
  have b: "wp (\<lambda>(r, s'). view s' = view s) (bmap i (off div of_nat BSIZE) s)" by (rule wp_rules) simp
  have m: "MAXFILE * BSIZE - unat (off + of_nat BSIZE) < MAXFILE * BSIZE - unat off" if "bmap i (off div of_nat BSIZE) s = Inr x" for x
  proof -
    have "unat (off div 512) < MAXFILE" using bmap_in_range [OF that] by (simp add: BSIZE_def)
    then have "unat off div 512 < 140" by (simp add: MAXFILE_def NDIRECT_def NINDIRECT_def BSIZE_def unat_div)
    then have "unat off < 71680" by (simp add: div_less_iff_less_mult)
    moreover from this have "unat (off + 512) = unat off + 512" by (simp add: unat_word_ariths)
    ultimately show ?thesis by (simp add: MAXFILE_def NDIRECT_def NINDIRECT_def BSIZE_def)
  qed
  show ?case
  proof (cases "off < isize (icache s ! i)")
    case True
    have "wp Q (bindR (bread (idev (icache s1 ! i)) addr s1) (\<lambda>(bp, s).
        let d = bdata (bufs s ! bp) in
        case find (\<lambda>p. de_inum d p \<noteq> 0 \<and> namecmp nm (de_name d p) = 0) (map ((*) 16) [0..<BSIZE div 16]) of
          Some p \<Rightarrow> bindR (brelse bp s) (\<lambda>s. bindR (iget (idev (icache s ! i)) (ucast (de_inum d p)) s) (\<lambda>(j, s). Inr (Some (j, off + of_nat p), s)))
        | None \<Rightarrow> bindR (brelse bp s) (\<lambda>s. dirlookup_loop i nm (off + of_nat BSIZE) s)))"
      if "bmap i (off div of_nat BSIZE) s = Inr (addr, s1)" "view s1 = view s" for addr s1
      using that m [OF that(1)] by (auto simp: Let_def less.prems intro!: wp_rules less.hyps split: option.split)
    then show ?thesis using True by (subst dirlookup_loop.simps) (auto simp del: wp_simps(3) intro!: wp_bindI [OF b])
  next
    case False
    then show ?thesis by (subst dirlookup_loop.simps) (simp add: less.prems)
  qed
qed

lemma wp_dirlookup [wp_rules]: "(\<And>r s'. view s' = view s \<Longrightarrow> Q (r, s')) \<Longrightarrow> wp Q (dirlookup i nm s)"
  by (auto simp: dirlookup_def Let_def intro!: wp_rules split: option.split prod.split)

lemma wp_dirlink_loop [wp_rules]: "keeps_view dv \<Longrightarrow> (\<And>r s'. view s' = view s \<Longrightarrow> Q (r, s')) \<Longrightarrow> wp Q (dirlink_loop n dv i off s)"
proof (induction n arbitrary: off s)
  case 0
  then show ?case by (simp add: dirlink_loop.simps)
next
  case (Suc n)
  then show ?case by (auto simp: dirlink_loop.simps Let_def intro!: wp_rules Suc.IH split: option.split prod.split)
qed

lemma wp_dirlink [wp_rules]: "keeps_view dv \<Longrightarrow> (\<And>r s'. view s' = view s \<Longrightarrow> Q (r, s')) \<Longrightarrow> wp Q (dirlink dv i nm n s)"
  by (auto simp: dirlink_def Let_def intro!: wp_rules split: option.split prod.split)

lemma wp_namex_loop [wp_rules]: "(\<And>r d s'. view s' = view s \<Longrightarrow> Q (r, d, s')) \<Longrightarrow> wp Q (namex_loop path np nm ip s)"
proof (induction "length path" arbitrary: path np nm ip s rule: less_induct)
  case less
  show ?case
    by (subst namex_loop.simps) (auto simp: less.prems dest: skipelem_shorter intro!: wp_rules less.hyps split: option.split)
qed

lemma wp_namex [wp_rules]: "(\<And>r d s'. view s' = view s \<Longrightarrow> Q (r, d, s')) \<Longrightarrow> wp Q (namex path np nm s)"
  by (auto simp: namex_def Let_def intro!: wp_rules split: option.split prod.split)

lemma wp_namei [wp_rules]: "(\<And>r s'. view s' = view s \<Longrightarrow> Q (r, s')) \<Longrightarrow> wp Q (namei path s)"
  by (auto simp: namei_def Let_def intro!: wp_rules split: option.split prod.split)

lemma wp_nameiparent [wp_rules]: "(\<And>r d s'. view s' = view s \<Longrightarrow> Q (r, d, s')) \<Longrightarrow> wp Q (nameiparent path nm s)"
  by (auto simp: nameiparent_def Let_def intro!: wp_rules split: option.split prod.split)

section \<open>Pipes, processes and the console\<close>

lemma wp_proc_killed [wp_rules]: "(\<And>x. Q x) \<Longrightarrow> wp Q (proc_killed s)"
  by (simp add: proc_killed_def split: option.split)

lemma wp_myproc [wp_rules]: "(\<And>me. curproc s = Some me \<Longrightarrow> Q (ptable s ! me)) \<Longrightarrow> wp Q (myproc s)"
  by (simp add: myproc_def split: option.split)

lemma wp_pipeclose [wp_rules]: "(\<And>s'. view s' = view s \<Longrightarrow> Q s') \<Longrightarrow> wp Q (pipeclose p w s)"
  by (auto simp: pipeclose_def Let_def intro!: wp_rules split: option.split prod.split)

lemma wp_pipewrite_from [wp_rules]: "(\<And>r s'. view s' = view s \<Longrightarrow> Q (r, s')) \<Longrightarrow> wp Q (pipewrite_from p addr n i s)"
proof (induction "nat (sint n) - i" arbitrary: i s rule: less_induct)
  case less
  show ?case by (subst pipewrite_from.simps) (auto simp: less.prems intro!: wp_rules less.hyps)
qed

lemma wp_pipewrite [wp_rules]: "(\<And>r s'. view s' = view s \<Longrightarrow> Q (r, s')) \<Longrightarrow> wp Q (pipewrite p addr n s)"
  by (auto simp: pipewrite_def Let_def intro!: wp_rules split: option.split prod.split outcome.split)

lemma view_piperead_copy: "piperead_copy p n acc s = (d, s') \<Longrightarrow> view s' = view s"
  by (induction n arbitrary: acc s) (auto split: if_splits)

lemma wp_piperead_from [wp_rules]: "(\<And>r s'. view s' = view s \<Longrightarrow> Q (r, s')) \<Longrightarrow> wp Q (piperead_from p n s)"
  by (auto simp: piperead_from_def Let_def dest: view_piperead_copy intro!: wp_rules split: prod.split)

lemma wp_piperead [wp_rules]: "(\<And>r d s'. view s' = view s \<Longrightarrow> Q (r, d, s')) \<Longrightarrow> wp Q (piperead p n s)"
  by (auto simp: piperead_def Let_def intro!: wp_rules split: option.split prod.split outcome.split)

lemma wp_kill [wp_rules]: "(\<And>r s'. view s' = view s \<Longrightarrow> Q (r, s')) \<Longrightarrow> wp Q (kill target s)"
  by (auto simp: kill_def Let_def fds_def dead_def intro!: wp_rules split: option.split prod.split)

lemma wp_sched_enter [wp_rules]: "(\<And>s'. view s' = view s \<Longrightarrow> Q s') \<Longrightarrow> wp Q (sched_enter s)"
  by (auto simp: sched_enter_def Let_def intro!: wp_rules split: option.split prod.split)

lemma wp_growproc [wp_rules]: "(\<And>r s'. view s' = view s \<Longrightarrow> Q (r, s')) \<Longrightarrow> wp Q (growproc n s)"
  by (auto simp: growproc_def Let_def intro!: wp_rules split: option.split prod.split)

lemma view_nth: "view s' = view s \<Longrightarrow> i < length (ptable s) \<Longrightarrow> fds (ptable s' ! i) = fds (ptable s ! i)"
  unfolding view_def by (metis length_map nth_map prod.inject)

lemma view_reap:
  assumes "view s' = view s" "i < length (ptable s)" "state (ptable s ! i) = ZOMBIE"
  shows "view (upd_proc i (\<lambda>x. x\<lparr>state := UNUSED, pid := 0, parent := None, pname := (pname x)[0 := 0], killed := False\<rparr>) s') = view s"
  using view_nth [OF assms(1,2)] assms(1,3) by (subst view_upd_proc) (auto simp: fds_def dead_def)

lemma wp_wait_scan [wp_rules]: "(\<And>r s'. view s' = view s \<Longrightarrow> Q (r, s')) \<Longrightarrow> wp Q (wait_scan me s)"
  by (auto simp: wait_scan_def Let_def view_reap dest!: find_index_SomeD intro!: wp_rules split: option.split)

lemma wp_wait [wp_rules]: "(\<And>r s'. view s' = view s \<Longrightarrow> Q (r, s')) \<Longrightarrow> wp Q (wait s)"
  by (auto simp: wait_def Let_def intro!: wp_rules split: option.split prod.split outcome.split)

lemma wp_consputc [wp_rules]: "(\<And>s'. view s' = view s \<Longrightarrow> Q s') \<Longrightarrow> wp Q (consputc c s)"
  by (auto simp: consputc_def Let_def putc_def intro!: wp_rules split: option.split prod.split)

lemma wp_consputs [wp_rules]: "(\<And>s'. view s' = view s \<Longrightarrow> Q s') \<Longrightarrow> wp Q (consputs cs s)"
proof (induction cs arbitrary: s)
  case Nil
  then show ?case by simp
next
  case (Cons x xs)
  then show ?case by (auto intro!: wp_rules Cons.IH split: option.split prod.split)
qed

lemma wp_printint [wp_rules]: "(\<And>s'. view s' = view s \<Longrightarrow> Q s') \<Longrightarrow> wp Q (printint a b c s)"
  by (auto simp: printint_def Let_def intro!: wp_rules split: option.split prod.split)

lemma wp_cprintf_loop [wp_rules]: "(\<And>s'. view s' = view s \<Longrightarrow> Q s') \<Longrightarrow> wp Q (cprintf_loop fmt args s)"
proof (induction "length fmt" arbitrary: fmt args s rule: less_induct)
  case less
  show ?case by (cases fmt) (auto simp: less.prems intro!: wp_rules less.hyps split: list.split arg.split)
qed

lemma wp_cprintf [wp_rules]: "(\<And>s'. view s' = view s \<Longrightarrow> Q s') \<Longrightarrow> wp Q (cprintf fmt args s)"
  by (auto simp: cprintf_def Let_def intro!: wp_rules split: option.split prod.split)

section \<open>System calls that open and close nothing\<close>

lemma wp_uload [wp_rules]: "(\<And>x. Q x) \<Longrightarrow> wp Q (uload va s)"
  by (auto simp: uload_def Let_def intro!: wp_rules split: option.split prod.split)

lemma wp_uload32 [wp_rules]: "(\<And>x. Q x) \<Longrightarrow> wp Q (uload32 va s)"
  by (auto simp: uload32_def Let_def intro!: wp_rules split: option.split prod.split)

lemma wp_ustore [wp_rules]: "(\<And>s'. view s' = view s \<Longrightarrow> Q s') \<Longrightarrow> wp Q (ustore va xs s)"
proof (induction xs arbitrary: va s)
  case Nil
  then show ?case by simp
next
  case (Cons x xs)
  then show ?case by (auto intro!: wp_rules Cons.IH split: option.split prod.split)
qed

lemma wp_fetchint [wp_rules]: "(\<And>x. Q x) \<Longrightarrow> wp Q (fetchint p a s)"
  by (auto simp: fetchint_def Let_def intro!: wp_rules split: option.split prod.split)

lemma wp_fetchstr_loop [wp_rules]: "(\<And>x. Q x) \<Longrightarrow> wp Q (fetchstr_loop n a acc s)"
proof (induction n arbitrary: a acc)
  case 0
  then show ?case by (simp add: fetchstr_loop.simps)
next
  case (Suc n)
  then show ?case by (auto simp: fetchstr_loop.simps Let_def intro!: wp_rules Suc.IH split: option.split prod.split)
qed

lemma wp_fetchstr [wp_rules]: "(\<And>x. Q x) \<Longrightarrow> wp Q (fetchstr p a s)"
  by (auto simp: fetchstr_def Let_def intro!: wp_rules split: option.split prod.split)

lemma wp_argint [wp_rules]: "(\<And>x. Q x) \<Longrightarrow> wp Q (argint n s)"
  by (auto simp: argint_def Let_def intro!: wp_rules split: option.split prod.split)

lemma wp_argptr [wp_rules]: "(\<And>x. Q x) \<Longrightarrow> wp Q (argptr n len s)"
  by (auto simp: argptr_def Let_def intro!: wp_rules split: option.split prod.split)

lemma wp_argstr [wp_rules]: "(\<And>x. Q x) \<Longrightarrow> wp Q (argstr n s)"
  by (auto simp: argstr_def Let_def intro!: wp_rules split: option.split prod.split)

lemma wp_loaduvm_loop [wp_rules]: "keeps_view dv \<Longrightarrow> (\<And>r s'. view s' = view s \<Longrightarrow> Q (r, s')) \<Longrightarrow> wp Q (loaduvm_loop n dv pd a ip off len i s)"
proof (induction n arbitrary: i s)
  case 0
  then show ?case by (simp add: loaduvm_loop.simps)
next
  case (Suc n)
  then show ?case by (auto simp: loaduvm_loop.simps Let_def intro!: wp_rules Suc.IH split: option.split prod.split)
qed

lemma wp_loaduvm [wp_rules]: "keeps_view dv \<Longrightarrow> (\<And>r s'. view s' = view s \<Longrightarrow> Q (r, s')) \<Longrightarrow> wp Q (loaduvm dv pd a ip off len s)"
  by (auto simp: loaduvm_def Let_def intro!: wp_rules split: option.split prod.split)

lemma wp_exec_load [wp_rules]: "keeps_view dv \<Longrightarrow> (\<And>r s'. view s' = view s \<Longrightarrow> Q (r, s')) \<Longrightarrow> wp Q (exec_load n dv pd ip off new s)"
proof (induction n arbitrary: off new s)
  case 0
  then show ?case by (simp add: exec_load.simps)
next
  case (Suc n)
  then show ?case by (auto simp: exec_load.simps Let_def intro!: wp_rules Suc.IH split: option.split prod.split)
qed

lemma wp_exec_bad [wp_rules]: "(\<And>r s'. view s' = view s \<Longrightarrow> Q (r, s')) \<Longrightarrow> wp Q (exec_bad pd ip s)"
  by (auto simp: exec_bad_def Let_def intro!: wp_rules split: option.split prod.split)

lemma wp_exec_commit [wp_rules]: "(\<And>r s'. view s' = view s \<Longrightarrow> Q (r, s')) \<Longrightarrow> wp Q (exec_commit path argv pd ip en new s)"
  by (auto simp: exec_commit_def Let_def intro!: wp_rules split: option.split prod.split)

lemma wp_exec [wp_rules]: "keeps_view dv \<Longrightarrow> (\<And>r s'. view s' = view s \<Longrightarrow> Q (r, s')) \<Longrightarrow> wp Q (exec dv junk path argv s)"
  by (auto simp: exec_def Let_def intro!: wp_rules split: option.split prod.split)

lemma wp_fetch_argv [wp_rules]: "(\<And>x. Q x) \<Longrightarrow> wp Q (fetch_argv n p u acc s)"
proof (induction n arbitrary: u acc)
  case 0
  then show ?case by (simp add: fetch_argv.simps)
next
  case (Suc n)
  then show ?case by (auto simp: fetch_argv.simps Let_def intro!: wp_rules Suc.IH split: option.split prod.split)
qed

lemma wp_sys_exec [wp_rules]: "keeps_view dv \<Longrightarrow> (\<And>r s'. view s' = view s \<Longrightarrow> Q (r, s')) \<Longrightarrow> wp Q (sys_exec dv junk s)"
  by (auto simp: sys_exec_def Let_def intro!: wp_rules split: option.split prod.split)

lemma wp_isdirempty_loop [wp_rules]: "keeps_view dv \<Longrightarrow> (\<And>r s'. view s' = view s \<Longrightarrow> Q (r, s')) \<Longrightarrow> wp Q (isdirempty_loop n dv i off s)"
proof (induction n arbitrary: off s)
  case 0
  then show ?case by (simp add: isdirempty_loop.simps)
next
  case (Suc n)
  then show ?case by (auto simp: isdirempty_loop.simps Let_def intro!: wp_rules Suc.IH split: option.split prod.split)
qed

lemma wp_isdirempty [wp_rules]: "keeps_view dv \<Longrightarrow> (\<And>r s'. view s' = view s \<Longrightarrow> Q (r, s')) \<Longrightarrow> wp Q (isdirempty dv i s)"
  by (auto simp: isdirempty_def Let_def intro!: wp_rules split: option.split prod.split)

lemma wp_link_bad [wp_rules]: "(\<And>r s'. view s' = view s \<Longrightarrow> Q (r, s')) \<Longrightarrow> wp Q (link_bad ip s)"
  by (auto simp: link_bad_def Let_def intro!: wp_rules split: option.split prod.split)

lemma wp_sys_link [wp_rules]: "keeps_view dv \<Longrightarrow> (\<And>r s'. view s' = view s \<Longrightarrow> Q (r, s')) \<Longrightarrow> wp Q (sys_link dv s)"
  by (auto simp: sys_link_def Let_def intro!: wp_rules split: option.split prod.split)

lemma wp_sys_unlink [wp_rules]: "keeps_view dv \<Longrightarrow> (\<And>r s'. view s' = view s \<Longrightarrow> Q (r, s')) \<Longrightarrow> wp Q (sys_unlink dv s)"
  by (auto simp: sys_unlink_def Let_def intro!: wp_rules split: option.split prod.split)

lemma wp_create [wp_rules]: "keeps_view dv \<Longrightarrow> (\<And>r s'. view s' = view s \<Longrightarrow> Q (r, s')) \<Longrightarrow> wp Q (create dv path ty maj mnr s)"
  by (auto simp: create_def Let_def intro!: wp_rules split: option.split prod.split)

lemma wp_sys_mkdir [wp_rules]: "keeps_view dv \<Longrightarrow> (\<And>r s'. view s' = view s \<Longrightarrow> Q (r, s')) \<Longrightarrow> wp Q (sys_mkdir dv s)"
  by (auto simp: sys_mkdir_def Let_def intro!: wp_rules split: option.split prod.split)

lemma wp_sys_mknod [wp_rules]: "keeps_view dv \<Longrightarrow> (\<And>r s'. view s' = view s \<Longrightarrow> Q (r, s')) \<Longrightarrow> wp Q (sys_mknod dv s)"
  by (auto simp: sys_mknod_def Let_def intro!: wp_rules split: option.split prod.split)

lemma wp_sys_chdir [wp_rules]: "(\<And>r s'. view s' = view s \<Longrightarrow> Q (r, s')) \<Longrightarrow> wp Q (sys_chdir s)"
  by (auto simp: sys_chdir_def Let_def intro!: wp_rules split: option.split prod.split)

lemma wp_fileread [wp_rules]: "keeps_view dv \<Longrightarrow> (\<And>r d s'. view s' = view s \<Longrightarrow> Q (r, d, s')) \<Longrightarrow> wp Q (fileread dv f n s)"
  by (auto simp: fileread_def Let_def intro!: wp_rules split: option.split prod.split ftype.split)

lemma wp_filewrite [wp_rules]: "keeps_view dv \<Longrightarrow> (\<And>r s'. view s' = view s \<Longrightarrow> Q (r, s')) \<Longrightarrow> wp Q (filewrite dv f src n s)"
  by (auto simp: filewrite_def Let_def intro!: wp_rules split: option.split prod.split ftype.split)

lemma wp_filestat [wp_rules]: "(\<And>r d s'. view s' = view s \<Longrightarrow> Q (r, d, s')) \<Longrightarrow> wp Q (filestat f s)"
  by (auto simp: filestat_def Let_def intro!: wp_rules split: option.split prod.split)

lemma wp_argfd [wp_rules]: "(\<And>x. Q x) \<Longrightarrow> wp Q (argfd n s)"
  by (auto simp: argfd_def Let_def intro!: wp_rules split: option.split prod.split)

lemma wp_sys_read [wp_rules]: "keeps_view dv \<Longrightarrow> (\<And>r s'. view s' = view s \<Longrightarrow> Q (r, s')) \<Longrightarrow> wp Q (sys_read dv s)"
  by (auto simp: sys_read_def Let_def intro!: wp_rules split: option.split prod.split)

lemma wp_sys_write [wp_rules]: "keeps_view dv \<Longrightarrow> (\<And>r s'. view s' = view s \<Longrightarrow> Q (r, s')) \<Longrightarrow> wp Q (sys_write dv s)"
  by (auto simp: sys_write_def Let_def intro!: wp_rules split: option.split prod.split)

lemma wp_sys_fstat [wp_rules]: "(\<And>r s'. view s' = view s \<Longrightarrow> Q (r, s')) \<Longrightarrow> wp Q (sys_fstat s)"
  by (auto simp: sys_fstat_def Let_def intro!: wp_rules split: option.split prod.split)

lemma wp_sys_kill [wp_rules]: "(\<And>r s'. view s' = view s \<Longrightarrow> Q (r, s')) \<Longrightarrow> wp Q (sys_kill s)"
  by (auto simp: sys_kill_def Let_def intro!: wp_rules split: option.split prod.split)

lemma wp_sys_getpid [wp_rules]: "(\<And>r s'. view s' = view s \<Longrightarrow> Q (r, s')) \<Longrightarrow> wp Q (sys_getpid s)"
  by (auto simp: sys_getpid_def Let_def intro!: wp_rules split: option.split prod.split)

lemma wp_sys_sbrk [wp_rules]: "(\<And>r s'. view s' = view s \<Longrightarrow> Q (r, s')) \<Longrightarrow> wp Q (sys_sbrk s)"
  by (auto simp: sys_sbrk_def Let_def intro!: wp_rules split: option.split prod.split)

lemma wp_sys_uptime [wp_rules]: "(\<And>r s'. view s' = view s \<Longrightarrow> Q (r, s')) \<Longrightarrow> wp Q (sys_uptime s)"
  by (auto simp: sys_uptime_def Let_def intro!: wp_rules split: option.split prod.split)

lemma wp_sys_wait [wp_rules]: "(\<And>r s'. view s' = view s \<Longrightarrow> Q (r, s')) \<Longrightarrow> wp Q (sys_wait s)"
  by (auto simp: sys_wait_def Let_def intro!: wp_rules split: option.split prod.split)

lemma wp_sys_sleep_check [wp_rules]: "(\<And>r s'. view s' = view s \<Longrightarrow> Q (r, s')) \<Longrightarrow> wp Q (sys_sleep_check a n s)"
  by (auto simp: sys_sleep_check_def Let_def intro!: wp_rules split: option.split prod.split)

lemma wp_sys_sleep [wp_rules]: "(\<And>r s'. view s' = view s \<Longrightarrow> Q (r, s')) \<Longrightarrow> wp Q (sys_sleep s)"
  by (auto simp: sys_sleep_def Let_def intro!: wp_rules split: option.split prod.split outcome.split)

text \<open>The device table of this kernel holds the console alone; its driver keeps the view.\<close>

lemma wp_consoleread_loop [wp_rules]: "(\<And>r s'. view s' = view s \<Longrightarrow> Q (r, s')) \<Longrightarrow> wp Q (consoleread_loop target n dst s)"
proof (induction "nat (sint n)" arbitrary: n dst s rule: less_induct)
  case less
  have "nat (sint (n - 1)) < nat (sint n)" if "0 < sint n"
  proof -
    have "sint (n - 1) = sint n - 1"
      using that sint_range_size [of n] by (simp add: sint_sbintrunc' word_size signed_take_bit_int_eq_self_iff sint_word_ariths)
    then show ?thesis using that by simp
  qed
  then show ?case by (subst consoleread_loop.simps) (auto simp: Let_def less.prems intro!: wp_rules less.hyps)
qed

lemma wp_consoleread [wp_rules]: "(\<And>r d s'. view s' = view s \<Longrightarrow> Q (r, d, s')) \<Longrightarrow> wp Q (consoleread i n s)"
  by (auto simp: consoleread_def intro!: wp_rules split: outcome.split)

lemma wp_consolewrite [wp_rules]: "(\<And>r s'. view s' = view s \<Longrightarrow> Q (r, s')) \<Longrightarrow> wp Q (consolewrite i src n s)"
  by (auto simp: consolewrite_def intro!: wp_rules)

lemma keeps_view_console: "keeps_view console_devsw"
  unfolding keeps_view_def by (auto simp: console_devsw_def intro!: wp_rules split: if_splits)

end
