(* ===== verification/Descriptors.thy ===== *)
theory Descriptors
  imports Kernel_Frame
begin

text \<open>
  The reference counts of the file table (\<^verbatim>\<open>src/file.c\<close>, \<^verbatim>\<open>src/sysfile.c\<close>, \<^verbatim>\<open>fork\<close> and \<^verbatim>\<open>exit\<close> of \<^verbatim>\<open>src/proc.c\<close>): the count of every
  file is the number of descriptors that refer to it, over all processes, and every system call that runs to its end without sleeping keeps it so. Inside a call
  the two may differ by the references the call itself holds; these are tracked by a balance.
\<close>

section \<open>The invariant\<close>

definition descriptors :: "proc list \<Rightarrow> nat \<Rightarrow> nat" where
  "descriptors ps f = sum_list (map (\<lambda>p. count_list (ofile p) (Some f)) ps)"

definition refs_ok :: "'a kfile_scheme \<Rightarrow> bool" where
  "refs_ok s \<longleftrightarrow> (\<forall>f<length (ftable s). fref (ftable s ! f) = int (descriptors (ptable s) f)) \<and>
     (\<forall>p\<in>set (ptable s). length (ofile p) = NOFILE \<and> (\<forall>f. Some f \<in> set (ofile p) \<longrightarrow> f < length (ftable s)) \<and>
        (state p = UNUSED \<or> state p = ZOMBIE \<longrightarrow> ofile p = replicate NOFILE None))"

text \<open>The same on the view, with a balance \<open>w\<close>, a file table of \<open>L\<close> entries and a running process \<open>me\<close>.\<close>

definition counted :: "nat \<Rightarrow> (nat \<Rightarrow> int) \<Rightarrow> int list \<times> nat option \<times> (nat option list \<times> bool) list \<Rightarrow> bool" where
  "counted L w v \<longleftrightarrow> length (fst v) = L \<and>
     (\<forall>f<L. fst v ! f = int (sum_list (map (\<lambda>d. count_list (fst d) (Some f)) (snd (snd v)))) + w f) \<and>
     (\<forall>d\<in>set (snd (snd v)). length (fst d) = NOFILE \<and> (\<forall>f. Some f \<in> set (fst d) \<longrightarrow> f < L) \<and> (snd d \<longrightarrow> fst d = replicate NOFILE None))"

definition running :: "nat \<Rightarrow> int list \<times> nat option \<times> (nat option list \<times> bool) list \<Rightarrow> bool" where
  "running me v \<longleftrightarrow> fst (snd v) = Some me \<and> me < length (snd (snd v)) \<and> \<not> snd (snd (snd v) ! me)"

abbreviation entry :: "int list \<times> nat option \<times> (nat option list \<times> bool) list \<Rightarrow> nat \<Rightarrow> nat option list \<times> bool" where
  "entry v i \<equiv> snd (snd v) ! i"

definition incr :: "nat \<Rightarrow> (nat \<Rightarrow> int) \<Rightarrow> nat \<Rightarrow> int" where
  "incr f w = (\<lambda>g. w g + (if g = f then 1 else 0))"

definition decr :: "nat \<Rightarrow> (nat \<Rightarrow> int) \<Rightarrow> nat \<Rightarrow> int" where
  "decr f w = (\<lambda>g. w g - (if g = f then 1 else 0))"

lemma balance_at [simp]: "incr f w g = w g + (if g = f then 1 else 0)" "decr f w g = w g - (if g = f then 1 else 0)"
  by (simp_all add: incr_def decr_def)

lemma balance [simp]: "decr f (incr f w) = w" "incr f (decr f w) = w" "decr f (incr g (incr f w)) = incr g w"
  by (auto simp: incr_def decr_def)

lemma refs_ok_view: "refs_ok s \<longleftrightarrow> counted (length (ftable s)) (\<lambda>_. 0) (view s)"
  by (simp add: refs_ok_def counted_def view_def descriptors_def fds_def dead_def comp_def)

lemma refs_ok_counted: "counted L (\<lambda>_. 0) (view s) \<Longrightarrow> refs_ok s"
proof -
  assume c: "counted L (\<lambda>_. 0) (view s)"
  then have "L = length (ftable s)" by (simp add: counted_def view_def)
  with c show ?thesis by (simp add: refs_ok_view)
qed

lemma refs_ok_fresh: "\<forall>p\<in>set (ptable s). ofile p = replicate NOFILE None \<Longrightarrow> \<forall>f\<in>set (ftable s). fref f = 0 \<Longrightarrow> refs_ok s"
proof -
  assume h: "\<forall>p\<in>set (ptable s). ofile p = replicate NOFILE None" "\<forall>f\<in>set (ftable s). fref f = 0"
  have "count_list (replicate n None) (Some f) = 0" for n and f :: nat by (induction n) simp_all
  then have "descriptors (ptable s) f = 0" for f using h(1) by (simp add: descriptors_def cong: map_cong)
  then show ?thesis using h by (auto simp: refs_ok_def)
qed

section \<open>Changing one list of descriptors\<close>

lemma count_list_update:
  "i < length xs \<Longrightarrow> int (count_list (xs[i := x]) y) = int (count_list xs y) + (if x = y then 1 else 0) - (if xs ! i = y then 1 else 0)"
proof -
  assume i: "i < length xs"
  then have "count_list xs y = count_list (take i xs) y + count_list (xs ! i # drop (Suc i) xs) y" by (metis count_list_append id_take_nth_drop)
  then show ?thesis using i by (simp add: upd_conv_take_nth_drop)
qed

lemma sum_list_map_update:
  "i < length xs \<Longrightarrow> int (sum_list (map g (xs[i := x]))) = int (sum_list (map g xs)) + int (g x) - int (g (xs ! i))"
proof (induction xs arbitrary: i)
  case (Cons a xs)
  then show ?case by (cases i) simp_all
qed simp

lemma view_ofile:
  assumes "i < length (ptable s)" "state (f (ptable s ! i)) = state (ptable s ! i)"
  shows "view (upd_proc i f s) = (fst (view s), fst (snd (view s)), (snd (snd (view s)))[i := (ofile (f (ptable s ! i)), snd (entry (view s) i))])"
  using assms by (simp add: view_def upd_proc_def map_update fds_def dead_def)

text \<open>Descriptor \<open>fd\<close> of process \<open>i\<close> changes from \<open>x\<close> to \<open>y\<close>: the balance of \<open>x\<close> grows, that of \<open>y\<close> shrinks.\<close>

lemma counted_set:
  assumes c: "counted L w (rs, c, ds)" and i: "i < length ds" "\<not> snd (ds ! i)" "fd < NOFILE" and y: "\<forall>f. y = Some f \<longrightarrow> f < L"
  shows "counted L (\<lambda>g. w g + (if fst (ds ! i) ! fd = Some g then 1 else 0) - (if y = Some g then 1 else 0))
    (rs, c, ds[i := ((fst (ds ! i))[fd := y], False)])"
proof -
  have d: "ds ! i \<in> set ds" using i(1) by simp
  then have len: "length (fst (ds ! i)) = NOFILE" using c by (simp add: counted_def)
  have "\<forall>d\<in>set (ds[i := ((fst (ds ! i))[fd := y], False)]). length (fst d) = NOFILE \<and> (\<forall>f. Some f \<in> set (fst d) \<longrightarrow> f < L) \<and> (snd d \<longrightarrow> fst d = replicate NOFILE None)"
    using c d y len by (auto simp: counted_def dest!: set_update_subset_insert [THEN subsetD])
  moreover have "int (sum_list (map (\<lambda>d. count_list (fst d) (Some f)) (ds[i := ((fst (ds ! i))[fd := y], False)]))) =
      int (sum_list (map (\<lambda>d. count_list (fst d) (Some f)) ds)) + (if y = Some f then 1 else 0) - (if fst (ds ! i) ! fd = Some f then 1 else 0)" for f
    using i len by (simp add: sum_list_map_update count_list_update)
  ultimately show ?thesis using c by (simp add: counted_def)
qed

text \<open>The reference count of file \<open>f\<close> changes by \<open>k\<close>.\<close>

lemma counted_ref:
  assumes "counted L w (rs, c, ds)" "f < L"
  shows "counted L (w(f := w f + k)) (rs[f := rs ! f + k], c, ds)"
  using assms by (auto simp: counted_def nth_list_update)

lemma view_fref: "f < length (ftable s) \<Longrightarrow> view (upd_file f g s) = ((fst (view s))[f := fref (g (ftable s ! f))], snd (view s))"
  by (simp add: view_def upd_file_def map_update)

abbreviation acc :: "nat \<Rightarrow> (nat \<Rightarrow> int) \<Rightarrow> nat \<Rightarrow> int list \<times> nat option \<times> (nat option list \<times> bool) list \<Rightarrow> bool" where
  "acc L w me v \<equiv> counted L w v \<and> running me v"

lemma fref_balance:
  assumes "counted L w (view s)" "f < L"
  shows "fref (ftable s ! f) = int (descriptors (ptable s) f) + w f" "f < length (ftable s)"
proof -
  show l: "f < length (ftable s)" using assms by (simp add: counted_def view_def)
  have "map fref (ftable s) ! f = int (descriptors (ptable s) f) + w f"
    using assms by (simp add: counted_def view_def descriptors_def fds_def comp_def del: nth_map)
  then show "fref (ftable s ! f) = int (descriptors (ptable s) f) + w f" using l by simp
qed

lemma counted_bump:
  assumes "counted L w (view s)" "f < L" "fref (g (ftable s ! f)) = fref (ftable s ! f) + k"
  shows "counted L (w(f := w f + k)) (view (upd_file f g s))" "running me (view (upd_file f g s)) = running me (view s)"
    "snd (view (upd_file f g s)) = snd (view s)"
proof -
  have l: "f < length (ftable s)" using fref_balance [OF assms(1,2)] by simp
  have "fst (view s) ! f = fref (ftable s ! f)" using l by (simp add: view_def)
  then show "counted L (w(f := w f + k)) (view (upd_file f g s))"
    using counted_ref [of L w "fst (view s)" "fst (snd (view s))" "snd (snd (view s))" f k] assms l by (simp add: view_fref)
  show "running me (view (upd_file f g s)) = running me (view s)" "snd (view (upd_file f g s)) = snd (view s)" using l by (simp_all add: view_fref running_def)
qed

lemma incr_upd: "w(f := w f + 1) = incr f w" "w(f := w f - 1) = decr f w"
  by (auto simp: incr_def decr_def)

section \<open>Files\<close>

lemma wp_filealloc:
  assumes "acc L w me (view s)"
    and "\<And>f s'. acc L (incr f w) me (view s') \<Longrightarrow> f < L \<Longrightarrow> Q (Some f, s')" "\<And>s'. view s' = view s \<Longrightarrow> Q (None, s')"
  shows "wp Q (filealloc s)"
proof -
  have "acc L (incr f w) me (view (upd_file f (\<lambda>x. x\<lparr>fref := 1\<rparr>) s'))" if "find_index (\<lambda>x. fref x = 0) (ftable s') = Some f" "view s' = view s" for f s'
  proof -
    have f: "f < length (ftable s')" "fref (ftable s' ! f) = 0" using find_index_SomeD [OF that(1)] by auto
    have c: "counted L w (view s')" "running me (view s')" using assms(1) that(2) by auto
    then have "f < L" using f(1) by (simp add: counted_def view_def)
    from counted_bump [OF c(1) this, of "\<lambda>x. x\<lparr>fref := 1\<rparr>" 1] f(2) c(2) show ?thesis by (simp add: incr_upd(1))
  qed
  moreover have "f < L" if "find_index (\<lambda>x. fref x = 0) (ftable s') = Some f" "view s' = view s" for f s'
    using find_index_SomeD [OF that(1)] that(2) assms(1) by (simp add: counted_def view_def) (metis length_map)
  ultimately have q: "Q (Some f, s2)"
    if "find_index (\<lambda>x. fref x = 0) (ftable s1) = Some f" "view s1 = view s" "view s2 = view (upd_file f (\<lambda>x. x\<lparr>fref := 1\<rparr>) s1)" for f s1 s2
    using that by (intro assms(2)) simp_all
  show ?thesis using assms(3) by (auto simp: filealloc_def intro!: wp_rules intro: q split: option.split)
qed

lemma wp_filedup:
  assumes "acc L w me (view s)" "f < L" "1 \<le> int (descriptors (ptable s) f) + w f"
    and "\<And>s'. acc L (incr f w) me (view s') \<Longrightarrow> snd (view s') = snd (view s) \<Longrightarrow> Q (f, s')"
  shows "wp Q (filedup f s)"
proof -
  have "acc L (incr f w) me (view (upd_file f (\<lambda>x. x\<lparr>fref := fref x + 1\<rparr>) s')) \<and> snd (view (upd_file f (\<lambda>x. x\<lparr>fref := fref x + 1\<rparr>) s')) = snd (view s) \<and> \<not> fref (ftable s' ! f) < 1"
    if "view s' = view s" for s'
  proof -
    have c: "counted L w (view s')" "running me (view s')" using assms(1) that by auto
    have "fref (ftable s' ! f) = fref (ftable s ! f)"
      using that fref_balance(2) [OF _ assms(2)] assms(1) c(1) unfolding view_def by (metis nth_map prod.inject)
    then have "\<not> fref (ftable s' ! f) < 1" using fref_balance [of L w s f] assms(1-3) by auto
    then show ?thesis using counted_bump [OF c(1) assms(2), of "\<lambda>x. x\<lparr>fref := fref x + 1\<rparr>" 1] c(2) that by (simp add: incr_upd(1))
  qed
  then show ?thesis using assms(4) by (auto simp: filedup_def intro!: wp_rules)
qed

lemma view_fref_eq: "view s' = view s \<Longrightarrow> f < length (ftable s) \<Longrightarrow> fref (ftable s' ! f) = fref (ftable s ! f)"
  unfolding view_def by (metis length_map nth_map prod.inject)

lemma wp_fileclose:
  assumes a: "acc L w me (view s)" "f < L" "1 \<le> int (descriptors (ptable s) f) + w f"
    and q: "\<And>s'. acc L (decr f w) me (view s') \<Longrightarrow> snd (view s') = snd (view s) \<Longrightarrow> Q s'"
  shows "wp Q (fileclose f s)"
proof -
  have c: "counted L w (view s')" "running me (view s')" "1 \<le> fref (ftable s' ! f)" if "view s' = view s" for s'
    using a that view_fref_eq [OF that, of f] fref_balance [of L w s f] by auto
  have d: "acc L (decr f w) me (view (upd_file f g s')) \<and> snd (view (upd_file f g s')) = snd (view s)"
    if "view s' = view s" "fref (g (ftable s' ! f)) = fref (ftable s' ! f) + - 1" for s' g
    using counted_bump [OF c(1) [OF that(1)] a(2), of g "- 1"] that(2) c(2) [OF that(1)] that(1) by (simp add: incr_upd)
  have one: "Q s2" if "view s1 = view s" "view s2 = view (upd_file f (\<lambda>x. x\<lparr>fref := fref x - 1\<rparr>) s1)" for s1 s2
    using d [OF that(1), of "\<lambda>x. x\<lparr>fref := fref x - 1\<rparr>"] that by (intro q) simp_all
  have two: "Q s2" if "view s1 = view s" "\<not> 0 < fref (ftable s1 ! f) - 1"
      "view s2 = view (upd_file f (\<lambda>x. x\<lparr>fref := 0, ftyp := FD_NONE\<rparr>) (upd_file f (\<lambda>x. x\<lparr>fref := fref x - 1\<rparr>) s1))" for s1 s2
  proof -
    have f1: "fref (ftable s1 ! f) = 1" using c(3) [OF that(1)] that(2) by simp
    have "f < length (ftable s1)" using fref_balance(2) [OF c(1) [OF that(1)] a(2)] .
    then have "upd_file f (\<lambda>x. x\<lparr>fref := 0, ftyp := FD_NONE\<rparr>) (upd_file f (\<lambda>x. x\<lparr>fref := fref x - 1\<rparr>) s1) = upd_file f (\<lambda>x. x\<lparr>fref := 0, ftyp := FD_NONE\<rparr>) s1"
      by (simp add: upd_file_def)
    then show ?thesis using d [OF that(1), of "\<lambda>x. x\<lparr>fref := 0, ftyp := FD_NONE\<rparr>"] that f1 by (intro q) simp_all
  qed
  have n: "ftable (upd_file f g s1) ! f = g (ftable s1 ! f)" if "view s1 = view s" for s1 g
    using fref_balance(2) [OF c(1) [OF that] a(2)] by (simp add: upd_file_def)
  have "\<not> fref (ftable s1 ! f) < 1" if "view s1 = view s" for s1 using c(3) [OF that] by simp
  then show ?thesis by (auto simp: fileclose_def Let_def n intro!: wp_rules intro: one two split: ftype.split option.split)
qed

section \<open>Descriptors\<close>

lemma running_proc: "running me (view s) \<Longrightarrow> curproc s = Some me \<and> me < length (ptable s) \<and> \<not> dead (ptable s ! me) \<and> entry (view s) me = fds (ptable s ! me)"
  by (auto simp: running_def view_def fds_def)

lemma counted_ofile:
  assumes "counted L w (view s)" "i < length (ptable s)"
  shows "length (ofile (ptable s ! i)) = NOFILE" "Some f \<in> set (ofile (ptable s ! i)) \<Longrightarrow> f < L \<and> 1 \<le> descriptors (ptable s) f"
proof -
  let ?p = "ptable s ! i"
  have p: "?p \<in> set (ptable s)" using assms(2) by simp
  then show "length (ofile ?p) = NOFILE" using assms(1) by (simp add: counted_def view_def fds_def)
  assume f: "Some f \<in> set (ofile ?p)"
  then have "f < L" using assms(1) p by (auto simp: counted_def view_def fds_def)
  moreover have "1 \<le> count_list (ofile ?p) (Some f)" using f count_list_0_iff [of "ofile ?p" "Some f"] by linarith
  moreover have "count_list (ofile ?p) (Some f) \<le> descriptors (ptable s) f" unfolding descriptors_def using p by (intro member_le_sum_list) auto
  ultimately show "f < L \<and> 1 \<le> descriptors (ptable s) f" by simp
qed

lemma counted_upd:
  assumes a: "acc L w me (view s)" and i: "i < length (ptable s)" "\<not> dead (ptable s ! i)" "fd < NOFILE" and y: "\<forall>f. y = Some f \<longrightarrow> f < L"
  shows "acc L (\<lambda>g. w g + (if ofile (ptable s ! i) ! fd = Some g then 1 else 0) - (if y = Some g then 1 else 0)) me
    (view (upd_proc i (\<lambda>p. p\<lparr>ofile := (ofile p)[fd := y]\<rparr>) s))"
proof -
  let ?s' = "upd_proc i (\<lambda>p. p\<lparr>ofile := (ofile p)[fd := y]\<rparr>) s"
  have e: "entry (view s) i = (ofile (ptable s ! i), False)" "i < length (snd (snd (view s)))" using i by (simp_all add: view_def fds_def)
  have v: "view ?s' = (fst (view s), fst (snd (view s)), (snd (snd (view s)))[i := ((ofile (ptable s ! i))[fd := y], False)])"
    using view_ofile [of i s "\<lambda>p. p\<lparr>ofile := (ofile p)[fd := y]\<rparr>"] i e(1) by simp
  have "running me (view ?s')" using a e v by (auto simp: running_def nth_list_update)
  then show ?thesis using counted_set [of L w "fst (view s)" "fst (snd (view s))" "snd (snd (view s))" i fd y] a i(3) y e v by simp
qed

lemma wp_fdalloc:
  assumes a: "acc L w me (view s)" "f < L"
    and q: "\<And>fd s'. acc L (decr f w) me (view s') \<Longrightarrow> descriptors (ptable s') f = descriptors (ptable s) f + 1 \<Longrightarrow> fd < NOFILE \<Longrightarrow>
      entry (view s') me = ((ofile (ptable s ! me))[fd := Some f], False) \<Longrightarrow> Q (Some fd, s')" "Q (None, s)"
  shows "wp Q (fdalloc f s)"
proof -
  have r: "curproc s = Some me" "me < length (ptable s)" "\<not> dead (ptable s ! me)" using running_proc a by blast+
  have len: "length (ofile (ptable s ! me)) = NOFILE" using counted_ofile(1) a(1) r(2) by blast
  have "Q (Some fd, upd_proc me (\<lambda>p. p\<lparr>ofile := (ofile p)[fd := Some f]\<rparr>) s)"
    if "find_index (\<lambda>x. x = None) (take NOFILE (ofile (ptable s ! me))) = Some fd" for fd
  proof -
    let ?s' = "upd_proc me (\<lambda>p. p\<lparr>ofile := (ofile p)[fd := Some f]\<rparr>) s"
    have fd: "fd < NOFILE" "ofile (ptable s ! me) ! fd = None" using find_index_SomeD [OF that] len by simp_all
    have "(\<lambda>g. w g + (if ofile (ptable s ! me) ! fd = Some g then 1 else 0) - (if Some f = Some g then 1 else 0)) = decr f w"
      using fd(2) by (auto simp: decr_def)
    with counted_upd [OF a(1) r(2,3) fd(1), of "Some f"] a(2) have c: "acc L (decr f w) me (view ?s')" by simp
    have "fref (ftable ?s' ! f) = fref (ftable s ! f)" by (simp add: upd_proc_def)
    then have "descriptors (ptable ?s') f = descriptors (ptable s) f + 1"
      using fref_balance(1) [of L "decr f w" ?s' f] fref_balance(1) [of L w s f] c a by (simp add: decr_def)
    moreover have "entry (view ?s') me = ((ofile (ptable s ! me))[fd := Some f], False)" using r by (simp add: view_def upd_proc_def fds_def dead_def)
    ultimately show ?thesis using c fd(1) by (intro q(1))
  qed
  then show ?thesis using r(1) q(2) by (simp add: fdalloc_def split: option.split)
qed

lemma wp_set_ofile:
  assumes a: "acc L w me (view s)" "fst (entry (view s) me) ! fd = Some f" "fd < NOFILE"
    and q: "\<And>s'. acc L (incr f w) me (view s') \<Longrightarrow> Q s'"
  shows "wp Q (set_ofile fd None s)"
proof -
  have r: "curproc s = Some me" "me < length (ptable s)" "\<not> dead (ptable s ! me)" "ofile (ptable s ! me) ! fd = Some f"
    using running_proc [of me s] a by (auto simp: fds_def)
  have "(\<lambda>g. w g + (if ofile (ptable s ! me) ! fd = Some g then 1 else 0) - (if None = Some g then 1 else 0)) = incr f w"
    using r(4) by (auto simp: incr_def)
  with counted_upd [OF a(1) r(2,3) a(3), of None] have "acc L (incr f w) me (view (upd_proc me (\<lambda>p. p\<lparr>ofile := (ofile p)[fd := None]\<rparr>) s))" by simp
  then show ?thesis using q r(1) by (simp add: set_ofile_def)
qed

lemma wp_argfd_file:
  assumes "acc L w me (view s)"
    and "Q None" "\<And>fd f. fd < NOFILE \<Longrightarrow> fst (entry (view s) me) ! fd = Some f \<Longrightarrow> f < L \<Longrightarrow> 1 \<le> descriptors (ptable s) f \<Longrightarrow> Q (Some (fd, f))"
  shows "wp Q (argfd n s)"
proof -
  have r: "curproc s = Some me" "me < length (ptable s)" "entry (view s) me = fds (ptable s ! me)" using running_proc [of me s] assms(1) by auto
  note len = counted_ofile [of L w s me] assms(1) r(2)
  have "Q (map_option (\<lambda>f. (unat fd, f)) (ofile (ptable s ! me) ! unat fd))" if "\<not> sint (fd :: u32) < 0" "\<not> int NOFILE \<le> sint fd" for fd
  proof -
    have fd: "unat fd < NOFILE" using that unat_sint [of fd] by linarith
    show ?thesis
    proof (cases "ofile (ptable s ! me) ! unat fd")
      case (Some f)
      then have "Some f \<in> set (ofile (ptable s ! me))" using fd len by (metis nth_mem)
      then show ?thesis using Some fd len r(3) by (simp add: assms(3) fds_def)
    qed (simp add: assms(2))
  qed
  then show ?thesis using assms(2) r(1) by (auto simp: argfd_def intro!: wp_argint wp_myproc split: option.split)
qed

section \<open>System calls\<close>

lemma wp_sys_dup:
  assumes "acc L (\<lambda>_. 0) me (view s)" "\<And>r s'. acc L (\<lambda>_. 0) me (view s') \<Longrightarrow> Q (r, s')"
  shows "wp Q (sys_dup s)"
  unfolding sys_dup_def
proof (simp, rule wp_argfd_file [OF assms(1)])
  fix fd f
  assume f: "f < L" "1 \<le> descriptors (ptable s) f"
  have "wp Q (bindR (filedup f s') (\<lambda>(_, s). Inr (of_nat fd', s)))"
    if "acc L (decr f (\<lambda>_. 0)) me (view s')" "descriptors (ptable s') f = descriptors (ptable s) f + 1" for fd' s'
    using that f assms(2) by (auto intro!: wp_filedup [where w = "decr f (\<lambda>_. 0)" and L = L and me = me])
  then show "wp Q (case Some (fd, f) of None \<Rightarrow> Inr (- 1, s) | Some (_, f) \<Rightarrow>
      bindR (fdalloc f s) (\<lambda>(fd, s). case fd of None \<Rightarrow> Inr (- 1, s) | Some fd \<Rightarrow> bindR (filedup f s) (\<lambda>(_, s). Inr (of_nat fd, s))))"
    using assms f(1) by (auto intro!: wp_fdalloc [OF assms(1) f(1)])
qed (use assms in simp)

lemma wp_sys_close:
  assumes "acc L (\<lambda>_. 0) me (view s)" "\<And>r s'. acc L (\<lambda>_. 0) me (view s') \<Longrightarrow> Q (r, s')"
  shows "wp Q (sys_close s)"
  unfolding sys_close_def
proof (simp, rule wp_argfd_file [OF assms(1)])
  fix fd f
  assume f: "fd < NOFILE" "fst (entry (view s) me) ! fd = Some f" "f < L"
  have "wp Q (bindR (fileclose f s') (\<lambda>s. Inr (0, s)))" if "acc L (incr f (\<lambda>_. 0)) me (view s')" for s'
    using that f(3) assms(2) by (auto intro!: wp_fileclose [where w = "incr f (\<lambda>_. 0)" and L = L and me = me])
  then show "wp Q (case Some (fd, f) of None \<Rightarrow> Inr (- 1, s) | Some (fd, f) \<Rightarrow> bindR (set_ofile fd None s) (\<lambda>s. bindR (fileclose f s) (\<lambda>s. Inr (0, s))))"
    using f by (auto intro!: wp_set_ofile [OF assms(1)])
qed (use assms in simp)

lemma wp_open_file:
  assumes "acc L (\<lambda>_. 0) me (view s)" "\<And>r s'. acc L (\<lambda>_. 0) me (view s') \<Longrightarrow> Q (r, s')"
  shows "wp Q (open_file omode ip s)"
proof -
  have fail: "wp Q (open_fail (Some f) ip s')" if "acc L (incr f (\<lambda>_. 0)) me (view s')" "f < L" for f s'
    unfolding open_fail_def using that assms(2) by (auto intro!: wp_rules wp_fileclose [where w = "incr f (\<lambda>_. 0)" and L = L and me = me])
  have none: "wp Q (open_fail None ip s')" if "view s' = view s" for s'
    unfolding open_fail_def using that assms by (auto intro!: wp_rules)
  have "wp Q (bindR (fdalloc f s') (\<lambda>(fd, s). case fd of
           None \<Rightarrow> open_fail (Some f) ip s
         | Some fd \<Rightarrow>
             bindR (iunlock (Some ip) s) (\<lambda>s.
             Inr (of_nat fd, upd_file f (\<lambda>x. x\<lparr>ftyp := FD_INODE, fip := Some ip, foff := 0,
               readable := (omode AND O_WRONLY = 0),
               writable := (omode AND O_WRONLY \<noteq> 0 \<or> omode AND O_RDWR \<noteq> 0)\<rparr>) s))))"
    if "acc L (incr f (\<lambda>_. 0)) me (view s')" "f < L" for f s'
    using fail [OF that] assms(2) by (auto intro!: wp_rules wp_fdalloc [OF that])
  then show ?thesis unfolding open_file_def using none by (auto intro!: wp_filealloc [OF assms(1)] split: option.split)
qed

lemma wp_sys_open:
  assumes "keeps_view dv" "acc L (\<lambda>_. 0) me (view s)" "\<And>r s'. acc L (\<lambda>_. 0) me (view s') \<Longrightarrow> Q (r, s')"
  shows "wp Q (sys_open dv s)"
  unfolding sys_open_def using assms by (auto intro!: wp_rules wp_open_file [where L = L and me = me] split: option.split)

lemma wp_pipealloc:
  assumes "acc L w me (view s)" "\<And>g. 0 \<le> w g" "\<And>f0 f1 s'. acc L (incr f1 (incr f0 w)) me (view s') \<Longrightarrow> f0 < L \<Longrightarrow> f1 < L \<Longrightarrow> Q (Some (f0, f1), s')"
    "\<And>s'. acc L w me (view s') \<Longrightarrow> Q (None, s')"
  shows "wp Q (pipealloc s)"
proof -
  have close: "wp Q (bindR (fileclose f s') (\<lambda>s. Inr (None, s)))" if "acc L (incr f w) me (view s')" "f < L" for f s'
    using that assms(2) [of f] assms(4) by (auto intro!: wp_fileclose [where w = "incr f w" and L = L and me = me])
  have "wp (\<lambda>s. wp Q (bindR (fileclose f1 s) (\<lambda>s. Inr (None, s)))) (fileclose f0 s')" if "acc L (incr f1 (incr f0 w)) me (view s')" "f0 < L" "f1 < L" for f0 f1 s'
    by (rule wp_fileclose [where w = "incr f1 (incr f0 w)" and L = L and me = me])
      (use that assms(2) [of f0] in \<open>auto intro!: close simp del: wp_simps(3)\<close>)
  then have both: "wp Q (bindR (pipealloc_bad (Some f0) (Some f1) s') (\<lambda>s. Inr (None, s)))" if "acc L (incr f1 (incr f0 w)) me (view s')" "f0 < L" "f1 < L" for f0 f1 s'
    using that by (simp add: pipealloc_bad_def)
  let ?fill = "\<lambda>f0 f1 fo. \<lambda>(p, s).
         if p = 0 then bindR (pipealloc_bad (Some f0) fo s) (\<lambda>s. Inr (None, s))
         else let s = upd_pipe p (\<lambda>x. x\<lparr>readopen := True, writeopen := True, nwrite := 0, nread := 0\<rparr>) s;
                  s = initlock (LPipe p) ''pipe'' s;
                  s = upd_file f0 (\<lambda>x. x\<lparr>ftyp := FD_PIPE, readable := True, writable := False, fpipe := p\<rparr>) s;
                  s = upd_file f1 (\<lambda>x. x\<lparr>ftyp := FD_PIPE, readable := False, writable := True, fpipe := p\<rparr>) s in
           Inr (Some (f0, f1), s)"
  have "wp Q (bindR (kalloc s') (?fill f0 f1 (Some f1)))" if "acc L (incr f1 (incr f0 w)) me (view s')" "f0 < L" "f1 < L" for f0 f1 s'
    using that both by (auto simp: Let_def assms(3) simp del: wp_simps(3) intro!: wp_bindI [OF wp_kalloc [where Q = "\<lambda>(r, s1). view s1 = view s'"]])
  then have "wp Q (bindR (filealloc s') (\<lambda>(f1, s). case f1 of Some f1' \<Rightarrow> bindR (kalloc s) (?fill f0 f1' f1) | None \<Rightarrow> bindR (pipealloc_bad (Some f0) f1 s) (\<lambda>s. Inr (None, s))))"
    if "acc L (incr f0 w) me (view s')" "f0 < L" for f0 s'
    using that close by (auto simp: pipealloc_bad_def intro!: wp_filealloc [OF that(1)])
  then show ?thesis unfolding pipealloc_def
    using assms(1,4) by (auto simp: pipealloc_bad_def split: option.split intro!: wp_filealloc [OF assms(1)])
qed

lemma close_two:
  assumes "acc L (incr f0 (incr f1 (\<lambda>_. 0))) me (view s)" "f0 < L" "f1 < L" "\<And>r s'. acc L (\<lambda>_. 0) me (view s') \<Longrightarrow> Q (r, s')"
  shows "wp Q (bindR (fileclose f0 s) (\<lambda>s. bindR (fileclose f1 s) (\<lambda>s. Inr (- 1, s))))"
proof -
  have "wp Q (bindR (fileclose f1 s') (\<lambda>s. Inr (- 1, s)))" if "acc L (incr f1 (\<lambda>_. 0)) me (view s')" for s'
    using that assms(3,4) by (auto intro!: wp_fileclose [OF that])
  then show ?thesis using assms(2) by (auto intro!: wp_fileclose [OF assms(1)])
qed

lemma incr_swap: "incr f (incr g w) = incr g (incr f w)"
  by (auto simp: incr_def)

lemma wp_sys_pipe:
  assumes "acc L (\<lambda>_. 0) me (view s)" "\<And>r s'. acc L (\<lambda>_. 0) me (view s') \<Longrightarrow> Q (r, s')"
  shows "wp Q (sys_pipe s)"
proof -
  let ?bad = "\<lambda>fd0 r w s. bindR (case fd0 of None \<Rightarrow> Inr s | Some fd \<Rightarrow> set_ofile fd None s) (\<lambda>s.
         bindR (fileclose r s) (\<lambda>s. bindR (fileclose w s) (\<lambda>s. Inr (- 1, s))))"
  have bad: "wp Q (?bad (Some fd) f0 f1 s')"
    if a: "acc L (incr f1 (\<lambda>_. 0)) me (view s')" and f: "f0 < L" "f1 < L" "fd < NOFILE" "fst (entry (view s') me) ! fd = Some f0" for fd f0 f1 s'
    using f assms(2) by (auto intro!: wp_set_ofile [OF a] close_two [where L = L and me = me, simplified])
  have none: "wp Q (?bad None f0 f1 s')" if "acc L (incr f1 (incr f0 (\<lambda>_. 0))) me (view s')" "f0 < L" "f1 < L" for f0 f1 s'
    using close_two [of L f0 f1 s' me Q] that assms(2) by (simp add: incr_swap [of f1])
  have snd: "wp Q (bindR (fdalloc f1 s') (\<lambda>(fd1, s). case fd1 of
       Some fd1 \<Rightarrow> bindR (ustore p (map (\<lambda>k. byte32 k (of_nat fd0)) [0..<4]) s) (\<lambda>s.
         bindR (ustore (p + 4) (map (\<lambda>k. byte32 k (of_nat fd1)) [0..<4]) s) (\<lambda>s. Inr (0, s)))
     | None \<Rightarrow> ?bad (Some fd0) f0 f1 s))"
    if a: "acc L (incr f1 (\<lambda>_. 0)) me (view s')" and f: "f0 < L" "f1 < L" "fd0 < NOFILE" "fst (entry (view s') me) ! fd0 = Some f0" for p fd0 f0 f1 s'
    using bad [OF a f] assms(2) by (auto intro!: wp_rules wp_fdalloc [OF a f(2)])
  let ?K = "\<lambda>p f0 f1. \<lambda>(fd0, s).
     bindR (if fd0 = None then Inr (None, s) else fdalloc f1 s) (\<lambda>(fd1, s).
     case (fd0, fd1) of
       (Some fd0, Some fd1) \<Rightarrow>
         bindR (ustore p (map (\<lambda>k. byte32 k (of_nat fd0)) [0..<4]) s) (\<lambda>s.
         bindR (ustore (p + 4) (map (\<lambda>k. byte32 k (of_nat fd1)) [0..<4]) s) (\<lambda>s. Inr (0, s)))
     | _ \<Rightarrow> ?bad fd0 f0 f1 s)"
  have "wp Q (bindR (fdalloc f0 s') (?K p f0 f1))"
    if a: "acc L (incr f1 (incr f0 (\<lambda>_. 0))) me (view s')" and f: "f0 < L" "f1 < L" for p f0 f1 s'
  proof (subst wp_simps(3), rule wp_fdalloc [OF a f(1)])
    fix fd and s2 :: "'a ksys_scheme"
    assume s2: "acc L (decr f0 (incr f1 (incr f0 (\<lambda>_. 0)))) me (view s2)" "fd < NOFILE" "entry (view s2) me = ((ofile (ptable s' ! me))[fd := Some f0], False)"
    have "fst (entry (view s2) me) ! fd = Some f0" using s2(2,3) counted_ofile(1) [of L _ s' me] running_proc [of me s'] a by auto
    then have "wp Q (bindR (fdalloc f1 s2) (\<lambda>(fd1, s). case fd1 of
       Some fd1 \<Rightarrow> bindR (ustore p (map (\<lambda>k. byte32 k (of_nat fd)) [0..<4]) s) (\<lambda>s.
         bindR (ustore (p + 4) (map (\<lambda>k. byte32 k (of_nat fd1)) [0..<4]) s) (\<lambda>s. Inr (0, s)))
     | None \<Rightarrow> ?bad (Some fd) f0 f1 s))"
      using s2 f by (intro snd) auto
    then show "wp Q (?K p f0 f1 (Some fd, s2))" by simp
  next
    show "wp Q (?K p f0 f1 (None, s'))" using none [OF a f] by simp
  qed
  then show ?thesis unfolding sys_pipe_def
    using assms by (auto intro!: wp_argptr wp_pipealloc [OF assms(1)] split: option.split)
qed

section \<open>Processes\<close>

lemma view_upd:
  "i < length (ptable s) \<Longrightarrow> view (upd_proc i f s) = (fst (view s), fst (snd (view s)), (snd (snd (view s)))[i := fds (f (ptable s ! i))])"
  by (simp add: view_def upd_proc_def map_update)

lemma entry_fds: "i < length (ptable s) \<Longrightarrow> entry (view s) i = fds (ptable s ! i)"
  by (simp add: view_def)

lemma view_length: "length (snd (snd (view s))) = length (ptable s)"
  by (simp add: view_def)

text \<open>A process other than the running one that has no descriptors may change its state.\<close>

lemma counted_state:
  assumes "counted L w (view s)" "i < length (ptable s)" "ofile (ptable s ! i) = replicate NOFILE None" "ofile (f (ptable s ! i)) = replicate NOFILE None"
  shows "counted L w (view (upd_proc i f s))"
proof -
  let ?ds = "snd (snd (view s))"
  have e: "fst (?ds ! i) = replicate NOFILE None" using assms(2,3) by (simp add: entry_fds fds_def)
  have n: "fst (fds (f (ptable s ! i))) = replicate NOFILE None" using assms(4) by (simp add: fds_def)
  have "map fst (?ds[i := fds (f (ptable s ! i))]) = map fst ?ds" using e n by (simp add: map_update) (metis list_update_id map_update)
  then have m: "map (\<lambda>d. g (fst d)) (?ds[i := fds (f (ptable s ! i))]) = map (\<lambda>d. g (fst d)) ?ds" for g :: "nat option list \<Rightarrow> nat"
  proof -
    have "map (\<lambda>d. g (fst d)) xs = map g (map fst xs)" for xs :: "(nat option list \<times> bool) list" by simp
    with \<open>map fst _ = map fst _\<close> show ?thesis by metis
  qed
  have d: "\<forall>d\<in>set (?ds[i := fds (f (ptable s ! i))]). length (fst d) = NOFILE \<and> (\<forall>f. Some f \<in> set (fst d) \<longrightarrow> f < L) \<and> (snd d \<longrightarrow> fst d = replicate NOFILE None)"
    using assms(1) n by (auto simp: counted_def dest!: set_update_subset_insert [THEN subsetD])
  show ?thesis
    using assms(1) d m [of "\<lambda>xs. count_list xs (Some g)" for g] by (simp add: view_upd [OF assms(2)] counted_def)
qed

lemma acc_state:
  assumes "acc L w me (view s)" "i < length (ptable s)" "i \<noteq> me" "ofile (ptable s ! i) = replicate NOFILE None" "ofile (f (ptable s ! i)) = replicate NOFILE None"
  shows "acc L w me (view (upd_proc i f s))"
  using counted_state [of L w s i f] assms by (simp add: view_upd [OF assms(2)] running_def)

lemma acc_unused:
  assumes "acc L w me (view s)" "i < length (ptable s)" "dead (ptable s ! i)"
  shows "i \<noteq> me" "ofile (ptable s ! i) = replicate NOFILE None"
proof -
  show "i \<noteq> me" using assms running_proc by blast
  have "fds (ptable s ! i) \<in> set (snd (snd (view s)))" using assms(2) by (simp add: view_def)
  then show "ofile (ptable s ! i) = replicate NOFILE None" using assms(1,3) by (auto simp: counted_def fds_def)
qed

lemma wp_allocproc:
  assumes a: "acc L w me (view s)"
    and q: "\<And>c s'. acc L w me (view s') \<Longrightarrow> c < length (snd (snd (view s'))) \<Longrightarrow> c \<noteq> me \<Longrightarrow> entry (view s') c = (replicate NOFILE None, False) \<Longrightarrow> Q (Some c, s')"
      "\<And>s'. acc L w me (view s') \<Longrightarrow> Q (None, s')"
  shows "wp Q (allocproc forkret s)"
proof -
  let ?new = "\<lambda>i s. upd_proc i (\<lambda>p. p\<lparr>state := EMBRYO, pid := nextpid s\<rparr>) s"
  have born: "acc L w me (view (?new i s1)) \<and> i < length (ptable s1) \<and> i \<noteq> me \<and> entry (view (?new i s1)) i = (replicate NOFILE None, False)"
    if "find_index (\<lambda>p. state p = UNUSED) (ptable s1) = Some i" "view s1 = view s" for i s1
  proof -
    have i: "i < length (ptable s1)" "dead (ptable s1 ! i)" using find_index_SomeD [OF that(1)] by (auto simp: dead_def)
    have a1: "acc L w me (view s1)" using a that(2) by simp
    note u = acc_unused [OF a1 i]
    have "acc L w me (view (?new i s1))" by (rule acc_state [OF a1 i(1) u]) (use u in simp)
    moreover have "entry (view (?new i s1)) i = (replicate NOFILE None, False)" using i(1) u(2) by (simp add: view_upd view_length fds_def dead_def)
    ultimately show ?thesis using i u by simp
  qed
  have some: "Q (Some i, s4)" if "find_index (\<lambda>p. state p = UNUSED) (ptable s1) = Some i" "view s1 = view s" "view s4 = view (?new i s1)" for i s1 s4
    using born [OF that(1,2)] that(3) by (intro q(1)) (simp_all add: view_length upd_proc_def)
  have none: "Q (None, upd_proc i (\<lambda>p. p\<lparr>state := UNUSED\<rparr>) s4)" if "find_index (\<lambda>p. state p = UNUSED) (ptable s1) = Some i" "view s1 = view s" "view s4 = view (?new i s1)" for i s1 s4
  proof (rule q(2), rule acc_state)
    note b = born [OF that(1,2)]
    show "acc L w me (view s4)" "i \<noteq> me" using b that(3) by simp_all
    show l: "i < length (ptable s4)" using b that(3) view_length [of s4] by (simp add: view_length upd_proc_def)
    show "ofile (ptable s4 ! i) = replicate NOFILE None" using b that(3) entry_fds [OF l] by (simp add: fds_def)
    then show "ofile ((ptable s4 ! i)\<lparr>state := UNUSED\<rparr>) = replicate NOFILE None" by simp
  qed
  let ?body = "\<lambda>s. case find_index (\<lambda>p. state p = UNUSED) (ptable s) of
       None \<Rightarrow> bindR (release LPtable s) (\<lambda>s. Inr (None, s))
     | Some i \<Rightarrow>
         let s = upd_proc i (\<lambda>p. p\<lparr>state := EMBRYO, pid := nextpid s\<rparr>) s;
             s = s\<lparr>nextpid := nextpid s + 1\<rparr> in
         bindR (release LPtable s) (\<lambda>s.
         bindR (kalloc s) (\<lambda>(r, s).
         let s = upd_proc i (\<lambda>p. p\<lparr>kstack := r\<rparr>) s in
         if r = 0 then Inr (None, upd_proc i (\<lambda>p. p\<lparr>state := UNUSED\<rparr>) s)
         else let tfp = r + KSTACKSIZE - TF_SIZE in
           Inr (Some i, upd_proc i (\<lambda>p. p\<lparr>tf_addr := tfp, tf := (tf p)(T_SSR := 0),
             context := (\<lambda>_. 0)(C_SR := 0x70000000, C_PR := forkret, CR 15 := tfp,
               CR 14 := r + KSTACKSIZE)\<rparr>) s)))"
  have "wp Q (?body s1)" if v: "view s1 = view s" for s1
  proof (cases "find_index (\<lambda>p. state p = UNUSED) (ptable s1)")
    case None
    have "Q (None, s')" if "view s' = view s" for s' using a that by (intro q(2)) simp
    with None v show ?thesis by (auto intro!: wp_rules)
  next
    case (Some i)
    with some [OF Some v] none [OF Some v] show ?thesis by (auto simp: Let_def intro!: wp_rules)
  qed
  then show ?thesis unfolding allocproc_def by (auto intro!: wp_acquire)
qed

lemma snd_view:
  assumes "snd (view s') = snd (view s)"
  shows "length (ptable s') = length (ptable s)" "i < length (ptable s) \<Longrightarrow> fds (ptable s' ! i) = fds (ptable s ! i)"
  using assms by (metis view_length) (metis assms entry_fds view_length)

lemma wp_fork_files:
  assumes "acc L (\<lambda>_. 0) me (view s)" "c < length (ptable s)" "c \<noteq> me" "\<not> snd (entry (view s) c)" "i + n = NOFILE"
    "\<forall>j. i \<le> j \<and> j < NOFILE \<longrightarrow> fst (entry (view s) c) ! j = None"
    and "\<And>s'. acc L (\<lambda>_. 0) me (view s') \<Longrightarrow> c < length (ptable s') \<Longrightarrow> \<not> snd (entry (view s') c) \<Longrightarrow> Q s'"
  shows "wp Q (fork_files me c i n s)"
  using assms
proof (induction n arbitrary: i s)
  case (Suc n)
  have me: "me < length (ptable s)" using running_proc Suc.prems(1) by blast
  have ih: "wp Q (fork_files me c (Suc i) n s')"
    if "acc L (\<lambda>_. 0) me (view s')" "c < length (ptable s')" "\<not> snd (entry (view s') c)" "\<forall>j. Suc i \<le> j \<and> j < NOFILE \<longrightarrow> fst (entry (view s') c) ! j = None" for s'
    by (rule Suc.IH) (use that Suc.prems in auto)
  show ?case
  proof (cases "ofile (ptable s ! me) ! i")
    case None
    then show ?thesis using ih [of s] Suc.prems by simp
  next
    case (Some f)
    then have f: "f < L" "1 \<le> descriptors (ptable s) f"
      using counted_ofile [of L _ s me] Suc.prems(1,5) me nth_mem [of i "ofile (ptable s ! me)"] by auto
    have "wp Q (fork_files me c (Suc i) n (upd_proc c (\<lambda>x. x\<lparr>ofile := (ofile x)[i := Some f]\<rparr>) s1))"
      if s1: "acc L (incr f (\<lambda>_. 0)) me (view s1)" "snd (view s1) = snd (view s)" for s1
    proof (rule ih)
      let ?s2 = "upd_proc c (\<lambda>x. x\<lparr>ofile := (ofile x)[i := Some f]\<rparr>) s1"
      have c1: "c < length (ptable s1)" "fds (ptable s1 ! c) = entry (view s) c" using snd_view [OF s1(2)] Suc.prems(2) by (simp_all add: entry_fds)
      then have c2: "\<not> dead (ptable s1 ! c)" "ofile (ptable s1 ! c) ! i = None" using Suc.prems(4-6) by (auto simp: fds_def prod_eq_iff)
      have i: "i < NOFILE" using Suc.prems(5) by simp
      have "(\<lambda>g. incr f (\<lambda>_. 0) g + (if ofile (ptable s1 ! c) ! i = Some g then 1 else 0) - (if Some f = Some g then 1 else 0)) = (\<lambda>_. 0)"
        using c2(2) by auto
      with counted_upd [OF s1(1) c1(1) c2(1) i, of "Some f"] f(1) show "acc L (\<lambda>_. 0) me (view ?s2)" by simp
      have e: "entry (view ?s2) c = ((ofile (ptable s1 ! c))[i := Some f], False)" using c1(1) c2(1) by (simp add: view_upd view_length fds_def dead_def)
      show "\<not> snd (entry (view ?s2) c)" "c < length (ptable ?s2)" using e c1(1) by (simp_all add: upd_proc_def)
      show "\<forall>j. Suc i \<le> j \<and> j < NOFILE \<longrightarrow> fst (entry (view ?s2) c) ! j = None" using e c1(2) Suc.prems(6) by (simp add: fds_def prod_eq_iff)
    qed
    then show ?thesis using Some f by (auto intro!: wp_filedup [OF Suc.prems(1) f(1)])
  qed
qed auto

lemma view_runnable [simp]:
  "i < length (snd (snd (view s))) \<Longrightarrow> \<not> snd (entry (view s) i) \<Longrightarrow> view (upd_proc i (\<lambda>x. x\<lparr>state := RUNNABLE\<rparr>) s) = view s"
  by (intro view_upd_proc) (simp add: entry_fds view_length fds_def dead_def)

lemma wp_fork:
  assumes "acc L (\<lambda>_. 0) me (view s)" "\<And>r s'. acc L (\<lambda>_. 0) me (view s') \<Longrightarrow> Q (r, s')"
  shows "wp Q (fork forkret s)"
proof -
  have free: "acc L (\<lambda>_. 0) me (view (upd_proc c (\<lambda>x. x\<lparr>kstack := 0, state := UNUSED\<rparr>) s2))"
    if "acc L (\<lambda>_. 0) me (view s1)" "c < length (snd (snd (view s1)))" "c \<noteq> me" "entry (view s1) c = (replicate NOFILE None, False)" "view s2 = view s1" for c s1 s2
    using that view_length [of s2] entry_fds [of c s2] by (intro acc_state) (simp_all add: fds_def)
  let ?tail = "\<lambda>c me s. case cwd (ptable s ! me) of
                 None \<Rightarrow> Inl Fault
               | Some i \<Rightarrow>
                   bindR (idup i s) (\<lambda>(i, s).
                   let s = upd_proc c (\<lambda>x. x\<lparr>cwd := Some i\<rparr>) s; id = pid (ptable s ! c);
                       s = upd_proc c (\<lambda>x. x\<lparr>state := RUNNABLE\<rparr>) s;
                       s = upd_proc c (\<lambda>x. x\<lparr>pname :=
                         safestrcpy_array (pname x) (array (pname (ptable s ! me)))\<rparr>) s in
                   Inr (id, s))"
  have tail: "wp Q (?tail c me s')" if "acc L (\<lambda>_. 0) me (view s')" "c < length (ptable s')" "\<not> snd (entry (view s') c)" for c s'
    using that assms(2) view_length [of s'] by (auto simp: Let_def intro!: wp_rules split: option.split)
  have files: "wp Q (bindR (fork_files me c 0 NOFILE s') (?tail c me))"
    if "acc L (\<lambda>_. 0) me (view s')" "c < length (snd (snd (view s')))" "c \<noteq> me" "entry (view s') c = (replicate NOFILE None, False)" for c s'
    using that view_length [of s'] tail by (subst wp_simps(3)) (rule wp_fork_files [where L = L and me = me], auto)
  have "wp Q (case curproc s1 of None \<Rightarrow> Inl Fault | Some me \<Rightarrow>
             bindR (copyuvm (pgdir (ptable s1 ! me)) (sz (ptable s1 ! me)) s1) (\<lambda>(pd, s).
             let s = upd_proc c (\<lambda>x. x\<lparr>pgdir := pd\<rparr>) s in
             if pd = 0
             then bindR (kfree (kstack (ptable s ! c)) s) (\<lambda>s.
               Inr (- 1, upd_proc c (\<lambda>x. x\<lparr>kstack := 0, state := UNUSED\<rparr>) s))
             else let p = ptable s ! me;
                      s = upd_proc c (\<lambda>x. x\<lparr>sz := sz p, parent := Some me, tf := tf p\<rparr>) s in
               bindR (fork_files me c 0 NOFILE s) (?tail c me)))"
    if c: "acc L (\<lambda>_. 0) me (view s1)" "c < length (snd (snd (view s1)))" "c \<noteq> me" "entry (view s1) c = (replicate NOFILE None, False)" for c s1
  proof -
    have "curproc s1 = Some me" using running_proc c(1) by blast
    moreover have "Q (- 1, upd_proc c (\<lambda>x. x\<lparr>kstack := 0, state := UNUSED\<rparr>) s2)" if "view s2 = view s1" for s2
      by (rule assms(2)) (rule free [OF c that])
    moreover have "wp Q (bindR (fork_files me c 0 NOFILE s2) (?tail c me))" if "view s2 = view s1" for s2
      by (rule files) (use c that in simp_all)
    ultimately show ?thesis by (auto simp: Let_def simp del: wp_simps(3) intro!: wp_bindI [OF wp_copyuvm [where Q = "\<lambda>(r, s'). view s' = view s1"]] wp_bindI [OF wp_kfree [where Q = "\<lambda>s'. view s' = view s1"]])
  qed
  then show ?thesis unfolding fork_def using assms(2) by (auto simp del: wp_simps(3) intro!: wp_bindI [OF wp_allocproc [where Q = "\<lambda>(p, s'). acc L (\<lambda>_. 0) me (view s') \<and>
    (\<forall>c. p = Some c \<longrightarrow> c < length (snd (snd (view s'))) \<and> c \<noteq> me \<and> entry (view s') c = (replicate NOFILE None, False))", OF assms(1)]] split: option.split)
qed

lemma wp_exit_files:
  assumes "acc L (\<lambda>_. 0) me (view s)" "fd + n = NOFILE" "\<forall>j<fd. fst (entry (view s) me) ! j = None"
    and "\<And>s'. acc L (\<lambda>_. 0) me (view s') \<Longrightarrow> fst (entry (view s') me) = replicate NOFILE None \<Longrightarrow> Q s'"
  shows "wp Q (exit_files me fd n s)"
  using assms
proof (induction n arbitrary: fd s)
  case 0
  have "length (fst (entry (view s) me)) = NOFILE" using 0 running_proc [of me s] counted_ofile(1) [of L _ s me] by (auto simp: fds_def)
  then have "fst (entry (view s) me) = replicate NOFILE None" using 0 by (auto simp: list_eq_iff_nth_eq)
  then show ?case using 0 by simp
next
  case (Suc n)
  have me: "me < length (ptable s)" "entry (view s) me = fds (ptable s ! me)" "\<not> dead (ptable s ! me)" using running_proc Suc.prems(1) by blast+
  have fd: "fd < NOFILE" using Suc.prems(2) by simp
  have ih: "wp Q (exit_files me (Suc fd) n s')" if "acc L (\<lambda>_. 0) me (view s')" "\<forall>j<Suc fd. fst (entry (view s') me) ! j = None" for s'
    by (rule Suc.IH) (use that Suc.prems in auto)
  show ?case
  proof (cases "ofile (ptable s ! me) ! fd")
    case None
    then show ?thesis using ih [of s] Suc.prems me by (simp add: less_Suc_eq fds_def)
  next
    case (Some f)
    then have f: "f < L" "1 \<le> descriptors (ptable s) f"
      using counted_ofile [of L _ s me] Suc.prems(1) fd me(1) nth_mem [of fd "ofile (ptable s ! me)"] by auto
    have "wp Q (exit_files me (Suc fd) n (upd_proc me (\<lambda>x. x\<lparr>ofile := (ofile x)[fd := None]\<rparr>) s1))"
      if s1: "acc L (decr f (\<lambda>_. 0)) me (view s1)" "snd (view s1) = snd (view s)" for s1
    proof (rule ih)
      let ?s2 = "upd_proc me (\<lambda>x. x\<lparr>ofile := (ofile x)[fd := None]\<rparr>) s1"
      have c1: "me < length (ptable s1)" "fds (ptable s1 ! me) = fds (ptable s ! me)" using snd_view [OF s1(2)] me(1) by simp_all
      then have c2: "\<not> dead (ptable s1 ! me)" "ofile (ptable s1 ! me) = ofile (ptable s ! me)" using me(3) by (auto simp: fds_def)
      have "(\<lambda>g. decr f (\<lambda>_. 0) g + (if ofile (ptable s1 ! me) ! fd = Some g then 1 else 0) - (if None = Some g then 1 else 0)) = (\<lambda>_. 0)"
        using c2(2) Some by auto
      with counted_upd [OF s1(1) c1(1) c2(1) fd, of None] show "acc L (\<lambda>_. 0) me (view ?s2)" by simp
      have "entry (view ?s2) me = ((ofile (ptable s ! me))[fd := None], False)" using c1(1) c2 by (simp add: view_upd view_length fds_def dead_def)
      then show "\<forall>j<Suc fd. fst (entry (view ?s2) me) ! j = None"
        using Suc.prems(3) me(2) fd counted_ofile(1) [of L _ s me] me(1) Suc.prems(1) by (auto simp: less_Suc_eq fds_def nth_list_update)
    qed
    then show ?thesis using Some f by (auto intro!: wp_fileclose [OF Suc.prems(1) f(1)])
  qed
qed

lemma view_wakeup_proc [simp]: "view (wakeup_proc p s) = view s"
  by (simp add: wakeup_proc_def split: option.split)

lemma view_exit_children [simp]: "view (exit_children me j n s) = view s"
  by (induction n arbitrary: j s) (simp_all add: Let_def)

lemma wp_exit:
  assumes "acc L (\<lambda>_. 0) me (view s)" "\<And>s'. counted L (\<lambda>_. 0) (view s') \<Longrightarrow> Q s'"
  shows "wp Q (exit s)"
proof -
  have zombie: "Q s3" if "acc L (\<lambda>_. 0) me (view s1)" "fst (entry (view s1) me) = replicate NOFILE None" "view s2 = view s1"
      "view s3 = view (upd_proc me (\<lambda>x. x\<lparr>state := ZOMBIE\<rparr>) s2)" for s1 s2 s3
  proof (rule assms(2))
    have me: "me < length (ptable s2)" "ofile (ptable s2 ! me) = replicate NOFILE None" using that running_proc [of me s2] by (auto simp: fds_def)
    then show "counted L (\<lambda>_. 0) (view s3)" using counted_state [of L "\<lambda>_. 0" s2 me "\<lambda>x. x\<lparr>state := ZOMBIE\<rparr>"] that by simp
  qed
  let ?tail = "\<lambda>s. case cwd (ptable s ! me) of
            None \<Rightarrow> Inl Fault
          | Some i \<Rightarrow>
              bindR (iput i s) (\<lambda>s.
              let s = upd_proc me (\<lambda>x. x\<lparr>cwd := None\<rparr>) s in
              bindR (acquire LPtable s) (\<lambda>s.
              let s = wakeup_proc (parent (ptable s ! me)) s;
                  s = exit_children me 0 NPROC s;
                  s = upd_proc me (\<lambda>x. x\<lparr>state := ZOMBIE\<rparr>) s in
              sched_enter s))"
  have tail: "wp Q (?tail s1)" if "acc L (\<lambda>_. 0) me (view s1)" "fst (entry (view s1) me) = replicate NOFILE None" for s1
  proof -
    have "wp Q (sched_enter (upd_proc me (\<lambda>x. x\<lparr>state := ZOMBIE\<rparr>) s2))" if "view s2 = view s1" for s2
      by (rule wp_sched_enter) (rule zombie [OF \<open>acc _ _ _ (view s1)\<close> \<open>fst _ = _\<close> that])
    then show ?thesis by (auto simp: Let_def intro!: wp_iput wp_acquire split: option.split)
  qed
  have "wp Q (bindR (exit_files me 0 NOFILE s) ?tail)"
    by (subst wp_simps(3)) (rule wp_exit_files [OF assms(1)], auto intro: tail)
  moreover have "curproc s = Some me" using assms(1) running_proc by blast
  ultimately show ?thesis unfolding exit_def by simp
qed

section \<open>Dispatch\<close>

lemma wp_syscall:
  assumes "keeps_view dv" "acc L (\<lambda>_. 0) me (view s)" "syscalls dv junk forkret num = Some f"
  shows "wp (\<lambda>(r, s'). counted L (\<lambda>_. 0) (view s')) (f s)"
  using assms
  by (auto simp: syscalls_def Let_def sys_fork_def sys_exit_def
      intro!: wp_rules wp_fork [OF assms(2)] wp_exit [OF assms(2)] wp_sys_pipe [OF assms(2)] wp_sys_close [OF assms(2)] wp_sys_dup [OF assms(2)]
        wp_sys_open [OF assms(1,2)] split: if_splits)

lemma wp_do_syscall:
  assumes "keeps_view dv" "acc L (\<lambda>_. 0) me (view s)"
  shows "wp (\<lambda>s'. counted L (\<lambda>_. 0) (view s')) (do_syscall dv junk forkret tra s)"
proof (cases "syscalls dv junk forkret (sint tra div 4)")
  case None
  then show ?thesis using assms(2) by (auto simp: do_syscall_def Let_def intro!: wp_rules)
next
  case (Some f)
  have "wp (\<lambda>s'. counted L (\<lambda>_. 0) (view s')) (bindR (f s) (\<lambda>(ret, s). Inr (case ret of None \<Rightarrow> s | Some r \<Rightarrow> s\<lparr>bank := (bank s)(0 := r)\<rparr>)))"
    using wp_mono [OF wp_syscall [OF assms Some]] by (auto split: option.split)
  then show ?thesis using Some by (simp add: do_syscall_def Let_def)
qed

text \<open>The clock: a killed process leaves, a running one gives up the processor.\<close>

lemma wp_yield_enter:
  fixes s :: "'a kfile_scheme"
  assumes "acc L w me (view s)" "\<And>s'. view s' = view s \<Longrightarrow> Q s'"
  shows "wp Q (yield_enter s)"
proof -
  have "view (upd_proc i (\<lambda>p. p\<lparr>state := RUNNABLE\<rparr>) s') = view s" if "view s' = view s" "curproc s' = Some i" for s' :: "'a kfile_scheme" and i
    using assms(1) that running_proc [of me s'] by (subst view_runnable) (auto simp: running_def)
  then show ?thesis using assms(2) by (auto simp: yield_enter_def intro!: wp_rules split: option.split)
qed

lemma wp_do_timer:
  assumes "acc L (\<lambda>_. 0) me (view s)"
  shows "wp (\<lambda>s'. counted L (\<lambda>_. 0) (view s')) (do_timer s)"
proof -
  have "wp (\<lambda>s'. counted L (\<lambda>_. 0) (view s')) (exit s')" "wp (\<lambda>s'. counted L (\<lambda>_. 0) (view s')) (yield_enter s')" "counted L (\<lambda>_. 0) (view s')"
    if "view s' = view s" for s' :: "'a ksys_scheme"
    using assms that by (auto intro!: wp_exit [where L = L and me = me] wp_yield_enter [where L = L and me = me and w = "\<lambda>_. 0"])
  then show ?thesis by (auto simp: do_timer_def clock_tick_def intro!: wp_rules split: option.split)
qed

text \<open>
  C8. The reference count of every open file is the number of descriptors that refer to it, and processes that have exited
  hold no descriptor. Every system call of the running process that runs to its end without sleeping, whatever its number
  and arguments, and every clock interrupt of that kind keeps this; and up to the point where a call ends or first sleeps it
  does not panic in \<^verbatim>\<open>filedup\<close> or \<^verbatim>\<open>fileclose\<close>. Nothing is claimed of the state at a sleep inside a call: in \<^verbatim>\<open>exit\<close>, for example,
  \<^verbatim>\<open>fileclose\<close> may sleep in \<^verbatim>\<open>iput\<close> after it has dropped the reference and before the descriptor is cleared.
\<close>

theorem descriptors_counted:
  assumes "refs_ok s" "curproc s = Some me" "me < length (ptable s)" "state (ptable s ! me) = RUNNING"
    and "out = do_syscall console_devsw junk forkret tra s \<or> out = do_timer s"
  shows "case out of Inr s' \<Rightarrow> refs_ok s' | Inl e \<Rightarrow> e \<noteq> Panic ''filedup'' \<and> e \<noteq> Panic ''fileclose''"
proof -
  have a: "acc (length (ftable s)) (\<lambda>_. 0) me (view s)"
    using assms by (auto simp: refs_ok_view running_def view_def fds_def dead_def)
  from wp_do_syscall [OF keeps_view_console a, of junk forkret tra] wp_do_timer [OF a] assms(5) show ?thesis
    by (auto simp: wp_def benign_def split: sum.splits intro: refs_ok_counted)
qed

text \<open>Witness: a process with one file open twice duplicates its descriptor 3.\<close>

definition fd_demo :: ksys where
  "fd_demo = kbio.extend (zero_kbio\<lparr>curproc := Some 0,
       ptable := [zero_proc\<lparr>state := RUNNING, ofile := (replicate NOFILE None)[0 := Some 0, 3 := Some 0]\<rparr>]\<rparr>)
     \<lparr>icache = [zero_inode], pipes = (\<lambda>_. \<lparr>pdata = [], nread = 0, nwrite = 0, readopen = False, writeopen = False\<rparr>),
      ftable = [\<lparr>ftyp = FD_INODE, fref = 2, readable = True, writable = True, fpipe = 0, fip = Some 0, foff = 0\<rparr>],
      ibuf = replicate INPUT_BUF 0, in_r = 0, in_w = 0, in_e = 0, cons_locking = True, panicked = False, serial = [],
      bank = (\<lambda>_. 3), pr_reg = 0, ticks = 0\<rparr>"

lemma fd_demo_ok: "refs_ok fd_demo" "curproc fd_demo = Some 0" "0 < length (ptable fd_demo)" "state (ptable fd_demo ! 0) = RUNNING"
  by (auto simp: refs_ok_def fd_demo_def kbio.defs zero_kbio_def zero_proc_def descriptors_def NOFILE_def less_Suc_eq numeral_eq_Suc split: if_splits)

theorem descriptors_counted_witness:
  "refs_ok fd_demo \<and> (case do_syscall console_devsw [] 0 (4 * 17) fd_demo of Inr s' \<Rightarrow> refs_ok s' | Inl e \<Rightarrow> e \<noteq> Panic ''filedup'' \<and> e \<noteq> Panic ''fileclose'')"
  using fd_demo_ok(1) descriptors_counted [OF fd_demo_ok, of "do_syscall console_devsw [] 0 (4 * 17) fd_demo" "[]" 0 "4 * 17"] by simp

end
