(* ===== verification/Vm_Space.thy ===== *)
theory Vm_Space
  imports Vm
begin

text \<open>
  Address spaces. A page directory in memory is read as a map from its slots (the directory itself, its
  page tables, the frames they map) to pages; an address space is well formed when no two slots share a
  page. The lemmas show what \<^verbatim>\<open>mappages\<close> and \<^verbatim>\<open>copyuvm\<close> (\<^verbatim>\<open>src/vm.c\<close>) do to this map and that they
  leave all other pages alone.
\<close>

section \<open>Entries of a page\<close>

text \<open>The \<open>i\<close>-th word of the page \<open>t\<close>.\<close>

definition ent :: "u32 \<Rightarrow> nat \<Rightarrow> u32" where
  "ent t i = t + 4 * of_nat i"

lemma unat_ent: "page_addr t \<Longrightarrow> i < 1024 \<Longrightarrow> k < 4 \<Longrightarrow> unat (ent t i + of_nat k) = unat t + 4 * i + k"
proof -
  assume a: "page_addr t" "i < 1024" "k < 4"
  then have "unat (t + of_nat (4 * i + k)) = unat t + (4 * i + k)" by (intro unat_ptr_add) (simp add: page_addr_nat)
  then show ?thesis by (simp add: ent_def add.assoc)
qed

lemma ent_not_0: "page_addr t \<Longrightarrow> j < 1024 \<Longrightarrow> ent t j \<noteq> 0"
  using unat_ent [of t j 0] by (auto simp: page_addr_nat)

lemma ent_in_page:
  assumes "page_addr t" "i < 1024" "x \<in> {ent t i, ent t i + 1, ent t i + 2, ent t i + 3}"
  shows "in_page t x" "unat x div 4 = unat t div 4 + i"
proof -
  obtain k where k: "k < 4" "x = ent t i + of_nat k"
  proof -
    have "x = ent t i + of_nat 0 \<or> x = ent t i + of_nat 1 \<or> x = ent t i + of_nat 2 \<or> x = ent t i + of_nat 3" using assms(3) by auto
    then show ?thesis using that [of 0] that [of 1] that [of 2] that [of 3] by fastforce
  qed
  have x: "unat x = unat t + 4 * i + k" using unat_ent [OF assms(1,2) k(1)] k(2) by simp
  have t: "unat t mod 4096 = 0" using assms(1) by (simp add: page_addr_nat)
  then have "unat x div 4096 = unat t div 4096" using x assms(2) k(1) div_within [of "unat t" 4096 "4 * i + k"] by (simp add: add.assoc)
  then show "in_page t x" using assms(1) by (simp add: in_page_nat)
  have "4 dvd unat t" using t dvd_trans [of 4 4096 "unat t"] by (simp add: mod_eq_0_iff_dvd)
  then obtain r where "unat t = 4 * r" by (elim dvdE)
  then show "unat x div 4 = unat t div 4 + i" using x k(1) by simp
qed

lemma load_ent_cong: "page_addr t \<Longrightarrow> i < 1024 \<Longrightarrow> (\<And>x. in_page t x \<Longrightarrow> m' x = m x) \<Longrightarrow> load32 m' (ent t i) = load32 m (ent t i)"
  using ent_in_page(1) by (intro load32_cong) blast

lemma store_ent_frame: "page_addr t \<Longrightarrow> i < 1024 \<Longrightarrow> \<not> in_page t x \<Longrightarrow> store32 (ent t i) w m x = m x"
  using ent_in_page(1) by (intro store32_apart) blast

lemma load_store_ent:
  assumes "page_addr t" "page_addr u" "i < 1024" "j < 1024"
  shows "load32 (store32 (ent t i) w m) (ent u j) = (if t = u \<and> i = j then w else load32 m (ent u j))"
proof (cases "t = u \<and> i = j")
  case False
  have "load32 (store32 (ent t i) w m) (ent u j) = load32 m (ent u j)"
  proof (intro load32_cong store32_apart notI)
    fix x assume x: "x \<in> {ent u j, ent u j + 1, ent u j + 2, ent u j + 3}" "x \<in> {ent t i, ent t i + 1, ent t i + 2, ent t i + 3}"
    have "t = u" using pages_disjoint ent_in_page(1) assms x by meson
    moreover have "i = j" using ent_in_page(2) [OF assms(1,3) x(2)] ent_in_page(2) [OF assms(2,4) x(1)] \<open>t = u\<close> by simp
    ultimately show False using False by simp
  qed
  then show ?thesis unfolding if_not_P [OF False] .
qed simp

section \<open>Indices of an address\<close>

lemma PDX_nat: "unat (PDX a) = unat a div 4194304"
  and PTX_nat: "unat (PTX a) = unat a div 4096 mod 1024"
proof -
  have d: "unat (drop_bit k a) = unat a div 2 ^ k" for k unfolding unat_drop_bit_eq by (rule drop_bit_eq_div)
  have "unat a div 4194304 < 1024" using unat_lt32 [of a] by (simp add: div_less_iff_less_mult)
  moreover have m: "x AND 0x3FF = take_bit 10 x" for x :: u32 by (simp add: take_bit_eq_mask mask_eq_exp_minus_1)
  ultimately show "unat (PDX a) = unat a div 4194304"
    unfolding PDX_def m unsigned_take_bit_eq d by (simp add: take_bit_eq_mod)
  show "unat (PTX a) = unat a div 4096 mod 1024"
    unfolding PTX_def m unsigned_take_bit_eq d by (simp add: take_bit_eq_mod)
qed

text \<open>The slot of the \<open>n\<close>-th page of the address space.\<close>

definition dirx :: "nat \<Rightarrow> nat" where "dirx n = n div 1024"
definition tabx :: "nat \<Rightarrow> nat" where "tabx n = n mod 1024"

lemma index_ent:
  "pgdir + 4 * PDX a = ent pgdir (dirx (unat a div 4096))" "t + 4 * PTX a = ent t (tabx (unat a div 4096))"
proof -
  have "PDX a = of_nat (unat a div 4194304)" "PTX a = of_nat (unat a div 4096 mod 1024)"
    by (simp_all flip: PDX_nat PTX_nat)
  then show "pgdir + 4 * PDX a = ent pgdir (dirx (unat a div 4096))" "t + 4 * PTX a = ent t (tabx (unat a div 4096))"
    by (simp_all add: ent_def dirx_def tabx_def div_mult2_eq [symmetric])
qed

lemma index_less: "tabx n < 1024" "dirx (unat (a :: u32) div 4096) < 1024"
  using unat_lt32 [of a] by (simp_all add: tabx_def dirx_def div_mult2_eq [symmetric] div_less_iff_less_mult)

section \<open>Address spaces\<close>

datatype slot = Dir | Tab nat | Frm nat nat

definition tab :: "memory \<Rightarrow> u32 \<Rightarrow> nat \<Rightarrow> u32 option" where
  "tab m pg i = (if i < 1024 \<and> load32 m (ent pg i) AND PTEL_V \<noteq> 0 then Some (PTE_ADDR (load32 m (ent pg i))) else None)"

definition frm :: "memory \<Rightarrow> u32 \<Rightarrow> nat \<Rightarrow> nat \<Rightarrow> u32 option" where
  "frm m pg i j = (case tab m pg i of None \<Rightarrow> None | Some t \<Rightarrow>
     if j < 1024 \<and> load32 m (ent t j) AND PTEL_V \<noteq> 0 then Some (PTE_ADDR (load32 m (ent t j))) else None)"

fun loc :: "memory \<Rightarrow> u32 \<Rightarrow> slot \<Rightarrow> u32 option" where
  "loc m pg Dir = Some pg"
| "loc m pg (Tab i) = tab m pg i"
| "loc m pg (Frm i j) = frm m pg i j"

text \<open>Every slot in use holds a page of its own.\<close>

definition space_ok :: "memory \<Rightarrow> u32 \<Rightarrow> bool" where
  "space_ok m pg \<longleftrightarrow> (\<forall>l p. loc m pg l = Some p \<longrightarrow> page_addr p \<and> (\<forall>l'. loc m pg l' = Some p \<longrightarrow> l' = l))"

definition used :: "memory \<Rightarrow> u32 \<Rightarrow> u32 set" where
  "used m pg = ran (loc m pg)"

lemma dir_no_table: "space_ok m pg \<Longrightarrow> tab m pg i \<noteq> Some pg"
  unfolding space_ok_def by (metis loc.simps(1,2) slot.distinct(1))

text \<open>\<open>m'\<close> differs from \<open>m\<close> at most in the pages \<open>X\<close>.\<close>

definition only_in :: "u32 set \<Rightarrow> memory \<Rightarrow> memory \<Rightarrow> bool" where
  "only_in X m m' \<longleftrightarrow> (\<forall>x. (\<forall>q\<in>X. \<not> in_page q x) \<longrightarrow> m' x = m x)"

lemma used_page: "space_ok m pg \<Longrightarrow> p \<in> used m pg \<Longrightarrow> page_addr p"
  by (auto simp: space_ok_def used_def ran_def)

lemma used_intro: "loc m pg l = Some p \<Longrightarrow> p \<in> used m pg"
  by (auto simp: used_def ran_def)

lemma dir_used: "pg \<in> used m pg"
  by (rule used_intro [of _ _ Dir]) simp

lemma only_in_page:
  assumes "only_in X m m'" "\<And>q. q \<in> X \<Longrightarrow> page_addr q" "page_addr p" "p \<notin> X" "in_page p x"
  shows "m' x = m x"
  using assms pages_disjoint unfolding only_in_def by metis

text \<open>Changes outside the directory and the page tables, in particular outside the pages of an address space, do not affect it.\<close>

definition tables :: "memory \<Rightarrow> u32 \<Rightarrow> u32 set" where
  "tables m pg = insert pg {t. \<exists>i. tab m pg i = Some t}"

lemma tables_used: "tables m pg \<subseteq> used m pg"
  using dir_used used_intro [of m pg "Tab _"] by (fastforce simp: tables_def)

lemma loc_tables:
  assumes o: "only_in X m m'" and X: "\<And>q. q \<in> X \<Longrightarrow> page_addr q" "X \<inter> tables m pg = {}" and ok: "space_ok m pg"
  shows "loc m' pg = loc m pg"
proof
  have t: "tab m' pg i = tab m pg i" for i
  proof -
    have "pg \<notin> X" using X(2) by (auto simp: tables_def)
    then have "load32 m' (ent pg i) = load32 m (ent pg i)" if "i < 1024"
      using that X only_in_page [OF o X(1)] used_page [OF ok dir_used] by (intro load_ent_cong) blast+
    then show ?thesis by (auto simp: tab_def)
  qed
  have "frm m' pg i j = frm m pg i j" for i j
  proof (cases "tab m pg i")
    case (Some u)
    then have u: "u \<in> tables m pg" by (auto simp: tables_def)
    then have "page_addr u" "u \<notin> X" using used_page [OF ok] tables_used X(2) by auto
    then have "load32 m' (ent u j) = load32 m (ent u j)" if "j < 1024"
      using that only_in_page [OF o X(1)] by (intro load_ent_cong) blast+
    then show ?thesis using t Some by (auto simp: frm_def)
  qed (use t in \<open>simp add: frm_def\<close>)
  then show "loc m' pg l = loc m pg l" for l using t by (cases l) simp_all
qed

lemma loc_frame:
  assumes "only_in X m m'" "\<And>q. q \<in> X \<Longrightarrow> page_addr q" "X \<inter> used m pg = {}" "space_ok m pg"
  shows "loc m' pg = loc m pg"
  using assms tables_used [of m pg] by (intro loc_tables [of X]) auto

section \<open>Entering a page\<close>

lemma entry_bits:
  assumes "page_addr r"
  shows "PTE_ADDR (r OR PTEL_DEFAULT) = r" "(r OR PTEL_DEFAULT) AND PTEL_V \<noteq> 0"
    "PTEL_DEFAULT OR PTEL_V = PTEL_DEFAULT"
proof -
  have "take_bit 12 r = 0" using assms by (simp add: page_addr_def PGSIZE_def take_bit_eq_mod)
  then have low: "\<not> bit r n" if "n < 12" for n using that by (metis bit_0_eq bit_take_bit_iff bot_apply bot_bool_def)
  have m: "(0xFFF :: u32) = semiring_bit_operations_class.mask 12" by (simp add: mask_eq_exp_minus_1)
  have "r AND NOT 0xFFF = r" unfolding m
  proof (rule bit_word_eqI)
    show "bit (r AND NOT (semiring_bit_operations_class.mask 12)) n = bit r n" if "n < LENGTH(32)" for n
      using low that by (cases "n < 12") (auto simp: bit_simps)
  qed
  moreover have "PTEL_DEFAULT AND NOT 0xFFF = 0"
    by (simp add: PTEL_DEFAULT_def PTEL_WT_def PTEL_SZ0_def PTEL_RW_def PTEL_USER_def PTEL_V_def PTEL_DIRTY_def)
  ultimately show "PTE_ADDR (r OR PTEL_DEFAULT) = r" by (simp add: PTE_ADDR_def bit.conj_disj_distrib2)
  have "PTEL_DEFAULT AND PTEL_V = PTEL_V"
    by (simp add: PTEL_DEFAULT_def PTEL_WT_def PTEL_SZ0_def PTEL_RW_def PTEL_USER_def PTEL_V_def PTEL_DIRTY_def)
  then have "bit (r OR PTEL_DEFAULT) 8" by (simp add: bit_simps PTEL_DEFAULT_def PTEL_WT_def PTEL_SZ0_def PTEL_RW_def PTEL_USER_def PTEL_V_def PTEL_DIRTY_def)
  moreover have "bit PTEL_V 8" by (simp add: PTEL_V_def)
  ultimately have "bit ((r OR PTEL_DEFAULT) AND PTEL_V) 8" by (simp add: bit_and_iff)
  then show "(r OR PTEL_DEFAULT) AND PTEL_V \<noteq> 0" by auto
  show "PTEL_DEFAULT OR PTEL_V = PTEL_DEFAULT"
    by (simp add: PTEL_DEFAULT_def PTEL_WT_def PTEL_SZ0_def PTEL_RW_def PTEL_USER_def PTEL_V_def PTEL_DIRTY_def)
qed

text \<open>Storing a word into a table, and storing an entry for the page \<open>r\<close> into a table or the directory.\<close>

lemma loc_store_word:
  assumes ok: "space_ok m pg" and t: "tab m pg i = Some t" and j: "j < 1024"
  shows "loc (store32 (ent t j) w m) pg = (loc m pg)(Frm i j := if w AND PTEL_V \<noteq> 0 then Some (PTE_ADDR w) else None)"
proof
  let ?m = "store32 (ent t j) w m" and ?e = "if w AND PTEL_V \<noteq> 0 then Some (PTE_ADDR w) else None"
  have pt: "page_addr t" and pp: "page_addr pg" using ok t used_page [OF ok] used_intro [of m pg "Tab i" t] dir_used by auto
  have "t \<noteq> pg" using dir_no_table [OF ok] t by auto
  then have tb: "tab ?m pg k = tab m pg k" for k by (cases "k < 1024") (simp_all add: tab_def load_store_ent [OF pt pp j])
  have inj: "k = i" if "tab m pg k = Some t" for k using ok t that unfolding space_ok_def by (metis loc.simps(2) slot.inject(1))
  have fr: "frm ?m pg k l = (if k = i \<and> l = j then ?e else frm m pg k l)" for k l
  proof (cases "tab m pg k")
    case (Some u)
    then have pu: "page_addr u" using used_page [OF ok] used_intro [of m pg "Tab k" u] by auto
    have "l < 1024 \<Longrightarrow> load32 ?m (ent u l) = (if t = u \<and> j = l then w else load32 m (ent u l))"
      by (rule load_store_ent [OF pt pu j])
    then show ?thesis using Some tb inj [of k] t j
      by (cases "l < 1024"; cases "u = t"; cases "l = j") (auto simp: frm_def)
  qed (use tb t in \<open>auto simp: frm_def\<close>)
  show "loc ?m pg l = ((loc m pg)(Frm i j := ?e)) l" for l using tb fr by (cases l) auto
qed

lemma loc_store_frame:
  assumes "space_ok m pg" "tab m pg i = Some t" "j < 1024" "page_addr r"
  shows "loc (store32 (ent t j) (r OR PTEL_DEFAULT) m) pg = (loc m pg)(Frm i j \<mapsto> r)"
  using loc_store_word [OF assms(1-3)] entry_bits [OF assms(4)] by simp

lemma loc_store_table:
  assumes ok: "space_ok m pg" and n: "tab m pg i = None" and i: "i < 1024" and r: "page_addr r" "r \<notin> used m pg"
    and z: "\<And>x. in_page r x \<Longrightarrow> m x = 0"
  shows "loc (store32 (ent pg i) (r OR PTEL_DEFAULT) m) pg = (loc m pg)(Tab i \<mapsto> r)"
proof
  let ?m = "store32 (ent pg i) (r OR PTEL_DEFAULT) m"
  have pp: "page_addr pg" using used_page [OF ok dir_used] .
  have tb: "tab ?m pg k = (if k = i then Some r else tab m pg k)" for k
    using i entry_bits [OF r(1)] by (cases "k = i"; cases "k < 1024") (auto simp: tab_def load_store_ent [OF pp pp i])
  have rp: "r \<noteq> pg" using r(2) dir_used by blast
  have fr: "frm ?m pg k l = frm m pg k l" for k l
  proof (cases "k = i")
    case True
    have "load32 m (ent r l) = 0" if "l < 1024"
    proof -
      have "m x = 0" if "x \<in> {ent r l, ent r l + 1, ent r l + 2, ent r l + 3}" for x
        using ent_in_page(1) [OF r(1) \<open>l < 1024\<close> that] z by blast
      then show ?thesis by (simp add: load32_def le32_def)
    qed
    then show ?thesis using True tb n rp by (auto simp: frm_def load_store_ent [OF pp r(1) i])
  next
    case False
    show ?thesis
    proof (cases "tab m pg k")
      case (Some u)
      then have pu: "page_addr u" using used_page [OF ok] used_intro [of m pg "Tab k" u] by auto
      have "u \<noteq> pg" using dir_no_table [OF ok] Some by auto
      then show ?thesis using Some tb False by (auto simp: frm_def load_store_ent [OF pp pu i])
    qed (use tb False in \<open>simp add: frm_def\<close>)
  qed
  show "loc ?m pg l = ((loc m pg)(Tab i \<mapsto> r)) l" for l using tb fr by (cases l) auto
qed

lemma space_ok_add:
  assumes ok: "space_ok m pg" and l: "loc m' pg = (loc m pg)(l \<mapsto> p)" and p: "page_addr p" "p \<notin> used m pg"
  shows "space_ok m' pg" "used m' pg \<subseteq> insert p (used m pg)"
proof -
  have "loc m pg k \<noteq> Some p" for k using p(2) used_intro by metis
  then show "space_ok m' pg" using ok p(1) unfolding space_ok_def l by auto
  show "used m' pg \<subseteq> insert p (used m pg)" unfolding used_def l by (auto simp: ran_def)
qed

text \<open>The allocator can be called and its free pages are \<open>ps\<close>.\<close>

definition room :: "'a kmem_scheme \<Rightarrow> u32 list \<Rightarrow> bool" where
  "room s ps \<longleftrightarrow> kmem_idle s \<and> free_pages s ps"

text \<open>Everything but memory and free list is as before; the locks too, if interrupts are as after a section.\<close>

definition same_rest :: "'a kmem_scheme \<Rightarrow> 'a kmem_scheme \<Rightarrow> bool" where
  "same_rest s s' \<longleftrightarrow> kmem.more s' = kmem.more s \<and> (cycle (lk s) = lk s \<longrightarrow> lk s' = lk s)"

lemma same_rest_refl [simp]: "same_rest s s" "same_rest s (s'\<lparr>mem := m\<rparr>) = same_rest s s'"
  by (simp_all add: same_rest_def)

lemma same_rest_trans: "same_rest s s' \<Longrightarrow> same_rest s' s'' \<Longrightarrow> same_rest s s''"
  by (auto simp: same_rest_def)

lemma room_pages: "room s ps \<Longrightarrow> q \<in> set ps \<Longrightarrow> page_addr q" "room s ps \<Longrightarrow> distinct ps"
  by (auto simp: room_def free_pages_def dest: free_chain_pages)

lemma kalloc_room:
  assumes "room s (p # ps)"
  shows "\<exists>s'. kalloc s = Inr (p, s') \<and> room s' ps \<and> mem s' = mem s \<and> same_rest s s'" "p \<noteq> 0"
proof -
  from assms have i: "kmem_idle s" and f: "freelist s = p" "page_addr p" "free_chain (mem s) (load32 (mem s) p) ps" "distinct ps"
    by (auto simp: room_def free_pages_def)
  then show "p \<noteq> 0" by simp
  show "\<exists>s'. kalloc s = Inr (p, s') \<and> room s' ps \<and> mem s' = mem s \<and> same_rest s s'"
    using i f by (simp add: kalloc_run room_def free_pages_def same_rest_def)
qed

lemma room_frame:
  assumes r: "room s ps" and o: "only_in X (mem s) m'" and X: "\<And>q. q \<in> X \<Longrightarrow> page_addr q" "X \<inter> set ps = {}"
  shows "room (s\<lparr>mem := m'\<rparr>) ps"
proof -
  have "load32 m' q = load32 (mem s) q" if "q \<in> set ps" for q
    using that X room_pages(1) [OF r that] only_in_page [OF o X(1)] in_page_word by (intro load32_cong) blast
  then have "free_chain (mem s) f qs \<Longrightarrow> set qs \<subseteq> set ps \<Longrightarrow> free_chain m' f qs" for f qs
    by (induction qs arbitrary: f) auto
  then show ?thesis using r by (auto simp: room_def free_pages_def)
qed

lemma only_in_trans: "only_in X m m' \<Longrightarrow> only_in Y m' m'' \<Longrightarrow> only_in (X \<union> Y) m m''"
  by (auto simp: only_in_def)

lemma only_in_mono: "only_in X m m' \<Longrightarrow> X \<subseteq> Y \<Longrightarrow> only_in Y m m'"
  by (auto simp: only_in_def)

lemma only_in_store: "page_addr t \<Longrightarrow> i < 1024 \<Longrightarrow> only_in {t} m (store32 (ent t i) w m)"
  by (simp add: only_in_def store_ent_frame)

lemma zero_page: "only_in {r} m (memset m r 0 (unat PGSIZE))" "in_page r x \<Longrightarrow> memset m r 0 (unat PGSIZE) x = 0"
  by (simp_all add: only_in_def memset_apply in_page_def PGSIZE_def)

text \<open>The page table of an address is found, or a new one is entered into the directory.\<close>

lemma walkpgdir_create:
  assumes r: "room s ps" and ok: "space_ok (mem s) pg" and dj: "used (mem s) pg \<inter> set ps = {}"
    and av: "tab (mem s) pg (dirx (unat a div 4096)) = None \<Longrightarrow> ps \<noteq> []"
  shows "\<exists>s' t ps'. walkpgdir pg a True s = Inr (ent t (tabx (unat a div 4096)), s') \<and> room s' ps' \<and>
    loc (mem s') pg = (loc (mem s) pg)(Tab (dirx (unat a div 4096)) \<mapsto> t) \<and> space_ok (mem s') pg \<and>
    only_in {pg, t} (mem s) (mem s') \<and> used (mem s') pg \<subseteq> insert t (used (mem s) pg) \<and> same_rest s s' \<and>
    (if tab (mem s) pg (dirx (unat a div 4096)) = None then ps = t # ps' else ps' = ps \<and> s' = s)"
proof -
  let ?i = "dirx (unat a div 4096)" and ?j = "tabx (unat a div 4096)"
  have i: "?i < 1024" by (rule index_less)
  have pp: "page_addr pg" using used_page [OF ok dir_used] .
  show ?thesis
  proof (cases "tab (mem s) pg ?i")
    case (Some t)
    then have "load32 (mem s) (ent pg ?i) AND PTEL_V \<noteq> 0" "PTE_ADDR (load32 (mem s) (ent pg ?i)) = t"
      by (auto simp: tab_def split: if_splits)
    then have w: "walkpgdir pg a True s = Inr (ent t ?j, s)" by (simp add: walkpgdir_def index_ent Let_def)
    have "loc (mem s) pg (Tab ?i) = Some t" using Some by simp
    then have l: "loc (mem s) pg = (loc (mem s) pg)(Tab ?i \<mapsto> t)" by (rule fun_upd_idem [symmetric])
    show ?thesis
      by (rule exI [of _ s], rule exI [of _ t], rule exI [of _ ps], intro conjI)
        (use w r ok l Some in \<open>auto simp: only_in_def\<close>)
  next
    case None
    then obtain t ps' where ps: "ps = t # ps'" using av by (cases ps) auto
    then obtain s1 where k: "kalloc s = Inr (t, s1)" "room s1 ps'" "mem s1 = mem s" "t \<noteq> 0" "same_rest s s1" using kalloc_room r by blast
    have t: "page_addr t" "t \<notin> used (mem s) pg" "t \<notin> set ps'" using room_pages [OF r] dj ps by auto
    let ?z = "memset (mem s) t 0 (unat PGSIZE)"
    let ?m = "store32 (ent pg ?i) (t OR PTEL_DEFAULT) ?z"
    have lz: "loc ?z pg = loc (mem s) pg" by (rule loc_frame [OF zero_page(1)]) (use t ok in auto)
    have okz: "space_ok ?z pg" and uz: "used ?z pg = used (mem s) pg" using ok lz by (simp_all add: space_ok_def used_def)
    have tz: "tab ?z pg ?i = None" using None fun_cong [OF lz, of "Tab ?i"] by simp
    have l: "loc ?m pg = (loc (mem s) pg)(Tab ?i \<mapsto> t)"
      using loc_store_table [OF okz tz i t(1)] t(2) uz zero_page(2) lz by simp
    have o: "only_in {pg, t} (mem s) ?m"
      using only_in_trans [OF zero_page(1) only_in_store [OF pp i]] by (rule only_in_mono) auto
    have "pg \<notin> set ps" using dj dir_used by blast
    then have "room (s1\<lparr>mem := ?m\<rparr>) ps'"
      using k t pp o ps by (intro room_frame [of s1 ps' "{pg, t}"]) auto
    moreover have "walkpgdir pg a True s = Inr (ent t ?j, s1\<lparr>mem := ?m\<rparr>)"
    proof -
      have "load32 (mem s) (ent pg ?i) AND PTEL_V = 0" using None i by (simp add: tab_def split: if_splits)
      then show ?thesis using k by (simp add: walkpgdir_def index_ent Let_def PADDR_def)
    qed
    ultimately show ?thesis using l o None ps k(5) space_ok_add [OF ok l t(1,2)]
      by (intro exI [of _ "s1\<lparr>mem := ?m\<rparr>"] exI [of _ t] exI [of _ ps']) simp
  qed
qed

lemma map_page_run:
  assumes r: "room s ps" and ok: "space_ok (mem s) pg" and dj: "used (mem s) pg \<inter> set ps = {}"
    and av: "tab (mem s) pg i = None \<Longrightarrow> ps \<noteq> []" and p: "page_addr p" "p \<notin> used (mem s) pg" "p \<notin> set ps"
    and free: "frm (mem s) pg i j = None" and ij: "i = dirx (unat a div 4096)" "j = tabx (unat a div 4096)"
  shows "\<exists>s' t ps'. map_page pg a p PTEL_DEFAULT s = Inr (True, s') \<and> room s' ps' \<and>
    loc (mem s') pg = (loc (mem s) pg)(Tab i \<mapsto> t, Frm i j \<mapsto> p) \<and> space_ok (mem s') pg \<and>
    only_in {pg, t} (mem s) (mem s') \<and> used (mem s') pg = insert p (insert t (used (mem s) pg)) \<and> same_rest s s' \<and>
    (if tab (mem s) pg i = None then ps = t # ps' else ps' = ps \<and> tab (mem s) pg i = Some t)"
proof -
  obtain s1 t ps' where w: "walkpgdir pg a True s = Inr (ent t j, s1)" "room s1 ps'"
    "loc (mem s1) pg = (loc (mem s) pg)(Tab i \<mapsto> t)" "space_ok (mem s1) pg" "only_in {pg, t} (mem s) (mem s1)"
    "used (mem s1) pg \<subseteq> insert t (used (mem s) pg)"
    "if tab (mem s) pg i = None then ps = t # ps' else ps' = ps \<and> s1 = s" "same_rest s s1"
    using walkpgdir_create [OF r ok dj, of a] av unfolding ij by blast
  have j: "j < 1024" unfolding ij by (rule index_less)
  have tb: "tab (mem s1) pg i = Some t" using fun_cong [OF w(3), of "Tab i"] by simp
  have t: "page_addr t" "t \<in> used (mem s1) pg" using used_page [OF w(4)] used_intro [of "mem s1" pg "Tab i" t] tb by auto
  have pn: "p \<notin> used (mem s1) pg" "t \<notin> set ps'"
  proof -
    show "t \<notin> set ps'" using w(7) room_pages(2) [OF r] dj t(2) by (auto split: if_splits)
    show "p \<notin> used (mem s1) pg" using w(6,7) p(2,3) by (auto split: if_splits)
  qed
  have "frm (mem s1) pg i j = None" using fun_cong [OF w(3), of "Frm i j"] free by simp
  then have nv: "load32 (mem s1) (ent t j) AND PTEL_V = 0" using tb j by (simp add: frm_def split: if_splits)
  let ?m = "store32 (ent t j) (p OR PTEL_DEFAULT) (mem s1)"
  have l: "loc ?m pg = (loc (mem s1) pg)(Frm i j \<mapsto> p)" by (rule loc_store_frame [OF w(4) tb j p(1)])
  have o: "only_in {pg, t} (mem s) ?m"
    using only_in_trans [OF w(5) only_in_store [OF t(1) j]] by (rule only_in_mono) auto
  have "room (s1\<lparr>mem := ?m\<rparr>) ps'"
    by (rule room_frame [OF w(2) only_in_store [OF t(1) j]]) (use t pn in auto)
  moreover have "map_page pg a p PTEL_DEFAULT s = Inr (True, s1\<lparr>mem := ?m\<rparr>)"
    using w(1) nv entry_bits(3) [OF p(1)] ent_not_0 [OF t(1) j] by (simp add: map_page_def or.assoc)
  moreover have "used ?m pg = insert p (insert t (used (mem s) pg))"
  proof -
    have "used (mem s1) pg = insert t (used (mem s) pg)"
    proof (cases "tab (mem s) pg i")
      case (Some t')
      then show ?thesis using w(7) tb t(2) by auto
    qed (simp add: used_def w(3) ran_map_upd)
    then show ?thesis using \<open>frm (mem s1) pg i j = None\<close> by (simp add: used_def l ran_map_upd)
  qed
  ultimately show ?thesis
    using l w(3,7,8) o space_ok_add(1) [OF w(4) l p(1) pn(1)] tb
    by (intro exI [of _ "s1\<lparr>mem := ?m\<rparr>"] exI [of _ t] exI [of _ ps']) auto
qed

section \<open>Whole pages\<close>

lemma round_nat: "unat (PGROUNDDOWN x) = unat x div 4096 * 4096"
proof -
  have m: "PGSIZE - 1 = semiring_bit_operations_class.mask 12" by (simp add: PGSIZE_def mask_eq_exp_minus_1)
  have "PGROUNDDOWN x = push_bit 12 (drop_bit 12 x)"
    unfolding PGROUNDDOWN_def m by (rule bit_word_eqI) (auto simp: bit_simps)
  then have "unat (PGROUNDDOWN x) = take_bit 32 (push_bit 12 (drop_bit 12 (unat x)))"
    by (simp only: unsigned_push_bit_eq unat_drop_bit_eq) simp
  also have "\<dots> = take_bit 32 (unat x div 4096 * 4096)" by (simp add: push_bit_eq_mult drop_bit_eq_div)
  also have "\<dots> = unat x div 4096 * 4096"
  proof -
    have "unat x div 4096 * 4096 \<le> unat x" by simp
    then have "unat x div 4096 * 4096 < 2 ^ 32" using unat_lt32 [of x] by (rule le_less_trans)
    then show ?thesis by (simp add: take_bit_eq_mod)
  qed
  finally show ?thesis .
qed

text \<open>For a single page the loop of \<^verbatim>\<open>mappages\<close> has one round.\<close>

lemma mappages_one:
  assumes "unat a mod 4096 = 0" "unat a + 4096 \<le> 2 ^ 32"
  shows "mappages pg a PGSIZE p perm s = map_page pg a p perm s"
proof -
  have "unat (a + PGSIZE - 1) = unat a + 4095"
  proof -
    have "a + PGSIZE - 1 = a + of_nat 4095" by (simp add: PGSIZE_def add_diff_eq [symmetric])
    then have "unat (a + PGSIZE - 1) = unat (a + of_nat 4095)" by (rule arg_cong)
    also have "\<dots> = unat a + 4095" using assms(2) by (intro unat_ptr_add) simp
    finally show ?thesis .
  qed
  moreover have "(unat a + 4095) div 4096 = unat a div 4096" using assms(1) by (intro div_within) simp
  ultimately have "unat (PGROUNDDOWN (a + PGSIZE - 1)) = unat (PGROUNDDOWN a)" by (simp add: round_nat)
  moreover have "unat (PGROUNDDOWN a) = unat a" using assms(1) by (auto simp: round_nat)
  ultimately have "PGROUNDDOWN (a + PGSIZE - 1) = PGROUNDDOWN a" "PGROUNDDOWN a = a" by (simp_all add: word_unat_eq_iff)
  then show ?thesis by (simp add: mappages_def Let_def)
qed

lemma page_far: "page_addr p \<Longrightarrow> page_addr q \<Longrightarrow> p \<noteq> q \<Longrightarrow> 4096 \<le> unat (p - q)"
  by (metis in_page_def in_page_self not_less pages_disjoint)

lemma memmove_page:
  assumes "page_addr p" "page_addr q" "p \<noteq> q"
  shows "memmove m p q PGSIZE = (\<lambda>x. if in_page p x then m (q + (x - p)) else m x)"
proof -
  have "\<not> (q < p \<and> q + PGSIZE > p)"
  proof
    assume a: "q < p \<and> q + PGSIZE > p"
    have "unat (q + of_nat 4096) = unat q + 4096" using assms(2) by (intro unat_ptr_add) (simp add: page_addr_nat)
    then have "unat p < unat q + 4096" "unat q < unat p" using a by (simp_all add: word_less_nat_alt PGSIZE_def)
    then show False using page_far [OF assms] by (simp add: unat_sub word_le_nat_alt)
  qed
  then have "memmove m p q PGSIZE = copy_up m p q 4096" unfolding memmove_def by (subst if_not_P) (simp_all add: PGSIZE_def)
  also have "\<dots> = copied m p q 4096" using page_far [OF assms] by (intro copy_up_copied) simp_all
  finally show ?thesis by (simp add: copied_def in_page_def)
qed

text \<open>The byte at an address of an address space, as the memory management unit finds it.\<close>

definition user_byte :: "memory \<Rightarrow> u32 \<Rightarrow> u32 \<Rightarrow> u8 option" where
  "user_byte m pg va =
     (case frm m pg (dirx (unat va div 4096)) (tabx (unat va div 4096)) of
       None \<Rightarrow> None | Some f \<Rightarrow> Some (m (f + of_nat (unat va mod 4096))))"

abbreviation page_frame :: "memory \<Rightarrow> u32 \<Rightarrow> nat \<Rightarrow> u32 option" where
  "page_frame m pg n \<equiv> frm m pg (dirx n) (tabx n)"

lemma index_inj: "dirx n = dirx k \<and> tabx n = tabx k \<longleftrightarrow> n = k"
  by (metis dirx_def tabx_def div_mult_mod_eq)

lemma offset_in_page: "page_addr f \<Longrightarrow> k < 4096 \<Longrightarrow> in_page f (f + of_nat k)"
  by (simp add: in_page_def unat_of_nat)

lemma walkpgdir_entry:
  "walkpgdir pg a False s =
     Inr (case tab (mem s) pg (dirx (unat a div 4096)) of None \<Rightarrow> 0 | Some t \<Rightarrow> ent t (tabx (unat a div 4096)), s)"
  using index_less(2) [of a] by (simp add: walkpgdir_def index_ent tab_def Let_def)

lemma walkpgdir_find:
  assumes "page_frame (mem s) pg (unat a div 4096) = Some f" "space_ok (mem s) pg"
  shows "\<exists>t. tab (mem s) pg (dirx (unat a div 4096)) = Some t \<and> walkpgdir pg a False s = Inr (ent t (tabx (unat a div 4096)), s) \<and>
    ent t (tabx (unat a div 4096)) \<noteq> 0 \<and> load32 (mem s) (ent t (tabx (unat a div 4096))) AND PTEL_V \<noteq> 0 \<and>
    PTE_ADDR (load32 (mem s) (ent t (tabx (unat a div 4096)))) = f"
proof -
  let ?i = "dirx (unat a div 4096)" and ?j = "tabx (unat a div 4096)"
  obtain t where t: "tab (mem s) pg ?i = Some t" using assms(1) by (auto simp: frm_def split: option.splits)
  moreover have "page_addr t" using used_page [OF assms(2)] used_intro [of "mem s" pg "Tab ?i" t] t by simp
  then have "ent t ?j \<noteq> 0" using ent_not_0 index_less(1) by blast
  moreover have "load32 (mem s) (ent t ?j) AND PTEL_V \<noteq> 0 \<and> PTE_ADDR (load32 (mem s) (ent t ?j)) = f"
    using assms(1) t by (auto simp: frm_def split: if_splits)
  ultimately show ?thesis by (simp add: walkpgdir_entry)
qed

section \<open>Copying an address space\<close>

text \<open>The pages of the process, and the pages that copying the rest from page \<open>k\<close> on takes.\<close>

definition pages_of :: "u32 \<Rightarrow> nat" where
  "pages_of sz = (unat sz + 4095) div 4096"

definition need :: "nat \<Rightarrow> nat \<Rightarrow> nat" where
  "need k K = (K - k) + ((K + 1023) div 1024 - (k + 1023) div 1024)"

text \<open>The first \<open>k\<close> pages of \<open>pg\<close> in state \<open>s0\<close> are copied to \<open>d\<close>; everything new lies in the pages \<open>ps0\<close>.\<close>

definition part_copied ::
  "'a kmem_scheme \<Rightarrow> u32 list \<Rightarrow> u32 \<Rightarrow> u32 \<Rightarrow> nat \<Rightarrow> 'a kmem_scheme \<Rightarrow> u32 list \<Rightarrow> bool" where
  "part_copied s0 ps0 pg d k s ps \<longleftrightarrow>
     room s ps \<and> same_rest s0 s \<and> set ps \<subseteq> set ps0 \<and> only_in (set ps0) (mem s0) (mem s) \<and>
     space_ok (mem s) d \<and> used (mem s) d \<inter> set ps = {} \<and> used (mem s) d \<subseteq> set ps0 \<and>
     (\<forall>n<k. \<exists>f q. page_frame (mem s0) pg n = Some f \<and> page_frame (mem s) d n = Some q \<and>
        (\<forall>j<4096. mem s (q + of_nat j) = (mem s0) (f + of_nat j))) \<and>
     (\<forall>n\<ge>k. page_frame (mem s) d n = None) \<and> (\<forall>i. tab (mem s) d i = None \<longleftrightarrow> k \<le> 1024 * i) \<and> used (mem s) d \<union> set ps = set ps0"

lemma same_outside:
  assumes "only_in X m0 m" "\<And>q. q \<in> X \<Longrightarrow> page_addr q" "X \<inter> used m0 pg = {}" "space_ok m0 pg" "f \<in> used m0 pg" "in_page f x"
  shows "m x = m0 x"
  using only_in_page [OF assms(1,2), of f x] used_page [OF assms(4,5)] assms(3,5,6) by blast

text \<open>One round: a new page gets the bytes of the frame \<open>f\<close> and is entered as page \<open>k\<close>.\<close>

lemma copy_round:
  assumes pc: "part_copied s0 ps0 pg d k s (p # ps)" and ok0: "space_ok (mem s0) pg" and X: "\<And>q. q \<in> set ps0 \<Longrightarrow> page_addr q" "set ps0 \<inter> used (mem s0) pg = {}"
    and f: "page_frame (mem s0) pg k = Some f" and a: "unat a = 4096 * k" "unat a + 4096 \<le> 2 ^ 32" and av: "k mod 1024 = 0 \<Longrightarrow> ps \<noteq> []"
    and s1: "room s1 ps" "mem s1 = mem s" "same_rest s s1"
  shows "\<exists>s' ps'. mappages d a PGSIZE p PTEL_DEFAULT (s1\<lparr>mem := memmove (mem s) p f PGSIZE\<rparr>) = Inr (True, s') \<and>
    part_copied s0 ps0 pg d (Suc k) s' ps' \<and> length ps = length ps' + (if k mod 1024 = 0 then 1 else 0)"
proof -
  let ?m = "mem s" and ?i = "dirx k" and ?j = "tabx k"
  let ?m1 = "memmove ?m p f PGSIZE" and ?s1 = "s1\<lparr>mem := memmove ?m p f PGSIZE\<rparr>"
  from pc have r: "room s (p # ps)" and rest: "same_rest s0 s" and sub: "insert p (set ps) \<subseteq> set ps0" and o: "only_in (set ps0) (mem s0) ?m"
    and ok: "space_ok ?m d" and dj: "used ?m d \<inter> insert p (set ps) = {}" and us: "used ?m d \<subseteq> set ps0"
    and cp: "\<forall>n<k. \<exists>f q. page_frame (mem s0) pg n = Some f \<and> page_frame ?m d n = Some q \<and> (\<forall>j<4096. ?m (q + of_nat j) = (mem s0) (f + of_nat j))"
    and fr: "\<forall>n\<ge>k. page_frame ?m d n = None" and tb: "\<forall>i. tab ?m d i = None \<longleftrightarrow> k \<le> 1024 * i"
    and un: "used ?m d \<union> insert p (set ps) = set ps0"
    by (auto simp: part_copied_def)
  have p: "page_addr p" "p \<notin> used ?m d" "p \<notin> set ps" using room_pages [OF r] dj by auto
  have fu: "f \<in> used (mem s0) pg" using f used_intro [of "mem s0" pg "Frm ?i ?j" f] by simp
  have pf: "page_addr f" "p \<noteq> f" using used_page [OF ok0 fu] fu X(2) sub by auto
  have m1: "?m1 = (\<lambda>x. if in_page p x then ?m (f + (x - p)) else ?m x)" by (rule memmove_page [OF p(1) pf])
  then have o1: "only_in {p} ?m ?m1" by (simp add: only_in_def)
  have l1: "loc ?m1 d = loc ?m d" by (rule loc_frame [OF o1]) (use p ok in auto)
  have ok1: "space_ok ?m1 d" and u1: "used ?m1 d = used ?m d" using ok l1 by (simp_all add: space_ok_def used_def)
  have r1: "room ?s1 ps" by (rule room_frame [OF s1(1), of "{p}"]) (use o1 s1(2) p in auto)
  have an: "unat a div 4096 = k" using a(1) by simp
  have i0: "tab ?m d ?i = None \<longleftrightarrow> k mod 1024 = 0"
  proof -
    have "1024 * (k div 1024) + k mod 1024 = k" by (rule mult_div_mod_eq)
    then have "k \<le> 1024 * dirx k \<longleftrightarrow> k mod 1024 = 0" unfolding dirx_def by arith
    then show ?thesis using spec [OF tb, of ?i] by simp
  qed
  have t1: "tab ?m1 d i = tab ?m d i" "frm ?m1 d i j = frm ?m d i j" for i j using fun_cong [OF l1, of "Tab i"] fun_cong [OF l1, of "Frm i j"] by simp_all
  have ms: "mem ?s1 = ?m1" by simp
  have "\<exists>s' t ps'. map_page d a p PTEL_DEFAULT ?s1 = Inr (True, s') \<and> room s' ps' \<and>
    loc (mem s') d = (loc (mem ?s1) d)(Tab ?i \<mapsto> t, Frm ?i ?j \<mapsto> p) \<and> space_ok (mem s') d \<and>
    only_in {d, t} (mem ?s1) (mem s') \<and> used (mem s') d = insert p (insert t (used (mem ?s1) d)) \<and> same_rest ?s1 s' \<and>
    (if tab (mem ?s1) d ?i = None then ps = t # ps' else ps' = ps \<and> tab (mem ?s1) d ?i = Some t)"
  proof (rule map_page_run [OF r1])
    show "frm (mem ?s1) d ?i ?j = None" using fr t1(2) by simp
    show "used (mem ?s1) d \<inter> set ps = {}" using dj u1 by auto
    show "ps \<noteq> []" if "tab (mem ?s1) d ?i = None" using that i0 av t1(1) by simp
  qed (use ok1 p u1 an in simp_all)
  then obtain s' t ps' where mp: "map_page d a p PTEL_DEFAULT ?s1 = Inr (True, s')" "room s' ps'"
    "loc (mem s') d = (loc ?m d)(Tab ?i \<mapsto> t, Frm ?i ?j \<mapsto> p)" "space_ok (mem s') d" "only_in {d, t} ?m1 (mem s')"
    "used (mem s') d = insert p (insert t (used ?m d))"
    "if tab ?m d ?i = None then ps = t # ps' else ps' = ps \<and> tab ?m d ?i = Some t" "same_rest ?s1 s'"
    unfolding ms u1 l1 t1(1) by blast
  have ps': "set ps' \<subseteq> set ps" "t \<in> used ?m d \<union> set ps" "t \<notin> set ps'" "length ps = length ps' + (if k mod 1024 = 0 then 1 else 0)"
    using mp(7) i0 room_pages(2) [OF r] dj used_intro [of ?m d "Tab ?i" t] by (auto split: if_splits)
  have dt: "d \<in> used ?m d" by (rule dir_used)
  have pt: "page_addr d" "page_addr t" "p \<noteq> d" "p \<noteq> t"
    using used_page [OF ok] dt ps'(2) room_pages(1) [OF r] p by auto
  have o': "only_in (set ps0) (mem s0) (mem s')"
    using only_in_trans [OF only_in_trans [OF o o1] mp(5)] by (rule only_in_mono) (use sub us dt ps'(2) in auto)
  have fk: "page_frame (mem s') d n = (if n = k then Some p else page_frame ?m d n)" for n
    using fun_cong [OF mp(3), of "Frm (dirx n) (tabx n)"] index_inj [of n k] by auto
  have tk: "tab (mem s') d i = (if i = ?i then Some t else tab ?m d i)" for i using fun_cong [OF mp(3), of "Tab i"] by simp
  have keep: "mem s' x = ?m x" if "page_frame ?m d n = Some q" "in_page q x" for n q x
  proof -
    have q: "q \<in> used ?m d" using that(1) used_intro [of ?m d "Frm (dirx n) (tabx n)" q] by simp
    then have "q \<noteq> p" "page_addr q" using p(2) used_page [OF ok] by auto
    have "n \<noteq> k" using fr that(1) by auto
    then have qs: "loc (mem s') d (Frm (dirx n) (tabx n)) = Some q" using fk that(1) by simp
    then have "q \<noteq> d" "q \<noteq> t" using mp(4) tk unfolding space_ok_def by (metis loc.simps(1) slot.distinct(3), metis loc.simps(2) slot.distinct(5))
    then have "mem s' x = ?m1 x" using only_in_page [OF mp(5), of q x] pt that(2) \<open>page_addr q\<close> by auto
    also have "\<dots> = ?m x" using only_in_page [OF o1, of q x] p(1) \<open>q \<noteq> p\<close> \<open>page_addr q\<close> that(2) by auto
    finally show ?thesis .
  qed
  have new: "mem s' (p + of_nat j) = (mem s0) (f + of_nat j)" if "j < 4096" for j
  proof -
    have ip: "in_page p (p + of_nat j)" "in_page f (f + of_nat j)" using that offset_in_page p(1) pf(1) by auto
    have "mem s' (p + of_nat j) = ?m1 (p + of_nat j)" using only_in_page [OF mp(5), of p] pt p(1) ip(1) by auto
    also have "\<dots> = ?m (f + of_nat j)" using ip(1) by (simp add: m1)
    also have "\<dots> = (mem s0) (f + of_nat j)" by (rule same_outside [OF o X(1) X(2) ok0 fu ip(2)])
    finally show ?thesis .
  qed
  have cp': "\<exists>f q. page_frame (mem s0) pg n = Some f \<and> page_frame (mem s') d n = Some q \<and> (\<forall>j<4096. mem s' (q + of_nat j) = (mem s0) (f + of_nat j))"
    if n: "n < Suc k" for n
  proof (cases "n = k")
    case False
    then obtain f' q where fq: "page_frame (mem s0) pg n = Some f'" "page_frame ?m d n = Some q" "\<forall>j<4096. ?m (q + of_nat j) = (mem s0) (f' + of_nat j)"
      using cp n by (metis less_antisym)
    have "page_addr q" using fq(2) used_page [OF ok] used_intro [of ?m d "Frm (dirx n) (tabx n)" q] by simp
    then show ?thesis using fq fk [of n] False keep [OF fq(2)] offset_in_page by auto
  qed (use fk [of k] f new in auto)
  have "tab (mem s') d i = None \<longleftrightarrow> Suc k \<le> 1024 * i" for i
  proof -
    have "k \<le> 1024 * i \<and> i \<noteq> k div 1024 \<longleftrightarrow> Suc k \<le> 1024 * i"
      using mult_div_mod_eq [of 1024 k] mod_less_divisor [of 1024 k] by (auto simp: Suc_le_eq le_less)
    then show ?thesis using tk [of i] tb by (auto simp: dirx_def)
  qed
  moreover have "used (mem s') d \<union> set ps' = set ps0"
    unfolding mp(6) un [symmetric] using mp(7) used_intro [of ?m d "Tab ?i" t] by (auto split: if_splits)
  moreover have "used (mem s') d \<inter> set ps' = {}" "used (mem s') d \<subseteq> set ps0" "set ps' \<subseteq> set ps0"
    using equalityD1 [OF mp(6)] ps'(1-3) p(3) dj sub us by blast+
  moreover have "page_frame (mem s') d n = None" if "Suc k \<le> n" for n using fk [of n] fr that by simp
  moreover have "same_rest s0 s'"
    using same_rest_trans [OF same_rest_trans [OF rest s1(3)], of s'] mp(8) by (simp add: same_rest_def)
  ultimately have "part_copied s0 ps0 pg d (Suc k) s' ps'"
    using mp(2,4) o' cp' unfolding part_copied_def by blast
  moreover have "mappages d a PGSIZE p PTEL_DEFAULT ?s1 = Inr (True, s')"
    using mappages_one [of a d p PTEL_DEFAULT ?s1] a mp(1) by simp
  ultimately show ?thesis using ps'(4) by blast
qed

lemma need_step:
  assumes "k < K"
  shows "need k K = Suc (need (Suc k) K) + (if k mod 1024 = 0 then 1 else 0)"
proof -
  have k: "1024 * (k div 1024) + k mod 1024 = k" "k mod 1024 < 1024" by simp_all
  define x y where "x = (K + 1023) div 1024" and "y = k div 1024"
  have a: "(Suc k + 1023) div 1024 = Suc y" by (simp add: y_def)
  have x: "Suc y \<le> x" unfolding a [symmetric] x_def using assms by (intro div_le_mono) simp
  have b: "(k + 1023) div 1024 = (if k mod 1024 = 0 then y else Suc y)"
  proof (cases "k mod 1024")
    case (Suc r)
    then have "k + 1023 = 1024 * Suc y + r" using k by (simp add: y_def)
    moreover have "r < 1024" using Suc k(2) by simp
    ultimately show ?thesis using Suc by simp
  qed (use k in \<open>auto simp: y_def intro: div_within\<close>)
  have "need k K = K - k + (x - (if k mod 1024 = 0 then y else Suc y))" "need (Suc k) K = K - Suc k + (x - Suc y)"
    by (simp_all only: need_def x_def a b)
  then show ?thesis using assms x by (cases "k mod 1024 = 0") simp_all
qed

lemma pages_below: "4096 * k < unat sz \<longleftrightarrow> k < pages_of sz"
  unfolding pages_of_def by (simp add: less_eq_div_iff_mult_less_eq Suc_le_eq [symmetric] mult.commute)

lemma copyuvm_loop_run:
  assumes ok0: "space_ok (mem s0) pg" and X: "\<And>q. q \<in> set ps0 \<Longrightarrow> page_addr q" "set ps0 \<inter> used (mem s0) pg = {}"
    and sz: "sz \<le> USERTOP" and mapped: "\<forall>n<pages_of sz. page_frame (mem s0) pg n \<noteq> None"
  shows "part_copied s0 ps0 pg d k s ps \<Longrightarrow> k \<le> pages_of sz \<Longrightarrow> pages_of sz - k < fuel \<Longrightarrow> need k (pages_of sz) \<le> length ps \<Longrightarrow>
    \<exists>s' ps'. copyuvm_loop fuel pg sz d (of_nat (4096 * k)) s = Inr (d, s') \<and> part_copied s0 ps0 pg d (pages_of sz) s' ps'"
proof (induction fuel arbitrary: k s ps)
  case (Suc fuel)
  let ?a = "of_nat (4096 * k) :: u32" and ?K = "pages_of sz"
  have usz: "unat sz \<le> 2 ^ 31" using sz by (simp add: USERTOP_def word_le_nat_alt)
  then have K: "?K \<le> 2 ^ 19" unfolding pages_of_def by simp
  have a: "unat ?a = 4096 * k" using Suc.prems(2) K by (intro unat_of_nat32) simp
  have lt: "?a < sz \<longleftrightarrow> k < ?K" using a pages_below by (simp add: word_less_nat_alt)
  show ?case
  proof (cases "k < ?K")
    case False
    then show ?thesis using Suc.prems(1,2) lt by auto
  next
    case True
    obtain f where f: "page_frame (mem s0) pg k = Some f" using mapped True by auto
    have o: "only_in (set ps0) (mem s0) (mem s)" using Suc.prems(1) by (simp add: part_copied_def)
    have l: "loc (mem s) pg = loc (mem s0) pg" by (rule loc_frame [OF o X ok0])
    then have ok: "space_ok (mem s) pg" using ok0 by (simp add: space_ok_def)
    have "page_frame (mem s) pg (unat ?a div 4096) = Some f" using f fun_cong [OF l, of "Frm (dirx k) (tabx k)"] a by simp
    from walkpgdir_find [OF this ok] obtain e where e: "walkpgdir pg ?a False s = Inr (e, s)" "e \<noteq> 0"
      "load32 (mem s) e AND PTEL_V \<noteq> 0" "PTE_ADDR (load32 (mem s) e) = f" by blast
    obtain p ps1 where ps: "ps = p # ps1" using Suc.prems(4) need_step [OF True] by (cases ps) auto
    have "room s (p # ps1)" using Suc.prems(1) ps by (simp add: part_copied_def)
    from kalloc_room [OF this] obtain s1 where k: "kalloc s = Inr (p, s1)" "room s1 ps1" "mem s1 = mem s" "p \<noteq> 0" "same_rest s s1" by blast
    have "\<exists>s' ps'. mappages d ?a PGSIZE p PTEL_DEFAULT (s1\<lparr>mem := memmove (mem s) p f PGSIZE\<rparr>) = Inr (True, s') \<and>
      part_copied s0 ps0 pg d (Suc k) s' ps' \<and> length ps1 = length ps' + (if k mod 1024 = 0 then 1 else 0)"
    proof (rule copy_round [OF _ ok0 X f a])
      show "part_copied s0 ps0 pg d k s (p # ps1)" using Suc.prems(1) ps by simp
      show "unat ?a + 4096 \<le> 2 ^ 32" using a True K by simp
      show "ps1 \<noteq> []" if "k mod 1024 = 0" using Suc.prems(4) need_step [OF True] ps that by auto
    qed (use k in auto)
    then obtain s2 ps2 where r: "mappages d ?a PGSIZE p PTEL_DEFAULT (s1\<lparr>mem := memmove (mem s) p f PGSIZE\<rparr>) = Inr (True, s2)"
      "part_copied s0 ps0 pg d (Suc k) s2 ps2" "length ps1 = length ps2 + (if k mod 1024 = 0 then 1 else 0)" by blast
    have "?a + PGSIZE = of_nat (4096 * Suc k)" by (simp add: PGSIZE_def)
    then have "copyuvm_loop (Suc fuel) pg sz d ?a s = copyuvm_loop fuel pg sz d (of_nat (4096 * Suc k)) s2"
      using lt True e k r(1) by (simp add: PADDR_def add.commute)
    moreover have "need (Suc k) ?K \<le> length ps2" using Suc.prems(4) need_step [OF True] ps r(3) by (simp split: if_splits)
    ultimately show ?thesis using Suc.IH [OF r(2)] True Suc.prems(3) by simp
  qed
qed simp

text \<open>A zeroed directory is an empty address space.\<close>

lemma loc_zero:
  assumes "page_addr d" "\<And>x. in_page d x \<Longrightarrow> m x = 0"
  shows "loc m d = [Dir \<mapsto> d]"
proof
  have "tab m d i = None" for i
  proof (cases "i < 1024")
    case True
    have "m x = 0" if "x \<in> {ent d i, ent d i + 1, ent d i + 2, ent d i + 3}" for x
      using ent_in_page(1) [OF assms(1) True that] assms(2) by blast
    then have "load32 m (ent d i) = 0" by (simp add: load32_def le32_def)
    then show ?thesis by (simp add: tab_def)
  qed (simp add: tab_def)
  then show "loc m d l = [Dir \<mapsto> d] l" for l by (cases l) (simp_all add: frm_def)
qed

lemma space_zero: "page_addr d \<Longrightarrow> loc m d = [Dir \<mapsto> d] \<Longrightarrow> space_ok m d \<and> used m d = {d}"
  by (auto simp: space_ok_def used_def split: if_splits)

text \<open>The whole copy.\<close>

lemma copyuvm_run:
  assumes "room s ps" "space_ok (mem s) pg" "used (mem s) pg \<inter> set ps = {}" "sz \<le> USERTOP"
    and "\<forall>n<pages_of sz. page_frame (mem s) pg n \<noteq> None" "1 + need 0 (pages_of sz) \<le> length ps"
  shows "\<exists>d s'. copyuvm pg sz s = Inr (d, s') \<and> d \<noteq> 0 \<and> space_ok (mem s') d \<and> used (mem s') d \<inter> used (mem s) pg = {} \<and>
    (\<forall>va. user_byte (mem s') d va = (if unat va < 4096 * pages_of sz then user_byte (mem s) pg va else None)) \<and>
    (\<forall>va. user_byte (mem s') pg va = user_byte (mem s) pg va) \<and> same_rest s s' \<and> only_in (set ps) (mem s) (mem s') \<and>
    (\<exists>ps'. room s' ps' \<and> used (mem s') d \<inter> set ps' = {} \<and> used (mem s') d \<union> set ps' = set ps)"
proof -
  let ?m0 = "mem s" and ?K = "pages_of sz"
  have X: "\<And>q. q \<in> set ps \<Longrightarrow> page_addr q" "set ps \<inter> used ?m0 pg = {}" using room_pages(1) [OF assms(1)] assms(3) by auto
  obtain d ps1 where ps: "ps = d # ps1" using assms(6) by (cases ps) auto
  then obtain s1 where k: "kalloc s = Inr (d, s1)" "room s1 ps1" "mem s1 = ?m0" "d \<noteq> 0" "same_rest s s1" using kalloc_room assms(1) by blast
  have d: "page_addr d" "d \<notin> set ps1" using room_pages [OF assms(1)] ps by auto
  let ?z = "memset ?m0 d 0 (unat PGSIZE)"
  let ?s = "s1\<lparr>mem := ?z\<rparr>"
  have l: "loc ?z d = [Dir \<mapsto> d]" by (rule loc_zero [OF d(1) zero_page(2)])
  have "room ?s ps1" by (rule room_frame [OF k(2), of "{d}"]) (use d k(3) zero_page(1) in auto)
  moreover have "only_in (set ps) ?m0 ?z" by (rule only_in_mono [OF zero_page(1)]) (use ps in simp)
  ultimately have "part_copied s ps pg d 0 ?s ps1"
    using space_zero [OF d(1) l] d ps k(5) fun_cong [OF l, of "Frm i j" for i j] fun_cong [OF l, of "Tab i" for i]
    by (auto simp: part_copied_def)
  moreover have "?K - 0 < 2 ^ 20 + 1" using assms(4) by (simp add: pages_of_def USERTOP_def word_le_nat_alt)
  moreover have "need 0 ?K \<le> length ps1" using assms(6) ps by simp
  ultimately obtain s' ps' where r: "copyuvm_loop (2 ^ 20 + 1) pg sz d (of_nat (4096 * 0)) ?s = Inr (d, s')" "part_copied s ps pg d ?K s' ps'"
    using copyuvm_loop_run [OF assms(2) X assms(4,5)] by blast
  have run: "copyuvm pg sz s = Inr (d, s')" using k r(1) by (simp add: copyuvm_def setupkvm_def)
  from r(2) have sr: "same_rest s s'" "room s' ps'" and o: "only_in (set ps) ?m0 (mem s')" and ok: "space_ok (mem s') d" and u: "used (mem s') d \<subseteq> set ps"
    and un: "used (mem s') d \<inter> set ps' = {}" "used (mem s') d \<union> set ps' = set ps"
    and cp: "\<And>n. n < ?K \<Longrightarrow> \<exists>f q. page_frame ?m0 pg n = Some f \<and> page_frame (mem s') d n = Some q \<and>
      (\<forall>j<4096. mem s' (q + of_nat j) = ?m0 (f + of_nat j))"
    and no: "\<And>n. ?K \<le> n \<Longrightarrow> page_frame (mem s') d n = None" by (auto simp: part_copied_def)
  have "user_byte (mem s') d va = (if unat va < 4096 * ?K then user_byte ?m0 pg va else None)" for va
  proof (cases "unat va div 4096 < ?K")
    case True
    then show ?thesis using cp [OF True] by (fastforce simp: user_byte_def div_less_iff_less_mult mult.commute)
  next
    case False
    then show ?thesis using no [of "unat va div 4096"] by (simp add: user_byte_def div_less_iff_less_mult mult.commute)
  qed
  moreover have "user_byte (mem s') pg va = user_byte ?m0 pg va" for va
  proof -
    have lp: "loc (mem s') pg = loc ?m0 pg" by (rule loc_frame [OF o X assms(2)])
    have "mem s' (f + of_nat (unat va mod 4096)) = ?m0 (f + of_nat (unat va mod 4096))" if "frm ?m0 pg i j = Some f" for f i j
    proof -
      have fu: "f \<in> used ?m0 pg" using that used_intro [of ?m0 pg "Frm i j" f] by simp
      have "in_page f (f + of_nat (unat va mod 4096))" by (rule offset_in_page [OF used_page [OF assms(2) fu]]) simp
      from same_outside [OF o X(1) X(2) assms(2) fu this] show ?thesis by simp
    qed
    then show ?thesis using fun_cong [OF lp, of "Frm i j" for i j] by (simp add: user_byte_def split: option.split)
  qed
  ultimately show ?thesis using run k(4) ok u X(2) sr o un by blast
qed

text \<open>
  C6. \<^verbatim>\<open>copyuvm\<close> (what \<^verbatim>\<open>fork\<close> calls) copies an address space: with enough free pages it returns a new page
  directory in which every address below the size of the process reads the same byte as in the
  parent and nothing else is mapped. No page is shared: all pages of the copy, page tables included, were free
  before, and the pages of the copy and the pages still free are together the pages that were free.
  Memory outside these pages is untouched, so the parent and every other process read the same bytes as before.
\<close>

theorem copyuvm_copies:
  assumes "room s ps" "space_ok (mem s) pg" "used (mem s) pg \<inter> set ps = {}" "sz \<le> USERTOP"
    and "\<forall>n<pages_of sz. page_frame (mem s) pg n \<noteq> None" "1 + need 0 (pages_of sz) \<le> length ps"
  shows "\<exists>d s' ps'. copyuvm pg sz s = Inr (d, s') \<and> d \<noteq> 0 \<and> space_ok (mem s') d \<and> used (mem s') d \<inter> used (mem s) pg = {} \<and>
    (\<forall>va. user_byte (mem s') d va = (if unat va < 4096 * pages_of sz then user_byte (mem s) pg va else None)) \<and>
    (\<forall>va. user_byte (mem s') pg va = user_byte (mem s) pg va) \<and>
    room s' ps' \<and> used (mem s') d \<inter> set ps' = {} \<and> used (mem s') d \<union> set ps' = set ps \<and> only_in (set ps) (mem s) (mem s')"
  using copyuvm_run [OF assms] by blast

section \<open>A process of one page\<close>

definition demo_mem :: memory where
  "demo_mem = store32 (ent 0x101000 0) (0x102000 OR PTEL_DEFAULT) (store32 (ent 0x100000 0) (0x101000 OR PTEL_DEFAULT)
     (store32 0x103000 0x104000 (store32 0x104000 0x105000 (store32 0x105000 0x106000 (\<lambda>_. 0)))))"

definition demo_vm :: kmem where
  "demo_vm = \<lparr>lk = boot_locks 0, mem = demo_mem, freelist = 0x103000\<rparr>"

lemma demo_vm_space:
  "loc demo_mem 0x100000 = [Dir \<mapsto> 0x100000, Tab 0 \<mapsto> 0x101000, Frm 0 0 \<mapsto> 0x102000]" "space_ok demo_mem 0x100000"
  "used demo_mem 0x100000 \<subseteq> {0x100000, 0x101000, 0x102000}" "room demo_vm [0x103000, 0x104000, 0x105000, 0x106000]"
proof -
  let ?z = "store32 0x103000 0x104000 (store32 0x104000 0x105000 (store32 0x105000 0x106000 (\<lambda>_. 0))) :: memory"
  let ?m = "store32 (ent 0x100000 0) (0x101000 OR PTEL_DEFAULT) ?z"
  have pa: "page_addr 0x100000" "page_addr 0x101000" "page_addr 0x102000" "page_addr 0x103000" "page_addr 0x104000" "page_addr 0x105000" "page_addr 0x106000"
    by (simp_all add: page_addr_nat)
  have "?z x = 0" if "page_addr p" "in_page p x" "p \<noteq> 0x103000" "p \<noteq> 0x104000" "p \<noteq> 0x105000" for p x
  proof -
    have "x \<notin> {0x103000, 0x103000 + 1, 0x103000 + 2, 0x103000 + 3}" "x \<notin> {0x104000, 0x104000 + 1, 0x104000 + 2, 0x104000 + 3}"
      "x \<notin> {0x105000, 0x105000 + 1, 0x105000 + 2, 0x105000 + 3}"
      using in_page_word [OF pa(4), of x] in_page_word [OF pa(5), of x] in_page_word [OF pa(6), of x]
        pages_disjoint [OF that(1) _ that(2)] pa that(3-5) by blast+
    then show ?thesis by (simp add: store32_apart)
  qed
  then have z: "\<And>x. in_page 0x100000 x \<Longrightarrow> ?z x = 0" "\<And>x. in_page 0x101000 x \<Longrightarrow> ?z x = 0" using pa by simp_all
  have l0: "loc ?z 0x100000 = [Dir \<mapsto> 0x100000]" by (rule loc_zero [OF pa(1) z(1)])
  note s0 = space_zero [OF pa(1) l0]
  have t0: "tab ?z 0x100000 0 = None" using fun_cong [OF l0, of "Tab 0"] by simp
  have l1: "loc ?m 0x100000 = [Dir \<mapsto> 0x100000, Tab 0 \<mapsto> 0x101000]"
    using loc_store_table [OF conjunct1 [OF s0] t0 _ pa(2) _ z(2)] s0 l0 by simp
  have s1: "space_ok ?m 0x100000" "used ?m 0x100000 \<subseteq> {0x100000, 0x101000}"
    using space_ok_add [OF conjunct1 [OF s0], of ?m "Tab 0" "0x101000"] l1 l0 s0 pa by (simp_all add: insert_commute)
  have t1: "tab ?m 0x100000 0 = Some 0x101000" using fun_cong [OF l1, of "Tab 0"] by simp
  show l2: "loc demo_mem 0x100000 = [Dir \<mapsto> 0x100000, Tab 0 \<mapsto> 0x101000, Frm 0 0 \<mapsto> 0x102000]"
    using loc_store_frame [OF s1(1) t1 _ pa(3), of 0] l1 by (simp add: demo_mem_def)
  have n: "(0x102000 :: u32) \<notin> used ?m 0x100000" using s1(2) by auto
  have "loc demo_mem 0x100000 = (loc ?m 0x100000)(Frm 0 0 \<mapsto> 0x102000)" using l1 l2 by simp
  from space_ok_add [OF s1(1) this pa(3) n]
  show "space_ok demo_mem 0x100000" "used demo_mem 0x100000 \<subseteq> {0x100000, 0x101000, 0x102000}" using s1(2) by auto
  have "load32 ?z 0x103000 = 0x104000" by simp
  moreover have "load32 ?z 0x104000 = 0x105000" "load32 ?z 0x105000 = 0x106000" "load32 ?z 0x106000 = 0" by (simp_all add: load32_def store32_def le32_byte32 le32_def byte32_def)
  ultimately have r: "room \<lparr>lk = boot_locks 0, mem = ?z, freelist = 0x103000\<rparr> [0x103000, 0x104000, 0x105000, 0x106000]"
    using pa by (simp add: room_def free_pages_def kmem_idle_def idle_def cpu_ok_def boot_locks_def free_lock_def)
  have "only_in {0x100000, 0x101000} ?z demo_mem"
    unfolding demo_mem_def
    by (rule only_in_mono [OF only_in_trans [OF only_in_store [OF pa(1)] only_in_store [OF pa(2)]]]) simp_all
  then have "room (\<lparr>lk = boot_locks 0, mem = ?z, freelist = 0x103000\<rparr>\<lparr>mem := demo_mem\<rparr>) [0x103000, 0x104000, 0x105000, 0x106000]"
    by (intro room_frame [OF r, of "{0x100000, 0x101000}"]) (use pa in auto)
  then show "room demo_vm [0x103000, 0x104000, 0x105000, 0x106000]" by (simp add: demo_vm_def)
qed

theorem copyuvm_copies_witness:
  "\<exists>d s'. copyuvm 0x100000 1 demo_vm = Inr (d, s') \<and> d \<noteq> 0 \<and> user_byte (mem s') d 0 = user_byte demo_mem 0x100000 0"
proof -
  have m: "mem demo_vm = demo_mem" by (simp add: demo_vm_def)
  have K: "pages_of 1 = 1" by (simp add: pages_of_def)
  have "frm demo_mem 0x100000 0 0 = Some 0x102000" using fun_cong [OF demo_vm_space(1), of "Frm 0 0"] by simp
  then have "\<forall>n<pages_of 1. page_frame (mem demo_vm) 0x100000 n \<noteq> None" by (simp add: K m dirx_def tabx_def)
  moreover have "used (mem demo_vm) 0x100000 \<inter> set [0x103000, 0x104000, 0x105000, 0x106000] = {}" using demo_vm_space(3) by (auto simp: m)
  ultimately show ?thesis
    using copyuvm_copies [OF demo_vm_space(4), of "0x100000" 1] demo_vm_space(2) by (fastforce simp: m K need_def USERTOP_def)
qed

end
