(* ===== verification/Proc_Fork.thy ===== *)
theory Proc_Fork
  imports Proc_Life Vm_Space
begin

text \<open>
  What \<^verbatim>\<open>fork\<close> and \<^verbatim>\<open>kill\<close> (\<^verbatim>\<open>src/proc.c\<close>) achieve. A successful \<^verbatim>\<open>fork\<close> makes a runnable copy of the calling
  process that shares its open files and its working directory, with the reference counts raised
  accordingly, and shares no memory with it.
\<close>

section \<open>A slot for the child\<close>

definition new_proc :: "u32 \<Rightarrow> u32 \<Rightarrow> u32 \<Rightarrow> proc \<Rightarrow> proc" where
  "new_proc forkret n k p =
     p\<lparr>state := EMBRYO, pid := n, kstack := k, tf_addr := k + KSTACKSIZE - TF_SIZE, tf := (tf p)(T_SSR := 0),
       context := (\<lambda>_. 0)(C_SR := 0x70000000, C_PR := forkret, CR 15 := k + KSTACKSIZE - TF_SIZE, CR 14 := k + KSTACKSIZE)\<rparr>"

lemma allocproc_run:
  assumes "calm (lk s)" "find_index (\<lambda>p. state p = UNUSED) (ptable s) = Some c" "room s (k # ps)"
  shows "allocproc forkret s = Inr (Some c, s\<lparr>ptable := (ptable s)[c := new_proc forkret (nextpid s) k (ptable s ! c)],
      nextpid := nextpid s + 1, freelist := load32 (mem s) k\<rparr>)"
proof -
  have c: "c < length (ptable s)" using find_index_SomeD [OF assms(2)] by simp
  have k: "freelist s = k" "k \<noteq> 0" using assms(3) by (auto simp: room_def free_pages_def)
  show ?thesis
    using assms(1,2) c k by (simp add: allocproc_def upd_proc_def new_proc_def run kmem_idle_def Let_def)
qed

lemma same_rest_held: "cycle (lk s) = lk s \<Longrightarrow> same_rest s s' \<Longrightarrow> s' = s\<lparr>mem := mem s', freelist := freelist s'\<rparr>"
  by (cases s; cases s') (simp add: same_rest_def)

lemma same_rest_eq:
  "calm (lk s) \<Longrightarrow> same_rest s s' \<Longrightarrow> s' = s\<lparr>mem := mem s', freelist := freelist s'\<rparr>"
  by (rule same_rest_held) simp_all

section \<open>Sharing the open files\<close>

definition bump :: "nat \<Rightarrow> filestruct list \<Rightarrow> filestruct list" where
  "bump f ft = ft[f := (ft ! f)\<lparr>fref := fref (ft ! f) + 1\<rparr>]"

text \<open>The files of the descriptors \<open>i\<close>, \<open>i + 1\<close>, ... in order.\<close>

definition files_from :: "nat \<Rightarrow> nat \<Rightarrow> nat option list \<Rightarrow> nat list" where
  "files_from i n fds = List.map_filter (\<lambda>x. x) (take n (drop i fds))"

lemma filedup_run:
  assumes "calm (lk s)" "1 \<le> fref (ftable s ! f)"
  shows "filedup f s = Inr (f, s\<lparr>ftable := bump f (ftable s)\<rparr>)"
  using assms by (simp add: filedup_def upd_file_def bump_def run)

lemma bump_refs: "f < length ft \<Longrightarrow> fref (bump g ft ! f) = fref (ft ! f) + (if f = g then 1 else 0)" "length (bump g ft) = length ft"
  by (auto simp: bump_def nth_list_update)

lemma fork_files_run:
  assumes "calm (lk s)" "me \<noteq> c" "c < length (ptable s)" "i + n \<le> length (ofile (ptable s ! me))" "i + n \<le> length (ofile (ptable s ! c))"
    and "\<forall>f\<in>set (files_from i n (ofile (ptable s ! me))). f < length (ftable s) \<and> 1 \<le> fref (ftable s ! f)"
    and "\<forall>j. i \<le> j \<and> j < i + n \<longrightarrow> ofile (ptable s ! c) ! j = None"
  shows "fork_files me c i n s = Inr (s\<lparr>ptable := (ptable s)[c := (ptable s ! c)
      \<lparr>ofile := splice i (take n (drop i (ofile (ptable s ! me)))) (ofile (ptable s ! c))\<rparr>],
      ftable := fold bump (files_from i n (ofile (ptable s ! me))) (ftable s)\<rparr>)"
  using assms
proof (induction n arbitrary: i s)
  case 0
  then show ?case by (simp add: files_from_def splice_def map_filter_simps)
next
  case (Suc n)
  let ?p = "ofile (ptable s ! me)" and ?q = "ofile (ptable s ! c)"
  have i: "i < length ?p" "i < length ?q" using Suc.prems(4,5) by simp_all
  have d: "drop i ?p = ?p ! i # drop (Suc i) ?p" using i(1) by (simp add: Cons_nth_drop_Suc)
  show ?case
  proof (cases "?p ! i")
    case None
    have ff: "files_from i (Suc n) ?p = files_from (Suc i) n ?p" using d None by (simp add: files_from_def map_filter_simps)
    have sp: "splice i (take (Suc n) (drop i ?p)) ?q = splice (Suc i) (take n (drop (Suc i) ?p)) ?q"
    proof -
      have "?q ! i = None" using Suc.prems(7) by simp
      then have "take (Suc i) ?q = take i ?q @ [None]" using i(2) by (simp add: take_Suc_conv_app_nth)
      then show ?thesis using d None by (simp add: splice_def)
    qed
    show ?thesis using Suc.IH [of s "Suc i"] Suc.prems None ff sp by simp
  next
    case (Some f)
    have ff: "files_from i (Suc n) ?p = f # files_from (Suc i) n ?p" using d Some by (simp add: files_from_def map_filter_simps)
    let ?s = "s\<lparr>ftable := bump f (ftable s), ptable := (ptable s)[c := (ptable s ! c)\<lparr>ofile := ?q[i := Some f]\<rparr>]\<rparr>"
    have f: "f < length (ftable s)" "1 \<le> fref (ftable s ! f)" using Suc.prems(6) ff by simp_all
    have refs: "\<forall>g\<in>set (files_from (Suc i) n ?p). g < length (bump f (ftable s)) \<and> 1 \<le> fref (bump f (ftable s) ! g)"
      using Suc.prems(6) ff by (auto simp: bump_refs)
    have none: "\<forall>j. Suc i \<le> j \<and> j < Suc i + n \<longrightarrow> ?q[i := Some f] ! j = None" using Suc.prems(7) by simp
    have run: "fork_files me c i (Suc n) s = fork_files me c (Suc i) n ?s"
      using Some filedup_run [OF Suc.prems(1) f(2)] by (simp add: upd_proc_def)
    have sp: "splice (Suc i) (take n (drop (Suc i) ?p)) (?q[i := Some f]) = splice i (take (Suc n) (drop i ?p)) ?q"
      using d Some i by (simp add: splice_def take_Suc_conv_app_nth)
    show ?thesis unfolding run
      using Suc.IH [of ?s "Suc i"] Suc.prems refs none sp ff by simp
  qed
qed

lemma fold_bump_refs:
  "f < length ft \<Longrightarrow> fref (fold bump fs ft ! f) = fref (ft ! f) + int (count_list fs f)"
  by (induction fs arbitrary: ft) (auto simp: bump_refs)

lemma idup_run:
  "calm (lk s) \<Longrightarrow> idup i s = Inr (i, s\<lparr>icache := (icache s)[i := (icache s ! i)\<lparr>iref := iref (icache s ! i) + 1\<rparr>]\<rparr>)"
  by (simp add: idup_def upd_inode_def run)

section \<open>Forking\<close>

text \<open>
  The calling process \<open>me\<close> can be copied to the free slot \<open>c\<close>: its files are open, its memory is mapped, and there
  are enough free pages for the kernel stack, the page directory, the page tables and the frames.
\<close>

definition can_fork :: "nat \<Rightarrow> nat \<Rightarrow> nat \<Rightarrow> u32 list \<Rightarrow> 'a kfile_scheme \<Rightarrow> bool" where
  "can_fork me c ip ps s \<longleftrightarrow>
     (let p = ptable s ! me in
      calm (lk s) \<and> curproc s = Some me \<and> me \<noteq> c \<and> find_index (\<lambda>p. state p = UNUSED) (ptable s) = Some c \<and>
      length (ofile p) = NOFILE \<and> ofile (ptable s ! c) = replicate NOFILE None \<and> length (pname (ptable s ! c)) = 16 \<and> cwd p = Some ip \<and> ip < length (icache s) \<and>
      (\<forall>f. Some f \<in> set (ofile p) \<longrightarrow> f < length (ftable s) \<and> 1 \<le> fref (ftable s ! f)) \<and>
      room s ps \<and> space_ok (mem s) (pgdir p) \<and> used (mem s) (pgdir p) \<inter> set ps = {} \<and> sz p \<le> USERTOP \<and>
      (\<forall>n<pages_of (sz p). page_frame (mem s) (pgdir p) n \<noteq> None) \<and> 2 + need 0 (pages_of (sz p)) \<le> length ps)"

lemma set_map_filter_id: "f \<in> set (List.map_filter (\<lambda>x. x) xs) \<longleftrightarrow> Some f \<in> set xs"
  by (induction xs) (auto simp: map_filter_simps split: option.split)

lemma files_from_all: "length fds = n \<Longrightarrow> files_from 0 n fds = List.map_filter (\<lambda>x. x) fds"
  by (simp add: files_from_def)

text \<open>The entry of the child in the process table. Its name is the string in the array of the parent (15 bytes at most, and a NUL).\<close>

definition forked :: "proc \<Rightarrow> nat \<Rightarrow> u32 \<Rightarrow> proc \<Rightarrow> bool" where
  "forked p me n ch \<longleftrightarrow>
     state ch = RUNNABLE \<and> pid ch = n \<and> parent ch = Some me \<and> sz ch = sz p \<and> tf ch = tf p \<and> ofile ch = ofile p \<and> cwd ch = cwd p \<and>
     takeWhile (\<lambda>c. c \<noteq> 0) (pname ch) = cstr (array (pname p)) 15"

lemma fork_run:
  assumes h: "can_fork me c ip ps s"
  shows "\<exists>s' ch. fork forkret s = Inr (nextpid s, s') \<and> ptable s' = (ptable s)[c := ch] \<and> forked (ptable s ! me) me (nextpid s) ch \<and>
    used (mem s') (pgdir ch) \<inter> used (mem s) (pgdir (ptable s ! me)) = {} \<and>
    (\<forall>va. user_byte (mem s') (pgdir ch) va =
       (if unat va < 4096 * pages_of (sz (ptable s ! me)) then user_byte (mem s) (pgdir (ptable s ! me)) va else None)) \<and>
    (\<forall>va. user_byte (mem s') (pgdir (ptable s ! me)) va = user_byte (mem s) (pgdir (ptable s ! me)) va) \<and>
    used (mem s') (pgdir ch) \<subseteq> set ps \<and> only_in (set ps) (mem s) (mem s') \<and>
    ftable s' = fold bump (List.map_filter (\<lambda>x. x) (ofile (ptable s ! me))) (ftable s) \<and>
    icache s' = (icache s)[ip := (icache s ! ip)\<lparr>iref := iref (icache s ! ip) + 1\<rparr>]"
proof -
  let ?p = "ptable s ! me"
  from h have cl: "calm (lk s)" and me: "curproc s = Some me" "me \<noteq> c" and fi: "find_index (\<lambda>p. state p = UNUSED) (ptable s) = Some c"
    and of: "length (ofile ?p) = NOFILE" "ofile (ptable s ! c) = replicate NOFILE None" and pn: "length (pname (ptable s ! c)) = 16" and cw: "cwd ?p = Some ip"
    and fl: "\<forall>f. Some f \<in> set (ofile ?p) \<longrightarrow> f < length (ftable s) \<and> 1 \<le> fref (ftable s ! f)"
    and r: "room s ps" and ok: "space_ok (mem s) (pgdir ?p)" and dj: "used (mem s) (pgdir ?p) \<inter> set ps = {}" and sz: "sz ?p \<le> USERTOP"
    and mp: "\<forall>n<pages_of (sz ?p). page_frame (mem s) (pgdir ?p) n \<noteq> None" and nd: "2 + need 0 (pages_of (sz ?p)) \<le> length ps"
    by (simp_all add: can_fork_def Let_def)
  have c: "c < length (ptable s)" using find_index_SomeD [OF fi] by simp
  obtain k ps1 where ps: "ps = k # ps1" using nd by (cases ps) auto
  let ?np = "new_proc forkret (nextpid s) k (ptable s ! c)"
  let ?s1 = "s\<lparr>ptable := (ptable s)[c := ?np], nextpid := nextpid s + 1, freelist := load32 (mem s) k\<rparr>"
  have al: "allocproc forkret s = Inr (Some c, ?s1)" using allocproc_run [OF cl fi] r ps by simp
  have r1: "room ?s1 ps1" using r ps by (auto simp: room_def free_pages_def kmem_idle_def)
  have "\<exists>d s'. copyuvm (pgdir ?p) (sz ?p) ?s1 = Inr (d, s') \<and> d \<noteq> 0 \<and> space_ok (mem s') d \<and> used (mem s') d \<inter> used (mem ?s1) (pgdir ?p) = {} \<and>
    (\<forall>va. user_byte (mem s') d va = (if unat va < 4096 * pages_of (sz ?p) then user_byte (mem ?s1) (pgdir ?p) va else None)) \<and>
    (\<forall>va. user_byte (mem s') (pgdir ?p) va = user_byte (mem ?s1) (pgdir ?p) va) \<and> same_rest ?s1 s' \<and> only_in (set ps1) (mem ?s1) (mem s') \<and>
    (\<exists>ps'. room s' ps' \<and> used (mem s') d \<inter> set ps' = {} \<and> used (mem s') d \<union> set ps' = set ps1)"
    by (rule copyuvm_run [OF r1]) (use ok dj sz mp nd ps in auto)
  then obtain d s2 where raw: "copyuvm (pgdir ?p) (sz ?p) ?s1 = Inr (d, s2) \<and> d \<noteq> 0 \<and> space_ok (mem s2) d \<and> used (mem s2) d \<inter> used (mem ?s1) (pgdir ?p) = {} \<and>
    (\<forall>va. user_byte (mem s2) d va = (if unat va < 4096 * pages_of (sz ?p) then user_byte (mem ?s1) (pgdir ?p) va else None)) \<and>
    (\<forall>va. user_byte (mem s2) (pgdir ?p) va = user_byte (mem ?s1) (pgdir ?p) va) \<and> same_rest ?s1 s2 \<and> only_in (set ps1) (mem ?s1) (mem s2) \<and>
    (\<exists>ps'. room s2 ps' \<and> used (mem s2) d \<inter> set ps' = {} \<and> used (mem s2) d \<union> set ps' = set ps1)" by (elim exE)
  have m1: "mem ?s1 = mem s" by simp
  note cp = raw [unfolded m1, THEN conjunct1] raw [unfolded m1, THEN conjunct2, THEN conjunct1]
  have cq: "used (mem s2) d \<inter> used (mem s) (pgdir ?p) = {}"
    "\<forall>va. user_byte (mem s2) d va = (if unat va < 4096 * pages_of (sz ?p) then user_byte (mem s) (pgdir ?p) va else None)"
    "\<forall>va. user_byte (mem s2) (pgdir ?p) va = user_byte (mem s) (pgdir ?p) va" "same_rest ?s1 s2"
    "used (mem s2) d \<subseteq> set ps1" "only_in (set ps1) (mem s) (mem s2)"
    using raw unfolding m1 by blast+
  have up: "used (mem s2) d \<subseteq> set ps" using cq(5) ps by auto
  have s2: "s2 = ?s1\<lparr>mem := mem s2, freelist := freelist s2\<rparr>" by (rule same_rest_eq [OF _ cq(4)]) (use cl in simp)
  let ?ch = "?np\<lparr>pgdir := d, sz := sz ?p, parent := Some me, tf := tf ?p\<rparr>"
  let ?s3 = "s2\<lparr>ptable := (ptable s)[c := ?ch]\<rparr>"
  have s3: "lk ?s3 = lk s" "ptable ?s3 ! me = ?p" "ptable ?s3 ! c = ?ch" "ftable ?s3 = ftable s" "icache ?s3 = icache s" "mem ?s3 = mem s2"
    using me c arg_cong [OF s2, of lk] arg_cong [OF s2, of ftable] arg_cong [OF s2, of icache] by simp_all
  have ofc: "ofile ?ch = replicate NOFILE None" using of(2) by (simp add: new_proc_def)
  let ?fs = "List.map_filter (\<lambda>x. x) (ofile ?p)"
  let ?ch' = "?ch\<lparr>ofile := ofile ?p\<rparr>"
  have pre: "\<forall>f\<in>set ?fs. f < length (ftable s) \<and> 1 \<le> fref (ftable s ! f)" using fl set_map_filter_id by metis
  have ff: "fork_files me c 0 NOFILE ?s3 = Inr (?s3\<lparr>ptable := (ptable s)[c := ?ch'], ftable := fold bump ?fs (ftable s)\<rparr>)"
    using fork_files_run [of ?s3 me c 0 NOFILE] cl me c of ofc pre s3 files_from_all [OF of(1)]
    by (simp add: splice_def)
  let ?s4 = "?s3\<lparr>ptable := (ptable s)[c := ?ch'], ftable := fold bump ?fs (ftable s)\<rparr>"
  let ?ic = "(icache s)[ip := (icache s ! ip)\<lparr>iref := iref (icache s ! ip) + 1\<rparr>]"
  have id: "idup ip ?s4 = Inr (ip, ?s4\<lparr>icache := ?ic\<rparr>)" using idup_run [of ?s4 ip] cl s3 by simp
  let ?fin = "?ch'\<lparr>cwd := Some ip, state := RUNNABLE, pname := safestrcpy_array (pname ?ch') (array (pname ?p))\<rparr>"
  have c2: "curproc ?s1 = Some me" "ptable ?s1 ! me = ?p" using me by simp_all
  have p2: "ptable s2 = (ptable s)[c := ?np]" "curproc s2 = Some me" using me arg_cong [OF s2, of ptable] arg_cong [OF s2, of curproc] by simp_all
  have "fork forkret s = Inr (nextpid s, ?s4\<lparr>icache := ?ic, ptable := (ptable s)[c := ?fin]\<rparr>)"
    unfolding fork_def using al cp(1,2) c2 p2 ff id cw me c by (simp add: upd_proc_def Let_def new_proc_def)
  moreover have "forked ?p me (nextpid s) ?fin" using cw safestrcpy_array_cstr [of "pname ?ch'" 15] pn by (simp add: forked_def new_proc_def)
  moreover have "only_in (set ps) (mem s) (mem s2)" by (rule only_in_mono [OF cq(6)]) (use ps in auto)
  ultimately show ?thesis using cq(1-3) up s3
    by (intro exI [of _ "?s4\<lparr>icache := ?ic, ptable := (ptable s)[c := ?fin]\<rparr>"] exI [of _ ?fin] conjI) simp_all
qed

text \<open>
  C4. \<^verbatim>\<open>fork\<close> makes a copy of the calling process: it returns the new process identifier, and the table gains
  exactly one entry, a runnable child with the size, the registers, the open files, the working
  directory and the name of its parent. Every address of the child reads the byte the parent has there, in pages that
  were free; memory outside the pages that were free is unchanged, the parent's memory in particular. Each open file
  gains one reference for each descriptor.
\<close>

theorem fork_copies:
  assumes "can_fork me c ip ps s"
  shows "\<exists>s' ch. fork forkret s = Inr (nextpid s, s') \<and> ptable s' = (ptable s)[c := ch] \<and> forked (ptable s ! me) me (nextpid s) ch \<and>
    used (mem s') (pgdir ch) \<inter> used (mem s) (pgdir (ptable s ! me)) = {} \<and>
    (\<forall>va. user_byte (mem s') (pgdir ch) va =
       (if unat va < 4096 * pages_of (sz (ptable s ! me)) then user_byte (mem s) (pgdir (ptable s ! me)) va else None)) \<and>
    (\<forall>va. user_byte (mem s') (pgdir (ptable s ! me)) va = user_byte (mem s) (pgdir (ptable s ! me)) va) \<and>
    used (mem s') (pgdir ch) \<subseteq> set ps \<and> only_in (set ps) (mem s) (mem s') \<and>
    (\<forall>f. f < length (ftable s) \<longrightarrow>
       fref (ftable s' ! f) = fref (ftable s ! f) + int (count_list (List.map_filter (\<lambda>x. x) (ofile (ptable s ! me))) f))"
proof -
  from fork_run [OF assms, of forkret] obtain s' ch
    where f: "fork forkret s = Inr (nextpid s, s')" "ptable s' = (ptable s)[c := ch]" "forked (ptable s ! me) me (nextpid s) ch"
      "used (mem s') (pgdir ch) \<inter> used (mem s) (pgdir (ptable s ! me)) = {}"
      "\<forall>va. user_byte (mem s') (pgdir ch) va =
         (if unat va < 4096 * pages_of (sz (ptable s ! me)) then user_byte (mem s) (pgdir (ptable s ! me)) va else None)"
      "\<forall>va. user_byte (mem s') (pgdir (ptable s ! me)) va = user_byte (mem s) (pgdir (ptable s ! me)) va"
      "used (mem s') (pgdir ch) \<subseteq> set ps" "only_in (set ps) (mem s) (mem s')"
      "ftable s' = fold bump (List.map_filter (\<lambda>x. x) (ofile (ptable s ! me))) (ftable s)" by blast
  show ?thesis by (rule exI [of _ s'], rule exI [of _ ch]) (use f in \<open>simp add: fold_bump_refs\<close>)
qed

text \<open>
  A process can be killed before it exists: \<^verbatim>\<open>kill(0)\<close> succeeds, because unused slots have the identifier 0,
  and \<^verbatim>\<open>allocproc\<close> does not clear the mark it leaves, so the next process made in that slot is born killed.
\<close>

theorem killed_before_birth:
  assumes "calm (lk s)" "find_index (\<lambda>p. pid p = 0) (ptable s) = Some c" "find_index (\<lambda>p. state p = UNUSED) (ptable s) = Some c"
    and "room s (k # ps)"
  shows "\<exists>s1 s2. kill 0 s = Inr (0, s1) \<and> allocproc forkret s1 = Inr (Some c, s2) \<and> killed (ptable s2 ! c)"
proof -
  have c: "c < length (ptable s)" "pid (ptable s ! c) = 0" "state (ptable s ! c) = UNUSED" "\<forall>j<c. state (ptable s ! j) \<noteq> UNUSED"
    using find_index_SomeD [OF assms(2)] find_index_SomeD [OF assms(3)] by auto
  let ?s = "s\<lparr>ptable := (ptable s)[c := (ptable s ! c)\<lparr>killed := True, state := UNUSED\<rparr>]\<rparr>"
  have k: "kill 0 s = Inr (0, ?s)"
    using assms(1,2) c by (simp add: kill_def upd_proc_def run)
  have "find_index (\<lambda>p. state p = UNUSED) (ptable ?s) = Some c"
    using c by (intro find_index_eqI) (auto simp: nth_list_update)
  moreover have "room ?s (k # ps)" using assms(4) by (auto simp: room_def free_pages_def kmem_idle_def)
  ultimately have "allocproc forkret ?s = Inr (Some c, ?s\<lparr>ptable := (ptable ?s)[c := new_proc forkret (nextpid ?s) k (ptable ?s ! c)],
      nextpid := nextpid ?s + 1, freelist := load32 (mem ?s) k\<rparr>)"
    using assms(1) by (intro allocproc_run) simp_all
  then show ?thesis using k c(1) by (auto simp: new_proc_def)
qed

section \<open>Witnesses\<close>

definition fork_demo :: kfile where
  "fork_demo = \<lparr>lk = lk zero_kbio, mem = demo_mem, freelist = 0x103000, tlb = tlb zero_kbio,
     ptable = [zero_proc\<lparr>state := RUNNING, pid := 1, pgdir := 0x100000, sz := 1, ofile := Some 0 # replicate 15 None, cwd := Some 0\<rparr>, zero_proc],
     nextpid = 2, curproc = Some 0, initproc = None, disk = disk zero_kbio, bufs = bufs zero_kbio, icache = [zero_inode],
     pipes = (\<lambda>_. \<lparr>pdata = [], nread = 0, nwrite = 0, readopen = False, writeopen = False\<rparr>),
     ftable = [\<lparr>ftyp = FD_NONE, fref = 1, readable = True, writable = True, fpipe = 0, fip = None, foff = 0\<rparr>]\<rparr>"

lemma fork_demo_ready:
  "calm (lk fork_demo)" "room fork_demo [0x103000, 0x104000, 0x105000, 0x106000]"
  using zero_kbio_cold(4) demo_vm_space(4) by (simp_all add: fork_demo_def demo_vm_def room_def free_pages_def kmem_idle_def)

lemma fork_demo_can: "can_fork 0 1 0 [0x103000, 0x104000, 0x105000, 0x106000] fork_demo"
proof -
  have f: "frm demo_mem 0x100000 0 0 = Some 0x102000" using fun_cong [OF demo_vm_space(1), of "Frm 0 0"] by simp
  have "used demo_mem 0x100000 \<inter> {0x103000, 0x104000, 0x105000, 0x106000} = {}" using demo_vm_space(3) by auto
  then show ?thesis
    using fork_demo_ready demo_vm_space(2) f
    by (auto simp: can_fork_def fork_demo_def zero_proc_def NOFILE_def USERTOP_def pages_of_def need_def dirx_def tabx_def)
qed

theorem fork_copies_witness:
  "\<exists>s' ch. fork 0 fork_demo = Inr (2, s') \<and> ptable s' = (ptable fork_demo)[1 := ch] \<and> state ch = RUNNABLE \<and> fref (ftable s' ! 0) = 2"
proof -
  have "nextpid fork_demo = 2" "length (ftable fork_demo) = 1" "fref (ftable fork_demo ! 0) = 1"
    "count_list (List.map_filter (\<lambda>x. x) (ofile (ptable fork_demo ! 0))) 0 = 1"
    by (simp_all add: fork_demo_def map_filter_simps numeral_eq_Suc)
  then show ?thesis using fork_copies [OF fork_demo_can, of 0] by (auto simp: forked_def)
qed

theorem killed_before_birth_witness:
  "\<exists>s1 s2. kill 0 fork_demo = Inr (0, s1) \<and> allocproc 0 s1 = Inr (Some 1, s2) \<and> killed (ptable s2 ! 1)"
  by (rule killed_before_birth [OF fork_demo_ready(1) _ _ fork_demo_ready(2)]) (simp_all add: fork_demo_def zero_proc_def)

end
