(* ===== verification/Scheduler.thy ===== *)
theory Scheduler
  imports Proc_Table
begin

text \<open>
  The scheduler as a state machine (\<^verbatim>\<open>scheduler\<close>, \<^verbatim>\<open>sched\<close>, \<^verbatim>\<open>yield\<close>, \<^verbatim>\<open>sleep\<close>, \<^verbatim>\<open>wakeup\<close>, \<^verbatim>\<open>kill\<close> of
  \<^verbatim>\<open>src/proc.c\<close>). The processor is idle between two passes over the process table, in the middle of a
  pass, or running the kernel side of a process. A process that is switched out is parked in \<^verbatim>\<open>forkret\<close>,
  \<^verbatim>\<open>yield\<close> or \<^verbatim>\<open>sleep\<close>, and continues there. The lemmas show that in every reachable state at most one
  process is running, that giving up the processor never panics, and that a runnable process is
  overtaken by fewer than \<^verbatim>\<open>NPROC\<close> dispatches of other processes.
\<close>

section \<open>Locks and the TLB in the process operations\<close>

lemma acquire_SomeD:
  assumes "acquire l s = Inr t"
  shows "t = s\<lparr>lk := lk t\<rparr>" "held (lk t) = insert l (held (lk s))" "l \<notin> held (lk s)"
  using assms by (auto simp: acquire_def Let_def held_def pushcli_def cli_def split: if_splits)

lemma release_SomeD:
  assumes "release l s = Inr t"
  shows "t = s\<lparr>lk := lk t\<rparr>" "held (lk t) = held (lk s) - {l}" "l \<in> held (lk s)"
  using assms
  by (auto elim!: release_Inr dest!: popcli_Inr(2) simp: held_def holding_def sti_def split: if_splits)

lemma acquire_ok:
  assumes "lock_inv (lk s)" "l \<notin> held (lk s)"
  shows "\<exists>k. acquire l s = Inr (s\<lparr>lk := k\<rparr>) \<and> lock_inv k \<and> held k = insert l (held (lk s))"
proof -
  have "idle l (lk s)" using assms by (auto simp: lock_inv_def idle_def held_def)
  then have run: "acquire l s = Inr (s\<lparr>lk := hold l (lk s)\<rparr>)" by (rule acquire_run)
  then show ?thesis using acquire_keeps_inv [OF assms(1) run] acquire_SomeD(2) [OF run]
    by (intro exI [of _ "hold l (lk s)"]) simp
qed

lemma release_ok:
  assumes "lock_inv (lk s)" "l \<in> held (lk s)"
  shows "\<exists>k. release l s = Inr (s\<lparr>lk := k\<rparr>) \<and> lock_inv k \<and> held k = held (lk s) - {l}"
proof -
  have "holding l (lk s)" using assms by (auto simp: lock_inv_def holding_def held_def)
  moreover have "0 < ncli (lk s)" using assms by (auto simp: lock_inv_def card_gt_0_iff)
  then have "sr (lk s) AND SR_BL_MASK \<noteq> 0" "1 \<le> ncli (lk s)" using assms(1) by (auto simp: lock_inv_def)
  ultimately obtain k where run: "release l s = Inr (s\<lparr>lk := k\<rparr>)"
    by (cases "ncli (lk s) = 1 \<and> intena (lk s) \<noteq> 0") (auto simp: release_def popcli_def Let_def)
  then show ?thesis using release_keeps_inv [OF assms(1) run] release_SomeD(2) [OF run] by (intro exI [of _ k]) simp
qed

lemma walkpgdir_look: "\<exists>pte. walkpgdir pd va False s = Inr (pte, s)"
  by (simp add: walkpgdir_def Let_def)

lemma tlb_register_run: "\<exists>t. tlb_register pd i va s = Inr (s\<lparr>tlb := t\<rparr>)"
  using walkpgdir_look [of pd va s] by (auto simp: tlb_register_def)

lemma switchuvm_loop_run:
  "switchuvm_loop fuel pd va i s = Inl Spin \<or> (\<exists>t. switchuvm_loop fuel pd va i s = Inr (s\<lparr>tlb := t\<rparr>))"
proof (induction fuel arbitrary: va i s)
  case (Suc fuel)
  obtain pte where w: "walkpgdir pd va False s = Inr (pte, s)" using walkpgdir_look by blast
  obtain t where t: "tlb_register pd i va s = Inr (s\<lparr>tlb := t\<rparr>)" using tlb_register_run by blast
  show ?case
    using Suc.IH [of "va + PGSIZE" "(i + 1) mod 64" "s\<lparr>tlb := t\<rparr>"] w t
    by (auto intro: exI [of _ "tlb s"])
qed simp

text \<open>With a lock held, loading the TLB changes nothing else.\<close>

lemma switchuvm_run:
  assumes "lock_inv (lk s)" "held (lk s) \<noteq> {}" "pd \<noteq> 0"
  shows "switchuvm pd pd s = Inl Spin \<or> (\<exists>t. switchuvm pd pd s = Inr (s\<lparr>tlb := t\<rparr>))"
proof -
  let ?k = "lk s"
  have n: "0 < ncli ?k" "sr ?k AND SR_BL_MASK \<noteq> 0" using assms(1,2) by (auto simp: lock_inv_def card_gt_0_iff)
  have p: "pushcli ?k = ?k\<lparr>ncli := ncli ?k + 1\<rparr>"
    using n bl_set_absorb by (simp add: pushcli_def cli_def Let_def)
  have q: "popcli (?k\<lparr>ncli := ncli ?k + 1\<rparr>) = Inr ?k" using n by (simp add: popcli_def Let_def)
  show ?thesis
    using switchuvm_loop_run [of "2 ^ 20 + 1" pd 0 0 "clear_tlb (s\<lparr>lk := pushcli ?k\<rparr>)"] assms(3) p q
    by (auto simp: switchuvm_def clear_tlb_def Let_def)
qed

section \<open>The state machine\<close>

datatype mode = Idle | Scan nat | Run nat

text \<open>Where a process that is switched out continues.\<close>

datatype park = ParkNew | ParkYield | ParkSleep lockid

definition resume :: "park \<Rightarrow> nat \<Rightarrow> 'a kproc_scheme \<Rightarrow> 'a kproc_scheme res" where
  "resume pk i s = (case pk of ParkNew \<Rightarrow> forkret_enter s | ParkYield \<Rightarrow> yield_resume i s
     | ParkSleep l \<Rightarrow> sleep_resume i l s)"

text \<open>
  \<open>w k\<close> counts the dispatches of other processes that the runnable process \<open>k\<close> has waited for. While a
  process runs, it may take and release locks, wake, kill and create processes, and publish a process
  it has created; it gives up the processor by \<^verbatim>\<open>yield\<close>, by \<^verbatim>\<open>sleep\<close>, or, as \<^verbatim>\<open>exit\<close> does, as a zombie
  through \<^verbatim>\<open>sched\<close>. A zombie's slot is freed as \<^verbatim>\<open>wait\<close> does.
\<close>

inductive reach :: "mode \<Rightarrow> (nat \<Rightarrow> park) \<Rightarrow> (nat \<Rightarrow> nat) \<Rightarrow> 'a kproc_scheme \<Rightarrow> bool" where
  boot: "lock_inv (lk s) \<Longrightarrow> held (lk s) = {} \<Longrightarrow> curproc s = None \<Longrightarrow> length (ptable s) = NPROC \<Longrightarrow>
    \<forall>p\<in>set (ptable s). state p = UNUSED \<or> state p = RUNNABLE \<and> pgdir p \<noteq> 0 \<Longrightarrow> reach Idle (\<lambda>_. ParkNew) (\<lambda>_. 0) s"
| pass: "reach Idle pk w s \<Longrightarrow> scheduler_begin s = Inr s' \<Longrightarrow> reach (Scan 0) pk w s'"
| pass_end: "reach (Scan j) pk w s \<Longrightarrow> scheduler_scan j s = Inr (None, s') \<Longrightarrow> reach Idle pk w s'"
| dispatch: "reach (Scan j) pk w s \<Longrightarrow> scheduler_scan j s = Inr (Some i, s1) \<Longrightarrow> resume (pk i) i s1 = Inr s' \<Longrightarrow>
    w' = (\<lambda>k. if k \<noteq> i \<and> state (ptable s ! k) = RUNNABLE then w k + 1 else 0) \<Longrightarrow> reach (Run i) pk w' s'"
| lock: "reach (Run i) pk w s \<Longrightarrow> acquire l s = Inr s' \<Longrightarrow> reach (Run i) pk w s'"
| unlock: "reach (Run i) pk w s \<Longrightarrow> release l s = Inr s' \<Longrightarrow> reach (Run i) pk w s'"
| wake: "reach (Run i) pk w s \<Longrightarrow> wakeup c s = Inr s' \<Longrightarrow> reach (Run i) pk w s'"
| killing: "reach (Run i) pk w s \<Longrightarrow> kill target s = Inr (r, s') \<Longrightarrow> reach (Run i) pk w s'"
| create: "reach (Run i) pk w s \<Longrightarrow> allocproc fr s = Inr (Some c, s') \<Longrightarrow> reach (Run i) (pk(c := ParkNew)) w s'"
| publish: "reach (Run i) pk w s \<Longrightarrow> c < NPROC \<Longrightarrow> state (ptable s ! c) = EMBRYO \<Longrightarrow> pd \<noteq> 0 \<Longrightarrow>
    reach (Run i) pk w (upd_proc c (\<lambda>p. p\<lparr>pgdir := pd, state := RUNNABLE\<rparr>) s)"
| reap: "reach (Run i) pk w s \<Longrightarrow> c < NPROC \<Longrightarrow> state (ptable s ! c) = ZOMBIE \<Longrightarrow> holding LPtable (lk s) \<Longrightarrow>
    reach (Run i) pk w (upd_proc c (\<lambda>p. p\<lparr>state := UNUSED, pid := 0, parent := None, killed := False\<rparr>) s)"
| give_up: "reach (Run i) pk w s \<Longrightarrow> yield_enter s = Inr s' \<Longrightarrow>
    reach (Scan (Suc i)) (pk(i := ParkYield)) w (scheduler_back s')"
| go_sleep: "reach (Run i) pk w s \<Longrightarrow> sleep_enter c l s = Inr s' \<Longrightarrow>
    reach (Scan (Suc i)) (pk(i := ParkSleep l)) w (scheduler_back s')"
| die: "reach (Run i) pk w s \<Longrightarrow> sched_enter (upd_proc i (\<lambda>p. p\<lparr>state := ZOMBIE\<rparr>) s) = Inr s' \<Longrightarrow>
    reach (Scan (Suc i)) pk w (scheduler_back s')"

section \<open>The invariant\<close>

definition pos :: "mode \<Rightarrow> nat" where
  "pos m = (case m of Idle \<Rightarrow> NPROC | Scan j \<Rightarrow> j | Run i \<Rightarrow> Suc i)"

text \<open>How many slots the scheduler looks at before slot \<open>k\<close>.\<close>

definition rank :: "nat \<Rightarrow> nat \<Rightarrow> nat" where
  "rank p k = (if p \<le> k then k - p else NPROC - p + k)"

definition proc_ok :: "mode \<Rightarrow> (nat \<Rightarrow> park) \<Rightarrow> (nat \<Rightarrow> nat) \<Rightarrow> nat \<Rightarrow> proc \<Rightarrow> bool" where
  "proc_ok m pk w k p \<longleftrightarrow> (state p = RUNNING \<longleftrightarrow> m = Run k) \<and>
     (state p \<in> {SLEEPING, RUNNABLE, RUNNING} \<longrightarrow> pgdir p \<noteq> 0) \<and>
     (state p \<in> {SLEEPING, RUNNABLE} \<and> pk k \<noteq> ParkNew \<longrightarrow> sched_intena p \<noteq> 0) \<and>
     (state p = EMBRYO \<longrightarrow> pk k = ParkNew) \<and>
     (if state p = RUNNABLE then w k + rank (pos m) k < NPROC else w k = 0)"

definition table_ok :: "mode \<Rightarrow> (nat \<Rightarrow> park) \<Rightarrow> (nat \<Rightarrow> nat) \<Rightarrow> proc list \<Rightarrow> bool" where
  "table_ok m pk w ps \<longleftrightarrow> length ps = NPROC \<and> (\<forall>k<NPROC. proc_ok m pk w k (ps ! k))"

definition mode_ok :: "mode \<Rightarrow> 'a kproc_scheme \<Rightarrow> bool" where
  "mode_ok m s \<longleftrightarrow> lock_inv (lk s) \<and> (case m of
       Idle \<Rightarrow> held (lk s) = {} \<and> curproc s = None
     | Scan j \<Rightarrow> held (lk s) = {LPtable} \<and> curproc s = None \<and> j \<le> NPROC
     | Run i \<Rightarrow> i < NPROC \<and> curproc s = Some i)"

lemma rank_less: "k < NPROC \<Longrightarrow> rank p k < NPROC"
  by (auto simp: rank_def)

lemma table_upd:
  assumes "table_ok m pk w ps" "c < NPROC" "proc_ok m pk w c (ps ! c) \<Longrightarrow> proc_ok m pk w c (f (ps ! c))"
  shows "table_ok m pk w (ps[c := f (ps ! c)])"
  using assms by (auto simp: table_ok_def nth_list_update)

lemma table_map:
  assumes "table_ok m pk w ps" "\<And>k p. k < NPROC \<Longrightarrow> proc_ok m pk w k p \<Longrightarrow> proc_ok m pk w k (f p)"
  shows "table_ok m pk w (map f ps)"
  using assms by (auto simp: table_ok_def)

text \<open>Making a sleeping process runnable.\<close>

lemma proc_ok_wake:
  assumes "proc_ok m pk w k p" "k < NPROC" "state p = SLEEPING"
  shows "proc_ok m pk w k (p\<lparr>state := RUNNABLE\<rparr>)" "proc_ok m pk w k (p\<lparr>killed := b, state := RUNNABLE\<rparr>)"
  using assms rank_less [of k] by (auto simp: proc_ok_def)

section \<open>Every step keeps the invariant\<close>

lemma lock_fields:
  assumes "acquire l s = Inr t \<or> release l s = Inr t"
  shows "ptable t = ptable s" "curproc t = curproc s"
proof -
  obtain k where "t = s\<lparr>lk := k\<rparr>" using assms acquire_SomeD(1) release_SomeD(1) by metis
  then show "ptable t = ptable s" "curproc t = curproc s" by simp_all
qed

text \<open>Inside a process, a step that keeps the locks in order and the table well formed.\<close>

lemma lock_step_ok:
  assumes "acquire l s = Inr t \<or> release l s = Inr t" "mode_ok (Run i) s"
  shows "mode_ok (Run i) t"
  using assms lock_fields [OF assms(1)] acquire_keeps_inv release_keeps_inv by (auto simp: mode_ok_def)

lemma section_table:
  "acquire l s = Inr s1 \<Longrightarrow> ptable s1 = ptable s" "release l s2 = Inr t \<Longrightarrow> ptable t = ptable s2"
  using lock_fields(1) by blast+

lemma section_ok:
  assumes "acquire l s = Inr s1" "release l s2 = Inr t" "lk s2 = lk s1" "curproc s2 = curproc s1" "mode_ok (Run i) s"
  shows "mode_ok (Run i) t"
proof -
  have "mode_ok (Run i) s1" using assms(1,5) by (intro lock_step_ok [of l s s1]) simp_all
  then have "mode_ok (Run i) s2" using assms(3,4) by (simp add: mode_ok_def)
  then show ?thesis using assms(2) by (intro lock_step_ok [of l s2 t]) simp_all
qed

lemma sched_enter_SomeD:
  assumes "sched_enter s = Inr s'" "lock_inv (lk s)"
  shows "\<exists>i. curproc s = Some i \<and> state (ptable s ! i) \<noteq> RUNNING \<and>
    s' = upd_proc i (\<lambda>p. p\<lparr>sched_intena := intena (lk s)\<rparr>) s" "held (lk s) = {LPtable}" "intena (lk s) \<noteq> 0"
proof -
  have 1: "holding LPtable (lk s)" "ncli (lk s) = 1"
    "\<exists>i. curproc s = Some i \<and> state (ptable s ! i) \<noteq> RUNNING \<and> s' = upd_proc i (\<lambda>p. p\<lparr>sched_intena := intena (lk s)\<rparr>) s"
    using assms(1) by (auto simp: sched_enter_def split: if_splits option.splits)
  then show "\<exists>i. curproc s = Some i \<and> state (ptable s ! i) \<noteq> RUNNING \<and>
    s' = upd_proc i (\<lambda>p. p\<lparr>sched_intena := intena (lk s)\<rparr>) s" by blast
  have "LPtable \<in> held (lk s)" "card (held (lk s)) = 1" "finite (held (lk s))"
    using 1(1,2) assms(2) by (auto simp: holding_def held_def lock_inv_def)
  then show "held (lk s) = {LPtable}" by (metis card_1_singletonE singletonD)
  show "intena (lk s) \<noteq> 0" using 1(2) assms(2) by (simp add: lock_inv_def)
qed

lemma upd_proc_fields [simp]: "lk (upd_proc i f s) = lk s" "curproc (upd_proc i f s) = curproc s"
  "ptable (upd_proc i f s) = (ptable s)[i := f (ptable s ! i)]"
  by (simp_all add: upd_proc_def)

text \<open>Giving up the processor: common to \<^verbatim>\<open>yield\<close>, \<^verbatim>\<open>sleep\<close> and \<^verbatim>\<open>exit\<close>.\<close>

lemma switch_out:
  assumes "table_ok (Run i) pk w (ptable s)" "mode_ok (Run i) s" "sched_enter (upd_proc i f s) = Inr s'"
    "state (f (ptable s ! i)) \<noteq> EMBRYO" "pgdir (f (ptable s ! i)) = pgdir (ptable s ! i)"
  shows "table_ok (Scan (Suc i)) (pk(i := x)) w (ptable (scheduler_back s'))" "mode_ok (Scan (Suc i)) (scheduler_back s')"
proof -
  have i: "i < NPROC" "curproc s = Some i" "lock_inv (lk s)" using assms(2) by (auto simp: mode_ok_def)
  have len: "length (ptable s) = NPROC" using assms(1) by (simp add: table_ok_def)
  from sched_enter_SomeD [OF assms(3)] i len have s': "state (f (ptable s ! i)) \<noteq> RUNNING"
    "s' = upd_proc i (\<lambda>p. p\<lparr>sched_intena := intena (lk s)\<rparr>) (upd_proc i f s)" "held (lk s) = {LPtable}" "intena (lk s) \<noteq> 0"
    by auto
  show "mode_ok (Scan (Suc i)) (scheduler_back s')" using s' i by (simp add: mode_ok_def scheduler_back_def)
  have "proc_ok (Scan (Suc i)) (pk(i := x)) w k (ptable s' ! k)" if k: "k < NPROC" for k
  proof -
    have ok: "proc_ok (Run i) pk w k (ptable s ! k)" using assms(1) k by (simp add: table_ok_def)
    show ?thesis
    proof (cases "k = i")
      case True
      then show ?thesis using ok s' assms(4,5) len i rank_less [OF k] by (auto simp: proc_ok_def pos_def)
    next
      case False
      then show ?thesis using ok s'(2) by (auto simp: proc_ok_def pos_def)
    qed
  qed
  then show "table_ok (Scan (Suc i)) (pk(i := x)) w (ptable (scheduler_back s'))"
    using s'(2) len by (simp add: table_ok_def scheduler_back_def)
qed

lemma wakeup_ok:
  assumes "wakeup c s = Inr t" "table_ok (Run i) pk w (ptable s)" "mode_ok (Run i) s"
  shows "table_ok (Run i) pk w (ptable t)" "mode_ok (Run i) t"
proof -
  obtain s1 where 1: "acquire LPtable s = Inr s1" "release LPtable (wakeup1 c s1) = Inr t"
    using assms(1) by (auto simp: wakeup_def bindR_eq_Inr)
  show "mode_ok (Run i) t" using section_ok [OF 1 _ _ assms(3)] by simp
  have "ptable t = ptable (wakeup1 c s)" using section_table(1) [OF 1(1)] section_table(2) [OF 1(2)] by (simp add: wakeup1_def)
  then show "table_ok (Run i) pk w (ptable t)"
    using assms(2) by (auto simp: wakeup1_def intro!: table_map proc_ok_wake(1))
qed

lemma kill_ok:
  assumes "kill target s = Inr (r, t)" "table_ok (Run i) pk w (ptable s)" "mode_ok (Run i) s"
  shows "table_ok (Run i) pk w (ptable t)" "mode_ok (Run i) t"
proof -
  let ?f = "\<lambda>p. p\<lparr>killed := True, state := if state p = SLEEPING then RUNNABLE else state p\<rparr>"
  obtain s1 where 1: "acquire LPtable s = Inr s1" using assms(1) by (auto simp: kill_def bindR_eq_Inr)
  have p1: "ptable s1 = ptable s" using lock_fields 1 by blast
  have *: "mode_ok (Run i) t \<and> table_ok (Run i) pk w (ptable t)"
  proof (cases "find_index (\<lambda>p. pid p = target) (ptable s)")
    case None
    then have "release LPtable s1 = Inr t" using assms(1) 1 p1 by (simp add: kill_def bindR_eq_Inr)
    then show ?thesis using section_ok [OF 1 _ refl refl assms(3)] section_table(2) [of LPtable s1 t] p1 assms(2) by simp
  next
    case (Some c)
    then have 2: "release LPtable (upd_proc c ?f s1) = Inr t"
      using assms(1) 1 p1 by (auto simp: kill_def bindR_eq_Inr Let_def)
    have c: "c < NPROC" using find_index_SomeD [OF Some] assms(2) by (simp add: table_ok_def)
    have "table_ok (Run i) pk w ((ptable s)[c := ?f (ptable s ! c)])"
    proof (rule table_upd [OF assms(2) c])
      assume "proc_ok (Run i) pk w c (ptable s ! c)"
      then show "proc_ok (Run i) pk w c (?f (ptable s ! c))"
        using proc_ok_wake(2) [OF _ c] rank_less [OF c] by (cases "state (ptable s ! c) = SLEEPING") (auto simp: proc_ok_def)
    qed
    then show ?thesis using section_ok [OF 1 2 _ _ assms(3)] section_table(2) [OF 2] unfolding upd_proc_fields p1 by simp
  qed
  show "table_ok (Run i) pk w (ptable t)" "mode_ok (Run i) t" using * by simp_all
qed

lemma kalloc_fields:
  assumes "kalloc s = Inr (r, t)" "mode_ok (Run i) s"
  shows "ptable t = ptable s" "mode_ok (Run i) t"
proof -
  let ?g = "\<lambda>s. if freelist s \<noteq> 0 then s\<lparr>freelist := load32 (mem s) (freelist s)\<rparr> else s"
  obtain s1 where 1: "acquire LKmem s = Inr s1" "release LKmem (?g s1) = Inr t"
    using assms(1) by (auto simp: kalloc_def bindR_eq_Inr Let_def)
  show "mode_ok (Run i) t" using section_ok [OF 1 _ _ assms(2)] by simp
  have "ptable (?g s1) = ptable s1" by simp
  then show "ptable t = ptable s" using section_table(1) [OF 1(1)] section_table(2) [OF 1(2)] by simp
qed

lemma allocproc_ok:
  assumes "allocproc fr s = Inr (Some c, t)" "table_ok (Run i) pk w (ptable s)" "mode_ok (Run i) s"
  shows "table_ok (Run i) (pk(c := ParkNew)) w (ptable t)" "mode_ok (Run i) t"
proof -
  let ?e = "\<lambda>s. (upd_proc c (\<lambda>p. p\<lparr>state := EMBRYO, pid := nextpid s\<rparr>) s)\<lparr>nextpid := nextpid s + 1\<rparr>"
  let ?i = "\<lambda>r p. p\<lparr>tf_addr := r + KSTACKSIZE - TF_SIZE, tf := (tf p)(T_SSR := 0),
      context := (\<lambda>_. 0)(C_SR := 0x70000000, C_PR := fr, CR 15 := r + KSTACKSIZE - TF_SIZE, CR 14 := r + KSTACKSIZE)\<rparr>"
  obtain s1 s2 s3 r where 1: "acquire LPtable s = Inr s1" "find_index (\<lambda>p. state p = UNUSED) (ptable s1) = Some c"
    "release LPtable (?e s1) = Inr s2" "kalloc s2 = Inr (r, s3)"
    "t = upd_proc c (?i r) (upd_proc c (\<lambda>p. p\<lparr>kstack := r\<rparr>) s3)"
    using assms(1) by (auto simp: allocproc_def bindR_eq_Inr Let_def upd_proc_def split: option.splits if_splits)
  have p1: "ptable s1 = ptable s" using lock_fields 1(1) by blast
  have c: "c < NPROC" "state (ptable s ! c) = UNUSED" using find_index_SomeD [OF 1(2)] assms(2) p1 by (simp_all add: table_ok_def)
  have m2: "mode_ok (Run i) s2" using section_ok [OF 1(1,3) _ _ assms(3)] by simp
  note k = kalloc_fields [OF 1(4) m2]
  show "mode_ok (Run i) t" using k(2) 1(5) by (simp add: mode_ok_def)
  have p2: "ptable s2 = (ptable s)[c := (ptable s ! c)\<lparr>state := EMBRYO, pid := nextpid s1\<rparr>]"
    using section_table(2) [OF 1(3)] p1 by simp
  have ok: "proc_ok (Run i) pk w c (ptable s ! c)" "length (ptable s) = NPROC" using assms(2) c(1) by (simp_all add: table_ok_def)
  have "proc_ok (Run i) (pk(c := ParkNew)) w j (ptable t ! j)" if j: "j < NPROC" for j
  proof (cases "j = c")
    case True
    then show ?thesis using ok c k(1) p2 1(5) by (simp add: proc_ok_def)
  next
    case False
    moreover have "proc_ok (Run i) pk w j (ptable s ! j)" using assms(2) j by (simp add: table_ok_def)
    ultimately show ?thesis using k(1) p2 1(5) by (simp add: proc_ok_def)
  qed
  then show "table_ok (Run i) (pk(c := ParkNew)) w (ptable t)" using ok(2) k(1) p2 1(5) by (simp add: table_ok_def)
qed

text \<open>Dispatching: the scan picks the first runnable process at or after its position.\<close>

lemma scheduler_scan_cases:
  assumes "mode_ok (Scan j) s" "table_ok (Scan j) pk w (ptable s)"
  shows "scheduler_scan j s = Inl Spin \<or>
    (\<exists>k. scheduler_scan j s = Inr (None, s\<lparr>lk := k\<rparr>) \<and> lock_inv k \<and> held k = {} \<and>
       (\<forall>i. j \<le> i \<and> i < NPROC \<longrightarrow> state (ptable s ! i) \<noteq> RUNNABLE)) \<or>
    (\<exists>i t. scheduler_scan j s = Inr (Some i, upd_proc i (\<lambda>p. p\<lparr>state := RUNNING\<rparr>) (s\<lparr>curproc := Some i, tlb := t\<rparr>)) \<and>
       j \<le> i \<and> i < NPROC \<and> state (ptable s ! i) = RUNNABLE \<and> (\<forall>k. j \<le> k \<and> k < i \<longrightarrow> state (ptable s ! k) \<noteq> RUNNABLE))"
proof -
  have m: "lock_inv (lk s)" "held (lk s) = {LPtable}" "j \<le> NPROC" using assms(1) by (auto simp: mode_ok_def)
  have len: "length (ptable s) = NPROC" using assms(2) by (simp add: table_ok_def)
  show ?thesis
  proof (cases "find_index (\<lambda>p. state p = RUNNABLE) (drop j (ptable s))")
    case None
    have "state (ptable s ! i) \<noteq> RUNNABLE" if "j \<le> i" "i < NPROC" for i
      using find_index_NoneD [OF None, of "i - j"] that len by simp
    then show ?thesis using None release_ok [OF m(1), of LPtable] m(2) by (auto simp: scheduler_scan_def)
  next
    case (Some d)
    note d = find_index_SomeD [OF Some]
    have i: "j + d < NPROC" "state (ptable s ! (j + d)) = RUNNABLE" using d len by (auto simp: less_diff_conv add.commute)
    have first: "state (ptable s ! k) \<noteq> RUNNABLE" if "j \<le> k" "k < j + d" for k
    proof -
      have "k - j < d" using that by linarith
      then have "state (drop j (ptable s) ! (k - j)) \<noteq> RUNNABLE" using d by blast
      then show ?thesis using that len i(1) by simp
    qed
    have pd: "pgdir (ptable s ! (j + d)) \<noteq> 0" using assms(2) i by (auto simp: table_ok_def proc_ok_def)
    show ?thesis
      using switchuvm_run [of "s\<lparr>curproc := Some (j + d)\<rparr>" "pgdir (ptable s ! (j + d))"] m(1,2) pd Some i first
      by (auto simp: scheduler_scan_def Let_def)
  qed
qed

lemma resume_ok:
  assumes "lock_inv (lk s)" "held (lk s) = {LPtable}" "pk \<noteq> ParkNew \<longrightarrow> sched_intena (ptable s ! i) \<noteq> 0"
  shows "\<exists>s'. resume pk i s = Inr s' \<and> lock_inv (lk s') \<and> curproc s' = curproc s \<and>
    (ptable s' = ptable s \<or> ptable s' = (ptable s)[i := (ptable s ! i)\<lparr>chan := None\<rparr>]) \<and>
    held (lk s') = (case pk of ParkSleep l \<Rightarrow> {l} | _ \<Rightarrow> {})"
proof -
  have h: "held (lk (sched_resume i s)) = held (lk s)" by (simp add: sched_resume_def held_def)
  have r: "lock_inv (lk (sched_resume i s))" "held (lk (sched_resume i s)) = {LPtable}" if "pk \<noteq> ParkNew"
    using assms that h unfolding lock_inv_def h by (simp_all add: sched_resume_def)
  show ?thesis
  proof (cases pk)
    case ParkNew
    then show ?thesis using release_ok [OF assms(1), of LPtable] assms(2) by (auto simp: resume_def forkret_enter_def)
  next
    case ParkYield
    then show ?thesis using release_ok [OF r(1), of LPtable] r(2) by (auto simp: resume_def yield_resume_def sched_resume_def)
  next
    case (ParkSleep l)
    let ?t = "upd_proc i (\<lambda>p. p\<lparr>chan := None\<rparr>) (sched_resume i s)"
    have t: "lock_inv (lk ?t)" "held (lk ?t) = {LPtable}" "curproc ?t = curproc s"
      "ptable ?t = (ptable s)[i := (ptable s ! i)\<lparr>chan := None\<rparr>]"
      using r ParkSleep by (simp_all add: sched_resume_def)
    show ?thesis
    proof (cases "l = LPtable")
      case True
      then show ?thesis using ParkSleep t by (auto simp: resume_def sleep_resume_def Let_def)
    next
      case False
      obtain k where k: "release LPtable ?t = Inr (?t\<lparr>lk := k\<rparr>)" "lock_inv k" "held k = {}"
        using release_ok [OF t(1), of LPtable] t(2) by auto
      obtain k' where "acquire l (?t\<lparr>lk := k\<rparr>) = Inr (?t\<lparr>lk := k'\<rparr>)" "lock_inv k'" "held k' = {l}"
        using acquire_ok [of "?t\<lparr>lk := k\<rparr>" l] k by auto
      then show ?thesis using ParkSleep False k(1) t(3,4) by (auto simp: resume_def sleep_resume_def Let_def)
    qed
  qed
qed

lemma dispatch_ok:
  assumes "mode_ok (Scan j) s" "table_ok (Scan j) pk w (ptable s)" "scheduler_scan j s = Inr (Some i, s1)"
    "resume (pk i) i s1 = Inr s'"
  shows "mode_ok (Run i) s'"
    "table_ok (Run i) pk (\<lambda>k. if k \<noteq> i \<and> state (ptable s ! k) = RUNNABLE then w k + 1 else 0) (ptable s')"
proof -
  obtain t where 1: "s1 = upd_proc i (\<lambda>p. p\<lparr>state := RUNNING\<rparr>) (s\<lparr>curproc := Some i, tlb := t\<rparr>)"
    "j \<le> i" "i < NPROC" "state (ptable s ! i) = RUNNABLE" "\<forall>k. j \<le> k \<and> k < i \<longrightarrow> state (ptable s ! k) \<noteq> RUNNABLE"
    using scheduler_scan_cases [OF assms(1,2)] assms(3) by auto
  have m: "lock_inv (lk s1)" "held (lk s1) = {LPtable}" "j \<le> NPROC" "curproc s1 = Some i"
    using assms(1) 1(1) by (auto simp: mode_ok_def)
  have len: "length (ptable s) = NPROC" and ok: "\<And>k. k < NPROC \<Longrightarrow> proc_ok (Scan j) pk w k (ptable s ! k)"
    using assms(2) by (simp_all add: table_ok_def)
  have p1: "ptable s1 = (ptable s)[i := (ptable s ! i)\<lparr>state := RUNNING\<rparr>]" using 1(1) by simp
  have "pk i \<noteq> ParkNew \<longrightarrow> sched_intena (ptable s1 ! i) \<noteq> 0"
    using ok [OF 1(3)] 1(4) p1 len 1(3) by (simp add: proc_ok_def)
  from resume_ok [OF m(1,2) this] assms(4) have r: "lock_inv (lk s')" "curproc s' = Some i"
    "ptable s' = ptable s1 \<or> ptable s' = (ptable s1)[i := (ptable s1 ! i)\<lparr>chan := None\<rparr>]" using m(4) by auto
  show "mode_ok (Run i) s'" using r 1(3) by (simp add: mode_ok_def)
  let ?w = "\<lambda>k. if k \<noteq> i \<and> state (ptable s ! k) = RUNNABLE then w k + 1 else 0"
  have "proc_ok (Run i) pk ?w k (ptable s' ! k)" if k: "k < NPROC" for k
  proof (cases "k = i")
    case True
    then show ?thesis using ok [OF k] r(3) p1 len k 1(4) by (auto simp: proc_ok_def)
  next
    case False
    then have same: "ptable s' ! k = ptable s ! k" using r(3) p1 by auto
    have "rank (Suc i) k < rank j k" if run: "state (ptable s ! k) = RUNNABLE"
    proof (cases "j \<le> k")
      case True
      then have "i < k" using 1(5) run False by (metis linorder_neqE_nat)
      then show ?thesis using True 1(2) by (simp add: rank_def)
    qed (use 1(2,3) in \<open>simp add: rank_def\<close>)
    then show ?thesis using ok [OF k] False same by (auto simp: proc_ok_def pos_def)
  qed
  then show "table_ok (Run i) pk ?w (ptable s')" using r(3) p1 len by (auto simp: table_ok_def)
qed

lemma reach_ok: "reach m pk w s \<Longrightarrow> mode_ok m s \<and> table_ok m pk w (ptable s)"
proof (induction rule: reach.induct)
  case (boot s)
  have "proc_ok Idle (\<lambda>_. ParkNew) (\<lambda>_. 0) k (ptable s ! k)" if k: "k < NPROC" for k
  proof -
    have "ptable s ! k \<in> set (ptable s)" using boot(4) k by simp
    then show ?thesis using boot(5) rank_less [OF k] by (auto simp: proc_ok_def)
  qed
  then show ?case using boot by (simp add: mode_ok_def table_ok_def)
next
  case (pass pk w s s')
  have "held (sti (lk s)) = held (lk s)" "lock_inv (sti (lk s))"
    using pass.IH by (auto simp: mode_ok_def lock_inv_def sti_def held_def)
  then have "lock_inv (lk s')" "held (lk s') = {LPtable}" "ptable s' = ptable s" "curproc s' = None"
    using pass acquire_keeps_inv [of "s\<lparr>lk := sti (lk s)\<rparr>" LPtable s'] acquire_SomeD(2) [of LPtable "s\<lparr>lk := sti (lk s)\<rparr>" s']
      lock_fields [of LPtable "s\<lparr>lk := sti (lk s)\<rparr>" s'] by (simp_all add: scheduler_begin_def mode_ok_def)
  moreover have "table_ok (Scan 0) pk w (ptable s)"
    using pass.IH by (auto simp: table_ok_def proc_ok_def pos_def rank_def)
  ultimately show ?case by (simp add: mode_ok_def)
next
  case (pass_end j pk w s s')
  then obtain k where k: "s' = s\<lparr>lk := k\<rparr>" "lock_inv k" "held k = {}"
    "\<forall>i. j \<le> i \<and> i < NPROC \<longrightarrow> state (ptable s ! i) \<noteq> RUNNABLE" using scheduler_scan_cases [of j s pk w] by auto
  have "proc_ok Idle pk w i (ptable s ! i)" if i: "i < NPROC" for i
  proof -
    have "proc_ok (Scan j) pk w i (ptable s ! i)" using pass_end.IH i by (simp add: table_ok_def)
    moreover have "rank NPROC i \<le> rank j i" if "state (ptable s ! i) = RUNNABLE"
      using k(4) i that by (auto simp: rank_def)
    ultimately show ?thesis by (auto simp: proc_ok_def pos_def)
  qed
  then show ?case using k pass_end.IH by (auto simp: mode_ok_def table_ok_def)
next
  case (dispatch j pk w s i s1 s' w')
  then show ?case using dispatch_ok by blast
next
  case (lock i pk w s l s')
  then show ?case using lock_step_ok [of l s s' i] lock_fields(1) [of l s s'] by simp
next
  case (unlock i pk w s l s')
  then show ?case using lock_step_ok [of l s s' i] lock_fields(1) [of l s s'] by simp
next
  case (publish i pk w s c pd)
  then show ?case using rank_less [of c]
    by (auto simp: mode_ok_def table_ok_def proc_ok_def nth_list_update)
next
  case (reap i pk w s c)
  then show ?case by (auto simp: mode_ok_def table_ok_def proc_ok_def nth_list_update)
next
  case (give_up i pk w s s')
  then obtain s1 where a: "acquire LPtable s = Inr s1" by (auto simp: yield_enter_def bindR_eq_Inr)
  then have "curproc s1 = Some i" using lock_fields(2) [of LPtable s s1] give_up.IH by (simp add: mode_ok_def)
  then have se: "sched_enter (upd_proc i (\<lambda>p. p\<lparr>state := RUNNABLE\<rparr>) s1) = Inr s'"
    using give_up a by (simp add: yield_enter_def)
  have 1: "table_ok (Run i) pk w (ptable s1)" "mode_ok (Run i) s1"
    using lock_step_ok [of LPtable s s1 i] lock_fields(1) [of LPtable s s1] give_up.IH a by simp_all
  show ?case using switch_out(1) [OF 1 se, where x = ParkYield] switch_out(2) [OF 1 se] by (simp add: fun_upd_def)
next
  case (go_sleep i pk w s c l s')
  have cp: "curproc s = Some i" using go_sleep.IH by (simp add: mode_ok_def)
  have "\<exists>s1. mode_ok (Run i) s1 \<and> ptable s1 = ptable s \<and>
    sched_enter (upd_proc i (\<lambda>p. p\<lparr>chan := Some c, state := SLEEPING\<rparr>) s1) = Inr s'"
  proof (cases "l = LPtable")
    case True
    then show ?thesis using go_sleep cp by (auto simp: sleep_enter_def)
  next
    case False
    then obtain s0 s1 where 0: "acquire LPtable s = Inr s0" "release l s0 = Inr s1"
      "sched_enter (upd_proc i (\<lambda>p. p\<lparr>chan := Some c, state := SLEEPING\<rparr>) s1) = Inr s'"
      using go_sleep cp by (auto simp: sleep_enter_def bindR_eq_Inr)
    have "mode_ok (Run i) s1" using 0(1,2) lock_step_ok [of LPtable s s0 i] lock_step_ok [of l s0 s1 i] go_sleep.IH by simp
    then show ?thesis
      using section_table(1) [OF 0(1)] section_table(2) [OF 0(2)] 0(3) by (intro exI [of _ s1]) simp
  qed
  then obtain s1 where s1: "mode_ok (Run i) s1" "ptable s1 = ptable s"
    and se: "sched_enter (upd_proc i (\<lambda>p. p\<lparr>chan := Some c, state := SLEEPING\<rparr>) s1) = Inr s'" by blast
  have 1: "table_ok (Run i) pk w (ptable s1)" using s1 go_sleep.IH by simp
  show ?case using switch_out(1) [OF 1 s1(1) se, where x = "ParkSleep l"] switch_out(2) [OF 1 s1(1) se] by (simp add: fun_upd_def)
next
  case (die i pk w s s')
  have 1: "table_ok (Run i) pk w (ptable s)" "mode_ok (Run i) s" using die.IH by simp_all
  show ?case using switch_out(1) [OF 1 die.hyps(2), where x = "pk i"] switch_out(2) [OF 1 die.hyps(2)] by simp
next
  case (create i pk w s fr c s')
  then show ?case using allocproc_ok [of fr s c s' i pk w] by (simp add: fun_upd_def)
qed (auto dest: wakeup_ok kill_ok)

section \<open>Properties of the scheduler\<close>

lemma held_single:
  assumes "lock_inv k" "held k = {l}"
  shows "holding l k" "ncli k = 1" "sr k AND SR_BL_MASK \<noteq> 0"
proof -
  have l: "l \<in> held k" "ncli k = 1" using assms by (auto simp: lock_inv_def)
  moreover from l(1) have "lock_cpu (locks k l) = Some 0" using assms(1) by (auto simp: lock_inv_def)
  ultimately show "holding l k" "ncli k = 1" "sr k AND SR_BL_MASK \<noteq> 0"
    using assms(1) by (auto simp: lock_inv_def holding_def held_def)
qed

lemma sched_runs:
  assumes "mode_ok (Run i) s" "length (ptable s) = NPROC" "lock_inv k" "held k = {LPtable}" "state (f (ptable s ! i)) \<noteq> RUNNING"
  shows "\<exists>s'. sched_enter (upd_proc i f (s\<lparr>lk := k\<rparr>)) = Inr s'"
  using held_single [OF assms(3,4)] assms(1,2,5) by (simp add: sched_enter_def mode_ok_def)

lemma yield_runs:
  assumes "mode_ok (Run i) s \<and> table_ok (Run i) pk w (ptable s)" "held (lk s) = {}"
  shows "\<exists>s'. yield_enter s = Inr s'"
proof -
  obtain k where "acquire LPtable s = Inr (s\<lparr>lk := k\<rparr>)" "lock_inv k" "held k = {LPtable}"
    using acquire_ok [of s LPtable] assms by (auto simp: mode_ok_def)
  then show ?thesis
    using sched_runs [of i s k "\<lambda>p. p\<lparr>state := RUNNABLE\<rparr>"] assms(1) by (auto simp: yield_enter_def mode_ok_def table_ok_def)
qed

lemma sleep_runs:
  assumes "mode_ok (Run i) s \<and> table_ok (Run i) pk w (ptable s)" "held (lk s) = {l}"
  shows "\<exists>s'. sleep_enter c l s = Inr s'"
proof -
  let ?f = "\<lambda>p. p\<lparr>chan := Some c, state := SLEEPING\<rparr>"
  have li: "lock_inv (lk s)" "curproc s = Some i" "length (ptable s) = NPROC" using assms(1) by (auto simp: mode_ok_def table_ok_def)
  show ?thesis
  proof (cases "l = LPtable")
    case True
    then show ?thesis using sched_runs [of i s "lk s" ?f] assms li by (simp add: sleep_enter_def)
  next
    case False
    obtain k where k: "acquire LPtable s = Inr (s\<lparr>lk := k\<rparr>)" "lock_inv k" "held k = {LPtable, l}"
      using acquire_ok [OF li(1), of LPtable] assms(2) False by auto
    obtain k' where "release l (s\<lparr>lk := k\<rparr>) = Inr (s\<lparr>lk := k'\<rparr>)" "lock_inv k'" "held k' = {LPtable}"
      using release_ok [of "s\<lparr>lk := k\<rparr>" l] k(2,3) False by auto
    then show ?thesis using sched_runs [of i s k' ?f] assms li False k(1) by (simp add: sleep_enter_def)
  qed
qed

text \<open>With any other locks held, the calls panic.\<close>

lemma sched_locks:
  assumes "lock_inv k" "LPtable \<in> held k" "held k \<noteq> {LPtable}"
  shows "sched_enter (upd_proc i f (s\<lparr>lk := k\<rparr>)) = Inl (Panic ''sched locks'')"
proof -
  have "card (held k) \<noteq> 1" using assms(2,3) by (auto simp: card_1_singleton_iff)
  then have "ncli k \<noteq> 1" using assms(1) by (simp add: lock_inv_def)
  moreover have "holding LPtable k" using assms(1,2) by (auto simp: lock_inv_def holding_def held_def)
  ultimately show ?thesis by (simp add: sched_enter_def)
qed

lemma acquire_held: "lock_inv (lk s) \<Longrightarrow> l \<in> held (lk s) \<Longrightarrow> acquire l s = Inl (Panic ''acquire'')"
  by (auto simp: acquire_def Let_def pushcli_def cli_def holding_def held_def lock_inv_def)

lemma release_free: "lock_inv (lk s) \<Longrightarrow> l \<notin> held (lk s) \<Longrightarrow> release l s = Inl (Panic ''release'')"
  by (auto simp: release_def Let_def holding_def held_def lock_inv_def)

lemma yield_panics:
  assumes "mode_ok (Run i) s" "held (lk s) \<noteq> {}"
  shows "\<exists>msg. yield_enter s = Inl (Panic msg)"
proof (cases "LPtable \<in> held (lk s)")
  case True
  then show ?thesis using assms(1) by (simp add: yield_enter_def acquire_held mode_ok_def)
next
  case False
  obtain k where k: "acquire LPtable s = Inr (s\<lparr>lk := k\<rparr>)" "lock_inv k" "held k = insert LPtable (held (lk s))"
    using acquire_ok [OF _ False] assms(1) by (auto simp: mode_ok_def)
  moreover have "held k \<noteq> {LPtable}" using k(3) False assms(2) by auto
  ultimately show ?thesis using assms(1) sched_locks [of k i "\<lambda>p. p\<lparr>state := RUNNABLE\<rparr>" s] by (simp add: yield_enter_def mode_ok_def)
qed

lemma sleep_panics:
  assumes "mode_ok (Run i) s" "held (lk s) \<noteq> {l}"
  shows "\<exists>msg. sleep_enter c l s = Inl (Panic msg)"
proof -
  have li: "lock_inv (lk s)" "curproc s = Some i" using assms(1) by (simp_all add: mode_ok_def)
  let ?f = "\<lambda>p. p\<lparr>chan := Some c, state := SLEEPING\<rparr>"
  consider "l = LPtable" "LPtable \<in> held (lk s)" | "l = LPtable" "LPtable \<notin> held (lk s)"
    | "l \<noteq> LPtable" "LPtable \<in> held (lk s)" | "l \<noteq> LPtable" "LPtable \<notin> held (lk s)" by blast
  then show ?thesis
  proof cases
    case 1
    then show ?thesis using li assms(2) sched_locks [of "lk s" i ?f s] by (simp add: sleep_enter_def)
  next
    case 2
    then have "\<not> holding LPtable (lk s)" using li(1) by (auto simp: lock_inv_def holding_def held_def)
    then show ?thesis using 2(1) li by (simp add: sleep_enter_def sched_enter_def)
  next
    case 3
    then show ?thesis using li by (simp add: sleep_enter_def acquire_held)
  next
    case 4
    obtain k where k: "acquire LPtable s = Inr (s\<lparr>lk := k\<rparr>)" "lock_inv k" "held k = insert LPtable (held (lk s))"
      using acquire_ok [OF li(1) 4(2)] by blast
    show ?thesis
    proof (cases "l \<in> held (lk s)")
      case False
      then have "release l (s\<lparr>lk := k\<rparr>) = Inl (Panic ''release'')" using k 4(1) by (intro release_free) simp_all
      then show ?thesis using li k(1) 4(1) by (simp add: sleep_enter_def)
    next
      case True
      obtain k' where k': "release l (s\<lparr>lk := k\<rparr>) = Inr (s\<lparr>lk := k'\<rparr>)" "lock_inv k'" "held k' = held k - {l}"
        using release_ok [of "s\<lparr>lk := k\<rparr>" l] k(2,3) True by auto
      have "held k' = insert LPtable (held (lk s) - {l})" using k'(3) k(3) 4(1) by auto
      moreover have "held (lk s) - {l} \<noteq> {}" using True assms(2) by blast
      ultimately have "held k' \<noteq> {LPtable}" "LPtable \<in> held k'" using 4(2) by (metis Diff_iff insert_ident insert_iff empty_iff, simp)
      from sched_locks [OF k'(2) this(2,1), of i ?f s] show ?thesis using li k(1) 4(1) k'(1) by (simp add: sleep_enter_def)
    qed
  qed
qed

lemma scan_runs:
  assumes "mode_ok (Scan j) s \<and> table_ok (Scan j) pk w (ptable s)"
  shows "case find_index (\<lambda>p. state p = RUNNABLE) (drop j (ptable s)) of
      None \<Rightarrow> \<exists>s'. scheduler_scan j s = Inr (None, s')
    | Some d \<Rightarrow> let pd = pgdir (ptable s ! (j + d)) in
        if switchuvm pd pd (s\<lparr>curproc := Some (j + d)\<rparr>) = Inl Spin then scheduler_scan j s = Inl Spin
        else \<exists>s1 s'. scheduler_scan j s = Inr (Some (j + d), s1) \<and> resume (pk (j + d)) (j + d) s1 = Inr s'"
proof -
  have m: "lock_inv (lk s)" "held (lk s) = {LPtable}" and len: "length (ptable s) = NPROC"
    using assms by (auto simp: mode_ok_def table_ok_def)
  show ?thesis
  proof (cases "find_index (\<lambda>p. state p = RUNNABLE) (drop j (ptable s))")
    case None
    then show ?thesis using release_ok [OF m(1), of LPtable] m(2) by (auto simp: scheduler_scan_def)
  next
    case (Some d)
    let ?i = "j + d" and ?pd = "pgdir (ptable s ! (j + d))"
    have i: "?i < NPROC" "state (ptable s ! ?i) = RUNNABLE" using find_index_SomeD [OF Some] len by (auto simp: less_diff_conv add.commute)
    then have ok: "?pd \<noteq> 0" "pk ?i \<noteq> ParkNew \<longrightarrow> sched_intena (ptable s ! ?i) \<noteq> 0" using assms by (auto simp: table_ok_def proc_ok_def)
    show ?thesis
    proof (cases "switchuvm ?pd ?pd (s\<lparr>curproc := Some ?i\<rparr>) = Inl Spin")
      case True
      then show ?thesis using Some by (simp add: scheduler_scan_def Let_def)
    next
      case False
      then obtain t where t: "switchuvm ?pd ?pd (s\<lparr>curproc := Some ?i\<rparr>) = Inr (s\<lparr>curproc := Some ?i, tlb := t\<rparr>)"
        using switchuvm_run [of "s\<lparr>curproc := Some ?i\<rparr>" ?pd] m ok(1) by auto
      let ?s = "upd_proc ?i (\<lambda>p. p\<lparr>state := RUNNING\<rparr>) (s\<lparr>curproc := Some ?i, tlb := t\<rparr>)"
      have "scheduler_scan j s = Inr (Some ?i, ?s)" using t Some by (simp add: scheduler_scan_def Let_def)
      moreover have "\<exists>s'. resume (pk ?i) ?i ?s = Inr s'" using resume_ok [of ?s "pk ?i" ?i] m ok(2) i(1) len by auto
      ultimately show ?thesis using False Some by (auto simp: Let_def)
    qed
  qed
qed

text \<open>
  C10. At most one process runs: in every reachable state a process is in state \<^verbatim>\<open>RUNNING\<close> exactly if the
  processor executes it, it is then the one \<^verbatim>\<open>proc\<close> points at, and while the scheduler itself is scanning
  the table, it holds \<^verbatim>\<open>ptable.lock\<close> and no other lock.
\<close>

theorem one_running:
  assumes "reach m pk w s" "k < NPROC"
  shows "(state (ptable s ! k) = RUNNING \<longleftrightarrow> m = Run k) \<and> (\<forall>i. m = Run i \<longrightarrow> curproc s = Some i) \<and>
    (\<forall>j. m = Scan j \<longrightarrow> held (lk s) = {LPtable} \<and> curproc s = None)"
  using reach_ok [OF assms(1)] assms(2) by (auto simp: mode_ok_def table_ok_def proc_ok_def)

text \<open>
  C15. Bounded waiting: in every reachable state, a runnable process has been passed over by fewer than
  \<^verbatim>\<open>NPROC\<close> dispatches since it became runnable, whatever the processes do while they run.
\<close>

theorem bounded_waiting:
  assumes "reach m pk w s" "k < NPROC" "state (ptable s ! k) = RUNNABLE"
  shows "w k < NPROC"
proof -
  have "proc_ok m pk w k (ptable s ! k)" using reach_ok [OF assms(1)] assms(2) by (simp add: table_ok_def)
  then show ?thesis using assms(3) by (simp add: proc_ok_def)
qed

text \<open>
  C17. When giving up the processor panics: in a reachable state in which process \<open>i\<close> runs, \<^verbatim>\<open>yield\<close> passes the checks of \<^verbatim>\<open>acquire\<close> and
  \<^verbatim>\<open>sched\<close> if and only if the process holds no lock, and \<^verbatim>\<open>sleep\<close> if and only if it holds the lock passed to it and no other; otherwise
  they panic. While the scheduler scans the table from \<open>j\<close> on, it either finds no runnable process and ends its round, or it
  switches to the first one it finds and that process resumes without a panic in \<^verbatim>\<open>release\<close> or \<^verbatim>\<open>acquire\<close>, provided \<^verbatim>\<open>switchuvm\<close> returns
  for its page table (it loops for ever when every page is mapped).
\<close>

theorem switch_checks:
  assumes "reach m pk w s"
  shows "(\<forall>i. m = Run i \<longrightarrow> (if held (lk s) = {} then \<exists>s'. yield_enter s = Inr s' else \<exists>msg. yield_enter s = Inl (Panic msg))) \<and>
    (\<forall>i c l. m = Run i \<longrightarrow> (if held (lk s) = {l} then \<exists>s'. sleep_enter c l s = Inr s' else \<exists>msg. sleep_enter c l s = Inl (Panic msg))) \<and>
    (\<forall>j. m = Scan j \<longrightarrow>
      (case find_index (\<lambda>p. state p = RUNNABLE) (drop j (ptable s)) of
        None \<Rightarrow> \<exists>s'. scheduler_scan j s = Inr (None, s')
      | Some d \<Rightarrow> let pd = pgdir (ptable s ! (j + d)) in
          if switchuvm pd pd (s\<lparr>curproc := Some (j + d)\<rparr>) = Inl Spin then scheduler_scan j s = Inl Spin
          else \<exists>s1 s'. scheduler_scan j s = Inr (Some (j + d), s1) \<and> resume (pk (j + d)) (j + d) s1 = Inr s'))"
proof (intro conjI allI impI)
  note r = reach_ok [OF assms]
  fix i assume i: "m = Run i"
  show "if held (lk s) = {} then \<exists>s'. yield_enter s = Inr s' else \<exists>msg. yield_enter s = Inl (Panic msg)"
    using r yield_runs yield_panics unfolding i by (metis (full_types))
  fix c l
  show "if held (lk s) = {l} then \<exists>s'. sleep_enter c l s = Inr s' else \<exists>msg. sleep_enter c l s = Inl (Panic msg)"
    using r sleep_runs sleep_panics unfolding i by (metis (full_types))
qed (use reach_ok [OF assms] scan_runs in blast)

section \<open>A kernel with two runnable processes\<close>

definition sched_demo :: kproc where
  "sched_demo = \<lparr>lk = cycle (boot_locks 0), mem = (\<lambda>_. 0), freelist = 0, tlb = (\<lambda>_. None),
     ptable = [zero_proc\<lparr>state := RUNNABLE, pgdir := 4096\<rparr>, zero_proc\<lparr>state := RUNNABLE, pgdir := 4096\<rparr>] @ replicate 62 zero_proc,
     nextpid = 3, curproc = None, initproc = Some 0\<rparr>"

lemma sched_demo_boot: "reach Idle (\<lambda>_. ParkNew) (\<lambda>_. 0) sched_demo"
proof (rule boot)
  show "lock_inv (lk sched_demo)" "held (lk sched_demo) = {}"
    by (simp_all add: sched_demo_def cycle_def boot_locks_def free_lock_def lock_inv_def held_def)
qed (auto simp: sched_demo_def NPROC_def zero_proc_def)

lemma switchuvm_no_pages:
  assumes "0 < fuel" "\<And>a. load32 (mem s) a = 0"
  shows "switchuvm_loop fuel pd va i s = Inr s"
  using assms by (cases fuel) (simp_all add: walkpgdir_def Let_def)

text \<open>The first process runs, and the second one has been overtaken once.\<close>

lemma sched_demo_run:
  "\<exists>s w. reach (Run 0) (\<lambda>_. ParkNew) w (s :: kproc) \<and> state (ptable s ! 0) = RUNNING \<and> state (ptable s ! 1) = RUNNABLE \<and>
     w 1 = 1 \<and> held (lk s) = {}"
proof -
  obtain s1 where b: "scheduler_begin sched_demo = Inr s1" "s1 = sched_demo\<lparr>lk := lk s1\<rparr>"
  proof -
    have "idle LPtable (sti (lk sched_demo))" by (simp add: idle_def sti_def sched_demo_def cycle_def boot_locks_def free_lock_def)
    then have "scheduler_begin sched_demo = Inr (sched_demo\<lparr>lk := hold LPtable (sti (lk sched_demo))\<rparr>)"
      by (simp add: scheduler_begin_def acquire_run)
    then show ?thesis using that by simp
  qed
  have r1: "reach (Scan 0) (\<lambda>_. ParkNew) (\<lambda>_. 0) s1" by (rule pass [OF sched_demo_boot b(1)])
  have ok: "mode_ok (Scan 0) s1" "table_ok (Scan 0) (\<lambda>_. ParkNew) (\<lambda>_. 0) (ptable s1)" using reach_ok [OF r1] by simp_all
  have tb: "ptable s1 ! 0 = zero_proc\<lparr>state := RUNNABLE, pgdir := 4096\<rparr>" "ptable s1 ! 1 = zero_proc\<lparr>state := RUNNABLE, pgdir := 4096\<rparr>"
    "ptable s1 = ptable sched_demo" "mem s1 = (\<lambda>_. 0)"
    by (subst b(2), simp add: sched_demo_def)+
  have "load32 (mem (clear_tlb (s1\<lparr>curproc := Some 0, lk := k\<rparr>))) a = 0" for a k
    using tb(4) by (simp add: load32_def clear_tlb_def)
  then have nsp: "switchuvm 4096 4096 (s1\<lparr>curproc := Some 0\<rparr>) \<noteq> Inl Spin"
    by (simp add: switchuvm_def Let_def switchuvm_no_pages popcli_def split: if_splits)
  have fi: "find_index (\<lambda>p. state p = RUNNABLE) (drop 0 (ptable s1)) = Some 0" using tb(3) by (simp add: sched_demo_def)
  have sc0: "scheduler_scan 0 s1 = bindR (switchuvm 4096 4096 (s1\<lparr>curproc := Some 0\<rparr>))
      (\<lambda>s. Inr (Some 0, upd_proc 0 (\<lambda>p. p\<lparr>state := RUNNING\<rparr>) s))"
    unfolding scheduler_scan_def fi by (simp add: tb(1) Let_def)
  have "lock_inv (lk s1)" "held (lk s1) \<noteq> {}" using ok(1) by (simp_all add: mode_ok_def)
  then obtain t where "switchuvm 4096 4096 (s1\<lparr>curproc := Some 0\<rparr>) = Inr (s1\<lparr>curproc := Some 0, tlb := t\<rparr>)"
    using switchuvm_run [of "s1\<lparr>curproc := Some 0\<rparr>" 4096] nsp by auto
  then have sc: "scheduler_scan 0 s1 = Inr (Some 0, upd_proc 0 (\<lambda>p. p\<lparr>state := RUNNING\<rparr>) (s1\<lparr>curproc := Some 0, tlb := t\<rparr>))"
    using sc0 by simp
  let ?s2 = "upd_proc 0 (\<lambda>p. p\<lparr>state := RUNNING\<rparr>) (s1\<lparr>curproc := Some 0, tlb := t\<rparr>)"
  have "lock_inv (lk ?s2)" "held (lk ?s2) = {LPtable}" using ok(1) by (simp_all add: mode_ok_def)
  from release_ok [OF this(1), of LPtable] this(2) obtain k where
    rs: "resume ParkNew 0 ?s2 = Inr (?s2\<lparr>lk := k\<rparr>)" "held k = {}" by (auto simp: resume_def forkret_enter_def)
  note d = dispatch [OF r1 sc rs(1) refl]
  have "ptable s1 \<noteq> []" "state (ptable s1 ! 1) = RUNNABLE" using tb by (simp_all add: sched_demo_def)
  then show ?thesis using d rs(2)
    by (intro exI conjI) (rule d, simp_all)
qed

theorem one_running_witness:
  "\<exists>m pk w s. reach m pk w (s :: kproc) \<and> state (ptable s ! 0) = RUNNING \<and> curproc s = Some 0"
proof -
  obtain s w where r: "reach (Run 0) (\<lambda>_. ParkNew) w (s :: kproc)" using sched_demo_run by blast
  have "0 < NPROC" by (simp add: NPROC_def)
  from one_running [OF r this] r show ?thesis by blast
qed

theorem bounded_waiting_witness:
  "\<exists>m pk w s. reach m pk w (s :: kproc) \<and> w 1 = 1 \<and> w 1 < NPROC"
proof -
  obtain s w where r: "reach (Run 0) (\<lambda>_. ParkNew) w (s :: kproc)" "state (ptable s ! 1) = RUNNABLE" "w 1 = 1"
    using sched_demo_run by blast
  have "1 < NPROC" by (simp add: NPROC_def)
  from bounded_waiting [OF r(1) this r(2)] r show ?thesis by blast
qed

theorem switch_checks_witness:
  "\<exists>pk w s s'. reach (Run 0) pk w (s :: kproc) \<and> yield_enter s = Inr s'"
proof -
  obtain s w where r: "reach (Run 0) (\<lambda>_. ParkNew) w (s :: kproc)" "held (lk s) = {}" using sched_demo_run by blast
  from switch_checks [OF r(1)] r(2) have "\<exists>s'. yield_enter s = Inr s'" by auto
  then show ?thesis using r(1) by blast
qed

end
