(* ===== verification/Fs_Write.thy ===== *)
theory Fs_Write
  imports Fs_Inode
begin

text \<open>
  Correctness of the file contents layer (\<^verbatim>\<open>bmap\<close>, \<^verbatim>\<open>readi\<close>, \<^verbatim>\<open>writei\<close> of \<^verbatim>\<open>src/fs.c\<close>). A disk is well
  formed when the bitmap marks all blocks of the file system's own structures and every unmarked
  block is zero; a file is well formed when its blocks are marked, are data blocks, and are pairwise
  different. Writing allocates blocks on demand, keeps both, changes no block of another file, and
  what was written is read back.
\<close>

section \<open>Well-formed disks and files\<close>

text \<open>The blocks of the file system's own structures: unused, super block, bitmap and inodes.\<close>

definition meta :: "superblock \<Rightarrow> u32 set" where
  "meta sb = {0, 1} \<union> bitmap_blocks sb \<union> IBLOCK ` {n. n < ninodes sb}"

text \<open>
  \<^verbatim>\<open>balloc\<close> reads whole bitmap blocks, so it also sees bits for blocks past the end of the disk (\<^verbatim>\<open>sb.size\<close>). What
  follows is said for the blocks below a limit \<open>L\<close>: the size of the disk, or all the bits of the bitmap.
\<close>

definition disk_size :: "superblock \<Rightarrow> nat" where
  "disk_size sb = unat (sbsize sb)"

definition bitmap_size :: "superblock \<Rightarrow> nat" where
  "bitmap_size sb = 4096 * groups sb"

definition below :: "(superblock \<Rightarrow> nat) \<Rightarrow> superblock \<Rightarrow> u32 \<Rightarrow> bool" where
  "below L sb b \<longleftrightarrow> unat b < min (L sb) (bitmap_size sb)"

definition disk_upto :: "(superblock \<Rightarrow> nat) \<Rightarrow> (u32 \<Rightarrow> u8 list) \<Rightarrow> bool" where
  "disk_upto L D \<longleftrightarrow> groups (sb_of D) < 2 ^ 20 \<and> (\<forall>sec. length (D sec) = 512) \<and>
     (\<forall>b\<in>meta (sb_of D). below L (sb_of D) b \<and> marked D b) \<and>
     (\<forall>b. below L (sb_of D) b \<and> \<not> marked D b \<longrightarrow> D b = replicate 512 0)"

definition data_upto :: "(superblock \<Rightarrow> nat) \<Rightarrow> (u32 \<Rightarrow> u8 list) \<Rightarrow> u32 \<Rightarrow> bool" where
  "data_upto L D a \<longleftrightarrow> below L (sb_of D) a \<and> marked D a \<and> a \<notin> meta (sb_of D)"

definition file_upto :: "(superblock \<Rightarrow> nat) \<Rightarrow> (u32 \<Rightarrow> u8 list) \<Rightarrow> inode \<Rightarrow> bool" where
  "file_upto L D ip \<longleftrightarrow> length (addrs ip) = 13 \<and>
     (addrs ip ! 12 \<noteq> 0 \<longrightarrow> data_upto L D (addrs ip ! 12)) \<and>
     (\<forall>k. block_addr D ip k \<noteq> 0 \<longrightarrow> data_upto L D (block_addr D ip k) \<and> block_addr D ip k \<noteq> addrs ip ! 12) \<and>
     (\<forall>j k. block_addr D ip j \<noteq> 0 \<and> block_addr D ip j = block_addr D ip k \<longrightarrow> j = k)"

lemma BBLOCK_bitmap:
  assumes "below L sb b"
  shows "BBLOCK b (ninodes sb) \<in> bitmap_blocks sb"
proof -
  let ?k = "unat b div 4096"
  have k: "?k < groups sb" using assms by (simp add: below_def bitmap_size_def less_mult_imp_div_less mult.commute)
  then have lt: "4096 * ?k < unat (sbsize sb)" by (simp add: groups_iff)
  have u: "unat (of_nat (4096 * ?k) :: u32) = 4096 * ?k"
    using unat_lt32 [of b] by (intro unat_of_nat32) (simp add: le_less_trans [OF _ unat_lt32 [of b]])
  have "BBLOCK (of_nat (4096 * ?k)) (ninodes sb) = BBLOCK b (ninodes sb)"
  proof (rule unat_inj32)
    show "unat (BBLOCK (of_nat (4096 * ?k)) (ninodes sb)) = unat (BBLOCK b (ninodes sb))"
      unfolding unat_BBLOCK u by simp
  qed
  moreover have "(of_nat (4096 * ?k) :: u32) < sbsize sb" using lt u by (simp only: word_less_nat_alt)
  ultimately show ?thesis unfolding bitmap_blocks_def by (metis (mono_tags, lifting) mem_Collect_eq)
qed

lemma mark_other:
  assumes "below L (sb_of D) b" "sec \<notin> bitmap_blocks (sb_of D)"
  shows "mark b v D sec = D sec"
  using assms BBLOCK_bitmap [OF assms(1)] by (auto simp: mark_def Let_def)

lemma bitmap_meta: "bitmap_blocks sb \<subseteq> meta sb"
  by (auto simp: meta_def)

lemma length_mark [simp]: "\<forall>sec. length (D sec) = 512 \<Longrightarrow> length (mark b v D sec) = 512"
  by (simp add: mark_def Let_def)

text \<open>Overwriting a data block does not touch the bitmap.\<close>

lemma sb_of_data [simp]: "a \<notin> meta (sb_of D) \<Longrightarrow> sb_of (D(a := d)) = sb_of D"
  by (rule sb_of_upd) (auto simp: meta_def)

lemma marked_data:
  assumes "a \<notin> meta (sb_of D)" "below L (sb_of D) b"
  shows "marked (D(a := d)) b = marked D b"
proof -
  have "BBLOCK b (ninodes (sb_of D)) \<noteq> a" using BBLOCK_bitmap [OF assms(2)] bitmap_meta assms(1) by auto
  then show ?thesis using assms(1) by (simp add: marked_def)
qed

lemma disk_ok_data:
  assumes "disk_upto L D" "data_upto L D a" "length d = 512"
  shows "disk_upto L (D(a := d))"
proof -
  have a: "a \<notin> meta (sb_of D)" "marked D a" using assms(2) by (auto simp: data_upto_def)
  have m: "meta (sb_of D) = meta (sb_of (D(a := d)))" using a by simp
  have "marked (D(a := d)) b" if "b \<in> meta (sb_of D)" for b
    using assms(1) that a marked_data [OF a(1)] by (auto simp: disk_upto_def)
  moreover have "(D(a := d)) b = replicate 512 0" if "below L (sb_of D) b" "\<not> marked (D(a := d)) b" for b
    using assms(1) that a marked_data [OF a(1) that(1), of d] by (auto simp: disk_upto_def)
  ultimately show ?thesis using assms(1,3) a unfolding disk_upto_def by simp
qed

lemma data_block_data:
  assumes "data_upto L D a" "data_upto L D b"
  shows "data_upto L (D(a := d)) b"
  using assms marked_data [of a D L b d] by (simp add: data_upto_def)

section \<open>Allocation\<close>

text \<open>The block \<^verbatim>\<open>balloc\<close> chooses, when it is below the limit: it is the least one, so it is enough that some free block is.\<close>

definition picks :: "(superblock \<Rightarrow> nat) \<Rightarrow> (u32 \<Rightarrow> u8 list) \<Rightarrow> u32 \<Rightarrow> bool" where
  "picks L D b \<longleftrightarrow> free_block D = Some b \<and> below L (sb_of D) b"

text \<open>Allocating a block: it is a zero block outside every structure.\<close>

lemma alloc_block:
  assumes "disk_upto L D" "picks L D b"
  shows "disk_upto L (mark b True D)" "data_upto L (mark b True D) b" "\<not> marked D b" "b \<noteq> 0" "below L (sb_of D) b"
    "mark b True D b = replicate 512 0" "sb_of (mark b True D) = sb_of D"
    "\<And>c. data_upto L D c \<Longrightarrow> data_upto L (mark b True D) c \<and> c \<noteq> b \<and> mark b True D c = D c"
proof -
  have g: "groups (sb_of D) < 2 ^ 20" and len: "\<forall>sec. length (D sec) = 512"
    and me: "\<And>c. c \<in> meta (sb_of D) \<Longrightarrow> below L (sb_of D) c \<and> marked D c"
    and z: "\<And>c. below L (sb_of D) c \<Longrightarrow> \<not> marked D c \<Longrightarrow> D c = replicate 512 0"
    using assms(1) by (auto simp: disk_upto_def)
  have "free_block D = Some b" and bl: "below L (sb_of D) b" using assms(2) by (simp_all add: picks_def)
  note f = free_block_SomeD [OF this(1) g]
  show b: "\<not> marked D b" "below L (sb_of D) b" using f bl by simp_all
  then have bm: "b \<notin> meta (sb_of D)" using me by blast
  then show "b \<noteq> 0" by (auto simp: meta_def)
  show sb: "sb_of (mark b True D) = sb_of D" by simp
  have mk: "marked (mark b True D) c \<longleftrightarrow> c = b \<or> marked D c" for c using marked_mark [OF len] by simp
  have same: "mark b True D c = D c" if "c \<notin> meta (sb_of D)" for c
    using mark_other [OF b(2)] that bitmap_meta by blast
  show "mark b True D b = replicate 512 0" using same [OF bm] z b by simp
  show "data_upto L (mark b True D) b" using b bm mk by (simp add: data_upto_def)
  show "disk_upto L (mark b True D)"
    unfolding disk_upto_def sb mk
  proof (intro conjI ballI allI impI)
    fix c assume "below L (sb_of D) c \<and> \<not> (c = b \<or> marked D c)"
    then show "mark b True D c = replicate 512 0" using z same me by metis
  qed (use g len me in auto)
  show "data_upto L (mark b True D) c \<and> c \<noteq> b \<and> mark b True D c = D c" if "data_upto L D c" for c
    using that b mk same by (auto simp: data_upto_def)
qed

text \<open>The super block and the inode blocks are as before.\<close>

definition tables_kept :: "(u32 \<Rightarrow> u8 list) \<Rightarrow> (u32 \<Rightarrow> u8 list) \<Rightarrow> bool" where
  "tables_kept D D' \<longleftrightarrow> (\<forall>sec. sec \<in> meta (sb_of D) \<and> sec \<notin> bitmap_blocks (sb_of D) \<longrightarrow> D' sec = D sec)"

lemma tables_kept_refl [simp]: "tables_kept D D"
  by (simp add: tables_kept_def)

lemma tables_kept_trans: "tables_kept D D1 \<Longrightarrow> sb_of D1 = sb_of D \<Longrightarrow> tables_kept D1 D2 \<Longrightarrow> tables_kept D D2"
  by (simp add: tables_kept_def)

lemma tables_kept_data: "tables_kept D D1 \<Longrightarrow> sb_of D1 = sb_of D \<Longrightarrow> data_upto L D1 a \<Longrightarrow> tables_kept D (D1(a := d))"
  by (auto simp: tables_kept_def data_upto_def)

lemma tables_kept_mark: "disk_upto L D \<Longrightarrow> picks L D b \<Longrightarrow> tables_kept D (mark b True D)"
  using mark_other [OF alloc_block(5)] unfolding tables_kept_def by blast

text \<open>The number of free blocks.\<close>

definition space_upto :: "(superblock \<Rightarrow> nat) \<Rightarrow> (u32 \<Rightarrow> u8 list) \<Rightarrow> nat" where
  "space_upto L D = card {b. below L (sb_of D) b \<and> \<not> marked D b}"

lemma space_alloc:
  assumes "disk_upto L D" "picks L D b"
  shows "space_upto L D = Suc (space_upto L (mark b True D))"
proof -
  note al = alloc_block [OF assms]
  let ?F = "{c. below L (sb_of D) c \<and> \<not> marked D c}"
  have "{c. below L (sb_of (mark b True D)) c \<and> \<not> marked (mark b True D) c} = ?F - {b}"
    using assms(1) al(7) by (auto simp: disk_upto_def marked_mark)
  then have "space_upto L (mark b True D) = card (?F - {b})" unfolding space_upto_def by (rule arg_cong)
  moreover have "card ?F = Suc (card (?F - {b}))" using al(3,5) by (intro card.remove) auto
  ultimately show ?thesis unfolding space_upto_def by (simp only:)
qed

lemma picks_free:
  assumes "groups (sb_of D) < 2 ^ 20" "space_upto L D \<noteq> 0"
  shows "\<exists>b. picks L D b"
proof -
  from assms(2) obtain c where c: "below L (sb_of D) c" "\<not> marked D c" unfolding space_upto_def by (metis (mono_tags, lifting) card.empty empty_Collect_eq)
  then obtain b where b: "free_block D = Some b" using free_block_Some [of D c] by (auto simp: below_def bitmap_size_def)
  have "\<not> unat c < unat b" using free_block_SomeD(2) [OF b assms(1)] c(2) by blast
  then have "below L (sb_of D) b" using c(1) by (auto simp: below_def)
  then show ?thesis using b by (auto simp: picks_def)
qed

lemma picks_full: "groups (sb_of D) < 2 ^ 20 \<Longrightarrow> free_block D = Some b \<Longrightarrow> picks bitmap_size D b"
  using free_block_SomeD(3) [of D b] by (simp add: picks_def below_def bitmap_size_def)

lemma space_data: "a \<notin> meta (sb_of D) \<Longrightarrow> space_upto L (D(a := d)) = space_upto L D"
  unfolding space_upto_def by (rule arg_cong [where f = card]) (auto simp: marked_data)

text \<open>Linking a new block into a file, as a data block or as the indirect block.\<close>

lemma file_ok_data:
  assumes "file_upto L D ip" "\<And>c. data_upto L D c \<Longrightarrow> data_upto L D' c \<and> c \<noteq> b" "data_upto L D' b" "b \<noteq> 0"
    and "length (addrs ip') = 13" "addrs ip' ! 12 = addrs ip ! 12" "block_addr D' ip' = (block_addr D ip)(k := b)"
  shows "file_upto L D' ip'"
  using assms unfolding file_upto_def by (simp split: if_splits) metis

lemma file_ok_indirect:
  assumes "file_upto L D ip" "\<And>c. data_upto L D c \<Longrightarrow> data_upto L D' c \<and> c \<noteq> b" "data_upto L D' b"
    and "length (addrs ip') = 13" "addrs ip' ! 12 = b" "block_addr D' ip' = block_addr D ip"
  shows "file_upto L D' ip'"
  using assms unfolding file_upto_def by metis

lemma file_ok_same:
  assumes "file_upto L D ip" "\<And>c. data_upto L D c \<Longrightarrow> data_upto L D' c"
    and "addrs ip' = addrs ip" "block_addr D' ip' = block_addr D ip"
  shows "file_upto L D' ip'"
  using assms unfolding file_upto_def by metis

lemma block_addr_cong:
  assumes "addrs ip' = addrs ip" "addrs ip ! 12 \<noteq> 0 \<Longrightarrow> D' (addrs ip ! 12) = D (addrs ip ! 12)"
  shows "block_addr D' ip' = block_addr D ip"
  using assms by (auto simp: block_addr_def file_sizes fun_eq_iff)

lemma block_addr_direct:
  assumes "length (addrs ip) = 13" "k < 12" "addrs ip ! 12 \<noteq> 0 \<Longrightarrow> D' (addrs ip ! 12) = D (addrs ip ! 12)"
  shows "block_addr D' (ip\<lparr>addrs := (addrs ip)[k := b]\<rparr>) = (block_addr D ip)(k := b)"
  using assms by (auto simp: block_addr_def file_sizes fun_eq_iff nth_list_update)

lemma block_addr_root:
  assumes "length (addrs ip) = 13" "addrs ip ! 12 = 0" "D' b = replicate 512 0"
  shows "block_addr D' (ip\<lparr>addrs := (addrs ip)[12 := b]\<rparr>) = block_addr D ip"
proof
  fix k
  have "get32 (replicate 512 0) (4 * (k - 12)) = 0" if "k < 140"
  proof -
    have "4 * (k - 12) + 4 \<le> 512" using that by (auto simp: not_le)
    then show ?thesis by simp
  qed
  then show "block_addr D' (ip\<lparr>addrs := (addrs ip)[12 := b]\<rparr>) k = block_addr D ip k"
    using assms by (auto simp: block_addr_def file_sizes)
qed

lemma block_addr_entry:
  assumes "length (addrs ip) = 13" "addrs ip ! 12 \<noteq> 0" "12 \<le> k" "k < 140" "length (D (addrs ip ! 12)) = 512"
    "D' (addrs ip ! 12) = put32 (4 * (k - 12)) b (D (addrs ip ! 12))"
  shows "block_addr D' ip = (block_addr D ip)(k := b)"
proof
  fix j
  have k: "4 * (k - 12) + 4 \<le> 512" using assms(3,4) by linarith
  consider "j < 12" | "140 \<le> j" | "j = k" | "12 \<le> j" "j < 140" "j \<noteq> k" by linarith
  then show "block_addr D' ip j = ((block_addr D ip)(k := b)) j"
  proof cases
    case 3
    then show ?thesis using assms k by (simp add: block_addr_def file_sizes f32.get_put)
  next
    case 4
    then have "4 * (j - 12) + 4 \<le> 4 * (k - 12) \<or> 4 * (k - 12) + 4 \<le> 4 * (j - 12)" using assms(3) by linarith
    then have "get32 (put32 (4 * (k - 12)) b (D (addrs ip ! 12))) (4 * (j - 12)) = get32 (D (addrs ip ! 12)) (4 * (j - 12))"
      by (rule f32.get_put_apart)
    then show ?thesis using 4 assms by (simp add: block_addr_def file_sizes)
  qed (use assms in \<open>simp_all add: block_addr_def file_sizes\<close>)
qed

section \<open>The block map\<close>

text \<open>No buffer is in use.\<close>

definition quiet :: "'a kbio_scheme \<Rightarrow> bool" where
  "quiet s \<longleftrightarrow> bio_inv s \<and> inuse s = Map.empty"

lemma quiet_can: "quiet s \<Longrightarrow> can X s"
  by (simp add: quiet_def can_def NBUF_def)

text \<open>The blocks of a file: its data blocks and its indirect block.\<close>

definition owns :: "(u32 \<Rightarrow> u8 list) \<Rightarrow> inode \<Rightarrow> u32 \<Rightarrow> bool" where
  "owns D ip c \<longleftrightarrow> c \<noteq> 0 \<and> (c = addrs ip ! 12 \<or> (\<exists>k. c = block_addr D ip k))"

text \<open>
  What finding the \<open>k\<close>-th block may change: the file gains at most this block (and its indirect
  block), and only bitmap blocks, the indirect block and unmarked blocks of the disk change.
\<close>

definition grown :: "(superblock \<Rightarrow> nat) \<Rightarrow> (u32 \<Rightarrow> u8 list) \<Rightarrow> inode \<Rightarrow> nat \<Rightarrow> (u32 \<Rightarrow> u8 list) \<Rightarrow> inode \<Rightarrow> bool" where
  "grown L D ip k D' ip' \<longleftrightarrow> disk_upto L D' \<and> file_upto L D' ip' \<and> sb_of D' = sb_of D \<and>
     (\<exists>as. ip' = ip\<lparr>addrs := as\<rparr>) \<and> (\<exists>b. b \<noteq> 0 \<and> block_addr D' ip' = (block_addr D ip)(k := b)) \<and>
     (block_addr D ip k \<noteq> 0 \<longrightarrow> block_addr D' ip' k = block_addr D ip k) \<and>
     (\<forall>c. data_upto L D c \<longrightarrow> data_upto L D' c \<and> (c \<noteq> addrs ip ! 12 \<longrightarrow> D' c = D c)) \<and>
     (\<forall>c. owns D' ip' c \<longrightarrow> owns D ip c \<or> \<not> marked D c) \<and> tables_kept D D' \<and> (block_addr D ip k \<noteq> 0 \<longrightarrow> ip' = ip) \<and>
     (block_addr D ip k = 0 \<longrightarrow> D' (block_addr D' ip' k) = replicate 512 0)"

lemma grownD:
  assumes "grown L D ip k D' ip'"
  shows "disk_upto L D'" "file_upto L D' ip'" "sb_of D' = sb_of D" "block_addr D' ip' k \<noteq> 0" "tables_kept D D'"
proof -
  note g = assms [unfolded grown_def]
  show "disk_upto L D'" "file_upto L D' ip'" "sb_of D' = sb_of D" "tables_kept D D'" using g by blast+
  obtain b where "b \<noteq> 0" "block_addr D' ip' = (block_addr D ip)(k := b)" using g by blast
  then show "block_addr D' ip' k \<noteq> 0" by simp
qed

lemma grown_mapped:
  assumes "disk_upto L D" "file_upto L D ip" "block_addr D ip k \<noteq> 0"
  shows "grown L D ip k D ip"
  using assms unfolding grown_def
  by (auto intro!: exI [of _ "addrs ip"] exI [of _ "block_addr D ip k"])

lemma grown_direct:
  assumes "disk_upto L D" "file_upto L D ip" "picks L D b" "k < 12" "block_addr D ip k = 0"
  shows "grown L D ip k (mark b True D) (ip\<lparr>addrs := (addrs ip)[k := b]\<rparr>)"
proof -
  note al = alloc_block [OF assms(1,3)]
  have len: "length (addrs ip) = 13" and ind: "addrs ip ! 12 \<noteq> 0 \<Longrightarrow> data_upto L D (addrs ip ! 12)"
    using assms(2) by (auto simp: file_upto_def)
  have ba: "block_addr (mark b True D) (ip\<lparr>addrs := (addrs ip)[k := b]\<rparr>) = (block_addr D ip)(k := b)"
    using len assms(4) al(8) [OF ind] by (intro block_addr_direct) auto
  have "file_upto L (mark b True D) (ip\<lparr>addrs := (addrs ip)[k := b]\<rparr>)"
    by (rule file_ok_data [OF assms(2) _ al(2,4) _ _ ba]) (use al(8) len assms(4) in auto)
  moreover have "owns D ip c \<or> \<not> marked D c" if "owns (mark b True D) (ip\<lparr>addrs := (addrs ip)[k := b]\<rparr>) c" for c
    using that al(3) assms(4) unfolding owns_def ba by (auto split: if_splits)
  ultimately show ?thesis using al ba assms(5) tables_kept_mark [OF assms(1,3)] unfolding grown_def by auto
qed

lemma grown_entry:
  assumes "disk_upto L D" "file_upto L D ip" "picks L D b" "12 \<le> k" "k < 140" "addrs ip ! 12 \<noteq> 0" "block_addr D ip k = 0"
  shows "grown L D ip k ((mark b True D)(addrs ip ! 12 := put32 (4 * (k - 12)) b (D (addrs ip ! 12)))) ip"
proof -
  let ?ind = "addrs ip ! 12"
  let ?d = "put32 (4 * (k - 12)) b (D ?ind)"
  let ?D = "(mark b True D)(?ind := ?d)"
  note al = alloc_block [OF assms(1,3)]
  have len: "length (addrs ip) = 13" and ind: "data_upto L D ?ind" and l512: "\<forall>sec. length (D sec) = 512"
    using assms(1,2,6) by (auto simp: file_upto_def disk_upto_def)
  note i = al(8) [OF ind]
  have meta: "?ind \<notin> meta (sb_of D)" using ind by (simp add: data_upto_def)
  have ba: "block_addr ?D ip = (block_addr D ip)(k := b)"
    using len assms(4,5,6) l512 by (intro block_addr_entry) auto
  have db: "data_upto L ?D c" if "data_upto L (mark b True D) c" for c
    using data_block_data [of L "mark b True D" ?ind c ?d] i that by simp
  have "file_upto L ?D ip"
    by (rule file_ok_data [OF assms(2) _ _ al(4) len refl ba]) (use al(2,8) db in auto)
  moreover have "disk_upto L ?D" using i l512 by (intro disk_ok_data al(1)) auto
  moreover have "sb_of ?D = sb_of D" using meta al(7) by simp
  moreover have "owns D ip c \<or> \<not> marked D c" if "owns ?D ip c" for c
    using that al(3) unfolding owns_def ba by (auto split: if_splits)
  moreover have "tables_kept D ?D" using tables_kept_mark [OF assms(1,3)] i by (intro tables_kept_data) auto
  moreover have "?D (block_addr ?D ip k) = replicate 512 0" using al(6) i unfolding ba by auto
  ultimately show ?thesis using al ba db assms(7) unfolding grown_def by (auto intro!: exI [of _ "addrs ip"])
qed

text \<open>Allocating the indirect block changes no block of the file.\<close>

lemma root_alloc:
  assumes "disk_upto L D" "file_upto L D ip" "picks L D b" "addrs ip ! 12 = 0"
  shows "disk_upto L (mark b True D)" "file_upto L (mark b True D) (ip\<lparr>addrs := (addrs ip)[12 := b]\<rparr>)"
    "block_addr (mark b True D) (ip\<lparr>addrs := (addrs ip)[12 := b]\<rparr>) = block_addr D ip"
proof -
  note al = alloc_block [OF assms(1,3)]
  have len: "length (addrs ip) = 13" using assms(2) by (simp add: file_upto_def)
  show "disk_upto L (mark b True D)" by (rule al)
  show ba: "block_addr (mark b True D) (ip\<lparr>addrs := (addrs ip)[12 := b]\<rparr>) = block_addr D ip"
    using len assms(4) al(6) by (intro block_addr_root)
  show "file_upto L (mark b True D) (ip\<lparr>addrs := (addrs ip)[12 := b]\<rparr>)"
    by (rule file_ok_indirect [OF assms(2) _ al(2) _ _ ba]) (use al(8) len in auto)
qed

lemma grown_root:
  assumes ok: "disk_upto L D" "file_upto L D ip" and b: "picks L D b" and root: "addrs ip ! 12 = 0" "block_addr D ip k = 0"
    and g: "grown L (mark b True D) (ip\<lparr>addrs := (addrs ip)[12 := b]\<rparr>) k D' (ip\<lparr>addrs := (addrs ip)[12 := b]\<rparr>)"
  shows "grown L D ip k D' (ip\<lparr>addrs := (addrs ip)[12 := b]\<rparr>)"
  unfolding grown_def
proof (intro conjI allI impI)
  let ?D = "mark b True D" and ?ip = "ip\<lparr>addrs := (addrs ip)[12 := b]\<rparr>"
  note ra = root_alloc [OF ok b root(1)] and al = alloc_block [OF ok(1) b]
  have a12: "addrs ?ip ! 12 = b" using ok(2) by (simp add: file_upto_def)
  show "D' (block_addr D' ?ip k) = replicate 512 0" using g root(2) unfolding grown_def ra(3) by blast
  show "?ip = ip" "block_addr D' ?ip k = block_addr D ip k" if "block_addr D ip k \<noteq> 0" using that root(2) by blast+
  show "disk_upto L D'" "file_upto L D' ?ip" by (rule grownD [OF g])+
  show "sb_of D' = sb_of D" using grownD(3) [OF g] al(7) by simp
  show "\<exists>as. ?ip = ip\<lparr>addrs := as\<rparr>" by blast
  show "\<exists>b'. b' \<noteq> 0 \<and> block_addr D' ?ip = (block_addr D ip)(k := b')" using g unfolding grown_def ra(3) by blast
  show "tables_kept D D'" by (rule tables_kept_trans [OF tables_kept_mark [OF ok(1) b] al(7) grownD(5) [OF g]])
  {
    fix c assume "data_upto L D c"
    then show "data_upto L D' c" "c \<noteq> addrs ip ! 12 \<Longrightarrow> D' c = D c"
      using al(8) [of c] g a12 unfolding grown_def by auto
  next
    fix c assume "owns D' ?ip c"
    then have "owns ?D ?ip c \<or> \<not> marked ?D c" using g unfolding grown_def by blast
    moreover have "marked D c \<Longrightarrow> marked ?D c" using ok(1) by (simp add: disk_upto_def marked_mark)
    moreover have "owns ?D ?ip c \<Longrightarrow> owns D ip c \<or> \<not> marked D c"
      using al(3) a12 unfolding owns_def ra(3) by auto
    ultimately show "owns D ip c \<or> \<not> marked D c" by blast
  }
qed

lemma rest_upd_inode: "rest s' = rest s \<Longrightarrow> rest (upd_inode i f s') = rest (upd_inode i f s)"
  using rest_icache [of s' s] by (simp add: upd_inode_def)

lemma bmap_indirect_run:
  assumes "quiet s" "D = disk s" "ip = icache s ! i" "idev ip = ROOTDEV" "disk_upto L D" "file_upto L D ip"
    "addrs ip ! 12 \<noteq> 0" "12 \<le> k" "k < 140" "block_addr D ip k = 0" "unat bn = k - 12"
  shows "space_upto L D = 0 \<and> (L = bitmap_size \<longrightarrow> bmap_indirect i bn (addrs ip ! 12) s = Inl (Panic ''balloc: out of blocks'')) \<or>
    (\<exists>b s'. bmap_indirect i bn (addrs ip ! 12) s = Inr (b, s') \<and> quiet s' \<and> rest s' = rest s \<and>
      block_addr (disk s') ip k = b \<and> grown L D ip k (disk s') ip \<and> space_upto L D = Suc (space_upto L (disk s')))"
proof -
  let ?ind = "addrs ip ! 12"
  have entry: "get32 (D ?ind) (4 * (k - 12)) = 0"
    using assms(7-10) by (simp add: block_addr_def file_sizes)
  obtain bp s1 where 1: "bread ROOTDEV ?ind s = Inr (bp, s1)" "bdata (bufs s1 ! bp) = D ?ind" "bio_inv s1"
    "inuse s1 = [bp \<mapsto> (?ind, D ?ind)]" "disk s1 = D" "rest s1 = rest s"
    using hold_block [OF quiet_can [OF assms(1)], of ?ind UNIV] assms(1,2) by (auto simp: quiet_def)
  have ic1: "icache s1 = icache s" using 1(6) by (rule rest_icache)
  have "?ind \<notin> meta (sb_of D)" using assms(6,7) by (simp add: file_upto_def data_upto_def)
  then have sub: "alloc_sectors (disk s1) \<subseteq> UNIV - {?ind}" using 1(5) bitmap_meta by (auto simp: alloc_sectors_def meta_def)
  have can1: "can (UNIV - {?ind}) s1" using 1(3,4) by (simp add: can_def NBUF_def)
  have g: "groups (sb_of (disk s1)) < 2 ^ 20" using assms(5) 1(5) by (simp add: disk_upto_def)
  note ba = balloc_run [OF can1 sub g]
  have D20: "groups (sb_of D) < 2 ^ 20" using g 1(5) by simp
  show ?thesis
  proof (cases "\<exists>b. picks L D b")
    case False
    then have "space_upto L D = 0" using picks_free [OF D20] by blast
    moreover have "free_block D = None" if "L = bitmap_size" using False that picks_full [OF D20] by (cases "free_block D") auto
    ultimately show ?thesis using ba 1 ic1 assms(3,4,11) entry by (intro disjI1) (auto simp: bmap_indirect_def)
  next
    case True
    then obtain b where fr: "picks L D b" and Some: "free_block D = Some b" by (auto simp: picks_def)
    obtain s2 where 2: "balloc ROOTDEV s1 = Inr (b, s2)" "effect (mark b True D) s1 s2" using ba Some 1(5) by auto
    have u2: "inuse s2 bp = Some (?ind, D ?ind)" "bio_inv s2" using 2(2) 1(4) by (simp_all add: effect_def)
    have d2: "bdata (bufs s2 ! bp) = D ?ind" using bc.contents_law [OF u2(1)] .
    let ?d = "put32 (4 * (k - 12)) b (D ?ind)" and ?D = "(mark b True D)(?ind := put32 (4 * (k - 12)) b (D ?ind))"
    have l: "length ?d = 512" using assms(5) by (simp add: disk_upto_def)
    note sd = set_data_law [OF u2(2,1) l]
    obtain s3 where 3: "bwrite bp (set_data bp ?d s2) = Inr s3" "bio_inv s3"
      "inuse s3 = (inuse s2)(bp \<mapsto> (?ind, ?d))" "disk s3 = ?D" "rest s3 = rest s2"
      using bwrite_law [OF sd(1), of bp ?ind ?d] sd(2-4) 2(2) by (auto simp: effect_def)
    obtain s4 where 4: "brelse bp s3 = Inr s4" "bio_inv s4" "inuse s4 = (inuse s3)(bp := None)" "disk s4 = ?D" "rest s4 = rest s3"
      using brelse_law [OF 3(2), of bp ?ind] 3(3,4) by auto
    have run: "bmap_indirect i bn ?ind s = Inr (b, s4)"
      using 1 2 3(1) 4(1) ic1 assms(3,4,11) entry d2 by (simp add: bmap_indirect_def Let_def)
    have gr: "grown L D ip k (disk s4) ip" using grown_entry [OF assms(5,6) fr assms(8,9,7,10)] 4(4) by simp
    have "quiet s4" using 4 3 2(2) 1(4) by (auto simp: quiet_def effect_def fun_eq_iff)
    moreover have "rest s4 = rest s" using 4(5) 3(5) 2(2) 1(6) by (simp add: effect_def)
    moreover have "block_addr (disk s4) ip k = b"
    proof -
      have "get32 ?d (4 * (k - 12)) = b"
        using assms(5,8,9) by (intro f32.get_put) (auto simp: disk_upto_def)
      then show ?thesis using 4(4) assms(7-9) by (simp add: block_addr_def file_sizes)
    qed
    moreover have "space_upto L D = Suc (space_upto L (disk s4))"
      using space_alloc [OF assms(5) fr] \<open>?ind \<notin> meta (sb_of D)\<close> alloc_block(7) [OF assms(5) fr] 4(4)
      by (simp add: space_data)
    ultimately show ?thesis using run gr by blast
  qed
qed

lemma balloc_quiet:
  assumes "quiet s" "disk_upto L (disk s)"
  shows "space_upto L (disk s) = 0 \<and> (L = bitmap_size \<longrightarrow> balloc ROOTDEV s = Inl (Panic ''balloc: out of blocks'')) \<or>
    (\<exists>b s'. picks L (disk s) b \<and> balloc ROOTDEV s = Inr (b, s') \<and> quiet s' \<and>
      disk s' = mark b True (disk s) \<and> rest s' = rest s)"
proof -
  have g: "groups (sb_of (disk s)) < 2 ^ 20" using assms(2) by (simp add: disk_upto_def)
  note ba = balloc_run [OF quiet_can [OF assms(1)] _ g, of UNIV]
  show ?thesis
  proof (cases "\<exists>b. picks L (disk s) b")
    case True
    then show ?thesis using ba assms(1) by (auto simp: picks_def quiet_def effect_def)
  next
    case False
    then have "free_block (disk s) = None" if "L = bitmap_size" using that picks_full [OF g] by (cases "free_block (disk s)") auto
    then show ?thesis using False ba picks_free [OF g] by auto
  qed
qed

lemma bmap_run:
  assumes "quiet s" "D = disk s" "ip = icache s ! i" "i < length (icache s)" "idev ip = ROOTDEV" "disk_upto L D" "file_upto L D ip"
    "k < 140" "unat bn = k"
  shows "space_upto L D < 2 \<and> (L = bitmap_size \<longrightarrow> bmap i bn s = Inl (Panic ''balloc: out of blocks'')) \<or>
    (\<exists>s' ip'. bmap i bn s = Inr (block_addr (disk s') ip' k, s') \<and> quiet s' \<and> grown L D ip k (disk s') ip' \<and>
      space_upto L D \<le> space_upto L (disk s') + 2 \<and> rest s' = rest (s\<lparr>icache := (icache s)[i := ip']\<rparr>))"
proof -
  have len: "length (addrs ip) = 13" using assms(7) by (simp add: file_upto_def)
  have same: "s\<lparr>icache := (icache s)[i := ip]\<rparr> = s" using assms(3,4) by simp
  consider (old) "block_addr D ip k \<noteq> 0" | (direct) "block_addr D ip k = 0" "k < 12"
    | (entry) "block_addr D ip k = 0" "12 \<le> k" "addrs ip ! 12 \<noteq> 0"
    | (root) "block_addr D ip k = 0" "12 \<le> k" "addrs ip ! 12 = 0" by linarith
  then show ?thesis
  proof cases
    case old
    obtain s' where s': "bmap i bn s = Inr (block_addr D ip k, s')" "effect D s s'"
      using bmap_mapped [OF quiet_can [OF assms(1)], of i UNIV bn k] assms(2,3,5,9) old by auto
    moreover have "grown L D ip k D ip" by (rule grown_mapped [OF assms(6,7) old])
    ultimately show ?thesis using assms(1) same
      by (intro disjI2 exI [of _ s'] exI [of _ ip]) (auto simp: quiet_def effect_def)
  next
    case direct
    then have a0: "addrs ip ! k = 0" by (simp add: block_addr_def file_sizes)
    from balloc_quiet [of s L] assms(1,2,6) consider "space_upto L D = 0" "L = bitmap_size \<longrightarrow> balloc ROOTDEV s = Inl (Panic ''balloc: out of blocks'')"
      | b s1 where "picks L D b" "balloc ROOTDEV s = Inr (b, s1)" "quiet s1" "disk s1 = mark b True D" "rest s1 = rest s"
      by auto
    then show ?thesis
    proof cases
      case 1
      then show ?thesis using direct a0 assms(3,5,9) by (intro disjI1) (auto simp: bmap_def file_sizes)
    next
      case 2
      let ?ip = "ip\<lparr>addrs := (addrs ip)[k := b]\<rparr>"
      let ?f = "\<lambda>x. x\<lparr>addrs := (addrs x)[k := b]\<rparr>"
      have gr: "grown L D ip k (mark b True D) ?ip" by (rule grown_direct [OF assms(6,7) 2(1) direct(2,1)])
      have "bmap i bn s = Inr (b, upd_inode i ?f s1)" using 2(2) direct a0 assms(3,5,9) by (simp add: bmap_def file_sizes)
      moreover have "block_addr (mark b True D) ?ip k = b" using len direct(2) by (simp add: block_addr_def file_sizes)
      moreover have "rest (upd_inode i ?f s1) = rest (s\<lparr>icache := (icache s)[i := ?ip]\<rparr>)"
        using rest_upd_inode [OF 2(5), of i ?f] assms(3) by (simp add: upd_inode_def)
      ultimately show ?thesis using gr 2(3,4) space_alloc [OF assms(6) 2(1)]
        by (intro disjI2 exI [of _ "upd_inode i ?f s1"] exI [of _ ?ip]) (simp add: quiet_def)
    qed
  next
    case entry
    then have "12 \<le> bn" using assms(9) by (simp add: word_le_nat_alt)
    then have bn: "unat (bn - 12) = k - 12" using assms(9) by (simp add: unat_sub)
    have k: "\<not> k < 12" "k - 12 < 128" using assms(8) \<open>12 \<le> k\<close> by linarith+
    have run: "bmap i bn s = bmap_indirect i (bn - 12) (addrs ip ! 12) s"
      using entry bn k assms(3,9) by (simp add: bmap_def file_sizes Let_def)
    from bmap_indirect_run [OF assms(1,2,3,5,6,7) entry(3,2) assms(8) entry(1) bn] show ?thesis
      unfolding run
    proof
      assume "\<exists>b s'. bmap_indirect i (bn - 12) (addrs ip ! 12) s = Inr (b, s') \<and> quiet s' \<and> rest s' = rest s \<and>
        block_addr (disk s') ip k = b \<and> grown L D ip k (disk s') ip \<and> space_upto L D = Suc (space_upto L (disk s'))"
      then obtain s' where "bmap_indirect i (bn - 12) (addrs ip ! 12) s = Inr (block_addr (disk s') ip k, s')" "quiet s'"
        "rest s' = rest s" "grown L D ip k (disk s') ip" "space_upto L D = Suc (space_upto L (disk s'))" by blast
      then show "space_upto L D < 2 \<and> (L = bitmap_size \<longrightarrow> bmap_indirect i (bn - 12) (addrs ip ! 12) s = Inl (Panic ''balloc: out of blocks'')) \<or>
        (\<exists>s' ip'. bmap_indirect i (bn - 12) (addrs ip ! 12) s = Inr (block_addr (disk s') ip' k, s') \<and> quiet s' \<and>
          grown L D ip k (disk s') ip' \<and> space_upto L D \<le> space_upto L (disk s') + 2 \<and> rest s' = rest (s\<lparr>icache := (icache s)[i := ip']\<rparr>))"
        using same by (intro disjI2 exI [of _ s'] exI [of _ ip]) (simp only:, simp)
    qed simp
  next
    case root
    then have "12 \<le> bn" using assms(9) by (simp add: word_le_nat_alt)
    then have bn: "unat (bn - 12) = k - 12" using assms(9) by (simp add: unat_sub)
    have k: "\<not> k < 12" "k - 12 < 128" using assms(8) \<open>12 \<le> k\<close> by linarith+
    from balloc_quiet [of s L] assms(1,2,6) consider "space_upto L D = 0" "L = bitmap_size \<longrightarrow> balloc ROOTDEV s = Inl (Panic ''balloc: out of blocks'')"
      | b s1 where "picks L D b" "balloc ROOTDEV s = Inr (b, s1)" "quiet s1" "disk s1 = mark b True D" "rest s1 = rest s"
      by auto
    then show ?thesis
    proof cases
      case 1
      then show ?thesis using root bn k assms(3,5,9) by (intro disjI1) (auto simp: bmap_def file_sizes Let_def)
    next
      case 2
      let ?D = "mark b True D" and ?ip = "ip\<lparr>addrs := (addrs ip)[12 := b]\<rparr>"
      let ?f = "\<lambda>x. x\<lparr>addrs := (addrs x)[12 := b]\<rparr>"
      let ?s = "upd_inode i ?f s1"
      note ra = root_alloc [OF assms(6,7) 2(1) root(3)]
      note al = alloc_block [OF assms(6) 2(1)]
      have ic1: "icache s1 = icache s" using 2(5) by (rule rest_icache)
      have ip1: "?ip = icache ?s ! i" using ic1 assms(3,4) by (simp add: upd_inode_def)
      have a12: "addrs ?ip ! 12 = b" using len by simp
      have run: "bmap i bn s = bmap_indirect i (bn - 12) b ?s"
        using root bn k assms(3,5,9) 2(2) by (simp add: bmap_def file_sizes Let_def)
      have rs: "rest ?s = rest (s\<lparr>icache := (icache s)[i := ?ip]\<rparr>)"
        using rest_upd_inode [OF 2(5), of i ?f] assms(3) by (simp add: upd_inode_def)
      have A: "space_upto L ?D = 0 \<and> (L = bitmap_size \<longrightarrow> bmap_indirect i (bn - 12) (addrs ?ip ! 12) ?s = Inl (Panic ''balloc: out of blocks'')) \<or>
        (\<exists>b' s'. bmap_indirect i (bn - 12) (addrs ?ip ! 12) ?s = Inr (b', s') \<and> quiet s' \<and> rest s' = rest ?s \<and>
          block_addr (disk s') ?ip k = b' \<and> grown L ?D ?ip k (disk s') ?ip \<and> space_upto L ?D = Suc (space_upto L (disk s')))"
      proof (rule bmap_indirect_run)
        show "idev ?ip = ROOTDEV" using assms(5) by simp
      qed (use 2(3,4) ip1 assms(8) ra root al(4) a12 bn in \<open>simp_all add: quiet_def\<close>)
      have G: "grown L D ip k D' ?ip" if "grown L ?D ?ip k D' ?ip" for D'
        by (rule grown_root [OF assms(6,7) 2(1) root(3,1) that])
      from A show ?thesis
      proof
        assume "space_upto L ?D = 0 \<and> (L = bitmap_size \<longrightarrow> bmap_indirect i (bn - 12) (addrs ?ip ! 12) ?s = Inl (Panic ''balloc: out of blocks''))"
        then show ?thesis using run a12 space_alloc [OF assms(6) 2(1)] by simp
      next
        assume "\<exists>b' s'. bmap_indirect i (bn - 12) (addrs ?ip ! 12) ?s = Inr (b', s') \<and> quiet s' \<and>
          rest s' = rest ?s \<and> block_addr (disk s') ?ip k = b' \<and> grown L ?D ?ip k (disk s') ?ip \<and> space_upto L ?D = Suc (space_upto L (disk s'))"
        then obtain b' s' where "bmap_indirect i (bn - 12) (addrs ?ip ! 12) ?s = Inr (b', s')" "quiet s'"
          "rest s' = rest ?s" "block_addr (disk s') ?ip k = b'" "grown L ?D ?ip k (disk s') ?ip" "space_upto L ?D = Suc (space_upto L (disk s'))" by blast
        then show ?thesis using run rs a12 G [of "disk s'"] space_alloc [OF assms(6) 2(1)]
          by (intro disjI2 exI [of _ s'] exI [of _ ?ip]) simp
      qed
    qed
  qed
qed

section \<open>Writing\<close>

text \<open>
  The effect of writing \<open>xs\<close> at offset \<open>a\<close>: the blocks of the range are allocated and hold \<open>xs\<close>,
  every other byte of the file is as before, and so is every data block of other files.
\<close>

definition wrote ::
  "(superblock \<Rightarrow> nat) \<Rightarrow> (u32 \<Rightarrow> u8 list) \<Rightarrow> inode \<Rightarrow> nat \<Rightarrow> u8 list \<Rightarrow> (u32 \<Rightarrow> u8 list) \<Rightarrow> inode \<Rightarrow> bool" where
  "wrote L D ip a xs D' ip' \<longleftrightarrow> disk_upto L D' \<and> file_upto L D' ip' \<and> sb_of D' = sb_of D \<and> (\<exists>as. ip' = ip\<lparr>addrs := as\<rparr>) \<and>
     (\<forall>k. block_addr D ip k \<noteq> 0 \<longrightarrow> block_addr D' ip' k = block_addr D ip k) \<and>
     (\<forall>j. a \<le> j \<and> j < a + length xs \<longrightarrow> block_addr D' ip' (j div 512) \<noteq> 0 \<and> file_byte D' ip' j = xs ! (j - a)) \<and>
     (\<forall>j. \<not> (a \<le> j \<and> j < a + length xs) \<and> block_addr D ip (j div 512) \<noteq> 0 \<longrightarrow> file_byte D' ip' j = file_byte D ip j) \<and>
     (\<forall>c. data_upto L D c \<longrightarrow> data_upto L D' c \<and> (\<not> owns D ip c \<longrightarrow> D' c = D c \<and> \<not> owns D' ip' c)) \<and> tables_kept D D' \<and>
     ((\<forall>j. a \<le> j \<and> j < a + length xs \<longrightarrow> block_addr D ip (j div 512) \<noteq> 0) \<longrightarrow> ip' = ip) \<and>
     (\<forall>j. \<not> (a \<le> j \<and> j < a + length xs) \<and> block_addr D ip (j div 512) = 0 \<and> block_addr D' ip' (j div 512) \<noteq> 0 \<longrightarrow> file_byte D' ip' j = 0)"

lemma wrote_nothing: "disk_upto L D \<Longrightarrow> file_upto L D ip \<Longrightarrow> wrote L D ip a [] D ip"
proof -
  assume ok: "disk_upto L D" "file_upto L D ip"
  have "\<exists>as. ip = ip\<lparr>addrs := as\<rparr>" by (rule exI [of _ "addrs ip"]) simp
  moreover have "\<not> (a \<le> j \<and> j < a + length ([] :: u8 list))" for j by simp
  ultimately show ?thesis using ok unfolding wrote_def by simp (meson leD)
qed

lemma wroteD:
  assumes "wrote L D ip a xs D' ip'"
  shows "disk_upto L D'" "file_upto L D' ip'" "sb_of D' = sb_of D" "\<exists>as. ip' = ip\<lparr>addrs := as\<rparr>" "tables_kept D D'"
  using assms unfolding wrote_def by blast+

lemma wrote_bytes:
  assumes "wrote L D ip a xs D' ip'"
  shows "block_addr D ip k \<noteq> 0 \<Longrightarrow> block_addr D' ip' k = block_addr D ip k"
    "a \<le> j \<Longrightarrow> j < a + length xs \<Longrightarrow> block_addr D' ip' (j div 512) \<noteq> 0 \<and> file_byte D' ip' j = xs ! (j - a)"
    "\<not> (a \<le> j \<and> j < a + length xs) \<Longrightarrow> block_addr D ip (j div 512) \<noteq> 0 \<Longrightarrow> file_byte D' ip' j = file_byte D ip j"
    "\<not> (a \<le> j \<and> j < a + length xs) \<Longrightarrow> block_addr D ip (j div 512) = 0 \<Longrightarrow> block_addr D' ip' (j div 512) \<noteq> 0 \<Longrightarrow> file_byte D' ip' j = 0"
  using assms unfolding wrote_def by blast+

lemma wrote_append:
  assumes "wrote L D ip a xs D1 ip1" "wrote L D1 ip1 (a + length xs) ys D2 ip2"
  shows "wrote L D ip a (xs @ ys) D2 ip2"
  unfolding wrote_def
proof (intro conjI allI impI)
  note 1 = assms(1) [unfolded wrote_def] and 2 = assms(2) [unfolded wrote_def]
  show "disk_upto L D2" "file_upto L D2 ip2" by (rule wroteD [OF assms(2)])+
  show "sb_of D2 = sb_of D" using wroteD(3) [OF assms(1)] wroteD(3) [OF assms(2)] by simp
  show "\<exists>as. ip2 = ip\<lparr>addrs := as\<rparr>" using wroteD(4) [OF assms(1)] wroteD(4) [OF assms(2)] by auto
  show "tables_kept D D2" by (rule tables_kept_trans [OF wroteD(5,3) [OF assms(1)] wroteD(5) [OF assms(2)]])
  show "ip2 = ip" if b: "\<forall>j. a \<le> j \<and> j < a + length (xs @ ys) \<longrightarrow> block_addr D ip (j div 512) \<noteq> 0"
  proof -
    have "ip1 = ip" using 1 b by simp
    moreover have "block_addr D1 ip1 (j div 512) \<noteq> 0" if "a + length xs \<le> j \<and> j < a + length xs + length ys" for j
      using 1 b that by (metis add_leD1 length_append group_cancel.add1 add.assoc)
    ultimately show ?thesis using 2 by blast
  qed
  fix k assume "block_addr D ip k \<noteq> 0"
  then show "block_addr D2 ip2 k = block_addr D ip k" using 1 2 by metis
next
  note 1 = assms(1) [unfolded wrote_def] and 2 = assms(2) [unfolded wrote_def]
  fix j assume j: "a \<le> j \<and> j < a + length (xs @ ys)"
  show "block_addr D2 ip2 (j div 512) \<noteq> 0" "file_byte D2 ip2 j = (xs @ ys) ! (j - a)"
  proof (atomize (full), cases "j < a + length xs")
    case True
    then have m: "block_addr D1 ip1 (j div 512) \<noteq> 0" "file_byte D1 ip1 j = xs ! (j - a)" using 1 j by blast+
    moreover have "file_byte D2 ip2 j = file_byte D1 ip1 j" "block_addr D2 ip2 (j div 512) = block_addr D1 ip1 (j div 512)"
      using wrote_bytes(1) [OF assms(2) m(1)] wrote_bytes(3) [OF assms(2) _ m(1)] True by simp_all
    moreover have "j - a < length xs" using True j by linarith
    ultimately show "block_addr D2 ip2 (j div 512) \<noteq> 0 \<and> file_byte D2 ip2 j = (xs @ ys) ! (j - a)"
      using True j by (simp add: nth_append)
  next
    case False
    then have "block_addr D2 ip2 (j div 512) \<noteq> 0 \<and> file_byte D2 ip2 j = ys ! (j - (a + length xs))"
      using wrote_bytes(2) [OF assms(2), of j] j by simp
    moreover have "\<not> j - a < length xs" using False j by linarith
    ultimately show "block_addr D2 ip2 (j div 512) \<noteq> 0 \<and> file_byte D2 ip2 j = (xs @ ys) ! (j - a)"
      using False j by (simp add: nth_append diff_diff_eq)
  qed
next
  fix j assume j: "\<not> (a \<le> j \<and> j < a + length (xs @ ys)) \<and> block_addr D ip (j div 512) \<noteq> 0"
  then have out: "\<not> (a \<le> j \<and> j < a + length xs)" "\<not> (a + length xs \<le> j \<and> j < a + length xs + length ys)" by auto
  have "file_byte D1 ip1 j = file_byte D ip j" "block_addr D1 ip1 (j div 512) \<noteq> 0"
    using wrote_bytes(3) [OF assms(1) out(1)] wrote_bytes(1) [OF assms(1)] j by simp_all
  moreover from this have "file_byte D2 ip2 j = file_byte D1 ip1 j" using wrote_bytes(3) [OF assms(2) out(2)] by simp
  ultimately show "file_byte D2 ip2 j = file_byte D ip j" by simp
next
  fix j assume j: "\<not> (a \<le> j \<and> j < a + length (xs @ ys)) \<and> block_addr D ip (j div 512) = 0 \<and> block_addr D2 ip2 (j div 512) \<noteq> 0"
  then have out: "\<not> (a \<le> j \<and> j < a + length xs)" "\<not> (a + length xs \<le> j \<and> j < a + length xs + length ys)" by auto
  show "file_byte D2 ip2 j = 0"
  proof (cases "block_addr D1 ip1 (j div 512) = 0")
    case True
    then show ?thesis using wrote_bytes(4) [OF assms(2) out(2)] j by simp
  next
    case False
    then have "file_byte D1 ip1 j = 0" using wrote_bytes(4) [OF assms(1) out(1)] j by simp
    moreover have "file_byte D2 ip2 j = file_byte D1 ip1 j" by (rule wrote_bytes(3) [OF assms(2) out(2) False])
    ultimately show ?thesis by simp
  qed
next
  note 1 = assms(1) [unfolded wrote_def] and 2 = assms(2) [unfolded wrote_def]
  fix c assume c: "data_upto L D c"
  then have c1: "data_upto L D1 c" "\<not> owns D ip c \<Longrightarrow> D1 c = D c \<and> \<not> owns D1 ip1 c" using 1 by blast+
  show "data_upto L D2 c" using c1(1) 2 by blast
  assume "\<not> owns D ip c"
  then show "D2 c = D c" "\<not> owns D2 ip2 c" using c1 2 by auto
qed

text \<open>One round: find the block, then overwrite part of it.\<close>

lemma wrote_block:
  assumes g: "grown L D ip k D1 ip1" and ok: "disk_upto L D" "file_upto L D ip"
    and k: "a div 512 = k" and ys: "a mod 512 + length ys \<le> 512" "ys \<noteq> []"
  shows "wrote L D ip a ys (D1(block_addr D1 ip1 k := splice (a mod 512) ys (D1 (block_addr D1 ip1 k)))) ip1"
proof -
  let ?b = "block_addr D1 ip1 k"
  let ?d = "splice (a mod 512) ys (D1 ?b)"
  let ?D = "D1(?b := ?d)"
  have ok1: "disk_upto L D1" "file_upto L D1 ip1" "sb_of D1 = sb_of D" and as: "\<exists>as. ip1 = ip\<lparr>addrs := as\<rparr>"
    and old: "block_addr D ip k \<noteq> 0 \<longrightarrow> ?b = block_addr D ip k"
    and db1: "\<And>c. data_upto L D c \<Longrightarrow> data_upto L D1 c \<and> (c \<noteq> addrs ip ! 12 \<longrightarrow> D1 c = D c)"
    and ow: "\<And>c. owns D1 ip1 c \<Longrightarrow> owns D ip c \<or> \<not> marked D c"
    using g unfolding grown_def by blast+
  obtain b' where b': "b' \<noteq> 0" "block_addr D1 ip1 = (block_addr D ip)(k := b')" using g unfolding grown_def by blast
  then have b: "?b = b'" "?b \<noteq> 0" by auto
  have fb: "data_upto L D1 ?b" "?b \<noteq> addrs ip1 ! 12" using ok1(2) b(2) by (auto simp: file_upto_def)
  have inj: "\<And>j. block_addr D1 ip1 j = ?b \<Longrightarrow> j = k" using ok1(2) b(2) by (auto simp: file_upto_def)
  have l1: "length (D1 ?b) = 512" using ok1(1) by (simp add: disk_upto_def)
  have ld: "length ?d = 512" using l1 ys(1) by simp
  have ba: "block_addr ?D ip1 = block_addr D1 ip1" using fb(2) by (intro block_addr_cong) auto
  have okD: "disk_upto L ?D" by (rule disk_ok_data [OF ok1(1) fb(1) ld])
  have dbD: "data_upto L ?D c" if "data_upto L D1 c" for c using data_block_data [OF fb(1) that] .
  have fok: "file_upto L ?D ip1" by (rule file_ok_same [OF ok1(2) dbD refl ba])
  have sbD: "sb_of ?D = sb_of D" using fb(1) ok1(3) by (simp add: data_upto_def)
  have in1: "j div 512 = k \<and> j mod 512 = a mod 512 + (j - a)" if "a \<le> j \<and> j < a + length ys" for j
  proof -
    have "a mod 512 + (j - a) < 512" using that ys(1) by linarith
    then show ?thesis using div_within [of a 512 "j - a"] mod_within [of a 512 "j - a"] that k by simp
  qed
  have w: "file_byte ?D ip1 j = ys ! (j - a)" if j: "a \<le> j \<and> j < a + length ys" for j
    using in1 [OF j] j l1 ys(1) unfolding file_byte_def ba file_sizes by (auto simp: nth_splice)
  have nw: "file_byte ?D ip1 j = file_byte D ip j"
    if j: "\<not> (a \<le> j \<and> j < a + length ys)" "block_addr D ip (j div 512) \<noteq> 0" for j
  proof (cases "j div 512 = k")
    case True
    then have bk: "block_addr D ip k = ?b" using old j(2) by auto
    have "block_addr D ip k \<noteq> 0" using j(2) True by simp
    then have "data_upto L D ?b" "?b \<noteq> addrs ip ! 12" using ok(2) unfolding file_upto_def bk [symmetric] by blast+
    then have same: "D1 ?b = D ?b" using db1 by blast
    have "\<not> (a mod 512 \<le> j mod 512 \<and> j mod 512 < a mod 512 + length ys)"
    proof
      assume m: "a mod 512 \<le> j mod 512 \<and> j mod 512 < a mod 512 + length ys"
      have "a = 512 * k + a mod 512" "j = 512 * k + j mod 512" using k True by (metis mult_div_mod_eq)+
      with m j(1) show False by linarith
    qed
    then have "?d ! (j mod 512) = D1 ?b ! (j mod 512)" using l1 ys(1) by (subst nth_splice) auto
    then show ?thesis using True bk same unfolding file_byte_def ba file_sizes by simp
  next
    case False
    let ?c = "block_addr D ip (j div 512)"
    have c1: "block_addr D1 ip1 (j div 512) = ?c" using b' False by simp
    then have "?c \<noteq> ?b" using inj False by auto
    moreover have "D1 ?c = D ?c" using ok(2) j(2) db1 by (auto simp: file_upto_def)
    ultimately show ?thesis using c1 unfolding file_byte_def ba file_sizes by simp
  qed
  have oth: "?D c = D c \<and> \<not> owns ?D ip1 c" if c: "data_upto L D c" "\<not> owns D ip c" for c
  proof -
    have "marked D c" "c \<noteq> 0" using c(1) ok(1) by (auto simp: data_upto_def meta_def)
    then have no: "\<not> owns D1 ip1 c" using ow c(2) by blast
    then have "c \<noteq> ?b" using b(2) by (auto simp: owns_def)
    moreover have "D1 c = D c"
      using db1 [OF c(1)] c(2) \<open>c \<noteq> 0\<close> by (auto simp: owns_def)
    ultimately show ?thesis using no unfolding owns_def ba by simp
  qed
  have keep: "block_addr ?D ip1 j = block_addr D ip j" if "block_addr D ip j \<noteq> 0" for j
    using that b' old unfolding ba by auto
  have tk: "tables_kept D ?D" using g fb(1) ok1(3) by (intro tables_kept_data) (auto simp: grown_def)
  have un: "(\<forall>j. a \<le> j \<and> j < a + length ys \<longrightarrow> block_addr D ip (j div 512) \<noteq> 0) \<longrightarrow> ip1 = ip"
  proof
    assume "\<forall>j. a \<le> j \<and> j < a + length ys \<longrightarrow> block_addr D ip (j div 512) \<noteq> 0"
    then have "block_addr D ip k \<noteq> 0" using ys(2) unfolding k [symmetric] by simp
    then show "ip1 = ip" using g unfolding grown_def by blast
  qed
  have rng: "\<forall>j. a \<le> j \<and> j < a + length ys \<longrightarrow> block_addr ?D ip1 (j div 512) \<noteq> 0 \<and> file_byte ?D ip1 j = ys ! (j - a)"
    using w in1 b(2) ba by simp
  have zero: "file_byte ?D ip1 j = 0" if j: "\<not> (a \<le> j \<and> j < a + length ys)" "block_addr D ip (j div 512) = 0" "block_addr ?D ip1 (j div 512) \<noteq> 0" for j
  proof -
    have jk: "j div 512 = k" using j(2,3) b' unfolding ba by (auto split: if_splits)
    then have z: "D1 ?b = replicate 512 0" using g j(2) unfolding grown_def by blast
    have "\<not> (a mod 512 \<le> j mod 512 \<and> j mod 512 < a mod 512 + length ys)"
    proof
      assume m: "a mod 512 \<le> j mod 512 \<and> j mod 512 < a mod 512 + length ys"
      have "a = 512 * k + a mod 512" "j = 512 * k + j mod 512" using k jk by (metis mult_div_mod_eq)+
      with m j(1) show False by linarith
    qed
    then have "?d ! (j mod 512) = D1 ?b ! (j mod 512)" using l1 ys(1) by (subst nth_splice) auto
    then show ?thesis using jk z unfolding file_byte_def ba file_sizes by simp
  qed
  show ?thesis
    unfolding wrote_def using okD fok sbD as keep rng nw oth dbD db1 tk un zero by blast
qed

lemma update_quiet:
  assumes "quiet s" "length d = 512"
  shows "\<exists>bp s1 s2 s3. bread ROOTDEV a s = Inr (bp, s1) \<and> bdata (bufs s1 ! bp) = disk s a \<and> rest s1 = rest s \<and>
    bwrite bp (set_data bp d s1) = Inr s2 \<and> brelse bp s2 = Inr s3 \<and> quiet s3 \<and>
    disk s3 = (disk s)(a := d) \<and> rest s3 = rest s"
  using update_block [OF quiet_can [OF assms(1)], of a UNIV d] assms unfolding quiet_def effect_def by auto

text \<open>The number of blocks that a range of bytes touches.\<close>

definition touched :: "nat \<Rightarrow> nat \<Rightarrow> nat" where
  "touched off len = (if len = 0 then 0 else (off + len - 1) div 512 - off div 512 + 1)"

lemma touched_step:
  assumes "0 < len" "m = min len (512 - off mod 512)"
  shows "touched off len = Suc (touched (off + m) (len - m))"
proof (cases "m = len")
  case True
  have "off mod 512 + (len - 1) < 512" using assms True by linarith
  then have "(off + (len - 1)) div 512 = off div 512" by (rule div_within)
  then show ?thesis using assms(1) True by (simp add: touched_def)
next
  case False
  then have m: "m = 512 - off mod 512" "m < len" using assms(2) by linarith+
  have "off mod 512 < 512" by simp
  then have "off + m = 512 * (off div 512) + 512" using m(1) mult_div_mod_eq [of 512 off] by linarith
  then have d: "(off + m) div 512 = off div 512 + 1" by simp
  have le: "(off + m) div 512 \<le> (off + len - 1) div 512" using m(2) by (intro div_le_mono) linarith
  have "off + m + (len - m) - 1 = off + len - 1" "len \<noteq> 0" "len - m \<noteq> 0" using m(2) by linarith+
  then have "touched off len = (off + len - 1) div 512 - off div 512 + 1"
    "touched (off + m) (len - m) = (off + len - 1) div 512 - (off div 512 + 1) + 1"
    unfolding touched_def d by (simp_all only: if_False)
  moreover have "y + 1 \<le> x \<Longrightarrow> x - y + 1 = Suc (x - (y + 1) + 1)" for x y :: nat by simp
  ultimately show ?thesis using le [unfolded d] by (simp only:)
qed

lemma writei_loop_run:
  assumes "quiet s" "D = disk s" "ip = icache s ! i" "i < length (icache s)" "idev ip = ROOTDEV" "disk_upto L D" "file_upto L D ip"
    "tot \<le> n" "unat off + unat (n - tot) \<le> 71680" "unat (n - tot) \<le> length src"
  shows "space_upto L D < 2 * touched (unat off) (unat (n - tot)) \<and> (L = bitmap_size \<longrightarrow> writei_loop i n tot off src s = Inl (Panic ''balloc: out of blocks'')) \<or>
    (\<exists>s' ip'. writei_loop i n tot off src s = Inr (off + (n - tot), s') \<and> quiet s' \<and>
      wrote L D ip (unat off) (take (unat (n - tot)) src) (disk s') ip' \<and>
      rest s' = rest (s\<lparr>icache := (icache s)[i := ip']\<rparr>))"
  using assms
proof (induction "unat (n - tot)" arbitrary: tot off src s D ip rule: less_induct)
  case less
  show ?case
  proof (cases "tot < n")
    case False
    then have "tot = n" using less.prems(8) by simp
    moreover have "s\<lparr>icache := (icache s)[i := ip]\<rparr> = s" using less.prems(3,4) by simp
    ultimately show ?thesis using less.prems wrote_nothing [OF less.prems(6,7)]
      by (subst (1 2) writei_loop.simps) (intro disjI2 exI [of _ s] exI [of _ ip], simp)
  next
    case True
    let ?m = "chunk n tot off" and ?o = "unat off"
    let ?k = "?o div 512" and ?ys = "take (unat ?m) src"
    have "unat off + unat (n - tot) < 2 ^ 32" using less.prems(9) by simp
    note st = chunk_step [OF True this]
    have tc: "touched ?o (unat (n - tot)) = Suc (touched (unat (off + ?m)) (unat (n - (tot + ?m))))"
      using touched_step [of "unat (n - tot)" "unat ?m" ?o] st by (simp add: unat_chunk)
    have k: "?k < 140" using less.prems(9) st(3,4) by (simp add: div_less_iff_less_mult)
    have ly: "length ?ys = unat ?m" using less.prems(10) st(4) by simp
    from bmap_run [OF less.prems(1-7) k, of "off div 512"] consider
      "space_upto L D < 2" "L = bitmap_size \<longrightarrow> bmap i (off div 512) s = Inl (Panic ''balloc: out of blocks'')"
      | s1 ip1 where "bmap i (off div 512) s = Inr (block_addr (disk s1) ip1 ?k, s1)" "quiet s1"
        "grown L D ip ?k (disk s1) ip1" "rest s1 = rest (s\<lparr>icache := (icache s)[i := ip1]\<rparr>)" "space_upto L D \<le> space_upto L (disk s1) + 2"
      by (auto simp: unat_div)
    then show ?thesis
    proof cases
      case 1
      then show ?thesis using True tc by (intro disjI1 conjI impI) (simp, subst writei_loop.simps, simp add: BSIZE_def)
    next
      case 2
      let ?D1 = "disk s1" and ?a = "block_addr (disk s1) ip1 ?k"
      have ic1: "icache s1 = (icache s)[i := ip1]" using rest_icache [OF 2(4)] by simp
      have dev1: "idev ip1 = ROOTDEV" using 2(3) less.prems(5) by (auto simp: grown_def)
      let ?d = "splice (?o mod 512) ?ys (?D1 ?a)"
      have "length (?D1 ?a) = 512" using 2(3) by (simp add: grown_def disk_upto_def)
      then have "length ?d = 512" using ly st(5) by simp
      from update_quiet [OF 2(2) this, of ?a] obtain bp s2 s3 s4 where 3: "bread ROOTDEV ?a s1 = Inr (bp, s2)"
        "bdata (bufs s2 ! bp) = ?D1 ?a" "bwrite bp (set_data bp ?d s2) = Inr s3" "brelse bp s3 = Inr s4" "quiet s4"
        "disk s4 = ?D1(?a := ?d)" "rest s4 = rest s1" by blast
      have w1: "wrote L D ip ?o ?ys (disk s4) ip1"
        unfolding 3(6) using ly st(3,5) by (intro wrote_block [OF 2(3) less.prems(6,7)]) auto
      have "data_upto L ?D1 ?a" using 2(3) unfolding grown_def file_upto_def by (metis fun_upd_same)
      then have sp: "space_upto L D \<le> space_upto L (disk s4) + 2" using 2(5) unfolding 3(6) by (simp add: space_data data_upto_def)
      have ic4: "icache s4 = (icache s)[i := ip1]" using rest_icache [OF 3(7)] ic1 by simp
      have run: "writei_loop i n tot off src s = writei_loop i n (tot + ?m) (off + ?m) (drop (unat ?m) src) s4"
        using True 2(1) 3(1-4) ic1 dev1 less.prems(4,10) st(4)
        by (subst writei_loop.simps) (simp add: BSIZE_def unat_mod Let_def)
      have le: "tot + ?m \<le> n"
      proof -
        have "unat tot + unat ?m \<le> unat n" using st(4) True unat_sub [of tot n] by (simp add: word_less_nat_alt word_le_nat_alt)
        moreover from this have "unat (tot + ?m) = unat tot + unat ?m"
          using unat_lt32 [of n] by (simp add: unat_word_ariths)
        ultimately show ?thesis by (simp add: word_le_nat_alt)
      qed
      let ?src = "drop (unat ?m) src" and ?n = "unat (n - (tot + ?m))"
      have "?n < unat (n - tot)" using st(1,3,4) by linarith
      then have "space_upto L (disk s4) < 2 * touched (unat (off + ?m)) ?n \<and>
        (L = bitmap_size \<longrightarrow> writei_loop i n (tot + ?m) (off + ?m) ?src s4 = Inl (Panic ''balloc: out of blocks'')) \<or>
        (\<exists>s' ip'. writei_loop i n (tot + ?m) (off + ?m) ?src s4 = Inr (off + ?m + (n - (tot + ?m)), s') \<and> quiet s' \<and>
          wrote L (disk s4) ip1 (unat (off + ?m)) (take ?n ?src) (disk s') ip' \<and>
          rest s' = rest (s4\<lparr>icache := (icache s4)[i := ip']\<rparr>))"
      proof (rule less.hyps)
        show "disk_upto L (disk s4)" "file_upto L (disk s4) ip1" using w1 by (simp_all add: wrote_def)
        show "unat (off + ?m) + ?n \<le> 71680" using st less.prems(9) by linarith
        show "?n \<le> length ?src" using st(1) less.prems(10) by simp
      qed (use 3(5) ic4 less.prems(4) dev1 le in simp_all)
      moreover have "take (unat (n - tot)) src = ?ys @ take ?n ?src"
        using st(1,4) by (simp add: take_add [symmetric])
      moreover have "unat (off + ?m) = ?o + length ?ys" using ly st(2) by simp
      moreover have "off + ?m + (n - (tot + ?m)) = off + (n - tot)" by simp
      moreover have "rest (s4\<lparr>icache := (icache s4)[i := ip']\<rparr>) = rest (s\<lparr>icache := (icache s)[i := ip']\<rparr>)" for ip'
        using 3(7) 2(4) ic4 by simp
      moreover have "space_upto L (disk s4) < 2 * touched (unat (off + ?m)) ?n \<Longrightarrow> space_upto L D < 2 * touched ?o (unat (n - tot))"
        using tc sp by linarith
      ultimately show ?thesis using run wrote_append [OF w1] by (simp only:) metis
    qed
  qed
qed

section \<open>Files as byte strings\<close>

text \<open>A file in good order, and its contents.\<close>

definition inv_upto :: "(superblock \<Rightarrow> nat) \<Rightarrow> (u32 \<Rightarrow> u8 list) \<Rightarrow> inode \<Rightarrow> bool" where
  "inv_upto L D ip \<longleftrightarrow> disk_upto L D \<and> file_upto L D ip \<and> allocated D ip 0 (unat (isize ip)) \<and>
     unat (isize ip) \<le> MAXFILE * BSIZE \<and> idev ip = ROOTDEV \<and> inum ip < ninodes (sb_of D)"

definition contents :: "(u32 \<Rightarrow> u8 list) \<Rightarrow> inode \<Rightarrow> u8 list" where
  "contents D ip = map (file_byte D ip) [0..<unat (isize ip)]"

definition overwrite :: "nat \<Rightarrow> 'a list \<Rightarrow> 'a list \<Rightarrow> 'a list" where
  "overwrite off xs c = take off c @ xs @ drop (off + length xs) c"

lemma length_file_contents [simp]: "length (contents D ip) = unat (isize ip)"
  by (simp add: contents_def)

lemma nth_overwrite:
  "off \<le> length c \<Longrightarrow> j < max (length c) (off + length xs) \<Longrightarrow>
   overwrite off xs c ! j = (if off \<le> j \<and> j < off + length xs then xs ! (j - off) else c ! j)"
  by (auto simp: overwrite_def nth_append)

lemma contents_overwrite:
  assumes "wrote L D ip off xs D' ip'" "off \<le> unat (isize ip)" "allocated D ip 0 (unat (isize ip))"
    "unat (isize ip'') = max (unat (isize ip)) (off + length xs)"
    "block_addr D'' ip'' = block_addr D' ip'" "\<And>k. block_addr D' ip' k \<noteq> 0 \<Longrightarrow> D'' (block_addr D' ip' k) = D' (block_addr D' ip' k)"
  shows "contents D'' ip'' = overwrite off xs (contents D ip)" "allocated D'' ip'' 0 (unat (isize ip''))"
proof -
  note w = assms(1) [unfolded wrote_def]
  have al: "block_addr D' ip' (j div 512) \<noteq> 0" if "j < unat (isize ip'')" for j
  proof (cases "off \<le> j \<and> j < off + length xs")
    case False
    then have "block_addr D ip (j div 512) \<noteq> 0" using that assms(2,3,4) by (auto simp: allocated_def)
    then show ?thesis using w by metis
  qed (use w in blast)
  then show "allocated D'' ip'' 0 (unat (isize ip''))" using assms(5) by (simp add: allocated_def)
  have fb: "file_byte D'' ip'' j = file_byte D' ip' j" if "j < unat (isize ip'')" for j
    using al [OF that] assms(5,6) by (simp add: file_byte_def file_sizes)
  show "contents D'' ip'' = overwrite off xs (contents D ip)"
  proof (rule nth_equalityI)
    show "length (contents D'' ip'') = length (overwrite off xs (contents D ip))"
      using assms(2,4) by (auto simp: overwrite_def)
    fix j assume "j < length (contents D'' ip'')"
    then have j: "j < unat (isize ip'')" by simp
    have "file_byte D' ip' j = overwrite off xs (contents D ip) ! j"
    proof (cases "off \<le> j \<and> j < off + length xs")
      case True
      then have "file_byte D' ip' j = xs ! (j - off)" using w by blast
      then show ?thesis using True assms(2) j assms(4) by (subst nth_overwrite) auto
    next
      case False
      then have ji: "j < unat (isize ip)" using j assms(2,4) by auto
      then have "block_addr D ip (j div 512) \<noteq> 0" using assms(3) by (simp add: allocated_def)
      then have "file_byte D' ip' j = file_byte D ip j" using w False by blast
      then show ?thesis using False assms(2) ji by (subst nth_overwrite) (auto simp: contents_def)
    qed
    then show "contents D'' ip'' ! j = overwrite off xs (contents D ip) ! j"
      using fb [OF j] j by (simp add: contents_def)
  qed
qed

section \<open>Inode blocks\<close>

lemma IBLOCK_meta:
  assumes "n < ninodes sb"
  shows "IBLOCK n \<in> meta sb" "IBLOCK n \<noteq> 1" "IBLOCK n \<noteq> BBLOCK b (ninodes sb)"
proof -
  show "IBLOCK n \<in> meta sb" using assms by (auto simp: meta_def)
  have u: "unat (IBLOCK n) = unat n div 8 + 2"
    using unat_lt32 [of n] by (simp add: IBLOCK_def IPB_def BSIZE_def unat_word_ariths unat_div)
  then show "IBLOCK n \<noteq> 1" by (metis One_nat_def Suc_1 add_2_eq_Suc' nat.inject nat.simps(3) unat_1)
  have "unat n div 8 \<le> unat (ninodes sb) div 8" using assms by (intro div_le_mono) (simp add: word_less_nat_alt)
  then show "IBLOCK n \<noteq> BBLOCK b (ninodes sb)" using u unat_BBLOCK [of b "ninodes sb"] by auto
qed

lemma tables_kept_inode:
  assumes "tables_kept D D'" "n < ninodes (sb_of D)"
  shows "disk_inode D' n = disk_inode D n"
proof -
  have "IBLOCK n \<notin> bitmap_blocks (sb_of D)" using IBLOCK_meta(3) [OF assms(2)] by (auto simp: bitmap_blocks_def)
  then have "D' (IBLOCK n) = D (IBLOCK n)" using assms(1) IBLOCK_meta(1) [OF assms(2)] by (simp add: tables_kept_def)
  then show ?thesis by (simp add: disk_inode_def)
qed

text \<open>Updating an on-disk inode changes neither the bitmap nor any data block.\<close>

lemma put_inode_frame:
  assumes "disk_upto L D" "n < ninodes (sb_of D)"
  shows "disk_upto L (put_inode n x D)" "sb_of (put_inode n x D) = sb_of D"
    "\<And>c. data_upto L D c \<Longrightarrow> data_upto L (put_inode n x D) c \<and> put_inode n x D c = D c"
proof -
  note i = IBLOCK_meta [OF assms(2)]
  show sb: "sb_of (put_inode n x D) = sb_of D" using i(2) by (simp add: put_inode_def)
  have m: "marked (put_inode n x D) b = marked D b" for b
    unfolding marked_def sb using i(3) by (simp add: put_inode_def eq_commute)
  have same: "put_inode n x D c = D c" if "c \<notin> meta (sb_of D)" for c
    using that i(1) by (auto simp: put_inode_def)
  have z: "put_inode n x D b = replicate 512 0" if "below L (sb_of D) b" "\<not> marked D b" for b
    using assms(1) that same [of b] by (auto simp: disk_upto_def)
  show "disk_upto L (put_inode n x D)"
    using assms(1) z unfolding disk_upto_def sb m by (auto simp: put_inode_def)
  show "data_upto L (put_inode n x D) c \<and> put_inode n x D c = D c" if "data_upto L D c" for c
    using that same m unfolding data_upto_def sb by auto
qed

lemma file_ok_frame:
  assumes "file_upto L D ip" "\<And>c. data_upto L D c \<Longrightarrow> data_upto L D' c \<and> D' c = D c"
  shows "file_upto L D' (ip\<lparr>isize := z\<rparr>)" "block_addr D' (ip\<lparr>isize := z\<rparr>) = block_addr D ip"
proof -
  show ba: "block_addr D' (ip\<lparr>isize := z\<rparr>) = block_addr D ip"
    using assms by (intro block_addr_cong) (auto simp: file_upto_def)
  show "file_upto L D' (ip\<lparr>isize := z\<rparr>)" by (rule file_ok_same [OF assms(1) _ _ ba]) (use assms(2) in auto)
qed

lemma iupdate_quiet:
  assumes "quiet s" "idev (icache s ! i) = ROOTDEV"
  shows "\<exists>s'. iupdate i s = Inr s' \<and> quiet s' \<and> rest s' = rest s \<and>
    disk s' = put_inode (inum (icache s ! i)) (dinode_of (icache s ! i)) (disk s)"
  using iupdate_run [OF quiet_can [OF assms(1)], of i UNIV] assms unfolding quiet_def effect_def by auto

lemma upd_inode_quiet [simp]: "quiet (upd_inode i f s) = quiet s"
  by (simp add: quiet_def)

section \<open>\<^verbatim>\<open>readi\<close> and \<^verbatim>\<open>writei\<close> refine operations on byte strings\<close>

lemma map_upt_take_drop: "map f [a..<min (a + n) m] = take n (drop a (map f [0..<m]))"
  by (simp add: take_map drop_map take_upt drop_upt min_def)

lemma readi_law:
  assumes "quiet s" "inv_upto L (disk s) (icache s ! i)" "itype (icache s ! i) \<noteq> T_DEV"
    "off \<le> isize (icache s ! i)" "off \<le> off + n"
  shows "\<exists>s'. readi dv i off n s = Inr (min n (isize (icache s ! i) - off),
      take (unat n) (drop (unat off) (contents (disk s) (icache s ! i))), s') \<and>
    quiet s' \<and> disk s' = disk s \<and> icache s' = icache s \<and> rest s' = rest s"
proof -
  obtain s' where "readi dv i off n s = Inr (min n (isize (icache s ! i) - off),
      map (file_byte (disk s) (icache s ! i)) [unat off..<min (unat off + unat n) (unat (isize (icache s ! i)))], s')"
    "effect (disk s) s s'"
    using readi_run [OF quiet_can [OF assms(1)], of i UNIV off n dv] assms unfolding inv_upto_def by blast
  then show ?thesis using assms(1) effect_icache [of "disk s" s s']
    unfolding map_upt_take_drop contents_def [symmetric] by (auto simp: quiet_def effect_def)
qed

lemma writei_law:
  assumes "quiet s" "D = disk s" "ip = icache s ! i" "i < length (icache s)" "inv_upto L D ip" "itype ip \<noteq> T_DEV"
    "off \<le> isize ip" "unat off + unat n \<le> MAXFILE * BSIZE" "unat n \<le> length src"
  shows "space_upto L D < 2 * touched (unat off) (unat n) \<and> (L = bitmap_size \<longrightarrow> writei dv i src off n s = Inl (Panic ''balloc: out of blocks'')) \<or>
    (\<exists>s' ip'. writei dv i src off n s = Inr (n, s') \<and> quiet s' \<and> icache s' = (icache s)[i := ip'] \<and>
      inv_upto L (disk s') ip' \<and> contents (disk s') ip' = overwrite (unat off) (take (unat n) src) (contents D ip) \<and>
      (unat (isize ip) < unat off + unat n \<longrightarrow> disk_inode (disk s') (inum ip) = dinode_of ip') \<and>
      itype ip' = itype ip \<and> sb_of (disk s') = sb_of D \<and>
      (\<forall>c. data_upto L D c \<longrightarrow> data_upto L (disk s') c \<and> (\<not> owns D ip c \<longrightarrow> disk s' c = D c \<and> \<not> owns (disk s') ip' c)) \<and>
      (\<forall>m. m \<noteq> inum ip \<and> m < ninodes (sb_of D) \<longrightarrow> disk_inode (disk s') m = disk_inode D m) \<and> rest s' = rest (s\<lparr>icache := icache s'\<rparr>) \<and>
      (\<exists>as. ip' = ip\<lparr>addrs := as, isize := isize ip'\<rparr>) \<and>
      (unat off + unat n \<le> unat (isize ip) \<longrightarrow> ip' = ip \<and> disk_inode (disk s') (inum ip) = disk_inode D (inum ip)) \<and>
      (\<forall>j. \<not> (unat off \<le> j \<and> j < unat off + unat n) \<longrightarrow>
        (block_addr D ip (j div 512) \<noteq> 0 \<longrightarrow> file_byte (disk s') ip' j = file_byte D ip j) \<and>
        (block_addr D ip (j div 512) = 0 \<and> block_addr (disk s') ip' (j div 512) \<noteq> 0 \<longrightarrow> file_byte (disk s') ip' j = 0)))"
proof -
  have fi: "disk_upto L D" "file_upto L D ip" "allocated D ip 0 (unat (isize ip))" "unat (isize ip) \<le> 71680"
    "idev ip = ROOTDEV" "inum ip < ninodes (sb_of D)" and lim: "unat off + unat n \<le> 71680"
    using assms(5,8) by (auto simp: inv_upto_def file_sizes)
  have on: "unat (off + n) = unat off + unat n" using lim by (simp add: unat_word_ariths)
  have c: "\<not> off + n < off" "\<not> isize ip < off" "\<not> off + n > 71680"
    using lim on assms(7) by (simp_all add: word_less_nat_alt word_le_nat_alt not_less)
  let ?w = "writei_loop i n 0 off src s" and ?xs = "take (unat n) src"
  have lx: "length ?xs = unat n" using assms(9) by simp
  have wr: "writei dv i src off n s = bindR ?w (\<lambda>(off, s).
      if n > 0 \<and> off > isize (icache s ! i)
      then bindR (iupdate i (upd_inode i (\<lambda>ip. ip\<lparr>isize := off\<rparr>) s)) (\<lambda>s. Inr (n, s)) else Inr (n, s))"
    using assms(3,6) c by (simp add: writei_def Let_def file_sizes)
  from writei_loop_run [OF assms(1-4) fi(5,1,2), of 0 n off src] lim assms(9)
  consider "space_upto L D < 2 * touched (unat off) (unat n)" "L = bitmap_size \<longrightarrow> ?w = Inl (Panic ''balloc: out of blocks'')"
    | s1 ip1 where "?w = Inr (off + n, s1)" "quiet s1" "wrote L D ip (unat off) ?xs (disk s1) ip1"
      "rest s1 = rest (s\<lparr>icache := (icache s)[i := ip1]\<rparr>)" by auto
  then show ?thesis
  proof cases
    case 1
    then show ?thesis using wr by (intro disjI1) auto
  next
    case 2
    let ?D1 = "disk s1"
    note w = 2(3) [unfolded wrote_def]
    have ic1: "icache s1 = (icache s)[i := ip1]" using rest_icache [OF 2(4)] by simp
    have ip1: "isize ip1 = isize ip" "idev ip1 = ROOTDEV" "inum ip1 = inum ip" "itype ip1 = itype ip" using w fi(5) by auto
    have in1: "inum ip < ninodes (sb_of ?D1)" using w fi(6) by simp
    have tk: "disk_inode ?D1 m = disk_inode D m" if "m < ninodes (sb_of D)" for m
      using w that by (intro tables_kept_inode) auto
    obtain as where as: "ip1 = ip\<lparr>addrs := as\<rparr>" using w by blast
    have by1: "(block_addr D ip (j div 512) \<noteq> 0 \<longrightarrow> file_byte ?D1 ip1 j = file_byte D ip j) \<and>
        (block_addr D ip (j div 512) = 0 \<and> block_addr ?D1 ip1 (j div 512) \<noteq> 0 \<longrightarrow> file_byte ?D1 ip1 j = 0)"
      if "\<not> (unat off \<le> j \<and> j < unat off + unat n)" for j using w that lx by simp
    show ?thesis
    proof (cases "unat (isize ip) < unat off + unat n")
      case False
      then have run: "writei dv i src off n s = Inr (n, s1)"
        using wr 2(1) ic1 assms(4) ip1 on by (simp add: word_less_nat_alt)
      have m: "unat (isize ip1) = max (unat (isize ip)) (unat off + length ?xs)" using False ip1 lx by simp
      have "unat off \<le> unat (isize ip)" using assms(7) by (simp add: word_le_nat_alt)
      note co = contents_overwrite [OF 2(3) this fi(3) m refl refl]
      have "inv_upto L ?D1 ip1" using w co(2) ip1 in1 fi(4) by (simp add: inv_upto_def file_sizes)
      moreover have ex: "\<exists>as. ip1 = ip\<lparr>addrs := as, isize := isize ip1\<rparr>" using as ip1(1) by auto
      moreover have ie: "ip1 = ip" using w fi(3) False lx by (auto simp: allocated_def)
      moreover have rs: "rest s1 = rest (s\<lparr>icache := icache s1\<rparr>)" using 2(4) ic1 by simp
      ultimately show ?thesis
        by (intro disjI2 exI [of _ s1] exI [of _ ip1] conjI) (use run 2(2) ic1 co(1) w ip1(4) False tk tk [OF fi(6)] by1 in \<open>blast+\<close>)
    next
      case True
      let ?ip = "ip1\<lparr>isize := off + n\<rparr>"
      let ?s = "upd_inode i (\<lambda>ip. ip\<lparr>isize := off + n\<rparr>) s1"
      let ?D2 = "put_inode (inum ip) (dinode_of ?ip) ?D1"
      have n0: "0 < n" using True assms(7) by (auto simp: word_le_nat_alt word_less_nat_alt)
      have ics: "icache ?s = (icache s)[i := ?ip]" using ic1 assms(4) by (simp add: upd_inode_def)
      obtain s2 where 3: "iupdate i ?s = Inr s2" "quiet s2" "rest s2 = rest ?s" "disk s2 = ?D2"
        using iupdate_quiet [of ?s i] 2(2) ics ip1 assms(4) by auto
      have ic2: "icache s2 = (icache s)[i := ?ip]" using rest_icache [OF 3(3)] ics by simp
      have run: "writei dv i src off n s = Inr (n, s2)"
        using wr 2(1) ic1 assms(4) ip1 on n0 True 3(1) by (simp add: word_less_nat_alt)
      have ok1: "disk_upto L ?D1" "file_upto L ?D1 ip1" using w by blast+
      note pf = put_inode_frame [OF ok1(1) in1, where x = "dinode_of ?ip"]
      have ff: "file_upto L ?D2 ?ip" "block_addr ?D2 ?ip = block_addr ?D1 ip1"
        using file_ok_frame [OF ok1(2), of ?D2 "off + n"] pf(3) by blast+
      have m: "unat (isize ?ip) = max (unat (isize ip)) (unat off + length ?xs)" using True lx on by simp
      have ol: "unat off \<le> unat (isize ip)" using assms(7) by (simp add: word_le_nat_alt)
      have same: "?D2 (block_addr ?D1 ip1 k) = ?D1 (block_addr ?D1 ip1 k)" if "block_addr ?D1 ip1 k \<noteq> 0" for k
        using pf(3) that ok1(2) by (auto simp: file_upto_def)
      note co = contents_overwrite [OF 2(3) ol fi(3) m ff(2) same]
      have len: "length (addrs ip1) = 13" using ok1(2) by (simp add: file_upto_def)
      have "length (?D1 (IBLOCK (inum ip))) = 512" using ok1(1) by (simp add: disk_upto_def)
      then have dn: "disk_inode ?D2 (inum ip) = dinode_of ?ip"
        using len by (subst disk_inode_put) (simp_all add: dinode_of_def)
      have inv: "inv_upto L ?D2 ?ip" using pf(1,2) ff(1) co(2) in1 ip1 lim on by (simp add: inv_upto_def file_sizes)
      have frame: "data_upto L ?D2 c \<and> (\<not> owns D ip c \<longrightarrow> ?D2 c = D c \<and> \<not> owns ?D2 ?ip c)" if "data_upto L D c" for c
      proof -
        have "data_upto L ?D1 c" "\<not> owns D ip c \<longrightarrow> ?D1 c = D c \<and> \<not> owns ?D1 ip1 c" using w that by blast+
        moreover have "owns ?D2 ?ip c = owns ?D1 ip1 c" unfolding owns_def ff(2) by simp
        ultimately show ?thesis using pf(3) [of c] by metis
      qed
      have it: "itype ?ip = itype ip" "sb_of ?D2 = sb_of D" using ip1(4) pf(2) w by simp_all
      have oi: "disk_inode ?D2 m = disk_inode D m" if "m \<noteq> inum ip \<and> m < ninodes (sb_of D)" for m
        using that tk [of m] disk_inode_put [of ?D1 "inum ip" "dinode_of ?ip" m] ok1(1) len by (simp add: dinode_of_def disk_upto_def)
      have rs: "rest s2 = rest (s\<lparr>icache := icache s2\<rparr>)" using 3(3) 2(4) ics unfolding ic2 by (simp add: upd_inode_def)
      have ex: "\<exists>as. ?ip = ip\<lparr>addrs := as, isize := isize ?ip\<rparr>" using as by auto
      have "file_byte ?D2 ?ip j = file_byte ?D1 ip1 j" if "block_addr ?D1 ip1 (j div 512) \<noteq> 0" for j
        using same [OF that] by (simp add: file_byte_def ff(2) file_sizes)
      then have by2: "(block_addr D ip (j div 512) \<noteq> 0 \<longrightarrow> file_byte ?D2 ?ip j = file_byte D ip j) \<and>
          (block_addr D ip (j div 512) = 0 \<and> block_addr ?D2 ?ip (j div 512) \<noteq> 0 \<longrightarrow> file_byte ?D2 ?ip j = 0)"
        if "\<not> (unat off \<le> j \<and> j < unat off + unat n)" for j using by1 [OF that] w unfolding ff(2) by metis
      have nt: "\<not> unat off + unat n \<le> unat (isize ip)" using True by simp
      show ?thesis
        by (rule disjI2, rule exI [of _ s2], rule exI [of _ ?ip], unfold 3(4))
          (intro conjI, use run 3(2) ic2 inv co(1) dn frame it oi rs ex by2 nt in \<open>blast+\<close>)
    qed
  qed
qed

text \<open>
  The whole bitmap as the limit. This is the weaker reading, in which a block past the end of the disk that has a bit in the
  bitmap counts as a block: it describes what the code does also when the disk is full and \<^verbatim>\<open>balloc\<close>, which does not check
  \<^verbatim>\<open>sb.size\<close> for single blocks, hands out such a block.
\<close>

abbreviation in_range :: "superblock \<Rightarrow> u32 \<Rightarrow> bool" where "in_range \<equiv> below bitmap_size"
abbreviation disk_ok :: "(u32 \<Rightarrow> u8 list) \<Rightarrow> bool" where "disk_ok \<equiv> disk_upto bitmap_size"
abbreviation data_block :: "(u32 \<Rightarrow> u8 list) \<Rightarrow> u32 \<Rightarrow> bool" where "data_block \<equiv> data_upto bitmap_size"
abbreviation file_ok :: "(u32 \<Rightarrow> u8 list) \<Rightarrow> inode \<Rightarrow> bool" where "file_ok \<equiv> file_upto bitmap_size"
abbreviation file_inv :: "(u32 \<Rightarrow> u8 list) \<Rightarrow> inode \<Rightarrow> bool" where "file_inv \<equiv> inv_upto bitmap_size"
abbreviation space :: "(u32 \<Rightarrow> u8 list) \<Rightarrow> nat" where "space \<equiv> space_upto bitmap_size"

lemma in_range_def: "in_range sb b \<longleftrightarrow> unat b < 4096 * groups sb"
  by (simp add: below_def bitmap_size_def)

lemmas disk_ok_def = disk_upto_def [of bitmap_size]
lemmas data_block_def = data_upto_def [of bitmap_size]
lemmas file_ok_def = file_upto_def [of bitmap_size]
lemmas file_inv_def = inv_upto_def [of bitmap_size]
lemmas space_def = space_upto_def [of bitmap_size]

text \<open>The blocks that exist: those below \<^verbatim>\<open>sb.size\<close>.\<close>

lemma below_size: "below disk_size sb b \<longleftrightarrow> b < sbsize sb"
  by (auto simp: below_def disk_size_def bitmap_size_def groups_def word_less_nat_alt)

text \<open>A file whose blocks are not touched.\<close>

lemma file_frame:
  assumes "inv_upto L D jp" "\<forall>c. owns D jp c \<longrightarrow> \<not> owns D ip c" "disk_upto L D'" "sb_of D' = sb_of D"
    "\<forall>c. data_upto L D c \<longrightarrow> data_upto L D' c \<and> (\<not> owns D ip c \<longrightarrow> D' c = D c \<and> \<not> owns D' ip' c)"
  shows "inv_upto L D' jp \<and> contents D' jp = contents D jp \<and> (\<forall>c. owns D' jp c \<longrightarrow> \<not> owns D' ip' c)"
proof -
  have fi: "file_upto L D jp" "allocated D jp 0 (unat (isize jp))" using assms(1) by (simp_all add: inv_upto_def)
  have same: "data_upto L D c \<and> D' c = D c" if "owns D jp c" for c
  proof -
    have "data_upto L D c" using that fi(1) by (auto simp: owns_def file_upto_def)
    then show ?thesis using assms(2,5) that by blast
  qed
  have ba: "block_addr D' jp = block_addr D jp"
    using same [of "addrs jp ! 12"] by (intro block_addr_cong) (auto simp: owns_def)
  have ow: "owns D' jp c = owns D jp c" for c unfolding owns_def ba ..
  have "file_upto L D' jp" using assms(5) by (intro file_ok_same [OF fi(1) _ refl ba]) blast
  then have "inv_upto L D' jp" using assms(1,3,4) ba by (simp add: inv_upto_def allocated_def)
  moreover have "file_byte D' jp j = file_byte D jp j" if "j < unat (isize jp)" for j
  proof -
    have "owns D jp (block_addr D jp (j div 512))" using fi(2) that by (auto simp: allocated_def owns_def)
    from same [OF this] show ?thesis by (simp add: file_byte_def ba file_sizes)
  qed
  then have "contents D' jp = contents D jp" by (simp add: contents_def)
  moreover have "\<not> owns D' ip' c" if "owns D' jp c" for c using same that assms(2,5) ow by blast
  ultimately show ?thesis by blast
qed

text \<open>
  C3. Reading refines reading a byte string: for a well-formed regular file and an offset within it,
  \<^verbatim>\<open>readi\<close> returns the next \<open>n\<close> bytes of the file's contents, fewer only at the end of the file, the
  number it returns is their number, and neither the disk nor the inode cache changes.
\<close>

theorem readi_refines:
  assumes "quiet s" "file_inv (disk s) (icache s ! i)" "itype (icache s ! i) \<noteq> T_DEV"
    "off \<le> isize (icache s ! i)" "off \<le> off + n"
  shows "\<exists>r bytes s'. readi dv i off n s = Inr (r, bytes, s') \<and>
    bytes = take (unat n) (drop (unat off) (contents (disk s) (icache s ! i))) \<and> unat r = length bytes \<and>
    quiet s' \<and> disk s' = disk s \<and> icache s' = icache s"
proof -
  have "unat (min n (isize (icache s ! i) - off)) =
    length (take (unat n) (drop (unat off) (contents (disk s) (icache s ! i))))"
    using assms(4) by (simp add: min_def word_le_nat_alt unat_sub)
  then show ?thesis using readi_law [OF assms, of dv] by auto
qed

text \<open>
  C2. Writing refines overwriting a byte string. Take a regular file that is well formed on a disk of \<^verbatim>\<open>sb.size\<close> blocks (its
  blocks and those of the file system's tables are below \<^verbatim>\<open>sb.size\<close>, and free blocks below \<^verbatim>\<open>sb.size\<close> are zero), an offset within
  it and a range below the largest file size, and let at least two blocks below \<^verbatim>\<open>sb.size\<close> be free for each block of the
  range. Then \<^verbatim>\<open>writei\<close> writes all \<open>n\<close> bytes: the contents of the file are its old contents overwritten at the offset, growing
  if needed; the file is again well formed on the same disk, so every block it was given is below \<^verbatim>\<open>sb.size\<close>; when the file
  grew, its inode on disk is the one in memory; and no other entry of the inode cache has changed.
\<close>

theorem writei_refines:
  assumes "quiet s" "i < length (icache s)" "inv_upto disk_size (disk s) (icache s ! i)" "itype (icache s ! i) \<noteq> T_DEV"
    "off \<le> isize (icache s ! i)" "unat off + unat n \<le> MAXFILE * BSIZE" "unat n \<le> length src"
    "2 * touched (unat off) (unat n) \<le> card {b. b < sbsize (sb_of (disk s)) \<and> \<not> marked (disk s) b}"
  shows "\<exists>s'. writei dv i src off n s = Inr (n, s') \<and> quiet s' \<and> length (icache s') = length (icache s) \<and>
      (\<forall>j. j \<noteq> i \<longrightarrow> icache s' ! j = icache s ! j) \<and>
      sb_of (disk s') = sb_of (disk s) \<and> inv_upto disk_size (disk s') (icache s' ! i) \<and>
      (\<forall>b. owns (disk s') (icache s' ! i) b \<longrightarrow> b < sbsize (sb_of (disk s)) \<and> (owns (disk s) (icache s ! i) b \<or> \<not> marked (disk s) b)) \<and>
      contents (disk s') (icache s' ! i) = overwrite (unat off) (take (unat n) src) (contents (disk s) (icache s ! i)) \<and>
      (unat (isize (icache s ! i)) < unat off + unat n \<longrightarrow>
        disk_inode (disk s') (inum (icache s ! i)) = dinode_of (icache s' ! i))"
proof -
  let ?D = "disk s" and ?ip = "icache s ! i"
  have "space_upto disk_size ?D = card {b. b < sbsize (sb_of ?D) \<and> \<not> marked ?D b}" by (simp add: space_upto_def below_size)
  then obtain s' ip' where w: "writei dv i src off n s = Inr (n, s')" "quiet s'" "icache s' = (icache s)[i := ip']"
      "inv_upto disk_size (disk s') ip'" "contents (disk s') ip' = overwrite (unat off) (take (unat n) src) (contents ?D ?ip)"
      "unat (isize ?ip) < unat off + unat n \<longrightarrow> disk_inode (disk s') (inum ?ip) = dinode_of ip'" "sb_of (disk s') = sb_of ?D"
      "\<forall>c. data_upto disk_size ?D c \<longrightarrow> data_upto disk_size (disk s') c \<and> (\<not> owns ?D ?ip c \<longrightarrow> disk s' c = ?D c \<and> \<not> owns (disk s') ip' c)"
    using writei_law [OF assms(1) refl refl assms(2-7), of dv] assms(8) by (elim disjE exE conjE) auto
  have own: "data_upto disk_size (disk s') b" if "owns (disk s') ip' b" for b
    using that w(4) by (auto simp: owns_def inv_upto_def file_upto_def)
  have "b < sbsize (sb_of ?D) \<and> (owns ?D ?ip b \<or> \<not> marked ?D b)" if b: "owns (disk s') ip' b" for b
  proof -
    have "below disk_size (sb_of ?D) b" "b \<notin> meta (sb_of ?D)" using own [OF b] w(7) by (simp_all add: data_upto_def)
    moreover from this have "owns ?D ?ip b" if "marked ?D b" using that w(8) b by (auto simp: data_upto_def)
    ultimately show ?thesis by (auto simp: below_size)
  qed
  then show ?thesis using w assms(2) by auto
qed

text \<open>
  C22. Round trip: what a successful \<^verbatim>\<open>writei\<close> stored, \<^verbatim>\<open>readi\<close> at the same offset returns.
\<close>

theorem writei_readi:
  assumes "quiet s" "i < length (icache s)" "file_inv (disk s) (icache s ! i)" "itype (icache s ! i) \<noteq> T_DEV"
    "off \<le> isize (icache s ! i)" "unat off + unat n \<le> MAXFILE * BSIZE" "unat n \<le> length src"
    "2 * touched (unat off) (unat n) \<le> space (disk s)"
  shows "\<exists>s' s''. writei dv i src off n s = Inr (n, s') \<and> readi dv i off n s' = Inr (n, take (unat n) src, s'')"
proof -
  let ?ip = "icache s ! i" and ?c = "contents (disk s) (icache s ! i)"
  obtain s' where w: "writei dv i src off n s = Inr (n, s')" "quiet s'" "file_inv (disk s') (icache s' ! i)"
    "contents (disk s') (icache s' ! i) = overwrite (unat off) (take (unat n) src) ?c" "itype (icache s' ! i) = itype ?ip"
    using writei_law [OF assms(1) refl refl assms(2-7), of dv] assms(2,8) by auto
  let ?jp = "icache s' ! i"
  have o: "unat off \<le> unat (isize ?ip)" using assms(5) by (simp add: word_le_nat_alt)
  have "length (contents (disk s') ?jp) = max (unat (isize ?ip)) (unat off + unat n)"
    using w(4) o assms(7) by (auto simp: overwrite_def)
  then have sz: "unat (isize ?jp) = max (unat (isize ?ip)) (unat off + unat n)" by simp
  have "unat (off + n) = unat off + unat n" using assms(6) by (simp add: unat_word_ariths file_sizes)
  then have le: "off \<le> isize ?jp" "off \<le> off + n" "n \<le> isize ?jp - off"
    using sz by (auto simp: word_le_nat_alt unat_sub)
  have "take (unat n) (drop (unat off) (overwrite (unat off) (take (unat n) src) ?c)) = take (unat n) src"
    using o assms(7) by (simp add: overwrite_def)
  then show ?thesis
    using readi_law [OF w(2,3) _ le(1,2), of dv] w(1,4,5) assms(4) le(3) by (auto simp: min_def)
qed

text \<open>
  C23. Isolation: writing one file leaves the contents of every other well-formed file that shares no
  block with it unchanged, and the two files still share no block.
\<close>

theorem writei_isolated:
  assumes "quiet s" "i < length (icache s)" "file_inv (disk s) (icache s ! i)" "itype (icache s ! i) \<noteq> T_DEV"
    "off \<le> isize (icache s ! i)" "unat off + unat n \<le> MAXFILE * BSIZE" "unat n \<le> length src"
    and other: "file_inv (disk s) jp" "\<forall>c. owns (disk s) jp c \<longrightarrow> \<not> owns (disk s) (icache s ! i) c"
    and run: "writei dv i src off n s = Inr (r, s')"
  shows "file_inv (disk s') jp \<and> contents (disk s') jp = contents (disk s) jp \<and>
    (\<forall>c. owns (disk s') jp c \<longrightarrow> \<not> owns (disk s') (icache s' ! i) c)"
proof -
  obtain ip' where "icache s' = (icache s)[i := ip']" "disk_ok (disk s')" "sb_of (disk s') = sb_of (disk s)"
    "\<forall>c. data_block (disk s) c \<longrightarrow> data_block (disk s') c \<and>
      (\<not> owns (disk s) (icache s ! i) c \<longrightarrow> disk s' c = disk s c \<and> \<not> owns (disk s') ip' c)"
    using writei_law [OF assms(1) refl refl assms(2-7), of dv] run by (auto simp: file_inv_def)
  then show ?thesis using file_frame [OF other, of "disk s'" ip'] assms(2) by simp
qed

section \<open>A small file system with two files\<close>

text \<open>
  A disk of 16 blocks, of which 0 to 6 are in use: block 5 belongs to inode 1 (three bytes), block 6
  to inode 2 (two bytes). No process holds a buffer.
\<close>

definition demo_inode :: "u32 \<Rightarrow> u32 \<Rightarrow> u32 \<Rightarrow> inode" where
  "demo_inode n b z = \<lparr>idev = ROOTDEV, inum = n, iref = 1, iflags = 3, itype = T_FILE, imajor = 0, iminor = 0,
     inlink = 1, isize = z, addrs = b # replicate 12 0\<rparr>"

definition demo_disk :: "u32 \<Rightarrow> u8 list" where
  "demo_disk = (disk (small_fs [127]))(5 := splice 0 [7, 8, 9] (replicate 512 0), 6 := splice 0 [1, 2] (replicate 512 0))"

definition demo_fs :: kfs where
  "demo_fs = (binit (kbio.extend (small_fs [127]) (kfs.fields []) \<lparr>disk := demo_disk\<rparr>))
     \<lparr>icache := [demo_inode 1 5 3, demo_inode 2 6 2]\<rparr>"

lemma demo_quiet: "quiet demo_fs" "disk demo_fs = demo_disk" "icache demo_fs = [demo_inode 1 5 3, demo_inode 2 6 2]"
proof -
  let ?s = "kbio.extend (small_fs [127]) (kfs.fields []) \<lparr>disk := demo_disk\<rparr>"
  have "length (bufs ?s) = NBUF + 1" "\<forall>i<NBUF. bflags (bufs ?s ! i) = 0"
    "\<forall>sec. length (disk ?s sec) = 512" "calm (lk ?s)"
    using zero_kbio_cold by (simp_all add: kbio.extend_def small_fs_def demo_disk_def)
  from binit_law [OF this] show "quiet demo_fs" "disk demo_fs = demo_disk"
    "icache demo_fs = [demo_inode 1 5 3, demo_inode 2 6 2]" by (simp_all add: demo_fs_def quiet_def)
qed

lemma demo_sb: "sb_of demo_disk = \<lparr>sbsize = 16, nblocks = 0, ninodes = 8\<rparr>"
  using small_fs_sb [of "[127]"] by (simp add: demo_disk_def sb_of_def)

lemma demo_bitmap: "demo_disk 4 = disk (small_fs [127]) 4"
  by (simp add: demo_disk_def)

lemma demo_marked: "unat b < 4096 \<Longrightarrow> marked demo_disk b \<longleftrightarrow> unat b < 7"
proof -
  assume b: "unat b < 4096"
  have "BBLOCK b 8 = 4" by (rule unat_inj32) (use b in \<open>simp add: unat_BBLOCK\<close>)
  then have "marked demo_disk b \<longleftrightarrow> marked (disk (small_fs [127])) b"
    by (simp add: marked_def demo_sb small_fs_sb demo_bitmap)
  also have "\<dots> \<longleftrightarrow> unat b div 8 < 1 \<and> bit (127 :: u8) (unat b mod 8)" using b by (auto simp: small_fs_marked)
  also have "\<dots> \<longleftrightarrow> unat b < 7"
  proof -
    have m: "(127 :: u8) = semiring_bit_operations_class.mask 7" by (simp add: mask_eq_exp_minus_1)
    have d: "unat b div 8 < 1 \<longleftrightarrow> unat b < 8" by (simp add: div_eq_0_iff)
    show ?thesis unfolding m bit_mask_iff d by (cases "unat b < 8") simp_all
  qed
  finally show ?thesis .
qed

lemma demo_meta: "meta \<lparr>sbsize = 16, nblocks = 0, ninodes = 8\<rparr> = {0, 1, 2, 4}"
proof -
  have b: "BBLOCK b 8 = 4" if "b < 16" for b
    by (rule unat_inj32) (use that in \<open>simp add: unat_BBLOCK word_less_nat_alt\<close>)
  have i: "IBLOCK n = 2" if "n < 8" for n
    by (rule unat_inj32) (use that in \<open>simp add: IBLOCK_def IPB_def BSIZE_def unat_word_ariths unat_div word_less_nat_alt\<close>)
  have "bitmap_blocks \<lparr>sbsize = 16, nblocks = 0, ninodes = 8\<rparr> = {4}"
    using b [of 0] b unfolding bitmap_blocks_def by (auto intro!: exI [of _ 0])
  moreover have "IBLOCK ` {n. n < 8} = {2}" using i [of 0] i by (auto intro!: image_eqI [of _ _ 0])
  ultimately show ?thesis unfolding meta_def by auto
qed

lemma demo_below:
  assumes "L \<in> {disk_size, bitmap_size}"
  shows "below L (sb_of demo_disk) b \<longleftrightarrow> unat b < (if L = disk_size then 16 else 4096)"
proof -
  have "disk_size \<noteq> bitmap_size"
    using small_fs_groups by (auto simp: fun_eq_iff disk_size_def bitmap_size_def intro!: exI [of _ "\<lparr>sbsize = 16, nblocks = 0, ninodes = 8\<rparr>"])
  then show ?thesis using assms small_fs_groups by (auto simp: below_def disk_size_def bitmap_size_def demo_sb)
qed

lemma demo_ok:
  assumes "L \<in> {disk_size, bitmap_size}"
  shows "disk_upto L demo_disk"
proof -
  have z: "demo_disk b = replicate 512 0" if "\<not> unat b < 7" for b
  proof -
    have "b \<noteq> 1" "b \<noteq> 4" "b \<noteq> 5" "b \<noteq> 6" using that by auto
    then show ?thesis by (simp add: demo_disk_def small_fs_def)
  qed
  have "\<forall>sec. length (demo_disk sec) = 512" by (simp add: demo_disk_def small_fs_def)
  moreover have "groups (sb_of demo_disk) < 2 ^ 20" by (simp add: demo_sb small_fs_groups)
  moreover have "meta (sb_of demo_disk) = {0, 1, 2, 4}" by (simp add: demo_sb demo_meta)
  ultimately show ?thesis using z unfolding disk_upto_def demo_below [OF assms] by (auto simp: demo_marked)
qed

lemma demo_block_addr: "block_addr D (demo_inode n b z) k = (if k = 0 then b else 0)"
  by (simp add: block_addr_def demo_inode_def file_sizes nth_Cons')

lemma demo_file:
  assumes "b \<in> {5, 6}" "unat z < 512" "n < 8"
  shows "L \<in> {disk_size, bitmap_size} \<Longrightarrow> inv_upto L demo_disk (demo_inode n b z)" "owns demo_disk (demo_inode n b z) c \<longleftrightarrow> c = b"
proof -
  have b: "b \<noteq> 0" using assms(1) by auto
  have ip: "addrs (demo_inode n b z) ! 12 = 0" "length (addrs (demo_inode n b z)) = 13"
    "isize (demo_inode n b z) = z" "idev (demo_inode n b z) = ROOTDEV" "inum (demo_inode n b z) = n"
    by (simp_all add: demo_inode_def)
  show "owns demo_disk (demo_inode n b z) c \<longleftrightarrow> c = b" using b ip(1) by (auto simp: owns_def demo_block_addr)
  assume L: "L \<in> {disk_size, bitmap_size}"
  have "data_upto L demo_disk b"
    using assms(1) unfolding data_upto_def demo_below [OF L] by (auto simp: demo_sb demo_meta demo_marked)
  then have "file_upto L demo_disk (demo_inode n b z)" using b ip by (auto simp: file_upto_def demo_block_addr split: if_splits)
  then show "inv_upto L demo_disk (demo_inode n b z)"
    using demo_ok [OF L] ip assms(2,3) b by (auto simp: inv_upto_def allocated_def demo_block_addr file_sizes demo_sb)
qed

lemma demo_type: "itype (demo_inode n b z) \<noteq> T_DEV" "isize (demo_inode n b z) = z"
  by (simp_all add: demo_inode_def T_FILE_def T_DEV_def)

lemma demo_contents: "contents demo_disk (demo_inode 1 5 3) = [7, 8, 9]" "contents demo_disk (demo_inode 2 6 2) = [1, 2]"
  unfolding contents_def file_byte_def demo_block_addr demo_type by (simp_all add: demo_disk_def upt_rec file_sizes splice_def)

lemma demo_space: "2 \<le> space demo_disk" "2 \<le> card {b. b < sbsize (sb_of demo_disk) \<and> \<not> marked demo_disk b}"
proof -
  have "{8, 9} \<subseteq> {b. in_range (sb_of demo_disk) b \<and> \<not> marked demo_disk b}"
    by (simp add: demo_sb in_range_def small_fs_groups demo_marked)
  from card_mono [OF _ this] show "2 \<le> space demo_disk" by (simp add: space_def)
  have "{8, 9} \<subseteq> {b. b < sbsize (sb_of demo_disk) \<and> \<not> marked demo_disk b}" by (simp add: demo_sb demo_marked)
  from card_mono [OF _ this] show "2 \<le> card {b. b < sbsize (sb_of demo_disk) \<and> \<not> marked demo_disk b}" by simp
qed

lemmas demo = demo_quiet demo_file demo_contents demo_space demo_type file_sizes touched_def overwrite_def

theorem readi_refines_witness:
  "\<exists>s'. readi (\<lambda>_. \<lparr>dread = None, dwrite = None\<rparr>) 0 1 100 demo_fs = Inr (2, [8, 9], s')"
proof -
  obtain r s' where "readi (\<lambda>_. \<lparr>dread = None, dwrite = None\<rparr>) 0 1 100 demo_fs = Inr (r, [8, 9], s')" "unat r = 2"
    using readi_refines [of demo_fs 0 1 100 "\<lambda>_. \<lparr>dread = None, dwrite = None\<rparr>"] by (auto simp: demo)
  moreover from this(2) have "r = 2" by (intro unat_inj32) simp
  ultimately show ?thesis by blast
qed

theorem writei_refines_witness:
  "\<exists>s'. writei (\<lambda>_. \<lparr>dread = None, dwrite = None\<rparr>) 0 [10, 11] 2 2 demo_fs = Inr (2, s') \<and>
     contents (disk s') (icache s' ! 0) = [7, 8, 10, 11]"
  using writei_refines [of demo_fs 0 2 2 "[10, 11]" "\<lambda>_. \<lparr>dread = None, dwrite = None\<rparr>"] by (auto simp: demo)

theorem writei_readi_witness:
  "\<exists>s' s''. writei (\<lambda>_. \<lparr>dread = None, dwrite = None\<rparr>) 0 [10, 11] 2 2 demo_fs = Inr (2, s') \<and>
     readi (\<lambda>_. \<lparr>dread = None, dwrite = None\<rparr>) 0 2 2 s' = Inr (2, [10, 11], s'')"
  using writei_readi [of demo_fs 0 2 2 "[10, 11]" "\<lambda>_. \<lparr>dread = None, dwrite = None\<rparr>"] by (simp add: demo)

theorem writei_isolated_witness:
  "\<exists>s'. writei (\<lambda>_. \<lparr>dread = None, dwrite = None\<rparr>) 0 [10, 11] 2 2 demo_fs = Inr (2, s') \<and>
     contents (disk s') (demo_inode 2 6 2) = [1, 2]"
proof -
  have p: "quiet demo_fs" "0 < length (icache demo_fs)" "file_inv (disk demo_fs) (icache demo_fs ! 0)"
    "itype (icache demo_fs ! 0) \<noteq> T_DEV" "2 \<le> isize (icache demo_fs ! 0)"
    "unat (2 :: u32) + unat (2 :: u32) \<le> MAXFILE * BSIZE" "unat (2 :: u32) \<le> length [10 :: u8, 11]"
    by (simp_all add: demo)
  obtain s' where "writei (\<lambda>_. \<lparr>dread = None, dwrite = None\<rparr>) 0 [10, 11] 2 2 demo_fs = Inr (2, s')"
    using writei_law [OF p(1) refl refl p(2-7), of "\<lambda>_. \<lparr>dread = None, dwrite = None\<rparr>"] demo_space by (auto simp: demo)
  with writei_isolated [OF p _ _ this, of "demo_inode 2 6 2"] show ?thesis by (auto simp: demo)
qed

text \<open>
  C24. The inode layout round trip: after \<^verbatim>\<open>iupdate\<close> of one cache entry, \<^verbatim>\<open>ilock\<close> of an entry for the
  same inode that is not yet loaded reads back exactly the type, device numbers, link count, size and
  block addresses that were written, leaves the entry busy and valid, and no other inode on the disk
  has changed.
\<close>

theorem iupdate_ilock:
  assumes "quiet s" "idev (icache s ! i) = ROOTDEV" "length (addrs (icache s ! i)) = 13" "itype (icache s ! i) \<noteq> 0"
    "j < length (icache s)" "idev (icache s ! j) = ROOTDEV" "inum (icache s ! j) = inum (icache s ! i)"
    "1 \<le> iref (icache s ! j)" "iflags (icache s ! j) = 0"
  shows "\<exists>s1 s2. iupdate i s = Inr s1 \<and> ilock (Some j) s1 = Inr s2 \<and>
    dinode_of (icache s2 ! j) = dinode_of (icache s ! i) \<and> iflags (icache s2 ! j) = I_BUSY OR I_VALID \<and>
    (\<forall>m. m \<noteq> inum (icache s ! i) \<longrightarrow> disk_inode (disk s2) m = disk_inode (disk s) m)"
proof -
  let ?ip = "icache s ! i"
  obtain s1 where 1: "iupdate i s = Inr s1" "quiet s1" "rest s1 = rest s" "disk s1 = put_inode (inum ?ip) (dinode_of ?ip) (disk s)"
    using iupdate_quiet [OF assms(1,2)] by blast
  have ic1: "icache s1 = icache s" using 1(3) by (rule rest_icache)
  have len: "length (disk s (IBLOCK (inum ?ip))) = 512" using can_length [OF quiet_can [OF assms(1)]] by simp
  have dn: "disk_inode (disk s1) m = (if m = inum ?ip then dinode_of ?ip else disk_inode (disk s) m)" for m
    unfolding 1(4) using len assms(3) by (intro disk_inode_put) (simp_all add: dinode_of_def)
  have "dtype (disk_inode (disk s1) (inum (icache s1 ! j))) \<noteq> 0"
    using dn assms(4,7) ic1 by (simp add: dinode_of_def)
  from ilock_run [OF quiet_can [OF 1(2)] UNIV_I _ _ _ _ _ this] assms(5-9) ic1
  obtain s2 where "ilock (Some j) s1 = Inr s2" "disk s2 = disk s1"
    "icache s2 ! j = (load_dinode (dinode_of ?ip) (icache s ! j))\<lparr>iflags := (0 OR I_BUSY) OR I_VALID\<rparr>"
    by (auto simp: dn)
  then show ?thesis using 1(1) dn by (auto simp: load_dinode_def dinode_of_def)
qed

theorem iupdate_ilock_witness:
  "\<exists>s1 s2. iupdate 0 (demo_fs\<lparr>icache := [demo_inode 1 5 3, (demo_inode 1 0 0)\<lparr>iflags := 0\<rparr>]\<rparr>) = Inr s1 \<and>
     ilock (Some 1) s1 = Inr s2 \<and> dinode_of (icache s2 ! 1) = dinode_of (demo_inode 1 5 3)"
  using iupdate_ilock [of "demo_fs\<lparr>icache := [demo_inode 1 5 3, (demo_inode 1 0 0)\<lparr>iflags := 0\<rparr>]\<rparr>" 0 1] demo_quiet(1)
  by (auto simp: quiet_def demo_inode_def T_FILE_def)

end
