(* ===== verification/Fs_Icache.thy ===== *)
theory Fs_Icache
  imports Fs_Write
begin

text \<open>
  The inode cache as its callers see it: how many references the kernel holds to each inode of the disk, and
  which entries are locked. \<^verbatim>\<open>iget\<close>, \<^verbatim>\<open>idup\<close> and \<^verbatim>\<open>iput\<close> count references, \<^verbatim>\<open>ilock\<close> and \<^verbatim>\<open>iunlock\<close> lock an
  entry and bring its copy of the inode up to date. \<open>L\<close> is the set of the locked entries.
\<close>

section \<open>Abstraction\<close>

text \<open>The inode \<open>n\<close> as \<^verbatim>\<open>ilock\<close> loads it from the disk.\<close>

definition inode_at :: "(u32 \<Rightarrow> u8 list) \<Rightarrow> u32 \<Rightarrow> inode" where
  "inode_at D n = load_dinode (disk_inode D n)
     \<lparr>idev = ROOTDEV, inum = n, iref = 1, iflags = I_BUSY OR I_VALID, itype = 0, imajor = 0, iminor = 0, inlink = 0, isize = 0, addrs = []\<rparr>"

lemma inode_at_fields [simp]:
  "idev (inode_at D n) = ROOTDEV" "inum (inode_at D n) = n" "itype (inode_at D n) = dtype (disk_inode D n)"
  "isize (inode_at D n) = dsize (disk_inode D n)" "addrs (inode_at D n) = daddrs (disk_inode D n)"
  by (simp_all add: inode_at_def load_dinode_def)

lemma same_file:
  assumes "addrs ip' = addrs ip" "isize ip' = isize ip" "idev ip' = idev ip" "inum ip' = inum ip"
  shows "file_inv D ip' = file_inv D ip" "contents D ip' = contents D ip"
proof -
  have b: "block_addr D ip' = block_addr D ip" using assms(1) by (intro block_addr_cong) auto
  then show "contents D ip' = contents D ip" using assms(2) by (simp add: contents_def file_byte_def)
  show "file_inv D ip' = file_inv D ip" using assms b by (simp add: file_inv_def file_ok_def allocated_def)
qed

text \<open>The blocks of a file of \<open>L\<close> bytes.\<close>

definition nb :: "nat \<Rightarrow> nat" where "nb L = (L + 511) div 512"

definition entry_ok :: "(u32 \<Rightarrow> u8 list) \<Rightarrow> bool \<Rightarrow> inode \<Rightarrow> bool" where
  "entry_ok D busy_now ip \<longleftrightarrow> 0 \<le> iref ip \<and> (0 < iref ip \<longrightarrow> idev ip = ROOTDEV \<and> (bit (iflags ip) 0 \<longleftrightarrow> busy_now) \<and>
     (bit (iflags ip) 1 \<longrightarrow> dinode_of ip = disk_inode D (inum ip)))"

definition icache_ok :: "(u32 \<Rightarrow> u8 list) \<Rightarrow> nat set \<Rightarrow> inode list \<Rightarrow> bool" where
  "icache_ok D L ic \<longleftrightarrow> (\<forall>i<length ic. entry_ok D (i \<in> L) (ic ! i)) \<and>
     (\<forall>i<length ic. \<forall>j<length ic. 0 < iref (ic ! i) \<and> 0 < iref (ic ! j) \<and> inum (ic ! i) = inum (ic ! j) \<longrightarrow> i = j)"

definition refs :: "inode list \<Rightarrow> u32 \<Rightarrow> int" where
  "refs ic n = (\<Sum>i<length ic. if inum (ic ! i) = n then iref (ic ! i) else 0)"

lemma icache_ok_entry: "icache_ok D L ic \<Longrightarrow> i < length ic \<Longrightarrow> entry_ok D (i \<in> L) (ic ! i)"
  unfolding icache_ok_def by blast

lemma icache_ok_unique:
  "\<lbrakk>icache_ok D L ic; i < length ic; j < length ic; 0 < iref (ic ! i); 0 < iref (ic ! j); inum (ic ! i) = inum (ic ! j)\<rbrakk> \<Longrightarrow> i = j"
  unfolding icache_ok_def by blast

lemma refs_upd:
  assumes "i < length ic"
  shows "refs (ic[i := x]) n = refs ic n - (if inum (ic ! i) = n then iref (ic ! i) else 0) + (if inum x = n then iref x else 0)"
proof -
  let ?f = "\<lambda>ic j. if inum (ic ! j) = n then iref (ic ! j) else (0 :: int)"
  have s: "(\<Sum>j<length ic. ?f xs j) = ?f xs i + (\<Sum>j\<in>{..<length ic} - {i}. ?f xs j)" for xs
    using assms by (intro sum.remove) auto
  have "(\<Sum>j\<in>{..<length ic} - {i}. ?f (ic[i := x]) j) = (\<Sum>j\<in>{..<length ic} - {i}. ?f ic j)" by (intro sum.cong) auto
  then show ?thesis using s [of ic] s [of "ic[i := x]"] assms by (simp add: refs_def)
qed

lemma refs_entry:
  assumes "icache_ok D L ic" "i < length ic" "0 < iref (ic ! i)"
  shows "refs ic (inum (ic ! i)) = iref (ic ! i)"
proof -
  have "(if inum (ic ! j) = inum (ic ! i) then iref (ic ! j) else 0) = (if j = i then iref (ic ! i) else 0)" if "j < length ic" for j
    using icache_ok_unique [OF assms(1) that assms(2) _ assms(3)] icache_ok_entry [OF assms(1) that] by (force simp: entry_ok_def)
  then have "refs ic (inum (ic ! i)) = (\<Sum>j<length ic. if j = i then iref (ic ! i) else 0)" unfolding refs_def by (intro sum.cong) auto
  then show ?thesis using assms(2) by simp
qed

lemma refs_absent: "(\<And>i. i < length ic \<Longrightarrow> inum (ic ! i) = n \<Longrightarrow> iref (ic ! i) = 0) \<Longrightarrow> refs ic n = 0"
  unfolding refs_def by (intro sum.neutral) auto

lemma refs_cached:
  assumes "icache_ok D L ic"
  shows "0 < refs ic n \<longleftrightarrow> (\<exists>i<length ic. 0 < iref (ic ! i) \<and> inum (ic ! i) = n)"
proof
  assume "0 < refs ic n"
  then have "\<exists>i<length ic. inum (ic ! i) = n \<and> iref (ic ! i) \<noteq> 0" using refs_absent [of ic n] by auto
  then show "\<exists>i<length ic. 0 < iref (ic ! i) \<and> inum (ic ! i) = n" using icache_ok_entry [OF assms] by (force simp: entry_ok_def)
qed (use refs_entry [OF assms] in auto)

lemma refs_nonneg: "icache_ok D L ic \<Longrightarrow> 0 \<le> refs ic n"
  unfolding refs_def by (intro sum_nonneg) (auto dest: icache_ok_entry simp: entry_ok_def)

text \<open>The inodes with references, one entry for each.\<close>

definition cached :: "(u32 \<Rightarrow> int) \<Rightarrow> u32 set" where
  "cached r = {n. 0 < r n}"

lemma free_entry:
  assumes "icache_ok D L ic" "card (cached (refs ic)) < length ic"
  shows "\<exists>i<length ic. iref (ic ! i) = 0"
proof (rule ccontr)
  assume n: "\<not> (\<exists>i<length ic. iref (ic ! i) = 0)"
  have p: "0 < iref (ic ! i)" if "i < length ic" for i using n that icache_ok_entry [OF assms(1) that] by (force simp: entry_ok_def)
  then have "inj_on (\<lambda>i. inum (ic ! i)) {..<length ic}" using icache_ok_unique [OF assms(1)] by (intro inj_onI) auto
  from card_image [OF this] have "card ((\<lambda>i. inum (ic ! i)) ` {..<length ic}) = length ic" by simp
  moreover have "(\<lambda>i. inum (ic ! i)) ` {..<length ic} = cached (refs ic)" using refs_cached [OF assms(1)] p by (auto simp: cached_def)
  ultimately show False using assms(2) by simp
qed

lemma icache_ok_upd:
  assumes "icache_ok D L ic" "i < length ic" "entry_ok D (i \<in> L') x" "\<forall>j. j \<noteq> i \<longrightarrow> (j \<in> L' \<longleftrightarrow> j \<in> L)"
    "0 < iref x \<Longrightarrow> inum x = inum (ic ! i) \<and> 0 < iref (ic ! i) \<or> refs ic (inum x) = 0"
  shows "icache_ok D L' (ic[i := x])"
proof -
  have u: "j = i" if "j < length ic" "0 < iref x" "0 < iref (ic ! j)" "inum x = inum (ic ! j)" for j
  proof -
    have "refs ic (inum x) \<noteq> 0" using refs_entry [OF assms(1) that(1,3)] that(3,4) by simp
    then show ?thesis using assms(5) [OF that(2)] icache_ok_unique [OF assms(1) that(1) assms(2) that(3)] that(4) by simp
  qed
  have "j = k" if "j < length ic" "k < length ic" "0 < iref (ic[i := x] ! j)" "0 < iref (ic[i := x] ! k)"
    "inum (ic[i := x] ! j) = inum (ic[i := x] ! k)" for j k
    using that u [of j] u [of k] icache_ok_unique [OF assms(1), of j k] assms(2) by (auto simp: nth_list_update split: if_splits)
  moreover have "entry_ok D (j \<in> L') (ic[i := x] ! j)" if "j < length ic" for j
    using that assms(3,4) icache_ok_entry [OF assms(1) that] by (cases "j = i") auto
  ultimately show ?thesis unfolding icache_ok_def by auto
qed

text \<open>
  What a client keeps: the lock state and every process, except that some sleeping processes may have been woken.
\<close>

definition woken :: "proc list \<Rightarrow> proc list \<Rightarrow> bool" where
  "woken ps qs \<longleftrightarrow> list_all2 (\<lambda>p q. q = p \<or> state p = SLEEPING \<and> q = p\<lparr>state := RUNNABLE\<rparr>) ps qs"

definition frame :: "'a kfs_scheme \<Rightarrow> 'a kfs_scheme \<Rightarrow> bool" where
  "frame s s' \<longleftrightarrow> rest s' = (rest s)\<lparr>icache := icache s', ptable := ptable s'\<rparr> \<and> woken (ptable s) (ptable s')"

lemma woken_refl [simp]: "woken ps ps"
  by (simp add: woken_def list_all2_refl)

lemma woken_trans: "woken ps qs \<Longrightarrow> woken qs rs \<Longrightarrow> woken ps rs"
  unfolding woken_def by (rule list_all2_trans) auto

lemma woken_wakeup1: "woken (ptable s) (ptable (wakeup1 c s))"
  by (auto simp: woken_def wakeup1_def list_all2_conv_all_nth)

lemma frame_trans:
  assumes "frame s s'" "frame s' s''"
  shows "frame s s''"
proof -
  have "rest s'' = (rest s')\<lparr>icache := icache s'', ptable := ptable s''\<rparr>" using assms(2) by (simp add: frame_def)
  also have "\<dots> = (rest s)\<lparr>icache := icache s'', ptable := ptable s''\<rparr>" using assms(1) by (simp add: frame_def)
  finally show ?thesis using assms woken_trans unfolding frame_def by blast
qed

lemma frame_rest: "rest s' = rest (s\<lparr>icache := icache s'\<rparr>) \<Longrightarrow> frame s s'"
proof -
  assume a: "rest s' = rest (s\<lparr>icache := icache s'\<rparr>)"
  have r: "ptable (rest t) = ptable t" for t :: "'a kfs_scheme" by (simp add: rest_def)
  have "ptable s' = ptable s" using a r [of s'] r [of s] by simp
  then show ?thesis using a by (simp add: frame_def rest_def)
qed

lemma frame_fields: "frame s s' \<Longrightarrow> curproc s' = curproc s" "frame s s' \<Longrightarrow> lk s' = lk s"
proof -
  have r: "curproc (rest t) = curproc t" "lk (rest t) = lk t" for t :: "'a kfs_scheme" by (simp_all add: rest_def)
  assume "frame s s'"
  then have "rest s' = (rest s)\<lparr>icache := icache s', ptable := ptable s'\<rparr>" by (simp add: frame_def)
  then show "curproc s' = curproc s" "lk s' = lk s" using r [of s] r [of s'] by simp_all
qed

lemma frame_icache: "frame s (s\<lparr>icache := ic\<rparr>)"
  by (simp add: frame_rest)

lemma frame_effect: "effect D s s' \<Longrightarrow> frame s s'"
  using rest_icache [of s' s] by (intro frame_rest) (simp add: effect_def)

lemma quiet_icache [simp]: "quiet (s\<lparr>icache := ic\<rparr>) = quiet s" "quiet (s\<lparr>ptable := pt\<rparr>) = quiet s"
  by (simp_all add: quiet_def bio_inv_def inuse_def fun_eq_iff)

lemma quiet_calm: "quiet s \<Longrightarrow> calm (lk s)"
  by (simp add: quiet_def bio_inv_def)

section \<open>Counting references\<close>

text \<open>
  The state after an operation on the cache: nothing but the cache has changed (and sleepers, which may have been
  woken), the references are \<open>r\<close>, the locked entries \<open>L\<close>.
\<close>

definition cache_at :: "'a kfs_scheme \<Rightarrow> nat set \<Rightarrow> (u32 \<Rightarrow> int) \<Rightarrow> 'a kfs_scheme \<Rightarrow> bool" where
  "cache_at s L r s' \<longleftrightarrow> quiet s' \<and> disk s' = disk s \<and> frame s s' \<and> icache_ok (disk s) L (icache s') \<and>
     refs (icache s') = r \<and> length (icache s') = length (icache s)"

lemma cache_at_trans: "cache_at s L r s' \<Longrightarrow> cache_at s' L' r' s'' \<Longrightarrow> cache_at s L' r' s''"
  using frame_trans unfolding cache_at_def by metis

lemma cache_at_icache:
  "quiet s \<Longrightarrow> icache_ok (disk s) L ic \<Longrightarrow> refs ic = r \<Longrightarrow> length ic = length (icache s) \<Longrightarrow> cache_at s L r (s\<lparr>icache := ic\<rparr>)"
  by (simp add: cache_at_def frame_icache)

text \<open>The entry of inode \<open>n\<close>.\<close>

definition entry_of :: "u32 \<Rightarrow> nat \<Rightarrow> inode list \<Rightarrow> bool" where
  "entry_of n j ic \<longleftrightarrow> j < length ic \<and> 0 < iref (ic ! j) \<and> inum (ic ! j) = n"

text \<open>Referenced entries stay the entries of their inodes; only their counts change.\<close>

definition kept :: "inode list \<Rightarrow> inode list \<Rightarrow> bool" where
  "kept ic ic' \<longleftrightarrow> (\<forall>k<length ic. 0 < iref (ic ! k) \<longrightarrow> 0 < iref (ic' ! k) \<and> ic' ! k = (ic ! k)\<lparr>iref := iref (ic' ! k)\<rparr>)"

lemma iget_law:
  assumes q: "quiet s" and ok: "icache_ok (disk s) L (icache s)" "\<forall>i\<in>L. i < length (icache s) \<and> 0 < iref (icache s ! i)"
    and room: "0 < refs (icache s) n \<or> card (cached (refs (icache s))) < length (icache s)"
  shows "\<exists>j s'. iget ROOTDEV n s = Inr (j, s') \<and> cache_at s L ((refs (icache s))(n := refs (icache s) n + 1)) s' \<and>
    entry_of n j (icache s') \<and> kept (icache s) (icache s')"
proof -
  let ?ic = "icache s" and ?P = "\<lambda>ip. iref ip > 0 \<and> idev ip = ROOTDEV \<and> inum ip = n"
  note c = quiet_calm [OF q]
  show ?thesis
  proof (cases "find_index ?P ?ic")
    case (Some i)
    let ?x = "(?ic ! i)\<lparr>iref := iref (?ic ! i) + 1\<rparr>"
    have i: "i < length ?ic" "0 < iref (?ic ! i)" "inum (?ic ! i) = n" using find_index_SomeD [OF Some] by auto
    have run: "iget ROOTDEV n s = Inr (i, s\<lparr>icache := ?ic[i := ?x]\<rparr>)" using Some c by (simp add: iget_def upd_inode_def run)
    have "icache_ok (disk s) L (?ic[i := ?x])"
      by (rule icache_ok_upd [OF ok(1) i(1)]) (use icache_ok_entry [OF ok(1) i(1)] i in \<open>auto simp: entry_ok_def dinode_of_def\<close>)
    moreover have "refs (?ic[i := ?x]) = (refs ?ic)(n := refs ?ic n + 1)" using i by (auto simp: fun_eq_iff refs_upd)
    ultimately show ?thesis using run i q by (auto simp: cache_at_icache entry_of_def kept_def nth_list_update intro!: exI)
  next
    case None
    have abs: "\<not> 0 < refs ?ic n" using None icache_ok_entry [OF ok(1)] by (auto simp: refs_cached [OF ok(1)] find_index_None entry_ok_def all_set_conv_all_nth)
    then have z: "refs ?ic n = 0" using refs_nonneg [OF ok(1), of n] by simp
    obtain k where k: "k < length ?ic" "iref (?ic ! k) = 0" using free_entry [OF ok(1)] room abs by blast
    then obtain i where f: "find_index (\<lambda>ip. iref ip = 0) ?ic = Some i" using find_index_NoneD [of "\<lambda>ip. iref ip = 0" ?ic k] by (cases "find_index (\<lambda>ip. iref ip = 0) ?ic") auto
    have i: "i < length ?ic" "iref (?ic ! i) = 0" using find_index_SomeD [OF f] by auto
    let ?x = "(?ic ! i)\<lparr>idev := ROOTDEV, inum := n, iref := 1, iflags := 0\<rparr>"
    have run: "iget ROOTDEV n s = Inr (i, s\<lparr>icache := ?ic[i := ?x]\<rparr>)" using None f c by (simp add: iget_def upd_inode_def run)
    have "i \<notin> L" using ok(2) i by auto
    then have "icache_ok (disk s) L (?ic[i := ?x])"
      by (intro icache_ok_upd [OF ok(1) i(1)]) (use z in \<open>auto simp: entry_ok_def\<close>)
    moreover have "refs (?ic[i := ?x]) = (refs ?ic)(n := refs ?ic n + 1)" using i by (auto simp: fun_eq_iff refs_upd)
    ultimately show ?thesis using run i q by (auto simp: cache_at_icache entry_of_def kept_def nth_list_update intro!: exI)
  qed
qed

lemma idup_law:
  assumes "quiet s" "icache_ok (disk s) L (icache s)" "entry_of n i (icache s)"
  shows "\<exists>s'. idup i s = Inr (i, s') \<and> cache_at s L ((refs (icache s))(n := refs (icache s) n + 1)) s' \<and>
    entry_of n i (icache s') \<and> kept (icache s) (icache s')"
proof -
  let ?ic = "icache s" and ?x = "(icache s ! i)\<lparr>iref := iref (icache s ! i) + 1\<rparr>"
  have i: "i < length ?ic" "0 < iref (?ic ! i)" "inum (?ic ! i) = n" using assms(3) by (auto simp: entry_of_def)
  have "icache_ok (disk s) L (?ic[i := ?x])"
    by (rule icache_ok_upd [OF assms(2) i(1)]) (use icache_ok_entry [OF assms(2) i(1)] i in \<open>auto simp: entry_ok_def dinode_of_def\<close>)
  moreover have "refs (?ic[i := ?x]) = (refs ?ic)(n := refs ?ic n + 1)" using i by (auto simp: fun_eq_iff refs_upd)
  moreover have "idup i s = Inr (i, s\<lparr>icache := ?ic[i := ?x]\<rparr>)" using quiet_calm [OF assms(1)] by (simp add: idup_def upd_inode_def run)
  ultimately show ?thesis using i assms(1) by (auto simp: cache_at_icache entry_of_def kept_def nth_list_update)
qed

text \<open>\<^verbatim>\<open>iput\<close> of a reference that is not the last one to an inode without links.\<close>

lemma iput_law:
  assumes "quiet s" "icache_ok (disk s) L (icache s)" "entry_of n i (icache s)"
    "dnlink (disk_inode (disk s) n) \<noteq> 0 \<or> 1 < refs (icache s) n"
  shows "\<exists>s'. iput i s = Inr s' \<and> cache_at s L ((refs (icache s))(n := refs (icache s) n - 1)) s'
    \<and> (\<forall>k. k \<noteq> i \<longrightarrow> icache s' ! k = icache s ! k)"
proof -
  let ?ic = "icache s" and ?x = "(icache s ! i)\<lparr>iref := iref (icache s ! i) - 1\<rparr>"
  have i: "i < length ?ic" "0 < iref (?ic ! i)" "inum (?ic ! i) = n" using assms(3) by (auto simp: entry_of_def)
  note e = icache_ok_entry [OF assms(2) i(1)]
  have "dnlink (dinode_of (?ic ! i)) = inlink (?ic ! i)" by (simp add: dinode_of_def)
  then have "\<not> (iref (?ic ! i) = 1 \<and> bit (iflags (?ic ! i)) 1 \<and> inlink (?ic ! i) = 0)"
    using assms(4) e i refs_entry [OF assms(2) i(1,2)] by (auto simp: entry_ok_def)
  then have "iput i s = Inr (s\<lparr>icache := ?ic[i := ?x]\<rparr>)" using quiet_calm [OF assms(1)] by (auto simp: iput_def upd_inode_def Let_def run)
  moreover have "icache_ok (disk s) L (?ic[i := ?x])"
    by (rule icache_ok_upd [OF assms(2) i(1)]) (use e i in \<open>auto simp: entry_ok_def dinode_of_def\<close>)
  moreover have "refs (?ic[i := ?x]) = (refs ?ic)(n := refs ?ic n - 1)" using i by (auto simp: fun_eq_iff refs_upd)
  ultimately show ?thesis using assms(1) by (auto simp: cache_at_icache)
qed

section \<open>Locking\<close>

lemma ilock_law:
  assumes q: "quiet s" and ok: "icache_ok (disk s) L (icache s)" and e: "entry_of n i (icache s)" "i \<notin> L"
    and ty: "dtype (disk_inode (disk s) n) \<noteq> 0"
  shows "\<exists>s'. ilock (Some i) s = Inr s' \<and> cache_at s (insert i L) (refs (icache s)) s' \<and> entry_of n i (icache s') \<and>
    dinode_of (icache s' ! i) = disk_inode (disk s) n \<and> bit (iflags (icache s' ! i)) 0 \<and> (\<forall>k. k \<noteq> i \<longrightarrow> icache s' ! k = icache s ! k)"
proof -
  let ?ic = "icache s" and ?ip = "icache s ! i"
  have i: "i < length ?ic" "0 < iref ?ip" "inum ?ip = n" using e(1) by (auto simp: entry_of_def)
  note eo = icache_ok_entry [OF ok i(1)]
  have fl: "\<not> bit (iflags ?ip) 0" "idev ?ip = ROOTDEV" using eo i(2) e(2) by (auto simp: entry_ok_def)
  define x where "x = (if bit (iflags ?ip) 1 then ?ip\<lparr>iflags := iflags ?ip OR I_BUSY\<rparr>
    else (load_dinode (disk_inode (disk s) n) ?ip)\<lparr>iflags := (iflags ?ip OR I_BUSY) OR I_VALID\<rparr>)"
  have dx: "dinode_of x = disk_inode (disk s) n" using eo i(2,3) by (auto simp: x_def entry_ok_def dinode_of_def load_dinode_def)
  have fx: "inum x = n" "iref x = iref ?ip" "idev x = ROOTDEV" "bit (iflags x) 0" using i(3) fl(2) by (auto simp: x_def load_dinode_def)
  have "\<exists>s'. ilock (Some i) s = Inr s' \<and> quiet s' \<and> disk s' = disk s \<and> icache s' = ?ic[i := x] \<and> frame s s'"
  proof (cases "bit (iflags ?ip) 1")
    case True
    have "dtype (dinode_of ?ip) = itype ?ip" by (simp add: dinode_of_def)
    then have "ilock (Some i) s = Inr (s\<lparr>icache := ?ic[i := x]\<rparr>)"
      using True i fl quiet_calm [OF q] by (simp add: ilock_def upd_inode_def run x_def)
    then show ?thesis using q frame_icache by fastforce
  next
    case False
    obtain s' where "ilock (Some i) s = Inr s'" "disk s' = disk s" "bio_inv s'" "inuse s' = inuse s" "icache s' = ?ic[i := x]"
      "rest s' = rest (s\<lparr>icache := icache s'\<rparr>)"
      using ilock_run [OF quiet_can [OF q] UNIV_I fl(2) i(1) _ fl(1) False] i ty False by (auto simp: x_def)
    then show ?thesis using q frame_rest [of s' s] by (auto simp: quiet_def)
  qed
  then obtain s' where s': "ilock (Some i) s = Inr s'" "quiet s'" "disk s' = disk s" "icache s' = ?ic[i := x]" "frame s s'" by blast
  have "icache_ok (disk s) (insert i L) (?ic[i := x])"
    by (rule icache_ok_upd [OF ok i(1)]) (use dx fx i in \<open>auto simp: entry_ok_def\<close>)
  moreover have "refs (?ic[i := x]) = refs ?ic" using i fx by (auto simp: fun_eq_iff refs_upd)
  ultimately show ?thesis using s' dx fx i by (auto simp: cache_at_def entry_of_def)
qed

lemma iunlock_law:
  assumes q: "quiet s" and ok: "icache_ok (disk s) L (icache s)" and e: "entry_of n i (icache s)" "i \<in> L"
  shows "\<exists>s'. iunlock (Some i) s = Inr s' \<and> cache_at s (L - {i}) (refs (icache s)) s' \<and> entry_of n i (icache s') \<and>
    (\<forall>k. k \<noteq> i \<longrightarrow> icache s' ! k = icache s ! k)"
proof -
  let ?ic = "icache s" and ?ip = "icache s ! i"
  let ?x = "?ip\<lparr>iflags := iflags ?ip AND NOT I_BUSY\<rparr>"
  have i: "i < length ?ic" "0 < iref ?ip" "inum ?ip = n" using e(1) by (auto simp: entry_of_def)
  note eo = icache_ok_entry [OF ok i(1)]
  have b: "bit (iflags ?ip) 0" using eo i(2) e(2) by (simp add: entry_ok_def)
  let ?s = "s\<lparr>icache := ?ic[i := ?x]\<rparr>"
  have c: "calm (lk s)" by (rule quiet_calm [OF q])
  have run: "iunlock (Some i) s = Inr (wakeup1 (ChanInode i) ?s)"
    using b i c by (simp add: iunlock_def upd_inode_def Let_def acquire_run wakeup_run calm_release [where k = "lk s"]) (simp add: wakeup1_def)
  have w: "quiet (wakeup1 c t) = quiet t" "disk (wakeup1 c t) = disk t" "icache (wakeup1 c t) = icache t" for c and t :: "'a kfs_scheme"
    by (simp_all add: wakeup1_def)
  have "frame s (wakeup1 (ChanInode i) ?s)"
    using woken_wakeup1 [of ?s "ChanInode i"] by (simp add: frame_def) (simp add: wakeup1_def rest_def)
  moreover have "icache_ok (disk s) (L - {i}) (?ic[i := ?x])"
    by (rule icache_ok_upd [OF ok i(1)]) (use eo i in \<open>auto simp: entry_ok_def dinode_of_def bit_and_iff bit_not_iff\<close>)
  moreover have "refs (?ic[i := ?x]) = refs ?ic" using i by (auto simp: fun_eq_iff refs_upd)
  ultimately show ?thesis using run q i w by (auto simp: cache_at_def entry_of_def)
qed

lemma iunlockput_law:
  assumes "quiet s" "icache_ok (disk s) L (icache s)" "entry_of n i (icache s)" "i \<in> L"
    "dnlink (disk_inode (disk s) n) \<noteq> 0 \<or> 1 < refs (icache s) n"
  shows "\<exists>s'. iunlockput i s = Inr s' \<and> cache_at s (L - {i}) ((refs (icache s))(n := refs (icache s) n - 1)) s' \<and>
    (\<forall>k. k \<noteq> i \<longrightarrow> icache s' ! k = icache s ! k)"
proof -
  obtain s1 where 1: "iunlock (Some i) s = Inr s1" "cache_at s (L - {i}) (refs (icache s)) s1" "entry_of n i (icache s1)"
    "\<forall>k. k \<noteq> i \<longrightarrow> icache s1 ! k = icache s ! k" using iunlock_law [OF assms(1-4)] by blast
  then have "quiet s1" "icache_ok (disk s1) (L - {i}) (icache s1)" "refs (icache s1) = refs (icache s)" "disk s1 = disk s" by (simp_all add: cache_at_def)
  with iput_law [OF this(1,2) 1(3)] assms(5) obtain s2 where 2: "iput i s1 = Inr s2"
    "cache_at s1 (L - {i}) ((refs (icache s))(n := refs (icache s) n - 1)) s2" "\<forall>k. k \<noteq> i \<longrightarrow> icache s2 ! k = icache s1 ! k" by auto
  then show ?thesis using 1 cache_at_trans by (auto simp: iunlockput_def)
qed

end
