(* ===== verification/Console_Lines.thy ===== *)
theory Console_Lines
  imports Console Fs_Icache
begin

text \<open>
  The line discipline of the console. The input buffer is a ring of 128 bytes with three counters: the bytes
  between \<open>in_r\<close> and \<open>in_w\<close> are ready to be read, those between \<open>in_w\<close> and \<open>in_e\<close> belong to the line that is being
  edited. The interrupt handler refines an editor on two byte strings, and \<^verbatim>\<open>consoleread\<close> takes a line off the first.
\<close>

section \<open>More on ring buffers\<close>

context ring_buffer
begin

lemma contents_unpush:
  assumes "r \<noteq> w"
  shows "contents d r (w - 1) = butlast (contents d r w)" "d ! slot (w - 1) = last (contents d r w)"
proof -
  have "w - r \<noteq> 0" using assms by simp
  then have n: "unat (w - r) = Suc (unat (w - 1 - r))"
    using unat_minus_one [of "w - r"] unat_gt_0 [of "w - r"] by (simp add: diff_diff_eq add.commute)
  have e: "r + of_nat (unat (w - 1 - r)) = w - 1" by simp
  show "contents d r (w - 1) = butlast (contents d r w)" "d ! slot (w - 1) = last (contents d r w)"
    unfolding contents_def n using e by simp_all
qed

lemma contents_other:
  assumes "unat (w - r) \<le> unat (e - r)" "unat (e - r) < cap"
  shows "contents (d[slot e := x]) r w = contents d r w"
proof -
  have e: "e = r + of_nat (unat (e - r))" by simp
  have "slot e \<noteq> slot (r + of_nat k)" if "k < unat (w - r)" for k
    using slot_inj [of "unat (e - r)" k r] that assms by (subst e) auto
  then show ?thesis by (simp add: contents_def)
qed

lemma contents_join:
  assumes "unat (e - r) = unat (w - r) + unat (e - w)"
  shows "contents d r e = contents d r w @ contents d w e"
proof -
  have w: "r + of_nat (unat (w - r) + k) = w + of_nat k" for k by (simp add: add.assoc [symmetric])
  have "map (\<lambda>k. d ! slot (w + of_nat k)) [0..<unat (e - w)] = map (\<lambda>k. d ! slot (r + of_nat k)) [unat (w - r)..<unat (w - r) + unat (e - w)]"
    unfolding w [symmetric] by (rule nth_equalityI) (simp_all add: add.commute)
  then show ?thesis unfolding contents_def assms upt_add_eq_append [OF le0] map_append by simp
qed

end

interpretation crb: ring_buffer INPUT_BUF
  by unfold_locales (simp_all add: INPUT_BUF_def)

section \<open>The editor\<close>

definition EOT :: u8 where "EOT = 0x04"

fun feed :: "u8 \<Rightarrow> u8 list \<times> u8 list \<Rightarrow> u8 list \<times> u8 list" where
  "feed c (ready, line) =
     (if c = 0x10 then (ready, line)
      else if c = 0x15 then (ready, [])
      else if c = 0x08 \<or> c = 0x7f then (ready, butlast line)
      else if c \<noteq> 0 \<and> length ready + length line < INPUT_BUF then
        (let line = line @ [if c = 0x0d then 0x0a else c] in
         if last line \<in> {0x0a, EOT} \<or> length ready + length line = INPUT_BUF then (ready @ line, []) else (ready, line))
      else (ready, line))"

definition lines :: "'a kcons_scheme \<Rightarrow> u8 list \<times> u8 list" where
  "lines s = (crb.contents (ibuf s) (in_r s) (in_w s), crb.contents (ibuf s) (in_w s) (in_e s))"

definition input_ok :: "'a kcons_scheme \<Rightarrow> bool" where
  "input_ok s \<longleftrightarrow> length (ibuf s) = INPUT_BUF \<and> unat (in_e s - in_r s) = unat (in_w s - in_r s) + unat (in_e s - in_w s) \<and>
     unat (in_e s - in_r s) \<le> INPUT_BUF \<and> 0x0a \<notin> set (snd (lines s)) \<and> \<not> panicked s"

lemma consputc_run: "\<not> panicked s \<Longrightarrow> \<exists>out. consputc c s = Inr (s\<lparr>serial := serial s @ out\<rparr>)"
  by (auto simp: consputc_def putc_def)

lemma lines_serial [simp]: "lines (s\<lparr>serial := x\<rparr>) = lines s" "input_ok (s\<lparr>serial := x\<rparr>) = input_ok s"
  by (simp_all add: lines_def input_ok_def)

lemma lines_back:
  assumes "input_ok s" "in_e s \<noteq> in_w s"
  shows "lines (s\<lparr>in_e := in_e s - 1\<rparr>) = (fst (lines s), butlast (snd (lines s)))" "input_ok (s\<lparr>in_e := in_e s - 1\<rparr>)"
    "ibuf s ! (unat (in_e s - 1) mod INPUT_BUF) = last (snd (lines s))"
proof -
  have ne: "in_w s \<noteq> in_e s" using assms(2) by simp
  note u = crb.contents_unpush [OF ne, of "ibuf s"]
  show l: "lines (s\<lparr>in_e := in_e s - 1\<rparr>) = (fst (lines s), butlast (snd (lines s)))" using u(1) by (simp add: lines_def)
  show "ibuf s ! (unat (in_e s - 1) mod INPUT_BUF) = last (snd (lines s))" using u(2) by (simp add: lines_def crb.slot_def)
  have i: "unat (in_e s - in_r s) = unat (in_w s - in_r s) + unat (in_e s - in_w s)" using assms(1) by (simp add: input_ok_def)
  have p: "0 < unat (in_e s - in_w s)" using assms(2) by (simp add: unat_gt_0)
  have a: "unat (in_e s - 1 - in_w s) = unat (in_e s - in_w s) - 1" using p unat_minus_one [of "in_e s - in_w s"] by (simp add: unat_gt_0 diff_diff_eq add.commute)
  have ner: "in_e s \<noteq> in_r s" using p i by auto
  have b: "unat (in_e s - 1 - in_r s) = unat (in_e s - in_r s) - 1" using ner unat_minus_one [of "in_e s - in_r s"] by (simp add: diff_diff_eq add.commute)
  show "input_ok (s\<lparr>in_e := in_e s - 1\<rparr>)" using assms(1) a b p l unfolding input_ok_def by (auto dest: in_set_butlastD)
qed

lemma kill_line_run:
  "input_ok s \<Longrightarrow> \<exists>out. kill_line s = Inr (s\<lparr>in_e := in_w s, serial := serial s @ out\<rparr>)"
proof (induction "unat (in_e s - in_w s)" arbitrary: s)
  case 0
  then have "in_e s = in_w s" by (simp add: unat_eq_zero)
  then have "kill_line s = Inr (s\<lparr>in_e := in_w s, serial := serial s @ []\<rparr>)" by (subst kill_line.simps) simp
  then show ?case by blast
next
  case (Suc n)
  then have ne: "in_e s \<noteq> in_w s" by auto
  note b = lines_back [OF Suc.prems ne]
  have "0 < length (snd (lines s))" using Suc.hyps(2) by (simp add: lines_def)
  then have "last (snd (lines s)) \<in> set (snd (lines s))" by simp
  then have nl: "ibuf s ! (unat (in_e s - 1) mod INPUT_BUF) \<noteq> 0x0a" using b(3) Suc.prems unfolding input_ok_def by metis
  obtain o1 where o1: "consputc BACKSPACE (s\<lparr>in_e := in_e s - 1\<rparr>) = Inr (s\<lparr>in_e := in_e s - 1, serial := serial s @ o1\<rparr>)"
    using consputc_run [of "s\<lparr>in_e := in_e s - 1\<rparr>"] Suc.prems by (auto simp: input_ok_def)
  let ?t = "s\<lparr>in_e := in_e s - 1, serial := serial s @ o1\<rparr>"
  have "n = unat (in_e ?t - in_w ?t)" using Suc.hyps(2) ne unat_minus_one [of "in_e s - in_w s"] by (simp add: diff_diff_eq add.commute)
  moreover have "input_ok ?t" using b(2) by simp
  ultimately obtain o2 where "kill_line ?t = Inr (?t\<lparr>in_e := in_w ?t, serial := serial ?t @ o2\<rparr>)" using Suc.hyps(1) by blast
  then have "kill_line s = Inr (s\<lparr>in_e := in_w s, serial := serial s @ (o1 @ o2)\<rparr>)" using ne nl o1 by (subst kill_line.simps) simp
  then show ?case by blast
qed

lemma lines_push:
  assumes "input_ok s" "length (fst (lines s)) + length (snd (lines s)) < INPUT_BUF"
  shows "lines (s\<lparr>ibuf := (ibuf s)[unat (in_e s) mod INPUT_BUF := c], in_e := in_e s + 1\<rparr>) = (fst (lines s), snd (lines s) @ [c])"
    "unat (in_e s + 1 - in_r s) = Suc (unat (in_e s - in_r s))" "unat (in_e s + 1 - in_w s) = Suc (unat (in_e s - in_w s))"
proof -
  have i: "unat (in_e s - in_r s) = unat (in_w s - in_r s) + unat (in_e s - in_w s)" "length (ibuf s) = INPUT_BUF" using assms(1) by (auto simp: input_ok_def)
  have lt: "unat (in_e s - in_r s) < INPUT_BUF" "unat (in_e s - in_w s) < INPUT_BUF" using assms(2) i(1) by (simp_all add: lines_def)
  have "crb.contents ((ibuf s)[crb.slot (in_e s) := c]) (in_r s) (in_w s) = crb.contents (ibuf s) (in_r s) (in_w s)"
    using i(1) lt(1) by (intro crb.contents_other) auto
  moreover have "crb.contents ((ibuf s)[crb.slot (in_e s) := c]) (in_w s) (in_e s + 1) = crb.contents (ibuf s) (in_w s) (in_e s) @ [c]"
    by (rule crb.contents_push [OF i(2) lt(2)])
  ultimately show "lines (s\<lparr>ibuf := (ibuf s)[unat (in_e s) mod INPUT_BUF := c], in_e := in_e s + 1\<rparr>) = (fst (lines s), snd (lines s) @ [c])"
    by (simp add: lines_def crb.slot_def)
  have suc: "unat (x + 1) = Suc (unat x)" if "unat x < INPUT_BUF" for x :: u32 using that by (simp add: INPUT_BUF_def unat_word_ariths)
  have shift: "in_e s + 1 - x = (in_e s - x) + 1" for x by simp
  show "unat (in_e s + 1 - in_r s) = Suc (unat (in_e s - in_r s))" unfolding shift by (rule suc [OF lt(1)])
  show "unat (in_e s + 1 - in_w s) = Suc (unat (in_e s - in_w s))" unfolding shift by (rule suc [OF lt(2)])
qed

section \<open>The interrupt handler refines the editor\<close>

text \<open>Inside the handler: the input lock is held, and everything but the input buffer, the output and sleeping processes stays.\<close>

definition intr_step :: "'a kcons_scheme \<Rightarrow> 'a kcons_scheme \<Rightarrow> bool" where
  "intr_step s s' \<longleftrightarrow> (\<exists>ib w e out pt. s' = s\<lparr>ibuf := ib, in_w := w, in_e := e, serial := serial s @ out, ptable := pt\<rparr> \<and> woken (ptable s) pt)"

lemma intr_step_trans: "intr_step s s' \<Longrightarrow> intr_step s' s'' \<Longrightarrow> intr_step s s''"
proof -
  assume "intr_step s s'" "intr_step s' s''"
  then obtain ib w e out pt ib' w' e' out' pt' where
      a: "s' = s\<lparr>ibuf := ib, in_w := w, in_e := e, serial := serial s @ out, ptable := pt\<rparr>" "woken (ptable s) pt"
    and b: "s'' = s'\<lparr>ibuf := ib', in_w := w', in_e := e', serial := serial s' @ out', ptable := pt'\<rparr>" "woken (ptable s') pt'"
    unfolding intr_step_def by blast
  have "s'' = s\<lparr>ibuf := ib', in_w := w', in_e := e', serial := serial s @ (out @ out'), ptable := pt'\<rparr>" using a(1) b(1) by simp
  moreover have "woken (ptable s) pt'" using a b woken_trans by simp
  ultimately show "intr_step s s''" unfolding intr_step_def by blast
qed

lemma intr_step_serial: "intr_step s (s\<lparr>serial := serial s @ out\<rparr>)"
proof -
  have "s\<lparr>serial := serial s @ out\<rparr> = s\<lparr>ibuf := ibuf s, in_w := in_w s, in_e := in_e s, serial := serial s @ out, ptable := ptable s\<rparr>" by simp
  then show ?thesis unfolding intr_step_def using woken_refl by blast
qed

text \<open>Printing, in a lock state with \<open>P\<close>, only adds to the output.\<close>

definition prints :: "(lockst \<Rightarrow> bool) \<Rightarrow> ('a kcons_scheme \<Rightarrow> 'a kcons_scheme res) \<Rightarrow> bool" where
  "prints P f \<longleftrightarrow> (\<forall>s. \<not> panicked s \<longrightarrow> P (lk s) \<longrightarrow> (\<exists>out. f s = Inr (s\<lparr>serial := serial s @ out\<rparr>)))"

lemma prints_bind [intro]:
  assumes "prints P f" "prints P g"
  shows "prints P (\<lambda>s. bindR (f s) g)"
  unfolding prints_def
proof (intro allI impI)
  fix s :: "'a kcons_scheme"
  assume h: "\<not> panicked s" "P (lk s)"
  then obtain o1 where o1: "f s = Inr (s\<lparr>serial := serial s @ o1\<rparr>)" using assms(1) unfolding prints_def by blast
  let ?t = "s\<lparr>serial := serial s @ o1\<rparr>"
  have "\<not> panicked ?t" "P (lk ?t)" using h by simp_all
  then obtain o2 where "g ?t = Inr (?t\<lparr>serial := serial ?t @ o2\<rparr>)" using assms(2) unfolding prints_def by blast
  then have "bindR (f s) g = Inr (s\<lparr>serial := serial s @ (o1 @ o2)\<rparr>)" using o1 by simp
  then show "\<exists>out. bindR (f s) g = Inr (s\<lparr>serial := serial s @ out\<rparr>)" by blast
qed

lemma prints_nothing [intro]: "prints P Inr"
  unfolding prints_def by (auto intro: exI [of _ "[]"])

lemma prints_consputc [intro]: "prints P (consputc c)"
  using consputc_run unfolding prints_def by blast

lemma prints_consputs [intro]: "prints P (consputs cs)"
proof (induction cs)
  case Nil
  have "consputs [] = (Inr :: 'a kcons_scheme \<Rightarrow> _)" by (simp add: fun_eq_iff)
  then show ?case using prints_nothing by simp
next
  case (Cons c cs)
  have "consputs (c # cs) = (\<lambda>s :: 'a kcons_scheme. bindR (consputc (ucast c) s) (consputs cs))" by (simp add: fun_eq_iff)
  then show ?case using Cons by auto
qed

text \<open>The arguments fit the format.\<close>

fun fmt_ok :: "u8 list \<Rightarrow> arg list \<Rightarrow> bool" where
  "fmt_ok [] args = True"
| "fmt_ok [c] args = True"
| "fmt_ok (c # d # fmt) args =
     (if c \<noteq> 0x25 then fmt_ok (d # fmt) args
      else if d = 0x64 \<or> d = 0x78 \<or> d = 0x70 then (case args of AInt x # args' \<Rightarrow> fmt_ok fmt args' | _ \<Rightarrow> False)
      else if d = 0x73 then (case args of AStr x # args' \<Rightarrow> fmt_ok fmt args' | _ \<Rightarrow> False)
      else fmt_ok fmt args)"

lemma prints_cprintf_loop: "fmt_ok fmt args \<Longrightarrow> prints P (cprintf_loop fmt args)"
proof (induction fmt args rule: fmt_ok.induct)
  case (1 args)
  have "cprintf_loop [] args = (Inr :: 'a kcons_scheme \<Rightarrow> _)" by (simp add: fun_eq_iff)
  then show ?case using prints_nothing by simp
next
  case (2 c args)
  have "cprintf_loop [c] args = (if c \<noteq> 0x25 then \<lambda>s :: 'a kcons_scheme. bindR (consputc (ucast c) s) Inr else Inr)" by (auto simp: fun_eq_iff bindR_def split: sum.split)
  then show ?case by auto
next
  case (3 c d fmt args)
  have e: "cprintf_loop (c # d # fmt) args = (if c \<noteq> 0x25 then (\<lambda>s :: 'a kcons_scheme. bindR (consputc (ucast c) s) (cprintf_loop (d # fmt) args))
      else if d = 0x64 then (case args of AInt x # args' \<Rightarrow> (\<lambda>s. bindR (printint x 10 True s) (cprintf_loop fmt args')) | _ \<Rightarrow> (\<lambda>s. Inl Fault))
      else if d = 0x78 \<or> d = 0x70 then (case args of AInt x # args' \<Rightarrow> (\<lambda>s. bindR (printint x 16 False s) (cprintf_loop fmt args')) | _ \<Rightarrow> (\<lambda>s. Inl Fault))
      else if d = 0x73 then (case args of AStr t # args' \<Rightarrow> (\<lambda>s. bindR (consputs (case t of None \<Rightarrow> [0x28, 0x6e, 0x75, 0x6c, 0x6c, 0x29] | Some t \<Rightarrow> t) s)
                 (cprintf_loop fmt args')) | _ \<Rightarrow> (\<lambda>s. Inl Fault))
      else if d = 0x25 then (\<lambda>s. bindR (consputc 0x25 s) (cprintf_loop fmt args))
      else (\<lambda>s. bindR (consputc 0x25 s) (\<lambda>s. bindR (consputc (ucast d) s) (cprintf_loop fmt args))))"
    by (auto simp: fun_eq_iff split: list.split arg.split)
  show ?case using 3 unfolding e printint_def
    by (auto simp del: cprintf_loop.simps intro!: prints_bind prints_consputc prints_consputs split: list.splits arg.splits if_splits)
qed

lemma prints_cprintf [intro]:
  assumes "fmt_ok fmt args"
  shows "prints (\<lambda>k. idle LCons k \<and> cpu_ok k \<and> cycle k = k) (cprintf fmt args)"
  unfolding prints_def
proof (intro allI impI, elim conjE)
  fix s :: "'a kcons_scheme"
  assume h: "\<not> panicked s" "idle LCons (lk s)" "cpu_ok (lk s)" "cycle (lk s) = lk s"
  have loop: "\<exists>out. cprintf_loop fmt args t = Inr (t\<lparr>serial := serial t @ out\<rparr>)" if "\<not> panicked t" for t :: "'a kcons_scheme"
    using prints_cprintf_loop [OF assms, of "\<lambda>_. True"] that unfolding prints_def by blast
  show "\<exists>out. cprintf fmt args s = Inr (s\<lparr>serial := serial s @ out\<rparr>)"
  proof (cases "cons_locking s")
    case True
    obtain out where "cprintf_loop fmt args (s\<lparr>lk := hold LCons (lk s)\<rparr>) = Inr (s\<lparr>lk := hold LCons (lk s), serial := serial s @ out\<rparr>)"
      using loop [of "s\<lparr>lk := hold LCons (lk s)\<rparr>"] h(1) by auto
    then have "cprintf fmt args s = Inr (s\<lparr>serial := serial s @ out\<rparr>)"
      using True h by (simp add: cprintf_def acquire_run release_run [where k = "lk s"])
    then show ?thesis by blast
  next
    case False
    then show ?thesis using loop [OF h(1)] by (auto simp: cprintf_def)
  qed
qed

lemma prints_procdump_loop: "prints (\<lambda>k. idle LCons k \<and> cpu_ok k \<and> cycle k = k) (procdump_loop ps)"
proof (induction ps)
  case Nil
  have "procdump_loop [] = (Inr :: 'a kcons_scheme \<Rightarrow> _)" by (simp add: fun_eq_iff)
  then show ?case using prints_nothing by simp
next
  case (Cons p ps)
  let ?fmt = "lit ''%d %s %s''"
  let ?args = "[AInt (pid p), AStr (Some (lit (state_name (state p)))), AStr (Some (cstr (array (pname p)) 16))]"
  have e: "procdump_loop (p # ps) = (if state p = UNUSED then procdump_loop ps
      else (\<lambda>s :: 'a kcons_scheme. bindR (cprintf ?fmt ?args s) (\<lambda>s. bindR (cprintf [0x0a] [] s) (procdump_loop ps))))"
    by (simp add: fun_eq_iff)
  have "fmt_ok ?fmt ?args" "fmt_ok [0x0a] []" by (simp_all add: lit_def of_char_def)
  then show ?case using Cons unfolding e by (cases "state p = UNUSED") (simp_all add: prints_bind prints_cprintf)
qed

text \<open>Every byte takes the buffer one step of the editor.\<close>

lemma wakeup1_step: "intr_step s (wakeup1 c s)" "lines (wakeup1 c s) = lines s" "input_ok (wakeup1 c s) = input_ok s"
proof -
  have "wakeup1 c s = s\<lparr>ibuf := ibuf s, in_w := in_w s, in_e := in_e s, serial := serial s @ [], ptable := ptable (wakeup1 c s)\<rparr>" by (simp add: wakeup1_def)
  then show "intr_step s (wakeup1 c s)" unfolding intr_step_def using woken_wakeup1 by blast
  show "lines (wakeup1 c s) = lines s" "input_ok (wakeup1 c s) = input_ok s" by (simp_all add: lines_def input_ok_def wakeup1_def)
qed

lemma intr_step_input: "intr_step s (s\<lparr>ibuf := ib, in_w := w, in_e := e, serial := serial s @ out\<rparr>)"
proof -
  have "s\<lparr>ibuf := ib, in_w := w, in_e := e, serial := serial s @ out\<rparr> = s\<lparr>ibuf := ib, in_w := w, in_e := e, serial := serial s @ out, ptable := ptable s\<rparr>" by simp
  then show ?thesis unfolding intr_step_def using woken_refl by blast
qed

lemma lines_total: "input_ok s \<Longrightarrow> length (fst (lines s)) + length (snd (lines s)) = unat (in_e s - in_r s)"
  by (simp add: lines_def input_ok_def)

lemma intr_char_push:
  assumes i: "input_ok s" and l: "lk s = hold LInput k" "calm k"
    and c: "c \<notin> {0x10, 0x15, 0x08, 0x7f, 0}" "length (fst (lines s)) + length (snd (lines s)) < INPUT_BUF"
  shows "\<exists>s'. consoleintr_char c s = Inr s' \<and> intr_step s s' \<and> input_ok s' \<and> lines s' = feed c (lines s)"
proof -
  obtain rd ln where rl: "lines s = (rd, ln)" by force
  define d where "d = (if c = 0x0d then 0x0a else c)"
  let ?s1 = "s\<lparr>ibuf := (ibuf s)[unat (in_e s) mod INPUT_BUF := d], in_e := in_e s + 1\<rparr>"
  note p = lines_push(1) [OF i c(2), of d] lines_push(2,3) [OF i c(2)]
  have lt: "in_e s - in_r s < of_nat INPUT_BUF" using lines_total [OF i] c(2) by (simp add: word_less_nat_alt INPUT_BUF_def)
  obtain out where out: "consputc (ucast d) ?s1 = Inr (?s1\<lparr>serial := serial s @ out\<rparr>)" using consputc_run [of ?s1 "ucast d"] i by (auto simp: input_ok_def)
  let ?s2 = "?s1\<lparr>serial := serial s @ out\<rparr>"
  have l2: "lines ?s2 = (rd, ln @ [d])" using p(1) rl by simp
  let ?ib = "(ibuf s)[unat (in_e s) mod INPUT_BUF := d]"
  have "?s2\<lparr>in_w := in_e ?s2\<rparr> = s\<lparr>ibuf := ?ib, in_w := in_e s + 1, in_e := in_e s + 1, serial := serial s @ out\<rparr>" by simp
  then have st2: "intr_step s (?s2\<lparr>in_w := in_e ?s2\<rparr>)" by (simp only: intr_step_input)
  have "?s2 = s\<lparr>ibuf := ?ib, in_w := in_w s, in_e := in_e s + 1, serial := serial s @ out\<rparr>" by simp
  then have st: "intr_step s ?s2" by (simp only: intr_step_input)
  have full: "in_e s + 1 = in_r s + of_nat INPUT_BUF \<longleftrightarrow> length rd + length (ln @ [d]) = INPUT_BUF"
  proof -
    have "in_e s + 1 = in_r s + of_nat INPUT_BUF \<longleftrightarrow> unat (in_e s + 1 - in_r s) = unat (of_nat INPUT_BUF :: u32)" by (simp add: word_unat_eq_iff [symmetric] diff_eq_eq add.commute)
    then show ?thesis using p(2) lines_total [OF i] rl by (simp add: INPUT_BUF_def)
  qed
  have run: "consoleintr_char c s = (if d = 0x0a \<or> d = 0x04 \<or> length rd + length (ln @ [d]) = INPUT_BUF then wakeup ChanInput (?s2\<lparr>in_w := in_e ?s2\<rparr>) else Inr ?s2)"
    using c(1) lt out full by (simp add: consoleintr_char_def d_def [symmetric])
  have fd: "feed c (lines s) = (if d = 0x0a \<or> d = 0x04 \<or> length rd + length (ln @ [d]) = INPUT_BUF then (rd @ ln @ [d], []) else (rd, ln @ [d]))"
    using c rl by (simp add: d_def [symmetric] Let_def EOT_def)
  have b: "length (ibuf ?s2) = INPUT_BUF" "unat (in_e ?s2 - in_r ?s2) = unat (in_w ?s2 - in_r ?s2) + unat (in_e ?s2 - in_w ?s2)"
      "unat (in_e ?s2 - in_r ?s2) \<le> INPUT_BUF" "\<not> panicked ?s2"
    using p(2,3) i c(2) lines_total [OF i] by (simp_all add: input_ok_def)
  show ?thesis
  proof (cases "d = 0x0a \<or> d = 0x04 \<or> length rd + length (ln @ [d]) = INPUT_BUF")
    case True
    let ?t = "?s2\<lparr>in_w := in_e ?s2\<rparr>"
    have "lines ?t = (rd @ ln @ [d], [])" using l2 crb.contents_join [OF b(2), of "ibuf ?s2"] by (simp add: lines_def)
    moreover have "input_ok ?t" using b calculation by (simp add: input_ok_def)
    moreover have "wakeup ChanInput ?t = Inr (wakeup1 ChanInput ?t)" using l by (intro wakeup_run) simp_all
    ultimately show ?thesis using run fd True intr_step_trans [OF st2 wakeup1_step(1)] by (simp add: wakeup1_step)
  next
    case False
    then have "input_ok ?s2" using b l2 i rl by (auto simp: input_ok_def)
    then show ?thesis using run fd False l2 st by simp
  qed
qed

lemma consoleintr_char_step:
  assumes i: "input_ok s" and l: "lk s = hold LInput k" "calm k"
  shows "\<exists>s'. consoleintr_char c s = Inr s' \<and> intr_step s s' \<and> input_ok s' \<and> lines s' = feed c (lines s)"
proof -
  obtain rd ln where rl: "lines s = (rd, ln)" by force
  have np: "\<not> panicked s" using i by (simp add: input_ok_def)
  consider "c = 0x10" | "c = 0x15" | "c = 0x08 \<or> c = 0x7f" | "c \<notin> {0x10, 0x15, 0x08, 0x7f}" by blast
  then show ?thesis
  proof cases
    case 1
    obtain out where "procdump s = Inr (s\<lparr>serial := serial s @ out\<rparr>)"
      using prints_procdump_loop [of "ptable s"] np l unfolding prints_def procdump_def by fastforce
    then show ?thesis using 1 i rl intr_step_serial [of s out] by (simp add: consoleintr_char_def)
  next
    case 2
    obtain out where k: "kill_line s = Inr (s\<lparr>in_e := in_w s, serial := serial s @ out\<rparr>)" using kill_line_run [OF i] by blast
    have "lines (s\<lparr>in_e := in_w s\<rparr>) = (rd, [])" using rl by (simp add: lines_def)
    moreover have "input_ok (s\<lparr>in_e := in_w s\<rparr>)" using i calculation by (auto simp: input_ok_def)
    ultimately show ?thesis using 2 k rl intr_step_input [where s = s and ib = "ibuf s" and w = "in_w s" and e = "in_w s" and out = out] by (simp add: consoleintr_char_def)
  next
    case 3
    have "length ln = unat (in_e s - in_w s)" using rl by (auto simp: lines_def)
    then have nil: "in_e s = in_w s \<longleftrightarrow> ln = []" using unat_eq_zero [of "in_e s - in_w s"] by auto
    show ?thesis
    proof (cases "ln = []")
      case True
      then show ?thesis using 3 nil rl i intr_step_serial [of s "[]"] by (auto simp: consoleintr_char_def)
    next
      case False
      then have ne: "in_e s \<noteq> in_w s" using nil by blast
      obtain out where "consputc BACKSPACE (s\<lparr>in_e := in_e s - 1\<rparr>) = Inr (s\<lparr>in_e := in_e s - 1, serial := serial s @ out\<rparr>)"
        using consputc_run [of "s\<lparr>in_e := in_e s - 1\<rparr>"] np by auto
      then show ?thesis using 3 ne rl lines_back [OF i ne] intr_step_input [where s = s and ib = "ibuf s" and w = "in_w s" and e = "in_e s - 1" and out = out] by (auto simp: consoleintr_char_def)
    qed
  next
    case 4
    have lt: "in_e s - in_r s < of_nat INPUT_BUF \<longleftrightarrow> length rd + length ln < INPUT_BUF"
      using lines_total [OF i] rl by (simp add: word_less_nat_alt INPUT_BUF_def)
    show ?thesis
    proof (cases "c \<noteq> 0 \<and> length rd + length ln < INPUT_BUF")
      case False
      then show ?thesis using 4 lt rl i intr_step_serial [of s "[]"] by (auto simp: consoleintr_char_def)
    next
      case True
      then show ?thesis using 4 rl by (intro intr_char_push [OF i l]) auto
    qed
  qed
qed

lemma consoleintr_loop_steps:
  "input_ok s \<Longrightarrow> lk s = hold LInput k \<Longrightarrow> calm k \<Longrightarrow>
     \<exists>s'. consoleintr_loop cs s = Inr s' \<and> intr_step s s' \<and> input_ok s' \<and> lines s' = fold feed cs (lines s)"
proof (induction cs arbitrary: s)
  case Nil
  then show ?case using intr_step_serial [of s "[]"] by simp
next
  case (Cons c cs)
  obtain t where t: "consoleintr_char c s = Inr t" "intr_step s t" "input_ok t" "lines t = feed c (lines s)"
    using consoleintr_char_step [OF Cons.prems] by blast
  have "lk t = hold LInput k" using t(2) Cons.prems(2) by (auto simp: intr_step_def)
  then obtain s' where "consoleintr_loop cs t = Inr s'" "intr_step t s'" "input_ok s'" "lines s' = fold feed cs (lines t)"
    using Cons.IH [OF t(3)] Cons.prems(3) by blast
  then show ?case using t intr_step_trans [OF t(2)] by auto
qed

lemma consoleintr_law:
  assumes i: "input_ok s" and c: "calm (lk s)"
  shows "\<exists>s'. consoleintr cs s = Inr s' \<and> intr_step s s' \<and> input_ok s' \<and> lines s' = fold feed cs (lines s)"
proof -
  let ?s = "s\<lparr>lk := hold LInput (lk s)\<rparr>"
  have l: "lines (t\<lparr>lk := x\<rparr>) = lines t" "input_ok (t\<lparr>lk := x\<rparr>) = input_ok t" for x and t :: "'a kcons_scheme" by (simp_all add: lines_def input_ok_def)
  have "lk ?s = hold LInput (lk s)" by simp
  then obtain t where t: "consoleintr_loop cs ?s = Inr t" "intr_step ?s t" "input_ok t" "lines t = fold feed cs (lines s)"
    using consoleintr_loop_steps [of ?s "lk s" cs] i c by (auto simp: l)
  obtain ib w e out pt where u: "t = ?s\<lparr>ibuf := ib, in_w := w, in_e := e, serial := serial s @ out, ptable := pt\<rparr>" "woken (ptable s) pt"
    using t(2) by (auto simp: intr_step_def)
  have "release LInput t = Inr (t\<lparr>lk := lk s\<rparr>)" using u(1) c by (intro calm_release) simp_all
  moreover have "t\<lparr>lk := lk s\<rparr> = s\<lparr>ibuf := ib, in_w := w, in_e := e, serial := serial s @ out, ptable := pt\<rparr>" using u(1) by simp
  then have "intr_step s (t\<lparr>lk := lk s\<rparr>)" using u(2) unfolding intr_step_def by blast
  ultimately show ?thesis using t(1,3,4) c by (simp add: consoleintr_def acquire_run l)
qed

section \<open>Reading a line\<close>

text \<open>
  What a read of \<open>n\<close> bytes takes off the ready bytes: at most \<open>n\<close>, up to and with the first newline, or up to an
  end-of-file mark. The mark is consumed when it is the first byte, and left for the next read otherwise. \<open>None\<close>:
  the bytes do not make up the read, and the reader waits for more.
\<close>

fun take_line :: "bool \<Rightarrow> nat \<Rightarrow> u8 list \<Rightarrow> (u8 list \<times> u8 list) option" where
  "take_line first 0 bs = Some ([], bs)"
| "take_line first (Suc n) [] = None"
| "take_line first (Suc n) (b # bs) =
     (if b = EOT then Some ([], if first then bs else b # bs)
      else if b = 0x0a then Some ([b], bs)
      else map_option (apfst (Cons b)) (take_line False n bs))"

lemma lines_pop:
  assumes "input_ok s" "in_r s \<noteq> in_w s"
  shows "fst (lines s) = ibuf s ! (unat (in_r s) mod INPUT_BUF) # fst (lines (s\<lparr>in_r := in_r s + 1\<rparr>))"
    "snd (lines (s\<lparr>in_r := in_r s + 1\<rparr>)) = snd (lines s)" "input_ok (s\<lparr>in_r := in_r s + 1\<rparr>)"
proof -
  show f: "fst (lines s) = ibuf s ! (unat (in_r s) mod INPUT_BUF) # fst (lines (s\<lparr>in_r := in_r s + 1\<rparr>))"
    using crb.contents_pop [OF assms(2), of "ibuf s"] by (simp add: lines_def crb.slot_def)
  show "snd (lines (s\<lparr>in_r := in_r s + 1\<rparr>)) = snd (lines s)" by (simp add: lines_def)
  have dec: "unat (x - (in_r s + 1)) = unat (x - in_r s) - 1" if "x \<noteq> in_r s" for x
  proof -
    have "x - (in_r s + 1) = (x - in_r s) - 1" by (rule diff_diff_eq [symmetric])
    moreover have "unat (x - in_r s - 1) = unat (x - in_r s) - 1" using that by (intro unat_minus_one) simp
    ultimately show ?thesis by (simp only:)
  qed
  have p: "0 < unat (in_w s - in_r s)" using assms(2) by (simp add: unat_gt_0)
  then have "in_e s \<noteq> in_r s" using assms(1) by (auto simp: input_ok_def)
  then show "input_ok (s\<lparr>in_r := in_r s + 1\<rparr>)" using assms dec [of "in_e s"] dec [of "in_w s"] p
    by (auto simp: input_ok_def lines_def)
qed

lemma consoleread_loop_takes:
  "input_ok s \<Longrightarrow> unat n < 2 ^ 31 \<Longrightarrow> unat n \<le> unat target \<Longrightarrow> take_line (n = target) (unat n) (fst (lines s)) = Some (got, rst) \<Longrightarrow>
   \<exists>r. consoleread_loop target n dst s = Inr (Return (False, n - of_nat (length got), dst @ got), s\<lparr>in_r := r\<rparr>) \<and>
     lines (s\<lparr>in_r := r\<rparr>) = (rst, snd (lines s)) \<and> input_ok (s\<lparr>in_r := r\<rparr>)"
proof (induction "unat n" arbitrary: n s dst got)
  case 0
  then have "n = 0" by (simp add: unat_eq_zero)
  then have "consoleread_loop target n dst s = Inr (Return (False, n - of_nat (length got), dst @ got), s\<lparr>in_r := in_r s\<rparr>)"
    using 0 by (subst consoleread_loop.simps) auto
  then show ?case using 0 by (intro exI [of _ "in_r s"]) (auto simp: prod_eq_iff)
next
  case (Suc m)
  have pos: "0 < sint n" using Suc.hyps(2) sint_small [OF Suc.prems(2)] by (simp only:)
  have "n \<noteq> 0" using Suc.hyps(2) by auto
  then have n1: "unat (n - 1) = m" using Suc.hyps(2) unat_minus_one [of n] by simp
  have ne: "in_r s \<noteq> in_w s" using Suc.prems(4) by (auto simp: lines_def Suc.hyps(2) [symmetric])
  note p = lines_pop [OF Suc.prems(1) ne]
  let ?c = "ibuf s ! (unat (in_r s) mod INPUT_BUF)" and ?s = "s\<lparr>in_r := in_r s + 1\<rparr>"
  have tl: "take_line (n = target) (Suc m) (?c # fst (lines ?s)) = Some (got, rst)" using Suc.prems(4) p(1) Suc.hyps(2) by simp
  have lt: "n < target \<longleftrightarrow> n \<noteq> target" using Suc.prems(3) unfolding word_less_nat_alt word_unat_eq_iff by linarith
  consider "?c = EOT" | "?c = 0x0a" | "?c \<noteq> EOT" "?c \<noteq> 0x0a" by blast
  then show ?case
  proof cases
    case 1
    have run: "consoleread_loop target n dst s = Inr (Return (False, n, dst), if n < target then s else ?s)"
      using pos ne 1 by (subst consoleread_loop.simps) (simp add: Let_def EOT_def)
    show ?thesis
    proof (cases "n = target")
      case True
      then have "got = []" "rst = fst (lines ?s)" using tl 1 by simp_all
      then show ?thesis using run True p by (intro exI [of _ "in_r s + 1"]) (simp add: prod_eq_iff)
    next
      case False
      then have "got = []" "rst = fst (lines s)" using tl 1 p(1) by simp_all
      then show ?thesis using run False lt Suc.prems(1) by (intro exI [of _ "in_r s"]) simp
    qed
  next
    case 2
    have "consoleread_loop target n dst s = Inr (Return (False, n - 1, dst @ [?c]), ?s)"
      using pos ne 2 by (subst consoleread_loop.simps) (simp add: Let_def)
    then show ?thesis using tl 2 p by (intro exI [of _ "in_r s + 1"]) (auto simp: EOT_def prod_eq_iff)
  next
    case 3
    then obtain got' where g: "take_line False m (fst (lines ?s)) = Some (got', rst)" "got = ?c # got'" using tl by auto
    have run: "consoleread_loop target n dst s = consoleread_loop target (n - 1) (dst @ [?c]) ?s"
      using pos ne 3 by (subst consoleread_loop.simps) (simp add: Let_def EOT_def)
    have "n - 1 \<noteq> target" "unat (n - 1) \<le> unat target" "unat (n - 1) < 2 ^ 31" using n1 Suc.hyps(2) Suc.prems(2,3) by auto
    then obtain r where "consoleread_loop target (n - 1) (dst @ [?c]) ?s = Inr (Return (False, n - 1 - of_nat (length got'), (dst @ [?c]) @ got'), ?s\<lparr>in_r := r\<rparr>)"
        "lines (?s\<lparr>in_r := r\<rparr>) = (rst, snd (lines ?s))" "input_ok (?s\<lparr>in_r := r\<rparr>)"
      using Suc.hyps(1) [OF n1 [symmetric] p(3), of got' "dst @ [?c]"] g(1) n1 by auto
    then show ?thesis using run g(2) p(2) by (intro exI [of _ r]) (simp add: diff_diff_eq add.commute)
  qed
qed

text \<open>
  The inode of the console, locked by the reader as \<open>readi\<close> does, and the buffers that are read under its lock.
\<close>

definition at_console :: "nat \<Rightarrow> 'a kcons_scheme \<Rightarrow> bool" where
  "at_console i s \<longleftrightarrow> quiet s \<and> input_ok s \<and> (\<exists>L n. icache_ok (disk s) L (icache s) \<and> entry_of n i (icache s) \<and> i \<in> L \<and>
     dtype (disk_inode (disk s) n) \<noteq> 0)"

lemma frame_input:
  assumes "frame s (s' :: 'a kcons_scheme)"
  shows "lines s' = lines s" "input_ok s' = input_ok s"
proof -
  have r: "ibuf (rest t) = ibuf t" "in_r (rest t) = in_r t" "in_w (rest t) = in_w t" "in_e (rest t) = in_e t" "panicked (rest t) = panicked t"
    for t :: "'a kcons_scheme" by (simp_all add: rest_def)
  have "rest s' = (rest s)\<lparr>icache := icache s', ptable := ptable s'\<rparr>" using assms by (simp add: frame_def)
  then have "ibuf s' = ibuf s" "in_r s' = in_r s" "in_w s' = in_w s" "in_e s' = in_e s" "panicked s' = panicked s"
    using r [of s] r [of s'] by simp_all
  then show "lines s' = lines s" "input_ok s' = input_ok s" by (simp_all add: lines_def input_ok_def)
qed

lemma quiet_cong: "bufs s' = bufs s \<Longrightarrow> disk s' = disk s \<Longrightarrow> lk s' = lk s \<Longrightarrow> quiet s' = quiet s"
proof -
  assume a: "bufs s' = bufs s" "disk s' = disk s" "lk s' = lk s"
  have "inuse s' = inuse s" unfolding inuse_def a(1) ..
  then show ?thesis using a by (simp add: quiet_def bio_inv_def)
qed

lemma quiet_input: "quiet (s\<lparr>in_r := r\<rparr>) = quiet s" "quiet (s\<lparr>ibuf := ib, in_w := w, in_e := e, serial := out\<rparr>) = quiet s"
  by (rule quiet_cong; simp)+

lemma consoleread_law:
  assumes a: "at_console i s" and n: "unat n < 2 ^ 31" and t: "take_line True (unat n) (fst (lines s)) = Some (got, rst)"
  shows "\<exists>s'. consoleread i n s = Inr (of_nat (length got), got, s') \<and> at_console i s' \<and> lines s' = (rst, snd (lines s))"
proof -
  obtain L m where L: "icache_ok (disk s) L (icache s)" "entry_of m i (icache s)" "i \<in> L" "dtype (disk_inode (disk s) m) \<noteq> 0" and q: "quiet s" and i: "input_ok s"
    using a unfolding at_console_def by blast
  obtain s1 where s1: "iunlock (Some i) s = Inr s1" "cache_at s (L - {i}) (refs (icache s)) s1" "entry_of m i (icache s1)"
    using iunlock_law [OF q L(1-3)] by blast
  have q1: "quiet s1" "disk s1 = disk s" "icache_ok (disk s) (L - {i}) (icache s1)" "lines s1 = lines s" "input_ok s1"
    using s1(2) frame_input [of s s1] i by (auto simp: cache_at_def)
  note c = quiet_calm [OF q1(1)]
  let ?k = "hold LInput (lk s1)" and ?s1 = "s1\<lparr>lk := hold LInput (lk s1)\<rparr>"
  have e: "lines (t\<lparr>lk := x\<rparr>) = lines t" "input_ok (t\<lparr>lk := x\<rparr>) = input_ok t" for x and t :: "'a kcons_scheme" by (simp_all add: lines_def input_ok_def)
  obtain r where r: "consoleread_loop n n [] ?s1 = Inr (Return (False, n - of_nat (length got), got), ?s1\<lparr>in_r := r\<rparr>)"
      "lines (?s1\<lparr>in_r := r\<rparr>) = (rst, snd (lines s))" "input_ok (?s1\<lparr>in_r := r\<rparr>)"
    using consoleread_loop_takes [of ?s1 n n got rst "[]"] n t q1(4,5) by (auto simp: e)
  let ?s2 = "s1\<lparr>in_r := r\<rparr>"
  have "?s1\<lparr>in_r := r\<rparr>\<lparr>lk := lk s1\<rparr> = ?s2" by simp
  then have rel: "release LInput (?s1\<lparr>in_r := r\<rparr>) = Inr ?s2" using calm_release [of "?s1\<lparr>in_r := r\<rparr>" LInput "lk s1"] c by simp
  have l2: "lines ?s2 = (rst, snd (lines s))" "input_ok ?s2" using r(2,3) by (simp_all add: lines_def input_ok_def)
  have q2: "quiet ?s2" "icache_ok (disk ?s2) (L - {i}) (icache ?s2)" "entry_of m i (icache ?s2)" "dtype (disk_inode (disk ?s2) m) \<noteq> 0"
    using q1 s1(3) L(4) by (simp_all add: quiet_input)
  obtain s3 where s3: "ilock (Some i) ?s2 = Inr s3" "cache_at ?s2 (insert i (L - {i})) (refs (icache ?s2)) s3" "entry_of m i (icache s3)"
    using ilock_law [OF q2(1-3) _ q2(4)] by blast
  have "consoleread i n s = Inr (of_nat (length got), got, s3)" using s1(1) r(1) rel s3(1) c by (simp add: consoleread_def acquire_run)
  moreover have "lines s3 = (rst, snd (lines s))" "input_ok s3" using s3(2) frame_input [of ?s2 s3] l2 by (auto simp: cache_at_def)
  moreover have "at_console i s3" unfolding at_console_def using s3(2,3) calculation(3) q2(4)
    by (auto simp: cache_at_def intro!: exI [of _ "insert i (L - {i})"] exI [of _ m])
  ultimately show ?thesis by blast
qed

lemma intr_step_console: "at_console i s \<Longrightarrow> intr_step s s' \<Longrightarrow> input_ok s' \<Longrightarrow> at_console i s'"
proof -
  assume a: "at_console i s" "intr_step s s'" "input_ok s'"
  have "quiet s'" "disk s' = disk s" "icache s' = icache s" using a(1,2) by (auto simp: at_console_def intr_step_def quiet_input)
  then show ?thesis using a(1,3) unfolding at_console_def by simp
qed

text \<open>A read that the bytes do not make up waits for more input, or fails when the process has been killed.\<close>

lemma consoleread_loop_waits:
  "input_ok s \<Longrightarrow> unat n < 2 ^ 31 \<Longrightarrow> take_line fs (unat n) (fst (lines s)) = None \<Longrightarrow> proc_killed s = Inr kd \<Longrightarrow>
   \<exists>dst' r n'. consoleread_loop target n dst s = Inr (if kd then Return (True, n', dst') else Block (length dst'), s\<lparr>in_r := r\<rparr>) \<and> input_ok (s\<lparr>in_r := r\<rparr>)"
proof (induction "unat n" arbitrary: n s dst fs)
  case 0
  then show ?case by (simp add: 0(1) [symmetric])
next
  case (Suc m)
  have pos: "0 < sint n" using Suc.hyps(2) sint_small [OF Suc.prems(2)] by (simp only:)
  have "n \<noteq> 0" using Suc.hyps(2) by auto
  then have n1: "unat (n - 1) = m" using Suc.hyps(2) unat_minus_one [of n] by simp
  show ?case
  proof (cases "in_r s = in_w s")
    case True
    have "consoleread_loop target n dst s = Inr (if kd then Return (True, n, dst) else Block (length dst), s\<lparr>in_r := in_r s\<rparr>)"
      using pos True Suc.prems(4) by (subst consoleread_loop.simps) simp
    moreover have "input_ok (s\<lparr>in_r := in_r s\<rparr>)" using Suc.prems(1) by simp
    ultimately show ?thesis by blast
  next
    case False
    note p = lines_pop [OF Suc.prems(1) False]
    let ?c = "ibuf s ! (unat (in_r s) mod INPUT_BUF)" and ?s = "s\<lparr>in_r := in_r s + 1\<rparr>"
    have "take_line fs (Suc m) (?c # fst (lines ?s)) = None" using Suc.prems(3) p(1) Suc.hyps(2) by simp
    then have c: "?c \<noteq> EOT" "?c \<noteq> 0x0a" "take_line False m (fst (lines ?s)) = None" by (auto split: if_splits)
    have run: "consoleread_loop target n dst s = consoleread_loop target (n - 1) (dst @ [?c]) ?s"
      using pos False c(1,2) by (subst consoleread_loop.simps) (simp add: Let_def EOT_def)
    have k: "proc_killed ?s = Inr kd" using Suc.prems(4) by (cases "curproc s") (simp_all add: proc_killed_def)
    have "unat (n - 1) < 2 ^ 31" using n1 Suc.hyps(2) Suc.prems(2) by simp
    moreover have "take_line False (unat (n - 1)) (fst (lines ?s)) = None" using c(3) n1 by simp
    ultimately obtain dst' r n' where "consoleread_loop target (n - 1) (dst @ [?c]) ?s = Inr (if kd then Return (True, n', dst') else Block (length dst'), ?s\<lparr>in_r := r\<rparr>)"
        "input_ok (?s\<lparr>in_r := r\<rparr>)"
      using Suc.hyps(1) [OF n1 [symmetric] p(3) _ _ k, of False "dst @ [?c]"] by blast
    then have "consoleread_loop target n dst s = Inr (if kd then Return (True, n', dst') else Block (length dst'), s\<lparr>in_r := r\<rparr>)" "input_ok (s\<lparr>in_r := r\<rparr>)"
      using run by simp_all
    then show ?thesis by blast
  qed
qed

lemma consoleread_waits:
  assumes a: "at_console i s" and n: "unat n < 2 ^ 31" and t: "take_line True (unat n) (fst (lines s)) = None"
    and p: "curproc s = Some p" "p < length (ptable s)" "\<not> killed (ptable s ! p)"
  shows "consoleread i n s = Inl (Sleep ChanInput)"
proof -
  obtain L m where L: "icache_ok (disk s) L (icache s)" "entry_of m i (icache s)" "i \<in> L" and q: "quiet s" and i: "input_ok s"
    using a unfolding at_console_def by blast
  obtain s1 where s1: "iunlock (Some i) s = Inr s1" "cache_at s (L - {i}) (refs (icache s)) s1" "entry_of m i (icache s1)"
    using iunlock_law [OF q L] by blast
  have q1: "quiet s1" "frame s s1" "lines s1 = lines s" "input_ok s1" using s1(2) frame_input [of s s1] i by (auto simp: cache_at_def)
  have "killed (ptable s1 ! p) = killed (ptable s ! p)" using q1(2) p(2) by (auto simp: frame_def woken_def list_all2_conv_all_nth)
  then have k: "proc_killed s1 = Inr False" using frame_fields(1) [OF q1(2)] p by (simp add: proc_killed_def)
  note c = quiet_calm [OF q1(1)]
  let ?s1 = "s1\<lparr>lk := hold LInput (lk s1)\<rparr>"
  have e: "lines ?s1 = lines s1" "input_ok ?s1 = input_ok s1" "proc_killed ?s1 = proc_killed s1" by (simp_all add: lines_def input_ok_def)
  have k1: "proc_killed ?s1 = Inr False" using e(3) k by (simp only:)
  have "input_ok ?s1" "take_line True (unat n) (fst (lines ?s1)) = None" using e(1,2) q1 t by simp_all
  then obtain dst' r n' where "consoleread_loop n n [] ?s1 = Inr (if False then Return (True, n', dst') else Block (length dst'), ?s1\<lparr>in_r := r\<rparr>)"
    using consoleread_loop_waits [OF _ n _ k1, of True n "[]"] by blast
  then show ?thesis using s1(1) c by (simp add: consoleread_def acquire_run)
qed

text \<open>
  C32. The console's line discipline. Bytes arrive by the interrupt while a process reads the console; the read returns
  what the editor \<open>feed\<close> makes of them: the ready bytes up to and with the first newline (at most \<open>n\<close>), with what was
  erased by backspace, delete and kill gone, a carriage return a newline, and an end-of-file mark ending the read. The
  rest of the input stays for the next read. When the bytes do not make up the read, a process that is not killed sleeps.
\<close>

theorem console_lines:
  assumes "at_console i s" "unat n < 2 ^ 31" "curproc s = Some p" "p < length (ptable s)" "\<not> killed (ptable s ! p)"
  shows "\<exists>s1. consoleintr cs s = Inr s1 \<and> lines s1 = fold feed cs (lines s) \<and>
    (case take_line True (unat n) (fst (fold feed cs (lines s))) of
      None \<Rightarrow> consoleread i n s1 = Inl (Sleep ChanInput)
    | Some (got, left) \<Rightarrow> \<exists>s2. consoleread i n s1 = Inr (of_nat (length got), got, s2) \<and> at_console i s2 \<and>
        lines s2 = (left, snd (fold feed cs (lines s))))"
proof -
  have "input_ok s" "calm (lk s)" using assms(1) by (simp_all add: at_console_def quiet_calm)
  then obtain s1 where s1: "consoleintr cs s = Inr s1" "intr_step s s1" "input_ok s1" "lines s1 = fold feed cs (lines s)"
    using consoleintr_law by blast
  note a = intr_step_console [OF assms(1) s1(2,3)]
  have p: "curproc s1 = Some p" "p < length (ptable s1)" "\<not> killed (ptable s1 ! p)"
    using s1(2) assms(3-5) by (auto simp: intr_step_def woken_def list_all2_conv_all_nth)
  show ?thesis using s1(1,4) consoleread_law [OF a assms(2)] consoleread_waits [OF a assms(2) _ p]
    by (intro exI [of _ s1]) (auto split: option.split)
qed

text \<open>A console with an empty buffer: \<^verbatim>\<open>a\<close>, \<^verbatim>\<open>b\<close>, backspace, \<^verbatim>\<open>c\<close>, return are read as \<^verbatim>\<open>ac\<close> and a newline.\<close>

definition cons_start :: kcons where
  "cons_start = \<lparr>lk = lk zero_kbio, mem = mem zero_kbio, freelist = 0, tlb = tlb zero_kbio,
     ptable = [], nextpid = 1, curproc = None, initproc = None, disk = (\<lambda>_. replicate 512 1),
     bufs = bufs zero_kbio, icache = [],
     pipes = (\<lambda>_. \<lparr>pdata = replicate PIPESIZE 0, nread = 0, nwrite = 0, readopen = True, writeopen = True\<rparr>),
     ftable = [], ibuf = [], in_r = 0, in_w = 0, in_e = 0, cons_locking = True, panicked = False, serial = []\<rparr>"

definition cons_demo :: kcons where
  "cons_demo = (binit cons_start)\<lparr>ptable := [zero_proc], icache := [zero_inode\<lparr>idev := ROOTDEV, inum := 5, iref := 1, iflags := 1\<rparr>],
     curproc := Some 0, ibuf := replicate INPUT_BUF 0, in_r := 0, in_w := 0, in_e := 0, panicked := False\<rparr>"

lemma cons_demo_fields: "quiet cons_demo" "disk cons_demo = (\<lambda>_. replicate 512 1)" "icache cons_demo = [zero_inode\<lparr>idev := ROOTDEV, inum := 5, iref := 1, iflags := 1\<rparr>]"
  "lines cons_demo = ([], [])" "input_ok cons_demo" "curproc cons_demo = Some 0" "ptable cons_demo = [zero_proc]"
proof -
  have "bio_inv (binit cons_start)" "inuse (binit cons_start) = Map.empty" "disk (binit cons_start) = (\<lambda>_. replicate 512 1)"
    using binit_law [of cons_start] zero_kbio_cold by (simp_all add: cons_start_def)
  then have "quiet (binit cons_start)" "disk (binit cons_start) = (\<lambda>_. replicate 512 1)" by (simp_all add: quiet_def)
  then show "quiet cons_demo" "disk cons_demo = (\<lambda>_. replicate 512 1)" using quiet_cong [of cons_demo "binit cons_start"] by (simp_all add: cons_demo_def)
  show l: "lines cons_demo = ([], [])" by (simp add: cons_demo_def lines_def)
  show "input_ok cons_demo" using l by (simp add: cons_demo_def input_ok_def)
qed (simp_all add: cons_demo_def)

theorem console_lines_witness:
  "\<exists>s1 s2. consoleintr [0x61, 0x62, 0x08, 0x63, 0x0d] cons_demo = Inr s1 \<and> consoleread 0 10 s1 = Inr (3, [0x61, 0x63, 0x0a], s2)"
proof -
  have "dtype (disk_inode (disk cons_demo) 5) \<noteq> 0" unfolding cons_demo_fields(2) by (simp add: disk_inode_def get_dinode_def get16_def dinode_off_def IPB_def BSIZE_def le16_def)
  then have a: "at_console 0 cons_demo" unfolding at_console_def using cons_demo_fields
    by (auto simp: icache_ok_def entry_ok_def entry_of_def zero_inode_def intro!: exI [of _ "{0}"] exI [of _ 5])
  have p: "0 < length (ptable cons_demo)" "\<not> killed (ptable cons_demo ! 0)" by (simp_all add: cons_demo_fields zero_proc_def)
  have f: "fold feed [0x61, 0x62, 0x08, 0x63, 0x0d] (lines cons_demo) = ([0x61, 0x63, 0x0a], [])" by (simp add: cons_demo_fields INPUT_BUF_def EOT_def Let_def)
  have "take_line True (Suc (Suc (Suc m))) [0x61, 0x63, 0x0a] = Some ([0x61, 0x63, 0x0a], [])" for m by (simp add: EOT_def)
  note this [of 7]
  moreover have "unat (10 :: u32) = Suc (Suc (Suc 7))" by simp
  ultimately have t: "take_line True (unat (10 :: u32)) [0x61, 0x63, 0x0a] = Some ([0x61, 0x63, 0x0a], [])" by (simp only:)
  have n: "unat (10 :: u32) < 2 ^ 31" by simp
  show ?thesis using console_lines [OF a n cons_demo_fields(6) p, of "[0x61, 0x62, 0x08, 0x63, 0x0d]", unfolded f fst_conv t option.case prod.case] by force
qed

end
