(* ===== verification/Boot.thy ===== *)
theory Boot
  imports Descriptors Proc_Fork Scheduler Console_Lines
begin

text \<open>
  Start-up (\<^verbatim>\<open>src/main.c\<close>, \<^verbatim>\<open>src/trap.c\<close>, \<^verbatim>\<open>timer_init\<close> of \<^verbatim>\<open>src/timer.c\<close>, \<^verbatim>\<open>scif_init\<close> of \<^verbatim>\<open>src/scif.c\<close>, and the small
  operations of \<^verbatim>\<open>src/vm.c\<close>, \<^verbatim>\<open>src/proc.c\<close>, \<^verbatim>\<open>src/ide.c\<close> and \<^verbatim>\<open>src/mmu.h\<close> that \<^verbatim>\<open>main\<close> calls). The theorem is the base of
  every invariant of the other theories: from zeroed memory, \<^verbatim>\<open>main\<close> reaches the scheduler with all of them established.
\<close>

section \<open>Devices\<close>

text \<open>The registers of the timer, of the serial line and of the memory management unit that start-up writes.\<close>

record kboot = ksys +
  xv6_scif_init :: int
  tstr :: u8
  tcor :: u32
  tcnt :: u32
  tcr :: u16
  ipra :: u16
  scscr :: u16
  scfcr :: u16
  scsmr :: u16
  scbrr :: u8
  iprc :: u32
  mmucr :: u32
  kpgdir :: u32
  booted :: bool

definition TIMER_RATE :: u32 where "TIMER_RATE = 12500000"
definition TSTR_STR_BIT0 :: u8 where "TSTR_STR_BIT0 = 1"
definition TSTR_STR_MASK :: u8 where "TSTR_STR_MASK = 7"
definition TCR_UNF_BIT :: u16 where "TCR_UNF_BIT = 0x100"
definition TCR_UNIE_BIT :: u16 where "TCR_UNIE_BIT = 0x20"
definition TCR_CKEG_MASK :: u16 where "TCR_CKEG_MASK = 0x18"
definition TCR_TPSC_MASK :: u16 where "TCR_TPSC_MASK = 7"
definition TCR_TPSC_PCK4 :: u16 where "TCR_TPSC_PCK4 = 0"
definition TINTLVL :: u16 where "TINTLVL = 0xd"

definition timer_init :: "'a kboot_scheme \<Rightarrow> 'a kboot_scheme" where
  "timer_init s =
     (let s = s\<lparr>tstr := tstr s AND (NOT TSTR_STR_BIT0 AND TSTR_STR_MASK)\<rparr>;
          s = s\<lparr>tcor := TIMER_RATE\<rparr>;
          s = s\<lparr>tcnt := TIMER_RATE\<rparr>;
          s = s\<lparr>tcr := tcr s AND NOT (TCR_UNF_BIT OR TCR_UNIE_BIT OR TCR_CKEG_MASK OR TCR_TPSC_MASK)\<rparr>;
          s = s\<lparr>tcr := tcr s OR (TCR_UNIE_BIT OR TCR_TPSC_PCK4)\<rparr>;
          s = s\<lparr>ipra := (ipra s AND 0x0fff) OR push_bit 12 TINTLVL\<rparr> in
      s\<lparr>tstr := (tstr s AND TSTR_STR_MASK) OR TSTR_STR_BIT0\<rparr>)"

definition SCIF_BPS_115200 :: u8 where "SCIF_BPS_115200 = 8"
definition FCR_RFRST :: u16 where "FCR_RFRST = 0x0002"
definition FCR_TFRST :: u16 where "FCR_TFRST = 0x0004"
definition FCR_TTRG_1 :: u16 where "FCR_TTRG_1 = 0x0030"
definition FCR_RTRG_1 :: u16 where "FCR_RTRG_1 = 0x0000"
definition SCR_RE :: u16 where "SCR_RE = 0x0010"
definition SCR_TE :: u16 where "SCR_TE = 0x0020"
definition SCR_RIE :: u16 where "SCR_RIE = 0x0040"

definition scif_init :: "'a kboot_scheme \<Rightarrow> 'a kboot_scheme" where
  "scif_init s =
     (let s = s\<lparr>xv6_scif_init := 1\<rparr>;
          s = s\<lparr>scscr := 0\<rparr>;
          s = s\<lparr>scfcr := FCR_RFRST OR FCR_TFRST OR FCR_TTRG_1 OR FCR_RTRG_1\<rparr>;
          s = s\<lparr>scsmr := 0\<rparr>;
          s = s\<lparr>scbrr := SCIF_BPS_115200\<rparr>;
          s = s\<lparr>scfcr := 0\<rparr>;
          s = s\<lparr>iprc := (iprc s AND 0xffffff0f) OR push_bit 4 0xa\<rparr> in
      s\<lparr>scscr := SCR_RIE OR SCR_TE OR SCR_RE\<rparr>)"

definition enable_mmu :: "'a kboot_scheme \<Rightarrow> 'a kboot_scheme" where
  "enable_mmu s = s\<lparr>mmucr := mmucr s OR 1\<rparr>"

section \<open>The sequence\<close>

text \<open>There is one processor, so \<^verbatim>\<open>ksegment\<close> only clears the current process.\<close>

definition ksegment :: "'a kproc_scheme \<Rightarrow> 'a kproc_scheme" where
  "ksegment s = s\<lparr>curproc := None\<rparr>"

definition pinit :: "'a kproc_scheme \<Rightarrow> 'a kproc_scheme" where
  "pinit s = initlock LPtable ''ptable'' s"

definition tvinit :: "'a ksys_scheme \<Rightarrow> 'a ksys_scheme" where
  "tvinit s = initlock LTicks ''time'' s"

definition ideinit :: "'a kbio_scheme \<Rightarrow> 'a kbio_scheme" where
  "ideinit s = initlock LIde ''ide'' s"

definition kvmalloc :: "'a kboot_scheme \<Rightarrow> 'a kboot_scheme res" where
  "kvmalloc s = bindR (setupkvm s) (\<lambda>(pd, s). Inr (s\<lparr>kpgdir := pd\<rparr>))"

text \<open>\<^verbatim>\<open>switchkvm\<close> does nothing on this machine.\<close>

definition switchkvm :: "'a kboot_scheme \<Rightarrow> 'a kboot_scheme" where
  "switchkvm s = s"

definition vmenable :: "'a kboot_scheme \<Rightarrow> 'a kboot_scheme" where
  "vmenable s = enable_mmu (switchkvm s)"

text \<open>The state in which \<^verbatim>\<open>mpmain\<close> enters the scheduler, which does not return.\<close>

definition mpmain :: "'a kboot_scheme \<Rightarrow> 'a kboot_scheme res" where
  "mpmain s =
     bindR (cprintf (lit ''cpu%d: starting'' @ [0x0a]) [AInt 0] (vmenable s)) (\<lambda>s.
     Inr (s\<lparr>booted := True\<rparr>))"

definition mainc :: "u32 \<Rightarrow> u32 \<Rightarrow> u32 \<Rightarrow> 'a kboot_scheme \<Rightarrow> 'a kboot_scheme res" where
  "mainc forkret start len s =
     bindR (cprintf ([0x0a] @ lit ''cpu%d: starting xv6'' @ [0x0a, 0x0a]) [AInt 0] s) (\<lambda>s.
     bindR (kvmalloc s) (\<lambda>s.
     let s = pinit s; s = tvinit s; s = binit s; s = fileinit s; s = iinit s; s = ideinit s; s = timer_init s in
     bindR (userinit forkret start len s) mpmain))"

text \<open>The processor's stack pointer moves to the page \<^verbatim>\<open>jkstack\<close> allocates, which therefore stays off the free list.\<close>

definition jkstack :: "u32 \<Rightarrow> u32 \<Rightarrow> u32 \<Rightarrow> 'a kboot_scheme \<Rightarrow> 'a kboot_scheme res" where
  "jkstack forkret start len s =
     bindR (kalloc s) (\<lambda>(stack, s).
     if stack = 0 then Inl (Panic (''jkstack'' @ [CHR 0x0A])) else mainc forkret start len s)"

text \<open>
  \<open>kend\<close> is the end of the kernel image, \<open>start\<close> and \<open>len\<close> the program of the first process in it, \<open>forkret\<close> the
  address a new process starts at: all from the linker.
\<close>

definition xv6_main :: "u32 \<Rightarrow> u32 \<Rightarrow> u32 \<Rightarrow> u32 \<Rightarrow> 'a kboot_scheme \<Rightarrow> 'a kboot_scheme res" where
  "xv6_main kend forkret start len s =
     (let s = scif_init s; s = ksegment s; s = consoleinit s in
      bindR (kinit kend s) (jkstack forkret start len))"

section \<open>Exceptions\<close>

definition trap :: "'a kboot_scheme \<Rightarrow> 'a kboot_scheme res" where
  "trap s = bindR (cprintf (lit ''unexpected trap'' @ [0x0a]) [] s) (\<lambda>_. Inl Spin)"

text \<open>\<^verbatim>\<open>do_tlb_miss\<close> does nothing.\<close>

definition do_tlb_miss :: "'a kboot_scheme \<Rightarrow> 'a kboot_scheme" where
  "do_tlb_miss s = s"

definition do_tlb_violation :: "'a kboot_scheme \<Rightarrow> 'a kboot_scheme res" where
  "do_tlb_violation s =
     (case curproc s of
       None \<Rightarrow> Inl Fault
     | Some me \<Rightarrow>
         bindR (cprintf (lit ''pid %d %s: access violation -- killed'' @ [0x0a])
             [AInt (pid (ptable s ! me)), AStr (Some (cstr (array (pname (ptable s ! me))) 16))] s) (\<lambda>s.
         exit (upd_proc me (\<lambda>p. p\<lparr>killed := True\<rparr>) s)))"

section \<open>Running the sequence\<close>

lemma binit_run:
  "\<exists>bs. binit s = (initlock LBcache ''bcache'' s)\<lparr>bufs := bs\<rparr>"
proof -
  have loop: "\<exists>bs. binit_loop b n t = t\<lparr>bufs := bs\<rparr>" for b n and t :: "'a kbio_scheme"
  proof (induction n arbitrary: b t)
    case 0
    show ?case by (auto intro: exI [of _ "bufs t"])
  next
    case (Suc n)
    obtain bs where "binit_loop b (Suc n) t = binit_loop (Suc b) n (t\<lparr>bufs := bs\<rparr>)" by (auto simp: upd_buf_def Let_def)
    moreover obtain bs' where "binit_loop (Suc b) n (t\<lparr>bufs := bs\<rparr>) = t\<lparr>bufs := bs, bufs := bs'\<rparr>" using Suc.IH by blast
    ultimately show ?case by auto
  qed
  obtain bs where "binit s = binit_loop 0 NBUF ((initlock LBcache ''bcache'' s)\<lparr>bufs := bs\<rparr>)" by (auto simp: binit_def upd_buf_def Let_def)
  moreover obtain bs' where "binit_loop 0 NBUF ((initlock LBcache ''bcache'' s)\<lparr>bufs := bs\<rparr>) = (initlock LBcache ''bcache'' s)\<lparr>bufs := bs, bufs := bs'\<rparr>" using loop by blast
  ultimately show ?thesis by auto
qed

lemma kinit_loop_frame:
  "kmem_idle s \<Longrightarrow> page_addr p \<or> p = PHYSTOP \<Longrightarrow> unat p + 4096 * n = unat PHYSTOP \<Longrightarrow> kinit_loop p s = Inr s' \<Longrightarrow>
   kmem.more s' = kmem.more s \<and> lk s' = (if n = 0 then lk s else cycle (lk s)) \<and> (\<forall>x. unat x < unat p \<longrightarrow> mem s' x = mem s x)"
proof (induction n arbitrary: p s)
  case 0
  then have "p = PHYSTOP" by (simp add: word_unat_eq_iff)
  then have "s' = s" using "0.prems"(4) by (subst (asm) kinit_loop.simps) (simp add: PHYSTOP_def PGSIZE_def)
  then show ?case by simp
next
  case (Suc n)
  from Suc.prems(2,3) have p: "page_addr p" by auto
  have p_nat: "unat p + 4096 * Suc n = 0x8d000000" using Suc.prems(3) by (simp add: PHYSTOP_def)
  then have nx: "unat (p + 4096) = unat p + 4096" "unat (p + 4095) = unat p + 4095" by (simp_all add: unat_word_ariths)
  have lt: "p + PGSIZE - 1 < PHYSTOP" using nx p_nat by (simp add: PGSIZE_def PHYSTOP_def word_less_nat_alt add.commute [of p])
  let ?s1 = "s\<lparr>mem := store32 p (freelist s) (memset (mem s) p 1 4096), freelist := p, lk := cycle (lk s)\<rparr>"
  note k = kfree_run [OF Suc.prems(1) p]
  have r: "kinit_loop (p + 4096) ?s1 = Inr s'" using Suc.prems(4) lt k by (subst (asm) kinit_loop.simps) (simp add: PGSIZE_def)
  have page': "page_addr (p + 4096) \<or> p + 4096 = PHYSTOP"
  proof (cases n)
    case 0
    with p_nat nx have "unat (p + 4096) = unat PHYSTOP" by (simp add: PHYSTOP_def)
    then show ?thesis by (simp add: word_unat_eq_iff)
  next
    case (Suc k)
    with p p_nat nx show ?thesis by (auto simp: page_addr_nat)
  qed
  have i: "kmem_idle ?s1" using Suc.prems(1) by (simp add: kmem_idle_def)
  have low: "mem ?s1 x = mem s x" if "unat x < unat p" for x
  proof -
    have "\<not> in_page p x" using that p by (auto simp: in_page_nat page_addr_nat)
    moreover have "x \<notin> {p, p + 1, p + 2, p + 3}" using calculation p in_page_word by blast
    ultimately show ?thesis by (simp add: store32_apart memset_apply in_page_def)
  qed
  have n1: "unat (p + 4096) + 4096 * n = unat PHYSTOP" using p_nat nx by (simp add: PHYSTOP_def)
  have "kmem.more s' = kmem.more ?s1 \<and> lk s' = (if n = 0 then lk ?s1 else cycle (lk ?s1)) \<and> (\<forall>x. unat x < unat (p + 4096) \<longrightarrow> mem s' x = mem ?s1 x)"
    by (rule Suc.IH [OF i page' n1 r])
  then show ?case using low nx(1) by simp
qed

section \<open>The first process\<close>

lemma setupkvm_run:
  assumes "room s (d # ps)"
  shows "\<exists>s'. setupkvm s = Inr (d, s') \<and> d \<noteq> 0 \<and> page_addr d \<and> d \<notin> set ps \<and> room s' ps \<and> loc (mem s') d = [Dir \<mapsto> d] \<and>
    only_in {d} (mem s) (mem s') \<and> same_rest s s'"
proof -
  obtain s1 where k: "kalloc s = Inr (d, s1)" "room s1 ps" "mem s1 = mem s" "d \<noteq> 0" "same_rest s s1" using kalloc_room [OF assms] by blast
  have d: "page_addr d" "d \<notin> set ps" using room_pages [OF assms] by auto
  let ?z = "memset (mem s) d 0 (unat PGSIZE)"
  have "room (s1\<lparr>mem := ?z\<rparr>) ps" by (rule room_frame [OF k(2), of "{d}"]) (use d k(3) zero_page(1) in auto)
  moreover have "setupkvm s = Inr (d, s1\<lparr>mem := ?z\<rparr>)" using k by (simp add: setupkvm_def)
  ultimately show ?thesis using d k loc_zero [OF d(1) zero_page(2)] zero_page(1) by (intro exI [of _ "s1\<lparr>mem := ?z\<rparr>"]) auto
qed

text \<open>The first program: one page that starts with the program and is zero after it.\<close>

lemma inituvm_run:
  assumes r: "room s (m # t # ps)" and d: "page_addr d" "d \<notin> set (m # t # ps)" "loc (mem s) d = [Dir \<mapsto> d]"
    and src: "len < PGSIZE" "unat start + unat len < 2 ^ 32" "\<forall>j<unat len. \<forall>q\<in>{d, m, t}. \<not> in_page q (start + of_nat j)"
  shows "\<exists>s'. inituvm d start len s = Inr s' \<and> room s' ps \<and> same_rest s s' \<and> only_in {d, m, t} (mem s) (mem s') \<and>
    space_ok (mem s') d \<and> used (mem s') d = {d, m, t} \<and>
    (\<forall>va. user_byte (mem s') d va = (if unat va < unat len then Some (mem s (start + va)) else if unat va < 4096 then Some 0 else None))"
proof -
  obtain s1 where k: "kalloc s = Inr (m, s1)" "room s1 (t # ps)" "mem s1 = mem s" "same_rest s s1" using kalloc_room [OF r] by blast
  have pa: "page_addr m" "page_addr t" "m \<notin> set (t # ps)" "t \<notin> set ps" using room_pages [OF r] by auto
  let ?z = "memset (mem s) m 0 (unat PGSIZE)" and ?s2 = "s1\<lparr>mem := memset (mem s) m 0 (unat PGSIZE)\<rparr>"
  have r2: "room ?s2 (t # ps)" by (rule room_frame [OF k(2), of "{m}"]) (use pa k(3) zero_page(1) in auto)
  have ok0: "space_ok (mem s) d" "used (mem s) d = {d}" using space_zero [OF d(1,3)] by auto
  have l2: "loc ?z d = [Dir \<mapsto> d]" using loc_frame [OF zero_page(1) _ _ ok0(1), of m] pa(1) d ok0(2) by auto
  then have ok2: "space_ok ?z d" "used ?z d = {d}" using space_zero [OF d(1)] by auto
  have none: "tab ?z d i = None" "frm ?z d i j = None" for i j using fun_cong [OF l2, of "Tab i"] fun_cong [OF l2, of "Frm i j"] by simp_all
  obtain s3 t' ps' where m3: "map_page d 0 m PTEL_DEFAULT ?s2 = Inr (True, s3)" "room s3 ps'"
      "loc (mem s3) d = (loc ?z d)(Tab 0 \<mapsto> t', Frm 0 0 \<mapsto> m)" "space_ok (mem s3) d" "only_in {d, t'} ?z (mem s3)"
      "used (mem s3) d = insert m (insert t' (used ?z d))" "same_rest ?s2 s3" "t # ps = t' # ps'"
    using map_page_run [OF r2, where pg = d and p = m and a = 0 and i = 0 and j = 0] ok2 d(2) pa none by (auto simp: dirx_def tabx_def)
  then have t': "t' = t" "ps' = ps" by auto
  let ?m4 = "memmove (mem s3) m start len"
  have mn: "unat m + 4096 \<le> 2 ^ 32" using pa(1) by (simp add: page_addr_nat)
  then have mv: "?m4 = (\<lambda>x. if x - m < len then mem s3 (start + (x - m)) else mem s3 x)"
    using src(1,2) by (intro memmove_eq) (auto simp: word_less_nat_alt PGSIZE_def)
  have o4: "only_in {m} (mem s3) ?m4" using src(1) unfolding mv only_in_def in_page_def by (auto simp: word_less_nat_alt PGSIZE_def)
  have r4: "room (s3\<lparr>mem := ?m4\<rparr>) ps" by (rule room_frame [OF m3(2) [unfolded t'(2)] o4]) (use pa in auto)
  have dt: "d \<noteq> m" "d \<noteq> t" "m \<noteq> t" using d(2) pa(3) by auto
  have l3: "loc (mem s3) d = [Dir \<mapsto> d, Tab 0 \<mapsto> t, Frm 0 0 \<mapsto> m]" using m3(3) l2 t'(1) by simp
  have tabs: "tables (mem s3) d \<subseteq> {d, t}"
    using fun_cong [OF l3, of "Tab i" for i] by (auto simp: tables_def split: if_splits)
  have l4: "loc ?m4 d = loc (mem s3) d" by (rule loc_tables [OF o4]) (use pa(1) tabs dt m3(4) in auto)
  have out: "mem s3 x = mem s x" if "\<not> in_page d x" "\<not> in_page m x" "\<not> in_page t x" for x
    using that m3(5) zero_page(1) [of m "mem s"] by (auto simp: only_in_def t')
  have ub: "user_byte ?m4 d va = (if unat va < unat len then Some (mem s (start + va)) else if unat va < 4096 then Some 0 else None)" for va
  proof (cases "unat va < 4096")
    case True
    have f: "frm ?m4 d 0 0 = Some m" using fun_cong [OF l4, of "Frm 0 0"] l3 by simp
    have ip: "in_page m (m + va)" using True by (simp add: in_page_def)
    have zero: "mem s3 (m + va) = 0"
    proof -
      have "\<not> in_page d (m + va)" "\<not> in_page t (m + va)" using ip pages_disjoint d(1) pa(1,2) dt by blast+
      then have "mem s3 (m + va) = ?z (m + va)" using m3(5) by (auto simp: only_in_def t')
      then show ?thesis using zero_page(2) [OF ip] by simp
    qed
    have "mem s3 (start + va) = mem s (start + va)" if "unat va < unat len"
      using src(3) [rule_format, OF that] out [of "start + va"] by simp
    then show ?thesis using True f zero unfolding user_byte_def mv by (simp add: dirx_def tabx_def word_less_nat_alt)
  next
    case False
    then have "unat va div 4096 \<noteq> 0" by (simp add: div_eq_0_iff)
    then have "\<not> (dirx (unat va div 4096) = 0 \<and> tabx (unat va div 4096) = 0)" using index_inj [of "unat va div 4096" 0] by (simp add: dirx_def tabx_def)
    then have "frm ?m4 d (dirx (unat va div 4096)) (tabx (unat va div 4096)) = None"
      using fun_cong [OF l4, of "Frm (dirx (unat va div 4096)) (tabx (unat va div 4096))"] l3 by auto
    then show ?thesis using False src(1) by (simp add: user_byte_def word_less_nat_alt PGSIZE_def)
  qed
  have "inituvm d start len s = Inr (s3\<lparr>mem := ?m4\<rparr>)"
    using k(1,3) src(1) m3(1) mappages_one [of 0 d m PTEL_DEFAULT ?s2] by (simp add: inituvm_def PADDR_def)
  moreover have "same_rest s (s3\<lparr>mem := ?m4\<rparr>)" using k(4) m3(7) same_rest_trans by (auto simp: same_rest_def)
  moreover have "only_in {d, m, t} (mem s) ?m4"
    using out o4 by (auto simp: only_in_def)
  moreover have "space_ok ?m4 d" "used ?m4 d = {d, m, t}" using m3(4,6) l4 ok2(2) t'(1) by (auto simp: space_ok_def used_def)
  ultimately show ?thesis using r4 ub by (intro exI [of _ "s3\<lparr>mem := ?m4\<rparr>"]) simp
qed

lemma namei_root:
  assumes "quiet s" "icache_ok (disk s) {} (icache s)" "card (cached (refs (icache s))) < length (icache s)"
  shows "\<exists>j s'. namei [SLASH] s = Inr (Some j, s') \<and>
    cache_at s {} ((refs (icache s))(ROOTINO := refs (icache s) ROOTINO + 1)) s' \<and> entry_of ROOTINO j (icache s')"
proof -
  obtain j s' where g: "iget ROOTDEV ROOTINO s = Inr (j, s')" "cache_at s {} ((refs (icache s))(ROOTINO := refs (icache s) ROOTINO + 1)) s'" "entry_of ROOTINO j (icache s')"
    using iget_law [OF assms(1,2), of ROOTINO] assms(3) by blast
  have "skipelem [SLASH] nm = None" for nm by (simp add: skipelem_def)
  then have "namex_loop [SLASH] False nm j s' = Inr (Some j, nm, s')" for nm by (subst namex_loop.simps) simp
  then show ?thesis using g by (simp add: namei_def namex_def)
qed

lemma woken_awake: "woken ps qs \<Longrightarrow> \<forall>p\<in>set ps. state p \<noteq> SLEEPING \<Longrightarrow> qs = ps"
  unfolding woken_def by (induction rule: list_all2_induct) auto

text \<open>The entry of the first process.\<close>

definition first_proc :: "u32 \<Rightarrow> u32 \<Rightarrow> u32 \<Rightarrow> u32 \<Rightarrow> nat \<Rightarrow> proc \<Rightarrow> proc" where
  "first_proc forkret n k d j p =
     (new_proc forkret n k p)\<lparr>pgdir := d, sz := PGSIZE, tf := (\<lambda>_. 0)(T_SGR := PGSIZE, T_SPC := 0),
       pname := safestrcpy_array (pname p) (array initcode_name), cwd := Some j, state := RUNNABLE\<rparr>"

lemma frame_more:
  assumes "frame s s'"
  shows "lk s' = lk s" "curproc s' = curproc s" "initproc s' = initproc s" "kfs.more s' = kfs.more s" "mem s' = mem s" "freelist s' = freelist s"
proof -
  have r: "lk (rest t) = lk t" "curproc (rest t) = curproc t" "initproc (rest t) = initproc t" "kfs.more (rest t) = kfs.more t" "mem (rest t) = mem t" "freelist (rest t) = freelist t"
    for t :: "'a kfs_scheme" by (simp_all add: rest_def)
  have "rest s' = (rest s)\<lparr>icache := icache s', ptable := ptable s'\<rparr>" using assms by (simp add: frame_def)
  then show "lk s' = lk s" "curproc s' = curproc s" "initproc s' = initproc s" "kfs.more s' = kfs.more s" "mem s' = mem s" "freelist s' = freelist s"
    using r [of s] r [of s'] by simp_all
qed

lemma userinit_run:
  assumes q: "quiet s" and ic: "icache_ok (disk s) {} (icache s)" "card (cached (refs (icache s))) < length (icache s)"
    and r: "room s (k # d # m # t # ps)" and pt: "ptable s \<noteq> []" "\<forall>p\<in>set (ptable s). state p = UNUSED"
    and src: "len < PGSIZE" "unat start + unat len < 2 ^ 32" "\<forall>j<unat len. \<forall>q\<in>set (k # d # m # t # ps). \<not> in_page q (start + of_nat j)"
  shows "\<exists>s' j. userinit forkret start len s = Inr s' \<and> quiet s' \<and> disk s' = disk s \<and> lk s' = lk s \<and> curproc s' = curproc s \<and>
    icache_ok (disk s') {} (icache s') \<and> refs (icache s') = (refs (icache s))(ROOTINO := refs (icache s) ROOTINO + 1) \<and>
    entry_of ROOTINO j (icache s') \<and> initproc s' = Some 0 \<and> kfs.more s' = kfs.more s \<and> room s' ps \<and>
    ptable s' = (ptable s)[0 := first_proc forkret (nextpid s) k d j (ptable s ! 0)] \<and>
    space_ok (mem s') d \<and> used (mem s') d = {d, m, t} \<and>
    (\<forall>va. user_byte (mem s') d va = (if unat va < unat len then Some (mem s (start + va)) else if unat va < 4096 then Some 0 else None))"
proof -
  note c = quiet_calm [OF q]
  obtain p0 pr where p0: "ptable s = p0 # pr" using pt(1) by (cases "ptable s") auto
  have fi: "find_index (\<lambda>p. state p = UNUSED) (ptable s) = Some 0" using p0 pt(2) by simp
  let ?p1 = "new_proc forkret (nextpid s) k p0"
  define s2 where "s2 = s\<lparr>ptable := ?p1 # pr, nextpid := nextpid s + 1, freelist := load32 (mem s) k, initproc := Some 0\<rparr>"
  have al: "allocproc forkret s = Inr (Some 0, s\<lparr>ptable := ?p1 # pr, nextpid := nextpid s + 1, freelist := load32 (mem s) k\<rparr>)"
    using allocproc_run [OF c fi r, of forkret] p0 by simp
  have r2: "room s2 (d # m # t # ps)" using r by (auto simp: s2_def room_def free_pages_def kmem_idle_def)
  obtain s3 where s3: "setupkvm s2 = Inr (d, s3)" "d \<noteq> 0" "page_addr d" "d \<notin> set (m # t # ps)" "room s3 (m # t # ps)" "loc (mem s3) d = [Dir \<mapsto> d]"
      "only_in {d} (mem s2) (mem s3)" "same_rest s2 s3"
    using setupkvm_run [OF r2] by blast
  obtain m3 f3 where e3: "s3 = s2\<lparr>mem := m3, freelist := f3\<rparr>" using same_rest_eq [OF _ s3(8)] c by (auto simp: s2_def)
  define s4 where "s4 = s3\<lparr>ptable := (?p1\<lparr>pgdir := d\<rparr>) # pr\<rparr>"
  have e4: "upd_proc 0 (\<lambda>x. x\<lparr>pgdir := d\<rparr>) s3 = s4" using e3 by (simp add: s4_def upd_proc_def s2_def)
  have c4: "calm (lk s4)" using c e3 by (simp add: s4_def s2_def)
  have r4: "room s4 (m # t # ps)" using s3(5) by (simp add: s4_def room_def free_pages_def kmem_idle_def)
  have src4: "\<forall>j<unat len. \<forall>q\<in>{d, m, t}. \<not> in_page q (start + of_nat j)" using src(3) by simp
  have "loc (mem s4) d = [Dir \<mapsto> d]" using s3(6) by (simp add: s4_def)
  then obtain s5 where s5: "inituvm d start len s4 = Inr s5" "room s5 ps" "same_rest s4 s5" "space_ok (mem s5) d" "used (mem s5) d = {d, m, t}"
      "\<And>va. user_byte (mem s5) d va = (if unat va < unat len then Some (mem s4 (start + va)) else if unat va < 4096 then Some 0 else None)"
    using inituvm_run [OF r4 s3(3,4) _ src(1,2) src4] by blast
  obtain m5 f5 where e5: "s5 = s4\<lparr>mem := m5, freelist := f5\<rparr>" using same_rest_eq [OF c4 s5(3)] by auto
  have low: "mem s4 (start + va) = mem s (start + va)" if "unat va < unat len" for va
    using s3(7) src(3) [rule_format, OF that] by (simp add: only_in_def s4_def s2_def)
  let ?p6 = "?p1\<lparr>pgdir := d, sz := PGSIZE, tf := (\<lambda>_. 0)(T_SGR := PGSIZE, T_SPC := 0), pname := safestrcpy_array (pname ?p1) (array initcode_name)\<rparr>"
  define s6 where "s6 = s5\<lparr>ptable := ?p6 # pr\<rparr>"
  have e6: "upd_proc 0 (\<lambda>x. x\<lparr>sz := PGSIZE, tf := (\<lambda>_. 0)(T_SGR := PGSIZE, T_SPC := 0), pname := safestrcpy_array (pname x) (array initcode_name)\<rparr>) s5 = s6"
    using e5 by (simp add: s6_def upd_proc_def s4_def)
  have f6: "bufs s6 = bufs s" "disk s6 = disk s" "lk s6 = lk s" "icache s6 = icache s" "curproc s6 = curproc s" "initproc s6 = Some 0" "kfs.more s6 = kfs.more s" "mem s6 = mem s5" "freelist s6 = freelist s5"
    using e5 e3 by (simp_all add: s6_def s4_def s2_def)
  have q6: "quiet s6" using q quiet_cong [OF f6(1-3)] by simp
  then obtain j s7 where s7: "namei [SLASH] s6 = Inr (Some j, s7)" "cache_at s6 {} ((refs (icache s))(ROOTINO := refs (icache s) ROOTINO + 1)) s7" "entry_of ROOTINO j (icache s7)"
    using namei_root [of s6] ic f6 by auto
  have fr: "frame s6 s7" "quiet s7" "disk s7 = disk s" "icache_ok (disk s) {} (icache s7)" "refs (icache s7) = (refs (icache s))(ROOTINO := refs (icache s) ROOTINO + 1)"
    using s7(2) f6(2) by (auto simp: cache_at_def)
  have pt7: "ptable s7 = ?p6 # pr"
  proof -
    have "\<forall>p\<in>set (ptable s6). state p \<noteq> SLEEPING" using pt(2) p0 by (auto simp: s6_def new_proc_def)
    then show ?thesis using fr(1) woken_awake by (auto simp: frame_def s6_def)
  qed
  have g7: "lk s7 = lk s" "curproc s7 = curproc s" "initproc s7 = Some 0" "kfs.more s7 = kfs.more s" "mem s7 = mem s5" "freelist s7 = freelist s5"
    using frame_more [OF fr(1)] f6 by simp_all
  define s8 where "s8 = s7\<lparr>ptable := (?p6\<lparr>cwd := Some j, state := RUNNABLE\<rparr>) # pr\<rparr>"
  have e8: "upd_proc 0 (\<lambda>x. x\<lparr>cwd := Some j, state := RUNNABLE\<rparr>) s7 = s8" using pt7 by (simp add: s8_def upd_proc_def)
  have run: "userinit forkret start len s = Inr s8"
    using al s3(1,2) s5(1) s7(1) by (simp add: userinit_def Let_def s2_def [symmetric] e4 e6 e8)
  have "quiet s8" using fr(2) quiet_cong [of s8 s7] by (simp add: s8_def)
  moreover have "room s8 ps" using s5(2) g7 e5 c4 c by (simp add: s8_def room_def free_pages_def kmem_idle_def)
  moreover have "ptable s8 = (ptable s)[0 := first_proc forkret (nextpid s) k d j (ptable s ! 0)]"
    using p0 by (simp add: s8_def first_proc_def new_proc_def)
  ultimately show ?thesis using run g7 fr s7(3) s5(4-6) low by (intro exI [of _ s8] exI [of _ j]) (simp add: s8_def)
qed

section \<open>From power-on to the scheduler\<close>

text \<open>
  Memory as the loader leaves it: the variables that are not initialised are zero, the disk image is in place.
\<close>

definition cold :: "'a kboot_scheme \<Rightarrow> bool" where
  "cold s \<longleftrightarrow> (\<exists>r. lk s = boot_locks r) \<and> freelist s = 0 \<and> length (ptable s) = NPROC \<and> (\<forall>p\<in>set (ptable s). state p = UNUSED) \<and>
     length (bufs s) = NBUF + 1 \<and> (\<forall>i<NBUF. bflags (bufs s ! i) = 0) \<and> (\<forall>sec. length (disk s sec) = 512) \<and>
     icache s \<noteq> [] \<and> (\<forall>ip\<in>set (icache s). iref ip = 0) \<and> (\<forall>p\<in>set (ptable s). ofile p = replicate NOFILE None) \<and> (\<forall>f\<in>set (ftable s). fref f = 0) \<and>
     \<not> panicked s \<and> length (ibuf s) = INPUT_BUF \<and> in_r s = 0 \<and> in_w s = 0 \<and> in_e s = 0"

text \<open>The fields that the first steps of start-up leave alone.\<close>

definition same_vars :: "'a kboot_scheme \<Rightarrow> 'a kboot_scheme \<Rightarrow> bool" where
  "same_vars s s' \<longleftrightarrow> ptable s' = ptable s \<and> nextpid s' = nextpid s \<and> icache s' = icache s \<and> disk s' = disk s \<and> ftable s' = ftable s \<and>
     panicked s' = panicked s \<and> ibuf s' = ibuf s \<and> in_r s' = in_r s \<and> in_w s' = in_w s \<and> in_e s' = in_e s"

lemma same_vars_trans: "same_vars s s' \<Longrightarrow> same_vars s' s'' \<Longrightarrow> same_vars s s''"
  by (simp add: same_vars_def)

text \<open>No lock is held and interrupts are as a finished critical section leaves them.\<close>

definition settled :: "lockst \<Rightarrow> bool" where
  "settled k \<longleftrightarrow> calm k \<and> ncli k = 0"

lemma settled_initlock: "settled (lk s) \<Longrightarrow> settled (lk (initlock l nm s))"
  using calm_initlock [of s l nm] by (simp add: settled_def initlock_def)

lemma settled_inv: "settled k \<Longrightarrow> lock_inv k \<and> held k = {}"
proof -
  assume a: "settled k"
  then have i: "idle l k" for l by (simp add: settled_def)
  then have "held k = {}" by (simp add: held_def idle_def)
  then show ?thesis using a i by (simp add: lock_inv_def settled_def idle_def)
qed

lemma low_page:
  assumes "q \<in> set (pages_between P n)" "page_addr P" "unat P + 4096 * n = unat PHYSTOP" "unat x < unat P"
  shows "\<not> in_page q x"
proof
  assume i: "in_page q x"
  obtain k where k: "k < n" "q = P + of_nat (4096 * k)" using assms(1) by (auto simp: pages_between_def)
  have "unat PHYSTOP < 2 ^ 32" by (rule unat_lt32)
  moreover have "4096 * k < 4096 * n" using k(1) by simp
  ultimately have q: "unat q = unat P + 4096 * k" unfolding k(2) using assms(3) by (intro unat_ptr_add) linarith
  have "unat x < unat q" "unat x \<ge> unat q"
  proof -
    show "unat x < unat q" using q assms(4) by simp
    have "unat (x - q) < 4096" using i by (simp add: in_page_def)
    then show "unat x \<ge> unat q" using \<open>unat x < unat q\<close> q k(1) assms(3) unat_lt32 [of q] by (auto simp: unat_sub_if' PHYSTOP_def)
  qed
  then show False by simp
qed

lemma kinit_boot:
  assumes c: "cold s" and P: "page_addr (PGROUNDUP kend)" "unat (PGROUNDUP kend) + 4096 * n = unat PHYSTOP" "0 < n"
  defines "s1 \<equiv> consoleinit (ksegment (scif_init s))"
  shows "\<exists>s2. kinit kend s1 = Inr s2 \<and> room s2 (rev (pages_between (PGROUNDUP kend) n)) \<and> settled (lk s2) \<and> same_vars s s2 \<and> bufs s2 = bufs s \<and>
    curproc s2 = None \<and> cons_locking s2 \<and> (\<forall>x. unat x < unat (PGROUNDUP kend) \<longrightarrow> mem s2 x = mem s x)"
proof -
  let ?P = "PGROUNDUP kend" and ?i = "initlock LKmem ''kmem'' s1"
  obtain r where r: "lk s = boot_locks r" using c by (auto simp: cold_def)
  have s1: "lk s1 = lk (initlock LInput ''input'' (initlock LCons ''console'' s))" "freelist s1 = freelist s" "mem s1 = mem s" "same_vars s s1" "bufs s1 = bufs s" "curproc s1 = None" "cons_locking s1"
    by (simp_all add: s1_def consoleinit_def ksegment_def scif_init_def initlock_def same_vars_def Let_def)
  have lk: "idle l (lk ?i)" "cpu_ok (lk ?i)" "ncli (lk ?i) = 0" for l
    using s1(1) r by (simp_all add: initlock_def boot_locks_def free_lock_def idle_def cpu_ok_def)
  have ki: "kmem_idle ?i" using lk by (simp add: kmem_idle_def)
  have "free_pages ?i []" using c s1(2) by (simp add: cold_def free_pages_def initlock_def)
  then obtain s2 where s2: "kinit_loop ?P ?i = Inr s2" "kmem_idle s2" "free_pages s2 (rev (pages_between ?P n))"
    using kinit_loop_pages [OF ki, of "[]" ?P n] P by auto
  have f: "kmem.more s2 = kmem.more ?i" "lk s2 = cycle (lk ?i)" "\<forall>x. unat x < unat ?P \<longrightarrow> mem s2 x = mem ?i x"
    using kinit_loop_frame [OF ki _ P(2) s2(1)] P(1,3) by auto
  have e: "s2 = ?i\<lparr>mem := mem s2, freelist := freelist s2, lk := lk s2\<rparr>" using f(1) by (cases s2; cases ?i) simp
  have "settled (lk s2)" using lk f(2) calm_after_cycle [of "lk ?i"] by (simp add: settled_def)
  moreover have v: "same_vars ?i s2" and w: "bufs s2 = bufs ?i" "curproc s2 = curproc ?i" "cons_locking s2 = cons_locking ?i"
    by (subst e, simp add: same_vars_def)+
  moreover have v1: "same_vars s1 ?i" and w1: "bufs ?i = bufs s1" "curproc ?i = curproc s1" "cons_locking ?i = cons_locking s1" "mem ?i = mem s1"
    by (simp_all add: same_vars_def initlock_def)
  moreover have "same_vars s s2" using same_vars_trans [OF same_vars_trans [OF s1(4) v1] v] .
  moreover have "kinit kend s1 = Inr s2" using s2(1) by (simp add: kinit_def del: kinit_loop.simps)
  moreover have "room s2 (rev (pages_between ?P n))" using s2(2,3) by (simp add: room_def)
  ultimately show ?thesis using f(3) s1(3,5-7) by (intro exI [of _ s2]) simp
qed

text \<open>The locks and tables that \<^verbatim>\<open>mainc\<close> initialises.\<close>

definition inits :: "'a kboot_scheme \<Rightarrow> 'a kboot_scheme" where
  "inits s = timer_init (ideinit (iinit (fileinit (binit (tvinit (pinit s))))))"

lemma inits_run:
  assumes l: "settled (lk s)" and b: "length (bufs s) = NBUF + 1" "\<forall>i<NBUF. bflags (bufs s ! i) = 0" "\<forall>sec. length (disk s sec) = 512"
  shows "quiet (inits s) \<and> settled (lk (inits s)) \<and> same_vars s (inits s) \<and> curproc (inits s) = curproc s \<and>
    mem (inits s) = mem s \<and> freelist (inits s) = freelist s \<and> cons_locking (inits s) = cons_locking s"
proof -
  let ?t = "tvinit (pinit s)"
  have lt: "settled (lk ?t)" using l by (simp add: tvinit_def pinit_def settled_initlock)
  have t: "bufs ?t = bufs s" "disk ?t = disk s" by (simp_all add: tvinit_def pinit_def initlock_def)
  obtain bs where bs: "binit ?t = (initlock LBcache ''bcache'' ?t)\<lparr>bufs := bs\<rparr>" using binit_run by blast
  have bi: "bio_inv (binit ?t)" "inuse (binit ?t) = Map.empty" using binit_law [of ?t] b t lt by (simp_all add: settled_def)
  have e: "inits s = timer_init (ideinit (iinit (fileinit (binit ?t))))" by (simp add: inits_def)
  have lb: "settled (lk (binit ?t))" using settled_initlock [OF lt, of LBcache "''bcache''"] bs by simp
  let ?u = "ideinit (iinit (fileinit (binit ?t)))"
  have lu: "settled (lk ?u)" using lb by (simp add: ideinit_def iinit_def fileinit_def settled_initlock)
  have ti: "lk (timer_init u) = lk u" "bufs (timer_init u) = bufs u" "disk (timer_init u) = disk u" for u :: "'a kboot_scheme" by (simp_all add: timer_init_def Let_def)
  have u: "bufs ?u = bufs (binit ?t)" "disk ?u = disk (binit ?t)" by (simp_all add: ideinit_def iinit_def fileinit_def initlock_def)
  have "inuse (inits s) = inuse (binit ?t)" unfolding inuse_def e ti u ..
  then have "quiet (inits s)" using bi lu unfolding quiet_def bio_inv_def e ti u by (simp add: settled_def)
  moreover have "settled (lk (inits s))" using lu e ti by simp
  moreover have "same_vars s (inits s) \<and> curproc (inits s) = curproc s \<and> mem (inits s) = mem s \<and> freelist (inits s) = freelist s \<and> cons_locking (inits s) = cons_locking s"
    unfolding e bs by (simp add: timer_init_def ideinit_def iinit_def fileinit_def tvinit_def pinit_def initlock_def same_vars_def Let_def)
  ultimately show ?thesis by blast
qed

lemma mainc_inits: "mainc forkret start len s =
     bindR (cprintf ([0x0a] @ lit ''cpu%d: starting xv6'' @ [0x0a, 0x0a]) [AInt 0] s) (\<lambda>s. bindR (kvmalloc s) (\<lambda>s. bindR (userinit forkret start len (inits s)) mpmain))"
  by (simp add: mainc_def inits_def Let_def)

lemma cprintf_settled:
  assumes "settled (lk s)" "\<not> panicked s" "fmt_ok fmt args"
  shows "\<exists>out. cprintf fmt args s = Inr (s\<lparr>serial := serial s @ out\<rparr>)"
proof -
  have "idle LCons (lk s) \<and> cpu_ok (lk s) \<and> cycle (lk s) = lk s" using assms(1) by (simp add: settled_def)
  then show ?thesis using prints_cprintf [OF assms(3)] assms(2) unfolding prints_def by blast
qed

lemma mpmain_run:
  assumes "settled (lk s)" "\<not> panicked s"
  shows "\<exists>out. mpmain s = Inr (s\<lparr>mmucr := mmucr s OR 1, serial := serial s @ out, booted := True\<rparr>)"
proof -
  have "fmt_ok (lit ''cpu%d: starting'' @ [0x0a]) [AInt 0]" by (simp add: lit_def of_char_def)
  then obtain out where "cprintf (lit ''cpu%d: starting'' @ [0x0a]) [AInt 0] (vmenable s) = Inr ((vmenable s)\<lparr>serial := serial (vmenable s) @ out\<rparr>)"
    using cprintf_settled [of "vmenable s"] assms by (auto simp: vmenable_def enable_mmu_def switchkvm_def)
  then show ?thesis by (auto simp: mpmain_def vmenable_def enable_mmu_def switchkvm_def)
qed

lemma kvmalloc_run:
  assumes "settled (lk s)" "room s (d # ps)"
  shows "\<exists>m f. kvmalloc s = Inr (s\<lparr>mem := m, freelist := f, kpgdir := d\<rparr>) \<and> room (s\<lparr>mem := m, freelist := f\<rparr>) ps \<and> only_in {d} (mem s) m"
proof -
  obtain s' where s': "setupkvm s = Inr (d, s')" "room s' ps" "only_in {d} (mem s) (mem s')" "same_rest s s'" using setupkvm_run [OF assms(2)] by blast
  then obtain m f where "s' = s\<lparr>mem := m, freelist := f\<rparr>" using same_rest_eq [OF _ s'(4)] assms(1) by (auto simp: settled_def)
  then show ?thesis using s' by (auto simp: kvmalloc_def)
qed

text \<open>The steps of \<^verbatim>\<open>main\<close> before \<^verbatim>\<open>userinit\<close>. Two pages are taken: the stack of start-up and the kernel's page directory.\<close>

lemma boot_first:
  assumes c: "cold s" and P: "page_addr (PGROUNDUP kend)" "unat (PGROUNDUP kend) + 4096 * (n + 2) = unat PHYSTOP"
  shows "\<exists>s5 ps. xv6_main kend forkret start len s = bindR (userinit forkret start len (inits s5)) mpmain \<and> settled (lk s5) \<and>
    room s5 ps \<and> length ps = n \<and> (\<forall>q\<in>set ps. \<forall>x. unat x < unat (PGROUNDUP kend) \<longrightarrow> \<not> in_page q x) \<and>
    same_vars s s5 \<and> bufs s5 = bufs s \<and> curproc s5 = None \<and> (\<forall>x. unat x < unat (PGROUNDUP kend) \<longrightarrow> mem s5 x = mem s x)"
proof -
  let ?P = "PGROUNDUP kend" and ?s1 = "consoleinit (ksegment (scif_init s))"
  define fs where "fs = rev (pages_between ?P (n + 2))"
  obtain s2 where s2: "kinit kend ?s1 = Inr s2" "room s2 fs" "settled (lk s2)" "same_vars s s2" "bufs s2 = bufs s" "curproc s2 = None" "\<forall>x. unat x < unat ?P \<longrightarrow> mem s2 x = mem s x"
    using kinit_boot [OF c P(1,2)] unfolding fs_def by auto
  have lf: "length fs = n + 2" by (simp add: fs_def pages_between_def)
  then obtain stk kd ps where fs: "fs = stk # kd # ps" "length ps = n"
    by (auto simp: length_Suc_conv numeral_eq_Suc)
  have low: "\<not> in_page q x" if "q \<in> set fs" "unat x < unat ?P" for q x
    using low_page [OF _ P(1,2) that(2), of q] that(1) by (simp add: fs_def)
  have np: "\<not> panicked s2" using s2(4) c by (simp add: same_vars_def cold_def)
  obtain f3 where k3: "kalloc s2 = Inr (stk, s2\<lparr>freelist := f3\<rparr>)" "room (s2\<lparr>freelist := f3\<rparr>) (kd # ps)" "stk \<noteq> 0"
  proof -
    obtain s3 where s3: "kalloc s2 = Inr (stk, s3)" "room s3 (kd # ps)" "mem s3 = mem s2" "same_rest s2 s3" "stk \<noteq> 0"
      using kalloc_room [of s2 stk] s2(2) fs(1) by blast
    then have "s3 = s2\<lparr>freelist := freelist s3\<rparr>" using same_rest_eq [OF _ s3(4)] s2(3) by (simp add: settled_def)
    then show ?thesis using that s3 by metis
  qed
  let ?s3 = "s2\<lparr>freelist := f3\<rparr>"
  have "fmt_ok ([0x0a] @ lit ''cpu%d: starting xv6'' @ [0x0a, 0x0a]) [AInt 0]" by (simp add: lit_def of_char_def)
  then obtain out where out: "cprintf ([0x0a] @ lit ''cpu%d: starting xv6'' @ [0x0a, 0x0a]) [AInt 0] ?s3 = Inr (?s3\<lparr>serial := serial ?s3 @ out\<rparr>)"
    using cprintf_settled [of ?s3] s2(3) np by auto
  let ?s4 = "?s3\<lparr>serial := serial ?s3 @ out\<rparr>"
  have "settled (lk ?s4)" "room ?s4 (kd # ps)" using s2(3) k3(2) by (simp_all add: room_def free_pages_def kmem_idle_def)
  then obtain m5 f5 where k5: "kvmalloc ?s4 = Inr (?s4\<lparr>mem := m5, freelist := f5, kpgdir := kd\<rparr>)" "room (?s4\<lparr>mem := m5, freelist := f5\<rparr>) ps" "only_in {kd} (mem ?s4) m5"
    using kvmalloc_run by blast
  define s5 where "s5 = ?s4\<lparr>mem := m5, freelist := f5, kpgdir := kd\<rparr>"
  have run: "xv6_main kend forkret start len s = bindR (userinit forkret start len (inits s5)) mpmain"
    unfolding xv6_main_def Let_def s2(1) bindR_Inr jkstack_def k3(1) prod.case if_not_P [OF k3(3)] mainc_inits out k5(1) s5_def ..
  have "mem s5 x = mem s x" if "unat x < unat ?P" for x
    using k5(3) low [of kd, OF _ that] fs(1) s2(7) that by (simp add: only_in_def s5_def)
  moreover have "settled (lk s5)" "room s5 ps" "same_vars s s5" "bufs s5 = bufs s" "curproc s5 = None"
    using s2(3-6) k5(2) by (simp_all add: s5_def same_vars_def room_def free_pages_def kmem_idle_def)
  moreover have "\<forall>q\<in>set ps. \<forall>x. unat x < unat ?P \<longrightarrow> \<not> in_page q x" using low fs(1) by simp
  ultimately show ?thesis using run fs(2) by blast
qed

text \<open>
  C9. Start-up establishes what every other part of the kernel relies on. From memory as the loader leaves it, with at
  least six free pages, \<^verbatim>\<open>main\<close> runs without a panic up to the scheduler, and there: the scheduler's initial state is
  reached, with the first process runnable and every other entry free; no lock is held; the buffer cache is empty and
  agrees with the disk, which is unchanged; the inode cache is consistent and holds one reference, of the first process,
  to the root; no file is open, and the counts of the file table agree; the console's input is empty; the first process sees the bytes of its program from address 0, zeros up to
  the end of one page, and nothing else; and all pages but six are free.
\<close>

theorem boot_establishes:
  assumes c: "cold s" and P: "page_addr (PGROUNDUP kend)" "unat (PGROUNDUP kend) + 4096 * (n + 6) = unat PHYSTOP"
    and prg: "len < PGSIZE" "unat start + unat len \<le> unat (PGROUNDUP kend)"
  shows "\<exists>s' d ps. xv6_main kend forkret start len s = Inr s' \<and> reach Idle (\<lambda>_. ParkNew) (\<lambda>_. 0) s' \<and>
    quiet s' \<and> disk s' = disk s \<and> icache_ok (disk s') {} (icache s') \<and> refs (icache s') = (\<lambda>i. if i = ROOTINO then 1 else 0) \<and>
    refs_ok s' \<and> input_ok s' \<and> lines s' = ([], []) \<and> initproc s' = Some 0 \<and> state (ptable s' ! 0) = RUNNABLE \<and> pgdir (ptable s' ! 0) = d \<and>
    space_ok (mem s') d \<and> room s' ps \<and> length ps = n \<and> used (mem s') d \<inter> set ps = {} \<and>
    (\<forall>va. user_byte (mem s') d va = (if unat va < unat len then Some (mem s (start + va)) else if unat va < 4096 then Some 0 else None))"
proof -
  let ?P = "PGROUNDUP kend"
  have P4: "unat ?P + 4096 * (n + 4 + 2) = unat PHYSTOP" using P(2) by (simp add: add.assoc)
  obtain s5 qs where s5: "xv6_main kend forkret start len s = bindR (userinit forkret start len (inits s5)) mpmain" "settled (lk s5)"
      "room s5 qs" "length qs = n + 4" "\<forall>q\<in>set qs. \<forall>x. unat x < unat ?P \<longrightarrow> \<not> in_page q x"
      "same_vars s s5" "bufs s5 = bufs s" "curproc s5 = None" "\<forall>x. unat x < unat ?P \<longrightarrow> mem s5 x = mem s x"
    using boot_first [OF c P(1) P4, of forkret start len] by blast
  obtain k d m t ps where qs: "qs = k # d # m # t # ps" "length ps = n" using s5(4) by (auto simp: length_Suc_conv numeral_eq_Suc)
  let ?s6 = "inits s5"
  have "length (bufs s5) = NBUF + 1" "\<forall>i<NBUF. bflags (bufs s5 ! i) = 0" "\<forall>sec. length (disk s5 sec) = 512"
    using c s5(6,7) by (simp_all add: cold_def same_vars_def)
  from inits_run [OF s5(2) this] have i6: "quiet ?s6" "settled (lk ?s6)" "same_vars s5 ?s6" "curproc ?s6 = None" "mem ?s6 = mem s5" "freelist ?s6 = freelist s5"
    using s5(8) by auto
  have v: "same_vars s ?s6" by (rule same_vars_trans [OF s5(6) i6(3)])
  have cld: "\<forall>ip\<in>set (icache s). iref ip = 0" "icache s \<noteq> []" "\<forall>p\<in>set (ptable s). state p = UNUSED" "length (ptable s) = NPROC" "\<not> panicked s" using c by (simp_all add: cold_def)
  have ic: "icache_ok D {} (icache s)" "refs (icache s) = (\<lambda>_. 0)" for D
    using cld(1) by (auto simp: icache_ok_def entry_ok_def fun_eq_iff intro!: refs_absent)
  have room6: "room ?s6 (k # d # m # t # ps)" using s5(3) i6(2,5,6) qs(1) by (simp add: room_def free_pages_def kmem_idle_def settled_def)
  have src: "\<forall>j<unat len. \<forall>q\<in>set (k # d # m # t # ps). \<not> in_page q (start + of_nat j)" "unat start + unat len < 2 ^ 32"
  proof -
    have lt: "unat ?P < 2 ^ 32" by (rule unat_lt32)
    then show "unat start + unat len < 2 ^ 32" using prg(2) by simp
    have "unat (start + of_nat j) < unat ?P" if "j < unat len" for j
      using that prg(2) lt by (subst unat_ptr_add) auto
    then show "\<forall>j<unat len. \<forall>q\<in>set (k # d # m # t # ps). \<not> in_page q (start + of_nat j)" using s5(5) qs(1) by blast
  qed
  have "ptable ?s6 \<noteq> []" "\<forall>p\<in>set (ptable ?s6). state p = UNUSED" "icache_ok (disk ?s6) {} (icache ?s6)" "card (cached (refs (icache ?s6))) < length (icache ?s6)"
    using v cld ic by (auto simp: same_vars_def NPROC_def cached_def)
  then obtain s7 j where s7: "userinit forkret start len ?s6 = Inr s7" "quiet s7" "disk s7 = disk ?s6" "lk s7 = lk ?s6" "curproc s7 = curproc ?s6"
      "icache_ok (disk s7) {} (icache s7)" "refs (icache s7) = (refs (icache ?s6))(ROOTINO := refs (icache ?s6) ROOTINO + 1)" "initproc s7 = Some 0"
      "kfs.more s7 = kfs.more ?s6" "room s7 ps" "ptable s7 = (ptable ?s6)[0 := first_proc forkret (nextpid ?s6) k d j (ptable ?s6 ! 0)]" "space_ok (mem s7) d" "used (mem s7) d = {d, m, t}"
      "\<And>va. user_byte (mem s7) d va = (if unat va < unat len then Some (mem ?s6 (start + va)) else if unat va < 4096 then Some 0 else None)"
    using userinit_run [OF i6(1) _ _ room6 _ _ prg(1) src(2,1), of forkret] by metis
  have up: "panicked s7 = panicked ?s6" "ibuf s7 = ibuf ?s6" "in_r s7 = in_r ?s6" "in_w s7 = in_w ?s6" "in_e s7 = in_e ?s6" "ftable s7 = ftable ?s6" using s7(9) by (cases s7; cases ?s6; simp)+
  have "settled (lk s7)" "\<not> panicked s7" using i6(2) s7(4) up(1) v cld(5) by (simp_all add: same_vars_def)
  then obtain out where "mpmain s7 = Inr (s7\<lparr>mmucr := mmucr s7 OR 1, serial := serial s7 @ out, booted := True\<rparr>)" using mpmain_run by blast
  moreover define s8 where "s8 = s7\<lparr>mmucr := mmucr s7 OR 1, serial := serial s7 @ out, booted := True\<rparr>"
  ultimately have run: "xv6_main kend forkret start len s = Inr s8" using s5(1) s7(1) by simp
  have f8: "lk s8 = lk s7" "curproc s8 = curproc s7" "ptable s8 = ptable s7" "disk s8 = disk s7" "icache s8 = icache s7" "mem s8 = mem s7" "initproc s8 = initproc s7" "bufs s8 = bufs s7" "freelist s8 = freelist s7"
    by (simp_all add: s8_def)
  have pd: "page_addr d" "distinct (k # d # m # t # ps)" using room_pages [OF room6] by auto
  have pt: "ptable s8 = (ptable s)[0 := first_proc forkret (nextpid s) k d j (ptable s ! 0)]" using s7(11) v f8(3) by (simp add: same_vars_def)
  have p0: "0 < length (ptable s)" using cld(4) by (simp add: NPROC_def)
  have "reach Idle (\<lambda>_. ParkNew) (\<lambda>_. 0) s8"
  proof (rule reach.boot)
    show "lock_inv (lk s8)" "held (lk s8) = {}" using settled_inv [OF i6(2)] f8(1) s7(4) by simp_all
    show "curproc s8 = None" "length (ptable s8) = NPROC" using f8(2) s7(5) i6(4) pt cld(4) by simp_all
    show "\<forall>p\<in>set (ptable s8). state p = UNUSED \<or> state p = RUNNABLE \<and> pgdir p \<noteq> 0"
      using cld(3) pd(1) by (auto simp: pt first_proc_def dest!: set_update_subset_insert [THEN subsetD])
  qed
  moreover have "refs_ok s8"
  proof (rule refs_ok_fresh)
    show "\<forall>p\<in>set (ptable s8). ofile p = replicate NOFILE None"
      using c p0 by (auto simp: pt first_proc_def new_proc_def cold_def dest!: set_update_subset_insert [THEN subsetD])
    show "\<forall>f\<in>set (ftable s8). fref f = 0" using c v up(6) by (simp add: s8_def cold_def same_vars_def)
  qed
  moreover have "quiet s8" using s7(2) quiet_cong [OF f8(8,4,1)] by simp
  moreover have "input_ok s8" "lines s8 = ([], [])" using up v c by (simp_all add: s8_def input_ok_def lines_def same_vars_def cold_def)
  moreover have "room s8 ps" using s7(10) f8 by (simp add: room_def free_pages_def kmem_idle_def)
  moreover have "state (ptable s8 ! 0) = RUNNABLE" "pgdir (ptable s8 ! 0) = d" using pt p0 by (simp_all add: first_proc_def)
  moreover have "refs (icache s8) = (\<lambda>i. if i = ROOTINO then 1 else 0)" using s7(7) v ic(2) f8(5) by (auto simp: same_vars_def fun_eq_iff)
  moreover have "disk s8 = disk s" using s7(3) f8(4) v by (simp add: same_vars_def)
  moreover have "user_byte (mem s8) d va = (if unat va < unat len then Some (mem s (start + va)) else if unat va < 4096 then Some 0 else None)" for va
  proof -
    have "mem ?s6 (start + va) = mem s (start + va)" if "unat va < unat len"
    proof -
      have "unat (start + va) < unat ?P" using that prg(2) unat_lt32 [of ?P] by (simp add: unat_word_ariths)
      then show ?thesis using s5(9) i6(5) by simp
    qed
    then show ?thesis using s7(14) [of va] f8(6) by simp
  qed
  moreover have "used (mem s8) d \<inter> set ps = {}" using s7(13) f8(6) pd(2) by auto
  ultimately show ?thesis using run s7(6,8,12) f8 qs(2) by (intro exI [of _ s8] exI [of _ d] exI [of _ ps]) simp
qed

text \<open>Witness: a machine with seven pages behind the kernel and an empty disk.\<close>

definition cold_kboot :: kboot where
  "cold_kboot = kbio.extend (zero_kbio\<lparr>lk := boot_locks 0\<rparr>)
     \<lparr>icache = replicate NINODE zero_inode,
      pipes = (\<lambda>_. \<lparr>pdata = [], nread = 0, nwrite = 0, readopen = False, writeopen = False\<rparr>), ftable = [],
      ibuf = replicate INPUT_BUF 0, in_r = 0, in_w = 0, in_e = 0, cons_locking = False, panicked = False, serial = [],
      bank = (\<lambda>_. 0), pr_reg = 0, ticks = 0, xv6_scif_init = 0, tstr = 0, tcor = 0, tcnt = 0, tcr = 0, ipra = 0,
      scscr = 0, scfcr = 0, scsmr = 0, scbrr = 0, iprc = 0, mmucr = 0, kpgdir = 0, booted = False\<rparr>"

lemma cold_kboot: "cold cold_kboot" "mem cold_kboot = (\<lambda>_. 0)"
  by (auto simp: cold_def cold_kboot_def kbio.defs zero_kbio_def zero_proc_def zero_inode_def NINODE_def INPUT_BUF_def simp del: replicate_Suc)

theorem boot_establishes_witness:
  "\<exists>s' d. xv6_main 0x8cff8ff0 0x8c001000 0x8c100000 52 cold_kboot = Inr s' \<and> quiet s' \<and> refs_ok s' \<and> input_ok s' \<and>
     reach Idle (\<lambda>_. ParkNew) (\<lambda>_. 0) s' \<and> space_ok (mem s') d \<and> user_byte (mem s') d 100 = Some 0"
proof -
  have "page_addr (PGROUNDUP 0x8cff8ff0)" "unat (PGROUNDUP 0x8cff8ff0) + 4096 * (1 + 6) = unat PHYSTOP"
    "unat (0x8c100000 :: u32) + unat (52 :: u32) \<le> unat (PGROUNDUP 0x8cff8ff0)"
    by (simp_all add: page_addr_nat PGROUNDUP_def PGSIZE_def PHYSTOP_def)
  from boot_establishes [where forkret = "0x8c001000", OF cold_kboot(1) this(1,2) _ this(3)] show ?thesis
    by (fastforce simp: PGSIZE_def)
qed

end
