(* ===== verification/Dump.thy ===== *)
theory Dump
  imports Console_Lines
begin

text \<open>
  The dumps of \<^verbatim>\<open>src/vm.c\<close> and \<^verbatim>\<open>src/proc.c\<close> that print memory, page tables, processes and contexts on the console.
  They end and change nothing but the output as long as the indentation fits into \<^verbatim>\<open>dump_head\<close>; \<^verbatim>\<open>dump_pgd\<close>
  looks at every eighth entry of a directory only.
\<close>

section \<open>Operations\<close>

text \<open>\<^verbatim>\<open>head\<close> points \<open>level\<close> characters before the end of the eight blanks of \<^verbatim>\<open>dump_head\<close>.\<close>

definition dump_head :: "u8 list" where "dump_head = replicate 8 0x20"

definition head_at :: "int \<Rightarrow> u8 list res" where
  "head_at level = (if 0 \<le> level \<and> level \<le> 8 then Inr (drop (8 - nat level) dump_head) else Inl Fault)"

definition dump_start :: "u8 list \<Rightarrow> string \<Rightarrow> 'a kcons_scheme \<Rightarrow> 'a kcons_scheme res" where
  "dump_start head f s = cprintf (lit ''%s--- %s start ---'' @ [0x0a]) [AStr (Some head), AStr (Some (lit f))] s"

definition dump_end :: "u8 list \<Rightarrow> string \<Rightarrow> 'a kcons_scheme \<Rightarrow> 'a kcons_scheme res" where
  "dump_end head f s = cprintf (lit ''%s--- %s end ---'' @ [0x0a]) [AStr (Some head), AStr (Some (lit f))] s"

text \<open>Rows equal to the row before are shown as one star. A \<^verbatim>\<open>char\<close> is signed.\<close>

fun dump_mem_loop :: "u32 \<Rightarrow> u8 list \<Rightarrow> nat \<Rightarrow> nat \<Rightarrow> bool \<Rightarrow> 'a kcons_scheme \<Rightarrow> 'a kcons_scheme res" where
  "dump_mem_loop addr head i 0 skip s = Inr s"
| "dump_mem_loop addr head i (Suc n) skip s =
     (let c = \<lambda>k. mem s (addr + of_nat k) in
      if i \<noteq> 0 \<and> list_all (\<lambda>k. c (i + k) = c (i + k - 16)) [0..<16]
      then bindR (if skip then Inr s else cprintf (lit ''%s *'' @ [0x0a]) [AStr (Some head)] s)
             (dump_mem_loop addr head (i + 16) n True)
      else bindR (cprintf (lit ''%s[0x%x] %x %x %x %x %x %x %x %x %x %x %x %x %x %x %x %x'' @ [0x0a])
               (AStr (Some head) # AInt (addr + of_nat i) # map (\<lambda>k. AInt (scast (c (i + k)))) [0..<16]) s)
             (dump_mem_loop addr head (i + 16) n False))"

text \<open>\<^verbatim>\<open>dump_mem\<close> shows a page, whatever \<^verbatim>\<open>size\<close> is.\<close>

definition dump_mem :: "u32 \<Rightarrow> u32 \<Rightarrow> int \<Rightarrow> 'a kcons_scheme \<Rightarrow> 'a kcons_scheme res" where
  "dump_mem addr n level s =
     bindR (head_at level) (\<lambda>head.
     bindR (dump_start head ''dump_mem'' s) (\<lambda>s.
     bindR (dump_mem_loop addr head 0 (unat PGSIZE div 16) False s) (dump_end head ''dump_mem'')))"

fun dump_pages :: "u32 \<Rightarrow> int \<Rightarrow> nat list \<Rightarrow> 'a kcons_scheme \<Rightarrow> 'a kcons_scheme res" where
  "dump_pages pde level [] s = Inr s"
| "dump_pages pde level (k # ks) s =
     (let e = load32 (mem s) (pde + 4 * of_nat k) in
      bindR (if e \<noteq> 0 then dump_mem (PTE_ADDR e) PGSIZE (level + 2) s else Inr s) (dump_pages pde level ks))"

fun dump_pde_loop :: "u32 \<Rightarrow> bool \<Rightarrow> int \<Rightarrow> u8 list \<Rightarrow> nat \<Rightarrow> nat \<Rightarrow> bool \<Rightarrow> 'a kcons_scheme \<Rightarrow> 'a kcons_scheme res" where
  "dump_pde_loop pde also_dump_mem level head i 0 skip s = Inr s"
| "dump_pde_loop pde also_dump_mem level head i (Suc n) skip s =
     (let e = \<lambda>k. load32 (mem s) (pde + 4 * of_nat k) in
      if i \<noteq> 0 \<and> list_all (\<lambda>k. e (i + k) = e (i + k - 8)) [0..<8]
      then bindR (if skip then Inr s else cprintf (lit ''%s *'' @ [0x0a]) [AStr (Some head)] s)
             (dump_pde_loop pde also_dump_mem level head (i + 8) n True)
      else bindR (cprintf (lit ''%s[0x%x] 0x%x, 0x%x, 0x%x, 0x%x, 0x%x, 0x%x, 0x%x, 0x%x'' @ [0x0a])
               (AStr (Some head) # AInt (pde + 4 * of_nat i) # map (\<lambda>k. AInt (e (i + k))) [0..<8]) s) (\<lambda>s.
           bindR (if also_dump_mem then dump_pages pde level [i..<i + 8] s else Inr s)
             (dump_pde_loop pde also_dump_mem level head (i + 8) n False)))"

definition dump_pde :: "u32 \<Rightarrow> bool \<Rightarrow> int \<Rightarrow> 'a kcons_scheme \<Rightarrow> 'a kcons_scheme res" where
  "dump_pde pde also_dump_mem level s =
     bindR (head_at level) (\<lambda>head.
     bindR (dump_start head ''dump_pde'' s) (\<lambda>s.
     bindR (dump_pde_loop pde also_dump_mem level head 0 (unat PGSIZE div 4 div 8) False s) (dump_end head ''dump_pde'')))"

fun dump_pgd_loop :: "u32 \<Rightarrow> int \<Rightarrow> u8 list \<Rightarrow> nat \<Rightarrow> nat \<Rightarrow> 'a kcons_scheme \<Rightarrow> 'a kcons_scheme res" where
  "dump_pgd_loop pgd level head i 0 s = Inr s"
| "dump_pgd_loop pgd level head i (Suc n) s =
     (let e = load32 (mem s) (pgd + 4 * of_nat i) in
      bindR (if e \<noteq> 0
             then bindR (cprintf (lit ''%spte=0x%x'' @ [0x0a]) [AStr (Some head), AInt e] s) (dump_pde (PTE_ADDR e) True (level + 2))
             else Inr s)
        (dump_pgd_loop pgd level head (i + 8) n))"

definition dump_pgd :: "u32 \<Rightarrow> int \<Rightarrow> 'a kcons_scheme \<Rightarrow> 'a kcons_scheme res" where
  "dump_pgd pgd level s =
     bindR (head_at level) (\<lambda>head.
     bindR (dump_start head ''dump_pgd'' s) (\<lambda>s.
     bindR (dump_pgd_loop pgd level head 0 (unat PGSIZE div 4 div 8) s) (dump_end head ''dump_pgd'')))"

definition state_number :: "procstate \<Rightarrow> u32" where
  "state_number st = (case st of UNUSED \<Rightarrow> 0 | EMBRYO \<Rightarrow> 1 | SLEEPING \<Rightarrow> 2 | RUNNABLE \<Rightarrow> 3 | RUNNING \<Rightarrow> 4 | ZOMBIE \<Rightarrow> 5)"

definition dump_proc :: "proc \<Rightarrow> 'a kcons_scheme \<Rightarrow> 'a kcons_scheme res" where
  "dump_proc p s =
     bindR (cprintf (lit ''--- %s start ---'' @ [0x0a]) [AStr (Some (lit ''dump_proc''))] s) (\<lambda>s.
     bindR (cprintf (lit ''name=%s, sz=%d, pgdir=0x%x, kstack=0x%x, state=%d, pid=%d, '' @ [0x0a])
       [AStr (Some (cstr (array (pname p)) 16)), AInt (sz p), AInt (pgdir p), AInt (kstack p), AInt (state_number (state p)), AInt (pid p)] s) (\<lambda>s.
     bindR (dump_pde (pgdir p) False 2 s) (\<lambda>s.
     bindR (dump_pgd (pgdir p) 2 s) (\<lambda>s.
     cprintf (lit ''--- %s end ---'' @ [0x0a]) [AStr (Some (lit ''dump_proc''))] s))))"

definition dump_context :: "context \<Rightarrow> 'a kcons_scheme \<Rightarrow> 'a kcons_scheme res" where
  "dump_context cx s =
     bindR (cprintf (lit ''--- %s start ---'' @ [0x0a]) [AStr (Some (lit ''dump_context''))] s) (\<lambda>s.
     bindR (cprintf (lit ''r0: 0x%x r1: 0x%x r2: 0x%x r3: 0x%x'' @ [0x0a]) [AInt (cx (CR 0)), AInt (cx (CR 1)), AInt (cx (CR 2)), AInt (cx (CR 3))] s) (\<lambda>s.
     bindR (cprintf (lit ''r4: 0x%x r5: 0x%x r6: 0x%x r7: 0x%x'' @ [0x0a]) [AInt (cx (CR 4)), AInt (cx (CR 5)), AInt (cx (CR 6)), AInt (cx (CR 7))] s) (\<lambda>s.
     bindR (cprintf (lit ''r8: 0x%x r9: 0x%x r10: 0x%x r11: 0x%x'' @ [0x0a]) [AInt (cx (CR 8)), AInt (cx (CR 9)), AInt (cx (CR 10)), AInt (cx (CR 11))] s) (\<lambda>s.
     bindR (cprintf (lit ''r12: 0x%x r13: 0x%x r14: 0x%x r15: 0x%x'' @ [0x0a]) [AInt (cx (CR 12)), AInt (cx (CR 13)), AInt (cx (CR 14)), AInt (cx (CR 15))] s) (\<lambda>s.
     bindR (cprintf (lit ''ssr: 0x%x spc: 0x%x'' @ [0x0a]) [AInt (cx C_SSR), AInt (cx C_SPC)] s) (\<lambda>s.
     bindR (cprintf (lit ''gbr: 0x%x mach: 0x%x macl: 0x%x pr: 0x%x'' @ [0x0a]) [AInt (cx C_GBR), AInt (cx C_MACH), AInt (cx C_MACL), AInt (cx C_PR)] s) (\<lambda>s.
     bindR (cprintf (lit ''r0: 0x%x r1: 0x%x r2: 0x%x r3: 0x%x'' @ [0x0a]) [AInt (cx (C_RBANK 0)), AInt (cx (C_RBANK 1)), AInt (cx (C_RBANK 2)), AInt (cx (C_RBANK 3))] s) (\<lambda>s.
     bindR (cprintf (lit ''r4: 0x%x r5: 0x%x r6: 0x%x r7: 0x%x'' @ [0x0a]) [AInt (cx (C_RBANK 4)), AInt (cx (C_RBANK 5)), AInt (cx (C_RBANK 6)), AInt (cx (C_RBANK 7))] s) (\<lambda>s.
     cprintf (lit ''--- %s end ---'' @ [0x0a]) [AStr (Some (lit ''dump_context''))] s)))))))))"

section \<open>Dumps only print\<close>

abbreviation printable :: "lockst \<Rightarrow> bool" where
  "printable k \<equiv> idle LCons k \<and> cpu_ok k \<and> cycle k = k"

text \<open>What is printed may depend on the state.\<close>

lemma prints_at:
  assumes "\<And>s. \<exists>g. prints P g \<and> f s = g s"
  shows "prints P f"
  unfolding prints_def
proof (intro allI impI)
  fix s :: "'a kcons_scheme"
  assume "\<not> panicked s" "P (lk s)"
  moreover obtain g where "prints P g" "f s = g s" using assms by blast
  ultimately show "\<exists>out. f s = Inr (s\<lparr>serial := serial s @ out\<rparr>)" unfolding prints_def by metis
qed

lemma prints_choose: "prints P f \<Longrightarrow> prints P g \<Longrightarrow> \<exists>h. prints P h \<and> (if b then f s else g s) = h s"
  by auto

lemma prints_marks: "prints printable (dump_start head f)" "prints printable (dump_end head f)"
proof -
  have "fmt_ok (lit ''%s--- %s start ---'' @ [0x0a]) [AStr (Some head), AStr (Some (lit f))]" "fmt_ok (lit ''%s--- %s end ---'' @ [0x0a]) [AStr (Some head), AStr (Some (lit f))]"
    by (simp_all add: lit_def of_char_def)
  from this [THEN prints_cprintf] show "prints printable (dump_start head f)" "prints printable (dump_end head f)"
    by (simp_all add: dump_start_def [abs_def] dump_end_def [abs_def])
qed

text \<open>A dump with its two marks prints if its body does.\<close>

lemma prints_framed:
  assumes "0 \<le> level" "level \<le> 8" "\<And>head. prints printable (body head)"
  shows "prints printable (\<lambda>s. bindR (head_at level) (\<lambda>head. bindR (dump_start head f s) (\<lambda>s. bindR (body head s) (dump_end head f))))"
  using assms prints_marks by (auto simp: head_at_def intro!: prints_bind)

lemma prints_star: "prints printable (\<lambda>s. if skip then Inr s else cprintf (lit ''%s *'' @ [0x0a]) [AStr (Some head)] s)"
proof -
  have "fmt_ok (lit ''%s *'' @ [0x0a]) [AStr (Some head)]" by (simp add: lit_def of_char_def)
  then show ?thesis using prints_cprintf prints_nothing by (cases skip) (auto simp: if_distrib)
qed

lemma prints_dump_mem_loop: "prints printable (dump_mem_loop addr head i n skip)"
proof (induction n arbitrary: i skip)
  case 0
  show ?case by (rule prints_at) (auto intro!: exI [of _ Inr])
next
  case (Suc n)
  show ?case
  proof (rule prints_at)
    fix s :: "'a kcons_scheme"
    let ?fmt = "lit ''%s[0x%x] %x %x %x %x %x %x %x %x %x %x %x %x %x %x %x %x'' @ [0x0a]"
      and ?args = "AStr (Some head) # AInt (addr + of_nat i) # map (\<lambda>k. AInt (scast (mem s (addr + of_nat (i + k))))) [0..<16]"
    have "fmt_ok ?fmt ?args" by (simp add: lit_def of_char_def upt_rec)
    from prints_choose [OF prints_bind [OF prints_star Suc] prints_bind [OF prints_cprintf [OF this] Suc]]
    show "\<exists>g. prints printable g \<and> dump_mem_loop addr head i (Suc n) skip s = g s" unfolding dump_mem_loop.simps Let_def .
  qed
qed

lemma prints_dump_mem: "0 \<le> level \<Longrightarrow> level \<le> 8 \<Longrightarrow> prints printable (dump_mem addr n level)"
  unfolding dump_mem_def by (intro prints_framed prints_dump_mem_loop)

lemma prints_dump_pages: "- 2 \<le> level \<Longrightarrow> level \<le> 6 \<Longrightarrow> prints printable (dump_pages pde level ks)"
proof (induction ks)
  case Nil
  show ?case by (rule prints_at) (auto intro!: exI [of _ Inr])
next
  case (Cons k ks)
  show ?case
  proof (rule prints_at)
    fix s :: "'a kcons_scheme"
    have "prints printable (dump_mem (PTE_ADDR (load32 (mem s) (pde + 4 * of_nat k))) PGSIZE (level + 2))" using Cons.prems by (auto intro: prints_dump_mem)
    from prints_bind [OF this Cons.IH] prints_bind [OF prints_nothing Cons.IH] Cons.prems
    show "\<exists>g. prints printable g \<and> dump_pages pde level (k # ks) s = g s" by (auto simp: Let_def)
  qed
qed

lemma prints_dump_pde_loop:
  assumes "am \<longrightarrow> - 2 \<le> level \<and> level \<le> 6"
  shows "prints printable (dump_pde_loop pde am level head i n skip)"
proof (induction n arbitrary: i skip)
  case 0
  show ?case by (rule prints_at) (auto intro!: exI [of _ Inr])
next
  case (Suc n)
  have pages: "prints printable (\<lambda>s. if am then dump_pages pde level [i..<i + 8] s else Inr s)"
    using assms prints_dump_pages prints_nothing by (cases am) auto
  show ?case
  proof (rule prints_at)
    fix s :: "'a kcons_scheme"
    let ?fmt = "lit ''%s[0x%x] 0x%x, 0x%x, 0x%x, 0x%x, 0x%x, 0x%x, 0x%x, 0x%x'' @ [0x0a]"
      and ?args = "AStr (Some head) # AInt (pde + 4 * of_nat i) # map (\<lambda>k. AInt (load32 (mem s) (pde + 4 * of_nat (i + k)))) [0..<8]"
    have "fmt_ok ?fmt ?args" by (simp add: lit_def of_char_def upt_rec)
    from prints_choose [OF prints_bind [OF prints_star Suc] prints_bind [OF prints_cprintf [OF this] prints_bind [OF pages Suc]]]
    show "\<exists>g. prints printable g \<and> dump_pde_loop pde am level head i (Suc n) skip s = g s" unfolding dump_pde_loop.simps Let_def .
  qed
qed

lemma prints_dump_pde:
  "0 \<le> level \<Longrightarrow> level \<le> (if am then 6 else 8) \<Longrightarrow> prints printable (dump_pde pde am level)"
  unfolding dump_pde_def by (intro prints_framed prints_dump_pde_loop) (auto split: if_splits)

lemma prints_dump_pgd_loop: "- 2 \<le> level \<Longrightarrow> level \<le> 4 \<Longrightarrow> prints printable (dump_pgd_loop pgd level head i n)"
proof (induction n arbitrary: i)
  case 0
  show ?case by (rule prints_at) (auto intro!: exI [of _ Inr])
next
  case (Suc n)
  show ?case
  proof (rule prints_at)
    fix s :: "'a kcons_scheme"
    let ?e = "load32 (mem s) (pgd + 4 * of_nat i)"
    have "fmt_ok (lit ''%spte=0x%x'' @ [0x0a]) [AStr (Some head), AInt ?e]" by (simp add: lit_def of_char_def)
    moreover have "prints printable (dump_pde (PTE_ADDR ?e) True (level + 2))" using Suc.prems by (intro prints_dump_pde) auto
    ultimately have "prints printable (\<lambda>s. bindR (cprintf (lit ''%spte=0x%x'' @ [0x0a]) [AStr (Some head), AInt ?e] s) (dump_pde (PTE_ADDR ?e) True (level + 2)))"
      by (intro prints_bind prints_cprintf)
    from prints_bind [OF this Suc.IH] prints_bind [OF prints_nothing Suc.IH] Suc.prems
    show "\<exists>g. prints printable g \<and> dump_pgd_loop pgd level head i (Suc n) s = g s" by (auto simp: Let_def)
  qed
qed

lemma prints_dump_pgd: "0 \<le> level \<Longrightarrow> level \<le> 4 \<Longrightarrow> prints printable (dump_pgd pgd level)"
  unfolding dump_pgd_def by (intro prints_framed prints_dump_pgd_loop) auto

text \<open>\<^verbatim>\<open>dump_proc\<close> and \<^verbatim>\<open>dump_context\<close> return, with nothing changed but the output.\<close>

lemma prints_dump_proc: "prints printable (dump_proc p)"
  unfolding dump_proc_def
  by (intro prints_bind prints_cprintf prints_dump_pde prints_dump_pgd) (simp_all add: lit_def of_char_def)

lemma prints_dump_context: "prints printable (dump_context cx)"
  unfolding dump_context_def by (intro prints_bind prints_cprintf) (simp_all add: lit_def of_char_def)

text \<open>A page table at an index that is no multiple of eight is never shown.\<close>

lemma dump_pgd_blind:
  assumes "\<forall>k<128. load32 (mem s) (pgd + 4 * of_nat (8 * k)) = 0"
  shows "dump_pgd_loop pgd level head 0 128 s = Inr s"
proof -
  have "dump_pgd_loop pgd level head (8 * j) n s = Inr s" if "j + n = 128" for j n
    using that
  proof (induction n arbitrary: j)
    case (Suc n)
    then have "load32 (mem s) (pgd + 4 * of_nat (8 * j)) = 0" using assms by simp
    then show ?case using Suc.IH [of "Suc j"] Suc.prems by (simp add: Let_def algebra_simps)
  qed simp
  from this [of 0 128] show ?thesis by simp
qed

end
