(* ===== verification/Vm_Grow.thy ===== *)
theory Vm_Grow
  imports Vm_Space
begin

text \<open>
  Growing, shrinking and freeing address spaces: what \<^verbatim>\<open>deallocuvm\<close>, \<^verbatim>\<open>freevm\<close> and \<^verbatim>\<open>allocuvm\<close>
  (\<^verbatim>\<open>src/vm.c\<close>) do to the map from slots to pages of \<open>Vm_Space\<close> and to the free list: which pages move
  between the two, and that none is lost.
\<close>

section \<open>Removing pages\<close>

lemma kfree_room:
  assumes "room s ps" "page_addr v" "v \<notin> set ps"
  shows "\<exists>s'. kfree v s = Inr s' \<and> room s' (v # ps) \<and> only_in {v} (mem s) (mem s') \<and> same_rest s s'"
proof -
  obtain s' where "kfree v s = Inr s'" "kmem_idle s'" "free_pages s' (v # ps)" "\<forall>x. \<not> in_page v x \<longrightarrow> mem s' x = mem s x"
    using kfree_pages [of s ps v] assms by (auto simp: room_def)
  moreover from this(1) have "same_rest s s'" using assms(1,2) by (auto simp: kfree_run room_def same_rest_def)
  ultimately show ?thesis by (simp add: room_def only_in_def)
qed

lemma space_sub:
  assumes ok: "space_ok m pg" and l: "loc m' pg \<subseteq>\<^sub>m loc m pg"
  shows "space_ok m' pg" "used m' pg \<subseteq> used m pg"
proof -
  have "loc m pg x = Some p" if "loc m' pg x = Some p" for x p using l that by (auto simp: map_le_def dom_def)
  then show "space_ok m' pg" "used m' pg \<subseteq> used m pg" using ok by (auto simp: space_ok_def used_def ran_def)
qed

text \<open>The slots of the pages \<open>a\<close>, ..., \<open>b - 1\<close> emptied.\<close>

definition cut_pages :: "nat \<Rightarrow> nat \<Rightarrow> (slot \<rightharpoonup> u32) \<Rightarrow> (slot \<rightharpoonup> u32)" where
  "cut_pages a b L = (\<lambda>l. case l of Frm i j \<Rightarrow> if a \<le> 1024 * i + j \<and> 1024 * i + j < b \<and> j < 1024 then None else L l | _ \<Rightarrow> L l)"

definition frames :: "(slot \<rightharpoonup> u32) \<Rightarrow> nat \<Rightarrow> nat \<Rightarrow> u32 set" where
  "frames L a b = {q. \<exists>n. a \<le> n \<and> n < b \<and> L (Frm (dirx n) (tabx n)) = Some q}"

lemma page_number: "j < 1024 \<Longrightarrow> dirx (1024 * i + j) = i" "j < 1024 \<Longrightarrow> tabx (1024 * i + j) = j" "1024 * dirx n + tabx n = n" "tabx n < 1024"
  by (simp_all add: dirx_def tabx_def)

lemma cut_pages_simps [simp]:
  "cut_pages a b L Dir = L Dir" "cut_pages a b L (Tab i) = L (Tab i)"
  "cut_pages a b L (Frm (dirx n) (tabx n)) = (if a \<le> n \<and> n < b then None else L (Frm (dirx n) (tabx n)))"
  by (simp_all add: cut_pages_def page_number)

lemma cut_pages_le: "cut_pages a b L \<subseteq>\<^sub>m L"
  by (auto simp: cut_pages_def map_le_def dom_def split: slot.splits if_splits)

lemma cut_pages_none: "b \<le> a \<Longrightarrow> cut_pages a b L = L"
  by (rule ext) (auto simp: cut_pages_def split: slot.splits)

lemma frames_none: "b \<le> a \<Longrightarrow> frames L a b = {}"
  by (auto simp: frames_def)

lemma slot_page: "j < 1024 \<Longrightarrow> Frm i j = Frm (dirx n) (tabx n) \<longleftrightarrow> n = 1024 * i + j"
  using page_number(1,2) [of j i] page_number(3) [of n] by auto

lemma cut_pages_step:
  assumes "a < b"
  shows "cut_pages (Suc a) b (L(Frm (dirx a) (tabx a) := None)) = cut_pages a b L"
proof
  fix l
  show "cut_pages (Suc a) b (L(Frm (dirx a) (tabx a) := None)) l = cut_pages a b L l"
  proof (cases l)
    case (Frm i j)
    have "Suc a \<le> x \<longleftrightarrow> a \<le> x \<and> x \<noteq> a" for x by auto
    then show ?thesis using assms slot_page [of j i a] page_number(4) [of a] Frm
      by (cases "j < 1024") (auto simp: cut_pages_def)
  qed (simp_all add: cut_pages_def)
qed

lemma frames_step:
  assumes "a < b"
  shows "frames L a b = set_option (L (Frm (dirx a) (tabx a))) \<union> frames (L(Frm (dirx a) (tabx a) := None)) (Suc a) b"
proof -
  have "Frm (dirx n) (tabx n) \<noteq> Frm (dirx a) (tabx a)" if "Suc a \<le> n" for n using that index_inj [of n a] by auto
  then have "frames (L(Frm (dirx a) (tabx a) := None)) (Suc a) b = frames L (Suc a) b" by (auto simp: frames_def)
  moreover have "a \<le> n \<longleftrightarrow> n = a \<or> Suc a \<le> n" for n by auto
  then have "frames L a b = set_option (L (Frm (dirx a) (tabx a))) \<union> frames L (Suc a) b"
    using assms unfolding frames_def by (auto simp: set_eq_iff)
  ultimately show ?thesis by simp
qed

text \<open>One round of \<^verbatim>\<open>deallocuvm\<close> on a page that is present.\<close>

lemma dealloc_page:
  assumes r: "room s ps" and ok: "space_ok (mem s) pg" and dj: "used (mem s) pg \<inter> set ps = {}"
    and f: "page_frame (mem s) pg n = Some q" and a: "unat a = 4096 * n"
  shows "\<exists>e s1. walkpgdir pg a False s = Inr (e, s) \<and> e \<noteq> 0 \<and> load32 (mem s) e AND PTEL_V \<noteq> 0 \<and> PTE_ADDR (load32 (mem s) e) = q \<and> q \<noteq> 0 \<and>
    kfree q s = Inr s1 \<and> room (s1\<lparr>mem := store32 e 0 (mem s1)\<rparr>) (q # ps) \<and>
    loc (store32 e 0 (mem s1)) pg = (loc (mem s) pg)(Frm (dirx n) (tabx n) := None) \<and>
    only_in (insert q (tables (mem s) pg)) (mem s) (store32 e 0 (mem s1)) \<and> same_rest s s1"
proof -
  have an: "unat a div 4096 = n" using a by simp
  let ?i = "dirx n" and ?j = "tabx n"
  obtain t where t: "tab (mem s) pg ?i = Some t" "walkpgdir pg a False s = Inr (ent t ?j, s)" "ent t ?j \<noteq> 0"
    "load32 (mem s) (ent t ?j) AND PTEL_V \<noteq> 0" "PTE_ADDR (load32 (mem s) (ent t ?j)) = q"
    using walkpgdir_find [of s pg a q] f ok an by auto
  have q: "q \<in> used (mem s) pg" "t \<in> tables (mem s) pg" using f t(1) used_intro [of "mem s" pg "Frm ?i ?j" q] by (auto simp: tables_def)
  then have pq: "page_addr q" "page_addr t" "q \<notin> set ps" "t \<notin> set ps" using used_page [OF ok] dj tables_used [of "mem s" pg] by auto
  have nt: "q \<notin> tables (mem s) pg"
  proof
    assume "q \<in> tables (mem s) pg"
    then obtain l where "loc (mem s) pg l = Some q" "l \<noteq> Frm ?i ?j" by (auto simp: tables_def) (use loc.simps(1) in blast, metis loc.simps(2) slot.distinct(5))
    then show False using ok f unfolding space_ok_def by (metis loc.simps(3))
  qed
  obtain s1 where s1: "kfree q s = Inr s1" "room s1 (q # ps)" "only_in {q} (mem s) (mem s1)" "same_rest s s1"
    using kfree_room [OF r pq(1,3)] by blast
  have l1: "loc (mem s1) pg = loc (mem s) pg" by (rule loc_tables [OF s1(3)]) (use pq nt ok in auto)
  have ok1: "space_ok (mem s1) pg" using ok l1 by (simp add: space_ok_def)
  have t1: "tab (mem s1) pg ?i = Some t" using fun_cong [OF l1, of "Tab ?i"] t(1) by simp
  have j: "?j < 1024" by (rule index_less)
  have l: "loc (store32 (ent t ?j) 0 (mem s1)) pg = (loc (mem s) pg)(Frm ?i ?j := None)"
    using loc_store_word [OF ok1 t1 j, of 0] l1 by simp
  have "room (s1\<lparr>mem := store32 (ent t ?j) 0 (mem s1)\<rparr>) (q # ps)"
    by (rule room_frame [OF s1(2) only_in_store [OF pq(2) j]]) (use pq nt q in auto)
  moreover have "only_in (insert q (tables (mem s) pg)) (mem s) (store32 (ent t ?j) 0 (mem s1))"
    using only_in_trans [OF s1(3) only_in_store [OF pq(2) j]] by (rule only_in_mono) (use q in auto)
  ultimately show ?thesis using t s1 l pq(1) by (intro exI [of _ "ent t ?j"] exI [of _ s1]) simp
qed

text \<open>The state \<open>s'\<close> after the pages \<open>k\<close>, ..., \<open>b - 1\<close> of \<open>pg\<close> went back to the allocator.\<close>

definition pages_freed :: "u32 \<Rightarrow> nat \<Rightarrow> nat \<Rightarrow> 'a kmem_scheme \<Rightarrow> u32 list \<Rightarrow> 'a kmem_scheme \<Rightarrow> u32 list \<Rightarrow> bool" where
  "pages_freed pg k b s ps s' ps' \<longleftrightarrow>
     room s' ps' \<and> set ps' = set ps \<union> frames (loc (mem s) pg) k b \<and> loc (mem s') pg = cut_pages k b (loc (mem s) pg) \<and>
     only_in (tables (mem s) pg \<union> frames (loc (mem s) pg) k b) (mem s) (mem s') \<and> same_rest s s'"

lemma frames_sub: "frames (loc m pg) k b \<subseteq> used m pg"
  using used_intro [of m pg "Frm _ _"] by (fastforce simp: frames_def)

lemma used_cut:
  assumes ok: "space_ok m pg" and l: "loc m' pg = cut_pages k b (loc m pg)"
  shows "used m' pg = used m pg - frames (loc m pg) k b"
proof (intro set_eqI iffI)
  fix q assume "q \<in> used m' pg"
  then obtain x where x: "cut_pages k b (loc m pg) x = Some q" using l by (auto simp: used_def ran_def)
  then have lx: "loc m pg x = Some q" using cut_pages_le [of k b "loc m pg"] by (auto simp: map_le_def dom_def)
  moreover have "q \<notin> frames (loc m pg) k b"
  proof
    assume "q \<in> frames (loc m pg) k b"
    then obtain n where n: "k \<le> n" "n < b" "loc m pg (Frm (dirx n) (tabx n)) = Some q" by (auto simp: frames_def)
    then have "x = Frm (dirx n) (tabx n)" using ok lx unfolding space_ok_def by blast
    then show False using x n by simp
  qed
  ultimately show "q \<in> used m pg - frames (loc m pg) k b" by (auto intro: used_intro)
next
  fix q assume q: "q \<in> used m pg - frames (loc m pg) k b"
  then obtain x where x: "loc m pg x = Some q" by (auto simp: used_def ran_def)
  have "cut_pages k b (loc m pg) x = Some q"
  proof (cases x)
    case (Frm i j)
    then have j: "j < 1024" using x by (auto simp: frm_def split: option.splits if_splits)
    show ?thesis using q x Frm page_number(1,2) [OF j, of i] by (auto simp: cut_pages_def frames_def)
  qed (use x in simp_all)
  then show "q \<in> used m' pg" using l by (metis used_intro)
qed

lemma deallocuvm_loop_run:
  assumes lastp: "unat lastp = 4096 * l" "Suc l < 2 ^ 20"
  shows "room s ps \<Longrightarrow> space_ok (mem s) pg \<Longrightarrow> used (mem s) pg \<inter> set ps = {} \<Longrightarrow> unat a = 4096 * k \<Longrightarrow> Suc l - k < fuel \<Longrightarrow>
    \<exists>s' ps'. deallocuvm_loop fuel pg a lastp s = Inr s' \<and> pages_freed pg k (Suc l) s ps s' ps'"
proof (induction fuel arbitrary: a k s ps)
  case (Suc fuel)
  have le: "a \<le> lastp \<longleftrightarrow> k < Suc l" using lastp(1) Suc.prems(4) by (auto simp: word_le_nat_alt)
  show ?case
  proof (cases "k < Suc l")
    case False
    then have "pages_freed pg k (Suc l) s ps s ps"
      using Suc.prems(1) by (simp add: pages_freed_def cut_pages_none frames_none only_in_def)
    then show ?thesis using False le by auto
  next
    case True
    let ?x = "Frm (dirx k) (tabx k)"
    have "unat (a + of_nat 4096) = unat a + 4096" using Suc.prems(4) True lastp(2) by (intro unat_ptr_add) simp
    then have a': "unat (a + PGSIZE) = 4096 * Suc k" using Suc.prems(4) by (simp add: PGSIZE_def)
    have an: "unat a div 4096 = k" using Suc.prems(4) by simp
    show ?thesis
    proof (cases "page_frame (mem s) pg k")
      case None
      have "deallocuvm_loop (Suc fuel) pg a lastp s = deallocuvm_loop fuel pg (a + PGSIZE) lastp s"
        using None le True index_less(1) [of k] by (auto simp: walkpgdir_entry an frm_def split: option.splits if_splits)
      moreover have "(loc (mem s) pg)(?x := None) = loc (mem s) pg" using None by (intro fun_upd_idem) simp
      then have "frames (loc (mem s) pg) k (Suc l) = frames (loc (mem s) pg) (Suc k) (Suc l)"
        "cut_pages k (Suc l) (loc (mem s) pg) = cut_pages (Suc k) (Suc l) (loc (mem s) pg)"
        using frames_step [OF True, of "loc (mem s) pg"] cut_pages_step [OF True, of "loc (mem s) pg"] None by simp_all
      moreover have "\<exists>s' ps'. deallocuvm_loop fuel pg (a + PGSIZE) lastp s = Inr s' \<and> pages_freed pg (Suc k) (Suc l) s ps s' ps'"
        using Suc.IH [OF Suc.prems(1-3) a'] Suc.prems(5) True by simp
      ultimately show ?thesis by (simp add: pages_freed_def)
    next
      case (Some q)
      from dealloc_page [OF Suc.prems(1-3) Some Suc.prems(4)] obtain e s1 where
        e: "walkpgdir pg a False s = Inr (e, s)" "e \<noteq> 0" "load32 (mem s) e AND PTEL_V \<noteq> 0" "PTE_ADDR (load32 (mem s) e) = q" "q \<noteq> 0" "kfree q s = Inr s1"
        and r: "room (s1\<lparr>mem := store32 e 0 (mem s1)\<rparr>) (q # ps)" and l: "loc (store32 e 0 (mem s1)) pg = (loc (mem s) pg)(?x := None)"
        and o: "only_in (insert q (tables (mem s) pg)) (mem s) (store32 e 0 (mem s1))" and sr: "same_rest s s1" by blast
      let ?s = "s1\<lparr>mem := store32 e 0 (mem s1)\<rparr>"
      have fr: "frames (loc (mem s) pg) k (Suc l) = insert q (frames (loc (mem ?s) pg) (Suc k) (Suc l))"
        using frames_step [OF True, of "loc (mem s) pg"] Some l by simp
      have ct: "cut_pages k (Suc l) (loc (mem s) pg) = cut_pages (Suc k) (Suc l) (loc (mem ?s) pg)"
        using cut_pages_step [OF True, of "loc (mem s) pg"] l by simp
      have l1: "loc (mem ?s) pg = cut_pages k (Suc k) (loc (mem s) pg)"
        using cut_pages_step [of k "Suc k" "loc (mem s) pg"] cut_pages_none [of "Suc k" "Suc k"] l by simp
      have u: "used (mem ?s) pg = used (mem s) pg - {q}"
        using used_cut [OF Suc.prems(2) l1] frames_step [of k "Suc k" "loc (mem s) pg"] Some by (simp add: frames_none)
      have tb: "tables (mem ?s) pg = tables (mem s) pg"
        using fun_cong [OF l, of "Tab _"] by (simp add: tables_def)
      have "space_ok (mem ?s) pg" using space_sub(1) [OF Suc.prems(2), of "mem ?s"] cut_pages_le l1 by metis
      moreover have "used (mem ?s) pg \<inter> set (q # ps) = {}" "Suc l - Suc k < fuel" using u Suc.prems(3,5) True by auto
      ultimately obtain s' ps' where
        i: "deallocuvm_loop fuel pg (a + PGSIZE) lastp ?s = Inr s'" "pages_freed pg (Suc k) (Suc l) ?s (q # ps) s' ps'"
        using Suc.IH [OF r _ _ a'] by blast
      have "deallocuvm_loop (Suc fuel) pg a lastp s = Inr s'" using le True e i(1) by simp
      moreover have "pages_freed pg k (Suc l) s ps s' ps'"
      proof -
        have "only_in (tables (mem s) pg \<union> frames (loc (mem s) pg) k (Suc l)) (mem s) (mem s')"
        proof (rule only_in_mono [OF only_in_trans])
          show "only_in (insert q (tables (mem s) pg)) (mem s) (mem ?s)" using o by simp
          show "only_in (tables (mem ?s) pg \<union> frames (loc (mem ?s) pg) (Suc k) (Suc l)) (mem ?s) (mem s')" using i(2) by (simp add: pages_freed_def)
        qed (use fr tb in auto)
        moreover have "same_rest s s'" using i(2) sr by (auto simp: pages_freed_def same_rest_def)
        ultimately show ?thesis using i(2) fr ct by (simp add: pages_freed_def)
      qed
      ultimately show ?thesis by blast
    qed
  qed
qed simp

lemma round_up_nat:
  assumes "unat x + 4095 < 2 ^ 32"
  shows "unat (PGROUNDUP x) = 4096 * pages_of x"
proof -
  have "PGROUNDUP x = PGROUNDDOWN (x + of_nat 4095)" by (simp add: PGROUNDUP_def PGROUNDDOWN_def PGSIZE_def add.commute)
  moreover have "unat (x + of_nat 4095) = unat x + 4095" using assms by (intro unat_ptr_add) simp
  ultimately show ?thesis by (simp add: round_nat pages_of_def)
qed

lemma last_page:
  assumes "x \<noteq> 0"
  shows "unat (PGROUNDDOWN (x - 1)) = 4096 * (pages_of x - 1)" "0 < pages_of x"
proof -
  have "0 < unat x" using assms by (simp add: unat_gt_0)
  moreover from assms have "unat (x - 1) = unat x - 1" by (rule unat_minus_one)
  moreover have "(unat x + 4095) div 4096 = (unat x - 1) div 4096 + 1" using \<open>0 < unat x\<close> by (simp add: div_add_self2 [symmetric])
  ultimately show "unat (PGROUNDDOWN (x - 1)) = 4096 * (pages_of x - 1)" "0 < pages_of x" by (simp_all add: round_nat pages_of_def)
qed

lemma pages_of_user: "sz \<le> USERTOP \<Longrightarrow> pages_of sz \<le> 2 ^ 19" "sz \<le> USERTOP \<Longrightarrow> unat sz \<le> 2 ^ 31"
proof -
  show u: "sz \<le> USERTOP \<Longrightarrow> unat sz \<le> 2 ^ 31" by (simp add: USERTOP_def word_le_nat_alt)
  have "(unat sz + 4095) div 4096 \<le> (2 ^ 31 + 4095) div 4096" if "sz \<le> USERTOP" using u [OF that] by (intro div_le_mono) simp
  then show "sz \<le> USERTOP \<Longrightarrow> pages_of sz \<le> 2 ^ 19" by (simp add: pages_of_def)
qed

lemma deallocuvm_run:
  assumes "room s ps" "space_ok (mem s) pg" "used (mem s) pg \<inter> set ps = {}" "oldsz \<le> USERTOP" "oldsz \<noteq> 0" "newsz \<le> USERTOP"
  shows "\<exists>s' ps'. deallocuvm pg oldsz newsz s = Inr (if newsz < oldsz then newsz else oldsz, s') \<and>
    pages_freed pg (pages_of newsz) (pages_of oldsz) s ps s' ps'"
proof -
  let ?l = "pages_of oldsz - 1"
  have l: "unat (PGROUNDDOWN (oldsz - 1)) = 4096 * ?l" "Suc ?l = pages_of oldsz" "Suc ?l < 2 ^ 20"
    using last_page [OF assms(5)] pages_of_user(1) [OF assms(4)] by auto
  have "unat (PGROUNDUP newsz) = 4096 * pages_of newsz" using pages_of_user(2) [OF assms(6)] by (intro round_up_nat) simp
  moreover have "Suc ?l - pages_of newsz < 2 ^ 20 + 1" using l(3) by simp
  ultimately obtain s' ps' where "deallocuvm_loop (2 ^ 20 + 1) pg (PGROUNDUP newsz) (PGROUNDDOWN (oldsz - 1)) s = Inr s'"
    "pages_freed pg (pages_of newsz) (Suc ?l) s ps s' ps'"
    using deallocuvm_loop_run [OF l(1,3) assms(1-3)] by blast
  then show ?thesis unfolding deallocuvm_def Let_def l(2) by auto
qed

section \<open>Freeing an address space\<close>

definition tabs_from :: "memory \<Rightarrow> u32 \<Rightarrow> nat \<Rightarrow> u32 set" where
  "tabs_from m pg i = {t. \<exists>k\<ge>i. tab m pg k = Some t}"

lemma freevm_tables_run:
  assumes ok: "space_ok m pg"
  shows "room s ps \<Longrightarrow> only_in X m (mem s) \<Longrightarrow> (\<And>q. q \<in> X \<Longrightarrow> page_addr q) \<Longrightarrow> pg \<notin> X \<Longrightarrow> set ps \<inter> tabs_from m pg i = {} \<Longrightarrow> i + n = 1024 \<Longrightarrow>
    \<exists>s' ps'. freevm_tables i n pg s = Inr s' \<and> room s' ps' \<and> set ps' = set ps \<union> tabs_from m pg i \<and>
      only_in (X \<union> tabs_from m pg i) m (mem s') \<and> same_rest s s'"
proof (induction n arbitrary: i s ps X)
  case 0
  then have "tabs_from m pg i = {}" by (auto simp: tabs_from_def tab_def)
  then show ?case using 0 by auto
next
  case (Suc n)
  have pp: "page_addr pg" using used_page [OF ok dir_used] .
  have "load32 (mem s) (ent pg i) = load32 m (ent pg i)"
    using Suc.prems only_in_page [OF Suc.prems(2,3) pp Suc.prems(4)] by (intro load_ent_cong [OF pp]) auto
  then have ld: "load32 (mem s) (pg + 4 * word_of_nat i) = load32 m (ent pg i)" by (simp add: ent_def)
  have st: "tabs_from m pg i = set_option (tab m pg i) \<union> tabs_from m pg (Suc i)"
  proof -
    have "i \<le> k \<longleftrightarrow> k = i \<or> Suc i \<le> k" for k by auto
    then show ?thesis unfolding tabs_from_def by (auto simp: set_eq_iff)
  qed
  show ?case
  proof (cases "tab m pg i")
    case None
    then have "load32 m (ent pg i) AND PTEL_V = 0" using Suc.prems(6) by (simp add: tab_def split: if_splits)
    then show ?thesis using Suc.IH [OF Suc.prems(1-4), of "Suc i"] Suc.prems(5,6) st None ld by simp
  next
    case (Some t)
    then have t: "load32 m (ent pg i) AND PTEL_V \<noteq> 0" "PTE_ADDR (load32 m (ent pg i)) = t" by (auto simp: tab_def split: if_splits)
    have pt: "page_addr t" using used_page [OF ok] used_intro [of m pg "Tab i" t] Some by simp
    have tn: "t \<notin> set ps" "t \<noteq> pg" "t \<notin> tabs_from m pg (Suc i)"
    proof -
      show "t \<notin> set ps" using Suc.prems(5) st Some by auto
      show "t \<noteq> pg" using dir_no_table [OF ok] Some by auto
      have "k = i" if "tab m pg k = Some t" for k using ok Some that unfolding space_ok_def by (metis loc.simps(2) slot.inject(1))
      then show "t \<notin> tabs_from m pg (Suc i)" by (auto simp: tabs_from_def)
    qed
    obtain s1 where s1: "kfree t s = Inr s1" "room s1 (t # ps)" "only_in {t} (mem s) (mem s1)" "same_rest s s1"
      using kfree_room [OF Suc.prems(1) pt tn(1)] by blast
    have "\<exists>s' ps'. freevm_tables (Suc i) n pg s1 = Inr s' \<and> room s' ps' \<and> set ps' = set (t # ps) \<union> tabs_from m pg (Suc i) \<and>
      only_in ((X \<union> {t}) \<union> tabs_from m pg (Suc i)) m (mem s') \<and> same_rest s1 s'"
      using Suc.prems tn pt st by (intro Suc.IH [OF s1(2) only_in_trans [OF Suc.prems(2) s1(3)]]) auto
    then show ?thesis using ld t s1(1) st Some same_rest_trans [OF s1(4)] by (auto simp: Un_assoc)
  qed
qed

lemma freevm_run:
  assumes r: "room s ps" and ok: "space_ok (mem s) pg" and dj: "used (mem s) pg \<inter> set ps = {}"
    and user: "\<forall>i j. frm (mem s) pg i j \<noteq> None \<longrightarrow> i < 512"
  shows "\<exists>s' ps'. freevm pg s = Inr s' \<and> room s' ps' \<and> set ps' = set ps \<union> used (mem s) pg \<and>
    only_in (used (mem s) pg) (mem s) (mem s') \<and> same_rest s s'"
proof -
  let ?L = "loc (mem s) pg"
  have "pages_of 0 = 0" "pages_of USERTOP = 2 ^ 19" by (simp_all add: pages_of_def USERTOP_def)
  then obtain s1 ps1 where d: "deallocuvm pg USERTOP 0 s = Inr (0, s1)" "pages_freed pg 0 (2 ^ 19) s ps s1 ps1"
    using deallocuvm_run [OF r ok dj, of USERTOP 0] by (auto simp: USERTOP_def)
  then have r1: "room s1 ps1" and s1: "set ps1 = set ps \<union> frames ?L 0 (2 ^ 19)" and l1: "loc (mem s1) pg = cut_pages 0 (2 ^ 19) ?L"
    and o1: "only_in (tables (mem s) pg \<union> frames ?L 0 (2 ^ 19)) (mem s) (mem s1)" and q1: "same_rest s s1" by (auto simp: pages_freed_def)
  have ok1: "space_ok (mem s1) pg" using space_sub(1) [OF ok, of "mem s1"] cut_pages_le l1 by metis
  have u1: "used (mem s1) pg = used (mem s) pg - frames ?L 0 (2 ^ 19)" by (rule used_cut [OF ok l1])
  have t1: "tab (mem s1) pg i = tab (mem s) pg i" for i using fun_cong [OF l1, of "Tab i"] by simp
  have u: "used (mem s) pg = insert pg (tabs_from (mem s) pg 0) \<union> frames ?L 0 (2 ^ 19)"
  proof (intro equalityI subsetI)
    fix q assume "q \<in> used (mem s) pg"
    then obtain x where x: "?L x = Some q" by (auto simp: used_def ran_def)
    show "q \<in> insert pg (tabs_from (mem s) pg 0) \<union> frames ?L 0 (2 ^ 19)"
    proof (cases x)
      case (Frm i j)
      then have f: "frm (mem s) pg i j = Some q" using x by simp
      then have "i < 512" "j < 1024" using user by (blast, auto simp: frm_def split: option.splits if_splits)
      then have "q \<in> frames ?L 0 (2 ^ 19)" using f page_number(1,2) [of j i] unfolding frames_def by (auto intro!: exI [of _ "1024 * i + j"])
      then show ?thesis by simp
    qed (use x in \<open>auto simp: tabs_from_def\<close>)
  qed (use frames_sub [of "mem s" pg 0 "2 ^ 19"] tables_used [of "mem s" pg] in \<open>auto simp: tables_def tabs_from_def\<close>)
  have tf: "tabs_from (mem s1) pg 0 = tabs_from (mem s) pg 0" by (simp add: tabs_from_def t1)
  have "tabs_from (mem s1) pg 0 \<subseteq> used (mem s1) pg" "pg \<in> used (mem s1) pg"
    using tables_used [of "mem s1" pg] by (auto simp: tables_def tabs_from_def)
  then have n1: "set ps1 \<inter> tabs_from (mem s1) pg 0 = {}" "pg \<notin> set ps1" using u1 s1 dj by auto
  have "\<exists>s' ps'. freevm_tables 0 1024 pg s1 = Inr s' \<and> room s' ps' \<and> set ps' = set ps1 \<union> tabs_from (mem s1) pg 0 \<and>
      only_in ({} \<union> tabs_from (mem s1) pg 0) (mem s1) (mem s') \<and> same_rest s1 s'"
    by (rule freevm_tables_run [OF ok1 r1 _ _ _ n1(1)]) (simp_all add: only_in_def)
  then obtain s2 ps2 where f: "freevm_tables 0 1024 pg s1 = Inr s2" "room s2 ps2" "set ps2 = set ps1 \<union> tabs_from (mem s) pg 0"
    "only_in (tabs_from (mem s) pg 0) (mem s1) (mem s2)" "same_rest s1 s2" unfolding tf by auto
  have pp: "page_addr pg" using used_page [OF ok dir_used] .
  have "pg \<notin> tabs_from (mem s) pg 0" using dir_no_table [OF ok] by (auto simp: tabs_from_def)
  then obtain s3 where k: "kfree pg s2 = Inr s3" "room s3 (pg # ps2)" "only_in {pg} (mem s2) (mem s3)" "same_rest s2 s3"
    using kfree_room [OF f(2) pp] f(3) n1(2) by auto
  have "freevm pg s = Inr s3" using d(1) f(1) k(1) pp by (simp add: freevm_def NPDENTRIES_def)
  moreover have "set (pg # ps2) = set ps \<union> used (mem s) pg" using f(3) s1 u by auto
  moreover have "only_in (used (mem s) pg) (mem s) (mem s3)"
    using only_in_trans [OF only_in_trans [OF o1 f(4)] k(3)] by (rule only_in_mono) (use u tables_used [of "mem s" pg] in auto)
  moreover have "same_rest s s3" using same_rest_trans [OF same_rest_trans [OF q1 f(5)] k(4)] .
  ultimately show ?thesis using k(2) by blast
qed

section \<open>Growing an address space\<close>

text \<open>The address space of a process of \<open>k\<close> pages: exactly its first \<open>k\<close> pages are present.\<close>

definition image :: "memory \<Rightarrow> u32 \<Rightarrow> nat \<Rightarrow> bool" where
  "image m pg k \<longleftrightarrow> space_ok m pg \<and> (\<forall>n. page_frame m pg n \<noteq> None \<longleftrightarrow> n < k)"

lemma enter_bytes:
  assumes ok: "space_ok m' pg" and l: "loc m' pg = (loc m pg)(Tab (dirx k) \<mapsto> t, Frm (dirx k) (tabx k) \<mapsto> p)"
    and o: "only_in {pg, t} m m'"
  shows "user_byte m' pg va = (if unat va div 4096 = k then Some (m (p + of_nat (unat va mod 4096))) else user_byte m pg va)"
proof -
  let ?n = "unat va div 4096" and ?o = "unat va mod 4096"
  have fr: "page_frame m' pg ?n = (if ?n = k then Some p else page_frame m pg ?n)"
    using fun_cong [OF l, of "Frm (dirx ?n) (tabx ?n)"] index_inj [of ?n k] by auto
  have keep: "m' (q + of_nat ?o) = m (q + of_nat ?o)" if q: "page_frame m' pg ?n = Some q" for q
  proof -
    have lq: "loc m' pg (Frm (dirx ?n) (tabx ?n)) = Some q" "loc m' pg (Tab (dirx k)) = Some t" "loc m' pg Dir = Some pg"
      using q fun_cong [OF l, of "Tab (dirx k)"] by simp_all
    have "q \<noteq> pg" "q \<noteq> t" using ok lq unfolding space_ok_def by (metis slot.distinct(3), metis slot.distinct(5))
    moreover have "page_addr q" "page_addr t" "page_addr pg" using ok lq unfolding space_ok_def by blast+
    ultimately show ?thesis using only_in_page [OF o, of q "q + of_nat ?o"] offset_in_page [of q ?o] by auto
  qed
  show ?thesis using fr keep by (auto simp: user_byte_def split: option.splits)
qed

text \<open>
  The pages \<open>k0\<close>, ..., \<open>k - 1\<close> were added to \<open>pg\<close>: zeroed, and taken from the free list together with the
  page tables they need.
\<close>

definition grown :: "u32 \<Rightarrow> nat \<Rightarrow> nat \<Rightarrow> 'a kmem_scheme \<Rightarrow> u32 list \<Rightarrow> 'a kmem_scheme \<Rightarrow> u32 list \<Rightarrow> bool" where
  "grown pg k0 k s0 ps0 s ps \<longleftrightarrow>
     room s ps \<and> image (mem s) pg k \<and> used (mem s) pg \<inter> set ps = {} \<and>
     used (mem s) pg \<union> set ps = used (mem s0) pg \<union> set ps0 \<and> only_in (used (mem s) pg) (mem s0) (mem s) \<and> same_rest s0 s \<and>
     (\<forall>va. user_byte (mem s) pg va =
        (if unat va div 4096 < k0 then user_byte (mem s0) pg va else if unat va div 4096 < k then Some 0 else None)) \<and>
     (\<forall>i. tab (mem s) pg i \<noteq> None \<longrightarrow> tab (mem s0) pg i \<noteq> None \<or> i < 512)"

lemma image_table: "image m pg k \<Longrightarrow> tab m pg (dirx k) = None \<Longrightarrow> k mod 1024 = 0"
proof -
  assume a: "image m pg k" "tab m pg (dirx k) = None"
  show ?thesis
  proof (cases "k mod 1024")
    case (Suc r)
    then have k: "k - 1 = 1024 * (k div 1024) + r" "r < 1024" "0 < k"
      using mult_div_mod_eq [of 1024 k] mod_less_divisor [of 1024 k] by linarith+
    have "dirx (k - 1) = dirx k" unfolding dirx_def k(1) using k(2) by simp
    moreover have "page_frame m pg (k - 1) \<noteq> None" using a(1) k(3) unfolding image_def by simp
    ultimately have False using a(2) by (simp add: frm_def)
    then show ?thesis ..
  qed
qed

lemma grow_round:
  assumes g: "grown pg k0 k s0 ps0 s (p # ps)" and k: "k0 \<le> k" "k < 2 ^ 19" and a: "unat a = 4096 * k" and av: "k mod 1024 = 0 \<Longrightarrow> ps \<noteq> []"
    and s1: "room s1 ps" "mem s1 = mem s" "same_rest s s1"
  shows "\<exists>s' ps'. mappages pg a PGSIZE p PTEL_DEFAULT (s1\<lparr>mem := memset (mem s1) p 0 (unat PGSIZE)\<rparr>) = Inr (True, s') \<and>
    grown pg k0 (Suc k) s0 ps0 s' ps' \<and> length ps \<le> length ps' + (if k mod 1024 = 0 then 1 else 0)"
proof -
  let ?m = "mem s" and ?z = "memset (mem s) p 0 (unat PGSIZE)" and ?s1 = "s1\<lparr>mem := memset (mem s1) p 0 (unat PGSIZE)\<rparr>"
  from g have r: "room s (p # ps)" and im: "image ?m pg k" and dj: "used ?m pg \<inter> set (p # ps) = {}"
    and us: "used ?m pg \<union> set (p # ps) = used (mem s0) pg \<union> set ps0" and o: "only_in (used ?m pg) (mem s0) ?m" and sr: "same_rest s0 s"
    and ub: "\<forall>va. user_byte ?m pg va = (if unat va div 4096 < k0 then user_byte (mem s0) pg va else if unat va div 4096 < k then Some 0 else None)"
    and tb: "\<forall>i. tab ?m pg i \<noteq> None \<longrightarrow> tab (mem s0) pg i \<noteq> None \<or> i < 512"
    by (auto simp: grown_def)
  have ok: "space_ok ?m pg" using im by (simp add: image_def)
  have p: "page_addr p" "p \<notin> used ?m pg" "p \<notin> set ps" using room_pages [OF r] dj by auto
  have lz: "loc ?z pg = loc ?m pg" by (rule loc_frame [OF zero_page(1)]) (use p ok in auto)
  have okz: "space_ok ?z pg" and uz: "used ?z pg = used ?m pg" using ok lz by (simp_all add: space_ok_def used_def)
  have tz: "tab ?z pg i = tab ?m pg i" "frm ?z pg i j = frm ?m pg i j" for i j
    using fun_cong [OF lz, of "Tab i"] fun_cong [OF lz, of "Frm i j"] by simp_all
  have bz: "user_byte ?z pg va = user_byte ?m pg va" for va
  proof (cases "page_frame ?m pg (unat va div 4096)")
    case (Some q)
    then have "q \<in> used ?m pg" using used_intro [of ?m pg "Frm _ _"] by fastforce
    then have "page_addr q" "q \<noteq> p" using used_page [OF ok] p(2) by auto
    then show ?thesis using Some tz only_in_page [OF zero_page(1) _ \<open>page_addr q\<close>] p(1) offset_in_page [of q] by (simp add: user_byte_def)
  qed (simp add: user_byte_def tz)
  have ms: "mem ?s1 = ?z" using s1(2) by simp
  have rz: "room ?s1 ps" by (rule room_frame [OF s1(1) zero_page(1)]) (use p in auto)
  have an: "unat a div 4096 = k" using a by simp
  have "page_frame ?m pg k = None" using im by (auto simp: image_def)
  then have "\<exists>s' t ps'. map_page pg a p PTEL_DEFAULT ?s1 = Inr (True, s') \<and> room s' ps' \<and>
    loc (mem s') pg = (loc (mem ?s1) pg)(Tab (dirx k) \<mapsto> t, Frm (dirx k) (tabx k) \<mapsto> p) \<and> space_ok (mem s') pg \<and>
    only_in {pg, t} (mem ?s1) (mem s') \<and> used (mem s') pg = insert p (insert t (used (mem ?s1) pg)) \<and> same_rest ?s1 s' \<and>
    (if tab (mem ?s1) pg (dirx k) = None then ps = t # ps' else ps' = ps \<and> tab (mem ?s1) pg (dirx k) = Some t)"
    using okz uz dj p av image_table [OF im] an tz by (intro map_page_run [OF rz]) (auto simp: ms)
  then obtain s' t ps' where m: "map_page pg a p PTEL_DEFAULT ?s1 = Inr (True, s')" "room s' ps'"
    "loc (mem s') pg = (loc ?z pg)(Tab (dirx k) \<mapsto> t, Frm (dirx k) (tabx k) \<mapsto> p)" "space_ok (mem s') pg"
    "only_in {pg, t} ?z (mem s')" "used (mem s') pg = insert p (insert t (used ?m pg))" "same_rest ?s1 s'"
    "if tab ?m pg (dirx k) = None then ps = t # ps' else ps' = ps \<and> tab ?m pg (dirx k) = Some t"
    unfolding ms uz tz(1) by blast
  have fk: "page_frame (mem s') pg n \<noteq> None \<longleftrightarrow> n < Suc k" for n
    using fun_cong [OF m(3), of "Frm (dirx n) (tabx n)"] index_inj [of n k] im tz(2) unfolding image_def by auto
  have b: "user_byte (mem s') pg va = (if unat va div 4096 = k then Some 0 else user_byte ?m pg va)" for va
    using enter_bytes [OF m(4,3,5), of va] zero_page(2) [OF offset_in_page [OF p(1)], of "unat va mod 4096" ?m] by (simp add: bz)
  have ub': "user_byte (mem s') pg va = (if unat va div 4096 < k0 then user_byte (mem s0) pg va else if unat va div 4096 < Suc k then Some 0 else None)" for va
    using b [of va] ub k(1) by auto
  have t: "insert t (set ps') \<union> used ?m pg = set ps \<union> used ?m pg" "t \<notin> set ps'" "length ps \<le> length ps' + (if k mod 1024 = 0 then 1 else 0)"
    using m(8) room_pages(2) [OF r] image_table [OF im] dj used_intro [of ?m pg "Tab (dirx k)" t] by (auto split: if_splits)
  have "set ps' \<subseteq> set ps" using m(8) by (auto split: if_splits)
  then have d: "used (mem s') pg \<inter> set ps' = {}" using m(6) t(2) dj p(3) by auto
  have u: "used (mem s') pg \<union> set ps' = used (mem s0) pg \<union> set ps0"
    using m(6) t(1) unfolding us [symmetric] by auto
  have o': "only_in (used (mem s') pg) (mem s0) (mem s')"
    using only_in_trans [OF only_in_trans [OF o zero_page(1)] m(5)] by (rule only_in_mono) (use m(6) dir_used [of pg ?m] in auto)
  have "dirx k < 512" using k(2) by (simp add: dirx_def div_less_iff_less_mult)
  then have tb': "\<forall>i. tab (mem s') pg i \<noteq> None \<longrightarrow> tab (mem s0) pg i \<noteq> None \<or> i < 512"
    using tb fun_cong [OF m(3), of "Tab i" for i] tz(1) by auto
  have "same_rest s0 s'" using sr s1(3) m(7) by (auto simp: same_rest_def)
  then have "grown pg k0 (Suc k) s0 ps0 s' ps'" using m(2,4) d u o' ub' fk tb' by (simp add: grown_def image_def)
  moreover have "mappages pg a PGSIZE p PTEL_DEFAULT ?s1 = Inr (True, s')"
    using mappages_one [of a pg p PTEL_DEFAULT ?s1] a k(2) m(1) by simp
  ultimately show ?thesis using t(3) by blast
qed

lemma allocuvm_loop_run:
  assumes K: "0 < K" "K \<le> 2 ^ 19" and lastp: "unat lastp = 4096 * (K - 1)"
  shows "grown pg k0 k s0 ps0 s ps \<Longrightarrow> k0 \<le> k \<Longrightarrow> k \<le> K \<Longrightarrow> unat a = 4096 * k \<Longrightarrow> K - k < fuel \<Longrightarrow> need k K \<le> length ps \<Longrightarrow>
    \<exists>s' ps'. allocuvm_loop fuel pg oldsz newsz a lastp s = Inr (if newsz > oldsz then newsz else oldsz, s') \<and> grown pg k0 K s0 ps0 s' ps' \<and> length ps \<le> length ps' + need k K"
proof (induction fuel arbitrary: a k s ps)
  case (Suc fuel)
  have le: "a \<le> lastp \<longleftrightarrow> k < K" using lastp K(1) Suc.prems(4) by (auto simp: word_le_nat_alt)
  show ?case
  proof (cases "k < K")
    case True
    obtain p ps1 where ps: "ps = p # ps1" using Suc.prems(6) need_step [OF True] by (cases ps) auto
    have "room s (p # ps1)" using Suc.prems(1) ps by (simp add: grown_def)
    from kalloc_room [OF this] obtain s1 where k: "kalloc s = Inr (p, s1)" "room s1 ps1" "mem s1 = mem s" "p \<noteq> 0" "same_rest s s1" by blast
    have "\<exists>s' ps'. mappages pg a PGSIZE p PTEL_DEFAULT (s1\<lparr>mem := memset (mem s1) p 0 (unat PGSIZE)\<rparr>) = Inr (True, s') \<and>
      grown pg k0 (Suc k) s0 ps0 s' ps' \<and> length ps1 \<le> length ps' + (if k mod 1024 = 0 then 1 else 0)"
      using Suc.prems True K(2) need_step [OF True] ps k by (intro grow_round [of pg k0 k s0 ps0 s p ps1]) auto
    then obtain s2 ps2 where r: "mappages pg a PGSIZE p PTEL_DEFAULT (s1\<lparr>mem := memset (mem s1) p 0 (unat PGSIZE)\<rparr>) = Inr (True, s2)"
      "grown pg k0 (Suc k) s0 ps0 s2 ps2" "length ps1 \<le> length ps2 + (if k mod 1024 = 0 then 1 else 0)" by blast
    have "unat (a + of_nat 4096) = unat a + 4096" using Suc.prems(4) True K(2) by (intro unat_ptr_add) simp
    then have a': "unat (a + PGSIZE) = 4096 * Suc k" using Suc.prems(4) by (simp add: PGSIZE_def)
    have "need (Suc k) K \<le> length ps2" using Suc.prems(6) need_step [OF True] ps r(3) by (simp split: if_splits)
    then have "\<exists>s' ps'. allocuvm_loop fuel pg oldsz newsz (a + PGSIZE) lastp s2 = Inr (if newsz > oldsz then newsz else oldsz, s') \<and> grown pg k0 K s0 ps0 s' ps' \<and> length ps2 \<le> length ps' + need (Suc k) K"
      using Suc.prems True by (intro Suc.IH [OF r(2) _ _ a']) auto
    moreover have "allocuvm_loop (Suc fuel) pg oldsz newsz a lastp s = allocuvm_loop fuel pg oldsz newsz (a + PGSIZE) lastp s2"
      using le True k r(1) by (simp add: PADDR_def Let_def)
    moreover have "length ps \<le> length ps' + need k K" if "length ps2 \<le> length ps' + need (Suc k) K" for ps' :: "u32 list"
      using that r(3) ps need_step [OF True] by (simp split: if_splits)
    ultimately show ?thesis by metis
  qed (use Suc.prems le in auto)
qed simp

lemma image_bytes: "image m pg k \<Longrightarrow> user_byte m pg va = None \<longleftrightarrow> k \<le> unat va div 4096"
proof -
  assume "image m pg k"
  then have "page_frame m pg (unat va div 4096) \<noteq> None \<longleftrightarrow> unat va div 4096 < k" by (simp only: image_def)
  then show ?thesis by (auto simp: user_byte_def not_less split: option.splits)
qed

lemma grown_start:
  assumes "room s ps" "image (mem s) pg k" "used (mem s) pg \<inter> set ps = {}"
  shows "grown pg k k s ps s ps"
  using assms image_bytes [OF assms(2)] by (auto simp: grown_def only_in_def)

lemma pages_of_mono: "x \<le> y \<Longrightarrow> pages_of x \<le> pages_of y"
  by (simp add: pages_of_def word_le_nat_alt div_le_mono)

lemma allocuvm_run:
  assumes "room s ps" "image (mem s) pg (pages_of oldsz)" "used (mem s) pg \<inter> set ps = {}"
    and sz: "oldsz \<le> newsz" "newsz \<le> USERTOP" "newsz \<noteq> 0" and n: "need (pages_of oldsz) (pages_of newsz) \<le> length ps"
  shows "\<exists>s' ps'. allocuvm pg oldsz newsz s = Inr (newsz, s') \<and> grown pg (pages_of oldsz) (pages_of newsz) s ps s' ps' \<and>
    length ps \<le> length ps' + need (pages_of oldsz) (pages_of newsz)"
proof -
  have K: "pages_of newsz \<le> 2 ^ 19" using pages_of_user(1) sz(2) by blast
  have r: "unat (PGROUNDUP oldsz) = 4096 * pages_of oldsz"
    using pages_of_user(2) [OF order_trans [OF sz(1,2)]] by (intro round_up_nat) simp
  have f: "pages_of newsz - pages_of oldsz < 2 ^ 20 + 1" using K by simp
  have "(if newsz > oldsz then newsz else oldsz) = newsz" using sz(1) by auto
  with allocuvm_loop_run [OF last_page(2) [OF sz(3)] K last_page(1) [OF sz(3)] grown_start [OF assms(1-3)] order_refl pages_of_mono [OF sz(1)] r f n,
      of oldsz newsz]
  have "\<exists>s' ps'. allocuvm_loop (2 ^ 20 + 1) pg oldsz newsz (PGROUNDUP oldsz) (PGROUNDDOWN (newsz - 1)) s = Inr (newsz, s') \<and>
    grown pg (pages_of oldsz) (pages_of newsz) s ps s' ps' \<and> length ps \<le> length ps' + need (pages_of oldsz) (pages_of newsz)" by (simp only:)
  moreover have "allocuvm pg oldsz newsz s = allocuvm_loop (2 ^ 20 + 1) pg oldsz newsz (PGROUNDUP oldsz) (PGROUNDDOWN (newsz - 1)) s"
    using leD [OF sz(2)] by (simp add: allocuvm_def Let_def)
  ultimately show ?thesis by metis
qed

text \<open>
  C37. A process grows (\<^verbatim>\<open>sbrk\<close>, \<^verbatim>\<open>exec\<close>): when enough pages are free, \<^verbatim>\<open>allocuvm\<close> returns the new size; the
  address space then has exactly the pages of the new size, its old bytes are unchanged and its new bytes are
  zero. Pages only move: each page is afterwards either in the address space or free, never both, and the
  pages of both together are the same as before; memory outside the address space is untouched.
\<close>

theorem allocuvm_grows:
  assumes "room s ps" "image (mem s) pg (pages_of oldsz)" "used (mem s) pg \<inter> set ps = {}"
    and "oldsz \<le> newsz" "newsz \<le> USERTOP" "newsz \<noteq> 0" "need (pages_of oldsz) (pages_of newsz) \<le> length ps"
  shows "\<exists>s' ps'. allocuvm pg oldsz newsz s = Inr (newsz, s') \<and> room s' ps' \<and> image (mem s') pg (pages_of newsz) \<and>
    used (mem s') pg \<inter> set ps' = {} \<and> used (mem s') pg \<union> set ps' = used (mem s) pg \<union> set ps \<and>
    only_in (used (mem s') pg) (mem s) (mem s') \<and>
    (\<forall>va. user_byte (mem s') pg va =
       (if unat va div 4096 < pages_of oldsz then user_byte (mem s) pg va else if unat va div 4096 < pages_of newsz then Some 0 else None))"
  using allocuvm_run [OF assms] unfolding grown_def by blast

section \<open>Shrinking an address space\<close>

lemma pages_freed_image:
  assumes f: "pages_freed pg k K s ps s' ps'" and im: "image (mem s) pg K" and k: "k \<le> K" and dj: "used (mem s) pg \<inter> set ps = {}"
  shows "image (mem s') pg k" "used (mem s') pg \<inter> set ps' = {}" "used (mem s') pg \<union> set ps' = used (mem s) pg \<union> set ps"
    "\<forall>va. user_byte (mem s') pg va = (if unat va div 4096 < k then user_byte (mem s) pg va else None)"
proof -
  let ?L = "loc (mem s) pg"
  from f have l: "loc (mem s') pg = cut_pages k K ?L" and ps: "set ps' = set ps \<union> frames ?L k K"
    and o: "only_in (tables (mem s) pg \<union> frames ?L k K) (mem s) (mem s')" by (auto simp: pages_freed_def)
  have ok: "space_ok (mem s) pg" using im by (simp add: image_def)
  have ok': "space_ok (mem s') pg" using space_sub(1) [OF ok, of "mem s'"] cut_pages_le l by metis
  have fr: "page_frame (mem s') pg n = (if n < k then page_frame (mem s) pg n else None)" for n
  proof -
    have "page_frame (mem s) pg n \<noteq> None \<longleftrightarrow> n < K" using im by (simp only: image_def)
    then show ?thesis using fun_cong [OF l, of "Frm (dirx n) (tabx n)"] k by auto
  qed
  then show im': "image (mem s') pg k" using ok' im k unfolding image_def by auto
  have u: "used (mem s') pg = used (mem s) pg - frames ?L k K" by (rule used_cut [OF ok l])
  then show "used (mem s') pg \<inter> set ps' = {}" "used (mem s') pg \<union> set ps' = used (mem s) pg \<union> set ps"
    using ps dj frames_sub [of "mem s" pg k K] by auto
  have "user_byte (mem s') pg va = user_byte (mem s) pg va" if va: "unat va div 4096 < k" for va
  proof -
    let ?n = "unat va div 4096"
    obtain q where q: "page_frame (mem s) pg ?n = Some q" using im va k unfolding image_def by (metis not_None_eq order_less_le_trans)
    have lq: "loc (mem s') pg (Frm (dirx ?n) (tabx ?n)) = Some q" using fr [of ?n] q va by simp
    have "q \<notin> frames ?L k K" using used_intro [OF lq] u by auto
    moreover have "q \<notin> tables (mem s) pg"
    proof
      assume "q \<in> tables (mem s) pg"
      then have "q = pg \<or> (\<exists>i. tab (mem s') pg i = Some q)" using fun_cong [OF l, of "Tab _"] by (auto simp: tables_def)
      then show False using ok' lq unfolding space_ok_def by (metis loc.simps(1,2) slot.distinct(3,5))
    qed
    moreover have "page_addr q" using used_page [OF ok' used_intro [OF lq]] .
    moreover have "page_addr x" if "x \<in> tables (mem s) pg \<union> frames ?L k K" for x
      using that used_page [OF ok] tables_used [of "mem s" pg] frames_sub [of "mem s" pg k K] by auto
    ultimately have "mem s' (q + of_nat (unat va mod 4096)) = mem s (q + of_nat (unat va mod 4096))"
      using only_in_page [OF o] offset_in_page [of q "unat va mod 4096"] by auto
    then show ?thesis using q lq by (simp add: user_byte_def)
  qed
  then show "\<forall>va. user_byte (mem s') pg va = (if unat va div 4096 < k then user_byte (mem s) pg va else None)"
    using image_bytes [OF im'] by auto
qed

text \<open>
  C38. Shrinking undoes growing: after \<^verbatim>\<open>allocuvm\<close> and \<^verbatim>\<open>deallocuvm\<close> back to the old size, the address space has
  its old pages with their old bytes and no others, and every page is again either in it or free. Only page
  tables that growing had to add may stay with the address space.
\<close>

theorem grow_shrink:
  assumes "room s ps" "image (mem s) pg (pages_of oldsz)" "used (mem s) pg \<inter> set ps = {}"
    and "oldsz \<le> newsz" "newsz \<le> USERTOP" "newsz \<noteq> 0" "need (pages_of oldsz) (pages_of newsz) \<le> length ps"
  shows "\<exists>s1 s2 ps2. allocuvm pg oldsz newsz s = Inr (newsz, s1) \<and> deallocuvm pg newsz oldsz s1 = Inr (oldsz, s2) \<and>
    room s2 ps2 \<and> image (mem s2) pg (pages_of oldsz) \<and> used (mem s2) pg \<inter> set ps2 = {} \<and>
    used (mem s2) pg \<union> set ps2 = used (mem s) pg \<union> set ps \<and> (\<forall>va. user_byte (mem s2) pg va = user_byte (mem s) pg va)"
proof -
  obtain s1 ps1 where a: "allocuvm pg oldsz newsz s = Inr (newsz, s1)" "grown pg (pages_of oldsz) (pages_of newsz) s ps s1 ps1"
    using allocuvm_run [OF assms] by blast
  then have g: "room s1 ps1" "image (mem s1) pg (pages_of newsz)" "used (mem s1) pg \<inter> set ps1 = {}"
    "used (mem s1) pg \<union> set ps1 = used (mem s) pg \<union> set ps" by (auto simp: grown_def)
  have ok1: "space_ok (mem s1) pg" using g(2) by (simp add: image_def)
  have "(if oldsz < newsz then oldsz else newsz) = oldsz" using assms(4) by auto
  then obtain s2 ps2 where d: "deallocuvm pg newsz oldsz s1 = Inr (oldsz, s2)" "pages_freed pg (pages_of oldsz) (pages_of newsz) s1 ps1 s2 ps2"
    using deallocuvm_run [OF g(1) ok1 g(3) assms(5,6) order_trans [OF assms(4,5)]] by auto
  note f = pages_freed_image [OF d(2) g(2) pages_of_mono [OF assms(4)] g(3)]
  have "user_byte (mem s2) pg va = user_byte (mem s) pg va" for va
    using f(4) a(2) image_bytes [OF assms(2), of va] by (auto simp: grown_def)
  then show ?thesis using a(1) d f(1-3) g(4) unfolding pages_freed_def by metis
qed

text \<open>
  C39. Nothing leaks when an address space is freed (\<^verbatim>\<open>wait\<close>, \<^verbatim>\<open>exec\<close>): \<^verbatim>\<open>freevm\<close> returns, and afterwards the free
  pages are those of before together with every page of the address space, its directory and page tables
  included; no other memory changes.
\<close>

theorem freevm_frees:
  assumes "room s ps" "image (mem s) pg k" "k \<le> 2 ^ 19" "used (mem s) pg \<inter> set ps = {}"
  shows "\<exists>s' ps'. freevm pg s = Inr s' \<and> room s' ps' \<and> set ps' = set ps \<union> used (mem s) pg \<and> only_in (used (mem s) pg) (mem s) (mem s')"
proof -
  have "i < 512" if f: "frm (mem s) pg i j \<noteq> None" for i j
  proof -
    have j: "j < 1024" using f by (auto simp: frm_def split: option.splits if_splits)
    then have "page_frame (mem s) pg (1024 * i + j) \<noteq> None" using f by (simp add: page_number)
    then have "1024 * i + j < k" using assms(2) by (simp add: image_def)
    then show ?thesis using assms(3) by simp
  qed
  then show ?thesis using freevm_run [of s ps pg] assms(1,2,4) unfolding image_def by blast
qed

section \<open>Failures\<close>

text \<open>
  C40. \<^verbatim>\<open>allocuvm\<close> ignores the result of \<^verbatim>\<open>mappages\<close>. When one page is left and the new page needs a page table,
  it reports success although the new page is not mapped, and the last free page is lost: it is neither in
  the address space nor free.
\<close>

theorem allocuvm_unmapped:
  assumes r: "room s [p]" and "image (mem s) pg k" "used (mem s) pg \<inter> {p} = {}" "tab (mem s) pg (dirx k) = None" "k < 2 ^ 19"
    and sz: "unat oldsz = 4096 * k" "unat newsz = 4096 * Suc k"
  shows "\<exists>s'. allocuvm pg oldsz newsz s = Inr (newsz, s') \<and> newsz \<noteq> 0 \<and> room s' [] \<and> p \<notin> used (mem s') pg \<and>
    page_frame (mem s') pg k = None"
proof -
  let ?a = "PGROUNDUP oldsz"
  have p: "page_addr p" "p \<notin> used (mem s) pg" using room_pages(1) [OF r, of p] assms(3) by auto
  have ok: "space_ok (mem s) pg" using assms(2) by (simp add: image_def)
  have n: "newsz \<noteq> 0" "newsz \<le> USERTOP" "oldsz < newsz" using sz assms(5) by (auto simp: USERTOP_def word_le_nat_alt word_less_nat_alt)
  have k: "pages_of oldsz = k" "pages_of newsz = Suc k" using sz by (simp_all add: pages_of_def)
  have a: "unat ?a = 4096 * k" "unat (PGROUNDDOWN (newsz - 1)) = 4096 * k"
    using round_up_nat [of oldsz] last_page(1) [OF n(1)] k sz(1) assms(5) by simp_all
  have "unat (?a + of_nat 4096) = unat ?a + 4096" using a(1) assms(5) by (intro unat_ptr_add) simp
  then have a': "?a \<le> PGROUNDDOWN (newsz - 1)" "\<not> ?a + PGSIZE \<le> PGROUNDDOWN (newsz - 1)"
    using a by (simp_all add: word_le_nat_alt PGSIZE_def)
  obtain s1 where s1: "kalloc s = Inr (p, s1)" "room s1 []" "mem s1 = mem s" "p \<noteq> 0" using kalloc_room [OF r] by blast
  let ?z = "memset (mem s) p 0 (unat PGSIZE)"
  let ?s1 = "s1\<lparr>mem := memset (mem s1) p 0 (unat PGSIZE)\<rparr>"
  have rz: "room ?s1 []" by (rule room_frame [OF s1(2) zero_page(1)]) (use p in auto)
  have lz: "loc ?z pg = loc (mem s) pg" by (rule loc_frame [OF zero_page(1)]) (use p ok in auto)
  have tz: "tab ?z pg (dirx k) = None" using fun_cong [OF lz, of "Tab (dirx k)"] assms(4) by simp
  let ?s2 = "?s1\<lparr>freelist := 0, lk := cycle (lk ?s1)\<rparr>"
  have "kalloc ?s1 = Inr (0, ?s2)" using rz kalloc_run [of ?s1] by (simp add: room_def free_pages_def)
  moreover have "load32 ?z (ent pg (dirx k)) AND PTEL_V = 0"
    using tz index_less(2) [of ?a] a(1) by (simp add: tab_def split: if_splits)
  ultimately have "map_page pg ?a p PTEL_DEFAULT ?s1 = Inr (False, ?s2)"
    using a(1) s1(3) by (simp add: map_page_def walkpgdir_def index_ent Let_def)
  then have "mappages pg ?a PGSIZE p PTEL_DEFAULT ?s1 = Inr (False, ?s2)"
    using mappages_one [of ?a pg p PTEL_DEFAULT ?s1] a(1) assms(5) by simp
  then have loop: "allocuvm_loop (Suc (Suc f)) pg oldsz newsz ?a (PGROUNDDOWN (newsz - 1)) s = Inr (newsz, ?s2)" for f
    using a' s1(1,4) n(3) by (simp add: PADDR_def Let_def)
  have "allocuvm pg oldsz newsz s = Inr (newsz, ?s2)"
  proof -
    have "(2 :: nat) ^ 20 + 1 = Suc (Suc (2 ^ 20 - 1))" by simp
    then show ?thesis using leD [OF n(2)] loop [of "2 ^ 20 - 1"] by (simp only: allocuvm_def Let_def if_False)
  qed
  moreover have "room ?s2 []" using rz by (simp add: room_def free_pages_def kmem_idle_def)
  moreover have "used (mem ?s2) pg = used (mem s) pg" "page_frame (mem ?s2) pg k = None"
    using lz fun_cong [OF lz, of "Frm (dirx k) (tabx k)"] tz s1(3) by (simp_all add: used_def frm_def)
  ultimately show ?thesis using n(1) p(2) by blast
qed

text \<open>The loops over pages when the last page is computed from a size of 0: it is the last page of the address space.\<close>

definition aligned :: "u32 \<Rightarrow> bool" where
  "aligned a \<longleftrightarrow> a AND (PGSIZE - 1) = 0"

lemma aligned_le: "aligned a \<Longrightarrow> a \<le> PGROUNDDOWN (- 1)"
  and aligned_next: "aligned a \<Longrightarrow> aligned (a + PGSIZE)"
  and aligned_round: "aligned (PGROUNDUP x)"
proof -
  have m: "PGSIZE - 1 = (semiring_bit_operations_class.mask 12 :: u32)" by (simp add: PGSIZE_def mask_eq_exp_minus_1)
  have al: "aligned a \<longleftrightarrow> unat a mod 4096 = 0" for a
    by (simp add: aligned_def m take_bit_eq_mask [symmetric] word_unat_eq_iff unsigned_take_bit_eq take_bit_eq_mod unat_mod)
  have l: "unat (PGROUNDDOWN (- 1)) = 4294963200" by (simp add: round_nat unsigned_minus_1_eq_mask mask_eq_exp_minus_1)
  have "unat a \<le> 4294963200" if "unat a mod 4096 = 0" for a :: u32
  proof -
    have "unat a div 4096 \<le> 1048575" using unat_lt32 [of a] by (simp add: div_less_iff_less_mult flip: less_Suc_eq_le)
    then show ?thesis using that mult_div_mod_eq [of 4096 "unat a"] by simp
  qed
  then show "aligned a \<Longrightarrow> a \<le> PGROUNDDOWN (- 1)" by (simp add: al word_le_nat_alt l)
  show "aligned a \<Longrightarrow> aligned (a + PGSIZE)" by (simp add: al PGSIZE_def unat_word_ariths mod_mod_cancel)
  show "aligned (PGROUNDUP x)" by (simp add: aligned_def PGROUNDUP_def and.assoc)
qed

lemma deallocuvm_loop_stuck: "aligned a \<Longrightarrow> deallocuvm_loop fuel pg a (PGROUNDDOWN (- 1)) s \<noteq> Inr r"
proof (induction fuel arbitrary: a s)
  case (Suc fuel)
  show ?case using aligned_le [OF Suc.prems] Suc.IH [OF aligned_next [OF Suc.prems]]
    by (auto simp: Let_def bindR_eq_Inr split: prod.splits if_splits)
qed simp

lemma deallocuvm_zero: "deallocuvm pg 0 newsz s \<noteq> Inr r"
  by (auto simp: deallocuvm_def Let_def bindR_eq_Inr deallocuvm_loop_stuck aligned_round)

lemma allocuvm_loop_stuck: "aligned a \<Longrightarrow> allocuvm_loop fuel pg oldsz 0 a (PGROUNDDOWN (- 1)) s \<noteq> Inr r"
proof (induction fuel arbitrary: a s)
  case (Suc fuel)
  show ?case using aligned_le [OF Suc.prems] Suc.IH [OF aligned_next [OF Suc.prems]]
    by (auto simp: Let_def bindR_eq_Inr deallocuvm_zero split: prod.splits if_splits)
qed simp

text \<open>
  \<^verbatim>\<open>allocuvm\<close> to size 0 never returns. The last page is computed as that of \<^verbatim>\<open>newsz - 1\<close>, which is the end of
  the address space: the loop allocates until memory runs out, and \<^verbatim>\<open>deallocuvm\<close> then loops for ever in the same
  way. \<^verbatim>\<open>exec\<close> of a file whose first segment ends at address 0 gets there.
\<close>

theorem allocuvm_zero_hangs: "allocuvm pg oldsz 0 s \<noteq> Inr r"
  by (simp add: allocuvm_def Let_def USERTOP_def allocuvm_loop_stuck aligned_round)

section \<open>Examples\<close>

lemma demo_image: "image demo_mem 0x100000 1" "tab demo_mem 0x100000 1 = None"
proof -
  have "page_frame demo_mem 0x100000 n \<noteq> None \<longleftrightarrow> n < 1" for n
    using fun_cong [OF demo_vm_space(1), of "Frm (dirx n) (tabx n)"] index_inj [of n 0] by (auto simp: dirx_def tabx_def)
  then show "image demo_mem 0x100000 1" using demo_vm_space(2) by (simp add: image_def)
  show "tab demo_mem 0x100000 1 = None" using fun_cong [OF demo_vm_space(1), of "Tab 1"] by simp
qed

lemma demo_free: "used demo_mem 0x100000 \<inter> set [0x103000, 0x104000, 0x105000, 0x106000] = {}" "mem demo_vm = demo_mem"
  using demo_vm_space(3) by (auto simp: demo_vm_def)

lemma demo_sizes: "pages_of 1 = 1" "pages_of 5000 = 2" "need (Suc 0) 2 = 1" "(5000 :: u32) \<le> USERTOP"
  by (simp_all add: pages_of_def need_def USERTOP_def)

theorem allocuvm_grows_witness: "\<exists>s'. allocuvm 0x100000 1 5000 demo_vm = Inr (5000, s') \<and> user_byte (mem s') 0x100000 4999 = Some 0"
proof -
  have "need (pages_of 1) (pages_of 5000) \<le> length [0x103000, 0x104000, 0x105000, 0x106000 :: u32]" by (simp add: demo_sizes)
  then obtain s' where "allocuvm 0x100000 1 5000 demo_vm = Inr (5000, s')" "\<forall>va. user_byte (mem s') 0x100000 va =
    (if unat va div 4096 < pages_of 1 then user_byte (mem demo_vm) 0x100000 va else if unat va div 4096 < pages_of 5000 then Some 0 else None)"
    using allocuvm_grows [OF demo_vm_space(4), of "0x100000" 1 5000] demo_image(1) demo_free demo_sizes(1,4) by auto
  then show ?thesis by (simp add: demo_sizes)
qed

theorem grow_shrink_witness:
  "\<exists>s1 s2. allocuvm 0x100000 1 5000 demo_vm = Inr (5000, s1) \<and> deallocuvm 0x100000 5000 1 s1 = Inr (1, s2) \<and>
    user_byte (mem s2) 0x100000 0 = user_byte demo_mem 0x100000 0"
proof -
  have "need (pages_of 1) (pages_of 5000) \<le> length [0x103000, 0x104000, 0x105000, 0x106000 :: u32]" by (simp add: demo_sizes)
  then show ?thesis
    using grow_shrink [OF demo_vm_space(4), of "0x100000" 1 5000] demo_image(1) demo_free demo_sizes(1,4) by auto
qed

theorem freevm_frees_witness:
  "\<exists>s' ps'. freevm 0x100000 demo_vm = Inr s' \<and> room s' ps' \<and> 0x100000 \<in> set ps'"
  using freevm_frees [OF demo_vm_space(4), of "0x100000" 1] demo_image(1) demo_free dir_used [of "0x100000" demo_mem] by fastforce

text \<open>A new address space (a zeroed directory) with one free page.\<close>

definition tight_vm :: kmem where
  "tight_vm = \<lparr>lk = boot_locks 0, mem = (\<lambda>_. 0), freelist = 0x101000\<rparr>"

theorem allocuvm_unmapped_witness: "\<exists>s'. allocuvm 0x100000 0 4096 tight_vm = Inr (4096, s') \<and> page_frame (mem s') 0x100000 0 = None"
proof -
  have pa: "page_addr 0x100000" "page_addr 0x101000" by (simp_all add: page_addr_nat)
  have l: "loc (mem tight_vm) 0x100000 = [Dir \<mapsto> 0x100000]" by (rule loc_zero [OF pa(1)]) (simp add: tight_vm_def)
  have "room tight_vm [0x101000]"
    using demo_vm_space(4) pa(2) by (simp add: tight_vm_def demo_vm_def room_def free_pages_def kmem_idle_def load32_def le32_def)
  moreover have "image (mem tight_vm) 0x100000 0" "tab (mem tight_vm) 0x100000 (dirx 0) = None" "used (mem tight_vm) 0x100000 = {0x100000}"
    using space_zero [OF pa(1) l] fun_cong [OF l, of "Frm _ _"] fun_cong [OF l, of "Tab _"] by (simp_all add: image_def)
  ultimately show ?thesis using allocuvm_unmapped [of tight_vm "0x101000" "0x100000" 0 0 4096] by auto
qed

end
