(* ===== verification/Fs_Path.thy ===== *)
theory Fs_Path
  imports Fs_Icache Fs_Dir
begin

text \<open>
  Directories and path names: a directory is a file of slots, a slot with an inode number other than 0 binds a
  name. \<^verbatim>\<open>dirlookup\<close> finds the first slot that binds a name, \<^verbatim>\<open>dirlink\<close> binds a new one, and \<^verbatim>\<open>namei\<close> follows the
  elements of a path from directory to directory, holding one reference at a time.
\<close>

section \<open>Directories as lists of slots\<close>

definition cname :: "u8 list \<Rightarrow> u8 list" where
  "cname nm = cstr (array nm) DIRSIZ"

lemma namecmp_cname: "namecmp nm e = 0 \<longleftrightarrow> cname nm = cname e"
  by (simp add: namecmp_def cname_def strncmp_eq_0)

text \<open>\<^verbatim>\<open>dirlookup\<close> scans whole blocks, the end of the last block included.\<close>

definition dir_bytes :: "(u32 \<Rightarrow> u8 list) \<Rightarrow> inode \<Rightarrow> u8 list" where
  "dir_bytes D ip = map (file_byte D ip) [0..<512 * nb (unat (isize ip))]"

definition binds :: "u8 list \<Rightarrow> u8 list \<Rightarrow> nat \<Rightarrow> bool" where
  "binds c nm k \<longleftrightarrow> de_inum c (16 * k) \<noteq> 0 \<and> cname nm = cname (de_name c (16 * k))"

definition dir_find :: "u8 list \<Rightarrow> u8 list \<Rightarrow> nat option" where
  "dir_find c nm = find (binds c nm) [0..<length c div 16]"

lemma length_dir_bytes [simp]: "length (dir_bytes D ip) = 512 * nb (unat (isize ip))"
  by (simp add: dir_bytes_def)

lemma nb_less: "k < nb L \<longleftrightarrow> 512 * k < L"
  by (auto simp: nb_def)

lemma find_cong_set: "(\<And>x. x \<in> set xs \<Longrightarrow> P x = Q x) \<Longrightarrow> find P xs = find Q xs"
  by (induction xs) auto

text \<open>Slot \<open>j\<close> of block \<open>b\<close>.\<close>

lemma dir_block_byte:
  "b < nb (unat (isize ip)) \<Longrightarrow> p < 512 \<Longrightarrow> dir_bytes D ip ! (512 * b + p) = D (block_addr D ip b) ! p"
  by (simp add: dir_bytes_def file_byte_def BSIZE_def)

lemma dir_block_slot:
  assumes b: "b < nb (unat (isize ip))" and j: "j < 32" and len: "\<forall>sec. length (D sec) = 512"
  shows "binds (dir_bytes D ip) nm (32 * b + j) = binds (D (block_addr D ip b)) nm j"
    "de_inum (dir_bytes D ip) (16 * (32 * b + j)) = de_inum (D (block_addr D ip b)) (16 * j)"
proof -
  let ?c = "dir_bytes D ip" and ?d = "D (block_addr D ip b)"
  have e: "16 * (32 * b + j) = 512 * b + 16 * j" by simp
  have at: "?c ! (512 * b + 16 * j + q) = ?d ! (16 * j + q)" if "q < 16" for q
    using dir_block_byte [OF b, of "16 * j + q"] j that by (simp add: add.assoc)
  have n: "de_inum ?c (16 * (32 * b + j)) = de_inum ?d (16 * j)" using at [of 0] at [of 1] by (simp add: e de_inum_def get16_def)
  have lc: "512 * b + 16 * j + 16 \<le> length ?c" using b j by (simp add: algebra_simps)
  have "de_name ?c (16 * (32 * b + j)) = de_name ?d (16 * j)"
  proof (rule nth_equalityI)
    show "length (de_name ?c (16 * (32 * b + j))) = length (de_name ?d (16 * j))" using lc j len by (simp add: de_name_def DIRSIZ_def e)
  next
    fix q
    assume "q < length (de_name ?c (16 * (32 * b + j)))"
    then have q: "q < 14" by (simp add: de_name_def DIRSIZ_def)
    then show "de_name ?c (16 * (32 * b + j)) ! q = de_name ?d (16 * j) ! q"
      using at [of "q + 2"] lc j len unfolding e by (simp add: de_name_def DIRSIZ_def add.assoc add.commute)
  qed
  with n show "binds ?c nm (32 * b + j) = binds ?d nm j" "de_inum ?c (16 * (32 * b + j)) = de_inum ?d (16 * j)" by (simp_all add: binds_def)
qed

lemma dir_block_find:
  assumes "b < nb (unat (isize ip))" "\<forall>sec. length (D sec) = 512"
  shows "find (\<lambda>p. de_inum (D (block_addr D ip b)) p \<noteq> 0 \<and> namecmp nm (de_name (D (block_addr D ip b)) p) = 0) (map ((*) 16) [0..<32]) =
    map_option (\<lambda>k. 16 * (k - 32 * b)) (find (binds (dir_bytes D ip) nm) [32 * b..<32 * b + 32])"
proof -
  let ?d = "D (block_addr D ip b)"
  have u: "[32 * b..<32 * b + 32] = map ((+) (32 * b)) [0..<32]" by (rule nth_equalityI) simp_all
  have "find (\<lambda>j. binds (dir_bytes D ip) nm (32 * b + j)) [0..<32] = find (binds ?d nm) [0..<32]"
    using dir_block_slot(1) [OF assms(1) _ assms(2)] by (intro find_cong_set) auto
  then have "find (binds (dir_bytes D ip) nm) [32 * b..<32 * b + 32] = map_option ((+) (32 * b)) (find (binds ?d nm) [0..<32])"
    unfolding u find_map_shift by simp
  moreover have "find (\<lambda>p. de_inum ?d p \<noteq> 0 \<and> namecmp nm (de_name ?d p) = 0) (map ((*) 16) [0..<32]) = map_option ((*) 16) (find (binds ?d nm) [0..<32])"
    unfolding find_map_shift binds_def namecmp_cname by simp
  ultimately show ?thesis by (cases "find (binds ?d nm) [0..<32]") simp_all
qed

text \<open>\<^verbatim>\<open>dirlookup\<close> finds the first slot that binds the name, and takes a reference to its inode.\<close>

lemma dirlookup_loop_run:
  assumes "quiet s" "D = disk s" "ip = icache s ! i" "file_inv D ip" "b \<le> nb (unat (isize ip))"
  shows "\<exists>s'. effect D s s' \<and> dirlookup_loop i nm (of_nat (512 * b)) s =
    (case find (binds (dir_bytes D ip) nm) [32 * b..<32 * nb (unat (isize ip))] of
       None \<Rightarrow> Inr (None, s')
     | Some k \<Rightarrow> bindR (iget ROOTDEV (ucast (de_inum (dir_bytes D ip) (16 * k))) s') (\<lambda>(j, s''). Inr (Some (j, of_nat (16 * k)), s'')))"
  using assms
proof (induction "nb (unat (isize ip)) - b" arbitrary: b s)
  case 0
  have sz: "unat (isize ip) \<le> 71680" using "0.prems"(4) by (simp add: file_inv_def file_sizes)
  have "b = nb (unat (isize ip))" using 0 by simp
  moreover from this have "\<not> 512 * b < unat (isize ip)" using nb_less [of b "unat (isize ip)"] by simp
  moreover have "512 * b \<le> 71680" using calculation(1) sz by (simp add: nb_def)
  then have "unat (of_nat (512 * b) :: u32) = 512 * b" by (intro unat_of_nat32) simp
  ultimately have "\<not> of_nat (512 * b) < isize ip" by (simp add: word_less_nat_alt del: of_nat_mult)
  then have "dirlookup_loop i nm (of_nat (512 * b)) s = Inr (None, s)" using 0 by (subst dirlookup_loop.simps) simp
  moreover have "effect D s s" using 0 by (simp add: effect_def quiet_def)
  ultimately show ?case using \<open>b = _\<close> by auto
next
  case (Suc m)
  let ?c = "dir_bytes D ip" and ?n = "nb (unat (isize ip))" and ?o = "of_nat (512 * b) :: u32"
  have fi: "allocated D ip 0 (unat (isize ip))" "unat (isize ip) \<le> 71680" "idev ip = ROOTDEV" "\<forall>sec. length (D sec) = 512"
    using Suc.prems(4) by (auto simp: file_inv_def file_sizes disk_ok_def)
  have b: "b < ?n" using Suc by simp
  then have lt: "512 * b < unat (isize ip)" by (simp add: nb_less)
  have o: "unat ?o = 512 * b" using lt fi(2) by (intro unat_of_nat32) simp
  have "unat (?o div 512) = b" by (simp only: unat_div o) simp
  then have "unat (?o div of_nat BSIZE) = b" by (simp add: BSIZE_def)
  moreover have a0: "block_addr D ip b \<noteq> 0" using fi(1) lt by (auto simp: allocated_def dest: spec [of _ "512 * b"])
  ultimately obtain s1 where 1: "bmap i (?o div of_nat BSIZE) s = Inr (block_addr D ip b, s1)" "effect D s s1"
    using bmap_mapped [OF quiet_can [OF Suc.prems(1)], of i UNIV "?o div of_nat BSIZE" b] Suc.prems(2,3) fi(3) by auto
  have s1: "quiet s1" "disk s1 = D" "icache s1 = icache s" using 1(2) Suc.prems(1) effect_icache [OF 1(2)] by (auto simp: quiet_def effect_def)
  obtain bp s2 s3 where 2: "bread ROOTDEV (block_addr D ip b) s1 = Inr (bp, s2)" "bdata (bufs s2 ! bp) = D (block_addr D ip b)"
    "brelse bp s2 = Inr s3" "effect D s1 s3" using read_block [OF quiet_can [OF s1(1)] UNIV_I] s1(2) by metis
  have e3: "effect D s s3" by (rule effect_trans [OF 1(2) 2(4)])
  have s3: "quiet s3" "disk s3 = D" "icache s3 = icache s" using e3 Suc.prems(1) effect_icache [OF e3] by (auto simp: quiet_def effect_def)
  have go: "?o < isize (icache s ! i)" using o lt Suc.prems(3) by (simp add: word_less_nat_alt)
  let ?f = "find (binds ?c nm) [32 * b..<32 * b + 32]"
  have step: "dirlookup_loop i nm ?o s = (case ?f of
      Some k \<Rightarrow> bindR (iget ROOTDEV (ucast (de_inum (D (block_addr D ip b)) (16 * (k - 32 * b)))) s3) (\<lambda>(j, s). Inr (Some (j, ?o + of_nat (16 * (k - 32 * b))), s))
    | None \<Rightarrow> dirlookup_loop i nm (?o + 512) s3)"
    using go 1(1) 2 s1(3) s3(3) Suc.prems(3) fi(3) dir_block_find [OF b fi(4), of nm]
    by (subst dirlookup_loop.simps) (auto simp: BSIZE_def Let_def split: option.split simp del: of_nat_mult)
  have sp: "[32 * b..<32 * ?n] = [32 * b..<32 * b + 32] @ [32 * Suc b..<32 * ?n]" using b upt_split [of "32 * b" "32 * b + 32" "32 * ?n"] by (simp add: add.commute)
  show ?case
  proof (cases ?f)
    case (Some k)
    then have k: "k \<in> set [32 * b..<32 * b + 32]" by (meson find_in_set)
    then obtain j where j: "k = 32 * b + j" "j < 32" by (auto simp: le_iff_add)
    have "?o + of_nat (16 * (k - 32 * b)) = of_nat (16 * k)" using j by (simp add: algebra_simps)
    then show ?thesis using step Some e3 dir_block_slot(2) [OF b j(2) fi(4)] j
      by (intro exI [of _ s3]) (simp add: sp find_append)
  next
    case None
    have "?o + 512 = of_nat (512 * Suc b)" by (simp add: algebra_simps)
    moreover have "m = ?n - Suc b" "Suc b \<le> ?n" using Suc b by simp_all
    moreover have ff: "find (binds ?c nm) [32 * b..<32 * ?n] = find (binds ?c nm) [32 * Suc b..<32 * ?n]"
      unfolding sp find_append None by simp
    moreover obtain s' where "effect D s3 s'" "dirlookup_loop i nm (of_nat (512 * Suc b)) s3 = (case find (binds ?c nm) [32 * Suc b..<32 * ?n] of
        None \<Rightarrow> Inr (None, s')
      | Some k \<Rightarrow> bindR (iget ROOTDEV (ucast (de_inum ?c (16 * k))) s') (\<lambda>(j, s''). Inr (Some (j, of_nat (16 * k)), s'')))"
      using Suc.hyps(1) [of "Suc b" s3] calculation(2,3) s3 Suc.prems(3,4) by auto
    ultimately show ?thesis using step None effect_trans [OF e3] unfolding ff by (auto simp: add.commute)
  qed
qed

section \<open>What a path means\<close>

text \<open>
  \<open>child D n nm\<close> is the inode the directory \<open>n\<close> binds to the name \<open>nm\<close>; \<open>resolve\<close> follows a list of names.
\<close>

definition child :: "(u32 \<Rightarrow> u8 list) \<Rightarrow> u32 \<Rightarrow> u8 list \<Rightarrow> u32 option" where
  "child D n nm =
     (let c = dir_bytes D (inode_at D n) in
      if itype (inode_at D n) = T_DIR then map_option (\<lambda>k. ucast (de_inum c (16 * k))) (dir_find c nm) else None)"

primrec resolve :: "(u32 \<Rightarrow> u8 list) \<Rightarrow> u8 list list \<Rightarrow> u32 \<Rightarrow> u32 option" where
  "resolve D [] n = Some n"
| "resolve D (e # es) n = (case child D n e of None \<Rightarrow> None | Some m \<Rightarrow> resolve D es m)"

text \<open>The elements of a path: what lies between slashes, cut to the length of a name.\<close>

fun comps :: "u8 list \<Rightarrow> u8 list list" where
  "comps [] = [[]]"
| "comps (c # cs) = (if c = SLASH then [] # comps cs else (c # hd (comps cs)) # tl (comps cs))"

definition elems :: "u8 list \<Rightarrow> u8 list list" where
  "elems path = map (take DIRSIZ) (filter (\<lambda>e. e \<noteq> []) (comps path))"

lemma comps_nonempty [simp]: "comps p \<noteq> []"
  by (cases p) auto

lemma comps_word: "SLASH \<notin> set e \<Longrightarrow> comps (e @ p) = (e @ hd (comps p)) # tl (comps p)"
  by (induction e) auto

lemma elems_slash: "elems (SLASH # p) = elems p"
  by (simp add: elems_def)

lemma elems_slashes: "elems (dropWhile (\<lambda>c. c = SLASH) p) = elems p"
  by (induction p) (simp_all add: elems_slash)

lemma elems_word:
  assumes "SLASH \<notin> set e" "e \<noteq> []" "p = [] \<or> hd p = SLASH"
  shows "elems (e @ p) = take DIRSIZ e # elems p"
proof -
  have "hd (comps p) = []" "filter (\<lambda>e. e \<noteq> []) (tl (comps p)) = filter (\<lambda>e. e \<noteq> []) (comps p)" using assms(3) by (cases p; simp)+
  then show ?thesis using assms(2) comps_word [OF assms(1), of p] by (simp add: elems_def)
qed

lemma elems_empty: "elems (dropWhile (\<lambda>c. c = SLASH) p) = [] \<longleftrightarrow> dropWhile (\<lambda>c. c = SLASH) p = []"
proof (cases "dropWhile (\<lambda>c. c = SLASH) p")
  case (Cons c cs)
  then have "c \<noteq> SLASH" using hd_dropWhile [of "\<lambda>c. c = SLASH" p] by auto
  then show ?thesis using Cons by (simp add: elems_def)
next
  case Nil
  show ?thesis unfolding Nil by (simp add: elems_def)
qed

text \<open>\<^verbatim>\<open>skipelem\<close> takes the first element off a path.\<close>

lemma cstr_ends:
  assumes "length e < n" "\<And>i. i < length e \<Longrightarrow> v i = e ! i" "v (length e) = 0" "0 \<notin> set e"
  shows "cstr v n = e"
proof -
  have "[0..<n] = [0..<length e] @ length e # [Suc (length e)..<n]" using assms(1) upt_split [of 0 "length e" n] by (simp add: upt_conv_Cons)
  moreover have "map v [0..<length e] = e" using assms(2) by (intro nth_equalityI) auto
  ultimately have "map v [0..<n] = e @ 0 # map v [Suc (length e)..<n]" using assms(3) by simp
  then show ?thesis using assms(4) by (simp add: cstr_def takeWhile_append)
qed

lemma cname_short: "length e < DIRSIZ \<Longrightarrow> 0 \<notin> set e \<Longrightarrow> cname (splice 0 (e @ [0]) nm) = e"
  unfolding cname_def by (intro cstr_ends) (auto simp: array_def splice_def nth_append)

lemma cname_full: "length e = DIRSIZ \<Longrightarrow> 0 \<notin> set e \<Longrightarrow> cname (splice 0 e nm) = e"
proof -
  assume e: "length e = DIRSIZ" "0 \<notin> set e"
  then have "map (array (splice 0 e nm)) [0..<DIRSIZ] = e" by (intro nth_equalityI) (auto simp: array_def splice_def nth_append)
  then show ?thesis using e(2) by (simp add: cname_def cstr_def) (metis takeWhile_eq_all_conv)
qed

lemma cname_take: "0 \<notin> set e \<Longrightarrow> length e \<le> DIRSIZ \<Longrightarrow> cname e = e"
  using cname_full [of e e] cstr_ends [of e DIRSIZ "array e"] by (cases "length e = DIRSIZ") (auto simp: cname_def splice_def array_def)

lemma cname_idem: "cname (cname nm) = cname nm"
  using length_cstr [of "array nm" DIRSIZ] by (intro cname_take) (auto simp: cname_def cstr_def dest: set_takeWhileD)

lemma skipelem_elems:
  assumes "0 \<notin> set path" "length nm = DIRSIZ"
  shows "case elems path of
      [] \<Rightarrow> skipelem path nm = None
    | e # es \<Rightarrow> \<exists>path' nm'. skipelem path nm = Some (path', nm') \<and> cname nm' = e \<and> length nm' = DIRSIZ \<and>
        elems path' = es \<and> (path' = [] \<longleftrightarrow> es = []) \<and> 0 \<notin> set path'"
proof -
  let ?p = "dropWhile (\<lambda>c. c = SLASH) path"
  show ?thesis
  proof (cases "?p = []")
    case True
    have "elems path = []" using elems_slashes [of path] unfolding True by (simp add: elems_def)
    then show ?thesis using True by (simp add: skipelem_def Let_def)
  next
    case False
    let ?e = "takeWhile (\<lambda>c. c \<noteq> SLASH) ?p" and ?r = "dropWhile (\<lambda>c. c \<noteq> SLASH) ?p"
    let ?q = "dropWhile (\<lambda>c. c = SLASH) ?r"
    let ?nm = "if length ?e \<ge> DIRSIZ then splice 0 (take DIRSIZ ?e) nm else splice 0 (?e @ [0]) nm"
    have "hd ?p \<noteq> SLASH" using False hd_dropWhile by blast
    then have e: "?e \<noteq> []" "SLASH \<notin> set ?e" using False by (cases ?p; simp) (auto dest: set_takeWhileD)
    have r: "?r = [] \<or> hd ?r = SLASH" using hd_dropWhile [of "\<lambda>c. c \<noteq> SLASH" ?p] by blast
    have "elems path = take DIRSIZ ?e # elems ?r"
      using elems_word [OF e(2,1) r] elems_slashes [of path] by (simp only: takeWhile_dropWhile_id)
    then have el: "elems path = take DIRSIZ ?e # elems ?q" by (simp only: elems_slashes)
    have z: "0 \<notin> set ?e" using assms(1) by (meson set_takeWhileD set_dropWhileD)
    then have "0 \<notin> set (take DIRSIZ ?e)" by (meson in_set_takeD)
    then have "cname ?nm = take DIRSIZ ?e" using z cname_short [of ?e nm] cname_full [of "take DIRSIZ ?e" nm] by auto
    moreover have "length ?nm = DIRSIZ" using assms(2) by (simp add: splice_def)
    moreover have "0 \<notin> set ?q" using assms(1) by (meson set_dropWhileD)
    moreover have "skipelem path nm = Some (?q, ?nm)" using False by (simp add: skipelem_def Let_def)
    ultimately show ?thesis using el elems_empty [of ?r] by auto
  qed
qed

section \<open>Looking up a name\<close>

lemma loaded_file:
  assumes "icache_ok D L ic" "entry_of n i ic" "dinode_of (ic ! i) = disk_inode D n"
  shows "file_inv D (ic ! i) = file_inv D (inode_at D n)" "contents D (ic ! i) = contents D (inode_at D n)"
    "dir_bytes D (ic ! i) = dir_bytes D (inode_at D n)" "itype (ic ! i) = itype (inode_at D n)" "isize (ic ! i) = isize (inode_at D n)"
proof -
  have e: "idev (ic ! i) = ROOTDEV" "inum (ic ! i) = n" using assms(2) icache_ok_entry [OF assms(1), of i] by (auto simp: entry_of_def entry_ok_def)
  have f: "addrs (ic ! i) = addrs (inode_at D n)" "isize (ic ! i) = isize (inode_at D n)" "itype (ic ! i) = itype (inode_at D n)"
    using assms(3) by (auto simp: dinode_of_def dest: arg_cong [where f = dtype] arg_cong [where f = dsize] arg_cong [where f = daddrs])
  note sf = same_file [OF f(1,2), of D]
  then show "file_inv D (ic ! i) = file_inv D (inode_at D n)" "contents D (ic ! i) = contents D (inode_at D n)" using e by simp_all
  have "block_addr D (ic ! i) = block_addr D (inode_at D n)" using f(1) by (intro block_addr_cong) auto
  then show "dir_bytes D (ic ! i) = dir_bytes D (inode_at D n)" using f(2) by (simp add: dir_bytes_def file_byte_def)
  show "itype (ic ! i) = itype (inode_at D n)" "isize (ic ! i) = isize (inode_at D n)" by (rule f)+
qed

lemma dirlookup_law:
  assumes q: "quiet s" and D: "D = disk s" and ok: "icache_ok D L (icache s)" "\<forall>i\<in>L. i < length (icache s) \<and> 0 < iref (icache s ! i)"
    and e: "entry_of n i (icache s)" "dinode_of (icache s ! i) = disk_inode D n" and f: "file_inv D (inode_at D n)" "itype (inode_at D n) = T_DIR"
    and room: "card (cached (refs (icache s))) < length (icache s)"
  shows "case child D n nm of
      None \<Rightarrow> \<exists>s'. dirlookup i nm s = Inr (None, s') \<and> cache_at s L (refs (icache s)) s' \<and> icache s' = icache s
    | Some m \<Rightarrow> \<exists>j off s'. dirlookup i nm s = Inr (Some (j, off), s') \<and>
        cache_at s L ((refs (icache s))(m := refs (icache s) m + 1)) s' \<and> entry_of m j (icache s') \<and> kept (icache s) (icache s')"
proof -
  let ?c = "dir_bytes D (inode_at D n)" and ?ic = "icache s"
  note lf = loaded_file [OF ok(1) e]
  have fi: "file_inv D (?ic ! i)" using f(1) lf(1) by simp
  obtain s1 where s1: "effect D s s1" and l: "dirlookup_loop i nm 0 s = (case find (binds ?c nm) [0..<32 * nb (unat (isize (?ic ! i)))] of
      None \<Rightarrow> Inr (None, s1)
    | Some k \<Rightarrow> bindR (iget ROOTDEV (ucast (de_inum ?c (16 * k))) s1) (\<lambda>(j, s''). Inr (Some (j, of_nat (16 * k)), s'')))"
    using dirlookup_loop_run [OF q D refl fi, of 0 nm] unfolding lf(3) by auto
  have d: "dir_find ?c nm = find (binds ?c nm) [0..<32 * nb (unat (isize (?ic ! i)))]" using lf(5) by (simp add: dir_find_def)
  have c: "cache_at s L (refs ?ic) s1" "icache s1 = ?ic"
    using frame_effect [OF s1] effect_icache [OF s1] s1 q ok(1) D by (auto simp: cache_at_def effect_def quiet_def)
  have run: "dirlookup i nm s = dirlookup_loop i nm 0 s" using lf(4) f(2) by (simp add: dirlookup_def)
  show ?thesis
  proof (cases "dir_find ?c nm")
    case None
    then show ?thesis using c l d f(2) run by (auto simp: child_def Let_def)
  next
    case (Some k)
    let ?m = "ucast (de_inum ?c (16 * k)) :: u32"
    have s1': "quiet s1" "icache_ok (disk s1) L (icache s1)" using c ok(1) D by (simp_all add: cache_at_def)
    obtain j s2 where g: "iget ROOTDEV ?m s1 = Inr (j, s2)" "cache_at s1 L ((refs ?ic)(?m := refs ?ic ?m + 1)) s2" "entry_of ?m j (icache s2)" "kept ?ic (icache s2)"
      using iget_law [OF s1', of ?m] ok(2) room c(2) by auto
    then have "dirlookup i nm s = Inr (Some (j, of_nat (16 * k)), s2)" using run l [folded d] Some by simp
    moreover have "child D n nm = Some ?m" using Some f(2) by (simp add: child_def Let_def)
    ultimately show ?thesis using g cache_at_trans [OF c(1) g(2)] by auto
  qed
qed

section \<open>Following a path\<close>

text \<open>
  The inodes of \<open>R\<close> are in use and have links, and the directories among them bind only inodes of \<open>R\<close>.
\<close>

definition tree :: "(u32 \<Rightarrow> u8 list) \<Rightarrow> u32 set \<Rightarrow> bool" where
  "tree D R \<longleftrightarrow> (\<forall>n\<in>R. file_inv D (inode_at D n) \<and> dtype (disk_inode D n) \<noteq> 0 \<and> dnlink (disk_inode D n) \<noteq> 0 \<and>
     (\<forall>e m. child D n e = Some m \<longrightarrow> m \<in> R))"

lemma treeD:
  assumes "tree D R" "n \<in> R"
  shows "file_inv D (inode_at D n)" "dtype (disk_inode D n) \<noteq> 0" "dnlink (disk_inode D n) \<noteq> 0" "child D n e = Some m \<Longrightarrow> m \<in> R"
  using assms unfolding tree_def by blast+

lemma cached_one: "cached (r(n := x)) \<subseteq> insert n (cached r)"
  by (auto simp: cached_def)

lemma child_cname: "cname nm = cname e \<Longrightarrow> child D n nm = child D n e"
  by (simp add: child_def dir_find_def binds_def [abs_def] Let_def)

text \<open>
  One step of \<^verbatim>\<open>namex\<close>: the directory \<open>n\<close> is locked, searched, and given back; the reference moves to the inode
  it binds. \<open>r\<close> are the references without the one \<^verbatim>\<open>namex\<close> holds.
\<close>

definition at_inode :: "u32 set \<Rightarrow> (u32 \<Rightarrow> int) \<Rightarrow> u32 \<Rightarrow> nat \<Rightarrow> 'a kfs_scheme \<Rightarrow> bool" where
  "at_inode R r n i s \<longleftrightarrow> quiet s \<and> tree (disk s) R \<and> n \<in> R \<and> icache_ok (disk s) {} (icache s) \<and> entry_of n i (icache s) \<and>
     refs (icache s) = r(n := r n + 1) \<and> (\<forall>m. 0 \<le> r m) \<and> finite (cached r) \<and> card (cached r) + 2 \<le> length (icache s)"

lemma at_inode_lock:
  assumes "at_inode R r n i s"
  shows "\<exists>s'. ilock (Some i) s = Inr s' \<and> cache_at s {i} (r(n := r n + 1)) s' \<and> entry_of n i (icache s') \<and>
    dinode_of (icache s' ! i) = disk_inode (disk s) n \<and> itype (icache s' ! i) = itype (inode_at (disk s) n)"
proof -
  note a = assms [unfolded at_inode_def]
  have "dtype (disk_inode (disk s) n) \<noteq> 0" using a treeD(2) by blast
  then obtain s' where s': "ilock (Some i) s = Inr s'" "cache_at s {i} (refs (icache s)) s'" "entry_of n i (icache s')" "dinode_of (icache s' ! i) = disk_inode (disk s) n"
    using ilock_law [of s "{}" n i] a by auto
  then have "itype (icache s' ! i) = itype (inode_at (disk s) n)" using loaded_file(4) [of "disk s" "{i}" "icache s'" n i] by (simp add: cache_at_def)
  then show ?thesis using s' a by auto
qed

lemma give_back:
  assumes a: "at_inode R r n i s" and s1: "cache_at s {i} r1 s1" "entry_of n i (icache s1)"
  shows "\<exists>s'. iunlockput i s1 = Inr s' \<and> cache_at s {} (r1(n := r1 n - 1)) s' \<and> (\<forall>k. k \<noteq> i \<longrightarrow> icache s' ! k = icache s1 ! k)"
proof -
  have "dnlink (disk_inode (disk s1) n) \<noteq> 0" using a s1(1) treeD(3) [of "disk s" R n] by (simp add: at_inode_def cache_at_def)
  then obtain s' where "iunlockput i s1 = Inr s'" "cache_at s1 ({i} - {i}) ((refs (icache s1))(n := refs (icache s1) n - 1)) s'"
    "\<forall>k. k \<noteq> i \<longrightarrow> icache s' ! k = icache s1 ! k"
    using iunlockput_law [of s1 "{i}" n i] s1 by (auto simp: cache_at_def)
  moreover have "refs (icache s1) = r1" using s1(1) by (simp add: cache_at_def)
  ultimately show ?thesis using cache_at_trans [OF s1(1)] by auto
qed

lemma entry_stays:
  assumes "cache_at s {i} r s2" "cache_at s {} r' s3" "\<forall>k. k \<noteq> i \<longrightarrow> icache s3 ! k = icache s2 ! k" "entry_of n i (icache s2)" "entry_of m j (icache s2)" "0 < r' m"
  shows "entry_of m j (icache s3)"
proof (cases "j = i")
  case False
  then show ?thesis using assms by (simp add: entry_of_def cache_at_def)
next
  case True
  obtain k where k: "k < length (icache s3)" "0 < iref (icache s3 ! k)" "inum (icache s3 ! k) = m"
    using refs_cached [of "disk s" "{}" "icache s3" m] assms(2,6) by (auto simp: cache_at_def)
  have "k = i"
  proof (rule ccontr)
    assume "k \<noteq> i"
    then show False using icache_ok_unique [of "disk s" "{i}" "icache s2" k j] assms(1,2,3,5) k True by (auto simp: cache_at_def entry_of_def)
  qed
  then show ?thesis using k True by (simp add: entry_of_def)
qed

lemma namex_step:
  assumes a: "at_inode R r n i s" and t: "itype (inode_at (disk s) n) = T_DIR" and l: "cache_at s {i} (r(n := r n + 1)) s1" "entry_of n i (icache s1)"
    "dinode_of (icache s1 ! i) = disk_inode (disk s) n"
  shows "case child (disk s) n nm of
      None \<Rightarrow> \<exists>s2 s3. dirlookup i nm s1 = Inr (None, s2) \<and> iunlockput i s2 = Inr s3 \<and> cache_at s {} r s3
    | Some m \<Rightarrow> \<exists>j off s2 s3. dirlookup i nm s1 = Inr (Some (j, off), s2) \<and> iunlockput i s2 = Inr s3 \<and>
        cache_at s {} (r(m := r m + 1)) s3 \<and> at_inode R r m j s3"
proof -
  let ?D = "disk s"
  note A = a [unfolded at_inode_def]
  have s1: "quiet s1" "disk s1 = ?D" "icache_ok ?D {i} (icache s1)" "refs (icache s1) = r(n := r n + 1)" "length (icache s1) = length (icache s)"
    using l(1) by (auto simp: cache_at_def)
  have "card (cached (r(n := r n + 1))) \<le> card (insert n (cached r))" using A cached_one by (intro card_mono) auto
  also have "\<dots> \<le> card (cached r) + 1" using A by (simp add: card_insert_if)
  finally have room: "card (cached (refs (icache s1))) < length (icache s1)" using A s1(4,5) by simp
  have L: "\<forall>k\<in>{i}. k < length (icache s1) \<and> 0 < iref (icache s1 ! k)" using l(2) by (simp add: entry_of_def)
  note dl = dirlookup_law [OF s1(1) s1(2) [symmetric] s1(3) L l(2,3) treeD(1) [of ?D R n] t room, of nm]
  have undo: "(r(n := r n + 1))(n := (r(n := r n + 1)) n - 1) = r" by simp
  show ?thesis
  proof (cases "child ?D n nm")
    case None
    then obtain s2 where s2: "dirlookup i nm s1 = Inr (None, s2)" "cache_at s1 {i} (refs (icache s1)) s2" "icache s2 = icache s1" using dl A by auto
    then have "cache_at s {i} (r(n := r n + 1)) s2" "entry_of n i (icache s2)" using cache_at_trans [OF l(1)] s1(4) l(2) by auto
    from give_back [OF a this] show ?thesis using None s2 unfolding undo by auto
  next
    case (Some m)
    then obtain j off s2 where s2: "dirlookup i nm s1 = Inr (Some (j, off), s2)" "cache_at s1 {i} ((refs (icache s1))(m := refs (icache s1) m + 1)) s2"
      "entry_of m j (icache s2)" "kept (icache s1) (icache s2)" using dl A by auto
    let ?r = "(r(n := r n + 1))(m := (r(n := r n + 1)) m + 1)"
    have c2: "cache_at s {i} ?r s2" using cache_at_trans [OF l(1) s2(2)] s1(4) by simp
    have e2: "entry_of n i (icache s2)" using s2(4) l(2) c2 s1(5) by (auto simp: kept_def entry_of_def cache_at_def) (metis inode.select_convs(2) inode.surjective inode.update_convs(3))
    have rr: "?r(n := ?r n - 1) = r(m := r m + 1)" by (auto simp: fun_eq_iff)
    obtain s3 where s3: "iunlockput i s2 = Inr s3" "cache_at s {} (r(m := r m + 1)) s3" "\<forall>k. k \<noteq> i \<longrightarrow> icache s3 ! k = icache s2 ! k"
      using give_back [OF a c2 e2] unfolding rr by blast
    have "entry_of m j (icache s3)" using entry_stays [OF c2 s3(2,3) e2 s2(3)] A by simp
    moreover have "m \<in> R" using Some A treeD(4) by blast
    ultimately have "at_inode R r m j s3" using s3(2) A by (simp add: at_inode_def cache_at_def)
    then show ?thesis using Some s2(1) s3 by auto
  qed
qed

text \<open>\<^verbatim>\<open>namex\<close> follows the elements; every reference it took on the way is given back.\<close>

lemma namex_loop_law:
  assumes "at_inode R r n i s" "0 \<notin> set path" "length nm = DIRSIZ"
  shows "case resolve (disk s) (elems path) n of
      None \<Rightarrow> \<exists>nm' s'. namex_loop path False nm i s = Inr (None, nm', s') \<and> cache_at s {} r s'
    | Some m \<Rightarrow> \<exists>j nm' s'. namex_loop path False nm i s = Inr (Some j, nm', s') \<and> cache_at s {} (r(m := r m + 1)) s' \<and> at_inode R r m j s'"
  using assms
proof (induction "elems path" arbitrary: path nm n i s)
  case Nil
  then have "skipelem path nm = None" using skipelem_elems [of path nm] by (simp split: list.splits)
  then have "namex_loop path False nm i s = Inr (Some i, nm, s)" by (subst namex_loop.simps) simp
  moreover have "cache_at s {} (r(n := r n + 1)) s" using Nil.prems(1) frame_icache [of s "icache s"] by (simp add: at_inode_def cache_at_def)
  ultimately show ?case using Nil by simp
next
  case (Cons e es)
  let ?D = "disk s"
  have "elems path = e # es" using Cons.hyps(2) by simp
  then obtain path' nm' where sk: "skipelem path nm = Some (path', nm')" "cname nm' = e" "length nm' = DIRSIZ" "elems path' = es" "0 \<notin> set path'"
    using skipelem_elems [OF Cons.prems(2,3)] by auto
  obtain s1 where l: "ilock (Some i) s = Inr s1" "cache_at s {i} (r(n := r n + 1)) s1" "entry_of n i (icache s1)"
    "dinode_of (icache s1 ! i) = disk_inode ?D n" "itype (icache s1 ! i) = itype (inode_at ?D n)" using at_inode_lock [OF Cons.prems(1)] by blast
  have loop: "namex_loop path False nm i s = (if itype (inode_at ?D n) \<noteq> T_DIR then bindR (iunlockput i s1) (\<lambda>s. Inr (None, nm', s))
      else bindR (dirlookup i nm' s1) (\<lambda>(hit, s). case hit of
        None \<Rightarrow> bindR (iunlockput i s) (\<lambda>s. Inr (None, nm', s))
      | Some (nxt, _) \<Rightarrow> bindR (iunlockput i s) (\<lambda>s. namex_loop path' False nm' nxt s)))"
    using sk(1) l(1,5) by (subst namex_loop.simps) simp
  have ce: "child ?D n nm' = child ?D n e"
    by (rule child_cname) (metis sk(2) cname_idem)
  show ?case
  proof (cases "itype (inode_at ?D n) = T_DIR")
    case False
    then have "child ?D n e = None" by (simp add: child_def)
    moreover obtain s' where "iunlockput i s1 = Inr s'" "cache_at s {} r s'" using give_back [OF Cons.prems(1) l(2,3)] by auto
    ultimately show ?thesis using loop False Cons.hyps(2) [symmetric] by simp
  next
    case True
    note st = namex_step [OF Cons.prems(1) True l(2-4), of nm', unfolded ce]
    show ?thesis
    proof (cases "child ?D n e")
      case None
      then show ?thesis using st loop True Cons.hyps(2) [symmetric] by auto
    next
      case (Some m)
      then obtain j off s2 s3 where s3: "dirlookup i nm' s1 = Inr (Some (j, off), s2)" "iunlockput i s2 = Inr s3" "cache_at s {} (r(m := r m + 1)) s3" "at_inode R r m j s3"
        using st by auto
      have d: "disk s3 = ?D" using s3(3) by (simp add: cache_at_def)
      have "namex_loop path False nm i s = namex_loop path' False nm' j s3" using loop True s3(1,2) by simp
      then show ?thesis using Cons.hyps(1) [OF sk(4) [symmetric] s3(4) sk(5,3)] Some Cons.hyps(2) [symmetric] cache_at_trans [OF s3(3)] sk(4)
        by (auto simp: d split: option.splits)
    qed
  qed
qed

text \<open>The directory that is to hold the last element, as \<^verbatim>\<open>create\<close>, \<^verbatim>\<open>link\<close> and \<^verbatim>\<open>unlink\<close> ask for it.\<close>

definition resolve_parent :: "(u32 \<Rightarrow> u8 list) \<Rightarrow> u8 list list \<Rightarrow> u32 \<Rightarrow> u32 option" where
  "resolve_parent D es n =
     (if es = [] then None
      else case resolve D (butlast es) n of
        None \<Rightarrow> None
      | Some m \<Rightarrow> if itype (inode_at D m) = T_DIR then Some m else None)"

lemma resolve_parent_Cons:
  "resolve_parent D (e # es) n =
     (if itype (inode_at D n) \<noteq> T_DIR then None else if es = [] then Some n
      else case child D n e of None \<Rightarrow> None | Some m \<Rightarrow> resolve_parent D es m)"
  by (auto simp: resolve_parent_def child_def Let_def split: option.split)

lemma namex_parent_law:
  assumes "at_inode R r n i s" "0 \<notin> set path" "length nm = DIRSIZ"
  shows "case resolve_parent (disk s) (elems path) n of
      None \<Rightarrow> \<exists>nm' s'. namex_loop path True nm i s = Inr (None, nm', s') \<and> cache_at s {} r s'
    | Some m \<Rightarrow> \<exists>j nm' s'. namex_loop path True nm i s = Inr (Some j, nm', s') \<and> cname nm' = last (elems path) \<and> length nm' = DIRSIZ \<and>
        cache_at s {} (r(m := r m + 1)) s' \<and> at_inode R r m j s'"
  using assms
proof (induction "elems path" arbitrary: path nm n i s)
  case Nil
  note A = Nil.prems(1) [unfolded at_inode_def]
  have "skipelem path nm = None" using Nil skipelem_elems [of path nm] by (simp split: list.splits)
  then have run: "namex_loop path True nm i s = bindR (iput i s) (\<lambda>s. Inr (None, nm, s))" by (subst namex_loop.simps) simp
  obtain s' where "iput i s = Inr s'" "cache_at s {} ((r(n := r n + 1))(n := (r(n := r n + 1)) n - 1)) s'"
    using iput_law [of s "{}" n i] A treeD(3) by fastforce
  then show ?case using run Nil.hyps by (simp add: resolve_parent_def)
next
  case (Cons e es)
  let ?D = "disk s"
  have "elems path = e # es" using Cons.hyps(2) by simp
  then obtain path' nm' where sk: "skipelem path nm = Some (path', nm')" "cname nm' = e" "length nm' = DIRSIZ" "elems path' = es" "0 \<notin> set path'" "path' = [] \<longleftrightarrow> es = []"
    using skipelem_elems [OF Cons.prems(2,3)] by auto
  obtain s1 where l: "ilock (Some i) s = Inr s1" "cache_at s {i} (r(n := r n + 1)) s1" "entry_of n i (icache s1)"
    "dinode_of (icache s1 ! i) = disk_inode ?D n" "itype (icache s1 ! i) = itype (inode_at ?D n)" using at_inode_lock [OF Cons.prems(1)] by blast
  have loop: "namex_loop path True nm i s = (if itype (inode_at ?D n) \<noteq> T_DIR then bindR (iunlockput i s1) (\<lambda>s. Inr (None, nm', s))
      else if es = [] then bindR (iunlock (Some i) s1) (\<lambda>s. Inr (Some i, nm', s))
      else bindR (dirlookup i nm' s1) (\<lambda>(hit, s). case hit of
        None \<Rightarrow> bindR (iunlockput i s) (\<lambda>s. Inr (None, nm', s))
      | Some (nxt, _) \<Rightarrow> bindR (iunlockput i s) (\<lambda>s. namex_loop path' True nm' nxt s)))"
    using sk(1,6) l(1,5) by (subst namex_loop.simps) simp
  have ce: "child ?D n nm' = child ?D n e" by (rule child_cname) (metis sk(2) cname_idem)
  consider "itype (inode_at ?D n) \<noteq> T_DIR" | "itype (inode_at ?D n) = T_DIR" "es = []"
    | "itype (inode_at ?D n) = T_DIR" "es \<noteq> []" "child ?D n e = None" | m where "itype (inode_at ?D n) = T_DIR" "es \<noteq> []" "child ?D n e = Some m" by blast
  then show ?case
  proof cases
    case 1
    obtain s' where "iunlockput i s1 = Inr s'" "cache_at s {} r s'" using give_back [OF Cons.prems(1) l(2,3)] by auto
    then show ?thesis using loop 1 Cons.hyps(2) [symmetric] by (simp add: resolve_parent_Cons)
  next
    case 2
    have "quiet s1" "icache_ok (disk s1) {i} (icache s1)" using l(2) by (auto simp: cache_at_def)
    from iunlock_law [OF this l(3)] obtain s' where u: "iunlock (Some i) s1 = Inr s'" "cache_at s1 ({i} - {i}) (refs (icache s1)) s'" "entry_of n i (icache s')" by auto
    have "refs (icache s1) = r(n := r n + 1)" using l(2) by (simp add: cache_at_def)
    then have c: "cache_at s {} (r(n := r n + 1)) s'" using cache_at_trans [OF l(2) u(2)] by simp
    then have "at_inode R r n i s'" using u(3) Cons.prems(1) by (simp add: at_inode_def cache_at_def)
    then show ?thesis using loop 2 Cons.hyps(2) [symmetric] u(1) c sk(2,3) by (simp add: resolve_parent_Cons)
  next
    case 3
    then show ?thesis using namex_step [OF Cons.prems(1) 3(1) l(2-4), of nm', unfolded ce] loop Cons.hyps(2) [symmetric] by (auto simp: resolve_parent_Cons)
  next
    case 4
    obtain j off s2 s3 where s3: "dirlookup i nm' s1 = Inr (Some (j, off), s2)" "iunlockput i s2 = Inr s3" "cache_at s {} (r(m := r m + 1)) s3" "at_inode R r m j s3"
      using namex_step [OF Cons.prems(1) 4(1) l(2-4), of nm', unfolded ce] 4(3) by auto
    have d: "disk s3 = ?D" using s3(3) by (simp add: cache_at_def)
    have "namex_loop path True nm i s = namex_loop path' True nm' j s3" using loop 4 s3(1,2) by simp
    then show ?thesis using Cons.hyps(1) [OF sk(4) [symmetric] s3(4) sk(5,3)] 4 Cons.hyps(2) [symmetric] cache_at_trans [OF s3(3)] sk(4)
      by (auto simp: d resolve_parent_Cons split: option.splits)
  qed
qed

text \<open>Where the walk starts: the root for an absolute path, the working directory of the process for another.\<close>

definition starts_at :: "'a kfs_scheme \<Rightarrow> u8 list \<Rightarrow> u32 \<Rightarrow> bool" where
  "starts_at s path n \<longleftrightarrow>
     (if path \<noteq> [] \<and> hd path = SLASH then n = ROOTINO
      else case curproc s of None \<Rightarrow> False | Some p \<Rightarrow> case cwd (ptable s ! p) of None \<Rightarrow> False | Some i \<Rightarrow> entry_of n i (icache s))"

text \<open>The file system is at rest: no inode locked, no buffer in use, and two entries of the inode cache are free.\<close>

definition fs_ready :: "u32 set \<Rightarrow> 'a kfs_scheme \<Rightarrow> bool" where
  "fs_ready R s \<longleftrightarrow> quiet s \<and> tree (disk s) R \<and> icache_ok (disk s) {} (icache s) \<and> card (cached (refs (icache s))) + 2 \<le> length (icache s)"

lemma finite_cached: "icache_ok D L ic \<Longrightarrow> finite (cached (refs ic))"
proof -
  assume "icache_ok D L ic"
  then have "cached (refs ic) \<subseteq> (\<lambda>i. inum (ic ! i)) ` {..<length ic}" using refs_cached by (auto simp: cached_def)
  then show ?thesis by (rule finite_subset) simp
qed

lemma namex_start:
  assumes f: "fs_ready R s" and st: "starts_at s path n" "n \<in> R"
  shows "\<exists>i s1. namex path np nm s = namex_loop path np nm i s1 \<and> cache_at s {} ((refs (icache s))(n := refs (icache s) n + 1)) s1 \<and> at_inode R (refs (icache s)) n i s1"
proof -
  note F = f [unfolded fs_ready_def]
  have q: "quiet s" "icache_ok (disk s) {} (icache s)" using F by auto
  have "\<exists>i s1. (if path \<noteq> [] \<and> hd path = SLASH then iget ROOTDEV ROOTINO s
       else case curproc s of None \<Rightarrow> Inl Fault | Some p \<Rightarrow> (case cwd (ptable s ! p) of None \<Rightarrow> Inl Fault | Some i \<Rightarrow> idup i s)) = Inr (i, s1) \<and>
     cache_at s {} ((refs (icache s))(n := refs (icache s) n + 1)) s1 \<and> entry_of n i (icache s1)"
  proof (cases "path \<noteq> [] \<and> hd path = SLASH")
    case True
    then show ?thesis using iget_law [OF q, of n] F st(1) by (auto simp: starts_at_def)
  next
    case False
    then obtain p i where p: "curproc s = Some p" "cwd (ptable s ! p) = Some i" "entry_of n i (icache s)"
      using st(1) unfolding starts_at_def by (auto split: option.splits)
    then show ?thesis using False idup_law [OF q, of n i] by auto
  qed
  then obtain i s1 where s1: "(if path \<noteq> [] \<and> hd path = SLASH then iget ROOTDEV ROOTINO s
       else case curproc s of None \<Rightarrow> Inl Fault | Some p \<Rightarrow> (case cwd (ptable s ! p) of None \<Rightarrow> Inl Fault | Some i \<Rightarrow> idup i s)) = Inr (i, s1)"
     "cache_at s {} ((refs (icache s))(n := refs (icache s) n + 1)) s1" "entry_of n i (icache s1)" by blast
  have "at_inode R (refs (icache s)) n i s1"
    using s1(2,3) F st(2) refs_nonneg [OF q(2)] finite_cached [OF q(2)] by (simp add: at_inode_def cache_at_def)
  then show ?thesis using s1 by (auto simp: namex_def)
qed

section \<open>Properties\<close>

lemma namei_law:
  assumes "fs_ready R s" "starts_at s path n" "n \<in> R" "0 \<notin> set path"
  shows "case resolve (disk s) (elems path) n of
      None \<Rightarrow> \<exists>s'. namei path s = Inr (None, s') \<and> cache_at s {} (refs (icache s)) s'
    | Some m \<Rightarrow> \<exists>j s'. namei path s = Inr (Some j, s') \<and> m \<in> R \<and>
        cache_at s {} ((refs (icache s))(m := refs (icache s) m + 1)) s' \<and> entry_of m j (icache s')"
proof -
  obtain i s1 where s1: "namex path False (replicate DIRSIZ 0) s = namex_loop path False (replicate DIRSIZ 0) i s1"
    "cache_at s {} ((refs (icache s))(n := refs (icache s) n + 1)) s1" "at_inode R (refs (icache s)) n i s1" using namex_start [OF assms(1-3)] by blast
  have "disk s1 = disk s" using s1(2) by (simp add: cache_at_def)
  then show ?thesis using namex_loop_law [OF s1(3) assms(4), of "replicate DIRSIZ 0"] s1(1) cache_at_trans [OF s1(2)]
    by (fastforce simp: namei_def at_inode_def split: option.splits)
qed

text \<open>
  C20. Path lookup is the walk through the directory tree: \<^verbatim>\<open>namei\<close> of a path, absolute or relative to the
  working directory, returns the inode that the names of the path lead to, with one reference more to it, and
  fails exactly when a name is not bound or an inode on the way is not a directory. In both cases no inode stays
  locked, every other reference taken on the way has been given back, and the disk is unchanged.
\<close>

theorem namei_resolves:
  assumes "fs_ready R s" "starts_at s path n" "n \<in> R" "0 \<notin> set path"
  shows "case resolve (disk s) (elems path) n of
      None \<Rightarrow> \<exists>s'. namei path s = Inr (None, s') \<and> cache_at s {} (refs (icache s)) s'
    | Some m \<Rightarrow> \<exists>j s'. namei path s = Inr (Some j, s') \<and>
        cache_at s {} ((refs (icache s))(m := refs (icache s) m + 1)) s' \<and> entry_of m j (icache s')"
  using namei_law [OF assms] by (auto split: option.splits)

text \<open>
  \<^verbatim>\<open>nameiparent\<close> stops one name early: it returns the directory the last name of the path belongs to, leaves
  this name (cut to \<open>DIRSIZ\<close> bytes) in the buffer of its caller, and fails when the path has no name at all or does
  not lead through directories; no reference but the returned one is kept.
\<close>

theorem nameiparent_resolves:
  assumes "fs_ready R s" "starts_at s path n" "n \<in> R" "0 \<notin> set path" "length nm = DIRSIZ"
  shows "case resolve_parent (disk s) (elems path) n of
      None \<Rightarrow> \<exists>nm' s'. nameiparent path nm s = Inr (None, nm', s') \<and> cache_at s {} (refs (icache s)) s'
    | Some m \<Rightarrow> \<exists>j nm' s'. nameiparent path nm s = Inr (Some j, nm', s') \<and> cname nm' = last (elems path) \<and>
        cache_at s {} ((refs (icache s))(m := refs (icache s) m + 1)) s' \<and> entry_of m j (icache s')"
proof -
  obtain i s1 where s1: "namex path True nm s = namex_loop path True nm i s1"
    "cache_at s {} ((refs (icache s))(n := refs (icache s) n + 1)) s1" "at_inode R (refs (icache s)) n i s1" using namex_start [OF assms(1-3)] by blast
  have "disk s1 = disk s" using s1(2) by (simp add: cache_at_def)
  then show ?thesis using namex_parent_law [OF s1(3) assms(4,5)] s1(1) cache_at_trans [OF s1(2)]
    by (fastforce simp: nameiparent_def at_inode_def split: option.splits)
qed

end
