(* ===== verification/Exec_Load.thy ===== *)
theory Exec_Load
  imports Exec Vm_Grow Fs_Path Proc_Fork
begin

text \<open>
  What loading a program does to its address space: \<^verbatim>\<open>loaduvm\<close> puts the bytes of the file at the addresses of a
  segment, and the loop of \<^verbatim>\<open>exec\<close> over the program headers builds the memory image that the headers describe
  (\<^verbatim>\<open>src/exec.c\<close>, \<^verbatim>\<open>src/vm.c\<close>).
\<close>

section \<open>Storing bytes into a page\<close>

lemma store_bytes_apply: "length xs \<le> 2 ^ 32 \<Longrightarrow> store_bytes a xs m x = (if unat (x - a) < length xs then xs ! unat (x - a) else m x)"
proof (induction xs arbitrary: a m)
  case (Cons y ys)
  show ?case
  proof (cases "x = a")
    case True
    have "a - (a + 1) = of_nat (2 ^ 32 - 1)" by simp
    then have "unat (a - (a + 1)) = 2 ^ 32 - 1" by (simp only:) (rule unat_of_nat32, simp)
    then show ?thesis using Cons True by simp
  next
    case False
    then have "unat (x - a) = Suc (unat (x - (a + 1)))"
      using unat_minus_one [of "x - a"] unat_gt_0 [of "x - a"] by (simp add: algebra_simps)
    then show ?thesis using Cons False by simp
  qed
qed simp

lemma store_bytes_page:
  assumes "page_addr f" "k + length xs \<le> 4096"
  shows "only_in {f} m (store_bytes (f + of_nat k) xs m)"
    "j < 4096 \<Longrightarrow> store_bytes (f + of_nat k) xs m (f + of_nat j) = (if k \<le> j \<and> j < k + length xs then xs ! (j - k) else m (f + of_nat j))"
proof -
  have l: "length xs \<le> 2 ^ 32" using assms(2) by simp
  show "only_in {f} m (store_bytes (f + of_nat k) xs m)"
    unfolding only_in_def
  proof (intro allI impI)
    fix x assume "\<forall>q\<in>{f}. \<not> in_page q x"
    then have x: "4096 \<le> unat (x - f)" by (simp add: in_page_def)
    have "unat ((x - f) - of_nat k) = unat (x - f) - k" using x assms(2) by (subst unat_sub) (auto simp: word_le_nat_alt unat_of_nat32)
    then have "\<not> unat (x - (f + of_nat k)) < length xs" using x assms(2) by (simp add: algebra_simps)
    then show "store_bytes (f + of_nat k) xs m x = m x" by (simp add: store_bytes_apply [OF l])
  qed
  assume j: "j < 4096"
  show "store_bytes (f + of_nat k) xs m (f + of_nat j) = (if k \<le> j \<and> j < k + length xs then xs ! (j - k) else m (f + of_nat j))"
  proof (cases "k \<le> j")
    case True
    then have "f + of_nat j - (f + of_nat k) = (of_nat (j - k) :: u32)" by (simp add: of_nat_diff)
    then have "unat (f + of_nat j - (f + of_nat k)) = j - k" using j by (simp add: unat_of_nat32)
    then show ?thesis using True by (auto simp: store_bytes_apply [OF l])
  next
    case False
    have "f + of_nat j - (f + of_nat k) = (of_nat (2 ^ 32 - (k - j)) :: u32)" using False assms(2) by (simp add: of_nat_diff)
    then have "unat (f + of_nat j - (f + of_nat k)) = 2 ^ 32 - (k - j)" using False by (simp add: unat_of_nat32)
    moreover have "length xs \<le> 2 ^ 32 - (k - j)" using False assms(2) by simp
    ultimately have "\<not> unat (f + of_nat j - (f + of_nat k)) < length xs" by (simp only: not_less)
    then show ?thesis using False by (simp add: store_bytes_apply [OF l])
  qed
qed

section \<open>Loading a segment\<close>

text \<open>The bytes \<open>xs\<close> lie from address \<open>a\<close> on in the address space; only its pages and the buffer cache changed.\<close>

definition loaded :: "u32 \<Rightarrow> nat \<Rightarrow> u8 list \<Rightarrow> 'a kbio_scheme \<Rightarrow> 'a kbio_scheme \<Rightarrow> bool" where
  "loaded pd a xs s s' \<longleftrightarrow> quiet s' \<and> disk s' = disk s \<and> rest (s'\<lparr>mem := mem s\<rparr>) = rest s \<and> loc (mem s') pd = loc (mem s) pd \<and>
     only_in (used (mem s) pd) (mem s) (mem s') \<and>
     (\<forall>va. user_byte (mem s') pd va = (if a \<le> unat va \<and> unat va < a + length xs then Some (xs ! (unat va - a)) else user_byte (mem s) pd va))"

lemma loaded_refl: "quiet s \<Longrightarrow> loaded pd a [] s s"
  by (auto simp: loaded_def only_in_def)

lemma loaded_empty: "loaded pd a [] s s' \<Longrightarrow> loaded pd b [] s s'"
  unfolding loaded_def by (metis add_0_right leD list.size(3))

lemma rest_mem: "rest (s\<lparr>mem := m\<rparr>) = (rest s)\<lparr>mem := m\<rparr>" "rest (s\<lparr>freelist := f\<rparr>) = (rest s)\<lparr>freelist := f\<rparr>" "mem (rest s) = mem s" "freelist (rest s) = freelist s"
  by (simp_all add: rest_def)

lemma quiet_mem [simp]: "quiet (s\<lparr>mem := m\<rparr>) = quiet s" "quiet (s\<lparr>freelist := f\<rparr>) = quiet s" "quiet (s\<lparr>tlb := t\<rparr>) = quiet s"
  by (simp_all add: quiet_def bio_inv_def inuse_def fun_eq_iff)

lemma loaded_trans:
  assumes "loaded pd a xs s s1" "loaded pd (a + length xs) ys s1 s2"
  shows "loaded pd a (xs @ ys) s s2"
proof -
  have u: "used (mem s1) pd = used (mem s) pd" using assms(1) by (simp add: loaded_def used_def)
  have "rest (s2\<lparr>mem := mem s\<rparr>) = rest s"
  proof -
    have "rest (s2\<lparr>mem := mem s\<rparr>) = (rest (s2\<lparr>mem := mem s1\<rparr>))\<lparr>mem := mem s\<rparr>" by (simp add: rest_mem)
    also have "\<dots> = rest (s1\<lparr>mem := mem s\<rparr>)" using assms(2) by (simp add: loaded_def rest_mem)
    finally show ?thesis using assms(1) by (simp add: loaded_def)
  qed
  moreover have "only_in (used (mem s) pd) (mem s) (mem s2)"
    using only_in_trans [of _ "mem s" "mem s1" _ "mem s2"] assms u unfolding loaded_def by (metis sup.idem)
  ultimately show ?thesis using assms by (auto simp: loaded_def nth_append)
qed

lemma loaded_space:
  assumes "loaded pd a xs s s'"
  shows "space_ok (mem s') pd = space_ok (mem s) pd" "used (mem s') pd = used (mem s) pd" "frm (mem s') pd i j = frm (mem s) pd i j"
    "tab (mem s') pd i = tab (mem s) pd i"
proof -
  have l: "loc (mem s') pd = loc (mem s) pd" using assms by (simp add: loaded_def)
  show "space_ok (mem s') pd = space_ok (mem s) pd" "used (mem s') pd = used (mem s) pd" by (simp_all only: space_ok_def used_def l)
  show "frm (mem s') pd i j = frm (mem s) pd i j" "tab (mem s') pd i = tab (mem s) pd i"
    using fun_cong [OF l, of "Frm i j"] fun_cong [OF l, of "Tab i"] by simp_all
qed

text \<open>One page, or the beginning of it.\<close>

lemma loaded_page:
  assumes q: "quiet s" and f: "page_frame (mem s) pd n = Some f" and ok: "space_ok (mem s) pd" and l: "k + length xs \<le> 4096" and n: "n < 2 ^ 20"
  shows "loaded pd (4096 * n + k) xs s (s\<lparr>mem := store_bytes (f + of_nat k) xs (mem s)\<rparr>)"
proof -
  let ?m = "mem s" and ?m' = "store_bytes (f + of_nat k) xs (mem s)"
  have fu: "f \<in> used ?m pd" using f used_intro [of ?m pd "Frm (dirx n) (tabx n)"] by simp
  have pf: "page_addr f" by (rule used_page [OF ok fu])
  note o = store_bytes_page(1) [OF pf l, of ?m]
  have "f \<notin> tables ?m pd"
  proof
    assume "f \<in> tables ?m pd"
    then consider "loc ?m pd Dir = Some f" | i where "loc ?m pd (Tab i) = Some f" by (auto simp: tables_def)
    then obtain x where "loc ?m pd x = Some f" "x \<noteq> Frm (dirx n) (tabx n)" by cases blast+
    then show False using ok f unfolding space_ok_def by (metis loc.simps(3))
  qed
  then have lc: "loc ?m' pd = loc ?m pd" using pf by (intro loc_tables [OF o _ _ ok]) auto
  have "user_byte ?m' pd va = (if 4096 * n + k \<le> unat va \<and> unat va < 4096 * n + k + length xs then Some (xs ! (unat va - (4096 * n + k))) else user_byte ?m pd va)" for va
  proof -
    let ?p = "unat va div 4096" and ?j = "unat va mod 4096"
    have va: "unat va = 4096 * ?p + ?j" "?j < 4096" by simp_all
    have fr: "page_frame ?m' pd ?p = page_frame ?m pd ?p" using fun_cong [OF lc, of "Frm (dirx ?p) (tabx ?p)"] by simp
    show ?thesis
    proof (cases "?p = n")
      case True
      then have "user_byte ?m' pd va = Some (?m' (f + of_nat ?j))" "user_byte ?m pd va = Some (?m (f + of_nat ?j))"
        using f fr by (simp_all add: user_byte_def)
      moreover have "4096 * n + k \<le> unat va \<longleftrightarrow> k \<le> ?j" "unat va < 4096 * n + k + length xs \<longleftrightarrow> ?j < k + length xs" "unat va - (4096 * n + k) = ?j - k"
        using va(1) unfolding True by linarith+
      ultimately show ?thesis using store_bytes_page(2) [OF pf l va(2), of ?m] by simp
    next
      case False
      have "user_byte ?m' pd va = user_byte ?m pd va"
      proof (cases "page_frame ?m pd ?p")
        case (Some g)
        then have gu: "g \<in> used ?m pd" using used_intro [of ?m pd "Frm (dirx ?p) (tabx ?p)"] by simp
        have "g \<noteq> f" using Some f ok False index_inj [of ?p n] unfolding space_ok_def by (metis loc.simps(3) slot.inject(2))
        then have "?m' (g + of_nat ?j) = ?m (g + of_nat ?j)"
          using only_in_page [OF o _ used_page [OF ok gu], of "g + of_nat ?j"] pf offset_in_page [OF used_page [OF ok gu] va(2)] by auto
        then show ?thesis using Some fr by (simp add: user_byte_def)
      qed (use fr in \<open>simp add: user_byte_def\<close>)
      moreover have "\<not> (4096 * n + k \<le> unat va \<and> unat va < 4096 * n + k + length xs)"
      proof
        assume a: "4096 * n + k \<le> unat va \<and> unat va < 4096 * n + k + length xs"
        then have "4096 * n \<le> unat va" "unat va < 4096 * n + 4096" using l by auto
        then show False using False block_div_iff [of 4096 n "unat va"] by simp
      qed
      ultimately show ?thesis by metis
    qed
  qed
  then show ?thesis using q lc only_in_mono [OF o] fu by (simp add: loaded_def)
qed

lemma loaded_rest:
  assumes "quiet s'" "disk s' = disk s" "rest s' = rest s"
  shows "loaded pd a [] s s'" "mem s' = mem s"
proof -
  show m: "mem s' = mem s" using arg_cong [OF assms(3), of mem] by (simp add: rest_mem)
  have "rest (s'\<lparr>mem := mem s\<rparr>) = rest s" unfolding rest_mem(1) assms(3) by (simp add: rest_mem(1) [symmetric])
  then show "loaded pd a [] s s'" using assms(1,2) m by (auto simp: loaded_def only_in_def)
qed

text \<open>The file open as entry \<open>ip\<close> has the bytes \<open>C\<close>.\<close>

definition holds_file :: "nat \<Rightarrow> u8 list \<Rightarrow> 'a kfs_scheme \<Rightarrow> bool" where
  "holds_file ip C s \<longleftrightarrow> file_inv (disk s) (icache s ! ip) \<and> itype (icache s ! ip) \<noteq> T_DEV \<and> contents (disk s) (icache s ! ip) = C"

lemma loaded_keeps: "loaded pd a xs s s' \<Longrightarrow> icache s' = icache s" "loaded pd a xs s s' \<Longrightarrow> holds_file ip C s \<Longrightarrow> holds_file ip C s'"
proof -
  show i: "loaded pd a xs s s' \<Longrightarrow> icache s' = icache s"
    using rest_icache [of "s'\<lparr>mem := mem s\<rparr>" s] by (simp add: loaded_def)
  show "loaded pd a xs s s' \<Longrightarrow> holds_file ip C s \<Longrightarrow> holds_file ip C s'" using i by (simp add: loaded_def holds_file_def)
qed

lemma read_file:
  assumes "quiet s" "holds_file ip C s" "unat off + unat n \<le> length C"
  shows "\<exists>s'. readi dv ip off n s = Inr (n, take (unat n) (drop (unat off) C), s') \<and> quiet s' \<and> loaded pd a [] s s' \<and> mem s' = mem s \<and>
    disk s' = disk s \<and> rest s' = rest s"
proof -
  let ?ip = "icache s ! ip"
  have l: "length C = unat (isize ?ip)" using assms(2) by (auto simp: holds_file_def contents_def)
  then have b: "unat off + unat n < 2 ^ 32" using assms(3) unat_lt32 [of "isize ?ip"] by linarith
  have le: "off \<le> isize ?ip" "off \<le> off + n"
    using assms(3) l b unat_ptr_add [of off "unat n"] by (auto simp: word_le_nat_alt)
  moreover have "min n (isize ?ip - off) = n"
  proof -
    have "unat (isize ?ip - off) = unat (isize ?ip) - unat off" using le(1) by (simp add: unat_sub)
    then show ?thesis using assms(3) l by (auto simp: min_def word_le_nat_alt)
  qed
  moreover obtain s' where "readi dv ip off n s = Inr (min n (isize ?ip - off), take (unat n) (drop (unat off) (contents (disk s) ?ip)), s')"
    "quiet s'" "disk s' = disk s" "rest s' = rest s"
    using readi_law [OF assms(1) _ _ le, of bitmap_size dv] assms(2) by (auto simp: holds_file_def)
  ultimately show ?thesis using loaded_rest [of s' s] assms(2) by (auto simp: holds_file_def)
qed

lemma loaduvm_loop_run:
  assumes a: "unat addr = 4096 * n0" "unat addr + unat len \<le> 2 ^ 31" and C: "unat off + unat len \<le> length C"
  shows "quiet s \<Longrightarrow> holds_file ip C s \<Longrightarrow> space_ok (mem s) pd \<Longrightarrow> unat i = 4096 * j \<Longrightarrow> unat len + 4096 \<le> unat i + 4096 * fuel \<and> unat i < unat len + 4096 \<Longrightarrow>
    (\<forall>n. 4096 * n < unat addr + unat len \<longrightarrow> page_frame (mem s) pd n \<noteq> None) \<Longrightarrow>
    \<exists>s'. loaduvm_loop fuel dv pd addr ip off len i s = Inr (True, s') \<and>
      loaded pd (unat addr + unat i) (take (unat len - unat i) (drop (unat off + unat i) C)) s s'"
proof (induction fuel arbitrary: i j s)
  case (Suc fuel)
  show ?case
  proof (cases "i < len")
    case False
    then have "loaduvm_loop (Suc fuel) dv pd addr ip off len i s = Inr (True, s)" "unat len - unat i = 0"
      by (simp_all add: loaduvm_loop.simps word_less_nat_alt)
    then show ?thesis using loaded_refl [OF Suc.prems(1)] by auto
  next
    case True
    let ?r = "len - i"
    have il: "unat i < unat len" using True by (simp add: word_less_nat_alt)
    then have r: "unat ?r = unat len - unat i" by (simp add: unat_sub word_le_nat_alt)
    let ?n = "if ?r < PGSIZE then ?r else PGSIZE"
    have n: "unat ?n = min 4096 (unat len - unat i)" using r by (auto simp: word_less_nat_alt PGSIZE_def)
    have ai: "unat (addr + i) = 4096 * (n0 + j)" 
    proof -
      have "unat (addr + i) = unat addr + unat i" using unat_ptr_add [of addr "unat i"] a(2) il by simp
      then show ?thesis using a(1) Suc.prems(4) by simp
    qed
    have oi: "unat (off + i) = unat off + unat i"
    proof -
      have "length C < 2 ^ 32" using Suc.prems(2) unat_lt32 [of "isize (icache s ! ip)"] by (auto simp: holds_file_def contents_def)
      then show ?thesis using unat_ptr_add [of off "unat i"] C il by simp
    qed
    obtain f where f: "page_frame (mem s) pd (n0 + j) = Some f" using Suc.prems(4,6) a(1) il by (metis add_mult_distrib2 nat_add_left_cancel_less not_None_eq)
    then obtain t where t: "walkpgdir pd (addr + i) False s = Inr (ent t (tabx (n0 + j)), s)" "ent t (tabx (n0 + j)) \<noteq> 0"
      "PTE_ADDR (load32 (mem s) (ent t (tabx (n0 + j)))) = f"
      using walkpgdir_find [OF _ Suc.prems(3), of "addr + i" f] ai by auto
    let ?xs = "take (unat ?n) (drop (unat off + unat i) C)"
    have "unat (off + i) + unat ?n \<le> length C" using C il oi n by simp
    from read_file [OF Suc.prems(1,2) this, of dv pd "unat addr + unat i"] obtain s1 where
      s1: "readi dv ip (off + i) ?n s = Inr (?n, ?xs, s1)" "quiet s1" "loaded pd (unat addr + unat i) [] s s1" "mem s1 = mem s" unfolding oi by blast
    have lx: "length ?xs = min 4096 (unat len - unat i)" using C il n by simp
    let ?s2 = "s1\<lparr>mem := store_bytes f ?xs (mem s1)\<rparr>"
    have "n0 + j < 2 ^ 20" using ai unat_lt32 [of "addr + i"] by simp
    then have "loaded pd (4096 * (n0 + j) + 0) ?xs s1 (s1\<lparr>mem := store_bytes (f + of_nat 0) ?xs (mem s1)\<rparr>)"
      using f s1(4) Suc.prems(3) lx by (intro loaded_page [OF s1(2)]) auto
    then have "loaded pd (unat addr + unat i) ?xs s1 ?s2" using ai a(1) Suc.prems(4) by (simp add: add_mult_distrib2)
    then have l2: "loaded pd (unat addr + unat i) ?xs s ?s2" using loaded_trans [OF s1(3)] by fastforce
    have step: "loaduvm_loop (Suc fuel) dv pd addr ip off len i s = loaduvm_loop fuel dv pd addr ip off len (i + PGSIZE) ?s2"
      using True t s1(1) by (simp add: loaduvm_loop.simps Let_def)
    have i': "unat (i + PGSIZE) = 4096 * Suc j" using unat_ptr_add [of i 4096] Suc.prems(4) il a(2) by (simp add: PGSIZE_def)
    have k2: "quiet ?s2" "holds_file ip C ?s2" using l2 loaded_keeps(2) [OF l2 Suc.prems(2)] by (simp_all add: s1(2))
    have k3: "space_ok (mem ?s2) pd" "\<forall>n. 4096 * n < unat addr + unat len \<longrightarrow> page_frame (mem ?s2) pd n \<noteq> None"
      unfolding loaded_space [OF l2] by (fact Suc.prems(3,6))+
    have "unat len + 4096 \<le> unat (i + PGSIZE) + 4096 * fuel \<and> unat (i + PGSIZE) < unat len + 4096" using Suc.prems(4,5) i' il by simp
    from Suc.IH [OF k2 k3(1) i' this k3(2)] obtain s' where
      s': "loaduvm_loop fuel dv pd addr ip off len (i + PGSIZE) ?s2 = Inr (True, s')"
      "loaded pd (unat addr + unat (i + PGSIZE)) (take (unat len - unat (i + PGSIZE)) (drop (unat off + unat (i + PGSIZE)) C)) ?s2 s'" by blast
    let ?c = "drop (unat off + unat i) C"
    have u: "unat (i + PGSIZE) = unat i + 4096" using i' Suc.prems(4) by simp
    have "loaded pd (unat addr + unat i) (take (unat len - unat i) ?c) s s'"
    proof (cases "unat len - unat i \<le> 4096")
      case True
      then have z: "unat len - unat (i + PGSIZE) = 0" "unat ?n = unat len - unat i" using u n by simp_all
      from s'(2) [unfolded z(1) take_0] show ?thesis using loaded_trans [OF l2 loaded_empty] unfolding z(2) append_Nil2 by blast
    next
      case False
      then have "length ?xs = 4096" "unat ?n = 4096" using lx n by simp_all
      moreover have "take (unat len - unat i) ?c = take 4096 ?c @ take (unat len - unat (i + PGSIZE)) (drop (unat off + unat (i + PGSIZE)) C)"

      proof -
        have e: "unat len - unat i = 4096 + (unat len - unat (i + PGSIZE))" "unat off + unat (i + PGSIZE) = 4096 + (unat off + unat i)" using False u by simp_all
        show ?thesis unfolding e by (simp only: take_add drop_drop)
      qed
      moreover have "unat addr + unat i + 4096 = unat addr + unat (i + PGSIZE)" using u by simp
      ultimately show ?thesis using loaded_trans [OF l2, of "take (unat len - unat (i + PGSIZE)) (drop (unat off + unat (i + PGSIZE)) C)" s'] s'(2) by metis
    qed
    then show ?thesis using step s'(1) by metis
  qed
qed auto

lemma loaduvm_run:
  assumes "quiet s" "holds_file ip C s" "space_ok (mem s) pd" "addr mod PGSIZE = 0" "unat addr + unat len \<le> 2 ^ 31" "unat off + unat len \<le> length C"
    "\<forall>n. 4096 * n < unat addr + unat len \<longrightarrow> page_frame (mem s) pd n \<noteq> None"
  shows "\<exists>s'. loaduvm dv pd addr ip off len s = Inr (True, s') \<and> loaded pd (unat addr) (take (unat len) (drop (unat off) C)) s s'"
proof -
  have "unat addr mod 4096 = 0" using assms(4) by (simp add: PGSIZE_def word_unat_eq_iff unat_mod)
  then have "unat addr = 4096 * (unat addr div 4096)" by auto
  from loaduvm_loop_run [OF this assms(5,6,1-3) _ _ assms(7), of 0 0 "2 ^ 20 + 1" dv] show ?thesis
    using assms(4) unat_lt32 [of len] by (simp add: loaduvm_def)
qed

section \<open>The program headers\<close>

text \<open>
  What the program headers of a file with the bytes \<open>C\<close> describe: the segments to load in their order, the end of the
  memory they need, and the byte at an address, which is a byte of the file inside a segment and \<open>b\<close> elsewhere.
\<close>

fun elf_segs :: "nat \<Rightarrow> u32 \<Rightarrow> u8 list \<Rightarrow> proghdr list" where
  "elf_segs 0 off C = []"
| "elf_segs (Suc n) off C =
     (let ph = get_proghdr (take 32 (drop (unat off) C)) in
      if ph_type ph = ELF_PROG_LOAD then ph # elf_segs n (off + 32) C else elf_segs n (off + 32) C)"

definition put_bytes :: "nat \<Rightarrow> u8 list \<Rightarrow> (u32 \<Rightarrow> u8) \<Rightarrow> u32 \<Rightarrow> u8" where
  "put_bytes a xs b = (\<lambda>va. if a \<le> unat va \<and> unat va < a + length xs then xs ! (unat va - a) else b va)"

fun segs_byte :: "u8 list \<Rightarrow> proghdr list \<Rightarrow> (u32 \<Rightarrow> u8) \<Rightarrow> u32 \<Rightarrow> u8" where
  "segs_byte C [] b = b"
| "segs_byte C (ph # phs) b =
     segs_byte C phs (put_bytes (unat (ph_va ph)) (take (unat (ph_filesz ph)) (drop (unat (ph_offset ph)) C)) b)"

fun segs_size :: "u32 \<Rightarrow> proghdr list \<Rightarrow> u32" where
  "segs_size n [] = n"
| "segs_size n (ph # phs) = segs_size (ph_va ph + ph_memsz ph) phs"

text \<open>The segments are page aligned, ascend, lie in user memory and in the file.\<close>

fun segs_ok :: "u8 list \<Rightarrow> u32 \<Rightarrow> proghdr list \<Rightarrow> bool" where
  "segs_ok C n [] \<longleftrightarrow> True"
| "segs_ok C n (ph # phs) \<longleftrightarrow> ph_filesz ph \<le> ph_memsz ph \<and> ph_va ph mod PGSIZE = 0 \<and> unat (ph_va ph) + unat (ph_memsz ph) \<le> 2 ^ 31 \<and>
     n \<le> ph_va ph + ph_memsz ph \<and> ph_va ph + ph_memsz ph \<noteq> 0 \<and> unat (ph_offset ph) + unat (ph_filesz ph) \<le> length C \<and>
     segs_ok C (ph_va ph + ph_memsz ph) phs"

section \<open>Building an address space\<close>

text \<open>
  The address space \<open>pd\<close> of \<open>n\<close> bytes is under construction from the pages \<open>ps0\<close> that were free in \<open>s0\<close>: its memory is \<open>b\<close>,
  \<open>ps\<close> are the pages still free, and nothing else but the buffer cache changed.
\<close>

definition building :: "u32 \<Rightarrow> u32 \<Rightarrow> (u32 \<Rightarrow> u8) \<Rightarrow> 'a kfs_scheme \<Rightarrow> u32 list \<Rightarrow> 'a kfs_scheme \<Rightarrow> u32 list \<Rightarrow> bool" where
  "building pd n b s0 ps0 s ps \<longleftrightarrow>
     quiet s \<and> disk s = disk s0 \<and> rest (s\<lparr>mem := mem s0, freelist := freelist s0\<rparr>) = rest s0 \<and>
     room s ps \<and> image (mem s) pd (pages_of n) \<and> used (mem s) pd \<inter> set ps = {} \<and> used (mem s) pd \<union> set ps = set ps0 \<and>
     only_in (set ps0) (mem s0) (mem s) \<and> (\<forall>i. tab (mem s) pd i \<noteq> None \<longrightarrow> i < 512) \<and>
     (\<forall>va. user_byte (mem s) pd va = (if unat va div 4096 < pages_of n then Some (b va) else None)) \<and>
     (\<forall>va. pages_of n \<le> unat va div 4096 \<longrightarrow> b va = 0)"

lemma room_cong: "lk s' = lk s \<Longrightarrow> mem s' = mem s \<Longrightarrow> freelist s' = freelist s \<Longrightarrow> room s' ps = room s ps"
  by (simp add: room_def kmem_idle_def free_pages_def)

lemma rest_fields: "rest s' = rest s \<Longrightarrow> lk s' = lk s \<and> mem s' = mem s \<and> freelist s' = freelist s"
proof -
  have "lk (rest t) = lk t" "mem (rest t) = mem t" "freelist (rest t) = freelist t" for t :: "'a kbio_scheme" by (simp_all add: rest_def)
  then show "rest s' = rest s \<Longrightarrow> lk s' = lk s \<and> mem s' = mem s \<and> freelist s' = freelist s" by metis
qed

lemma building_holds:
  assumes "building pd n b s0 ps0 s ps" "holds_file ip C s0"
  shows "holds_file ip C s"
proof -
  have "icache s = icache s0" using rest_icache [of "s\<lparr>mem := mem s0, freelist := freelist s0\<rparr>" s0] assms(1) by (simp add: building_def)
  then show ?thesis using assms by (simp add: building_def holds_file_def)
qed

lemma building_start:
  assumes "quiet s0" "room s0 (pd # ps)"
  shows "\<exists>s. setupkvm s0 = Inr (pd, s) \<and> pd \<noteq> 0 \<and> building pd 0 (\<lambda>_. 0) s0 (pd # ps) s ps"
proof -
  obtain s1 where k: "kalloc s0 = Inr (pd, s1)" "room s1 ps" "mem s1 = mem s0" "same_rest s0 s1" and nz: "pd \<noteq> 0" using kalloc_room [OF assms(2)] by blast
  have d: "page_addr pd" "pd \<notin> set ps" using room_pages [OF assms(2)] by auto
  let ?z = "memset (mem s0) pd 0 (unat PGSIZE)"
  let ?s = "s1\<lparr>mem := ?z\<rparr>"
  have l: "loc ?z pd = [Dir \<mapsto> pd]" by (rule loc_zero [OF d(1) zero_page(2)])
  have fr: "frm ?z pd i j = None" "tab ?z pd i = None" for i j using fun_cong [OF l, of "Frm i j"] fun_cong [OF l, of "Tab i"] by simp_all
  have r: "room ?s ps" by (rule room_frame [OF k(2), of "{pd}"]) (use d k(3) zero_page(1) in auto)
  obtain m f where s1: "s1 = s0\<lparr>mem := m, freelist := f\<rparr>" using same_rest_eq [OF quiet_calm [OF assms(1)] k(4)] by blast
  have "quiet ?s" "disk ?s = disk s0" "?s\<lparr>mem := mem s0, freelist := freelist s0\<rparr> = s0" using assms(1) unfolding s1 by simp_all
  moreover have "only_in (set (pd # ps)) (mem s0) ?z" by (rule only_in_mono [OF zero_page(1)]) simp
  moreover have "pages_of 0 = 0" by (simp add: pages_of_def)
  ultimately have "building pd 0 (\<lambda>_. 0) s0 (pd # ps) ?s ps"
    using space_zero [OF d(1) l] d r fr by (auto simp: building_def image_def user_byte_def)
  then show ?thesis using k nz by (auto simp: setupkvm_def)
qed

lemma building_grow:
  assumes bd: "building pd n b s0 ps0 s ps" and n: "n \<le> n'" "n' \<le> USERTOP" "n' \<noteq> 0" "need (pages_of n) (pages_of n') \<le> length ps"
  shows "\<exists>s' ps'. allocuvm pd n n' s = Inr (n', s') \<and> building pd n' b s0 ps0 s' ps' \<and> length ps \<le> length ps' + need (pages_of n) (pages_of n')"
proof -
  have q: "quiet s" and r: "room s ps" and im: "image (mem s) pd (pages_of n)" and dj: "used (mem s) pd \<inter> set ps = {}"
    and us: "used (mem s) pd \<union> set ps = set ps0" and o: "only_in (set ps0) (mem s0) (mem s)" and tb: "\<forall>i. tab (mem s) pd i \<noteq> None \<longrightarrow> i < 512"
    and ub: "\<forall>va. user_byte (mem s) pd va = (if unat va div 4096 < pages_of n then Some (b va) else None)"
    and bz: "\<forall>va. pages_of n \<le> unat va div 4096 \<longrightarrow> b va = 0"
    using bd by (auto simp: building_def)
  obtain s' ps' where a: "allocuvm pd n n' s = Inr (n', s')" "Vm_Grow.grown pd (pages_of n) (pages_of n') s ps s' ps'"
    "length ps \<le> length ps' + need (pages_of n) (pages_of n')" using allocuvm_run [OF r im dj n] by blast
  note g = a(2) [unfolded Vm_Grow.grown_def]
  obtain m f where s': "s' = s\<lparr>mem := m, freelist := f\<rparr>" using same_rest_eq [OF quiet_calm [OF q]] g by blast
  have "quiet s'" "disk s' = disk s" "s'\<lparr>mem := mem s0, freelist := freelist s0\<rparr> = s\<lparr>mem := mem s0, freelist := freelist s0\<rparr>"
    using q unfolding s' by simp_all
  moreover have "only_in (set ps0) (mem s0) (mem s')"
  proof -
    have "only_in (set ps0 \<union> used (mem s') pd) (mem s0) (mem s')" using only_in_trans [OF o] g by blast
    moreover have "used (mem s') pd \<subseteq> set ps0" using g us by blast
    ultimately show ?thesis by (simp add: sup.absorb1)
  qed
  moreover have "user_byte (mem s') pd va = (if unat va div 4096 < pages_of n' then Some (b va) else None)" for va
  proof -
    have "user_byte (mem s') pd va = (if unat va div 4096 < pages_of n then user_byte (mem s) pd va else if unat va div 4096 < pages_of n' then Some 0 else None)"
      using g by blast
    then show ?thesis using ub bz pages_of_mono [OF n(1)] by auto
  qed
  moreover have "b va = 0" if "pages_of n' \<le> unat va div 4096" for va using that bz pages_of_mono [OF n(1)] by auto
  moreover have "tab (mem s') pd i \<noteq> None \<longrightarrow> i < 512" for i using g tb by blast
  ultimately have "building pd n' b s0 ps0 s' ps'" using bd g us unfolding building_def by auto
  then show ?thesis using a by blast
qed

lemma building_load:
  assumes bd: "building pd n b s0 ps0 s ps" and ld: "loaded pd a xs s s'" and a: "a + length xs \<le> 4096 * pages_of n"
  shows "building pd n (put_bytes a xs b) s0 ps0 s' ps"
proof -
  have r: "room s ps" and im: "image (mem s) pd (pages_of n)" and dj: "used (mem s) pd \<inter> set ps = {}"
    and us: "used (mem s) pd \<union> set ps = set ps0" and o: "only_in (set ps0) (mem s0) (mem s)"
    and rs: "rest (s\<lparr>mem := mem s0, freelist := freelist s0\<rparr>) = rest s0" using bd by (auto simp: building_def)
  have o1: "only_in (used (mem s) pd) (mem s) (mem s')" and rl: "rest (s'\<lparr>mem := mem s\<rparr>) = rest s" using ld by (simp_all add: loaded_def)
  have "space_ok (mem s) pd" using im by (simp add: image_def)
  then have "room (s\<lparr>mem := mem s'\<rparr>) ps" using used_page dj by (intro room_frame [OF r o1]) auto
  then have "room s' ps" using rest_fields [OF rl] by (subst room_cong [of s' "s\<lparr>mem := mem s'\<rparr>"]) simp_all
  moreover have "rest (s'\<lparr>mem := mem s0, freelist := freelist s0\<rparr>) = rest s0"
  proof -
    have "rest (s'\<lparr>mem := mem s0, freelist := freelist s0\<rparr>) = (rest (s'\<lparr>mem := mem s\<rparr>))\<lparr>mem := mem s0, freelist := freelist s0\<rparr>" by (simp add: rest_mem)
    then show ?thesis using rs unfolding rl by (simp add: rest_mem)
  qed
  moreover have "only_in (set ps0) (mem s0) (mem s')" using only_in_trans [OF o o1] us by (auto intro: only_in_mono)
  moreover have "unat va div 4096 < pages_of n" if "unat va < a + length xs" for va :: u32
    using that a by (simp add: div_less_iff_less_mult)
  ultimately show ?thesis using bd ld unfolding building_def loaded_def image_def put_bytes_def
    by (auto simp: loaded_space [OF ld] image_def not_less [symmetric])
qed

lemma building_rest:
  "building pd n b s0 ps0 s ps \<Longrightarrow> quiet s' \<Longrightarrow> disk s' = disk s \<Longrightarrow> rest s' = rest s \<Longrightarrow> building pd n b s0 ps0 s' ps"
  using building_load [OF _ loaded_rest(1), of pd n b s0 ps0 s ps s' 0] by (simp add: put_bytes_def)

lemma need_add: "a \<le> b \<Longrightarrow> b \<le> c \<Longrightarrow> need a b + need b c = need a c"
  using div_le_mono [of "a + 1023" "b + 1023" 1024] div_le_mono [of "b + 1023" "c + 1023" 1024] by (simp add: need_def)

lemma segs_size_mono: "segs_ok C n phs \<Longrightarrow> n \<le> segs_size n phs"
  by (induction phs arbitrary: n) (auto intro: order_trans)

text \<open>A segment: memory for it, and the bytes of the file.\<close>

lemma load_segment:
  assumes bd: "building pd n b s0 ps0 s ps" and C: "holds_file ip C s0" and ok: "segs_ok C n (ph # phs)"
    and need: "need (pages_of n) (pages_of (ph_va ph + ph_memsz ph)) \<le> length ps"
  shows "\<exists>s1 s2 ps'. allocuvm pd n (ph_va ph + ph_memsz ph) s = Inr (ph_va ph + ph_memsz ph, s1) \<and>
    loaduvm dv pd (ph_va ph) ip (ph_offset ph) (ph_filesz ph) s1 = Inr (True, s2) \<and>
    building pd (ph_va ph + ph_memsz ph) (segs_byte C [ph] b) s0 ps0 s2 ps' \<and>
    length ps \<le> length ps' + need (pages_of n) (pages_of (ph_va ph + ph_memsz ph))"
proof -
  let ?n = "ph_va ph + ph_memsz ph" and ?xs = "take (unat (ph_filesz ph)) (drop (unat (ph_offset ph)) C)"
  have un: "unat ?n = unat (ph_va ph) + unat (ph_memsz ph)" using ok unat_ptr_add [of "ph_va ph" "unat (ph_memsz ph)"] by simp
  have top: "?n \<le> USERTOP" using ok un by (simp add: USERTOP_def word_le_nat_alt)
  obtain s1 ps1 where g: "allocuvm pd n ?n s = Inr (?n, s1)" "building pd ?n b s0 ps0 s1 ps1" "length ps \<le> length ps1 + need (pages_of n) (pages_of ?n)"
    using building_grow [OF bd _ top _ need] ok by auto
  have fs: "unat (ph_filesz ph) \<le> unat (ph_memsz ph)" using ok by (simp add: word_le_nat_alt)
  have pg: "unat ?n \<le> 4096 * pages_of ?n" using div_mult_mod_eq [of "unat ?n + 4095" 4096] mod_less_divisor [of 4096 "unat ?n + 4095"] by (simp add: pages_of_def)
  have im: "image (mem s1) pd (pages_of ?n)" and q: "quiet s1" using g(2) by (simp_all add: building_def)
  have fr: "\<forall>k. 4096 * k < unat (ph_va ph) + unat (ph_filesz ph) \<longrightarrow> page_frame (mem s1) pd k \<noteq> None"
  proof (intro allI impI)
    fix k assume "4096 * k < unat (ph_va ph) + unat (ph_filesz ph)"
    then have "4096 * k < 4096 * pages_of ?n" using fs un pg by linarith
    then show "page_frame (mem s1) pd k \<noteq> None" using im by (simp add: image_def)
  qed
  obtain s2 where l: "loaduvm dv pd (ph_va ph) ip (ph_offset ph) (ph_filesz ph) s1 = Inr (True, s2)" "loaded pd (unat (ph_va ph)) ?xs s1 s2"
    using loaduvm_run [OF q building_holds [OF g(2) C] _ _ _ _ fr, of "ph_offset ph" dv] im ok fs by (auto simp: image_def)
  have lx: "length ?xs = unat (ph_filesz ph)" using ok by auto
  have "building pd ?n (put_bytes (unat (ph_va ph)) ?xs b) s0 ps0 s2 ps1" using lx fs un pg by (intro building_load [OF g(2) l(2)]) linarith
  then show ?thesis using g l by auto
qed

lemma exec_load_run:
  assumes C: "holds_file ip C s0" "length C < 2 ^ 32"
  shows "building pd nsz b s0 ps0 s ps \<Longrightarrow> unat off + 32 * n \<le> length C \<Longrightarrow> segs_ok C nsz (elf_segs n off C) \<Longrightarrow>
    need (pages_of nsz) (pages_of (segs_size nsz (elf_segs n off C))) \<le> length ps \<Longrightarrow>
    \<exists>s' ps'. exec_load n dv pd ip off nsz s = Inr (Some (segs_size nsz (elf_segs n off C)), s') \<and>
      building pd (segs_size nsz (elf_segs n off C)) (segs_byte C (elf_segs n off C) b) s0 ps0 s' ps' \<and>
      length ps \<le> length ps' + need (pages_of nsz) (pages_of (segs_size nsz (elf_segs n off C)))"
proof (induction n arbitrary: off nsz b s ps)
  case (Suc n)
  let ?d = "take 32 (drop (unat off) C)"
  let ?ph = "get_proghdr (take 32 (drop (unat off) C))"
  have q: "quiet s" using Suc.prems(1) by (simp add: building_def)
  have "unat off + unat (32 :: u32) \<le> length C" using Suc.prems(2) by simp
  from read_file [OF q building_holds [OF Suc.prems(1) C(1)] this, of dv] obtain s1 where
    s1: "readi dv ip off 32 s = Inr (32, ?d, s1)" "quiet s1" "disk s1 = disk s" "rest s1 = rest s" by auto
  have bd: "building pd nsz b s0 ps0 s1 ps" by (rule building_rest [OF Suc.prems(1) s1(2-4)])
  have "unat (off + of_nat 32) = unat off + 32" using Suc.prems(2) C(2) by (intro unat_ptr_add) simp
  then have off: "unat (off + 32) + 32 * n \<le> length C" using Suc.prems(2) by simp
  show ?case
  proof (cases "ph_type ?ph = ELF_PROG_LOAD")
    case False
    then show ?thesis using Suc.IH [OF bd off] Suc.prems(3,4) s1(1) by (simp add: Let_def)
  next
    case True
    let ?rest = "elf_segs n (off + 32) C" and ?n = "ph_va ?ph + ph_memsz ?ph"
    have segs: "elf_segs (Suc n) off C = ?ph # ?rest" using True by (simp add: Let_def)
    have ok: "segs_ok C nsz (?ph # ?rest)" using Suc.prems(3) unfolding segs .
    then have mono: "pages_of nsz \<le> pages_of ?n" "pages_of ?n \<le> pages_of (segs_size ?n ?rest)" using segs_size_mono [of C ?n ?rest] by (simp_all add: pages_of_mono)
    note na = need_add [OF mono]
    have nd: "need (pages_of nsz) (pages_of (segs_size ?n ?rest)) \<le> length ps" using Suc.prems(4) unfolding segs by simp
    then have "need (pages_of nsz) (pages_of ?n) \<le> length ps" using na by linarith
    from load_segment [OF bd C(1) ok this, of dv] obtain s2 s3 ps3 where
      l: "allocuvm pd nsz ?n s1 = Inr (?n, s2)" "loaduvm dv pd (ph_va ?ph) ip (ph_offset ?ph) (ph_filesz ?ph) s2 = Inr (True, s3)"
      "building pd ?n (segs_byte C [?ph] b) s0 ps0 s3 ps3" "length ps \<le> length ps3 + need (pages_of nsz) (pages_of ?n)" by blast
    have "need (pages_of ?n) (pages_of (segs_size ?n ?rest)) \<le> length ps3" using nd na l(4) by linarith
    from Suc.IH [OF l(3) off _ this] ok obtain s' ps' where
      r: "exec_load n dv pd ip (off + 32) ?n s3 = Inr (Some (segs_size ?n ?rest), s')"
      "building pd (segs_size ?n ?rest) (segs_byte C ?rest (segs_byte C [?ph] b)) s0 ps0 s' ps'"
      "length ps3 \<le> length ps' + need (pages_of ?n) (pages_of (segs_size ?n ?rest))" by auto
    have "exec_load (Suc n) dv pd ip off nsz s = exec_load n dv pd ip (off + 32) ?n s3"
      using s1(1) True l(1,2) ok leD [of "ph_filesz ?ph" "ph_memsz ?ph"] by (simp add: Let_def)
    moreover have "segs_size nsz (elf_segs (Suc n) off C) = segs_size ?n ?rest" "segs_byte C (elf_segs (Suc n) off C) b = segs_byte C ?rest (segs_byte C [?ph] b)"
      unfolding segs by simp_all
    moreover have "length ps \<le> length ps' + need (pages_of nsz) (pages_of (segs_size ?n ?rest))" using r(3) l(4) na by linarith
    ultimately show ?thesis using r(1,2) by metis
  qed
qed auto

end
