(* ===== verification/Exec_Args.thy ===== *)
theory Exec_Args
  imports Exec_Load
begin

text \<open>
  The argument block of a new program: \<^verbatim>\<open>exec\<close> copies the strings and the array of pointers to them into the stack
  page (\<^verbatim>\<open>src/exec.c\<close>).
\<close>

section \<open>Stores into a page of the address space\<close>

definition word_bytes :: "u32 \<Rightarrow> u8 list" where
  "word_bytes w = [byte32 0 w, byte32 1 w, byte32 2 w, byte32 3 w]"

lemma length_word_bytes [simp]: "length (word_bytes w) = 4"
  by (simp add: word_bytes_def)

lemma nth_word_bytes: "k < 4 \<Longrightarrow> word_bytes w ! k = byte32 k w"
  by (auto simp: word_bytes_def less_Suc_eq numeral_eq_Suc)

lemma store32_bytes: "store32 a w m = store_bytes a (word_bytes w) m"
  by (simp add: store32_def word_bytes_def add.assoc)

lemma building_store:
  assumes bd: "building pd n b s0 ps0 s ps" and f: "page_frame (mem s) pd N = Some f" and k: "k + length xs \<le> 4096"
  shows "building pd n (put_bytes (4096 * N + k) xs b) s0 ps0 (s\<lparr>mem := store_bytes (f + of_nat k) xs (mem s)\<rparr>) ps"
    "page_frame (store_bytes (f + of_nat k) xs (mem s)) pd N = Some f"
proof -
  have q: "quiet s" and im: "image (mem s) pd (pages_of n)" using bd by (simp_all add: building_def)
  have N: "N < pages_of n" using im f unfolding image_def by (metis option.distinct(1))
  have "pages_of n \<le> 2 ^ 20" using unat_lt32 [of n] by (simp add: pages_of_def)
  then have "N < 2 ^ 20" using N by simp
  from loaded_page [OF q f _ k this] have ld: "loaded pd (4096 * N + k) xs s (s\<lparr>mem := store_bytes (f + of_nat k) xs (mem s)\<rparr>)"
    using im by (simp add: image_def)
  have "4096 * N + k + length xs \<le> 4096 * pages_of n" using N k by simp
  then show "building pd n (put_bytes (4096 * N + k) xs b) s0 ps0 (s\<lparr>mem := store_bytes (f + of_nat k) xs (mem s)\<rparr>) ps"
    by (rule building_load [OF bd ld])
  show "page_frame (store_bytes (f + of_nat k) xs (mem s)) pd N = Some f" using loaded_space(3) [OF ld] f by simp
qed

section \<open>The argument block\<close>

text \<open>\<^const>\<open>push_args\<close> on the memory of the program, with addresses as numbers.\<close>

fun push_bytes :: "nat \<Rightarrow> (nat \<times> u8 list) list \<Rightarrow> nat \<Rightarrow> (u32 \<Rightarrow> u8) \<Rightarrow> u32 \<Rightarrow> u8" where
  "push_bytes argp [] sp b = b"
| "push_bytes argp ((i, str) # args) sp b =
     (let sp = sp - (length str + 1) in
      push_bytes argp args sp (put_bytes (argp + 4 * i) (word_bytes (of_nat sp)) (put_bytes sp (str @ [0]) b)))"

definition arg_bytes :: "u8 list list \<Rightarrow> nat" where
  "arg_bytes argv = sum_list (map (\<lambda>a. length a + 1) argv)"

lemma arg_bytes_simps [simp]: "arg_bytes [] = 0" "arg_bytes (a # as) = length a + 1 + arg_bytes as" "arg_bytes (as @ bs) = arg_bytes as + arg_bytes bs"
  by (simp_all add: arg_bytes_def)

lemma push_args_run:
  assumes "spbottom = of_nat (4096 * N)"
  shows "building pd n b s0 ps0 s ps \<Longrightarrow> page_frame (mem s) pd N = Some f \<Longrightarrow>
    (\<forall>(i, str)\<in>set args. 4096 * N \<le> argp \<and> argp + 4 * i + 4 \<le> 4096 * N + 4096) \<Longrightarrow>
    4096 * N + arg_bytes (map snd args) \<le> sp \<Longrightarrow> sp \<le> 4096 * N + 4096 \<Longrightarrow>
    building pd n (push_bytes argp args sp b) s0 ps0 (s\<lparr>mem := push_args f spbottom (of_nat argp) args (of_nat sp) (mem s)\<rparr>) ps"
proof (induction args arbitrary: s sp b)
  case (Cons x args)
  obtain i str where x: "x = (i, str)" by force
  define sp' where "sp' = sp - (length str + 1)"
  define j where "j = sp' - 4096 * N"
  define k where "k = argp + 4 * i - 4096 * N"
  have le: "length str + 1 \<le> sp" "4096 * N \<le> sp'" "4096 * N \<le> argp + 4 * i" using Cons.prems(3,4) x by (auto simp: sp'_def)
  have sum: "sp' = 4096 * N + j" "argp + 4 * i = 4096 * N + k" using le by (simp_all add: j_def k_def)
  have w: "of_nat sp - (of_nat (length str) + 1) = (of_nat sp' :: u32)" using le(1) by (simp add: sp'_def of_nat_diff)
  have addr: "f + of_nat sp' - spbottom = f + of_nat j" unfolding assms sum(1) by simp
  have ptr: "f + of_nat argp - spbottom + 4 * of_nat i = f + of_nat k"
  proof -
    have "f + of_nat argp - spbottom + 4 * of_nat i = f + of_nat (argp + 4 * i) - of_nat (4096 * N)" unfolding assms by simp
    then show ?thesis unfolding sum(2) by simp
  qed
  have lj: "j + length (str @ [0]) \<le> 4096" using Cons.prems(4,5) x le by (simp add: j_def sp'_def)
  have lk: "k + length (word_bytes (of_nat sp')) \<le> 4096" using Cons.prems(3) x by (auto simp: k_def)
  let ?s1 = "s\<lparr>mem := store_bytes (f + of_nat j) (str @ [0]) (mem s)\<rparr>"
  note 1 = building_store [OF Cons.prems(1,2) lj]
  have f1: "page_frame (mem ?s1) pd N = Some f" using 1(2) by simp
  note 2 = building_store [OF 1(1) f1 lk]
  let ?s2 = "?s1\<lparr>mem := store_bytes (f + of_nat k) (word_bytes (of_nat sp')) (mem ?s1)\<rparr>"
  have "building pd n (push_bytes argp args sp' (put_bytes (4096 * N + k) (word_bytes (of_nat sp')) (put_bytes (4096 * N + j) (str @ [0]) b))) s0 ps0
    (?s2\<lparr>mem := push_args f spbottom (of_nat argp) args (of_nat sp') (mem ?s2)\<rparr>) ps"
    using Cons.prems(3-5) x le 2 by (intro Cons.IH) (auto simp: sp'_def)
  moreover have "push_bytes argp (x # args) sp b = push_bytes argp args sp' (put_bytes (argp + 4 * i) (word_bytes (of_nat sp')) (put_bytes sp' (str @ [0]) b))"
    by (simp add: x Let_def sp'_def)
  moreover have "push_args f spbottom (of_nat argp) (x # args) (of_nat sp) (mem s) = push_args f spbottom (of_nat argp) args (of_nat sp') (mem ?s2)"
    by (simp only: x push_args.simps Let_def w addr ptr store32_bytes) simp
  ultimately show ?case by (simp add: sum)
qed simp

text \<open>What the program finds: pointers and strings.\<close>

definition word_at :: "(u32 \<Rightarrow> u8) \<Rightarrow> nat \<Rightarrow> u32 \<Rightarrow> bool" where
  "word_at b a w \<longleftrightarrow> (\<forall>k<4. b (of_nat (a + k)) = byte32 k w)"

definition str_at :: "(u32 \<Rightarrow> u8) \<Rightarrow> nat \<Rightarrow> u8 list \<Rightarrow> bool" where
  "str_at b a str \<longleftrightarrow> (\<forall>k\<le>length str. b (of_nat (a + k)) = (str @ [0]) ! k)"

lemma put_bytes_nat: "x < 2 ^ 32 \<Longrightarrow> put_bytes a xs b (of_nat x) = (if a \<le> x \<and> x < a + length xs then xs ! (x - a) else b (of_nat x))"
  by (simp add: put_bytes_def unat_of_nat32)

lemma push_bytes_spec:
  assumes "argp + 4 * length argv + arg_bytes argv \<le> sp" "sp < 2 ^ 32"
  shows "(\<forall>i<length argv. \<exists>p. sp - arg_bytes argv \<le> p \<and> p + length (argv ! i) < sp \<and>
      word_at (push_bytes argp (rev (zip [0..<length argv] argv)) sp b) (argp + 4 * i) (of_nat p) \<and>
      str_at (push_bytes argp (rev (zip [0..<length argv] argv)) sp b) p (argv ! i)) \<and>
    (\<forall>x<2 ^ 32. x < argp \<or> argp + 4 * length argv \<le> x \<and> x < sp - arg_bytes argv \<or> sp \<le> x \<longrightarrow>
      push_bytes argp (rev (zip [0..<length argv] argv)) sp b (of_nat x) = b (of_nat x))"
  using assms
proof (induction argv arbitrary: sp b rule: rev_induct)
  case (snoc y ys)
  let ?n = "length ys"
  define q where "q = sp - (length y + 1)"
  define c where "c = put_bytes (argp + 4 * ?n) (word_bytes (of_nat q)) (put_bytes q (y @ [0]) b)"
  let ?b = "push_bytes argp (rev (zip [0..<?n] ys)) q c"
  have e: "push_bytes argp (rev (zip [0..<length (ys @ [y])] (ys @ [y]))) sp b = ?b" by (simp add: Let_def q_def c_def)
  have q: "argp + 4 * ?n + 4 + arg_bytes ys \<le> q" "q + length y < sp" "sp = q + length y + 1" "q < 2 ^ 32" using snoc.prems by (simp_all add: q_def)
  then have hyp: "argp + 4 * ?n + arg_bytes ys \<le> q" by simp
  have ih: "\<forall>i<?n. \<exists>p. q - arg_bytes ys \<le> p \<and> p + length (ys ! i) < q \<and> word_at ?b (argp + 4 * i) (of_nat p) \<and> str_at ?b p (ys ! i)"
    and fr: "\<And>x. x < 2 ^ 32 \<Longrightarrow> x < argp \<or> argp + 4 * ?n \<le> x \<and> x < q - arg_bytes ys \<or> q \<le> x \<Longrightarrow> ?b (of_nat x) = c (of_nat x)"
    using snoc.IH [OF hyp q(4), of c] by blast+
  have tot: "sp - arg_bytes (ys @ [y]) = q - arg_bytes ys" using q by simp
  have cx: "c (of_nat x) = (if argp + 4 * ?n \<le> x \<and> x < argp + 4 * ?n + 4 then word_bytes (of_nat q) ! (x - (argp + 4 * ?n))
      else if q \<le> x \<and> x < sp then (y @ [0]) ! (x - q) else b (of_nat x))" if "x < 2 ^ 32" for x
    using that q by (simp add: c_def put_bytes_nat)
  have w: "word_at ?b (argp + 4 * ?n) (of_nat q)"
    unfolding word_at_def
  proof (intro allI impI)
    fix k :: nat assume k: "k < 4"
    then have x: "argp + 4 * ?n + k < 2 ^ 32" using q by linarith
    have "?b (of_nat (argp + 4 * ?n + k)) = c (of_nat (argp + 4 * ?n + k))" using q k by (intro fr [OF x]) auto
    then show "?b (of_nat (argp + 4 * ?n + k)) = byte32 k (of_nat q)" using k cx [OF x] by (simp add: nth_word_bytes)
  qed
  have s: "str_at ?b q y"
    unfolding str_at_def
  proof (intro allI impI)
    fix k assume k: "k \<le> length y"
    then have x: "q + k < 2 ^ 32" using q snoc.prems(2) by linarith
    have "?b (of_nat (q + k)) = c (of_nat (q + k))" by (rule fr [OF x]) simp
    then show "?b (of_nat (q + k)) = (y @ [0]) ! k" using k q cx [OF x] by auto
  qed
  have "\<exists>p. sp - arg_bytes (ys @ [y]) \<le> p \<and> p + length ((ys @ [y]) ! i) < sp \<and> word_at ?b (argp + 4 * i) (of_nat p) \<and> str_at ?b p ((ys @ [y]) ! i)"
    if "i < length (ys @ [y])" for i
  proof (cases "i = ?n")
    case True
    then show ?thesis using w s q tot by (intro exI [of _ q]) simp
  next
    case False
    then have "i < ?n" using that by simp
    then obtain p where "q - arg_bytes ys \<le> p" "p + length (ys ! i) < q" "word_at ?b (argp + 4 * i) (of_nat p)" "str_at ?b p (ys ! i)" using ih by blast
    then show ?thesis using tot q \<open>i < ?n\<close> by (intro exI [of _ p]) (simp add: nth_append)
  qed
  moreover have "?b (of_nat x) = b (of_nat x)"
    if "x < 2 ^ 32" "x < argp \<or> argp + 4 * length (ys @ [y]) \<le> x \<and> x < sp - arg_bytes (ys @ [y]) \<or> sp \<le> x" for x
    using that q fr [of x] cx [of x] unfolding tot by auto
  ultimately show ?case unfolding e by blast
qed simp

end
