(* ===== verification/Exec_Run.thy ===== *)
theory Exec_Run
  imports Exec_Args Scheduler
begin

text \<open>
  \<^verbatim>\<open>exec\<close> as a whole (\<^verbatim>\<open>src/exec.c\<close>): a valid program file replaces the memory of the calling process by the image
  its headers describe and a stack with the arguments, and the old memory is given back.
\<close>

section \<open>Switching to the new address space\<close>

lemma switchuvm_loop_ends:
  assumes tb: "\<forall>i. tab (mem s) pd i \<noteq> None \<longrightarrow> i < 512"
  shows "unat va = 4096 * n \<Longrightarrow> n \<le> 2 ^ 19 \<Longrightarrow> 2 ^ 19 < n + fuel \<Longrightarrow> mem s' = mem s \<Longrightarrow> switchuvm_loop fuel pd va i s' \<noteq> Inl Spin"
proof (induction fuel arbitrary: va n i s')
  case (Suc fuel)
  obtain t where t: "tlb_register pd i va s' = Inr (s'\<lparr>tlb := t\<rparr>)" using tlb_register_run by blast
  show ?case
  proof (cases "n = 2 ^ 19")
    case True
    then have "dirx n = 512" by (simp add: dirx_def)
    then have "walkpgdir pd va False s' = Inr (0, s')" using tb Suc.prems(1,4) by (force simp: walkpgdir_entry split: option.split)
    then show ?thesis by simp
  next
    case False
    then have n: "Suc n \<le> 2 ^ 19" using Suc.prems(2) by simp
    have "unat (va + of_nat 4096) = unat va + 4096" using Suc.prems(1) n by (intro unat_ptr_add) simp
    then have "unat (va + PGSIZE) = 4096 * Suc n" using Suc.prems(1) by (simp add: PGSIZE_def)
    then have "switchuvm_loop fuel pd (va + PGSIZE) ((i + 1) mod 64) (s'\<lparr>tlb := t\<rparr>) \<noteq> Inl Spin"
      using Suc.IH [of "va + PGSIZE" "Suc n" "s'\<lparr>tlb := t\<rparr>"] Suc.prems(3,4) n by simp
    then show ?thesis using t by (simp add: walkpgdir_entry)
  qed
qed simp

lemma calm_popcli: "calm k \<Longrightarrow> popcli (pushcli k) = Inr k"
proof -
  assume c: "calm k"
  have "popcli (pushcli k) = Inr (cycle k)"
  proof (cases "ncli k = 0")
    case True
    then show ?thesis by (simp add: popcli_def pushcli_def cli_def sti_def cycle_def Let_def sti_after_cli)
  next
    case False
    then show ?thesis using calm_cpu_ok [OF c] by (auto simp: popcli_def pushcli_def cli_def cycle_def Let_def cpu_ok_def bl_set_absorb)
  qed
  then show ?thesis using c by simp
qed

lemma switchuvm_ends:
  assumes "calm (lk s)" "pd \<noteq> 0" "\<forall>i. tab (mem s) pd i \<noteq> None \<longrightarrow> i < 512"
  shows "\<exists>t. switchuvm pd pd s = Inr (s\<lparr>tlb := t\<rparr>)"
proof -
  let ?s = "clear_tlb (s\<lparr>lk := pushcli (lk s)\<rparr>)"
  have "switchuvm_loop (2 ^ 20 + 1) pd 0 0 ?s \<noteq> Inl Spin"
    by (rule switchuvm_loop_ends [OF assms(3), of 0 0]) (simp_all add: clear_tlb_def)
  then obtain t where "switchuvm_loop (2 ^ 20 + 1) pd 0 0 ?s = Inr (?s\<lparr>tlb := t\<rparr>)" using switchuvm_loop_run by blast
  then show ?thesis using assms(2) calm_popcli [OF assms(1)] by (auto simp: switchuvm_def Let_def clear_tlb_def)
qed

section \<open>Other address spaces\<close>

lemma user_byte_frame:
  assumes "only_in X m m'" "\<And>q. q \<in> X \<Longrightarrow> page_addr q" "X \<inter> used m pg = {}" "space_ok m pg"
  shows "user_byte m' pg va = user_byte m pg va"
proof -
  have lp: "loc m' pg = loc m pg" by (rule loc_frame [OF assms])
  have "m' (f + of_nat (unat va mod 4096)) = m (f + of_nat (unat va mod 4096))" if "frm m pg i j = Some f" for f i j
  proof -
    have fu: "f \<in> used m pg" using that used_intro [of m pg "Frm i j" f] by simp
    have "in_page f (f + of_nat (unat va mod 4096))" by (rule offset_in_page [OF used_page [OF assms(4) fu]]) simp
    from same_outside [OF assms fu this] show ?thesis .
  qed
  then show ?thesis using fun_cong [OF lp, of "Frm i j" for i j] by (simp add: user_byte_def split: option.split)
qed

lemma image_frame: "loc m' pg = loc m pg \<Longrightarrow> image m' pg k = image m pg k" "loc m' pg = loc m pg \<Longrightarrow> used m' pg = used m pg"
proof -
  assume l: "loc m' pg = loc m pg"
  have "frm m' pg i j = frm m pg i j" for i j using fun_cong [OF l, of "Frm i j"] by simp
  then show "image m' pg k = image m pg k" by (simp add: image_def space_ok_def l)
  show "used m' pg = used m pg" by (simp add: used_def l)
qed

section \<open>The arguments\<close>

text \<open>\<^verbatim>\<open>main(argc, argv)\<close> finds its arguments at \<open>argp\<close> in the memory \<open>b\<close>.\<close>

definition args_ready :: "u8 list list \<Rightarrow> u32 \<Rightarrow> (u32 \<Rightarrow> u8) \<Rightarrow> bool" where
  "args_ready argv argp b \<longleftrightarrow> word_at b (unat argp + 4 * length argv) 0 \<and>
     (\<forall>i<length argv. \<exists>p. word_at b (unat argp + 4 * i) p \<and> str_at b (unat p) (argv ! i))"

text \<open>The bytes the argument block takes.\<close>

definition args_size :: "u8 list list \<Rightarrow> nat" where
  "args_size argv = (arg_bytes argv + 3) div 4 * 4 + 4 * (length argv + 1)"

lemma clear_low_bits: "(x :: u32) AND NOT 3 = push_bit 2 (drop_bit 2 x)"
proof (rule bit_word_eqI)
  fix n assume n: "n < LENGTH(32)"
  have three: "(3 :: u32) = semiring_bit_operations_class.mask 2" by (simp add: mask_eq_exp_minus_1)
  show "bit (x AND NOT 3) n = bit (push_bit 2 (drop_bit 2 x)) n"
  proof (cases "2 \<le> n")
    case True
    then obtain k where "n = 2 + k" using le_Suc_ex by blast
    then show ?thesis using n unfolding three by (auto simp: bit_simps)
  qed (use n in \<open>auto simp: three bit_simps\<close>)
qed

lemma args_size_word: "args_size argv \<le> 4096 \<Longrightarrow> arg_len argv + 4 * (of_nat (length argv) + 1) = of_nat (args_size argv)"
proof -
  assume a: "args_size argv \<le> 4096"
  let ?x = "of_nat (arg_bytes argv) + 3 :: u32"
  have "arg_bytes argv + 3 < 5000"
    using a div_mult_mod_eq [of "arg_bytes argv + 3" 4] mod_less_divisor [of 4 "arg_bytes argv + 3"] unfolding args_size_def by linarith
  then have m: "arg_bytes argv + 3 < 2 ^ 32" by simp
  have "?x = of_nat (arg_bytes argv + 3)" by simp
  then have x: "unat ?x = arg_bytes argv + 3" using unat_of_nat32 [OF m] by metis
  have "?x AND NOT 3 = push_bit 2 (drop_bit 2 ?x)" by (rule clear_low_bits)
  also have "\<dots> = of_nat (4 * ((arg_bytes argv + 3) div 4))"

  proof -
    have "unat (drop_bit 2 ?x) = (arg_bytes argv + 3) div 4" unfolding unat_drop_bit_eq x by (simp add: drop_bit_eq_div)
    then have "drop_bit 2 ?x = of_nat ((arg_bytes argv + 3) div 4)" by (metis of_nat_unat ucast_id)
    then show ?thesis by (simp add: push_bit_eq_mult)
  qed
  finally show ?thesis by (simp add: arg_len_def arg_bytes_def args_size_def)
qed

lemma args_ready_push:
  assumes "unat argp + args_size argv = 4096 * Suc N" "args_size argv \<le> 4096" "Suc N \<le> 2 ^ 19"
    and b': "b' = push_bytes (unat argp) (rev (zip [0..<length argv] argv)) (4096 * Suc N) (put_bytes (unat argp + 4 * length argv) (word_bytes 0) b)"
  shows "args_ready argv argp b'" "\<forall>va. unat va < 4096 * N \<longrightarrow> b' va = b va"
proof -
  let ?a = "unat argp" and ?t = "4096 * Suc N" and ?c = "put_bytes (unat argp + 4 * length argv) (word_bytes 0) b"
  have r: "arg_bytes argv \<le> (arg_bytes argv + 3) div 4 * 4"
    using div_mult_mod_eq [of "arg_bytes argv + 3" 4] mod_less_divisor [of 4 "arg_bytes argv + 3"] by linarith
  have le: "?a + 4 * length argv + 4 \<le> ?t - arg_bytes argv" "4096 * N \<le> ?a" "?a + 4 * length argv + arg_bytes argv \<le> ?t" "?t < 2 ^ 32"
    using assms(1-3) r by (simp_all add: args_size_def)
  from push_bytes_spec [OF le(3,4), of ?c] have
    p: "\<forall>i<length argv. \<exists>p. p + length (argv ! i) < ?t \<and> word_at b' (?a + 4 * i) (of_nat p) \<and> str_at b' p (argv ! i)"
    and fr: "\<And>x. x < 2 ^ 32 \<Longrightarrow> x < ?a \<or> ?a + 4 * length argv \<le> x \<and> x < ?t - arg_bytes argv \<Longrightarrow> b' (of_nat x) = ?c (of_nat x)"
    unfolding b' by blast+
  have "word_at b' (?a + 4 * length argv) 0"
    unfolding word_at_def
  proof (intro allI impI)
    fix k :: nat assume k: "k < 4"
    then have x: "?a + 4 * length argv + k < 2 ^ 32" "?a + 4 * length argv + k < ?t - arg_bytes argv" using le by linarith+
    then show "b' (of_nat (?a + 4 * length argv + k)) = byte32 k 0"
      using k fr [OF x(1)] put_bytes_nat [OF x(1), of "?a + 4 * length argv" "word_bytes 0" b] by (simp add: nth_word_bytes)
  qed
  moreover have "\<exists>p. word_at b' (?a + 4 * i) p \<and> str_at b' (unat p) (argv ! i)" if "i < length argv" for i
  proof -
    obtain p where p: "p + length (argv ! i) < ?t" "word_at b' (?a + 4 * i) (of_nat p)" "str_at b' p (argv ! i)" using p \<open>i < length argv\<close> by blast
    then have "unat (of_nat p :: u32) = p" using le(4) by (intro unat_of_nat32) linarith
    then show ?thesis using p(2,3) by metis
  qed
  ultimately show "args_ready argv argp b'" by (simp add: args_ready_def)
  show "\<forall>va. unat va < 4096 * N \<longrightarrow> b' va = b va"
  proof (intro allI impI)
    fix va :: u32 assume va: "unat va < 4096 * N"
    then have x: "unat va < 2 ^ 32" "unat va < ?a" using le unat_lt32 by auto
    have "b' (of_nat (unat va)) = b (of_nat (unat va))"
      using fr [OF x(1)] put_bytes_nat [OF x(1), of "?a + 4 * length argv" "word_bytes 0" b] x(2) by simp
    then show "b' va = b va" by (simp only: of_nat_unat ucast_id)
  qed
qed

lemma stack_run:
  assumes bd: "building pd n b s0 ps0 s ps" and N: "N = pages_of n" "N < 2 ^ 19" "need N (Suc N) \<le> length ps" and args: "args_size argv \<le> 4096"
    and tp: "tp = PGROUNDUP n + PGSIZE" and argp: "argp = tp - arg_len argv - 4 * (of_nat (length argv) + 1)"
  shows "\<exists>s1 f ps1 b'. allocuvm pd (PGROUNDUP n) tp s = Inr (tp, s1) \<and> tp \<noteq> 0 \<and> pages_of tp = Suc N \<and> uva2ka pd (PGROUNDUP n) s1 = Inr (f, s1) \<and>
    building pd tp b' s0 ps0 (s1\<lparr>mem := push_args f (PGROUNDUP n) argp (rev (zip [0..<length argv] argv)) tp
      (store32 (f + argp - PGROUNDUP n + 4 * of_nat (length argv)) 0 (mem s1))\<rparr>) ps1 \<and>
    args_ready argv argp b' \<and> (\<forall>va. unat va < 4096 * N \<longrightarrow> b' va = b va)"
proof -
  let ?sb = "PGROUNDUP n"
  have "unat n \<le> 4096 * N" using N(1) div_mult_mod_eq [of "unat n + 4095" 4096] mod_less_divisor [of 4096 "unat n + 4095"] by (simp add: pages_of_def)
  then have sb: "unat ?sb = 4096 * N" using N by (subst round_up_nat) simp_all
  have t: "unat tp = 4096 * Suc N" using unat_ptr_add [of ?sb 4096] sb N(2) by (simp add: tp PGSIZE_def)
  have pg: "pages_of ?sb = N" "pages_of tp = Suc N" using sb t by (simp_all add: pages_of_def)
  have "building pd ?sb b s0 ps0 s ps" using bd pg N(1) by (simp add: building_def)
  moreover have "?sb \<le> tp" "tp \<le> USERTOP" "tp \<noteq> 0" using sb t N(2) by (auto simp: word_le_nat_alt USERTOP_def unat_eq_0 [symmetric])
  ultimately obtain s1 ps1 where a: "allocuvm pd ?sb tp s = Inr (tp, s1)" "building pd tp b s0 ps0 s1 ps1"
    using building_grow [of pd ?sb b s0 ps0 s ps tp] N(3) pg by auto
  have im: "image (mem s1) pd (Suc N)" using a(2) pg by (simp add: building_def)
  then obtain f where f: "page_frame (mem s1) pd N = Some f" unfolding image_def by blast
  then have u: "uva2ka pd ?sb s1 = Inr (f, s1)"
    using walkpgdir_find [of s1 pd ?sb f] im sb by (auto simp: uva2ka_def image_def)
  have "argp = tp - of_nat (args_size argv)" using args_size_word [OF args] argp by (simp add: algebra_simps)
  moreover have "of_nat (args_size argv) \<le> tp" "unat (of_nat (args_size argv) :: u32) = args_size argv"
    using args t by (auto simp: word_le_nat_alt unat_of_nat32)
  ultimately have ap: "unat argp + args_size argv = 4096 * Suc N" using t by (simp add: unat_sub word_le_nat_alt)
  define k where "k = 4096 - args_size argv + 4 * length argv"
  have k: "k + length (word_bytes 0) \<le> 4096" "4096 * N + k = unat argp + 4 * length argv" using args ap by (auto simp: k_def args_size_def)
  have adr: "f + argp - ?sb + 4 * of_nat (length argv) = f + of_nat k"
  proof -
    have "of_nat (4096 * N + k) = argp + 4 * of_nat (length argv)" unfolding k(2) by simp
    moreover have "of_nat (4096 * N) = ?sb" using sb by (metis of_nat_unat ucast_id)
    ultimately show ?thesis by (simp add: algebra_simps)
  qed
  let ?s2 = "s1\<lparr>mem := store_bytes (f + of_nat k) (word_bytes 0) (mem s1)\<rparr>"
  let ?c = "put_bytes (unat argp + 4 * length argv) (word_bytes 0) b"
  let ?args = "rev (zip [0..<length argv] argv)"
  let ?b = "push_bytes (unat argp) ?args (4096 * Suc N) ?c"
  note 2 = building_store [OF a(2) f k(1)]
  have sbn: "?sb = of_nat (4096 * N)" using sb by (metis of_nat_unat ucast_id)
  have tn: "tp = of_nat (4096 * Suc N)" "argp = of_nat (unat argp)" using t by (metis of_nat_unat ucast_id)+
  have "map snd ?args = rev argv" by (simp add: rev_map [symmetric])
  then have ab: "arg_bytes (map snd ?args) = arg_bytes argv" by (simp add: arg_bytes_def rev_map [symmetric] del: map_map)
  have "arg_bytes argv \<le> args_size argv" using div_mult_mod_eq [of "arg_bytes argv + 3" 4] mod_less_divisor [of 4 "arg_bytes argv + 3"] unfolding args_size_def by linarith
  then have "building pd tp ?b s0 ps0 (?s2\<lparr>mem := push_args f ?sb (of_nat (unat argp)) ?args (of_nat (4096 * Suc N)) (mem ?s2)\<rparr>) ps1"
    using 2 k(2) ab args ap by (intro push_args_run [OF sbn]) (auto simp: args_size_def dest!: set_zip_leftD)
  then have "building pd tp ?b s0 ps0 (s1\<lparr>mem := push_args f ?sb argp ?args tp (store32 (f + argp - ?sb + 4 * of_nat (length argv)) 0 (mem s1))\<rparr>) ps1"
    unfolding adr store32_bytes tn(1) [symmetric] tn(2) [symmetric] by simp
  moreover have "args_ready argv argp ?b" "\<forall>va. unat va < 4096 * N \<longrightarrow> ?b va = b va"
    using args_ready_push [OF ap args _ refl] N(2) by auto
  ultimately show ?thesis using a(1) u pg(2) \<open>tp \<noteq> 0\<close> by blast
qed

section \<open>From the loaded image to the running program\<close>

text \<open>The entry of the process that runs the new program.\<close>

definition new_program :: "u8 list \<Rightarrow> u32 \<Rightarrow> u32 \<Rightarrow> u32 \<Rightarrow> u32 \<Rightarrow> proc \<Rightarrow> proc" where
  "new_program path pd n entry argp p = p\<lparr>pname := safestrcpy_array (pname p) (array (basename path)),
     pgdir := pd, sz := n, tf := (tf p)(T_SPC := entry, T_SGR := argp)\<rparr>"

text \<open>
  The state \<open>s'\<close> after the commit, from a state \<open>s\<close> in which the pages of \<open>P\<close> were free or belonged to the old program: the
  address space \<open>pd\<close> has \<open>K\<close> pages with the bytes \<open>b\<close>, and all other pages of \<open>P\<close> are free.
\<close>

definition program_memory :: "u32 \<Rightarrow> nat \<Rightarrow> (u32 \<Rightarrow> u8) \<Rightarrow> u32 set \<Rightarrow> 'a kmem_scheme \<Rightarrow> bool" where
  "program_memory pd K b P s \<longleftrightarrow> image (mem s) pd K \<and> (\<forall>va. user_byte (mem s) pd va = (if unat va div 4096 < K then Some (b va) else None)) \<and>
     (\<exists>ps. room s ps \<and> used (mem s) pd \<inter> set ps = {} \<and> used (mem s) pd \<union> set ps = P)"

lemma rest_eq_fields: "rest (s' :: 'a ksys_scheme) = rest s \<Longrightarrow> ptable s' = ptable s \<and> curproc s' = curproc s \<and> bank s' = bank s \<and> icache s' = icache s \<and> lk s' = lk s \<and> ftable s' = ftable s \<and> pipes s' = pipes s"
proof -
  have "ptable (rest t) = ptable t" "curproc (rest t) = curproc t" "bank (rest t) = bank t" "icache (rest t) = icache t" "lk (rest t) = lk t" "ftable (rest t) = ftable t" "pipes (rest t) = pipes t" for t :: "'a ksys_scheme"
    by (simp_all add: rest_def)
  then show "rest s' = rest s \<Longrightarrow> ptable s' = ptable s \<and> curproc s' = curproc s \<and> bank s' = bank s \<and> icache s' = icache s \<and> lk s' = lk s \<and> ftable s' = ftable s \<and> pipes s' = pipes s" by metis
qed

lemma quiet_registers [simp]: "quiet (s\<lparr>bank := x\<rparr>) = quiet s" "quiet (s\<lparr>pr_reg := y\<rparr>) = quiet s"
  by (simp_all add: quiet_def bio_inv_def inuse_def fun_eq_iff)

text \<open>Leaving the old address space.\<close>

lemma replace_space:
  assumes bd: "building pd n b s0 ps0 s ps" and nz: "pd \<noteq> 0"
    and old: "space_ok (mem s0) old" "\<forall>i j. frm (mem s0) old i j \<noteq> None \<longrightarrow> i < 512" "used (mem s0) old \<inter> set ps0 = {}"
    and s': "mem s' = mem s" "freelist s' = freelist s" "lk s' = lk s"
  shows "\<exists>t m f. switchuvm pd pd s' = Inr (s'\<lparr>tlb := t\<rparr>) \<and> freevm old (s'\<lparr>tlb := t\<rparr>) = Inr (s'\<lparr>tlb := t, mem := m, freelist := f\<rparr>) \<and>
    program_memory pd (pages_of n) b (set ps0 \<union> used (mem s0) old) (s'\<lparr>tlb := t, mem := m, freelist := f\<rparr>) \<and>
    only_in (set ps0 \<union> used (mem s0) old) (mem s0) m"
proof -
  have im: "image (mem s) pd (pages_of n)" and r: "room s ps" and o: "only_in (set ps0) (mem s0) (mem s)" and dj: "used (mem s) pd \<inter> set ps = {}"
    and us: "used (mem s) pd \<union> set ps = set ps0" and c: "calm (lk s)" and tb: "\<forall>i. tab (mem s) pd i \<noteq> None \<longrightarrow> i < 512"
    and ub: "\<forall>va. user_byte (mem s) pd va = (if unat va div 4096 < pages_of n then Some (b va) else None)"
    using bd quiet_calm by (auto simp: building_def)
  have okp: "space_ok (mem s) pd" using im by (simp add: image_def)
  obtain t where t: "switchuvm pd pd s' = Inr (s'\<lparr>tlb := t\<rparr>)" using switchuvm_ends [of s' pd] c nz tb s' by auto
  let ?s = "s'\<lparr>tlb := t\<rparr>"
  have rm: "room ?s ps" using r s' by (subst room_cong [of ?s s]) simp_all
  have pp: "page_addr q" if "q \<in> set ps0" for q using that us room_pages(1) [OF r] used_page [OF okp] by auto
  have lo: "loc (mem s) old = loc (mem s0) old" using old(3) pp by (intro loc_frame [OF o _ _ old(1)]) auto
  have oku: "space_ok (mem ?s) old" "used (mem ?s) old = used (mem s0) old" using old(1) lo s' by (simp_all add: space_ok_def used_def)
  have fro: "frm (mem s) old i j = frm (mem s0) old i j" for i j using fun_cong [OF lo, of "Frm i j"] by simp
  have djo: "used (mem ?s) old \<inter> set ps = {}" using oku(2) old(3) us by auto
  have low: "\<forall>i j. frm (mem ?s) old i j \<noteq> None \<longrightarrow> i < 512" using old(2) fro s' by simp
  obtain s4 ps4 where v: "freevm old ?s = Inr s4" "room s4 ps4" "set ps4 = set ps \<union> used (mem s0) old"
    "only_in (used (mem s0) old) (mem s) (mem s4)" "same_rest ?s s4" using freevm_run [OF rm oku(1) djo low] oku(2) s' by auto
  obtain m f where s4: "s4 = ?s\<lparr>mem := m, freelist := f\<rparr>" using same_rest_eq [OF _ v(5)] c s' by auto
  have po: "\<And>q. q \<in> used (mem s0) old \<Longrightarrow> page_addr q" by (rule used_page [OF old(1)])
  have dp: "used (mem s0) old \<inter> used (mem s) pd = {}" using old(3) us by auto
  have lp: "loc (mem s4) pd = loc (mem s) pd" by (rule loc_frame [OF v(4) po dp okp])
  have ub4: "\<forall>va. user_byte (mem s4) pd va = (if unat va div 4096 < pages_of n then Some (b va) else None)"
    using user_byte_frame [OF v(4) po dp okp] ub by simp
  have "program_memory pd (pages_of n) b (set ps0 \<union> used (mem s0) old) s4"
    unfolding program_memory_def image_frame [OF lp] using im ub4 v(2,3) dj dp us by (intro conjI exI [of _ ps4]) auto
  moreover have "only_in (set ps0 \<union> used (mem s0) old) (mem s0) m" using only_in_trans [OF o v(4)] by (simp add: s4)
  ultimately show ?thesis using t v(1) unfolding s4 by blast
qed

lemma exec_commit_run:
  fixes s :: "'a ksys_scheme"
  assumes bd: "building pd n b s0 ps0 s ps" and nz: "pd \<noteq> 0" and N: "N = pages_of n" "N < 2 ^ 19" "need N (Suc N) \<le> length ps" and args: "args_size argv \<le> 4096"
    and me: "curproc s = Some me" "me < length (ptable s)"
    and old: "old = pgdir (ptable s ! me)" "space_ok (mem s0) old" "\<forall>i j. frm (mem s0) old i j \<noteq> None \<longrightarrow> i < 512" "used (mem s0) old \<inter> set ps0 = {}"
    and tp: "tp = PGROUNDUP n + PGSIZE" and argp: "argp = tp - arg_len argv - 4 * (of_nat (length argv) + 1)"
  shows "\<exists>s' b'. exec_commit path argv pd ip entry n s = Inr (0, s') \<and> program_memory pd (Suc N) b' (set ps0 \<union> used (mem s0) old) s' \<and>
    args_ready argv argp b' \<and> (\<forall>va. unat va < 4096 * N \<longrightarrow> b' va = b va) \<and> quiet s' \<and> disk s' = disk s \<and>
    only_in (set ps0 \<union> used (mem s0) old) (mem s0) (mem s') \<and>
    rest s' = rest (s\<lparr>mem := mem s', freelist := freelist s', tlb := tlb s',
      ptable := (ptable s)[me := new_program path pd tp entry argp (ptable s ! me)],
      bank := (bank s)(4 := of_nat (length argv), 5 := argp), pr_reg := - 1\<rparr>)"
proof -
  obtain s1 f ps1 b' where st: "allocuvm pd (PGROUNDUP n) tp s = Inr (tp, s1)" "tp \<noteq> 0" "pages_of tp = Suc N" "uva2ka pd (PGROUNDUP n) s1 = Inr (f, s1)"
    "building pd tp b' s0 ps0 (s1\<lparr>mem := push_args f (PGROUNDUP n) argp (rev (zip [0..<length argv] argv)) tp
      (store32 (f + argp - PGROUNDUP n + 4 * of_nat (length argv)) 0 (mem s1))\<rparr>) ps1"
    "args_ready argv argp b'" "\<forall>va. unat va < 4096 * N \<longrightarrow> b' va = b va"
    using stack_run [OF bd N args tp argp] by blast
  define M where "M = push_args f (PGROUNDUP n) argp (rev (zip [0..<length argv] argv)) tp (store32 (f + argp - PGROUNDUP n + 4 * of_nat (length argv)) 0 (mem s1))"
  have b1: "building pd tp b' s0 ps0 (s1\<lparr>mem := M\<rparr>) ps1" using st(5) by (simp add: M_def)
  have r1: "rest (s1\<lparr>mem := mem s0, freelist := freelist s0\<rparr>) = rest (s\<lparr>mem := mem s0, freelist := freelist s0\<rparr>)"
    and q1: "quiet s1" "disk s1 = disk s" using b1 bd by (simp_all add: building_def)
  note fl = rest_eq_fields [OF r1, simplified]
  let ?pt = "(ptable s)[me := new_program path pd tp entry argp (ptable s ! me)]"
  let ?bk = "(bank s)(4 := of_nat (length argv), 5 := argp)"
  let ?s2 = "s1\<lparr>mem := M, bank := ?bk, pr_reg := - 1, ptable := ?pt\<rparr>"
  obtain t m fr where x: "switchuvm pd pd ?s2 = Inr (?s2\<lparr>tlb := t\<rparr>)" "freevm old (?s2\<lparr>tlb := t\<rparr>) = Inr (?s2\<lparr>tlb := t, mem := m, freelist := fr\<rparr>)"
    "program_memory pd (pages_of tp) b' (set ps0 \<union> used (mem s0) old) (?s2\<lparr>tlb := t, mem := m, freelist := fr\<rparr>)"
    "only_in (set ps0 \<union> used (mem s0) old) (mem s0) m"
    using replace_space [OF b1 nz old(2-4), of ?s2] by auto
  let ?s' = "?s2\<lparr>tlb := t, mem := m, freelist := fr\<rparr>"
  have "exec_commit path argv pd ip entry n s = Inr (0, ?s')"
    using st(1,2,4) x(1,2) me fl old(1) unfolding tp argp M_def exec_commit_def Let_def
    by (simp add: upd_proc_def new_program_def)
  moreover have "quiet ?s'" using q1(1) by simp
  moreover have "rest ?s' = rest (s\<lparr>mem := m, freelist := fr, tlb := t, ptable := ?pt, bank := ?bk, pr_reg := - 1\<rparr>)"
  proof -
    have "rest ?s' = (rest (s1\<lparr>mem := mem s0, freelist := freelist s0\<rparr>))\<lparr>mem := m, freelist := fr, tlb := t, ptable := ?pt, bank := ?bk, pr_reg := - 1\<rparr>"
      by (simp add: rest_def)
    then show ?thesis unfolding r1 by (simp add: rest_def)
  qed
  ultimately show ?thesis using x(3,4) st(3,6,7) q1(2) by (intro exI [of _ ?s'] exI [of _ b']) simp
qed

section \<open>The whole call\<close>

lemma frame_mem: "frame (s :: 'a ksys_scheme) s' \<Longrightarrow> mem s' = mem s \<and> freelist s' = freelist s \<and> bank s' = bank s \<and> ftable s' = ftable s \<and> pipes s' = pipes s \<and> woken (ptable s) (ptable s')"
proof -
  have r: "mem (rest t) = mem t" "freelist (rest t) = freelist t" "bank (rest t) = bank t" "ftable (rest t) = ftable t" "pipes (rest t) = pipes t" for t :: "'a ksys_scheme" by (simp_all add: rest_def)
  assume "frame s s'"
  then have "rest s' = (rest s)\<lparr>icache := icache s', ptable := ptable s'\<rparr>" "woken (ptable s) (ptable s')" by (simp_all add: frame_def)
  then show ?thesis using r [of s'] r [of s] by simp
qed

lemma woken_entry: "woken ps qs \<Longrightarrow> i < length ps \<Longrightarrow> pgdir (qs ! i) = pgdir (ps ! i)" "woken ps qs \<Longrightarrow> length qs = length ps"
  by (auto simp: woken_def list_all2_conv_all_nth)

lemma building_onto:
  assumes "building pd n b s0 ps0 s ps" "quiet s'" "mem s' = mem s" "freelist s' = freelist s" "lk s' = lk s"
  shows "building pd n b (s'\<lparr>mem := mem s0, freelist := freelist s0\<rparr>) ps0 s' ps"
  using assms room_cong [of s' s ps] by (simp add: building_def)

lemma header_fields:
  assumes "52 \<le> length C"
  shows "get32 (splice 0 (take 52 C) junk) 0 = get32 C 0" "get32 (splice 0 (take 52 C) junk) 24 = get32 C 24"
    "get32 (splice 0 (take 52 C) junk) 28 = get32 C 28" "get16 (splice 0 (take 52 C) junk) 44 = get16 C 44"
  using assms by (simp_all add: splice_def get32_def get16_def nth_append)

lemma open_program:
  fixes s :: "'a ksys_scheme"
  assumes fs: "fs_ready R s" "starts_at s path n0" "n0 \<in> R" "0 \<notin> set path" "resolve (disk s) (elems path) n0 = Some i"
    and C: "itype (inode_at (disk s) i) \<noteq> T_DEV" "C = contents (disk s) (inode_at (disk s) i)"
  shows "\<exists>j s1 s2. namei path s = Inr (Some j, s1) \<and> ilock (Some j) s1 = Inr s2 \<and> i \<in> R \<and>
    cache_at s {j} ((refs (icache s))(i := refs (icache s) i + 1)) s2 \<and> entry_of i j (icache s2) \<and> holds_file j C s2 \<and> length C < 2 ^ 32"
proof -
  obtain j s1 where n: "namei path s = Inr (Some j, s1)" "i \<in> R" "cache_at s {} ((refs (icache s))(i := refs (icache s) i + 1)) s1" "entry_of i j (icache s1)"
    using namei_law [OF fs(1-4)] fs(5) by auto
  have s1: "quiet s1" "disk s1 = disk s" "icache_ok (disk s1) {} (icache s1)" using n(3) by (simp_all add: cache_at_def)
  have tr: "tree (disk s) R" using fs(1) by (simp add: fs_ready_def)
  obtain s2 where l: "ilock (Some j) s1 = Inr s2" "cache_at s1 {j} (refs (icache s1)) s2" "entry_of i j (icache s2)" "dinode_of (icache s2 ! j) = disk_inode (disk s1) i"
    using ilock_law [OF s1(1,3) n(4)] treeD(2) [OF tr n(2)] s1(2) by auto
  have s2: "disk s2 = disk s" "icache_ok (disk s2) {j} (icache s2)" using l(2) s1(2) by (simp_all add: cache_at_def)
  note lf = loaded_file [OF s2(2) l(3)]
  have "holds_file j C s2" using lf l(4) C treeD(1) [OF tr n(2)] s1(2) s2(1) by (simp add: holds_file_def)
  moreover have "length C < 2 ^ 32" using unat_lt32 [of "isize (inode_at (disk s) i)"] C(2) by (simp add: contents_def)
  moreover have "refs (icache s1) = (refs (icache s))(i := refs (icache s) i + 1)" using n(3) by (simp add: cache_at_def)
  ultimately show ?thesis using n(1,2) l cache_at_trans [OF n(3) l(2)] by auto
qed

text \<open>Loading: the file is read and closed again, and the image is built from the free pages.\<close>

lemma load_program:
  fixes s :: "'a ksys_scheme"
  assumes fs: "fs_ready R s" "starts_at s path n0" "n0 \<in> R" "0 \<notin> set path" "resolve (disk s) (elems path) n0 = Some i"
    and C: "itype (inode_at (disk s) i) \<noteq> T_DEV" "C = contents (disk s) (inode_at (disk s) i)"
    and elf: "52 \<le> length C" "get32 C 0 = ELF_MAGIC" "unat (get32 C 28) + 32 * unat (get16 C 44) \<le> length C"
    and segs: "segs = elf_segs (unat (get16 C 44)) (get32 C 28) C" "segs_ok C 0 segs"
    and room: "room s (pd # ps)" "need 0 (pages_of (segs_size 0 segs)) \<le> length ps"
  shows "\<exists>ip s0 s' ps'. exec dv junk path argv s = exec_commit path argv pd ip (get32 C 24) (segs_size 0 segs) s' \<and> pd \<noteq> 0 \<and>
    building pd (segs_size 0 segs) (segs_byte C segs (\<lambda>_. 0)) s0 (pd # ps) s' ps' \<and> mem s0 = mem s \<and>
    length ps \<le> length ps' + need 0 (pages_of (segs_size 0 segs)) \<and>
    disk s' = disk s \<and> icache_ok (disk s) {} (icache s') \<and> refs (icache s') = refs (icache s) \<and> length (icache s') = length (icache s) \<and>
    curproc s' = curproc s \<and> woken (ptable s) (ptable s') \<and> bank s' = bank s \<and> ftable s' = ftable s \<and> pipes s' = pipes s"
proof -
  let ?n = "segs_size 0 segs"
  obtain j s1 s2 where o: "namei path s = Inr (Some j, s1)" "ilock (Some j) s1 = Inr s2" "i \<in> R"
    "cache_at s {j} ((refs (icache s))(i := refs (icache s) i + 1)) s2" "entry_of i j (icache s2)" "holds_file j C s2" "length C < 2 ^ 32"
    using open_program [OF fs C] by blast
  have q2: "quiet s2" "disk s2 = disk s" and f2: "frame s s2" using o(4) by (simp_all add: cache_at_def)
  have "unat (0 :: u32) + unat (52 :: u32) \<le> length C" using elf(1) by simp
  from read_file [OF q2(1) o(6) this, of dv] obtain s3 where s3: "readi dv j 0 52 s2 = Inr (52, take 52 C, s3)" "quiet s3" "disk s3 = disk s2" "rest s3 = rest s2" by auto
  note e3 = rest_eq_fields [OF s3(4)] rest_fields [OF s3(4)]
  have h3: "holds_file j C s3" using o(6) s3(3) e3(1) by (simp add: holds_file_def)
  have "room s3 (pd # ps)" using room(1) frame_mem [OF f2] frame_fields(2) [OF f2] e3 by (subst room_cong [of s3 s]) simp_all
  then obtain s4 where s4: "setupkvm s3 = Inr (pd, s4)" "pd \<noteq> 0" "building pd 0 (\<lambda>_. 0) s3 (pd # ps) s4 ps" using building_start [OF s3(2)] by blast
  have p0: "pages_of 0 = 0" by (simp add: pages_of_def)
  from exec_load_run [OF h3 o(7) s4(3) elf(3), of dv] segs room(2) obtain s5 ps5 where
    s5: "exec_load (unat (get16 C 44)) dv pd j (get32 C 28) 0 s4 = Inr (Some ?n, s5)" "building pd ?n (segs_byte C segs (\<lambda>_. 0)) s3 (pd # ps) s5 ps5"
    "length ps \<le> length ps5 + need 0 (pages_of ?n)" by (auto simp: p0)
  have r5: "rest (s5\<lparr>mem := mem s3, freelist := freelist s3\<rparr>) = rest s3" and q5: "quiet s5" "disk s5 = disk s" using s5(2) q2(2) s3(3) by (simp_all add: building_def)
  note e5 = rest_eq_fields [OF r5, simplified]
  have i5: "icache s5 = icache s2" using e5 e3 by simp
  have ok5: "icache_ok (disk s5) {j} (icache s5)" "entry_of i j (icache s5)" using o(4,5) q5(2) i5 by (simp_all add: cache_at_def)
  have "dnlink (disk_inode (disk s5) i) \<noteq> 0" using treeD(3) [of "disk s" R i] fs(1) o(3) q5(2) by (simp add: fs_ready_def)
  then obtain s6 where s6: "iunlockput j s5 = Inr s6" "cache_at s5 {} ((refs (icache s5))(i := refs (icache s5) i - 1)) s6"
    using iunlockput_law [OF q5(1) ok5] by auto
  have f6: "frame s5 s6" and q6: "quiet s6" "disk s6 = disk s" using s6(2) q5(2) by (simp_all add: cache_at_def)
  have "exec dv junk path argv s = exec_commit path argv pd j (get32 C 24) ?n s6"
    using o(1,2) s3(1) s4(1,2) s5(1) s6(1) elf(2) by (simp add: exec_def header_fields [OF elf(1)] Let_def)
  moreover have "building pd ?n (segs_byte C segs (\<lambda>_. 0)) (s6\<lparr>mem := mem s3, freelist := freelist s3\<rparr>) (pd # ps) s6 ps5"
    using frame_mem [OF f6] frame_fields(2) [OF f6] by (intro building_onto [OF s5(2) q6(1)]) simp_all
  moreover have "mem (s6\<lparr>mem := mem s3, freelist := freelist s3\<rparr>) = mem s" using e3 frame_mem [OF f2] by simp
  moreover have "refs (icache s6) = refs (icache s)" using s6(2) i5 o(4) by (simp add: cache_at_def)
  moreover have "curproc s6 = curproc s" "bank s6 = bank s" "ftable s6 = ftable s" "pipes s6 = pipes s" using frame_fields(1) [OF f2] frame_fields(1) [OF f6] frame_mem [OF f2] frame_mem [OF f6] e3 e5 by simp_all
  moreover have "woken (ptable s) (ptable s6)" using woken_trans [of "ptable s" "ptable s2" "ptable s6"] frame_mem [OF f2] frame_mem [OF f6] e3 e5 by simp
  moreover have "icache_ok (disk s) {} (icache s6)" "length (icache s6) = length (icache s)" using s6(2) q5(2) i5 o(4) by (simp_all add: cache_at_def)
  ultimately show ?thesis using s4(2) s5(3) q6(2) by blast
qed

text \<open>
  C5. \<^verbatim>\<open>exec\<close> runs a program: when the path leads to a file with a valid header whose segments are aligned, ascending and
  inside the file, enough pages are free and the arguments fit the stack page, the call returns 0. The calling
  process then has a new address space: below the stack every byte is the byte of the file that the program headers
  put there, or zero; the stack page holds the argument strings and the array of pointers to them, terminated by a
  null pointer, at the address in the stack pointer and in the register of the second argument, and the register of
  the first argument holds their number. The program counter is the entry point of the header, the name of the
  process the last part of the path. Every page of the old address space is free again and no page is lost or
  shared; memory outside these pages, the disk, the references to inodes, the open files, the pipes and the other processes
  are unchanged (but for the processes woken that slept on the lock of an inode).
\<close>

theorem exec_runs:
  fixes s :: "'a ksys_scheme"
  assumes fs: "fs_ready R s" "starts_at s path n0" "n0 \<in> R" "0 \<notin> set path" "resolve (disk s) (elems path) n0 = Some i"
    and C: "itype (inode_at (disk s) i) \<noteq> T_DEV" "C = contents (disk s) (inode_at (disk s) i)"
    and elf: "52 \<le> length C" "get32 C 0 = ELF_MAGIC" "unat (get32 C 28) + 32 * unat (get16 C 44) \<le> length C"
    and segs: "segs = elf_segs (unat (get16 C 44)) (get32 C 28) C" "segs_ok C 0 segs" "N = pages_of (segs_size 0 segs)" "N < 2 ^ 19"
    and free: "room s ps" "1 + need 0 (Suc N) \<le> length ps"
    and args: "args_size argv \<le> 4096" "argp = of_nat (4096 * Suc N) - of_nat (args_size argv)"
    and me: "curproc s = Some me" "me < length (ptable s)" "old = pgdir (ptable s ! me)"
    and old: "space_ok (mem s) old" "\<forall>i j. frm (mem s) old i j \<noteq> None \<longrightarrow> i < 512" "used (mem s) old \<inter> set ps = {}"
  shows "\<exists>pd s' b pt. exec dv junk path argv s = Inr (0, s') \<and> program_memory pd (Suc N) b (set ps \<union> used (mem s) old) s' \<and>
    (\<forall>va. unat va < 4096 * N \<longrightarrow> b va = segs_byte C segs (\<lambda>_. 0) va) \<and> args_ready argv argp b \<and>
    bank s' = (bank s)(4 := of_nat (length argv), 5 := argp) \<and> woken (ptable s) pt \<and>
    ptable s' = pt[me := new_program path pd (of_nat (4096 * Suc N)) (get32 C 24) argp (pt ! me)] \<and>
    only_in (set ps \<union> used (mem s) old) (mem s) (mem s') \<and>
    fs_ready R s' \<and> disk s' = disk s \<and> refs (icache s') = refs (icache s) \<and> ftable s' = ftable s \<and> pipes s' = pipes s"
proof -
  let ?n = "segs_size 0 segs"
  obtain pd ps1 where ps: "ps = pd # ps1" using free(2) by (cases ps) auto
  have nd: "need 0 N + need N (Suc N) = need 0 (Suc N)" by (rule need_add) simp_all
  obtain ip s0 s1 ps2 where l: "exec dv junk path argv s = exec_commit path argv pd ip (get32 C 24) ?n s1" "pd \<noteq> 0"
    "building pd ?n (segs_byte C segs (\<lambda>_. 0)) s0 ps s1 ps2" "mem s0 = mem s" "length ps1 \<le> length ps2 + need 0 N"
    "disk s1 = disk s" "icache_ok (disk s) {} (icache s1)" "refs (icache s1) = refs (icache s)" "length (icache s1) = length (icache s)"
    "curproc s1 = curproc s" "woken (ptable s) (ptable s1)" "bank s1 = bank s" "ftable s1 = ftable s" "pipes s1 = pipes s"
    using load_program [OF fs C elf segs(1,2), of pd ps1 dv junk argv] free nd ps segs(3) by auto
  define tp where "tp = PGROUNDUP ?n + PGSIZE"
  have tn: "tp = of_nat (4096 * Suc N)"
  proof -
    have "unat ?n \<le> 4096 * N" using segs(3) div_mult_mod_eq [of "unat ?n + 4095" 4096] mod_less_divisor [of 4096 "unat ?n + 4095"] by (simp add: pages_of_def)
    then have "unat (PGROUNDUP ?n) = 4096 * N" using segs(3,4) by (subst round_up_nat) simp_all
    then have "PGROUNDUP ?n = of_nat (4096 * N)" by (metis of_nat_unat ucast_id)
    then show ?thesis by (simp add: tp_def PGSIZE_def)
  qed
  have ap: "argp = tp - arg_len argv - 4 * (of_nat (length argv) + 1)" using args_size_word [OF args(1)] args(2) tn by (simp add: algebra_simps)
  have pt: "me < length (ptable s1)" "old = pgdir (ptable s1 ! me)" using woken_entry [OF l(11)] me by simp_all
  have "need N (Suc N) \<le> length ps2" using free(2) nd l(5) ps by simp
  from exec_commit_run [OF l(3,2) segs(3,4) this args(1) _ pt old [folded l(4)] tp_def ap, of path ip "get32 C 24"] obtain s' b where
    c: "exec_commit path argv pd ip (get32 C 24) ?n s1 = Inr (0, s')" "program_memory pd (Suc N) b (set ps \<union> used (mem s) old) s'" "args_ready argv argp b"
      "\<forall>va. unat va < 4096 * N \<longrightarrow> b va = segs_byte C segs (\<lambda>_. 0) va" "quiet s'" "disk s' = disk s1" "only_in (set ps \<union> used (mem s) old) (mem s) (mem s')"
    and r: "rest s' = rest (s1\<lparr>mem := mem s', freelist := freelist s', tlb := tlb s',
      ptable := (ptable s1)[me := new_program path pd tp (get32 C 24) argp (ptable s1 ! me)],
      bank := (bank s1)(4 := of_nat (length argv), 5 := argp), pr_reg := - 1\<rparr>)"
    using l(4,10) me(1) by auto
  note e = rest_eq_fields [OF r, simplified]
  have "fs_ready R s'" using fs(1) c(5,6) l(6-9) e by (simp add: fs_ready_def)
  then show ?thesis using l c e tn by (intro exI [of _ pd] exI [of _ s'] exI [of _ b] exI [of _ "ptable s1"]) simp
qed

end
