(* ===== verification/Mkfs.thy ===== *)
theory Mkfs
  imports Fs_Write Fs_Dir
begin

text \<open>
  The program that builds the disk image (\<^verbatim>\<open>src/mkfs.c\<close>). The theories \<open>Mkfs_Image\<close> and
  \<open>Mkfs_Run\<close> prove that the kernel's file system finds in the image what was put into it. The image file is a list of sectors of 512 bytes; \<^verbatim>\<open>perror\<close> and
  \<^verbatim>\<open>exit\<close>, or a failed \<^verbatim>\<open>assert\<close>, is the outcome \<open>Panic\<close>. The program runs on a little-endian 32-bit host
  (\<^verbatim>\<open>gcc -m32\<close>), so that a structure field in memory has the bytes it has on disk. What it prints is not part
  of the model.
\<close>

section \<open>The image\<close>

record mkfs =
  img :: "u8 list list"
  freeblock :: u32
  usedblocks :: u32
  freeinode :: u32

definition nblocks0 :: u32 where "nblocks0 = 995"
definition ninodes0 :: u32 where "ninodes0 = 200"
definition size0 :: u32 where "size0 = 1024"

definition xshort :: "u16 \<Rightarrow> u16" where
  "xshort x = le16 (byte16 0 x) (byte16 1 x)"

definition xint :: "u32 \<Rightarrow> u32" where
  "xint x = le32 (byte32 0 x) (byte32 1 x) (byte32 2 x) (byte32 3 x)"

text \<open>
  \<^verbatim>\<open>lseek\<close> to \<^verbatim>\<open>sec * 512L\<close>, a 32-bit offset: it fails when the offset is negative. Writing past the end of the
  file fills the gap with zeroes; reading there returns too few bytes.
\<close>

definition seek :: "u32 \<Rightarrow> nat option" where
  "seek sec = (if sec * 512 < 0x80000000 then Some (unat (sec * 512) div 512) else None)"

definition put_sector :: "nat \<Rightarrow> u8 list \<Rightarrow> u8 list list \<Rightarrow> u8 list list" where
  "put_sector i buf xs =
     (if i < length xs then xs[i := buf] else xs @ replicate (i - length xs) (replicate 512 0) @ [buf])"

definition wsect :: "u32 \<Rightarrow> u8 list \<Rightarrow> mkfs \<Rightarrow> mkfs res" where
  "wsect sec buf m =
     (case seek sec of
       None \<Rightarrow> Inl (Panic ''lseek'')
     | Some i \<Rightarrow> Inr (m\<lparr>img := put_sector i buf (img m)\<rparr>))"

definition rsect :: "u32 \<Rightarrow> mkfs \<Rightarrow> u8 list res" where
  "rsect sec m =
     (case seek sec of
       None \<Rightarrow> Inl (Panic ''lseek'')
     | Some i \<Rightarrow> if i < length (img m) then Inr (img m ! i) else Inl (Panic ''read''))"

definition i2b :: "u32 \<Rightarrow> u32" where
  "i2b ino = ino div of_nat IPB + 2"

definition winode :: "u32 \<Rightarrow> dinode \<Rightarrow> mkfs \<Rightarrow> mkfs res" where
  "winode ino ip m =
     bindR (rsect (i2b ino) m) (\<lambda>buf.
     wsect (i2b ino) (put_dinode (64 * (unat ino mod IPB)) ip buf) m)"

definition rinode :: "u32 \<Rightarrow> mkfs \<Rightarrow> dinode res" where
  "rinode ino m =
     bindR (rsect (i2b ino) m) (\<lambda>buf.
     Inr (get_dinode buf (64 * (unat ino mod IPB))))"

definition mk_ialloc :: "u16 \<Rightarrow> mkfs \<Rightarrow> (u32 \<times> mkfs) res" where
  "mk_ialloc type m =
     (let ino = freeinode m; m = m\<lparr>freeinode := freeinode m + 1\<rparr>;
          din = \<lparr>dtype = xshort type, dmajor = 0, dminor = 0, dnlink = xshort 1, dsize = xint 0,
                 daddrs = replicate (NDIRECT + 1) 0\<rparr> in
      bindR (winode ino din m) (\<lambda>m. Inr (ino, m)))"

text \<open>The bitmap: the bits of the first \<open>used\<close> blocks set one after the other.\<close>

definition set_bits :: "nat \<Rightarrow> u8 list" where
  "set_bits used = fold (\<lambda>i buf. buf[i div 8 := buf ! (i div 8) OR mask i]) [0..<used] (replicate 512 0)"

definition mk_balloc :: "u32 \<Rightarrow> mkfs \<Rightarrow> mkfs res" where
  "mk_balloc used m =
     (if \<not> sint used < 512 then Inl (Panic ''assert'')
      else wsect (ninodes0 div of_nat IPB + 3) (set_bits (nat (sint used))) m)"

section \<open>Appending to a file\<close>

definition next_block :: "mkfs \<Rightarrow> u32 \<times> mkfs" where
  "next_block m = (xint (freeblock m), m\<lparr>freeblock := freeblock m + 1, usedblocks := usedblocks m + 1\<rparr>)"

text \<open>The sector of block \<open>fbn\<close> of the file, allocated when it is missing.\<close>

definition append_block :: "u32 \<Rightarrow> dinode \<Rightarrow> mkfs \<Rightarrow> (u32 \<times> dinode \<times> mkfs) res" where
  "append_block fbn din m =
     (if unat fbn < NDIRECT
      then let (din, m) = (if xint (daddrs din ! unat fbn) = 0
             then let (b, m) = next_block m in (din\<lparr>daddrs := (daddrs din)[unat fbn := b]\<rparr>, m)
             else (din, m)) in
        Inr (xint (daddrs din ! unat fbn), din, m)
      else let (din, m) = (if xint (daddrs din ! NDIRECT) = 0
             then let (b, m) = next_block m in (din\<lparr>daddrs := (daddrs din)[NDIRECT := b]\<rparr>, m)
             else (din, m)); k = 4 * (unat fbn - NDIRECT) in
        bindR (rsect (xint (daddrs din ! NDIRECT)) m) (\<lambda>indirect.
        if get32 indirect k = 0
        then let (b, m) = next_block m; indirect = put32 k b indirect in
          bindR (wsect (xint (daddrs din ! NDIRECT)) indirect m) (\<lambda>m.
          Inr (xint (get32 indirect k), din, m))
        else Inr (xint (get32 indirect k), din, m)))"

definition append_len :: "u32 \<Rightarrow> u8 list \<Rightarrow> nat" where
  "append_len off p = min (length p) (unat ((off div 512 + 1) * 512 - off))"

lemma unat_append_len: "unat ((off div 512 + 1) * 512 - off) = 512 - unat off mod 512" for off :: u32
proof -
  have "(off div 512 + 1) * 512 - (off div 512 * 512 + off mod 512) = 512 - off mod 512" by (simp add: distrib_right)
  then have e: "(off div 512 + 1) * 512 - off = 512 - off mod 512" by (simp only: word_mod_div_equality)
  have m: "unat (off mod 512) = unat off mod 512" by (simp add: unat_mod)
  then have "off mod 512 \<le> 512" by (simp add: word_le_nat_alt less_imp_le)
  then show ?thesis unfolding e using m by (simp add: unat_sub)
qed

lemma append_len_nat: "append_len off p = min (length p) (512 - unat off mod 512)"
  by (simp only: append_len_def unat_append_len)

function iappend_loop :: "u8 list \<Rightarrow> u32 \<Rightarrow> dinode \<Rightarrow> mkfs \<Rightarrow> (u32 \<times> dinode \<times> mkfs) res" where
  "iappend_loop p off din m =
     (if p = [] then Inr (off, din, m)
      else let fbn = off div 512 in
        if \<not> unat fbn < MAXFILE then Inl (Panic ''assert'')
        else bindR (append_block fbn din m) (\<lambda>(x, din, m).
          let n1 = append_len off p in
          bindR (rsect x m) (\<lambda>buf.
          bindR (wsect x (splice (unat (off - fbn * 512)) (take n1 p) buf) m) (\<lambda>m.
          iappend_loop (drop n1 p) (off + of_nat n1) din m))))"
  by pat_completeness auto
termination
  by (relation "measure (\<lambda>(p, off, din, m). length p)") (auto simp: append_len_nat)

declare iappend_loop.simps [simp del]

definition iappend :: "u32 \<Rightarrow> u8 list \<Rightarrow> mkfs \<Rightarrow> mkfs res" where
  "iappend ino p m =
     bindR (rinode ino m) (\<lambda>din.
     bindR (iappend_loop p (xint (dsize din)) din m) (\<lambda>(off, din, m).
     winode ino (din\<lparr>dsize := xint off\<rparr>) m))"

section \<open>The main program\<close>

text \<open>
  The host: \<open>creat\<close> says whether the image file can be created, \<open>host\<close> gives the results of the successive
  \<^verbatim>\<open>read\<close> calls on a file, if it can be opened. \<^verbatim>\<open>wsect(1, &sb)\<close> writes 512 bytes from a structure of 12:
  \<open>after\<close> is what follows it in memory.
\<close>

definition sb_sector :: "u8 list \<Rightarrow> u8 list" where
  "sb_sector after = take 512 (put32 0 (xint size0) (put32 4 (xint nblocks0) (put32 8 (xint ninodes0) (replicate 12 0))) @ after)"

fun zero_sectors :: "nat \<Rightarrow> nat \<Rightarrow> mkfs \<Rightarrow> mkfs res" where
  "zero_sectors i 0 m = Inr m"
| "zero_sectors i (Suc n) m = bindR (wsect (of_nat i) (replicate 512 0) m) (\<lambda>m. zero_sectors (Suc i) n m)"

fun append_all :: "u32 \<Rightarrow> u8 list list \<Rightarrow> mkfs \<Rightarrow> mkfs res" where
  "append_all ino [] m = Inr m"
| "append_all ino (b # bs) m = bindR (iappend ino b m) (\<lambda>m. append_all ino bs m)"

definition file_name :: "u8 list \<Rightarrow> u8 list" where
  "file_name a = (if a \<noteq> [] \<and> hd a = 0x5f then tl a else a)"

fun add_files :: "(u8 list \<rightharpoonup> u8 list list) \<Rightarrow> u32 \<Rightarrow> u8 list list \<Rightarrow> mkfs \<Rightarrow> mkfs res" where
  "add_files host rootino [] m = Inr m"
| "add_files host rootino (a # as) m =
     (if SLASH \<in> set a then Inl (Panic ''assert'')
      else case host a of
        None \<Rightarrow> Inl (Panic ''open'')
      | Some reads \<Rightarrow>
          bindR (mk_ialloc T_FILE m) (\<lambda>(ino, m).
          bindR (iappend rootino (dirent_bytes (xshort (ucast ino)) (file_name a)) m) (\<lambda>m.
          bindR (append_all ino reads m) (\<lambda>m.
          add_files host rootino as m))))"

definition fix_root :: "u32 \<Rightarrow> mkfs \<Rightarrow> mkfs res" where
  "fix_root rootino m =
     bindR (rinode rootino m) (\<lambda>din.
     let off = xint (dsize din); off = (off div of_nat BSIZE + 1) * of_nat BSIZE in
     winode rootino (din\<lparr>dsize := xint off\<rparr>) m)"

definition mkfs_main ::
  "(u8 list \<Rightarrow> bool) \<Rightarrow> (u8 list \<rightharpoonup> u8 list list) \<Rightarrow> u8 list \<Rightarrow> u8 list list \<Rightarrow> mkfs res" where
  "mkfs_main creat host after argv =
     (if length argv < 2 then Inl (Panic ''Usage: mkfs fs.img files...'')
      else if \<not> creat (argv ! 1) then Inl (Panic ''open'')
      else let bitblocks = size0 div (512 * 8) + 1; used = ninodes0 div of_nat IPB + 3 + bitblocks;
               m = \<lparr>img = [], freeblock = used, usedblocks = used, freeinode = 1\<rparr> in
        if nblocks0 + used \<noteq> size0 then Inl (Panic ''assert'')
        else bindR (zero_sectors 0 (unat (nblocks0 + used)) m) (\<lambda>m.
          bindR (wsect 1 (sb_sector after) m) (\<lambda>m.
          bindR (mk_ialloc T_DIR m) (\<lambda>(rootino, m).
          if rootino \<noteq> ROOTINO then Inl (Panic ''assert'')
          else bindR (iappend rootino (dirent_bytes (xshort (ucast rootino)) [0x2e]) m) (\<lambda>m.
            bindR (iappend rootino (dirent_bytes (xshort (ucast rootino)) [0x2e, 0x2e]) m) (\<lambda>m.
            bindR (add_files host rootino (drop 2 argv) m) (\<lambda>m.
            bindR (fix_root rootino m) (\<lambda>m.
            mk_balloc (usedblocks m) m))))))))"

end
