(* ===== verification/Mkfs_Image.thy ===== *)
theory Mkfs_Image
  imports Mkfs Fs_Icache
begin

text \<open>
  What \<^verbatim>\<open>mkfs\<close> builds, seen with the kernel's eyes. While \<^verbatim>\<open>mkfs\<close> runs, its image together with the bitmap it
  will write at the end is a well-formed disk in the sense of \<open>Fs_Write\<close>; \<^verbatim>\<open>iappend\<close> then does to it what
  \<^verbatim>\<open>writei\<close> at the end of a file does, so the lemmas on growing files apply.
\<close>

section \<open>Sectors\<close>

lemma xint_id [simp]: "xint x = x"
  by (simp add: xint_def)

lemma xshort_id [simp]: "xshort x = x"
  by (simp add: xshort_def)

abbreviation zeroes :: "u8 list" where "zeroes \<equiv> replicate 512 0"

definition disk_of :: "u8 list list \<Rightarrow> u32 \<Rightarrow> u8 list" where
  "disk_of xs sec = (if unat sec < length xs then xs ! unat sec else zeroes)"

definition img_ok :: "u8 list list \<Rightarrow> bool" where
  "img_ok xs \<longleftrightarrow> length xs = 1024 \<and> (\<forall>x\<in>set xs. length x = 512)"

lemma seek_run: "unat sec \<le> 1024 \<Longrightarrow> seek sec = Some (unat sec)"
proof -
  assume a: "unat sec \<le> 1024"
  then have "unat (sec * 512) = unat sec * 512" by (simp add: unat_word_ariths)
  then show ?thesis using a by (simp add: seek_def word_less_nat_alt)
qed

lemma rsect_run:
  assumes "img_ok (img m)" "unat sec < 1024"
  shows "rsect sec m = Inr (disk_of (img m) sec)"
  using assms by (simp add: rsect_def seek_run disk_of_def img_ok_def)

lemma wsect_run:
  assumes "img_ok (img m)" "unat sec < 1024" "length buf = 512"
  shows "\<exists>xs. wsect sec buf m = Inr (m\<lparr>img := xs\<rparr>) \<and> img_ok xs \<and> disk_of xs = (disk_of (img m))(sec := buf)"
proof -
  have "disk_of ((img m)[unat sec := buf]) = (disk_of (img m))(sec := buf)"
    using assms by (auto simp: disk_of_def fun_eq_iff img_ok_def nth_list_update word_unat_eq_iff)
  moreover have "img_ok ((img m)[unat sec := buf])" using assms by (auto simp: img_ok_def dest!: set_update_subset_insert [THEN subsetD])
  ultimately show ?thesis using assms by (auto simp: wsect_def seek_run put_sector_def img_ok_def)
qed

lemma disk_of_length: "img_ok xs \<Longrightarrow> length (disk_of xs sec) = 512"
  by (auto simp: disk_of_def img_ok_def)

section \<open>The bitmap\<close>

lemma length_set_bits [simp]: "length (set_bits n) = 512"
proof -
  have "length (fold (\<lambda>i buf. buf[i div 8 := buf ! (i div 8) OR mask i]) is buf) = length buf" for "is" and buf :: "u8 list"
    by (induction "is" arbitrary: buf) auto
  then show ?thesis by (simp add: set_bits_def)
qed

lemma set_bits_Suc: "set_bits (Suc n) = (set_bits n)[n div 8 := set_bits n ! (n div 8) OR mask n]"
  by (simp add: set_bits_def)

lemma bit_set_bits: "n \<le> 4096 \<Longrightarrow> b < 4096 \<Longrightarrow> bit (set_bits n ! (b div 8)) (b mod 8) \<longleftrightarrow> b < n"
proof (induction n)
  case 0
  then show ?case by (simp add: set_bits_def less_mult_imp_div_less)
next
  case (Suc n)
  have i: "n div 8 < 512" using Suc.prems by (simp add: less_mult_imp_div_less)
  have "bit (mask n) (b mod 8) \<longleftrightarrow> b mod 8 = n mod 8" by (auto simp: Fs_Block.mask_def bit_simps)
  moreover have "b div 8 = n div 8 \<and> b mod 8 = n mod 8 \<longleftrightarrow> b = n" by (metis div_mult_mod_eq)
  ultimately show ?case using Suc i by (cases "b div 8 = n div 8") (auto simp: set_bits_Suc bit_or_iff less_Suc_eq)
qed

section \<open>The disk under construction\<close>

definition sb0 :: superblock where
  "sb0 = \<lparr>sbsize = 1024, nblocks = 995, ninodes = 200\<rparr>"

text \<open>The image with the bitmap of the blocks taken so far.\<close>

definition vdisk :: "mkfs \<Rightarrow> u32 \<Rightarrow> u8 list" where
  "vdisk m = (disk_of (img m))(28 := set_bits (unat (freeblock m)))"

definition mk_inv :: "mkfs \<Rightarrow> bool" where
  "mk_inv m \<longleftrightarrow> img_ok (img m) \<and> sb_of (disk_of (img m)) = sb0 \<and> usedblocks m = freeblock m \<and>
     29 \<le> unat (freeblock m) \<and> unat (freeblock m) \<le> 1024 \<and> (\<forall>sec. freeblock m \<le> sec \<longrightarrow> disk_of (img m) sec = zeroes)"

lemma bitmap_sector: "unat b < 4096 \<Longrightarrow> BBLOCK b 200 = 28"
  by (rule unat_inj32) (simp add: unat_BBLOCK)

lemma sb_vdisk: "mk_inv m \<Longrightarrow> sb_of (vdisk m) = sb0"
  by (simp add: mk_inv_def vdisk_def sb_of_def)

lemma groups_sb0 [simp]: "groups sb0 = 1"
  by (simp add: groups_def sb0_def)

lemma in_range_sb0 [simp]: "in_range sb0 b \<longleftrightarrow> unat b < 4096"
  by (simp add: in_range_def)

lemma meta_sb0: "b \<in> meta sb0 \<Longrightarrow> unat b < 29"
proof -
  have "unat (IBLOCK n) < 29" if "n < 200" for n
    using that by (simp add: IBLOCK_def IPB_def BSIZE_def unat_word_ariths unat_div word_less_nat_alt)
  moreover have "b = 28" if "b \<in> bitmap_blocks sb0"
    using that bitmap_sector by (auto simp: bitmap_blocks_def sb0_def word_less_nat_alt)
  ultimately show "b \<in> meta sb0 \<Longrightarrow> unat b < 29" by (auto simp: meta_def sb0_def)
qed

lemma marked_vdisk: "mk_inv m \<Longrightarrow> unat b < 4096 \<Longrightarrow> marked (vdisk m) b \<longleftrightarrow> unat b < unat (freeblock m)"
proof -
  assume m: "mk_inv m" and b: "unat b < 4096"
  have "BBLOCK b (ninodes (sb_of (vdisk m))) = 28" using bitmap_sector [OF b] by (simp add: sb_vdisk [OF m] sb0_def)
  then show ?thesis using b m bit_set_bits [of "unat (freeblock m)" "unat b"] by (simp add: marked_def vdisk_def BPB_def BSIZE_def mk_inv_def)
qed

lemma disk_ok_vdisk: "mk_inv m \<Longrightarrow> disk_ok (vdisk m)"
proof -
  assume m: "mk_inv m"
  have "length (vdisk m sec) = 512" for sec using m disk_of_length by (simp add: vdisk_def mk_inv_def)
  moreover have "vdisk m b = zeroes" if "unat b < 4096" "\<not> marked (vdisk m) b" for b
  proof -
    have f: "unat (freeblock m) \<le> unat b" "29 \<le> unat (freeblock m)" using that m marked_vdisk [OF m] by (auto simp: mk_inv_def)
    then have "b \<noteq> 28" by auto
    then show ?thesis using m f(1) by (simp add: vdisk_def mk_inv_def word_le_nat_alt)
  qed
  moreover have "unat b < 4096 \<and> marked (vdisk m) b" if "b \<in> meta sb0" for b
    using meta_sb0 [OF that] m marked_vdisk [OF m, of b] by (simp add: mk_inv_def)
  ultimately show ?thesis unfolding disk_ok_def sb_vdisk [OF m] by simp
qed

lemma free_vdisk: "mk_inv m \<Longrightarrow> free_block (vdisk m) = Some (freeblock m)"
proof -
  assume m: "mk_inv m"
  let ?f = "freeblock m"
  have f: "unat ?f < 4096" "\<not> marked (vdisk m) ?f" using m marked_vdisk [OF m, of ?f] by (auto simp: mk_inv_def)
  then obtain b where b: "free_block (vdisk m) = Some b" using free_block_Some [of "vdisk m" ?f] by (auto simp: sb_vdisk [OF m])
  note d = free_block_SomeD [OF b]
  have "\<not> marked (vdisk m) b" "\<forall>c. unat c < unat b \<longrightarrow> marked (vdisk m) c" "unat b < 4096" using d by (simp_all add: sb_vdisk [OF m])
  then have "unat b = unat ?f" using f marked_vdisk [OF m, of b] marked_vdisk [OF m, of ?f] by (metis linorder_neqE_nat)
  then show ?thesis using b by (simp add: word_unat_eq_iff)
qed

lemma pick_vdisk: "mk_inv m \<Longrightarrow> picks bitmap_size (vdisk m) (freeblock m)"
  by (rule picks_full) (simp_all add: free_vdisk sb_vdisk)

text \<open>The inode number counter and the inode blocks are untouched.\<close>

definition keep :: "mkfs \<Rightarrow> mkfs \<Rightarrow> bool" where
  "keep m m' \<longleftrightarrow> freeinode m' = freeinode m \<and> (\<forall>sec\<in>meta sb0. sec \<noteq> 28 \<longrightarrow> vdisk m' sec = vdisk m sec)"

lemma keep_refl [simp]: "keep m m"
  by (simp add: keep_def)

lemma keep_trans: "keep m m' \<Longrightarrow> keep m' m'' \<Longrightarrow> keep m m''"
  by (simp add: keep_def)

text \<open>Taking the next block marks it.\<close>

lemma next_block_run:
  assumes m: "mk_inv m" "unat (freeblock m) < 1024"
  shows "\<exists>m'. next_block m = (freeblock m, m') \<and> mk_inv m' \<and> vdisk m' = mark (freeblock m) True (vdisk m) \<and>
    unat (freeblock m') = Suc (unat (freeblock m)) \<and> keep m m'"
proof -
  let ?f = "freeblock m" and ?m = "m\<lparr>freeblock := freeblock m + 1, usedblocks := usedblocks m + 1\<rparr>"
  have s: "unat (?f + 1) = Suc (unat ?f)" using m(2) by (simp add: unat_word_ariths)
  have "mk_inv ?m" using m s by (auto simp: mk_inv_def word_le_nat_alt)
  moreover have "BBLOCK ?f 200 = 28" using m(2) by (intro bitmap_sector) simp
  then have "mark ?f True (vdisk m) = vdisk ?m"
    using m(2) by (simp add: mark_def sb_vdisk [OF m(1)] sb0_def Let_def) (simp add: vdisk_def s set_bits_Suc BPB_def BSIZE_def)
  ultimately show ?thesis using s by (intro exI [of _ ?m]) (simp add: next_block_def keep_def vdisk_def)
qed

section \<open>Finding the block to append to\<close>

definition fresh :: "(u32 \<Rightarrow> u8 list) \<Rightarrow> inode \<Rightarrow> nat \<Rightarrow> nat" where
  "fresh D ip k = (if block_addr D ip k \<noteq> 0 then 0 else if 12 \<le> k \<and> addrs ip ! 12 = 0 then 2 else 1)"

text \<open>Sectors of the image that belong to a file.\<close>

lemma data_sector: "mk_inv m \<Longrightarrow> data_block (vdisk m) a \<Longrightarrow> unat a < 1024 \<and> a \<noteq> 28 \<and> a \<noteq> 1 \<and> vdisk m a = disk_of (img m) a"
proof -
  assume m: "mk_inv m" and a: "data_block (vdisk m) a"
  then have r: "unat a < 4096" "marked (vdisk m) a" "a \<notin> meta sb0" by (simp_all add: data_block_def sb_vdisk)
  have "28 \<in> meta sb0" "1 \<in> meta sb0" using bitmap_sector [of 0] by (auto simp: meta_def bitmap_blocks_def sb0_def intro!: exI [of _ 0])
  then have "a \<noteq> 28" "a \<noteq> 1" using r(3) by auto
  moreover have "unat a < 1024" using r marked_vdisk [OF m r(1)] m by (simp add: mk_inv_def)
  ultimately show ?thesis by (simp add: vdisk_def)
qed

lemma wsect_data:
  assumes m: "mk_inv m" and a: "data_block (vdisk m) a" and l: "length buf = 512"
  shows "\<exists>m'. wsect a buf m = Inr m' \<and> mk_inv m' \<and> vdisk m' = (vdisk m)(a := buf) \<and> freeblock m' = freeblock m \<and> keep m m'"
proof -
  note d = data_sector [OF m a]
  have "unat a < unat (freeblock m)" using a marked_vdisk [OF m, of a] d by (simp add: data_block_def)
  moreover obtain xs where x: "wsect a buf m = Inr (m\<lparr>img := xs\<rparr>)" "img_ok xs" "disk_of xs = (disk_of (img m))(a := buf)"
    using wsect_run [of m a buf] m d l by (auto simp: mk_inv_def)
  moreover have "sb_of ((disk_of (img m))(a := buf)) = sb_of (disk_of (img m))" using d by (intro sb_of_upd) auto
  ultimately have "mk_inv (m\<lparr>img := xs\<rparr>)" using m by (auto simp: mk_inv_def word_le_nat_alt)
  moreover have "a \<notin> meta sb0" using a by (simp add: data_block_def sb_vdisk [OF m])
  ultimately show ?thesis using x d by (intro exI [of _ "m\<lparr>img := xs\<rparr>"]) (auto simp: vdisk_def keep_def fun_upd_twist)
qed

lemma append_block_run:
  assumes m: "mk_inv m" and ok: "file_ok (vdisk m) ip" and a: "daddrs din = addrs ip" and k: "unat fbn = k" "k < 140"
    and room: "unat (freeblock m) + fresh (vdisk m) ip k \<le> 1024"
  shows "\<exists>as m'. append_block fbn din m = Inr (block_addr (vdisk m') (ip\<lparr>addrs := as\<rparr>) k, din\<lparr>daddrs := as\<rparr>, m') \<and> mk_inv m' \<and>
    grown bitmap_size (vdisk m) ip k (vdisk m') (ip\<lparr>addrs := as\<rparr>) \<and> unat (freeblock m') = unat (freeblock m) + fresh (vdisk m) ip k \<and>
    keep m m' \<and> (as ! 12 \<noteq> 0 \<longleftrightarrow> addrs ip ! 12 \<noteq> 0 \<or> 12 \<le> k) \<and>
    (block_addr (vdisk m) ip k = 0 \<longrightarrow> vdisk m' (block_addr (vdisk m') (ip\<lparr>addrs := as\<rparr>) k) = zeroes)"
proof -
  let ?D = "vdisk m"
  have d: "disk_ok ?D" by (rule disk_ok_vdisk [OF m])
  have len: "length (addrs ip) = 13" "\<And>sec. length (?D sec) = 512" using ok d by (auto simp: file_ok_def disk_ok_def)
  have same: "ip\<lparr>addrs := addrs ip\<rparr> = ip" "din\<lparr>daddrs := addrs ip\<rparr> = din" unfolding a [symmetric] by (simp_all add: a)
  note free = pick_vdisk [OF m]
  consider (old) "block_addr ?D ip k \<noteq> 0" "k < 12" | (direct) "block_addr ?D ip k = 0" "k < 12"
    | (ind) "12 \<le> k" "addrs ip ! 12 \<noteq> 0" | (root) "12 \<le> k" "addrs ip ! 12 = 0" by linarith
  then show ?thesis
  proof cases
    case old
    have "grown bitmap_size ?D ip k ?D (ip\<lparr>addrs := addrs ip\<rparr>)" unfolding same(1) by (rule grown_mapped [OF d ok old(1)])
    then show ?thesis using old m a k
      by (intro exI [of _ "addrs ip"] exI [of _ m]) (simp add: append_block_def block_addr_def file_sizes fresh_def)
  next
    case direct
    then obtain m' where n: "next_block m = (freeblock m, m')" "mk_inv m'" "vdisk m' = mark (freeblock m) True ?D"
      "unat (freeblock m') = Suc (unat (freeblock m))" "keep m m'"
      using next_block_run [OF m] room by (auto simp: fresh_def)
    let ?as = "(addrs ip)[k := freeblock m]"
    have "append_block fbn din m = Inr (freeblock m, din\<lparr>daddrs := ?as\<rparr>, m')"
      using direct a k len n(1) by (simp add: append_block_def block_addr_def file_sizes)
    moreover have "block_addr (vdisk m') (ip\<lparr>addrs := ?as\<rparr>) k = freeblock m" using direct(2) len(1) a by (simp add: block_addr_def file_sizes)
    ultimately show ?thesis using n grown_direct [OF d ok free direct(2,1)] direct a k alloc_block(6) [OF d free]
      by (intro exI [of _ ?as] exI [of _ m']) (simp add: fresh_def)
  next
    case ind
    let ?i = "addrs ip ! 12"
    have db: "data_block ?D ?i" using ok ind(2) by (simp add: file_ok_def)
    note ds = data_sector [OF m db]
    have rs: "rsect ?i m = Inr (?D ?i)" using rsect_run [of m ?i] m ds by (simp add: mk_inv_def)
    have e: "block_addr ?D ip k = get32 (?D ?i) (4 * (k - 12))" using ind k by (simp add: block_addr_def file_sizes)
    show ?thesis
    proof (cases "block_addr ?D ip k = 0")
      case False
      then show ?thesis using grown_mapped [OF d ok False] m a k same ind rs e
        by (intro exI [of _ "addrs ip"] exI [of _ m]) (simp add: append_block_def file_sizes fresh_def)
    next
      case True
      then obtain m1 where n: "next_block m = (freeblock m, m1)" "mk_inv m1" "vdisk m1 = mark (freeblock m) True ?D"
        "unat (freeblock m1) = Suc (unat (freeblock m))" "keep m m1"
        using next_block_run [OF m] room ind by (auto simp: fresh_def)
      let ?d = "put32 (4 * (k - 12)) (freeblock m) (?D ?i)"
      have "data_block (vdisk m1) ?i" using alloc_block(8) [OF d free db] n(3) by simp
      then obtain m2 where w: "wsect ?i ?d m1 = Inr m2" "mk_inv m2" "vdisk m2 = (vdisk m1)(?i := ?d)" "freeblock m2 = freeblock m1" "keep m1 m2"
        using wsect_data [OF n(2), of ?i ?d] len by auto
      have g: "grown bitmap_size ?D ip k (vdisk m2) ip" using grown_entry [OF d ok free ind(1) k(2) ind(2) True] w(3) n(3) by simp
      have k4: "4 * (k - 12) + 4 \<le> 512" using ind(1) k(2) by linarith
      have gb: "get32 ?d (4 * (k - 12)) = freeblock m" using k4 len(2) by (simp add: layout)
      have "block_addr (vdisk m2) ip k = freeblock m" using ind k gb w(3) by (simp add: block_addr_def file_sizes)
      moreover have "vdisk m2 (freeblock m) = zeroes" using alloc_block(6) [OF d free] alloc_block(8) [OF d free db] w(3) n(3) by auto
      moreover have "append_block fbn din m = Inr (freeblock m, din, m2)"
        using ind a k rs True e n(1) w(1) gb by (simp add: append_block_def file_sizes Let_def)
      ultimately show ?thesis using g w n True ind same a keep_trans [OF n(5) w(5)]
        by (intro exI [of _ "addrs ip"] exI [of _ m2]) (simp add: fresh_def)
    qed
  next
    case root
    then have z: "block_addr ?D ip k = 0" using k by (simp add: block_addr_def file_sizes)
    then obtain m1 where n: "next_block m = (freeblock m, m1)" "mk_inv m1" "vdisk m1 = mark (freeblock m) True ?D"
      "unat (freeblock m1) = Suc (unat (freeblock m))" "keep m m1"
      using next_block_run [OF m] room root by (auto simp: fresh_def)
    let ?i = "freeblock m"
    let ?as = "(addrs ip)[12 := ?i]"
    let ?ip = "ip\<lparr>addrs := ?as\<rparr>"
    note ra = root_alloc [OF d ok free root(2)] and al = alloc_block [OF d free]
    have d1: "disk_ok (vdisk m1)" "file_ok (vdisk m1) ?ip" "block_addr (vdisk m1) ?ip k = 0" using ra n(3) a z by simp_all
    have a12: "addrs ?ip ! 12 = ?i" "?i \<noteq> 0" using len a al(4) by auto
    have db: "data_block (vdisk m1) ?i" using al(2) n(3) by simp
    have ds: "unat ?i < 1024" "vdisk m1 ?i = disk_of (img m1) ?i" using data_sector [OF n(2) db] by auto
    have rs: "rsect ?i m1 = Inr zeroes" using rsect_run [of m1 ?i] n(2,3) ds al(6) by (simp add: mk_inv_def)
    obtain m2 where n2: "next_block m1 = (freeblock m1, m2)" "mk_inv m2" "vdisk m2 = mark (freeblock m1) True (vdisk m1)"
      "unat (freeblock m2) = Suc (unat (freeblock m1))" "keep m1 m2"
      using next_block_run [OF n(2)] n(4) room z root by (auto simp: fresh_def)
    let ?d = "put32 (4 * (k - 12)) (freeblock m1) zeroes"
    have "data_block (vdisk m2) ?i" using alloc_block(8) [OF d1(1) pick_vdisk [OF n(2)] db] n2(3) by simp
    then obtain m3 where w: "wsect ?i ?d m2 = Inr m3" "mk_inv m3" "vdisk m3 = (vdisk m2)(?i := ?d)" "freeblock m3 = freeblock m2" "keep m2 m3"
      using wsect_data [OF n2(2), of ?i ?d] by auto
    have k4: "4 * (k - 12) + 4 \<le> 512" using root(1) k(2) by linarith
    have gz: "get32 zeroes (4 * (k - 12)) = 0" "get32 ?d (4 * (k - 12)) = freeblock m1" using k4 by (simp_all add: layout)
    have "grown bitmap_size (vdisk m1) ?ip k (vdisk m3) ?ip"
      using grown_entry [OF d1(1,2) pick_vdisk [OF n(2)] root(1) k(2) _ d1(3)] a12 w(3) n2(3) al(6) n(3) by simp
    then have g: "grown bitmap_size ?D ip k (vdisk m3) ?ip" using grown_root [OF d ok free root(2) z] n(3) a by simp
    have "block_addr (vdisk m3) ?ip k = freeblock m1" using root k gz(2) w(3) a12 by (simp add: block_addr_def file_sizes)
    moreover have "vdisk m3 (freeblock m1) = zeroes"
      using alloc_block(6) [OF d1(1) pick_vdisk [OF n(2)]] alloc_block(8) [OF d1(1) pick_vdisk [OF n(2)] db] w(3) n2(3) by auto
    moreover have "append_block fbn din m = Inr (freeblock m1, din\<lparr>daddrs := ?as\<rparr>, m3)"
      using root a k len rs n(1) n2(1) w(1) gz by (simp add: append_block_def file_sizes Let_def)
    ultimately show ?thesis using g w n n2 z root a12 keep_trans [OF keep_trans [OF n(5) n2(5)] w(5)]
      by (intro exI [of _ ?as] exI [of _ m3]) (simp add: fresh_def)
  qed
qed

section \<open>Appending\<close>

text \<open>
  A file of \<open>L\<close> bytes built by appending: its blocks are the first \<open>nb L\<close>, and it has an indirect block as soon
  as it needs one.
\<close>

definition blocks_of :: "nat \<Rightarrow> nat" where
  "blocks_of L = nb L + (if 12 < nb L then 1 else 0)"

definition mapped :: "(u32 \<Rightarrow> u8 list) \<Rightarrow> inode \<Rightarrow> nat \<Rightarrow> bool" where
  "mapped D ip L \<longleftrightarrow> (\<forall>k. block_addr D ip k \<noteq> 0 \<longleftrightarrow> k < nb L) \<and> (addrs ip ! 12 \<noteq> 0 \<longleftrightarrow> 12 < nb L)"

text \<open>The rest of its last block is zero.\<close>

definition clean :: "(u32 \<Rightarrow> u8 list) \<Rightarrow> inode \<Rightarrow> nat \<Rightarrow> bool" where
  "clean D ip L \<longleftrightarrow> (\<forall>j. L \<le> j \<and> j < 512 * nb L \<longrightarrow> file_byte D ip j = 0)"

definition compact :: "(u32 \<Rightarrow> u8 list) \<Rightarrow> inode \<Rightarrow> nat \<Rightarrow> bool" where
  "compact D ip L \<longleftrightarrow> mapped D ip L \<and> clean D ip L"

lemma nb_step:
  assumes "0 < n" "n \<le> 512 - L mod 512"
  shows "nb (L + n) = Suc (L div 512)" "nb L = (if L mod 512 = 0 then L div 512 else Suc (L div 512))"
proof -
  define k r where "k = L div 512" and "r = L mod 512"
  have r: "r < 512" and e: "L = 512 * k + r" by (simp_all add: k_def r_def)
  have n: "n \<le> 512 - r" using assms(2) by (simp add: r_def)
  have "L + n + 511 = 512 * Suc k + (r + n - 1)" using assms(1) e by simp
  moreover have "r + n - 1 < 512" using n r by linarith
  ultimately have "nb (L + n) = Suc k" unfolding nb_def by simp
  then show "nb (L + n) = Suc (L div 512)" by (simp add: k_def)
  have "nb L = (if r = 0 then k else Suc k)"
  proof (cases r)
    case (Suc q)
    then have "L + 511 = 512 * Suc k + q" "q < 512" using e r by simp_all
    then show ?thesis using Suc unfolding nb_def by simp
  qed (use e in \<open>simp add: nb_def\<close>)
  then show "nb L = (if L mod 512 = 0 then L div 512 else Suc (L div 512))" by (simp add: k_def r_def)
qed

lemma fresh_count:
  assumes "mapped D ip L" "0 < n" "n \<le> 512 - L mod 512"
  shows "blocks_of (L + n) = blocks_of L + fresh D ip (L div 512)"
proof -
  note nb = nb_step [OF assms(2,3)]
  have "block_addr D ip j \<noteq> 0 \<longleftrightarrow> j < nb L" "addrs ip ! 12 \<noteq> 0 \<longleftrightarrow> 12 < nb L" for j using assms(1) by (auto simp: mapped_def)
  then show ?thesis unfolding blocks_of_def nb(1) fresh_def by (cases "L mod 512 = 0") (auto simp: nb(2))
qed

lemma mapped_step:
  assumes c: "mapped D ip L" and g: "grown bitmap_size D ip (L div 512) D' ip'"
    and i: "addrs ip' ! 12 \<noteq> 0 \<longleftrightarrow> addrs ip ! 12 \<noteq> 0 \<or> 12 \<le> L div 512" and n: "0 < n" "n \<le> 512 - L mod 512"
  shows "mapped D' ip' (L + n)"
proof -
  let ?k = "L div 512"
  note nb = nb_step [OF n]
  have ba: "block_addr D ip j \<noteq> 0 \<longleftrightarrow> j < nb L" for j using c by (simp add: mapped_def)
  have i0: "addrs ip ! 12 \<noteq> 0 \<longleftrightarrow> 12 < nb L" using c by (simp add: mapped_def)
  obtain b where b: "b \<noteq> 0" "block_addr D' ip' = (block_addr D ip)(?k := b)" using g unfolding grown_def by blast
  have "block_addr D' ip' j \<noteq> 0 \<longleftrightarrow> j < Suc ?k" for j using ba [of j] b nb(2) by (auto split: if_splits)
  moreover have "addrs ip' ! 12 \<noteq> 0 \<longleftrightarrow> 12 < Suc ?k" using i i0 nb(2) by (auto split: if_splits)
  ultimately show ?thesis unfolding mapped_def nb(1) by simp
qed

lemma blocks_of_mono: "L \<le> L' \<Longrightarrow> blocks_of L \<le> blocks_of L'"
proof -
  assume "L \<le> L'"
  then have "nb L \<le> nb L'" by (simp add: nb_def div_le_mono)
  then show ?thesis by (simp add: blocks_of_def)
qed

lemma mapped_data:
  assumes "mapped D ip L" "file_ok D ip"
  shows "mapped (D(block_addr D ip k := d)) ip L"
proof (cases "block_addr D ip k = 0")
  case True
  have "block_addr (D(0 := d)) ip = block_addr D ip" by (intro block_addr_cong) auto
  then show ?thesis using assms(1) True by (simp add: mapped_def)
next
  case False
  then have "block_addr (D(block_addr D ip k := d)) ip = block_addr D ip"
    using assms(2) unfolding file_ok_def by (intro block_addr_cong) auto
  then show ?thesis using assms(1) by (simp add: mapped_def)
qed

lemma clean_step:
  assumes c: "compact D ip L" and w: "wrote bitmap_size D ip L ys D' ip'" and n: "0 < length ys" "length ys \<le> 512 - L mod 512"
    and z: "block_addr D ip (L div 512) = 0 \<Longrightarrow> D' (block_addr D' ip' (L div 512)) = splice 0 ys zeroes"
  shows "clean D' ip' (L + length ys)"
  unfolding clean_def
proof (intro allI impI)
  let ?k = "L div 512"
  note nb = nb_step [OF n]
  have ba: "block_addr D ip ?k \<noteq> 0 \<longleftrightarrow> ?k < nb L" using c by (simp add: compact_def mapped_def)
  fix j assume j: "L + length ys \<le> j \<and> j < 512 * nb (L + length ys)"
  then have jk: "L \<le> j" "j < 512 * Suc ?k" using nb(1) by auto
  have "512 * ?k \<le> j" using jk(1) by (meson order_trans times_div_less_eq_dividend)
  then have k: "j div 512 = ?k" using jk(2) by (intro div_nat_eqI) auto
  show "file_byte D' ip' j = 0"
  proof (cases "L mod 512 = 0")
    case True
    then have "block_addr D ip ?k = 0" using ba nb(2) by simp
    moreover have "j mod 512 = j - L" "j - L < 512" using True k jk div_mult_mod_eq [of j 512] div_mult_mod_eq [of L 512] by linarith+
    ultimately show ?thesis using z k j n by (simp add: file_byte_def file_sizes nth_splice) (auto simp: splice_def nth_append)
  next
    case False
    then have "block_addr D ip ?k \<noteq> 0" "j < 512 * nb L" using ba nb(2) jk by simp_all
    then have "file_byte D ip j = 0" "file_byte D' ip' j = file_byte D ip j" using c w j jk k unfolding compact_def clean_def wrote_def by auto
    then show ?thesis by simp
  qed
qed

lemma iappend_loop_run:
  assumes "mk_inv m" "file_ok (vdisk m) ip" "daddrs din = addrs ip" "compact (vdisk m) ip (unat off)" "unat off + length p \<le> 71680"
    "unat (freeblock m) + blocks_of (unat off + length p) \<le> 1024 + blocks_of (unat off)"
  shows "\<exists>as m'. iappend_loop p off din m = Inr (off + of_nat (length p), din\<lparr>daddrs := as\<rparr>, m') \<and> mk_inv m' \<and>
    wrote bitmap_size (vdisk m) ip (unat off) p (vdisk m') (ip\<lparr>addrs := as\<rparr>) \<and> compact (vdisk m') (ip\<lparr>addrs := as\<rparr>) (unat off + length p) \<and>
    unat (freeblock m') + blocks_of (unat off) = unat (freeblock m) + blocks_of (unat off + length p) \<and> keep m m'"
  using assms
proof (induction "length p" arbitrary: p off din ip m rule: less_induct)
  case less
  let ?D = "vdisk m" and ?o = "unat off"
  have d: "disk_ok ?D" by (rule disk_ok_vdisk [OF less.prems(1)])
  show ?case
  proof (cases "p = []")
    case True
    have "din\<lparr>daddrs := addrs ip\<rparr> = din" unfolding less.prems(3) [symmetric] by simp
    moreover have "ip\<lparr>addrs := addrs ip\<rparr> = ip" by simp
    ultimately show ?thesis using True less.prems wrote_nothing [OF d less.prems(2)]
      by (intro exI [of _ "addrs ip"] exI [of _ m]) (simp add: iappend_loop.simps)
  next
    case False
    have mp: "mapped ?D ip ?o" using less.prems(4) by (simp add: compact_def)
    define n where "n = append_len off p"
    have n: "0 < n" "n \<le> length p" "n \<le> 512 - ?o mod 512" using False by (auto simp: n_def append_len_nat)
    have k: "unat (off div 512) = ?o div 512" "?o div 512 < 140"
      using less.prems(5) False by (simp add: unat_div, intro less_mult_imp_div_less) (cases p, auto)
    have fr: "blocks_of (?o + n) = blocks_of ?o + fresh ?D ip (?o div 512)" "blocks_of (?o + n) \<le> blocks_of (?o + length p)"
      using fresh_count [OF mp n(1,3)] blocks_of_mono [of "?o + n" "?o + length p"] n(2) by simp_all
    then obtain as m1 where 1: "append_block (off div 512) din m = Inr (block_addr (vdisk m1) (ip\<lparr>addrs := as\<rparr>) (?o div 512), din\<lparr>daddrs := as\<rparr>, m1)"
      "mk_inv m1" "grown bitmap_size ?D ip (?o div 512) (vdisk m1) (ip\<lparr>addrs := as\<rparr>)" "unat (freeblock m1) = unat (freeblock m) + fresh ?D ip (?o div 512)"
      "keep m m1" "as ! 12 \<noteq> 0 \<longleftrightarrow> addrs ip ! 12 \<noteq> 0 \<or> 12 \<le> ?o div 512"
      "block_addr ?D ip (?o div 512) = 0 \<longrightarrow> vdisk m1 (block_addr (vdisk m1) (ip\<lparr>addrs := as\<rparr>) (?o div 512)) = zeroes"
      using append_block_run [OF less.prems(1-3) k] less.prems(6) by auto
    let ?ip = "ip\<lparr>addrs := as\<rparr>"
    let ?x = "block_addr (vdisk m1) ?ip (?o div 512)"
    have ok1: "file_ok (vdisk m1) ?ip" "?x \<noteq> 0" using grownD [OF 1(3)] by blast+
    then have db: "data_block (vdisk m1) ?x" unfolding file_ok_def by blast
    have rs: "rsect ?x m1 = Inr (vdisk m1 ?x)" using rsect_run [of m1 ?x] data_sector [OF 1(2) db] 1(2) by (simp add: mk_inv_def)
    have lx: "length (vdisk m1 ?x) = 512" using disk_ok_vdisk [OF 1(2)] by (simp add: disk_ok_def)
    let ?b = "splice (?o mod 512) (take n p) (vdisk m1 ?x)"
    have fit: "?o mod 512 + length (take n p) \<le> 512" "take n p \<noteq> []" using n by auto
    then obtain m2 where w: "wsect ?x ?b m1 = Inr m2" "mk_inv m2" "vdisk m2 = (vdisk m1)(?x := ?b)" "freeblock m2 = freeblock m1" "keep m1 m2"
      using wsect_data [OF 1(2) db, of ?b] lx by auto
    have off': "unat (off + of_nat n) = ?o + n" using n less.prems(5) by (intro unat_ptr_add) simp
    have od: "unat (off - off div 512 * 512) = ?o mod 512"
    proof -
      have "off div 512 * 512 + off mod 512 - off div 512 * 512 = off mod 512" by simp
      then have "off - off div 512 * 512 = off mod 512" by (simp only: word_mod_div_equality)
      then show ?thesis by (simp add: unat_mod)
    qed
    have wr: "wrote bitmap_size ?D ip ?o (take n p) (vdisk m2) ?ip"
      using wrote_block [OF 1(3) d less.prems(2) refl fit] w(3) by simp
    have c2: "compact (vdisk m2) ?ip (?o + n)"
    proof -
      have ba2: "block_addr (vdisk m2) ?ip = block_addr (vdisk m1) ?ip"
        unfolding w(3) using ok1 unfolding file_ok_def by (intro block_addr_cong) auto
      have "?o mod 512 = 0" if "block_addr ?D ip (?o div 512) = 0" using that mp nb_step(2) [OF n(1,3)] by (auto simp: mapped_def split: if_splits)
      then have "clean (vdisk m2) ?ip (?o + length (take n p))"
        using n 1(7) by (intro clean_step [OF less.prems(4) wr]) (auto simp: ba2, simp add: w(3))
      then show ?thesis
        using mapped_data [OF mapped_step [OF mp 1(3) _ n(1,3)] ok1(1)] 1(6) w(3) n(2) by (simp add: compact_def)
    qed
    have ok2: "file_ok (vdisk m2) ?ip" using wr by (simp add: wrote_def)
    have "\<exists>as' m'. iappend_loop (drop n p) (off + of_nat n) (din\<lparr>daddrs := as\<rparr>) m2 = Inr (off + of_nat n + of_nat (length (drop n p)), din\<lparr>daddrs := as\<rparr>\<lparr>daddrs := as'\<rparr>, m') \<and> mk_inv m' \<and>
      wrote bitmap_size (vdisk m2) ?ip (unat (off + of_nat n)) (drop n p) (vdisk m') (?ip\<lparr>addrs := as'\<rparr>) \<and> compact (vdisk m') (?ip\<lparr>addrs := as'\<rparr>) (unat (off + of_nat n) + length (drop n p)) \<and>
      unat (freeblock m') + blocks_of (unat (off + of_nat n)) = unat (freeblock m2) + blocks_of (unat (off + of_nat n) + length (drop n p)) \<and> keep m2 m'"
      using n less.prems(5,6) fr w 1(4) ok2 c2 by (intro less.hyps) (auto simp: off')
    then obtain as' m' where r: "iappend_loop (drop n p) (off + of_nat n) (din\<lparr>daddrs := as\<rparr>) m2 = Inr (off + of_nat (length p), din\<lparr>daddrs := as'\<rparr>, m')"
      "mk_inv m'" "wrote bitmap_size (vdisk m2) ?ip (?o + length (take n p)) (drop n p) (vdisk m') (ip\<lparr>addrs := as'\<rparr>)"
      "compact (vdisk m') (ip\<lparr>addrs := as'\<rparr>) (?o + length p)" "unat (freeblock m') + blocks_of (?o + n) = unat (freeblock m2) + blocks_of (?o + length p)"
      "keep m2 m'"
      using n(2) by (auto simp: off' add.assoc simp flip: of_nat_add)
    have "iappend_loop p off din m = Inr (off + of_nat (length p), din\<lparr>daddrs := as'\<rparr>, m')"
      using False k 1(1) rs w(1) r(1) od by (subst iappend_loop.simps) (simp add: file_sizes Let_def flip: n_def)
    then show ?thesis using r 1(4,5) w(4,5) fr(1) wrote_append [OF wr r(3)] keep_trans [OF keep_trans [OF 1(5) w(5)] r(6)] by (intro exI [of _ as'] exI [of _ m']) simp
  qed
qed

lemma compact_frame:
  assumes "compact D ip L" "addrs ip' ! 12 = addrs ip ! 12" "block_addr D' ip' = block_addr D ip"
    "\<And>k. block_addr D ip k \<noteq> 0 \<Longrightarrow> D' (block_addr D ip k) = D (block_addr D ip k)"
  shows "compact D' ip' L"
proof -
  have "block_addr D ip (j div 512) \<noteq> 0" if "j < 512 * nb L" for j
    using that assms(1) by (auto simp: compact_def mapped_def less_mult_imp_div_less mult.commute)
  then have "file_byte D' ip' j = file_byte D ip j" if "j < 512 * nb L" for j
    using that assms(3,4) by (simp add: file_byte_def file_sizes)
  then show ?thesis using assms by (simp add: compact_def mapped_def clean_def)
qed

section \<open>Inodes of the image\<close>

lemma inode_sector:
  assumes "n < 200"
  shows "i2b n = IBLOCK n" "unat (IBLOCK n) < 28" "IBLOCK n \<in> meta sb0" "IBLOCK n \<noteq> 1"
proof -
  show "i2b n = IBLOCK n" by (simp add: i2b_def IBLOCK_def)
  have "unat (IBLOCK n) = unat n div 8 + 2" using unat_lt32 [of n] by (simp add: IBLOCK_def IPB_def BSIZE_def unat_word_ariths unat_div)
  then show "unat (IBLOCK n) < 28" "IBLOCK n \<noteq> 1" using assms by (auto simp: word_less_nat_alt dest: arg_cong [where f = unat])
  show "IBLOCK n \<in> meta sb0" using IBLOCK_meta(1) [of n sb0] assms by (simp add: sb0_def)
qed

lemma vdisk_low: "unat sec < 28 \<Longrightarrow> vdisk m sec = disk_of (img m) sec"
  by (auto simp: vdisk_def)

lemma rinode_run:
  assumes "mk_inv m" "n < 200"
  shows "rinode n m = Inr (disk_inode (vdisk m) n)"
  using assms inode_sector [OF assms(2)] rsect_run [of m "IBLOCK n"] vdisk_low [of "IBLOCK n" m]
  by (simp add: rinode_def disk_inode_def dinode_off_def mk_inv_def)

lemma winode_run:
  assumes m: "mk_inv m" and n: "n < 200"
  shows "\<exists>m'. winode n x m = Inr m' \<and> mk_inv m' \<and> vdisk m' = put_inode n x (vdisk m) \<and> freeblock m' = freeblock m \<and> freeinode m' = freeinode m"
proof -
  note i = inode_sector [OF n]
  let ?d = "put_dinode (dinode_off n) x (disk_of (img m) (IBLOCK n))"
  have "length ?d = 512" using m disk_of_length by (simp add: mk_inv_def put_dinode_def Let_def)
  then obtain xs where x: "wsect (IBLOCK n) ?d m = Inr (m\<lparr>img := xs\<rparr>)" "img_ok xs" "disk_of xs = (disk_of (img m))(IBLOCK n := ?d)"
    using wsect_run [of m "IBLOCK n" ?d] m i by (auto simp: mk_inv_def)
  have "sb_of (disk_of xs) = sb_of (disk_of (img m))" unfolding x(3) using i(4) by (intro sb_of_upd) auto
  moreover have "disk_of xs sec = zeroes" if "freeblock m \<le> sec" for sec
  proof -
    have "unat (freeblock m) \<le> unat sec" using that by (simp add: word_le_nat_alt)
    then have "sec \<noteq> IBLOCK n" using m i(2) by (auto simp: mk_inv_def)
    then show ?thesis using m that by (simp add: x(3) mk_inv_def)
  qed
  ultimately have "mk_inv (m\<lparr>img := xs\<rparr>)" using m x(2) by (simp add: mk_inv_def)
  moreover have "IBLOCK n \<noteq> 28" using i(2) by auto
  then have "vdisk (m\<lparr>img := xs\<rparr>) = put_inode n x (vdisk m)" using i(2) by (auto simp: vdisk_def x(3) put_inode_def fun_upd_twist)
  moreover have "winode n x m = Inr (m\<lparr>img := xs\<rparr>)"
    using rsect_run [of m "IBLOCK n"] m i x(1) by (simp add: winode_def mk_inv_def dinode_off_def)
  ultimately show ?thesis by (intro exI [of _ "m\<lparr>img := xs\<rparr>"]) simp
qed

text \<open>What \<^verbatim>\<open>iappend\<close> does to its file, and that it leaves the other files alone.\<close>

definition others_kept :: "(u32 \<Rightarrow> u8 list) \<Rightarrow> inode \<Rightarrow> (u32 \<Rightarrow> u8 list) \<Rightarrow> inode \<Rightarrow> bool" where
  "others_kept D ip D' ip' \<longleftrightarrow> (\<forall>c. data_block D c \<longrightarrow> data_block D' c \<and> (\<not> owns D ip c \<longrightarrow> D' c = D c \<and> \<not> owns D' ip' c))"

lemma iappend_run:
  assumes m: "mk_inv m" and n: "n < 200" and ip: "ip = inode_at (vdisk m) n" and f: "file_inv (vdisk m) ip" "compact (vdisk m) ip (unat (isize ip))"
    and p: "unat (isize ip) + length p \<le> 71680" "unat (freeblock m) + blocks_of (unat (isize ip) + length p) \<le> 1024 + blocks_of (unat (isize ip))"
  shows "\<exists>m'. iappend n p m = Inr m' \<and> mk_inv m' \<and> freeinode m' = freeinode m \<and>
    unat (freeblock m') + blocks_of (unat (isize ip)) = unat (freeblock m) + blocks_of (unat (isize ip) + length p) \<and>
    (\<forall>j. j \<noteq> n \<and> j < 200 \<longrightarrow> disk_inode (vdisk m') j = disk_inode (vdisk m) j) \<and>
    (\<forall>ip'. ip' = inode_at (vdisk m') n \<longrightarrow> file_inv (vdisk m') ip' \<and> contents (vdisk m') ip' = contents (vdisk m) ip @ p \<and>
      unat (isize ip') = unat (isize ip) + length p \<and> compact (vdisk m') ip' (unat (isize ip')) \<and> itype ip' = itype ip \<and>
      others_kept (vdisk m) ip (vdisk m') ip' \<and> dnlink (disk_inode (vdisk m') n) = dnlink (disk_inode (vdisk m) n))"
proof -
  let ?D = "vdisk m" and ?din = "disk_inode (vdisk m) n" and ?L = "unat (isize ip)"
  have fo: "file_ok ?D ip" "allocated ?D ip 0 ?L" using f(1) by (simp_all add: file_inv_def)
  have din: "daddrs ?din = addrs ip" "dsize ?din = isize ip" using ip by simp_all
  obtain as m1 where l: "iappend_loop p (dsize ?din) ?din m = Inr (isize ip + of_nat (length p), ?din\<lparr>daddrs := as\<rparr>, m1)" "mk_inv m1"
    "wrote bitmap_size ?D ip ?L p (vdisk m1) (ip\<lparr>addrs := as\<rparr>)" "compact (vdisk m1) (ip\<lparr>addrs := as\<rparr>) (?L + length p)"
    "unat (freeblock m1) + blocks_of ?L = unat (freeblock m) + blocks_of (?L + length p)" "keep m m1"
    using iappend_loop_run [OF m fo(1) din(1) f(2) p] unfolding din(2) by blast
  let ?z = "isize ip + of_nat (length p)"
  let ?x = "?din\<lparr>daddrs := as, dsize := ?z\<rparr>"
  obtain m2 where w: "winode n ?x m1 = Inr m2" "mk_inv m2" "vdisk m2 = put_inode n ?x (vdisk m1)" "freeblock m2 = freeblock m1" "freeinode m2 = freeinode m1"
    using winode_run [OF l(2) n] by blast
  have d1: "disk_ok (vdisk m1)" by (rule disk_ok_vdisk [OF l(2)])
  have la: "length as = 13" using l(3) by (auto simp: wrote_def file_ok_def)
  have n1: "n < ninodes (sb_of (vdisk m1))" using n by (simp add: sb_vdisk [OF l(2)] sb0_def)
  note pf = put_inode_frame [OF d1 n1, where x = ?x]
  have same1: "disk_inode (vdisk m1) j = disk_inode ?D j" if "j < 200" for j
    using l(6) inode_sector [OF that] by (auto simp: disk_inode_def keep_def)
  have dn: "disk_inode (vdisk m2) j = (if j = n then ?x else disk_inode (vdisk m1) j)" for j
    using disk_inode_put [of "vdisk m1" n ?x j] d1 la w(3) by (simp add: disk_ok_def)
  let ?ip1 = "ip\<lparr>addrs := as\<rparr>"
  have ip2: "inode_at (vdisk m2) n = ?ip1\<lparr>isize := ?z\<rparr>" using dn ip by (simp add: inode_at_def load_dinode_def)
  have uz: "unat ?z = ?L + length p" using p(1) by (intro unat_ptr_add) simp
  have fk: "file_ok (vdisk m1) ?ip1" using l(3) by (simp add: wrote_def)
  have keep2: "\<And>c. data_block (vdisk m1) c \<Longrightarrow> data_block (vdisk m2) c \<and> vdisk m2 c = vdisk m1 c" using pf(3) w(3) by simp
  note ff = file_ok_frame [OF fk keep2, of ?z]
  have cb: "vdisk m2 (block_addr (vdisk m1) ?ip1 k) = vdisk m1 (block_addr (vdisk m1) ?ip1 k)" if "block_addr (vdisk m1) ?ip1 k \<noteq> 0" for k
    using keep2 fk that by (simp add: file_ok_def)
  note co = contents_overwrite [OF l(3) order_refl fo(2), of "?ip1\<lparr>isize := ?z\<rparr>" "vdisk m2", OF _ ff(2) cb]
  have c2: "contents (vdisk m2) (?ip1\<lparr>isize := ?z\<rparr>) = contents ?D ip @ p" "allocated (vdisk m2) (?ip1\<lparr>isize := ?z\<rparr>) 0 (?L + length p)"
    using co uz by (simp_all add: overwrite_def)
  have fi: "file_inv (vdisk m2) (?ip1\<lparr>isize := ?z\<rparr>)"
    using ff(1) c2(2) uz p(1) f(1) n disk_ok_vdisk [OF w(2)] ip by (simp add: file_inv_def file_sizes sb_vdisk [OF w(2)] sb0_def)
  have cp: "compact (vdisk m2) (?ip1\<lparr>isize := ?z\<rparr>) (?L + length p)"
    using l(4) by (rule compact_frame) (use ff(2) cb in auto)
  have ow: "owns (vdisk m2) (?ip1\<lparr>isize := ?z\<rparr>) c = owns (vdisk m1) ?ip1 c" for c by (simp add: owns_def ff(2))
  have ok: "others_kept ?D ip (vdisk m2) (?ip1\<lparr>isize := ?z\<rparr>)"
    unfolding others_kept_def ow using l(3) keep2 unfolding wrote_def by metis
  have "iappend n p m = Inr m2" using rinode_run [OF m n] l(1) w(1) by (simp add: iappend_def)
  moreover have "freeinode m2 = freeinode m" using w(5) l(6) by (simp add: keep_def)
  moreover have "\<forall>j. j \<noteq> n \<and> j < 200 \<longrightarrow> disk_inode (vdisk m2) j = disk_inode ?D j" using dn same1 by simp
  moreover have "dnlink (disk_inode (vdisk m2) n) = dnlink ?din" using dn by simp
  ultimately show ?thesis using w(2,4) l(5) fi c2(1) uz cp ok ip2
    by (intro exI [of _ m2]) simp
qed

section \<open>The files of the image\<close>

type_synonym files = "u32 \<rightharpoonup> u16 \<times> u8 list"

definition blocks :: "files \<Rightarrow> nat" where
  "blocks F = (\<Sum>n\<in>dom F. blocks_of (length (snd (the (F n)))))"

lemma blocks_upd:
  assumes "finite (dom F)"
  shows "blocks (F(n \<mapsto> v)) = blocks_of (length (snd v)) + blocks (F(n := None))"
    "F n = Some w \<Longrightarrow> blocks F = blocks_of (length (snd w)) + blocks (F(n := None))"
proof -
  have u: "blocks (G(n \<mapsto> x)) = blocks_of (length (snd x)) + blocks (G(n := None))" if "finite (dom G)" for G x
  proof -
    have "(\<Sum>k\<in>dom G - {n}. blocks_of (length (snd (the ((G(n \<mapsto> x)) k))))) = blocks (G(n := None))"
      unfolding blocks_def by (rule sum.cong) auto
    moreover have "blocks (G(n \<mapsto> x)) = blocks_of (length (snd x)) + (\<Sum>k\<in>dom G - {n}. blocks_of (length (snd (the ((G(n \<mapsto> x)) k)))))"
      unfolding blocks_def using that by (simp add: sum.insert_remove)
    ultimately show ?thesis by simp
  qed
  show "blocks (F(n \<mapsto> v)) = blocks_of (length (snd v)) + blocks (F(n := None))" by (rule u [OF assms])
  assume "F n = Some w"
  then have "F(n \<mapsto> w) = F" by (rule fun_upd_idem)
  then show "blocks F = blocks_of (length (snd w)) + blocks (F(n := None))" using u [OF assms, of w] by simp
qed

text \<open>The disk \<open>D\<close> holds a file of type \<open>t\<close> with the bytes \<open>c\<close> at inode \<open>n\<close>.\<close>

definition file_at :: "(u32 \<Rightarrow> u8 list) \<Rightarrow> u32 \<Rightarrow> u16 \<Rightarrow> u8 list \<Rightarrow> bool" where
  "file_at D n t c \<longleftrightarrow> n < 200 \<and> itype (inode_at D n) = t \<and> file_inv D (inode_at D n) \<and> contents D (inode_at D n) = c \<and>
     compact D (inode_at D n) (length c) \<and> dnlink (disk_inode D n) = 1"

definition holds :: "mkfs \<Rightarrow> files \<Rightarrow> bool" where
  "holds m F \<longleftrightarrow> mk_inv m \<and> finite (dom F) \<and> (\<forall>n t c. F n = Some (t, c) \<longrightarrow> file_at (vdisk m) n t c) \<and>
     (\<forall>j\<in>dom F. \<forall>k\<in>dom F. j \<noteq> k \<longrightarrow> (\<forall>c. owns (vdisk m) (inode_at (vdisk m) j) c \<longrightarrow> \<not> owns (vdisk m) (inode_at (vdisk m) k) c)) \<and>
     unat (freeblock m) = 29 + blocks F"

lemma file_at_size: "file_at D n t c \<Longrightarrow> unat (isize (inode_at D n)) = length c"
  using length_file_contents [of D "inode_at D n"] by (auto simp: file_at_def)

lemma other_file:
  assumes f: "file_at D j t c" and dj: "\<forall>c. owns D (inode_at D j) c \<longrightarrow> \<not> owns D ip c" and ok: "disk_ok D'" "sb_of D' = sb_of D"
    and o: "others_kept D ip D' ip'" and i: "disk_inode D' j = disk_inode D j"
  shows "file_at D' j t c" "owns D' (inode_at D' j) = owns D (inode_at D j)" "\<forall>c. owns D' (inode_at D' j) c \<longrightarrow> \<not> owns D' ip' c"
proof -
  let ?jp = "inode_at D j"
  have same: "inode_at D' j = ?jp" using i by (simp add: inode_at_def)
  have fi: "file_inv D ?jp" "file_ok D ?jp" using f by (simp_all add: file_at_def file_inv_def)
  note fr = file_frame [OF fi(1) dj ok o [unfolded others_kept_def]]
  have "D' (addrs ?jp ! 12) = D (addrs ?jp ! 12)" if "addrs ?jp ! 12 \<noteq> 0"
    using that fi(2) dj o unfolding others_kept_def file_ok_def owns_def by metis
  then have ba: "block_addr D' ?jp = block_addr D ?jp" by (intro block_addr_cong) auto
  have cb: "D' (block_addr D ?jp k) = D (block_addr D ?jp k)" if "block_addr D ?jp k \<noteq> 0" for k
    using that fi(2) dj o unfolding others_kept_def file_ok_def owns_def by metis
  have "compact D ?jp (length c)" using f by (simp add: file_at_def)
  then have "compact D' ?jp (length c)" by (rule compact_frame [OF _ refl ba cb])
  then show "file_at D' j t c" using f fr i unfolding file_at_def same by simp
  show "owns D' (inode_at D' j) = owns D ?jp" unfolding same by (simp add: owns_def ba fun_eq_iff)
  show "\<forall>c. owns D' (inode_at D' j) c \<longrightarrow> \<not> owns D' ip' c" unfolding same using fr by blast
qed

lemma holds_step:
  assumes h: "holds m F" and m': "mk_inv m'" and dj: "\<And>j. j \<in> dom F \<Longrightarrow> j \<noteq> n \<Longrightarrow> \<forall>c. owns (vdisk m) (inode_at (vdisk m) j) c \<longrightarrow> \<not> owns (vdisk m) ip c"
    and o: "others_kept (vdisk m) ip (vdisk m') (inode_at (vdisk m') n)"
    and i: "\<forall>j. j \<noteq> n \<and> j < 200 \<longrightarrow> disk_inode (vdisk m') j = disk_inode (vdisk m) j"
    and f: "file_at (vdisk m') n t c" and fb: "unat (freeblock m') = 29 + blocks (F(n \<mapsto> (t, c)))"
  shows "holds m' (F(n \<mapsto> (t, c)))"
proof -
  let ?D = "vdisk m" and ?D' = "vdisk m'"
  have m: "mk_inv m" "finite (dom F)" using h by (auto simp: holds_def)
  have ok: "disk_ok ?D'" "sb_of ?D' = sb_of ?D" using disk_ok_vdisk [OF m'] sb_vdisk [OF m'] sb_vdisk [OF m(1)] by simp_all
  have o1: "file_at ?D' j u b" "owns ?D' (inode_at ?D' j) = owns ?D (inode_at ?D j)" "\<forall>c. owns ?D' (inode_at ?D' j) c \<longrightarrow> \<not> owns ?D' (inode_at ?D' n) c"
    if "F j = Some (u, b)" "j \<noteq> n" for j u b
  proof -
    have fa: "file_at ?D j u b" using h that(1) by (auto simp: holds_def)
    then have "disk_inode ?D' j = disk_inode ?D j" using i that(2) by (simp add: file_at_def)
    moreover have "j \<in> dom F" using that(1) by auto
    ultimately show "file_at ?D' j u b" "owns ?D' (inode_at ?D' j) = owns ?D (inode_at ?D j)"
      "\<forall>c. owns ?D' (inode_at ?D' j) c \<longrightarrow> \<not> owns ?D' (inode_at ?D' n) c"
      using other_file [OF fa dj ok o] that(2) by blast+
  qed
  have "\<forall>c. owns ?D' (inode_at ?D' j) c \<longrightarrow> \<not> owns ?D' (inode_at ?D' k) c" if jk: "j \<in> dom (F(n \<mapsto> (t, c)))" "k \<in> dom (F(n \<mapsto> (t, c)))" "j \<noteq> k" for j k
  proof -
    consider "j = n" "k \<noteq> n" "k \<in> dom F" | "k = n" "j \<noteq> n" "j \<in> dom F" | "j \<noteq> n" "k \<noteq> n" "j \<in> dom F" "k \<in> dom F" using jk by auto
    then show ?thesis
    proof cases
      case 3
      then have "\<forall>c. owns ?D (inode_at ?D j) c \<longrightarrow> \<not> owns ?D (inode_at ?D k) c" using h jk(3) unfolding holds_def by blast
      then show ?thesis using 3 o1(2) [of j] o1(2) [of k] by auto
    qed (use o1(3) in \<open>auto dest: o1(3)\<close>)
  qed
  moreover have "file_at ?D' j u b" if "(F(n \<mapsto> (t, c))) j = Some (u, b)" for j u b
    using that f o1(1) [of j u b] by (cases "j = n") auto
  moreover have "finite (dom (F(n \<mapsto> (t, c))))" using m(2) by simp
  ultimately show ?thesis using m' fb unfolding holds_def by blast
qed

lemma holds_append:
  assumes h: "holds m F" and f: "F n = Some (t, c)" and p: "length c + length p \<le> 71680" "29 + blocks (F(n \<mapsto> (t, c @ p))) \<le> 1024"
  shows "\<exists>m'. iappend n p m = Inr m' \<and> holds m' (F(n \<mapsto> (t, c @ p))) \<and> freeinode m' = freeinode m"
proof -
  let ?D = "vdisk m"
  have m: "mk_inv m" "finite (dom F)" "unat (freeblock m) = 29 + blocks F" and fa: "file_at ?D n t c" using h f by (auto simp: holds_def)
  have sz: "unat (isize (inode_at ?D n)) = length c" by (rule file_at_size [OF fa])
  have n: "n < 200" "file_inv ?D (inode_at ?D n)" "compact ?D (inode_at ?D n) (length c)" "contents ?D (inode_at ?D n) = c" "itype (inode_at ?D n) = t"
    "dnlink (disk_inode ?D n) = 1" using fa by (auto simp: file_at_def)
  have bl: "blocks (F(n \<mapsto> (t, c @ p))) + blocks_of (length c) = blocks F + blocks_of (length c + length p)"
    using blocks_upd(1) [OF m(2), of n "(t, c @ p)"] blocks_upd(2) [where F = F, OF m(2) f] by simp
  have r: "unat (freeblock m) + blocks_of (length c + length p) \<le> 1024 + blocks_of (length c)" using p(2) bl m(3) by linarith
  obtain m' where 1: "iappend n p m = Inr m'" "mk_inv m'" "freeinode m' = freeinode m"
    "unat (freeblock m') + blocks_of (length c) = unat (freeblock m) + blocks_of (length c + length p)"
    "\<forall>j. j \<noteq> n \<and> j < 200 \<longrightarrow> disk_inode (vdisk m') j = disk_inode ?D j"
    and 2: "file_inv (vdisk m') (inode_at (vdisk m') n)" "contents (vdisk m') (inode_at (vdisk m') n) = c @ p"
    "unat (isize (inode_at (vdisk m') n)) = length c + length p" "compact (vdisk m') (inode_at (vdisk m') n) (length c + length p)"
    "itype (inode_at (vdisk m') n) = t" "others_kept ?D (inode_at ?D n) (vdisk m') (inode_at (vdisk m') n)" "dnlink (disk_inode (vdisk m') n) = dnlink (disk_inode ?D n)"
    using iappend_run [OF m(1) n(1) refl n(2), of p, unfolded sz n(4,5), OF n(3) p(1) r] by metis
  have "file_at (vdisk m') n t (c @ p)" using n(1,6) 2 by (simp add: file_at_def)
  moreover have "\<forall>c. owns ?D (inode_at ?D j) c \<longrightarrow> \<not> owns ?D (inode_at ?D n) c" if "j \<in> dom F" "j \<noteq> n" for j
    using h that f unfolding holds_def by blast
  moreover have "unat (freeblock m') = 29 + blocks (F(n \<mapsto> (t, c @ p)))" using 1(4) bl m(3) by linarith
  ultimately show ?thesis using holds_step [OF h 1(2) _ 2(6) 1(5)] 1(1,3) by blast
qed

lemma blank_file:
  assumes "addrs ip = replicate 13 0"
  shows "block_addr D ip k = 0" "\<not> owns D ip c" "file_ok D ip"
proof -
  show b: "block_addr D ip k = 0" for k using assms by (simp add: block_addr_def file_sizes)
  show "\<not> owns D ip c" using b assms by (simp add: owns_def)
  show "file_ok D ip" using b assms by (simp add: file_ok_def)
qed

lemma holds_ialloc:
  assumes h: "holds m F" and n: "freeinode m = n" "n < 200" "F n = None"
  shows "\<exists>m'. mk_ialloc t m = Inr (n, m') \<and> holds m' (F(n \<mapsto> (t, []))) \<and> freeinode m' = n + 1"
proof -
  let ?m = "m\<lparr>freeinode := n + 1\<rparr>"
  let ?x = "\<lparr>dtype = t, dmajor = 0, dminor = 0, dnlink = 1, dsize = 0, daddrs = replicate 13 0\<rparr>"
  have m: "mk_inv m" "finite (dom F)" "unat (freeblock m) = 29 + blocks F" using h by (auto simp: holds_def)
  have "mk_inv ?m" and v: "vdisk ?m = vdisk m" using m(1) by (simp_all add: mk_inv_def vdisk_def)
  from winode_run [OF this(1) n(2), of ?x] v obtain m' where w: "winode n ?x ?m = Inr m'" "mk_inv m'" "vdisk m' = put_inode n ?x (vdisk m)"
    "freeblock m' = freeblock m" "freeinode m' = n + 1" by auto
  have d: "disk_ok (vdisk m)" by (rule disk_ok_vdisk [OF m(1)])
  have "n < ninodes (sb_of (vdisk m))" using n(2) by (simp add: sb_vdisk [OF m(1)] sb0_def)
  note pf = put_inode_frame [OF d this, where x = ?x]
  have dn: "disk_inode (vdisk m') j = (if j = n then ?x else disk_inode (vdisk m) j)" for j
    using disk_inode_put [of "vdisk m" n ?x j] d w(3) by (simp add: disk_ok_def)
  let ?ip = "inode_at (vdisk m') n"
  have a: "addrs ?ip = replicate 13 0" "isize ?ip = 0" "itype ?ip = t" using dn by simp_all
  note bl = blank_file [OF a(1)]
  have "compact (vdisk m') ?ip 0" using bl(1) a(1) by (simp add: compact_def mapped_def clean_def nb_def)
  moreover have "file_inv (vdisk m') ?ip"
    using bl(3) a disk_ok_vdisk [OF w(2)] n(2) by (simp add: file_inv_def allocated_def sb_vdisk [OF w(2)] sb0_def)
  ultimately have "file_at (vdisk m') n t []" using n(2) a dn by (simp add: file_at_def contents_def)
  moreover have "others_kept (vdisk m) ?ip (vdisk m') ?ip" using pf(3) w(3) bl(2) by (simp add: others_kept_def)
  moreover have "unat (freeblock m') = 29 + blocks (F(n \<mapsto> (t, [])))"
  proof -
    have "F(n := None) = F" using n(3) by (rule fun_upd_idem)
    then show ?thesis using blocks_upd(1) [OF m(2), of n "(t, [])"] w(4) m(3) by (simp add: blocks_of_def nb_def)
  qed
  ultimately have "holds m' (F(n \<mapsto> (t, [])))" using dn bl(2) by (intro holds_step [OF h w(2), of n ?ip]) auto
  moreover have "mk_ialloc t m = Inr (n, m')" using w(1) n(1) by (simp add: mk_ialloc_def file_sizes Let_def)
  ultimately show ?thesis using w(5) by blast
qed

end
