(* ===== verification/Mkfs_Run.thy ===== *)
theory Mkfs_Run
  imports Mkfs_Image
begin

text \<open>
  The run of \<^verbatim>\<open>mkfs\<close> as a whole: the image it leaves holds the root directory and the files of the command
  line, and the kernel's file system accepts it.
\<close>

section \<open>Appending the reads of a file\<close>

lemma blocks_mono:
  assumes "finite (dom F)" "length c \<le> length c'"
  shows "blocks (F(n \<mapsto> (t, c))) \<le> blocks (F(n \<mapsto> (t, c')))"
  using blocks_of_mono [OF assms(2)] by (simp add: blocks_upd(1) [OF assms(1)])

lemma append_all_run:
  assumes "holds m F" "F n = Some (t, c)" "length c + length (concat bs) \<le> 71680" "29 + blocks (F(n \<mapsto> (t, c @ concat bs))) \<le> 1024"
  shows "\<exists>m'. append_all n bs m = Inr m' \<and> holds m' (F(n \<mapsto> (t, c @ concat bs))) \<and> freeinode m' = freeinode m"
  using assms
proof (induction bs arbitrary: m F c)
  case Nil
  then have "F(n \<mapsto> (t, c)) = F" by (intro fun_upd_idem) simp
  then show ?case using Nil by simp
next
  case (Cons b bs)
  let ?F = "F(n \<mapsto> (t, c @ b))"
  have "finite (dom F)" using Cons.prems(1) by (simp add: holds_def)
  then have "blocks ?F \<le> blocks (F(n \<mapsto> (t, c @ concat (b # bs))))" by (intro blocks_mono) auto
  then have "29 + blocks ?F \<le> 1024" using Cons.prems(4) by linarith
  moreover have "length c + length b \<le> 71680" using Cons.prems(3) by simp
  ultimately obtain m1 where 1: "iappend n b m = Inr m1" "holds m1 ?F" "freeinode m1 = freeinode m"
    using holds_append [OF Cons.prems(1,2)] by blast
  have e: "?F(n \<mapsto> (t, (c @ b) @ concat bs)) = F(n \<mapsto> (t, c @ concat (b # bs)))" by simp
  have "\<exists>m'. append_all n bs m1 = Inr m' \<and> holds m' (?F(n \<mapsto> (t, (c @ b) @ concat bs))) \<and> freeinode m' = freeinode m1"
    using Cons.prems(3,4) e by (intro Cons.IH [OF 1(2)]) (simp, simp, simp only:)
  then show ?case using 1 unfolding e append_all.simps by (metis bindR_Inr)
qed

section \<open>The files of the command line\<close>

definition entry :: "nat \<Rightarrow> u8 list \<Rightarrow> u8 list" where
  "entry n nm = dirent_bytes (of_nat n) nm"

definition root_bytes :: "u8 list list \<Rightarrow> u8 list" where
  "root_bytes names = entry 1 [0x2e] @ entry 1 [0x2e, 0x2e] @ concat (map (\<lambda>i. entry (i + 2) (file_name (names ! i))) [0..<length names])"

definition bytes_of :: "(u8 list \<rightharpoonup> u8 list list) \<Rightarrow> u8 list \<Rightarrow> u8 list" where
  "bytes_of host a = concat (the (host a))"

definition table :: "(u8 list \<rightharpoonup> u8 list list) \<Rightarrow> u8 list list \<Rightarrow> files" where
  "table host names = (\<lambda>n. if n = 1 then Some (T_DIR, root_bytes names)
     else if 2 \<le> unat n \<and> unat n < length names + 2 then Some (T_FILE, bytes_of host (names ! (unat n - 2))) else None)"

lemma length_entry [simp]: "length (entry n nm) = 16"
  by (simp add: entry_def dirent_bytes_def DIRSIZ_def length_strncpy_bytes)

lemma length_root [simp]: "length (root_bytes names) = 16 * (length names + 2)"
  by (simp add: root_bytes_def length_concat comp_def sum_list_triv)

lemma root_snoc: "root_bytes (names @ [a]) = root_bytes names @ entry (length names + 2) (file_name a)"
proof -
  have m: "map (\<lambda>i. entry (i + 2) (file_name ((names @ [a]) ! i))) [0..<length names] = map (\<lambda>i. entry (i + 2) (file_name (names ! i))) [0..<length names]"
    by (rule map_cong) (simp_all add: nth_append)
  have l: "[0..<length (names @ [a])] = [0..<length names] @ [length names]" by simp
  show ?thesis unfolding root_bytes_def l map_append m concat_append by simp
qed

lemma table_snoc:
  assumes "length names < 198"
  shows "table host (names @ [a]) = (table host names)(of_nat (length names + 2) \<mapsto> (T_FILE, bytes_of host a), 1 \<mapsto> (T_DIR, root_bytes (names @ [a])))"
proof
  fix n :: u32
  let ?k = "of_nat (length names + 2) :: u32"
  have u: "unat ?k = length names + 2" using assms by (intro unat_of_nat32) simp
  have "n = ?k \<longleftrightarrow> unat n = length names + 2" using u by (simp add: word_unat_eq_iff)
  then show "table host (names @ [a]) n = ((table host names)(?k \<mapsto> (T_FILE, bytes_of host a), 1 \<mapsto> (T_DIR, root_bytes (names @ [a])))) n"
    by (cases "unat n = length names + 2") (auto simp: table_def nth_append)
qed

lemma new_inode: "unat n = length names + 2 \<Longrightarrow> table host names n = None" "unat n = length names + 2 \<Longrightarrow> n \<noteq> 1"
  by (auto simp: table_def)

text \<open>The blocks that a list of files needs.\<close>

definition total :: "(u8 list \<rightharpoonup> u8 list list) \<Rightarrow> u8 list list \<Rightarrow> nat" where
  "total host names = blocks_of (16 * (length names + 2)) + (\<Sum>a\<leftarrow>names. blocks_of (length (bytes_of host a)))"

lemma table_finite: "finite (dom (table host names))"
proof -
  have "dom (table host names) \<subseteq> insert 1 (of_nat ` {..<length names + 2})"
  proof
    fix n assume "n \<in> dom (table host names)"
    then have "n = 1 \<or> unat n < length names + 2" by (auto simp: table_def split: if_splits)
    then show "n \<in> insert 1 (of_nat ` {..<length names + 2})" by (auto intro!: image_eqI [of _ _ "unat n"])
  qed
  then show ?thesis by (rule finite_subset) simp
qed

lemma blocks_table: "length names \<le> 198 \<Longrightarrow> blocks (table host names) = total host names"
proof (induction names rule: rev_induct)
  case Nil
  have "table host [] = [1 \<mapsto> (T_DIR, root_bytes [])]" by (rule ext) (auto simp: table_def)
  moreover have "dom [1 \<mapsto> (T_DIR, root_bytes [])] = {1 :: u32}" by simp
  ultimately show ?case by (simp only: blocks_def) (simp add: total_def)
next
  case (snoc a names)
  let ?F = "table host names" and ?k = "of_nat (length names + 2) :: u32"
  have u: "unat ?k = length names + 2" using snoc.prems by (intro unat_of_nat32) simp
  have k: "?F ?k = None" "?k \<noteq> 1" using new_inode [OF u] by blast+
  let ?G = "?F(?k \<mapsto> (T_FILE, bytes_of host a))"
  have fin: "finite (dom ?G)" using table_finite by simp
  have "blocks ?G = blocks_of (length (bytes_of host a)) + blocks ?F"
    using blocks_upd(1) [OF table_finite, where n = ?k and v = "(T_FILE, bytes_of host a)"] k(1) by (simp add: fun_upd_idem)
  moreover have g1: "?G 1 = Some (T_DIR, root_bytes names)" using k(2) by (simp add: table_def)
  have "blocks (?G(1 \<mapsto> (T_DIR, root_bytes (names @ [a])))) + blocks_of (16 * (length names + 2)) = blocks ?G + blocks_of (16 * (length names + 3))"
    unfolding blocks_upd(1) [where F = ?G, OF fin] blocks_upd(2) [where F = ?G, OF fin g1] by (simp add: add.commute)
  moreover have "blocks (table host (names @ [a])) = blocks (?G(1 \<mapsto> (T_DIR, root_bytes (names @ [a]))))"
    by (rule arg_cong [OF table_snoc]) (use snoc.prems in simp)
  ultimately show ?case using snoc by (simp add: total_def add_ac)
qed

text \<open>What the command line must satisfy: no slash in a name, every file readable and not too large.\<close>

definition usable :: "(u8 list \<rightharpoonup> u8 list list) \<Rightarrow> u8 list \<Rightarrow> bool" where
  "usable host a \<longleftrightarrow> SLASH \<notin> set a \<and> host a \<noteq> None \<and> length (bytes_of host a) \<le> 71680"

lemma total_snoc_mono:
  "total host names \<le> total host (names @ [a])"
  "blocks_of (16 * (length names + 3)) + (\<Sum>a\<leftarrow>names. blocks_of (length (bytes_of host a))) \<le> total host (names @ [a])"
  using blocks_of_mono [of "16 * (length names + 2)" "16 * (length names + 3)"] by (simp_all add: total_def add_ac)

lemma total_append_mono: "total host names \<le> total host (names @ as)"
proof (induction as rule: rev_induct)
  case (snoc a as)
  then show ?case using total_snoc_mono(1) [of host "names @ as" a] by simp
qed simp

lemma add_file:
  assumes h: "holds m (table host names)" and fr: "unat (freeinode m) = length names + 2" and len: "length names < 198"
    and u: "usable host a" and t: "29 + total host (names @ [a]) \<le> 1024"
  shows "\<exists>m'. add_files host 1 (a # as) m = add_files host 1 as m' \<and> holds m' (table host (names @ [a])) \<and> unat (freeinode m') = length names + 3"
proof -
  let ?F = "table host names" and ?n = "freeinode m"
  obtain reads where rd: "host a = Some reads" "bytes_of host a = concat reads" using u by (auto simp: usable_def bytes_of_def)
  have n: "?n < 200" "?F ?n = None" "?n \<noteq> 1" using new_inode [OF fr] fr len by (auto simp: word_less_nat_alt)
  obtain m1 where 1: "mk_ialloc T_FILE m = Inr (?n, m1)" "holds m1 (?F(?n \<mapsto> (T_FILE, [])))" "freeinode m1 = ?n + 1"
    using holds_ialloc [OF h refl n(1,2)] by blast
  let ?F1 = "?F(?n \<mapsto> (T_FILE, []))" and ?e = "entry (length names + 2) (file_name a)"
  have r1: "?F1 1 = Some (T_DIR, root_bytes names)" using n(3) by (simp add: table_def)
  have fin: "finite (dom ?F)" "finite (dom ?F1)" using table_finite by simp_all
  have "blocks ?F1 = total host names"
    using blocks_upd(1) [OF fin(1), of ?n "(T_FILE, [])"] n(2) blocks_table [of names host] len by (simp add: fun_upd_idem blocks_of_def nb_def)
  then have "blocks (?F1(1 \<mapsto> (T_DIR, root_bytes names @ ?e))) \<le> total host (names @ [a])"
    using blocks_upd(1) [where F = ?F1, OF fin(2), of 1 "(T_DIR, root_bytes names @ ?e)"] blocks_upd(2) [where F = ?F1, OF fin(2) r1]
      total_snoc_mono(2) [of names host a] by (simp add: total_def add_ac)
  then have b2: "29 + blocks (?F1(1 \<mapsto> (T_DIR, root_bytes names @ ?e))) \<le> 1024" using t by linarith
  have "length (root_bytes names) + length ?e \<le> 71680" using len by simp
  then obtain m2 where 2: "iappend 1 ?e m1 = Inr m2" "holds m2 (?F1(1 \<mapsto> (T_DIR, root_bytes names @ ?e)))" "freeinode m2 = freeinode m1"
    using holds_append [OF 1(2) r1 _ b2] by blast
  let ?F2 = "?F1(1 \<mapsto> (T_DIR, root_bytes names @ ?e))"
  have f2: "?F2 ?n = Some (T_FILE, [])" using n(3) by simp
  have ne: "?n = of_nat (length names + 2)" unfolding fr [symmetric] by simp
  have tab: "?F2(?n \<mapsto> (T_FILE, [] @ concat reads)) = table host (names @ [a])"
    unfolding table_snoc [OF len] root_snoc rd(2) ne [symmetric] using n(3) by (simp add: fun_upd_twist fun_eq_iff)
  have "29 + blocks (table host (names @ [a])) \<le> 1024" using blocks_table [of "names @ [a]" host] len t by simp
  then obtain m3 where 3: "append_all ?n reads m2 = Inr m3" "holds m3 (table host (names @ [a]))" "freeinode m3 = freeinode m2"
    using append_all_run [OF 2(2) f2, of reads] u rd unfolding tab usable_def by auto
  have "ucast ?n = (of_nat (length names + 2) :: u16)" unfolding fr [symmetric] by simp
  then have "add_files host 1 (a # as) m = add_files host 1 as m3" using u rd 1(1) 2(1) 3(1) by (simp add: usable_def entry_def)
  moreover have "unat (freeinode m3) = length names + 3" using 1(3) 2(3) 3(3) fr len by (simp add: unat_word_ariths)
  ultimately show ?thesis using 3(2) by blast
qed

lemma add_files_run:
  "holds m (table host names) \<Longrightarrow> unat (freeinode m) = length names + 2 \<Longrightarrow> length names + length as \<le> 198 \<Longrightarrow>
   \<forall>a\<in>set as. usable host a \<Longrightarrow> 29 + total host (names @ as) \<le> 1024 \<Longrightarrow>
   \<exists>m'. add_files host 1 as m = Inr m' \<and> holds m' (table host (names @ as))"
proof (induction as arbitrary: names m)
  case (Cons a as)
  have "29 + total host (names @ [a]) \<le> 1024" using total_append_mono [of host "names @ [a]" as] Cons.prems(5) by simp
  then obtain m1 where 1: "add_files host 1 (a # as) m = add_files host 1 as m1" "holds m1 (table host (names @ [a]))" "unat (freeinode m1) = length names + 3"
    using add_file [OF Cons.prems(1,2), of a as] Cons.prems(3,4) by (auto simp del: add_files.simps)
  have "\<exists>m'. add_files host 1 as m1 = Inr m' \<and> holds m' (table host ((names @ [a]) @ as))"
    using 1(2,3) Cons.prems(3-5) by (intro Cons.IH) simp_all
  then show ?case using 1(1) by simp
qed auto

section \<open>The empty image\<close>

lemma zero_sectors_run:
  "img m = replicate i zeroes \<Longrightarrow> i + n \<le> 1024 \<Longrightarrow> zero_sectors i n m = Inr (m\<lparr>img := replicate (i + n) zeroes\<rparr>)"
proof (induction n arbitrary: i m)
  case (Suc n)
  have u: "unat (of_nat i :: u32) = i" using Suc.prems(2) by (intro unat_of_nat32) simp
  have "put_sector i zeroes (img m) = replicate (Suc i) zeroes" using Suc.prems(1) by (simp add: put_sector_def replicate_append_same)
  then have "wsect (of_nat i) zeroes m = Inr (m\<lparr>img := replicate (Suc i) zeroes\<rparr>)"
    using seek_run [of "of_nat i"] u Suc.prems(2) by (simp add: wsect_def)
  then show ?case using Suc.IH [of "m\<lparr>img := replicate (Suc i) zeroes\<rparr>" "Suc i"] Suc.prems(2) by simp
qed simp

lemma sb_sector_fields:
  assumes "500 \<le> length after"
  shows "length (sb_sector after) = 512" "get32 (sb_sector after) 0 = 1024" "get32 (sb_sector after) 4 = 995" "get32 (sb_sector after) 8 = 200"
proof -
  let ?h = "put32 0 1024 (put32 4 995 (put32 8 200 (replicate 12 0))) :: u8 list"
  have l: "length ?h = 12" by simp
  have "get32 (take 512 (?h @ after)) i = get32 ?h i" if "i + 4 \<le> 12" for i
    using that by (intro f32.get_local) (simp add: nth_append)
  then show "get32 (sb_sector after) 0 = 1024" "get32 (sb_sector after) 4 = 995" "get32 (sb_sector after) 8 = 200"
    by (simp_all add: sb_sector_def size0_def nblocks0_def ninodes0_def layout)
  show "length (sb_sector after) = 512" using assms by (simp add: sb_sector_def)
qed

lemma mkfs_start:
  assumes "500 \<le> length after"
  shows "\<exists>m. bindR (zero_sectors 0 1024 \<lparr>img = [], freeblock = 29, usedblocks = 29, freeinode = 1\<rparr>) (wsect 1 (sb_sector after)) = Inr m \<and>
    holds m Map.empty \<and> freeinode m = 1"
proof -
  let ?m = "\<lparr>img = replicate 1024 zeroes, freeblock = 29, usedblocks = 29, freeinode = 1\<rparr>"
  note sf = sb_sector_fields [OF assms]
  have ok: "img_ok (img ?m)" by (simp add: img_ok_def)
  obtain xs where x: "wsect 1 (sb_sector after) ?m = Inr (?m\<lparr>img := xs\<rparr>)" "img_ok xs" "disk_of xs = (disk_of (img ?m))(1 := sb_sector after)"
    using wsect_run [OF ok, of 1 "sb_sector after"] sf(1) by auto
  have z: "disk_of (img ?m) sec = zeroes" for sec by (simp add: disk_of_def)
  have "mk_inv (?m\<lparr>img := xs\<rparr>)" using x(2) sf z by (auto simp: mk_inv_def x(3) sb_of_def sb0_def word_le_nat_alt)
  then have "holds (?m\<lparr>img := xs\<rparr>) Map.empty" by (simp add: holds_def blocks_def)
  moreover have "zero_sectors 0 1024 \<lparr>img = [], freeblock = 29, usedblocks = 29, freeinode = 1\<rparr> = Inr ?m"
    using zero_sectors_run [of "\<lparr>img = [], freeblock = 29, usedblocks = 29, freeinode = 1\<rparr>" 0 1024] by simp
  ultimately show ?thesis using x(1) by (intro exI [of _ "?m\<lparr>img := xs\<rparr>"]) simp
qed

text \<open>The root directory with its first two entries.\<close>

lemma mkfs_root:
  assumes h: "holds m Map.empty" "freeinode m = 1"
  shows "\<exists>m1 m2 m3. mk_ialloc T_DIR m = Inr (1, m1) \<and> iappend 1 (entry 1 [0x2e]) m1 = Inr m2 \<and> iappend 1 (entry 1 [0x2e, 0x2e]) m2 = Inr m3 \<and>
    holds m3 (table host []) \<and> unat (freeinode m3) = 2"
proof -
  obtain m1 where 1: "mk_ialloc T_DIR m = Inr (1, m1)" "holds m1 [1 \<mapsto> (T_DIR, [])]" "freeinode m1 = 2"
    using holds_ialloc [OF h(1) h(2)] by auto
  have b: "blocks [1 \<mapsto> (T_DIR, c)] = blocks_of (length c)" for c
  proof -
    have "dom [1 \<mapsto> (T_DIR, c)] = {1 :: u32}" by simp
    then show ?thesis by (simp only: blocks_def) simp
  qed
  have l: "29 + blocks [1 \<mapsto> (T_DIR, c)] \<le> 1024" if "length c \<le> 32" for c
    using blocks_of_mono [OF that] unfolding b by (simp add: blocks_of_def nb_def)
  have u: "[1 \<mapsto> v](1 \<mapsto> w) = [1 \<mapsto> w]" for v w :: "u16 \<times> u8 list" by (rule fun_upd_upd)
  obtain m2 where 2: "iappend 1 (entry 1 [0x2e]) m1 = Inr m2" "holds m2 [1 \<mapsto> (T_DIR, entry 1 [0x2e])]" "freeinode m2 = freeinode m1"
    using holds_append [OF 1(2), of 1 T_DIR "[]" "entry 1 [0x2e]"] l [of "entry 1 [0x2e]"] unfolding u by auto
  obtain m3 where 3: "iappend 1 (entry 1 [0x2e, 0x2e]) m2 = Inr m3" "holds m3 [1 \<mapsto> (T_DIR, entry 1 [0x2e] @ entry 1 [0x2e, 0x2e])]" "freeinode m3 = freeinode m2"
    using holds_append [OF 2(2), of 1 T_DIR "entry 1 [0x2e]" "entry 1 [0x2e, 0x2e]"] l [of "entry 1 [0x2e] @ entry 1 [0x2e, 0x2e]"] unfolding u by auto
  have "table host [] = [1 \<mapsto> (T_DIR, entry 1 [0x2e] @ entry 1 [0x2e, 0x2e])]" by (rule ext) (auto simp: table_def root_bytes_def)
  then have "holds m3 (table host [])" using 3(2) by (simp only:)
  then show ?thesis using 1 2 3 by auto
qed

section \<open>The size of the root directory\<close>

text \<open>Rounding the size of a file up to whole blocks appends the zeroes of its last block.\<close>

lemma round_up_file:
  assumes f: "file_at D n t c" and ok: "disk_ok D'" "sb_of D' = sb0" and k: "\<And>b. data_block D b \<Longrightarrow> data_block D' b \<and> D' b = D b"
    and i: "inode_at D' n = (inode_at D n)\<lparr>isize := z\<rparr>" and z: "unat z = 512 * nb (length c)" and l: "length c \<le> 71680"
  shows "file_inv D' (inode_at D' n) \<and> contents D' (inode_at D' n) = c @ replicate (512 * nb (length c) - length c) 0 \<and>
    (\<forall>k\<ge>nb (length c). block_addr D' (inode_at D' n) k = 0)"
proof -
  let ?ip = "inode_at D n" and ?L = "length c"
  have fi: "file_inv D ?ip" "contents D ?ip = c" "compact D ?ip ?L" "n < 200" using f by (simp_all add: file_at_def)
  have fo: "file_ok D ?ip" using fi(1) by (simp add: file_inv_def)
  note ff = file_ok_frame [OF fo k, of z]
  have ba: "block_addr D ?ip (j div 512) \<noteq> 0" if "j < 512 * nb ?L" for j
    using fi(3) that by (auto simp: compact_def mapped_def less_mult_imp_div_less mult.commute)
  have fb: "file_byte D' (?ip\<lparr>isize := z\<rparr>) j = file_byte D ?ip j" if "j < 512 * nb ?L" for j
    using ba [OF that] k fo ff(2) by (simp add: file_byte_def file_sizes file_ok_def)
  have nbl: "?L \<le> 512 * nb ?L" "512 * nb ?L \<le> 71680"
  proof -
    have "?L + 511 < 512 * nb ?L + 512" unfolding nb_def by (simp add: dividend_less_div_times mult.commute [of 512])
    then show "?L \<le> 512 * nb ?L" by linarith
    have "nb ?L \<le> (71680 + 511) div 512" unfolding nb_def using l by (intro div_le_mono) simp
    then show "512 * nb ?L \<le> 71680" by simp
  qed
  have "file_byte D ?ip j = (c @ replicate (512 * nb ?L - ?L) 0) ! j" if "j < 512 * nb ?L" for j
  proof (cases "j < ?L")
    case True
    moreover have "c ! j = file_byte D ?ip j" if "j < length c" using that file_at_size [OF f] unfolding fi(2) [symmetric] by (simp add: contents_def)
    ultimately show ?thesis by (simp add: nth_append)
  next
    case False
    then show ?thesis using fi(3) that by (simp add: compact_def clean_def nth_append)
  qed
  then have "contents D' (?ip\<lparr>isize := z\<rparr>) = c @ replicate (512 * nb ?L - ?L) 0"
    using nbl(1) by (intro nth_equalityI) (simp_all add: contents_def z fb)
  moreover have "file_inv D' (?ip\<lparr>isize := z\<rparr>)"
    using ff ok ba nbl(2) z fi(4) by (simp add: file_inv_def allocated_def file_sizes sb0_def)
  moreover have "block_addr D' (?ip\<lparr>isize := z\<rparr>) k = 0" if "nb ?L \<le> k" for k using fi(3) that ff(2) by (simp add: compact_def mapped_def) (meson not_less)
  ultimately show ?thesis unfolding i by simp
qed

text \<open>When the file ends with a block already, the new size covers one block more, which the file does not have.\<close>

definition overlong :: "(u32 \<Rightarrow> u8 list) \<Rightarrow> inode \<Rightarrow> u8 list \<Rightarrow> bool" where
  "overlong D ip c \<longleftrightarrow> unat (isize ip) = length c + 512 \<and> (\<forall>j<length c. block_addr D ip (j div 512) \<noteq> 0 \<and> file_byte D ip j = c ! j) \<and>
     block_addr D ip (length c div 512) = 0 \<and> \<not> file_inv D ip"

lemma overlong_file:
  assumes f: "file_at D n t c" and k: "\<And>b. data_block D b \<Longrightarrow> data_block D' b \<and> D' b = D b"
    and i: "inode_at D' n = (inode_at D n)\<lparr>isize := z\<rparr>" and z: "unat z = length c + 512" and l: "length c mod 512 = 0"
  shows "overlong D' (inode_at D' n) c"
proof -
  let ?ip = "inode_at D n" and ?L = "length c"
  have fi: "file_inv D ?ip" "contents D ?ip = c" "compact D ?ip ?L" using f by (simp_all add: file_at_def)
  have fo: "file_ok D ?ip" using fi(1) by (simp add: file_inv_def)
  note ff = file_ok_frame [OF fo k, of z]
  have nl: "nb ?L = ?L div 512" using nb_step(2) [of "512 - ?L mod 512" ?L] l by simp
  have ba: "block_addr D ?ip (j div 512) \<noteq> 0" if "j < ?L" for j
  proof -
    have "512 * (?L div 512) = ?L" using l by auto
    then have "j div 512 < nb ?L" unfolding nl using that by (intro less_mult_imp_div_less) (simp add: mult.commute)
    then show ?thesis using fi(3) by (simp add: compact_def mapped_def)
  qed
  have nba: "block_addr D ?ip (?L div 512) = 0" using fi(3) unfolding compact_def mapped_def nl by (metis less_irrefl)
  have fb: "file_byte D' (?ip\<lparr>isize := z\<rparr>) j = c ! j" if "j < ?L" for j
  proof -
    have "c ! j = file_byte D ?ip j" using that file_at_size [OF f] unfolding fi(2) [symmetric] by (simp add: contents_def)
    then show ?thesis using ba [OF that] k fo ff(2) by (simp add: file_byte_def file_sizes file_ok_def)
  qed
  have "\<not> allocated D' (?ip\<lparr>isize := z\<rparr>) 0 (unat z)"
    using nba ff(2) z by (auto simp: allocated_def intro!: exI [of _ ?L])
  then have "\<not> file_inv D' (?ip\<lparr>isize := z\<rparr>)" by (simp add: file_inv_def)
  then show ?thesis unfolding overlong_def i using ba nba fb ff(2) z by simp
qed

lemma fix_root_run:
  assumes h: "holds m (table host names)" and len: "length names \<le> 198"
  shows "\<exists>m'. fix_root 1 m = Inr m' \<and> mk_inv m' \<and> freeblock m' = freeblock m \<and>
    (\<forall>i<length names. file_at (vdisk m') (of_nat (i + 2)) T_FILE (bytes_of host (names ! i))) \<and> itype (inode_at (vdisk m') 1) = T_DIR \<and> dnlink (disk_inode (vdisk m') 1) = 1 \<and>
    ((length names + 2) mod 32 \<noteq> 0 \<longrightarrow> file_inv (vdisk m') (inode_at (vdisk m') 1) \<and>
      contents (vdisk m') (inode_at (vdisk m') 1) = root_bytes names @ replicate (512 * nb (16 * (length names + 2)) - 16 * (length names + 2)) 0 \<and>
      (\<forall>k\<ge>nb (16 * (length names + 2)). block_addr (vdisk m') (inode_at (vdisk m') 1) k = 0)) \<and>
    ((length names + 2) mod 32 = 0 \<longrightarrow> overlong (vdisk m') (inode_at (vdisk m') 1) (root_bytes names))"
proof -
  let ?D = "vdisk m" and ?L = "16 * (length names + 2)"
  have m: "mk_inv m" and fa: "\<And>n t c. table host names n = Some (t, c) \<Longrightarrow> file_at ?D n t c" using h by (auto simp: holds_def)
  have r: "file_at ?D 1 T_DIR (root_bytes names)" by (rule fa) (simp add: table_def)
  have sz: "unat (dsize (disk_inode ?D 1)) = ?L" using file_at_size [OF r] by simp
  define z where "z = (dsize (disk_inode ?D 1) div 512 + 1) * 512"
  let ?x = "(disk_inode ?D 1)\<lparr>dsize := z\<rparr>"
  have n: "(1 :: u32) < 200" by simp
  obtain m' where w: "winode 1 ?x m = Inr m'" "mk_inv m'" "vdisk m' = put_inode 1 ?x ?D" "freeblock m' = freeblock m" using winode_run [OF m n] by blast
  have run: "fix_root 1 m = Inr m'" using rinode_run [OF m n] w(1) by (simp add: fix_root_def z_def BSIZE_def Let_def)
  have d: "disk_ok ?D" by (rule disk_ok_vdisk [OF m])
  have "1 < ninodes (sb_of ?D)" by (simp add: sb_vdisk [OF m] sb0_def)
  note pf = put_inode_frame [OF d this, where x = ?x]
  have k: "data_block (vdisk m') b \<and> vdisk m' b = ?D b" if "data_block ?D b" for b using pf(3) [OF that] w(3) by simp
  have "length (daddrs ?x) = 13" using r by (simp add: file_at_def file_inv_def file_ok_def)
  then have dn: "disk_inode (vdisk m') j = (if j = 1 then ?x else disk_inode ?D j)" for j
    using disk_inode_put [of ?D 1 ?x j] d w(3) by (simp add: disk_ok_def)
  let ?b = "(inode_at ?D 1)\<lparr>addrs := replicate 13 0\<rparr>"
  have nb: "\<not> owns E ?b c" for E c by (rule blank_file(2)) simp
  have ok: "disk_ok (vdisk m')" "sb_of (vdisk m') = sb_of ?D" using disk_ok_vdisk [OF w(2)] sb_vdisk [OF w(2)] sb_vdisk [OF m] by simp_all
  have "others_kept ?D ?b (vdisk m') ?b" using k nb by (simp add: others_kept_def)
  then have files: "file_at (vdisk m') (of_nat (i + 2)) T_FILE (bytes_of host (names ! i))" if i: "i < length names" for i
  proof -
    have u: "unat (of_nat (i + 2) :: u32) = i + 2" using i len by (intro unat_of_nat32) simp
    have ne: "(of_nat (i + 2) :: u32) \<noteq> 1"
    proof
      assume "(of_nat (i + 2) :: u32) = 1"
      then have "unat (of_nat (i + 2) :: u32) = unat (1 :: u32)" by (rule arg_cong)
      then show False unfolding u by simp
    qed
    have "file_at ?D (of_nat (i + 2)) T_FILE (bytes_of host (names ! i))"
      by (rule fa) (use i u ne in \<open>simp only: table_def, simp\<close>)
    from other_file(1) [OF this _ ok \<open>others_kept ?D ?b (vdisk m') ?b\<close>] show ?thesis using nb dn ne by auto
  qed
  have uz: "unat z = Suc (?L div 512) * 512"
  proof -
    have "unat (dsize (disk_inode ?D 1) div 512 + 1) = Suc (?L div 512)" "Suc (?L div 512) * 512 < 2 ^ 32"
      using sz len by (simp_all add: unat_word_ariths unat_div)
    moreover have "unat z = unat (dsize (disk_inode ?D 1) div 512 + 1) * unat (512 :: u32) mod 2 ^ 32"
      unfolding z_def by (simp only: unat_word_ariths) simp
    ultimately show ?thesis by simp
  qed
  have iz: "inode_at (vdisk m') 1 = (inode_at ?D 1)\<lparr>isize := z\<rparr>" using dn by (simp add: inode_at_def load_dinode_def)
  have root: "file_inv (vdisk m') (inode_at (vdisk m') 1) \<and> contents (vdisk m') (inode_at (vdisk m') 1) = root_bytes names @ replicate (512 * nb ?L - ?L) 0 \<and>
    (\<forall>k\<ge>nb ?L. block_addr (vdisk m') (inode_at (vdisk m') 1) k = 0)"
    if a: "(length names + 2) mod 32 \<noteq> 0"
  proof -
    have "?L mod 512 \<noteq> 0" using a mult_mod_right [of 16 "length names + 2" 32] by simp
    then have nl: "nb ?L = Suc (?L div 512)" using nb_step(2) [of "512 - ?L mod 512" ?L] by simp
    have zl: "unat z = 512 * nb (length (root_bytes names))" using uz nl by (simp add: mult.commute)
    have "length (root_bytes names) \<le> 71680" using len by simp
    from round_up_file [OF r ok(1) sb_vdisk [OF w(2)] k iz zl this] show ?thesis unfolding length_root .
  qed
  moreover have "overlong (vdisk m') (inode_at (vdisk m') 1) (root_bytes names)" if a: "(length names + 2) mod 32 = 0"
  proof (rule overlong_file [OF r k iz])
    have l0: "?L mod 512 = 0" using a mult_mod_right [of 16 "length names + 2" 32] by simp
    then show "length (root_bytes names) mod 512 = 0" by simp
    have "512 * (?L div 512) = ?L" using l0 by auto
    then show "unat z = length (root_bytes names) + 512" unfolding uz length_root by simp
  qed
  moreover have "itype (inode_at (vdisk m') 1) = T_DIR" "dnlink (disk_inode (vdisk m') 1) = 1" using dn r by (simp_all add: file_at_def)
  ultimately show ?thesis using run w(2,4) files by (intro exI [of _ m'] conjI) (rule run, blast+)
qed

section \<open>The whole run\<close>

lemma mk_balloc_run:
  assumes m: "mk_inv m" "unat (freeblock m) < 512"
  shows "\<exists>m'. mk_balloc (usedblocks m) m = Inr m' \<and> img_ok (img m') \<and> disk_of (img m') = vdisk m"
proof -
  have u: "usedblocks m = freeblock m" "img_ok (img m)" using m(1) by (simp_all add: mk_inv_def)
  have "freeblock m < 512" using m(2) by (simp add: word_less_nat_alt)
  then have a: "uint (freeblock m) < 512" by (simp add: word_less_def)
  have b: "- (2 ^ 31) \<le> uint (freeblock m)" by (rule order_trans [OF _ uint_ge_0]) simp
  have "sint (freeblock m) = uint (freeblock m)" unfolding sint_uint signed_take_bit_int_eq_self_iff using a b by simp
  then have sf: "sint (freeblock m) = int (unat (freeblock m))" by simp
  obtain xs where "wsect 28 (set_bits (unat (freeblock m))) m = Inr (m\<lparr>img := xs\<rparr>)" "img_ok xs" "disk_of xs = (disk_of (img m))(28 := set_bits (unat (freeblock m)))"
    using wsect_run [OF u(2), of 28 "set_bits (unat (freeblock m))"] by auto
  then show ?thesis using a u sf by (simp add: mk_balloc_def ninodes0_def IPB_def BSIZE_def vdisk_def)
qed

lemma mkfs_files:
  assumes "2 \<le> length argv" "creat (argv ! 1)" "500 \<le> length after" "names = drop 2 argv" "length names \<le> 198"
    "\<forall>a\<in>set names. usable host a" "29 + total host names < 512"
  shows "\<exists>m. mkfs_main creat host after argv = Inr m \<and> img_ok (img m) \<and> disk_ok (disk_of (img m)) \<and>
    (\<forall>i<length names. file_at (disk_of (img m)) (of_nat (i + 2)) T_FILE (bytes_of host (names ! i))) \<and>
    itype (inode_at (disk_of (img m)) 1) = T_DIR \<and> dnlink (disk_inode (disk_of (img m)) 1) = 1 \<and>
    ((length names + 2) mod 32 \<noteq> 0 \<longrightarrow> file_inv (disk_of (img m)) (inode_at (disk_of (img m)) 1) \<and>
      contents (disk_of (img m)) (inode_at (disk_of (img m)) 1) =
        root_bytes names @ replicate (512 * nb (16 * (length names + 2)) - 16 * (length names + 2)) 0 \<and>
      (\<forall>k\<ge>nb (16 * (length names + 2)). block_addr (disk_of (img m)) (inode_at (disk_of (img m)) 1) k = 0)) \<and>
    ((length names + 2) mod 32 = 0 \<longrightarrow> overlong (disk_of (img m)) (inode_at (disk_of (img m)) 1) (root_bytes names)) \<and>
    sb_of (disk_of (img m)) = sb0 \<and> (\<forall>b. 512 \<le> unat b \<and> unat b < 4096 \<longrightarrow> \<not> marked (disk_of (img m)) b)"
proof -
  let ?m0 = "\<lparr>img = [], freeblock = 29, usedblocks = 29, freeinode = 1\<rparr> :: mkfs"
  obtain ma where a: "bindR (zero_sectors 0 1024 ?m0) (wsect 1 (sb_sector after)) = Inr ma" "holds ma Map.empty" "freeinode ma = 1"
    using mkfs_start [OF assms(3)] by blast
  obtain mz where z: "zero_sectors 0 1024 ?m0 = Inr mz" "wsect 1 (sb_sector after) mz = Inr ma" using a(1) by (auto simp: bindR_eq_Inr)
  obtain m1 m2 m3 where b: "mk_ialloc T_DIR ma = Inr (1, m1)" "iappend 1 (entry 1 [0x2e]) m1 = Inr m2" "iappend 1 (entry 1 [0x2e, 0x2e]) m2 = Inr m3"
    "holds m3 (table host [])" "unat (freeinode m3) = 2" using mkfs_root [OF a(2,3), of host] by blast
  have "\<exists>m'. add_files host 1 names m3 = Inr m' \<and> holds m' (table host ([] @ names))"
    using assms(5-7) b(4,5) by (intro add_files_run) auto
  then obtain m4 where c: "add_files host 1 names m3 = Inr m4" "holds m4 (table host names)" by auto
  obtain m5 where d: "fix_root 1 m4 = Inr m5" "mk_inv m5" "freeblock m5 = freeblock m4" and f: "\<forall>i<length names. file_at (vdisk m5) (of_nat (i + 2)) T_FILE (bytes_of host (names ! i))"
    "itype (inode_at (vdisk m5) 1) = T_DIR" "dnlink (disk_inode (vdisk m5) 1) = 1"
    "(length names + 2) mod 32 \<noteq> 0 \<longrightarrow> file_inv (vdisk m5) (inode_at (vdisk m5) 1) \<and>
      contents (vdisk m5) (inode_at (vdisk m5) 1) = root_bytes names @ replicate (512 * nb (16 * (length names + 2)) - 16 * (length names + 2)) 0 \<and>
      (\<forall>k\<ge>nb (16 * (length names + 2)). block_addr (vdisk m5) (inode_at (vdisk m5) 1) k = 0)"
    "(length names + 2) mod 32 = 0 \<longrightarrow> overlong (vdisk m5) (inode_at (vdisk m5) 1) (root_bytes names)"
    using fix_root_run [OF c(2) assms(5)] by (elim exE conjE) (rule that; assumption)
  have fb: "unat (freeblock m5) < 512" using c(2) d(3) blocks_table [OF assms(5)] assms(7) by (simp add: holds_def)
  then obtain m6 where e: "mk_balloc (usedblocks m5) m5 = Inr m6" "img_ok (img m6)" "disk_of (img m6) = vdisk m5" using mk_balloc_run [OF d(2)] by blast
  have "mkfs_main creat host after argv = Inr m6"
    using assms(1,2,4) z b(1-3) c(1) d(1) e(1)
    by (simp add: mkfs_main_def size0_def nblocks0_def ninodes0_def IPB_def BSIZE_def ROOTINO_def entry_def Let_def)
  moreover have "disk_ok (disk_of (img m6))" using e(2,3) disk_ok_vdisk [OF d(2)] by simp
  moreover have "sb_of (vdisk m5) = sb0" "\<not> marked (vdisk m5) b" if "512 \<le> unat b" "unat b < 4096" for b
    using sb_vdisk [OF d(2)] marked_vdisk [OF d(2) that(2)] that(1) fb by simp_all
  then have "sb_of (vdisk m5) = sb0" "\<forall>b. 512 \<le> unat b \<and> unat b < 4096 \<longrightarrow> \<not> marked (vdisk m5) b" using sb_vdisk [OF d(2)] by blast+
  ultimately show ?thesis using f e(2) unfolding e(3) [symmetric] by (intro exI [of _ m6] conjI) blast+
qed

text \<open>
  C19. The disk image is a file system: for a command line of at most 198 readable files that fit,
  \<^verbatim>\<open>mkfs\<close> succeeds, and its image is a disk with bitmap, inodes and data blocks in agreement, on which the \<open>i\<close>-th file is a
  well-formed regular file with the bytes of the host file at inode \<open>i + 2\<close>. Inode 1 is a directory that lists \<^verbatim>\<open>.\<close>, \<^verbatim>\<open>..\<close> and the files
  under their names without a leading underscore. When the number of its entries is not a multiple of 32, the directory is
  well formed, its entries padded with zeroes to whole blocks. When it is a multiple of 32 (30 files, for example), its
  entries are all there, but its size covers 512 bytes more, in a block that is not allocated, and the inode is not well
  formed.
\<close>

theorem mkfs_image:
  assumes "2 \<le> length argv" "creat (argv ! 1)" "500 \<le> length after" "names = drop 2 argv" "length names \<le> 198"
    "\<forall>a\<in>set names. usable host a" "29 + total host names < 512"
  shows "\<exists>m. mkfs_main creat host after argv = Inr m \<and> length (img m) = 1024 \<and> disk_ok (disk_of (img m)) \<and>
    (\<forall>i<length names. file_at (disk_of (img m)) (of_nat (i + 2)) T_FILE (bytes_of host (names ! i))) \<and>
    itype (inode_at (disk_of (img m)) 1) = T_DIR \<and>
    (if (length names + 2) mod 32 \<noteq> 0
     then file_inv (disk_of (img m)) (inode_at (disk_of (img m)) 1) \<and>
      contents (disk_of (img m)) (inode_at (disk_of (img m)) 1) =
        root_bytes names @ replicate (512 * nb (16 * (length names + 2)) - 16 * (length names + 2)) 0
     else overlong (disk_of (img m)) (inode_at (disk_of (img m)) 1) (root_bytes names))"
  using mkfs_files [of argv creat after names host, OF assms] unfolding img_ok_def if_bool_eq_conj by blast

section \<open>An image with one file\<close>

definition demo_host :: "u8 list \<rightharpoonup> u8 list list" where
  "demo_host = [[0x5f, 0x61] \<mapsto> [[7, 8], [9]]]"

definition demo_argv :: "u8 list list" where
  "demo_argv = [[0x6d], [0x66], [0x5f, 0x61]]"

lemma demo_usable:
  "2 \<le> length demo_argv" "drop 2 demo_argv = [[0x5f, 0x61]]" "usable demo_host [0x5f, 0x61]" "total demo_host [[0x5f, 0x61]] = 2"
  "bytes_of demo_host [0x5f, 0x61] = [7, 8, 9]"
  by (simp_all add: demo_argv_def demo_host_def usable_def bytes_of_def total_def SLASH_def blocks_of_def nb_def)

theorem mkfs_image_witness:
  "\<exists>m. mkfs_main (\<lambda>_. True) demo_host (replicate 500 0) demo_argv = Inr m \<and> contents (disk_of (img m)) (inode_at (disk_of (img m)) 2) = [7, 8, 9]"
  using mkfs_image [of demo_argv "\<lambda>_. True" "replicate 500 0" "[[0x5f, 0x61]]" demo_host] demo_usable by (auto simp: file_at_def)

end
