(* ===== verification/Fs_Link.thy ===== *)
theory Fs_Link
  imports Fs_Path
begin

text \<open>
  Adding a name to a directory: \<^verbatim>\<open>dirlink\<close> overwrites the first free slot of the directory, or appends one.
\<close>

section \<open>The search for a free slot\<close>

definition free_slot :: "u8 list \<Rightarrow> nat" where
  "free_slot c = (case find (\<lambda>k. de_inum c (16 * k) = 0) [0..<length c div 16] of Some k \<Rightarrow> k | None \<Rightarrow> length c div 16)"

lemma de_inum_slice: "16 * k + 16 \<le> length c \<Longrightarrow> de_inum (take 16 (drop (16 * k) c)) 0 = de_inum c (16 * k)"
  by (simp add: de_inum_def get16_def)

lemma dirlink_loop_run:
  assumes "quiet s" "D = disk s" "ip = icache s ! i" "file_inv D ip" "itype ip \<noteq> T_DEV" "unat (isize ip) = 16 * t" "k \<le> t" "t - k < f"
  shows "\<exists>s'. dirlink_loop f dv i (of_nat (16 * k)) s =
      Inr (of_nat (16 * (case find (\<lambda>j. de_inum (contents D ip) (16 * j) = 0) [k..<t] of Some j \<Rightarrow> j | None \<Rightarrow> t)), s') \<and>
    quiet s' \<and> disk s' = D \<and> rest s' = rest s"
  using assms
proof (induction f arbitrary: k s)
  case (Suc f)
  let ?o = "of_nat (16 * k) :: u32" and ?c = "contents D ip"
  have sz: "16 * t \<le> 71680" using Suc.prems(4,6) by (simp add: file_inv_def file_sizes)
  have o: "unat ?o = 16 * k" using sz Suc.prems(7) by (intro unat_of_nat32) simp
  have lt: "?o < isize ip \<longleftrightarrow> k < t" using o Suc.prems(6) by (simp add: word_less_nat_alt)
  show ?case
  proof (cases "k < t")
    case False
    then have "k = t" using Suc.prems(7) by simp
    then show ?thesis using lt False Suc.prems(1-3) by (subst dirlink_loop.simps) auto
  next
    case True
    have "unat (?o + 16) = 16 * k + 16" unfolding unat_word_ariths o using True sz by simp
    then have le: "?o \<le> isize ip" "?o \<le> ?o + 16" unfolding word_le_nat_alt o Suc.prems(6) using True by simp_all
    have u: "unat (isize ip - ?o) = 16 * t - 16 * k" using le(1) o Suc.prems(6) by (simp add: unat_sub)
    then have "16 \<le> unat (isize ip - ?o)" using True by linarith
    then have m: "min 16 (isize ip - ?o) = 16" by (simp add: min_def word_le_nat_alt)
    obtain s1 where r: "readi dv i ?o 16 s = Inr (16, take 16 (drop (16 * k) ?c), s1)" "quiet s1" "disk s1 = D" "icache s1 = icache s" "rest s1 = rest s"
      using readi_law [OF Suc.prems(1), of bitmap_size i ?o 16 dv] Suc.prems(2-5) le m o by auto
    have d: "de_inum (take 16 (drop (16 * k) ?c)) 0 = de_inum ?c (16 * k)" using True Suc.prems(6) by (intro de_inum_slice) simp
    have step: "dirlink_loop (Suc f) dv i ?o s = (if de_inum ?c (16 * k) = 0 then Inr (?o, s1) else dirlink_loop f dv i (?o + 16) s1)"
      using lt True r(1) d Suc.prems(3) by (subst dirlink_loop.simps) simp
    have up: "[k..<t] = k # [Suc k..<t]" using True by (rule upt_conv_Cons)
    show ?thesis
    proof (cases "de_inum ?c (16 * k) = 0")
      case True
      then show ?thesis using step r by (auto simp: up)
    next
      case False
      have n: "?o + 16 = of_nat (16 * Suc k)" by simp
      show ?thesis using step [unfolded n] False Suc.IH [of s1 "Suc k"] r Suc.prems(3-8) True by (auto simp: up)
    qed
  qed
qed simp

section \<open>Writing a slot\<close>

lemma slot_written:
  assumes "16 * k \<le> length c" "length e = 16"
  shows "de_inum (overwrite (16 * k) e c) (16 * k) = de_inum e 0" "de_name (overwrite (16 * k) e c) (16 * k) = de_name e 0"
    "j \<noteq> k \<Longrightarrow> 16 * j + 16 \<le> length c \<Longrightarrow> de_inum (overwrite (16 * k) e c) (16 * j) = de_inum c (16 * j)"
    "j \<noteq> k \<Longrightarrow> 16 * j + 16 \<le> length c \<Longrightarrow> de_name (overwrite (16 * k) e c) (16 * j) = de_name c (16 * j)"
proof -
  let ?c = "overwrite (16 * k) e c"
  have at: "?c ! (16 * k + q) = e ! q" if "q < 16" for q using that assms by (simp add: overwrite_def nth_append)
  show "de_inum ?c (16 * k) = de_inum e 0" using at [of 0] at [of 1] by (simp add: de_inum_def get16_def)
  have "drop (16 * k) ?c = e @ drop (16 * k + 16) c" using assms by (simp add: overwrite_def)
  moreover have "drop (16 * k + 2) ?c = drop 2 (drop (16 * k) ?c)" by (simp only: drop_drop add.commute)
  ultimately show "de_name ?c (16 * k) = de_name e 0" unfolding de_name_def using assms(2) by (simp add: DIRSIZ_def numeral_2_eq_2)
  assume j: "j \<noteq> k" "16 * j + 16 \<le> length c"
  have l: "length c \<le> length ?c" using assms by (simp add: overwrite_def)
  have old: "?c ! (16 * j + q) = c ! (16 * j + q)" if "q < 16" for q
  proof (cases "j < k")
    case True
    then have "16 * j + q < 16 * k" using that by linarith
    then show ?thesis using assms by (simp add: overwrite_def nth_append)
  next
    case False
    then have "16 * k + 16 \<le> 16 * j + q" using j(1) by linarith
    then have "\<not> 16 * j + q < 16 * k" "\<not> 16 * j + q - 16 * k < 16" "16 * k + 16 + (16 * j + q - 16 * k - 16) = 16 * j + q" by linarith+
    then show ?thesis using assms j(2) that by (simp add: overwrite_def nth_append not_less)
  qed
  show "de_inum ?c (16 * j) = de_inum c (16 * j)" using old [of 0] old [of 1] by (simp add: de_inum_def get16_def)
  show "de_name ?c (16 * j) = de_name c (16 * j)" unfolding de_name_def
    using j(2) l old [of "q + 2" for q] by (intro nth_equalityI) (auto simp: DIRSIZ_def add.assoc)
qed

lemma dirent_slot: "de_inum (dirent_bytes n nm) 0 = n" "cname (de_name (dirent_bytes n nm) 0) = cname nm" "length (dirent_bytes n nm) = 16"
proof -
  show "de_inum (dirent_bytes n nm) 0 = n" by (simp add: de_inum_def dirent_bytes_def get16_def)
  show "length (dirent_bytes n nm) = 16" by (simp add: dirent_bytes_def DIRSIZ_def length_strncpy_bytes)
  have "de_name (dirent_bytes n nm) 0 = padded DIRSIZ (cname nm)"
    by (simp add: de_name_def dirent_bytes_def strncpy_bytes_def cname_def padded_def length_cstr)
  moreover have "cname (padded DIRSIZ (cname nm)) = cname nm"
  proof (cases "length (cname nm) = DIRSIZ")
    case True
    then show ?thesis using cname_idem [of nm] by (simp add: padded_def)
  next
    case False
    then have "length (cname nm) < DIRSIZ" using length_cstr [of "array nm" DIRSIZ] by (simp add: cname_def)
    moreover have "0 \<notin> set (cname nm)" by (auto simp: cname_def cstr_def dest: set_takeWhileD)
    ultimately show ?thesis unfolding cname_def [of "padded _ _"] by (intro cstr_ends) (auto simp: array_def padded_def nth_append)
  qed
  ultimately show "cname (de_name (dirent_bytes n nm) 0) = cname nm" by simp
qed

text \<open>The slots within the size of the directory are the first slots \<^verbatim>\<open>dirlookup\<close> sees.\<close>

lemma dir_bytes_contents:
  assumes "16 * k + 16 \<le> unat (isize ip)"
  shows "de_inum (dir_bytes D ip) (16 * k) = de_inum (contents D ip) (16 * k)" "binds (dir_bytes D ip) nm k = binds (contents D ip) nm k"
proof -
  let ?L = "unat (isize ip)"
  have L: "?L \<le> 512 * nb ?L" unfolding nb_def using dividend_less_div_times [of 512 "?L + 511"] by simp
  have n: "dir_bytes D ip ! j = contents D ip ! j" if "j < ?L" for j using that L by (simp add: dir_bytes_def contents_def)
  show i: "de_inum (dir_bytes D ip) (16 * k) = de_inum (contents D ip) (16 * k)" using assms n by (simp add: de_inum_def get16_def)
  have "de_name (dir_bytes D ip) (16 * k) = de_name (contents D ip) (16 * k)" unfolding de_name_def
    using assms L n by (intro nth_equalityI) (auto simp: DIRSIZ_def)
  then show "binds (dir_bytes D ip) nm k = binds (contents D ip) nm k" using i by (simp add: binds_def)
qed

section \<open>Linking a name\<close>

lemma touched_slot: "touched (16 * k) 16 = 1"
proof -
  have "16 * k mod 512 = 16 * (k mod 32)" using mult_mod_right [of 16 k 32] by simp
  moreover have "k mod 32 < 32" by simp
  ultimately have "16 * k mod 512 + 15 < 512" by linarith
  then show ?thesis using div_within [of "16 * k" 512 15] by (simp add: touched_def)
qed

lemma dirlink_run:
  assumes q: "quiet s" and D: "D = disk s" and ok: "icache_ok D L (icache s)" "\<forall>i\<in>L. i < length (icache s) \<and> 0 < iref (icache s ! i)"
    and e: "entry_of n i (icache s)" "dinode_of (icache s ! i) = disk_inode D n" and f: "file_inv D (inode_at D n)" "itype (inode_at D n) = T_DIR"
    and room: "card (cached (refs (icache s))) < length (icache s)" and free: "child D n nm = None"
    and sz: "unat (isize (inode_at D n)) = 16 * t" "t < 4480" and sp: "4 \<le> space D" and k: "k = free_slot (contents D (inode_at D n))"
  shows "\<exists>s' ip'. dirlink dv i nm m s = Inr (0, s') \<and> quiet s' \<and> icache s' = (icache s)[i := ip'] \<and> file_inv (disk s') ip' \<and>
    contents (disk s') ip' = overwrite (16 * k) (dirent_bytes (ucast m) nm) (contents D (inode_at D n)) \<and> itype ip' = T_DIR \<and> inum ip' = n \<and> sb_of (disk s') = sb_of D \<and>
    (\<forall>c. data_block D c \<longrightarrow> data_block (disk s') c \<and> (\<not> owns D (inode_at D n) c \<longrightarrow> disk s' c = D c \<and> \<not> owns (disk s') ip' c)) \<and>
    (\<forall>m. m \<noteq> n \<and> m < ninodes (sb_of D) \<longrightarrow> disk_inode (disk s') m = disk_inode D m) \<and> frame s s' \<and>
    dinode_of ip' = disk_inode (disk s') n \<and> (\<exists>as. ip' = (icache s ! i)\<lparr>addrs := as, isize := isize ip'\<rparr>) \<and>
    (\<forall>j. \<not> (16 * k \<le> j \<and> j < 16 * k + 16) \<longrightarrow>
      (block_addr D (inode_at D n) (j div 512) \<noteq> 0 \<longrightarrow> file_byte (disk s') ip' j = file_byte D (inode_at D n) j) \<and>
      (block_addr D (inode_at D n) (j div 512) = 0 \<and> block_addr (disk s') ip' (j div 512) \<noteq> 0 \<longrightarrow> file_byte (disk s') ip' j = 0))"
proof -
  let ?ip = "icache s ! i" and ?c = "contents D (inode_at D n)"
  note lf = loaded_file [OF ok(1) e]
  have ip: "file_inv D ?ip" "contents D ?ip = ?c" "itype ?ip = T_DIR" "unat (isize ?ip) = 16 * t" using lf f sz by simp_all
  obtain s1 where s1: "dirlookup i nm s = Inr (None, s1)" "cache_at s L (refs (icache s)) s1" "icache s1 = icache s"
    using dirlookup_law [OF q D ok e f room, of nm] free by auto
  have q1: "quiet s1" "disk s1 = D" "frame s s1" using s1(2) D by (auto simp: cache_at_def)
  have nd: "itype ?ip \<noteq> T_DEV" using ip(3) by (simp add: T_DIR_def T_DEV_def)
  have fk: "free_slot ?c = (case find (\<lambda>j. de_inum ?c (16 * j) = 0) [0..<t] of Some j \<Rightarrow> j | None \<Rightarrow> t)"
    using length_file_contents [of D "inode_at D n"] sz(1) unfolding free_slot_def by (simp cong: option.case_cong)
  obtain s2 where s2: "dirlink_loop (2 ^ 28) dv i 0 s1 = Inr (of_nat (16 * k), s2)" "quiet s2" "disk s2 = D" "rest s2 = rest s1"
    using dirlink_loop_run [of s1 D ?ip i t 0 "2 ^ 28" dv] q1 ip nd sz(2) s1(3) unfolding k fk by auto
  have ic2: "icache s2 = icache s" using rest_icache [OF s2(4)] s1(3) by simp
  have kt: "k \<le> t" unfolding k fk by (auto split: option.split dest!: find_in_set)
  have o: "unat (of_nat (16 * k) :: u32) = 16 * k" using kt sz(2) by (intro unat_of_nat32) simp
  have w: "D = disk s2" "?ip = icache s2 ! i" "i < length (icache s2)" using s2(3) ic2 e(1) by (simp_all add: entry_of_def)
  have "of_nat (16 * k) \<le> isize ?ip" "unat (of_nat (16 * k) :: u32) + unat (16 :: u32) \<le> MAXFILE * BSIZE" "unat (16 :: u32) \<le> length (dirent_bytes (ucast m) nm)"
    using kt sz(2) ip(4) unfolding word_le_nat_alt o by (simp_all add: dirent_slot file_sizes)
  note wl = writei_law [OF s2(2) w ip(1) nd this, of dv]
  have "addrs ?ip = addrs (inode_at D n)" using arg_cong [OF e(2), of daddrs] by (simp add: dinode_of_def)
  then have ba: "block_addr D ?ip = block_addr D (inode_at D n)" by (intro block_addr_cong) auto
  then have fb: "file_byte D ?ip = file_byte D (inode_at D n)" by (simp add: file_byte_def fun_eq_iff)
  have ow: "owns D ?ip c = owns D (inode_at D n) c" for c
    using ba \<open>addrs ?ip = _\<close> by (simp add: owns_def)
  have nu: "inum ?ip = n" using e(1) by (simp add: entry_of_def)
  show ?thesis using wl
  proof (elim disjE exE conjE, goal_cases)
    case 1
    then show ?case using sp touched_slot [of k] unfolding o by simp
  next
    case (2 s3 ip3 as)
    have "dirlink dv i nm m s = Inr (0, s3)" using s1(1) s2(1) 2(1) by (simp add: dirlink_def)
    moreover have "frame s s3" using frame_trans [OF q1(3)] frame_rest [of s3 s1] 2(11) s2(4) by simp
    moreover have "contents (disk s3) ip3 = overwrite (16 * k) (dirent_bytes (ucast m) nm) ?c"
      using 2(5) ip(2) o by (simp add: dirent_slot)
    moreover have "inum ip3 = n" using 2(12) nu by (metis inode.select_convs(2) inode.surjective inode.update_convs(9,10))
    moreover have "dinode_of ip3 = disk_inode (disk s3) n"
      using 2(6,13) e(2) nu by (cases "unat (isize ?ip) < unat (of_nat (16 * k) :: u32) + unat (16 :: u32)") auto
    ultimately show ?case using 2(2-4,7-10,12,14) ip(3) unfolding ic2 ow nu ba fb o by auto
  qed
qed

section \<open>The directory as a map\<close>

lemma zero_slot: "length c \<le> 16 * j \<Longrightarrow> 16 * j + 16 \<le> length c + n \<Longrightarrow> de_inum (c @ replicate n 0) (16 * j) = 0"
  by (simp add: de_inum_def get16_def nth_append)

lemma append_slot:
  assumes "16 * j + 16 \<le> length c"
  shows "de_inum (c @ zs) (16 * j) = de_inum c (16 * j)" "binds (c @ zs) e j = binds c e j"
proof -
  show i: "de_inum (c @ zs) (16 * j) = de_inum c (16 * j)" using assms by (simp add: de_inum_def get16_def nth_append)
  have "de_name (c @ zs) (16 * j) = de_name c (16 * j)" using assms by (simp add: de_name_def DIRSIZ_def)
  then show "binds (c @ zs) e j = binds c e j" using i by (simp add: binds_def)
qed

lemma find_upt_none: "(\<And>j. a \<le> j \<Longrightarrow> j < b \<Longrightarrow> \<not> P j) \<Longrightarrow> find P [a..<b] = None"
  by (simp add: find_None_iff)

lemma find_first:
  assumes "k < n" "P k" "\<And>j. j < n \<Longrightarrow> P j \<Longrightarrow> j = k"
  shows "find P [0..<n] = Some k"
proof -
  have "\<not> P j" if "j < k" for j using assms(1) assms(3) [of j] that by auto
  then show ?thesis unfolding find_Some_iff using assms(1,2) by (intro exI [of _ k]) simp
qed

text \<open>Writing an entry to a free slot binds its name, and no other.\<close>

lemma dir_find_written:
  assumes c: "length c = 16 * a" and z: "zs = replicate (16 * b) 0" and k: "k < a + b" "de_inum (c @ zs) (16 * k) = 0" and n: "n \<noteq> 0" "dir_find c nm = None"
  shows "dir_find (overwrite (16 * k) (dirent_bytes n nm) (c @ zs)) e = (if cname e = cname nm then Some k else dir_find c e)"
    "de_inum (overwrite (16 * k) (dirent_bytes n nm) (c @ zs)) (16 * k) = n"
    "j < a \<Longrightarrow> j \<noteq> k \<Longrightarrow> de_inum (overwrite (16 * k) (dirent_bytes n nm) (c @ zs)) (16 * j) = de_inum c (16 * j)"
proof -
  let ?c = "overwrite (16 * k) (dirent_bytes n nm) (c @ zs)"
  have l: "length (c @ zs) = 16 * (a + b)" "16 * k \<le> length (c @ zs)" using c z k(1) by simp_all
  note sw = slot_written [OF l(2) dirent_slot(3)]
  have lc: "length ?c div 16 = a + b" using l k(1) by (simp add: overwrite_def dirent_slot)
  show i: "de_inum ?c (16 * k) = n" by (simp add: sw(1) dirent_slot)
  have bk: "binds ?c e k \<longleftrightarrow> cname e = cname nm" for e using n(1) by (simp add: binds_def sw(1,2) dirent_slot)
  have other: "binds ?c e j = (j < a \<and> binds c e j)" if "j \<noteq> k" "j < a + b" for e j
  proof (cases "j < a")
    case True
    have "binds ?c e j = binds (c @ zs) e j" using sw(3,4) [OF that(1)] that(2) l(1) by (simp add: binds_def)
    also have "\<dots> = binds c e j" using True c by (intro append_slot) simp
    finally show ?thesis using True by simp
  next
    case False
    have "de_inum ?c (16 * j) = de_inum (c @ zs) (16 * j)" using sw(3) [OF that(1)] that(2) l(1) by simp
    also have "\<dots> = 0" unfolding z using False c that(2) by (intro zero_slot) simp_all
    finally show ?thesis using False by (simp add: binds_def)
  qed
  have kc: "\<not> binds c e k" if "k < a" for e
    using k(2) append_slot(1) [of k c zs] that c by (simp add: binds_def)
  have nn: "\<not> binds c nm j" if "j < a" for j using n(2) that c by (simp add: dir_find_def find_None_iff)
  show "dir_find ?c e = (if cname e = cname nm then Some k else dir_find c e)"
  proof (cases "cname e = cname nm")
    case True
    then have be: "binds c e = binds c nm" by (simp add: binds_def fun_eq_iff)
    have "j = k" if "j < a + b" "binds ?c e j" for j using other [of j e] nn [of j] that unfolding be by (cases "j = k") auto
    then have "find (binds ?c e) [0..<a + b] = Some k" using k(1) bk True by (intro find_first) auto
    then show ?thesis using True by (simp add: dir_find_def lc)
  next
    case False
    have eq: "binds ?c e j = (j < a \<and> binds c e j)" if "j < a + b" for j using other [of j e] kc [of e] bk False that by (cases "j = k") auto
    have "[0..<a + b] = [0..<a] @ [a..<a + b]" by (rule upt_add_eq_append) simp
    moreover have "find (binds ?c e) [a..<a + b] = None" using eq by (intro find_upt_none) simp
    moreover have "find (binds ?c e) [0..<a] = find (binds c e) [0..<a]" using eq by (intro find_cong_set) simp
    ultimately have "find (binds ?c e) [0..<a + b] = find (binds c e) [0..<a]" by (simp add: find_append split: option.split)
    then show ?thesis using False c by (simp add: dir_find_def lc)
  qed
  show "de_inum ?c (16 * j) = de_inum c (16 * j)" if "j < a" "j \<noteq> k"
    using sw(3) [OF that(2)] append_slot(1) [of j c zs] that(1) c l(1) by simp
qed

text \<open>
  A directory in good order: whole slots, and only zeroes behind its end, in the rest of its last block (which
  \<^verbatim>\<open>dirlookup\<close> scans too) and in the blocks it may have beyond.
\<close>

definition dir_ok :: "(u32 \<Rightarrow> u8 list) \<Rightarrow> inode \<Rightarrow> bool" where
  "dir_ok D ip \<longleftrightarrow> file_inv D ip \<and> itype ip = T_DIR \<and> unat (isize ip) mod 16 = 0 \<and>
     (\<forall>j. unat (isize ip) \<le> j \<and> block_addr D ip (j div 512) \<noteq> 0 \<longrightarrow> file_byte D ip j = 0)"

lemma nb_bounds: "L \<le> 512 * nb L" "512 * nb L < L + 512"
proof -
  have "L + 511 < 512 * nb L + 512" unfolding nb_def using dividend_less_div_times [of 512 "L + 511"] by simp
  then show "L \<le> 512 * nb L" by linarith
  have "512 * nb L \<le> L + 511" unfolding nb_def by (rule times_div_less_eq_dividend)
  then show "512 * nb L < L + 512" by linarith
qed

lemma block_in_size:
  assumes "file_inv D ip" "j < 512 * nb (unat (isize ip))"
  shows "block_addr D ip (j div 512) \<noteq> 0"
proof -
  have "j div 512 < nb (unat (isize ip))" using assms(2) by (simp add: less_mult_imp_div_less mult.commute)
  then have "512 * (j div 512) < unat (isize ip)" by (simp add: nb_less)
  then show ?thesis using assms(1) by (auto simp: file_inv_def allocated_def dest: spec [of _ "512 * (j div 512)"])
qed

lemma dir_bytes_written:
  assumes d: "dir_ok D ip" and fi: "file_inv D' ip'" and k: "16 * k \<le> unat (isize ip)" "length xs = 16" "unat (isize ip') = max (unat (isize ip)) (16 * k + 16)"
    and c: "contents D' ip' = overwrite (16 * k) xs (contents D ip)"
    and b: "\<forall>j. \<not> (16 * k \<le> j \<and> j < 16 * k + 16) \<longrightarrow>
      (block_addr D ip (j div 512) \<noteq> 0 \<longrightarrow> file_byte D' ip' j = file_byte D ip j) \<and>
      (block_addr D ip (j div 512) = 0 \<and> block_addr D' ip' (j div 512) \<noteq> 0 \<longrightarrow> file_byte D' ip' j = 0)"
  shows "\<exists>a. dir_bytes D' ip' = overwrite (16 * k) xs (dir_bytes D ip @ replicate (16 * a) 0) \<and> k < 32 * nb (unat (isize ip)) + a"
proof -
  let ?n = "nb (unat (isize ip))" and ?n' = "nb (unat (isize ip'))"
  let ?zs = "replicate (16 * (32 * (?n' - ?n))) 0 :: u8 list"
  have D: "file_inv D ip" "\<And>j. unat (isize ip) \<le> j \<Longrightarrow> block_addr D ip (j div 512) \<noteq> 0 \<Longrightarrow> file_byte D ip j = 0" using d by (auto simp: dir_ok_def)
  have "?n \<le> ?n'" using k(3) by (simp add: nb_def div_le_mono)
  then have l: "length (dir_bytes D ip @ ?zs) = 512 * ?n'" by simp
  have k': "16 * k + 16 \<le> 512 * ?n'" using nb_bounds(1) [of "unat (isize ip')"] k(3) by linarith
  have "dir_bytes D' ip' = overwrite (16 * k) xs (dir_bytes D ip @ ?zs)"
  proof (rule nth_equalityI)
    show "length (dir_bytes D' ip') = length (overwrite (16 * k) xs (dir_bytes D ip @ ?zs))" using k' k(2) l by (simp add: overwrite_def)
  next
    fix j assume "j < length (dir_bytes D' ip')"
    then have j: "j < 512 * ?n'" by simp
    have lhs: "dir_bytes D' ip' ! j = file_byte D' ip' j" using j by (simp add: dir_bytes_def)
    have rhs: "overwrite (16 * k) xs (dir_bytes D ip @ ?zs) ! j = (if 16 * k \<le> j \<and> j < 16 * k + 16 then xs ! (j - 16 * k) else (dir_bytes D ip @ ?zs) ! j)"
      by (subst nth_overwrite, unfold l k(2)) (use j k' in simp_all)
    show "dir_bytes D' ip' ! j = overwrite (16 * k) xs (dir_bytes D ip @ ?zs) ! j"
    proof (cases "16 * k \<le> j \<and> j < 16 * k + 16")
      case True
      then have "j < unat (isize ip')" using k(3) by (simp add: less_max_iff_disj)
      then have "file_byte D' ip' j = contents D' ip' ! j" by (simp add: contents_def)
      moreover have "j - 16 * k < 16" using True by linarith
      ultimately show ?thesis using True k(1,2) unfolding lhs rhs c by (simp add: overwrite_def nth_append)
    next
      case False
      then have r: "overwrite (16 * k) xs (dir_bytes D ip @ ?zs) ! j = (dir_bytes D ip @ ?zs) ! j" using rhs by auto
      show ?thesis
      proof (cases "j < 512 * ?n")
        case True
        then have "file_byte D' ip' j = file_byte D ip j" using b False block_in_size [OF D(1) True] by blast
        then show ?thesis using True unfolding lhs r by (simp add: nth_append) (simp add: dir_bytes_def)
      next
        case nj: False
        then have "unat (isize ip) \<le> j" using nb_bounds(1) [of "unat (isize ip)"] by linarith
        then have "file_byte D' ip' j = 0" using b False block_in_size [OF fi j] D(2) by metis
        then show ?thesis using nj j unfolding lhs r by (simp add: nth_append)
      qed
    qed
  qed
  moreover have "k < 32 * ?n + 32 * (?n' - ?n)" using k' \<open>?n \<le> ?n'\<close> by linarith
  ultimately show ?thesis by blast
qed

lemma dir_ok_written:
  assumes d: "dir_ok D ip" and fi: "file_inv D' ip'" "itype ip' = T_DIR" and k: "16 * k \<le> unat (isize ip)" "unat (isize ip') = max (unat (isize ip)) (16 * k + 16)"
    and b: "\<forall>j. \<not> (16 * k \<le> j \<and> j < 16 * k + 16) \<longrightarrow>
      (block_addr D ip (j div 512) \<noteq> 0 \<longrightarrow> file_byte D' ip' j = file_byte D ip j) \<and>
      (block_addr D ip (j div 512) = 0 \<and> block_addr D' ip' (j div 512) \<noteq> 0 \<longrightarrow> file_byte D' ip' j = 0)"
  shows "dir_ok D' ip'"
proof -
  have D: "unat (isize ip) mod 16 = 0" "\<And>j. unat (isize ip) \<le> j \<Longrightarrow> block_addr D ip (j div 512) \<noteq> 0 \<Longrightarrow> file_byte D ip j = 0" using d by (auto simp: dir_ok_def)
  have "file_byte D' ip' j = 0" if j: "unat (isize ip') \<le> j" "block_addr D' ip' (j div 512) \<noteq> 0" for j
  proof -
    have "\<not> (16 * k \<le> j \<and> j < 16 * k + 16)" "unat (isize ip) \<le> j" using j(1) k(2) by auto
    then show ?thesis using b j(2) D(2) by metis
  qed
  moreover have "unat (isize ip') mod 16 = 0" using k(2) D(1) by (auto simp: max_def)
  ultimately show ?thesis using fi by (simp add: dir_ok_def)
qed

text \<open>The slot \<^verbatim>\<open>dirlink\<close> uses is free.\<close>

lemma free_slot_props:
  assumes d: "dir_ok D ip" and t: "unat (isize ip) = 16 * t"
  shows "free_slot (contents D ip) \<le> t" "16 * free_slot (contents D ip) + 16 \<le> 512 * nb (unat (isize ip)) \<Longrightarrow> de_inum (dir_bytes D ip) (16 * free_slot (contents D ip)) = 0"
proof -
  let ?k = "free_slot (contents D ip)"
  have fk: "?k = (case find (\<lambda>j. de_inum (contents D ip) (16 * j) = 0) [0..<t] of Some j \<Rightarrow> j | None \<Rightarrow> t)"
    using length_file_contents [of D ip] t unfolding free_slot_def by (simp cong: option.case_cong)
  show kt: "?k \<le> t" unfolding fk by (auto split: option.split dest!: find_in_set)
  assume le: "16 * ?k + 16 \<le> 512 * nb (unat (isize ip))"
  show "de_inum (dir_bytes D ip) (16 * ?k) = 0"
  proof (cases "?k < t")
    case True
    then have "de_inum (contents D ip) (16 * ?k) = 0" unfolding fk by (auto split: option.splits dest!: find_in_set)
    then show ?thesis using dir_bytes_contents(1) [of ?k ip D] True t by simp
  next
    case False
    then have k: "?k = t" using kt by simp
    have "dir_bytes D ip ! j = 0" if "16 * t \<le> j" "j < 512 * nb (unat (isize ip))" for j
      using that d block_in_size [of D ip j] t by (simp add: dir_ok_def) (simp add: dir_bytes_def)
    then show ?thesis using le unfolding k by (simp add: de_inum_def get16_def)
  qed
qed

lemma loaded_dir:
  assumes "icache_ok D L ic" "entry_of n i ic" "dinode_of (ic ! i) = disk_inode D n"
  shows "dir_ok D (ic ! i) = dir_ok D (inode_at D n)"
proof -
  have "addrs (ic ! i) = addrs (inode_at D n)" using arg_cong [OF assms(3), of daddrs] by (simp add: dinode_of_def)
  then have "block_addr D (ic ! i) = block_addr D (inode_at D n)" by (intro block_addr_cong) auto
  then show ?thesis using loaded_file [OF assms] by (simp add: dir_ok_def file_byte_def)
qed

section \<open>Linking refines updating the map\<close>

text \<open>Every referenced inode exists on the disk.\<close>

definition in_table :: "(u32 \<Rightarrow> u8 list) \<Rightarrow> inode list \<Rightarrow> bool" where
  "in_table D ic \<longleftrightarrow> (\<forall>j<length ic. 0 < iref (ic ! j) \<longrightarrow> inum (ic ! j) < ninodes (sb_of D))"

lemma icache_ok_written:
  assumes "icache_ok D L ic" "in_table D ic" "entry_of n i ic" "ip' = (ic ! i)\<lparr>addrs := as, isize := z\<rparr>" "dinode_of ip' = disk_inode D' n"
    "\<forall>m. m \<noteq> n \<and> m < ninodes (sb_of D) \<longrightarrow> disk_inode D' m = disk_inode D m"
  shows "icache_ok D' L (ic[i := ip'])" "refs (ic[i := ip']) = refs ic" "entry_of n i (ic[i := ip'])"
proof -
  have i: "i < length ic" "0 < iref (ic ! i)" "inum (ic ! i) = n" using assms(3) by (auto simp: entry_of_def)
  have "entry_ok D' (j \<in> L) (ic ! j)" if "j < length ic" "j \<noteq> i" for j
  proof -
    have "inum (ic ! j) \<noteq> n" if "0 < iref (ic ! j)" using icache_ok_unique [OF assms(1) \<open>j < length ic\<close> i(1) that i(2)] i(3) \<open>j \<noteq> i\<close> by auto
    then show ?thesis using icache_ok_entry [OF assms(1) that(1)] assms(2,6) that(1) by (auto simp: entry_ok_def in_table_def)
  qed
  moreover have f: "idev ip' = idev (ic ! i)" "iref ip' = iref (ic ! i)" "iflags ip' = iflags (ic ! i)" "inum ip' = inum (ic ! i)" using assms(4) by simp_all
  have "entry_ok D' (i \<in> L) ip'" using icache_ok_entry [OF assms(1) i(1)] i(3) assms(5) by (simp add: entry_ok_def f)
  moreover have "inum (ic[i := ip'] ! j) = inum (ic ! j)" "iref (ic[i := ip'] ! j) = iref (ic ! j)" if "j < length ic" for j
    using f i(1) that by (simp_all add: nth_list_update)
  ultimately show "icache_ok D' L (ic[i := ip'])" using assms(1) i(1) unfolding icache_ok_def by (simp add: nth_list_update)
  show "refs (ic[i := ip']) = refs ic" using i f by (simp add: fun_eq_iff refs_upd)
  show "entry_of n i (ic[i := ip'])" using i f by (simp add: entry_of_def)
qed

lemma dirlink_law:
  assumes q: "quiet s" and D: "D = disk s" and ok: "icache_ok D L (icache s)" "\<forall>i\<in>L. i < length (icache s) \<and> 0 < iref (icache s ! i)" "in_table D (icache s)"
    and e: "entry_of n i (icache s)" "dinode_of (icache s ! i) = disk_inode D n" and d: "dir_ok D (inode_at D n)"
    and room: "card (cached (refs (icache s))) < length (icache s)" and free: "child D n nm = None"
    and sz: "unat (isize (inode_at D n)) < 71680" and sp: "4 \<le> space D" and m: "m \<noteq> 0" "unat m < 65536"
  shows "\<exists>s'. dirlink dv i nm m s = Inr (0, s') \<and> quiet s' \<and> frame s s' \<and> icache_ok (disk s') L (icache s') \<and> refs (icache s') = refs (icache s) \<and>
    entry_of n i (icache s') \<and> dinode_of (icache s' ! i) = disk_inode (disk s') n \<and> dir_ok (disk s') (inode_at (disk s') n) \<and>
    child (disk s') n = (\<lambda>e. if cname e = cname nm then Some m else child D n e) \<and>
    (\<forall>m. m \<noteq> n \<and> m < ninodes (sb_of D) \<longrightarrow> disk_inode (disk s') m = disk_inode D m) \<and>
    (\<forall>c. data_block D c \<and> \<not> owns D (inode_at D n) c \<longrightarrow> disk s' c = D c) \<and> length (icache s') = length (icache s)"
proof -
  let ?ip = "inode_at D n" and ?k = "free_slot (contents D (inode_at D n))"
  have f: "file_inv D ?ip" "itype ?ip = T_DIR" using d by (simp_all add: dir_ok_def)
  obtain t where t: "unat (isize ?ip) = 16 * t" using d by (auto simp: dir_ok_def)
  have "t < 4480" using sz t by simp
  obtain s' ip' as where r: "dirlink dv i nm m s = Inr (0, s')" "quiet s'" "icache s' = (icache s)[i := ip']" "file_inv (disk s') ip'"
      "contents (disk s') ip' = overwrite (16 * ?k) (dirent_bytes (ucast m) nm) (contents D ?ip)" "itype ip' = T_DIR"
      "\<forall>c. data_block D c \<longrightarrow> data_block (disk s') c \<and> (\<not> owns D ?ip c \<longrightarrow> disk s' c = D c \<and> \<not> owns (disk s') ip' c)"
      "\<forall>m. m \<noteq> n \<and> m < ninodes (sb_of D) \<longrightarrow> disk_inode (disk s') m = disk_inode D m" "frame s s'"
      "dinode_of ip' = disk_inode (disk s') n" "ip' = (icache s ! i)\<lparr>addrs := as, isize := isize ip'\<rparr>"
      "\<forall>j. \<not> (16 * ?k \<le> j \<and> j < 16 * ?k + 16) \<longrightarrow>
        (block_addr D ?ip (j div 512) \<noteq> 0 \<longrightarrow> file_byte (disk s') ip' j = file_byte D ?ip j) \<and>
        (block_addr D ?ip (j div 512) = 0 \<and> block_addr (disk s') ip' (j div 512) \<noteq> 0 \<longrightarrow> file_byte (disk s') ip' j = 0)"
    using dirlink_run [OF q D ok(1,2) e f room free t \<open>t < 4480\<close> sp refl, of dv m] by blast
  note w = icache_ok_written [OF ok(1,3) e(1) r(11,10,8)]
  have i: "icache s' ! i = ip'" using r(3) e(1) by (simp add: entry_of_def)
  note fs = free_slot_props [OF d t]
  have k: "16 * ?k \<le> unat (isize ?ip)" using fs(1) t by simp
  have "unat (isize ip') = length (contents (disk s') ip')" by simp
  also have "\<dots> = max (unat (isize ?ip)) (16 * ?k + 16)" unfolding r(5) using k by (simp add: overwrite_def dirent_slot max_def)
  finally have z: "unat (isize ip') = max (unat (isize ?ip)) (16 * ?k + 16)" .
  have dok: "dir_ok (disk s') ip'" by (rule dir_ok_written [OF d r(4,6) k z r(12)])
  obtain a where a: "dir_bytes (disk s') ip' = overwrite (16 * ?k) (dirent_bytes (ucast m) nm) (dir_bytes D ?ip @ replicate (16 * a) 0)"
    and ka: "?k < 32 * nb (unat (isize ?ip)) + a"
    using dir_bytes_written [OF d r(4) k dirent_slot(3) z r(5,12)] by blast
  let ?c = "dir_bytes D ?ip" and ?n = "nb (unat (isize ?ip))"
  have kz: "de_inum (?c @ replicate (16 * a) 0) (16 * ?k) = 0"
  proof (cases "?k < 32 * ?n")
    case True
    then show ?thesis using fs(2) append_slot(1) [of ?k ?c] by simp
  next
    case False
    then show ?thesis using ka by (intro zero_slot) simp_all
  qed
  have um: "(ucast (ucast m :: u16) :: u32) = m" "(ucast m :: u16) \<noteq> 0"
  proof -
    have "unat (ucast m :: u16) = unat m" using m(2) by (simp add: unsigned_ucast_eq unsigned_take_bit_eq take_bit_nat_eq_self)
    then have "unat (ucast (ucast m :: u16) :: u32) = unat m" using m(2) by (simp add: unsigned_ucast_eq unsigned_take_bit_eq take_bit_nat_eq_self)
    then show "(ucast (ucast m :: u16) :: u32) = m" by (simp add: word_unat_eq_iff)
    then show "(ucast m :: u16) \<noteq> 0" using m(1) by auto
  qed
  have "dir_find ?c nm = None" using free f(2) by (simp add: child_def Let_def)
  note dw = dir_find_written [where a = "32 * ?n", OF _ refl ka kz um(2) this]
  have lf: "dir_bytes (disk s') ip' = dir_bytes (disk s') (inode_at (disk s') n)" "itype (inode_at (disk s') n) = T_DIR"
    using loaded_file(3,4) [OF w(1,3)] r(3,6,10) i by auto
  have "child (disk s') n e = (if cname e = cname nm then Some m else child D n e)" for e
  proof (cases "cname e = cname nm")
    case True
    then show ?thesis using f(2) lf(2) dw(1) [of e] dw(2) unfolding child_def Let_def lf(1) [symmetric] a by (simp add: um(1))
  next
    case False
    have "j < 32 * ?n \<and> j \<noteq> ?k" if h: "dir_find ?c e = Some j" for j
    proof -
      have j: "j < 32 * ?n" "binds ?c e j" using find_in_set [OF h [unfolded dir_find_def]] by auto
      moreover have "de_inum ?c (16 * j) = 0" if "j = ?k" using kz append_slot(1) [of j ?c] j(1) that by simp
      ultimately show ?thesis by (auto simp: binds_def)
    qed
    then have "map_option (\<lambda>k. ucast (de_inum (dir_bytes (disk s') ip') (16 * k))) (dir_find ?c e) = map_option (\<lambda>k. ucast (de_inum ?c (16 * k)) :: u32) (dir_find ?c e)"
      using dw(3) unfolding a by (cases "dir_find ?c e") auto
    then show ?thesis using False f(2) lf(2) dw(1) [of e] unfolding child_def Let_def lf(1) [symmetric] a by simp
  qed
  then have ch: "child (disk s') n = (\<lambda>e. if cname e = cname nm then Some m else child D n e)" by blast
  have "dir_ok (disk s') (inode_at (disk s') n)" using loaded_dir [OF w(1,3)] dok r(3,10) i by simp
  moreover have "length (icache s') = length (icache s)" using r(3) by simp
  ultimately show ?thesis using r(1,2,7-10) w ch i unfolding r(3) [symmetric] by blast
qed

text \<open>A name that is bound already is refused.\<close>

lemma dirlink_taken:
  assumes q: "quiet s" and D: "D = disk s" and ok: "icache_ok D L (icache s)" "\<forall>i\<in>L. i < length (icache s) \<and> 0 < iref (icache s ! i)"
    and e: "entry_of n i (icache s)" "dinode_of (icache s ! i) = disk_inode D n" and f: "file_inv D (inode_at D n)" "itype (inode_at D n) = T_DIR"
    and room: "card (cached (refs (icache s))) < length (icache s)" and b: "child D n nm = Some m0" "dnlink (disk_inode D m0) \<noteq> 0"
  shows "\<exists>s'. dirlink dv i nm m s = Inr (- 1, s') \<and> cache_at s L (refs (icache s)) s'"
proof -
  let ?r = "refs (icache s)"
  obtain j off s1 where s1: "dirlookup i nm s = Inr (Some (j, off), s1)" "cache_at s L (?r(m0 := ?r m0 + 1)) s1" "entry_of m0 j (icache s1)"
    using dirlookup_law [OF q D ok e f room, of nm] b(1) by auto
  have c: "quiet s1" "icache_ok (disk s1) L (icache s1)" "disk s1 = D" "refs (icache s1) = ?r(m0 := ?r m0 + 1)" using s1(2) D by (auto simp: cache_at_def)
  have u: "(?r(m0 := ?r m0 + 1))(m0 := (?r(m0 := ?r m0 + 1)) m0 - 1) = ?r" by simp
  obtain s2 where "iput j s1 = Inr s2" "cache_at s1 L ?r s2" using iput_law [OF c(1,2) s1(3)] b(2) unfolding c(3,4) u by auto
  then show ?thesis using s1(1) cache_at_trans [OF s1(2)] by (auto simp: dirlink_def)
qed

section \<open>Properties\<close>

text \<open>
  C21. Adding a name refines updating a map: on a locked directory in good order, \<^verbatim>\<open>dirlink\<close> of a name that is not
  bound binds it to the inode and changes the binding of no other name; the directory stays in good order, the
  inodes of other files and the blocks the directory does not own are unchanged, the copy of the inode in memory
  agrees with the disk, and a \<^verbatim>\<open>dirlookup\<close> of the name now returns the inode. A name that is bound already is
  refused with \<open>- 1\<close>, with the disk and the reference counts as before.
\<close>

theorem dirlink_refines:
  assumes q: "quiet s" and ok: "icache_ok (disk s) {i} (icache s)" "in_table (disk s) (icache s)"
    and e: "entry_of n i (icache s)" "dinode_of (icache s ! i) = disk_inode (disk s) n" and d: "dir_ok (disk s) (inode_at (disk s) n)"
    and room: "card (cached (refs (icache s))) < length (icache s)" and b: "\<forall>m0. child (disk s) n nm = Some m0 \<longrightarrow> dnlink (disk_inode (disk s) m0) \<noteq> 0"
    and sz: "unat (isize (inode_at (disk s) n)) < 71680" and sp: "4 \<le> space (disk s)" and m: "m \<noteq> 0" "unat m < 65536"
  shows "case child (disk s) n nm of
      Some m0 \<Rightarrow> \<exists>s'. dirlink dv i nm m s = Inr (- 1, s') \<and> cache_at s {i} (refs (icache s)) s'
    | None \<Rightarrow> \<exists>s'. dirlink dv i nm m s = Inr (0, s') \<and>
        child (disk s') n = (\<lambda>e. if cname e = cname nm then Some m else child (disk s) n e) \<and> dir_ok (disk s') (inode_at (disk s') n) \<and>
        (\<forall>m. m \<noteq> n \<and> m < ninodes (sb_of (disk s)) \<longrightarrow> disk_inode (disk s') m = disk_inode (disk s) m) \<and>
        (\<forall>c. data_block (disk s) c \<and> \<not> owns (disk s) (inode_at (disk s) n) c \<longrightarrow> disk s' c = disk s c) \<and>
        icache_ok (disk s') {i} (icache s') \<and> refs (icache s') = refs (icache s) \<and>
        (\<exists>j off s''. dirlookup i nm s' = Inr (Some (j, off), s'') \<and> entry_of m j (icache s''))"
proof -
  let ?D = "disk s"
  have L: "\<forall>k\<in>{i}. k < length (icache s) \<and> 0 < iref (icache s ! k)" using e(1) by (simp add: entry_of_def)
  have f: "file_inv ?D (inode_at ?D n)" "itype (inode_at ?D n) = T_DIR" using d by (simp_all add: dir_ok_def)
  show ?thesis
  proof (cases "child ?D n nm")
    case (Some m0)
    then show ?thesis using dirlink_taken [OF q refl ok(1) L e f room Some, of dv m] b by auto
  next
    case None
    obtain s' where r: "dirlink dv i nm m s = Inr (0, s')" "quiet s'" "frame s s'" "icache_ok (disk s') {i} (icache s')" "refs (icache s') = refs (icache s)"
      "entry_of n i (icache s')" "dinode_of (icache s' ! i) = disk_inode (disk s') n" "dir_ok (disk s') (inode_at (disk s') n)"
      "child (disk s') n = (\<lambda>e. if cname e = cname nm then Some m else child ?D n e)"
      "\<forall>m. m \<noteq> n \<and> m < ninodes (sb_of ?D) \<longrightarrow> disk_inode (disk s') m = disk_inode ?D m"
      "\<forall>c. data_block ?D c \<and> \<not> owns ?D (inode_at ?D n) c \<longrightarrow> disk s' c = ?D c" "length (icache s') = length (icache s)"
      using dirlink_law [OF q refl ok(1) L ok(2) e d room None sz sp m, of dv] by blast
    have L': "\<forall>k\<in>{i}. k < length (icache s') \<and> 0 < iref (icache s' ! k)" using r(6) by (simp add: entry_of_def)
    have f': "file_inv (disk s') (inode_at (disk s') n)" "itype (inode_at (disk s') n) = T_DIR" using r(8) by (simp_all add: dir_ok_def)
    have "card (cached (refs (icache s'))) < length (icache s')" using room r(5,12) by simp
    from dirlookup_law [OF r(2) refl r(4) L' r(6,7) f' this, of nm]
    obtain j off s'' where "dirlookup i nm s' = Inr (Some (j, off), s'')" "entry_of m j (icache s'')" unfolding r(9) by auto
    then show ?thesis using None r(1,4,5,8-11) by auto
  qed
qed

end
