(* ===== verification/Mkfs_Boot.thy ===== *)
theory Mkfs_Boot
  imports Mkfs_Run Fs_Link
begin

text \<open>
  The kernel on an image built by \<^verbatim>\<open>mkfs\<close>: the path names of the files lead to their inodes, and reading these
  inodes returns the files.
\<close>

section \<open>The slots of the root directory\<close>

lemma chunk_slot:
  assumes "\<forall>e\<in>set es. length e = 16" "k < length es"
  shows "de_inum (concat es @ zs) (16 * k) = de_inum (es ! k) 0" "de_name (concat es @ zs) (16 * k) = de_name (es ! k) 0"
proof -
  have d: "drop (16 * k) (concat es @ zs) = es ! k @ concat (drop (Suc k) es) @ zs"
    using assms
  proof (induction es arbitrary: k)
    case (Cons e es)
    then show ?case by (cases k) simp_all
  qed simp
  have l: "length (es ! k) = 16" "16 * k \<le> length (concat es @ zs)"
  proof -
    show "length (es ! k) = 16" using assms by simp
    have "length (concat es) = 16 * length es" using assms(1) by (induction es) auto
    then show "16 * k \<le> length (concat es @ zs)" using assms(2) by simp
  qed
  have n: "(concat es @ zs) ! (16 * k + q) = es ! k ! q" if "q < 16" for q
  proof -
    have "(concat es @ zs) ! (16 * k + q) = drop (16 * k) (concat es @ zs) ! q" using l(2) by (rule nth_drop [symmetric])
    then show ?thesis unfolding d using l(1) that by (simp add: nth_append)
  qed
  show "de_inum (concat es @ zs) (16 * k) = de_inum (es ! k) 0" using n [of 0] n [of 1] by (simp add: de_inum_def get16_def)
  have "drop (16 * k + 2) (concat es @ zs) = drop 2 (drop (16 * k) (concat es @ zs))" by (simp only: drop_drop add.commute)
  then show "de_name (concat es @ zs) (16 * k) = de_name (es ! k) 0" unfolding de_name_def d using l(1) by (simp add: DIRSIZ_def numeral_2_eq_2)
qed

lemma entry_slot: "de_inum (entry n nm) 0 = of_nat n" "cname (de_name (entry n nm) 0) = cname nm"
  by (simp_all add: entry_def dirent_slot)

definition root_slots :: "u8 list list \<Rightarrow> (nat \<times> u8 list) list" where
  "root_slots names = (1, [0x2e]) # (1, [0x2e, 0x2e]) # map (\<lambda>i. (i + 2, file_name (names ! i))) [0..<length names]"

lemma root_concat: "root_bytes names = concat (map (\<lambda>(n, nm). entry n nm) (root_slots names))"
  by (simp add: root_bytes_def root_slots_def comp_def)

lemma root_binds:
  assumes "length names \<le> 198" "c = root_bytes names @ replicate z 0" "16 * k + 16 \<le> length c"
  shows "binds c nm k \<longleftrightarrow> k < length names + 2 \<and> cname nm = cname (snd (root_slots names ! k))"
    "k < length names + 2 \<Longrightarrow> de_inum c (16 * k) = of_nat (fst (root_slots names ! k))"
proof -
  let ?es = "map (\<lambda>(n, nm). entry n nm) (root_slots names)"
  have l: "length (root_slots names) = length names + 2" by (simp add: root_slots_def)
  have e16: "\<forall>e\<in>set ?es. length e = 16" by auto
  have at: "de_inum c (16 * k) = of_nat (fst (root_slots names ! k))" "cname (de_name c (16 * k)) = cname (snd (root_slots names ! k))" if "k < length names + 2"
  proof -
    have k: "k < length ?es" using that l by simp
    have "?es ! k = entry (fst (root_slots names ! k)) (snd (root_slots names ! k))" using that l by (simp add: case_prod_beta)
    then show "de_inum c (16 * k) = of_nat (fst (root_slots names ! k))" "cname (de_name c (16 * k)) = cname (snd (root_slots names ! k))"
      using chunk_slot [OF e16 k, of "replicate z 0"] by (simp_all add: assms(2) root_concat entry_slot)
  qed
  have "fst (root_slots names ! k) < 2 ^ 16 \<and> 0 < fst (root_slots names ! k)" if "k < length names + 2"
    using that assms(1) by (auto simp: root_slots_def nth_Cons split: nat.splits)
  then have nz: "(of_nat (fst (root_slots names ! k)) :: u16) \<noteq> 0" if "k < length names + 2"
    using that by (auto simp: word_of_nat_eq_0_iff dest!: dvd_imp_le)
  have "de_inum c (16 * k) = 0" if "\<not> k < length names + 2"
    using that assms(3) by (simp add: assms(2) de_inum_def get16_def nth_append)
  then show "binds c nm k \<longleftrightarrow> k < length names + 2 \<and> cname nm = cname (snd (root_slots names ! k))" using at nz by (cases "k < length names + 2") (auto simp: binds_def)
  show "k < length names + 2 \<Longrightarrow> de_inum c (16 * k) = of_nat (fst (root_slots names ! k))" by (rule at(1))
qed

section \<open>The tree of the image\<close>

text \<open>The names the kernel tells apart: the first bytes of the files' names, and the two entries every directory has.\<close>

definition apart :: "u8 list list \<Rightarrow> bool" where
  "apart names \<longleftrightarrow> distinct (map (\<lambda>(n, nm). cname nm) (root_slots names))"

lemma root_child:
  assumes len: "length names \<le> 198" "(length names + 2) mod 32 \<noteq> 0" and ty: "itype (inode_at D 1) = T_DIR"
    and c: "contents D (inode_at D 1) = root_bytes names @ replicate (512 * nb (16 * (length names + 2)) - 16 * (length names + 2)) 0"
  shows "child D 1 nm = Some m \<Longrightarrow> \<exists>k<length names + 2. m = of_nat (fst (root_slots names ! k)) \<and> cname nm = cname (snd (root_slots names ! k))"
    "apart names \<Longrightarrow> i < length names \<Longrightarrow> child D 1 (file_name (names ! i)) = Some (of_nat (i + 2))"
proof -
  let ?c = "dir_bytes D (inode_at D 1)" and ?L = "16 * (length names + 2)"
  have L: "?L \<le> 512 * nb ?L" unfolding nb_def using dividend_less_div_times [of 512 "?L + 511"] by simp
  have sz: "unat (isize (inode_at D 1)) = 512 * nb ?L"
  proof -
    have "unat (isize (inode_at D 1)) = length (contents D (inode_at D 1))" by simp
    then show ?thesis unfolding c using L by simp
  qed
  have e: "?c = root_bytes names @ replicate (512 * nb ?L - ?L) 0"
  proof -
    have "nb (unat (isize (inode_at D 1))) = nb ?L" unfolding sz by (simp add: nb_def)
    then have "?c = contents D (inode_at D 1)" unfolding dir_bytes_def contents_def sz by simp
    then show ?thesis unfolding c .
  qed
  have lc: "length ?c div 16 = 32 * nb ?L" "length ?c = 512 * nb ?L" unfolding e using L by auto
  have ln: "length names + 2 \<le> 32 * nb ?L" using L by simp
  note rb = root_binds [OF len(1) e]
  have rk: "binds ?c nm k \<longleftrightarrow> k < length names + 2 \<and> cname nm = cname (snd (root_slots names ! k))" if "k < 32 * nb ?L" for nm k
  proof -
    have "16 * k + 16 \<le> length ?c" unfolding lc(2) using that by simp
    then show ?thesis by (rule rb(1))
  qed
  have f: "child D 1 nm = map_option (\<lambda>k. ucast (de_inum ?c (16 * k))) (find (binds ?c nm) [0..<32 * nb ?L])" for nm
    unfolding child_def dir_find_def Let_def lc(1) using ty by simp
  have num: "ucast (de_inum ?c (16 * k)) = (of_nat (fst (root_slots names ! k)) :: u32)" if "k < length names + 2" for k
  proof -
    have "fst (root_slots names ! k) < 2 ^ 16" using that len(1) by (auto simp: root_slots_def nth_Cons split: nat.splits)
    moreover have "16 * k + 16 \<le> length ?c" unfolding lc(2) using that ln by simp
    from rb(2) [OF this that] have "de_inum ?c (16 * k) = of_nat (fst (root_slots names ! k))" .
    ultimately show ?thesis by (simp add: unsigned_of_nat take_bit_nat_eq_self)
  qed
  show "\<exists>k<length names + 2. m = of_nat (fst (root_slots names ! k)) \<and> cname nm = cname (snd (root_slots names ! k))" if ch: "child D 1 nm = Some m"
  proof -
    obtain k where k: "find (binds ?c nm) [0..<32 * nb ?L] = Some k" "m = ucast (de_inum ?c (16 * k))" using ch f by auto
    then have "binds ?c nm k" "k < 32 * nb ?L" using find_in_set [OF k(1)] by auto
    then show ?thesis using rk [of k nm] num [of k] k(2) by auto
  qed
  show "child D 1 (file_name (names ! i)) = Some (of_nat (i + 2))" if a: "apart names" "i < length names"
  proof -
    have l: "length (root_slots names) = length names + 2" by (simp add: root_slots_def)
    have s: "root_slots names ! (i + 2) = (i + 2, file_name (names ! i))" using a(2) by (simp add: root_slots_def)
    have "j = i + 2" if j: "j < 32 * nb ?L" "binds ?c (file_name (names ! i)) j" for j
    proof -
      have "j < length names + 2" "cname (file_name (names ! i)) = cname (snd (root_slots names ! j))" using rk [of j] j by auto
      then have "map (\<lambda>(n, nm). cname nm) (root_slots names) ! j = map (\<lambda>(n, nm). cname nm) (root_slots names) ! (i + 2)"
        using a(2) s l by (simp add: case_prod_beta)
      then show ?thesis using a \<open>j < length names + 2\<close> l nth_eq_iff_index_eq [of "map (\<lambda>(n, nm). cname nm) (root_slots names)" j "i + 2"] by (simp add: apart_def)
    qed
    moreover have "binds ?c (file_name (names ! i)) (i + 2)" using rk [of "i + 2"] a(2) ln s by simp
    ultimately have "find (binds ?c (file_name (names ! i))) [0..<32 * nb ?L] = Some (i + 2)" using ln a(2) by (intro find_first) auto
    then show ?thesis using f num [of "i + 2"] s a(2) by simp
  qed
qed

definition image_inodes :: "u8 list list \<Rightarrow> u32 set" where
  "image_inodes names = insert 1 ((\<lambda>i. of_nat (i + 2)) ` {..<length names})"

lemma image_tree:
  assumes len: "length names \<le> 198" "(length names + 2) mod 32 \<noteq> 0" and f: "\<forall>i<length names. file_at D (of_nat (i + 2)) T_FILE (bytes_of host (names ! i))"
    and r: "itype (inode_at D 1) = T_DIR" "dnlink (disk_inode D 1) = 1" "file_inv D (inode_at D 1)"
      "contents D (inode_at D 1) = root_bytes names @ replicate (512 * nb (16 * (length names + 2)) - 16 * (length names + 2)) 0"
  shows "tree D (image_inodes names)"
proof -
  have "file_inv D (inode_at D n) \<and> dtype (disk_inode D n) \<noteq> 0 \<and> dnlink (disk_inode D n) \<noteq> 0 \<and> (\<forall>e m. child D n e = Some m \<longrightarrow> m \<in> image_inodes names)"
    if n: "n \<in> image_inodes names" for n
  proof (cases "n = 1")
    case True
    have "m \<in> image_inodes names" if c: "child D 1 e = Some m" for e m
    proof -
      obtain k where k: "k < length names + 2" "m = of_nat (fst (root_slots names ! k))" using root_child(1) [OF len r(1,4) c] by blast
      then consider "m = 1" | i where "i < length names" "m = of_nat (i + 2)" by (auto simp: root_slots_def nth_Cons split: nat.splits)
      then show ?thesis by cases (auto simp: image_inodes_def)
    qed
    then show ?thesis using r True by (simp add: T_DIR_def)
  next
    case False
    then obtain i where i: "i < length names" "n = of_nat (i + 2)" using n unfolding image_inodes_def by blast
    then have "file_at D n T_FILE (bytes_of host (names ! i))" using f by simp
    then show ?thesis by (auto simp: file_at_def T_FILE_def T_DIR_def child_def)
  qed
  then show ?thesis unfolding tree_def by blast
qed

text \<open>A name without slashes is one path element.\<close>

lemma elems_name:
  assumes "SLASH \<notin> set nm" "nm \<noteq> []"
  shows "elems (SLASH # nm) = [take DIRSIZ nm]"
  using elems_word [OF assms, of "[]"] by (simp add: elems_slash) (simp add: elems_def)

lemma cname_cut: "0 \<notin> set nm \<Longrightarrow> cname (take DIRSIZ nm) = cname nm"
  unfolding cname_def by (intro cstr_cong) (auto simp: array_def)

section \<open>Properties\<close>

text \<open>
  C1. The kernel finds and reads back what \<^verbatim>\<open>mkfs\<close> packed: on the image of a run, for a file of the command line
  whose name the kernel can tell from the others, \<^verbatim>\<open>namei\<close> of the absolute path \<^verbatim>\<open>/name\<close> returns an inode, locking it
  (\<^verbatim>\<open>ilock\<close>) and reading it from the start (\<^verbatim>\<open>readi\<close>) returns the bytes of the host file, up to the number asked for,
  and the disk is left alone.
\<close>

theorem mkfs_boots:
  assumes "2 \<le> length argv" "creat (argv ! 1)" "500 \<le> length after" "names = drop 2 argv" "length names \<le> 198"
    "\<forall>a\<in>set names. usable host a" "29 + total host names < 512"
    and names: "(length names + 2) mod 32 \<noteq> 0" "apart names" "i < length names" "file_name (names ! i) \<noteq> []" "0 \<notin> set (names ! i)"
    and m: "mkfs_main creat host after argv = Inr m"
    and s: "quiet s" "disk s = disk_of (img m)" "icache_ok (disk s) {} (icache s)" "card (cached (refs (icache s))) + 2 \<le> length (icache s)"
  shows "\<exists>j s1 s2 r s3. namei (SLASH # file_name (names ! i)) s = Inr (Some j, s1) \<and> ilock (Some j) s1 = Inr s2 \<and>
    readi dv j 0 k s2 = Inr (r, take (unat k) (bytes_of host (names ! i)), s3) \<and> disk s3 = disk s"
proof -
  let ?D = "disk s" and ?nm = "file_name (names ! i)" and ?n = "of_nat (i + 2) :: u32"
  have f: "\<forall>i<length names. file_at ?D (of_nat (i + 2)) T_FILE (bytes_of host (names ! i))" "itype (inode_at ?D 1) = T_DIR" "dnlink (disk_inode ?D 1) = 1"
    "file_inv ?D (inode_at ?D 1)" "contents ?D (inode_at ?D 1) = root_bytes names @ replicate (512 * nb (16 * (length names + 2)) - 16 * (length names + 2)) 0"
    using mkfs_files [of argv creat after names host] assms(1-7) m names(1) unfolding s(2) by auto
  have t: "fs_ready (image_inodes names) s" using image_tree [OF assms(5) names(1) f] s by (simp add: fs_ready_def)
  have nm: "SLASH \<notin> set ?nm" "0 \<notin> set ?nm"
  proof -
    have "set ?nm \<subseteq> set (names ! i)" by (cases "names ! i") (auto simp: file_name_def)
    moreover have "SLASH \<notin> set (names ! i)" using assms(6) names(3) by (simp add: usable_def)
    ultimately show "SLASH \<notin> set ?nm" "0 \<notin> set ?nm" using names(5) by auto
  qed
  have "child ?D 1 (take DIRSIZ ?nm) = Some ?n"
    using root_child(2) [OF assms(5) names(1) f(2,5) names(2,3)] child_cname [OF cname_cut [OF nm(2)]] by simp
  then have rs: "resolve ?D (elems (SLASH # ?nm)) 1 = Some ?n" using elems_name [OF nm(1) names(4)] by simp
  have "starts_at s (SLASH # ?nm) 1" by (simp add: starts_at_def ROOTINO_def)
  moreover have "0 \<notin> set (SLASH # ?nm)" using nm(2) by (simp add: SLASH_def)
  ultimately obtain j s1 where n: "namei (SLASH # ?nm) s = Inr (Some j, s1)" "cache_at s {} ((refs (icache s))(?n := refs (icache s) ?n + 1)) s1" "entry_of ?n j (icache s1)"
    using namei_law [OF t, of "SLASH # ?nm" 1] rs by (auto simp: image_inodes_def)
  have s1: "quiet s1" "disk s1 = ?D" "icache_ok (disk s1) {} (icache s1)" using n(2) by (simp_all add: cache_at_def)
  have fa: "file_at (disk s1) ?n T_FILE (bytes_of host (names ! i))" using f(1) names(3) s1(2) by simp
  then have ty: "dtype (disk_inode (disk s1) ?n) = T_FILE" by (simp add: file_at_def)
  obtain s2 where l: "ilock (Some j) s1 = Inr s2" "cache_at s1 {j} (refs (icache s1)) s2" "entry_of ?n j (icache s2)" "dinode_of (icache s2 ! j) = disk_inode (disk s1) ?n"
    using ilock_law [OF s1(1,3) n(3)] ty by (auto simp: T_FILE_def)
  have s2: "quiet s2" "disk s2 = ?D" "icache_ok (disk s2) {j} (icache s2)" using l(2) s1(2) by (simp_all add: cache_at_def)
  note lf = loaded_file [OF s2(3) l(3)]
  have "file_inv (disk s2) (icache s2 ! j)" "contents (disk s2) (icache s2 ! j) = bytes_of host (names ! i)" "itype (icache s2 ! j) \<noteq> T_DEV"
    using lf l(4) fa s1(2) s2(2) by (simp_all add: file_at_def T_FILE_def T_DEV_def)
  from readi_law [OF s2(1) this(1,3), of 0 k dv] this(2) obtain r s3 where "readi dv j 0 k s2 = Inr (r, take (unat k) (bytes_of host (names ! i)), s3)" "disk s3 = disk s2" by auto
  then show ?thesis using n(1) l(1) s2(2) by metis
qed

section \<open>Booting from an image with one file\<close>

text \<open>The image of \<open>Mkfs_Run\<close> with one file, just after the kernel started: an empty inode cache and an empty buffer cache.\<close>

definition no_inode :: inode where
  "no_inode = \<lparr>idev = 0, inum = 0, iref = 0, iflags = 0, itype = 0, imajor = 0, iminor = 0, inlink = 0, isize = 0, addrs = []\<rparr>"

lemma boot_state:
  assumes "img_ok xs"
  shows "\<exists>s :: kfs. quiet s \<and> disk s = disk_of xs \<and> icache s = replicate 2 no_inode"
proof -
  let ?s = "(kbio.extend (small_fs [127]) (kfs.fields []))\<lparr>disk := disk_of xs\<rparr>"
  have "length (bufs ?s) = NBUF + 1" "\<forall>i<NBUF. bflags (bufs ?s ! i) = 0" "\<forall>sec. length (disk ?s sec) = 512" "calm (lk ?s)"
    using zero_kbio_cold disk_of_length [OF assms] by (simp_all add: kbio.extend_def small_fs_def)
  from binit_law [OF this] have "quiet ((binit ?s)\<lparr>icache := replicate 2 no_inode\<rparr>)" "disk (binit ?s) = disk_of xs"
    by (simp_all add: quiet_def)
  then show ?thesis by (intro exI [of _ "(binit ?s)\<lparr>icache := replicate 2 no_inode\<rparr>"]) simp
qed

lemma empty_cache: "icache_ok D {} (replicate k no_inode)" "cached (refs (replicate k no_inode)) = {}"
proof -
  show "icache_ok D {} (replicate k no_inode)" by (simp add: icache_ok_def entry_ok_def no_inode_def)
  have "refs (replicate k no_inode) n = 0" for n by (rule refs_absent) (simp add: no_inode_def)
  then show "cached (refs (replicate k no_inode)) = {}" by (simp add: cached_def)
qed

text \<open>The root directory of an image is in good order.\<close>

lemma root_ok:
  assumes "itype (inode_at D 1) = T_DIR" "file_inv D (inode_at D 1)" "unat (isize (inode_at D 1)) = 512 * a" "\<forall>k\<ge>a. block_addr D (inode_at D 1) k = 0"
  shows "dir_ok D (inode_at D 1)"
proof -
  have "block_addr D (inode_at D 1) (j div 512) = 0" if "512 * a \<le> j" for j
    using that assms(4) by (simp add: less_eq_div_iff_mult_less_eq mult.commute)
  moreover have "512 * a mod 16 = 0" by (rule dvd_imp_mod_0) (rule dvd_mult2, simp)
  ultimately show ?thesis using assms(1-3) unfolding dir_ok_def by auto
qed

lemma image_space:
  assumes "sb_of D = sb0" "\<forall>b. 512 \<le> unat b \<and> unat b < 4096 \<longrightarrow> \<not> marked D b"
  shows "4 \<le> space D"
proof -
  have "in_range (sb_of D) b \<and> \<not> marked D b" if "b \<in> {512, 513, 514, 515}" for b
  proof -
    have "512 \<le> unat b \<and> unat b < 4096" using that by auto
    then show ?thesis using assms by simp
  qed
  then have "card {512, 513, 514, 515 :: u32} \<le> space D" unfolding space_def by (intro card_mono) (simp, blast)
  then show ?thesis by simp
qed

lemma demo_boot:
  "\<exists>m (s :: kfs). mkfs_main (\<lambda>_. True) demo_host (replicate 500 0) demo_argv = Inr m \<and> quiet s \<and> disk s = disk_of (img m) \<and>
     icache_ok (disk s) {} (icache s) \<and> card (cached (refs (icache s))) + 2 \<le> length (icache s) \<and> fs_ready {1, 2} s \<and> resolve (disk s) [[0x61]] 1 = Some 2 \<and>
     dir_ok (disk s) (inode_at (disk s) 1) \<and> unat (isize (inode_at (disk s) 1)) = 512 \<and> sb_of (disk s) = sb0 \<and>
     4 \<le> space (disk s) \<and> child (disk s) 1 [0x62] = None \<and> cached (refs (icache s)) = {} \<and> length (icache s) = 2"
proof -
  let ?names = "[[0x5f, 0x61]] :: u8 list list"
  obtain m where m: "mkfs_main (\<lambda>_. True) demo_host (replicate 500 0) demo_argv = Inr m" "img_ok (img m)"
    and f: "\<forall>i<length ?names. file_at (disk_of (img m)) (of_nat (i + 2)) T_FILE (bytes_of demo_host (?names ! i))" "itype (inode_at (disk_of (img m)) 1) = T_DIR"
      "dnlink (disk_inode (disk_of (img m)) 1) = 1" "file_inv (disk_of (img m)) (inode_at (disk_of (img m)) 1)"
      "contents (disk_of (img m)) (inode_at (disk_of (img m)) 1) = root_bytes ?names @ replicate (512 * nb (16 * (length ?names + 2)) - 16 * (length ?names + 2)) 0"
      "\<forall>k\<ge>nb (16 * (length ?names + 2)). block_addr (disk_of (img m)) (inode_at (disk_of (img m)) 1) k = 0"
      "sb_of (disk_of (img m)) = sb0" "\<forall>b. 512 \<le> unat b \<and> unat b < 4096 \<longrightarrow> \<not> marked (disk_of (img m)) b"
    using mkfs_files [of demo_argv "\<lambda>_. True" "replicate 500 0" ?names demo_host] demo_usable by auto
  obtain s :: kfs where s: "quiet s" "disk s = disk_of (img m)" "icache s = replicate 2 no_inode" using boot_state [OF m(2)] by blast
  have l: "length ?names \<le> 198" "(length ?names + 2) mod 32 \<noteq> 0" by simp_all
  have "image_inodes ?names = {1, 2}" by (auto simp: image_inodes_def)
  then have t: "tree (disk s) {1, 2}" using image_tree [OF l f(1-5)] s(2) by simp
  have sz: "unat (isize (inode_at (disk s) 1)) = 512"
    using length_file_contents [of "disk_of (img m)" "inode_at (disk_of (img m)) 1"] unfolding f(5) s(2) by (simp add: nb_def)
  have "dir_ok (disk s) (inode_at (disk s) 1)" using root_ok [of "disk s" 1] f(2,4,6) sz s(2) by (simp add: nb_def)
  moreover have "4 \<le> space (disk s)" using image_space f(7,8) s(2) by simp
  moreover have "child (disk s) 1 [0x62] = None"
  proof (rule ccontr)
    assume "child (disk s) 1 [0x62] \<noteq> None"
    then obtain x where "child (disk s) 1 [0x62] = Some x" by blast
    from root_child(1) [OF l f(2,5) this [unfolded s(2)]] obtain k where k: "k < length ?names + 2" "cname [0x62] = cname (snd (root_slots ?names ! k))" by blast
    from k(1) have "k = 0 \<or> k = 1 \<or> k = 2" by auto
    then show False using k(2) by (elim disjE) (simp_all add: root_slots_def file_name_def cname_take DIRSIZ_def)
  qed
  moreover have "apart ?names" by (simp add: apart_def root_slots_def file_name_def cname_take DIRSIZ_def)
  from root_child(2) [OF l f(2,5) this, of 0] have "resolve (disk s) [[0x61]] 1 = Some 2" using s(2) by (simp add: file_name_def)
  ultimately show ?thesis using m(1) s t sz f(7) empty_cache(1) [of "disk s" 2] empty_cache(2) [of 2] by (intro exI [of _ m] exI [of _ s]) (simp add: fs_ready_def)
qed

theorem mkfs_boots_witness:
  "\<exists>m s j s1 s2 r s3. mkfs_main (\<lambda>_. True) demo_host (replicate 500 0) demo_argv = Inr m \<and> disk (s :: kfs) = disk_of (img m) \<and>
     namei [SLASH, 0x61] s = Inr (Some j, s1) \<and> ilock (Some j) s1 = Inr s2 \<and>
     readi (\<lambda>_. \<lparr>dread = None, dwrite = None\<rparr>) j 0 2 s2 = Inr (r, [7, 8], s3)"
proof -
  let ?names = "[[0x5f, 0x61]] :: u8 list list"
  obtain m and s :: kfs where m: "mkfs_main (\<lambda>_. True) demo_host (replicate 500 0) demo_argv = Inr m" "quiet s" "disk s = disk_of (img m)"
    "icache_ok (disk s) {} (icache s)" "card (cached (refs (icache s))) + 2 \<le> length (icache s)" using demo_boot by blast
  have "apart ?names" by (simp add: apart_def root_slots_def file_name_def cname_take DIRSIZ_def)
  then have "\<exists>j s1 s2 r s3. namei (SLASH # file_name (?names ! 0)) s = Inr (Some j, s1) \<and> ilock (Some j) s1 = Inr s2 \<and>
      readi (\<lambda>_. \<lparr>dread = None, dwrite = None\<rparr>) j 0 2 s2 = Inr (r, take (unat (2 :: u32)) (bytes_of demo_host (?names ! 0)), s3) \<and> disk s3 = disk s"
    by (intro mkfs_boots [OF demo_usable(1) _ _ _ _ _ _ _ _ _ _ _ m]) (use demo_usable in \<open>simp_all add: file_name_def\<close>)
  then show ?thesis using m(1,3) demo_usable(5) by (auto simp: file_name_def)
qed

theorem namei_resolves_witness:
  "\<exists>(s :: kfs) j s'. fs_ready {1, 2} s \<and> namei [SLASH, 0x61] s = Inr (Some j, s') \<and> entry_of 2 j (icache s')"
proof -
  obtain s :: kfs where s: "fs_ready {1, 2} s" "resolve (disk s) [[0x61]] 1 = Some 2" using demo_boot by blast
  have e: "elems [SLASH, 0x61] = [[0x61]]" by (simp add: elems_def SLASH_def DIRSIZ_def)
  show ?thesis using namei_resolves [OF s(1), of "[SLASH, 0x61]" 1, unfolded e s(2)] s(1) by (auto simp: starts_at_def ROOTINO_def SLASH_def)
qed

theorem nameiparent_resolves_witness:
  "\<exists>(s :: kfs) j nm s'. fs_ready {1, 2} s \<and> nameiparent [SLASH, 0x61] (replicate 14 0) s = Inr (Some j, nm, s') \<and> cname nm = [0x61] \<and> entry_of 1 j (icache s')"
proof -
  obtain s :: kfs where s: "fs_ready {1, 2} s" "resolve (disk s) [[0x61]] 1 = Some 2" using demo_boot by blast
  have e: "elems [SLASH, 0x61] = [[0x61]]" by (simp add: elems_def SLASH_def DIRSIZ_def)
  have "itype (inode_at (disk s) 1) = T_DIR" using s(2) by (auto simp: child_def Let_def split: if_splits)
  then have "resolve_parent (disk s) [[0x61]] 1 = Some 1" by (simp add: resolve_parent_def)
  then show ?thesis using nameiparent_resolves [OF s(1), of "[SLASH, 0x61]" 1 "replicate 14 0", unfolded e] s(1) by (auto simp: starts_at_def ROOTINO_def SLASH_def DIRSIZ_def)
qed

text \<open>The root directory of the image, locked; the name \<^verbatim>\<open>b\<close> is added to it.\<close>

theorem dirlink_refines_witness:
  "\<exists>(s :: kfs) i s'. child (disk s) 1 [0x62] = None \<and> dirlink (\<lambda>_. \<lparr>dread = None, dwrite = None\<rparr>) i [0x62] 2 s = Inr (0, s') \<and>
     child (disk s') 1 [0x62] = Some 2"
proof -
  obtain s0 :: kfs where s0: "quiet s0" "icache_ok (disk s0) {} (icache s0)" "card (cached (refs (icache s0))) + 2 \<le> length (icache s0)" "fs_ready {1, 2} s0"
    "dir_ok (disk s0) (inode_at (disk s0) 1)" "unat (isize (inode_at (disk s0) 1)) = 512" "sb_of (disk s0) = sb0" "4 \<le> space (disk s0)" "child (disk s0) 1 [0x62] = None"
    and e0: "cached (refs (icache s0)) = {}" "length (icache s0) = 2"
    using demo_boot by blast
  obtain i s1 where s1: "iget ROOTDEV 1 s0 = Inr (i, s1)" "cache_at s0 {} ((refs (icache s0))(1 := refs (icache s0) 1 + 1)) s1" "entry_of 1 i (icache s1)"
    using iget_law [OF s0(1,2), of 1] s0(3) by auto
  have "dtype (disk_inode (disk s1) 1) \<noteq> 0" using s0(5) s1(2) by (simp add: dir_ok_def cache_at_def T_DIR_def)
  then obtain s where s: "ilock (Some i) s1 = Inr s" "cache_at s1 {i} (refs (icache s1)) s" "entry_of 1 i (icache s)" "dinode_of (icache s ! i) = disk_inode (disk s1) 1"
    using ilock_law [of s1 "{}" 1 i] s1(2,3) by (auto simp: cache_at_def)
  have S: "quiet s" "disk s = disk s0" "icache_ok (disk s) {i} (icache s)" "length (icache s) = 2" "dinode_of (icache s ! i) = disk_inode (disk s) 1"
    and r: "refs (icache s) = (refs (icache s0))(1 := refs (icache s0) 1 + 1)" using s s1(2) e0 by (simp_all add: cache_at_def)
  have c: "cached (refs (icache s)) \<subseteq> {1}" unfolding r using cached_one [of "refs (icache s0)" 1] e0(1) by simp
  then have "card (cached (refs (icache s))) \<le> card {1 :: u32}" by (intro card_mono) simp_all
  then have room: "card (cached (refs (icache s))) < length (icache s)" using S(4) by simp
  have "in_table (disk s) (icache s)"
    using c refs_cached [OF S(3)] S(2) s0(7) by (force simp: in_table_def cached_def sb0_def)
  from dirlink_refines [OF S(1,3) this s(3) S(5) _ room, of "[0x62]" 2 "\<lambda>_. \<lparr>dread = None, dwrite = None\<rparr>"] s0 S(2)
  obtain s' where "dirlink (\<lambda>_. \<lparr>dread = None, dwrite = None\<rparr>) i [0x62] 2 s = Inr (0, s')" "child (disk s') 1 [0x62] = Some 2" by auto
  then show ?thesis using S(2) s0(9) by metis
qed

end
