(* ===== verification/Exec_Demo.thy ===== *)
theory Exec_Demo
  imports Exec_Run Mkfs_Boot Descriptors
begin

text \<open>
  A program of one segment on a disk built by \<^verbatim>\<open>mkfs\<close>, started by a process of one page: the hypotheses of the theorem
  on \<^verbatim>\<open>exec\<close> hold for it.
\<close>

text \<open>An ELF file of 88 bytes: the header, one program header, and a segment of the four bytes 9, 8, 7, 6 at address 0; the entry point is 2.\<close>

definition demo_elf :: "u8 list" where
  "demo_elf = [0x7f, 0x45, 0x4c, 0x46, 0, 0, 0, 0, 0, 0, 0, 0, 0, 0, 0, 0, 0, 0, 0, 0, 0, 0, 0, 0, 2, 0, 0, 0, 52, 0, 0, 0,
     0, 0, 0, 0, 0, 0, 0, 0, 0, 0, 0, 0, 1, 0, 0, 0, 0, 0, 0, 0,
     1, 0, 0, 0, 84, 0, 0, 0, 0, 0, 0, 0, 0, 0, 0, 0, 4, 0, 0, 0, 4, 0, 0, 0, 0, 0, 0, 0, 0, 0, 0, 0, 9, 8, 7, 6]"

lemma demo_elf_fields:
  "length demo_elf = 88" "get32 demo_elf 0 = ELF_MAGIC" "get32 demo_elf 24 = 2" "get32 demo_elf 28 = 52" "get16 demo_elf 44 = 1"
  by (simp_all add: demo_elf_def get32_def get16_def le32_def le16_def ELF_MAGIC_def)

definition demo_seg :: proghdr where
  "demo_seg = \<lparr>ph_type = 1, ph_offset = 84, ph_va = 0, ph_filesz = 4, ph_memsz = 4\<rparr>"

lemma demo_elf_segs:
  "elf_segs 1 52 demo_elf = [demo_seg]" "segs_ok demo_elf 0 [demo_seg]" "pages_of (segs_size 0 [demo_seg]) = 1" "segs_byte demo_elf [demo_seg] (\<lambda>_. 0) 2 = 7"
proof -
  have "get_proghdr (take 32 (drop 52 demo_elf)) = demo_seg" by (simp add: demo_elf_def get_proghdr_def demo_seg_def get32_def le32_def)
  then show "elf_segs 1 52 demo_elf = [demo_seg]" by (simp add: ELF_PROG_LOAD_def demo_seg_def)
  show "segs_ok demo_elf 0 [demo_seg]" by (simp add: demo_seg_def demo_elf_fields PGSIZE_def)
  show "pages_of (segs_size 0 [demo_seg]) = 1" by (simp add: demo_seg_def pages_of_def)
  show "segs_byte demo_elf [demo_seg] (\<lambda>_. 0) 2 = 7" by (simp add: demo_seg_def put_bytes_def demo_elf_def)
qed

definition elf_host :: "u8 list \<rightharpoonup> u8 list list" where
  "elf_host = [[0x5f, 0x61] \<mapsto> [demo_elf]]"

lemma elf_usable: "usable elf_host [0x5f, 0x61]" "total elf_host [[0x5f, 0x61]] = 2" "bytes_of elf_host [0x5f, 0x61] = demo_elf"
  by (simp_all add: elf_host_def usable_def bytes_of_def total_def SLASH_def blocks_of_def nb_def demo_elf_fields)

lemma elf_disk:
  "\<exists>xs. img_ok xs \<and> tree (disk_of xs) {1, 2} \<and> resolve (disk_of xs) [[0x61]] 1 = Some 2 \<and> itype (inode_at (disk_of xs) 2) = T_FILE \<and>
     contents (disk_of xs) (inode_at (disk_of xs) 2) = demo_elf"
proof -
  let ?names = "[[0x5f, 0x61]] :: u8 list list"
  obtain m :: mkfs where m: "img_ok (img m)"
    and f: "\<forall>i<length ?names. file_at (disk_of (img m)) (of_nat (i + 2)) T_FILE (bytes_of elf_host (?names ! i))" "itype (inode_at (disk_of (img m)) 1) = T_DIR"
      "dnlink (disk_inode (disk_of (img m)) 1) = 1" "file_inv (disk_of (img m)) (inode_at (disk_of (img m)) 1)"
      "contents (disk_of (img m)) (inode_at (disk_of (img m)) 1) = root_bytes ?names @ replicate (512 * nb (16 * (length ?names + 2)) - 16 * (length ?names + 2)) 0"
    using mkfs_files [of demo_argv "\<lambda>_. True" "replicate 500 0" ?names elf_host] demo_usable(1,2) elf_usable by auto
  have l: "length ?names \<le> 198" "(length ?names + 2) mod 32 \<noteq> 0" by simp_all
  have "image_inodes ?names = {1, 2}" by (auto simp: image_inodes_def)
  then have t: "tree (disk_of (img m)) {1, 2}" using image_tree [OF l f] by simp
  have "apart ?names" by (simp add: apart_def root_slots_def file_name_def cname_take DIRSIZ_def)
  from root_child(2) [OF l f(2,5) this, of 0] have "resolve (disk_of (img m)) [[0x61]] 1 = Some 2" by (simp add: file_name_def)
  then show ?thesis using m t f(1) elf_usable(3) by (intro exI [of _ "img m"]) (simp add: file_at_def)
qed

text \<open>The process: one page of memory, four free pages, an empty inode cache.\<close>

definition exec_demo :: "(u32 \<Rightarrow> u8 list) \<Rightarrow> ksys" where
  "exec_demo D = (binit (fd_demo\<lparr>disk := D\<rparr>))\<lparr>mem := demo_mem, freelist := 0x103000, curproc := Some 0, icache := replicate 2 no_inode,
     ptable := [zero_proc\<lparr>state := RUNNING, pgdir := 0x100000, sz := 1\<rparr>]\<rparr>"

lemma exec_demo_ready:
  assumes "img_ok xs" "tree (disk_of xs) R"
  shows "fs_ready R (exec_demo (disk_of xs))" "disk (exec_demo (disk_of xs)) = disk_of xs" "room (exec_demo (disk_of xs)) [0x103000, 0x104000, 0x105000, 0x106000]"
proof -
  let ?s = "fd_demo\<lparr>disk := disk_of xs\<rparr>"
  have "length (bufs ?s) = NBUF + 1" "\<forall>i<NBUF. bflags (bufs ?s ! i) = 0" "\<forall>sec. length (disk ?s sec) = 512" "calm (lk ?s)"
    using zero_kbio_cold disk_of_length [OF assms(1)] by (simp_all add: fd_demo_def kbio.extend_def)
  note b = binit_law [OF this]
  have c: "quiet (s\<lparr>curproc := x\<rparr>) = quiet s" for s :: ksys and x by (simp add: quiet_def bio_inv_def inuse_def fun_eq_iff)
  have q: "quiet (exec_demo (disk_of xs))" using b by (simp add: exec_demo_def c) (simp add: quiet_def)
  show d: "disk (exec_demo (disk_of xs)) = disk_of xs" using b by (simp add: exec_demo_def)
  show "fs_ready R (exec_demo (disk_of xs))"
    using q d assms(2) empty_cache(1) [of "disk_of xs" 2] empty_cache(2) [of 2] by (simp add: fs_ready_def) (simp add: exec_demo_def)
  show "room (exec_demo (disk_of xs)) [0x103000, 0x104000, 0x105000, 0x106000]"
    using demo_vm_space(4) quiet_calm [OF q] by (simp add: room_def free_pages_def kmem_idle_def) (simp add: exec_demo_def demo_vm_def)
qed

theorem exec_runs_witness:
  "\<exists>(s :: ksys) pd s'. exec (\<lambda>_. \<lparr>dread = None, dwrite = None\<rparr>) [] [SLASH, 0x61] [[0x61], [0x2d, 0x78]] s = Inr (0, s') \<and> pgdir (ptable s' ! 0) = pd \<and>
     user_byte (mem s') pd 2 = Some 7 \<and> tf (ptable s' ! 0) T_SPC = 2 \<and> bank s' 4 = 2"
proof -
  obtain xs where xs: "img_ok xs" "tree (disk_of xs) {1, 2}" "resolve (disk_of xs) [[0x61]] 1 = Some 2" "itype (inode_at (disk_of xs) 2) = T_FILE"
    "contents (disk_of xs) (inode_at (disk_of xs) 2) = demo_elf" using elf_disk by blast
  let ?s = "exec_demo (disk_of xs)" and ?ps = "[0x103000, 0x104000, 0x105000, 0x106000] :: u32 list" and ?args = "[[0x61], [0x2d, 0x78]] :: u8 list list"
  let ?argp = "of_nat (4096 * Suc 1) - of_nat (args_size [[0x61], [0x2d, 0x78]]) :: u32"
  note r = exec_demo_ready [OF xs(1,2)]
  have e: "elems [SLASH, 0x61] = [[0x61]]" by (simp add: elems_def SLASH_def DIRSIZ_def)
  have st: "mem ?s = demo_mem" "curproc ?s = Some 0" "ptable ?s = [zero_proc\<lparr>state := RUNNING, pgdir := 0x100000, sz := 1\<rparr>]" by (simp_all add: exec_demo_def)
  have low: "\<forall>i j. frm demo_mem 0x100000 i j \<noteq> None \<longrightarrow> i < 512" using fun_cong [OF demo_vm_space(1), of "Frm i j" for i j] by (auto split: if_splits)
  have "\<exists>pd s' b pt. exec (\<lambda>_. \<lparr>dread = None, dwrite = None\<rparr>) [] [SLASH, 0x61] ?args ?s = Inr (0, s') \<and>
      program_memory pd (Suc 1) b (set ?ps \<union> used (mem ?s) 0x100000) s' \<and> (\<forall>va. unat va < 4096 * 1 \<longrightarrow> b va = segs_byte demo_elf [demo_seg] (\<lambda>_. 0) va) \<and>
      args_ready ?args ?argp b \<and>
      bank s' = (bank ?s)(4 := of_nat (length ?args), 5 := ?argp) \<and>
      woken (ptable ?s) pt \<and> ptable s' = pt[0 := new_program [SLASH, 0x61] pd (of_nat (4096 * Suc 1)) (get32 demo_elf 24)
        ?argp (pt ! 0)] \<and>
      only_in (set ?ps \<union> used (mem ?s) 0x100000) (mem ?s) (mem s') \<and> fs_ready {1, 2} s' \<and> disk s' = disk ?s \<and> refs (icache s') = refs (icache ?s) \<and>
      ftable s' = ftable ?s \<and> pipes s' = pipes ?s"
    by (rule exec_runs [of "{1, 2}" ?s _ 1 2])
      (use r xs(3-5) e st low demo_vm_space demo_elf_fields demo_elf_segs demo_free(1) in
        \<open>simp_all add: starts_at_def ROOTINO_def SLASH_def T_FILE_def T_DEV_def need_def args_size_def\<close>)
  then obtain pd s' b pt where w: "exec (\<lambda>_. \<lparr>dread = None, dwrite = None\<rparr>) [] [SLASH, 0x61] ?args ?s = Inr (0, s')"
    "program_memory pd (Suc 1) b (set ?ps \<union> used (mem ?s) 0x100000) s'" "\<forall>va. unat va < 4096 * 1 \<longrightarrow> b va = segs_byte demo_elf [demo_seg] (\<lambda>_. 0) va"
    "bank s' 4 = 2" "woken (ptable ?s) pt" "ptable s' = pt[0 := new_program [SLASH, 0x61] pd (of_nat (4096 * Suc 1)) (get32 demo_elf 24)
        ?argp (pt ! 0)]" by auto
  have "length pt = 1" using woken_entry(2) [OF w(5)] st(3) by simp
  moreover have "user_byte (mem s') pd 2 = Some 7" using w(2,3) demo_elf_segs(4) by (simp add: program_memory_def)
  ultimately show ?thesis using w(1,4,6) demo_elf_fields(3) by (intro exI [of _ ?s] exI [of _ pd] exI [of _ s']) (simp add: new_program_def)
qed

end
