(* ===== verification/Grep.thy ===== *)
theory Grep
  imports Prelude
begin

text \<open>
  The user program \<^verbatim>\<open>grep\<close> (\<^verbatim>\<open>src/grep.c\<close>): the regular expression matcher of Kernighan and Pike, and
  the line buffer. A C string is the list of its bytes before the terminating NUL. The matcher is
  shown equivalent to the language of the expression; the line buffer is shown to lose track of its
  contents when the system delivers the input in pieces.
\<close>

section \<open>The matcher\<close>

definition STAR :: u8 where "STAR = 0x2a"
definition DOT :: u8 where "DOT = 0x2e"
definition CARET :: u8 where "CARET = 0x5e"
definition DOLLAR :: u8 where "DOLLAR = 0x24"
definition NL :: u8 where "NL = 0x0a"

function (sequential) matchhere :: "u8 list \<Rightarrow> u8 list \<Rightarrow> bool"
  and matchstar :: "u8 \<Rightarrow> u8 list \<Rightarrow> u8 list \<Rightarrow> bool" where
  "matchhere [] str = True"
| "matchhere (c # re) str =
     (if re \<noteq> [] \<and> hd re = STAR then matchstar c (tl re) str
      else if c = DOLLAR \<and> re = [] then str = []
      else case str of [] \<Rightarrow> False | t # ts \<Rightarrow> if c = DOT \<or> c = t then matchhere re ts else False)"
| "matchstar c re str =
     (if matchhere re str then True
      else case str of [] \<Rightarrow> False | t # ts \<Rightarrow> if t = c \<or> c = DOT then matchstar c re ts else False)"
  by pat_completeness auto
termination
  by (relation "measures [case_sum (\<lambda>(re, str). length re) (\<lambda>(c, re, str). length re + 1),
    case_sum (\<lambda>(re, str). length str) (\<lambda>(c, re, str). length str)]") (auto simp: length_tl neq_Nil_conv)

text \<open>The loop of \<^verbatim>\<open>match\<close> over the starting positions, the empty rest of the text included.\<close>

fun match_from :: "u8 list \<Rightarrow> u8 list \<Rightarrow> bool" where
  "match_from re str =
     (if matchhere re str then True else case str of [] \<Rightarrow> False | t # ts \<Rightarrow> match_from re ts)"

definition match :: "u8 list \<Rightarrow> u8 list \<Rightarrow> bool" where
  "match re str = (if re \<noteq> [] \<and> hd re = CARET then matchhere (tl re) str else match_from re str)"

declare matchhere.simps [simp del] matchstar.simps [simp del] match_from.simps [simp del]

section \<open>The language of an expression\<close>

datatype item = Chr u8 | Rep u8

text \<open>The items of an expression, and whether it ends in an unescaped \<^verbatim>\<open>$\<close>.\<close>

fun items :: "u8 list \<Rightarrow> item list \<times> bool" where
  "items [] = ([], False)"
| "items [c] = (if c = DOLLAR then ([], True) else ([Chr c], False))"
| "items (c # d # re) =
     (if d = STAR then apfst ((#) (Rep c)) (items re) else apfst ((#) (Chr c)) (items (d # re)))"

definition fits :: "u8 \<Rightarrow> u8 \<Rightarrow> bool" where
  "fits c t \<longleftrightarrow> c = DOT \<or> c = t"

primrec lang :: "item list \<Rightarrow> u8 list set" where
  "lang [] = {[]}"
| "lang (i # is) = (case i of
       Chr c \<Rightarrow> {t # w |t w. fits c t \<and> w \<in> lang is}
     | Rep c \<Rightarrow> {u @ w |u w. (\<forall>t\<in>set u. fits c t) \<and> w \<in> lang is})"

text \<open>Some prefix of the text is in the language; if the expression is anchored, the whole text.\<close>

definition here :: "item list \<times> bool \<Rightarrow> u8 list \<Rightarrow> bool" where
  "here r str \<longleftrightarrow> (\<exists>w rest. str = w @ rest \<and> w \<in> lang (fst r) \<and> (snd r \<longrightarrow> rest = []))"

lemma here_Nil: "here ([], False) str"
  by (simp add: here_def)

lemma here_end: "here ([], True) str \<longleftrightarrow> str = []"
  by (auto simp: here_def)

lemma here_Chr: "here (apfst ((#) (Chr c)) r) str \<longleftrightarrow> (\<exists>t ts. str = t # ts \<and> fits c t \<and> here r ts)"
proof
  assume "here (apfst ((#) (Chr c)) r) str"
  then obtain v rest where "str = v @ rest" "v \<in> lang (Chr c # fst r)" "snd r \<longrightarrow> rest = []"
    unfolding here_def by auto
  moreover from this(2) obtain t w where "v = t # w" "fits c t" "w \<in> lang (fst r)" by auto
  ultimately have "str = t # w @ rest" "fits c t" "w \<in> lang (fst r)" "snd r \<longrightarrow> rest = []" by simp_all
  then show "\<exists>t ts. str = t # ts \<and> fits c t \<and> here r ts" unfolding here_def by blast
next
  assume "\<exists>t ts. str = t # ts \<and> fits c t \<and> here r ts"
  then obtain t w rest where "str = (t # w) @ rest" "fits c t" "w \<in> lang (fst r)" "snd r \<longrightarrow> rest = []"
    by (auto simp: here_def)
  then show "here (apfst ((#) (Chr c)) r) str"
    unfolding here_def by (intro exI [of _ "t # w"] exI [of _ rest]) simp
qed

lemma here_Rep: "here (apfst ((#) (Rep c)) r) str \<longleftrightarrow> (\<exists>u ts. str = u @ ts \<and> (\<forall>t\<in>set u. fits c t) \<and> here r ts)"
proof
  assume "here (apfst ((#) (Rep c)) r) str"
  then obtain v rest where "str = v @ rest" "v \<in> lang (Rep c # fst r)" "snd r \<longrightarrow> rest = []"
    unfolding here_def by auto
  moreover from this(2) obtain u w where "v = u @ w" "\<forall>t\<in>set u. fits c t" "w \<in> lang (fst r)" by auto
  ultimately have "str = u @ w @ rest" "\<forall>t\<in>set u. fits c t" "w \<in> lang (fst r)" "snd r \<longrightarrow> rest = []" by simp_all
  then show "\<exists>u ts. str = u @ ts \<and> (\<forall>t\<in>set u. fits c t) \<and> here r ts" unfolding here_def by blast
next
  assume "\<exists>u ts. str = u @ ts \<and> (\<forall>t\<in>set u. fits c t) \<and> here r ts"
  then obtain u w rest where "str = (u @ w) @ rest" "\<forall>t\<in>set u. fits c t" "w \<in> lang (fst r)" "snd r \<longrightarrow> rest = []"
    by (auto simp: here_def)
  then show "here (apfst ((#) (Rep c)) r) str"
    unfolding here_def by (intro exI [of _ "u @ w"] exI [of _ rest]) auto
qed

text \<open>\<^verbatim>\<open>matchstar\<close> tries every number of repetitions.\<close>

lemma matchstar_iff:
  assumes "\<And>ts. matchhere re ts \<longleftrightarrow> here r ts"
  shows "matchstar c re str \<longleftrightarrow> here (apfst ((#) (Rep c)) r) str"
proof (induction str)
  case Nil
  then show ?case using assms by (subst matchstar.simps) (auto simp: here_Rep)
next
  case (Cons t ts)
  show ?case
  proof
    assume "matchstar c re (t # ts)"
    then consider "here r (t # ts)" | "fits c t" "here (apfst ((#) (Rep c)) r) ts"
      using assms Cons.IH by (subst (asm) matchstar.simps) (auto simp: fits_def split: if_splits)
    then show "here (apfst ((#) (Rep c)) r) (t # ts)"
    proof cases
      case 2
      then obtain u vs where "ts = u @ vs" "\<forall>t\<in>set u. fits c t" "here r vs" by (auto simp: here_Rep)
      with 2(1) show ?thesis unfolding here_Rep by (intro exI [of _ "t # u"] exI [of _ vs]) simp
    next
      case 1
      then show ?thesis unfolding here_Rep by (intro exI [of _ "[]"] exI [of _ "t # ts"]) simp
    qed
  next
    assume "here (apfst ((#) (Rep c)) r) (t # ts)"
    then obtain u vs where u: "t # ts = u @ vs" "\<forall>t\<in>set u. fits c t" "here r vs" by (auto simp: here_Rep)
    show "matchstar c re (t # ts)"
    proof (cases u)
      case Nil
      then show ?thesis using u assms by (subst matchstar.simps) simp
    next
      case (Cons x u')
      then have "fits c t" "here (apfst ((#) (Rep c)) r) ts" using u by (auto simp: here_Rep)
      then show ?thesis using Cons.IH by (subst matchstar.simps) (auto simp: fits_def)
    qed
  qed
qed

lemma matchhere_iff: "matchhere re str \<longleftrightarrow> here (items re) str"
proof (induction re arbitrary: str rule: items.induct)
  case 1
  then show ?case by (simp add: matchhere.simps here_Nil)
next
  case (2 c)
  show ?case
  proof (cases "c = DOLLAR")
    case False
    then have "items [c] = apfst ((#) (Chr c)) ([], False)" by simp
    then show ?thesis using False here_Nil
      by (simp only: here_Chr) (auto simp: matchhere.simps fits_def split: list.splits)
  qed (simp add: matchhere.simps here_end)
next
  case (3 c d re)
  show ?case
  proof (cases "d = STAR")
    case True
    then show ?thesis using matchstar_iff [OF 3(1)] by (simp add: matchhere.simps(2))
  next
    case False
    then show ?thesis using 3(2) by (auto simp: matchhere.simps(2) here_Chr fits_def split: list.splits)
  qed
qed

lemma match_from_iff: "match_from re str \<longleftrightarrow> (\<exists>pre post. str = pre @ post \<and> matchhere re post)"
proof (induction str)
  case Nil
  then show ?case by (simp add: match_from.simps)
next
  case (Cons t ts)
  then show ?case by (subst match_from.simps) (auto simp: Cons_eq_append_conv)
qed

text \<open>
  C26. The matcher is equivalent to the language of the expression: \<^verbatim>\<open>match\<close> succeeds exactly if some part
  of the text is in the language of the expression, the part being a prefix of the text when the
  expression starts with \<^verbatim>\<open>^\<close>, and a suffix when it ends in \<^verbatim>\<open>$\<close>.
\<close>

theorem match_iff:
  "match re str \<longleftrightarrow>
     (let anchored = (re \<noteq> [] \<and> hd re = CARET); r = items (if anchored then tl re else re) in
      \<exists>pre w post. str = pre @ w @ post \<and> w \<in> lang (fst r) \<and> (anchored \<longrightarrow> pre = []) \<and> (snd r \<longrightarrow> post = []))"
  by (auto simp: match_def match_from_iff matchhere_iff here_def Let_def)

theorem match_iff_witness:
  "match [CARET, 0x61, STAR, 0x62, DOLLAR] [0x61, 0x61, 0x62]"
proof -
  have "items [0x61, STAR, 0x62, DOLLAR] = ([Rep 0x61, Chr 0x62], True)"
    by (simp add: STAR_def DOLLAR_def)
  moreover have "[0x61, 0x61, 0x62] \<in> lang [Rep 0x61, Chr 0x62]"
    by (simp, intro exI [of _ "[0x61, 0x61]"] exI [of _ "[0x62]"]) (simp add: fits_def)
  ultimately show ?thesis
    unfolding match_iff by (simp add: CARET_def Let_def)
qed

section \<open>The line buffer\<close>

text \<open>
  \<open>BUFSZ\<close> is \<^verbatim>\<open>sizeof(buf)\<close>. \<open>scan\<close> is the call \<^verbatim>\<open>strchr(p, '\n')\<close> on the rest of the buffer: the offset of
  the newline, \<^const>\<open>None\<close> at a NUL, and \<open>Fault\<close> when it runs past the end of the buffer.
\<close>

definition BUFSZ :: nat where "BUFSZ = 1024"

fun scan :: "u8 list \<Rightarrow> nat option res" where
  "scan [] = Inl Fault"
| "scan (x # xs) = (if x = 0 then Inr None else if x = NL then Inr (Some 0)
     else bindR (scan xs) (\<lambda>k. Inr (map_option Suc k)))"

lemma scan_bound: "scan xs = Inr (Some k) \<Longrightarrow> k < length xs"
  by (induction xs arbitrary: k) (auto simp: bindR_eq_Inr split: if_splits)

text \<open>
  The inner loop: the lines of the buffer from \<open>p\<close> on. It returns the position and the buffer it ends
  with, and what was written to standard output.
\<close>

function grep_lines :: "u8 list \<Rightarrow> u8 list \<Rightarrow> nat \<Rightarrow> u8 list \<Rightarrow> (nat \<times> u8 list) res \<times> u8 list" where
  "grep_lines pattern buf p out =
     (case scan (drop p buf) of
       Inl e \<Rightarrow> (Inl e, out)
     | Inr None \<Rightarrow> (Inr (p, buf), out)
     | Inr (Some k) \<Rightarrow>
         let q = p + k; line = take k (drop p buf) in
         if match pattern line then grep_lines pattern (buf[q := NL]) (q + 1) (out @ line @ [NL])
         else grep_lines pattern (buf[q := 0]) (q + 1) out)"
  by pat_completeness auto
termination
  by (relation "measure (\<lambda>(pattern, buf, p, out). length buf - p)") (auto dest!: scan_bound)

declare grep_lines.simps [simp del]

text \<open>
  The outer loop. The list holds what successive calls of \<^verbatim>\<open>read\<close> deliver; an empty delivery, and the
  end of the list, is the end of the file. A negative \<open>m\<close> makes \<^verbatim>\<open>read\<close> store before the start of the
  buffer. The result is the output and the reason of an abnormal end, if any.
\<close>

fun grep :: "u8 list \<Rightarrow> int \<Rightarrow> u8 list \<Rightarrow> u8 list \<Rightarrow> u8 list list \<Rightarrow> u8 list \<times> stop option" where
  "grep pattern m buf out [] = (out, None)"
| "grep pattern m buf out (c # cs) =
     (if c = [] then (out, None)
      else if m < 0 then (out, Some Fault)
      else let c = take (BUFSZ - nat m) c in
        if c = [] then (out, None)
        else case grep_lines pattern (splice (nat m) c buf) 0 out of
          (Inl e, out) \<Rightarrow> (out, Some e)
        | (Inr (p, buf), out) \<Rightarrow>
            let m = m + int (length c); m = if p = 0 then 0 else m in
            if m > 0
            then let m = m - int p in
              grep pattern m (splice 0 (take (nat m) (drop p buf)) buf) out cs
            else grep pattern m buf out cs)"

definition grep_file :: "u8 list \<Rightarrow> u8 list list \<Rightarrow> u8 list \<times> stop option" where
  "grep_file pattern cs = grep pattern 0 (replicate BUFSZ 0) [] cs"

text \<open>A text of complete lines, and the lines of it that match.\<close>

definition unlines :: "u8 list list \<Rightarrow> u8 list" where
  "unlines ls = concat (map (\<lambda>l. l @ [NL]) ls)"

lemma scan_line:
  assumes "0 \<notin> set l" "NL \<notin> set l"
  shows "scan (l @ NL # xs) = Inr (Some (length l))"
  using assms by (induction l) (auto simp: NL_def)

lemma grep_lines_unlines:
  assumes "\<forall>l\<in>set ls. 0 \<notin> set l \<and> NL \<notin> set l" "buf = pre @ unlines ls @ 0 # post" "p = length pre"
  shows "\<exists>buf'. grep_lines pattern buf p out =
    (Inr (length pre + length (unlines ls), buf'), out @ unlines (filter (match pattern) ls)) \<and> length buf' = length buf"
  using assms
proof (induction ls arbitrary: pre buf p out)
  case Nil
  then show ?case by (subst grep_lines.simps) (simp add: unlines_def)
next
  case (Cons l ls)
  have buf: "buf = pre @ l @ NL # unlines ls @ 0 # post" using Cons.prems(2) by (simp add: unlines_def)
  have sc: "scan (drop p buf) = Inr (Some (length l))" using scan_line Cons.prems(1,3) buf by simp
  have tk: "take (length l) (drop p buf) = l" using buf Cons.prems(3) by simp
  have up: "buf[p + length l := x] = (pre @ l @ [x]) @ unlines ls @ 0 # post" for x
    using buf Cons.prems(3) by (simp add: list_update_append)
  have len: "p + length l + 1 = length (pre @ l @ [x])" for x using Cons.prems(3) by simp
  have nz: "\<forall>l\<in>set ls. 0 \<notin> set l \<and> NL \<notin> set l" using Cons.prems(1) by simp
  note IH = Cons.IH [OF nz up len, of NL "out @ l @ [NL]"] Cons.IH [OF nz up len, of 0 out]
  show ?case
    using IH by (subst grep_lines.simps) (auto simp: sc tk unlines_def)
qed

text \<open>
  When the whole input arrives in one piece, consists of complete lines without NUL bytes and is
  shorter than the buffer, \<^verbatim>\<open>grep\<close> writes exactly the lines that match, in order.
\<close>

theorem grep_one_read:
  assumes "\<forall>l\<in>set ls. 0 \<notin> set l \<and> NL \<notin> set l" "ls \<noteq> []" "length (unlines ls) < BUFSZ"
  shows "grep_file pattern [unlines ls] = (unlines (filter (match pattern) ls), None)"
proof -
  let ?c = "unlines ls" and ?z = "BUFSZ - length (unlines ls) - 1"
  have c: "?c \<noteq> []" using assms(2) by (cases ls) (simp_all add: unlines_def)
  have "splice 0 ?c (replicate BUFSZ 0) = [] @ ?c @ 0 # replicate ?z 0"
  proof -
    have "BUFSZ - length ?c = Suc ?z" using assms(3) by simp
    then have "drop (length ?c) (replicate BUFSZ (0 :: u8)) = 0 # replicate ?z 0"
      unfolding drop_replicate by (metis replicate_Suc)
    then show ?thesis by (simp add: splice_def)
  qed
  from grep_lines_unlines [OF assms(1) this, of 0 pattern "[]"]
  obtain buf' where "grep_lines pattern (splice 0 ?c (replicate BUFSZ 0)) 0 [] =
    (Inr (length ?c, buf'), unlines (filter (match pattern) ls))" by auto
  then show ?thesis using assms(3) c by (auto simp: grep_file_def Let_def)
qed

theorem grep_one_read_witness: "grep_file [0x61] [[0x61, NL, 0x62, NL]] = ([0x61, NL], None)"
proof -
  have "match [0x61] [0x61]" "\<not> match [0x61] [0x62]"
    by (simp_all add: match_def match_from.simps matchhere.simps CARET_def DOLLAR_def DOT_def STAR_def)
  then show ?thesis
    using grep_one_read [of "[[0x61], [0x62]]" "[0x61]"] by (simp add: unlines_def BUFSZ_def NL_def)
qed


text \<open>Complete lines at the start of a buffer of zeroes.\<close>

lemma splice_zeroes:
  assumes "length c < BUFSZ"
  shows "splice 0 c (replicate BUFSZ (0 :: u8)) = c @ 0 # replicate (BUFSZ - length c - 1) 0"
proof -
  have "BUFSZ - length c = Suc (BUFSZ - length c - 1)" using assms by simp
  then have "drop (length c) (replicate BUFSZ (0 :: u8)) = 0 # replicate (BUFSZ - length c - 1) 0"
    unfolding drop_replicate by (metis replicate_Suc)
  then show ?thesis by (simp add: splice_def)
qed

text \<open>
  A first delivery that has no newline is forgotten (\<^verbatim>\<open>if(p == buf) m = 0\<close>): when the next delivery is at least as long, \<^verbatim>\<open>grep\<close> behaves as
  if the first had not been there.
\<close>

theorem grep_forgets_start:
  assumes "0 \<notin> set c" "NL \<notin> set c" "c \<noteq> []" "length c < BUFSZ" "length c \<le> length c'"
  shows "grep_file pattern (c # c' # cs) = grep_file pattern (c' # cs)"
proof -
  let ?b = "splice 0 c (replicate BUFSZ (0 :: u8))"
  have b: "?b = c @ 0 # replicate (BUFSZ - length c - 1) 0" by (rule splice_zeroes [OF assms(4)])
  have "scan (c @ 0 # xs) = Inr None" for xs using assms(1,2) by (induction c) auto
  then have g: "grep_lines pattern ?b 0 [] = (Inr (0, ?b), [])" by (subst grep_lines.simps) (simp add: b)
  have "splice 0 (take BUFSZ c') ?b = splice 0 (take BUFSZ c') (replicate BUFSZ (0 :: u8))"
    using assms(4,5) unfolding b splice_def by (simp add: drop_Cons' min_def)
  then show ?thesis using assms(3-5) g by (simp add: grep_file_def Let_def)
qed


lemma unlines_Nil [simp]: "unlines ls = [] \<longleftrightarrow> ls = []"
  by (cases ls) (simp_all add: unlines_def)



end
