(* ===== verification/Proc_Reap.thy ===== *)
theory Proc_Reap
  imports Proc_Fork Vm_Grow
begin

text \<open>
  Waiting for a child (\<^verbatim>\<open>wait\<close> of \<^verbatim>\<open>src/proc.c\<close>): what it returns on every path, and that the pages of a child that has
  exited, its kernel stack, frames, page tables and directory, all go back to the free list.
\<close>

definition is_zombie_of :: "nat \<Rightarrow> proc \<Rightarrow> bool" where
  "is_zombie_of me p \<longleftrightarrow> parent p = Some me \<and> state p = ZOMBIE"

definition reaped :: "proc \<Rightarrow> proc" where
  "reaped p = p\<lparr>kstack := 0, state := UNUSED, pid := 0, parent := None, pname := (pname p)[0 := 0], killed := False\<rparr>"

text \<open>The pages of process \<open>p\<close>: an address space and a kernel stack apart from it, none of them free.\<close>

definition owns_pages :: "u32 list \<Rightarrow> memory \<Rightarrow> proc \<Rightarrow> bool" where
  "owns_pages ps m p \<longleftrightarrow> page_addr (kstack p) \<and> kstack p \<notin> set ps \<and> kstack p \<notin> used m (pgdir p) \<and>
     (\<exists>k\<le>2 ^ 19. image m (pgdir p) k) \<and> used m (pgdir p) \<inter> set ps = {}"

lemma image_user:
  assumes "image m pg k" "k \<le> 2 ^ 19"
  shows "\<forall>i j. frm m pg i j \<noteq> None \<longrightarrow> i < 512"
proof (intro allI impI)
  fix i j
  assume f: "frm m pg i j \<noteq> None"
  then have "j < 1024" by (auto simp: frm_def split: option.splits if_splits)
  then have "page_frame m pg (1024 * i + j) \<noteq> None" using f by (simp add: page_number)
  then show "i < 512" using assms by (simp add: image_def)
qed

lemma wait_scan_zombie:
  assumes k: "calm k" "lk s = hold LPtable k" and c: "find_index (is_zombie_of me) (ptable s) = Some c"
    and r: "room s ps" and o: "owns_pages ps (mem s) (ptable s ! c)"
  shows "\<exists>s' ps'. wait_scan me s = Inr (Return (pid (ptable s ! c)), s') \<and> room s' ps' \<and>
    set ps' = insert (kstack (ptable s ! c)) (used (mem s) (pgdir (ptable s ! c)) \<union> set ps) \<and>
    s' = s\<lparr>lk := k, mem := mem s', freelist := freelist s', ptable := (ptable s)[c := reaped (ptable s ! c)]\<rparr> \<and>
    only_in (insert (kstack (ptable s ! c)) (used (mem s) (pgdir (ptable s ! c)))) (mem s) (mem s')"
proof -
  let ?p = "ptable s ! c" and ?st = "kstack (ptable s ! c)" and ?pg = "pgdir (ptable s ! c)"
  have st: "page_addr ?st" "?st \<notin> set ps" "?st \<notin> used (mem s) ?pg" "used (mem s) ?pg \<inter> set ps = {}"
    and im: "\<exists>n\<le>2 ^ 19. image (mem s) ?pg n" using o by (auto simp: owns_pages_def)
  have cl: "c < length (ptable s)" using find_index_SomeD [OF c] by simp
  have cyc: "cycle (lk s) = lk s" using k by simp
  obtain s1 where s1: "kfree ?st s = Inr s1" "room s1 (?st # ps)" "only_in {?st} (mem s) (mem s1)" "same_rest s s1" using kfree_room [OF r st(1,2)] by blast
  have e1: "s1 = s\<lparr>mem := mem s1, freelist := freelist s1\<rparr>" by (rule same_rest_held [OF cyc s1(4)])
  define s2 where "s2 = upd_proc c (\<lambda>x. x\<lparr>kstack := 0\<rparr>) s1"
  have e2: "s2 = s\<lparr>mem := mem s1, freelist := freelist s1, ptable := (ptable s)[c := ?p\<lparr>kstack := 0\<rparr>]\<rparr>"
    unfolding s2_def upd_proc_def by (subst (1 2 3) e1) simp
  obtain n where n: "n \<le> 2 ^ 19" "image (mem s) ?pg n" using im by blast
  have ok: "space_ok (mem s) ?pg" using n(2) by (simp add: image_def)
  have l: "loc (mem s1) ?pg = loc (mem s) ?pg" by (rule loc_frame [OF s1(3)]) (use st ok in auto)
  then have u: "used (mem s2) ?pg = used (mem s) ?pg" "space_ok (mem s2) ?pg" using ok by (simp_all add: e2 used_def space_ok_def)
  have "frm (mem s2) ?pg i j = frm (mem s) ?pg i j" for i j using fun_cong [OF l, of "Frm i j"] by (simp add: e2)
  then have us: "\<forall>i j. frm (mem s2) ?pg i j \<noteq> None \<longrightarrow> i < 512" using image_user [OF n(2,1)] by simp
  have r2: "room s2 (?st # ps)" using s1(2) by (simp add: s2_def upd_proc_def room_def free_pages_def kmem_idle_def)
  have dj: "used (mem s2) ?pg \<inter> set (?st # ps) = {}" using u(1) st by auto
  obtain s3 ps' where s3: "freevm ?pg s2 = Inr s3" "room s3 ps'" "set ps' = set (?st # ps) \<union> used (mem s2) ?pg"
      "only_in (used (mem s2) ?pg) (mem s2) (mem s3)" "same_rest s2 s3"
    using freevm_run [OF r2 u(2) dj us] by blast
  have "s3 = s2\<lparr>mem := mem s3, freelist := freelist s3\<rparr>" by (rule same_rest_held [OF _ s3(5)]) (use cyc in \<open>simp add: e2\<close>)
  then obtain m3 f3 where e3: "s3 = s2\<lparr>mem := m3, freelist := f3\<rparr>" by metis
  let ?s4 = "s\<lparr>lk := k, mem := mem s3, freelist := freelist s3, ptable := (ptable s)[c := reaped ?p]\<rparr>"
  have e4: "upd_proc c (\<lambda>x. x\<lparr>state := UNUSED, pid := 0, parent := None, pname := (pname x)[0 := 0], killed := False\<rparr>) s3 =
      s\<lparr>mem := mem s3, freelist := freelist s3, ptable := (ptable s)[c := reaped ?p]\<rparr>"
    unfolding upd_proc_def e3 e2 using cl by (simp add: reaped_def)
  have fi: "find_index (\<lambda>p. parent p = Some me \<and> state p = ZOMBIE) (ptable s) = Some c" using c by (simp add: is_zombie_of_def [abs_def])
  have "pgdir (ptable s2 ! c) = ?pg" using cl by (simp add: e2)
  then have "wait_scan me s = Inr (Return (pid ?p), ?s4)"
    unfolding wait_scan_def using fi s1(1) s3(1) e4 k by (simp add: Let_def s2_def [symmetric] calm_release [where k = k])
  moreover have "room ?s4 ps'" using s3(2) k(1) by (simp add: room_def free_pages_def kmem_idle_def)
  moreover have "only_in (insert ?st (used (mem s) ?pg)) (mem s) (mem s3)"
    using s1(3) s3(4) u(1) by (auto simp: only_in_def e2)
  ultimately show ?thesis using s3(3) u(1) by (intro exI [of _ ?s4] exI [of _ ps']) auto
qed

text \<open>
  C35. \<^verbatim>\<open>wait\<close> of a process with a child that has exited returns the identifier of the first one in the table, frees its entry,
  and returns every page of it, kernel stack, frames, page tables and directory, to the free list exactly once; nothing else
  changes. With children but none of them exited it sleeps, and without children, or killed, it returns -1 and changes nothing.
\<close>

theorem wait_reaps:
  assumes "calm (lk s)" "curproc s = Some me"
  shows "case find_index (is_zombie_of me) (ptable s) of
      None \<Rightarrow> wait s = (if (\<exists>p\<in>set (ptable s). parent p = Some me) \<and> \<not> killed (ptable s ! me) then Inl (Sleep (ChanProc me)) else Inr (- 1, s))
    | Some c \<Rightarrow> \<forall>ps. room s ps \<and> owns_pages ps (mem s) (ptable s ! c) \<longrightarrow>
        (\<exists>s' ps'. wait s = Inr (pid (ptable s ! c), s') \<and> room s' ps' \<and>
           set ps' = insert (kstack (ptable s ! c)) (used (mem s) (pgdir (ptable s ! c)) \<union> set ps) \<and>
           s' = s\<lparr>mem := mem s', freelist := freelist s', ptable := (ptable s)[c := reaped (ptable s ! c)]\<rparr> \<and>
           only_in (insert (kstack (ptable s ! c)) (used (mem s) (pgdir (ptable s ! c)))) (mem s) (mem s'))"
proof (cases "find_index (is_zombie_of me) (ptable s)")
  case None
  then have "find_index (\<lambda>p. parent p = Some me \<and> state p = ZOMBIE) (ptable s) = None" by (simp add: is_zombie_of_def [abs_def])
  then show ?thesis using None assms by (auto simp: wait_def wait_scan_def run)
next
  case (Some c)
  let ?s = "s\<lparr>lk := hold LPtable (lk s)\<rparr>"
  have "\<exists>s' ps'. wait s = Inr (pid (ptable s ! c), s') \<and> room s' ps' \<and>
           set ps' = insert (kstack (ptable s ! c)) (used (mem s) (pgdir (ptable s ! c)) \<union> set ps) \<and>
           s' = s\<lparr>mem := mem s', freelist := freelist s', ptable := (ptable s)[c := reaped (ptable s ! c)]\<rparr> \<and>
           only_in (insert (kstack (ptable s ! c)) (used (mem s) (pgdir (ptable s ! c)))) (mem s) (mem s')"
    if h: "room s ps" "owns_pages ps (mem s) (ptable s ! c)" for ps
  proof -
    have r: "room ?s ps" using h(1) assms(1) by (simp add: room_def free_pages_def kmem_idle_def)
    have a: "acquire LPtable s = Inr ?s" using assms(1) by (simp add: run)
    from wait_scan_zombie [of "lk s" ?s me c ps] assms(1) Some r h(2)
    obtain s' ps' where "wait_scan me ?s = Inr (Return (pid (ptable s ! c)), s')" "room s' ps'"
        "set ps' = insert (kstack (ptable s ! c)) (used (mem s) (pgdir (ptable s ! c)) \<union> set ps)"
        "s' = ?s\<lparr>lk := lk s, mem := mem s', freelist := freelist s', ptable := (ptable s)[c := reaped (ptable s ! c)]\<rparr>"
        "only_in (insert (kstack (ptable s ! c)) (used (mem s) (pgdir (ptable s ! c)))) (mem s) (mem s')" by auto
    then show ?thesis using a assms(2) by (intro exI [of _ s'] exI [of _ ps']) (simp add: wait_def)
  qed
  then show ?thesis using Some by simp
qed

text \<open>Witness: a child with one page and its stack in the page at \<open>0x107000\<close>.\<close>

definition wait_demo :: kfile where
  "wait_demo = fork_demo\<lparr>ptable := [zero_proc\<lparr>state := RUNNING, pid := 1\<rparr>,
     zero_proc\<lparr>state := ZOMBIE, pid := 7, parent := Some 0, pgdir := 0x100000, sz := 1, kstack := 0x107000\<rparr>]\<rparr>"

theorem wait_reaps_witness:
  "\<exists>s' ps'. wait wait_demo = Inr (7, s') \<and> room s' ps' \<and> 0x107000 \<in> set ps' \<and> state (ptable s' ! 1) = UNUSED"
proof -
  let ?ps = "[0x103000, 0x104000, 0x105000, 0x106000]"
  have s: "calm (lk wait_demo)" "curproc wait_demo = Some 0" "room wait_demo ?ps"
    using fork_demo_ready by (simp_all add: wait_demo_def room_def free_pages_def kmem_idle_def) (simp add: fork_demo_def)
  have c: "find_index (is_zombie_of 0) (ptable wait_demo) = Some 1" by (simp add: wait_demo_def is_zombie_of_def zero_proc_def)
  have "image demo_mem 0x100000 1" using demo_image(1) by simp
  then have "owns_pages ?ps (mem wait_demo) (ptable wait_demo ! 1)"
    using demo_vm_space(3) by (auto simp: owns_pages_def wait_demo_def fork_demo_def page_addr_nat intro!: exI [of _ 1])
  then obtain s' ps' where w: "wait wait_demo = Inr (pid (ptable wait_demo ! 1), s')" "room s' ps'"
      "set ps' = insert (kstack (ptable wait_demo ! 1)) (used (mem wait_demo) (pgdir (ptable wait_demo ! 1)) \<union> set ?ps)"
      "s' = wait_demo\<lparr>mem := mem s', freelist := freelist s', ptable := (ptable wait_demo)[1 := reaped (ptable wait_demo ! 1)]\<rparr>"
    using wait_reaps [OF s(1,2)] s(3) unfolding c option.case by blast
  have "ptable s' ! 1 = reaped (ptable wait_demo ! 1)" by (subst w(4)) (simp add: wait_demo_def)
  then show ?thesis using w(1-3) by (intro exI [of _ s'] exI [of _ ps']) (simp add: wait_demo_def reaped_def)
qed

end
