(* ===== verification/Ulib.thy ===== *)
theory Ulib
  imports CString "HOL-Library.Signed_Division"
begin

text \<open>
  The C library of the user programs (\<^verbatim>\<open>src/ulib.c\<close>, \<^verbatim>\<open>src/printf.c\<close>) and two filters built on it
  (\<^verbatim>\<open>src/wc.c\<close>, \<^verbatim>\<open>src/cat.c\<close>). Routines whose names the kernel's string library also has carry a \<open>u\<close> in
  front. Memory and views are those of the string library. What successive calls of \<^verbatim>\<open>read\<close> deliver is a
  list argument; what is written to a descriptor is the list of bytes.
\<close>

section \<open>Strings\<close>

partial_function (option) strcpy :: "memory \<Rightarrow> u32 \<Rightarrow> u32 \<Rightarrow> memory option" where
  "strcpy m s t = (let c = m t; m = m(s := c) in if c \<noteq> 0 then strcpy m (s + 1) (t + 1) else Some m)"

partial_function (option) strcmp :: "view \<Rightarrow> view \<Rightarrow> int option" where
  "strcmp p q = (if p 0 \<noteq> 0 \<and> p 0 = q 0 then strcmp (next_view p) (next_view q)
     else Some (int (unat (p 0)) - int (unat (q 0))))"

definition ustrlen :: "view \<Rightarrow> nat option" where
  "ustrlen s = strlen_from s 0"

fun umemset :: "memory \<Rightarrow> u32 \<Rightarrow> u8 \<Rightarrow> nat \<Rightarrow> memory" where
  "umemset m s1 c 0 = m"
| "umemset m s1 c (Suc n) = umemset (m(s1 := c)) (s1 + 1) c n"

text \<open>\<^verbatim>\<open>strchr\<close> on a string given by its bytes: the index of the character.\<close>

fun strchr :: "u8 list \<Rightarrow> u8 \<Rightarrow> nat option" where
  "strchr [] c = None"
| "strchr (x # xs) c = (if x = c then Some 0 else map_option Suc (strchr xs c))"

text \<open>\<^verbatim>\<open>gets\<close>: the bytes stored in the buffer, NUL included, and the input that is left.\<close>

fun gets_loop :: "nat \<Rightarrow> int \<Rightarrow> u8 list \<Rightarrow> u8 list \<times> u8 list" where
  "gets_loop i mx [] = ([], [])"
| "gets_loop i mx (c # input) =
     (if int i + 1 < mx
      then if c = 0x0a \<or> c = 0x0d then ([c], input)
        else apfst ((#) c) (gets_loop (Suc i) mx input)
      else ([], c # input))"

definition gets :: "int \<Rightarrow> u8 list \<Rightarrow> u8 list \<times> u8 list" where
  "gets mx input = apfst (\<lambda>xs. xs @ [0]) (gets_loop 0 mx input)"

fun atoi_loop :: "u32 \<Rightarrow> u8 list \<Rightarrow> u32" where
  "atoi_loop n [] = n"
| "atoi_loop n (c # s) = (if 0x30 \<le> c \<and> c \<le> 0x39 then atoi_loop (n * 10 + ucast c - 0x30) s else n)"

definition atoi :: "u8 list \<Rightarrow> u32" where
  "atoi s = atoi_loop 0 s"

definition umemmove :: "memory \<Rightarrow> u32 \<Rightarrow> u32 \<Rightarrow> u32 \<Rightarrow> memory" where
  "umemmove m dst src n = copy_up m dst src (nat (sint n))"

section \<open>Formatted output\<close>

definition udigits :: "u8 list" where
  "udigits = [0x30, 0x31, 0x32, 0x33, 0x34, 0x35, 0x36, 0x37, 0x38, 0x39, 0x41, 0x42, 0x43, 0x44, 0x45, 0x46]"

text \<open>
  The digits of \<open>x\<close>, least significant first. \<open>x\<close> is a signed number, so the remainder and with it the index
  into \<^verbatim>\<open>digits\<close> can be negative: \<open>Fault\<close>. Ten rounds are enough for any 32-bit number in base 10, and
  fewer in base 16.
\<close>

fun udigit_loop :: "nat \<Rightarrow> int \<Rightarrow> int \<Rightarrow> u8 list res" where
  "udigit_loop 0 base x = Inr []"
| "udigit_loop (Suc n) base x =
     (if x smod base < 0 then Inl Fault
      else bindR (if x sdiv base \<noteq> 0 then udigit_loop n base (x sdiv base) else Inr []) (\<lambda>ds.
        Inr (udigits ! nat (x smod base) # ds)))"

text \<open>\<open>xx\<close> is the argument as a word; \<^verbatim>\<open>-xx\<close> wraps around.\<close>

definition uprintint :: "u32 \<Rightarrow> int \<Rightarrow> bool \<Rightarrow> u8 list res" where
  "uprintint xx base sg =
     (let neg = sg \<and> sint xx < 0; x = if neg then sint (- xx) else sint xx in
      bindR (udigit_loop 10 base x) (\<lambda>ds. Inr (rev (ds @ (if neg then [0x2d] else [])))))"

datatype uarg = UInt u32 | UStr "u8 list option"

text \<open>The body of the loop of \<^verbatim>\<open>printf\<close>; \<open>pct\<close> is \<^verbatim>\<open>state == '%'\<close>. A missing argument is a \<open>Fault\<close>.\<close>

fun uprintf_loop :: "bool \<Rightarrow> u8 list \<Rightarrow> uarg list \<Rightarrow> u8 list res" where
  "uprintf_loop pct [] args = Inr []"
| "uprintf_loop pct (c # fmt) args =
     (if \<not> pct
      then if c = 0x25 then uprintf_loop True fmt args
        else bindR (uprintf_loop False fmt args) (\<lambda>r. Inr (c # r))
      else if c = 0x64 \<or> c = 0x78 \<or> c = 0x70 then
        (case args of
           UInt x # args \<Rightarrow> bindR (if c = 0x64 then uprintint x 10 True else uprintint x 16 False) (\<lambda>ds.
             bindR (uprintf_loop False fmt args) (\<lambda>r. Inr (ds @ r)))
         | _ \<Rightarrow> Inl Fault)
      else if c = 0x73 then
        (case args of
           UStr t # args \<Rightarrow> bindR (uprintf_loop False fmt args) (\<lambda>r.
             Inr ((case t of None \<Rightarrow> [0x28, 0x6e, 0x75, 0x6c, 0x6c, 0x29] | Some t \<Rightarrow> t) @ r))
         | _ \<Rightarrow> Inl Fault)
      else if c = 0x63 then
        (case args of
           UInt x # args \<Rightarrow> bindR (uprintf_loop False fmt args) (\<lambda>r. Inr (ucast x # r))
         | _ \<Rightarrow> Inl Fault)
      else bindR (uprintf_loop False fmt args) (\<lambda>r. Inr (if c = 0x25 then c # r else 0x25 # c # r)))"

definition uprintf :: "u8 list \<Rightarrow> uarg list \<Rightarrow> u8 list res" where
  "uprintf fmt args = uprintf_loop False fmt args"

section \<open>Filters\<close>

definition white :: "u8 list" where
  "white = [0x20, 0x0d, 0x09, 0x0a, 0x0b]"

record counts =
  nl :: u32
  nw :: u32
  nc :: u32
  inword :: bool

definition wc_char :: "u8 \<Rightarrow> counts \<Rightarrow> counts" where
  "wc_char b k =
     (let k = k\<lparr>nc := nc k + 1\<rparr>; k = (if b = 0x0a then k\<lparr>nl := nl k + 1\<rparr> else k) in
      if strchr white b \<noteq> None then k\<lparr>inword := False\<rparr>
      else if \<not> inword k then k\<lparr>nw := nw k + 1, inword := True\<rparr>
      else k)"

text \<open>The loop over the deliveries of \<^verbatim>\<open>read\<close>; an empty one ends the file.\<close>

fun wc_loop :: "u8 list list \<Rightarrow> counts \<Rightarrow> counts" where
  "wc_loop [] k = k"
| "wc_loop (c # cs) k = (if c = [] then k else wc_loop cs (fold wc_char c k))"

definition wc :: "u8 list list \<Rightarrow> counts" where
  "wc cs = wc_loop cs \<lparr>nl = 0, nw = 0, nc = 0, inword = False\<rparr>"

fun cat :: "u8 list list \<Rightarrow> u8 list" where
  "cat [] = []"
| "cat (c # cs) = (if c = [] then [] else c @ cat cs)"

section \<open>Decimal numbers\<close>

text \<open>A number from its digits, least significant first.\<close>

definition of_digits :: "nat list \<Rightarrow> nat" where
  "of_digits ds = foldr (\<lambda>d a. d + 10 * a) ds 0"

lemma udigits_nth: "d < 10 \<Longrightarrow> udigits ! d = of_nat (0x30 + d)"
proof -
  assume "d < 10"
  then consider "d = 0" | "d = 1" | "d = 2" | "d = 3" | "d = 4" | "d = 5" | "d = 6" | "d = 7" | "d = 8" | "d = 9" by force
  then show ?thesis by cases (simp_all add: udigits_def)
qed

lemma udigit_loop_digits:
  assumes "0 \<le> x" "x < 10 ^ Suc n"
  shows "\<exists>ds. udigit_loop (Suc n) 10 x = Inr (map (\<lambda>d. of_nat (0x30 + d)) ds) \<and> (\<forall>d\<in>set ds. d < 10) \<and>
    of_digits ds = nat x"
  using assms
proof (induction n arbitrary: x)
  case 0
  then have "x sdiv 10 = 0" "x smod 10 = x" by (simp_all add: signed_divide_int_def signed_modulo_int_def sgn_if)
  then show ?case using 0 udigits_nth [of "nat x"] by (auto simp: of_digits_def intro!: exI [of _ "[nat x]"])
next
  case (Suc n)
  have q: "x sdiv 10 = x div 10" "x smod 10 = x mod 10" "0 \<le> x div 10"
    using Suc.prems by (auto simp: signed_divide_int_def signed_modulo_int_def sgn_if)
  have m: "nat (x mod 10) < 10" by simp
  show ?case
  proof (cases "x div 10 = 0")
    case True
    then have "nat (x mod 10) = nat x" using Suc.prems(1) by (simp add: mod_pos_pos_trivial div_eq_0_iff)
    then show ?thesis using q True udigits_nth [OF m] m
      by (intro exI [of _ "[nat (x mod 10)]"]) (simp add: of_digits_def)
  next
    case False
    have "x div 10 < 10 ^ Suc n" using Suc.prems(2) by simp
    then obtain ds where ds: "udigit_loop (Suc n) 10 (x div 10) = Inr (map (\<lambda>d. of_nat (0x30 + d)) ds)"
      "\<forall>d\<in>set ds. d < 10" "of_digits ds = nat (x div 10)" using Suc.IH q(3) by blast
    have "nat (x mod 10) + 10 * nat (x div 10) = nat x" using Suc.prems(1) by (simp add: nat_mod_distrib nat_div_distrib)
    then have "of_digits (nat (x mod 10) # ds) = nat x" using ds(3) by (simp add: of_digits_def)
    moreover have "udigit_loop (Suc (Suc n)) 10 x = Inr (map (\<lambda>d. of_nat (0x30 + d)) (nat (x mod 10) # ds))"
      by (subst udigit_loop.simps) (simp add: q False ds(1) udigits_nth [OF m] del: udigit_loop.simps)
    ultimately show ?thesis using ds(2) m by (intro exI [of _ "nat (x mod 10) # ds"]) simp
  qed
qed

lemma atoi_loop_digits:
  assumes "\<forall>d\<in>set ds. d < 10"
  shows "atoi_loop (of_nat a) (map (\<lambda>d. of_nat (0x30 + d)) ds) = of_nat (foldl (\<lambda>a d. a * 10 + d) a ds)"
  using assms
proof (induction ds arbitrary: a)
  case (Cons d ds)
  have d: "d < 10" using Cons.prems by simp
  have u: "unat (of_nat (0x30 + d) :: u8) = 0x30 + d" using d unfolding unat_of_nat by simp
  then have "(of_nat (0x30 + d) :: u8) \<le> 0x39 \<and> (0x30 :: u8) \<le> of_nat (0x30 + d)"
    using d unfolding word_le_nat_alt by simp
  moreover have "(ucast (of_nat (0x30 + d) :: u8) :: u32) = of_nat (0x30 + d)"
    using u by (metis of_nat_unat)
  moreover have "of_nat a * 10 + of_nat (0x30 + d) - 0x30 = (of_nat (a * 10 + d) :: u32)" by simp
  ultimately have "atoi_loop (of_nat a) (map (\<lambda>d. of_nat (0x30 + d)) (d # ds)) =
    atoi_loop (of_nat (a * 10 + d)) (map (\<lambda>d. of_nat (0x30 + d)) ds)"
    by (simp only: list.map atoi_loop.simps if_True simp_thms)
  then show ?case using Cons.IH [of "a * 10 + d"] Cons.prems by simp
qed simp

lemma foldl_of_digits: "foldl (\<lambda>a d. a * 10 + d) 0 (rev ds) = of_digits ds"
  unfolding of_digits_def foldl_conv_foldr by (simp add: add.commute mult.commute)

text \<open>
  Round trip: \<^verbatim>\<open>atoi\<close> reads back the decimal number that \<^verbatim>\<open>printf("%d")\<close> writes, for every non-negative
  \<^verbatim>\<open>int\<close>.
\<close>

theorem printf_atoi:
  assumes "0 \<le> sint n"
  shows "\<exists>out. uprintf [0x25, 0x64] [UInt n] = Inr out \<and> atoi out = n"
proof -
  have "sint n < 2 ^ 31" using sint_lt [of n] by simp
  then have "sint n < 10 ^ Suc 9" by simp
  from udigit_loop_digits [OF assms this] obtain ds where
    ds: "udigit_loop 10 10 (sint n) = Inr (map (\<lambda>d. of_nat (0x30 + d)) ds)" "\<forall>d\<in>set ds. d < 10" "of_digits ds = nat (sint n)"
    by auto
  have "uprintf [0x25, 0x64] [UInt n] = Inr (map (\<lambda>d. of_nat (0x30 + d)) (rev ds))"
    using ds(1) assms by (simp add: uprintf_def uprintint_def Let_def rev_map)
  moreover have "atoi (map (\<lambda>d. of_nat (0x30 + d)) (rev ds)) = of_nat (of_digits ds)"
    using atoi_loop_digits [of "rev ds" 0] ds(2) unfolding atoi_def foldl_of_digits by simp
  moreover have "(of_nat (nat (sint n)) :: u32) = n" using assms by simp
  ultimately show ?thesis using ds(3) by simp
qed

theorem printf_atoi_witness: "\<exists>out. uprintf [0x25, 0x64] [UInt 1234] = Inr out \<and> atoi out = 1234"
  using printf_atoi [of 1234] by simp

text \<open>
  \<^verbatim>\<open>printf("%x")\<close> of a negative number whose last hexadecimal digit is not 0 reads outside the table of
  digits: the number is kept in a signed variable, so the remainder is negative. The kernel's
  \<^verbatim>\<open>cprintf\<close> uses an unsigned variable.
\<close>

theorem printf_hex_negative:
  assumes "sint n < 0" "sint n smod 16 \<noteq> 0"
  shows "uprintf [0x25, 0x78] [UInt n] = Inl Fault"
proof -
  have "sint n smod 16 < 0" using assms by (simp add: signed_modulo_int_def)
  then have "udigit_loop (Suc 9) 16 (sint n) = Inl Fault" by (simp only: udigit_loop.simps if_True)
  then show ?thesis by (simp add: uprintf_def uprintint_def Let_def)
qed

theorem printf_hex_negative_witness: "uprintf [0x25, 0x78] [UInt (- 1)] = Inl Fault"
  by (rule printf_hex_negative) (simp_all add: signed_modulo_int_def)

section \<open>Counting words\<close>

abbreviation space_char :: "u8 \<Rightarrow> bool" where
  "space_char b \<equiv> b \<in> set white"

text \<open>The words of a text: its maximal pieces without white space.\<close>

function words :: "u8 list \<Rightarrow> u8 list list" where
  "words xs = (case dropWhile space_char xs of
     [] \<Rightarrow> []
   | y # ys \<Rightarrow> (y # takeWhile (\<lambda>b. \<not> space_char b) ys) # words (dropWhile (\<lambda>b. \<not> space_char b) ys))"
  by pat_completeness auto
termination
proof (relation "measure length")
  fix xs ys :: "u8 list" and y
  assume "dropWhile space_char xs = y # ys"
  then have "length (y # ys) \<le> length xs" by (metis length_dropWhile_le)
  then show "(dropWhile (\<lambda>b. \<not> space_char b) ys, xs) \<in> measure length"
    using length_dropWhile_le [of "\<lambda>b. \<not> space_char b" ys] by simp
qed simp

declare words.simps [simp del]

lemma words_Nil [simp]: "words [] = []"
  by (simp add: words.simps)

lemma words_space [simp]: "space_char b \<Longrightarrow> words (b # xs) = words xs"
  by (subst (1 2) words.simps) simp

lemma words_char: "\<not> space_char b \<Longrightarrow> length (words (b # xs)) = Suc (length (words (dropWhile (\<lambda>b. \<not> space_char b) xs)))"
  by (subst words.simps) simp

lemma strchr_iff: "strchr xs c \<noteq> None \<longleftrightarrow> c \<in> set xs"
  by (induction xs) auto

lemma wc_char_fields:
  "nc (wc_char b k) = nc k + 1" "nl (wc_char b k) = nl k + (if b = 0x0a then 1 else 0)"
  "inword (wc_char b k) \<longleftrightarrow> \<not> space_char b"
  "nw (wc_char b k) = nw k + (if space_char b \<or> inword k then 0 else 1)"
  by (auto simp: wc_char_def strchr_iff Let_def simp del: not_None_eq)

lemma fold_wc:
  "nc (fold wc_char xs k) = nc k + of_nat (length xs) \<and> nl (fold wc_char xs k) = nl k + of_nat (count_list xs 0x0a) \<and>
   nw (fold wc_char xs k) = nw k + of_nat (length (words (if inword k then dropWhile (\<lambda>b. \<not> space_char b) xs else xs)))"
proof (induction xs arbitrary: k)
  case (Cons b xs)
  show ?case
    using Cons.IH [of "wc_char b k"] words_char [of b xs]
    by (cases "space_char b"; cases "inword k") (auto simp: wc_char_fields)
qed simp

lemma wc_loop_concat: "[] \<notin> set cs \<Longrightarrow> wc_loop cs k = fold wc_char (concat cs) k"
  by (induction cs arbitrary: k) auto

text \<open>
  \<^verbatim>\<open>wc\<close> counts what it should, however the input is cut into pieces: the newlines, the words and the
  bytes of the whole input (modulo \<open>2 ^ 32\<close>).
\<close>

theorem wc_counts:
  assumes "[] \<notin> set cs"
  shows "nl (wc cs) = of_nat (count_list (concat cs) 0x0a) \<and> nw (wc cs) = of_nat (length (words (concat cs))) \<and>
    nc (wc cs) = of_nat (length (concat cs))"
  unfolding wc_def wc_loop_concat [OF assms] using fold_wc [of "concat cs"] by simp

theorem wc_counts_witness:
  "nl (wc [[0x61, 0x20], [0x62, 0x62, 0x0a]]) = 1 \<and> nw (wc [[0x61, 0x20], [0x62, 0x62, 0x0a]]) = 2 \<and>
   nc (wc [[0x61, 0x20], [0x62, 0x62, 0x0a]]) = 5"
  using wc_counts [of "[[0x61, 0x20], [0x62, 0x62, 0x0a]]"] by (simp add: words_char white_def)

end
