(* ===== verification/Shell.thy ===== *)
theory Shell
  imports Ulib
begin

text \<open>
  The shell (\<^verbatim>\<open>src/sh.c\<close>). The parser works on one line in a buffer. A character pointer into the line is
  modelled by what it points at, the bytes up to the end \<^verbatim>\<open>es\<close> of the line; its position is recovered from
  the length. \<^verbatim>\<open>panic\<close> of the shell (a message, then \<^verbatim>\<open>exit\<close>) is the outcome \<open>Panic\<close>. Allocation of the
  nodes is assumed to succeed, as the source does. The mutually recursive functions of the parser take
  fuel; \<open>Spin\<close> is its end, and the lemmas show that a line never needs more than four units per byte.
  The message \<^verbatim>\<open>leftovers\<close> that \<^verbatim>\<open>parsecmd\<close> prints before its panic is not part of the model.
\<close>

section \<open>Tokens\<close>

type_synonym ptr = "u8 list"

text \<open>\<open>*s\<close>: at the end of the line it reads the terminating NUL.\<close>

definition deref :: "ptr \<Rightarrow> u8" where
  "deref s = (case s of [] \<Rightarrow> 0 | c # _ \<Rightarrow> c)"

definition whitespace :: "u8 list" where
  "whitespace = [0x20, 0x09, 0x0d, 0x0a, 0x0b]"

definition symbols :: "u8 list" where
  "symbols = [0x3c, 0x7c, 0x3e, 0x26, 0x3b, 0x28, 0x29]"

definition LT :: u8 where "LT = 0x3c"
definition BAR :: u8 where "BAR = 0x7c"
definition GT :: u8 where "GT = 0x3e"
definition AMP :: u8 where "AMP = 0x26"
definition SEMI :: u8 where "SEMI = 0x3b"
definition LPAR :: u8 where "LPAR = 0x28"
definition RPAR :: u8 where "RPAR = 0x29"
definition PLUS :: u8 where "PLUS = 0x2b"
definition WORD :: u8 where "WORD = 0x61"

fun skip_white :: "ptr \<Rightarrow> ptr" where
  "skip_white [] = []"
| "skip_white (c # s) = (if strchr whitespace c \<noteq> None then skip_white s else c # s)"

fun skip_word :: "ptr \<Rightarrow> ptr" where
  "skip_word [] = []"
| "skip_word (c # s) =
     (if strchr whitespace c = None \<and> strchr symbols c = None then skip_word s else c # s)"

text \<open>The token, its start and end, and the position after it. \<^verbatim>\<open>switch(*s)\<close> is the conditional.\<close>

definition gettoken :: "ptr \<Rightarrow> u8 \<times> ptr \<times> ptr \<times> ptr" where
  "gettoken ps =
     (let q = skip_white ps; c = deref q in
      let (ret, eq) =
        (if c = 0 then (0, q)
         else if c \<in> {BAR, LPAR, RPAR, SEMI, AMP, LT} then (c, tl q)
         else if c = GT then if deref (tl q) = GT then (PLUS, tl (tl q)) else (c, tl q)
         else (WORD, skip_word q)) in
      (ret, q, eq, skip_white eq))"

definition peek :: "ptr \<Rightarrow> u8 list \<Rightarrow> bool \<times> ptr" where
  "peek ps toks = (let s = skip_white ps in (deref s \<noteq> 0 \<and> strchr toks (deref s) \<noteq> None, s))"

section \<open>Commands\<close>

datatype cmd =
    EXEC "(ptr \<times> ptr) list"
  | REDIR cmd ptr ptr u32 int
  | PIPE cmd cmd
  | LIST cmd cmd
  | BACK cmd

definition MAXARGS :: nat where "MAXARGS = 10"
definition O_RDONLY :: u32 where "O_RDONLY = 0x000"
definition O_WRONLY :: u32 where "O_WRONLY = 0x001"
definition O_RDWR :: u32 where "O_RDWR = 0x002"
definition O_CREATE :: u32 where "O_CREATE = 0x200"

text \<open>
  \<^verbatim>\<open>parseexec\<close> keeps the pointer \<^verbatim>\<open>cmd\<close> to the exec node while \<^verbatim>\<open>ret\<close> wraps redirections around it:
  storing an argument in the node changes the innermost command of \<^verbatim>\<open>ret\<close>.
\<close>

fun add_arg :: "ptr \<Rightarrow> ptr \<Rightarrow> cmd \<Rightarrow> cmd" where
  "add_arg q eq (EXEC args) = EXEC (args @ [(q, eq)])"
| "add_arg q eq (REDIR c f ef mode fd) = REDIR (add_arg q eq c) f ef mode fd"
| "add_arg q eq c = c"

section \<open>Progress of the scanner\<close>

lemma skip_white_suffix: "\<exists>ys. ps = ys @ skip_white ps"
  by (induction ps) (auto, metis append_Cons)

lemma skip_word_suffix: "\<exists>ys. ps = ys @ skip_word ps"
  by (induction ps) (auto, metis append_Cons)

lemma skip_white_le: "length (skip_white ps) \<le> length ps"
  by (induction ps) auto

lemma skip_word_le: "length (skip_word ps) \<le> length ps"
  by (induction ps) auto

lemma skip_white_idem [simp]: "skip_white (skip_white s) = skip_white s"
  by (induction s) auto

lemma skip_white_head: "skip_white s = c # t \<Longrightarrow> strchr whitespace c = None"
  by (induction s) (auto split: if_splits)

lemma gettoken_le:
  assumes "gettoken ps = (ret, q, eq, rest)"
  shows "length rest \<le> length ps"
proof -
  have "length eq \<le> length (skip_white ps)"
    using assms skip_word_le [of "skip_white ps"]
    by (auto simp: gettoken_def Let_def split: if_splits)
  moreover have "rest = skip_white eq" using assms by (auto simp: gettoken_def Let_def split: if_splits)
  ultimately show ?thesis using skip_white_le [of eq] skip_white_le [of ps] by simp
qed

text \<open>A token other than the end of the line takes at least one byte.\<close>

lemma gettoken_less:
  assumes "gettoken ps = (ret, q, eq, rest)" "deref (skip_white ps) \<noteq> 0"
  shows "length rest < length ps"
proof -
  obtain c t where s: "skip_white ps = c # t" "c \<noteq> 0" using assms(2) by (auto simp: deref_def split: list.splits)
  have w: "strchr whitespace c = None" by (rule skip_white_head [OF s(1)])
  have "length eq \<le> length t"
  proof (cases "c \<in> {BAR, LPAR, RPAR, SEMI, AMP, LT, GT}")
    case True
    then show ?thesis using assms(1) s by (auto simp: gettoken_def Let_def deref_def split: if_splits)
  next
    case False
    then have "strchr symbols c = None"
      by (auto simp: symbols_def BAR_def LPAR_def RPAR_def SEMI_def AMP_def LT_def GT_def)
    then have "skip_word (c # t) = skip_word t" using w by simp
    then show ?thesis using assms(1) s False skip_word_le [of t] by (auto simp: gettoken_def Let_def deref_def)
  qed
  moreover have "rest = skip_white eq" using assms(1) by (auto simp: gettoken_def Let_def split: if_splits)
  ultimately show ?thesis using skip_white_le [of eq] skip_white_le [of ps] s(1) by simp
qed

lemma peek_le: "peek ps toks = (b, s) \<Longrightarrow> length s \<le> length ps"
  using skip_white_le [of ps] by (auto simp: peek_def Let_def)

lemma peek_True: "peek ps toks = (True, s) \<Longrightarrow> deref (skip_white s) \<noteq> 0"
  by (auto simp: peek_def Let_def)

lemma peek_token: "peek ps toks = (True, s) \<Longrightarrow> gettoken s = (r, q, eq, rest) \<Longrightarrow> length rest < length ps"
  using peek_le [of ps toks True s] peek_True [of ps toks s] gettoken_less [of s r q eq rest] by simp

section \<open>The parser\<close>

function parseredirs :: "cmd \<Rightarrow> ptr \<Rightarrow> (cmd \<times> ptr) res" where
  "parseredirs cmd ps =
     (case peek ps [LT, GT] of
       (False, ps) \<Rightarrow> Inr (cmd, ps)
     | (True, ps) \<Rightarrow>
         (case gettoken ps of (tok, _, _, ps) \<Rightarrow>
           (case gettoken ps of (r, q, eq, ps) \<Rightarrow>
             if r \<noteq> WORD then Inl (Panic ''missing file for redirection'')
             else parseredirs
               (if tok = LT then REDIR cmd q eq O_RDONLY 0
                else if tok = GT \<or> tok = PLUS then REDIR cmd q eq (O_WRONLY OR O_CREATE) 1
                else cmd) ps)))"
  by pat_completeness auto
termination
proof (relation "measure (\<lambda>(cmd, ps). length ps)", goal_cases)
  case (2 cmd ps x y xa ya xb yb xc yc xd yd xe ye xf yf)
  then have "peek ps [LT, GT] = (True, y)" "gettoken y = (xa, xb, xc, yc)" "gettoken yc = (xd, xe, xf, yf)" by auto
  then show ?case using peek_token gettoken_le by fastforce
qed simp

text \<open>The loop of \<^verbatim>\<open>parseline\<close> over trailing \<^verbatim>\<open>&\<close>.\<close>

function parseback :: "cmd \<Rightarrow> ptr \<Rightarrow> cmd \<times> ptr" where
  "parseback cmd ps =
     (case peek ps [AMP] of
       (False, ps) \<Rightarrow> (cmd, ps)
     | (True, ps) \<Rightarrow> (case gettoken ps of (_, _, _, ps) \<Rightarrow> parseback (BACK cmd) ps))"
  by pat_completeness auto
termination
proof (relation "measure (\<lambda>(cmd, ps). length ps)", goal_cases)
  case (2 cmd ps x y xa ya xb yb xc yc)
  then have "peek ps [AMP] = (True, y)" "gettoken y = (xa, xb, xc, yc)" by auto
  then show ?case using peek_token by fastforce
qed simp

text \<open>The loop of \<^verbatim>\<open>parseexec\<close> over the arguments.\<close>

lemma bindR_cong_parse [fundef_cong]:
  "m = m' \<Longrightarrow> (\<And>x. m' = Inr x \<Longrightarrow> f x = f' x) \<Longrightarrow> bindR m f = bindR m' f'"
  by (auto simp: bindR_def split: sum.splits)

declare parseredirs.simps [simp del] parseback.simps [simp del]

lemma parseredirs_le: "parseredirs cmd ps = Inr (c, rest) \<Longrightarrow> length rest \<le> length ps"
proof (induction cmd ps arbitrary: c rule: parseredirs.induct)
  case (1 cmd ps)
  obtain b s where pk: "peek ps [LT, GT] = (b, s)" by fastforce
  obtain tok x y s1 where g1: "gettoken s = (tok, x, y, s1)" by (metis prod_cases4)
  obtain r q eq s2 where g2: "gettoken s1 = (r, q, eq, s2)" by (metis prod_cases4)
  note le = peek_le [OF pk] gettoken_le [OF g1] gettoken_le [OF g2]
  show ?case
  proof (cases b)
    case False
    then show ?thesis using 1(2) pk le by (subst (asm) parseredirs.simps) simp
  next
    case True
    then have pk': "peek ps [LT, GT] = (True, s)" using pk by simp
    note IH = 1(1) [OF pk' [symmetric] refl g1 [symmetric] refl refl g2 [symmetric] refl refl]
    show ?thesis using 1(2) pk' g1 g2 IH le by (subst (asm) parseredirs.simps) (auto split: if_splits)
  qed
qed

function parseargs :: "cmd \<Rightarrow> nat \<Rightarrow> ptr \<Rightarrow> (cmd \<times> ptr) res" where
  "parseargs ret argc ps =
     (case peek ps [BAR, RPAR, AMP, SEMI] of
       (True, ps) \<Rightarrow> Inr (ret, ps)
     | (False, ps) \<Rightarrow>
         (case gettoken ps of (tok, q, eq, ps1) \<Rightarrow>
           if tok = 0 then Inr (ret, ps1)
           else if tok \<noteq> WORD then Inl (Panic ''syntax'')
           else if Suc argc \<ge> MAXARGS then Inl (Panic ''too many args'')
           else bindR (parseredirs (add_arg q eq ret) ps1) (\<lambda>(ret, ps).
             parseargs ret (Suc argc) ps)))"
  by pat_completeness auto
termination
proof (relation "measure (\<lambda>(cmd, n, ps). length ps)", goal_cases)
  case (2 ret argc ps x y xa ya xb yb xc yc z xd yd)
  then have 1: "peek ps [BAR, RPAR, AMP, SEMI] = (False, y)" "gettoken y = (xa, xb, xc, yc)" "xa = WORD"
    "parseredirs (add_arg xb xc ret) yc = Inr (xd, yd)" by auto
  then have "deref (skip_white y) \<noteq> 0" by (auto simp: gettoken_def Let_def WORD_def split: if_splits)
  then show ?case using 1 gettoken_less peek_le parseredirs_le by fastforce
qed simp

declare parseargs.simps [simp del]

text \<open>The mutually recursive functions.\<close>

fun parseline :: "nat \<Rightarrow> ptr \<Rightarrow> (cmd \<times> ptr) res"
  and parsepipe :: "nat \<Rightarrow> ptr \<Rightarrow> (cmd \<times> ptr) res"
  and parseexec :: "nat \<Rightarrow> ptr \<Rightarrow> (cmd \<times> ptr) res"
  and parseblock :: "nat \<Rightarrow> ptr \<Rightarrow> (cmd \<times> ptr) res" where
  "parseline 0 ps = Inl Spin"
| "parseline (Suc f) ps =
     bindR (parsepipe f ps) (\<lambda>(cmd, ps).
     case parseback cmd ps of (cmd, ps) \<Rightarrow>
     (case peek ps [SEMI] of
       (False, ps) \<Rightarrow> Inr (cmd, ps)
     | (True, ps) \<Rightarrow>
         (case gettoken ps of (_, _, _, ps) \<Rightarrow>
           bindR (parseline f ps) (\<lambda>(right, ps). Inr (LIST cmd right, ps)))))"
| "parsepipe 0 ps = Inl Spin"
| "parsepipe (Suc f) ps =
     bindR (parseexec f ps) (\<lambda>(cmd, ps).
     case peek ps [BAR] of
       (False, ps) \<Rightarrow> Inr (cmd, ps)
     | (True, ps) \<Rightarrow>
         (case gettoken ps of (_, _, _, ps) \<Rightarrow>
           bindR (parsepipe f ps) (\<lambda>(right, ps). Inr (PIPE cmd right, ps))))"
| "parseexec 0 ps = Inl Spin"
| "parseexec (Suc f) ps =
     (case peek ps [LPAR] of
       (True, ps) \<Rightarrow> parseblock f ps
     | (False, ps) \<Rightarrow> bindR (parseredirs (EXEC []) ps) (\<lambda>(ret, ps). parseargs ret 0 ps))"
| "parseblock 0 ps = Inl Spin"
| "parseblock (Suc f) ps =
     (case peek ps [LPAR] of
       (False, ps) \<Rightarrow> Inl (Panic ''parseblock'')
     | (True, ps) \<Rightarrow>
         (case gettoken ps of (_, _, _, ps) \<Rightarrow>
           bindR (parseline f ps) (\<lambda>(cmd, ps).
           case peek ps [RPAR] of
             (False, ps) \<Rightarrow> Inl (Panic ''syntax - missing )'')
           | (True, ps) \<Rightarrow> (case gettoken ps of (_, _, _, ps) \<Rightarrow> parseredirs cmd ps))))"

text \<open>
  \<^verbatim>\<open>nulterminate\<close> stores NUL bytes at the ends of the tokens. The buffer is the line and its terminating
  NUL; the position of a pointer follows from its distance to the end of the line.
\<close>

definition position :: "u8 list \<Rightarrow> ptr \<Rightarrow> nat" where
  "position buf p = length buf - 1 - length p"

definition cut :: "ptr \<Rightarrow> u8 list \<Rightarrow> u8 list" where
  "cut p buf = buf[position buf p := 0]"

primrec nulterminate :: "cmd \<Rightarrow> u8 list \<Rightarrow> u8 list" where
  "nulterminate (EXEC args) buf = fold (\<lambda>(q, eq). cut eq) args buf"
| "nulterminate (REDIR c q eq mode fd) buf = cut eq (nulterminate c buf)"
| "nulterminate (PIPE l r) buf = nulterminate r (nulterminate l buf)"
| "nulterminate (LIST l r) buf = nulterminate r (nulterminate l buf)"
| "nulterminate (BACK c) buf = nulterminate c buf"

text \<open>The command and the buffer its pointers refer to.\<close>

definition parsecmd :: "ptr \<Rightarrow> (cmd \<times> u8 list) res" where
  "parsecmd s =
     bindR (parseline (4 * length s + 4) s) (\<lambda>(cmd, ps).
     case peek ps [] of (_, ps) \<Rightarrow>
     if ps \<noteq> [] then Inl (Panic ''syntax'') else Inr (cmd, nulterminate cmd (s @ [0])))"

section \<open>The parser always ends\<close>

text \<open>An outcome of a parser started at \<open>ps\<close>: a command and a rest, or a panic.\<close>

definition fine :: "ptr \<Rightarrow> (cmd \<times> ptr) res \<Rightarrow> bool" where
  "fine ps r \<longleftrightarrow> (case r of Inr (c, rest) \<Rightarrow> length rest \<le> length ps | Inl e \<Rightarrow> \<exists>m. e = Panic m)"

lemma fine_simps [simp]: "fine ps (Inr (c, rest)) \<longleftrightarrow> length rest \<le> length ps" "fine ps (Inl (Panic m))"
  by (simp_all add: fine_def)

lemma fine_bind:
  "fine ps m \<Longrightarrow> (\<And>c r. length r \<le> length ps \<Longrightarrow> fine ps (f (c, r))) \<Longrightarrow> fine ps (bindR m f)"
  by (cases m) (auto simp: fine_def)

lemma fine_mono: "fine ps r \<Longrightarrow> length ps \<le> length ps' \<Longrightarrow> fine ps' r"
  by (auto simp: fine_def split: sum.splits)

lemma parseredirs_fine: "fine ps (parseredirs cmd ps)"
proof (induction cmd ps rule: parseredirs.induct)
  case (1 cmd ps)
  obtain b s where pk: "peek ps [LT, GT] = (b, s)" by fastforce
  obtain tok x y s1 where g1: "gettoken s = (tok, x, y, s1)" by (metis prod_cases4)
  obtain r q eq s2 where g2: "gettoken s1 = (r, q, eq, s2)" by (metis prod_cases4)
  note le = peek_le [OF pk] gettoken_le [OF g1] gettoken_le [OF g2]
  show ?case
  proof (cases b)
    case True
    then have pk': "peek ps [LT, GT] = (True, s)" using pk by simp
    note IH = 1 [OF pk' [symmetric] refl g1 [symmetric] refl refl g2 [symmetric] refl refl]
    show ?thesis using pk' g1 g2 IH le by (subst parseredirs.simps) (auto intro: fine_mono)
  qed (use pk le in \<open>subst parseredirs.simps, simp\<close>)
qed

lemma parseargs_fine: "fine ps (parseargs ret argc ps)"
proof (induction ret argc ps rule: parseargs.induct)
  case (1 ret argc ps)
  obtain b s where pk: "peek ps [BAR, RPAR, AMP, SEMI] = (b, s)" by fastforce
  obtain tok q eq s1 where g: "gettoken s = (tok, q, eq, s1)" by (metis prod_cases4)
  note le = peek_le [OF pk] gettoken_le [OF g]
  show ?case
  proof (cases b)
    case False
    then have pk': "peek ps [BAR, RPAR, AMP, SEMI] = (False, s)" using pk by simp
    have "fine s1 (bindR (parseredirs (add_arg q eq ret) s1) (\<lambda>(ret, ps). parseargs ret (Suc argc) ps))"
      if "tok \<noteq> 0" "\<not> tok \<noteq> WORD" "\<not> Suc argc \<ge> MAXARGS"
    proof (cases "parseredirs (add_arg q eq ret) s1")
      case (Inr z)
      obtain c r where z: "z = (c, r)" by fastforce
      have "fine r (parseargs c (Suc argc) r)"
        by (rule 1 [OF pk' [symmetric] refl g [symmetric] refl refl that(1,2,3) Inr z [symmetric]])
      then show ?thesis using Inr z parseredirs_fine [of s1 "add_arg q eq ret"] by (auto intro: fine_mono)
    qed (use parseredirs_fine [of s1 "add_arg q eq ret"] in \<open>simp add: fine_def\<close>)
    then show ?thesis using pk' g le by (subst parseargs.simps) (auto intro: fine_mono)
  qed (use pk le in \<open>subst parseargs.simps, simp\<close>)
qed

lemma parseback_le: "parseback cmd ps = (c, rest) \<Longrightarrow> length rest \<le> length ps"
proof (induction cmd ps rule: parseback.induct)
  case (1 cmd ps)
  obtain b s where pk: "peek ps [AMP] = (b, s)" by fastforce
  obtain tok x y s1 where g: "gettoken s = (tok, x, y, s1)" by (metis prod_cases4)
  note le = peek_le [OF pk] gettoken_le [OF g]
  show ?case
  proof (cases b)
    case True
    then have pk': "peek ps [AMP] = (True, s)" using pk by simp
    then have "parseback cmd ps = parseback (BACK cmd) s1" using g by (subst parseback.simps) simp
    then show ?thesis using 1(1) [OF pk' [symmetric] refl g [symmetric] refl refl] 1(2) le by simp
  qed (use 1(2) pk le in \<open>subst (asm) parseback.simps, simp\<close>)
qed

text \<open>Consuming one symbol leaves a shorter rest.\<close>

lemma after_symbol:
  assumes "peek ps toks = (True, s)" "\<And>rest. length rest < length ps \<Longrightarrow> fine ps' (f rest)"
  shows "fine ps' (case gettoken s of (_, _, _, rest) \<Rightarrow> f rest)"
  using assms peek_token [OF assms(1)] by (auto split: prod.splits)

lemma parser_fine:
  "4 * length ps + 4 \<le> f \<Longrightarrow> fine ps (parseline f ps)"
  "4 * length ps + 3 \<le> f \<Longrightarrow> fine ps (parsepipe f ps)"
  "4 * length ps + 2 \<le> f \<Longrightarrow> fine ps (parseexec f ps)"
  "4 * length ps + 1 \<le> f \<Longrightarrow> fine ps (parseblock f ps)"
proof (induction f arbitrary: ps)
  case (Suc f)
  {
    case 1
    show ?case
      unfolding parseline.simps
    proof (rule fine_bind [OF Suc.IH(2)], use 1 in simp)
      fix c r assume r: "length (r :: ptr) \<le> length ps"
      obtain c1 r1 where b: "parseback c r = (c1, r1)" by fastforce
      obtain t s where pk: "peek r1 [SEMI] = (t, s)" by fastforce
      note le = parseback_le [OF b] peek_le [OF pk]
      have "fine ps (bindR (parseline f p) (\<lambda>(right, ps). Inr (LIST c1 right, ps)))" if "length p < length r1" for p
      proof -
        have "fine p (parseline f p)" using Suc.IH(1) [of p] 1 that le r by simp
        then have "fine ps (parseline f p)" using that le r by (auto intro: fine_mono)
        then show ?thesis by (rule fine_bind) simp
      qed
      then show "fine ps (case (c, r) of (cmd, ps) \<Rightarrow> case parseback cmd ps of (cmd, ps) \<Rightarrow> (case peek ps [SEMI] of
          (True, ps) \<Rightarrow> (case gettoken ps of (_, _, _, ps) \<Rightarrow> bindR (parseline f ps) (\<lambda>(right, ps). Inr (LIST cmd right, ps)))
        | (False, ps) \<Rightarrow> Inr (cmd, ps)))"
        using b pk le r after_symbol [of r1 "[SEMI]" s ps] by (cases t) auto
    qed
  next
    case 2
    show ?case
      unfolding parsepipe.simps
    proof (rule fine_bind [OF Suc.IH(3)], use 2 in simp)
      fix c r assume r: "length (r :: ptr) \<le> length ps"
      obtain t s where pk: "peek r [BAR] = (t, s)" by fastforce
      note le = peek_le [OF pk]
      have "fine ps (bindR (parsepipe f p) (\<lambda>(right, ps). Inr (PIPE c right, ps)))" if "length p < length r" for p
      proof -
        have "fine p (parsepipe f p)" using Suc.IH(2) [of p] 2 that le r by simp
        then have "fine ps (parsepipe f p)" using that le r by (auto intro: fine_mono)
        then show ?thesis by (rule fine_bind) simp
      qed
      then show "fine ps (case (c, r) of (cmd, ps) \<Rightarrow> case peek ps [BAR] of
          (True, ps) \<Rightarrow> (case gettoken ps of (_, _, _, ps) \<Rightarrow> bindR (parsepipe f ps) (\<lambda>(right, ps). Inr (PIPE cmd right, ps)))
        | (False, ps) \<Rightarrow> Inr (cmd, ps))"
        using pk le r after_symbol [of r "[BAR]" s ps] by (cases t) auto
    qed
  next
    case 3
    obtain t s where pk: "peek ps [LPAR] = (t, s)" by fastforce
    note le = peek_le [OF pk]
    have "fine s (parseblock f s)" using Suc.IH(4) [of s] 3 le by simp
    moreover have "fine s (bindR (parseredirs (EXEC []) s) (\<lambda>(ret, ps). parseargs ret 0 ps))"
      by (rule fine_bind [OF parseredirs_fine]) (auto intro: fine_mono [OF parseargs_fine])
    ultimately show ?case using pk le by (cases t) (auto intro: fine_mono)
  next
    case 4
    obtain t s where pk: "peek ps [LPAR] = (t, s)" by fastforce
    have A: "fine ps (bindR (parseline f p) (\<lambda>(cmd, ps). case peek ps [RPAR] of
         (True, ps) \<Rightarrow> (case gettoken ps of (_, _, _, ps) \<Rightarrow> parseredirs cmd ps)
       | (False, ps) \<Rightarrow> Inl (Panic ''syntax - missing )'')))" if p: "length p < length ps" for p
    proof (rule fine_bind)
      have "fine p (parseline f p)" using Suc.IH(1) [of p] 4 p by simp
      then show "fine ps (parseline f p)" using p by (auto intro: fine_mono)
      fix c r assume r: "length (r :: ptr) \<le> length ps"
      obtain u v where pk2: "peek r [RPAR] = (u, v)" by fastforce
      have "fine ps (parseredirs c q)" if "length q < length r" for q
        by (rule fine_mono [OF parseredirs_fine]) (use r that in simp)
      then show "fine ps (case (c, r) of (cmd, ps) \<Rightarrow> case peek ps [RPAR] of
           (True, ps) \<Rightarrow> (case gettoken ps of (_, _, _, ps) \<Rightarrow> parseredirs cmd ps)
         | (False, ps) \<Rightarrow> Inl (Panic ''syntax - missing )''))"
        using pk2 after_symbol [of r "[RPAR]" v ps "parseredirs c"] by (cases u) auto
    qed
    show ?case using pk after_symbol [of ps "[LPAR]" s ps, OF _ A] by (cases t) auto
  }
qed simp_all

text \<open>
  C30. The parser always ends: on every line it returns a command, or the shell panics with a message;
  the fuel that stands for the recursion is never used up.
\<close>

theorem parsecmd_ends: "(\<exists>c buf. parsecmd s = Inr (c, buf)) \<or> (\<exists>m. parsecmd s = Inl (Panic m))"
proof -
  have f: "fine s (parseline (4 * length s + 4) s)" by (intro parser_fine) simp
  show ?thesis
  proof (cases "parseline (4 * length s + 4) s")
    case (Inr z)
    then show ?thesis by (auto simp: parsecmd_def peek_def Let_def split: prod.splits)
  qed (use f in \<open>auto simp: fine_def parsecmd_def\<close>)
qed

end
