(* ===== verification/Shell_Syntax.thy ===== *)
theory Shell_Syntax
  imports Shell
begin

text \<open>
  The syntax of the shell: commands over strings, a printer for them, and the round trip. Every
  well-formed command can be printed so that the parser reads it back.
\<close>

section \<open>Abstract commands and their printer\<close>

datatype scmd =
    SExec "u8 list list"
  | SRedir scmd "u8 list" bool
  | SPipe scmd scmd
  | SList scmd scmd
  | SBack scmd

text \<open>The string of a token, and the command a parse tree stands for. The flag is true for an output.\<close>

definition token_string :: "ptr \<Rightarrow> ptr \<Rightarrow> u8 list" where
  "token_string q eq = take (length q - length eq) q"

primrec sem :: "cmd \<Rightarrow> scmd" where
  "sem (EXEC args) = SExec (map (\<lambda>(q, eq). token_string q eq) args)"
| "sem (REDIR c q eq mode fd) = SRedir (sem c) (token_string q eq) (fd = 1)"
| "sem (PIPE l r) = SPipe (sem l) (sem r)"
| "sem (LIST l r) = SList (sem l) (sem r)"
| "sem (BACK c) = SBack (sem c)"

definition SP :: u8 where "SP = 0x20"

definition show_words :: "u8 list list \<Rightarrow> u8 list" where
  "show_words ws = concat (map (\<lambda>w. w @ [SP]) ws)"

definition show_redir :: "u8 list \<times> bool \<Rightarrow> u8 list" where
  "show_redir r = (if snd r then GT else LT) # fst r @ [SP]"

definition show_redirs :: "(u8 list \<times> bool) list \<Rightarrow> u8 list" where
  "show_redirs rs = concat (map show_redir rs)"

definition paren :: "bool \<Rightarrow> u8 list \<Rightarrow> u8 list" where
  "paren b xs = (if b then LPAR # xs @ [RPAR] else xs)"

text \<open>Levels: 0 a line, 1 the left side of \<^verbatim>\<open>;\<close> or what stands before \<^verbatim>\<open>&\<close>, 2 a pipe, 3 a simple command.\<close>

primrec show_cmd :: "nat \<Rightarrow> scmd \<Rightarrow> u8 list" where
  "show_cmd l (SExec ws) = show_words ws"
| "show_cmd l (SRedir c f out) = show_cmd 3 c @ show_redir (f, out)"
| "show_cmd l (SPipe a b) = paren (3 \<le> l) (show_cmd 3 a @ BAR # show_cmd 2 b)"
| "show_cmd l (SBack c) = paren (2 \<le> l) (show_cmd 1 c @ [AMP])"
| "show_cmd l (SList a b) = paren (1 \<le> l) (show_cmd 1 a @ SEMI # show_cmd 0 b)"

definition good_char :: "u8 \<Rightarrow> bool" where
  "good_char c \<longleftrightarrow> c \<noteq> 0 \<and> c \<notin> set whitespace \<and> c \<notin> set symbols"

definition good_word :: "u8 list \<Rightarrow> bool" where
  "good_word w \<longleftrightarrow> w \<noteq> [] \<and> (\<forall>c\<in>set w. good_char c)"

primrec wf_cmd :: "scmd \<Rightarrow> bool" where
  "wf_cmd (SExec ws) \<longleftrightarrow> (\<forall>w\<in>set ws. good_word w) \<and> length ws < MAXARGS"
| "wf_cmd (SRedir c f out) \<longleftrightarrow> wf_cmd c \<and> good_word f"
| "wf_cmd (SPipe a b) \<longleftrightarrow> wf_cmd a \<and> wf_cmd b"
| "wf_cmd (SList a b) \<longleftrightarrow> wf_cmd a \<and> wf_cmd b"
| "wf_cmd (SBack c) \<longleftrightarrow> wf_cmd c"

section \<open>Tokens of printed commands\<close>

lemmas shell_chars = LT_def BAR_def GT_def AMP_def SEMI_def LPAR_def RPAR_def SP_def PLUS_def WORD_def

lemma strchr_None: "strchr xs c = None \<longleftrightarrow> c \<notin> set xs"
  using strchr_iff [of xs c] by blast

lemma symbol_facts:
  "SP \<in> set whitespace" "\<And>c. c \<in> {LT, BAR, GT, AMP, SEMI, LPAR, RPAR} \<Longrightarrow> c \<in> set symbols \<and> c \<notin> set whitespace \<and> c \<noteq> 0"
  by (auto simp: whitespace_def symbols_def shell_chars)

lemma skip_white_Cons: "skip_white (c # s) = (if c \<in> set whitespace then skip_white s else c # s)"
  by (simp add: strchr_iff del: not_None_eq)

declare skip_white.simps(2) [simp del]

lemma skip_white_symbol [simp]: "c \<in> {LT, BAR, GT, AMP, SEMI, LPAR, RPAR} \<Longrightarrow> skip_white (c # s) = c # s"
  using symbol_facts(2) [of c] by (simp only: skip_white_Cons if_False simp_thms)

lemma skip_white_SP [simp]: "skip_white (SP # s) = skip_white s"
  using symbol_facts(1) by (simp add: skip_white_Cons)

lemma skip_white_good: "good_word w \<Longrightarrow> skip_white (w @ s) = w @ s"
  by (cases w) (auto simp: good_word_def good_char_def skip_white_Cons)

lemma skip_word_good: "\<forall>c\<in>set w. good_char c \<Longrightarrow> skip_word (w @ SP # s) = SP # s"
  using symbol_facts(1) by (induction w) (auto simp: good_char_def strchr_None)

lemma good_not_symbol: "good_word w \<Longrightarrow> deref (w @ s) \<noteq> 0 \<and> deref (w @ s) \<notin> set symbols"
  by (cases w) (auto simp: good_word_def good_char_def deref_def)

lemma gettoken_word:
  assumes "good_word w"
  shows "gettoken (w @ SP # s) = (WORD, w @ SP # s, SP # s, skip_white s)"
proof -
  have "deref (w @ SP # s) \<notin> {BAR, LPAR, RPAR, SEMI, AMP, LT}" "deref (w @ SP # s) \<noteq> GT" "deref (w @ SP # s) \<noteq> 0"
    using good_not_symbol [OF assms, of "SP # s"] symbol_facts(2) by blast+
  then show ?thesis
    using assms skip_white_good [OF assms, of "SP # s"] skip_word_good [of w s] by (simp add: gettoken_def good_word_def Let_def)
qed

lemma gettoken_symbol:
  assumes "c \<in> {BAR, LPAR, RPAR, SEMI, AMP, LT} \<or> c = GT \<and> deref s \<noteq> GT"
  shows "\<exists>q eq. gettoken (c # s) = (c, q, eq, skip_white s)"
proof -
  have c: "c \<noteq> 0" "skip_white (c # s) = c # s" using assms symbol_facts(2) [of c] by auto
  moreover have "GT \<notin> {BAR, LPAR, RPAR, SEMI, AMP, LT}" by (simp add: shell_chars)
  moreover have "deref (c # s) = c" by (simp add: deref_def)
  ultimately show ?thesis using assms by (auto simp: gettoken_def Let_def)
qed

lemma token_string_word [simp]: "token_string (w @ s) s = w"
  by (simp add: token_string_def)

text \<open>What may follow a command, after white space: nothing, or a symbol.\<close>

definition clean :: "u8 list \<Rightarrow> bool" where
  "clean s \<longleftrightarrow> skip_white s = [] \<or> hd (skip_white s) \<in> {BAR, AMP, SEMI, RPAR}"

lemma clean_skip [simp]: "clean (skip_white s) \<longleftrightarrow> clean s"
  by (simp add: clean_def)

text \<open>The parser skips white space before it looks at the input.\<close>

lemma peek_skip [simp]: "peek (skip_white s) toks = peek s toks"
  by (simp add: peek_def)

lemma parseredirs_skip [simp]: "parseredirs c (skip_white s) = parseredirs c s"
  by (subst (1 2) parseredirs.simps) simp

lemma parseargs_skip [simp]: "parseargs c n (skip_white s) = parseargs c n s"
  by (subst (1 2) parseargs.simps) simp

lemma parseback_skip [simp]: "parseback c (skip_white s) = parseback c s"
  by (subst (1 2) parseback.simps) simp

lemma parseexec_skip [simp]: "parseexec f (skip_white s) = parseexec f s"
  by (cases f) simp_all

lemma parsepipe_skip [simp]: "parsepipe f (skip_white s) = parsepipe f s"
  by (cases f) simp_all

lemma parseline_skip [simp]: "parseline f (skip_white s) = parseline f s"
  by (cases f) simp_all

lemma peek_eq: "peek s toks = (deref (skip_white s) \<noteq> 0 \<and> deref (skip_white s) \<in> set toks, skip_white s)"
  by (simp add: peek_def strchr_iff Let_def del: not_None_eq)

section \<open>Parsing printed commands\<close>

text \<open>What may follow a word or a redirection: nothing the scanner would skip.\<close>

lemma deref_Cons [simp]: "deref (c # s) = c"
  by (simp add: deref_def)

lemma clean_deref: "clean s \<Longrightarrow> deref (skip_white s) = 0 \<or> deref (skip_white s) \<in> {BAR, AMP, SEMI, RPAR}"
  by (cases "skip_white s") (auto simp: clean_def deref_def)

lemma clean_not_redir: "clean s \<Longrightarrow> deref (skip_white s) \<notin> {LT, GT, LPAR}"
  using clean_deref [of s] by (auto simp: shell_chars)

primrec wrap :: "(u8 list \<times> bool) list \<Rightarrow> scmd \<Rightarrow> scmd" where
  "wrap [] c = c"
| "wrap (r # rs) c = wrap rs (SRedir c (fst r) (snd r))"

definition good_redirs :: "(u8 list \<times> bool) list \<Rightarrow> bool" where
  "good_redirs rs \<longleftrightarrow> (\<forall>r\<in>set rs. good_word (fst r))"

lemma redirs_deref: "clean post \<Longrightarrow> deref (skip_white (show_redirs rs @ post)) \<in> {LT, GT, BAR, AMP, SEMI, RPAR, 0}"
  using clean_deref [of post] by (cases rs) (auto simp: show_redirs_def show_redir_def)

lemma parseredirs_none:
  assumes "deref (skip_white s) \<notin> {LT, GT}"
  shows "parseredirs c s = Inr (c, skip_white s)"
  using assms by (subst parseredirs.simps) (simp add: peek_eq)

lemma parseredirs_show:
  assumes "good_redirs rs" "clean post"
  shows "\<exists>c'. parseredirs c (show_redirs rs @ post) = Inr (c', skip_white post) \<and> sem c' = wrap rs (sem c)"
  using assms
proof (induction rs arbitrary: c)
  case Nil
  then show ?case using parseredirs_none [of post c] clean_not_redir [of post] by (simp add: show_redirs_def)
next
  case (Cons r rs)
  obtain f out where r: "r = (f, out)" by fastforce
  let ?sym = "if out then GT else LT" and ?rest = "show_redirs rs @ post"
  have f: "good_word f" using Cons.prems(1) r by (simp add: good_redirs_def)
  have s: "show_redirs (r # rs) @ post = ?sym # f @ SP # ?rest" by (simp add: r show_redirs_def show_redir_def)
  have nz: "?sym \<in> {LT, BAR, GT, AMP, SEMI, LPAR, RPAR}" "?sym \<noteq> 0" by (auto simp: shell_chars)
  have pk: "peek (?sym # f @ SP # ?rest) [LT, GT] = (True, ?sym # f @ SP # ?rest)"
    using nz by (subst peek_eq) auto
  have "deref (f @ SP # ?rest) \<noteq> GT" using good_not_symbol [OF f, of "SP # ?rest"] symbol_facts(2) [of GT] by auto
  then have "?sym \<in> {BAR, LPAR, RPAR, SEMI, AMP, LT} \<or> ?sym = GT \<and> deref (f @ SP # ?rest) \<noteq> GT" by simp
  from gettoken_symbol [OF this] obtain q e where g1: "gettoken (?sym # f @ SP # ?rest) = (?sym, q, e, f @ SP # ?rest)"
    using skip_white_good [OF f] by auto
  have g2: "gettoken (f @ SP # ?rest) = (WORD, f @ SP # ?rest, SP # ?rest, skip_white ?rest)"
    using gettoken_word [OF f] by simp
  have fd: "LT \<noteq> GT" by (simp add: shell_chars)
  let ?c = "if out then REDIR c (f @ SP # ?rest) (SP # ?rest) (O_WRONLY OR O_CREATE) 1
    else REDIR c (f @ SP # ?rest) (SP # ?rest) O_RDONLY 0"
  have "parseredirs c (?sym # f @ SP # ?rest) = parseredirs ?c ?rest"
    using pk g1 g2 fd by (subst parseredirs.simps) auto
  moreover have "sem ?c = SRedir (sem c) f out" by simp
  moreover have "good_redirs rs" using Cons.prems(1) by (simp add: good_redirs_def)
  ultimately show ?case using Cons.IH [of ?c] Cons.prems(2) s r by simp
qed

lemma parseargs_end:
  assumes "clean post"
  shows "parseargs c n post = Inr (c, skip_white post)"
proof (cases "skip_white post")
  case Nil
  then have "peek post [BAR, RPAR, AMP, SEMI] = (False, [])" by (simp add: peek_def deref_def)
  moreover have "gettoken [] = (0, [], [], [])" by (simp add: gettoken_def deref_def)
  ultimately show ?thesis using Nil by (subst parseargs.simps) simp
next
  case (Cons x xs)
  then have "peek post [BAR, RPAR, AMP, SEMI] = (True, skip_white post)"
    using assms symbol_facts(2) [of x] by (subst peek_eq) (auto simp: clean_def)
  then show ?thesis by (subst parseargs.simps) simp
qed

lemma parseargs_show:
  assumes "\<forall>w\<in>set ws. good_word w" "ws \<noteq> []" "good_redirs rs" "clean post" "n + length ws < MAXARGS"
  shows "\<exists>c'. parseargs (EXEC args) n (show_words ws @ show_redirs rs @ post) = Inr (c', skip_white post) \<and>
    sem c' = wrap rs (SExec (map (\<lambda>(q, eq). token_string q eq) args @ ws))"
  using assms
proof (induction ws arbitrary: args n)
  case (Cons w ws)
  let ?rest = "show_words ws @ show_redirs rs @ post"
  have w: "good_word w" using Cons.prems(1) by simp
  have in_s: "show_words (w # ws) @ show_redirs rs @ post = w @ SP # ?rest" by (simp add: show_words_def)
  have "deref (w @ SP # ?rest) \<notin> set [BAR, RPAR, AMP, SEMI]" using good_not_symbol [OF w] symbol_facts(2) by auto
  then have pk: "peek (w @ SP # ?rest) [BAR, RPAR, AMP, SEMI] = (False, w @ SP # ?rest)"
    using skip_white_good [OF w] by (subst peek_eq) auto
  have g: "gettoken (w @ SP # ?rest) = (WORD, w @ SP # ?rest, SP # ?rest, skip_white ?rest)"
    using gettoken_word [OF w] by simp
  let ?args = "args @ [(w @ SP # ?rest, SP # ?rest)]"
  have run: "parseargs (EXEC args) n (w @ SP # ?rest) =
      bindR (parseredirs (EXEC ?args) ?rest) (\<lambda>(ret, ps). parseargs ret (Suc n) ps)"
    using pk g Cons.prems(5) by (subst parseargs.simps) (simp add: WORD_def)
  have sem: "map (\<lambda>(q, eq). token_string q eq) ?args = map (\<lambda>(q, eq). token_string q eq) args @ [w]" by simp
  show ?case
  proof (cases "ws = []")
    case True
    obtain c' where c': "parseredirs (EXEC ?args) ?rest = Inr (c', skip_white post)" "sem c' = wrap rs (sem (EXEC ?args))"
      using parseredirs_show [OF Cons.prems(3,4), of "EXEC ?args"] True by (auto simp: show_words_def)
    then show ?thesis using run in_s sem True parseargs_end [OF Cons.prems(4)] by simp
  next
    case False
    then obtain v vs where ws: "ws = v # vs" by (cases ws) auto
    then have v: "good_word v" using Cons.prems(1) by simp
    have "?rest = v @ SP # (show_words vs @ show_redirs rs @ post)" using ws by (simp add: show_words_def)
    then have "deref (skip_white ?rest) \<notin> {LT, GT}" using skip_white_good [OF v] good_not_symbol [OF v] symbol_facts(2) by auto
    then have "parseredirs (EXEC ?args) ?rest = Inr (EXEC ?args, skip_white ?rest)" by (rule parseredirs_none)
    then show ?thesis
      using run in_s sem Cons.IH [of "Suc n" ?args] Cons.prems False by simp
  qed
qed simp

text \<open>
  What it means that a command can be read back at each level. \<open>rs\<close> are further redirections behind it.
\<close>

definition reads_exec :: "scmd \<Rightarrow> bool" where
  "reads_exec c \<longleftrightarrow> (\<forall>rs post f. good_redirs rs \<and> clean post \<and>
     4 * length (show_cmd 3 c @ show_redirs rs @ post) + 2 \<le> f \<longrightarrow>
     (\<exists>c'. parseexec f (show_cmd 3 c @ show_redirs rs @ post) = Inr (c', skip_white post) \<and> sem c' = wrap rs c))"

definition reads_pipe :: "scmd \<Rightarrow> bool" where
  "reads_pipe c \<longleftrightarrow> (\<forall>post f. clean post \<and> deref (skip_white post) \<noteq> BAR \<and> 4 * length (show_cmd 2 c @ post) + 3 \<le> f \<longrightarrow>
     (\<exists>c'. parsepipe f (show_cmd 2 c @ post) = Inr (c', skip_white post) \<and> sem c' = c))"

definition reads_back :: "scmd \<Rightarrow> bool" where
  "reads_back c \<longleftrightarrow> (\<forall>post f. clean post \<and> deref (skip_white post) \<noteq> BAR \<and> 4 * length (show_cmd 1 c @ post) + 3 \<le> f \<longrightarrow>
     (\<exists>c1 r1 c'. parsepipe f (show_cmd 1 c @ post) = Inr (c1, r1) \<and> parseback c1 r1 = parseback c' post \<and> sem c' = c))"

definition reads_line :: "scmd \<Rightarrow> bool" where
  "reads_line c \<longleftrightarrow> (\<forall>post f. clean post \<and> deref (skip_white post) \<in> {0, RPAR} \<and> 4 * length (show_cmd 0 c @ post) + 4 \<le> f \<longrightarrow>
     (\<exists>c'. parseline f (show_cmd 0 c @ post) = Inr (c', skip_white post) \<and> sem c' = c))"

lemma reads_execD:
  "reads_exec c \<Longrightarrow> good_redirs rs \<Longrightarrow> clean post \<Longrightarrow> 4 * length (show_cmd 3 c @ show_redirs rs @ post) + 2 \<le> f \<Longrightarrow>
   \<exists>c'. parseexec f (show_cmd 3 c @ show_redirs rs @ post) = Inr (c', skip_white post) \<and> sem c' = wrap rs c"
  unfolding reads_exec_def by blast

lemma reads_pipeD:
  "reads_pipe c \<Longrightarrow> clean post \<Longrightarrow> deref (skip_white post) \<noteq> BAR \<Longrightarrow> 4 * length (show_cmd 2 c @ post) + 3 \<le> f \<Longrightarrow>
   \<exists>c'. parsepipe f (show_cmd 2 c @ post) = Inr (c', skip_white post) \<and> sem c' = c"
  unfolding reads_pipe_def by blast

lemma reads_backD:
  "reads_back c \<Longrightarrow> clean post \<Longrightarrow> deref (skip_white post) \<noteq> BAR \<Longrightarrow> 4 * length (show_cmd 1 c @ post) + 3 \<le> f \<Longrightarrow>
   \<exists>c1 r1 c'. parsepipe f (show_cmd 1 c @ post) = Inr (c1, r1) \<and> parseback c1 r1 = parseback c' post \<and> sem c' = c"
  unfolding reads_back_def by blast

lemma reads_lineD:
  "reads_line c \<Longrightarrow> clean post \<Longrightarrow> deref (skip_white post) \<in> {0, RPAR} \<Longrightarrow> 4 * length (show_cmd 0 c @ post) + 4 \<le> f \<Longrightarrow>
   \<exists>c'. parseline f (show_cmd 0 c @ post) = Inr (c', skip_white post) \<and> sem c' = c"
  unfolding reads_line_def by blast

lemma clean_Cons [simp]: "x \<in> {BAR, AMP, SEMI, RPAR} \<Longrightarrow> clean (x # s)"
  by (auto simp: clean_def)

lemma parseback_none:
  assumes "deref (skip_white s) \<noteq> AMP"
  shows "parseback c s = (c, skip_white s)"
  using assms by (subst parseback.simps) (simp add: peek_eq)

lemma peek_no: "deref (skip_white s) \<noteq> x \<Longrightarrow> peek s [x] = (False, skip_white s)"
  by (simp add: peek_eq)

lemma peek_yes: "x \<in> {BAR, AMP, SEMI, RPAR, LPAR} \<Longrightarrow> peek (x # s) [x] = (True, x # s)"
  using symbol_facts(2) [of x] by (subst peek_eq) auto

lemma reads_exec_pipe:
  assumes "reads_exec c" "show_cmd 2 c = show_cmd 3 c"
  shows "reads_pipe c"
  unfolding reads_pipe_def
proof (intro allI impI)
  fix post f assume p: "clean post \<and> deref (skip_white post) \<noteq> BAR \<and> 4 * length (show_cmd 2 c @ post) + 3 \<le> f"
  then obtain g where f: "f = Suc g" by (cases f) auto
  obtain c' where "parseexec g (show_cmd 2 c @ post) = Inr (c', skip_white post)" "sem c' = c"
    using reads_execD [OF assms(1), of "[]" post g] assms(2) p f by (auto simp: show_redirs_def good_redirs_def)
  then show "\<exists>c'. parsepipe f (show_cmd 2 c @ post) = Inr (c', skip_white post) \<and> sem c' = c"
    using f p peek_no [of post BAR] by simp
qed

lemma reads_pipe_back:
  assumes "reads_pipe c" "show_cmd 1 c = show_cmd 2 c"
  shows "reads_back c"
  using assms unfolding reads_pipe_def reads_back_def by (metis parseback_skip)

lemma reads_back_line:
  assumes "reads_back c" "show_cmd 0 c = show_cmd 1 c"
  shows "reads_line c"
  unfolding reads_line_def
proof (intro allI impI)
  fix post f assume p: "clean post \<and> deref (skip_white post) \<in> {0, RPAR} \<and> 4 * length (show_cmd 0 c @ post) + 4 \<le> f"
  then obtain g where f: "f = Suc g" by (cases f) auto
  have ne: "deref (skip_white post) \<noteq> BAR" "deref (skip_white post) \<noteq> AMP" "deref (skip_white post) \<noteq> SEMI" using p by (auto simp: shell_chars)
  obtain c1 r1 c' where "parsepipe g (show_cmd 0 c @ post) = Inr (c1, r1)" "parseback c1 r1 = parseback c' post" "sem c' = c"
    using reads_backD [OF assms(1), of post g] assms(2) p f ne(1) by auto
  then show "\<exists>c'. parseline f (show_cmd 0 c @ post) = Inr (c', skip_white post) \<and> sem c' = c"
    using f p ne parseback_none [of post c'] peek_no [of post SEMI] by simp
qed

lemma reads_line_exec:
  assumes "reads_line c" "show_cmd 3 c = LPAR # show_cmd 0 c @ [RPAR]"
  shows "reads_exec c"
  unfolding reads_exec_def
proof (intro allI impI)
  fix rs post f
  assume p: "good_redirs rs \<and> clean post \<and> 4 * length (show_cmd 3 c @ show_redirs rs @ post) + 2 \<le> f"
  let ?rest = "RPAR # show_redirs rs @ post"
  let ?in = "show_cmd 0 c @ ?rest"
  have s: "show_cmd 3 c @ show_redirs rs @ post = LPAR # ?in" using assms(2) by simp
  then have "4 * length ?in + 6 \<le> f" using p by simp
  then obtain g where f: "f = Suc (Suc g)" "4 * length ?in + 4 \<le> g" by (intro that [of "f - 2"]) simp_all
  obtain q e where g1: "gettoken (LPAR # ?in) = (LPAR, q, e, skip_white ?in)" using gettoken_symbol [of LPAR ?in] by auto
  obtain q' e' where g2: "gettoken ?rest = (RPAR, q', e', skip_white (show_redirs rs @ post))"
    using gettoken_symbol [of RPAR "show_redirs rs @ post"] by auto
  obtain c' where c': "parseline g ?in = Inr (c', ?rest)" "sem c' = c" using reads_lineD [OF assms(1), of ?rest g] f(2) by auto
  have "parseexec f (LPAR # ?in) = parseredirs c' (show_redirs rs @ post)"
    using f(1) g1 g2 c'(1) peek_yes [of LPAR ?in] peek_yes [of RPAR "show_redirs rs @ post"] by simp
  then show "\<exists>c'. parseexec f (show_cmd 3 c @ show_redirs rs @ post) = Inr (c', skip_white post) \<and> sem c' = wrap rs c"
    using parseredirs_show [of rs post c'] p c'(2) s by simp
qed

lemma reads_exec_words:
  assumes "wf_cmd (SExec ws)"
  shows "reads_exec (SExec ws)"
  unfolding reads_exec_def
proof (intro allI impI)
  fix rs post f
  let ?s = "show_words ws @ show_redirs rs @ post"
  assume p: "good_redirs rs \<and> clean post \<and> 4 * length (show_cmd 3 (SExec ws) @ show_redirs rs @ post) + 2 \<le> f"
  then obtain g where f: "f = Suc g" by (cases f) auto
  have ws: "\<forall>w\<in>set ws. good_word w" "length ws < MAXARGS" using assms by simp_all
  have word: "deref (skip_white ?s) \<notin> {LPAR, LT, GT}" if "ws = w # vs" for w vs
  proof -
    have w: "good_word w" "?s = w @ SP # show_words vs @ show_redirs rs @ post" using ws(1) that by (simp_all add: show_words_def)
    then show ?thesis
      using skip_white_good [OF w(1)] good_not_symbol [of w "SP # show_words vs @ show_redirs rs @ post"] symbol_facts(2) by auto
  qed
  have "deref (skip_white ?s) \<noteq> LPAR"
  proof (cases ws)
    case Nil
    then show ?thesis using redirs_deref [of post rs] p by (auto simp: show_words_def shell_chars)
  qed (use word in blast)
  then have run: "parseexec f ?s = bindR (parseredirs (EXEC []) ?s) (\<lambda>(ret, ps). parseargs ret 0 ps)"
    using f by (simp add: peek_eq)
  show "\<exists>c'. parseexec f (show_cmd 3 (SExec ws) @ show_redirs rs @ post) = Inr (c', skip_white post) \<and> sem c' = wrap rs (SExec ws)"
  proof (cases ws)
    case Nil
    then obtain c' where "parseredirs (EXEC []) ?s = Inr (c', skip_white post)" "sem c' = wrap rs (SExec [])"
      using parseredirs_show [of rs post "EXEC []"] p by (auto simp: show_words_def)
    then show ?thesis using run parseargs_end [of post c' 0] p Nil by simp
  next
    case (Cons w vs)
    then have "parseredirs (EXEC []) ?s = Inr (EXEC [], skip_white ?s)" using word by (intro parseredirs_none) blast
    then show ?thesis using run parseargs_show [of ws rs post 0 "[]"] ws p Cons by simp
  qed
qed

lemma reads_exec_redir:
  assumes "reads_exec c" "good_word f"
  shows "reads_exec (SRedir c f out)"
  unfolding reads_exec_def
proof (intro allI impI)
  fix rs post n
  assume p: "good_redirs rs \<and> clean post \<and> 4 * length (show_cmd 3 (SRedir c f out) @ show_redirs rs @ post) + 2 \<le> n"
  have s: "show_cmd 3 (SRedir c f out) @ show_redirs rs @ post = show_cmd 3 c @ show_redirs ((f, out) # rs) @ post"
    by (simp add: show_redirs_def)
  have "good_redirs ((f, out) # rs)" using p assms(2) by (simp add: good_redirs_def)
  then show "\<exists>c'. parseexec n (show_cmd 3 (SRedir c f out) @ show_redirs rs @ post) = Inr (c', skip_white post) \<and>
      sem c' = wrap rs (SRedir c f out)"
    using reads_execD [OF assms(1), of "(f, out) # rs" post n] p unfolding s by simp
qed

lemma reads_pipe_pipe:
  assumes "reads_exec a" "reads_pipe b"
  shows "reads_pipe (SPipe a b)"
  unfolding reads_pipe_def
proof (intro allI impI)
  fix post f assume p: "clean post \<and> deref (skip_white post) \<noteq> BAR \<and> 4 * length (show_cmd 2 (SPipe a b) @ post) + 3 \<le> f"
  then obtain g where f: "f = Suc g" by (cases f) auto
  let ?r = "show_cmd 2 b @ post"
  have s: "show_cmd 2 (SPipe a b) @ post = show_cmd 3 a @ BAR # ?r" by (simp add: paren_def)
  have n: "4 * length (show_cmd 3 a @ BAR # ?r) + 2 \<le> g" using p f s by simp
  obtain a' where a': "parseexec g (show_cmd 3 a @ BAR # ?r) = Inr (a', BAR # ?r)" "sem a' = a"
    using reads_execD [OF assms(1), of "[]" "BAR # ?r" g] n by (auto simp: show_redirs_def good_redirs_def)
  obtain b' where b': "parsepipe g ?r = Inr (b', skip_white post)" "sem b' = b" using reads_pipeD [OF assms(2), of post g] p n by auto
  obtain q e where "gettoken (BAR # ?r) = (BAR, q, e, skip_white ?r)" using gettoken_symbol [of BAR ?r] by auto
  then show "\<exists>c'. parsepipe f (show_cmd 2 (SPipe a b) @ post) = Inr (c', skip_white post) \<and> sem c' = SPipe a b"
    unfolding s using f a' b' peek_yes [of BAR ?r] by simp
qed

lemma reads_back_back:
  assumes "reads_back c"
  shows "reads_back (SBack c)"
  unfolding reads_back_def
proof (intro allI impI)
  fix post f assume p: "clean post \<and> deref (skip_white post) \<noteq> BAR \<and> 4 * length (show_cmd 1 (SBack c) @ post) + 3 \<le> f"
  have s: "show_cmd 1 (SBack c) @ post = show_cmd 1 c @ AMP # post" by (simp add: paren_def)
  obtain c1 r1 c' where c: "parsepipe f (show_cmd 1 c @ AMP # post) = Inr (c1, r1)" "parseback c1 r1 = parseback c' (AMP # post)" "sem c' = c"
    using reads_backD [OF assms, of "AMP # post" f] p by (auto simp: shell_chars paren_def)
  obtain q e where "gettoken (AMP # post) = (AMP, q, e, skip_white post)" using gettoken_symbol [of AMP post] by auto
  then have "parseback c' (AMP # post) = parseback (BACK c') post"
    using peek_yes [of AMP post] by (subst parseback.simps) simp
  then show "\<exists>c1 r1 c'. parsepipe f (show_cmd 1 (SBack c) @ post) = Inr (c1, r1) \<and> parseback c1 r1 = parseback c' post \<and> sem c' = SBack c"
    unfolding s using c by (metis sem.simps(5))
qed

lemma reads_line_list:
  assumes "reads_back a" "reads_line b"
  shows "reads_line (SList a b)"
  unfolding reads_line_def
proof (intro allI impI)
  fix post f assume p: "clean post \<and> deref (skip_white post) \<in> {0, RPAR} \<and> 4 * length (show_cmd 0 (SList a b) @ post) + 4 \<le> f"
  then obtain g where f: "f = Suc g" by (cases f) auto
  let ?r = "show_cmd 0 b @ post"
  have s: "show_cmd 0 (SList a b) @ post = show_cmd 1 a @ SEMI # ?r" by (simp add: paren_def)
  have n: "4 * length (show_cmd 1 a @ SEMI # ?r) + 3 \<le> g" using p f s by simp
  have ne: "SEMI \<noteq> BAR" "SEMI \<noteq> AMP" by (simp_all add: shell_chars)
  obtain c1 r1 a' where a': "parsepipe g (show_cmd 1 a @ SEMI # ?r) = Inr (c1, r1)" "parseback c1 r1 = parseback a' (SEMI # ?r)" "sem a' = a"
    using reads_backD [OF assms(1), of "SEMI # ?r" g] n ne by auto
  have pb: "parseback a' (SEMI # ?r) = (a', SEMI # ?r)" using ne parseback_none [of "SEMI # ?r" a'] by simp
  obtain b' where b': "parseline g ?r = Inr (b', skip_white post)" "sem b' = b" using reads_lineD [OF assms(2), of post g] p n by auto
  obtain q e where "gettoken (SEMI # ?r) = (SEMI, q, e, skip_white ?r)" using gettoken_symbol [of SEMI ?r] by auto
  then show "\<exists>c'. parseline f (show_cmd 0 (SList a b) @ post) = Inr (c', skip_white post) \<and> sem c' = SList a b"
    unfolding s using f a' b' pb peek_yes [of SEMI ?r] by simp
qed

lemma reads_all: "wf_cmd c \<Longrightarrow> reads_exec c \<and> reads_pipe c \<and> reads_back c \<and> reads_line c"
proof (induction c)
  case (SExec ws)
  then have "reads_exec (SExec ws)" by (rule reads_exec_words)
  then show ?case by (simp add: reads_exec_pipe reads_pipe_back reads_back_line)
next
  case (SRedir c f out)
  then have "reads_exec (SRedir c f out)" by (simp add: reads_exec_redir)
  then show ?case by (simp add: reads_exec_pipe reads_pipe_back reads_back_line)
next
  case (SPipe a b)
  then have "reads_pipe (SPipe a b)" by (simp add: reads_pipe_pipe)
  moreover from this have "reads_back (SPipe a b)" by (rule reads_pipe_back) (simp add: paren_def)
  moreover from this have "reads_line (SPipe a b)" by (rule reads_back_line) (simp add: paren_def)
  moreover from this have "reads_exec (SPipe a b)" by (rule reads_line_exec) (simp add: paren_def)
  ultimately show ?case by blast
next
  case (SList a b)
  then have "reads_line (SList a b)" by (simp add: reads_line_list)
  moreover from this have "reads_exec (SList a b)" by (rule reads_line_exec) (simp add: paren_def)
  moreover from this have "reads_pipe (SList a b)" by (rule reads_exec_pipe) (simp add: paren_def)
  moreover from this have "reads_back (SList a b)" by (rule reads_pipe_back) (simp add: paren_def)
  ultimately show ?case by blast
next
  case (SBack c)
  then have "reads_back (SBack c)" by (simp add: reads_back_back)
  moreover from this have "reads_line (SBack c)" by (rule reads_back_line) (simp add: paren_def)
  moreover from this have "reads_exec (SBack c)" by (rule reads_line_exec) (simp add: paren_def)
  moreover from this have "reads_pipe (SBack c)" by (rule reads_exec_pipe) (simp add: paren_def)
  ultimately show ?case by blast
qed

text \<open>A printed command followed by white space, such as the newline that ends a line.\<close>

lemma parse_show_line:
  assumes "wf_cmd c" "\<forall>b\<in>set ws. b \<in> set whitespace"
  shows "\<exists>c' buf. parsecmd (show_cmd 0 c @ ws) = Inr (c', buf) \<and> sem c' = c"
proof -
  have w: "skip_white ws = []" using assms(2) by (induction ws) (simp_all add: skip_white_Cons)
  have "reads_line c" using reads_all assms(1) by blast
  from reads_lineD [OF this, of ws "4 * length (show_cmd 0 c @ ws) + 4"] w
  obtain c' where "parseline (4 * length (show_cmd 0 c @ ws) + 4) (show_cmd 0 c @ ws) = Inr (c', [])" "sem c' = c"
    by (auto simp: clean_def deref_def)
  then show ?thesis by (simp add: parsecmd_def peek_def Let_def)
qed

text \<open>
  C13. Round trip: the parser reads back every well-formed command from its printed form, however it nests
  pipes, lists, background commands, redirections and parentheses.
\<close>

theorem parse_show:
  assumes "wf_cmd c"
  shows "\<exists>c' buf. parsecmd (show_cmd 0 c) = Inr (c', buf) \<and> sem c' = c"
  using parse_show_line [OF assms, of "[]"] by simp

theorem parse_show_witness:
  "\<exists>c' buf. parsecmd (show_cmd 0 (SPipe (SExec [[0x61]]) (SRedir (SExec [[0x62], [0x63]]) [0x64] True))) = Inr (c', buf) \<and>
     sem c' = SPipe (SExec [[0x61]]) (SRedir (SExec [[0x62], [0x63]]) [0x64] True)"
  by (rule parse_show) code_simp

end
