(* ===== verification/Shell_Words.thy ===== *)
theory Shell_Words
  imports Shell_Syntax "HOL-Library.Sublist"
begin

text \<open>
  The words of a parsed command: every pointer pair the parser stores delimits a maximal word of the
  line, the commands it builds are the well-formed ones, and after \<^verbatim>\<open>nulterminate\<close> each start pointer is a
  C string equal to its word, however many words share the buffer.
\<close>

section \<open>Words of a line\<close>

text \<open>The pair \<open>(q, eq)\<close> delimits a word of \<open>s\<close> that ends before a byte no word contains.\<close>

definition word_of :: "u8 list \<Rightarrow> ptr \<times> ptr \<Rightarrow> bool" where
  "word_of s t \<longleftrightarrow>
     (\<exists>w. fst t = w @ snd t \<and> good_word w) \<and> suffix (fst t) s \<and> \<not> good_char (deref (snd t))"

primrec tokens :: "cmd \<Rightarrow> (ptr \<times> ptr) list" where
  "tokens (EXEC args) = args"
| "tokens (REDIR c q eq mode fd) = tokens c @ [(q, eq)]"
| "tokens (PIPE l r) = tokens l @ tokens r"
| "tokens (LIST l r) = tokens l @ tokens r"
| "tokens (BACK c) = tokens c"

text \<open>The mode and the descriptor of a redirection: input on 0, output on 1.\<close>

definition redir_mode :: "bool \<Rightarrow> u32" where
  "redir_mode out = (if out then O_WRONLY OR O_CREATE else O_RDONLY)"

definition redir_ok :: "u32 \<Rightarrow> int \<Rightarrow> bool" where
  "redir_ok mode fd \<longleftrightarrow> mode = redir_mode (fd = 1) \<and> fd \<in> {0, 1}"

primrec shape_ok :: "cmd \<Rightarrow> bool" where
  "shape_ok (EXEC args) \<longleftrightarrow> length args < MAXARGS"
| "shape_ok (REDIR c q eq mode fd) \<longleftrightarrow> shape_ok c \<and> redir_ok mode fd"
| "shape_ok (PIPE l r) \<longleftrightarrow> shape_ok l \<and> shape_ok r"
| "shape_ok (LIST l r) \<longleftrightarrow> shape_ok l \<and> shape_ok r"
| "shape_ok (BACK c) \<longleftrightarrow> shape_ok c"

text \<open>A result of the parser on the line \<open>s\<close> whose tokens are all words of it.\<close>

definition sound :: "u8 list \<Rightarrow> (cmd \<times> ptr) res \<Rightarrow> bool" where
  "sound s r \<longleftrightarrow>
     (case r of Inl _ \<Rightarrow> True
      | Inr (c, rest) \<Rightarrow> suffix rest s \<and> list_all (word_of s) (tokens c) \<and> shape_ok c)"

lemma redir_ok_simps [simp]: "redir_ok O_RDONLY 0" "redir_ok (O_WRONLY OR O_CREATE) 1"
  by (simp_all add: redir_ok_def redir_mode_def)

lemma sound_simps [simp]:
  "sound s (Inl e)"
  "sound s (Inr (c, rest)) \<longleftrightarrow> suffix rest s \<and> list_all (word_of s) (tokens c) \<and> shape_ok c"
  by (simp_all add: sound_def)

lemma sound_bind:
  assumes "sound s m"
    "\<And>c r. suffix r s \<Longrightarrow> list_all (word_of s) (tokens c) \<Longrightarrow> shape_ok c \<Longrightarrow> sound s (f (c, r))"
  shows "sound s (bindR m f)"
  using assms by (cases m) (auto simp: sound_def)

lemma skip_white_suffix' [intro]: "suffix ps s \<Longrightarrow> suffix (skip_white ps) s"
  using skip_white_suffix [of ps] by (metis suffixI suffix_order.trans)

lemma suffix_tl' [intro]: "suffix ps s \<Longrightarrow> suffix (tl ps) s"
  using suffix_order.trans suffix_tl by blast

lemma skip_word_split:
  "\<exists>w. q = w @ skip_word q \<and> (\<forall>c\<in>set w. c \<notin> set whitespace \<and> c \<notin> set symbols) \<and>
     \<not> good_char (deref (skip_word q))"
proof (induction q)
  case (Cons c q)
  then obtain w where w: "q = w @ skip_word q" "\<forall>c\<in>set w. c \<notin> set whitespace \<and> c \<notin> set symbols"
    "\<not> good_char (deref (skip_word q))" by blast
  show ?case
  proof (cases "c \<notin> set whitespace \<and> c \<notin> set symbols")
    case True
    then show ?thesis using w by (intro exI [of _ "c # w"]) (auto simp: strchr_None)
  next
    case False
    then show ?thesis by (intro exI [of _ "[]"]) (auto simp: strchr_None good_char_def deref_def)
  qed
qed (simp add: good_char_def deref_def)

lemma peek_suffix: "peek ps toks = (b, r) \<Longrightarrow> suffix ps s \<Longrightarrow> suffix r s"
  by (auto simp: peek_def Let_def)

lemma skip_word_suffix' [intro]: "suffix ps s \<Longrightarrow> suffix (skip_word ps) s"
  using skip_word_suffix [of ps] by (metis suffixI suffix_order.trans)

lemma gettoken_suffix: "gettoken ps = (tok, q, eq, r) \<Longrightarrow> suffix ps s \<Longrightarrow> suffix r s \<and> suffix q s"
  by (auto simp: gettoken_def Let_def split: if_splits)

lemma gettoken_delimits:
  assumes "gettoken ps = (WORD, q, eq, r)" "suffix ps s" "0 \<notin> set s"
  shows "word_of s (q, eq)"
proof -
  have q: "q = skip_white ps" "eq = skip_word q" "deref q \<noteq> 0"
    "deref q \<notin> {BAR, LPAR, RPAR, SEMI, AMP, LT, GT}"
    using assms(1) by (auto simp: gettoken_def Let_def shell_chars split: if_splits)
  obtain w where w: "q = w @ eq" "\<forall>c\<in>set w. c \<notin> set whitespace \<and> c \<notin> set symbols"
    "\<not> good_char (deref eq)" using skip_word_split [of q] q(2) by blast
  have s: "suffix q s" using assms(2) q(1) by blast
  obtain c t where ct: "q = c # t" using q(3) by (auto simp: deref_def split: list.splits)
  have "c \<notin> set whitespace" using skip_white_head [of ps c t] q(1) ct by (simp add: strchr_None)
  then have "good_char (deref q)" using q(3,4) ct by (auto simp: good_char_def symbols_def deref_def shell_chars)
  then have "w \<noteq> []" using w by auto
  moreover have "0 \<notin> set w" using set_mono_suffix [OF s] w(1) assms(3) by auto
  ultimately show ?thesis using w s by (auto simp: word_of_def good_word_def good_char_def)
qed

section \<open>The parser stores words\<close>

lemma parseredirs_sound:
  "0 \<notin> set s \<Longrightarrow> suffix ps s \<Longrightarrow> list_all (word_of s) (tokens cmd) \<Longrightarrow> shape_ok cmd \<Longrightarrow> sound s (parseredirs cmd ps)"
proof (induction cmd ps rule: parseredirs.induct)
  case (1 cmd ps)
  obtain b s0 where pk: "peek ps [LT, GT] = (b, s0)" by fastforce
  obtain tok x y s1 where g1: "gettoken s0 = (tok, x, y, s1)" by (metis prod_cases4)
  obtain r q eq s2 where g2: "gettoken s1 = (r, q, eq, s2)" by (metis prod_cases4)
  note sf = peek_suffix [OF pk 1(3)]
  note sf1 = gettoken_suffix [OF g1 sf, THEN conjunct1]
  note sf2 = gettoken_suffix [OF g2 sf1, THEN conjunct1]
  show ?case
  proof (cases b)
    case True
    then have pk': "peek ps [LT, GT] = (True, s0)" using pk by simp
    note IH = 1(1) [OF pk' [symmetric] refl g1 [symmetric] refl refl g2 [symmetric] refl refl _ 1(2) sf2]
    show ?thesis
    proof (cases "r = WORD")
      case W: True
      then have "word_of s (q, eq)" using gettoken_delimits [of s1 q eq s2 s] g2 sf1 1(2) by simp
      then show ?thesis using pk' g1 g2 IH W 1(4,5) by (subst parseredirs.simps) simp
    qed (use pk' g1 g2 in \<open>subst parseredirs.simps, simp\<close>)
  qed (use pk sf 1(4,5) in \<open>subst parseredirs.simps, simp\<close>)
qed

text \<open>The arguments counted so far are those of the exec node below the redirections.\<close>

primrec arg_count :: "cmd \<Rightarrow> nat \<Rightarrow> bool" where
  "arg_count (EXEC args) n \<longleftrightarrow> length args = n"
| "arg_count (REDIR c q eq mode fd) n \<longleftrightarrow> arg_count c n \<and> redir_ok mode fd"
| "arg_count (PIPE l r) n \<longleftrightarrow> False"
| "arg_count (LIST l r) n \<longleftrightarrow> False"
| "arg_count (BACK c) n \<longleftrightarrow> False"

lemma arg_count_few: "arg_count c n \<Longrightarrow> n < MAXARGS \<Longrightarrow> shape_ok c"
  by (induction c) auto

lemma arg_count_add: "arg_count c n \<Longrightarrow> arg_count (add_arg q eq c) (Suc n)"
  by (induction c) auto

lemma tokens_add: "arg_count c n \<Longrightarrow> set (tokens (add_arg q eq c)) = insert (q, eq) (set (tokens c))"
  by (induction c) auto

lemma parseredirs_count: "parseredirs cmd ps = Inr (c, r) \<Longrightarrow> arg_count cmd n \<Longrightarrow> arg_count c n"
proof (induction cmd ps rule: parseredirs.induct)
  case (1 cmd ps)
  obtain b s0 where pk: "peek ps [LT, GT] = (b, s0)" by fastforce
  obtain tok x y s1 where g1: "gettoken s0 = (tok, x, y, s1)" by (metis prod_cases4)
  obtain r q eq s2 where g2: "gettoken s1 = (r, q, eq, s2)" by (metis prod_cases4)
  show ?case
  proof (cases b)
    case True
    then have pk': "peek ps [LT, GT] = (True, s0)" using pk by simp
    note IH = 1(1) [OF pk' [symmetric] refl g1 [symmetric] refl refl g2 [symmetric] refl refl]
    show ?thesis using 1(2,3) pk' g1 g2 IH by (subst (asm) parseredirs.simps) (auto split: if_splits)
  qed (use 1(2,3) pk in \<open>subst (asm) parseredirs.simps, simp\<close>)
qed

lemma parseargs_sound:
  assumes "0 \<notin> set s" "suffix ps s" "list_all (word_of s) (tokens ret)" "arg_count ret argc" "argc < MAXARGS"
  shows "sound s (parseargs ret argc ps)"
  using assms
proof (induction ret argc ps rule: parseargs.induct)
  case (1 ret argc ps)
  obtain b s0 where pk: "peek ps [BAR, RPAR, AMP, SEMI] = (b, s0)" by fastforce
  obtain tok q eq s1 where g: "gettoken s0 = (tok, q, eq, s1)" by (metis prod_cases4)
  note sf = peek_suffix [OF pk 1(3)]
  note sf1 = gettoken_suffix [OF g sf, THEN conjunct1]
  note few = arg_count_few [OF 1(5,6)]
  show ?case
  proof (cases b)
    case False
    then have pk': "peek ps [BAR, RPAR, AMP, SEMI] = (False, s0)" using pk by simp
    have "sound s (bindR (parseredirs (add_arg q eq ret) s1) (\<lambda>(ret, ps). parseargs ret (Suc argc) ps))"
      if "tok \<noteq> 0" "\<not> tok \<noteq> WORD" "\<not> Suc argc \<ge> MAXARGS"
    proof (cases "parseredirs (add_arg q eq ret) s1")
      case (Inr z)
      obtain c r where z: "z = (c, r)" by fastforce
      let ?c = "add_arg q eq ret"
      have w: "word_of s (q, eq)" using gettoken_delimits [of s0 q eq s1 s] g that(2) sf 1(2) by simp
      have n: "arg_count ?c (Suc argc)" using 1(5) by (rule arg_count_add)
      have "list_all (word_of s) (tokens ?c)" using w 1(4) tokens_add [OF 1(5), of q eq] by (simp add: list_all_iff)
      then have snd: "sound s (Inr (c, r))"
        using parseredirs_sound [of s s1 ?c] 1(2) sf1 arg_count_few [OF n] that(3) Inr z by simp
      have "sound s (parseargs c (Suc argc) r)"
        using 1(1) [OF pk' [symmetric] refl g [symmetric] refl refl that Inr z [symmetric] 1(2)] snd
          parseredirs_count [of ?c s1 c r, OF _ n] Inr z that(3) by simp
      then show ?thesis using Inr z by simp
    qed simp
    then show ?thesis using pk' g sf1 1(4) few by (subst parseargs.simps) auto
  qed (use pk sf 1(4) few in \<open>subst parseargs.simps, simp\<close>)
qed


lemma parseback_sound:
  "sound s (Inr (cmd, ps)) \<Longrightarrow> sound s (Inr (parseback cmd ps))"
proof (induction cmd ps rule: parseback.induct)
  case (1 cmd ps)
  obtain b s0 where pk: "peek ps [AMP] = (b, s0)" by fastforce
  obtain tok x y s1 where g: "gettoken s0 = (tok, x, y, s1)" by (metis prod_cases4)
  have sf: "suffix s0 s" using peek_suffix [OF pk] 1(2) by simp
  note sf1 = gettoken_suffix [OF g sf, THEN conjunct1]
  show ?case
  proof (cases b)
    case True
    then have pk': "peek ps [AMP] = (True, s0)" using pk by simp
    then have "parseback cmd ps = parseback (BACK cmd) s1" using g by (subst parseback.simps) simp
    then show ?thesis using 1(1) [OF pk' [symmetric] refl g [symmetric] refl refl] 1(2) sf1 by simp
  qed (use 1(2) pk sf in \<open>subst parseback.simps, simp\<close>)
qed

text \<open>Consuming one symbol stays in the line.\<close>

lemma symbol_sound:
  assumes "peek ps toks = (True, s0)" "suffix ps s" "\<And>rest. suffix rest s \<Longrightarrow> sound s (f rest)"
  shows "sound s (case gettoken s0 of (_, _, _, rest) \<Rightarrow> f rest)"
  using assms(3) gettoken_suffix peek_suffix [OF assms(1,2)] by (fastforce split: prod.splits)

lemma parser_sound:
  assumes "0 \<notin> set s"
  shows "suffix ps s \<Longrightarrow> sound s (parseline f ps)"
    "suffix ps s \<Longrightarrow> sound s (parsepipe f ps)"
    "suffix ps s \<Longrightarrow> sound s (parseexec f ps)"
    "suffix ps s \<Longrightarrow> sound s (parseblock f ps)"
proof (induction f arbitrary: ps)
  case (Suc f)
  {
    case 1
    show ?case
      unfolding parseline.simps
    proof (rule sound_bind [OF Suc.IH(2) [OF 1]])
      fix c r assume r: "suffix r s" "list_all (word_of s) (tokens c)" "shape_ok c"
      obtain c1 r1 where b: "parseback c r = (c1, r1)" by fastforce
      obtain t s0 where pk: "peek r1 [SEMI] = (t, s0)" by fastforce
      have c1: "suffix r1 s" "list_all (word_of s) (tokens c1)" "shape_ok c1" using parseback_sound [of s c r] r b by simp_all
      have "sound s (bindR (parseline f p) (\<lambda>(right, ps). Inr (LIST c1 right, ps)))" if "suffix p s" for p
        by (rule sound_bind [OF Suc.IH(1) [OF that]]) (use c1 in simp)
      then show "sound s (case (c, r) of (cmd, ps) \<Rightarrow> case parseback cmd ps of (cmd, ps) \<Rightarrow> (case peek ps [SEMI] of
          (True, ps) \<Rightarrow> (case gettoken ps of (_, _, _, ps) \<Rightarrow> bindR (parseline f ps) (\<lambda>(right, ps). Inr (LIST cmd right, ps)))
        | (False, ps) \<Rightarrow> Inr (cmd, ps)))"
        using b pk c1 symbol_sound [of r1 "[SEMI]" s0 s] peek_suffix [OF pk] by (cases t) auto
    qed
  next
    case 2
    show ?case
      unfolding parsepipe.simps
    proof (rule sound_bind [OF Suc.IH(3) [OF 2]])
      fix c r assume r: "suffix r s" "list_all (word_of s) (tokens c)" "shape_ok c"
      obtain t s0 where pk: "peek r [BAR] = (t, s0)" by fastforce
      have "sound s (bindR (parsepipe f p) (\<lambda>(right, ps). Inr (PIPE c right, ps)))" if "suffix p s" for p
        by (rule sound_bind [OF Suc.IH(2) [OF that]]) (use r in simp)
      then show "sound s (case (c, r) of (cmd, ps) \<Rightarrow> case peek ps [BAR] of
          (True, ps) \<Rightarrow> (case gettoken ps of (_, _, _, ps) \<Rightarrow> bindR (parsepipe f ps) (\<lambda>(right, ps). Inr (PIPE cmd right, ps)))
        | (False, ps) \<Rightarrow> Inr (cmd, ps))"
        using pk r symbol_sound [of r "[BAR]" s0 s] peek_suffix [OF pk] by (cases t) auto
    qed
  next
    case 3
    obtain t s0 where pk: "peek ps [LPAR] = (t, s0)" by fastforce
    note sf = peek_suffix [OF pk 3]
    have "sound s (bindR (parseredirs (EXEC []) s0) (\<lambda>(ret, ps). parseargs ret 0 ps))"
    proof (cases "parseredirs (EXEC []) s0")
      case (Inr z)
      obtain c r where z: "z = (c, r)" by fastforce
      then have "sound s (Inr (c, r))"
        using parseredirs_sound [OF assms sf, of "EXEC []"] Inr by (simp add: MAXARGS_def)
      then show ?thesis using parseargs_sound [OF assms, of r c 0] parseredirs_count [of "EXEC []" s0 c r 0] Inr z
        by (simp add: MAXARGS_def)
    qed simp
    then show ?case using Suc.IH(4) [OF sf] pk by (cases t) auto
  next
    case 4
    obtain t s0 where pk: "peek ps [LPAR] = (t, s0)" by fastforce
    have A: "sound s (bindR (parseline f p) (\<lambda>(cmd, ps). case peek ps [RPAR] of
         (True, ps) \<Rightarrow> (case gettoken ps of (_, _, _, ps) \<Rightarrow> parseredirs cmd ps)
       | (False, ps) \<Rightarrow> Inl (Panic ''syntax - missing )'')))" if p: "suffix p s" for p
    proof (rule sound_bind [OF Suc.IH(1) [OF p]])
      fix c r assume r: "suffix r s" "list_all (word_of s) (tokens c)" "shape_ok c"
      obtain u v where pk2: "peek r [RPAR] = (u, v)" by fastforce
      then show "sound s (case (c, r) of (cmd, ps) \<Rightarrow> case peek ps [RPAR] of
           (True, ps) \<Rightarrow> (case gettoken ps of (_, _, _, ps) \<Rightarrow> parseredirs cmd ps)
         | (False, ps) \<Rightarrow> Inl (Panic ''syntax - missing )''))"
        using symbol_sound [of r "[RPAR]" v s "parseredirs c"] parseredirs_sound [OF assms, of _ c] r by (cases u) auto
    qed
    show ?case using pk symbol_sound [of ps "[LPAR]" s0 s, OF _ 4 A] by (cases t) auto
  }
qed simp_all

lemma parsecmd_words:
  assumes "parsecmd s = Inr (c, buf)" "0 \<notin> set s"
  shows "list_all (word_of s) (tokens c)" "shape_ok c" "buf = nulterminate c (s @ [0])"
  using assms parser_sound(1) [OF assms(2), of s "4 * length s + 4"]
  by (auto simp: parsecmd_def peek_def Let_def bindR_def split: sum.splits prod.splits if_splits)

lemma token_word: "word_of s (q, eq) \<Longrightarrow> good_word (token_string q eq) \<and> q = token_string q eq @ eq"
  by (auto simp: word_of_def token_string_def)

lemma words_wf: "list_all (word_of s) (tokens c) \<Longrightarrow> shape_ok c \<Longrightarrow> wf_cmd (sem c)"
  using token_word by (induction c) (fastforce simp: list_all_iff)+

section \<open>NUL termination\<close>

text \<open>The C string that a pointer into the buffer stands for.\<close>

definition string_at :: "u8 list \<Rightarrow> ptr \<Rightarrow> u8 list" where
  "string_at buf q = takeWhile (\<lambda>c. c \<noteq> 0) (drop (position buf q) buf)"

lemma nulterminate_tokens: "nulterminate c buf = fold (\<lambda>t. cut (snd t)) (tokens c) buf"
  by (induction c arbitrary: buf) (simp_all add: split_def)

lemma length_cuts [simp]: "length (fold (\<lambda>t. cut (snd t)) ts buf) = length buf"
  by (induction ts arbitrary: buf) (simp_all add: cut_def)

text \<open>A byte of the buffer after the cuts: NUL at the end of a token, unchanged elsewhere.\<close>

lemma cuts_nth:
  "i < length buf \<Longrightarrow> fold (\<lambda>t. cut (snd t)) ts buf ! i =
     (if \<exists>t\<in>set ts. position buf (snd t) = i then 0 else buf ! i)"
proof (induction ts arbitrary: buf)
  case (Cons t ts)
  have p: "position (cut e buf) q = position buf q" for e q by (simp add: position_def cut_def)
  have l: "length (cut (snd t) buf) = length buf" by (simp add: cut_def)
  have n: "cut (snd t) buf ! i = (if position buf (snd t) = i then 0 else buf ! i)"
    using Cons.prems by (simp add: cut_def)
  show ?case using Cons.IH [of "cut (snd t) buf"] Cons.prems unfolding l n p by (simp split: if_split)
qed simp

lemma suffix_position:
  assumes "s = pre @ p"
  shows "position (s @ [0]) p = length pre" "(s @ [0]) ! length pre = deref p"
  using assms by (auto simp: position_def deref_def nth_append split: list.splits)

lemma word_split:
  assumes "word_of s (q, eq)"
  obtains pre where "s = pre @ token_string q eq @ eq" "q = token_string q eq @ eq" "good_word (token_string q eq)"
    "\<not> good_char (deref eq)"
  using assms token_word [OF assms] by (auto simp: word_of_def suffix_def)

lemma cut_word:
  assumes ts: "list_all (word_of s) ts" and t: "(q, eq) \<in> set ts"
  shows "string_at (fold (\<lambda>t. cut (snd t)) ts (s @ [0])) q = token_string q eq"
proof -
  let ?b = "fold (\<lambda>t. cut (snd t)) ts (s @ [0])" and ?w = "token_string q eq"
  have "word_of s (q, eq)" using ts t by (auto simp: list_all_iff)
  then obtain pre where s: "s = pre @ ?w @ eq" "q = ?w @ eq" "good_word ?w" by (rule word_split)
  have bad: "\<not> good_char ((s @ [0]) ! position (s @ [0]) (snd u))" if "u \<in> set ts" for u
  proof -
    have "word_of s (fst u, snd u)" using ts that by (auto simp: list_all_iff)
    then obtain pr where "s = pr @ token_string (fst u) (snd u) @ snd u" "\<not> good_char (deref (snd u))" by (rule word_split)
    then show ?thesis using suffix_position [of s "pr @ token_string (fst u) (snd u)" "snd u"] by simp
  qed
  have inside: "?b ! (length pre + i) = ?w ! i" if "i < length ?w" for i
  proof -
    have o: "(s @ [0]) ! (length pre + i) = ?w ! i" using s(1) that by (metis append.assoc nth_append_left nth_append_length_plus)
    have "good_char (?w ! i)" using s(3) that by (simp add: good_word_def)
    then have "\<not> (\<exists>u\<in>set ts. position (s @ [0]) (snd u) = length pre + i)" using bad o by metis
    moreover have "length pre + i < length (s @ [0])" using arg_cong [OF s(1), of length] that by simp
    ultimately show ?thesis using o by (simp add: cuts_nth del: append_assoc)
  qed
  have pe: "position (s @ [0]) eq = length pre + length ?w" using suffix_position(1) [of s "pre @ ?w" eq] s(1) by simp
  moreover have "length pre + length ?w < length (s @ [0])" using arg_cong [OF s(1), of length] by simp
  ultimately have stop: "?b ! (length pre + length ?w) = 0" using t by (auto simp: cuts_nth)
  have pq: "position ?b q = length pre" using suffix_position(1) [of s pre q] s(1,2) by (simp add: position_def)
  have len: "length pre + length ?w < length ?b" using arg_cong [OF s(1), of length] by simp
  have "drop (length pre) ?b = ?w @ 0 # drop (length pre + length ?w + 1) ?b"
  proof -
    have "take (length ?w) (drop (length pre) ?b) = ?w" using inside len by (intro nth_equalityI) simp_all
    moreover have "drop (length ?w) (drop (length pre) ?b) = 0 # drop (length pre + length ?w + 1) ?b"
      using Cons_nth_drop_Suc [OF len] stop by (simp add: add.commute)
    ultimately show ?thesis by (metis append_take_drop_id)
  qed
  moreover have "\<forall>c\<in>set ?w. c \<noteq> 0" using s(3) by (auto simp: good_word_def good_char_def)
  ultimately show ?thesis by (simp add: string_at_def pq takeWhile_append2 del: drop_append)
qed

lemma parsecmd_strings:
  assumes "parsecmd s = Inr (c, buf)" "0 \<notin> set s" "(q, eq) \<in> set (tokens c)"
  shows "string_at buf q = token_string q eq"
  using cut_word parsecmd_words [OF assms(1,2)] assms(3) by (simp add: nulterminate_tokens)

text \<open>
  C29. The parser builds only well-formed commands: every word is a non-empty run of bytes that are
  neither blanks nor symbols, and no simple command has more words than the argument array holds, with
  the terminating null pointer counted.
\<close>

theorem parsecmd_wf:
  assumes "parsecmd s = Inr (c, buf)" "0 \<notin> set s"
  shows "wf_cmd (sem c)"
  using words_wf parsecmd_words [OF assms] by blast

theorem parsecmd_wf_witness: "wf_cmd (sem (EXEC [([0x6c, 0x73], [])]))"
  by (rule parsecmd_wf [of "[0x6c, 0x73]" _ "[0x6c, 0x73, 0]"]) code_simp+

text \<open>
  C28. NUL termination does not damage any word: in the buffer that \<^verbatim>\<open>parsecmd\<close> leaves, the C string at
  the start of every stored token is exactly the word of the line, for any nesting and even where
  words, symbols and other words touch.
\<close>

theorem nulterminate_strings:
  assumes "parsecmd s = Inr (c, buf)" "0 \<notin> set s"
  shows "list_all (\<lambda>(q, eq). string_at buf q = token_string q eq) (tokens c)"
  using parsecmd_strings [OF assms] by (auto simp: list_all_iff)

theorem nulterminate_strings_witness:
  "list_all (\<lambda>(q, eq). string_at [0x61, 0, 0x62, 0] q = token_string q eq)
     (tokens (REDIR (EXEC [([0x61, 0x3c, 0x62], [0x3c, 0x62])]) [0x62] [] O_RDONLY 0))"
  by (rule nulterminate_strings [of "[0x61, 0x3c, 0x62]"]) code_simp+

end
