(* ===== verification/User.thy ===== *)
theory User
  imports Ulib "HOL-Library.Multiset"
begin

text \<open>
  User programs as trees of system calls. A node is a call the program makes, and its branches are what
  the program does for each result; \<open>Exit\<close> is \<^verbatim>\<open>exit()\<close>, which does not return, and the branch of \<open>Exec\<close> is
  what follows a failed \<^verbatim>\<open>exec\<close>. \<^verbatim>\<open>printf\<close> is one call that writes the formatted bytes (the source writes them
  one at a time to the same descriptor); a \<^verbatim>\<open>printf\<close> that goes wrong is \<open>Crash\<close>. Modelled here: \<^verbatim>\<open>src/init.c\<close>,
  \<^verbatim>\<open>src/echo.c\<close>, \<^verbatim>\<open>src/kill.c\<close>, \<^verbatim>\<open>src/ln.c\<close>, \<^verbatim>\<open>src/rm.c\<close>, \<^verbatim>\<open>src/mkdir.c\<close>, \<^verbatim>\<open>src/zombie.c\<close>, \<^verbatim>\<open>src/forktest.c\<close>,
  \<^verbatim>\<open>src/stressfs.c\<close>, and the loops over descriptors of \<^verbatim>\<open>src/cat.c\<close> and \<^verbatim>\<open>src/wc.c\<close>.
\<close>

section \<open>Programs\<close>

datatype call =
    CFork | CWait | CKill u32 | COpen "u8 list" u32 | CClose int | CDup int
  | CWrite int "u8 list" | CChdir "u8 list" | CLink "u8 list" "u8 list" | CUnlink "u8 list"
  | CMkdir "u8 list" | CMknod "u8 list" int int | CSleep int | CGetpid | CSbrk u32

text \<open>\<^verbatim>\<open>struct stat\<close> of \<^verbatim>\<open>src/stat.h\<close>.\<close>

record ustat =
  us_type :: u16
  us_dev :: u32
  us_ino :: u32
  us_nlink :: u16
  us_size :: u32

text \<open>
  \<open>Stat\<close> is \<^verbatim>\<open>fstat\<close>; \<open>Peek\<close> and \<open>Poke\<close> are accesses to memory that the model of a program does not keep itself, and
  \<open>Going\<close> ends a tree whose loop has more rounds than the model unfolds.
\<close>

datatype prog =
    Exit
  | Exec "u8 list" "u8 list list" prog
  | Call call "int \<Rightarrow> prog"
  | Read int nat "int \<Rightarrow> u8 list \<Rightarrow> prog"
  | MkPipe "int \<Rightarrow> int \<Rightarrow> int \<Rightarrow> prog"
  | Stat int "int \<Rightarrow> ustat \<Rightarrow> prog"
  | Peek u32 "u8 \<Rightarrow> prog"
  | Poke u32 u8 prog
  | Crash stop
  | Going

definition chars :: "string \<Rightarrow> u8 list" where
  "chars cs = map (\<lambda>c. of_nat (of_char c)) cs"

definition nl_char :: u8 where "nl_char = 0x0a"

definition uprint :: "int \<Rightarrow> u8 list \<Rightarrow> uarg list \<Rightarrow> prog \<Rightarrow> prog" where
  "uprint fd fmt args k =
     (case uprintf fmt args of Inl e \<Rightarrow> Crash e | Inr bs \<Rightarrow> Call (CWrite fd bs) (\<lambda>_. k))"

definition UO_RDWR :: u32 where "UO_RDWR = 2"
definition UO_CREATE :: u32 where "UO_CREATE = 0x200"

section \<open>The small programs\<close>

text \<open>The argument of a program is the array \<^verbatim>\<open>argv\<close>, so \<^verbatim>\<open>argc\<close> is its length.\<close>

fun echo_loop :: "u8 list list \<Rightarrow> prog" where
  "echo_loop [] = Exit"
| "echo_loop (a # as) =
     uprint 1 (chars ''%s%s'') [UStr (Some a), UStr (Some (if as \<noteq> [] then [0x20] else [nl_char]))] (echo_loop as)"

definition echo_main :: "u8 list list \<Rightarrow> prog" where
  "echo_main argv = echo_loop (drop 1 argv)"

fun kill_loop :: "u8 list list \<Rightarrow> prog" where
  "kill_loop [] = Exit"
| "kill_loop (a # as) = Call (CKill (atoi a)) (\<lambda>_. kill_loop as)"

definition kill_main :: "u8 list list \<Rightarrow> prog" where
  "kill_main argv =
     (if length argv < 1 then uprint 2 (chars ''usage: kill pid...'' @ [nl_char]) [] Exit
      else kill_loop (drop 1 argv))"

definition ln_main :: "u8 list list \<Rightarrow> prog" where
  "ln_main argv =
     (if length argv \<noteq> 3 then uprint 2 (chars ''Usage: ln old new'' @ [nl_char]) [] Exit
      else Call (CLink (argv ! 1) (argv ! 2)) (\<lambda>r.
        if r < 0 then uprint 2 (chars ''link %s %s: failed'' @ [nl_char]) [UStr (Some (argv ! 1)), UStr (Some (argv ! 2))] Exit
        else Exit))"

text \<open>The loop that \<^verbatim>\<open>rm\<close> and \<^verbatim>\<open>mkdir\<close> share: stop at the first argument whose call fails.\<close>

fun each_arg :: "(u8 list \<Rightarrow> call) \<Rightarrow> u8 list \<Rightarrow> u8 list list \<Rightarrow> prog" where
  "each_arg c msg [] = Exit"
| "each_arg c msg (a # as) =
     Call (c a) (\<lambda>r. if r < 0 then uprint 2 msg [UStr (Some a)] Exit else each_arg c msg as)"

definition rm_main :: "u8 list list \<Rightarrow> prog" where
  "rm_main argv =
     (if length argv < 2 then uprint 2 (chars ''Usage: rm files...'' @ [nl_char]) [] Exit
      else each_arg CUnlink (chars ''rm: %s failed to delete'' @ [nl_char]) (drop 1 argv))"

definition mkdir_main :: "u8 list list \<Rightarrow> prog" where
  "mkdir_main argv =
     (if length argv < 2 then uprint 2 (chars ''Usage: mkdir files...'' @ [nl_char]) [] Exit
      else each_arg CMkdir (chars ''mkdir: %s failed to create'' @ [nl_char]) (drop 1 argv))"

definition zombie_main :: prog where
  "zombie_main = Call CFork (\<lambda>r. if r > 0 then Call (CSleep 5) (\<lambda>_. Exit) else Exit)"

section \<open>The fork test\<close>

text \<open>\<open>n\<close> rounds of the first loop are left; \<open>m\<close> children have been made.\<close>

definition FORKS :: nat where "FORKS = 1000"

definition say :: "string \<Rightarrow> prog \<Rightarrow> prog" where
  "say msg k = Call (CWrite 1 (chars msg @ [nl_char])) (\<lambda>_. k)"

primrec reap :: "nat \<Rightarrow> prog" where
  "reap 0 = Call CWait (\<lambda>r. if r \<noteq> - 1 then say ''wait got too many'' Exit else say ''fork test OK'' Exit)"
| "reap (Suc n) = Call CWait (\<lambda>r. if r < 0 then say ''wait stopped early'' Exit else reap n)"

primrec fork_all :: "nat \<Rightarrow> nat \<Rightarrow> prog" where
  "fork_all 0 m = say ''fork claimed to work N times!'' Exit"
| "fork_all (Suc n) m =
     Call CFork (\<lambda>pid. if pid < 0 then reap m else if pid = 0 then Exit else fork_all n (Suc m))"

definition forktest :: prog where
  "forktest = say ''fork test'' (fork_all FORKS 0)"

section \<open>The file system stress test\<close>

primrec stressfs_fork :: "nat \<Rightarrow> nat \<Rightarrow> (nat \<Rightarrow> prog) \<Rightarrow> prog" where
  "stressfs_fork 0 i k = k i"
| "stressfs_fork (Suc n) i k = Call CFork (\<lambda>r. if r > 0 then k i else stressfs_fork n (Suc i) k)"

fun print_numbers :: "int \<Rightarrow> nat list \<Rightarrow> prog \<Rightarrow> prog" where
  "print_numbers fd [] k = k"
| "print_numbers fd (i # is) k = uprint fd (chars ''%d'' @ [nl_char]) [UInt (of_nat i)] (print_numbers fd is k)"

definition stressfs_main :: prog where
  "stressfs_main =
     uprint 1 (chars ''stressfs starting'' @ [nl_char]) []
     (stressfs_fork 4 0 (\<lambda>i.
       uprint 1 (chars ''%d'' @ [nl_char]) [UInt (of_nat i)]
       (Call (COpen (chars ''stressfs'' @ [0x30 + of_nat i]) (UO_CREATE OR UO_RDWR)) (\<lambda>fd.
         print_numbers fd [0..<100] (Call (CClose fd) (\<lambda>_. Call CWait (\<lambda>_. Exit)))))))"

section \<open>Filters\<close>

text \<open>
  \<^verbatim>\<open>cat\<close> and \<^verbatim>\<open>wc\<close> on one descriptor, then \<open>k\<close>; \<open>f\<close> bounds the calls of \<^verbatim>\<open>read\<close> that the tree unfolds. A result of
  \<^verbatim>\<open>read\<close> comes with the bytes it stored in the buffer.
\<close>

primrec cat_fd :: "nat \<Rightarrow> int \<Rightarrow> prog \<Rightarrow> prog" where
  "cat_fd 0 fd k = Going"
| "cat_fd (Suc f) fd k =
     Read fd 512 (\<lambda>n buf.
       if n > 0 then Call (CWrite 1 buf) (\<lambda>_. cat_fd f fd k)
       else if n < 0 then uprint 1 (chars ''cat: read error'' @ [nl_char]) [] Exit
       else k)"

primrec wc_fd :: "nat \<Rightarrow> int \<Rightarrow> u8 list \<Rightarrow> counts \<Rightarrow> prog \<Rightarrow> prog" where
  "wc_fd 0 fd name c k = Going"
| "wc_fd (Suc f) fd name c k =
     Read fd 512 (\<lambda>n buf.
       if n > 0 then wc_fd f fd name (fold wc_char buf c) k
       else if n < 0 then uprint 1 (chars ''wc: read error'' @ [nl_char]) [] Exit
       else uprint 1 (chars ''%d %d %d %s'' @ [nl_char]) [UInt (nl c), UInt (nw c), UInt (nc c), UStr (Some name)] k)"

text \<open>Both programs open their arguments one after the other, and report a failure in the same words.\<close>

fun each_file :: "(int \<Rightarrow> u8 list \<Rightarrow> prog \<Rightarrow> prog) \<Rightarrow> u8 list list \<Rightarrow> prog" where
  "each_file body [] = Exit"
| "each_file body (a # as) =
     Call (COpen a 0) (\<lambda>fd.
       if fd < 0 then uprint 1 (chars ''cat: cannot open %s'' @ [nl_char]) [UStr (Some a)] Exit
       else body fd a (Call (CClose fd) (\<lambda>_. each_file body as)))"

definition cat_main :: "nat \<Rightarrow> u8 list list \<Rightarrow> prog" where
  "cat_main f argv =
     (if length argv \<le> 1 then cat_fd f 0 Exit else each_file (\<lambda>fd name. cat_fd f fd) (drop 1 argv))"

definition wc_main :: "nat \<Rightarrow> u8 list list \<Rightarrow> prog" where
  "wc_main f argv =
     (let c = \<lparr>nl = 0, nw = 0, nc = 0, inword = False\<rparr> in
      if length argv \<le> 1 then wc_fd f 0 [] c Exit else each_file (\<lambda>fd name. wc_fd f fd name c) (drop 1 argv))"

section \<open>The first process\<close>

text \<open>\<^verbatim>\<open>init\<close> never ends: \<open>f\<close> bounds the shells and the calls of \<^verbatim>\<open>wait\<close> that the tree unfolds.\<close>

fun init_loop :: "nat \<Rightarrow> prog"
  and init_wait :: "nat \<Rightarrow> int \<Rightarrow> prog" where
  "init_loop 0 = Going"
| "init_loop (Suc f) =
     uprint 1 (chars ''init: starting sh'' @ [nl_char]) []
     (Call CFork (\<lambda>pid.
       if pid < 0 then uprint 1 (chars ''init: fork failed'' @ [nl_char]) [] Exit
       else if pid = 0 then Exec (chars ''sh'') [chars ''sh''] (uprint 1 (chars ''init: exec sh failed'' @ [nl_char]) [] Exit)
       else init_wait f pid))"
| "init_wait 0 pid = Going"
| "init_wait (Suc f) pid =
     Call CWait (\<lambda>wpid.
       if wpid \<ge> 0 \<and> wpid \<noteq> pid then uprint 1 (chars ''zombie!'' @ [nl_char]) [] (init_wait f pid)
       else init_loop f)"

definition init_main :: "nat \<Rightarrow> prog" where
  "init_main f =
     (let rest = Call (CDup 0) (\<lambda>_. Call (CDup 0) (\<lambda>_. init_loop f)) in
      Call (COpen (chars ''console'') UO_RDWR) (\<lambda>r.
        if r < 0 then Call (CMknod (chars ''console'') 1 1) (\<lambda>_. Call (COpen (chars ''console'') UO_RDWR) (\<lambda>_. rest))
        else rest))"

section \<open>Running a program\<close>

text \<open>
  What a program can do when it runs as a process. The system calls behave as the kernel lets a program see them:
  a call may fail for reasons outside the program (whether \<^verbatim>\<open>close\<close> and \<^verbatim>\<open>dup\<close> fail depends on the descriptor table only);
  descriptors are handed out lowest free first (as \<^verbatim>\<open>fdalloc\<close> does); a new pipe has any name \<open>n\<close>, by which its two ends are known; \<^verbatim>\<open>fork\<close> makes a child that runs at the same time, with a copy of the descriptor table; and \<^verbatim>\<open>wait\<close> does not return before a
  child has ended. The program that \<^verbatim>\<open>exec\<close> starts is not modelled further: what is observed of it is when it starts, with which
  arguments and descriptors, and when it ends. No process is killed.
\<close>

datatype obj = FileObj "u8 list" u32 | PipeR nat | PipeW nat

type_synonym fdtable = "obj option list"

definition fd_alloc :: "obj \<Rightarrow> fdtable \<Rightarrow> int \<times> fdtable" where
  "fd_alloc x t = (case find_index (\<lambda>y. y = None) t of Some i \<Rightarrow> (int i, t[i := Some x]) | None \<Rightarrow> (- 1, t))"

definition fd_get :: "int \<Rightarrow> fdtable \<Rightarrow> obj option" where
  "fd_get fd t = (if 0 \<le> fd \<and> fd < int (length t) then t ! nat fd else None)"

definition fd_close :: "int \<Rightarrow> fdtable \<Rightarrow> fdtable" where
  "fd_close fd t = (if 0 \<le> fd then t[nat fd := None] else t)"

type_synonym launch = "u8 list list \<times> fdtable"

datatype event = Start launch | End launch

text \<open>
  What is left of the life of a process: \<open>Act tr os\<close> will show the events \<open>tr\<close>, its own and those of its descendants up to
  its exit, and then leaves the processes \<open>os\<close> behind, which go on without it. \<open>Act [] os\<close> has ended.
\<close>

datatype beh = Act "event list" "beh multiset"

text \<open>One event of some process of a group.\<close>

inductive step :: "beh multiset \<Rightarrow> event \<Rightarrow> beh multiset \<Rightarrow> bool" where
  step_own: "step (add_mset (Act (e # tr) os) M) e (add_mset (Act tr os) M)"
| step_left: "step os e os' \<Longrightarrow> step (add_mset (Act [] os) M) e (add_mset (Act [] os') M)"

text \<open>
  Time passes for the children \<open>cs\<close> of a process and for processes \<open>fl\<close> that are not its children: their events interleave
  in any order.
\<close>

inductive advance :: "beh multiset \<Rightarrow> beh multiset \<Rightarrow> event list \<Rightarrow> beh multiset \<Rightarrow> beh multiset \<Rightarrow> bool" where
  adv_stop: "advance cs fl [] cs fl"
| adv_child: "step cs e cs1 \<Longrightarrow> advance cs1 fl tr cs' fl' \<Longrightarrow> advance cs fl (e # tr) cs' fl'"
| adv_float: "step fl e fl1 \<Longrightarrow> advance cs fl1 tr cs' fl' \<Longrightarrow> advance cs fl (e # tr) cs' fl'"

text \<open>Time passes until the process ends; its children and the others go on.\<close>

definition leaves :: "beh multiset \<Rightarrow> beh multiset \<Rightarrow> event list \<Rightarrow> beh multiset \<Rightarrow> bool" where
  "leaves cs fl tr os \<longleftrightarrow> (\<exists>cs' fl'. advance cs fl tr cs' fl' \<and> os = cs' + fl')"

text \<open>
  \<open>runs p t cs fl tr os\<close>: a process in program \<open>p\<close> with the descriptors \<open>t\<close> and the children \<open>cs\<close>, while the processes \<open>fl\<close> are
  around, can come to its end with the events \<open>tr\<close> and leave \<open>os\<close> behind. Time may pass before an \<^verbatim>\<open>exec\<close>, until the program
  started by it ends, in \<^verbatim>\<open>wait\<close> and before \<^verbatim>\<open>exit\<close>; passing earlier makes no difference to what can be observed. A child that \<^verbatim>\<open>wait\<close> finds is
  removed; what it left behind no longer belongs to the process. A \<open>Crash\<close> ends the process; of a tree cut off by \<open>Going\<close> nothing is known.
\<close>

primrec runs :: "prog \<Rightarrow> fdtable \<Rightarrow> beh multiset \<Rightarrow> beh multiset \<Rightarrow> event list \<Rightarrow> beh multiset \<Rightarrow> bool" where
  "runs Exit t cs fl tr os = leaves cs fl tr os"
| "runs (Exec path argv k) t cs fl tr os =
     ((\<exists>tr1 cs1 fl1 tr2. advance cs fl tr1 cs1 fl1 \<and> leaves cs1 fl1 tr2 os \<and>
        tr = tr1 @ Start (argv, t) # tr2 @ [End (argv, t)]) \<or>
      runs k t cs fl tr os)"
| "runs (Call c k) t cs fl tr os =
     (case c of
       CFork \<Rightarrow>
         runs (k (- 1)) t cs fl tr os \<or>
         (\<exists>pid tr0 os0. 0 < pid \<and> runs (k 0) t {#} {#} tr0 os0 \<and> runs (k pid) t (add_mset (Act tr0 os0) cs) fl tr os)
     | CWait \<Rightarrow>
         if cs = {#} then runs (k (- 1)) t cs fl tr os
         else \<exists>pid tr1 cs1 os1 fl1 tr2. 0 < pid \<and> advance cs fl tr1 (add_mset (Act [] os1) cs1) fl1 \<and>
           runs (k pid) t cs1 (fl1 + os1) tr2 os \<and> tr = tr1 @ tr2
     | COpen path mode \<Rightarrow>
         runs (k (- 1)) t cs fl tr os \<or>
         (case fd_alloc (FileObj path mode) t of (fd, t') \<Rightarrow> 0 \<le> fd \<and> runs (k fd) t' cs fl tr os)
     | CClose fd \<Rightarrow> if fd_get fd t = None then runs (k (- 1)) t cs fl tr os else runs (k 0) (fd_close fd t) cs fl tr os
     | CDup fd \<Rightarrow>
         (case fd_get fd t of
           None \<Rightarrow> runs (k (- 1)) t cs fl tr os
         | Some x \<Rightarrow> (case fd_alloc x t of (r, t') \<Rightarrow> runs (k r) t' cs fl tr os))
     | CWrite fd bs \<Rightarrow> \<exists>r. - 1 \<le> r \<and> r \<le> int (length bs) \<and> runs (k r) t cs fl tr os
     | _ \<Rightarrow> \<exists>r. runs (k r) t cs fl tr os)"
| "runs (Read fd len k) t cs fl tr os =
     (\<exists>r bs. (r = - 1 \<or> r = int (length bs)) \<and> length bs \<le> len \<and> runs (k r bs) t cs fl tr os)"
| "runs (MkPipe k) t cs fl tr os =
     ((\<exists>p0 p1. runs (k (- 1) p0 p1) t cs fl tr os) \<or>
      (\<exists>n. case fd_alloc (PipeR n) t of (p0, t0) \<Rightarrow>
         case fd_alloc (PipeW n) t0 of (p1, t1) \<Rightarrow> 0 \<le> p0 \<and> 0 \<le> p1 \<and> runs (k 0 p0 p1) t1 cs fl tr os))"
| "runs (Stat fd k) t cs fl tr os = (\<exists>r st. runs (k r st) t cs fl tr os)"
| "runs (Peek a k) t cs fl tr os = (\<exists>v. runs (k v) t cs fl tr os)"
| "runs (Poke a v k) t cs fl tr os = runs k t cs fl tr os"
| "runs (Crash e) t cs fl tr os = leaves cs fl tr os"
| "runs Going t cs fl tr os = True"

section \<open>Time\<close>

lemma step_size: "step M e M' \<Longrightarrow> size M' = size M"
  by (induction rule: step.induct) simp_all

lemma step_empty [simp]: "\<not> step {#} e M"
  by (auto elim: step.cases)

lemma advance_size: "advance cs fl tr cs' fl' \<Longrightarrow> size cs' = size cs"
  by (induction rule: advance.induct) (simp_all add: step_size)

lemma advance_append: "advance cs fl tr cs1 fl1 \<Longrightarrow> advance cs1 fl1 tr' cs2 fl2 \<Longrightarrow> advance cs fl (tr @ tr') cs2 fl2"
  by (induction rule: advance.induct) (auto intro: advance.intros)

text \<open>A step of two groups together is a step of one of them.\<close>

lemma step_mono: "step M e M' \<Longrightarrow> step (M + N) e (M' + N)"
  by (induction rule: step.induct) (auto intro: step.intros)

lemma step_union:
  assumes "step (A + B) e M"
  shows "(\<exists>A'. step A e A' \<and> M = A' + B) \<or> (\<exists>B'. step B e B' \<and> M = A + B')"
proof -
  have *: "(\<exists>A'. step A e A' \<and> add_mset y N = A' + B) \<or> (\<exists>B'. step B e B' \<and> add_mset y N = A + B')"
    if n: "A + B = add_mset x N" and s: "\<And>M. step (add_mset x M) e (add_mset y M)" for x y N
  proof -
    have "x \<in># A + B" using n by simp
    then consider "x \<in># A" | "x \<in># B" by auto
    then show ?thesis
    proof cases
      case 1
      then obtain A1 where a: "A = add_mset x A1" by (metis multi_member_split)
      then have "N = A1 + B" using n by simp
      then show ?thesis using a s [of A1] by auto
    next
      case 2
      then obtain B1 where b: "B = add_mset x B1" by (metis multi_member_split)
      then have "N = A + B1" using n by simp
      then show ?thesis using b s [of B1] by auto
    qed
  qed
  from assms show ?thesis
    by cases (use * step_own step_left in blast)+
qed

text \<open>Processes that a child has left behind do the same whether they count as part of the child or not.\<close>

lemma advance_merge:
  assumes "advance cs fl' tr cs' fl2" "fl' = fl + os"
  shows "\<exists>os' fl1. advance (add_mset (Act [] os) cs) fl tr (add_mset (Act [] os') cs') fl1 \<and> fl2 = fl1 + os'"
  using assms
proof (induction arbitrary: fl os rule: advance.induct)
  case (adv_stop cs fl')
  then show ?case by (blast intro: advance.adv_stop)
next
  case (adv_child cs e cs1 fl' tr cs' fl2)
  obtain os' fl1 where a: "advance (add_mset (Act [] os) cs1) fl tr (add_mset (Act [] os') cs') fl1" "fl2 = fl1 + os'"
    using adv_child.IH [OF adv_child.prems] by blast
  have "step (add_mset (Act [] os) cs) e (add_mset (Act [] os) cs1)" using step_mono [OF adv_child.hyps(1), of "{#Act [] os#}"] by simp
  then show ?case using a advance.adv_child by blast
next
  case (adv_float fl' e flx cs tr cs' fl2)
  consider A where "step fl e A" "flx = A + os" | B where "step os e B" "flx = fl + B"
    using step_union [of fl os e flx] adv_float.hyps(1) adv_float.prems by auto
  then show ?case
  proof cases
    case 1
    then show ?thesis using adv_float.IH [of A os] advance.adv_float by blast
  next
    case 2
    then have "step (add_mset (Act [] os) cs) e (add_mset (Act [] B) cs)" by (blast intro: step_left)
    then show ?thesis using adv_float.IH [of fl B] 2(2) advance.adv_child by blast
  qed
qed

end
