(* ===== verification/Shell_Run.thy ===== *)
theory Shell_Run
  imports Shell_Words User
begin

text \<open>
  The shell runs commands (\<^verbatim>\<open>src/sh.c\<close>, \<^verbatim>\<open>runcmd\<close>, \<^verbatim>\<open>getcmd\<close> and \<^verbatim>\<open>main\<close>), as trees of system calls. The meaning of a
  command is an abstract specification: which programs it may start, with what standard input,
  output and error, in what order, and what happens when a call fails. The refinement shows that the calls of \<^verbatim>\<open>fork\<close>, \<^verbatim>\<open>wait\<close>, \<^verbatim>\<open>pipe\<close>, \<^verbatim>\<open>dup\<close>,
  \<^verbatim>\<open>open\<close>, \<^verbatim>\<open>close\<close> and \<^verbatim>\<open>exec\<close> have exactly these behaviours, with no other descriptor left open in any program.
\<close>

section \<open>Running a command\<close>

definition sh_panic :: "u8 list \<Rightarrow> prog" where
  "sh_panic msg = uprint 2 (chars ''%s'' @ [nl_char]) [UStr (Some msg)] Exit"

definition fork1 :: "(int \<Rightarrow> prog) \<Rightarrow> prog" where
  "fork1 k = Call CFork (\<lambda>pid. if pid = - 1 then sh_panic (chars ''fork'') else k pid)"

text \<open>\<open>buf\<close> is the buffer that the pointers of the command refer to. No branch returns.\<close>

primrec runcmd :: "u8 list \<Rightarrow> cmd \<Rightarrow> prog" where
  "runcmd buf (EXEC args) =
     (case args of
       [] \<Rightarrow> Exit
     | a # _ \<Rightarrow> Exec (string_at buf (fst a)) (map (\<lambda>a. string_at buf (fst a)) args)
         (uprint 2 (chars ''exec %s failed'' @ [nl_char]) [UStr (Some (string_at buf (fst a)))] Exit))"
| "runcmd buf (REDIR c q eq mode fd) =
     Call (CClose fd) (\<lambda>_. Call (COpen (string_at buf q) mode) (\<lambda>r.
       if r < 0 then uprint 2 (chars ''open %s failed'' @ [nl_char]) [UStr (Some (string_at buf q))] Exit
       else runcmd buf c))"
| "runcmd buf (LIST l r) =
     fork1 (\<lambda>pid. if pid = 0 then runcmd buf l else Call CWait (\<lambda>_. runcmd buf r))"
| "runcmd buf (PIPE l r) =
     MkPipe (\<lambda>res p0 p1. if res < 0 then sh_panic (chars ''pipe'') else
       fork1 (\<lambda>pid. if pid = 0 then
           Call (CClose 1) (\<lambda>_. Call (CDup p1) (\<lambda>_. Call (CClose p0) (\<lambda>_. Call (CClose p1) (\<lambda>_. runcmd buf l))))
         else fork1 (\<lambda>pid. if pid = 0 then
           Call (CClose 0) (\<lambda>_. Call (CDup p0) (\<lambda>_. Call (CClose p0) (\<lambda>_. Call (CClose p1) (\<lambda>_. runcmd buf r))))
         else Call (CClose p0) (\<lambda>_. Call (CClose p1) (\<lambda>_. Call CWait (\<lambda>_. Call CWait (\<lambda>_. Exit)))))))"
| "runcmd buf (BACK c) = fork1 (\<lambda>pid. if pid = 0 then runcmd buf c else Exit)"

section \<open>The main loop\<close>








section \<open>What a command means\<close>

definition std_fds :: "obj \<Rightarrow> obj \<Rightarrow> obj \<Rightarrow> fdtable" where
  "std_fds i out e = Some i # Some out # Some e # replicate 13 None"

text \<open>
  The events of a command \<open>c\<close> with standard input \<open>i\<close>, output \<open>out\<close> and error \<open>e\<close>, and what it leaves behind, while the processes
  \<open>fl\<close> are around. \<open>leaves {#} fl tr os\<close> is a command that starts nothing (more).

  \<^item> A simple command starts its program, with exactly the descriptors 0, 1 and 2, and ends with it; or the program cannot be
    started. The empty command starts nothing.
  \<^item> A redirection is the command with the file in place of its input or output; if the file cannot be opened, nothing is started.
  \<^item> In a list, the second command begins when the first has ended.
  \<^item> The two sides of a pipe run at the same time, connected by one pipe, and the command ends when both have ended. If only the
    first of the two processes can be made, the command ends without waiting for it.
  \<^item> A background command goes on after the command that started it has ended.
\<close>

primrec means :: "scmd \<Rightarrow> obj \<Rightarrow> obj \<Rightarrow> obj \<Rightarrow> beh multiset \<Rightarrow> event list \<Rightarrow> beh multiset \<Rightarrow> bool" where
  "means (SExec ws) i out e fl tr os =
     (leaves {#} fl tr os \<or>
      ws \<noteq> [] \<and> (\<exists>tr1 fl1 tr2. advance {#} fl tr1 {#} fl1 \<and> leaves {#} fl1 tr2 os \<and>
        tr = tr1 @ Start (ws, std_fds i out e) # tr2 @ [End (ws, std_fds i out e)]))"
| "means (SRedir c f w) i out e fl tr os =
     (leaves {#} fl tr os \<or>
      (let x = FileObj f (redir_mode w) in
       if w then means c i x e fl tr os else means c x out e fl tr os))"
| "means (SPipe a b) i out e fl tr os =
     (leaves {#} fl tr os \<or>
      (\<exists>n tra osa. means a i (PipeW n) e {#} tra osa \<and>
        (leaves {#Act tra osa#} fl tr os \<or>
         (\<exists>trb osb osa' osb' fl'. means b (PipeR n) out e {#} trb osb \<and>
            advance {#Act tra osa, Act trb osb#} fl tr {#Act [] osa', Act [] osb'#} fl' \<and> os = osa' + osb' + fl'))))"
| "means (SList a b) i out e fl tr os =
     (leaves {#} fl tr os \<or>
      (\<exists>tra osa tr1 osa' fl1 tr2. means a i out e {#} tra osa \<and> advance {#Act tra osa#} fl tr1 {#Act [] osa'#} fl1 \<and>
        means b i out e (fl1 + osa') tr2 os \<and> tr = tr1 @ tr2))"
| "means (SBack c) i out e fl tr os =
     (leaves {#} fl tr os \<or> (\<exists>trc osc. means c i out e {#} trc osc \<and> leaves {#Act trc osc#} fl tr os))"

section \<open>The shell does what the command means\<close>

lemma runs_uprint [simp]: "runs (uprint fd fmt args Exit) t cs fl tr os = leaves cs fl tr os"
proof -
  have "\<exists>r. - 1 \<le> r \<and> r \<le> int (length (bs :: u8 list))" for bs by (rule exI [of _ 0]) simp
  then show ?thesis by (auto simp: uprint_def split: sum.split)
qed

lemma runs_panic [simp]: "runs (sh_panic msg) t cs fl tr os = leaves cs fl tr os"
  by (simp add: sh_panic_def)

text \<open>A process that cannot fork ends; otherwise a child and the parent go on.\<close>

lemma runs_fork1:
  "runs (fork1 (\<lambda>pid. if pid = 0 then p else q)) t cs fl tr os =
     (leaves cs fl tr os \<or> (\<exists>tr0 os0. runs p t {#} {#} tr0 os0 \<and> runs q t (add_mset (Act tr0 os0) cs) fl tr os))"
  (is "?l = ?r")
proof
  assume ?l
  then show ?r by (auto simp: fork1_def split: if_splits)
next
  assume ?r
  then show ?l
  proof
    assume "\<exists>tr0 os0. runs p t {#} {#} tr0 os0 \<and> runs q t (add_mset (Act tr0 os0) cs) fl tr os"
    then have "\<exists>pid tr0 os0. (0 :: int) < pid \<and> runs p t {#} {#} tr0 os0 \<and>
        runs (if pid = - 1 then sh_panic (chars ''fork'') else if pid = 0 then p else q) t (add_mset (Act tr0 os0) cs) fl tr os"
      by (intro exI [of _ 1]) simp
    then show ?l by (simp add: fork1_def)
  qed (simp add: fork1_def)
qed

text \<open>Waiting for an only child.\<close>

lemma advance_single:
  assumes "advance {#x#} fl tr (add_mset y cs') fl'"
  shows "cs' = {#}"
  using advance_size [OF assms] by simp

lemma runs_wait1:
  "runs (Call CWait (\<lambda>_. q)) t {#x#} fl tr os =
     (\<exists>tr1 os1 fl1 tr2. advance {#x#} fl tr1 {#Act [] os1#} fl1 \<and> runs q t {#} (fl1 + os1) tr2 os \<and> tr = tr1 @ tr2)"
  (is "?l = ?r")
proof
  assume ?l
  then obtain tr1 cs1 os1 fl1 tr2 where "advance {#x#} fl tr1 (add_mset (Act [] os1) cs1) fl1"
    "runs q t cs1 (fl1 + os1) tr2 os" "tr = tr1 @ tr2" by auto
  moreover from this(1) have "cs1 = {#}" by (rule advance_single)
  ultimately show ?r by blast
next
  assume ?r
  then show ?l by (simp add: exI [of "\<lambda>x. (0 :: int) < x" 1]) blast
qed

text \<open>Waiting for two children, and ending.\<close>

lemma advance_none: "advance {#} fl tr cs' fl' \<Longrightarrow> cs' = {#}"
  by (drule advance_size) simp

lemma runs_wait2:
  "runs (Call CWait (\<lambda>_. Call CWait (\<lambda>_. Exit))) t {#x, y#} fl tr os =
     (\<exists>osx osy fl'. advance {#x, y#} fl tr {#Act [] osx, Act [] osy#} fl' \<and> os = osx + osy + fl')"
  (is "?l = ?r")
proof
  assume ?l
  then obtain tr1 cs1 os1 fl1 tr2 where 1: "advance {#x, y#} fl tr1 (add_mset (Act [] os1) cs1) fl1"
    "runs (Call CWait (\<lambda>_. Exit)) t cs1 (fl1 + os1) tr2 os" "tr = tr1 @ tr2" by auto
  have "size cs1 = Suc 0" using advance_size [OF 1(1)] by simp
  then obtain z where z: "cs1 = {#z#}" by (metis size_1_singleton_mset One_nat_def)
  then obtain tr3 os2 fl2 tr4 where 2: "advance {#z#} (fl1 + os1) tr3 {#Act [] os2#} fl2" "leaves {#} (fl2 + os2) tr4 os" "tr2 = tr3 @ tr4"
    using 1(2) runs_wait1 [of Exit t z "fl1 + os1" tr2 os] by auto
  obtain fl3 where 3: "advance {#} (fl2 + os2) tr4 {#} fl3" "os = fl3"
    using 2(2) unfolding leaves_def by (metis advance_none empty_neutral(1))
  from advance_merge [OF 2(1) refl] obtain a fla where 4: "advance {#Act [] os1, z#} fl1 tr3 {#Act [] a, Act [] os2#} fla" "fl2 = fla + a"
    by (auto simp: add_mset_commute)
  from advance_merge [OF 3(1) refl] obtain b flb where 5: "advance {#Act [] os2#} fl2 tr4 {#Act [] b#} flb" "fl3 = flb + b" by blast
  from advance_merge [OF 5(1) 4(2)] obtain c flc where 6: "advance {#Act [] a, Act [] os2#} fla tr4 {#Act [] c, Act [] b#} flc" "flb = flc + c"
    by blast
  have "advance {#x, y#} fl (tr1 @ tr3 @ tr4) {#Act [] c, Act [] b#} flc"
    using advance_append [OF 1(1) advance_append [OF 4(1) [folded z] 6(1)]] z by simp
  then show ?r using 1(3) 2(3) 3(2) 5(2) 6(2) by (intro exI [of _ c] exI [of _ b] exI [of _ flc]) (simp add: ac_simps)
next
  assume ?r
  then obtain osx osy fl' where 1: "advance {#x, y#} fl tr {#Act [] osx, Act [] osy#} fl'" "os = osx + osy + fl'" by blast
  have "runs (Call CWait (\<lambda>_. Exit)) t {#Act [] osy#} (fl' + osx) [] os"
    using 1(2) unfolding runs_wait1 by (auto simp: leaves_def ac_simps intro!: exI adv_stop)
  then have "\<exists>pid tr1 cs1 os1 fl1 tr2. (0 :: int) < pid \<and> advance {#x, y#} fl tr1 (add_mset (Act [] os1) cs1) fl1 \<and>
      runs (Call CWait (\<lambda>_. Exit)) t cs1 (fl1 + os1) tr2 os \<and> tr = tr1 @ tr2"
    using 1(1) by (intro exI [of _ 1] exI [of _ tr] exI [of _ "{#Act [] osy#}"] exI [of _ osx] exI [of _ fl'] exI [of _ "[]"]) (simp del: runs.simps)
  then show ?l by (subst runs.simps) (simp del: runs.simps)
qed

lemmas fd_ops = fd_alloc_def fd_get_def fd_close_def std_fds_def

lemma replicate_13: "replicate 13 x = x # x # replicate 11 x"
  by (simp add: numeral_eq_Suc)

text \<open>What the calls of a redirection and of the two sides of a pipe leave in the table.\<close>

lemma std_redir:
  "fd_get 0 (std_fds i out e) = Some i" "fd_get 1 (std_fds i out e) = Some out"
  "fd_alloc x (fd_close 0 (std_fds i out e)) = (0, std_fds x out e)"
  "fd_alloc x (fd_close 1 (std_fds i out e)) = (1, std_fds i x e)"
  by (simp_all add: fd_ops)

definition piped :: "nat \<Rightarrow> obj \<Rightarrow> obj \<Rightarrow> obj \<Rightarrow> fdtable" where
  "piped n i out e = Some i # Some out # Some e # Some (PipeR n) # Some (PipeW n) # replicate 11 None"

lemma std_pipe:
  "fd_alloc (PipeR n) (std_fds i out e) = (3, (std_fds i out e)[3 := Some (PipeR n)])"
  "fd_alloc (PipeW n) ((std_fds i out e)[3 := Some (PipeR n)]) = (4, piped n i out e)"
  by (simp_all add: fd_ops piped_def replicate_13 numeral_eq_Suc)

text \<open>The calls between the forks of a pipe: one side, the other side, and the parent.\<close>

lemma pipe_left:
  "runs (Call (CClose 1) (\<lambda>_. Call (CDup 4) (\<lambda>_. Call (CClose 3) (\<lambda>_. Call (CClose 4) (\<lambda>_. p))))) (piped n i out e) cs fl tr os =
   runs p (std_fds i (PipeW n) e) cs fl tr os"
  by (simp add: fd_ops piped_def replicate_13 numeral_eq_Suc)

lemma pipe_right:
  "runs (Call (CClose 0) (\<lambda>_. Call (CDup 3) (\<lambda>_. Call (CClose 3) (\<lambda>_. Call (CClose 4) (\<lambda>_. p))))) (piped n i out e) cs fl tr os =
   runs p (std_fds (PipeR n) out e) cs fl tr os"
  by (simp add: fd_ops piped_def replicate_13 numeral_eq_Suc)

lemma pipe_parent:
  "runs (Call (CClose 3) (\<lambda>_. Call (CClose 4) (\<lambda>_. p))) (piped n i out e) cs fl tr os = runs p (std_fds i out e) cs fl tr os"
  by (simp add: fd_ops piped_def replicate_13 numeral_eq_Suc)

lemma runs_mkpipe:
  "runs (MkPipe (\<lambda>res p0 p1. if res < 0 then sh_panic m else k p0 p1)) (std_fds i out e) cs fl tr os =
     (leaves cs fl tr os \<or> (\<exists>n. runs (k 3 4) (piped n i out e) cs fl tr os))"
  by (simp add: std_pipe)

lemma runs_redir:
  assumes "fd = 0 \<or> fd = 1"
  shows "runs (Call (CClose fd) (\<lambda>_. Call (COpen path mode) (\<lambda>r. if r < 0 then uprint g fmt args Exit else p))) (std_fds i out e) cs fl tr os =
     (leaves cs fl tr os \<or>
      runs p (if fd = 1 then std_fds i (FileObj path mode) e else std_fds (FileObj path mode) out e) cs fl tr os)"
  using assms by (auto simp: std_redir)

text \<open>The command, whose pointers are strings of the buffer, does what it means.\<close>

lemma runcmd_means:
  "list_all (\<lambda>(q, eq). string_at buf q = token_string q eq) (tokens c) \<Longrightarrow> shape_ok c \<Longrightarrow>
   runs (runcmd buf c) (std_fds i out e) {#} fl tr os = means (sem c) i out e fl tr os"
proof (induction c arbitrary: i out e fl tr os)
  case (EXEC args)
  have m: "map (\<lambda>a. string_at buf (fst a)) args = map (\<lambda>(q, eq). token_string q eq) args"
    using EXEC.prems(1) by (auto simp: list_all_iff)
  have none: "cs1 = {#}" if "advance {#} fl tr1 cs1 fl1" for tr1 cs1 fl1 using that by (rule advance_none)
  show ?case
  proof (cases args)
    case (Cons a as)
    then show ?thesis unfolding runcmd.simps Cons list.case sem.simps means.simps m [unfolded Cons] runs.simps runs_uprint
      by (auto dest: none)
  qed simp
next
  case (REDIR c q eq mode fd)
  then have q: "string_at buf q = token_string q eq" "list_all (\<lambda>(q, eq). string_at buf q = token_string q eq) (tokens c)"
    "shape_ok c" "mode = redir_mode (fd = 1)" "fd = 0 \<or> fd = 1" by (auto simp: redir_ok_def)
  show ?case unfolding runcmd.simps runs_redir [OF q(5)] using REDIR.IH [OF q(2,3)] q(1,4) by (simp add: Let_def)
next
  case (PIPE l r)
  have l: "runs (runcmd buf l) (std_fds i out e) {#} fl tr os = means (sem l) i out e fl tr os"
    and r: "runs (runcmd buf r) (std_fds i out e) {#} fl tr os = means (sem r) i out e fl tr os" for i out e fl tr os
    using PIPE by simp_all
  show ?case
    unfolding runcmd.simps runs_mkpipe runs_fork1 pipe_left pipe_right pipe_parent runs_wait2 l r sem.simps means.simps
    by (auto simp: add_mset_commute)
next
  case (LIST l r)
  then show ?case unfolding runcmd.simps runs_fork1 runs_wait1 by (simp del: runs.simps)
next
  case (BACK c)
  then show ?case unfolding runcmd.simps runs_fork1 by simp
qed

section \<open>A session\<close>

definition con :: obj where "con = FileObj (chars ''console'') O_RDWR"











lemma runcmd_parsed:
  assumes "parsecmd s = Inr (c, buf)" "0 \<notin> set s"
  shows "runs (runcmd buf c) (std_fds i out e) {#} fl tr os = means (sem c) i out e fl tr os"
  using runcmd_means parsecmd_strings [OF assms] parsecmd_words(2) [OF assms] by (fastforce simp: list_all_iff)






text \<open>
  C7. Refinement: a parsed command can show exactly the behaviours that its abstract meaning allows, whatever system calls fail
  and however the processes interleave. Each program starts with the words of the line as its arguments and with exactly the
  descriptors 0, 1 and 2 open: a redirection replaces the standard input or output, the two sides of a pipe hold the ends of one
  pipe, and no other descriptor leaks into a program. If a file cannot be opened or a pipe or a process cannot be made, nothing
  more is started in that part of the command. The second command of a list starts after the first has ended, the two sides of a pipe
  run at the same time and the pipe ends with both, and a background command is left running. (Runs in which every started
  program ends and no process is killed.)
\<close>

theorem runcmd_refines:
  assumes "parsecmd s = Inr (c, buf)" "0 \<notin> set s"
  shows "runs (runcmd buf c) (std_fds i out e) {#} fl tr os \<longleftrightarrow> means (sem c) i out e fl tr os"
  using runcmd_parsed [OF assms] .

text \<open>Witness: both sides of \<^verbatim>\<open>a|b\<close> run at the same time.\<close>

lemma leaves_now: "leaves {#} {#} [] {#}"
  unfolding leaves_def by (intro exI [of _ "{#}"] conjI adv_stop) simp

lemma means_program:
  assumes "ws \<noteq> []"
  shows "means (SExec ws) i out e {#} [Start (ws, std_fds i out e), End (ws, std_fds i out e)] {#}"
  unfolding means.simps
  by (rule disjI2, rule conjI [OF assms], rule exI [of _ "[]"], rule exI [of _ "{#}"], rule exI [of _ "[]"]) (simp add: leaves_now adv_stop)

lemma step_second: "step {#x, Act (e # tr) os#} e {#x, Act tr os#}"
  using step_own [of e tr os "{#x#}"] by (simp add: add_mset_commute)

lemma advance_both: "advance {#Act [a, c] {#}, Act [b, d] {#}#} {#} [a, b, c, d] {#Act [] {#}, Act [] {#}#} {#}"
  by (rule adv_child [OF step_own], rule adv_child [OF step_second], rule adv_child [OF step_own], rule adv_child [OF step_second], rule adv_stop)

theorem runcmd_refines_witness:
  "let A = ([[0x61]], std_fds con (PipeW 0) con); B = ([[0x62]], std_fds (PipeR 0) con con) in
   runs (runcmd [0x61, 0, 0x62, 0] (PIPE (EXEC [([0x61, 0x7c, 0x62], [0x7c, 0x62])]) (EXEC [([0x62], [])]))) (std_fds con con con)
     {#} {#} [Start A, Start B, End A, End B] {#}"
proof -
  let ?c = "PIPE (EXEC [([0x61, 0x7c, 0x62], [0x7c, 0x62])]) (EXEC [([0x62], [])])"
  have p: "parsecmd [0x61, 0x7c, 0x62] = Inr (?c, [0x61, 0, 0x62, 0])" by code_simp
  have z: "(0 :: u8) \<notin> set [0x61, 0x7c, 0x62]" by simp
  have s: "sem ?c = SPipe (SExec [[0x61]]) (SExec [[0x62]])" by (simp add: token_string_def)
  have a: "means (SExec [[0x61]]) con (PipeW 0) con {#} [Start ([[0x61]], std_fds con (PipeW 0) con), End ([[0x61]], std_fds con (PipeW 0) con)] {#}"
    "means (SExec [[0x62]]) (PipeR 0) con con {#} [Start ([[0x62]], std_fds (PipeR 0) con con), End ([[0x62]], std_fds (PipeR 0) con con)] {#}"
    by (rule means_program, simp)+
  show ?thesis
    unfolding Let_def runcmd_refines [OF p z] s means.simps(3)
    by (rule disjI2, rule exI [of _ 0], rule exI, rule exI, rule conjI [OF a(1)], rule disjI2, rule exI, rule exI, rule exI [of _ "{#}"], rule exI [of _ "{#}"], rule exI [of _ "{#}"], rule conjI [OF a(2)])
      (simp add: advance_both)
qed




end
