(* ===== verification/Syscall_Args.thy ===== *)
theory Syscall_Args
  imports Syscall
begin

text \<open>The bounds check of pointer arguments (\<^verbatim>\<open>argptr\<close> of \<^verbatim>\<open>src/syscall.c\<close>), read as arithmetic on integers.\<close>

lemma argptr_sum:
  fixes i len size :: u32
  assumes "size \<le> USERTOP" "i < size"
  shows "i + len < size \<longleftrightarrow> 0 \<le> uint i + sint len \<and> uint i + sint len < uint size"
proof -
  let ?k = "uint i + sint len"
  have sz: "uint size \<le> 2 ^ 31" "uint i < uint size" using assms by (simp_all add: USERTOP_def word_le_def word_less_def)
  have r: "- (2 ^ 31) \<le> sint len" "sint len < 2 ^ 31" using sint_ge [of len] sint_less [of len] by simp_all
  have len: "uint len = sint len mod 2 ^ 32" using uint_sint [of len] by (simp add: take_bit_eq_mod)
  have sum: "uint (i + len) = ?k mod 2 ^ 32" by (simp add: uint_word_ariths len mod_simps)
  show ?thesis
  proof (cases "0 \<le> ?k")
    case True
    then have "?k mod 2 ^ 32 = ?k" using sz r by (intro mod_pos_pos_trivial) auto
    then show ?thesis using True sum by (simp add: word_less_def)
  next
    case False
    have b: "- 2147483648 \<le> sint len" "uint size \<le> 2147483648" using r(1) sz(1) by simp_all
    then have k: "- 2147483648 \<le> ?k" using uint_ge_0 [of i] by linarith
    have "?k mod 4294967296 = (?k + 4294967296) mod 4294967296" by simp
    also have "\<dots> = ?k + 4294967296" using k False by (intro mod_pos_pos_trivial) linarith+
    finally have "uint (i + len) = ?k + 4294967296" using sum by simp
    then have "uint size \<le> uint (i + len)" using b(2) k by linarith
    then show ?thesis using False by (simp add: word_less_def)
  qed
qed

text \<open>
  C36. \<^verbatim>\<open>argptr\<close> accepts a pointer \<open>i\<close> and a signed length exactly when \<open>i\<close> and \<open>i + len\<close> both lie below the size of the
  process, computed without wrap-around. So for a length of zero or more the whole buffer is inside the process (a buffer
  that ends exactly at the size is refused); but a negative length is accepted as long as it does not lead below address 0.
\<close>

theorem argptr_bounds:
  assumes "argint n s = Inr (Some i)" "curproc s = Some me" "sz (ptable s ! me) \<le> USERTOP"
  shows "argptr n len s = Inr (if unat i < unat (sz (ptable s ! me)) \<and> 0 \<le> int (unat i) + sint len \<and> int (unat i) + sint len < int (unat (sz (ptable s ! me)))
    then Some i else None)"
proof (cases "i < sz (ptable s ! me)")
  case True
  then show ?thesis using assms argptr_sum [OF assms(3) True, of len]
    by (auto simp: argptr_def myproc_def word_less_nat_alt word_le_nat_alt not_le)
next
  case False
  then show ?thesis using assms by (simp add: argptr_def myproc_def word_less_nat_alt word_le_nat_alt not_less)
qed

text \<open>Witness: in a process of one page, a buffer of minus one byte at address 1.\<close>

definition arg_demo :: ksys where
  "arg_demo = kbio.extend (zero_kbio\<lparr>curproc := Some 0, ptable := [zero_proc\<lparr>sz := 4096\<rparr>]\<rparr>)
     \<lparr>icache = [], pipes = (\<lambda>_. \<lparr>pdata = [], nread = 0, nwrite = 0, readopen = False, writeopen = False\<rparr>), ftable = [],
      ibuf = [], in_r = 0, in_w = 0, in_e = 0, cons_locking = False, panicked = False, serial = [],
      bank = (\<lambda>_. 1), pr_reg = 0, ticks = 0\<rparr>"

theorem argptr_bounds_witness: "argptr 1 (- 1) arg_demo = Inr (Some 1)"
proof -
  have "argint 1 arg_demo = Inr (Some 1)" "curproc arg_demo = Some 0" "sz (ptable arg_demo ! 0) = 4096"
    by (simp_all add: argint_def arg_demo_def kbio.defs)
  then show ?thesis using argptr_bounds [of 1 arg_demo 1 0 "- 1"] by (simp add: USERTOP_def)
qed

end
