(* ===== verification/Umalloc.thy ===== *)
theory Umalloc
  imports Prelude "HOL-Library.Monad_Syntax"
begin

text \<open>
  The memory allocator of user programs (\<^verbatim>\<open>src/umalloc.c\<close>). The free blocks form a circular list in
  address order, threaded through the headers; the static header \<^verbatim>\<open>base\<close> is part of it. A header is found
  under its address. The loops have no bound in the source: they are partial functions, and \<open>None\<close> is a
  loop that never ends. The lemmas show that the list stays a list of disjoint blocks that never touch,
  that the loops end, and that memory is neither lost nor given out twice.
\<close>

section \<open>The heap\<close>

text \<open>
  \<open>brk\<close> is the end of the process memory. \<^verbatim>\<open>sbrk\<close> takes a signed number of bytes (\<^verbatim>\<open>int\<close> in \<^verbatim>\<open>src/user.h\<close>); \<open>sbrk\<close> is its effect on the
  break as \<^verbatim>\<open>sys_sbrk\<close> and \<^verbatim>\<open>growproc\<close> have it. Whether the kernel (\<^verbatim>\<open>allocuvm\<close>) lets the memory grow from an address by a positive number
  of bytes is the parameter \<open>grow\<close> of the operations that call \<^verbatim>\<open>sbrk\<close>. For a negative number the kernel shrinks the memory
  and returns the old break, as on success; \<^verbatim>\<open>deallocuvm\<close> leaves the size as it is when the new size, computed modulo \<open>2^32\<close>,
  is not smaller, and shrinking to no memory at all is an error.
\<close>

record heap =
  hptr :: "u32 \<Rightarrow> u32"
  hsize :: "u32 \<Rightarrow> u32"
  freep :: u32
  base :: u32
  brk :: u32

definition HDR :: u32 where "HDR = 8"

definition sbrk :: "(u32 \<Rightarrow> u32 \<Rightarrow> bool) \<Rightarrow> u32 \<Rightarrow> heap \<Rightarrow> u32 \<times> heap" where
  "sbrk grow n s =
     (if sint n > 0 then (if grow (brk s) n then (brk s, s\<lparr>brk := brk s + n\<rparr>) else (- 1, s))
      else if sint n < 0 then
        (let size = (if brk s + n \<ge> brk s then brk s else brk s + n) in
         if size = 0 then (- 1, s) else (brk s, s\<lparr>brk := size\<rparr>))
      else (brk s, s))"

section \<open>Operations\<close>

text \<open>The conditions that end the loop of \<^verbatim>\<open>free\<close> at \<open>p\<close>.\<close>

definition free_stop :: "heap \<Rightarrow> u32 \<Rightarrow> u32 \<Rightarrow> bool" where
  "free_stop s bp p \<longleftrightarrow>
     bp > p \<and> bp < hptr s p \<or> p \<ge> hptr s p \<and> (bp > p \<or> bp < hptr s p)"

partial_function (option) free_find :: "heap \<Rightarrow> u32 \<Rightarrow> u32 \<Rightarrow> u32 option" where
  "free_find s bp p = (if free_stop s bp p then Some p else free_find s bp (hptr s p))"

definition join_next :: "u32 \<Rightarrow> u32 \<Rightarrow> heap \<Rightarrow> heap" where
  "join_next bp p s =
     (if bp + HDR * hsize s bp = hptr s p
      then s\<lparr>hsize := (hsize s)(bp := hsize s bp + hsize s (hptr s p)),
             hptr := (hptr s)(bp := hptr s (hptr s p))\<rparr>
      else s\<lparr>hptr := (hptr s)(bp := hptr s p)\<rparr>)"

definition join_prev :: "u32 \<Rightarrow> u32 \<Rightarrow> heap \<Rightarrow> heap" where
  "join_prev bp p s =
     (if p + HDR * hsize s p = bp
      then s\<lparr>hsize := (hsize s)(p := hsize s p + hsize s bp), hptr := (hptr s)(p := hptr s bp)\<rparr>
      else s\<lparr>hptr := (hptr s)(p := bp)\<rparr>)"

definition ufree :: "u32 \<Rightarrow> heap \<Rightarrow> heap option" where
  "ufree ap s =
     (let bp = ap - HDR in
      do {
        p \<leftarrow> free_find s bp (freep s);
        Some ((join_prev bp p (join_next bp p s))\<lparr>freep := p\<rparr>)
      })"

definition morecore :: "(u32 \<Rightarrow> u32 \<Rightarrow> bool) \<Rightarrow> u32 \<Rightarrow> heap \<Rightarrow> (u32 \<times> heap) option" where
  "morecore grow nu s =
     (let nu = (if nu < 4096 then 4096 else nu) in
      case sbrk grow (nu * HDR) s of (p, s) \<Rightarrow>
      if p = - 1 then Some (0, s)
      else do {
        s \<leftarrow> ufree (p + HDR) (s\<lparr>hsize := (hsize s)(p := nu)\<rparr>);
        Some (freep s, s)
      })"

text \<open>What \<^verbatim>\<open>malloc\<close> does with the block \<open>p\<close> that is large enough; the tail of a larger block is handed out.\<close>

definition take_block :: "u32 \<Rightarrow> u32 \<Rightarrow> u32 \<Rightarrow> heap \<Rightarrow> u32 \<times> heap" where
  "take_block nunits prevp p s =
     (if hsize s p = nunits
      then (p + HDR, s\<lparr>hptr := (hptr s)(prevp := hptr s p), freep := prevp\<rparr>)
      else let n = hsize s p - nunits; q = p + HDR * n in
        (q + HDR, s\<lparr>hsize := (hsize s)(p := n, q := nunits), freep := prevp\<rparr>))"

partial_function (option) malloc_loop ::
  "(u32 \<Rightarrow> u32 \<Rightarrow> bool) \<Rightarrow> u32 \<Rightarrow> u32 \<Rightarrow> u32 \<Rightarrow> heap \<Rightarrow> (u32 \<times> heap) option" where
  "malloc_loop grow nunits prevp p s =
     (if hsize s p \<ge> nunits then Some (take_block nunits prevp p s)
      else if p = freep s then do {
        (p, s) \<leftarrow> morecore grow nunits s;
        if p = 0 then Some (0, s) else malloc_loop grow nunits p (hptr s p) s
      }
      else malloc_loop grow nunits p (hptr s p) s)"

definition units :: "u32 \<Rightarrow> u32" where
  "units nbytes = (nbytes + HDR - 1) div HDR + 1"

definition malloc :: "(u32 \<Rightarrow> u32 \<Rightarrow> bool) \<Rightarrow> u32 \<Rightarrow> heap \<Rightarrow> (u32 \<times> heap) option" where
  "malloc grow nbytes s =
     (let s = (if freep s = 0
               then s\<lparr>freep := base s, hptr := (hptr s)(base s := base s), hsize := (hsize s)(base s := 0)\<rparr>
               else s) in
      malloc_loop grow (units nbytes) (freep s) (hptr s (freep s)) s)"

section \<open>The invariant\<close>

text \<open>\<open>circ f xs\<close>: following \<open>f\<close> goes once round the nodes \<open>xs\<close>.\<close>

definition circ :: "('a \<Rightarrow> 'a) \<Rightarrow> 'a list \<Rightarrow> bool" where
  "circ f xs \<longleftrightarrow> map f xs = tl xs @ [hd xs]"

definition bytes :: "u32 \<Rightarrow> u32 \<Rightarrow> nat set" where
  "bytes a n = {unat a ..< unat a + 8 * unat n}"

definition free_bytes :: "heap \<Rightarrow> u32 list \<Rightarrow> nat set" where
  "free_bytes s xs = (\<Union>a\<in>set xs. bytes a (hsize s a))"

definition before :: "heap \<Rightarrow> u32 \<Rightarrow> u32 \<Rightarrow> bool" where
  "before s a b \<longleftrightarrow> unat a + 8 * unat (hsize s a) < unat b"

definition free_list :: "nat \<Rightarrow> heap \<Rightarrow> u32 list \<Rightarrow> bool" where
  "free_list lo s xs \<longleftrightarrow>
     circ (hptr s) (base s # xs) \<and> sorted_wrt (before s) (base s # xs) \<and>
     hsize s (base s) = 0 \<and> freep s \<in> set (base s # xs) \<and> base s \<noteq> 0 \<and> unat (base s) < lo \<and> lo \<le> unat (brk s) \<and>
     (\<forall>a\<in>set xs. 0 < unat (hsize s a) \<and> lo \<le> unat a \<and> unat a + 8 * unat (hsize s a) \<le> unat (brk s))"

text \<open>The blocks \<open>A\<close> that the program owns, as pairs of header address and size.\<close>

definition owned :: "(u32 \<times> u32) set \<Rightarrow> heap \<Rightarrow> bool" where
  "owned A s \<longleftrightarrow>
     (\<forall>(b, n)\<in>A. hsize s b = n \<and> 0 < unat n) \<and>
     (\<forall>x\<in>A. \<forall>y\<in>A. x \<noteq> y \<longrightarrow> bytes (fst x) (snd x) \<inter> bytes (fst y) (snd y) = {})"

definition owned_bytes :: "(u32 \<times> u32) set \<Rightarrow> nat set" where
  "owned_bytes A = (\<Union>(b, n)\<in>A. bytes b n)"

text \<open>Every byte between \<open>lo\<close> and the break is either free or in exactly one owned block.\<close>

definition heap_ok :: "nat \<Rightarrow> heap \<Rightarrow> u32 list \<Rightarrow> (u32 \<times> u32) set \<Rightarrow> bool" where
  "heap_ok lo s xs A \<longleftrightarrow>
     free_list lo s xs \<and> owned A s \<and> free_bytes s xs \<inter> owned_bytes A = {} \<and>
     free_bytes s xs \<union> owned_bytes A = {lo ..< unat (brk s)}"

section \<open>Walking the list\<close>

lemma circ_split:
  "circ f (ys @ p # zs) \<longleftrightarrow> map f ys = tl (ys @ [p]) \<and> f p # map f zs = zs @ [hd (ys @ [p])]"
proof (cases ys)
  case (Cons a l)
  have "map f (a # l) @ f p # map f zs = (l @ [p]) @ zs @ [a] \<longleftrightarrow>
      map f (a # l) = l @ [p] \<and> f p # map f zs = zs @ [a]" by (rule append_eq_append_conv) simp
  then show ?thesis using Cons by (simp add: circ_def)
qed (simp add: circ_def)

lemma circ_next: "circ f (ys @ p # zs) \<Longrightarrow> f p = hd (zs @ [hd (ys @ [p])])"
  by (cases zs) (auto simp: circ_split)

lemma circ_rotate: "circ f (ys @ zs) \<Longrightarrow> circ f (zs @ ys)"
proof (cases "ys = [] \<or> zs = []")
  case False
  assume c: "circ f (ys @ zs)"
  obtain a l b m where "ys = a # l" "zs = b # m" using False by (meson neq_Nil_conv)
  then show ?thesis using c circ_split [of f "a # l" b m] circ_split [of f "b # m" a l] by simp
qed auto

lemma circ_inj: "circ f xs \<Longrightarrow> distinct xs \<Longrightarrow> x \<in> set xs \<Longrightarrow> y \<in> set xs \<Longrightarrow> f x = f y \<Longrightarrow> x = y"
proof -
  assume a: "circ f xs" "distinct xs" "x \<in> set xs" "y \<in> set xs" "f x = f y"
  then have "distinct (map f xs)" by (cases xs) (auto simp: circ_def)
  then show ?thesis using a by (auto simp: distinct_map inj_on_def)
qed

lemma sorted_distinct: "sorted_wrt (before s) xs \<Longrightarrow> distinct xs"
  by (induction xs) (auto simp: before_def)

text \<open>The loop of \<^verbatim>\<open>free\<close> passes nodes where it does not stop.\<close>

lemma free_find_pass:
  assumes "circ (hptr s) (us @ q # ws @ r # vs)" "\<And>x. x \<in> set (q # ws) \<Longrightarrow> \<not> free_stop s bp x"
  shows "free_find s bp q = free_find s bp r"
  using assms
proof (induction ws arbitrary: us q)
  case Nil
  have "hptr s q = r" using circ_next [OF Nil(1)] by simp
  then show ?case using Nil(2) by (subst free_find.simps) simp
next
  case (Cons w ws)
  have "hptr s q = w" using circ_next [OF Cons.prems(1)] by simp
  moreover have "free_find s bp w = free_find s bp r" using Cons.IH [of "us @ [q]" w] Cons.prems by simp
  ultimately show ?case using Cons.prems(2) by (subst free_find.simps) simp
qed

lemma free_stop_at:
  assumes "circ (hptr s) (ys @ p # zs)" "sorted_wrt (before s) (ys @ p # zs)"
    "p < bp" "\<And>z. z \<in> set zs \<Longrightarrow> bp < z"
  shows "free_stop s bp p"
proof (cases zs)
  case Nil
  have "hd (ys @ [p]) \<le> p" using assms(2) by (cases ys) (auto simp: before_def word_le_nat_alt)
  then show ?thesis using circ_next [OF assms(1)] Nil assms(3) by (simp add: free_stop_def)
qed (use circ_next [OF assms(1)] assms(3,4) in \<open>simp add: free_stop_def\<close>)

lemma free_stop_not:
  assumes c: "circ (hptr s) (ys @ p # zs)" and sw: "sorted_wrt (before s) (ys @ p # zs)"
    and bp: "p < bp" "\<And>z. z \<in> set zs \<Longrightarrow> bp < z" and x: "x \<in> set ys \<or> x \<in> set zs"
  shows "\<not> free_stop s bp x"
  using x
proof
  assume "x \<in> set ys"
  then obtain us vs where [simp]: "ys = us @ x # vs" by (auto dest: split_list)
  have "hptr s x = hd (vs @ [p])" using circ_next [of "hptr s" us x "vs @ p # zs"] c by (cases vs) simp_all
  then have "x < hptr s x" "hptr s x \<le> p" using sw
    by (cases vs; force simp: sorted_wrt_append before_def word_less_nat_alt word_le_nat_alt)+
  then show ?thesis using bp(1) by (auto simp: free_stop_def)
next
  assume "x \<in> set zs"
  then obtain us vs where [simp]: "zs = us @ x # vs" by (auto dest: split_list)
  have x: "bp < x" using bp(2) by simp
  show ?thesis
  proof (cases vs)
    case Nil
    have "hptr s x = hd (ys @ [p])" using circ_next [of "hptr s" "ys @ p # us" x vs] c Nil by (cases ys) simp_all
    moreover have "hd (ys @ [p]) \<le> p" using sw by (cases ys) (auto simp: before_def word_le_nat_alt)
    ultimately show ?thesis using x bp(1) by (auto simp: free_stop_def)
  next
    case (Cons v l)
    have "hptr s x = v" using circ_next [of "hptr s" "ys @ p # us" x vs] c Cons by simp
    moreover have "x < v" using sw Cons by (auto simp: sorted_wrt_append before_def word_less_nat_alt)
    ultimately show ?thesis using x by (auto simp: free_stop_def)
  qed
qed

text \<open>From every node of the list the loop finds the last one below \<open>bp\<close>.\<close>

lemma free_find_run:
  assumes c: "circ (hptr s) (ys @ p # zs)" and sw: "sorted_wrt (before s) (ys @ p # zs)"
    and bp: "p < bp" "\<And>z. z \<in> set zs \<Longrightarrow> bp < z" and q: "q \<in> set (ys @ p # zs)"
  shows "free_find s bp q = Some p"
proof -
  note stop = free_stop_at [OF c sw bp] and pass = free_stop_not [OF c sw bp]
  have p: "free_find s bp p = Some p" using stop by (subst free_find.simps) simp
  have y: "free_find s bp x = Some p" if x: "x \<in> set ys" for x
  proof -
    obtain us ws where ys: "ys = us @ x # ws" using split_list [OF x] by blast
    have "free_find s bp x = free_find s bp p" by (rule free_find_pass [of s us x ws p zs]) (use c pass ys in auto)
    then show ?thesis using p by simp
  qed
  have h: "free_find s bp (hd (ys @ [p])) = Some p" using y p by (cases ys) auto
  have "free_find s bp x = Some p" if x: "x \<in> set zs" for x
  proof -
    obtain us ws where zs: "zs = us @ x # ws" using split_list [OF x] by blast
    have "circ (hptr s) ((us @ x # ws) @ ys @ [p])" using circ_rotate [of "hptr s" "ys @ [p]" zs] c zs by simp
    then have "circ (hptr s) (us @ x # ws @ hd (ys @ [p]) # tl (ys @ [p]))" by (cases ys) simp_all
    then have "free_find s bp x = free_find s bp (hd (ys @ [p]))" by (rule free_find_pass) (use pass zs in auto)
    then show ?thesis using h by simp
  qed
  then show ?thesis using q p y by auto
qed

section \<open>Freeing a block\<close>

lemma unat_end: "unat a + 8 * unat n < 2 ^ 32 \<Longrightarrow> unat (a + HDR * n) = unat a + 8 * unat n"
proof -
  assume a: "unat a + 8 * unat n < 2 ^ 32"
  have "unat (HDR * n) = 8 * unat n" using a by (simp add: HDR_def unat_word_ariths)
  then show ?thesis using a by (simp add: unat_word_ariths)
qed

lemma unat_plus: "unat (n :: u32) + unat m < 2 ^ 32 \<Longrightarrow> unat (n + m) = unat n + unat m"
  by (simp add: unat_word_ariths)

lemma bytes_join: "unat a + 8 * unat n = unat b \<Longrightarrow> unat n + unat m < 2 ^ 32 \<Longrightarrow> bytes a (n + m) = bytes a n \<union> bytes b m"
  by (auto simp: bytes_def unat_plus)

text \<open>
  Between the two steps of \<^verbatim>\<open>free\<close>: the block \<open>b\<close> points to what follows it and no longer touches it, and
  \<open>p\<close> still has to take it in.
\<close>

definition half_linked :: "nat \<Rightarrow> heap \<Rightarrow> u32 list \<Rightarrow> u32 \<Rightarrow> u32 \<Rightarrow> u32 list \<Rightarrow> bool" where
  "half_linked lo s ys p b zs \<longleftrightarrow>
     map (hptr s) ys = tl (ys @ [p]) \<and> hptr s b # map (hptr s) zs = zs @ [hd (ys @ [p])] \<and>
     sorted_wrt (before s) (ys @ p # zs) \<and> (\<forall>y\<in>set ys. before s y b) \<and> (\<forall>z\<in>set zs. before s b z) \<and>
     unat p + 8 * unat (hsize s p) \<le> unat b \<and> p < b \<and> b \<notin> set (ys @ p # zs) \<and>
     hsize s (base s) = 0 \<and> hd (ys @ [p]) = base s \<and> base s \<noteq> 0 \<and> unat (base s) < lo \<and> lo \<le> unat (brk s) \<and>
     (\<forall>a\<in>set (b # tl (ys @ p # zs)). 0 < unat (hsize s a) \<and> lo \<le> unat a \<and> unat a + 8 * unat (hsize s a) \<le> unat (brk s))"

definition same_sizes :: "u32 set \<Rightarrow> heap \<Rightarrow> heap \<Rightarrow> bool" where
  "same_sizes X s s' \<longleftrightarrow> (\<forall>a. a \<notin> X \<longrightarrow> hsize s' a = hsize s a) \<and> brk s' = brk s \<and> base s' = base s"

lemma free_bytes_Un [simp]:
  "free_bytes s [] = {}" "free_bytes s (a # xs) = bytes a (hsize s a) \<union> free_bytes s xs"
  "free_bytes s (xs @ zs) = free_bytes s xs \<union> free_bytes s zs"
  by (auto simp: free_bytes_def)

lemma free_bytes_cong: "(\<And>a. a \<in> set xs \<Longrightarrow> hsize s' a = hsize s a) \<Longrightarrow> free_bytes s' xs = free_bytes s xs"
  by (simp add: free_bytes_def)

lemma before_cong:
  "sorted_wrt (before s) xs \<Longrightarrow> (\<And>a. a \<in> set xs \<Longrightarrow> hsize s' a = hsize s a) \<Longrightarrow> sorted_wrt (before s') xs"
  by (rule sorted_wrt_mono_rel [of xs "before s"]) (auto simp: before_def)

lemma freep_irrelevant [simp]:
  "before (s\<lparr>freep := p\<rparr>) = before s" "free_bytes (s\<lparr>freep := p\<rparr>) = free_bytes s"
  by (auto simp: before_def free_bytes_def fun_eq_iff)

text \<open>The place of a block that is freed: behind \<open>p\<close> and before the blocks \<open>zs\<close>.\<close>

definition gap :: "nat \<Rightarrow> heap \<Rightarrow> u32 \<Rightarrow> u32 \<Rightarrow> u32 list \<Rightarrow> bool" where
  "gap lo s p b zs \<longleftrightarrow>
     p < b \<and> unat p + 8 * unat (hsize s p) \<le> unat b \<and> 0 < unat (hsize s b) \<and> lo \<le> unat b \<and>
     unat b + 8 * unat (hsize s b) \<le> unat (brk s) \<and> (\<forall>z\<in>set zs. unat b + 8 * unat (hsize s b) \<le> unat z)"

lemma gap_facts:
  assumes fl: "free_list lo s xs" and split: "base s # xs = ys @ p # zs" and g: "gap lo s p b zs"
  shows "map (hptr s) ys = tl (ys @ [p])" "hptr s p # map (hptr s) zs = zs @ [hd (ys @ [p])]"
    "sorted_wrt (before s) (ys @ p # zs)" "hd (ys @ [p]) = base s"
    "unat (b + HDR * hsize s b) = unat b + 8 * unat (hsize s b)" "b \<notin> set (ys @ p # zs)"
    "\<And>z. z \<in> set zs \<Longrightarrow> unat b + 8 * unat (hsize s b) \<le> unat z"
    "\<And>a. a \<in> set (b # tl (ys @ p # zs)) \<Longrightarrow>
       0 < unat (hsize s a) \<and> lo \<le> unat a \<and> unat a + 8 * unat (hsize s a) \<le> unat (brk s)"
    "\<And>y. y \<in> set ys \<Longrightarrow> before s y b"
    "hsize s (base s) = 0" "base s \<noteq> 0" "unat (base s) < lo" "lo \<le> unat (brk s)" "base s \<noteq> b"
proof -
  show c: "map (hptr s) ys = tl (ys @ [p])" "hptr s p # map (hptr s) zs = zs @ [hd (ys @ [p])]"
    and sw: "sorted_wrt (before s) (ys @ p # zs)" and hd: "hd (ys @ [p]) = base s"
    using fl split by (auto simp: free_list_def circ_split split: list.splits) (cases ys; auto)+
  show "unat (b + HDR * hsize s b) = unat b + 8 * unat (hsize s b)"
    using g unat_lt32 [of "brk s"] by (intro unat_end) (auto simp: gap_def)
  show "b \<notin> set (ys @ p # zs)" using g sw by (auto simp: gap_def sorted_wrt_append before_def word_less_nat_alt)
  show "unat b + 8 * unat (hsize s b) \<le> unat z" if "z \<in> set zs" for z using g that by (simp add: gap_def)
  have xs: "xs = tl (ys @ p # zs)" using split by (cases ys) auto
  show "0 < unat (hsize s a) \<and> lo \<le> unat a \<and> unat a + 8 * unat (hsize s a) \<le> unat (brk s)"
    if "a \<in> set (b # tl (ys @ p # zs))" for a using fl g that xs by (auto simp: free_list_def gap_def)
  show "before s y b" if "y \<in> set ys" for y
    using sw that g by (auto simp: sorted_wrt_append before_def gap_def word_less_nat_alt)
  show "hsize s (base s) = 0" "base s \<noteq> 0" "unat (base s) < lo" "lo \<le> unat (brk s)" "base s \<noteq> b"
    using fl g by (auto simp: free_list_def gap_def)
qed

lemma join_next_merge:
  assumes "free_list lo s xs" "base s # xs = ys @ p # zs" and g: "gap lo s p b zs"
    and True: "b + HDR * hsize s b = hptr s p"
  shows "\<exists>zs'. half_linked lo (join_next b p s) ys p b zs' \<and> set zs' \<subseteq> set zs \<and>
     free_bytes (join_next b p s) zs' \<union> bytes b (hsize (join_next b p s) b) = free_bytes s zs \<union> bytes b (hsize s b) \<and>
     same_sizes {b} s (join_next b p s)"
proof -
  let ?s = "join_next b p s"
  note gf = gap_facts [OF assms(1-3)]
  note c = gf(1,2) and sw = gf(3) and hd = gf(4) and ends = gf(5) and b = gf(6) and z = gf(7) and range = gf(8)
    and ybef = gf(9) and rest = gf(10-13) and bb = gf(14) and brk = unat_lt32 [of "brk s"]
  have "zs \<noteq> []"
  proof
    assume "zs = []"
    then have "unat b + 8 * unat (hsize s b) = unat (base s)" using True c(2) hd ends by simp
    then show False using rest(3) g by (simp add: gap_def)
  qed
  then obtain w ws where zs: "zs = w # ws" by (cases zs) auto
  then have pz: "hptr s p = w" "hptr s w # map (hptr s) ws = ws @ [hd (ys @ [p])]" using c(2) by simp_all
  have w: "unat b + 8 * unat (hsize s b) = unat w" using True pz(1) ends by simp
  have "unat w + 8 * unat (hsize s w) \<le> unat (brk s)" using range [of w] zs by (cases ys) auto
  then have sz: "unat (hsize s b + hsize s w) = unat (hsize s b) + unat (hsize s w)" using w brk by (intro unat_plus) simp
  have s': "hptr ?s = (hptr s)(b := hptr s w)" "hsize ?s = (hsize s)(b := hsize s b + hsize s w)" "brk ?s = brk s" "base ?s = base s"
    using True pz(1) by (simp_all add: join_next_def)
  have sw': "sorted_wrt (before ?s) (ys @ p # ws)"
    by (rule before_cong [of s]) (use sw zs b s'(2) in \<open>auto simp: sorted_wrt_append\<close>)
  have wbef: "before ?s b x" if "x \<in> set ws" for x
    using sw that zs w sz s'(2) by (auto simp: sorted_wrt_append before_def)
  have "half_linked lo ?s ys p b ws"
    unfolding half_linked_def
  proof (intro conjI ballI)
    fix a assume a: "a \<in> set (b # tl (ys @ p # ws))"
    show "0 < unat (hsize ?s a)" "lo \<le> unat a" "unat a + 8 * unat (hsize ?s a) \<le> unat (brk ?s)"
      using a range [of a] range [of b] range [of w] zs s' sz w \<open>unat w + 8 * unat (hsize s w) \<le> unat (brk s)\<close> by (cases ys; auto)+
  qed (use c(1) pz b zs sw' ybef wbef g hd rest s' bb in \<open>auto simp: before_def gap_def\<close>)
  moreover have "free_bytes ?s ws = free_bytes s ws" by (rule free_bytes_cong) (use b zs s'(2) in auto)
  moreover have "bytes b (hsize s b + hsize s w) = bytes b (hsize s b) \<union> bytes w (hsize s w)"
    using w sz brk \<open>unat w + 8 * unat (hsize s w) \<le> unat (brk s)\<close> by (intro bytes_join) auto
  ultimately show ?thesis using zs s' by (intro exI [of _ ws]) (auto simp: same_sizes_def)
qed

lemma join_next_apart:
  assumes "free_list lo s xs" "base s # xs = ys @ p # zs" and g: "gap lo s p b zs"
    and False: "b + HDR * hsize s b \<noteq> hptr s p"
  shows "\<exists>zs'. half_linked lo (join_next b p s) ys p b zs' \<and> set zs' \<subseteq> set zs \<and>
     free_bytes (join_next b p s) zs' \<union> bytes b (hsize (join_next b p s) b) = free_bytes s zs \<union> bytes b (hsize s b) \<and>
     same_sizes {b} s (join_next b p s)"
proof -
  let ?s = "join_next b p s"
  note gf = gap_facts [OF assms(1-3)]
  note c = gf(1,2) and sw = gf(3) and hd = gf(4) and ends = gf(5) and b = gf(6) and z = gf(7) and range = gf(8)
    and ybef = gf(9) and rest = gf(10-13) and bb = gf(14) and brk = unat_lt32 [of "brk s"]
  have s': "hptr ?s = (hptr s)(b := hptr s p)" "hsize ?s = hsize s" "brk ?s = brk s" "base ?s = base s"
    using False by (simp_all add: join_next_def)
  have sw': "sorted_wrt (before ?s) (ys @ p # zs)" by (rule before_cong [OF sw]) (simp add: s')
  have zbef: "before ?s b x" if x: "x \<in> set zs" for x
  proof (cases zs)
    case (Cons w ws)
    then have "unat b + 8 * unat (hsize s b) \<noteq> unat w" using False c(2) ends by (metis append_Cons list.inject word_unat_eq_iff)
    moreover have "x = w \<or> unat w < unat x" using x Cons sw by (auto simp: sorted_wrt_append before_def)
    ultimately show ?thesis using z [of w] Cons s' by (auto simp: before_def)
  qed (use x in simp)
  have "half_linked lo ?s ys p b zs"
    using c b sw' ybef zbef g hd rest s' range by (auto simp: half_linked_def before_def gap_def)
  then show ?thesis using s' free_bytes_cong [of zs ?s s] by (intro exI [of _ zs]) (auto simp: same_sizes_def)
qed

lemma half_facts:
  assumes h: "half_linked lo s ys p b zs"
  shows "map (hptr s) ys = tl (ys @ [p])" "hptr s b # map (hptr s) zs = zs @ [hd (ys @ [p])]"
    "sorted_wrt (before s) (ys @ p # zs)" "\<And>y. y \<in> set ys \<Longrightarrow> before s y b" "\<And>z. z \<in> set zs \<Longrightarrow> before s b z"
    "unat p + 8 * unat (hsize s p) \<le> unat b" "p < b" "b \<notin> set (ys @ p # zs)"
    "hsize s (base s) = 0" "hd (ys @ [p]) = base s" "base s \<noteq> 0" "unat (base s) < lo" "lo \<le> unat (brk s)"
    "\<And>a. a \<in> set (b # tl (ys @ p # zs)) \<Longrightarrow>
       0 < unat (hsize s a) \<and> lo \<le> unat a \<and> unat a + 8 * unat (hsize s a) \<le> unat (brk s)"
    "unat (p + HDR * hsize s p) = unat p + 8 * unat (hsize s p)" "distinct (ys @ p # zs)"
    "ys @ p # zs = base s # tl (ys @ p # zs)"
proof -
  show pb: "unat p + 8 * unat (hsize s p) \<le> unat b" and sw: "sorted_wrt (before s) (ys @ p # zs)"
    and hd: "hd (ys @ [p]) = base s" using h by (auto simp: half_linked_def)
  show "unat (p + HDR * hsize s p) = unat p + 8 * unat (hsize s p)" using pb unat_lt32 [of b] by (intro unat_end) simp
  show "distinct (ys @ p # zs)" using sw by (rule sorted_distinct)
  show "ys @ p # zs = base s # tl (ys @ p # zs)" using hd by (cases ys) simp_all
qed (use h in \<open>auto simp: half_linked_def\<close>)

lemma join_prev_merge:
  assumes h: "half_linked lo s ys p b zs" and True: "p + HDR * hsize s p = b"
  shows "\<exists>xs. free_list lo ((join_prev b p s)\<lparr>freep := p\<rparr>) xs \<and>
     free_bytes (join_prev b p s) xs = free_bytes s (tl (ys @ p # zs)) \<union> bytes b (hsize s b) \<and>
     same_sizes {p} s (join_prev b p s) \<and> hsize (join_prev b p s) (base s) = 0"
proof -
  let ?s = "join_prev b p s"
  note hf = half_facts [OF assms(1)]
  note c = hf(1,2) and sw = hf(3) and bef = hf(4,5) and pb = hf(6,7) and b = hf(8) and bs = hf(9-13) and range = hf(14)
    and ends = hf(15) and d = hf(16) and as = hf(17) and brk = unat_lt32 [of "brk s"]
  have pe: "unat p + 8 * unat (hsize s p) = unat b" using True ends by simp
  have rb: "0 < unat (hsize s b)" "unat b + 8 * unat (hsize s b) \<le> unat (brk s)" using range [of b] by auto
  have sz: "unat (hsize s p + hsize s b) = unat (hsize s p) + unat (hsize s b)" using pe rb(2) brk by (intro unat_plus) simp
  have s': "hptr ?s = (hptr s)(p := hptr s b)" "hsize ?s = (hsize s)(p := hsize s p + hsize s b)" "brk ?s = brk s" "base ?s = base s"
    using True by (simp_all add: join_prev_def)
  have "p \<noteq> base s"
  proof
    assume "p = base s"
    then show False using pe bs(1) pb(2) by (simp add: word_less_nat_alt)
  qed
  then obtain us where ys: "ys = base s # us" using bs(2) by (cases ys) auto
  have "circ (hptr ?s) (ys @ p # zs)"
    unfolding circ_split s'(1) using c d by simp
  moreover have "sorted_wrt (before ?s) (ys @ p # zs)"
  proof -
    have "before ?s x y" if "before s x y" "x \<in> set ys \<union> set zs" for x y using that s'(2) d by (auto simp: before_def)
    moreover have "before ?s p z" if "z \<in> set zs" for z using bef(2) [OF that] s'(2) sz pe by (simp add: before_def)
    ultimately show ?thesis using sw d by (auto simp: sorted_wrt_append intro: sorted_wrt_mono_rel [of _ "before s"])
  qed
  moreover have "0 < unat (hsize ?s a) \<and> lo \<le> unat a \<and> unat a + 8 * unat (hsize ?s a) \<le> unat (brk ?s)" if "a \<in> set (us @ p # zs)" for a
    using that range [of a] ys sz pe rb s' by auto
  ultimately have "free_list lo (?s\<lparr>freep := p\<rparr>) (us @ p # zs)"
    using ys bs s' \<open>p \<noteq> base s\<close> by (simp add: free_list_def)
  moreover have "free_bytes ?s us = free_bytes s us" "free_bytes ?s zs = free_bytes s zs"
    by (rule free_bytes_cong; use d ys s'(2) in auto)+
  moreover have "bytes p (hsize s p + hsize s b) = bytes p (hsize s p) \<union> bytes b (hsize s b)"
    using pe sz brk rb(2) by (intro bytes_join) auto
  ultimately show ?thesis using s' ys bs(1) \<open>p \<noteq> base s\<close> by (intro exI [of _ "us @ p # zs"]) (auto simp: same_sizes_def)
qed

lemma join_prev_apart:
  assumes h: "half_linked lo s ys p b zs" and False: "p + HDR * hsize s p \<noteq> b"
  shows "\<exists>xs. free_list lo ((join_prev b p s)\<lparr>freep := p\<rparr>) xs \<and>
     free_bytes (join_prev b p s) xs = free_bytes s (tl (ys @ p # zs)) \<union> bytes b (hsize s b) \<and>
     same_sizes {p} s (join_prev b p s) \<and> hsize (join_prev b p s) (base s) = 0"
proof -
  let ?s = "join_prev b p s"
  note hf = half_facts [OF assms(1)]
  note c = hf(1,2) and sw = hf(3) and bef = hf(4,5) and pb = hf(6,7) and b = hf(8) and bs = hf(9-13) and range = hf(14)
    and ends = hf(15) and d = hf(16) and as = hf(17) and brk = unat_lt32 [of "brk s"]
  have s': "hptr ?s = (hptr s)(p := b)" "hsize ?s = hsize s" "brk ?s = brk s" "base ?s = base s"
    using False by (simp_all add: join_prev_def)
  have lt: "before s p b" using pb(1) False ends by (metis before_def le_neq_implies_less word_unat_eq_iff)
  obtain xs where as': "ys @ p # b # zs = base s # xs" using as by (cases ys) auto
  then have xs: "xs = tl (ys @ p # b # zs)" by simp
  have "circ (hptr ?s) (ys @ p # b # zs)"
    unfolding circ_split s'(1) using c d b by auto
  moreover have sw': "sorted_wrt (before s) (ys @ p # b # zs)" using sw bef lt by (auto simp: sorted_wrt_append)
  moreover have "sorted_wrt (before ?s) (ys @ p # b # zs)" by (rule before_cong [OF sw']) (simp add: s')
  moreover have "0 < unat (hsize s a) \<and> lo \<le> unat a \<and> unat a + 8 * unat (hsize s a) \<le> unat (brk s)" if "a \<in> set xs" for a
    using that range [of a] xs by (cases ys) auto
  moreover have "p \<in> set (base s # xs)" unfolding as' [symmetric] by simp
  ultimately have "free_list lo (?s\<lparr>freep := p\<rparr>) xs"
    using bs s' unfolding as' by (simp add: free_list_def)
  moreover have "free_bytes ?s xs = free_bytes s (tl (ys @ p # zs)) \<union> bytes b (hsize s b)"
    using free_bytes_cong [of xs ?s s] s' xs by (cases ys) auto
  ultimately show ?thesis using s' bs(1) by (intro exI [of _ xs]) (auto simp: same_sizes_def)
qed

lemma free_split:
  assumes "free_list lo s xs" "lo \<le> unat b" "b \<notin> set xs"
  obtains ys p zs where "base s # xs = ys @ p # zs" "p < b" "\<And>z. z \<in> set zs \<Longrightarrow> b < z"
proof -
  let ?P = "\<lambda>a. a < b" and ?as = "base s # xs"
  have sw: "sorted_wrt (before s) ?as" and "unat (base s) < lo" using assms(1) by (auto simp: free_list_def)
  then have base: "base s < b" using assms(2) by (simp add: word_less_nat_alt)
  then have ne: "takeWhile ?P ?as \<noteq> []" by simp
  have "b < z" if z: "z \<in> set (dropWhile ?P ?as)" for z
  proof -
    obtain w ws where w: "dropWhile ?P ?as = w # ws" using z by (metis list.set_cases)
    then have "\<not> w < b" "w \<in> set ?as" by (metis hd_dropWhile list.distinct(1) list.sel(1), metis list.set_intros(1) set_dropWhileD)
    then have "b < w" using assms(3) base by (metis linorder_less_linear set_ConsD)
    moreover have "sorted_wrt (before s) (w # ws)" using sw w by (metis sorted_wrt_append takeWhile_dropWhile_id)
    ultimately show ?thesis using z w by (auto simp: before_def word_less_nat_alt)
  qed
  moreover have "?as = butlast (takeWhile ?P ?as) @ last (takeWhile ?P ?as) # dropWhile ?P ?as"
    using ne by (metis append.assoc append_Cons append_Nil append_butlast_last_id takeWhile_dropWhile_id)
  moreover have "last (takeWhile ?P ?as) < b" using ne last_in_set set_takeWhileD by fast
  ultimately show ?thesis using that by metis
qed

lemma bytes_first: "0 < unat n \<Longrightarrow> unat a \<in> bytes a n"
  by (simp add: bytes_def)

lemma owned_insert:
  assumes "heap_ok lo s xs (insert (b, n) A)" "(b, n) \<notin> A"
  shows "hsize s b = n" "0 < unat n" "lo \<le> unat b" "unat b + 8 * unat n \<le> unat (brk s)" "bytes b n \<inter> free_bytes s xs = {}"
    "\<And>x. x \<in> A \<Longrightarrow> fst x \<notin> insert b (set (base s # xs))" "bytes b n \<inter> owned_bytes A = {}"
proof -
  from assms have o: "owned (insert (b, n) A) s" and d: "free_bytes s xs \<inter> owned_bytes (insert (b, n) A) = {}"
    and u: "free_bytes s xs \<union> owned_bytes (insert (b, n) A) = {lo ..< unat (brk s)}" and fl: "free_list lo s xs"
    by (auto simp: heap_ok_def)
  show n: "hsize s b = n" "0 < unat n" using o by (auto simp: owned_def)
  have "bytes b n \<subseteq> {lo ..< unat (brk s)}" using u by (auto simp: owned_bytes_def)
  then show "lo \<le> unat b" "unat b + 8 * unat n \<le> unat (brk s)" using n by (simp_all add: bytes_def)
  show "bytes b n \<inter> free_bytes s xs = {}" using d by (auto simp: owned_bytes_def)
  have dj: "bytes b n \<inter> bytes (fst x) (snd x) = {}" if "x \<in> A" for x
  proof -
    have "\<forall>u\<in>insert (b, n) A. \<forall>v\<in>insert (b, n) A. u \<noteq> v \<longrightarrow> bytes (fst u) (snd u) \<inter> bytes (fst v) (snd v) = {}"
      using o unfolding owned_def by (rule conjunct2)
    from bspec [OF bspec [OF this, of "(b, n)"], of x] show ?thesis using that assms(2) by auto
  qed
  then show "bytes b n \<inter> owned_bytes A = {}" by (fastforce simp: owned_bytes_def)
  fix x assume x: "x \<in> A"
  have sx: "hsize s (fst x) = snd x" "0 < unat (snd x)" using o x by (auto simp: owned_def)
  have "fst x \<noteq> b" using dj [OF x] bytes_first [OF n(2), of b] sx n(1) by auto
  moreover have "fst x \<notin> set xs"
    using d x bytes_first [OF sx(2), of "fst x"] sx by (fastforce simp: free_bytes_def owned_bytes_def)
  moreover have "unat (fst x) \<in> {lo ..< unat (brk s)}"
    using u x bytes_first [OF sx(2), of "fst x"] by (fastforce simp: owned_bytes_def)
  then have "fst x \<noteq> base s" using fl by (auto simp: free_list_def)
  ultimately show "fst x \<notin> insert b (set (base s # xs))" by simp
qed

text \<open>Freeing an owned block gives its bytes back and leaves the other blocks alone.\<close>

lemma ufree_run:
  assumes h: "heap_ok lo s xs (insert (b, n) A)" and new: "(b, n) \<notin> A"
  shows "\<exists>s' xs'. ufree (b + HDR) s = Some s' \<and> heap_ok lo s' xs' A \<and>
    free_bytes s' xs' = free_bytes s xs \<union> bytes b n \<and> brk s' = brk s \<and> base s' = base s"
proof -
  note b = owned_insert [OF h new]
  have fl: "free_list lo s xs" using h by (simp add: heap_ok_def)
  have rng: "\<And>a. a \<in> set xs \<Longrightarrow> 0 < unat (hsize s a)" and base: "hsize s (base s) = 0" using fl by (auto simp: free_list_def)
  have bx: "b \<notin> set xs" using b(5) bytes_first [OF b(2), of b] b(1) by (auto simp: free_bytes_def)
  obtain ys p zs where sp: "base s # xs = ys @ p # zs" "p < b" "\<And>z. z \<in> set zs \<Longrightarrow> b < z" by (rule free_split [OF fl b(3) bx]) blast
  have zs: "z \<in> set xs" if "z \<in> set zs" for z using that sp(1) by (cases ys) auto
  have "gap lo s p b zs"
  proof -
    have "unat p + 8 * unat (hsize s p) \<le> unat b"
    proof (cases "p = base s")
      case False
      then have "p \<in> set xs" using sp(1) by (metis in_set_conv_decomp set_ConsD)
      then show ?thesis using b(5) bytes_first [OF b(2), of b] sp(2) by (fastforce simp: free_bytes_def bytes_def word_less_nat_alt)
    qed (use base sp(2) in \<open>simp add: word_less_nat_alt\<close>)
    moreover have "unat b + 8 * unat n \<le> unat z" if z: "z \<in> set zs" for z
    proof (rule ccontr)
      assume "\<not> unat b + 8 * unat n \<le> unat z"
      then have "unat z \<in> bytes b n" using sp(3) [OF z] by (simp add: bytes_def word_less_nat_alt)
      then show False using b(5) zs [OF z] bytes_first [OF rng, of z z] by (fastforce simp: free_bytes_def)
    qed
    ultimately show ?thesis using sp(2) b by (simp add: gap_def)
  qed
  note jn = join_next_merge [OF fl sp(1) this] join_next_apart [OF fl sp(1) this]
  obtain zs' where h1: "half_linked lo (join_next b p s) ys p b zs'" "set zs' \<subseteq> set zs"
    "free_bytes (join_next b p s) zs' \<union> bytes b (hsize (join_next b p s) b) = free_bytes s zs \<union> bytes b n"
    "same_sizes {b} s (join_next b p s)" using jn b(1) by (cases "b + HDR * hsize s b = hptr s p") auto
  let ?s1 = "join_next b p s"
  let ?s = "(join_prev b p ?s1)\<lparr>freep := p\<rparr>"
  note jp = join_prev_merge [OF h1(1)] join_prev_apart [OF h1(1)]
  obtain xs' where h2: "free_list lo ?s xs'"
    "free_bytes (join_prev b p ?s1) xs' = free_bytes ?s1 (tl (ys @ p # zs')) \<union> bytes b (hsize ?s1 b)"
    "same_sizes {p} ?s1 (join_prev b p ?s1)" using jp by (cases "p + HDR * hsize ?s1 p = b") auto
  have bys: "b \<notin> set (ys @ [p])" using sp(1,2) bx b(3) fl by (metis (no_types, lifting) Un_iff append.assoc append_Cons append_Nil free_list_def leD order_less_irrefl set_ConsD set_append)
  have "free_bytes ?s1 (tl (ys @ [p])) = free_bytes s (tl (ys @ [p]))"
    by (rule free_bytes_cong, cases ys) (use h1(4) bys in \<open>auto simp: same_sizes_def\<close>)
  then have fb: "free_bytes ?s xs' = free_bytes s xs \<union> bytes b n"
    using h1(3) h2(2) sp(1) by (cases ys) auto
  have run: "ufree (b + HDR) s = Some ?s"
  proof -
    have "free_find s b (freep s) = Some p"
      using fl sp by (intro free_find_run [of s ys p zs]) (auto simp: free_list_def)
    then show ?thesis by (simp add: ufree_def)
  qed
  have ps: "p \<in> set (base s # xs)" using sp(1) by simp
  have keep: "hsize ?s (fst x) = hsize s (fst x)" if "x \<in> A" for x
    using b(6) [OF that] ps h1(4) h2(3) by (auto simp: same_sizes_def)
  have "owned A ?s" using h keep by (fastforce simp: heap_ok_def owned_def)
  moreover have "brk ?s = brk s" "base ?s = base s" using h1(4) h2(3) by (simp_all add: same_sizes_def)
  moreover have "owned_bytes (insert (b, n) A) = bytes b n \<union> owned_bytes A" by (simp add: owned_bytes_def)
  ultimately have "heap_ok lo ?s xs' A" using h h2(1) fb b(7) by (auto simp: heap_ok_def)
  then show ?thesis using run fb \<open>brk ?s = brk s\<close> \<open>base ?s = base s\<close> by blast
qed

section \<open>Growing the heap\<close>

text \<open>What the kernel promises of \<^verbatim>\<open>sbrk\<close>: it never grows the memory past the end of the address space.\<close>

definition sbrk_sane :: "(u32 \<Rightarrow> u32 \<Rightarrow> bool) \<Rightarrow> bool" where
  "sbrk_sane grow \<longleftrightarrow> (\<forall>b n. grow b n \<longrightarrow> unat b + unat n < 2 ^ 32)"

lemma sorted_wrt_either: "sorted_wrt P xs \<Longrightarrow> a \<in> set xs \<Longrightarrow> c \<in> set xs \<Longrightarrow> a \<noteq> c \<Longrightarrow> P a c \<or> P c a"
  by (induction xs) auto

text \<open>Free blocks never touch, so a run of free bytes lies in one block.\<close>

lemma free_run:
  assumes fl: "free_list lo s xs" and run: "{x ..< x + k} \<subseteq> free_bytes s xs" and k: "0 < k"
  shows "\<exists>a\<in>set xs. {x ..< x + k} \<subseteq> bytes a (hsize s a)"
proof -
  have "x \<in> free_bytes s xs" using run k by auto
  then obtain a where a: "a \<in> set xs" "x \<in> bytes a (hsize s a)" by (auto simp: free_bytes_def)
  let ?e = "unat a + 8 * unat (hsize s a)"
  have "x + k \<le> ?e"
  proof (rule ccontr)
    assume "\<not> x + k \<le> ?e"
    then have "?e \<in> {x ..< x + k}" using a(2) by (simp add: bytes_def)
    then obtain c where c: "c \<in> set xs" "?e \<in> bytes c (hsize s c)" using run by (auto simp: free_bytes_def)
    then have "c \<noteq> a" by (auto simp: bytes_def)
    moreover have "sorted_wrt (before s) xs" using fl by (simp add: free_list_def)
    ultimately have "before s a c \<or> before s c a" using a(1) c(1) sorted_wrt_either by metis
    then show False using c(2) by (auto simp: before_def bytes_def)
  qed
  then show ?thesis using a by (intro bexI [of _ a]) (auto simp: bytes_def)
qed

lemma heap_ok_grow:
  assumes h: "heap_ok lo s xs A" and k: "unat (brk s) + 8 * unat m < 2 ^ 32" "0 < unat m"
  defines "s' \<equiv> s\<lparr>brk := brk s + m * HDR, hsize := (hsize s)(brk s := m)\<rparr>"
  shows "heap_ok lo s' xs (insert (brk s, m) A)" "(brk s, m) \<notin> A" "unat (brk s') = unat (brk s) + 8 * unat m"
    "free_bytes s' xs = free_bytes s xs"
proof -
  show b: "unat (brk s') = unat (brk s) + 8 * unat m"
    using unat_end [OF k(1)] by (simp add: s'_def mult.commute)
  have fl: "free_list lo s xs" and o: "owned A s" and u: "free_bytes s xs \<union> owned_bytes A = {lo ..< unat (brk s)}"
    and d: "free_bytes s xs \<inter> owned_bytes A = {}" using h by (auto simp: heap_ok_def)
  have xs: "a \<noteq> brk s" if "a \<in> set (base s # xs)" for a
    using that fl by (fastforce simp: free_list_def)
  have below: "unat (fst x) < unat (brk s)" if "x \<in> A" for x
  proof -
    have "unat (fst x) \<in> owned_bytes A" using o that bytes_first [of "snd x" "fst x"] by (fastforce simp: owned_def owned_bytes_def)
    then show ?thesis using u by auto
  qed
  then show nA: "(brk s, m) \<notin> A" by fastforce
  have hs: "hsize s' a = hsize s a" if "a \<noteq> brk s" for a using that by (simp add: s'_def)
  show fb: "free_bytes s' xs = free_bytes s xs" by (rule free_bytes_cong) (use hs xs in auto)
  have sw': "sorted_wrt (before s') (base s # xs)"
    by (rule before_cong [of s]) (use fl hs xs in \<open>auto simp: free_list_def\<close>)
  have "free_list lo s' xs"
    using fl sw' b hs xs unfolding free_list_def by (fastforce simp: s'_def)
  moreover have new: "bytes (brk s) m \<inter> {lo ..< unat (brk s)} = {}" "bytes (brk s) m = {unat (brk s) ..< unat (brk s')}"
    using b by (auto simp: bytes_def)
  moreover have ob: "owned_bytes (insert (brk s, m) A) = bytes (brk s) m \<union> owned_bytes A" by (simp add: owned_bytes_def)
  moreover have "owned (insert (brk s, m) A) s'"
  proof -
    have "bytes (fst x) (snd x) \<subseteq> {lo ..< unat (brk s)}" if "x \<in> A" for x using that u by (fastforce simp: owned_bytes_def)
    then have "bytes (brk s) m \<inter> bytes (fst x) (snd x) = {}" if "x \<in> A" for x using new(1) that by blast
    then show ?thesis using o hs below k(2) by (fastforce simp: owned_def s'_def)
  qed
  moreover have "lo \<le> unat (brk s)" using fl by (simp add: free_list_def)
  moreover have "{lo ..< unat (brk s)} \<union> {unat (brk s) ..< unat (brk s')} = {lo ..< unat (brk s')}"
    using \<open>lo \<le> unat (brk s)\<close> b by (intro ivl_disj_un) auto
  moreover have "free_bytes s xs \<subseteq> {lo ..< unat (brk s)}" using u by blast
  ultimately show "heap_ok lo s' xs (insert (brk s, m) A)" using u d fb unfolding heap_ok_def by blast
qed

definition core_units :: "u32 \<Rightarrow> u32" where
  "core_units nu = (if nu < 4096 then 4096 else nu)"

text \<open>A request of fewer than \<open>2^31\<close> bytes is a positive number for \<^verbatim>\<open>sbrk\<close>; one of \<open>2^31\<close> bytes or more is negative.\<close>

lemma core_units_bytes:
  assumes "unat nu < 2 ^ 28"
  shows "unat (core_units nu) < 2 ^ 28" "0 < unat (core_units nu)" "unat nu \<le> unat (core_units nu)"
    "unat (core_units nu * HDR) = 8 * unat (core_units nu)" "0 < sint (core_units nu * HDR)"
proof -
  show m: "unat (core_units nu) < 2 ^ 28" "0 < unat (core_units nu)" "unat nu \<le> unat (core_units nu)"
    using assms by (auto simp: core_units_def word_less_nat_alt)
  then show u: "unat (core_units nu * HDR) = 8 * unat (core_units nu)" by (simp add: unat_word_ariths HDR_def)
  have "unat (core_units nu * HDR) < 2 ^ 31" using u m(1) by simp
  then have "sint (core_units nu * HDR) = int (unat (core_units nu * HDR))" by (rule sint_small)
  then show "0 < sint (core_units nu * HDR)" using u m(2) by (simp del: of_nat_unat)
qed

lemma free_list_nonzero: "free_list lo s xs \<Longrightarrow> a \<in> set (base s # xs) \<Longrightarrow> a \<noteq> 0"
  by (fastforce simp: free_list_def)

text \<open>When the kernel gives memory, a block that is large enough is on the list afterwards.\<close>

lemma morecore_run:
  assumes h: "heap_ok lo s xs A" and sane: "sbrk_sane grow" and nu: "unat nu < 2 ^ 28"
    and g: "grow (brk s) (core_units nu * HDR)"
  shows "\<exists>s' xs'. morecore grow nu s = Some (freep s', s') \<and> freep s' \<noteq> 0 \<and> heap_ok lo s' xs' A \<and> base s' = base s \<and>
    (\<exists>a\<in>set xs'. nu \<le> hsize s' a)"
proof -
  let ?m = "core_units nu"
  note m = core_units_bytes [OF nu]
  then have k: "unat (brk s) + 8 * unat ?m < 2 ^ 32" using sane g by (fastforce simp: sbrk_sane_def)
  let ?s = "s\<lparr>brk := brk s + ?m * HDR, hsize := (hsize s)(brk s := ?m)\<rparr>"
  note gr = heap_ok_grow [OF h k m(2)]
  from ufree_run [OF gr(1,2)] obtain s' xs' where f: "ufree (brk s + HDR) ?s = Some s'" "heap_ok lo s' xs' A"
    "free_bytes s' xs' = free_bytes s xs \<union> bytes (brk s) ?m" "base s' = base s" using gr(4) by auto
  have "brk s \<noteq> - 1"
  proof
    assume "brk s = - 1"
    moreover have "unat (- 1 :: u32) = 2 ^ 32 - 1" by (simp add: unsigned_minus_1_eq_mask mask_eq_exp_minus_1)
    ultimately show False using k m(2) by simp
  qed
  then have "morecore grow nu s = Some (freep s', s')"
    using g f(1) m(5) by (simp add: morecore_def sbrk_def core_units_def [symmetric] Let_def)
  moreover have fl: "free_list lo s' xs'" using f(2) by (simp add: heap_ok_def)
  moreover have "freep s' \<in> set (base s' # xs')" using fl by (simp add: free_list_def)
  then have "freep s' \<noteq> 0" using free_list_nonzero [OF fl] by blast
  moreover obtain a where a: "a \<in> set xs'" "bytes (brk s) ?m \<subseteq> bytes a (hsize s' a)"
    using free_run [OF fl, of "unat (brk s)" "8 * unat ?m"] f(3) m(2) by (auto simp: bytes_def)
  then have "unat ?m \<le> unat (hsize s' a)" using m(2) by (auto simp: bytes_def)
  then have "nu \<le> hsize s' a" using m(3) by (simp add: word_le_nat_alt)
  ultimately show ?thesis using f(2,4) a(1) by blast
qed

section \<open>The search for a block\<close>

lemma malloc_pass:
  assumes "map (hptr s) (q # ws) = ws @ [r]" "\<And>x. x \<in> set ws \<Longrightarrow> x \<noteq> freep s \<and> hsize s x < nu"
  shows "malloc_loop grow nu q (hptr s q) s = malloc_loop grow nu (last (q # ws)) r s"
  using assms
proof (induction ws arbitrary: q)
  case (Cons w ws)
  have "hptr s q = w" using Cons.prems(1) by simp
  moreover have "\<not> nu \<le> hsize s w" "w \<noteq> freep s" using Cons.prems(2) [of w] by auto
  ultimately have "malloc_loop grow nu q (hptr s q) s = malloc_loop grow nu w (hptr s w) s"
    by (subst malloc_loop.simps) simp
  then show ?case using Cons.IH [of w] Cons.prems by simp
qed simp

text \<open>The other nodes of the ring in the order of the search, which starts behind \<^verbatim>\<open>freep\<close>.\<close>

lemma search_order:
  assumes "free_list lo s xs"
  obtains ws where "map (hptr s) (freep s # ws) = ws @ [freep s]" "set (freep s # ws) = set (base s # xs)" "freep s \<notin> set ws"
proof -
  obtain us vs where sp: "base s # xs = us @ freep s # vs" using assms by (metis free_list_def split_list)
  have c: "circ (hptr s) (us @ freep s # vs)" and "sorted_wrt (before s) (us @ freep s # vs)"
    using assms sp by (simp_all add: free_list_def)
  then have "distinct (us @ freep s # vs)" by (intro sorted_distinct)
  moreover have "circ (hptr s) (freep s # vs @ us)" using circ_rotate [OF c] by simp
  moreover have "set (freep s # vs @ us) = set (base s # xs)" using sp by auto
  ultimately show ?thesis by (intro that [of "vs @ us"]) (auto simp: circ_def)
qed

lemma malloc_loop_fit:
  assumes fl: "free_list lo s xs" and fit: "a \<in> set xs" "nu \<le> hsize s a" and nu: "0 < nu"
  shows "\<exists>pp p. malloc_loop grow nu (freep s) (hptr s (freep s)) s = Some (take_block nu pp p s) \<and>
    pp \<in> set (base s # xs) \<and> hptr s pp = p \<and> p \<in> set xs \<and> nu \<le> hsize s p"
proof -
  obtain ws where ws: "map (hptr s) (freep s # ws) = ws @ [freep s]" "set (freep s # ws) = set (base s # xs)" "freep s \<notin> set ws"
    by (rule search_order [OF fl]) blast
  let ?path = "ws @ [freep s]"
  have path: "set ?path = set (base s # xs)" using ws(2) by auto
  then have "\<exists>x\<in>set ?path. nu \<le> hsize s x" using fit by auto
  then obtain us p vs where sp: "?path = us @ p # vs" "nu \<le> hsize s p" "\<forall>x\<in>set us. \<not> nu \<le> hsize s x"
    using split_list_first_prop [of ?path "\<lambda>x. nu \<le> hsize s x"] by blast
  have m: "map (hptr s) (freep s # us) = us @ [p] \<and> set us \<subseteq> set ws"
  proof (cases vs rule: rev_cases)
    case Nil
    then show ?thesis using sp(1) ws(1) by auto
  next
    case (snoc vs' v)
    then have w: "ws = us @ p # vs'" "v = freep s" using sp(1) by auto
    have "map (hptr s) (freep s # us) @ map (hptr s) (p # vs') = (us @ [p]) @ vs' @ [freep s]" using ws(1) w by simp
    then have "map (hptr s) (freep s # us) = us @ [p]" by (subst (asm) append_eq_append_conv) simp_all
    then show ?thesis using w by auto
  qed
  have "malloc_loop grow nu (freep s) (hptr s (freep s)) s = malloc_loop grow nu (last (freep s # us)) p s"
    by (rule malloc_pass [OF m [THEN conjunct1]]) (use m sp(3) ws(3) in \<open>auto simp: linorder_not_le\<close>)
  then have run: "malloc_loop grow nu (freep s) (hptr s (freep s)) s = Some (take_block nu (last (freep s # us)) p s)"
    using sp(2) by (subst (asm) (2) malloc_loop.simps) simp
  have "p \<in> set (base s # xs)" unfolding path [symmetric] sp(1) by simp
  moreover have "hsize s (base s) = 0" using fl by (simp add: free_list_def)
  ultimately have p: "p \<in> set xs" using sp(2) nu by auto
  have "hptr s (last (freep s # us)) = p" using arg_cong [OF m [THEN conjunct1], of last] by (simp add: last_map split: if_splits)
  moreover have "last (freep s # us) \<in> set (base s # xs)" unfolding ws(2) [symmetric] using m last_in_set [of "freep s # us"] by auto
  ultimately show ?thesis using run p sp(2) by blast
qed

lemma malloc_loop_none:
  assumes fl: "free_list lo s xs" and nofit: "\<And>a. a \<in> set xs \<Longrightarrow> \<not> nu \<le> hsize s a" and nu: "0 < nu"
  shows "malloc_loop grow nu (freep s) (hptr s (freep s)) s =
    do { (p, s) \<leftarrow> morecore grow nu s; if p = 0 then Some (0, s) else malloc_loop grow nu p (hptr s p) s }"
proof -
  obtain ws where ws: "map (hptr s) (freep s # ws) = ws @ [freep s]" "set (freep s # ws) = set (base s # xs)" "freep s \<notin> set ws"
    by (rule search_order [OF fl]) blast
  have "hsize s (base s) = 0" using fl by (simp add: free_list_def)
  then have un: "hsize s x < nu" if "x \<in> set (freep s # ws)" for x using that nofit nu unfolding ws(2) by (auto simp: linorder_not_le)
  have "malloc_loop grow nu (freep s) (hptr s (freep s)) s = malloc_loop grow nu (last (freep s # ws)) (freep s) s"
    by (rule malloc_pass [OF ws(1)]) (use un ws(3) in auto)
  then show ?thesis using un [of "freep s"] by (subst (asm) (2) malloc_loop.simps) (simp add: linorder_not_le [symmetric])
qed

section \<open>Handing out a block\<close>

lemma free_block_facts:
  assumes h: "heap_ok lo s xs A" and p: "p \<in> set xs"
  shows "\<And>a. a \<in> set xs \<Longrightarrow> a \<noteq> p \<Longrightarrow> bytes a (hsize s a) \<inter> bytes p (hsize s p) = {}"
    "bytes p (hsize s p) \<inter> owned_bytes A = {}" "bytes p (hsize s p) \<subseteq> free_bytes s xs" "p \<noteq> base s"
    "distinct (base s # xs)"
proof -
  have sw: "sorted_wrt (before s) (base s # xs)" using h by (simp add: heap_ok_def free_list_def)
  then show d: "distinct (base s # xs)" by (rule sorted_distinct)
  then show "p \<noteq> base s" using p by auto
  show "bytes a (hsize s a) \<inter> bytes p (hsize s p) = {}" if "a \<in> set xs" "a \<noteq> p" for a
    using sorted_wrt_either [of "before s" xs a p] sw that p by (auto simp: before_def bytes_def)
  show sub: "bytes p (hsize s p) \<subseteq> free_bytes s xs" using p by (auto simp: free_bytes_def)
  then show "bytes p (hsize s p) \<inter> owned_bytes A = {}" using h by (auto simp: heap_ok_def)
qed

lemma owned_facts:
  assumes "owned A s" "x \<in> A"
  shows "bytes (fst x) (snd x) \<subseteq> owned_bytes A" "unat (fst x) \<in> owned_bytes A"
    "hsize s (fst x) = snd x" "0 < unat (snd x)"
proof -
  show "bytes (fst x) (snd x) \<subseteq> owned_bytes A" using assms(2) by (auto simp: owned_bytes_def)
  moreover show "hsize s (fst x) = snd x" "0 < unat (snd x)" using assms by (auto simp: owned_def)
  ultimately show "unat (fst x) \<in> owned_bytes A" using bytes_first by blast
qed

text \<open>A part \<open>b\<close> of the free block \<open>p\<close> becomes an owned block.\<close>

lemma take_part:
  assumes h: "heap_ok lo s xs A" and p: "p \<in> set xs" and b: "bytes b nu \<subseteq> bytes p (hsize s p)" "hsize s' b = nu" "0 < unat nu"
    and keep: "\<And>x. x \<in> A \<Longrightarrow> hsize s' (fst x) = hsize s (fst x)"
    and fl: "free_list lo s' xs'" "free_bytes s' xs' = free_bytes s xs - bytes b nu" "brk s' = brk s"
  shows "heap_ok lo s' xs' (insert (b, nu) A) \<and> (b, nu) \<notin> A"
proof -
  note pf = free_block_facts [OF h p]
  have o: "owned A s" and u: "free_bytes s xs \<union> owned_bytes A = {lo ..< unat (brk s)}" "free_bytes s xs \<inter> owned_bytes A = {}"
    using h by (auto simp: heap_ok_def)
  have e: "bytes b nu \<inter> owned_bytes A = {}" using b(1) pf(2) by blast
  have new: "(b, nu) \<notin> A" using owned_facts(1) [OF o, of "(b, nu)"] bytes_first [OF b(3), of b] e by auto
  have "bytes b nu \<inter> bytes (fst x) (snd x) = {}" if "x \<in> A" for x using e owned_facts(1) [OF o that] by blast
  then have "owned (insert (b, nu) A) s'" using o keep b(2,3) by (fastforce simp: owned_def)
  moreover have "owned_bytes (insert (b, nu) A) = bytes b nu \<union> owned_bytes A" by (simp add: owned_bytes_def)
  ultimately show ?thesis using new fl u b(1) pf(3) e unfolding heap_ok_def by auto
qed

lemma take_exact:
  assumes h: "heap_ok lo s xs A" and pp: "pp \<in> set (base s # xs)" "hptr s pp = p" "p \<in> set xs" and nu: "hsize s p = nu" "0 < unat nu"
  defines "s' \<equiv> s\<lparr>hptr := (hptr s)(pp := hptr s p), freep := pp\<rparr>"
  shows "\<exists>xs'. heap_ok lo s' xs' (insert (p, nu) A) \<and> (p, nu) \<notin> A"
proof -
  note pf = free_block_facts [OF h pp(3)]
  have fl: "free_list lo s xs" and c: "circ (hptr s) (base s # xs)" and sw: "sorted_wrt (before s) (base s # xs)"
    using h by (auto simp: heap_ok_def free_list_def)
  obtain us zs where us: "base s # xs = us @ p # zs" using pp(3) by (metis list.set_intros(2) split_list)
  then obtain ys q where ys: "us = ys @ [q]" using pf(4) by (cases us rule: rev_cases) auto
  have "hptr s q = p" using circ_next [of "hptr s" ys q "p # zs"] c us ys by simp
  moreover have "q \<in> set (base s # xs)" unfolding us ys by simp
  ultimately have "q = pp" using circ_inj [OF c pf(5), of q pp] pp(1,2) by simp
  then have sp: "base s # xs = ys @ pp # p # zs" using us ys by simp
  obtain xs' where xs': "ys @ pp # zs = base s # xs'" using sp pf(4) by (cases ys) auto
  have xs1: "set xs' = set xs - {p}" using pf(5) xs' sp by (cases ys) auto
  have "circ (hptr s') (base s # xs')"
    using c pf(5) unfolding sp xs' [symmetric] circ_split s'_def by auto
  moreover have "sorted_wrt (before s) (base s # xs')"
    using sw unfolding sp xs' [symmetric] by (auto simp: sorted_wrt_append)
  moreover have "pp \<in> set (base s # xs')" unfolding xs' [symmetric] by simp
  moreover have "before s' = before s" by (simp add: before_def fun_eq_iff s'_def)
  ultimately have "free_list lo s' xs'" using fl xs1 by (auto simp: free_list_def s'_def)
  moreover have "free_bytes s' xs' = free_bytes s xs - bytes p nu"
  proof -
    have "free_bytes s xs = free_bytes s xs' \<union> bytes p nu" using xs1 pp(3) nu(1) by (auto simp: free_bytes_def)
    moreover have "free_bytes s xs' \<inter> bytes p nu = {}" using pf(1) xs1 nu(1) by (fastforce simp: free_bytes_def)
    ultimately show ?thesis by (auto simp: free_bytes_def s'_def)
  qed
  ultimately show ?thesis using take_part [OF h pp(3), of p nu s' xs'] nu by (auto simp: s'_def)
qed

lemma take_tail:
  assumes h: "heap_ok lo s xs A" and pp: "pp \<in> set (base s # xs)" "p \<in> set xs" and nu: "nu < hsize s p" "0 < unat nu"
  defines "m \<equiv> hsize s p - nu"
  defines "q \<equiv> p + HDR * m"
  defines "s' \<equiv> s\<lparr>hsize := (hsize s)(p := m, q := nu), freep := pp\<rparr>"
  shows "heap_ok lo s' xs (insert (q, nu) A) \<and> (q, nu) \<notin> A"
proof -
  note pf = free_block_facts [OF h pp(2)]
  have fl: "free_list lo s xs" and o: "owned A s" using h by (auto simp: heap_ok_def)
  have rng: "0 < unat (hsize s a) \<and> lo \<le> unat a \<and> unat a + 8 * unat (hsize s a) \<le> unat (brk s)" if "a \<in> set xs" for a
    using fl that by (simp add: free_list_def)
  have "unat m = unat (hsize s p) - unat nu" unfolding m_def using nu(1) by (intro unat_sub) simp
  then have mm: "unat m + unat nu = unat (hsize s p)" "0 < unat m" using nu(1) by (simp_all add: word_less_nat_alt)
  have q: "unat q = unat p + 8 * unat m" unfolding q_def by (rule unat_end) (use rng [OF pp(2)] mm unat_lt32 [of "brk s"] in simp)
  have split: "bytes p (hsize s p) = bytes p m \<union> bytes q nu" "bytes p m \<inter> bytes q nu = {}" using q mm(1) by (auto simp: bytes_def)
  have qp: "q \<noteq> p" using q mm(2) by auto
  have qq: "unat q \<in> bytes p (hsize s p)" "unat p \<in> bytes p (hsize s p)"
    using bytes_first [OF nu(2), of q] bytes_first [OF mm(2), of p] split(1) by auto
  have qx: "q \<notin> set xs"
  proof
    assume a: "q \<in> set xs"
    then have "unat q \<in> bytes q (hsize s q)" using rng by (intro bytes_first) simp
    then show False using pf(1) [OF a qp] qq(1) by (metis IntI empty_iff)
  qed
  have qb: "q \<noteq> base s" using q fl rng [OF pp(2)] by (auto simp: free_list_def)
  have hs: "hsize s' = (hsize s)(p := m, q := nu)" by (simp add: s'_def)
  have qn: "q \<notin> set (base s # xs)" using qx qb by simp
  have bef: "before s' a b" if "before s a b" "a \<noteq> q" for a b using that mm(1) hs by (auto simp: before_def)
  have sw: "sorted_wrt (before s) (base s # xs)" using fl by (simp add: free_list_def)
  have "sorted_wrt (before s') (base s # xs)" by (rule sorted_wrt_mono_rel [OF _ sw]) (metis bef qn)
  moreover have "0 < unat (hsize s' a) \<and> lo \<le> unat a \<and> unat a + 8 * unat (hsize s' a) \<le> unat (brk s)" if "a \<in> set xs" for a
    using rng [OF that] mm qx that hs by auto
  ultimately have "free_list lo s' xs" using fl pp(1) qb pf(4) by (simp add: free_list_def s'_def)
  moreover have "free_bytes s' xs = free_bytes s xs - bytes q nu"
  proof -
    have "bytes a (hsize s' a) = bytes a (hsize s a) - bytes q nu" if "a \<in> set xs" for a
      using pf(1) [OF that] split qx qp that hs by (cases "a = p") auto
    then show ?thesis by (auto simp: free_bytes_def)
  qed
  moreover have "hsize s' (fst x) = hsize s (fst x)" if "x \<in> A" for x
    using owned_facts(2) [OF o that] pf(2) qq hs by auto
  ultimately show ?thesis using take_part [OF h pp(2), of q nu s' xs] split(1) nu hs by (auto simp: s'_def)
qed

lemma take_block_run:
  assumes "heap_ok lo s xs A" "pp \<in> set (base s # xs)" "hptr s pp = p" "p \<in> set xs" "nu \<le> hsize s p" "0 < unat nu"
  shows "\<exists>b s' xs'. take_block nu pp p s = (b + HDR, s') \<and> heap_ok lo s' xs' (insert (b, nu) A) \<and> (b, nu) \<notin> A"
proof (cases "hsize s p = nu")
  case True
  then show ?thesis using take_exact [OF assms(1-4) True assms(6)] by (fastforce simp: take_block_def)
next
  case False
  then have "nu < hsize s p" using assms(5) by simp
  from take_tail [OF assms(1,2,4) this assms(6)] show ?thesis using False by (fastforce simp: take_block_def Let_def)
qed

section \<open>The allocator is correct\<close>

lemma malloc_loop_run:
  assumes h: "heap_ok lo s xs A" and sane: "sbrk_sane grow" and nu: "0 < unat nu" "unat nu < 2 ^ 28"
  shows "\<exists>r s'. malloc_loop grow nu (freep s) (hptr s (freep s)) s = Some (r, s') \<and>
    ((\<exists>b xs'. r = b + HDR \<and> heap_ok lo s' xs' (insert (b, nu) A) \<and> (b, nu) \<notin> A) \<or>
     r = 0 \<and> s' = s \<and> \<not> grow (brk s) (core_units nu * HDR))"
proof -
  have nu0: "0 < nu" using nu(1) by (simp add: word_less_nat_alt)
  have fit: "\<exists>r s'. malloc_loop grow nu (freep t) (hptr t (freep t)) t = Some (r, s') \<and>
      (\<exists>b xs'. r = b + HDR \<and> heap_ok lo s' xs' (insert (b, nu) A) \<and> (b, nu) \<notin> A)"
    if t: "heap_ok lo t ys A" and a: "a \<in> set ys" "nu \<le> hsize t a" for t ys a
  proof -
    have "free_list lo t ys" using t by (simp add: heap_ok_def)
    from malloc_loop_fit [OF this a nu0] obtain pp p
      where p: "malloc_loop grow nu (freep t) (hptr t (freep t)) t = Some (take_block nu pp p t)"
        "pp \<in> set (base t # ys)" "hptr t pp = p" "p \<in> set ys" "nu \<le> hsize t p" by blast
    from take_block_run [OF t p(2-5) nu(1)] show ?thesis using p(1) by auto
  qed
  have fl: "free_list lo s xs" using h by (simp add: heap_ok_def)
  show ?thesis
  proof (cases "\<exists>a\<in>set xs. nu \<le> hsize s a")
    case True
    then obtain a where "a \<in> set xs" "nu \<le> hsize s a" by blast
    from fit [OF h this] show ?thesis by (elim exE conjE) (intro exI conjI disjI1)
  next
    case 2: False
    then have "\<And>a. a \<in> set xs \<Longrightarrow> \<not> nu \<le> hsize s a" by blast
    note run = malloc_loop_none [OF fl this nu0, of grow]
    show ?thesis
    proof (cases "grow (brk s) (core_units nu * HDR)")
      case True
      from morecore_run [OF h sane nu(2) True] obtain s' xs' a
        where s': "morecore grow nu s = Some (freep s', s')" "freep s' \<noteq> 0" "heap_ok lo s' xs' A" "a \<in> set xs'" "nu \<le> hsize s' a" by blast
      have eq: "malloc_loop grow nu (freep s) (hptr s (freep s)) s = malloc_loop grow nu (freep s') (hptr s' (freep s')) s'"
        using run s'(1,2) by simp
      from fit [OF s'(3-5)] show ?thesis unfolding eq by (elim exE conjE) (intro exI conjI disjI1)
    next
      case False
      then have "morecore grow nu s = Some (0, s)"
        using core_units_bytes(5) [OF nu(2)] by (simp add: morecore_def sbrk_def core_units_def [symmetric] Let_def)
      then show ?thesis using False run by simp
    qed
  qed
qed

text \<open>Before the first call of \<^verbatim>\<open>malloc\<close> the list does not exist; afterwards it does.\<close>

definition heap_inv :: "nat \<Rightarrow> heap \<Rightarrow> (u32 \<times> u32) set \<Rightarrow> bool" where
  "heap_inv lo s A \<longleftrightarrow>
     freep s = 0 \<and> A = {} \<and> base s \<noteq> 0 \<and> unat (base s) < lo \<and> unat (brk s) = lo \<or> (\<exists>xs. heap_ok lo s xs A)"

lemma unat_units: "unat nbytes \<le> 2 ^ 32 - 16 \<Longrightarrow> unat (units nbytes) = (unat nbytes + 7) div 8 + 1"
proof -
  assume n: "unat nbytes \<le> 2 ^ 32 - 16"
  have "unat (nbytes + 7) = unat nbytes + 7" using n by (simp add: unat_word_ariths)
  then have "unat ((nbytes + 7) div 8) = (unat nbytes + 7) div 8" by (simp add: unat_div)
  moreover have "(unat nbytes + 7) div 8 + 1 < 2 ^ 32" using n by simp
  moreover have "units nbytes = (nbytes + 7) div 8 + 1" by (simp add: units_def HDR_def add_diff_eq [symmetric])
  ultimately show ?thesis using unat_plus [of "(nbytes + 7) div 8" 1] by simp
qed

lemma heap_first:
  assumes "base s \<noteq> 0" "unat (base s) < lo" "unat (brk s) = lo"
  shows "heap_ok lo (s\<lparr>freep := base s, hptr := (hptr s)(base s := base s), hsize := (hsize s)(base s := 0)\<rparr>) [] {}"
  using assms by (simp add: heap_ok_def free_list_def circ_def owned_def owned_bytes_def)

lemma heap_nonzero: "heap_ok lo s xs A \<Longrightarrow> freep s \<noteq> 0"
  using free_list_nonzero [of lo s xs "freep s"] by (simp add: heap_ok_def free_list_def)

text \<open>
  C11. \<^verbatim>\<open>malloc\<close> of up to \<open>2^31 - 16\<close> bytes returns a block of at least the requested size that overlaps no block the program owns, and
  keeps the invariant: all bytes of the heap are free or in exactly one owned block. It returns the null
  pointer, and takes nothing, only when the kernel refuses to grow the memory. It always returns. (For larger requests the
  number of bytes is negative for \<^verbatim>\<open>sbrk\<close>.)
\<close>

theorem malloc_correct:
  assumes "heap_inv lo s A" "sbrk_sane grow" "unat nbytes \<le> 2 ^ 31 - 16"
  shows "\<exists>r s'. malloc grow nbytes s = Some (r, s') \<and>
    (if r = 0 then heap_inv lo s' A \<and> brk s' = brk s \<and> \<not> grow (brk s) (core_units (units nbytes) * HDR)
     else heap_inv lo s' (insert (r - HDR, units nbytes) A) \<and>
       {unat r ..< unat r + unat nbytes} \<subseteq> bytes (r - HDR) (units nbytes) \<and>
       bytes (r - HDR) (units nbytes) \<inter> owned_bytes A = {})"
proof -
  let ?t = "if freep s = 0 then s\<lparr>freep := base s, hptr := (hptr s)(base s := base s), hsize := (hsize s)(base s := 0)\<rparr> else s"
  let ?n = "units nbytes"
  obtain xs where h: "heap_ok lo ?t xs A" using assms(1) heap_first heap_nonzero by (fastforce simp: heap_inv_def)
  have n: "0 < unat ?n" "unat ?n < 2 ^ 28" "unat nbytes + 8 \<le> 8 * unat ?n" using unat_units [of nbytes] assms(3) by simp_all
  have brk: "brk ?t = brk s" by simp
  from malloc_loop_run [OF h assms(2) n(1,2)] obtain r s' where r: "malloc grow nbytes s = Some (r, s')"
    "(\<exists>b xs'. r = b + HDR \<and> heap_ok lo s' xs' (insert (b, ?n) A) \<and> (b, ?n) \<notin> A) \<or>
     r = 0 \<and> s' = ?t \<and> \<not> grow (brk s) (core_units ?n * HDR)"
    unfolding malloc_def Let_def brk by blast
  from r(2) show ?thesis
  proof
    assume "\<exists>b xs'. r = b + HDR \<and> heap_ok lo s' xs' (insert (b, ?n) A) \<and> (b, ?n) \<notin> A"
    then obtain b xs' where b: "r = b + HDR" "heap_ok lo s' xs' (insert (b, ?n) A)" "(b, ?n) \<notin> A" by blast
    note ob = owned_insert [OF b(2,3)]
    have "unat (b + HDR * 1) = unat b + 8 * unat (1 :: u32)"
      by (rule unat_end) (use ob(2,4) unat_lt32 [of "brk s'"] in simp)
    then have rb: "unat r = unat b + 8" using b(1) by simp
    then have "r \<noteq> 0" by auto
    moreover have "{unat r ..< unat r + unat nbytes} \<subseteq> bytes b ?n" using rb n(3) by (auto simp: bytes_def)
    moreover have "r - HDR = b" using b(1) by simp
    ultimately show ?thesis using r(1) b(2) ob(7) by (auto simp: heap_inv_def)
  qed (use r(1) h in \<open>auto simp: heap_inv_def\<close>)
qed

text \<open>
  C18. \<^verbatim>\<open>free\<close> of an owned block always returns, makes all its bytes free again and keeps the invariant: the
  other blocks stay as they are and can still be freed.
\<close>

theorem free_correct:
  assumes "heap_inv lo s (insert (b, n) A)" "(b, n) \<notin> A"
  shows "\<exists>s'. ufree (b + HDR) s = Some s' \<and> heap_inv lo s' A \<and> brk s' = brk s"
  using assms ufree_run [of lo s _ b n A] by (fastforce simp: heap_inv_def)

text \<open>
  The size computation wraps around: a request of nearly 4 GB is served like a request of no bytes, so
  \<^verbatim>\<open>malloc\<close> hands out a pointer to an empty block instead of the null pointer.
\<close>

theorem malloc_wraps:
  assumes "2 ^ 32 - 8 < unat nbytes"
  shows "malloc grow nbytes s = malloc grow 0 s \<and> units nbytes = 1"
proof -
  have "unat (nbytes + 7) = unat nbytes + 7 - 2 ^ 32"
    using assms unat_lt32 [of nbytes] by (simp add: unat_word_ariths mod_if)
  then have "unat (nbytes + 7) < 8" using unat_lt32 [of nbytes] by simp
  then have "(nbytes + 7) div 8 = 0" by (simp add: word_unat_eq_iff unat_div)
  then have "units nbytes = 1" by (simp add: units_def HDR_def add.commute)
  moreover have "units 0 = 1" by (simp add: units_def HDR_def word_unat_eq_iff unat_div)
  ultimately show ?thesis by (simp add: malloc_def)
qed

text \<open>
  A request of \<open>2^31\<close> bytes or more is negative when it reaches \<^verbatim>\<open>sbrk\<close>: the call succeeds, and the memory is not larger afterwards.
  So \<^verbatim>\<open>malloc\<close> on an empty heap, instead of failing, treats memory that the process does not have as a block of the requested size.
\<close>

theorem malloc_negative:
  assumes "2 ^ 31 \<le> unat (nu * HDR)" "4096 \<le> nu" "brk s \<noteq> 0" "brk s + nu * HDR \<noteq> 0" "brk s \<noteq> - 1"
  shows "\<exists>s'. sbrk grow (nu * HDR) s = (brk s, s') \<and> brk s' \<le> brk s \<and>
    morecore grow nu s = map_option (\<lambda>s. (freep s, s)) (ufree (brk s + HDR) (s'\<lparr>hsize := (hsize s)(brk s := nu)\<rparr>))"
proof -
  have "sint (nu * HDR) < 0"
  proof (rule ccontr)
    assume "\<not> sint (nu * HDR) < 0"
    then have "int (unat (nu * HDR)) = sint (nu * HDR)" using unat_sint [of "nu * HDR"] by linarith
    moreover have "sint (nu * HDR) < 2 ^ 31" using sint_less [of "nu * HDR"] by simp
    moreover have "int (2 ^ 31) \<le> int (unat (nu * HDR))" using assms(1) by (rule of_nat_mono)
    ultimately show False by (simp del: of_nat_unat)
  qed
  then show ?thesis using assms by (auto simp: sbrk_def morecore_def Let_def not_less map_option_case split: option.split)
qed

section \<open>Witnesses\<close>

definition cold_heap :: heap where
  "cold_heap = \<lparr>hptr = \<lambda>_. 0, hsize = \<lambda>_. 0, freep = 0, base = 0x100, brk = 0x1000\<rparr>"

definition grow_64k :: "u32 \<Rightarrow> u32 \<Rightarrow> bool" where
  "grow_64k b n \<longleftrightarrow> unat b + unat n < 2 ^ 17"

lemma cold_heap_inv: "heap_inv 0x1000 cold_heap {}" "sbrk_sane grow_64k"
  by (auto simp: heap_inv_def cold_heap_def sbrk_sane_def grow_64k_def)

theorem malloc_correct_witness:
  "\<exists>r s'. malloc grow_64k 24 cold_heap = Some (r, s') \<and>
    (if r = 0 then heap_inv 0x1000 s' {} \<and> brk s' = brk cold_heap \<and> \<not> grow_64k (brk cold_heap) (core_units (units 24) * HDR)
     else heap_inv 0x1000 s' (insert (r - HDR, units 24) {}) \<and>
       {unat r ..< unat r + unat (24 :: u32)} \<subseteq> bytes (r - HDR) (units 24) \<and>
       bytes (r - HDR) (units 24) \<inter> owned_bytes {} = {})"
  by (rule malloc_correct [OF cold_heap_inv]) simp

lemma one_block_inv:
  "heap_inv 0x1000 \<lparr>hptr = \<lambda>_. 0x100, hsize = (\<lambda>_. 0)(0x1000 := 2), freep = 0x100, base = 0x100, brk = 0x1010\<rparr> {(0x1000, 2)}"
  unfolding heap_inv_def
  by (rule disjI2, rule exI [of _ "[]"]) (simp add: heap_ok_def free_list_def circ_def owned_def owned_bytes_def bytes_def)

theorem free_correct_witness:
  "\<exists>s'. ufree (0x1000 + HDR) \<lparr>hptr = \<lambda>_. 0x100, hsize = (\<lambda>_. 0)(0x1000 := 2), freep = 0x100, base = 0x100, brk = 0x1010\<rparr> = Some s' \<and>
    heap_inv 0x1000 s' {} \<and> brk s' = 0x1010"
  using free_correct [OF one_block_inv] by simp

theorem malloc_wraps_witness: "malloc grow_64k (- 1) cold_heap = malloc grow_64k 0 cold_heap \<and> units (- 1) = 1"
  by (rule malloc_wraps) (simp add: unsigned_minus_1_eq_mask mask_eq_exp_minus_1)

end
