(* ===== verification/Listing.thy ===== *)
theory Listing
  imports User Grep
begin

text \<open>
  Two more programs as trees of system calls: \<^verbatim>\<open>src/ls.c\<close>, and \<^verbatim>\<open>main\<close> of \<^verbatim>\<open>src/grep.c\<close> with the reads of its line buffer.
\<close>

section \<open>ls\<close>

definition LS_DIRSIZ :: nat where "LS_DIRSIZ = 14"

text \<open>The last element of a path, padded with blanks to the length of a directory entry's name.\<close>

definition fmtname :: "u8 list \<Rightarrow> u8 list" where
  "fmtname path =
     (let p = rev (takeWhile (\<lambda>c. c \<noteq> 0x2f) (rev path)) in
      if length p \<ge> LS_DIRSIZ then p else p @ replicate (LS_DIRSIZ - length p) 0x20)"

text \<open>\<^verbatim>\<open>stat\<close> of \<^verbatim>\<open>src/ulib.c\<close>; \<open>st\<close> is what the structure held before.\<close>

definition path_stat :: "u8 list \<Rightarrow> ustat \<Rightarrow> (int \<Rightarrow> ustat \<Rightarrow> prog) \<Rightarrow> prog" where
  "path_stat n st k =
     Call (COpen n 0) (\<lambda>fd. if fd < 0 then k (- 1) st
       else Stat fd (\<lambda>r st. Call (CClose fd) (\<lambda>_. k r st)))"

definition ls_line :: "u8 list \<Rightarrow> ustat \<Rightarrow> prog \<Rightarrow> prog" where
  "ls_line path st k =
     uprint 1 (chars ''%s %d %d %d'' @ [nl_char])
       [UStr (Some (fmtname path)), UInt (scast (us_type st)), UInt (us_ino st), UInt (us_size st)] k"

text \<open>The entries of a directory; \<open>f\<close> bounds the calls of \<^verbatim>\<open>read\<close> that the tree unfolds.\<close>

primrec ls_entries :: "nat \<Rightarrow> int \<Rightarrow> u8 list \<Rightarrow> ustat \<Rightarrow> prog \<Rightarrow> prog" where
  "ls_entries 0 fd path st k = Going"
| "ls_entries (Suc f) fd path st k =
     Read fd 16 (\<lambda>n de.
       if n \<noteq> 16 then k
       else if get16 de 0 = 0 then ls_entries f fd path st k
       else let buf = path @ [0x2f] @ takeWhile (\<lambda>c. c \<noteq> 0) (take LS_DIRSIZ (drop 2 de)) in
         path_stat buf st (\<lambda>r st.
           if r < 0 then uprint 1 (chars ''ls: cannot stat %s'' @ [nl_char]) [UStr (Some buf)] (ls_entries f fd path st k)
           else ls_line buf st (ls_entries f fd path st k)))"

definition ls :: "nat \<Rightarrow> u8 list \<Rightarrow> prog \<Rightarrow> prog" where
  "ls f path k =
     Call (COpen path 0) (\<lambda>fd.
       if fd < 0 then uprint 2 (chars ''ls: cannot open %s'' @ [nl_char]) [UStr (Some path)] k
       else Stat fd (\<lambda>r st.
         let done = Call (CClose fd) (\<lambda>_. k) in
         if r < 0 then uprint 2 (chars ''ls: cannot stat %s'' @ [nl_char]) [UStr (Some path)] done
         else if us_type st = 2 then ls_line path st done
         else if us_type st = 1 then
           if length path + 1 + LS_DIRSIZ + 1 > 512 then uprint 1 (chars ''ls: path too long'' @ [nl_char]) [] done
           else ls_entries f fd path st done
         else done))"

definition ls_main :: "nat \<Rightarrow> u8 list list \<Rightarrow> prog" where
  "ls_main f argv = (if length argv < 2 then ls f (chars ''.'') Exit else foldr (ls f) (drop 1 argv) Exit)"

section \<open>grep\<close>

text \<open>
  The lines of one buffer that match are one call of \<^verbatim>\<open>write\<close> here (the source writes each line by itself to the same
  descriptor). The buffer is global: it keeps its bytes from one file to the next.
\<close>

primrec grep_fd :: "nat \<Rightarrow> u8 list \<Rightarrow> int \<Rightarrow> int \<Rightarrow> u8 list \<Rightarrow> (u8 list \<Rightarrow> prog) \<Rightarrow> prog" where
  "grep_fd 0 pattern fd m buf k = Going"
| "grep_fd (Suc f) pattern fd m buf k =
     (if m < 0 then Crash Fault
      else Read fd (BUFSZ - nat m) (\<lambda>n c.
        if n > 0 then
          (case grep_lines pattern (splice (nat m) c buf) 0 [] of
            (Inl e, out) \<Rightarrow> Call (CWrite 1 out) (\<lambda>_. Crash e)
          | (Inr (p, buf), out) \<Rightarrow>
              let m = m + n; m = if p = 0 then 0 else m in
              Call (CWrite 1 out) (\<lambda>_.
                if m > 0 then let m = m - int p in
                  grep_fd f pattern fd m (splice 0 (take (nat m) (drop p buf)) buf) k
                else grep_fd f pattern fd m buf k))
        else k buf))"

fun grep_files :: "nat \<Rightarrow> u8 list \<Rightarrow> u8 list list \<Rightarrow> u8 list \<Rightarrow> prog" where
  "grep_files f pattern [] buf = Exit"
| "grep_files f pattern (a # as) buf =
     Call (COpen a 0) (\<lambda>fd.
       if fd < 0 then uprint 1 (chars ''grep: cannot open %s'' @ [nl_char]) [UStr (Some a)] Exit
       else grep_fd f pattern fd 0 buf (\<lambda>buf. Call (CClose fd) (\<lambda>_. grep_files f pattern as buf)))"

definition grep_main :: "nat \<Rightarrow> u8 list list \<Rightarrow> prog" where
  "grep_main f argv =
     (if length argv \<le> 1 then uprint 2 (chars ''usage: grep pattern [file ...]'' @ [nl_char]) [] Exit
      else if length argv \<le> 2 then grep_fd f (argv ! 1) 0 0 (replicate BUFSZ 0) (\<lambda>_. Exit)
      else grep_files f (argv ! 1) (drop 2 argv) (replicate BUFSZ 0))"

end
