(* ===== verification/Usertests.thy ===== *)
theory Usertests
  imports User Fs_Inode
begin

text \<open>
  The test program (\<^verbatim>\<open>src/usertests.c\<close>) as a tree of system calls. A test is a function of what follows it: \<open>k\<close> is the
  program after the test has returned. The global buffer \<^verbatim>\<open>buf\<close> keeps its bytes from test to test and is passed along.
  \<open>f\<close> bounds the rounds of loops that a kernel could keep going for ever. A loop over an index is a fold over the list of its values.
\<close>

section \<open>Messages and checked calls\<close>

definition msg :: "string \<Rightarrow> u8 list" where
  "msg cs = chars cs @ [nl_char]"

definition tell :: "u8 list \<Rightarrow> prog \<Rightarrow> prog" where
  "tell m k = uprint 1 m [] k"

definition die :: "u8 list \<Rightarrow> prog" where
  "die m = tell m Exit"

definition unless :: "call \<Rightarrow> (int \<Rightarrow> bool) \<Rightarrow> u8 list \<Rightarrow> prog \<Rightarrow> prog" where
  "unless c bad m k = Call c (\<lambda>r. if bad r then die m else k)"

definition go :: "call \<Rightarrow> prog \<Rightarrow> prog" where
  "go c k = Call c (\<lambda>_. k)"

definition CREATE_RDWR :: u32 where "CREATE_RDWR = UO_CREATE OR UO_RDWR"

text \<open>What a read left in a buffer: the bytes it delivered, then the old ones.\<close>

definition into :: "u8 list \<Rightarrow> u8 list \<Rightarrow> u8 list" where
  "into buf bs = splice 0 bs buf"

section \<open>Simple file tests\<close>

definition opentest :: "prog \<Rightarrow> prog" where
  "opentest k =
     tell (msg ''open test'')
     (Call (COpen (chars ''echo'') 0) (\<lambda>fd.
       if fd < 0 then die (msg ''open echo failed!'')
       else go (CClose fd)
         (unless (COpen (chars ''doesnotexist'') 0) (\<lambda>fd. fd \<ge> 0) (msg ''open doesnotexist succeeded!'')
         (tell (msg ''open test ok'') k))))"

definition writetest_round :: "int \<Rightarrow> nat \<Rightarrow> prog \<Rightarrow> prog" where
  "writetest_round fd i k =
     Call (CWrite fd (chars ''aaaaaaaaaa'')) (\<lambda>r.
       if r \<noteq> 10 then uprint 1 (msg ''error: write aa %d new file failed'') [UInt (of_nat i)] Exit
       else Call (CWrite fd (chars ''bbbbbbbbbb'')) (\<lambda>r.
         if r \<noteq> 10 then uprint 1 (msg ''error: write bb %d new file failed'') [UInt (of_nat i)] Exit
         else k))"

definition writetest :: "u8 list \<Rightarrow> (u8 list \<Rightarrow> prog) \<Rightarrow> prog" where
  "writetest buf k =
     tell (msg ''small file test'')
     (Call (COpen (chars ''small'') CREATE_RDWR) (\<lambda>fd.
       if fd \<ge> 0 then tell (msg ''creat small succeeded; ok'')
         (foldr (writetest_round fd) [0..<100]
         (tell (msg ''writes ok'')
         (go (CClose fd)
         (Call (COpen (chars ''small'') 0) (\<lambda>fd.
           if fd \<ge> 0 then tell (msg ''open small succeeded ok'')
             (Read fd 2000 (\<lambda>i bs.
               if i = 2000 then tell (msg ''read succeeded ok'')
                 (go (CClose fd)
                 (unless (CUnlink (chars ''small'')) (\<lambda>r. r < 0) (msg ''unlink small failed'')
                 (tell (msg ''small file test ok'') (k (into buf bs)))))
               else die (msg ''read failed'')))
           else die (msg ''error: open small failed!''))))))
       else die (msg ''error: creat small failed!'')))"

primrec writetest1_write :: "nat \<Rightarrow> nat \<Rightarrow> int \<Rightarrow> u8 list \<Rightarrow> (u8 list \<Rightarrow> prog) \<Rightarrow> prog" where
  "writetest1_write 0 i fd buf k = k buf"
| "writetest1_write (Suc m) i fd buf k =
     (let buf = put32 0 (of_nat i) buf in
      Call (CWrite fd (take 512 buf)) (\<lambda>r.
        if r \<noteq> 512 then uprint 1 (msg ''error: write big file failed'') [UInt (of_nat i)] Exit
        else writetest1_write m (Suc i) fd buf k))"

primrec writetest1_read :: "nat \<Rightarrow> int \<Rightarrow> nat \<Rightarrow> u8 list \<Rightarrow> (u8 list \<Rightarrow> prog) \<Rightarrow> prog" where
  "writetest1_read 0 fd n buf k = Going"
| "writetest1_read (Suc f) fd n buf k =
     Read fd 512 (\<lambda>i bs.
       if i = 0 then
         if n = MAXFILE - 1 then uprint 1 (chars ''read only %d blocks from big'') [UInt (of_nat n)] Exit else k buf
       else if i \<noteq> 512 then uprint 1 (msg ''read failed %d'') [UInt (word_of_int i)] Exit
       else let buf = into buf bs in
         if get32 buf 0 \<noteq> of_nat n
         then uprint 1 (msg ''read content of block %d is %d'') [UInt (of_nat n), UInt (get32 buf 0)] Exit
         else writetest1_read f fd (Suc n) buf k)"

definition writetest1 :: "nat \<Rightarrow> u8 list \<Rightarrow> (u8 list \<Rightarrow> prog) \<Rightarrow> prog" where
  "writetest1 f buf k =
     tell (msg ''big files test'')
     (Call (COpen (chars ''big'') CREATE_RDWR) (\<lambda>fd.
       if fd < 0 then die (msg ''error: creat big failed!'')
       else writetest1_write MAXFILE 0 fd buf (\<lambda>buf.
         go (CClose fd)
         (Call (COpen (chars ''big'') 0) (\<lambda>fd.
           if fd < 0 then die (msg ''error: open big failed!'')
           else writetest1_read f fd 0 buf (\<lambda>buf.
             go (CClose fd)
             (unless (CUnlink (chars ''big'')) (\<lambda>r. r < 0) (msg ''unlink big failed'')
             (tell (msg ''big files ok'') (k buf)))))))))"

text \<open>The names of two characters that several tests make up.\<close>

definition name2 :: "u8 \<Rightarrow> nat \<Rightarrow> u8 list" where
  "name2 c i = [c, 0x30 + of_nat i]"

definition createtest :: "prog \<Rightarrow> prog" where
  "createtest k =
     tell (msg ''many creates, followed by unlink test'')
     (foldr (\<lambda>i k. Call (COpen (name2 0x61 i) CREATE_RDWR) (\<lambda>fd. go (CClose fd) k)) [0..<52]
     (foldr (\<lambda>i. go (CUnlink (name2 0x61 i))) [0..<52]
     (tell (msg ''many creates, followed by unlink; ok'') k)))"

definition dirtest :: "prog \<Rightarrow> prog" where
  "dirtest k =
     tell (msg ''mkdir test'')
     (unless (CMkdir (chars ''dir0'')) (\<lambda>r. r < 0) (msg ''mkdir failed'')
     (unless (CChdir (chars ''dir0'')) (\<lambda>r. r < 0) (msg ''chdir dir0 failed'')
     (unless (CChdir (chars ''..'')) (\<lambda>r. r < 0) (msg ''chdir .. failed'')
     (unless (CUnlink (chars ''dir0'')) (\<lambda>r. r < 0) (msg ''unlink dir0 failed'')
     (tell (msg ''mkdir test'') k)))))"

definition exectest :: prog where
  "exectest =
     tell (msg ''exec test'')
     (Exec (chars ''echo'') [chars ''echo'', chars ''ALL'', chars ''TESTS'', chars ''PASSED'']
       (die (msg ''exec echo failed'')))"

section \<open>Processes and pipes\<close>

definition PIPE1_CHUNK :: nat where "PIPE1_CHUNK = 1033"

primrec pipe1_write :: "nat \<Rightarrow> nat \<Rightarrow> int \<Rightarrow> u8 list \<Rightarrow> prog" where
  "pipe1_write 0 seq fd buf = Exit"
| "pipe1_write (Suc m) seq fd buf =
     (let buf = into buf (map of_nat [seq..<seq + PIPE1_CHUNK]) in
      Call (CWrite fd (take PIPE1_CHUNK buf)) (\<lambda>r.
        if r \<noteq> int PIPE1_CHUNK then die (msg ''pipe1 oops 1'') else pipe1_write m (seq + PIPE1_CHUNK) fd buf))"

text \<open>
  \<open>cc\<close> is the size of the next read: it doubles up to the size of the buffer. As long as every byte is the expected one,
  the counters \<^verbatim>\<open>seq\<close> and \<^verbatim>\<open>total\<close> of the source are equal.
\<close>

primrec pipe1_read :: "nat \<Rightarrow> int \<Rightarrow> nat \<Rightarrow> nat \<Rightarrow> u8 list \<Rightarrow> (u8 list \<Rightarrow> prog) \<Rightarrow> prog" where
  "pipe1_read 0 fd seq cc buf k = Going"
| "pipe1_read (Suc f) fd seq cc buf k =
     Read fd cc (\<lambda>n bs.
       if n > 0 then
         let buf = into buf bs in
         if take (nat n) buf \<noteq> map of_nat [seq..<seq + nat n] then tell (msg ''pipe1 oops 2'') (k buf)
         else pipe1_read f fd (seq + nat n) (if 2 * cc > length buf then length buf else 2 * cc) buf k
       else
         let fin = go (CClose fd) (go CWait (tell (msg ''pipe1 ok'') (k buf))) in
         if seq \<noteq> 5 * PIPE1_CHUNK then uprint 1 (msg ''pipe1 oops 3 total %d'') [UInt (of_nat seq)] fin else fin)"

definition pipe1 :: "nat \<Rightarrow> u8 list \<Rightarrow> (u8 list \<Rightarrow> prog) \<Rightarrow> prog" where
  "pipe1 f buf k =
     MkPipe (\<lambda>r p0 p1.
       if r \<noteq> 0 then die (msg ''pipe() failed'')
       else Call CFork (\<lambda>pid.
         if pid = 0 then go (CClose p0) (pipe1_write 5 0 p1 buf)
         else if pid > 0 then go (CClose p1) (pipe1_read f p0 0 1 buf k)
         else die (msg ''fork() failed'')))"

text \<open>A loop without a body never ends: \<open>Crash Spin\<close>.\<close>

definition preempt :: "u8 list \<Rightarrow> (u8 list \<Rightarrow> prog) \<Rightarrow> prog" where
  "preempt buf k =
     tell (chars ''preempt: '')
     (Call CFork (\<lambda>pid1. if pid1 = 0 then Crash Spin else
      Call CFork (\<lambda>pid2. if pid2 = 0 then Crash Spin else
      MkPipe (\<lambda>_ p0 p1.
      Call CFork (\<lambda>pid3. if pid3 = 0 then
          go (CClose p0)
          (Call (CWrite p1 (chars ''x'')) (\<lambda>r.
            let rest = go (CClose p1) (Crash Spin) in
            if r \<noteq> 1 then tell (chars ''preempt write error'') rest else rest))
        else go (CClose p1)
          (Read p0 (length buf) (\<lambda>n bs.
            let buf = into buf bs in
            if n \<noteq> 1 then tell (chars ''preempt read error'') (k buf)
            else go (CClose p0)
              (tell (chars ''kill... '')
              (go (CKill (word_of_int pid1)) (go (CKill (word_of_int pid2)) (go (CKill (word_of_int pid3))
              (tell (chars ''wait... '')
              (go CWait (go CWait (go CWait
              (tell (msg ''preempt ok'') (k buf)))))))))))))))))"

primrec exitwait_loop :: "nat \<Rightarrow> prog \<Rightarrow> prog" where
  "exitwait_loop 0 k = tell (msg ''exitwait ok'') k"
| "exitwait_loop (Suc m) k =
     Call CFork (\<lambda>pid.
       if pid < 0 then tell (msg ''fork failed'') k
       else if pid \<noteq> 0 then Call CWait (\<lambda>w. if w \<noteq> pid then tell (msg ''wait wrong pid'') k else exitwait_loop m k)
       else Exit)"

definition exitwait :: "prog \<Rightarrow> prog" where
  "exitwait k = exitwait_loop 100 k"

end
