(* ===== verification/Usertests_Fs.thy ===== *)
theory Usertests_Fs
  imports Usertests
begin

text \<open>The file system tests of \<^verbatim>\<open>src/usertests.c\<close>, in the order of the source.\<close>

section \<open>Two processes\<close>

text \<open>\<^verbatim>\<open>sharedfd\<close> has a buffer of its own; it counts all of its ten bytes, however many a read delivered.\<close>

primrec sharedfd_write :: "nat \<Rightarrow> int \<Rightarrow> u8 list \<Rightarrow> prog \<Rightarrow> prog" where
  "sharedfd_write 0 fd b k = k"
| "sharedfd_write (Suc m) fd b k =
     Call (CWrite fd b) (\<lambda>r.
       if r \<noteq> int (length b) then tell (msg ''fstests: write sharedfd failed'') k else sharedfd_write m fd b k)"

primrec sharedfd_read :: "nat \<Rightarrow> int \<Rightarrow> u8 list \<Rightarrow> nat \<Rightarrow> nat \<Rightarrow> (nat \<Rightarrow> nat \<Rightarrow> prog) \<Rightarrow> prog" where
  "sharedfd_read 0 fd b c1 p1 k = Going"
| "sharedfd_read (Suc f) fd b c1 p1 k =
     Read fd (length b) (\<lambda>n bs.
       if n > 0 then let b = into b bs in
         sharedfd_read f fd b (c1 + length (filter (\<lambda>c. c = 0x63) b)) (p1 + length (filter (\<lambda>c. c = 0x70) b)) k
       else k c1 p1)"

definition sharedfd :: "nat \<Rightarrow> prog \<Rightarrow> prog" where
  "sharedfd f k =
     go (CUnlink (chars ''sharedfd''))
     (Call (COpen (chars ''sharedfd'') CREATE_RDWR) (\<lambda>fd.
       if fd < 0 then tell (chars ''fstests: cannot open sharedfd for writing'') k
       else Call CFork (\<lambda>pid.
         let b = replicate 10 (if pid = 0 then 0x63 else 0x70) in
         sharedfd_write 1000 fd b
         (if pid = 0 then Exit
          else go CWait (go (CClose fd)
            (Call (COpen (chars ''sharedfd'') 0) (\<lambda>fd.
              if fd < 0 then tell (msg ''fstests: cannot open sharedfd for reading'') k
              else sharedfd_read f fd b 0 0 (\<lambda>c1 p1.
                go (CClose fd)
                (go (CUnlink (chars ''sharedfd''))
                (if c1 = 10000 \<and> p1 = 10000 then tell (msg ''sharedfd ok'') k
                 else uprint 1 (msg ''sharedfd oops %d %d'') [UInt (of_nat c1), UInt (of_nat p1)] k))))))))))"

definition twofiles_round :: "int \<Rightarrow> u8 list \<Rightarrow> nat \<Rightarrow> prog \<Rightarrow> prog" where
  "twofiles_round fd buf i k =
     Call (CWrite fd (take 500 buf)) (\<lambda>n.
       if n \<noteq> 500 then uprint 1 (msg ''write failed %d'') [UInt (word_of_int n)] Exit else k)"

primrec twofiles_read :: "nat \<Rightarrow> int \<Rightarrow> u8 \<Rightarrow> nat \<Rightarrow> u8 list \<Rightarrow> (nat \<Rightarrow> u8 list \<Rightarrow> prog) \<Rightarrow> prog" where
  "twofiles_read 0 fd c tot buf k = Going"
| "twofiles_read (Suc f) fd c tot buf k =
     Read fd (length buf) (\<lambda>n bs.
       let buf = into buf bs in
       if n > 0 then
         if list_all (\<lambda>x. x = c) (take (nat n) buf) then twofiles_read f fd c (tot + nat n) buf k
         else die (msg ''wrong char'')
       else k tot buf)"

definition twofiles_check :: "nat \<Rightarrow> u8 list \<Rightarrow> u8 \<Rightarrow> u8 list \<Rightarrow> (u8 list \<Rightarrow> prog) \<Rightarrow> prog" where
  "twofiles_check f name c buf k =
     Call (COpen name 0) (\<lambda>fd. twofiles_read f fd c 0 buf (\<lambda>tot buf.
       go (CClose fd)
       (if tot \<noteq> 12 * 500 then uprint 1 (msg ''wrong length %d'') [UInt (of_nat tot)] Exit else k buf)))"

definition twofiles :: "nat \<Rightarrow> u8 list \<Rightarrow> (u8 list \<Rightarrow> prog) \<Rightarrow> prog" where
  "twofiles f buf k =
     tell (msg ''twofiles test'')
     (go (CUnlink (chars ''f1''))
     (go (CUnlink (chars ''f2''))
     (Call CFork (\<lambda>pid.
       if pid < 0 then tell (msg ''fork failed'') (k buf)
       else Call (COpen (if pid \<noteq> 0 then chars ''f1'' else chars ''f2'') CREATE_RDWR) (\<lambda>fd.
         if fd < 0 then die (msg ''create failed'')
         else let buf = into buf (replicate 512 (if pid \<noteq> 0 then 0x70 else 0x63)) in
           foldr (twofiles_round fd buf) [0..<12]
           (go (CClose fd)
           (if pid \<noteq> 0 then go CWait
              (twofiles_check f (chars ''f2'') 0x63 buf (\<lambda>buf.
               twofiles_check f (chars ''f1'') 0x70 buf (\<lambda>buf.
               go (CUnlink (chars ''f1''))
               (go (CUnlink (chars ''f2''))
               (tell (msg ''twofiles ok'') (k buf))))))
            else Exit)))))))"

definition createdelete_make :: "u8 \<Rightarrow> nat \<Rightarrow> prog \<Rightarrow> prog" where
  "createdelete_make c i k =
     Call (COpen (name2 c i) CREATE_RDWR) (\<lambda>fd.
       if fd < 0 then die (msg ''create failed'')
       else go (CClose fd)
         (if i > 0 \<and> i mod 2 = 0
          then unless (CUnlink (name2 c (i div 2))) (\<lambda>r. r < 0) (msg ''unlink failed'') k
          else k))"

definition createdelete_find :: "u8 \<Rightarrow> nat \<Rightarrow> prog \<Rightarrow> prog" where
  "createdelete_find c i k =
     Call (COpen (name2 c i) 0) (\<lambda>fd.
       if (i = 0 \<or> i \<ge> 20 div 2) \<and> fd < 0
       then uprint 1 (msg ''oops createdelete %s didn't exist'') [UStr (Some (name2 c i))] Exit
       else if (i \<ge> 1 \<and> i < 20 div 2) \<and> fd \<ge> 0
       then uprint 1 (msg ''oops createdelete %s did exist'') [UStr (Some (name2 c i))] Exit
       else if fd \<ge> 0 then go (CClose fd) k else k)"

definition createdelete :: "prog \<Rightarrow> prog" where
  "createdelete k =
     tell (msg ''createdelete test'')
     (Call CFork (\<lambda>pid.
       if pid < 0 then die (msg ''fork failed'')
       else foldr (createdelete_make (if pid \<noteq> 0 then 0x70 else 0x63)) [0..<20]
         (if pid = 0 then Exit
          else go CWait
            (foldr (\<lambda>i k. createdelete_find 0x70 i (createdelete_find 0x63 i k)) [0..<20]
            (foldr (\<lambda>i k. go (CUnlink (name2 0x70 i)) (go (CUnlink (name2 0x63 i)) k)) [0..<20]
            (tell (msg ''createdelete ok'') k))))))"

section \<open>Links\<close>

definition unlinkread :: "u8 list \<Rightarrow> (u8 list \<Rightarrow> prog) \<Rightarrow> prog" where
  "unlinkread buf k =
     (let f = chars ''unlinkread'' in
      tell (msg ''unlinkread test'')
      (Call (COpen f CREATE_RDWR) (\<lambda>fd.
        if fd < 0 then die (msg ''create unlinkread failed'')
        else go (CWrite fd (chars ''hello''))
          (go (CClose fd)
          (Call (COpen f UO_RDWR) (\<lambda>fd.
            if fd < 0 then die (msg ''open unlinkread failed'')
            else unless (CUnlink f) (\<lambda>r. r \<noteq> 0) (msg ''unlink unlinkread failed'')
              (Call (COpen f CREATE_RDWR) (\<lambda>fd1.
                go (CWrite fd1 (chars ''yyy''))
                (go (CClose fd1)
                (Read fd (length buf) (\<lambda>n bs.
                  let buf = into buf bs in
                  if n \<noteq> 5 then die (chars ''unlinkread read failed'')
                  else if buf ! 0 \<noteq> 0x68 then die (msg ''unlinkread wrong data'')
                  else unless (CWrite fd (take 10 buf)) (\<lambda>r. r \<noteq> 10) (msg ''unlinkread write failed'')
                    (go (CClose fd)
                    (go (CUnlink f)
                    (tell (msg ''unlinkread ok'') (k buf)))))))))))))))"

definition linktest :: "u8 list \<Rightarrow> (u8 list \<Rightarrow> prog) \<Rightarrow> prog" where
  "linktest buf k =
     (let lf1 = chars ''lf1''; lf2 = chars ''lf2'' in
      tell (msg ''linktest'')
      (go (CUnlink lf1)
      (go (CUnlink lf2)
      (Call (COpen lf1 CREATE_RDWR) (\<lambda>fd.
        if fd < 0 then die (msg ''create lf1 failed'')
        else unless (CWrite fd (chars ''hello'')) (\<lambda>r. r \<noteq> 5) (msg ''write lf1 failed'')
          (go (CClose fd)
          (unless (CLink lf1 lf2) (\<lambda>r. r < 0) (msg ''link lf1 lf2 failed'')
          (go (CUnlink lf1)
          (unless (COpen lf1 0) (\<lambda>fd. fd \<ge> 0) (msg ''unlinked lf1 but it is still there!'')
          (Call (COpen lf2 0) (\<lambda>fd.
            if fd < 0 then die (msg ''open lf2 failed'')
            else Read fd (length buf) (\<lambda>n bs.
              let buf = into buf bs in
              if n \<noteq> 5 then die (msg ''read lf2 failed'')
              else go (CClose fd)
                (unless (CLink lf2 lf2) (\<lambda>r. r \<ge> 0) (msg ''link lf2 lf2 succeeded! oops'')
                (go (CUnlink lf2)
                (unless (CLink lf2 lf1) (\<lambda>r. r \<ge> 0) (msg ''link non-existant succeeded! oops'')
                (unless (CLink (chars ''.'') lf1) (\<lambda>r. r \<ge> 0) (msg ''link . lf1 succeeded! oops'')
                (tell (msg ''linktest ok'') (k buf))))))))))))))))))"

definition concreate_make :: "nat \<Rightarrow> prog \<Rightarrow> prog" where
  "concreate_make i k =
     (let file = name2 0x43 i in
      go (CUnlink file)
      (Call CFork (\<lambda>pid.
        let fin = if pid = 0 then Exit else go CWait k in
        if pid \<noteq> 0 \<and> i mod 3 = 1 then go (CLink (name2 0x43 0) file) fin
        else if pid = 0 \<and> i mod 5 = 1 then go (CLink (name2 0x43 0) file) fin
        else Call (COpen file CREATE_RDWR) (\<lambda>fd.
          if fd < 0 then uprint 1 (msg ''concreate create %s failed'') [UStr (Some file)] Exit
          else go (CClose fd) fin))))"

text \<open>\<open>de\<close> is the directory entry that is read into, \<open>fa\<close> the files seen so far, \<open>n\<close> their number.\<close>

primrec concreate_list :: "nat \<Rightarrow> int \<Rightarrow> u8 list \<Rightarrow> bool list \<Rightarrow> nat \<Rightarrow> (nat \<Rightarrow> prog) \<Rightarrow> prog" where
  "concreate_list 0 fd de fa n k = Going"
| "concreate_list (Suc f) fd de fa n k =
     Read fd 16 (\<lambda>r bs.
       let de = into de bs; nm = drop 2 de in
       if r > 0 then
         if get16 de 0 = 0 then concreate_list f fd de fa n k
         else if nm ! 0 = 0x43 \<and> nm ! 2 = 0 then
           let i = sint (nm ! 1) - 0x30 in
           if i < 0 \<or> i \<ge> int (length fa) then uprint 1 (msg ''concreate weird file %s'') [UStr (Some (takeWhile (\<lambda>c. c \<noteq> 0) nm))] Exit
           else if fa ! nat i then uprint 1 (msg ''concreate duplicate file %s'') [UStr (Some (takeWhile (\<lambda>c. c \<noteq> 0) nm))] Exit
           else concreate_list f fd de (fa[nat i := True]) (Suc n) k
         else concreate_list f fd de fa n k
       else k n)"

definition concreate_remove :: "nat \<Rightarrow> prog \<Rightarrow> prog" where
  "concreate_remove i k =
     (let file = name2 0x43 i in
      Call CFork (\<lambda>pid.
        if pid < 0 then die (msg ''fork failed'')
        else let fin = if pid = 0 then Exit else go CWait k in
          if i mod 3 = 0 \<and> pid = 0 \<or> i mod 3 = 1 \<and> pid \<noteq> 0
          then Call (COpen file 0) (\<lambda>fd. go (CClose fd) fin)
          else go (CUnlink file) fin))"

definition concreate :: "nat \<Rightarrow> u8 list \<Rightarrow> prog \<Rightarrow> prog" where
  "concreate f de k =
     tell (msg ''concreate test'')
     (foldr concreate_make [0..<40]
     (Call (COpen (chars ''.'') 0) (\<lambda>fd.
       concreate_list f fd de (replicate 40 False) 0 (\<lambda>n.
         go (CClose fd)
         (if n \<noteq> 40 then die (msg ''concreate not enough files in directory listing'')
          else foldr concreate_remove [0..<40] (tell (msg ''concreate ok'') k))))))"

section \<open>Directories\<close>

definition bigdir_name :: "nat \<Rightarrow> u8 list" where
  "bigdir_name i = [0x78, 0x30 + of_nat (i div 64), 0x30 + of_nat (i mod 64)]"

definition bigdir :: "prog \<Rightarrow> prog" where
  "bigdir k =
     tell (msg ''bigdir test'')
     (go (CUnlink (chars ''bd''))
     (Call (COpen (chars ''bd'') UO_CREATE) (\<lambda>fd.
       if fd < 0 then die (msg ''bigdir create failed'')
       else go (CClose fd)
         (foldr (\<lambda>i. unless (CLink (chars ''bd'') (bigdir_name i)) (\<lambda>r. r \<noteq> 0) (msg ''bigdir link failed'')) [0..<500]
         (go (CUnlink (chars ''bd''))
         (foldr (\<lambda>i. unless (CUnlink (bigdir_name i)) (\<lambda>r. r \<noteq> 0) (chars ''bigdir unlink failed'')) [0..<500]
         (tell (msg ''bigdir ok'') k)))))))"

text \<open>The test of subdirectories, in three parts: the last checks need no open file.\<close>

definition subdir_clean :: "prog \<Rightarrow> prog" where
  "subdir_clean k =
     unless (COpen (chars ''dd/dd/ff'') 0) (\<lambda>r. r \<ge> 0) (msg ''open (unlinked) dd/dd/ff succeeded!'')
     (unless (COpen (chars ''dd/ff/ff'') CREATE_RDWR) (\<lambda>r. r \<ge> 0) (msg ''create dd/ff/ff succeeded!'')
     (unless (COpen (chars ''dd/xx/ff'') CREATE_RDWR) (\<lambda>r. r \<ge> 0) (msg ''create dd/xx/ff succeeded!'')
     (unless (COpen (chars ''dd'') UO_CREATE) (\<lambda>r. r \<ge> 0) (msg ''create dd succeeded!'')
     (unless (COpen (chars ''dd'') UO_RDWR) (\<lambda>r. r \<ge> 0) (msg ''open dd rdwr succeeded!'')
     (unless (COpen (chars ''dd'') 1) (\<lambda>r. r \<ge> 0) (msg ''open dd wronly succeeded!'')
     (unless (CLink (chars ''dd/ff/ff'') (chars ''dd/dd/xx'')) (\<lambda>r. r = 0) (msg ''link dd/ff/ff dd/dd/xx succeeded!'')
     (unless (CLink (chars ''dd/xx/ff'') (chars ''dd/dd/xx'')) (\<lambda>r. r = 0) (msg ''link dd/xx/ff dd/dd/xx succeeded!'')
     (unless (CLink (chars ''dd/ff'') (chars ''dd/dd/ffff'')) (\<lambda>r. r = 0) (msg ''link dd/ff dd/dd/ffff succeeded!'')
     (unless (CMkdir (chars ''dd/ff/ff'')) (\<lambda>r. r = 0) (msg ''mkdir dd/ff/ff succeeded!'')
     (unless (CMkdir (chars ''dd/xx/ff'')) (\<lambda>r. r = 0) (msg ''mkdir dd/xx/ff succeeded!'')
     (unless (CMkdir (chars ''dd/dd/ffff'')) (\<lambda>r. r = 0) (msg ''mkdir dd/dd/ffff succeeded!'')
     (unless (CUnlink (chars ''dd/xx/ff'')) (\<lambda>r. r = 0) (msg ''unlink dd/xx/ff succeeded!'')
     (unless (CUnlink (chars ''dd/ff/ff'')) (\<lambda>r. r = 0) (msg ''unlink dd/ff/ff succeeded!'')
     (unless (CChdir (chars ''dd/ff'')) (\<lambda>r. r = 0) (msg ''chdir dd/ff succeeded!'')
     (unless (CChdir (chars ''dd/xx'')) (\<lambda>r. r = 0) (msg ''chdir dd/xx succeeded!'')
     (unless (CUnlink (chars ''dd/dd/ffff'')) (\<lambda>r. r \<noteq> 0) (msg ''unlink dd/dd/ff failed'')
     (unless (CUnlink (chars ''dd/ff'')) (\<lambda>r. r \<noteq> 0) (msg ''unlink dd/ff failed'')
     (unless (CUnlink (chars ''dd'')) (\<lambda>r. r = 0) (msg ''unlink non-empty dd succeeded!'')
     (unless (CUnlink (chars ''dd/dd'')) (\<lambda>r. r < 0) (msg ''unlink dd/dd failed'')
     (unless (CUnlink (chars ''dd'')) (\<lambda>r. r < 0) (msg ''unlink dd failed'')
     (tell (msg ''subdir ok'') k)))))))))))))))))))))"

definition subdir_links :: "u8 list \<Rightarrow> (u8 list \<Rightarrow> prog) \<Rightarrow> prog" where
  "subdir_links buf k =
     unless (CLink (chars ''dd/dd/ff'') (chars ''dd/dd/ffff'')) (\<lambda>r. r \<noteq> 0) (msg ''link dd/dd/ff dd/dd/ffff failed'')
     (unless (CUnlink (chars ''dd/dd/ff'')) (\<lambda>r. r \<noteq> 0) (msg ''unlink dd/dd/ff failed'')
     (unless (COpen (chars ''dd/dd/ff'') 0) (\<lambda>r. r \<ge> 0) (msg ''open (unlinked) dd/dd/ff succeeded'')
     (unless (CChdir (chars ''dd'')) (\<lambda>r. r \<noteq> 0) (msg ''chdir dd failed'')
     (unless (CChdir (chars ''dd/../../dd'')) (\<lambda>r. r \<noteq> 0) (msg ''chdir dd/../../dd failed'')
     (unless (CChdir (chars ''dd/../../../dd'')) (\<lambda>r. r \<noteq> 0) (msg ''chdir dd/../../dd failed'')
     (unless (CChdir (chars ''./..'')) (\<lambda>r. r \<noteq> 0) (msg ''chdir ./.. failed'')
     (Call (COpen (chars ''dd/dd/ffff'') 0) (\<lambda>fd.
       if fd < 0 then die (msg ''open dd/dd/ffff failed'')
       else Read fd (length buf) (\<lambda>n bs.
         if n \<noteq> 2 then die (msg ''read dd/dd/ffff wrong len'')
         else go (CClose fd) (subdir_clean (k (into buf bs))))))))))))"

definition subdir :: "u8 list \<Rightarrow> (u8 list \<Rightarrow> prog) \<Rightarrow> prog" where
  "subdir buf k =
     tell (msg ''subdir test'')
     (go (CUnlink (chars ''ff''))
     (unless (CMkdir (chars ''dd'')) (\<lambda>r. r \<noteq> 0) (msg ''subdir mkdir dd failed'')
     (Call (COpen (chars ''dd/ff'') CREATE_RDWR) (\<lambda>fd.
       if fd < 0 then die (msg ''create dd/ff failed'')
       else go (CWrite fd (chars ''ff''))
         (go (CClose fd)
         (unless (CUnlink (chars ''dd'')) (\<lambda>r. r \<ge> 0) (msg ''unlink dd (non-empty dir) succeeded!'')
         (unless (CMkdir (chars ''/dd/dd'')) (\<lambda>r. r \<noteq> 0) (msg ''subdir mkdir dd/dd failed'')
         (Call (COpen (chars ''dd/dd/ff'') CREATE_RDWR) (\<lambda>fd.
           if fd < 0 then die (msg ''create dd/dd/ff failed'')
           else go (CWrite fd (chars ''FF''))
             (go (CClose fd)
             (Call (COpen (chars ''dd/dd/../ff'') 0) (\<lambda>fd.
               if fd < 0 then die (msg ''open dd/dd/../ff failed'')
               else Read fd (length buf) (\<lambda>n bs.
                 let buf = into buf bs in
                 if n \<noteq> 2 \<or> buf ! 0 \<noteq> 0x66 then die (msg ''dd/dd/../ff wrong content'')
                 else go (CClose fd) (subdir_links buf k))))))))))))))"

end
