(* ===== verification/Usertests_Main.thy ===== *)
theory Usertests_Main
  imports Usertests_Fs
begin

text \<open>The remaining tests of \<^verbatim>\<open>src/usertests.c\<close> and its \<^verbatim>\<open>main\<close>.\<close>

section \<open>Big files, names, directories\<close>

primrec bigfile_write :: "nat \<Rightarrow> nat \<Rightarrow> int \<Rightarrow> u8 list \<Rightarrow> (u8 list \<Rightarrow> prog) \<Rightarrow> prog" where
  "bigfile_write 0 i fd buf k = k buf"
| "bigfile_write (Suc m) i fd buf k =
     (let buf = into buf (replicate 600 (of_nat i)) in
      unless (CWrite fd (take 600 buf)) (\<lambda>r. r \<noteq> 600) (msg ''write bigfile failed'') (bigfile_write m (Suc i) fd buf k))"

primrec bigfile_read :: "nat \<Rightarrow> nat \<Rightarrow> nat \<Rightarrow> int \<Rightarrow> u8 list \<Rightarrow> (nat \<Rightarrow> u8 list \<Rightarrow> prog) \<Rightarrow> prog" where
  "bigfile_read 0 i tot fd buf k = Going"
| "bigfile_read (Suc f) i tot fd buf k =
     Read fd 300 (\<lambda>n bs.
       let buf = into buf bs in
       if n < 0 then die (msg ''read bigfile failed'')
       else if n = 0 then k tot buf
       else if n \<noteq> 300 then die (msg ''short read bigfile'')
       else if sint (buf ! 0) \<noteq> int (i div 2) \<or> sint (buf ! 299) \<noteq> int (i div 2) then die (msg ''read bigfile wrong data'')
       else bigfile_read f (Suc i) (tot + 300) fd buf k)"

definition bigfile :: "nat \<Rightarrow> u8 list \<Rightarrow> (u8 list \<Rightarrow> prog) \<Rightarrow> prog" where
  "bigfile f buf k =
     tell (msg ''bigfile test'')
     (go (CUnlink (chars ''bigfile''))
     (Call (COpen (chars ''bigfile'') CREATE_RDWR) (\<lambda>fd.
       if fd < 0 then die (chars ''cannot create bigfile'')
       else bigfile_write 20 0 fd buf (\<lambda>buf.
         go (CClose fd)
         (Call (COpen (chars ''bigfile'') 0) (\<lambda>fd.
           if fd < 0 then die (msg ''cannot open bigfile'')
           else bigfile_read f 0 0 fd buf (\<lambda>tot buf.
             go (CClose fd)
             (if tot \<noteq> 20 * 600 then die (msg ''read bigfile wrong total'')
              else go (CUnlink (chars ''bigfile'')) (tell (msg ''bigfile test ok'') (k buf))))))))))"

definition fourteen :: "prog \<Rightarrow> prog" where
  "fourteen k =
     tell (msg ''fourteen test'')
     (unless (CMkdir (chars ''12345678901234'')) (\<lambda>r. r \<noteq> 0) (msg ''mkdir 12345678901234 failed'')
     (unless (CMkdir (chars ''12345678901234/123456789012345'')) (\<lambda>r. r \<noteq> 0)
        (msg ''mkdir 12345678901234/123456789012345 failed'')
     (Call (COpen (chars ''123456789012345/123456789012345/123456789012345'') UO_CREATE) (\<lambda>fd.
       if fd < 0 then die (msg ''create 123456789012345/123456789012345/123456789012345 failed'')
       else go (CClose fd)
         (Call (COpen (chars ''12345678901234/12345678901234/12345678901234'') 0) (\<lambda>fd.
           if fd < 0 then die (msg ''open 12345678901234/12345678901234/12345678901234 failed'')
           else go (CClose fd)
             (unless (CMkdir (chars ''12345678901234/12345678901234'')) (\<lambda>r. r = 0)
                (msg ''mkdir 12345678901234/12345678901234 succeeded!'')
             (unless (CMkdir (chars ''123456789012345/12345678901234'')) (\<lambda>r. r = 0)
                (msg ''mkdir 12345678901234/123456789012345 succeeded!'')
             (tell (msg ''fourteen ok'') k)))))))))"

definition rmdot :: "prog \<Rightarrow> prog" where
  "rmdot k =
     tell (msg ''rmdot test'')
     (unless (CMkdir (chars ''dots'')) (\<lambda>r. r \<noteq> 0) (msg ''mkdir dots failed'')
     (unless (CChdir (chars ''dots'')) (\<lambda>r. r \<noteq> 0) (msg ''chdir dots failed'')
     (unless (CUnlink (chars ''.'')) (\<lambda>r. r = 0) (msg ''rm . worked!'')
     (unless (CUnlink (chars ''..'')) (\<lambda>r. r = 0) (msg ''rm .. worked!'')
     (unless (CChdir (chars ''/'')) (\<lambda>r. r \<noteq> 0) (msg ''chdir / failed'')
     (unless (CUnlink (chars ''dots/.'')) (\<lambda>r. r = 0) (msg ''unlink dots/. worked!'')
     (unless (CUnlink (chars ''dots/..'')) (\<lambda>r. r = 0) (msg ''unlink dots/.. worked!'')
     (unless (CUnlink (chars ''dots'')) (\<lambda>r. r \<noteq> 0) (msg ''unlink dots failed!'')
     (tell (msg ''rmdot ok'') k)))))))))"

definition dirfile :: "prog \<Rightarrow> prog" where
  "dirfile k =
     tell (msg ''dir vs file'')
     (Call (COpen (chars ''dirfile'') UO_CREATE) (\<lambda>fd.
       if fd < 0 then die (msg ''create dirfile failed'')
       else go (CClose fd)
         (unless (CChdir (chars ''dirfile'')) (\<lambda>r. r = 0) (msg ''chdir dirfile succeeded!'')
         (unless (COpen (chars ''dirfile/xx'') 0) (\<lambda>fd. fd \<ge> 0) (msg ''create dirfile/xx succeeded!'')
         (unless (COpen (chars ''dirfile/xx'') UO_CREATE) (\<lambda>fd. fd \<ge> 0) (msg ''create dirfile/xx succeeded!'')
         (unless (CMkdir (chars ''dirfile/xx'')) (\<lambda>r. r = 0) (msg ''mkdir dirfile/xx succeeded!'')
         (unless (CUnlink (chars ''dirfile/xx'')) (\<lambda>r. r = 0) (msg ''unlink dirfile/xx succeeded!'')
         (unless (CLink (chars ''README'') (chars ''dirfile/xx'')) (\<lambda>r. r = 0) (msg ''link to dirfile/xx succeeded!'')
         (unless (CUnlink (chars ''dirfile'')) (\<lambda>r. r \<noteq> 0) (msg ''unlink dirfile failed!'')
         (unless (COpen (chars ''.'') UO_RDWR) (\<lambda>fd. fd \<ge> 0) (msg ''open . for writing succeeded!'')
         (Call (COpen (chars ''.'') 0) (\<lambda>fd.
           unless (CWrite fd (chars ''x'')) (\<lambda>r. r > 0) (msg ''write . succeeded!'')
           (go (CClose fd)
           (tell (msg ''dir vs file OK'') k))))))))))))))"

definition close_opened :: "int \<Rightarrow> prog \<Rightarrow> prog" where
  "close_opened fd k = (if fd \<ge> 0 then go (CClose fd) k else k)"

definition iref_round :: "prog \<Rightarrow> prog" where
  "iref_round k =
     unless (CMkdir (chars ''irefd'')) (\<lambda>r. r \<noteq> 0) (msg ''mkdir irefd failed'')
     (unless (CChdir (chars ''irefd'')) (\<lambda>r. r \<noteq> 0) (msg ''chdir irefd failed'')
     (go (CMkdir [])
     (go (CLink (chars ''README'') [])
     (Call (COpen [] UO_CREATE) (\<lambda>fd. close_opened fd
     (Call (COpen (chars ''xx'') UO_CREATE) (\<lambda>fd. close_opened fd
     (go (CUnlink (chars ''xx'')) k))))))))"

definition iref_test :: "prog \<Rightarrow> prog" where
  "iref_test k =
     tell (msg ''empty file name'')
     (foldr (\<lambda>_. iref_round) [0..<50 + 1]
     (go (CChdir (chars ''/''))
     (tell (msg ''empty file name OK'') k)))"

section \<open>Processes and memory\<close>

primrec ut_reap :: "nat \<Rightarrow> prog \<Rightarrow> prog" where
  "ut_reap 0 k = unless CWait (\<lambda>r. r \<noteq> - 1) (msg ''wait got too many'') (tell (msg ''fork test OK'') k)"
| "ut_reap (Suc n) k = unless CWait (\<lambda>r. r < 0) (msg ''wait stopped early'') (ut_reap n k)"

primrec ut_fork :: "nat \<Rightarrow> nat \<Rightarrow> prog \<Rightarrow> prog" where
  "ut_fork 0 n k = die (msg ''fork claimed to work 1000 times!'')"
| "ut_fork (Suc m) n k =
     Call CFork (\<lambda>pid. if pid < 0 then ut_reap n k else if pid = 0 then Exit else ut_fork m (Suc n) k)"

definition ut_forktest :: "prog \<Rightarrow> prog" where
  "ut_forktest k = tell (msg ''fork test'') (ut_fork 1000 0 k)"

text \<open>The result of \<^verbatim>\<open>sbrk\<close> as an address.\<close>

definition usbrk :: "u32 \<Rightarrow> (u32 \<Rightarrow> prog) \<Rightarrow> prog" where
  "usbrk n k = Call (CSbrk n) (\<lambda>r. k (word_of_int r))"

primrec sbrk_bytes :: "nat \<Rightarrow> nat \<Rightarrow> u32 \<Rightarrow> (u32 \<Rightarrow> prog) \<Rightarrow> prog" where
  "sbrk_bytes 0 i a k = k a"
| "sbrk_bytes (Suc m) i a k =
     usbrk 1 (\<lambda>b.
       if b \<noteq> a then uprint 1 (msg ''sbrk test failed %d %x %x'') [UInt (of_nat i), UInt a, UInt b] Exit
       else Poke b 1 (sbrk_bytes m (Suc i) (b + 1) k))"

definition KB256 :: u32 where "KB256 = 256 * 1024"

definition lastaddr :: u32 where "lastaddr = KB256 - 1"

text \<open>Growing to 256 KB, giving a page back, and taking it again.\<close>

definition sbrk_pages :: "prog \<Rightarrow> prog" where
  "sbrk_pages k =
     usbrk 0 (\<lambda>a. usbrk (KB256 - a) (\<lambda>p.
       if p \<noteq> a then uprint 1 (msg ''sbrk test failed 256K test, p %x a %x'') [UInt p, UInt a] Exit
       else Poke lastaddr 99
         (usbrk 0 (\<lambda>a. usbrk (- 4096) (\<lambda>c.
           if c = - 1 then die (msg ''sbrk could not deallocate'')
           else usbrk 0 (\<lambda>c.
             if c \<noteq> a - 4096 then uprint 1 (msg ''sbrk deallocation produced wrong address, a %x c %x'') [UInt a, UInt c] Exit
             else usbrk 0 (\<lambda>a. usbrk 4096 (\<lambda>c.
               let failed = uprint 1 (msg ''sbrk re-allocation failed, a %x c %x'') [UInt a, UInt c] Exit in
               if c \<noteq> a then failed
               else usbrk 0 (\<lambda>d. if d \<noteq> a + 4096 then failed
                 else Peek lastaddr (\<lambda>v.
                   if v = 99 then die (msg ''sbrk de-allocation didn't really deallocate'') else k)))))))))) "

definition sbrk_kernel :: "prog \<Rightarrow> prog" where
  "sbrk_kernel k =
     Call CGetpid (\<lambda>ppid. Call CFork (\<lambda>pid.
       if pid < 0 then die (msg ''fork failed'')
       else if pid = 0 then Peek 0x80000000 (\<lambda>v.
         uprint 1 (msg ''oops could read %x = %x'') [UInt 0x80000000, UInt (scast v)]
         (go (CKill (word_of_int ppid)) Exit))
       else go CWait k))"

primrec sleep_forever :: "nat \<Rightarrow> prog" where
  "sleep_forever 0 = Going"
| "sleep_forever (Suc f) = go (CSleep 1000) (sleep_forever f)"

primrec sbrk_fill :: "nat \<Rightarrow> nat \<Rightarrow> int \<Rightarrow> int \<Rightarrow> int list \<Rightarrow> (int list \<Rightarrow> prog) \<Rightarrow> prog" where
  "sbrk_fill f 0 p0 p1 pids k = k pids"
| "sbrk_fill f (Suc m) p0 p1 pids k =
     Call CFork (\<lambda>pid.
       if pid = 0 then usbrk 0 (\<lambda>a. usbrk (KB256 - a) (\<lambda>_. go (CWrite p1 (chars ''x'')) (sleep_forever f)))
       else if pid \<noteq> - 1 then Read p0 1 (\<lambda>_ _. sbrk_fill f m p0 p1 (pids @ [pid]) k)
       else sbrk_fill f m p0 p1 (pids @ [pid]) k)"

definition sbrk_reap :: "int \<Rightarrow> prog \<Rightarrow> prog" where
  "sbrk_reap q k = (if q = - 1 then k else go (CKill (word_of_int q)) (go CWait k))"

definition sbrktest :: "nat \<Rightarrow> prog \<Rightarrow> prog" where
  "sbrktest f k =
     usbrk 0 (\<lambda>oldbrk.
     tell (msg ''sbrk test'')
     (usbrk 0 (\<lambda>a. sbrk_bytes 5000 0 a (\<lambda>a.
     Call CFork (\<lambda>pid.
       if pid < 0 then die (msg ''sbrk test fork failed'')
       else usbrk 1 (\<lambda>_. usbrk 1 (\<lambda>c.
         if c \<noteq> a + 1 then die (msg ''sbrk test failed post-fork'')
         else if pid = 0 then Exit
         else go CWait
           (sbrk_pages
           (sbrk_kernel
           (usbrk 0 (\<lambda>b. usbrk (- (b - oldbrk)) (\<lambda>_.
           MkPipe (\<lambda>r p0 p1.
             if r \<noteq> 0 then die (msg ''pipe() failed'')
             else sbrk_fill f 32 p0 p1 [] (\<lambda>pids.
               usbrk 4096 (\<lambda>c.
               foldr sbrk_reap pids
               (if c = - 1 then die (msg ''failed sbrk leaked memory'')
                else usbrk 0 (\<lambda>b.
                  let fin = tell (msg ''sbrk test OK'') k in
                  if b > oldbrk then usbrk 0 (\<lambda>b. usbrk (- (b - oldbrk)) (\<lambda>_. fin)) else fin)))))))))))))))))"

section \<open>The program\<close>

text \<open>\<open>de\<close> is what the stack held where \<^verbatim>\<open>concreate\<close> puts its directory entry.\<close>

definition usertests_main :: "nat \<Rightarrow> u8 list \<Rightarrow> prog" where
  "usertests_main f de =
     tell (msg ''usertests starting'')
     (unless (COpen (chars ''usertests.ran'') 0) (\<lambda>r. r \<ge> 0) (msg ''already ran user tests -- rebuild fs.img'')
     (Call (COpen (chars ''usertests.ran'') UO_CREATE) (\<lambda>fd. go (CClose fd)
     (sbrktest f
     (opentest
     (writetest (replicate 2048 0) (\<lambda>buf.
      writetest1 f buf (\<lambda>buf.
      createtest
     (pipe1 f buf (\<lambda>buf.
      preempt buf (\<lambda>buf.
      exitwait
     (rmdot
     (fourteen
     (bigfile f buf (\<lambda>buf.
      subdir buf (\<lambda>buf.
      concreate f de
     (linktest buf (\<lambda>buf.
      unlinkread buf (\<lambda>buf.
      createdelete
     (twofiles f buf (\<lambda>buf.
      sharedfd f
     (dirfile
     (iref_test
     (ut_forktest
     (bigdir
      exectest)))))))))))))))))))))))))"

end
