(* ===== verification/Usertests_Run.thy ===== *)
theory Usertests_Run
  imports Usertests_Main
begin

text \<open>
  What the tests say about a kernel. A kernel, as one process sees it, answers each system call with a result and a new
  state. The bytes a program writes to a descriptor are a function of these answers, and a verdict of a test is what it
  prints. \<^verbatim>\<open>pipe1\<close> accepts exactly the stream its child writes; \<^verbatim>\<open>writetest1\<close> accepts files that have lost blocks.
\<close>

section \<open>Kernels\<close>

record 's ukernel =
  on_call :: "call \<Rightarrow> 's \<Rightarrow> int \<times> 's"
  on_read :: "int \<Rightarrow> nat \<Rightarrow> 's \<Rightarrow> (int \<times> u8 list) \<times> 's"
  on_pipe :: "'s \<Rightarrow> (int \<times> int \<times> int) \<times> 's"
  on_stat :: "int \<Rightarrow> 's \<Rightarrow> (int \<times> ustat) \<times> 's"
  on_peek :: "u32 \<Rightarrow> 's \<Rightarrow> u8 \<times> 's"
  on_poke :: "u32 \<Rightarrow> u8 \<Rightarrow> 's \<Rightarrow> 's"

definition sent :: "int \<Rightarrow> call \<Rightarrow> u8 list" where
  "sent fd c = (case c of CWrite d bs \<Rightarrow> if d = fd then bs else [] | _ \<Rightarrow> [])"

text \<open>What one process writes to descriptor \<open>fd\<close>; after a \<^verbatim>\<open>fork\<close>, the process that the kernel's answer selects.\<close>

primrec written :: "'s ukernel \<Rightarrow> int \<Rightarrow> prog \<Rightarrow> 's \<Rightarrow> u8 list" where
  "written K fd Exit s = []"
| "written K fd (Exec path argv k) s = []"
| "written K fd (Call c k) s = (case on_call K c s of (r, s') \<Rightarrow> sent fd c @ written K fd (k r) s')"
| "written K fd (Read d n k) s = (case on_read K d n s of ((r, bs), s') \<Rightarrow> written K fd (k r bs) s')"
| "written K fd (MkPipe k) s = (case on_pipe K s of ((r, p0, p1), s') \<Rightarrow> written K fd (k r p0 p1) s')"
| "written K fd (Stat d k) s = (case on_stat K d s of ((r, st), s') \<Rightarrow> written K fd (k r st) s')"
| "written K fd (Peek a k) s = (case on_peek K a s of (v, s') \<Rightarrow> written K fd (k v) s')"
| "written K fd (Poke a v k) s = written K fd k (on_poke K a v s)"
| "written K fd (Crash e) s = []"
| "written K fd Going s = []"

lemma uprintf_plain: "0x25 \<notin> set m \<Longrightarrow> uprintf m [] = Inr m"
proof -
  have "0x25 \<notin> set m \<Longrightarrow> uprintf_loop False m [] = Inr m" by (induction m) auto
  then show "0x25 \<notin> set m \<Longrightarrow> uprintf m [] = Inr m" by (simp add: uprintf_def)
qed

text \<open>A message without a percent sign is one write.\<close>

definition plain :: "u8 list \<Rightarrow> bool" where
  "plain m \<longleftrightarrow> 0x25 \<notin> set m"

lemma written_tell:
  "plain m \<Longrightarrow> written K 1 (tell m k) s = m @ written K 1 k (snd (on_call K (CWrite 1 m) s))"
  by (simp add: tell_def uprint_def uprintf_plain plain_def sent_def case_prod_beta)

lemma written_go: "written K fd (go c k) s = sent fd c @ written K fd k (snd (on_call K c s))"
  by (simp add: go_def case_prod_beta)

lemma uprint_decimal:
  assumes "0 \<le> sint x"
  shows "\<exists>ds. uprintint x 10 True = Inr ds"
proof -
  have "sint x < 2 ^ 31" using sint_lt [of x] by simp
  then have "sint x < 10 ^ Suc 9" by simp
  from udigit_loop_digits [OF assms this] obtain ds where "udigit_loop 10 10 (sint x) = Inr ds" by auto
  then show ?thesis using assms by (simp add: uprintint_def Let_def)
qed

section \<open>The pipe test\<close>

text \<open>
  Reads of descriptor \<open>fd\<close> deliver the stream \<open>str s\<close> in pieces of any size, and nothing only at its end; the other calls
  leave the stream alone.
\<close>

definition delivers :: "'s ukernel \<Rightarrow> int \<Rightarrow> ('s \<Rightarrow> u8 list) \<Rightarrow> bool" where
  "delivers K fd str \<longleftrightarrow>
     (\<forall>n s r bs s'. 0 < n \<longrightarrow> on_read K fd n s = ((r, bs), s') \<longrightarrow>
        r = int (length bs) \<and> length bs \<le> n \<and> (bs = [] \<longleftrightarrow> str s = []) \<and> str s = bs @ str s') \<and>
     (\<forall>c s. str (snd (on_call K c s)) = str s)"

definition counting :: "nat \<Rightarrow> nat \<Rightarrow> u8 list" where
  "counting i n = map of_nat [i..<i + n]"

definition short_message :: "nat \<Rightarrow> u8 list" where
  "short_message n = (case uprintf (msg ''pipe1 oops 3 total %d'') [UInt (of_nat n)] of Inr m \<Rightarrow> m | Inl e \<Rightarrow> [])"

definition pipe1_verdict :: "nat \<Rightarrow> u8 list \<Rightarrow> u8 list" where
  "pipe1_verdict seq xs =
     (if xs \<noteq> counting seq (length xs) then msg ''pipe1 oops 2''
      else (if seq + length xs \<noteq> 5 * PIPE1_CHUNK then short_message (seq + length xs) else []) @ msg ''pipe1 ok'')"

lemma counting_append: "counting i (n + m) = counting i n @ counting (i + n) m"
proof -
  have "[i..<i + (n + m)] = [i..<i + n] @ [i + n..<(i + n) + m]" using upt_add_eq_append [of i "i + n" m] by (simp add: add.assoc)
  then show ?thesis by (simp add: counting_def)
qed

lemma verdict_prefix:
  "pipe1_verdict seq (xs @ ys) = (if xs \<noteq> counting seq (length xs) then msg ''pipe1 oops 2'' else pipe1_verdict (seq + length xs) ys)"
proof -
  have l: "length (counting i n) = n" for i n by (simp add: counting_def)
  have "xs @ ys = counting seq (length (xs @ ys)) \<longleftrightarrow> xs = counting seq (length xs) \<and> ys = counting (seq + length xs) (length ys)"
    by (simp add: counting_append l)
  then show ?thesis by (auto simp: pipe1_verdict_def add.assoc)
qed

lemma short_message_run:
  assumes "n < 2 ^ 31"
  shows "uprintf (msg ''pipe1 oops 3 total %d'') [UInt (of_nat n)] = Inr (short_message n)"
proof -
  have "sint (of_nat n :: u32) = int n" using assms by (simp add: signed_of_nat signed_take_bit_int_eq_self)
  then obtain ds where "uprintint (of_nat n) 10 True = Inr ds" using uprint_decimal [of "of_nat n"] by auto
  then have "\<exists>m. uprintf (msg ''pipe1 oops 3 total %d'') [UInt (of_nat n)] = Inr m"
    by (simp add: uprintf_def msg_def chars_def of_char_def nl_char_def)
  then show ?thesis by (auto simp: short_message_def)
qed

lemma pipe1_read_verdict:
  assumes "delivers K fd str" "length (str s) < f" "seq + length (str s) < 2 ^ 31" "0 < cc" "cc \<le> length buf"
  shows "\<exists>buf' s'. written K 1 (pipe1_read f fd seq cc buf k) s = pipe1_verdict seq (str s) @ written K 1 (k buf') s'"
  using assms(2-)
proof (induction f arbitrary: s seq cc buf)
  case (Suc f)
  obtain r bs t where rd: "on_read K fd cc s = ((r, bs), t)" by (metis prod.exhaust_sel)
  then have d: "r = int (length bs)" "length bs \<le> cc" "bs = [] \<longleftrightarrow> str s = []" "str s = bs @ str t"
    using assms(1) Suc.prems(3) unfolding delivers_def by blast+
  show ?case
  proof (cases "bs = []")
    case True
    have w: "written K 1 (go (CClose fd) (go CWait (tell (msg ''pipe1 ok'') (k buf)))) u = msg ''pipe1 ok'' @ written K 1 (k buf) (snd (on_call K (CWrite 1 (msg ''pipe1 ok'')) (snd (on_call K CWait (snd (on_call K (CClose fd) u))))))" for u
      by (simp add: written_go written_tell plain_def msg_def chars_def of_char_def nl_char_def sent_def)
    have e: "pipe1_verdict seq (str s) = (if seq \<noteq> 5 * PIPE1_CHUNK then short_message seq else []) @ msg ''pipe1 ok''"
      using True d(3) by (simp add: pipe1_verdict_def counting_def)
    show ?thesis using True rd d(1) short_message_run [of seq] Suc.prems(2)
      by (auto simp: e w uprint_def sent_def case_prod_beta)
  next
    case False
    let ?buf = "into buf bs"
    have tk: "take (length bs) ?buf = bs" "length ?buf = length buf" using d(2) Suc.prems(4) by (simp_all add: into_def splice_def)
    have run: "written K 1 (pipe1_read (Suc f) fd seq cc buf k) s =
        (if bs \<noteq> counting seq (length bs) then written K 1 (tell (msg ''pipe1 oops 2'') (k ?buf)) t
         else written K 1 (pipe1_read f fd (seq + length bs) (if 2 * cc > length buf then length buf else 2 * cc) ?buf k) t)"
      using rd d(1) False tk by (simp add: counting_def Let_def)
    show ?thesis
    proof (cases "bs = counting seq (length bs)")
      case True
      have "length bs > 0" using False by simp
      moreover have ls: "length (str s) = length bs + length (str t)" using d(4) by (metis length_append)
      ultimately have "length (str t) < f" "seq + length bs + length (str t) < 2 ^ 31" using Suc.prems(1,2) by linarith+
      then have "\<exists>buf' s'. written K 1 (pipe1_read f fd (seq + length bs) (if 2 * cc > length buf then length buf else 2 * cc) ?buf k) t =
          pipe1_verdict (seq + length bs) (str t) @ written K 1 (k buf') s'"
        using Suc.prems(3,4) tk(2) by (intro Suc.IH) auto
      moreover have "pipe1_verdict seq (str s) = pipe1_verdict (seq + length bs) (str t)" using d(4) True by (metis verdict_prefix)
      ultimately show ?thesis unfolding run using True by presburger
    next
      case False
      then have "pipe1_verdict seq (str s) = msg ''pipe1 oops 2''" using d(4) by (metis verdict_prefix)
      moreover have "plain (msg ''pipe1 oops 2'')" by (simp add: plain_def msg_def chars_def of_char_def nl_char_def)
      ultimately show ?thesis unfolding run using False by (simp add: written_tell) blast
    qed
  qed
qed simp

text \<open>The child writes five chunks that count on, when every write is complete.\<close>

lemma pipe1_child:
  assumes "\<And>bs s. fst (on_call K (CWrite fd bs) s) = int (length bs)" "PIPE1_CHUNK \<le> length buf"
  shows "written K fd (pipe1_write m seq fd buf) s = counting seq (m * PIPE1_CHUNK)"
  using assms(2)
proof (induction m arbitrary: seq buf s)
  case 0
  then show ?case by (simp add: counting_def)
next
  case (Suc m)
  let ?buf = "into buf (map of_nat [seq..<seq + PIPE1_CHUNK])"
  have b: "take PIPE1_CHUNK ?buf = counting seq PIPE1_CHUNK" "length ?buf = length buf" using Suc.prems by (simp_all add: into_def splice_def counting_def)
  have l: "length (counting seq PIPE1_CHUNK) = PIPE1_CHUNK" by (simp add: counting_def)
  have "written K fd (pipe1_write (Suc m) seq fd buf) s =
      counting seq PIPE1_CHUNK @ written K fd (pipe1_write m (seq + PIPE1_CHUNK) fd ?buf) (snd (on_call K (CWrite fd (counting seq PIPE1_CHUNK)) s))"
    using b(1) assms(1) [of "counting seq PIPE1_CHUNK" s] by (simp add: Let_def sent_def case_prod_beta l)
  also have "\<dots> = counting seq (Suc m * PIPE1_CHUNK)" using Suc.IH [of ?buf] Suc.prems b(2) counting_append [of seq PIPE1_CHUNK "m * PIPE1_CHUNK"] by simp
  finally show ?case .
qed

lemma verdict_ok:
  assumes "length xs < 2 ^ 31"
  shows "pipe1_verdict 0 xs = msg ''pipe1 ok'' \<longleftrightarrow> xs = counting 0 (5 * PIPE1_CHUNK)"
proof -
  have l: "length (counting i n) = n" for i n by (simp add: counting_def)
  have "short_message (length xs) \<noteq> []"
    using short_message_run [OF assms] by (auto simp: uprintf_def msg_def chars_def of_char_def nl_char_def bindR_eq_Inr)
  moreover have "msg ''pipe1 oops 2'' \<noteq> msg ''pipe1 ok''" by (simp add: msg_def chars_def of_char_def)
  ultimately show ?thesis using l [of 0 "5 * PIPE1_CHUNK"] by (auto simp: pipe1_verdict_def)
qed

text \<open>
  C33. The pipe test decides whether the pipe kept the bytes: the child writes the counting stream of 5165 bytes, and
  whatever the sizes in which the kernel delivers a stream to the parent, the parent prints \<^verbatim>\<open>pipe1 ok\<close> alone exactly when
  the stream is this one. It reports a wrong byte, and a stream that is too short or too long; after the latter it still
  prints \<^verbatim>\<open>pipe1 ok\<close>.
\<close>

theorem pipe1_decides:
  assumes "delivers K p0 str" "on_pipe K s = ((0, p0, p1), s0)" "on_call K CFork s0 = (child, s1)" "0 < child"
    and "length (str s1) < f" "length (str s1) < 2 ^ 31" "length buf = 2048"
    and "on_call K' CFork t0 = (0, t1)" "\<And>bs s. fst (on_call K' (CWrite p1 bs) s) = int (length bs)" "on_pipe K' t = ((0, p0, p1), t0)"
  shows "(\<exists>buf' s'. written K 1 (pipe1 f buf k) s = pipe1_verdict 0 (str s1) @ written K 1 (k buf') s') \<and>
    (pipe1_verdict 0 (str s1) = msg ''pipe1 ok'' \<longleftrightarrow> str s1 = written K' p1 (pipe1 f buf k) t)"
proof -
  let ?s2 = "snd (on_call K (CClose p1) s1)"
  have e: "str ?s2 = str s1" using assms(1) unfolding delivers_def by blast
  have "written K 1 (pipe1 f buf k) s = written K 1 (pipe1_read f p0 0 1 buf k) ?s2"
    using assms(2-4) by (simp add: pipe1_def written_go sent_def)
  then have v: "\<exists>buf' s'. written K 1 (pipe1 f buf k) s = pipe1_verdict 0 (str s1) @ written K 1 (k buf') s'"
    using pipe1_read_verdict [OF assms(1), of ?s2 f 0 1 buf k] assms(5-7) e by simp
  have c: "written K' p1 (pipe1 f buf k) t = counting 0 (5 * PIPE1_CHUNK)"
    using assms(7,8,10) pipe1_child [where K = K' and fd = p1 and buf = buf, OF assms(9)] by (simp add: pipe1_def written_go sent_def PIPE1_CHUNK_def)
  have "pipe1_verdict 0 (str s1) = msg ''pipe1 ok'' \<longleftrightarrow> str s1 = counting 0 (5 * PIPE1_CHUNK)" by (rule verdict_ok [OF assms(6)])
  then show ?thesis using v unfolding c by blast
qed

definition demo_kernel :: "int \<Rightarrow> u8 list ukernel" where
  "demo_kernel child = \<lparr>on_call = (\<lambda>c s. (case c of CFork \<Rightarrow> child | CWrite fd bs \<Rightarrow> int (length bs) | _ \<Rightarrow> 0, s)),
     on_read = (\<lambda>fd n s. ((int (length (take n s)), take n s), drop n s)),
     on_pipe = (\<lambda>s. ((0, 3, 4), s)), on_stat = (\<lambda>fd s. ((0, \<lparr>us_type = 2, us_dev = 1, us_ino = 5, us_nlink = 1, us_size = 0\<rparr>), s)),
     on_peek = (\<lambda>a s. (0, s)), on_poke = (\<lambda>a v s. s)\<rparr>"

theorem pipe1_decides_witness:
  "written (demo_kernel 7) 1 (pipe1 6000 (replicate 2048 0) (\<lambda>_. Exit)) (counting 0 5165) = msg ''pipe1 ok''"
proof -
  let ?x = "counting 0 5165"
  have d: "delivers (demo_kernel 7) 3 (\<lambda>s. s)" by (auto simp: delivers_def demo_kernel_def)
  have l: "length ?x = 5165" by (simp add: counting_def)
  have "\<exists>buf' s'. written (demo_kernel 7) 1 (pipe1 6000 (replicate 2048 0) (\<lambda>_. Exit)) ?x = pipe1_verdict 0 ?x @ written (demo_kernel 7) 1 Exit s'"
    using pipe1_decides [OF d, of ?x 4 ?x 7 ?x 6000 "replicate 2048 0" "demo_kernel 0" ?x ?x ?x "\<lambda>_. Exit"] l by (simp add: demo_kernel_def)
  moreover have "pipe1_verdict 0 ?x = msg ''pipe1 ok''" using verdict_ok [of ?x] l by (simp add: PIPE1_CHUNK_def)
  ultimately show ?thesis by simp
qed

section \<open>The test of big files\<close>

text \<open>Reads of 512 bytes deliver the blocks of a file one by one.\<close>

definition delivers_blocks :: "'s ukernel \<Rightarrow> int \<Rightarrow> ('s \<Rightarrow> u8 list list) \<Rightarrow> bool" where
  "delivers_blocks K fd str \<longleftrightarrow> (\<forall>s. on_read K fd 512 s =
     (case str s of [] \<Rightarrow> (0, []) | b # bs \<Rightarrow> (512, b), snd (on_read K fd 512 s)) \<and>
     str (snd (on_read K fd 512 s)) = tl (str s))"

lemma delivers_next:
  assumes "delivers_blocks K fd str"
  shows "on_read K fd 512 s = (case str s of [] \<Rightarrow> (0, []) | b # bs \<Rightarrow> (512, b), snd (on_read K fd 512 s))"
    "str (snd (on_read K fd 512 s)) = tl (str s)"
  using assms unfolding delivers_blocks_def by blast+

lemma get32_into: "length b = 512 \<Longrightarrow> get32 (into buf b) 0 = get32 b 0"
  by (simp add: get32_def into_def splice_def nth_append)

lemma writetest1_read_passes:
  assumes "delivers_blocks K fd str" "length (str s) < f" "\<forall>i<length (str s). length (str s ! i) = 512 \<and> get32 (str s ! i) 0 = of_nat (n + i)"
    "n + length (str s) \<noteq> MAXFILE - 1"
  shows "\<exists>buf' s'. written K 1 (writetest1_read f fd n buf k) s = written K 1 (k buf') s'"
  using assms(2-)
proof (induction f arbitrary: s n buf)
  case (Suc f)
  show ?case
  proof (cases "str s")
    case Nil
    then obtain t where "on_read K fd 512 s = ((0, []), t)" using delivers_next(1) [OF assms(1), of s] by auto
    then have "written K 1 (writetest1_read (Suc f) fd n buf k) s = written K 1 (k buf) t" using Suc.prems(3) Nil by simp
    then show ?thesis by blast
  next
    case (Cons b bs)
    then obtain t where rd: "on_read K fd 512 s = ((512, b), t)" using delivers_next(1) [OF assms(1), of s] by auto
    then have t: "str t = bs" using delivers_next(2) [OF assms(1), of s] Cons by simp
    have b: "length b = 512" "get32 b 0 = of_nat n" using Suc.prems(2) Cons by force+
    have "written K 1 (writetest1_read (Suc f) fd n buf k) s = written K 1 (writetest1_read f fd (Suc n) (into buf b) k) t"
      using rd b get32_into [OF b(1), of buf] by simp
    moreover have "\<exists>buf' s'. written K 1 (writetest1_read f fd (Suc n) (into buf b) k) t = written K 1 (k buf') s'"
    proof (rule Suc.IH)
      show "length (str t) < f" "Suc n + length (str t) \<noteq> MAXFILE - 1" using Suc.prems(1,3) Cons t by auto
      have "length (str t ! i) = 512 \<and> get32 (str t ! i) 0 = of_nat (Suc n + i)" if "i < length (str t)" for i
        using Suc.prems(2) [rule_format, of "Suc i"] Cons t that by simp
      then show "\<forall>i<length (str t). length (str t ! i) = 512 \<and> get32 (str t ! i) 0 = of_nat (Suc n + i)" by blast
    qed
    ultimately show ?thesis by metis
  qed
qed simp

lemma writetest1_write_passes:
  assumes "\<And>bs s. fst (on_call K (CWrite fd bs) s) = int (length bs)" "512 \<le> length buf" "fd \<noteq> 1"
  shows "\<exists>buf' s'. written K 1 (writetest1_write m i fd buf k) s = written K 1 (k buf') s'"
  using assms(2)
proof (induction m arbitrary: i buf s)
  case 0
  show ?case by auto
next
  case (Suc m)
  let ?buf = "put32 0 (of_nat i) buf"
  have "length ?buf = length buf" by (simp add: put32_def)
  moreover have "written K 1 (writetest1_write (Suc m) i fd buf k) s = written K 1 (writetest1_write m (Suc i) fd ?buf k) (snd (on_call K (CWrite fd (take 512 ?buf)) s))"
    using assms(1) [of "take 512 ?buf" s] assms(3) Suc.prems calculation by (simp add: Let_def sent_def case_prod_beta)
  ultimately show ?case using Suc.IH [of ?buf] Suc.prems by simp
qed

text \<open>
  C34. The test of big files accepts a file that has lost blocks. On a kernel whose calls succeed and that then reads back
  only the first blocks of the file, the test passes for every number of blocks but \<^verbatim>\<open>MAXFILE - 1\<close>: the check after the end
  of the file is for exactly one missing block.
\<close>

theorem writetest1_blind:
  assumes open_ok: "\<And>p m s. fst (on_call K (COpen p m) s) = fd" "2 < fd"
    and calls: "\<And>bs s. fst (on_call K (CWrite fd bs) s) = int (length bs)" "\<And>p s. fst (on_call K (CUnlink p) s) = 0"
    and contents: "\<And>s. str (snd (on_call K (COpen (chars ''big'') 0) s)) = bs" "delivers_blocks K fd str"
    and blocks: "\<forall>i<length bs. length (bs ! i) = 512 \<and> get32 (bs ! i) 0 = of_nat i" "length bs \<noteq> MAXFILE - 1" "length bs < f"
    and buf: "length buf = 2048"
  shows "\<exists>buf' s'. written K 1 (writetest1 f buf k) s = msg ''big files test'' @ msg ''big files ok'' @ written K 1 (k buf') s'"
proof -
  have pl: "plain (msg ''big files test'')" "plain (msg ''big files ok'')" by (simp_all add: plain_def msg_def chars_def of_char_def nl_char_def)
  define fin where "fin = (\<lambda>fd buf. go (CClose fd) (unless (CUnlink (chars ''big'')) (\<lambda>r. r < 0) (msg ''unlink big failed'') (tell (msg ''big files ok'') (k buf))))"
  have f: "\<exists>s'. written K 1 (fin fd b) t = msg ''big files ok'' @ written K 1 (k b) s'" for b t
    using calls(2) pl(2) by (auto simp: fin_def written_go unless_def written_tell sent_def case_prod_beta)
  have rd: "\<exists>b' t'. written K 1 (writetest1_read f fd 0 b (fin fd)) (snd (on_call K (COpen (chars ''big'') 0) t)) = written K 1 (fin fd b') t'" for b t
    using writetest1_read_passes [OF contents(2), of "snd (on_call K (COpen (chars ''big'') 0) t)" f 0 b "fin fd"] blocks by (simp add: contents(1))
  define mid where "mid = (\<lambda>fd buf. go (CClose fd) (Call (COpen (chars ''big'') 0) (\<lambda>fd. if fd < 0 then die (msg ''error: open big failed!'') else writetest1_read f fd 0 buf (fin fd))))"
  have m: "written K 1 (mid fd b) t = written K 1 (writetest1_read f fd 0 b (fin fd)) (snd (on_call K (COpen (chars ''big'') 0) (snd (on_call K (CClose fd) t))))" for b t
    using open_ok by (simp add: mid_def written_go sent_def case_prod_beta)
  let ?s0 = "snd (on_call K (COpen (chars ''big'') CREATE_RDWR) (snd (on_call K (CWrite 1 (msg ''big files test'')) s)))"
  have w: "writetest1 f buf k = tell (msg ''big files test'') (Call (COpen (chars ''big'') CREATE_RDWR) (\<lambda>fd.
      if fd < 0 then die (msg ''error: creat big failed!'') else writetest1_write MAXFILE 0 fd buf (mid fd)))"
    unfolding writetest1_def mid_def fin_def ..
  have a: "written K 1 (writetest1 f buf k) s = msg ''big files test'' @ written K 1 (writetest1_write MAXFILE 0 fd buf (mid fd)) ?s0"
    unfolding w written_tell [OF pl(1)] using open_ok by (simp add: sent_def case_prod_beta)
  have "\<exists>b t. written K 1 (writetest1_write MAXFILE 0 fd buf (mid fd)) ?s0 = written K 1 (mid fd b) t"
    using buf open_ok(2) by (intro writetest1_write_passes calls(1)) simp_all
  then show ?thesis unfolding a using m rd f by metis
qed

text \<open>A kernel that gives back three of the 140 blocks.\<close>

definition lossy_kernel :: "u8 list list ukernel" where
  "lossy_kernel = \<lparr>on_call = (\<lambda>c s. case c of
       COpen p m \<Rightarrow> (3, map (\<lambda>i. put32 0 (of_nat i) (replicate 512 0)) [0..<3])
     | CWrite fd bs \<Rightarrow> (int (length bs), s) | _ \<Rightarrow> (0, s)),
     on_read = (\<lambda>fd n s. case s of [] \<Rightarrow> ((0, []), []) | b # bs \<Rightarrow> ((512, b), bs)),
     on_pipe = (\<lambda>s. ((0, 3, 4), s)), on_stat = (\<lambda>fd s. ((0, \<lparr>us_type = 2, us_dev = 1, us_ino = 5, us_nlink = 1, us_size = 0\<rparr>), s)),
     on_peek = (\<lambda>a s. (0, s)), on_poke = (\<lambda>a v s. s)\<rparr>"

theorem writetest1_blind_witness:
  "written lossy_kernel 1 (writetest1 10 (replicate 2048 0) (\<lambda>_. Exit)) [] = msg ''big files test'' @ msg ''big files ok''"
proof -
  let ?bs = "map (\<lambda>i. put32 0 (of_nat i) (replicate 512 0)) [0..<3] :: u8 list list"
  have d: "delivers_blocks lossy_kernel 3 (\<lambda>s. s)" by (auto simp: delivers_blocks_def lossy_kernel_def split: list.split)
  have "\<forall>i<length ?bs. length (?bs ! i) = 512 \<and> get32 (?bs ! i) 0 = of_nat i" by (simp add: f32.get_put f32.length_put)
  moreover have "length ?bs \<noteq> MAXFILE - 1" "length ?bs < 10" by (simp_all add: MAXFILE_def NDIRECT_def NINDIRECT_def BSIZE_def)
  ultimately have "\<exists>buf' s'. written lossy_kernel 1 (writetest1 10 (replicate 2048 0) (\<lambda>_. Exit)) [] = msg ''big files test'' @ msg ''big files ok'' @ written lossy_kernel 1 Exit s'"
    using writetest1_blind [of lossy_kernel 3 "\<lambda>s. s" ?bs 10 "replicate 2048 0" "\<lambda>_. Exit" "[]"] d by (simp add: lossy_kernel_def)
  then show ?thesis by simp
qed

end
