(* ===== verification/Spec2Isabelle.thy ===== *)
theory Spec2Isabelle
  imports Boot Console_Lines CString Dump Exec_Demo Fs_Write Grep Pipe Proc_Fork Vm_Grow Mkfs_Boot Proc_Reap Scheduler Shell_Run Syscall_Args Umalloc Listing Usertests_Run
begin

text \<open>
  Verification of xv6 for the SH-4A processor: a small Unix kernel in C (\<^verbatim>\<open>src/*.c\<close>), its user library and
  programs, and the program that builds its disk image.

  \<^bold>\<open>The system.\<close> The kernel runs on one processor. Interrupts are blocked while a spinlock is held
  (\<^verbatim>\<open>spinlock.c\<close>). Physical pages come from a free list threaded through the pages themselves (\<^verbatim>\<open>kalloc.c\<close>); an
  address space is a two-level page table in such pages, copied into the TLB by software (\<^verbatim>\<open>vm.c\<close>). The process
  table, the scheduler, sleep and wakeup are in \<^verbatim>\<open>proc.c\<close>. The file system is a stack: a memory disk (\<^verbatim>\<open>ide.c\<close>), a
  buffer cache with a recency list (\<^verbatim>\<open>bio.c\<close>), and in \<^verbatim>\<open>fs.c\<close> the block bitmap, the inodes, the directories and
  the path names; above it the file table (\<^verbatim>\<open>file.c\<close>), pipes (\<^verbatim>\<open>pipe.c\<close>), the console (\<^verbatim>\<open>console.c\<close>), and the
  system calls (\<^verbatim>\<open>syscall.c\<close>, \<^verbatim>\<open>sysproc.c\<close>, \<^verbatim>\<open>sysfile.c\<close>, \<^verbatim>\<open>exec.c\<close>). User programs are linked with \<^verbatim>\<open>ulib.c\<close>,
  \<^verbatim>\<open>printf.c\<close> and \<^verbatim>\<open>umalloc.c\<close>; the largest are the shell (\<^verbatim>\<open>sh.c\<close>) and \<^verbatim>\<open>grep.c\<close>. \<^verbatim>\<open>mkfs.c\<close> runs on the host.

  \<^bold>\<open>How code is modelled.\<close> The global variables of the kernel form one record that grows from layer to layer
  (\<open>lockst\<close> and its owner in \<open>Spinlock\<close>, then \<open>kmem\<close>, the page tables, \<open>kproc\<close>, \<open>kbio\<close>, \<open>kfs\<close>, pipes, \<open>kfile\<close>,
  \<open>kcons\<close>): the operations of a layer are polymorphic in the fields above it. A C function becomes a function
  from the state to an outcome: \<open>Inr\<close> the result and the new state, or \<open>Inl\<close> of \<open>Panic\<close> with the message of the
  source, \<open>Sleep\<close> on a channel (the caller blocks), \<open>Spin\<close> (a loop that does not end) or \<open>Fault\<close> (a null pointer, or a read outside an array).
  Integers keep their width (\<open>u8\<close>, \<open>u16\<close>, \<open>u32\<close> of \<open>Prelude\<close>); structures on disk and in buffers are bytes in the
  little-endian layout of the machine. A context switch is the seam between two definitions: \<open>sleep_enter\<close> and
  \<open>sleep_resume\<close>, and likewise for \<^verbatim>\<open>sched\<close>, \<^verbatim>\<open>yield\<close> and \<^verbatim>\<open>scheduler\<close>. A user program is a tree of system calls.

  \<^bold>\<open>Theories, the sources they model and what they show.\<close>

  \<^item> \<open>Prelude\<close>: machine types, outcomes, byte layout (locale \<open>field_access\<close>, interpreted for 16 and 32 bit
    fields), lemmas on lists and words shared by all.
  \<^item> \<open>CString\<close> (\<^verbatim>\<open>string.c\<close>): closed forms of every routine; \<^verbatim>\<open>memmove\<close> is right for overlapping regions.
  \<^item> \<open>Spinlock\<close> (\<^verbatim>\<open>spinlock.c\<close>): interrupts are blocked while a lock is held, by rule induction over all runs; the
    equations in the collection \<open>run\<close> execute critical sections in the other theories.
  \<^item> \<open>Kalloc\<close> (\<^verbatim>\<open>kalloc.c\<close>): the free list as a list of pages; locale \<open>page_allocator\<close> is what \<open>Vm\<close> relies on.
  \<^item> \<open>Vm\<close>, \<open>Vm_Space\<close>, \<open>Vm_Grow\<close> (\<^verbatim>\<open>vm.c\<close>): page table walks in memory bytes; an address space as a map from user
    addresses to bytes; copying for \<^verbatim>\<open>fork\<close>, growing, shrinking and freeing, with exact accounting of pages.
  \<^item> \<open>Proc_Table\<close>, \<open>Proc_Life\<close>, \<open>Proc_Fork\<close>, \<open>Scheduler\<close> (\<^verbatim>\<open>proc.c\<close>): the step relation of the scheduler with
    exactly one running process and bounded waiting, and when exactly giving up the processor panics; \<^verbatim>\<open>fork\<close> as a copy of
    the parent.
  \<^item> \<open>Bio\<close> (\<^verbatim>\<open>ide.c\<close>, \<^verbatim>\<open>bio.c\<close>): coherence of the buffer cache and its recency list; locale \<open>block_cache\<close> is the
    contract the file system is proved against.
  \<^item> \<open>Fs_Block\<close>, \<open>Fs_Inode\<close>, \<open>Fs_Write\<close> (\<^verbatim>\<open>fs.c\<close>): the bitmap, block maps, and \<^verbatim>\<open>readi\<close> and \<^verbatim>\<open>writei\<close> as operations
    on byte strings that leave other files alone. The invariants are stated for the blocks below a limit, which is either
    the size of the disk (\<open>disk_size\<close>, \<^verbatim>\<open>sb.size\<close>) or the number of bits of the bitmap (\<open>bitmap_size\<close>; \<open>disk_ok\<close>, \<open>file_inv\<close> and \<open>space\<close> are
    this reading), because \<^verbatim>\<open>balloc\<close> does not check single blocks against \<^verbatim>\<open>sb.size\<close>.
  \<^item> \<open>Fs_Icache\<close>, \<open>Fs_Dir\<close>, \<open>Fs_Path\<close>, \<open>Fs_Link\<close> (\<^verbatim>\<open>fs.c\<close>): reference counts and locks of the inode cache,
    directories as maps from names to inodes, \<^verbatim>\<open>namei\<close> as the walk along a path, \<^verbatim>\<open>dirlink\<close> as a map update.
  \<^item> \<open>Mkfs\<close>, \<open>Mkfs_Image\<close>, \<open>Mkfs_Run\<close>, \<open>Mkfs_Boot\<close> (\<^verbatim>\<open>mkfs.c\<close>): the image is a well-formed file system (but for the
    root directory when its entries fill whole blocks), and the kernel finds by name and reads the files that were put into it.
  \<^item> \<open>Pipe\<close>, \<open>File\<close> (\<^verbatim>\<open>pipe.c\<close>, \<^verbatim>\<open>file.c\<close>): a pipe is a first-in first-out queue (locale \<open>ring_buffer\<close>).
  \<^item> \<open>Console\<close>, \<open>Console_Lines\<close> (\<^verbatim>\<open>console.c\<close>, \<^verbatim>\<open>scif.c\<close>): the interrupt handler refines a line editor on byte strings,
    and a read takes a line of what it made ready.
  \<^item> \<open>Syscall\<close>, \<open>Syscall_Args\<close>, \<open>Sysfile\<close>, \<open>Exec\<close> (\<^verbatim>\<open>syscall.c\<close>, \<^verbatim>\<open>sysproc.c\<close>, \<^verbatim>\<open>timer.c\<close>, \<^verbatim>\<open>sysfile.c\<close>, \<^verbatim>\<open>exec.c\<close>): every system
    call and the dispatch; what the check of pointer arguments accepts.
  \<^item> \<open>Exec_Load\<close>, \<open>Exec_Args\<close>, \<open>Exec_Run\<close>, \<open>Exec_Demo\<close> (\<^verbatim>\<open>exec.c\<close>): the program headers as a description of memory, which
    the loader builds page by page; the argument block on the stack; the whole call, from the path to the freed pages
    of the old program, and a program on a disk built by \<^verbatim>\<open>mkfs\<close> that it runs.
  \<^item> \<open>Kernel_Frame\<close>, \<open>Descriptors\<close>: a weakest-precondition rule for every kernel operation that says what it leaves alone,
    and with it the invariant of the reference counts of open files, over all system calls that end without sleeping. \<open>Proc_Reap\<close>: \<^verbatim>\<open>wait\<close>.
  \<^item> \<open>Boot\<close> (\<^verbatim>\<open>main.c\<close>, \<^verbatim>\<open>trap.c\<close> and the initialisation of the devices): from zeroed variables \<^verbatim>\<open>main\<close> reaches the
    scheduler with the invariants of all the theories above established and the first program in place. \<open>Dump\<close> (the
    dumps of \<^verbatim>\<open>vm.c\<close> and \<^verbatim>\<open>proc.c\<close>): they end and change nothing but the output.
  \<^item> \<open>Ulib\<close>, \<open>Umalloc\<close> (\<^verbatim>\<open>ulib.c\<close>, \<^verbatim>\<open>printf.c\<close>, \<^verbatim>\<open>umalloc.c\<close>): \<^verbatim>\<open>atoi\<close> reads what \<^verbatim>\<open>printf\<close> writes; every byte of the
    heap is free or in exactly one allocated block, for requests that are positive numbers for \<^verbatim>\<open>sbrk\<close>.
  \<^item> \<open>Grep\<close> (\<^verbatim>\<open>grep.c\<close>): the matcher decides the language of the pattern; what the line buffer does across reads.
  \<^item> \<open>Shell\<close>, \<open>Shell_Words\<close>, \<open>Shell_Syntax\<close>, \<open>User\<close>, \<open>Shell_Run\<close> (\<^verbatim>\<open>sh.c\<close> and the small programs): the parser ends, reads
    back what is printed, and a command line has exactly the behaviours its syntax means. \<open>runs\<close> in \<open>User\<close> says what a program
    can do as a process: system calls that may fail, children that run at the same time, \<^verbatim>\<open>wait\<close>, and the start and end of the
    programs it executes; \<open>means\<close> and \<open>session\<close> in \<open>Shell_Run\<close> specify commands and sessions over the same events.
  \<^item> \<open>Listing\<close> (\<^verbatim>\<open>ls.c\<close>, \<^verbatim>\<open>main\<close> of \<^verbatim>\<open>grep.c\<close>), \<open>Usertests\<close>, \<open>Usertests_Fs\<close>, \<open>Usertests_Main\<close>, \<open>Usertests_Run\<close>
    (\<^verbatim>\<open>usertests.c\<close>): programs as trees; which streams the pipe test accepts, and which files the test of big files
    accepts although they have lost blocks.

  \<^bold>\<open>Bounds and fuel.\<close> Loops that end are recursive functions with a measure. Loops over machine words that the
  source bounds only by wrap-around take fuel that covers every value: the page loops of \<open>Vm\<close> have \<open>2^20 + 1\<close>
  rounds (one per page of the address space), the bitmap scan of \<^verbatim>\<open>balloc\<close> \<open>2^20\<close>, \<^verbatim>\<open>dirlink\<close> and \<^verbatim>\<open>isdirempty\<close> \<open>2^28\<close>
  (one per slot of \<open>2^32\<close> bytes), the digit loops of the two \<^verbatim>\<open>printint\<close> 32 and 10, the walk along the buffer list
  \<open>NBUF + 1\<close>, the shell parser four levels per byte. Running out of it is \<open>Spin\<close>, and the laws of the operations
  show that it does not happen. The search loops of \<^verbatim>\<open>malloc\<close> and \<^verbatim>\<open>free\<close> are partial functions whose termination is
  part of the theorems. Programs that run for ever (\<^verbatim>\<open>init\<close>, \<^verbatim>\<open>cat\<close> on an endless input) take the number of rounds
  that their tree unfolds.

  \<^bold>\<open>Parameters.\<close> Code that is not in the repository enters as a parameter: the files of the host and what follows the
  super block in memory for \<^verbatim>\<open>mkfs\<close>, the characters the serial line delivers, the values of uninitialised memory.

  \<^bold>\<open>Idealisations.\<close> The disk is a function from sector numbers to blocks of 512 bytes: the address arithmetic of \<^verbatim>\<open>ide.c\<close> in the
  memory that holds the image, its wrap-around for sector numbers from \<open>2^23\<close> on and the end of the image are not in the model, and
  \<open>disk_of\<close> continues an image with zero blocks; theorems that allocate blocks below \<^verbatim>\<open>sb.size\<close> (\<open>writei_refines\<close>) do not reach them. The
  trapframe and the context of a process are fields of its entry instead of bytes of its kernel stack, and a pipe is an
  entry of a map instead of bytes of its page; the pages themselves are accounted for. The nesting counter of \<^verbatim>\<open>pushcli\<close> is an
  unbounded integer. A system call that has to sleep ends with \<open>Sleep\<close> and no state: what follows the sleep is modelled for the
  operations that are split at it, not for the whole call. \<open>reach\<close> in \<open>Scheduler\<close> is a step relation for the process table and its lock;
  changes of memory and files by the running process, \<^verbatim>\<open>exec\<close> among them, are outside it, as is a \<^verbatim>\<open>fork\<close> that fails. The message
  \<^verbatim>\<open>allocuvm out of memory\<close> is not printed. \<^verbatim>\<open>mkfs\<close> is modelled for a host whose \<^verbatim>\<open>lseek\<close>, \<^verbatim>\<open>read\<close> and \<^verbatim>\<open>write\<close> on the image succeed.

  \<^bold>\<open>Not modelled.\<close> The assembly files (entry, trap vectors, the register switch) and the device registers that are
  only read; the text printed by \<^verbatim>\<open>mkfs\<close>; of \<^verbatim>\<open>usertests.c\<close> the test \<^verbatim>\<open>mem\<close>, which is never called. The time between a sleep
  and the wakeup that ends it is covered by the step relation of \<open>Scheduler\<close> only; the other components are proved for
  runs that no other process interrupts between two sleeps, which is what one processor with a kernel that gives up
  the processor only in \<^verbatim>\<open>sleep\<close> and \<^verbatim>\<open>yield\<close> provides.
\<close>

end
